(* ===== verification/Prelude.thy ===== *)
theory Prelude
  imports Main "HOL-Library.Word" "HOL-Library.Char_ord" "HOL-Library.Sublist"
begin

unbundle bit_operations_syntax

text \<open>
  What every component of the development shares: the machine types of the C code, the
  result codes of \<^verbatim>\<open>sqlite.h\<close>, reading a NUL-terminated C string held as a list of
  characters, and the collections of simplification rules that carry the proofs.
\<close>

section \<open>Machine types\<close>

type_synonym u8 = "8 word"
type_synonym u32 = "32 word"

text \<open>Rules that unfold the result of one operation, one collection per kind of proof.\<close>

named_theorems cstr_simps \<open>reading C strings\<close>
named_theorems byte_simps \<open>bytes and their residues\<close>

section \<open>C strings\<close>

text \<open>
  A NUL-terminated string is the list of its characters before the terminator.
  \<open>zat z i\<close> is the character the code reads with \<^verbatim>\<open>z[i]\<close>: the terminator at index
  \<open>length z\<close>, and nothing (\<open>None\<close>) past it, where C has an out-of-bounds read.
\<close>

definition NUL :: char where
  "NUL = CHR 0x00"

definition zat :: "string \<Rightarrow> nat \<Rightarrow> char option" where
  "zat z i = (if i < length z then Some (z ! i) else if i = length z then Some NUL else None)"

definition zhd :: "string \<Rightarrow> char" where
  "zhd z = (case z of [] \<Rightarrow> NUL | c # _ \<Rightarrow> c)"

definition cstring :: "string \<Rightarrow> bool" where
  "cstring z \<longleftrightarrow> NUL \<notin> set z"

lemma zhd_simps [simp, cstr_simps]:
  "zhd [] = NUL" "zhd (c # cs) = c"
  by (simp_all add: zhd_def)

lemma cstring_simps [simp, cstr_simps]:
  "cstring []" "cstring (c # cs) \<longleftrightarrow> c \<noteq> NUL \<and> cstring cs"
  "cstring (xs @ ys) \<longleftrightarrow> cstring xs \<and> cstring ys"
  by (auto simp: cstring_def)

lemma cstring_zhd: "cstring z \<Longrightarrow> zhd z = NUL \<longleftrightarrow> z = []"
  by (cases z) auto

lemma zat_Cons [simp]: "zat (c # z) (Suc i) = zat z i"
  by (simp add: zat_def)

lemma zat_0: "zat z 0 = Some (zhd z)"
  by (cases z) (simp_all add: zat_def)

lemma zat_in: "i \<le> length z \<Longrightarrow> \<exists>c. zat z i = Some c"
  by (auto simp: zat_def)

text \<open>The value of a character as the \<^verbatim>\<open>unsigned char\<close> the code indexes tables with.\<close>

abbreviation uchar :: "char \<Rightarrow> nat" where
  "uchar c \<equiv> of_char c"

text \<open>
  The library comparisons, of which C promises the sign only: \<open>strcmp\<close> compares up to the
  terminator and \<open>memcmp\<close> a given number of bytes, both as \<^verbatim>\<open>unsigned char\<close>.
\<close>

fun memcmp :: "string \<Rightarrow> string \<Rightarrow> nat \<Rightarrow> int" where
  "memcmp (x # xs) (y # ys) (Suc n) =
     (if x = y then memcmp xs ys n else int (uchar x) - int (uchar y))"
| "memcmp _ _ _ = 0"

fun strcmp :: "string \<Rightarrow> string \<Rightarrow> int" where
  "strcmp (x # xs) (y # ys) = (if x = y then strcmp xs ys else int (uchar x) - int (uchar y))"
| "strcmp [] ys = 0 - int (uchar (zhd ys))"
| "strcmp xs [] = int (uchar (zhd xs))"

definition isdigit :: "char \<Rightarrow> bool" where
  "isdigit c \<longleftrightarrow> CHR ''0'' \<le> c \<and> c \<le> CHR ''9''"

definition digit_val :: "char \<Rightarrow> nat" where
  "digit_val c = uchar c - uchar (CHR ''0'')"

lemma isdigit_iff: "isdigit c \<longleftrightarrow> 48 \<le> uchar c \<and> uchar c \<le> 57"
  by (simp add: isdigit_def less_eq_char_def)

lemma isdigit_NUL [simp]: "\<not> isdigit NUL"
  by (simp add: isdigit_iff NUL_def)

section \<open>Small arithmetic facts\<close>

lemma and_255_nat [byte_simps]: "(n::nat) AND 255 = n mod 256"
proof -
  have "n AND mask 8 = take_bit 8 n" by (simp add: take_bit_eq_mask)
  then show ?thesis by (simp add: mask_eq_exp_minus_1 take_bit_eq_mod)
qed

lemma and_192: "(192::nat) AND n = 64 * (n div 64 mod 4)"
proof -
  have "push_bit 6 (mask 2) AND n = push_bit 6 (take_bit 2 (drop_bit 6 n))"
    by (rule bit_eqI) (auto simp: bit_simps)
  then show ?thesis by (simp add: mask_eq_exp_minus_1 push_bit_eq_mult take_bit_eq_mod drop_bit_eq_div mult.commute)
qed

section \<open>Characters and their codes\<close>

lemma uchar_0 [simp]: "uchar c = 0 \<longleftrightarrow> c = NUL"
  using of_char_eq_iff [where 'a = nat, of c "CHR 0x00"] by (simp add: NUL_def)

end
