(* ===== verification/Encode.thy ===== *)
theory Encode
  imports Prelude
begin

unbundle bit_operations_syntax

text \<open>
  The binary encoder of \<^verbatim>\<open>sqlite/encode.c\<close>: a byte buffer is turned into a string without
  NUL and without apostrophes, so that it can stand between quotes in an SQL statement, and
  back. The array \<open>cnt\<close> is a function on bytes, the variable \<open>e\<close>, which the C code
  declares without an initial value, is an option, and the output buffer is the list of the
  bytes written to it, the terminator included.
\<close>

section \<open>The encoder\<close>

fun count_bytes :: "u8 list \<Rightarrow> nat \<Rightarrow> (u8 \<Rightarrow> nat) \<Rightarrow> (u8 \<Rightarrow> nat)" where
  \<comment> \<open>for(i=n-1; i>=0; i--)\<close>
  "count_bytes ins 0 cnt = cnt"
| "count_bytes ins (Suc i) cnt = count_bytes ins i (cnt(ins ! i := Suc (cnt (ins ! i))))"

definition escape_sum :: "(u8 \<Rightarrow> nat) \<Rightarrow> nat \<Rightarrow> nat" where
  "escape_sum cnt i = cnt (of_nat i) + cnt (of_nat ((i + 1) AND 0xff)) + cnt (of_nat ((i + 0x27) AND 0xff))"

function choose_offset :: "(u8 \<Rightarrow> nat) \<Rightarrow> nat \<Rightarrow> nat \<Rightarrow> u8 option \<Rightarrow> nat \<times> u8 option" where
  \<comment> \<open>for(i=1; i<256; i++), with the current minimum \<open>m\<close> and the offset \<open>e\<close>\<close>
  "choose_offset cnt i m e =
     (if i < 256 then
        if i = 0x27 then choose_offset cnt (i + 1) m e
        else
          let sum = escape_sum cnt i
          in if sum < m then
               if sum = 0 then (sum, Some (of_nat i))
               else choose_offset cnt (i + 1) sum (Some (of_nat i))
             else choose_offset cnt (i + 1) m e
      else (m, e))"
  by pat_completeness auto
termination
  by (relation "measure (\<lambda>(cnt, i, m, e). 256 - i)") auto

declare choose_offset.simps [simp del]

fun encode_bytes :: "u8 \<Rightarrow> u8 list \<Rightarrow> u8 list" where
  \<comment> \<open>for(i=0; i<n; i++)\<close>
  "encode_bytes e [] = []"
| "encode_bytes e (b # bs) =
     (let c = b - e
      in if c = 0 then 1 # 1 # encode_bytes e bs
         else if c = 1 then 1 # 2 # encode_bytes e bs
         else if c = 0x27 then 1 # 3 # encode_bytes e bs
         else c # encode_bytes e bs)"

text \<open>
  The result is the return value and the contents of \<open>out\<close>; it is \<open>None\<close> when the code
  would write the uninitialised \<open>e\<close> to the output.
\<close>

definition sqlite_encode_binary :: "u8 list \<Rightarrow> int \<Rightarrow> (int \<times> u8 list) option" where
  "sqlite_encode_binary ins n =
     (if n \<le> 0 then Some (1, [0x78, 0])
      else
        let cnt = count_bytes ins (nat n) (\<lambda>_. 0)
        in case choose_offset cnt 1 (nat n) None of
             (m, None) \<Rightarrow> None
           | (m, Some e) \<Rightarrow>
               let out = e # encode_bytes e (take (nat n) ins)
               in Some (int (length out), out @ [0]))"

section \<open>The decoder\<close>

text \<open>
  The loop reads up to the NUL terminator; a list that ends without one is read past its end,
  and so has no result (\<open>None\<close>). A malformed escape returns -1, and the bytes already
  written stay in \<open>out\<close>.
\<close>

fun decode_bytes :: "u8 \<Rightarrow> u8 list \<Rightarrow> u8 list \<Rightarrow> (int \<times> u8 list) option" where
  "decode_bytes e [] out = None"
| "decode_bytes e (c # ins) out =
     (if c = 0 then Some (int (length out), out)
      else if c = 1 then
        (case ins of
           [] \<Rightarrow> None
         | c' # ins' \<Rightarrow>
             if c' = 1 then decode_bytes e ins' (out @ [0 + e])
             else if c' = 2 then decode_bytes e ins' (out @ [1 + e])
             else if c' = 3 then decode_bytes e ins' (out @ [0x27 + e])
             else Some (-1, out))
      else decode_bytes e ins (out @ [c + e]))"

definition sqlite_decode_binary :: "u8 list \<Rightarrow> (int \<times> u8 list) option" where
  "sqlite_decode_binary ins =
     (case ins of [] \<Rightarrow> None | e # ins' \<Rightarrow> decode_bytes e ins' [])"

section \<open>Round trip\<close>

lemma decode_encode_bytes:
  "decode_bytes e (encode_bytes e bs @ [0]) out = Some (int (length (out @ bs)), out @ bs)"
  by (induction bs arbitrary: out) (auto simp: Let_def diff_eq_eq)

section \<open>Escapes and length\<close>

definition escaped :: "u8 \<Rightarrow> u8 \<Rightarrow> bool" where
  "escaped e b \<longleftrightarrow> b - e = 0 \<or> b - e = 1 \<or> b - e = 0x27"

lemma length_encode_bytes:
  "length (encode_bytes e bs) = length bs + length (filter (escaped e) bs)"
  by (induction bs) (auto simp: Let_def escaped_def)

lemma encode_bytes_clean: "b \<in> set (encode_bytes e bs) \<Longrightarrow> b \<noteq> 0 \<and> b \<noteq> 0x27"
  by (induction bs) (auto simp: Let_def split: if_splits)

lemma count_bytes_count:
  "n \<le> length ins \<Longrightarrow> count_bytes ins n cnt b = cnt b + count_list (take n ins) b"
proof (induction n arbitrary: cnt)
  case (Suc n)
  then show ?case by (simp add: take_Suc_conv_app_nth)
qed simp

lemma sum_count_list: "(\<Sum>b\<in>UNIV. count_list bs (b::u8)) = length bs"
proof (induction bs)
  case (Cons a bs)
  have "(\<Sum>b\<in>UNIV. count_list (a # bs) b) = (\<Sum>b\<in>UNIV. (if a = b then 1 else 0) + count_list bs b)"
    by (rule sum.cong) auto
  also have "\<dots> = 1 + length bs" using Cons by (simp add: sum.distrib)
  finally show ?case by simp
qed simp

lemma escape_sum_word:
  "escape_sum cnt i = cnt (of_nat i) + cnt (of_nat i + 1) + cnt (of_nat i + 0x27)"
proof -
  have red: "(of_nat (k AND 255) :: u8) = of_nat k" for k
    by (simp add: and_255_nat word_of_nat_eq_iff take_bit_eq_mod)
  show ?thesis by (simp add: escape_sum_def red add.commute)
qed

lemma escapes_count:
  "length (filter (escaped e) bs) = count_list bs e + count_list bs (e + 1) + count_list bs (e + 0x27)"
proof (induction bs)
  case (Cons b bs)
  have "escaped e b \<longleftrightarrow> b = e \<or> b = e + 1 \<or> b = e + 0x27"
    by (auto simp: escaped_def diff_eq_eq add.commute)
  moreover have "e \<noteq> e + 1" "e \<noteq> e + 0x27" "e + 1 \<noteq> e + 0x27"
    by simp_all
  ultimately show ?case using Cons by auto
qed simp

section \<open>The choice of the offset\<close>

text \<open>
  What the scan has established when it reaches index \<open>i\<close> with minimum \<open>m\<close>: \<open>m\<close> is the
  sum at the offset \<open>e\<close> and no larger than any sum seen so far.
\<close>

definition offsets :: "nat \<Rightarrow> nat set" where
  "offsets i = {k. 1 \<le> k \<and> k < i \<and> k \<noteq> 0x27}"

definition scan_inv :: "(u8 \<Rightarrow> nat) \<Rightarrow> nat \<Rightarrow> nat \<Rightarrow> nat \<Rightarrow> u8 option \<Rightarrow> bool" where
  "scan_inv cnt n i m e \<longleftrightarrow>
     (\<forall>k \<in> offsets i. m \<le> escape_sum cnt k) \<and> m \<le> n \<and>
     (case e of None \<Rightarrow> m = n
      | Some b \<Rightarrow> b \<noteq> 0 \<and> b \<noteq> 0x27 \<and> (\<exists>k. b = of_nat k \<and> m = escape_sum cnt k))"

lemma offsets_Suc:
  "1 \<le> i \<Longrightarrow> offsets (i + 1) = (if i = 0x27 then offsets i else insert i (offsets i))"
  by (auto simp: offsets_def)

lemma of_nat_offset:
  assumes "1 \<le> i" "i < 256" "i \<noteq> 0x27"
  shows "(of_nat i :: u8) \<noteq> 0 \<and> (of_nat i :: u8) \<noteq> 0x27"
proof -
  have "unat (of_nat i :: u8) = i" using assms by (simp add: unat_of_nat)
  then show ?thesis using assms by auto
qed

lemma choose_offset_inv:
  assumes "1 \<le> i" "i \<le> 256" "scan_inv cnt n i m e" "choose_offset cnt i m e = (m', e')"
  shows "scan_inv cnt n 256 m' e'"
  using assms
proof (induction cnt i m e rule: choose_offset.induct)
  case (1 cnt i m e)
  note unfold = choose_offset.simps [of cnt i m e]
  show ?case
  proof (cases "i < 256")
    case False
    then show ?thesis using "1.prems" unfold by auto
  next
    case True
    show ?thesis
    proof (cases "i = 0x27")
      case i: True
      have "scan_inv cnt n (i + 1) m e"
        using "1.prems"(3) offsets_Suc[OF "1.prems"(1)] i by (auto simp: scan_inv_def)
      then show ?thesis using "1.prems" "1.IH"(1) True i unfold by simp
    next
      case i: False
      let ?s = "escape_sum cnt i"
      have word: "(of_nat i :: u8) \<noteq> 0" "(of_nat i :: u8) \<noteq> 0x27"
        using of_nat_offset "1.prems"(1) True i by auto
      consider "?s < m" "?s = 0" | "?s < m" "?s \<noteq> 0" | "\<not> ?s < m" by blast
      then show ?thesis
      proof cases
        case 1
        then have "m' = 0" "e' = Some (of_nat i)" using "1.prems"(4) True i unfold by auto
        then show ?thesis using word 1 by (auto simp: scan_inv_def)
      next
        case 2
        have "scan_inv cnt n (i + 1) ?s (Some (of_nat i))"
          unfolding scan_inv_def
        proof (intro conjI)
          show "\<forall>k\<in>offsets (i + 1). ?s \<le> escape_sum cnt k"
            using "1.prems"(3) offsets_Suc[OF "1.prems"(1)] i 2 by (fastforce simp: scan_inv_def)
          show "?s \<le> n" using "1.prems"(3) 2 by (auto simp: scan_inv_def)
        qed (use word in auto)
        then show ?thesis using "1.prems" "1.IH"(2) True i 2 unfold by (simp add: Let_def)
      next
        case 3
        have "scan_inv cnt n (i + 1) m e"
          using "1.prems"(3) offsets_Suc[OF "1.prems"(1)] i 3 by (fastforce simp: scan_inv_def)
        then show ?thesis using "1.prems" "1.IH"(3) True i 3 unfold by (simp add: Let_def)
      qed
    qed
  qed
qed

text \<open>Each byte of the input takes part in at most three of the sums.\<close>

lemma sum_offsets_le:
  "(\<Sum>k \<in> offsets 256. escape_sum (count_list bs) k) \<le> 3 * length bs"
proof -
  have fin: "finite (offsets 256)" by (simp add: offsets_def)
  have inj: "inj_on (\<lambda>k. of_nat k + d :: u8) (offsets 256)" for d
    by (rule inj_onI) (simp add: offsets_def word_of_nat_eq_iff take_bit_eq_mod)
  have le: "(\<Sum>k \<in> offsets 256. count_list bs (of_nat k + d)) \<le> length bs" for d :: u8
  proof -
    have "(\<Sum>k \<in> offsets 256. count_list bs (of_nat k + d)) =
        (\<Sum>b \<in> (\<lambda>k. of_nat k + d) ` offsets 256. count_list bs b)"
      using inj by (simp add: sum.reindex)
    also have "\<dots> \<le> (\<Sum>b\<in>UNIV. count_list bs b)"
      by (rule sum_mono2) auto
    finally show ?thesis by (simp add: sum_count_list)
  qed
  have "(\<Sum>k \<in> offsets 256. escape_sum (count_list bs) k) =
      (\<Sum>k \<in> offsets 256. count_list bs (of_nat k + 0)) +
      (\<Sum>k \<in> offsets 256. count_list bs (of_nat k + 1)) +
      (\<Sum>k \<in> offsets 256. count_list bs (of_nat k + 0x27))"
    by (simp add: escape_sum_word sum.distrib)
  then show ?thesis using le[of 0] le[of 1] le[of "0x27"] by linarith
qed

lemma card_offsets: "card (offsets 256) = 254"
proof -
  have "offsets 256 = {1..<256} - {0x27}" by (auto simp: offsets_def)
  then show ?thesis by simp
qed

text \<open>
  The scan always picks an offset (the average of 254 sums is below the length), and the
  number of escapes at that offset is at most that average.
\<close>

lemma choose_offset_ok:
  assumes "bs \<noteq> []" "choose_offset (count_list bs) 1 (length bs) None = (m, e)"
  shows "\<exists>b. e = Some b \<and> b \<noteq> 0 \<and> b \<noteq> 0x27 \<and> m = length (filter (escaped b) bs) \<and> 254 * m \<le> 3 * length bs"
proof -
  have "scan_inv (count_list bs) (length bs) 1 (length bs) None"
    by (simp add: scan_inv_def offsets_def)
  from choose_offset_inv [OF _ _ this assms(2)]
  have inv: "scan_inv (count_list bs) (length bs) 256 m e" by simp
  have "254 * m = (\<Sum>k \<in> offsets 256. m)" by (simp add: card_offsets)
  also have "\<dots> \<le> (\<Sum>k \<in> offsets 256. escape_sum (count_list bs) k)"
    using inv by (intro sum_mono) (auto simp: scan_inv_def)
  finally have avg: "254 * m \<le> 3 * length bs" using sum_offsets_le[of bs] by linarith
  moreover have "0 < length bs" using assms(1) by simp
  ultimately have "m \<noteq> length bs" by linarith
  then show ?thesis using inv avg
    by (auto simp: scan_inv_def escapes_count escape_sum_word split: option.splits)
qed

lemma encode_result:
  assumes "0 < n" "nat n \<le> length ins"
  shows "\<exists>e. sqlite_encode_binary ins n =
      Some (1 + n + int (length (filter (escaped e) (take (nat n) ins))),
            e # encode_bytes e (take (nat n) ins) @ [0])
    \<and> e \<noteq> 0 \<and> e \<noteq> 0x27
    \<and> 254 * length (filter (escaped e) (take (nat n) ins)) \<le> 3 * nat n"
proof -
  let ?bs = "take (nat n) ins"
  have len: "length ?bs = nat n" using assms by simp
  have cnt: "count_bytes ins (nat n) (\<lambda>_. 0) = count_list ?bs"
    using assms count_bytes_count[of "nat n" ins "\<lambda>_. 0"] by auto
  obtain m e where c: "choose_offset (count_list ?bs) 1 (nat n) None = (m, e)" by fastforce
  have "?bs \<noteq> []" using assms len by auto
  from choose_offset_ok[OF this] c len obtain b where
    "e = Some b" "b \<noteq> 0" "b \<noteq> 0x27" "m = length (filter (escaped b) ?bs)" "254 * m \<le> 3 * nat n"
    by auto
  then show ?thesis using c cnt assms
    by (intro exI[of _ b]) (simp add: sqlite_encode_binary_def length_encode_bytes)
qed

section \<open>Properties\<close>

text \<open>
  C23: decoding what \<^verbatim>\<open>sqlite_encode_binary\<close> wrote gives back the first \<open>n\<close> bytes of the
  input and returns their number, for every buffer and every \<open>n\<close> it holds; in particular the
  encoder never uses its offset variable uninitialised. (For \<open>n \<le> 0\<close> the output is the
  empty encoding.)
\<close>

theorem encode_decode_binary:
  assumes "nat n \<le> length ins"
  shows "\<exists>j out. sqlite_encode_binary ins n = Some (j, out) \<and>
    sqlite_decode_binary out = Some (int (nat n), take (nat n) ins)"
proof (cases "0 < n")
  case True
  from encode_result[OF this assms] assms show ?thesis
    using decode_encode_bytes[of _ "take (nat n) ins" "[]"]
    by (fastforce simp: sqlite_decode_binary_def min_def)
next
  case False
  then show ?thesis by (auto simp: sqlite_encode_binary_def sqlite_decode_binary_def)
qed

theorem encode_decode_binary_witness:
  "\<exists>j out. sqlite_encode_binary [0, 1, 0x27, 0xff] 3 = Some (j, out) \<and>
    sqlite_decode_binary out = Some (3, [0, 1, 0x27])"
  using encode_decode_binary[of 3 "[0, 1, 0x27, 0xff]"] by simp

text \<open>
  C25: the encoded string can stand in an SQL literal: it holds no apostrophe, its only NUL is
  the terminator at the index the encoder returns, and, terminator included, it is no longer
  than the \<open>2 + (257 * n) / 254\<close> bytes the caller has to provide.
\<close>

theorem encode_binary_safe:
  assumes "0 \<le> n" "nat n \<le> length ins" "sqlite_encode_binary ins n = Some (j, out)"
  shows "\<exists>body. out = body @ [0] \<and> j = int (length body) \<and> 0 \<notin> set body \<and> 0x27 \<notin> set body
    \<and> int (length out) \<le> 2 + (257 * n) div 254"
proof (cases "0 < n")
  case True
  from encode_result[OF this assms(2)] assms show ?thesis
    using encode_bytes_clean by (fastforce simp: length_encode_bytes min_def)
next
  case False
  then show ?thesis using assms by (auto simp: sqlite_encode_binary_def)
qed

theorem encode_binary_safe_witness:
  "\<exists>j out body. sqlite_encode_binary [0x27, 0, 0x27] 3 = Some (j, out) \<and> out = body @ [0]
    \<and> 0x27 \<notin> set body \<and> int (length out) \<le> 5"
proof -
  obtain j out where r: "sqlite_encode_binary [0x27, 0, 0x27] 3 = Some (j, out)"
    using encode_result[of 3 "[0x27, 0, 0x27]"] by auto
  show ?thesis using encode_binary_safe[OF _ _ r] r by auto
qed

end
