(* ===== verification/Md5.thy ===== *)
theory Md5
  imports Prelude "HOL-Library.Monad_Syntax"
begin

unbundle bit_operations_syntax

text \<open>
  The MD5 digest of \<^verbatim>\<open>flmail/md5.c\<close>, which the mail client uses for its APOP and message
  identifiers: the compression function with its 64 steps, the incremental interface
  \<open>md5_init\<close>, \<open>md5_append\<close>, \<open>md5_finish\<close> over a 64-byte buffer and a 64-bit
  length kept in two words, and the one-shot digest of RFC 1321 as the specification that the
  incremental interface is shown to compute, however the message is cut into pieces.
\<close>

section \<open>The constants and the step\<close>

type_synonym md5_abcd = "u32 \<times> u32 \<times> u32 \<times> u32"

definition T_MASK :: u32 where
  "T_MASK = NOT 0"

definition md5_Ts :: "u32 list" where
  "md5_Ts =
    [
     T_MASK XOR 0x28955b87, T_MASK XOR 0x173848a9, 0x242070db, T_MASK XOR 0x3e423111,
     T_MASK XOR 0x0a83f050, 0x4787c62a, T_MASK XOR 0x57cfb9ec, T_MASK XOR 0x02b96afe,
     0x698098d8, T_MASK XOR 0x74bb0850, T_MASK XOR 0x0000a44e, T_MASK XOR 0x76a32841,
     0x6b901122, T_MASK XOR 0x02678e6c, T_MASK XOR 0x5986bc71, 0x49b40821,
     T_MASK XOR 0x09e1da9d, T_MASK XOR 0x3fbf4cbf, 0x265e5a51, T_MASK XOR 0x16493855,
     T_MASK XOR 0x29d0efa2, 0x02441453, T_MASK XOR 0x275e197e, T_MASK XOR 0x182c0437,
     0x21e1cde6, T_MASK XOR 0x3cc8f829, T_MASK XOR 0x0b2af278, 0x455a14ed,
     T_MASK XOR 0x561c16fa, T_MASK XOR 0x03105c07, 0x676f02d9, T_MASK XOR 0x72d5b375,
     T_MASK XOR 0x0005c6bd, T_MASK XOR 0x788e097e, 0x6d9d6122, T_MASK XOR 0x021ac7f3,
     T_MASK XOR 0x5b4115bb, 0x4bdecfa9, T_MASK XOR 0x0944b49f, T_MASK XOR 0x4140438f,
     0x289b7ec6, T_MASK XOR 0x155ed805, T_MASK XOR 0x2b10cf7a, 0x04881d05,
     T_MASK XOR 0x262b2fc6, T_MASK XOR 0x1924661a, 0x1fa27cf8, T_MASK XOR 0x3b53a99a,
     T_MASK XOR 0x0bd6ddbb, 0x432aff97, T_MASK XOR 0x546bdc58, T_MASK XOR 0x036c5fc6,
     0x655b59c3, T_MASK XOR 0x70f3336d, T_MASK XOR 0x00100b82, T_MASK XOR 0x7a7ba22e,
     0x6fa87e4f, T_MASK XOR 0x01d3191f, T_MASK XOR 0x5cfebceb, 0x4e0811a1,
     T_MASK XOR 0x08ac817d, T_MASK XOR 0x42c50dca, 0x2ad7d2bb, T_MASK XOR 0x14792c6e]"

definition md5_T :: "nat \<Rightarrow> u32" where
  "md5_T i = md5_Ts ! (i - 1)"

definition ROTATE_LEFT :: "u32 \<Rightarrow> nat \<Rightarrow> u32" where
  "ROTATE_LEFT x n = push_bit n x OR drop_bit (32 - n) x"

definition md5_F :: "u32 \<Rightarrow> u32 \<Rightarrow> u32 \<Rightarrow> u32" where
  "md5_F x y z = (x AND y) OR (NOT x AND z)"

definition md5_G :: "u32 \<Rightarrow> u32 \<Rightarrow> u32 \<Rightarrow> u32" where
  "md5_G x y z = (x AND z) OR (y AND NOT z)"

definition md5_H :: "u32 \<Rightarrow> u32 \<Rightarrow> u32 \<Rightarrow> u32" where
  "md5_H x y z = x XOR y XOR z"

definition md5_I :: "u32 \<Rightarrow> u32 \<Rightarrow> u32 \<Rightarrow> u32" where
  "md5_I x y z = y XOR (x OR NOT z)"

definition md5_SET :: "(u32 \<Rightarrow> u32 \<Rightarrow> u32 \<Rightarrow> u32) \<Rightarrow> u32 \<Rightarrow> u32 \<Rightarrow> u32 \<Rightarrow> u32 \<Rightarrow> u32 \<Rightarrow> nat \<Rightarrow> u32 \<Rightarrow> u32" where
  "md5_SET f a b c d x s ti = (let t = a + f b c d + x + ti in ROTATE_LEFT t s + b)"

definition md5_round1 :: "(nat \<Rightarrow> u32) \<Rightarrow> md5_abcd \<Rightarrow> md5_abcd" where
  "md5_round1 X r =
     (let (a, b, c, d) = r;
      a = md5_SET md5_F a b c d (X 0) 7 (md5_T 1);
      d = md5_SET md5_F d a b c (X 1) 12 (md5_T 2);
      c = md5_SET md5_F c d a b (X 2) 17 (md5_T 3);
      b = md5_SET md5_F b c d a (X 3) 22 (md5_T 4);
      a = md5_SET md5_F a b c d (X 4) 7 (md5_T 5);
      d = md5_SET md5_F d a b c (X 5) 12 (md5_T 6);
      c = md5_SET md5_F c d a b (X 6) 17 (md5_T 7);
      b = md5_SET md5_F b c d a (X 7) 22 (md5_T 8);
      a = md5_SET md5_F a b c d (X 8) 7 (md5_T 9);
      d = md5_SET md5_F d a b c (X 9) 12 (md5_T 10);
      c = md5_SET md5_F c d a b (X 10) 17 (md5_T 11);
      b = md5_SET md5_F b c d a (X 11) 22 (md5_T 12);
      a = md5_SET md5_F a b c d (X 12) 7 (md5_T 13);
      d = md5_SET md5_F d a b c (X 13) 12 (md5_T 14);
      c = md5_SET md5_F c d a b (X 14) 17 (md5_T 15);
      b = md5_SET md5_F b c d a (X 15) 22 (md5_T 16)
      in (a, b, c, d))"

definition md5_round2 :: "(nat \<Rightarrow> u32) \<Rightarrow> md5_abcd \<Rightarrow> md5_abcd" where
  "md5_round2 X r =
     (let (a, b, c, d) = r;
      a = md5_SET md5_G a b c d (X 1) 5 (md5_T 17);
      d = md5_SET md5_G d a b c (X 6) 9 (md5_T 18);
      c = md5_SET md5_G c d a b (X 11) 14 (md5_T 19);
      b = md5_SET md5_G b c d a (X 0) 20 (md5_T 20);
      a = md5_SET md5_G a b c d (X 5) 5 (md5_T 21);
      d = md5_SET md5_G d a b c (X 10) 9 (md5_T 22);
      c = md5_SET md5_G c d a b (X 15) 14 (md5_T 23);
      b = md5_SET md5_G b c d a (X 4) 20 (md5_T 24);
      a = md5_SET md5_G a b c d (X 9) 5 (md5_T 25);
      d = md5_SET md5_G d a b c (X 14) 9 (md5_T 26);
      c = md5_SET md5_G c d a b (X 3) 14 (md5_T 27);
      b = md5_SET md5_G b c d a (X 8) 20 (md5_T 28);
      a = md5_SET md5_G a b c d (X 13) 5 (md5_T 29);
      d = md5_SET md5_G d a b c (X 2) 9 (md5_T 30);
      c = md5_SET md5_G c d a b (X 7) 14 (md5_T 31);
      b = md5_SET md5_G b c d a (X 12) 20 (md5_T 32)
      in (a, b, c, d))"

definition md5_round3 :: "(nat \<Rightarrow> u32) \<Rightarrow> md5_abcd \<Rightarrow> md5_abcd" where
  "md5_round3 X r =
     (let (a, b, c, d) = r;
      a = md5_SET md5_H a b c d (X 5) 4 (md5_T 33);
      d = md5_SET md5_H d a b c (X 8) 11 (md5_T 34);
      c = md5_SET md5_H c d a b (X 11) 16 (md5_T 35);
      b = md5_SET md5_H b c d a (X 14) 23 (md5_T 36);
      a = md5_SET md5_H a b c d (X 1) 4 (md5_T 37);
      d = md5_SET md5_H d a b c (X 4) 11 (md5_T 38);
      c = md5_SET md5_H c d a b (X 7) 16 (md5_T 39);
      b = md5_SET md5_H b c d a (X 10) 23 (md5_T 40);
      a = md5_SET md5_H a b c d (X 13) 4 (md5_T 41);
      d = md5_SET md5_H d a b c (X 0) 11 (md5_T 42);
      c = md5_SET md5_H c d a b (X 3) 16 (md5_T 43);
      b = md5_SET md5_H b c d a (X 6) 23 (md5_T 44);
      a = md5_SET md5_H a b c d (X 9) 4 (md5_T 45);
      d = md5_SET md5_H d a b c (X 12) 11 (md5_T 46);
      c = md5_SET md5_H c d a b (X 15) 16 (md5_T 47);
      b = md5_SET md5_H b c d a (X 2) 23 (md5_T 48)
      in (a, b, c, d))"

definition md5_round4 :: "(nat \<Rightarrow> u32) \<Rightarrow> md5_abcd \<Rightarrow> md5_abcd" where
  "md5_round4 X r =
     (let (a, b, c, d) = r;
      a = md5_SET md5_I a b c d (X 0) 6 (md5_T 49);
      d = md5_SET md5_I d a b c (X 7) 10 (md5_T 50);
      c = md5_SET md5_I c d a b (X 14) 15 (md5_T 51);
      b = md5_SET md5_I b c d a (X 5) 21 (md5_T 52);
      a = md5_SET md5_I a b c d (X 12) 6 (md5_T 53);
      d = md5_SET md5_I d a b c (X 3) 10 (md5_T 54);
      c = md5_SET md5_I c d a b (X 10) 15 (md5_T 55);
      b = md5_SET md5_I b c d a (X 1) 21 (md5_T 56);
      a = md5_SET md5_I a b c d (X 8) 6 (md5_T 57);
      d = md5_SET md5_I d a b c (X 15) 10 (md5_T 58);
      c = md5_SET md5_I c d a b (X 6) 15 (md5_T 59);
      b = md5_SET md5_I b c d a (X 13) 21 (md5_T 60);
      a = md5_SET md5_I a b c d (X 4) 6 (md5_T 61);
      d = md5_SET md5_I d a b c (X 11) 10 (md5_T 62);
      c = md5_SET md5_I c d a b (X 2) 15 (md5_T 63);
      b = md5_SET md5_I b c d a (X 9) 21 (md5_T 64)
      in (a, b, c, d))"

section \<open>The compression function\<close>

text \<open>
  The 16 words of a block, least significant byte first: the big-endian branch of the code
  computes this sum, the little-endian branch reads the same value from memory.
\<close>

definition md5_X :: "u8 list \<Rightarrow> nat \<Rightarrow> u32" where
  "md5_X data i =
     ucast (data ! (4 * i)) + push_bit 8 (ucast (data ! (4 * i + 1)))
     + push_bit 16 (ucast (data ! (4 * i + 2))) + push_bit 24 (ucast (data ! (4 * i + 3)))"

record md5_state =
  count0 :: u32
  count1 :: u32
  abcd :: md5_abcd
  buf :: "u8 list"

definition md5_compress :: "u8 list \<Rightarrow> md5_abcd \<Rightarrow> md5_abcd" where
  "md5_compress data old =
     (let (a, b, c, d) = md5_round4 (md5_X data) (md5_round3 (md5_X data)
                           (md5_round2 (md5_X data) (md5_round1 (md5_X data) old)));
          (a0, b0, c0, d0) = old
      in (a0 + a, b0 + b, c0 + c, d0 + d))"

definition md5_process :: "md5_state \<Rightarrow> u8 list \<Rightarrow> md5_state" where
  "md5_process pms data = pms\<lparr>abcd := md5_compress data (abcd pms)\<rparr>"

section \<open>The incremental interface\<close>

definition md5_init :: "md5_state \<Rightarrow> md5_state" where
  "md5_init pms = pms\<lparr>count0 := 0, count1 := 0,
     abcd := (0x67452301, T_MASK XOR 0x10325476, T_MASK XOR 0x67452301, 0x10325476)\<rparr>"

function md5_blocks :: "md5_state \<Rightarrow> u8 list \<Rightarrow> nat \<Rightarrow> md5_state \<times> u8 list \<times> nat" where
  \<comment> \<open>for (; left >= 64; p += 64, left -= 64)\<close>
  "md5_blocks pms p left =
     (if left \<ge> 64 then md5_blocks (md5_process pms (take 64 p)) (drop 64 p) (left - 64)
      else (pms, p, left))"
  by pat_completeness auto
termination
  by (relation "measure (\<lambda>(pms, p, left). left)") auto

declare md5_blocks.simps [simp del]

text \<open>\<open>blit b i src\<close> is \<^verbatim>\<open>memcpy(b + i, src, length src)\<close>.\<close>

definition blit :: "'a list \<Rightarrow> nat \<Rightarrow> 'a list \<Rightarrow> 'a list" where
  "blit b i src = take i b @ src @ drop (i + length src) b"

text \<open>
  \<^verbatim>\<open>nbytes << 3\<close> is computed as an \<^verbatim>\<open>int\<close>: where it does not fit, the
  result of C is undefined, and \<open>None\<close> here. Where it fits, \<^verbatim>\<open>offset + nbytes\<close> fits as well.
\<close>

definition fits_int :: "int \<Rightarrow> bool" where
  "fits_int i \<longleftrightarrow> - (2 ^ 31) \<le> i \<and> i < 2 ^ 31"

definition md5_append :: "md5_state \<Rightarrow> u8 list \<Rightarrow> int \<Rightarrow> md5_state option" where
  "md5_append pms data nbytes = (if \<not> fits_int (nbytes * 8) then None else Some (
     (let offset = unat (drop_bit 3 (count0 pms) AND 63);
          nbits = word_of_int (nbytes * 8) :: u32
      in if nbytes \<le> 0 then pms
         else
           let c0 = count0 pms + nbits;
               c1 = count1 pms + word_of_int (nbytes div 2 ^ 29);
               c1' = (if c0 < nbits then c1 + 1 else c1);
               pms1 = pms\<lparr>count0 := c0, count1 := c1'\<rparr>;
               left = nat nbytes
           in if offset \<noteq> 0 then
                let copy = (if offset + left > 64 then 64 - offset else left);
                    pms2 = pms1\<lparr>buf := blit (buf pms1) offset (take copy data)\<rparr>
                in if offset + copy < 64 then pms2
                   else
                     let pms3 = md5_process pms2 (buf pms2);
                         (pms4, p, left') = md5_blocks pms3 (drop copy data) (left - copy)
                     in if left' \<noteq> 0 then pms4\<lparr>buf := blit (buf pms4) 0 (take left' p)\<rparr> else pms4
              else
                let (pms4, p, left') = md5_blocks pms1 data left
                in if left' \<noteq> 0 then pms4\<lparr>buf := blit (buf pms4) 0 (take left' p)\<rparr> else pms4)))"

definition md5_padding :: "u8 list" where
  "md5_padding = 0x80 # replicate 63 0"

definition md5_digest :: "md5_abcd \<Rightarrow> u8 list" where
  \<comment> \<open>digest[i] = abcd[i >> 2] >> ((i & 3) << 3)\<close>
  "md5_digest r =
     (let (a, b, c, d) = r
      in map (\<lambda>i. ucast (drop_bit ((i mod 4) * 8) ([a, b, c, d] ! (i div 4)))) [0..<16])"

definition md5_finish :: "md5_state \<Rightarrow> (md5_state \<times> u8 list) option" where
  "md5_finish pms = do {
     let data = map (\<lambda>i. ucast (drop_bit ((i mod 4) * 8) ([count0 pms, count1 pms] ! (i div 4)))) [0..<8];
     pms \<leftarrow> md5_append pms md5_padding (uint ((55 - drop_bit 3 (count0 pms)) AND 63) + 1);
     pms \<leftarrow> md5_append pms data 8;
     Some (pms, md5_digest (abcd pms)) }"

section \<open>The one-shot digest\<close>

text \<open>
  RFC 1321: the message is padded with a one bit and zeros to 56 bytes modulo 64, its length
  in bits is appended as 8 bytes, least significant first, and the blocks of 64 bytes are
  compressed one after the other.
\<close>

function absorb :: "u8 list \<Rightarrow> md5_abcd \<Rightarrow> md5_abcd" where
  "absorb xs r = (if length xs \<ge> 64 then absorb (drop 64 xs) (md5_compress (take 64 xs) r) else r)"
  by pat_completeness auto
termination
  by (relation "measure (\<lambda>(xs, r). length xs)") auto

declare absorb.simps [simp del]

definition md5_iv :: md5_abcd where
  "md5_iv = (0x67452301, 0xefcdab89, 0x98badcfe, 0x10325476)"

definition le_bytes :: "nat \<Rightarrow> nat \<Rightarrow> u8 list" where
  "le_bytes k n = map (\<lambda>i. of_nat (n div 256 ^ i)) [0..<k]"

definition md5_pad :: "u8 list \<Rightarrow> u8 list" where
  "md5_pad msg = msg @ 0x80 # replicate ((119 - length msg mod 64) mod 64) 0 @ le_bytes 8 (8 * length msg)"

definition md5_spec :: "u8 list \<Rightarrow> u8 list" where
  "md5_spec msg = md5_digest (absorb (md5_pad msg) md5_iv)"

section \<open>Absorbing blocks\<close>

lemma absorb_short [simp]: "length xs < 64 \<Longrightarrow> absorb xs r = r"
  by (simp add: absorb.simps [of xs])

lemma absorb_block: "length b = 64 \<Longrightarrow> absorb (b @ xs) r = absorb xs (md5_compress b r)"
  by (simp add: absorb.simps [of "b @ xs"])

lemma absorb_append:
  "64 dvd length xs \<Longrightarrow> absorb (xs @ ys) r = absorb ys (absorb xs r)"
proof (induction xs r rule: absorb.induct)
  case (1 xs r)
  show ?case
  proof (cases "length xs \<ge> 64")
    case True
    then have "absorb (drop 64 xs @ ys) (md5_compress (take 64 xs) r) =
        absorb ys (absorb (drop 64 xs) (md5_compress (take 64 xs) r))"
      using "1.IH" "1.prems" by (simp add: dvd_diff_nat)
    then show ?thesis using True
      by (simp add: absorb.simps [of "xs @ ys"] absorb.simps [of xs])
  next
    case False
    then have "xs = []" using "1.prems" by (auto dest: dvd_imp_le)
    then show ?thesis by simp
  qed
qed

lemma absorb_whole: "absorb (take (length xs - length xs mod 64) xs) r = absorb xs r"
proof -
  let ?k = "length xs - length xs mod 64"
  have "absorb xs r = absorb (take ?k xs @ drop ?k xs) r" by simp
  also have "\<dots> = absorb (drop ?k xs) (absorb (take ?k xs) r)"
    by (rule absorb_append) (metis diff_le_self dvd_minus_mod length_take min.absorb2)
  also have "\<dots> = absorb (take ?k xs) r" by simp
  finally show ?thesis by simp
qed

lemma md5_blocks_absorb:
  "left \<le> length p \<Longrightarrow> md5_blocks pms p left =
     (pms\<lparr>abcd := absorb (take left p) (abcd pms)\<rparr>, drop (left - left mod 64) p, left mod 64)"
proof (induction pms p left rule: md5_blocks.induct)
  case (1 pms p left)
  show ?case
  proof (cases "left \<ge> 64")
    case True
    then have m: "(left - 64) mod 64 = left mod 64" by (simp add: le_mod_geq)
    have t: "take left p = take 64 p @ take (left - 64) (drop 64 p)"
      using True by (metis le_add_diff_inverse take_add)
    have "left mod 64 \<le> left - 64" using m by (metis mod_less_eq_dividend)
    then have d: "64 + (left - (64 + left mod 64)) = left - left mod 64" using True by linarith
    show ?thesis
      using "1.IH"[OF True] "1.prems" True
      by (simp add: md5_blocks.simps [of pms] md5_process_def t absorb_block m d add.commute)
  next
    case False
    then show ?thesis using "1.prems" by (simp add: md5_blocks.simps [of pms])
  qed
qed

section \<open>What the state represents\<close>

text \<open>
  After the bytes of \<open>msg\<close> have been appended: the registers have absorbed its full
  blocks, the buffer starts with the rest, and the two counters hold its length in bits.
\<close>

definition md5_rep :: "md5_state \<Rightarrow> u8 list \<Rightarrow> bool" where
  "md5_rep s msg \<longleftrightarrow>
     abcd s = absorb msg md5_iv \<and> length (buf s) = 64 \<and>
     take (length msg mod 64) (buf s) = drop (length msg - length msg mod 64) msg \<and>
     count0 s = of_nat (8 * length msg) \<and> count1 s = of_nat (8 * length msg div 2 ^ 32)"

lemma md5_rep_init: "length (buf s) = 64 \<Longrightarrow> md5_rep (md5_init s) []"
  by (simp add: md5_rep_def md5_init_def md5_iv_def T_MASK_def)

lemma offset_eq:
  "unat (drop_bit 3 (of_nat (8 * n) :: u32) AND 63) = n mod 64"
proof -
  have "unat (drop_bit 3 (of_nat (8 * n) :: u32) AND mask 6) = (8 * n) mod 2 ^ 32 div 8 mod 64"
    by (simp add: unat_div_distrib unat_mod_distrib unsigned_of_nat take_bit_eq_mod
        drop_bit_eq_div del: of_nat_mult flip: take_bit_eq_mask)
  also have "\<dots> = n mod 2 ^ 29 mod 64"
  proof -
    have "8 * n mod 2 ^ 32 = 8 * (n mod 2 ^ 29)"
      using mult_mod_right [of 8 n "2 ^ 29"] by simp
    then show ?thesis by simp
  qed
  also have "\<dots> = n mod 64" by (rule mod_mod_cancel) simp
  finally show ?thesis by (simp add: mask_eq_exp_minus_1)
qed

lemma div_carry: "x < 2 * m \<Longrightarrow> x div m = (if m \<le> x then 1 else 0 :: nat)"
  by (auto simp: le_div_geq div_less)

lemma counter_carry:
  fixes n k :: nat
  defines "c0 \<equiv> (of_nat (8 * n) :: u32) + of_nat (8 * k)"
  shows "c0 = of_nat (8 * (n + k))"
    and "(if c0 < of_nat (8 * k) then of_nat (8 * n div 2 ^ 32) + of_nat (8 * k div 2 ^ 32) + 1
          else of_nat (8 * n div 2 ^ 32) + of_nat (8 * k div 2 ^ 32)) = (of_nat (8 * (n + k) div 2 ^ 32) :: u32)"
proof -
  show eq: "c0 = of_nat (8 * (n + k))" by (simp add: c0_def algebra_simps)
  let ?a = "8 * n" and ?b = "8 * k" and ?m = "2 ^ 32 :: nat"
  have lt: "c0 < of_nat ?b \<longleftrightarrow> ?m \<le> ?a mod ?m + ?b mod ?m"
  proof -
    have "c0 < of_nat ?b \<longleftrightarrow> (?a mod ?m + ?b mod ?m) mod ?m < ?b mod ?m"
      unfolding eq by (simp add: word_less_nat_alt unsigned_of_nat take_bit_eq_mod mod_add_eq distrib_left del: of_nat_mult of_nat_add)
    also have "\<dots> \<longleftrightarrow> ?m \<le> ?a mod ?m + ?b mod ?m"
    proof (cases "?m \<le> ?a mod ?m + ?b mod ?m")
      case True
      then have "(?a mod ?m + ?b mod ?m) mod ?m = ?a mod ?m + ?b mod ?m - ?m"
        by (simp add: le_mod_geq)
      then show ?thesis using True by (simp add: less_diff_conv2)
    qed simp
    finally show ?thesis .
  qed
  have "8 * (n + k) div ?m = ?a div ?m + ?b div ?m + (?a mod ?m + ?b mod ?m) div ?m"
    by (simp only: distrib_left div_add1_eq [of ?a ?b])
  also have "(?a mod ?m + ?b mod ?m) div ?m = (if ?m \<le> ?a mod ?m + ?b mod ?m then 1 else 0)"
    by (rule div_carry) simp
  finally show "(if c0 < of_nat (8 * k) then of_nat (8 * n div 2 ^ 32) + of_nat (8 * k div 2 ^ 32) + 1
      else of_nat (8 * n div 2 ^ 32) + of_nat (8 * k div 2 ^ 32)) = (of_nat (8 * (n + k) div 2 ^ 32) :: u32)"
    using lt by simp
qed

section \<open>Appending\<close>

lemma length_blit [simp]: "i + length src \<le> length b \<Longrightarrow> length (blit b i src) = length b"
  by (simp add: blit_def)

lemma take_blit: "i + length src \<le> length b \<Longrightarrow> take (i + length src) (blit b i src) = take i b @ src"
  by (simp add: blit_def)

text \<open>
  The tail of the routine: from registers that have absorbed the full blocks of \<open>done\<close>,
  the bytes \<open>q\<close> are treated block by block and the last partial block is kept.
\<close>

lemma md5_tail:
  assumes "md5_blocks s data k = (s4, p, r)" "k \<le> length data" "abcd s = absorb don md5_iv"
    "64 dvd length don" "length (buf s) = 64"
    "count0 s = of_nat (8 * (length don + k))" "count1 s = of_nat (8 * (length don + k) div 2 ^ 32)"
  shows "md5_rep (if r \<noteq> 0 then s4\<lparr>buf := blit (buf s4) 0 (take r p)\<rparr> else s4) (don @ take k data)"
proof -
  let ?q = "take k data"
  have b: "s4 = s\<lparr>abcd := absorb ?q (abcd s)\<rparr>" "p = drop (k - k mod 64) data" "r = k mod 64"
    using assms(1) md5_blocks_absorb [OF assms(2), of s] by auto
  have len: "length (don @ ?q) = length don + k" using assms(2) by simp
  have m: "(length don + k) mod 64 = r" using assms(4) b by (auto elim!: dvdE)
  have r: "r \<le> k" "r < 64" using b by auto
  then have tk: "length (take r p) = r" using b assms(2) by simp
  have d: "drop (length don + k - r) (don @ ?q) = take r p"
    using b r assms(2) by (simp add: drop_take)
  have a: "absorb (don @ ?q) md5_iv = absorb ?q (abcd s)" using assms(3,4) by (simp add: absorb_append)
  show ?thesis
    unfolding md5_rep_def len m d a
    using assms(5-7) b(1) tk r(2) take_blit [of 0 "take r p" "buf s"]
    by (simp add: d)
qed

lemma counters_append:
  assumes "count0 s = of_nat (8 * n)" "count1 s = of_nat (8 * n div 2 ^ 32)"
  shows "(let nbits = word_of_int (int k * 8);
              c0 = count0 s + nbits;
              c1 = count1 s + word_of_int (int k div 2 ^ 29)
          in s\<lparr>count0 := c0, count1 := (if c0 < nbits then c1 + 1 else c1)\<rparr>) =
    s\<lparr>count0 := of_nat (8 * (n + k)), count1 := of_nat (8 * (n + k) div 2 ^ 32)\<rparr>"
proof -
  have nb: "(word_of_int (int k * 8) :: u32) = of_nat (8 * k)"
    by (simp add: mult.commute)
  have "int k div 2 ^ 29 = int (8 * k div 2 ^ 32)" by (simp add: zdiv_int)
  then have c1: "(word_of_int (int k div 2 ^ 29) :: u32) = of_nat (8 * k div 2 ^ 32)"
    by (simp only: of_int_of_nat_eq)
  show ?thesis
    unfolding Let_def nb c1 assms
    by (simp only: counter_carry(1) [of n k] counter_carry(2) [of n k, unfolded counter_carry(1) [of n k]])
qed

lemma md5_append_cases:
  fixes s :: md5_state and data :: "u8 list" and n k :: nat
  assumes "0 < k" "k < 2 ^ 28" "count0 s = of_nat (8 * n)" "count1 s = of_nat (8 * n div 2 ^ 32)"
  defines "s1 \<equiv> s\<lparr>count0 := of_nat (8 * (n + k)), count1 := of_nat (8 * (n + k) div 2 ^ 32)\<rparr>"
    and "off \<equiv> n mod 64"
  shows "md5_append s data (int k) = Some
    (if off \<noteq> 0 then
       let copy = (if off + k > 64 then 64 - off else k);
           s2 = s1\<lparr>buf := blit (buf s1) off (take copy data)\<rparr>
       in if off + copy < 64 then s2
          else let (s4, p, r) = md5_blocks (md5_process s2 (buf s2)) (drop copy data) (k - copy)
               in if r \<noteq> 0 then s4\<lparr>buf := blit (buf s4) 0 (take r p)\<rparr> else s4
     else let (s4, p, r) = md5_blocks s1 data k
          in if r \<noteq> 0 then s4\<lparr>buf := blit (buf s4) 0 (take r p)\<rparr> else s4)"
proof -
  have "fits_int (int k * 8)" using assms(2) by (simp add: fits_int_def)
  then show ?thesis
    using assms(1) counters_append [OF assms(3,4), of k] offset_eq [of n] assms(3)
    by (simp only: md5_append_def Let_def s1_def off_def nat_int of_nat_0_less_iff not_le if_False
        zless_nat_eq_int_zless of_nat_le_0_iff neq0_conv [symmetric] if_True not_True_eq_False)
qed

lemma md5_append_rep:
  assumes rep: "md5_rep s msg" and k: "k \<le> length data" "k < 2 ^ 28"
  shows "\<exists>s'. md5_append s data (int k) = Some s' \<and> md5_rep s' (msg @ take k data)"
proof (cases "k = 0")
  case True
  then show ?thesis using rep by (simp add: md5_append_def fits_int_def)
next
  case False
  let ?n = "length msg" and ?q = "take k data"
  let ?off = "?n mod 64"
  let ?s1 = "s\<lparr>count0 := of_nat (8 * (?n + k)), count1 := of_nat (8 * (?n + k) div 2 ^ 32)\<rparr>"
  have r: "abcd s = absorb msg md5_iv" "length (buf s) = 64"
    "take ?off (buf s) = drop (?n - ?off) msg"
    "count0 s = of_nat (8 * ?n)" "count1 s = of_nat (8 * ?n div 2 ^ 32)"
    using rep by (auto simp: md5_rep_def)
  have lq: "length ?q = k" using k by simp
  note app = md5_append_cases [OF _ k(2) r(4,5), of data]
  consider (whole) "?off = 0" | (part) "?off \<noteq> 0" "?off + k < 64" | (fill) "?off \<noteq> 0" "?off + k \<ge> 64"
    by linarith
  then show ?thesis
  proof cases
    case whole
    obtain s4 p left where b: "md5_blocks ?s1 data k = (s4, p, left)" by (metis prod_cases3)
    have "64 dvd ?n" using whole by auto
    then have "md5_rep (if left \<noteq> 0 then s4\<lparr>buf := blit (buf s4) 0 (take left p)\<rparr> else s4) (msg @ ?q)"
      using md5_tail [OF b k(1), of msg] r by simp
    then show ?thesis using app False whole b by simp
  next
    case part
    then have mod: "(?n + k) mod 64 = ?off + k"
      by (metis mod_add_left_eq mod_less)
    have "?n + k - (?off + k) = ?n - ?off" by simp
    moreover have "absorb (msg @ ?q) md5_iv = absorb msg md5_iv"
    proof -
      have "take (length (msg @ ?q) - length (msg @ ?q) mod 64) (msg @ ?q) = take (?n - ?off) msg"
        using lq mod by simp
      then show ?thesis by (metis absorb_whole)
    qed
    moreover have "take (?off + k) (blit (buf s) ?off ?q) = drop (?n - ?off) (msg @ ?q)"
      using take_blit [of ?off ?q "buf s"] r(2,3) lq part by simp
    ultimately have "md5_rep (?s1\<lparr>buf := blit (buf ?s1) ?off ?q\<rparr>) (msg @ ?q)"
      using r lq mod part by (simp add: md5_rep_def)
    then show ?thesis using app False part by (simp add: Let_def)
  next
    case fill
    define c where "c = 64 - ?off"
    have c: "c \<le> k" "?off + c = 64" using fill by (auto simp: c_def)
    have copy: "(if ?off + k > 64 then 64 - ?off else k) = c" using fill c by (auto simp: c_def)
    define s2 where "s2 = ?s1\<lparr>buf := blit (buf ?s1) ?off (take c data)\<rparr>"
    have b2: "buf s2 = drop (?n - ?off) msg @ take c data" "length (buf s2) = 64"
      using take_blit [of ?off "take c data" "buf s"] r(2,3) c k by (auto simp: s2_def)
    obtain s4 p left where b: "md5_blocks (md5_process s2 (buf s2)) (drop c data) (k - c) = (s4, p, left)"
      by (metis prod_cases3)
    have ab: "abcd (md5_process s2 (buf s2)) = absorb (msg @ take c data) md5_iv"
    proof -
      have "msg @ take c data = take (?n - ?off) msg @ buf s2 @ []" using b2 by simp
      then have "absorb (msg @ take c data) md5_iv = absorb (take (?n - ?off) msg @ buf s2 @ []) md5_iv"
        by (rule arg_cong)
      also have "\<dots> = absorb (buf s2 @ []) (absorb (take (?n - ?off) msg) md5_iv)"
        by (rule absorb_append) (metis diff_le_self dvd_minus_mod length_take min.absorb2)
      also have "\<dots> = md5_compress (buf s2) (absorb msg md5_iv)"
        by (simp only: absorb_block [OF b2(2)] absorb_whole) simp
      finally show ?thesis using r(1) by (simp add: md5_process_def s2_def)
    qed
    have dv: "64 dvd length (msg @ take c data)"
    proof -
      have "length (msg @ take c data) = (?n - ?off) + 64" using c k by simp
      then show ?thesis by (simp only: dvd_add_triv_right_iff dvd_minus_mod)
    qed
    have len: "length (msg @ take c data) + (k - c) = ?n + k" using c k by simp
    then have "md5_rep (if left \<noteq> 0 then s4\<lparr>buf := blit (buf s4) 0 (take left p)\<rparr> else s4)
        ((msg @ take c data) @ take (k - c) (drop c data))"
      using md5_tail [OF b _ ab dv, unfolded len] b2 k
      by (simp add: md5_process_def s2_def del: append_assoc of_nat_mult of_nat_add)
    moreover have "(msg @ take c data) @ take (k - c) (drop c data) = msg @ ?q"
      using c by (metis append.assoc le_add_diff_inverse take_add)
    ultimately show ?thesis
      using app False fill c copy b by (simp add: Let_def s2_def)
  qed
qed

section \<open>Finishing\<close>

lemma word_byte:
  assumes "k \<le> 24"
  shows "(ucast (drop_bit k (of_nat m :: u32)) :: u8) = of_nat (m div 2 ^ k)"
  by (rule bit_word_eqI) (use assms in \<open>auto simp: bit_simps simp flip: drop_bit_eq_div\<close>)

lemma le_bytes_counters:
  "map (\<lambda>i. ucast (drop_bit ((i mod 4) * 8) ([of_nat m, of_nat (m div 2 ^ 32)] ! (i div 4) :: u32)) :: u8) [0..<8]
     = le_bytes 8 m"
  using word_byte [of 0 m] word_byte [of 0 "m div 2 ^ 32"]
  by (simp add: le_bytes_def upt_rec word_byte div_mult2_eq [symmetric])

lemma length_le_bytes [simp]: "length (le_bytes k n) = k"
  by (simp add: le_bytes_def)

lemma pad_length_word:
  "uint ((55 - drop_bit 3 (of_nat (8 * n) :: u32)) AND 63) = int ((119 - n mod 64) mod 64)"
proof -
  let ?w = "drop_bit 3 (of_nat (8 * n) :: u32)"
  have m: "uint (v AND 63) = uint v mod 64" for v :: u32
  proof -
    have "v AND 63 = take_bit 6 v" by (simp add: take_bit_eq_mask mask_eq_exp_minus_1)
    also have "\<dots> = v mod 64" by (simp add: take_bit_eq_mod)
    finally show ?thesis using uint_mod_distrib [of v 64] by simp
  qed
  have "uint ?w mod 64 = int (unat (?w AND 63))" by (metis m uint_nat)
  then have w: "uint ?w mod 64 = int (n mod 64)" by (simp only: offset_eq)
  have "uint ((55 - ?w) AND 63) = (55 - uint ?w) mod 2 ^ 32 mod 64"
    by (simp only: m uint_word_ariths) simp
  also have "\<dots> = (55 - uint ?w) mod 64" by (rule mod_mod_cancel) simp
  also have "\<dots> = (55 - int (n mod 64)) mod 64" by (metis mod_diff_right_eq w)
  also have "\<dots> = int ((119 - n mod 64) mod 64)"
    by (simp add: zmod_int of_nat_diff) (smt (verit) mod_add_self2)
  finally show ?thesis .
qed

lemma md5_finish_rep:
  assumes "md5_rep s msg"
  shows "\<exists>s'. md5_finish s = Some (s', md5_spec msg)"
proof -
  let ?k = "(119 - length msg mod 64) mod 64"
  let ?pad = "0x80 # replicate ?k 0"
  let ?m1 = "msg @ ?pad"
  have c: "count0 s = of_nat (8 * length msg)" "count1 s = of_nat (8 * length msg div 2 ^ 32)"
    using assms by (auto simp: md5_rep_def)
  have tk: "take (Suc ?k) md5_padding = ?pad"
    by (simp add: md5_padding_def)
  have "?k < 64" by simp
  then have "?k \<le> 63" by linarith
  then have le: "Suc ?k \<le> length md5_padding" "Suc ?k < 2 ^ 28" by (simp_all add: md5_padding_def)
  obtain s1 where s1: "md5_append s md5_padding (int (Suc ?k)) = Some s1" "md5_rep s1 ?m1"
    using md5_append_rep [OF assms le] unfolding tk by blast
  define lenb where "lenb = le_bytes 8 (8 * length msg)"
  obtain s2 where s2: "md5_append s1 lenb (int 8) = Some s2" "md5_rep s2 (?m1 @ take 8 lenb)"
    using md5_append_rep [OF s1(2), of 8 lenb] by (auto simp: lenb_def)
  have "md5_rep s2 (md5_pad msg)" using s2(2) by (simp add: md5_pad_def lenb_def)
  then have "md5_digest (abcd s2) = md5_spec msg" by (simp add: md5_rep_def md5_spec_def)
  moreover have "md5_finish s = Some (s2, md5_digest (abcd s2))"
    unfolding md5_finish_def Let_def c le_bytes_counters pad_length_word
    using s1(1) s2(1) by (simp add: lenb_def add.commute)
  ultimately show ?thesis by simp
qed

section \<open>Properties\<close>

text \<open>A message is fed to the digest in pieces, each the first \<open>k\<close> bytes of a buffer.\<close>

fun md5_append_all :: "md5_state \<Rightarrow> u8 list list \<Rightarrow> md5_state option" where
  "md5_append_all s [] = Some s"
| "md5_append_all s (d # ds) = do { s \<leftarrow> md5_append s d (int (length d)); md5_append_all s ds }"

lemma md5_append_all_rep:
  "md5_rep s msg \<Longrightarrow> \<forall>d \<in> set ds. length d < 2 ^ 28 \<Longrightarrow> \<exists>s'. md5_append_all s ds = Some s' \<and> md5_rep s' (msg @ concat ds)"
proof (induction ds arbitrary: s msg)
  case (Cons d ds)
  obtain s' where s': "md5_append s d (int (length d)) = Some s'" "md5_rep s' (msg @ d)"
    using md5_append_rep [OF Cons.prems(1), of "length d" d] Cons.prems(2) by auto
  then show ?case using Cons.IH [OF s'(2)] Cons.prems(2) by simp
qed simp

text \<open>
  C27: however a message is cut into the pieces given to \<open>md5_append\<close>, each shorter than
  \<open>2 ^ 28\<close> bytes, \<open>md5_finish\<close> delivers the one-shot digest of RFC 1321 of the whole message
  (padding, 64-bit length and block order included), whatever the state held before \<open>md5_init\<close>.
\<close>

theorem md5_incremental:
  assumes "length (buf s) = 64" "\<forall>d \<in> set ds. length d < 2 ^ 28"
  shows "\<exists>s1 s2. md5_append_all (md5_init s) ds = Some s1 \<and> md5_finish s1 = Some (s2, md5_spec (concat ds))"
proof -
  obtain s1 where s1: "md5_append_all (md5_init s) ds = Some s1" "md5_rep s1 ([] @ concat ds)"
    using md5_append_all_rep [OF md5_rep_init [OF assms(1)] assms(2)] by blast
  then show ?thesis using md5_finish_rep [OF s1(2)] by simp
qed

theorem md5_incremental_witness:
  "\<exists>s1 s2. md5_append_all (md5_init \<lparr>count0 = 7, count1 = 0, abcd = (1, 2, 3, 4), buf = replicate 64 0xff\<rparr>) [[97], [], [98, 99]] = Some s1 \<and>
     md5_finish s1 = Some (s2, md5_spec [97, 98, 99])"
  using md5_incremental [of "\<lparr>count0 = 7, count1 = 0, abcd = (1, 2, 3, 4), buf = replicate 64 0xff\<rparr>"
    "[[97], [], [98, 99]]"] by simp

text \<open>A piece of \<open>2 ^ 28\<close> bytes overflows.\<close>

lemma md5_append_overflow: "md5_append s data (2 ^ 28) = None"
  by (simp add: md5_append_def fits_int_def)

end
