(* ===== verification/Util.thy ===== *)
theory Util
  imports Prelude
begin

unbundle bit_operations_syntax

text \<open>
  The string utilities of \<^verbatim>\<open>sqlite/util.c\<close>: building strings, removing SQL quotes,
  case-insensitive hashing and comparison, recognising numbers, the comparison routine of the
  sorter, and the detection of API misuse. A C string is the list of its characters before the
  terminator, a pointer into it the remaining list; \<open>zhd z\<close> is \<^verbatim>\<open>*z\<close> and
  \<open>tl z\<close> is \<^verbatim>\<open>z+1\<close>.
\<close>

section \<open>Building strings\<close>

text \<open>
  The arguments up to the first NULL are the list \<open>zs\<close>; \<open>ok\<close> tells whether
  \<open>sqliteMallocRaw\<close> delivers the memory. The result is the string \<^verbatim>\<open>*pz\<close> points to
  afterwards, or \<open>None\<close> for a null pointer.
\<close>

definition sqliteSetString :: "bool \<Rightarrow> string list \<Rightarrow> string option" where
  "sqliteSetString ok zs = (if ok then Some (concat zs) else None)"

text \<open>
  \<open>strncpy\<close> stops at the end of its source and fills the rest with NULs; the buffer is a
  list of characters, and the string it holds ends at its first NUL.
\<close>

definition strncpy :: "string \<Rightarrow> nat \<Rightarrow> string" where
  "strncpy z n = take n z @ replicate (n - length z) NUL"

definition sqliteSetNString :: "bool \<Rightarrow> (string \<times> int) list \<Rightarrow> string option" where
  "sqliteSetNString ok zs =
     (if ok then Some (concat (map (\<lambda>(z, n). strncpy z (if n \<le> 0 then length z else nat n)) zs))
      else None)"

section \<open>Removing quotes\<close>

text \<open>
  The conversion is done in place: \<open>i\<close> is the read index and \<open>j\<close> the write index into
  the buffer \<open>z\<close>, whose terminator at index \<open>length z\<close> is not part of the list.
\<close>

function dequote_loop :: "char \<Rightarrow> string \<Rightarrow> nat \<Rightarrow> nat \<Rightarrow> string" where
  "dequote_loop quote z i j =
     (if i < length z then
        if z ! i = quote then
          if zat z (i + 1) = Some quote then dequote_loop quote (z[j := quote]) (i + 2) (j + 1)
          else z[j := NUL]
        else dequote_loop quote (z[j := z ! i]) (i + 1) (j + 1)
      else z)"
  by pat_completeness auto
termination
  by (relation "measure (\<lambda>(quote, z, i, j). length z - i)") auto

declare dequote_loop.simps [simp del]

text \<open>The C string in a buffer.\<close>

definition zstr :: "string \<Rightarrow> string" where
  "zstr b = takeWhile (\<lambda>c. c \<noteq> NUL) b"

definition sqliteDequote :: "string \<Rightarrow> string" where
  "sqliteDequote z =
     (let quote = zhd z
      in if quote = CHR 0x27 then dequote_loop (CHR 0x27) z 1 0
         else if quote = CHR 0x22 then dequote_loop (CHR 0x22) z 1 0
         else if quote = CHR ''['' then dequote_loop (CHR '']'') z 1 0
         else z)"

section \<open>Case-insensitive hashing and comparison\<close>

definition UpperToLower :: "nat list" where
  "UpperToLower =
    [
     0, 1, 2, 3, 4, 5, 6, 7, 8, 9, 10, 11, 12, 13, 14, 15, 16, 17,
     18, 19, 20, 21, 22, 23, 24, 25, 26, 27, 28, 29, 30, 31, 32, 33, 34, 35,
     36, 37, 38, 39, 40, 41, 42, 43, 44, 45, 46, 47, 48, 49, 50, 51, 52, 53,
     54, 55, 56, 57, 58, 59, 60, 61, 62, 63, 64, 97, 98, 99, 100, 101, 102, 103,
     104, 105, 106, 107, 108, 109, 110, 111, 112, 113, 114, 115, 116, 117, 118, 119, 120, 121,
     122, 91, 92, 93, 94, 95, 96, 97, 98, 99, 100, 101, 102, 103, 104, 105, 106, 107,
     108, 109, 110, 111, 112, 113, 114, 115, 116, 117, 118, 119, 120, 121, 122, 123, 124, 125,
     126, 127, 128, 129, 130, 131, 132, 133, 134, 135, 136, 137, 138, 139, 140, 141, 142, 143,
     144, 145, 146, 147, 148, 149, 150, 151, 152, 153, 154, 155, 156, 157, 158, 159, 160, 161,
     162, 163, 164, 165, 166, 167, 168, 169, 170, 171, 172, 173, 174, 175, 176, 177, 178, 179,
     180, 181, 182, 183, 184, 185, 186, 187, 188, 189, 190, 191, 192, 193, 194, 195, 196, 197,
     198, 199, 200, 201, 202, 203, 204, 205, 206, 207, 208, 209, 210, 211, 212, 213, 214, 215,
     216, 217, 218, 219, 220, 221, 222, 223, 224, 225, 226, 227, 228, 229, 230, 231, 232, 233,
     234, 235, 236, 237, 238, 239, 240, 241, 242, 243, 244, 245, 246, 247, 248, 249, 250, 251,
     252, 253, 254, 255]"

definition u2l :: "char \<Rightarrow> nat" where
  "u2l c = UpperToLower ! uchar c"

fun hashNoCase_loop :: "u32 \<Rightarrow> string \<Rightarrow> u32" where
  "hashNoCase_loop h [] = h"
| "hashNoCase_loop h (c # z) = hashNoCase_loop (push_bit 3 h XOR h XOR of_nat (u2l c)) z"

definition sqliteHashNoCase :: "string \<Rightarrow> int \<Rightarrow> u32" where
  "sqliteHashNoCase z n =
     hashNoCase_loop 0 (if n \<le> 0 then zstr z else take (nat n) z) AND 0x7fffffff"

function sqliteStrICmp :: "string \<Rightarrow> string \<Rightarrow> int" where
  "sqliteStrICmp a b =
     (if zhd a \<noteq> NUL \<and> u2l (zhd a) = u2l (zhd b) then sqliteStrICmp (tl a) (tl b)
      else int (uchar (zhd a)) - int (uchar (zhd b)))"
  by pat_completeness auto
termination
  by (relation "measure (\<lambda>(a, b). length a)") (auto simp: zhd_def split: list.splits)

declare sqliteStrICmp.simps [simp del]

function sqliteStrNICmp :: "string \<Rightarrow> string \<Rightarrow> int \<Rightarrow> int" where
  "sqliteStrNICmp a b N =
     (if N > 0 then
        if zhd a \<noteq> NUL \<and> u2l (zhd a) = u2l (zhd b) then sqliteStrNICmp (tl a) (tl b) (N - 1)
        else int (uchar (zhd a)) - int (uchar (zhd b))
      else 0)"
  by pat_completeness auto
termination
  by (relation "measure (\<lambda>(a, b, N). nat N)") auto

declare sqliteStrNICmp.simps [simp del]

text \<open>The table folds the 26 ASCII letters and nothing else.\<close>

lemma UpperToLower_eq:
  "UpperToLower = map (\<lambda>n. if 65 \<le> n \<and> n \<le> 90 then n + 32 else n) [0..<256]"
  by code_simp

lemma u2l_eq: "u2l c = (if 65 \<le> uchar c \<and> uchar c \<le> 90 then uchar c + 32 else uchar c)"
proof -
  have "uchar c < 256" by simp
  then show ?thesis by (simp add: u2l_def UpperToLower_eq)
qed

lemma u2l_0 [simp]: "u2l c = 0 \<longleftrightarrow> c = NUL"
  by (auto simp: u2l_eq simp flip: uchar_0)

lemma u2l_NUL [simp]: "u2l NUL = 0"
  by simp

lemma u2l_symbol [simp]:
  "u2l c = 37 \<longleftrightarrow> c = CHR ''%''" "u2l c = 95 \<longleftrightarrow> c = CHR ''_''"
proof -
  have "uchar c = uchar d \<longleftrightarrow> c = d" for d by simp
  from this [of "CHR ''%''"] this [of "CHR ''_''"]
  show "u2l c = 37 \<longleftrightarrow> c = CHR ''%''" "u2l c = 95 \<longleftrightarrow> c = CHR ''_''"
    by (auto simp: u2l_eq)
qed

text \<open>
  Two strings that agree on their first \<open>n\<close> characters up to the case of letters compare equal and
  have the same hash; conversely if the first has no NUL before its \<open>n\<close>-th character.
\<close>

lemma StrNICmp_take:
  "n \<le> length a \<Longrightarrow> n \<le> length b \<Longrightarrow> cstring (take (n - 1) a) \<Longrightarrow>
    sqliteStrNICmp a b (int n) = 0 \<longleftrightarrow> map u2l (take n a) = map u2l (take n b)"
proof (induction n arbitrary: a b)
  case (Suc n)
  obtain x xs y ys where ab: "a = x # xs" "b = y # ys" using Suc.prems by (cases a; cases b) auto
  have l: "n \<le> length xs" "n \<le> length ys" using Suc.prems ab by simp_all
  show ?case
  proof (cases "x = NUL")
    case True
    then have "n = 0" using Suc.prems(3) ab by (cases n) auto
    moreover have "0 = u2l y \<longleftrightarrow> y = NUL" using u2l_0 [of y] by metis
    moreover have "uchar NUL = 0" by simp
    moreover have "int (uchar y) = 0 \<longleftrightarrow> y = NUL" by simp
    ultimately show ?thesis using True ab by (subst sqliteStrNICmp.simps) (simp add: eq_commute [of NUL])
  next
    case False
    have "cstring (take (n - 1) xs)" using Suc.prems(3) ab by (cases n) auto
    then have IH: "sqliteStrNICmp xs ys (int n) = 0 \<longleftrightarrow> map u2l (take n xs) = map u2l (take n ys)"
      by (rule Suc.IH [OF l])
    have ne: "u2l x \<noteq> u2l y \<Longrightarrow> int (uchar x) - int (uchar y) \<noteq> 0" by auto
    show ?thesis
    proof (cases "u2l x = u2l y")
      case True
      then show ?thesis using IH False ab by (subst sqliteStrNICmp.simps) simp
    next
      case nu: False
      then show ?thesis using ne ab by (subst sqliteStrNICmp.simps) simp
    qed
  qed
qed (simp add: sqliteStrNICmp.simps)

lemma StrNICmp_0:
  "length a = length b \<Longrightarrow> cstring (butlast a) \<Longrightarrow> sqliteStrNICmp a b (int (length a)) = 0 \<longleftrightarrow> map u2l a = map u2l b"
  using StrNICmp_take [of "length a" a b] by (simp add: butlast_conv_take)

lemma hashNoCase_loop_cong: "map u2l a = map u2l b \<Longrightarrow> hashNoCase_loop h a = hashNoCase_loop h b"
proof (induction a arbitrary: b h)
  case (Cons x xs)
  then obtain y ys where b: "b = y # ys" by (cases b) auto
  have "u2l x = u2l y" "map u2l xs = map u2l ys" using Cons.prems unfolding b by simp_all
  then show ?case using Cons.IH [of ys] unfolding b by (simp only: hashNoCase_loop.simps)
qed simp

section \<open>Numbers\<close>

definition sqliteIsNumber :: "string \<Rightarrow> bool" where
  "sqliteIsNumber z0 =
     (let z1 = (if zhd z0 = CHR ''-'' \<or> zhd z0 = CHR ''+'' then tl z0 else z0)
      in if \<not> isdigit (zhd z1) then False
         else
           let z2 = dropWhile isdigit (tl z1)
           in if zhd z2 = CHR ''.'' \<and> \<not> isdigit (zhd (tl z2)) then False
              else
                let z3 = (if zhd z2 = CHR ''.'' then dropWhile isdigit (tl z2) else z2)
                in if zhd z3 = CHR ''e'' \<or> zhd z3 = CHR ''E'' then
                     let z4 = (if zhd (tl z3) = CHR ''+'' \<or> zhd (tl z3) = CHR ''-'' then tl (tl z3) else tl z3)
                     in if \<not> isdigit (zhd z4) then False
                        else zhd (dropWhile isdigit z4) = NUL
                   else zhd z3 = NUL)"

definition sqliteFitsIn32Bits :: "string \<Rightarrow> bool" where
  "sqliteFitsIn32Bits zNum0 =
     (let zNum = (if zhd zNum0 = CHR ''-'' \<or> zhd zNum0 = CHR ''+'' then tl zNum0 else zNum0);
          i = length (takeWhile isdigit zNum)
      in i < 10 \<or> (i = 10 \<and> memcmp zNum ''2147483647'' 10 \<le> 0))"

section \<open>Numeric values and the comparison routines\<close>

text \<open>
  The floating-point unit is not part of the sources: its operations are the parameter
  \<open>ops\<close> of the routines that use them (\<open>fp_of_int\<close> stands for the conversions and for
  literals such as \<^verbatim>\<open>1.0e+64\<close>, \<open>fp_double\<close> for the rounding of a long double
  to a double).
\<close>

record 'f fpu =
  fp_of_int :: "int \<Rightarrow> 'f"
  fp_add :: "'f \<Rightarrow> 'f \<Rightarrow> 'f"
  fp_mul :: "'f \<Rightarrow> 'f \<Rightarrow> 'f"
  fp_div :: "'f \<Rightarrow> 'f \<Rightarrow> 'f"
  fp_neg :: "'f \<Rightarrow> 'f"
  fp_double :: "'f \<Rightarrow> 'f"
  fp_less :: "'f \<Rightarrow> 'f \<Rightarrow> bool"

fun atof_digits :: "'f fpu \<Rightarrow> 'f \<Rightarrow> 'f \<Rightarrow> string \<Rightarrow> 'f \<times> 'f \<times> string" where
  \<comment> \<open>while( isdigit(*z) ), with the divisor of the fraction part\<close>
  "atof_digits ops v1 d [] = (v1, d, [])"
| "atof_digits ops v1 d (c # z) =
     (if isdigit c then
        atof_digits ops (fp_add ops (fp_mul ops v1 (fp_of_int ops 10)) (fp_of_int ops (int (digit_val c))))
          (fp_mul ops d (fp_of_int ops 10)) z
      else (v1, d, c # z))"

text \<open>
  The exponent is an \<^verbatim>\<open>int\<close> that the digits may overflow: it wraps around, and a negative
  one scales by nothing.
\<close>

definition int32 :: "int \<Rightarrow> int" where
  "int32 i = sint (word_of_int i :: 32 word)"

fun atof_exp :: "int \<Rightarrow> string \<Rightarrow> int \<times> string" where
  \<comment> \<open>while( isdigit(*z) ){ eval = eval*10 + *z - '0'; z++; }\<close>
  "atof_exp eval [] = (eval, [])"
| "atof_exp eval (c # z) = (if isdigit c then atof_exp (int32 (eval * 10 + int (digit_val c))) z else (eval, c # z))"

function atof_scale :: "'f fpu \<Rightarrow> nat \<Rightarrow> 'f \<Rightarrow> int \<Rightarrow> 'f \<times> int" where
  \<comment> \<open>while( eval>=k ){ scale *= 1.0e+k; eval -= k; }\<close>
  "atof_scale ops k scale eval =
     (if 0 < k \<and> eval \<ge> int k then atof_scale ops k (fp_mul ops scale (fp_of_int ops (10 ^ k))) (eval - int k)
      else (scale, eval))"
  by pat_completeness auto
termination
  by (relation "measure (\<lambda>(ops, k, scale, eval). nat eval)") auto

declare atof_scale.simps [simp del]

definition sqliteAtoF :: "'f fpu \<Rightarrow> string \<Rightarrow> 'f \<times> string" where
  "sqliteAtoF ops z0 =
     (let neg = (zhd z0 = CHR ''-'');
          z1 = (if zhd z0 = CHR ''-'' \<or> zhd z0 = CHR ''+'' then tl z0 else z0);
          (v1, _, z2) = atof_digits ops (fp_of_int ops 0) (fp_of_int ops 1) z1;
          (v2, z3) =
            (if zhd z2 = CHR ''.'' then
               let (v, divisor, z) = atof_digits ops v1 (fp_of_int ops 1) (tl z2)
               in (fp_div ops v divisor, z)
             else (v1, z2));
          (v3, z4) =
            (if zhd z3 = CHR ''e'' \<or> zhd z3 = CHR ''E'' then
               let z = tl z3;
                   eneg = (zhd z = CHR ''-'');
                   z' = (if zhd z = CHR ''-'' \<or> zhd z = CHR ''+'' then tl z else z);
                   (eval, z'') = atof_exp 0 z';
                   (s1, e1) = atof_scale ops 64 (fp_of_int ops 1) eval;
                   (s2, e2) = atof_scale ops 16 s1 e1;
                   (s3, e3) = atof_scale ops 4 s2 e2;
                   (scale, _) = atof_scale ops 1 s3 e3
               in (if eneg then fp_div ops v2 scale else fp_mul ops v2 scale, z'')
             else (v2, z3))
      in (fp_double ops (if neg then fp_neg ops v3 else v3), z4))"

definition sqliteCompare :: "'f fpu \<Rightarrow> string option \<Rightarrow> string option \<Rightarrow> int" where
  "sqliteCompare ops atext btext =
     (case atext of None \<Rightarrow> -1
      | Some a \<Rightarrow>
        (case btext of None \<Rightarrow> 1
         | Some b \<Rightarrow>
           if sqliteIsNumber a then
             if \<not> sqliteIsNumber b then -1
             else
               let rA = fst (sqliteAtoF ops a); rB = fst (sqliteAtoF ops b)
               in if fp_less ops rA rB then -1 else if fp_less ops rB rA then 1 else 0
           else if sqliteIsNumber b then 1
           else strcmp a b))"

text \<open>
  The keys of the sorter hold NULs between their elements; \<open>zstr\<close> of a pointer is the
  string that starts there. The result is \<open>None\<close> where the assertion fails.
\<close>

function sort_loop :: "'f fpu \<Rightarrow> string \<Rightarrow> string \<Rightarrow> char \<Rightarrow> (char \<times> int) option" where
  "sort_loop ops a b dir =
     (if zhd a \<noteq> NUL \<and> zhd b \<noteq> NUL then
        if zhd a = CHR ''N'' \<or> zhd b = CHR ''N'' then
          if zhd a = zhd b then sort_loop ops (drop 2 a) (drop 2 b) dir
          else if zhd a = CHR ''N'' then Some (zhd b, -1)
          else Some (zhd a, 1)
        else if zhd a \<noteq> zhd b then None
        else
          let s = zstr (tl a); t = zstr (tl b);
              res = (if zhd a = CHR ''A'' \<or> zhd a = CHR ''D'' then strcmp s t
                     else if sqliteIsNumber s then
                       if \<not> sqliteIsNumber t then -1
                       else
                         let rA = fst (sqliteAtoF ops s); rB = fst (sqliteAtoF ops t)
                         in if fp_less ops rA rB then -1 else if fp_less ops rB rA then 1 else 0
                     else if sqliteIsNumber t then 1
                     else strcmp s t)
          in if res \<noteq> 0 then Some (zhd a, res)
             else sort_loop ops (drop (length s + 2) a) (drop (length t + 2) b) (zhd a)
      else Some (dir, 0))"
  by pat_completeness auto
termination
  by (relation "measure (\<lambda>(ops, a, b, dir). length a)") (auto simp: zhd_def split: list.splits)

declare sort_loop.simps [simp del]

definition sqliteSortCompare :: "'f fpu \<Rightarrow> string \<Rightarrow> string \<Rightarrow> int option" where
  "sqliteSortCompare ops a b =
     (case sort_loop ops a b NUL of None \<Rightarrow> None
      | Some (dir, res) \<Rightarrow> Some (if dir = CHR ''-'' \<or> dir = CHR ''D'' then - res else res))"

section \<open>Misuse detection\<close>

text \<open>
  The fields of \<^verbatim>\<open>struct sqlite\<close> these routines use; the values of \<open>magic\<close> are those
  of \<^verbatim>\<open>sqliteInt.h\<close>, and \<open>flags\<close> is a bit set.
\<close>

definition MAGIC_OPEN :: u32 where
  "MAGIC_OPEN = 0xa029a697"

definition MAGIC_BUSY :: u32 where
  "MAGIC_BUSY = 0xf03b7906"

definition MAGIC_ERROR :: u32 where
  "MAGIC_ERROR = 0xb5357930"

definition SQLITE_Interrupt :: u32 where
  "SQLITE_Interrupt = 0x00000004"

record sqlite_db =
  db_magic :: u32
  db_flags :: u32
  db_want_to_close :: bool
  db_pVdbe :: bool

definition sqliteSafetyOn :: "sqlite_db \<Rightarrow> sqlite_db \<times> int" where
  "sqliteSafetyOn db =
     (if db_magic db = MAGIC_OPEN then (db\<lparr>db_magic := MAGIC_BUSY\<rparr>, 0)
      else if db_magic db = MAGIC_BUSY \<or> db_magic db = MAGIC_ERROR \<or> db_want_to_close db then
        (db\<lparr>db_magic := MAGIC_ERROR, db_flags := db_flags db OR SQLITE_Interrupt\<rparr>, 1)
      else (db, 1))"

definition sqliteSafetyOff :: "sqlite_db \<Rightarrow> sqlite_db \<times> int" where
  "sqliteSafetyOff db =
     (if db_magic db = MAGIC_BUSY then (db\<lparr>db_magic := MAGIC_OPEN\<rparr>, 0)
      else if db_magic db = MAGIC_OPEN \<or> db_magic db = MAGIC_ERROR \<or> db_want_to_close db then
        (db\<lparr>db_magic := MAGIC_ERROR, db_flags := db_flags db OR SQLITE_Interrupt\<rparr>, 1)
      else (db, 1))"

definition sqliteSafetyCheck :: "sqlite_db \<Rightarrow> sqlite_db \<times> int" where
  "sqliteSafetyCheck db =
     (if db_pVdbe db then (db\<lparr>db_magic := MAGIC_ERROR\<rparr>, 1) else (db, 0))"

section \<open>Properties of the quote remover\<close>

text \<open>Writing a string as an SQL literal or identifier: the closing quote is doubled.\<close>

definition sql_escape :: "char \<Rightarrow> string \<Rightarrow> string" where
  "sql_escape q s = concat (map (\<lambda>c. if c = q then [q, q] else [c]) s)"

lemma sql_escape_simps [simp]:
  "sql_escape q [] = []"
  "sql_escape q (c # s) = (if c = q then q # q # sql_escape q s else c # sql_escape q s)"
  by (simp_all add: sql_escape_def)

lemma zat_drop: "drop i z = c # cs \<Longrightarrow> i < length z \<and> z ! i = c \<and> drop (Suc i) z = cs"
  by (metis drop_eq_Nil drop_Suc hd_drop_conv_nth linorder_not_less list.distinct(1) list.sel(1,3) tl_drop)

lemma dequote_loop_escape:
  assumes "q \<noteq> NUL" "drop i z = sql_escape q s @ [q]" "j < i"
  shows "\<exists>rest. dequote_loop q z i j = take j z @ s @ NUL # rest"
  using assms(2,3)
proof (induction s arbitrary: z i j)
  case Nil
  then have "i < length z" "z ! i = q" "zat z (i + 1) = Some NUL"
    using zat_drop [of i z q "[]"] by (auto simp: zat_def)
  then have "dequote_loop q z i j = z[j := NUL]"
    using assms(1) by (simp add: dequote_loop.simps)
  moreover have "j < length z" using \<open>i < length z\<close> Nil by simp
  ultimately show ?case by (simp add: upd_conv_take_nth_drop)
next
  case (Cons c s)
  have upd: "take (Suc j) (z[j := x]) = take j z @ [x]" if "i < length z" for x
    using Cons.prems(2) that by (simp add: take_Suc_conv_app_nth)
  show ?case
  proof (cases "c = q")
    case True
    then have d: "drop i z = q # q # sql_escape q s @ [q]" using Cons.prems(1) by simp
    from zat_drop [OF this]
    have i: "i < length z" "z ! i = q" "drop (Suc i) z = q # sql_escape q s @ [q]" by auto
    from zat_drop [OF i(3)]
    have i': "Suc i < length z" "z ! Suc i = q" "drop (Suc (Suc i)) z = sql_escape q s @ [q]" by auto
    have "dequote_loop q z i j = dequote_loop q (z[j := q]) (i + 2) (j + 1)"
      using i i' by (subst dequote_loop.simps) (simp add: zat_def)
    moreover have "drop (i + 2) (z[j := q]) = sql_escape q s @ [q]" "j + 1 < i + 2"
      using i'(3) Cons.prems(2) by (simp_all add: numeral_2_eq_2)
    ultimately show ?thesis
      using Cons.IH [of "i + 2" "z[j := q]" "j + 1"] upd [OF i(1), of q] True by auto
  next
    case False
    then have d: "drop i z = c # sql_escape q s @ [q]" using Cons.prems(1) by simp
    from zat_drop [OF this]
    have i: "i < length z" "z ! i = c" "drop (Suc i) z = sql_escape q s @ [q]" by auto
    have "dequote_loop q z i j = dequote_loop q (z[j := c]) (i + 1) (j + 1)"
      using i False by (subst dequote_loop.simps) simp
    moreover have "drop (i + 1) (z[j := c]) = sql_escape q s @ [q]" "j + 1 < i + 1"
      using i(3) Cons.prems(2) by simp_all
    ultimately show ?thesis
      using Cons.IH [of "i + 1" "z[j := c]" "j + 1"] upd [OF i(1), of c] by auto
  qed
qed

lemma zstr_cstring: "cstring s \<Longrightarrow> zstr (s @ NUL # rest) = s"
  by (induction s) (auto simp: zstr_def)

lemma dequote_escape:
  assumes "cstring s" "(opn, cls) \<in> {(CHR 0x27, CHR 0x27), (CHR 0x22, CHR 0x22), (CHR ''['', CHR '']'')}"
  shows "zstr (sqliteDequote (opn # sql_escape cls s @ [cls])) = s"
proof -
  let ?z = "opn # sql_escape cls s @ [cls]"
  have "sqliteDequote ?z = dequote_loop cls ?z 1 0"
    using assms(2) by (auto simp: sqliteDequote_def Let_def)
  moreover have "cls \<noteq> NUL" using assms(2) by (auto simp: NUL_def)
  ultimately obtain rest where "sqliteDequote ?z = s @ NUL # rest"
    using dequote_loop_escape [of cls 1 ?z s 0] by auto
  then show ?thesis using zstr_cstring [OF assms(1)] by simp
qed

text \<open>
  C32: \<open>sqliteDequote\<close> undoes SQL quoting: a string without NUL that is written between
  apostrophes, double quotes or brackets, with every closing quote in it doubled, comes back
  unchanged.
\<close>

theorem dequote_quoted:
  assumes "cstring s" "(opn, cls) \<in> {(CHR 0x27, CHR 0x27), (CHR 0x22, CHR 0x22), (CHR ''['', CHR '']'')}"
  shows "zstr (sqliteDequote (opn # sql_escape cls s @ [cls])) = s"
  using assms by (rule dequote_escape)

theorem dequote_quoted_witness: "zstr (sqliteDequote ''[a]]b]'') = ''a]b''"
  using dequote_quoted [of "''a]b''" "CHR ''[''" "CHR '']''"] by (simp add: NUL_def)

text \<open>
  A string that does not begin with a quote is left alone, and one whose closing quote is
  missing keeps its last character twice, because no terminator is written.
\<close>

theorem dequote_unterminated: "zstr (sqliteDequote (CHR 0x27 # ''abc'')) = ''abcc''"
  by code_simp

section \<open>Numbers\<close>

definition digits :: "string \<Rightarrow> bool" where
  "digits ds \<longleftrightarrow> ds \<noteq> [] \<and> (\<forall>c\<in>set ds. isdigit c)"

definition exponent :: "string \<Rightarrow> bool" where
  "exponent ep \<longleftrightarrow> (\<exists>e s ds. e \<in> {CHR ''e'', CHR ''E''} \<and> s \<in> {[], ''-'', ''+''} \<and> digits ds \<and> ep = e # s @ ds)"

text \<open>The grammar of numbers: sign, digits, fraction and exponent, the last two optional.\<close>

definition number :: "string \<Rightarrow> bool" where
  "number z \<longleftrightarrow> (\<exists>sgn ip fp ep. z = sgn @ ip @ fp @ ep \<and>
     sgn \<in> {[], ''-'', ''+''} \<and> digits ip \<and>
     (fp = [] \<or> (\<exists>ds. digits ds \<and> fp = CHR ''.'' # ds)) \<and>
     (ep = [] \<or> exponent ep))"

lemma digits_split: "isdigit (zhd z) \<Longrightarrow> \<exists>ds. digits ds \<and> z = ds @ dropWhile isdigit (tl z)"
proof (cases z)
  case (Cons c z')
  assume "isdigit (zhd z)"
  then have "digits (c # takeWhile isdigit z')" using Cons by (auto simp: digits_def dest: set_takeWhileD)
  moreover have "z = (c # takeWhile isdigit z') @ dropWhile isdigit (tl z)" using Cons by simp
  ultimately show ?thesis by blast
qed simp

lemma not_digit_dropWhile: "\<not> isdigit (zhd (dropWhile isdigit z))"
  by (induction z) auto

lemma dropWhile_not_digit [simp]: "\<not> isdigit (zhd z) \<Longrightarrow> dropWhile isdigit z = z"
  by (cases z) auto

lemma dropWhile_digits [simp]: "\<forall>c\<in>set ds. isdigit c \<Longrightarrow> \<not> isdigit (zhd rest) \<Longrightarrow> dropWhile isdigit (ds @ rest) = rest"
  by (induction ds) auto

lemma digits_run:
  "digits ds \<Longrightarrow> \<not> isdigit (zhd rest) \<Longrightarrow>
    isdigit (zhd (ds @ rest)) \<and> dropWhile isdigit (tl (ds @ rest)) = rest \<and> dropWhile isdigit (ds @ rest) = rest"
  by (cases ds) (auto simp: digits_def)

lemma isdigit_not [simp]:
  "\<not> isdigit (CHR ''+'')" "\<not> isdigit (CHR ''-'')" "\<not> isdigit (CHR ''.'')" "\<not> isdigit (CHR ''e'')" "\<not> isdigit (CHR ''E'')"
  by (simp_all add: isdigit_iff)

lemma sign_split: "\<exists>s \<in> {[], ''-'', ''+''}. z = s @ (if zhd z = CHR ''+'' \<or> zhd z = CHR ''-'' then tl z else z)"
  by (cases z) auto

lemma digits_zhd: "digits ds \<Longrightarrow> isdigit (zhd (ds @ rest))"
  by (cases ds) (auto simp: digits_def)

lemma sign_skip:
  "s \<in> {[], ''-'', ''+''} \<Longrightarrow> isdigit (zhd z) \<Longrightarrow>
    (if zhd (s @ z) = CHR ''+'' \<or> zhd (s @ z) = CHR ''-'' then tl (s @ z) else s @ z) = z"
  by auto

lemma exponent_code:
  assumes "cstring z"
  shows "(if zhd z = CHR ''e'' \<or> zhd z = CHR ''E'' then
       let z4 = (if zhd (tl z) = CHR ''+'' \<or> zhd (tl z) = CHR ''-'' then tl (tl z) else tl z)
       in if \<not> isdigit (zhd z4) then False else zhd (dropWhile isdigit z4) = NUL
     else zhd z = NUL) \<longleftrightarrow> z = [] \<or> exponent z"
proof (cases z)
  case Nil
  then show ?thesis by (simp add: NUL_def)
next
  case (Cons e z')
  define z4 where "z4 = (if zhd z' = CHR ''+'' \<or> zhd z' = CHR ''-'' then tl z' else z')"
  have e: "e \<noteq> NUL" "cstring z'" using assms Cons by auto
  have "(isdigit (zhd z4) \<and> zhd (dropWhile isdigit z4) = NUL) \<longleftrightarrow>
      (\<exists>s ds. s \<in> {[], ''-'', ''+''} \<and> digits ds \<and> z' = s @ ds)" (is "?L \<longleftrightarrow> ?R")
  proof
    assume L: ?L
    obtain s where s: "s \<in> {[], ''-'', ''+''}" "z' = s @ z4" using sign_split [of z'] unfolding z4_def by blast
    obtain ds where ds: "digits ds" "z4 = ds @ dropWhile isdigit (tl z4)" using digits_split L by blast
    have "cstring (s @ ds @ dropWhile isdigit (tl z4))" using e s ds(2) by metis
    moreover have "dropWhile isdigit z4 = dropWhile isdigit (tl z4)"
      using L by (cases z4) auto
    ultimately have "dropWhile isdigit (tl z4) = []"
      using L cstring_zhd by auto
    then have "z' = s @ ds" using s(2) ds(2) by (metis append_Nil2)
    then show ?R using s(1) ds(1) by blast
  next
    assume ?R
    then obtain s ds where s: "s \<in> {[], ''-'', ''+''}" "digits ds" "z' = s @ ds" by blast
    have "z4 = ds" unfolding z4_def s(3)
      by (rule sign_skip [OF s(1)]) (use digits_zhd [of ds "[]"] s(2) in simp)
    moreover have "zhd (dropWhile isdigit ds) = NUL"
      using digits_run [of ds "[]"] s(2) by (cases ds) (auto simp del: dropWhile_eq_Nil_conv simp: digits_def)
    ultimately show ?L using s(2) digits_zhd [of ds "[]"] by simp
  qed
  then have eq: "(isdigit (zhd z4) \<and> zhd (dropWhile isdigit z4) = NUL) \<longleftrightarrow>
      (\<exists>s ds. s \<in> {[], ''-'', ''+''} \<and> digits ds \<and> z' = s @ ds)" .
  have "exponent (e # z') \<longleftrightarrow> (e = CHR ''e'' \<or> e = CHR ''E'') \<and>
      (\<exists>s ds. s \<in> {[], ''-'', ''+''} \<and> digits ds \<and> z' = s @ ds)"
    unfolding exponent_def by blast
  moreover have "(if zhd z = CHR ''e'' \<or> zhd z = CHR ''E'' then
       let z4 = (if zhd (tl z) = CHR ''+'' \<or> zhd (tl z) = CHR ''-'' then tl (tl z) else tl z)
       in if \<not> isdigit (zhd z4) then False else zhd (dropWhile isdigit z4) = NUL
     else zhd z = NUL) \<longleftrightarrow>
     (e = CHR ''e'' \<or> e = CHR ''E'') \<and> isdigit (zhd z4) \<and> zhd (dropWhile isdigit z4) = NUL"
    unfolding Cons Let_def list.sel zhd_simps z4_def using e(1) by simp
  ultimately show ?thesis unfolding eq [symmetric] Cons by blast
qed

lemma cstring_tl: "cstring z \<Longrightarrow> cstring (tl z)"
  unfolding cstring_def by (cases z) auto

lemma cstring_dropWhile: "cstring z \<Longrightarrow> cstring (dropWhile P z)"
  unfolding cstring_def by (auto dest: set_dropWhileD)

lemma number_shape:
  fixes e :: 'a and a :: "'a \<Rightarrow> bool" and f :: "'a \<Rightarrow> 'b" and b c :: "'b \<Rightarrow> bool" and g :: "'b \<Rightarrow> 'c" and X :: "'c \<Rightarrow> bool"
  shows "(let z1 = e in if \<not> a z1 then False
     else let z2 = f z1 in if b z2 \<and> \<not> c z2 then False else let z3 = g z2 in X z3) \<longleftrightarrow>
   a e \<and> (b (f e) \<longrightarrow> c (f e)) \<and> X (g (f e))"
  by (simp add: Let_def)

text \<open>
  C34: \<open>sqliteIsNumber\<close> accepts exactly the numbers of the grammar above.
\<close>

theorem is_number_grammar:
  assumes "cstring z"
  shows "sqliteIsNumber z \<longleftrightarrow> number z"
proof -
  define z1 where "z1 = (if zhd z = CHR ''-'' \<or> zhd z = CHR ''+'' then tl z else z)"
  define z2 where "z2 = dropWhile isdigit (tl z1)"
  define z3 where "z3 = (if zhd z2 = CHR ''.'' then dropWhile isdigit (tl z2) else z2)"
  have c1: "cstring z1" using assms by (cases z) (auto simp: z1_def)
  have c2: "cstring z2" unfolding z2_def by (intro cstring_dropWhile cstring_tl c1)
  have c3: "cstring z3" using c2 unfolding z3_def by (simp add: cstring_dropWhile cstring_tl)
  note shape = number_shape [where e = z1 and a = "\<lambda>z1. isdigit (zhd z1)" and f = "\<lambda>z1. dropWhile isdigit (tl z1)" and b = "\<lambda>z2. zhd z2 = CHR ''.''"
    and c = "\<lambda>z2. isdigit (zhd (tl z2))" and g = "\<lambda>z2. if zhd z2 = CHR ''.'' then dropWhile isdigit (tl z2) else z2"]
  have code: "sqliteIsNumber z \<longleftrightarrow> isdigit (zhd z1) \<and>
      (zhd z2 = CHR ''.'' \<longrightarrow> isdigit (zhd (tl z2))) \<and> (z3 = [] \<or> exponent z3)"
    unfolding exponent_code [OF c3, symmetric]
    unfolding sqliteIsNumber_def z3_def z2_def z1_def [symmetric] by (rule shape)
  show ?thesis
  proof
    assume "sqliteIsNumber z"
    then have h: "isdigit (zhd z1)" "zhd z2 = CHR ''.'' \<longrightarrow> isdigit (zhd (tl z2))" "z3 = [] \<or> exponent z3"
      using code by auto
    obtain s where s: "s \<in> {[], ''-'', ''+''}" "z = s @ z1"
      using sign_split [of z] unfolding z1_def disj_commute [of "zhd z = CHR ''+''"] by blast
    obtain ip where ip: "digits ip" "z1 = ip @ z2" using digits_split [OF h(1)] unfolding z2_def by blast
    obtain fp where fp: "fp = [] \<or> (\<exists>ds. digits ds \<and> fp = CHR ''.'' # ds)" "z2 = fp @ z3"
    proof (cases "zhd z2 = CHR ''.''")
      case True
      then obtain ds where "digits ds" "tl z2 = ds @ dropWhile isdigit (tl (tl z2))"
        using h(2) digits_split by blast
      moreover have "dropWhile isdigit (tl z2) = dropWhile isdigit (tl (tl z2))"
        using h(2) True by (cases "tl z2") auto
      moreover have "z2 = CHR ''.'' # tl z2" using True by (cases z2) (auto simp: NUL_def)
      ultimately show ?thesis using that [of "CHR ''.'' # ds"] True by (auto simp: z3_def)
    next
      case False
      then show ?thesis using that [of "[]"] by (simp add: z3_def)
    qed
    have "z = s @ ip @ fp @ z3" using s(2) ip(2) fp(2) by simp
    then show "number z" unfolding number_def
      using s(1) ip(1) fp(1) h(3) by blast
  next
    assume "number z"
    then obtain s ip fp ep where z: "z = s @ ip @ fp @ ep" "s \<in> {[], ''-'', ''+''}" "digits ip"
      "fp = [] \<or> (\<exists>ds. digits ds \<and> fp = CHR ''.'' # ds)" "ep = [] \<or> exponent ep"
      unfolding number_def by blast
    have ep: "\<not> isdigit (zhd ep)" "zhd ep \<noteq> CHR ''.''"
      using z(5) by (auto simp: exponent_def NUL_def isdigit_iff)
    have fe: "\<not> isdigit (zhd (fp @ ep))" using z(4) ep by auto
    have "z1 = ip @ fp @ ep"
      unfolding z1_def z(1) disj_commute [of "_ = CHR ''-''"] by (rule sign_skip [OF z(2) digits_zhd [OF z(3)]])
    then have 1: "isdigit (zhd z1)" and 2: "z2 = fp @ ep"
      using digits_run [OF z(3) fe] by (auto simp: z2_def)
    have "(zhd z2 = CHR ''.'' \<longrightarrow> isdigit (zhd (tl z2))) \<and> z3 = ep"
      using z(4) ep digits_run [of _ ep] by (auto simp: z3_def 2)
    then show "sqliteIsNumber z" using code 1 z(5) by simp
  qed
qed

theorem is_number_grammar_witness: "number ''-1.50e+3''"
proof -
  have "cstring ''-1.50e+3''" by (simp add: NUL_def)
  from is_number_grammar [OF this] show ?thesis by (simp add: sqliteIsNumber_def isdigit_iff NUL_def Let_def)
qed

section \<open>The 32-bit range test\<close>

definition digits_value :: "string \<Rightarrow> nat" where
  "digits_value ds = foldl (\<lambda>v c. v * 10 + digit_val c) 0 ds"

definition unsigned_digits :: "string \<Rightarrow> string" where
  "unsigned_digits z = takeWhile isdigit (if zhd z = CHR ''-'' \<or> zhd z = CHR ''+'' then tl z else z)"

lemma foldl_digits:
  "foldl (\<lambda>v c. v * 10 + digit_val c) v ds = v * 10 ^ length ds + digits_value ds"
proof (induction ds arbitrary: v)
  case (Cons c ds)
  have "digits_value (c # ds) = digit_val c * 10 ^ length ds + digits_value ds"
    unfolding digits_value_def [of "c # ds"] by (simp only: foldl_Cons Cons.IH) simp
  then show ?case by (simp only: foldl_Cons Cons.IH) (simp add: add_mult_distrib)
qed (simp add: digits_value_def)

lemma digits_value_Nil [simp]: "digits_value [] = 0"
  by (simp add: digits_value_def)

lemma digits_value_Cons [simp]: "digits_value (c # ds) = digit_val c * 10 ^ length ds + digits_value ds"
  using foldl_digits [of "digit_val c" ds] by (simp add: digits_value_def)

lemma digit_val_uchar: "isdigit c \<Longrightarrow> uchar c = 48 + digit_val c"
  by (simp add: isdigit_iff digit_val_def)

lemma digit_val_le: "isdigit c \<Longrightarrow> digit_val c \<le> 9"
  using digit_val_uchar [of c] isdigit_iff [of c] by linarith

lemma digits_value_less: "\<forall>c\<in>set ds. isdigit c \<Longrightarrow> digits_value ds < 10 ^ length ds"
proof (induction ds)
  case (Cons c ds)
  then have "digits_value ds + 1 \<le> 10 ^ length ds" "digit_val c \<le> 9"
    using digit_val_le by (auto simp: Suc_le_eq)
  then have "digit_val c * 10 ^ length ds + (digits_value ds + 1) \<le> 9 * 10 ^ length ds + 10 ^ length ds"
    by (intro add_mono mult_right_mono) auto
  then show ?case by simp
qed simp

lemma digits_compare:
  assumes "length xs = length ys" "\<forall>c\<in>set xs. isdigit c" "\<forall>c\<in>set ys. isdigit c"
  shows "memcmp (xs @ us) (ys @ vs) (length xs) \<le> 0 \<longleftrightarrow> digits_value xs \<le> digits_value ys"
  using assms
proof (induction xs ys rule: list_induct2)
  case (Cons x xs y ys)
  have lt: "digits_value xs < 10 ^ length ys" "digits_value ys < 10 ^ length ys"
    using Cons digits_value_less by (metis list.set_intros(2))+
  have d: "uchar x = 48 + digit_val x" "uchar y = 48 + digit_val y"
    using Cons.prems by (simp_all add: digit_val_uchar)
  show ?case
  proof (cases "digit_val x" "digit_val y" rule: linorder_cases)
    case less
    then have "(digit_val x + 1) * 10 ^ length ys \<le> digit_val y * 10 ^ length ys"
      by (intro mult_right_mono) auto
    moreover have "x \<noteq> y" using less by auto
    ultimately show ?thesis using less lt d Cons.hyps by simp
  next
    case equal
    then have "x = y" using d by (metis of_char_eq_iff)
    then show ?thesis using equal Cons d by simp
  next
    case greater
    then have "(digit_val y + 1) * 10 ^ length ys \<le> digit_val x * 10 ^ length ys"
      by (intro mult_right_mono) auto
    moreover have "x \<noteq> y" using greater by auto
    ultimately show ?thesis using greater lt d Cons.hyps by simp
  qed
qed simp

lemma digits_value_ge: "ds \<noteq> [] \<Longrightarrow> isdigit (hd ds) \<Longrightarrow> hd ds \<noteq> CHR ''0'' \<Longrightarrow> 10 ^ (length ds - 1) \<le> digits_value ds"
proof (cases ds)
  case (Cons c ds')
  moreover assume "isdigit (hd ds)" "hd ds \<noteq> CHR ''0''"
  ultimately have c: "isdigit c" "c \<noteq> CHR ''0''" by auto
  have "uchar c \<noteq> uchar (CHR ''0'')" using c(2) unfolding of_char_eq_iff .
  then have "0 < digit_val c" using digit_val_uchar [OF c(1)] by simp
  then have "1 * 10 ^ length ds' \<le> digit_val c * 10 ^ length ds'" by (intro mult_right_mono) auto
  then have "10 ^ length ds' \<le> digit_val c * 10 ^ length ds' + digits_value ds'" by linarith
  then show ?thesis using Cons by simp
qed simp

text \<open>
  C36: The range test is sound: a TRUE answer means that the digits after the sign, whatever their
  number, denote at most 2147483647; and it is complete for numbers that are written without a
  leading zero.
\<close>

theorem fits_in_32_bits:
  "(sqliteFitsIn32Bits z \<longrightarrow> digits_value (unsigned_digits z) \<le> 2147483647) \<and>
   (digits_value (unsigned_digits z) \<le> 2147483647 \<and> zhd (unsigned_digits z) \<noteq> CHR ''0'' \<longrightarrow> sqliteFitsIn32Bits z)"
proof -
  define ds where "ds = unsigned_digits z"
  obtain rest where fits: "sqliteFitsIn32Bits z \<longleftrightarrow>
      length ds < 10 \<or> (length ds = 10 \<and> memcmp (ds @ rest) ''2147483647'' 10 \<le> 0)"
    unfolding sqliteFitsIn32Bits_def ds_def unsigned_digits_def Let_def
    by (metis (no_types) takeWhile_dropWhile_id)
  have dig: "\<forall>c\<in>set ds. isdigit c" unfolding ds_def unsigned_digits_def by (auto dest: set_takeWhileD)
  have ten: "memcmp (ds @ rest) ''2147483647'' 10 \<le> 0 \<longleftrightarrow> digits_value ds \<le> 2147483647" if "length ds = 10"
    using digits_compare [of ds "''2147483647''" rest "[]"] that dig by (simp add: isdigit_def digit_val_def)
  have lt: "digits_value ds < 10 ^ length ds" using digits_value_less [OF dig] .
  have up: "digits_value ds < 10 ^ 9" if "length ds < 10"
  proof -
    have "(10::nat) ^ length ds \<le> 10 ^ 9" using that by (intro power_increasing) auto
    then show ?thesis using lt by linarith
  qed
  have down: "10 ^ 10 \<le> digits_value ds" if "length ds > 10" "zhd ds \<noteq> CHR ''0''"
  proof -
    have "(10::nat) ^ 10 \<le> 10 ^ (length ds - 1)" using that by (intro power_increasing) auto
    moreover have "10 ^ (length ds - 1) \<le> digits_value ds"
      using that dig by (intro digits_value_ge) (cases ds; auto)+
    ultimately show ?thesis by linarith
  qed
  show ?thesis unfolding ds_def [symmetric] fits
  proof (intro conjI impI)
    assume "length ds < 10 \<or> (length ds = 10 \<and> memcmp (ds @ rest) ''2147483647'' 10 \<le> 0)"
    then show "digits_value ds \<le> 2147483647" using ten up by auto
  next
    assume a: "digits_value ds \<le> 2147483647 \<and> zhd ds \<noteq> CHR ''0''"
    then have "\<not> length ds > 10" using down by auto
    then show "length ds < 10 \<or> (length ds = 10 \<and> memcmp (ds @ rest) ''2147483647'' 10 \<le> 0)"
      using ten a by (cases "length ds = 10") auto
  qed
qed

theorem fits_in_32_bits_witness:
  "digits_value (unsigned_digits ''-0042x'') \<le> 2147483647"
  using fits_in_32_bits [of "''-0042x''"]
  by (simp add: sqliteFitsIn32Bits_def isdigit_def)

section \<open>The sorter's keys\<close>

text \<open>A key is a list of columns: the direction and collation flag, and the text or NULL.\<close>

type_synonym sort_column = "char \<times> string option"

fun sort_key :: "sort_column list \<Rightarrow> string" where
  "sort_key [] = []"
| "sort_key ((d, None) # cs) = CHR ''N'' # NUL # sort_key cs"
| "sort_key ((d, Some s) # cs) = d # s @ NUL # sort_key cs"

definition column_compare :: "'f fpu \<Rightarrow> char \<Rightarrow> string option \<Rightarrow> string option \<Rightarrow> int" where
  "column_compare ops d x y =
     (case (x, y) of
        (None, None) \<Rightarrow> 0
      | (None, Some t) \<Rightarrow> -1
      | (Some s, None) \<Rightarrow> 1
      | (Some s, Some t) \<Rightarrow>
          if d = CHR ''A'' \<or> d = CHR ''D'' then strcmp s t else sqliteCompare ops (Some s) (Some t))"

fun columns_compare :: "'f fpu \<Rightarrow> sort_column list \<Rightarrow> sort_column list \<Rightarrow> int" where
  "columns_compare ops ((d, x) # xs) ((e, y) # ys) =
     (let r = column_compare ops d x y
      in if r \<noteq> 0 then (if d = CHR ''-'' \<or> d = CHR ''D'' then - r else r) else columns_compare ops xs ys)"
| "columns_compare ops _ _ = 0"

definition sort_columns :: "sort_column list \<Rightarrow> bool" where
  "sort_columns cs \<longleftrightarrow>
     (\<forall>(d, x)\<in>set cs. d \<in> {CHR ''+'', CHR ''-'', CHR ''A'', CHR ''D''} \<and> (\<forall>s. x = Some s \<longrightarrow> cstring s))"

lemma zstr_element: "cstring s \<Longrightarrow> zstr (s @ NUL # rest) = s"
  unfolding zstr_def by (subst takeWhile_append2) (auto simp: cstring_def)

abbreviation directed :: "char \<times> int \<Rightarrow> int" where
  "directed p \<equiv> (if fst p = CHR ''-'' \<or> fst p = CHR ''D'' then - snd p else snd p)"

lemma sort_loop_columns:
  assumes "map fst xs = map fst ys" "sort_columns xs" "sort_columns ys"
  shows "\<exists>p. sort_loop ops (sort_key xs) (sort_key ys) dir = Some p \<and> directed p = columns_compare ops xs ys"
  using assms
proof (induction ops xs ys arbitrary: dir rule: columns_compare.induct)
  case (1 ops d x xs e y ys)
  have d: "e = d" "d \<in> {CHR ''+'', CHR ''-'', CHR ''A'', CHR ''D''}" and
    c: "\<And>s. x = Some s \<Longrightarrow> cstring s" "\<And>s. y = Some s \<Longrightarrow> cstring s" and
    t: "map fst xs = map fst ys" "sort_columns xs" "sort_columns ys"
    using "1.prems" by (auto simp: sort_columns_def)
  then have n: "d \<noteq> NUL" "d \<noteq> CHR ''N''" by (auto simp: NUL_def)
  note IH = "1.IH" [OF refl _ t]
  show ?case
  proof (cases x; cases y)
    assume "x = None" "y = None"
    then show ?thesis using IH by (subst sort_loop.simps) (simp add: column_compare_def NUL_def)
  next
    fix t assume "x = None" "y = Some t"
    then show ?thesis using n d(1) by (subst sort_loop.simps) (simp add: column_compare_def NUL_def)
  next
    fix s assume "x = Some s" "y = None"
    then show ?thesis using n d(1) by (subst sort_loop.simps) (simp add: column_compare_def NUL_def)
  next
    fix s t assume xy: "x = Some s" "y = Some t"
    then have z: "zstr (s @ NUL # sort_key xs) = s" "zstr (t @ NUL # sort_key ys) = t"
      using c by (simp_all add: zstr_element)
    define r where "r = column_compare ops d x y"
    have "sort_loop ops (sort_key ((d, x) # xs)) (sort_key ((e, y) # ys)) dir =
        (if r \<noteq> 0 then Some (d, r) else sort_loop ops (sort_key xs) (sort_key ys) d)"
      using n by (subst sort_loop.simps) (simp add: xy d(1) z r_def column_compare_def sqliteCompare_def)
    then show ?thesis using IH [of d] by (simp add: r_def [symmetric])
  qed
qed (use assms in \<open>auto simp: sort_loop.simps [of _ "[]"]\<close>)

text \<open>
  C38: On keys with the same number of elements and the same flags, \<open>sqliteSortCompare\<close> never fails
  its assertion and is the lexicographic comparison of the columns, NULL first, text columns by
  \<open>strcmp\<close>, numeric ones by \<open>sqliteCompare\<close>, each reversed where its flag says descending.
\<close>

theorem sort_compare_columns:
  assumes "map fst xs = map fst ys" "sort_columns xs" "sort_columns ys"
  shows "sqliteSortCompare ops (sort_key xs) (sort_key ys) = Some (columns_compare ops xs ys)"
  using sort_loop_columns [OF assms, of ops NUL] by (auto simp: sqliteSortCompare_def split: option.splits prod.splits)

text \<open>An instance of the parameter that is exact on integers.\<close>

definition int_fpu :: "int fpu" where
  "int_fpu = \<lparr>fp_of_int = id, fp_add = (+), fp_mul = (*), fp_div = (div), fp_neg = uminus, fp_double = id, fp_less = (<)\<rparr>"

theorem sort_compare_columns_witness:
  "sqliteSortCompare int_fpu (sort_key [(CHR ''D'', Some ''ab''), (CHR ''-'', Some ''9''), (CHR ''+'', None)])
     (sort_key [(CHR ''D'', Some ''ab''), (CHR ''-'', Some ''10''), (CHR ''+'', Some ''7'')]) = Some 1"
proof -
  let ?xs = "[(CHR ''D'', Some ''ab''), (CHR ''-'', Some ''9''), (CHR ''+'', None)]"
  let ?ys = "[(CHR ''D'', Some ''ab''), (CHR ''-'', Some ''10''), (CHR ''+'', Some ''7'')]"
  have "sort_columns ?xs" "sort_columns ?ys"
    by (auto simp: sort_columns_def NUL_def)
  then have "sqliteSortCompare int_fpu (sort_key ?xs) (sort_key ?ys) = Some (columns_compare int_fpu ?xs ?ys)"
    by (intro sort_compare_columns) simp_all
  moreover have "columns_compare int_fpu ?xs ?ys = 1" by code_simp
  ultimately show ?thesis by simp
qed

text \<open>An exponent of \<open>2 ^ 32\<close> counts as none.\<close>

lemma atof_wraps: "sqliteAtoF int_fpu ''1e4294967296'' = sqliteAtoF int_fpu ''1''"
  by code_simp

section \<open>The misuse detector\<close>

text \<open>The runs of the two routines: \<open>True\<close> is a call of \<open>sqliteSafetyOn\<close>.\<close>

fun safety_run :: "bool list \<Rightarrow> sqlite_db \<Rightarrow> int list" where
  "safety_run [] db = []"
| "safety_run (on # ops) db =
     (let (db', rc) = (if on then sqliteSafetyOn db else sqliteSafetyOff db) in rc # safety_run ops db')"

fun alternating :: "bool \<Rightarrow> bool list \<Rightarrow> nat" where
  \<comment> \<open>the length of the longest prefix that alternates, starting with the given call\<close>
  "alternating on [] = 0"
| "alternating on (x # xs) = (if x = on then Suc (alternating (\<not> on) xs) else 0)"

lemmas safety_defs = sqliteSafetyOn_def sqliteSafetyOff_def MAGIC_OPEN_def MAGIC_BUSY_def MAGIC_ERROR_def

lemma safety_run_error: "db_magic db = MAGIC_ERROR \<Longrightarrow> safety_run ops db = replicate (length ops) 1"
proof (induction ops arbitrary: db)
  case (Cons on ops)
  then show ?case by (cases on) (auto simp: safety_defs)
qed simp

lemma safety_run_from:
  "db_magic db = (if on then MAGIC_OPEN else MAGIC_BUSY) \<Longrightarrow>
   safety_run ops db = replicate (alternating on ops) 0 @ replicate (length ops - alternating on ops) 1"
proof (induction ops arbitrary: db on)
  case (Cons x ops)
  show ?case
  proof (cases "x = on")
    case True
    then show ?thesis using Cons.prems
      by (cases on) (simp_all add: Cons.IH [of _ False] Cons.IH [of _ True] safety_defs)
  next
    case False
    then show ?thesis using Cons.prems
      by (cases on) (simp_all add: safety_run_error safety_defs)
  qed
qed simp

text \<open>From an open connection the calls succeed exactly as long as \<open>sqliteSafetyOn\<close> and
  \<open>sqliteSafetyOff\<close> alternate; after the first call out of turn every call reports misuse.
\<close>

theorem safety_protocol:
  assumes "db_magic db = MAGIC_OPEN"
  shows "safety_run ops db =
    replicate (alternating True ops) 0 @ replicate (length ops - alternating True ops) 1"
  by (rule safety_run_from) (simp add: assms)

theorem safety_protocol_witness:
  "safety_run [True, False, True, True, False] \<lparr>db_magic = MAGIC_OPEN, db_flags = 0, db_want_to_close = False, db_pVdbe = False\<rparr>
     = [0, 0, 0, 1, 1]"
  by (subst safety_protocol) (simp_all add: eval_nat_numeral)

end
