(* ===== verification/Pattern.thy ===== *)
theory Pattern
  imports Util
begin

unbundle bit_operations_syntax

text \<open>
  The GLOB and LIKE operators of \<^verbatim>\<open>sqlite/util.c\<close> with their UTF-8 access routines, and
  their declarative meaning as inductive relations. The two share the search lemma for what
  follows an asterisk or percent sign.
\<close>

section \<open>UTF-8\<close>

definition is_cont :: "char \<Rightarrow> bool" where
  "is_cont c \<longleftrightarrow> (0xc0 AND uchar c :: nat) = 0x80"

definition sqliteNextChar :: "string \<Rightarrow> string" where
  "sqliteNextChar z = dropWhile is_cont (tl z)"

definition initVal :: "nat list" where
  "initVal =
    [
     0, 1, 2, 3, 4, 5, 6, 7, 8, 9, 10, 11, 12, 13, 14,
     15, 16, 17, 18, 19, 20, 21, 22, 23, 24, 25, 26, 27, 28, 29,
     30, 31, 32, 33, 34, 35, 36, 37, 38, 39, 40, 41, 42, 43, 44,
     45, 46, 47, 48, 49, 50, 51, 52, 53, 54, 55, 56, 57, 58, 59,
     60, 61, 62, 63, 64, 65, 66, 67, 68, 69, 70, 71, 72, 73, 74,
     75, 76, 77, 78, 79, 80, 81, 82, 83, 84, 85, 86, 87, 88, 89,
     90, 91, 92, 93, 94, 95, 96, 97, 98, 99, 100, 101, 102, 103, 104,
     105, 106, 107, 108, 109, 110, 111, 112, 113, 114, 115, 116, 117, 118, 119,
     120, 121, 122, 123, 124, 125, 126, 127, 128, 129, 130, 131, 132, 133, 134,
     135, 136, 137, 138, 139, 140, 141, 142, 143, 144, 145, 146, 147, 148, 149,
     150, 151, 152, 153, 154, 155, 156, 157, 158, 159, 160, 161, 162, 163, 164,
     165, 166, 167, 168, 169, 170, 171, 172, 173, 174, 175, 176, 177, 178, 179,
     180, 181, 182, 183, 184, 185, 186, 187, 188, 189, 190, 191, 0, 1, 2,
     3, 4, 5, 6, 7, 8, 9, 10, 11, 12, 13, 14, 15, 16, 17,
     18, 19, 20, 21, 22, 23, 24, 25, 26, 27, 28, 29, 30, 31, 0,
     1, 2, 3, 4, 5, 6, 7, 8, 9, 10, 11, 12, 13, 14, 15,
     0, 1, 2, 3, 4, 5, 6, 7, 0, 1, 2, 3, 0, 1, 254,
     255]"

text \<open>
  On the terminator itself the loop condition reads the byte behind it: that read is out of
  bounds, and the result is \<open>None\<close>.
\<close>

definition sqlite_utf8_to_int :: "string \<Rightarrow> int option" where
  "sqlite_utf8_to_int z =
     (case z of [] \<Rightarrow> None
      | b # z' \<Rightarrow>
          Some (sint (fold (\<lambda>x c. push_bit 6 c OR (0x3f AND of_nat (uchar x)))
                  (takeWhile is_cont z') (of_nat (initVal ! uchar b) :: u32))))"

section \<open>GLOB\<close>

abbreviation chr_int :: "char \<Rightarrow> int" where
  "chr_int c \<equiv> int (uchar c)"

lemma length_NextChar: "z \<noteq> [] \<Longrightarrow> length (sqliteNextChar z) < length z"
  by (cases z) (auto simp: sqliteNextChar_def length_dropWhile_le le_imp_less_Suc)

lemma length_NextChar_le: "length (sqliteNextChar z) \<le> length z"
  by (cases z) (auto simp: sqliteNextChar_def length_dropWhile_le le_SucI)

lemma utf8_Some [simp]: "sqlite_utf8_to_int z = Some c \<Longrightarrow> z \<noteq> []"
  by (auto simp: sqlite_utf8_to_int_def)

function glob_class :: "int \<Rightarrow> string \<Rightarrow> bool \<Rightarrow> int \<Rightarrow> (int \<times> bool \<times> string) option" where
  \<comment> \<open>while( (c2 = sqliteCharVal(zPattern))!=0 && c2!=']' )\<close>
  "glob_class c zp seen prior_c =
     (case sqlite_utf8_to_int zp of
        None \<Rightarrow> None
      | Some c2 \<Rightarrow>
          if c2 = 0 \<or> c2 = chr_int (CHR '']'') then Some (c2, seen, zp)
          else if c2 = chr_int (CHR ''-'') \<and> zhd (tl zp) \<noteq> CHR '']'' \<and> zhd (tl zp) \<noteq> NUL \<and> prior_c > 0 then
            (case sqlite_utf8_to_int (tl zp) of
               None \<Rightarrow> None
             | Some c3 \<Rightarrow> glob_class c (sqliteNextChar (tl zp)) (seen \<or> (prior_c \<le> c \<and> c \<le> c3)) 0)
          else glob_class c (sqliteNextChar zp) (seen \<or> c = c2) c2)"
  by pat_completeness auto
termination
proof (relation "measure (\<lambda>(c, zp, seen, prior_c). length zp)", goal_cases)
  case (2 c zp seen prior_c c2 c3)
  then have "tl zp \<noteq> []" by simp
  then show ?case using length_NextChar [of "tl zp"] by simp
next
  case (3 c zp seen prior_c c2)
  then show ?case using length_NextChar [of zp] by simp
qed simp

declare glob_class.simps [simp del]

lemma glob_class_length:
  "glob_class c zp seen prior_c = Some (c2, seen', zp') \<Longrightarrow> length zp' \<le> length zp"
proof (induction c zp seen prior_c rule: glob_class.induct)
  case (1 c zp seen prior_c)
  have "length (sqliteNextChar zp) \<le> length zp" "length (sqliteNextChar (tl zp)) \<le> length zp"
    using length_NextChar_le [of zp] length_NextChar_le [of "tl zp"] by auto
  then show ?case
    using "1.prems" unfolding glob_class.simps [of c zp seen prior_c]
    by (auto split: option.splits if_splits dest: "1.IH" elim: order_trans [rotated])
qed

text \<open>
  In a well-formed UTF-8 pattern no continuation byte follows a wildcard, which is ASCII.
\<close>

fun wild_ok :: "(char \<Rightarrow> bool) \<Rightarrow> string \<Rightarrow> bool" where
  "wild_ok w (c # d # p) \<longleftrightarrow> (w c \<longrightarrow> \<not> is_cont d) \<and> wild_ok w (d # p)"
| "wild_ok w _ \<longleftrightarrow> True"

lemma wild_ok_tl: "wild_ok w (c # p) \<Longrightarrow> wild_ok w p"
  by (cases p) auto

text \<open>
  The loop over a run of wildcards, \<^verbatim>\<open>while( (c=zPattern[1])==many || c==one )\<close>, occurs
  in both operators: \<open>many\<close> stands for any number of characters, \<open>one\<close> for a single one,
  and \<open>None\<close> is the early return of 0.
\<close>

locale wildcard_loop =
  fixes star :: "string \<Rightarrow> string \<Rightarrow> (string \<times> string) option" and many one :: char
  assumes star_Nil: "star [] s = Some ([], s)"
    and star_many: "star (many # p) s = star p s"
    and star_one: "star (one # p) s = (if s = [] then None else star p (sqliteNextChar s))"
    and star_other: "c \<noteq> many \<Longrightarrow> c \<noteq> one \<Longrightarrow> star (c # p) s = Some (c # p, s)"
    and many_one: "many \<noteq> one"
begin

lemma star_cases: "c = many \<or> c = one \<or> (c \<noteq> many \<and> c \<noteq> one)"
  by blast

lemma star_length: "star p s = Some (p', s') \<Longrightarrow> length p' \<le> length p"
proof (induction p arbitrary: s)
  case (Cons c p)
  then show ?case using star_cases [of c]
    by (auto simp: star_many star_one star_other le_SucI split: if_splits)
qed (simp add: star_Nil)

lemma star_ok:
  "wild_ok (\<lambda>c. c = many \<or> c = one) (w # p) \<Longrightarrow> w = many \<or> w = one \<Longrightarrow> cstring p \<Longrightarrow> star p s = Some (p', s') \<Longrightarrow>
    wild_ok (\<lambda>c. c = many \<or> c = one) p' \<and> cstring p' \<and>
    (p' \<noteq> [] \<longrightarrow> \<not> is_cont (hd p') \<and> hd p' \<noteq> many \<and> hd p' \<noteq> one)"
proof (induction p arbitrary: s w)
  case (Cons c p)
  show ?case
  proof (cases "c = many \<or> c = one")
    case True
    then have "\<exists>s''. star p s'' = Some (p', s')"
      using Cons.prems(4) by (auto simp: star_many star_one split: if_splits)
    then show ?thesis using Cons.IH [of c] Cons.prems(1,3) True by auto
  next
    case False
    then show ?thesis using Cons.prems by (auto simp: star_other dest: wild_ok_tl)
  qed
qed (simp add: star_Nil)

end

fun glob_star :: "string \<Rightarrow> string \<Rightarrow> (string \<times> string) option" where
  \<comment> \<open>while( (c=zPattern[1]) == '*' || c == '?' ); None is the return of 0\<close>
  "glob_star [] s = Some ([], s)"
| "glob_star (c # p) s =
     (if c = CHR ''*'' then glob_star p s
      else if c = CHR ''?'' then (if s = [] then None else glob_star p (sqliteNextChar s))
      else Some (c # p, s))"

interpretation gs: wildcard_loop glob_star "CHR ''*''" "CHR ''?''"
  by unfold_locales simp_all

text \<open>
  The recursion of \<open>sqliteGlobCompare\<close> on the pattern, with its two scanning loops over the
  string: \<open>glob_scan_class\<close> after an asterisk that a bracket follows, \<open>glob_scan\<close> after an
  asterisk that another character follows.
\<close>

function sqliteGlobCompare :: "string \<Rightarrow> string \<Rightarrow> bool option"
  and glob_scan_class :: "string \<Rightarrow> string \<Rightarrow> bool option"
  and glob_scan :: "string \<Rightarrow> string \<Rightarrow> bool option" where
  "sqliteGlobCompare zPattern zString =
     (case zPattern of [] \<Rightarrow> Some (zString = [])
      | c # p \<Rightarrow>
        if c = CHR ''*'' then
          (case glob_star p zString of None \<Rightarrow> Some False
           | Some (p', s') \<Rightarrow>
               if zhd p' = NUL then Some True
               else if zhd p' = CHR ''['' then glob_scan_class p' s'
               else glob_scan p' s')
        else if c = CHR ''?'' then
          (if zString = [] then Some False else sqliteGlobCompare p (sqliteNextChar zString))
        else if c = CHR ''['' then
          (case sqlite_utf8_to_int zString of None \<Rightarrow> None
           | Some v \<Rightarrow>
               if v = 0 then Some False
               else
                 let (invert, p2) = (if zhd p = CHR ''^'' then (True, tl p) else (False, p));
                     (seen, p3) = (if zhd p2 = CHR '']'' then (v = chr_int (CHR '']''), tl p2) else (False, p2))
                 in (case glob_class v p3 seen 0 of None \<Rightarrow> None
                     | Some (c2, seen', p4) \<Rightarrow>
                         if c2 = 0 \<or> seen' = invert then Some False
                         else sqliteGlobCompare (tl p4) (sqliteNextChar zString)))
        else if c \<noteq> zhd zString then Some False
        else sqliteGlobCompare p (tl zString))"
| "glob_scan_class p s =
     (if s = [] then Some False
      else (case sqliteGlobCompare p s of None \<Rightarrow> None
            | Some True \<Rightarrow> Some True
            | Some False \<Rightarrow> glob_scan_class p (sqliteNextChar s)))"
| "glob_scan p s =
     (case dropWhile (\<lambda>x. x \<noteq> zhd p) s of [] \<Rightarrow> Some False
      | x # s' \<Rightarrow>
          (case sqliteGlobCompare p (x # s') of None \<Rightarrow> None
           | Some True \<Rightarrow> Some True
           | Some False \<Rightarrow> glob_scan p (sqliteNextChar (x # s'))))"
  by pat_completeness auto
termination
  apply (relation "inv_image (less_than <*lex*> less_than <*lex*> less_than)
     (\<lambda>x. case x of Inl (p, s) \<Rightarrow> (length p, 0::nat, length s)
        | Inr (Inl (p, s)) \<Rightarrow> (length p, 1, length s) | Inr (Inr (p, s)) \<Rightarrow> (length p, 1, length s))")
  apply (auto dest!: gs.star_length glob_class_length simp: less_Suc_eq_le length_NextChar)
  subgoal by (auto split: if_splits)
  subgoal for p s x xs
    using length_dropWhile_le [of "\<lambda>x. x \<noteq> zhd p" s] length_NextChar [of "x # xs"] by simp
  done

declare sqliteGlobCompare.simps [simp del] glob_scan_class.simps [simp del] glob_scan.simps [simp del]

section \<open>LIKE\<close>

fun like_star :: "string \<Rightarrow> string \<Rightarrow> (string \<times> string) option" where
  \<comment> \<open>while( (c=zPattern[1]) == '%' || c == '_' ); None is the return of 0\<close>
  "like_star [] s = Some ([], s)"
| "like_star (c # p) s =
     (if c = CHR ''%'' then like_star p s
      else if c = CHR ''_'' then (if s = [] then None else like_star p (sqliteNextChar s))
      else Some (c # p, s))"

interpretation ls: wildcard_loop like_star "CHR ''%''" "CHR ''_''"
  by unfold_locales simp_all

function sqliteLikeCompare :: "string \<Rightarrow> string \<Rightarrow> bool"
  and like_scan :: "string \<Rightarrow> string \<Rightarrow> bool" where
  "sqliteLikeCompare zPattern zString =
     (case zPattern of [] \<Rightarrow> zString = []
      | c # p \<Rightarrow>
        if u2l c = uchar (CHR ''%'') then
          (case like_star p zString of None \<Rightarrow> False
           | Some (p', s') \<Rightarrow> if zhd p' = NUL then True else like_scan p' s')
        else if u2l c = uchar (CHR ''_'') then
          (if zString = [] then False else sqliteLikeCompare p (sqliteNextChar zString))
        else if u2l c \<noteq> u2l (zhd zString) then False
        else sqliteLikeCompare p (tl zString))"
| "like_scan p s =
     (case dropWhile (\<lambda>x. u2l x \<noteq> u2l (zhd p)) s of [] \<Rightarrow> False
      | x # s' \<Rightarrow>
          if sqliteLikeCompare p (x # s') then True
          else like_scan p (sqliteNextChar (x # s')))"
  by pat_completeness auto
termination
  apply (relation "inv_image (less_than <*lex*> less_than <*lex*> less_than)
     (\<lambda>x. case x of Inl (p, s) \<Rightarrow> (length p, 0::nat, length s)
        | Inr (p, s) \<Rightarrow> (length p, 1, length s))")
  apply (auto dest!: ls.star_length simp: less_Suc_eq_le length_NextChar)
  subgoal for p s x xs
    using length_dropWhile_le [of "\<lambda>x. u2l x \<noteq> u2l (zhd p)" s] length_NextChar [of "x # xs"] by simp
  done

declare sqliteLikeCompare.simps [simp del] like_scan.simps [simp del]

section \<open>UTF-8 continuation bytes\<close>

lemma is_cont_iff: "is_cont c \<longleftrightarrow> 128 \<le> uchar c \<and> uchar c < 192"
proof -
  have "n div 64 mod 4 = 2 \<longleftrightarrow> 128 \<le> n \<and> n < 192" if "n < 256" for n :: nat
  proof -
    have "n div 64 < 4" using that by (simp add: less_mult_imp_div_less)
    then have "n div 64 mod 4 = n div 64" by simp
    moreover have "n div 64 = 2 \<longleftrightarrow> 128 \<le> n \<and> n < 192" by linarith
    ultimately show ?thesis by simp
  qed
  from this [of "uchar c"] show ?thesis by (auto simp: is_cont_def and_192)
qed

lemma is_cont_u2l: "u2l c = u2l d \<Longrightarrow> is_cont c \<longleftrightarrow> is_cont d"
  by (auto simp: is_cont_iff u2l_eq split: if_splits)

lemma not_cont_ASCII [simp]: "\<not> is_cont NUL" "\<not> is_cont (CHR ''['')"
  by (simp_all add: is_cont_iff NUL_def)

section \<open>Character boundaries\<close>

text \<open>
  The strings a pointer reaches by \<open>sqliteNextChar\<close>: what is left after zero or more
  whole characters.
\<close>

inductive char_suffix :: "string \<Rightarrow> string \<Rightarrow> bool" where
  refl: "char_suffix s s"
| step: "s \<noteq> [] \<Longrightarrow> char_suffix (sqliteNextChar s) t \<Longrightarrow> char_suffix s t"

lemma char_suffix_trans: "char_suffix s t \<Longrightarrow> char_suffix t u \<Longrightarrow> char_suffix s u"
  by (induction rule: char_suffix.induct) (auto intro: char_suffix.step)

lemma char_suffix_Nil: "char_suffix s []"
proof (induction s rule: length_induct)
  case (1 s)
  then show ?case
    by (cases "s = []") (auto intro: char_suffix.intros length_NextChar)
qed

lemma dropWhile_cont_suffix:
  "x \<noteq> [] \<Longrightarrow> \<not> is_cont (hd x) \<Longrightarrow> \<exists>pre. z = pre @ x \<Longrightarrow> \<exists>pre. dropWhile is_cont z = pre @ x"
proof (induction z)
  case (Cons a z)
  then obtain pre where pre: "a # z = pre @ x" by auto
  show ?case
  proof (cases "is_cont a")
    case True
    then have "\<exists>pre'. z = pre' @ x" using pre Cons.prems(1,2) by (cases pre) auto
    then show ?thesis using Cons.IH [OF Cons.prems(1,2)] True by simp
  next
    case False
    then have "dropWhile is_cont (a # z) = a # z" by simp
    then show ?thesis using pre by metis
  qed
qed simp

text \<open>A position that is not inside a character is a character boundary.\<close>

lemma suffix_boundary:
  assumes "x \<noteq> []" "\<not> is_cont (hd x)" "s = pre @ x"
  shows "char_suffix s x"
  using assms(3)
proof (induction s arbitrary: pre rule: length_induct)
  case (1 s)
  show ?case
  proof (cases pre)
    case Nil
    then show ?thesis using "1.prems" by (simp add: char_suffix.refl)
  next
    case (Cons a pre')
    then have ne: "s \<noteq> []" and tl: "tl s = pre' @ x" using "1.prems" by auto
    then obtain pre'' where p: "sqliteNextChar s = pre'' @ x"
      using dropWhile_cont_suffix [OF assms(1,2), of "tl s"] by (auto simp: sqliteNextChar_def)
    have "char_suffix (sqliteNextChar s) x"
      using "1.IH" length_NextChar [OF ne] p by blast
    then show ?thesis by (rule char_suffix.step [OF ne])
  qed
qed

lemma char_suffix_append: "char_suffix s t \<Longrightarrow> \<exists>pre. s = pre @ t"
proof (induction rule: char_suffix.induct)
  case (step s t)
  then obtain pre where "sqliteNextChar s = pre @ t" by blast
  moreover have "s = take 1 s @ takeWhile is_cont (tl s) @ sqliteNextChar s"
    using step.hyps(1) by (cases s) (auto simp: sqliteNextChar_def)
  ultimately show ?case by (metis append.assoc)
qed auto

section \<open>The LIKE relation\<close>

text \<open>
  The declarative meaning of LIKE: a percent sign matches any sequence of whole characters, an
  underscore one character, anything else the same byte up to the case of ASCII letters.
\<close>

inductive like_match :: "string \<Rightarrow> string \<Rightarrow> bool" where
  empty: "like_match [] []"
| percent: "char_suffix s t \<Longrightarrow> like_match p t \<Longrightarrow> like_match (CHR ''%'' # p) s"
| underscore: "s \<noteq> [] \<Longrightarrow> like_match p (sqliteNextChar s) \<Longrightarrow> like_match (CHR ''_'' # p) s"
| literal: "c \<noteq> CHR ''%'' \<Longrightarrow> c \<noteq> CHR ''_'' \<Longrightarrow> u2l c = u2l d \<Longrightarrow> like_match p s \<Longrightarrow> like_match (c # p) (d # s)"

inductive_simps like_match_Nil: "like_match [] s"
inductive_simps like_match_percent: "like_match (CHR ''%'' # p) s"
inductive_simps like_match_underscore: "like_match (CHR ''_'' # p) s"
inductive_simps like_match_Cons: "like_match (c # p) s"

lemma char_suffix_cases: "char_suffix s t \<longleftrightarrow> t = s \<or> (s \<noteq> [] \<and> char_suffix (sqliteNextChar s) t)"
  by (auto intro: char_suffix.intros elim: char_suffix.cases)

text \<open>Taking a character off commutes with searching for a whole-character suffix.\<close>

lemma char_suffix_commute:
  "(\<exists>t. char_suffix s t \<and> t \<noteq> [] \<and> M (sqliteNextChar t)) \<longleftrightarrow>
    s \<noteq> [] \<and> (\<exists>t. char_suffix (sqliteNextChar s) t \<and> M t)"
proof (induction s rule: length_induct)
  case (1 s)
  show ?case
  proof (cases "s = []")
    case True
    then show ?thesis by (auto elim: char_suffix.cases)
  next
    case False
    have "(\<exists>t. char_suffix s t \<and> t \<noteq> [] \<and> M (sqliteNextChar t)) \<longleftrightarrow> M (sqliteNextChar s) \<or>
      (\<exists>t. char_suffix (sqliteNextChar s) t \<and> t \<noteq> [] \<and> M (sqliteNextChar t))"
      using False by (auto simp: char_suffix_cases [of s])
    also have "\<dots> \<longleftrightarrow> M (sqliteNextChar s) \<or> (sqliteNextChar s \<noteq> [] \<and>
      (\<exists>t. char_suffix (sqliteNextChar (sqliteNextChar s)) t \<and> M t))"
      using "1.IH" length_NextChar [OF False] by blast
    also have "\<dots> \<longleftrightarrow> (\<exists>t. char_suffix (sqliteNextChar s) t \<and> M t)"
      by (auto simp: char_suffix_cases [of "sqliteNextChar s"])
    finally show ?thesis using False by simp
  qed
qed

text \<open>
  The loop against a relation that gives the two wildcards their meaning: the loop takes the
  single characters of a run first and leaves one search, which loses no match.
\<close>

locale wildcard_match = wildcard_loop +
  fixes M :: "string \<Rightarrow> string \<Rightarrow> bool"
  assumes M_many: "M (many # p) s \<longleftrightarrow> (\<exists>t. char_suffix s t \<and> M p t)"
    and M_one: "M (one # p) s \<longleftrightarrow> s \<noteq> [] \<and> M p (sqliteNextChar s)"
begin

lemma star_match:
  "M (many # p) s \<longleftrightarrow>
    (case star p s of None \<Rightarrow> False
     | Some (p', s') \<Rightarrow> \<exists>t. char_suffix s' t \<and> M p' t)"
proof (induction p arbitrary: s)
  case (Cons c p)
  consider "c = many" | "c = one" | "c \<noteq> many" "c \<noteq> one" by blast
  then show ?case
  proof cases
    case 1
    have "M (many # many # p) s \<longleftrightarrow> M (many # p) s"
      by (auto simp: M_many intro: char_suffix_trans char_suffix.refl)
    then show ?thesis using Cons.IH 1 by (simp add: star_many)
  next
    case 2
    have "M (many # one # p) s \<longleftrightarrow> s \<noteq> [] \<and> M (many # p) (sqliteNextChar s)"
      using char_suffix_commute [of s "M p"] by (simp add: M_many M_one)
    then show ?thesis using Cons.IH 2 by (simp add: star_one)
  next
    case 3
    then show ?thesis by (simp add: star_other M_many)
  qed
qed (simp add: star_Nil M_many)

end

interpretation lm: wildcard_match like_star "CHR ''%''" "CHR ''_''" like_match
  by unfold_locales (simp_all add: like_match_percent like_match_underscore)

text \<open>
  The search for the first byte of the rest of the pattern: it finds a whole-character suffix
  exactly when there is one that matches. It is stated for any relation \<open>M\<close> whose matches
  start with a byte that \<open>P\<close> accepts, so that LIKE and GLOB share it.
\<close>

lemma dropWhile_search:
  assumes head: "\<And>t. M t \<Longrightarrow> t \<noteq> [] \<and> P (hd t)" and cont: "\<And>c. P c \<Longrightarrow> \<not> is_cont c"
  shows "(\<exists>t. char_suffix s t \<and> M t) \<longleftrightarrow>
    (case dropWhile (\<lambda>x. \<not> P x) s of [] \<Rightarrow> False
     | x # s' \<Rightarrow> M (x # s') \<or> (\<exists>t. char_suffix (sqliteNextChar (x # s')) t \<and> M t))"
proof (cases "dropWhile (\<lambda>x. \<not> P x) s")
  case Nil
  then have "\<forall>x\<in>set s. \<not> P x" by (simp add: dropWhile_eq_Nil_conv)
  then have "\<not> M t" if "char_suffix s t" for t
    using char_suffix_append [OF that] head [of t] by (metis Un_iff hd_in_set set_append)
  then show ?thesis unfolding Nil by auto
next
  case (Cons x s')
  let ?pre = "takeWhile (\<lambda>x. \<not> P x) s"
  have s: "s = ?pre @ x # s'" by (metis Cons takeWhile_dropWhile_id)
  have x: "P x" using Cons by (metis dropWhile_eq_Cons_conv)
  have suf: "char_suffix s (x # s')"
    by (rule suffix_boundary [OF _ _ s]) (use x cont in auto)
  have "char_suffix (x # s') t" if t: "char_suffix s t" "M t" for t
  proof -
    have h: "t \<noteq> []" "P (hd t)" using head t(2) by auto
    obtain pre where pre: "s = pre @ t" using char_suffix_append [OF t(1)] by blast
    have "\<exists>pre'. x # s' = pre' @ t"
    proof (rule ccontr)
      assume no: "\<not> ?thesis"
      have "?pre @ x # s' = pre @ t" using s pre by metis
      then obtain us where us: "?pre = pre @ us" "us @ x # s' = t" "us \<noteq> []"
        using no by (auto simp: append_eq_append_conv2)
      then have "hd t \<in> set ?pre" by (metis Un_iff hd_append2 hd_in_set set_append)
      then show False using h by (auto dest: set_takeWhileD)
    qed
    then show ?thesis using suffix_boundary h cont by blast
  qed
  then have "(\<exists>t. char_suffix s t \<and> M t) \<longleftrightarrow> (\<exists>t. char_suffix (x # s') t \<and> M t)"
    using suf char_suffix_trans by blast
  then show ?thesis using Cons by (auto simp: char_suffix_cases [of "x # s'"])
qed

lemma like_compare_Nil [simp]: "sqliteLikeCompare [] s \<longleftrightarrow> s = []"
  by (simp add: sqliteLikeCompare.simps [of "[]"])

lemmas like_compare_Cons = sqliteLikeCompare.simps [of "c # p" s for c p s, simplified]

lemma like_scan_eq:
  assumes IH: "\<And>s. sqliteLikeCompare p s \<longleftrightarrow> like_match p s"
    and p: "p \<noteq> []" "\<not> is_cont (hd p)" "hd p \<noteq> CHR ''%''" "hd p \<noteq> CHR ''_''" "hd p \<noteq> NUL"
  shows "like_scan p s \<longleftrightarrow> (\<exists>t. char_suffix s t \<and> like_match p t)"
proof (induction s rule: length_induct)
  case (1 s)
  have z: "zhd p = hd p" using p(1) by (cases p) auto
  have search: "(\<exists>t. char_suffix s t \<and> like_match p t) \<longleftrightarrow>
    (case dropWhile (\<lambda>x. \<not> u2l x = u2l (hd p)) s of [] \<Rightarrow> False
     | x # s' \<Rightarrow> like_match p (x # s') \<or> (\<exists>t. char_suffix (sqliteNextChar (x # s')) t \<and> like_match p t))"
  proof (rule dropWhile_search)
    fix t assume "like_match p t"
    then show "t \<noteq> [] \<and> u2l (hd t) = u2l (hd p)"
      using p by (cases p) (auto simp: like_match_Cons)
  next
    fix c assume "u2l c = u2l (hd p)"
    then show "\<not> is_cont c" using is_cont_u2l p(2) by blast
  qed
  show ?case
  proof (cases "dropWhile (\<lambda>x. u2l x \<noteq> u2l (hd p)) s")
    case Nil
    show ?thesis using search unfolding like_scan.simps [of p s] z Nil by simp
  next
    case (Cons x s')
    have "length (sqliteNextChar (x # s')) < length s"
      using length_NextChar [of "x # s'"] length_dropWhile_le [of "\<lambda>x. u2l x \<noteq> u2l (hd p)" s] Cons by simp
    then show ?thesis using search Cons "1.IH" IH by (simp add: like_scan.simps [of p s] z)
  qed
qed

text \<open>
  C29: LIKE. For every pattern in which no UTF-8 continuation byte follows a wildcard (so for
  every well-formed one) and every string, \<open>sqliteLikeCompare\<close> returns true exactly when the
  string matches the pattern in the declarative sense: the loop that takes all underscores of a
  run of wildcards before it searches, and the search for the next literal byte, lose no match.
\<close>

theorem like_compare_correct:
  assumes "cstring p" "wild_ok (\<lambda>c. c = CHR ''%'' \<or> c = CHR ''_'') p"
  shows "sqliteLikeCompare p s \<longleftrightarrow> like_match p s"
  using assms
proof (induction p arbitrary: s rule: length_induct)
  case (1 p)
  show ?case
  proof (cases p)
    case Nil
    then show ?thesis by (simp add: like_match_Nil)
  next
    case (Cons c q)
    have q: "cstring q" "wild_ok (\<lambda>c. c = CHR ''%'' \<or> c = CHR ''_'') q" "c \<noteq> NUL"
      using "1.prems" Cons wild_ok_tl by auto
    have IHq: "sqliteLikeCompare q s' \<longleftrightarrow> like_match q s'" for s'
      using "1.IH" q Cons by simp
    consider "c = CHR ''%''" | "c = CHR ''_''" | "c \<noteq> CHR ''%''" "c \<noteq> CHR ''_''" by blast
    then show ?thesis
    proof cases
      case 1
      have eq: "like_match p s \<longleftrightarrow> (case like_star q s of None \<Rightarrow> False
          | Some (p', s') \<Rightarrow> \<exists>t. char_suffix s' t \<and> like_match p' t)"
        using 1 Cons lm.star_match [of q s] by simp
      show ?thesis
      proof (cases "like_star q s")
        case None
        then show ?thesis using eq 1 Cons by (simp add: like_compare_Cons)
      next
        case (Some r)
        obtain p' s' where r: "r = (p', s')" by fastforce
        have ok: "wild_ok (\<lambda>c. c = CHR ''%'' \<or> c = CHR ''_'') p' \<and> cstring p' \<and>
            (p' \<noteq> [] \<longrightarrow> \<not> is_cont (hd p') \<and> hd p' \<noteq> CHR ''%'' \<and> hd p' \<noteq> CHR ''_'')"
          by (rule ls.star_ok [of c q s p' s']) (use "1.prems" Cons 1 q Some r in auto)
        show ?thesis
        proof (cases "p' = []")
          case True
          then show ?thesis using eq Some r 1 Cons char_suffix_Nil
            by (auto simp: like_compare_Cons like_match_Nil)
        next
          case False
          then have hd: "hd p' \<noteq> NUL" using ok by (cases p') auto
          have len: "length p' < length p" using ls.star_length Some r Cons by fastforce
          have "like_scan p' s' \<longleftrightarrow> (\<exists>t. char_suffix s' t \<and> like_match p' t)"
            by (rule like_scan_eq) (use "1.IH" ok len False hd in auto)
          moreover have "zhd p' \<noteq> NUL" using False hd by (cases p') auto
          ultimately show ?thesis using eq Some r 1 Cons by (simp add: like_compare_Cons)
        qed
      qed
    next
      case 2
      then show ?thesis using IHq Cons
        by (auto simp: like_compare_Cons like_match_underscore)
    next
      case 3
      then show ?thesis using IHq Cons q(3)
        by (cases s) (auto simp: like_compare_Cons like_match_Cons)
    qed
  qed
qed

theorem like_compare_correct_witness:
  "like_match ''a%_C'' ''abbc'' \<and> \<not> like_match ''a%_C'' ''ac''"
proof -
  have p: "cstring ''a%_C''" "wild_ok (\<lambda>c. c = CHR ''%'' \<or> c = CHR ''_'') ''a%_C''"
    by (simp_all add: NUL_def cstring_def is_cont_iff)
  have "sqliteLikeCompare ''a%_C'' ''abbc'' \<and> \<not> sqliteLikeCompare ''a%_C'' ''ac''"
    by code_simp
  then show ?thesis using like_compare_correct [OF p] by simp
qed

section \<open>The GLOB relation\<close>

text \<open>
  A bracket expression, read after its opening bracket: whether the character code \<open>v\<close> is
  accepted, and the pattern behind the closing bracket.
\<close>

definition glob_bracket :: "int \<Rightarrow> string \<Rightarrow> (bool \<times> string) option" where
  "glob_bracket v p =
     (let (invert, p2) = (if zhd p = CHR ''^'' then (True, tl p) else (False, p));
          (seen, p3) = (if zhd p2 = CHR '']'' then (v = chr_int (CHR '']''), tl p2) else (False, p2))
      in map_option (\<lambda>(c2, seen', p4). (c2 \<noteq> 0 \<and> seen' \<noteq> invert, tl p4)) (glob_class v p3 seen 0))"

inductive glob_match :: "string \<Rightarrow> string \<Rightarrow> bool" where
  empty: "glob_match [] []"
| asterisk: "char_suffix s t \<Longrightarrow> glob_match p t \<Longrightarrow> glob_match (CHR ''*'' # p) s"
| question: "s \<noteq> [] \<Longrightarrow> glob_match p (sqliteNextChar s) \<Longrightarrow> glob_match (CHR ''?'' # p) s"
| bracket: "sqlite_utf8_to_int s = Some v \<Longrightarrow> v \<noteq> 0 \<Longrightarrow> glob_bracket v p = Some (True, rest) \<Longrightarrow>
    glob_match rest (sqliteNextChar s) \<Longrightarrow> glob_match (CHR ''['' # p) s"
| literal: "c \<notin> {CHR ''*'', CHR ''?'', CHR ''[''} \<Longrightarrow> glob_match p s \<Longrightarrow> glob_match (c # p) (c # s)"

inductive_simps glob_match_Nil: "glob_match [] s"
inductive_simps glob_match_asterisk: "glob_match (CHR ''*'' # p) s"
inductive_simps glob_match_question: "glob_match (CHR ''?'' # p) s"
inductive_simps glob_match_bracket: "glob_match (CHR ''['' # p) s"
inductive_simps glob_match_Cons: "glob_match (c # p) s"

interpretation gm: wildcard_match glob_star "CHR ''*''" "CHR ''?''" glob_match
  by unfold_locales (simp_all add: glob_match_asterisk glob_match_question)

lemma glob_compare_Nil [simp]: "sqliteGlobCompare [] s = Some (s = [])"
  by (simp add: sqliteGlobCompare.simps [of "[]"])

lemmas glob_compare_Cons = sqliteGlobCompare.simps [of "c # p" s for c p s, simplified]

lemma glob_compare_bracket:
  "sqliteGlobCompare (CHR ''['' # p) s =
     (case sqlite_utf8_to_int s of None \<Rightarrow> None
      | Some v \<Rightarrow> if v = 0 then Some False
          else (case glob_bracket v p of None \<Rightarrow> None
                | Some (ok, rest) \<Rightarrow> if ok then sqliteGlobCompare rest (sqliteNextChar s) else Some False))"
  by (auto simp: glob_compare_Cons glob_bracket_def Let_def split: option.splits prod.splits)

lemma glob_bracket_length: "glob_bracket v p = Some (ok, rest) \<Longrightarrow> length rest \<le> length p"
  by (auto simp: glob_bracket_def split: if_splits dest!: glob_class_length)

lemma glob_match_hd:
  assumes "glob_match p s" "p \<noteq> []" "hd p \<noteq> CHR ''*''" "hd p \<noteq> CHR ''?''" "hd p \<noteq> CHR ''[''"
  shows "s \<noteq> [] \<and> hd s = hd p"
  using assms by (cases p) (auto simp: glob_match_Cons)

lemma glob_match_bracket_nonempty: "glob_match (CHR ''['' # p) s \<Longrightarrow> s \<noteq> []"
  by (auto simp: glob_match_bracket dest: utf8_Some)

lemma glob_scan_class_Nil [simp]: "glob_scan_class p [] = Some False"
  by (simp add: glob_scan_class.simps [of p "[]"])

lemma glob_scan_class_eq:
  assumes IH: "\<And>s b. sqliteGlobCompare p s = Some b \<Longrightarrow> b \<longleftrightarrow> glob_match p s"
    and ne: "\<And>s. glob_match p s \<Longrightarrow> s \<noteq> []"
  shows "glob_scan_class p s = Some b \<Longrightarrow> b \<longleftrightarrow> (\<exists>t. char_suffix s t \<and> glob_match p t)"
proof (induction s rule: length_induct)
  case (1 s)
  show ?case
  proof (cases "s = []")
    case True
    then have "\<not> b" "\<And>t. char_suffix s t \<Longrightarrow> t = []"
      using "1.prems" by (auto elim: char_suffix.cases)
    then show ?thesis using ne by blast
  next
    case False
    then obtain b1 where b1: "sqliteGlobCompare p s = Some b1"
      using "1.prems" by (auto simp: glob_scan_class.simps [of p s] split: option.splits)
    then have m: "b1 \<longleftrightarrow> glob_match p s" by (rule IH)
    show ?thesis
    proof (cases b1)
      case True
      then show ?thesis using "1.prems" b1 m False
        by (auto simp: glob_scan_class.simps [of p s] intro: char_suffix.refl)
    next
      case no: False
      then have "glob_scan_class p (sqliteNextChar s) = Some b"
        using "1.prems" b1 False by (simp add: glob_scan_class.simps [of p s])
      then have "b \<longleftrightarrow> (\<exists>t. char_suffix (sqliteNextChar s) t \<and> glob_match p t)"
        using "1.IH" length_NextChar [OF False] by blast
      then show ?thesis using no m False by (auto simp: char_suffix_cases [of s])
    qed
  qed
qed

lemma glob_scan_eq:
  assumes IH: "\<And>s b. sqliteGlobCompare p s = Some b \<Longrightarrow> b \<longleftrightarrow> glob_match p s"
    and p: "p \<noteq> []" "\<not> is_cont (hd p)" "hd p \<noteq> CHR ''*''" "hd p \<noteq> CHR ''?''" "hd p \<noteq> CHR ''[''"
  shows "glob_scan p s = Some b \<Longrightarrow> b \<longleftrightarrow> (\<exists>t. char_suffix s t \<and> glob_match p t)"
proof (induction s rule: length_induct)
  case (1 s)
  have z: "zhd p = hd p" using p(1) by (cases p) auto
  have search: "(\<exists>t. char_suffix s t \<and> glob_match p t) \<longleftrightarrow>
    (case dropWhile (\<lambda>x. \<not> x = hd p) s of [] \<Rightarrow> False
     | x # s' \<Rightarrow> glob_match p (x # s') \<or> (\<exists>t. char_suffix (sqliteNextChar (x # s')) t \<and> glob_match p t))"
    by (rule dropWhile_search) (use p glob_match_hd in auto)
  show ?case
  proof (cases "dropWhile (\<lambda>x. x \<noteq> hd p) s")
    case Nil
    show ?thesis using search "1.prems" unfolding glob_scan.simps [of p s] z Nil by simp
  next
    case (Cons x s')
    have len: "length (sqliteNextChar (x # s')) < length s"
      using length_NextChar [of "x # s'"] length_dropWhile_le [of "\<lambda>x. x \<noteq> hd p" s] Cons by simp
    obtain b1 where b1: "sqliteGlobCompare p (x # s') = Some b1"
      using "1.prems" Cons by (auto simp: glob_scan.simps [of p s] z split: option.splits)
    then have m: "b1 \<longleftrightarrow> glob_match p (x # s')" by (rule IH)
    show ?thesis
    proof (cases b1)
      case True
      then show ?thesis using "1.prems" Cons b1 m search by (simp add: glob_scan.simps [of p s] z)
    next
      case False
      then have "glob_scan p (sqliteNextChar (x # s')) = Some b"
        using "1.prems" Cons b1 by (simp add: glob_scan.simps [of p s] z)
      then show ?thesis using "1.IH" len False m search Cons by simp
    qed
  qed
qed

definition glob_pattern_ok :: "string \<Rightarrow> bool" where
  "glob_pattern_ok p \<longleftrightarrow> cstring p \<and> wild_ok (\<lambda>c. c = CHR ''*'' \<or> c = CHR ''?'') p"

lemma wild_ok_suffix: "wild_ok w (xs @ ys) \<Longrightarrow> wild_ok w ys"
  by (induction xs) (auto dest: wild_ok_tl)

lemma suffix_NextChar: "suffix (sqliteNextChar z) z"
  unfolding sqliteNextChar_def by (metis suffix_dropWhile suffix_order.trans suffix_tl)

lemma glob_class_suffix:
  "glob_class c zp seen prior_c = Some (c2, seen', zp') \<Longrightarrow> suffix zp' zp"
proof (induction c zp seen prior_c rule: glob_class.induct)
  case (1 c zp seen prior_c)
  have "suffix (sqliteNextChar zp) zp" "suffix (sqliteNextChar (tl zp)) zp"
    using suffix_NextChar [of zp] suffix_NextChar [of "tl zp"] suffix_tl [of zp]
    by (auto intro: suffix_order.trans)
  then show ?case
    using "1.prems" unfolding glob_class.simps [of c zp seen prior_c]
    by (auto split: option.splits if_splits dest: "1.IH" elim: suffix_order.trans [rotated])
qed

lemma glob_bracket_ok:
  assumes "glob_bracket v p = Some (ok, rest)" "glob_pattern_ok p"
  shows "glob_pattern_ok rest"
proof -
  have tl: "glob_pattern_ok (tl q)" if "glob_pattern_ok q" for q
    using that by (cases q) (auto simp: glob_pattern_ok_def dest: wild_ok_tl)
  have suf: "glob_pattern_ok ys" if "glob_pattern_ok (xs @ ys)" for xs ys
    using that by (auto simp: glob_pattern_ok_def dest: wild_ok_suffix)
  define p2 where "p2 = (if zhd p = CHR ''^'' then tl p else p)"
  define p3 where "p3 = (if zhd p2 = CHR '']'' then tl p2 else p2)"
  have "glob_pattern_ok p3" using assms(2) tl by (simp add: p2_def p3_def)
  moreover obtain seen c2 seen' p4 where c: "glob_class v p3 seen 0 = Some (c2, seen', p4)" "rest = tl p4"
    using assms(1) by (auto simp: glob_bracket_def p2_def p3_def split: if_splits)
  ultimately show ?thesis using glob_class_suffix [OF c(1)] c(2) suf tl by (metis suffix_def)
qed

text \<open>
  GLOB on bytes. Whenever \<open>sqliteGlobCompare\<close> returns without reading past a terminator, on a
  pattern in which no UTF-8 continuation byte follows a wildcard, its result says exactly whether
  the string matches the pattern in the declarative sense: asterisks match any sequence of whole
  characters, question marks one character, brackets one character of the class.
\<close>

lemma glob_compare_correct:
  assumes "glob_pattern_ok p" "sqliteGlobCompare p s = Some b"
  shows "b \<longleftrightarrow> glob_match p s"
  using assms
proof (induction p arbitrary: s b rule: length_induct)
  case (1 p)
  show ?case
  proof (cases p)
    case Nil
    then show ?thesis using "1.prems" by (simp add: glob_match_Nil)
  next
    case (Cons c q)
    have q: "glob_pattern_ok q" "c \<noteq> NUL"
      using "1.prems"(1) Cons wild_ok_tl by (auto simp: glob_pattern_ok_def)
    have IHq: "sqliteGlobCompare r s' = Some b' \<Longrightarrow> b' \<longleftrightarrow> glob_match r s'"
      if "length r \<le> length q" "glob_pattern_ok r" for r s' b'
      using "1.IH" that Cons by simp
    consider "c = CHR ''*''" | "c = CHR ''?''" | "c = CHR ''[''" | "c \<notin> {CHR ''*'', CHR ''?'', CHR ''[''}"
      by blast
    then show ?thesis
    proof cases
      case 1
      have eq: "glob_match p s \<longleftrightarrow> (case glob_star q s of None \<Rightarrow> False
          | Some (p', s') \<Rightarrow> \<exists>t. char_suffix s' t \<and> glob_match p' t)"
        using 1 Cons gm.star_match [of q s] by simp
      show ?thesis
      proof (cases "glob_star q s")
        case None
        then show ?thesis using eq 1 Cons "1.prems"(2) by (simp add: glob_compare_Cons)
      next
        case (Some r)
        obtain p' s' where r: "r = (p', s')" by fastforce
        have ok: "wild_ok (\<lambda>c. c = CHR ''*'' \<or> c = CHR ''?'') p' \<and> cstring p' \<and>
            (p' \<noteq> [] \<longrightarrow> \<not> is_cont (hd p') \<and> hd p' \<noteq> CHR ''*'' \<and> hd p' \<noteq> CHR ''?'')"
          by (rule gs.star_ok [of c q s p' s'])
            (use "1.prems" Cons 1 q Some r in \<open>auto simp: glob_pattern_ok_def\<close>)
        have IH': "\<And>s b. sqliteGlobCompare p' s = Some b \<Longrightarrow> b \<longleftrightarrow> glob_match p' s"
          using IHq [of p'] gs.star_length [of q s p' s'] ok Some r by (auto simp: glob_pattern_ok_def)
        show ?thesis
        proof (cases p')
          case Nil
          then show ?thesis using eq Some r 1 Cons "1.prems"(2) char_suffix_Nil
            by (auto simp: glob_compare_Cons glob_match_Nil)
        next
          case p': (Cons d p'')
          then have z: "zhd p' = d" "d \<noteq> NUL" using ok by auto
          show ?thesis
          proof (cases "d = CHR ''[''")
            case True
            then have "glob_scan_class p' s' = Some b"
              using "1.prems"(2) Some r 1 Cons z by (simp add: glob_compare_Cons)
            then have "b \<longleftrightarrow> (\<exists>t. char_suffix s' t \<and> glob_match p' t)"
              by (rule glob_scan_class_eq [OF IH', rotated -1])
                (use p' True glob_match_bracket_nonempty in auto)
            then show ?thesis using eq Some r by simp
          next
            case False
            then have "glob_scan p' s' = Some b"
              using "1.prems"(2) Some r 1 Cons z by (simp add: glob_compare_Cons)
            then have "b \<longleftrightarrow> (\<exists>t. char_suffix s' t \<and> glob_match p' t)"
              by (rule glob_scan_eq [OF IH', rotated -1]) (use p' False ok in auto)
            then show ?thesis using eq Some r by simp
          qed
        qed
      qed
    next
      case 2
      then show ?thesis using IHq [of q] q Cons "1.prems"(2)
        by (auto simp: glob_compare_Cons glob_match_question split: if_splits)
    next
      case 3
      then show ?thesis
        using IHq glob_bracket_length glob_bracket_ok [OF _ q(1)] Cons "1.prems"(2)
        by (fastforce simp: glob_compare_bracket glob_match_bracket split: option.splits if_splits)
    next
      case 4
      then show ?thesis using IHq [of q] Cons q "1.prems"(2)
        by (cases s) (auto simp: glob_compare_Cons glob_match_Cons split: if_splits)
    qed
  qed
qed

section \<open>Over-reads\<close>

lemma glob_star_set: "glob_star p s = Some (p', s') \<Longrightarrow> set p' \<subseteq> set p"
  by (induction p s rule: glob_star.induct) (auto split: if_splits)

lemma glob_scan_total:
  assumes "\<And>s. sqliteGlobCompare p s \<noteq> None"
  shows "glob_scan p s \<noteq> None"
proof (induction s rule: length_induct)
  case (1 s)
  show ?case
  proof (cases "dropWhile (\<lambda>x. x \<noteq> zhd p) s")
    case Nil
    show ?thesis unfolding glob_scan.simps [of p s] Nil by simp
  next
    case (Cons x s')
    have "length (sqliteNextChar (x # s')) < length s"
      using length_NextChar [of "x # s'"] length_dropWhile_le [of "\<lambda>x. x \<noteq> zhd p" s] Cons by simp
    then have "glob_scan p (sqliteNextChar (x # s')) \<noteq> None" using "1.IH" by blast
    then show ?thesis using assms [of "x # s'"]
      by (auto simp: glob_scan.simps [of p s] Cons split: option.splits bool.splits)
  qed
qed

text \<open>
  A pattern without a bracket never makes \<open>sqliteGlobCompare\<close>
  read past the terminator of the pattern or of the string.
\<close>

lemma glob_no_overread:
  assumes "CHR ''['' \<notin> set p"
  shows "sqliteGlobCompare p s \<noteq> None"
  using assms
proof (induction p arbitrary: s rule: length_induct)
  case (1 p)
  show ?case
  proof (cases p)
    case (Cons c q)
    have q: "sqliteGlobCompare q s' \<noteq> None" for s'
      using "1.IH" "1.prems" Cons by simp
    have scan: "glob_scan p' s' \<noteq> None" if "glob_star q s = Some (p', s')" for p' s'
    proof (rule glob_scan_total)
      fix u
      have "length p' < length p" "CHR ''['' \<notin> set p'"
        using gs.star_length [OF that] glob_star_set [OF that] "1.prems" Cons by auto
      then show "sqliteGlobCompare p' u \<noteq> None" using "1.IH" by blast
    qed
    have nb: "zhd p' \<noteq> CHR ''[''" if "glob_star q s = Some (p', s')" for p' s'
      using glob_star_set [OF that] "1.prems" Cons by (cases p') (auto simp: NUL_def)
    have c: "c \<noteq> CHR ''[''" using "1.prems" Cons by auto
    consider "c = CHR ''*''" "glob_star q s = None" | p' s' where "c = CHR ''*''" "glob_star q s = Some (p', s')"
      | "c \<noteq> CHR ''*''" by (cases "glob_star q s") auto
    then show ?thesis
    proof cases
      case 2
      then show ?thesis using scan [OF 2(2)] nb [OF 2(2)] Cons by (auto simp: glob_compare_Cons)
    qed (use q c Cons in \<open>auto simp: glob_compare_Cons\<close>)
  qed simp
qed

text \<open>
  A bracket against the end of the string, and a bracket that is not closed, both make
  \<open>sqlite_utf8_to_int\<close> look at the byte behind a terminator.
\<close>

theorem glob_bracket_overread:
  "sqliteGlobCompare ''[a]'' '''' = None \<and> sqliteGlobCompare ''a[bc'' ''ax'' = None"
  by code_simp

end
