(* ===== verification/GlobProps.thy ===== *)
theory GlobProps
  imports Pattern
begin

text \<open>
  What \<open>sqliteGlobCompare\<close> decides, in terms of Unicode code points: the encoding of text in UTF-8,
  the meaning of bracket expressions and patterns over lists of code points, and the property.
\<close>

unbundle bit_operations_syntax

section \<open>Text\<close>

definition later_byte :: "nat \<Rightarrow> char" where
  "later_byte n = char_of (0x80 + n mod 64)"

definition utf8 :: "nat \<Rightarrow> string" where
  "utf8 n =
     (if n < 0x80 then [char_of n]
      else if n < 0x800 then [char_of (0xc0 + n div 64), later_byte n]
      else if n < 0x10000 then [char_of (0xe0 + n div 4096), later_byte (n div 64), later_byte n]
      else [char_of (0xf0 + n div 262144), later_byte (n div 4096), later_byte (n div 64), later_byte n])"

definition text_of :: "nat list \<Rightarrow> string" where
  "text_of ns = concat (map utf8 ns)"

definition code_points :: "nat list \<Rightarrow> bool" where
  "code_points ns \<longleftrightarrow> list_all (\<lambda>n. 0 < n \<and> n < 0x110000) ns"

lemma utf8_step: "m < 64 \<Longrightarrow> push_bit 6 c OR (0x3f AND of_nat (0x80 + m)) = (64 * c + of_nat m :: u32)"
proof -
  assume m: "m < 64"
  have "(0x3f AND of_nat (0x80 + m) :: u32) = take_bit 6 (of_nat (0x80 + m))"
    by (simp add: take_bit_eq_mask mask_eq_exp_minus_1 and.commute)
  also have "\<dots> = of_nat (take_bit 6 (0x80 + m))" by (simp only: take_bit_of_nat)
  also have "take_bit 6 (0x80 + m) = m"
  proof -
    have "take_bit 6 (0x80 + m) = (2 * 64 + m) mod 64" by (simp add: take_bit_eq_mod)
    also have "\<dots> = m" using m by (simp only: mod_mult_self3 mod_less)
    finally show ?thesis .
  qed
  finally have a: "(0x3f AND of_nat (0x80 + m) :: u32) = of_nat m" .
  have t: "(of_nat m :: u32) = take_bit 6 (of_nat m)"
  proof -
    have "take_bit 6 m = m" using m by (simp add: take_bit_eq_mod)
    then show ?thesis by (metis take_bit_of_nat)
  qed
  have "push_bit 6 c OR (of_nat m :: u32) = push_bit 6 c + of_nat m"
    by (subst disjunctive_add) (subst t, auto simp: bit_simps)
  then show ?thesis unfolding a by (simp add: push_bit_eq_mult)
qed

lemma initVal_lead:
  "n < 0x80 \<Longrightarrow> initVal ! n = n" "n < 0x20 \<Longrightarrow> initVal ! (0xc0 + n) = n"
  "n < 0x10 \<Longrightarrow> initVal ! (0xe0 + n) = n" "n < 8 \<Longrightarrow> initVal ! (0xf0 + n) = n"
proof -
  have e: "initVal = [0..<0xc0] @ [0..<0x20] @ [0..<0x10] @ [0..<8] @ [0, 1, 2, 3, 0, 1, 254, 255]"
    by code_simp
  show "n < 0x80 \<Longrightarrow> initVal ! n = n" "n < 0x20 \<Longrightarrow> initVal ! (0xc0 + n) = n"
    "n < 0x10 \<Longrightarrow> initVal ! (0xe0 + n) = n" "n < 8 \<Longrightarrow> initVal ! (0xf0 + n) = n"
    unfolding e by (simp_all add: nth_append del: upt_rec_numeral)
qed

lemma sint_small: "n < 2 ^ 31 \<Longrightarrow> sint (of_nat n :: u32) = int n"
  by (simp add: signed_of_nat signed_take_bit_int_eq_self)


lemma uchar_chr [simp]: "n < 256 \<Longrightarrow> uchar (char_of (n :: nat)) = n"
  by simp

lemma later_byte [simp]: "uchar (later_byte n) = 0x80 + n mod 64" "is_cont (later_byte n)"
proof -
  have "n mod 64 < 64" by simp
  then show u: "uchar (later_byte n) = 0x80 + n mod 64" by (simp add: later_byte_def)
  show "is_cont (later_byte n)" unfolding is_cont_iff u using \<open>n mod 64 < 64\<close> by simp
qed

lemma utf8_ne [simp]: "utf8 n \<noteq> []"
  by (simp add: utf8_def)

lemma not_cont_chr: "n < 256 \<Longrightarrow> n < 128 \<or> 192 \<le> n \<Longrightarrow> \<not> is_cont (char_of (n :: nat))"
  by (auto simp: is_cont_iff)

lemma utf8_shape:
  assumes "n < 0x110000"
  obtains b k where "utf8 n = char_of b # map later_byte k" "b < 256" "b < 128 \<or> 192 \<le> b" "b < 128 \<longleftrightarrow> n < 128" "n < 128 \<longrightarrow> b = n \<and> k = []"
proof -
  have d: "n < 0x800 \<longrightarrow> n div 64 < 32" "n < 0x10000 \<longrightarrow> n div 4096 < 16" "n div 262144 < 5" using assms by linarith+
  consider "n < 0x80" | "\<not> n < 0x80" "n < 0x800" | "\<not> n < 0x800" "n < 0x10000" | "\<not> n < 0x10000" by linarith
  then show ?thesis
  proof cases
    case 1
    then show ?thesis by (intro that [of n "[]"]) (simp_all add: utf8_def)
  next
    case 2
    then show ?thesis using d by (intro that [of "0xc0 + n div 64" "[n]"]) (simp_all add: utf8_def)
  next
    case 3
    then show ?thesis using d by (intro that [of "0xe0 + n div 4096" "[n div 64, n]"]) (simp_all add: utf8_def)
  next
    case 4
    then show ?thesis using d by (intro that [of "0xf0 + n div 262144" "[n div 4096, n div 64, n]"]) (simp_all add: utf8_def)
  qed
qed

lemma utf8_lead:
  assumes "0 < n" "n < 0x110000"
  shows "\<exists>(b :: nat) k. utf8 n = char_of b # map later_byte k \<and> b < 256 \<and> 0 < b"
proof -
  obtain b k where b: "utf8 n = char_of b # map later_byte k" "b < 256" "b < 128 \<longleftrightarrow> n < 128" "n < 128 \<longrightarrow> b = n"
    using utf8_shape [OF assms(2)] by metis
  then have "0 < b" using assms(1) by (cases "n < 128") auto
  then show ?thesis using b by blast
qed

lemma text_of_simps [simp]: "text_of [] = []" "text_of (n # ns) = utf8 n @ text_of ns" "text_of ns = [] \<longleftrightarrow> ns = []"
  by (auto simp: text_of_def neq_Nil_conv)

lemma code_points_simps [simp]: "code_points []" "code_points (n # ns) \<longleftrightarrow> 0 < n \<and> n < 0x110000 \<and> code_points ns"
  by (simp_all add: code_points_def)

lemma text_not_cont: "code_points ns \<Longrightarrow> \<not> is_cont (zhd (text_of ns))"
proof (cases ns)
  case (Cons n ms)
  assume "code_points ns"
  then have "n < 0x110000" using Cons by simp
  then show ?thesis using Cons by (elim utf8_shape) (simp add: not_cont_chr)
qed simp

lemma later_bytes: "takeWhile is_cont (map later_byte k @ z) = map later_byte k @ takeWhile is_cont z"
    "dropWhile is_cont (map later_byte k @ z) = dropWhile is_cont z"
  by (induction k) simp_all

lemma after_text: "\<not> is_cont (zhd z) \<Longrightarrow> takeWhile is_cont z = [] \<and> dropWhile is_cont z = z"
  by (cases z) simp_all

lemma next_utf8:
  assumes "n < 0x110000" "\<not> is_cont (zhd z)"
  shows "sqliteNextChar (utf8 n @ z) = z"
  using assms(1) by (elim utf8_shape) (simp add: sqliteNextChar_def later_bytes after_text [OF assms(2)])

lemma utf8_to_int:
  assumes "n < 0x110000" "\<not> is_cont (zhd z)"
  shows "sqlite_utf8_to_int (utf8 n @ z) = Some (int n)"
proof -
  have m: "k mod 64 < 64" for k :: nat by simp
  have st: "push_bit 6 c OR (0x3f AND of_nat (0x80 + k mod 64)) = (64 * c + of_nat (k mod 64) :: u32)" for c k
    by (rule utf8_step) simp
  have s: "sint (of_nat n :: u32) = int n" using assms(1) by (intro sint_small) simp
  have d: "n < 0x800 \<longrightarrow> n div 64 < 32" "n < 0x10000 \<longrightarrow> n div 4096 < 16" "n div 262144 < 5" using assms by linarith+
  have c: "64 * (of_nat (k div 64) :: u32) + of_nat (k mod 64) = of_nat k" for k
  proof -
    have "of_nat (64 * (k div 64) + k mod 64) = (of_nat k :: u32)" by (simp only: mult_div_mod_eq)
    then show ?thesis by (simp only: of_nat_add of_nat_mult of_nat_numeral)
  qed
  have dd: "n div 4096 = n div 64 div 64" "n div 262144 = n div 64 div 64 div 64" by (simp_all add: div_mult2_eq [symmetric])
  note w = after_text [OF assms(2)]
  note simps = sqlite_utf8_to_int_def utf8_def w st c
  consider "n < 0x80" | "\<not> n < 0x80" "n < 0x800" | "\<not> n < 0x800" "n < 0x10000" | "\<not> n < 0x10000" by linarith
  then show ?thesis
  proof cases
    case 1
    then show ?thesis using s initVal_lead(1) [OF 1] by (simp add: sqlite_utf8_to_int_def utf8_def w)
  next
    case 2
    then have u: "uchar (char_of (0xc0 + n div 64)) = 0xc0 + n div 64" using d by (intro uchar_chr) simp
    show ?thesis using 2 d s initVal_lead(2) [of "n div 64"] c [of n] u st by (simp add: sqlite_utf8_to_int_def utf8_def w)
  next
    case 3
    then have u: "uchar (char_of (0xe0 + n div 4096)) = 0xe0 + n div 4096" using d by (intro uchar_chr) simp
    show ?thesis using 3 d s initVal_lead(3) [of "n div 4096"] c [of n] c [of "n div 64"] u st by (simp add: sqlite_utf8_to_int_def utf8_def w dd)
  next
    case 4
    then have u: "uchar (char_of (0xf0 + n div 262144)) = 0xf0 + n div 262144" using d by (intro uchar_chr) simp
    show ?thesis using 4 d s initVal_lead(4) [of "n div 262144"] c [of n] c [of "n div 64"] c [of "n div 4096"] u st by (simp add: sqlite_utf8_to_int_def utf8_def w dd)
  qed
qed


lemma chr_inj: "b < 256 \<Longrightarrow> k < 256 \<Longrightarrow> (char_of (b :: nat) :: char) = char_of k \<longleftrightarrow> b = k"
  using uchar_chr [of b] uchar_chr [of k] by auto

lemma chr_NUL: "0 < k \<Longrightarrow> k < 256 \<Longrightarrow> char_of (k :: nat) \<noteq> NUL"
  by (metis less_numeral_extra(3) uchar_0 uchar_chr)

lemma chr_consts: "CHR '']'' = char_of (93 :: nat)" "CHR ''^'' = char_of (94 :: nat)" "CHR ''*'' = char_of (42 :: nat)"
    "CHR ''?'' = char_of (63 :: nat)" "CHR ''['' = char_of (91 :: nat)" "CHR ''-'' = char_of (45 :: nat)"
  by (simp_all add: char_of_def bit_simps)

lemma text_zhd:
  assumes "code_points r"
  shows "zhd (text_of r) = NUL \<longleftrightarrow> r = []"
proof (cases r)
  case (Cons n q)
  then have "0 < n" "n < 0x110000" using assms by simp_all
  then obtain b :: nat and k where "utf8 n = char_of b # map later_byte k" "b < 256" "0 < b" using utf8_lead [of n] by blast
  then show ?thesis using Cons chr_NUL [of b] by simp
qed simp

lemma ascii_text: "code_points p \<Longrightarrow> 0 < k \<Longrightarrow> k < 128 \<Longrightarrow> zhd (text_of p) = char_of k \<longleftrightarrow> (\<exists>q. p = k # q)"
proof (cases p)
  case (Cons n q)
  assume a: "code_points p" "0 < k" "k < 128"
  then have "n < 0x110000" using Cons by simp
  then obtain b j where b: "utf8 n = char_of b # map later_byte j" "b < 256" "b < 128 \<longleftrightarrow> n < 128" "n < 128 \<longrightarrow> b = n \<and> j = []"
    by (rule utf8_shape)
  have "(char_of b :: char) = char_of k \<longleftrightarrow> b = k" using chr_inj [of b k] b(2) a(3) by simp
  then show ?thesis using Cons b a by auto
next
  case Nil
  assume "0 < k" "k < 128"
  then show ?thesis using Nil chr_NUL [of k] by auto
qed

lemma ascii_tl: "n < 128 \<Longrightarrow> text_of (n # q) = char_of n # text_of q"
  by (simp add: utf8_def)

section \<open>Bracket expressions\<close>

fun class_has :: "nat \<Rightarrow> nat list \<Rightarrow> bool" where
  "class_has v [] = False"
| "class_has v [a] = (v = a)"
| "class_has v [a, b] = (v = a \<or> v = b)"
| "class_has v (a # b # c # r) =
     (if b = 45 then v = a \<or> a \<le> v \<and> v \<le> c \<or> class_has v r else v = a \<or> class_has v (b # c # r))"

definition in_bracket :: "nat \<Rightarrow> nat list \<Rightarrow> (bool \<times> nat list) option" where
  "in_bracket v p =
     (let inverted = (p \<noteq> [] \<and> hd p = 94);
          p = (if inverted then tl p else p);
          first = (p \<noteq> [] \<and> hd p = 93);
          p = (if first then tl p else p);
          body = takeWhile (\<lambda>n. n \<noteq> 93) p
      in if 93 \<notin> set p then None
         else Some ((first \<and> v = 93 \<or> class_has v body) \<noteq> inverted, drop (Suc (length body)) p))"

definition class_more :: "nat \<Rightarrow> nat \<Rightarrow> nat list \<Rightarrow> bool" where
  \<comment> \<open>the rest of a class behind a single character \<open>a\<close>, or behind a range if \<open>a\<close> is 0\<close>
  "class_more v a xs =
     (case xs of b # c # r \<Rightarrow> if b = 45 \<and> a \<noteq> 0 then a \<le> v \<and> v \<le> c \<or> class_has v r else class_has v xs
      | _ \<Rightarrow> class_has v xs)"

lemma class_more_0 [simp]: "class_more v 0 xs = class_has v xs"
  by (simp add: class_more_def split: list.split)

lemma class_more_range: "a \<noteq> 0 \<Longrightarrow> class_more v a (45 # m # xs) \<longleftrightarrow> a \<le> v \<and> v \<le> m \<or> class_has v xs"
  by (simp add: class_more_def)

lemma class_has_more: "a \<noteq> 0 \<Longrightarrow> class_has v (a # xs) \<longleftrightarrow> v = a \<or> class_more v a xs"
  by (auto simp: class_more_def split: list.split)

lemma class_more_other: "n \<noteq> 45 \<or> a = 0 \<or> xs = [] \<Longrightarrow> n \<noteq> 0 \<Longrightarrow> class_more v a (n # xs) \<longleftrightarrow> v = n \<or> class_more v n xs"
  using class_has_more [of n v xs] by (auto simp: class_more_def split: list.splits)

lemma class_text:
  assumes "code_points q"
  shows "glob_class (int v) (text_of q) seen (int a) =
    (if 93 \<notin> set q then None
     else Some (93, seen \<or> class_more v a (takeWhile (\<lambda>n. n \<noteq> 93) q), text_of (dropWhile (\<lambda>n. n \<noteq> 93) q)))"
  using assms
proof (induction q arbitrary: seen a rule: length_induct)
  case (1 q)
  show ?case
  proof (cases q)
    case Nil
    then show ?thesis by (simp add: glob_class.simps [of _ "[]"] sqlite_utf8_to_int_def)
  next
    case (Cons n r)
    have n: "0 < n" "n < 0x110000" "code_points r" using "1.prems" Cons by simp_all
    have d: "sqlite_utf8_to_int (text_of q) = Some (int n)" using utf8_to_int [OF n(2) text_not_cont [OF n(3)]] Cons by simp
    have nx: "sqliteNextChar (text_of q) = text_of r" using next_utf8 [OF n(2) text_not_cont [OF n(3)]] Cons by simp
    have codes: "chr_int (CHR '']'') = 93" "chr_int (CHR ''-'') = 45" by simp_all
    note br = chr_consts(1)
    note z = text_zhd [OF n(3)]
    show ?thesis
    proof (cases "n = 93")
      case True
      then show ?thesis using d unfolding glob_class.simps [of _ "text_of q"] by (simp add: codes class_more_def Cons)
    next
      case False
      show ?thesis
      proof (cases "n = 45 \<and> a \<noteq> 0 \<and> takeWhile (\<lambda>n. n \<noteq> 93) r \<noteq> []")
        case True
        then obtain m s where r: "r = m # s" "m \<noteq> 93" by (cases r) (auto split: if_splits)
        have m: "m < 0x110000" "code_points s" using n(3) r by simp_all
        have tq: "text_of q = CHR ''-'' # text_of r" using True Cons ascii_tl [of 45 r] chr_consts(6) by simp
        have h: "zhd (text_of r) \<noteq> CHR '']''" "zhd (text_of r) \<noteq> NUL" using z br ascii_text [OF n(3), of 93] r by auto
        have dm: "sqlite_utf8_to_int (text_of r) = Some (int m)" "sqliteNextChar (text_of r) = text_of s"
          using utf8_to_int [OF m(1) text_not_cont [OF m(2)]] next_utf8 [OF m(1) text_not_cont [OF m(2)]] r by simp_all
        have "glob_class (int v) (text_of q) seen (int a) = glob_class (int v) (text_of s) (seen \<or> (a \<le> v \<and> v \<le> m)) (int 0)"
          using d True h dm unfolding glob_class.simps [of _ "text_of q"] codes by (simp add: tq)
        also have "\<dots> = (if 93 \<notin> set s then None
            else Some (93, (seen \<or> (a \<le> v \<and> v \<le> m)) \<or> class_more v 0 (takeWhile (\<lambda>n. n \<noteq> 93) s), text_of (dropWhile (\<lambda>n. n \<noteq> 93) s)))"
          using "1.IH" [rule_format, of s "seen \<or> (a \<le> v \<and> v \<le> m)" 0] m(2) Cons r by simp
        finally show ?thesis using True Cons r class_more_range [of a v m] by simp
      next
        case no: False
        have c: "\<not> (n = 45 \<and> zhd (tl (text_of q)) \<noteq> CHR '']'' \<and> zhd (tl (text_of q)) \<noteq> NUL \<and> a \<noteq> 0)"
        proof
          assume x: "n = 45 \<and> zhd (tl (text_of q)) \<noteq> CHR '']'' \<and> zhd (tl (text_of q)) \<noteq> NUL \<and> a \<noteq> 0"
          then have "tl (text_of q) = text_of r" using Cons ascii_tl [of 45 r] by simp
          then have "r \<noteq> [] \<and> \<not> (\<exists>s. r = 93 # s)" using x z br ascii_text [OF n(3), of 93] by auto
          then show False using no x by (cases r) auto
        qed
        have "glob_class (int v) (text_of q) seen (int a) = glob_class (int v) (text_of r) (seen \<or> v = n) (int n)"
          using d nx c False n(1) unfolding glob_class.simps [of _ "text_of q"] codes by (simp split del: if_split) auto
        also have "\<dots> = (if 93 \<notin> set r then None
            else Some (93, (seen \<or> v = n) \<or> class_more v n (takeWhile (\<lambda>n. n \<noteq> 93) r), text_of (dropWhile (\<lambda>n. n \<noteq> 93) r)))"
          using "1.IH" n(3) Cons by simp
        finally show ?thesis using class_more_other [of n a "takeWhile (\<lambda>n. n \<noteq> 93) r" v] no n(1) Cons False by auto
      qed
    qed
  qed
qed

section \<open>The GLOB relation on text\<close>

inductive glob_spec :: "nat list \<Rightarrow> nat list \<Rightarrow> bool" where
  empty: "glob_spec [] []"
| asterisk: "glob_spec p (drop k s) \<Longrightarrow> glob_spec (42 # p) s"
| question: "glob_spec p s \<Longrightarrow> glob_spec (63 # p) (c # s)"
| bracket: "in_bracket v p = Some (True, rest) \<Longrightarrow> glob_spec rest s \<Longrightarrow> glob_spec (91 # p) (v # s)"
| literal: "c \<notin> {42, 63, 91} \<Longrightarrow> glob_spec p s \<Longrightarrow> glob_spec (c # p) (c # s)"

inductive_simps glob_spec_Nil: "glob_spec [] s"
inductive_simps glob_spec_asterisk: "glob_spec (42 # p) s"
inductive_simps glob_spec_question: "glob_spec (63 # p) s"
inductive_simps glob_spec_bracket: "glob_spec (91 # p) s"
inductive_simps glob_spec_Cons: "glob_spec (c # p) s"

lemma code_points_drop: "code_points ns \<Longrightarrow> code_points (drop k ns)"
  by (auto simp: code_points_def list_all_iff dest: in_set_dropD)

lemma suffix_text:
  assumes "code_points s"
  shows "char_suffix (text_of s) t \<longleftrightarrow> (\<exists>k. t = text_of (drop k s))"
proof
  show "char_suffix (text_of s) t \<Longrightarrow> \<exists>k. t = text_of (drop k s)"
    using assms
  proof (induction s arbitrary: t)
    case Nil
    then show ?case by (auto elim: char_suffix.cases)
  next
    case (Cons n s)
    have nx: "sqliteNextChar (text_of (n # s)) = text_of s" using Cons.prems(2) next_utf8 text_not_cont by simp
    from Cons.prems(1) show ?case
    proof cases
      case refl
      then show ?thesis by (intro exI [of _ 0]) simp
    next
      case step
      then obtain k where "t = text_of (drop k s)" using Cons.IH [of t] Cons.prems(2) unfolding nx by auto
      then show ?thesis by (intro exI [of _ "Suc k"]) simp
    qed
  qed
  have "char_suffix (text_of s) (text_of (drop k s))" for k
    using assms
  proof (induction k arbitrary: s)
    case 0
    then show ?case by (simp add: char_suffix.refl)
  next
    case (Suc k)
    show ?case
    proof (cases s)
      case Nil
      then show ?thesis by (simp add: char_suffix.refl)
    next
      case (Cons n r)
      have nx: "sqliteNextChar (text_of s) = text_of r" using Cons Suc.prems next_utf8 text_not_cont by simp
      have "char_suffix (text_of r) (text_of (drop k r))" using Suc.IH [of r] Suc.prems Cons by simp
      then have "char_suffix (sqliteNextChar (text_of s)) (text_of (drop k r))" unfolding nx .
      moreover have "text_of s \<noteq> []" using Cons by simp
      ultimately have "char_suffix (text_of s) (text_of (drop k r))" by (rule char_suffix.step [rotated])
      then show ?thesis by (simp only: Cons drop_Suc_Cons)
    qed
  qed
  then show "\<exists>k. t = text_of (drop k s) \<Longrightarrow> char_suffix (text_of s) t" by blast
qed

lemma bracket_text:
  assumes "code_points p"
  shows "glob_bracket (int v) (text_of p) = map_option (map_prod id text_of) (in_bracket v p)"
proof -
  note br = chr_consts(1,2)
  have cl: "glob_class (int v) (text_of q) seen 0 = (if 93 \<notin> set q then None
      else Some (93, seen \<or> class_has v (takeWhile (\<lambda>n. n \<noteq> 93) q), text_of (dropWhile (\<lambda>n. n \<noteq> 93) q)))" if "code_points q" for q seen
    using class_text [OF that, of v seen 0] by simp
  have tl: "text_of (tl q) = tl (text_of q)" "code_points (tl q)" if "code_points q" "zhd (text_of q) = char_of k" "0 < k" "k < 128" for q and k :: nat
    using that ascii_text [OF that(1,3,4)] ascii_tl [of k] by auto
  have hd: "zhd (text_of q) = char_of k \<longleftrightarrow> q \<noteq> [] \<and> hd q = k" if "code_points q" "0 < k" "k < 128" for q and k :: nat
    using ascii_text [OF that] by (cases q) auto
  have dr: "tl (text_of (dropWhile (\<lambda>n. n \<noteq> 93) q)) = text_of (drop (Suc (length (takeWhile (\<lambda>n. n \<noteq> 93) q))) q)" if m: "93 \<in> set q" for q
  proof -
    obtain us vs where q: "q = us @ 93 # vs" "93 \<notin> set us" using split_list_first [OF m] by blast
    have "takeWhile (\<lambda>n. n \<noteq> 93) (us @ 93 # vs) = us @ takeWhile (\<lambda>n. n \<noteq> 93) (93 # vs)" by (rule takeWhile_append2) (use q(2) in auto)
    moreover have "dropWhile (\<lambda>n. n \<noteq> 93) (us @ 93 # vs) = dropWhile (\<lambda>n. n \<noteq> 93) (93 # vs)" by (rule dropWhile_append2) (use q(2) in auto)
    ultimately have "takeWhile (\<lambda>n. n \<noteq> 93) q = us" "dropWhile (\<lambda>n. n \<noteq> 93) q = 93 # vs" using q(1) by simp_all
    then show ?thesis using q ascii_tl [of 93 vs] by simp
  qed
  define inv where "inv = (p \<noteq> [] \<and> hd p = 94)"
  define q where "q = (if inv then tl p else p)"
  have q: "code_points q" "(if zhd (text_of p) = CHR ''^'' then (True, tl (text_of p)) else (False, text_of p)) = (inv, text_of q)"
    using assms tl [OF assms, of 94] hd [OF assms, of 94] br(2) by (auto simp: inv_def q_def)
  define fst' where "fst' = (q \<noteq> [] \<and> hd q = 93)"
  define r where "r = (if fst' then tl q else q)"
  have r: "code_points r" "(if zhd (text_of q) = CHR '']'' then (int v = chr_int (CHR '']''), tl (text_of q)) else (False, text_of q)) = (fst' \<and> v = 93, text_of r)"
    using q(1) tl [OF q(1), of 93] hd [OF q(1), of 93] br(1) by (auto simp: fst'_def r_def)
  have "in_bracket v p = (if 93 \<notin> set r then None
      else Some ((fst' \<and> v = 93 \<or> class_has v (takeWhile (\<lambda>n. n \<noteq> 93) r)) \<noteq> inv, drop (Suc (length (takeWhile (\<lambda>n. n \<noteq> 93) r))) r))"
    by (simp add: in_bracket_def Let_def inv_def q_def fst'_def r_def)
  moreover have "glob_bracket (int v) (text_of p) = map_option (\<lambda>(c2, seen', p4). (c2 \<noteq> 0 \<and> seen' \<noteq> inv, tl p4)) (glob_class (int v) (text_of r) (fst' \<and> v = 93) 0)"
    unfolding glob_bracket_def q(2) Let_def prod.case r(2) ..
  ultimately show ?thesis unfolding cl [OF r(1)] using dr [of r] by simp
qed

lemma in_bracket_rest: "in_bracket v p = Some (ok, rest) \<Longrightarrow> code_points p \<Longrightarrow> code_points rest \<and> length rest \<le> length p"
proof -
  have t: "code_points (tl q)" if "code_points q" for q using that by (cases q) simp_all
  show "in_bracket v p = Some (ok, rest) \<Longrightarrow> code_points p \<Longrightarrow> code_points rest \<and> length rest \<le> length p"
    by (auto simp: in_bracket_def Let_def t code_points_drop split: if_splits)
qed

lemma literal_text:
  assumes "n < 0x110000" "n \<notin> {42, 63, 91}"
  shows "glob_match (utf8 n @ p) s \<longleftrightarrow> (\<exists>t. s = utf8 n @ t \<and> glob_match p t)"
proof -
  have bytes: "glob_match (b @ p) s \<longleftrightarrow> (\<exists>t. s = b @ t \<and> glob_match p t)" if "set b \<inter> {CHR ''*'', CHR ''?'', CHR ''[''} = {}" for b
    using that by (induction b arbitrary: s) (auto simp: glob_match_Cons)
  have sp: "uchar (CHR ''*'') = 42" "uchar (CHR ''?'') = 63" "uchar (CHR ''['') = 91" by simp_all
  obtain b k where b: "utf8 n = char_of b # map later_byte k" "b < 256" "b < 128 \<longleftrightarrow> n < 128" "n < 128 \<longrightarrow> b = n"
    using utf8_shape [OF assms(1)] by metis
  have "c \<notin> {CHR ''*'', CHR ''?'', CHR ''[''}" if c: "c \<in> set (utf8 n)" for c
  proof -
    consider "c = char_of b" | m where "c = later_byte m" using c b(1) by auto
    then have "uchar c \<notin> {42, 63, 91}"
    proof cases
      case 1
      then have "uchar c = b" using b(2) by simp
      then show ?thesis using b(3,4) assms(2) by auto
    qed simp
    then show ?thesis using sp by (metis insertE insertI1 insert_commute singletonD)
  qed
  then show ?thesis using bytes [of "utf8 n"] by blast
qed

definition lead_length :: "nat \<Rightarrow> nat" where
  "lead_length b = (if b < 128 then 1 else if b < 224 then 2 else if b < 240 then 3 else 4)"

lemma utf8_length:
  assumes "n < 0x110000"
  shows "length (utf8 n) = lead_length (uchar (hd (utf8 n)))"
proof -
  have d: "n < 0x800 \<longrightarrow> n div 64 < 32" "n < 0x10000 \<longrightarrow> n div 4096 < 16" "n div 262144 < 5" using assms by linarith+
  consider "n < 0x80" | "\<not> n < 0x80" "n < 0x800" | "\<not> n < 0x800" "n < 0x10000" | "\<not> n < 0x10000" by linarith
  then show ?thesis
  proof cases
    case 2
    then have "uchar (char_of (0xc0 + n div 64)) = 0xc0 + n div 64" using d by (intro uchar_chr) simp
    then show ?thesis using 2 d by (simp add: utf8_def lead_length_def)
  next
    case 3
    then have "uchar (char_of (0xe0 + n div 4096)) = 0xe0 + n div 4096" using d by (intro uchar_chr) simp
    then show ?thesis using 3 d by (simp add: utf8_def lead_length_def)
  next
    case 4
    then have "uchar (char_of (0xf0 + n div 262144)) = 0xf0 + n div 262144" using d by (intro uchar_chr) simp
    then show ?thesis using 4 d by (simp add: utf8_def lead_length_def)
  qed (simp add: utf8_def lead_length_def)
qed

lemma utf8_prefix:
  assumes "n < 0x110000" "m < 0x110000" "utf8 n @ x = utf8 m @ t"
  shows "n = m \<and> x = t"
proof -
  have "hd (utf8 n @ x) = hd (utf8 m @ t)" using assms(3) by simp
  then have "hd (utf8 n) = hd (utf8 m)" by (simp add: hd_append)
  then have "length (utf8 n) = length (utf8 m)" using utf8_length assms(1,2) by simp
  then have "utf8 n = utf8 m" "x = t" using assms(3) by simp_all
  then show ?thesis using utf8_to_int [OF assms(1), of "[]"] utf8_to_int [OF assms(2), of "[]"] by simp
qed

lemma match_text:
  assumes "code_points p" "code_points s"
  shows "glob_match (text_of p) (text_of s) \<longleftrightarrow> glob_spec p s"
  using assms
proof (induction p arbitrary: s rule: length_induct)
  case (1 p)
  show ?case
  proof (cases p)
    case Nil
    then show ?thesis by (simp add: glob_match_Nil glob_spec_Nil)
  next
    case (Cons n q)
    have n: "0 < n" "n < 0x110000" "code_points q" using "1.prems" Cons by simp_all
    have IH: "glob_match (text_of r) (text_of u) \<longleftrightarrow> glob_spec r u" if "length r \<le> length q" "code_points r" "code_points u" for r u
      using "1.IH" that Cons by simp
    note sp = chr_consts(3,4,5)
    consider "n = 42" | "n = 63" | "n = 91" | "n \<notin> {42, 63, 91}" by blast
    then show ?thesis
    proof cases
      case 1
      then have t: "text_of p = CHR ''*'' # text_of q" using Cons sp(1) ascii_tl [of 42 q] by simp
      have "glob_match (text_of p) (text_of s) \<longleftrightarrow> (\<exists>k. glob_match (text_of q) (text_of (drop k s)))"
        unfolding t glob_match_asterisk by (auto simp: suffix_text [OF "1.prems"(2)])
      also have "\<dots> \<longleftrightarrow> (\<exists>k. glob_spec q (drop k s))" using IH n(3) code_points_drop [OF "1.prems"(2)] by simp
      finally show ?thesis using 1 Cons glob_spec_asterisk by simp
    next
      case 2
      then have t: "text_of p = CHR ''?'' # text_of q" using Cons sp(2) ascii_tl [of 63 q] by simp
      show ?thesis
      proof (cases s)
        case Nil
        then show ?thesis using 2 Cons unfolding t by (simp add: glob_match_question glob_spec_question)
      next
        case s: (Cons c r)
        have "sqliteNextChar (text_of s) = text_of r" using s "1.prems"(2) next_utf8 text_not_cont by simp
        then show ?thesis using 2 Cons s IH [of q r] "1.prems"(2) n(3) unfolding t by (simp add: glob_match_question glob_spec_question)
      qed
    next
      case 3
      then have t: "text_of p = CHR ''['' # text_of q" using Cons sp(3) ascii_tl [of 91 q] by simp
      show ?thesis
      proof (cases s)
        case Nil
        then show ?thesis using 3 Cons unfolding t by (simp add: glob_match_bracket glob_spec_bracket sqlite_utf8_to_int_def)
      next
        case s: (Cons v r)
        have v: "sqliteNextChar (text_of s) = text_of r" "sqlite_utf8_to_int (text_of s) = Some (int v)" "0 < v" "code_points r"
          using s "1.prems"(2) next_utf8 utf8_to_int text_not_cont by simp_all
        have "glob_match (text_of p) (text_of s) \<longleftrightarrow> (\<exists>rest. glob_bracket (int v) (text_of q) = Some (True, rest) \<and> glob_match rest (text_of r))"
          unfolding t glob_match_bracket v(1,2) using v(3) by simp
        also have "\<dots> \<longleftrightarrow> (\<exists>rest. in_bracket v q = Some (True, rest) \<and> glob_match (text_of rest) (text_of r))"
          unfolding bracket_text [OF n(3)] by auto
        also have "\<dots> \<longleftrightarrow> (\<exists>rest. in_bracket v q = Some (True, rest) \<and> glob_spec rest r)"
          using IH in_bracket_rest [OF _ n(3)] v(4) by metis
        finally show ?thesis using 3 Cons s by (simp add: glob_spec_bracket)
      qed
    next
      case 4
      have t: "text_of p = utf8 n @ text_of q" using Cons by simp
      have "glob_match (text_of p) (text_of s) \<longleftrightarrow> (\<exists>u. text_of s = utf8 n @ u \<and> glob_match (text_of q) u)"
        unfolding t by (rule literal_text [OF n(2) 4])
      also have "\<dots> \<longleftrightarrow> (\<exists>r. s = n # r \<and> glob_match (text_of q) (text_of r))"
      proof (cases s)
        case s: (Cons m r)
        then have "text_of s = utf8 n @ u \<longleftrightarrow> n = m \<and> u = text_of r" for u
          using utf8_prefix [of m n "text_of r" u] n(2) "1.prems"(2) by auto
        then show ?thesis using s by auto
      qed simp
      also have "\<dots> \<longleftrightarrow> (\<exists>r. s = n # r \<and> glob_spec q r)" using IH n(3) "1.prems"(2) by auto
      finally show ?thesis using 4 Cons by (auto simp: glob_spec_Cons)
    qed
  qed
qed

lemma later_not_ascii: "uchar c < 128 \<Longrightarrow> c \<noteq> later_byte m"
  by auto

lemma text_cstring: "code_points p \<Longrightarrow> cstring (text_of p)"
proof (induction p)
  case (Cons n q)
  then have n: "0 < n" "n < 0x110000" "code_points q" by simp_all
  then obtain b :: nat and k where b: "utf8 n = char_of b # map later_byte k" "b < 256" "0 < b"
    using utf8_lead [of n] by blast
  have "NUL \<noteq> later_byte m" for m by (rule later_not_ascii) (simp add: NUL_def)
  then show ?case using Cons.IH n(3) chr_NUL [OF b(3,2)] by (auto simp: cstring_def b(1))
qed (simp add: cstring_def)

lemma text_wild_ok:
  assumes "\<And>c. w c \<Longrightarrow> uchar c < 128"
  shows "code_points p \<Longrightarrow> wild_ok w (text_of p)"
proof (induction p)
  case (Cons n q)
  then have n: "0 < n" "n < 0x110000" "code_points q" by simp_all
  obtain b k where b: "utf8 n = char_of b # map later_byte k" "b < 256" "b < 128 \<longleftrightarrow> n < 128" "n < 128 \<longrightarrow> b = n \<and> k = []"
    using utf8_shape [OF n(2)] by metis
  have ub: "uchar (char_of b) = b" using b(2) by simp
  have lb: "\<not> w (later_byte m)" for m using assms [of "later_byte m"] by auto
  have later: "wild_ok w (map later_byte k @ text_of q)" for k
  proof (induction k)
    case Nil
    then show ?case using Cons.IH n(3) by simp
  next
    case (Cons m k)
    then show ?case using lb by (cases "map later_byte k @ text_of q") simp_all
  qed
  show ?case
  proof (cases "n < 128")
    case True
    then have t: "text_of (n # q) = char_of n # text_of q" using b by simp
    show ?thesis using Cons.IH n(3) text_not_cont [OF n(3)] unfolding t by (cases "text_of q") simp_all
  next
    case False
    then have "\<not> w (char_of b)" using assms [of "char_of b"] ub b(3) by auto
    then show ?thesis using later [of k] unfolding text_of_simps b(1) by (cases "map later_byte k @ text_of q") simp_all
  qed
qed simp

lemma text_pattern_ok: "code_points p \<Longrightarrow> glob_pattern_ok (text_of p)"
  unfolding glob_pattern_ok_def by (intro conjI text_cstring text_wild_ok) auto

section \<open>Property\<close>

text \<open>C31: GLOB. If the comparison of a pattern and a string in UTF-8 returns, its result says whether the code points of the
  string match those of the pattern: asterisks match any sequence, question marks any code point, brackets
  the code points and ranges listed between them, or those not listed. It returns for every pattern without
  a bracket; \<open>None\<close> is a read behind the end of the string or of the pattern.\<close>

theorem glob_compare_spec:
  assumes "code_points p" "code_points s"
  shows "case sqliteGlobCompare (text_of p) (text_of s) of Some b \<Rightarrow> b = glob_spec p s | None \<Rightarrow> 91 \<in> set p"
proof (cases "sqliteGlobCompare (text_of p) (text_of s)")
  case None
  have "91 \<in> set p"
  proof (rule ccontr)
    assume no: "91 \<notin> set p"
    have "CHR ''['' \<notin> set (text_of p)"
    proof
      assume "CHR ''['' \<in> set (text_of p)"
      then obtain n where n: "n \<in> set p" "CHR ''['' \<in> set (utf8 n)" by (auto simp: text_of_def)
      then have "n < 0x110000" using assms(1) by (auto simp: code_points_def list_all_iff)
      then obtain b k where b: "utf8 n = char_of b # map later_byte k" "b < 256" "b < 128 \<longleftrightarrow> n < 128" "n < 128 \<longrightarrow> b = n"
        using utf8_shape by metis
      have "CHR ''['' \<notin> set (map later_byte k)"
      proof
        assume "CHR ''['' \<in> set (map later_byte k)"
        then obtain m where "CHR ''['' = later_byte m" by auto
        then have "is_cont (CHR ''['')" by (metis later_byte(2))
        then show False by simp
      qed
      then have "CHR ''['' = char_of b" using n(2) b(1) by simp
      then have "b = 91" using b(2) chr_inj [of 91 b] chr_consts(5) by simp
      then show False using b(3,4) n(1) no by simp
    qed
    then show False using glob_no_overread None by blast
  qed
  then show ?thesis using None by simp
next
  case (Some b)
  then show ?thesis using glob_compare_correct [OF text_pattern_ok [OF assms(1)]] match_text [OF assms] by auto
qed

theorem glob_compare_spec_witness: "glob_spec [42, 91, 97, 45, 99, 93] [120, 98] \<and> \<not> glob_spec [91, 94, 97, 45, 99, 93] [99]"
proof -
  have t: "text_of [42, 91, 97, 45, 99, 93] = ''*[a-c]''" "text_of [91, 94, 97, 45, 99, 93] = ''[^a-c]''" "text_of [99] = ''c''"
    "text_of [120, 98] = ''xb''"
    by (simp_all add: utf8_def char_of_def bit_simps)
  have c1: "sqliteGlobCompare ''*[a-c]'' ''xb'' = Some True"
    by code_simp
  have c2: "sqliteGlobCompare ''[^a-c]'' ''c'' = Some False" by code_simp
  show ?thesis
    using glob_compare_spec [of "[42, 91, 97, 45, 99, 93]" "[120, 98]"] glob_compare_spec [of "[91, 94, 97, 45, 99, 93]" "[99]"]
    unfolding t c1 c2 by simp
qed

end
