(* ===== verification/Prng.thy ===== *)
theory Prng
  imports Prelude "HOL-Library.Multiset"
begin

text \<open>
  The pseudo-random number generator of \<^verbatim>\<open>sqlite/random.c\<close>: its static state
  is the record \<open>prng\<close>, passed and returned by every operation. The seed that the operating
  system layer provides the first time a byte is asked for (\<^verbatim>\<open>sqliteOsRandomSeed\<close>,
  which reads the clock) is a parameter of 256 bytes. The lemmas show that the state array stays
  a permutation of the 256 byte values and that the step of the generator can be undone, so that
  no two states ever run into the same one. The byte count is a natural number: the loop
  \<^verbatim>\<open>while( N-- )\<close> of the code is meant for counts that are not negative.
\<close>

section \<open>The generator\<close>

record prng =
  isInit :: bool
  prng_i :: u8
  prng_j :: u8
  prng_s :: "u8 list"

definition swap_bytes :: "u8 list \<Rightarrow> nat \<Rightarrow> nat \<Rightarrow> u8 list" where
  "swap_bytes s a b = s[a := s ! b, b := s ! a]"

function seed_loop :: "u8 list \<Rightarrow> nat \<Rightarrow> u8 \<Rightarrow> u8 list \<Rightarrow> u8 \<times> u8 list" where
  \<comment> \<open>for(i=0; i<256; i++) with the swap of \<^verbatim>\<open>s[j]\<close> and \<^verbatim>\<open>s[i]\<close>\<close>
  "seed_loop k i j s =
     (if i < 256 then
        let j' = j + (s ! i + k ! i)
        in seed_loop k (i + 1) j' (swap_bytes s (unat j') i)
      else (j, s))"
  by pat_completeness auto
termination
  by (relation "measure (\<lambda>(k, i, j, s). 256 - i)") auto

declare seed_loop.simps [simp del]

definition prng_init :: "u8 list \<Rightarrow> prng \<Rightarrow> prng" where
  "prng_init k p =
     (let (j, s) = seed_loop k 0 0 (map of_nat [0..<256])
      in p\<lparr>prng_j := j, prng_i := 0, prng_s := s, isInit := True\<rparr>)"

definition prng_step :: "prng \<Rightarrow> prng \<times> u8" where
  \<comment> \<open>Generate and return single random byte\<close>
  "prng_step p =
     (let i = prng_i p + 1;
          t = prng_s p ! unat i;
          j = prng_j p + t;
          s = (prng_s p)[unat i := prng_s p ! unat j];
          s' = s[unat j := t];
          t' = t + s' ! unat i
      in (p\<lparr>prng_i := i, prng_j := j, prng_s := s'\<rparr>, s' ! unat t'))"

definition randomByte :: "u8 list \<Rightarrow> prng \<Rightarrow> prng \<times> u8" where
  "randomByte k p = prng_step (if isInit p then p else prng_init k p)"

fun sqliteRandomness :: "u8 list \<Rightarrow> nat \<Rightarrow> prng \<Rightarrow> prng \<times> u8 list" where
  "sqliteRandomness k 0 p = (p, [])"
| "sqliteRandomness k (Suc n) p =
     (let (p', b) = randomByte k p;
          (p'', bs) = sqliteRandomness k n p'
      in (p'', b # bs))"

section \<open>The state array is a permutation\<close>

definition all_bytes :: "u8 multiset" where
  "all_bytes = mset (map of_nat [0..<256])"

definition prng_ok :: "prng \<Rightarrow> bool" where
  "prng_ok p \<longleftrightarrow> (isInit p \<longrightarrow> mset (prng_s p) = all_bytes)"

lemma swap_bytes_mset: "a < length s \<Longrightarrow> b < length s \<Longrightarrow> mset (swap_bytes s a b) = mset s"
  unfolding swap_bytes_def by (rule mset_swap)

lemma all_bytes_length: "mset s = all_bytes \<Longrightarrow> length s = 256"
  by (metis all_bytes_def length_map length_upt size_mset diff_zero)

lemma unat_u8 [simp]: "unat (w :: u8) < 256"
  using unsigned_less [where 'a = nat, of w] by simp

lemma seed_loop_mset: "mset s = all_bytes \<Longrightarrow> mset (snd (seed_loop k i j s)) = all_bytes"
proof (induction k i j s rule: seed_loop.induct)
  case (1 k i j s)
  have "mset (swap_bytes s (unat (j + (s ! i + k ! i))) i) = all_bytes" if "i < 256"
    using "1.prems" that all_bytes_length [OF "1.prems"] by (subst swap_bytes_mset) auto
  then show ?case using "1.IH" "1.prems" by (subst seed_loop.simps) (simp add: Let_def)
qed

lemma prng_step_swap:
  "length (prng_s p) = 256 \<Longrightarrow> prng_s (fst (prng_step p)) =
     swap_bytes (prng_s p) (unat (prng_i p + 1)) (unat (prng_j p + prng_s p ! unat (prng_i p + 1)))"
  by (simp add: prng_step_def swap_bytes_def Let_def)

lemma prng_init_ok: "isInit (prng_init k p) \<and> mset (prng_s (prng_init k p)) = all_bytes"
  using seed_loop_mset [of "map of_nat [0..<256]" k 0 0]
  by (simp add: prng_init_def all_bytes_def case_prod_beta)

lemma prng_step_ok:
  "isInit p \<and> mset (prng_s p) = all_bytes \<Longrightarrow>
   isInit (fst (prng_step p)) \<and> mset (prng_s (fst (prng_step p))) = all_bytes"
  using all_bytes_length [of "prng_s p"]
  by (simp add: prng_step_swap swap_bytes_mset) (simp add: prng_step_def Let_def)

lemma randomByte_ok:
  "prng_ok p \<Longrightarrow> isInit (fst (randomByte k p)) \<and> mset (prng_s (fst (randomByte k p))) = all_bytes"
  unfolding randomByte_def prng_ok_def by (intro prng_step_ok) (simp add: prng_init_ok)

text \<open>
  C40: Whatever the seed, any number of calls keeps the state array a permutation of the 256
  byte values, and \<open>sqliteRandomness\<close> delivers as many bytes as it is asked for.
\<close>

theorem randomness_permutation:
  assumes "prng_ok p"
  shows "prng_ok (fst (sqliteRandomness k n p)) \<and> length (snd (sqliteRandomness k n p)) = n"
  using assms
proof (induction n arbitrary: p)
  case (Suc n)
  have "prng_ok (fst (randomByte k p))" using randomByte_ok [OF Suc.prems] by (simp add: prng_ok_def)
  from Suc.IH [OF this] show ?case by (simp add: case_prod_beta)
qed simp

theorem randomness_permutation_witness:
  "prng_ok (fst (sqliteRandomness (replicate 256 7) 1000 \<lparr>isInit = False, prng_i = 0, prng_j = 0, prng_s = []\<rparr>))"
  by (rule conjunct1 [OF randomness_permutation]) (simp add: prng_ok_def)

section \<open>The step can be undone\<close>

definition prng_back :: "prng \<Rightarrow> prng" where
  "prng_back p =
     (let s = swap_bytes (prng_s p) (unat (prng_i p)) (unat (prng_j p))
      in p\<lparr>prng_i := prng_i p - 1, prng_j := prng_j p - s ! unat (prng_i p), prng_s := s\<rparr>)"

lemma swap_bytes_swap: "a < length s \<Longrightarrow> b < length s \<Longrightarrow> swap_bytes (swap_bytes s a b) a b = s"
  unfolding swap_bytes_def by (rule nth_equalityI) (auto simp: nth_list_update)

lemma prng_back_step: "length (prng_s p) = 256 \<Longrightarrow> prng_back (fst (prng_step p)) = p"
  using prng_step_swap [of p] swap_bytes_swap [of "unat (prng_i p + 1)" "prng_s p" "unat (prng_j p + prng_s p ! unat (prng_i p + 1))"]
  by (simp add: prng_back_def prng_step_def Let_def)

lemma randomness_inj:
  assumes "mset (prng_s p) = all_bytes" "mset (prng_s q) = all_bytes" "isInit p" "isInit q"
    and "fst (sqliteRandomness k n p) = fst (sqliteRandomness k n q)"
  shows "p = q"
  using assms
proof (induction n arbitrary: p q)
  case (Suc n)
  have r: "randomByte k p = prng_step p" "randomByte k q = prng_step q"
    using Suc.prems by (simp_all add: randomByte_def)
  have "fst (prng_step p) = fst (prng_step q)"
    using Suc.prems prng_step_ok [of p] prng_step_ok [of q] Suc.IH [of "fst (prng_step p)" "fst (prng_step q)"]
    by (simp add: r case_prod_beta)
  then show ?case
    using prng_back_step [of p] prng_back_step [of q] Suc.prems all_bytes_length by metis
qed simp

text \<open>
  Two generators that differ never reach the same state after the same number of bytes:
  the generator loses no entropy of its seed while it runs.
\<close>

theorem randomness_injective:
  assumes "prng_ok p" "prng_ok q" "isInit p" "isInit q" "p \<noteq> q"
  shows "fst (sqliteRandomness k n p) \<noteq> fst (sqliteRandomness k n q)"
  using assms randomness_inj [of p q k n] by (auto simp: prng_ok_def)

theorem randomness_injective_witness:
  "fst (sqliteRandomness [] 50 \<lparr>isInit = True, prng_i = 0, prng_j = 0, prng_s = map of_nat [0..<256]\<rparr>) \<noteq>
   fst (sqliteRandomness [] 50 \<lparr>isInit = True, prng_i = 0, prng_j = 1, prng_s = map of_nat [0..<256]\<rparr>)"
  by (rule randomness_injective) (simp_all add: prng_ok_def all_bytes_def)

end
