(* ===== verification/RbTree.thy ===== *)
theory RbTree
  imports Prelude "HOL-Library.Monad_Syntax" "HOL-Library.List_Lexorder"
begin

text \<open>
  The red-black trees of \<^verbatim>\<open>sqlite/btree_rb.c\<close>, as the code has them: nodes in a heap,
  linked by parent and child pointers that the rotations and the two balancing routines update in
  place. A pointer is a natural number, the null pointer is 0, and the heap maps pointers to nodes.
  \<open>None\<close> is the result of a routine that follows a pointer to no node, fails an assertion, or
  does not return. Keys and data are byte strings, so that \<^verbatim>\<open>nKey\<close> and
  \<^verbatim>\<open>nData\<close> are their lengths.
\<close>

section \<open>Nodes and the heap\<close>

type_synonym ptr = nat
type_synonym bytes = "char list"

record rb_node =
  pKey :: bytes
  pData :: bytes
  isBlack :: bool
  pParent :: ptr
  pLeft :: ptr
  pRight :: ptr
  nBlackHeight :: int

type_synonym rb_heap = "ptr \<Rightarrow> rb_node option"

definition deref :: "rb_heap \<Rightarrow> ptr \<Rightarrow> rb_node option" where
  "deref h p = (if p = 0 then None else h p)"

definition upd :: "rb_heap \<Rightarrow> ptr \<Rightarrow> (rb_node \<Rightarrow> rb_node) \<Rightarrow> rb_heap option" where
  "upd h p f = do { n \<leftarrow> deref h p; Some (h(p \<mapsto> f n)) }"

definition assertion :: "bool \<Rightarrow> unit option" where
  "assertion b = (if b then Some () else None)"

abbreviation set_left :: "ptr \<Rightarrow> rb_node \<Rightarrow> rb_node" where
  "set_left p n \<equiv> n\<lparr>pLeft := p\<rparr>"

abbreviation set_right :: "ptr \<Rightarrow> rb_node \<Rightarrow> rb_node" where
  "set_right p n \<equiv> n\<lparr>pRight := p\<rparr>"

abbreviation set_parent :: "ptr \<Rightarrow> rb_node \<Rightarrow> rb_node" where
  "set_parent p n \<equiv> n\<lparr>pParent := p\<rparr>"

abbreviation set_black :: "bool \<Rightarrow> rb_node \<Rightarrow> rb_node" where
  "set_black b n \<equiv> n\<lparr>isBlack := b\<rparr>"

definition key_compare :: "bytes \<Rightarrow> bytes \<Rightarrow> int" where
  "key_compare pKey1 pKey2 =
     (let mcmp = memcmp pKey1 pKey2 (if length pKey1 \<le> length pKey2 then length pKey1 else length pKey2)
      in if mcmp = 0 then
           if length pKey1 = length pKey2 then 0
           else if length pKey1 < length pKey2 then -1 else 1
         else if mcmp > 0 then 1 else -1)"

section \<open>Rotations\<close>

text \<open>The routines take and return the heap and the \<^verbatim>\<open>pHead\<close> of the tree.\<close>

definition leftRotate :: "rb_heap \<Rightarrow> ptr \<Rightarrow> ptr \<Rightarrow> (rb_heap \<times> ptr) option" where
  "leftRotate h pHead pX = do {
     x \<leftarrow> deref h pX;
     let pY = pRight x;
     y \<leftarrow> deref h pY;
     let pb = pLeft y;
     h \<leftarrow> upd h pY (set_parent (pParent x));
     h \<leftarrow> (if pParent x \<noteq> 0 then do {
              q \<leftarrow> deref h (pParent x);
              if pLeft q = pX then upd h (pParent x) (set_left pY)
              else upd h (pParent x) (set_right pY) }
            else Some h);
     h \<leftarrow> upd h pY (set_left pX);
     h \<leftarrow> upd h pX (set_parent pY);
     h \<leftarrow> upd h pX (set_right pb);
     h \<leftarrow> (if pb \<noteq> 0 then upd h pb (set_parent pX) else Some h);
     Some (h, if pHead = pX then pY else pHead) }"

definition rightRotate :: "rb_heap \<Rightarrow> ptr \<Rightarrow> ptr \<Rightarrow> (rb_heap \<times> ptr) option" where
  "rightRotate h pHead pX = do {
     x \<leftarrow> deref h pX;
     let pY = pLeft x;
     y \<leftarrow> deref h pY;
     let pb = pRight y;
     h \<leftarrow> upd h pY (set_parent (pParent x));
     h \<leftarrow> (if pParent x \<noteq> 0 then do {
              q \<leftarrow> deref h (pParent x);
              if pLeft q = pX then upd h (pParent x) (set_left pY)
              else upd h (pParent x) (set_right pY) }
            else Some h);
     h \<leftarrow> upd h pY (set_right pX);
     h \<leftarrow> upd h pX (set_parent pY);
     h \<leftarrow> upd h pX (set_left pb);
     h \<leftarrow> (if pb \<noteq> 0 then upd h pb (set_parent pX) else Some h);
     Some (h, if pHead = pX then pY else pHead) }"

section \<open>Balancing\<close>

partial_function (option) insert_balance_loop :: "rb_heap \<Rightarrow> ptr \<Rightarrow> ptr \<Rightarrow> (rb_heap \<times> ptr) option" where
  \<comment> \<open>while( pX != pTree->pHead \&\& !pX->pParent->isBlack )\<close>
  "insert_balance_loop h pHead pX =
     (if pX = pHead then Some (h, pHead)
      else do {
        x \<leftarrow> deref h pX;
        p \<leftarrow> deref h (pParent x);
        if isBlack p then Some (h, pHead)
        else do {
          let pGrandparent = pParent p;
          g \<leftarrow> deref h pGrandparent;
          assertion (isBlack g);
          let pUncle = (if pParent x = pLeft g then pRight g else pLeft g);
          uncle_red \<leftarrow> (if pUncle \<noteq> 0 then do { u \<leftarrow> deref h pUncle; Some (\<not> isBlack u) } else Some False);
          if uncle_red then do {
            h \<leftarrow> upd h pGrandparent (set_black False);
            h \<leftarrow> upd h pUncle (set_black True);
            h \<leftarrow> upd h (pParent x) (set_black True);
            insert_balance_loop h pHead pGrandparent }
          else if pParent x = pLeft g then do {
            (h, pHead, pX) \<leftarrow>
              (if pX = pRight p then do {
                 (h, pHead) \<leftarrow> leftRotate h pHead (pParent x);
                 Some (h, pHead, pParent x) }
               else Some (h, pHead, pX));
            x \<leftarrow> deref h pX;
            p \<leftarrow> deref h (pParent x);
            assertion (pGrandparent = pParent p);
            h \<leftarrow> upd h pGrandparent (set_black False);
            h \<leftarrow> upd h (pParent x) (set_black True);
            (h, pHead) \<leftarrow> rightRotate h pHead pGrandparent;
            insert_balance_loop h pHead pX }
          else do {
            (h, pHead, pX) \<leftarrow>
              (if pX = pLeft p then do {
                 (h, pHead) \<leftarrow> rightRotate h pHead (pParent x);
                 Some (h, pHead, pParent x) }
               else Some (h, pHead, pX));
            x \<leftarrow> deref h pX;
            p \<leftarrow> deref h (pParent x);
            assertion (pGrandparent = pParent p);
            h \<leftarrow> upd h pGrandparent (set_black False);
            h \<leftarrow> upd h (pParent x) (set_black True);
            (h, pHead) \<leftarrow> leftRotate h pHead pGrandparent;
            insert_balance_loop h pHead pX } } })"

definition do_insert_balancing :: "rb_heap \<Rightarrow> ptr \<Rightarrow> ptr \<Rightarrow> (rb_heap \<times> ptr) option" where
  "do_insert_balancing h pHead pX = do {
     (h, pHead) \<leftarrow> insert_balance_loop h pHead pX;
     h \<leftarrow> upd h pHead (set_black True);
     Some (h, pHead) }"

text \<open>The test \<^verbatim>\<open>!p || p->isBlack\<close>.\<close>

definition null_or_black :: "rb_heap \<Rightarrow> ptr \<Rightarrow> bool option" where
  "null_or_black h p = (if p = 0 then Some True else do { n \<leftarrow> deref h p; Some (isBlack n) })"

text \<open>The assignment \<^verbatim>\<open>if( p ) p->isBlack = 1\<close>.\<close>

definition blacken :: "rb_heap \<Rightarrow> ptr \<Rightarrow> rb_heap option" where
  "blacken h p = (if p \<noteq> 0 then upd h p (set_black True) else Some h)"

text \<open>
  The two halves of the loop body: \<open>pX\<close> is the left or the right child of \<open>pPar\<close>.
  The result is the tree and the new \<open>pX\<close>.
\<close>

definition delete_balance_left :: "rb_heap \<Rightarrow> ptr \<Rightarrow> ptr \<Rightarrow> (rb_heap \<times> ptr \<times> ptr) option" where
  "delete_balance_left h pHead pPar = do {
    p \<leftarrow> deref h pPar;
    let pSib = pRight p;
    sib_black \<leftarrow> null_or_black h pSib;
    (h, pHead, pSib) \<leftarrow>
      (if pSib \<noteq> 0 \<and> \<not> sib_black then do {
         h \<leftarrow> upd h pSib (set_black True);
         h \<leftarrow> upd h pPar (set_black False);
         (h, pHead) \<leftarrow> leftRotate h pHead pPar;
         p \<leftarrow> deref h pPar;
         Some (h, pHead, pRight p) }
       else Some (h, pHead, pSib));
    if pSib = 0 then Some (h, pHead, pPar)
    else do {
      sib \<leftarrow> deref h pSib;
      lb \<leftarrow> null_or_black h (pLeft sib);
      rb \<leftarrow> null_or_black h (pRight sib);
      if lb \<and> rb then do {
        h \<leftarrow> upd h pSib (set_black False);
        Some (h, pHead, pPar) }
      else do {
        (h, pHead, pSib) \<leftarrow>
          (if rb then do {
             h \<leftarrow> blacken h (pLeft sib);
             h \<leftarrow> upd h pSib (set_black False);
             (h, pHead) \<leftarrow> rightRotate h pHead pSib;
             p \<leftarrow> deref h pPar;
             Some (h, pHead, pRight p) }
           else Some (h, pHead, pSib));
        p \<leftarrow> deref h pPar;
        h \<leftarrow> upd h pSib (set_black (isBlack p));
        h \<leftarrow> upd h pPar (set_black True);
        sib \<leftarrow> deref h pSib;
        h \<leftarrow> blacken h (pRight sib);
        (h, pHead) \<leftarrow> leftRotate h pHead pPar;
        Some (h, pHead, pHead) } } }"

definition delete_balance_right :: "rb_heap \<Rightarrow> ptr \<Rightarrow> ptr \<Rightarrow> (rb_heap \<times> ptr \<times> ptr) option" where
  "delete_balance_right h pHead pPar = do {
    p \<leftarrow> deref h pPar;
    let pSib = pLeft p;
    sib_black \<leftarrow> null_or_black h pSib;
    (h, pHead, pSib) \<leftarrow>
      (if pSib \<noteq> 0 \<and> \<not> sib_black then do {
         h \<leftarrow> upd h pSib (set_black True);
         h \<leftarrow> upd h pPar (set_black False);
         (h, pHead) \<leftarrow> rightRotate h pHead pPar;
         p \<leftarrow> deref h pPar;
         Some (h, pHead, pLeft p) }
       else Some (h, pHead, pSib));
    if pSib = 0 then Some (h, pHead, pPar)
    else do {
      sib \<leftarrow> deref h pSib;
      lb \<leftarrow> null_or_black h (pLeft sib);
      rb \<leftarrow> null_or_black h (pRight sib);
      if lb \<and> rb then do {
        h \<leftarrow> upd h pSib (set_black False);
        Some (h, pHead, pPar) }
      else do {
        (h, pHead, pSib) \<leftarrow>
          (if lb then do {
             h \<leftarrow> blacken h (pRight sib);
             h \<leftarrow> upd h pSib (set_black False);
             (h, pHead) \<leftarrow> leftRotate h pHead pSib;
             p \<leftarrow> deref h pPar;
             Some (h, pHead, pLeft p) }
           else Some (h, pHead, pSib));
        p \<leftarrow> deref h pPar;
        h \<leftarrow> upd h pSib (set_black (isBlack p));
        h \<leftarrow> upd h pPar (set_black True);
        sib \<leftarrow> deref h pSib;
        h \<leftarrow> blacken h (pLeft sib);
        (h, pHead) \<leftarrow> rightRotate h pHead pPar;
        Some (h, pHead, pHead) } } }"

partial_function (option) delete_balance_loop :: "rb_heap \<Rightarrow> ptr \<Rightarrow> ptr \<Rightarrow> ptr \<Rightarrow> (rb_heap \<times> ptr \<times> ptr) option" where
  \<comment> \<open>while( pX != pTree->pHead \&\& (!pX || pX->isBlack) )\<close>
  "delete_balance_loop h pHead pX pPar = do {
     continue \<leftarrow> (if pX = pHead then Some False else null_or_black h pX);
     if \<not> continue then Some (h, pHead, pX)
     else do {
       p \<leftarrow> deref h pPar;
       (h, pHead, pX) \<leftarrow> (if pX = pLeft p then delete_balance_left h pHead pPar else delete_balance_right h pHead pPar);
       x \<leftarrow> deref h pX;
       delete_balance_loop h pHead pX (pParent x) } }"

definition do_delete_balancing :: "rb_heap \<Rightarrow> ptr \<Rightarrow> ptr \<Rightarrow> ptr \<Rightarrow> (rb_heap \<times> ptr) option" where
  "do_delete_balancing h pHead pX pPar = do {
     (h, pHead, pX) \<leftarrow> delete_balance_loop h pHead pX pPar;
     h \<leftarrow> blacken h pX;
     Some (h, pHead) }"

section \<open>Trees in the heap\<close>

text \<open>
  The tree that a heap holds: the shape with the address, the colour and the entry of every
  node. A context is a path from a node up to the root; \<open>plug\<close> puts a tree into it.
\<close>

datatype rbtree = Lf | Br rbtree ptr bool bytes bytes rbtree

datatype rbframe = FL ptr bool bytes bytes rbtree | FR rbtree ptr bool bytes bytes

fun root :: "rbtree \<Rightarrow> ptr" where
  "root Lf = 0"
| "root (Br l a b k d r) = a"

fun addrs :: "rbtree \<Rightarrow> ptr list" where
  "addrs Lf = []"
| "addrs (Br l a b k d r) = addrs l @ a # addrs r"

fun fill :: "rbframe \<Rightarrow> rbtree \<Rightarrow> rbtree" where
  "fill (FL a b k d r) t = Br t a b k d r"
| "fill (FR l a b k d) t = Br l a b k d t"

fun plug :: "rbframe list \<Rightarrow> rbtree \<Rightarrow> rbtree" where
  "plug [] t = t"
| "plug (f # c) t = plug c (fill f t)"

fun fr_addr :: "rbframe \<Rightarrow> ptr" where
  "fr_addr (FL a b k d r) = a"
| "fr_addr (FR l a b k d) = a"

fun cpar :: "rbframe list \<Rightarrow> ptr" where
  "cpar [] = 0"
| "cpar (f # c) = fr_addr f"

fun croot :: "rbframe list \<Rightarrow> ptr \<Rightarrow> ptr" where
  "croot [] p = p"
| "croot (f # c) p = croot c (fr_addr f)"

fun caddrs :: "rbframe list \<Rightarrow> ptr list" where
  "caddrs [] = []"
| "caddrs (FL a b k d r # c) = a # addrs r @ caddrs c"
| "caddrs (FR l a b k d # c) = a # addrs l @ caddrs c"

definition node_at :: "rb_heap \<Rightarrow> ptr \<Rightarrow> bool \<Rightarrow> bytes \<Rightarrow> bytes \<Rightarrow> ptr \<Rightarrow> ptr \<Rightarrow> ptr \<Rightarrow> bool" where
  "node_at h a b k d par lc rc \<longleftrightarrow> a \<noteq> 0 \<and>
     (\<exists>n. h a = Some n \<and> isBlack n = b \<and> pKey n = k \<and> pData n = d \<and> pParent n = par \<and> pLeft n = lc \<and> pRight n = rc)"

fun rep :: "rb_heap \<Rightarrow> ptr \<Rightarrow> rbtree \<Rightarrow> bool" where
  "rep h q Lf \<longleftrightarrow> True"
| "rep h q (Br l a b k d r) \<longleftrightarrow> node_at h a b k d q (root l) (root r) \<and> rep h a l \<and> rep h a r"

fun repc :: "rb_heap \<Rightarrow> rbframe list \<Rightarrow> ptr \<Rightarrow> bool" where
  "repc h [] p \<longleftrightarrow> True"
| "repc h (FL a b k d r # c) p \<longleftrightarrow> node_at h a b k d (cpar c) p (root r) \<and> rep h a r \<and> repc h c a"
| "repc h (FR l a b k d # c) p \<longleftrightarrow> node_at h a b k d (cpar c) (root l) p \<and> rep h a l \<and> repc h c a"

definition holds :: "rb_heap \<Rightarrow> rbtree \<Rightarrow> bool" where
  "holds h t \<longleftrightarrow> rep h 0 t \<and> distinct (addrs t)"

lemma root_fill [simp]: "root (fill f t) = fr_addr f"
  by (cases f) auto

lemma root_plug: "root (plug c t) = croot c (root t)"
  by (induction c arbitrary: t) auto

lemma croot_in: "c \<noteq> [] \<Longrightarrow> croot c p \<in> set (caddrs c)"
proof (induction c arbitrary: p)
  case (Cons f c)
  then show ?case by (cases "c = []"; cases f) auto
qed simp

lemma rep_plug: "rep h 0 (plug c t) \<longleftrightarrow> rep h (cpar c) t \<and> repc h c (root t)"
proof (induction c arbitrary: t)
  case (Cons f c)
  then show ?case by (cases f) auto
qed simp

lemma set_addrs_plug: "set (addrs (plug c t)) = set (addrs t) \<union> set (caddrs c)"
proof (induction c arbitrary: t)
  case (Cons f c)
  then show ?case by (cases f) auto
qed simp

lemma distinct_plug:
  "distinct (addrs (plug c t)) \<longleftrightarrow>
     distinct (addrs t) \<and> distinct (caddrs c) \<and> set (addrs t) \<inter> set (caddrs c) = {}"
proof (induction c arbitrary: t)
  case (Cons f c)
  then show ?case by (cases f) auto
qed simp

lemma node_at_upd [simp]: "p \<noteq> a \<Longrightarrow> node_at (h(p := v)) a b k d q l r = node_at h a b k d q l r"
  by (simp add: node_at_def)

lemma node_at_same: "node_at (h(a \<mapsto> n)) a b k d q l r \<longleftrightarrow> a \<noteq> 0 \<and>
    isBlack n = b \<and> pKey n = k \<and> pData n = d \<and> pParent n = q \<and> pLeft n = l \<and> pRight n = r"
  by (auto simp: node_at_def)

lemma rep_upd [simp]: "p \<notin> set (addrs t) \<Longrightarrow> rep (h(p := v)) q t = rep h q t"
  by (induction t arbitrary: q) auto

lemma repc_upd [simp]: "p \<notin> set (caddrs c) \<Longrightarrow> repc (h(p := v)) c q = repc h c q"
proof (induction c arbitrary: q)
  case (Cons f c)
  show ?case using Cons.prems by (cases f) (simp_all del: fun_upd_apply add: Cons.IH)
qed simp

lemma rep_cong: "(\<And>p. p \<in> set (addrs t) \<Longrightarrow> h' p = h p) \<Longrightarrow> rep h' q t = rep h q t"
  by (induction t arbitrary: q) (auto simp: node_at_def)

text \<open>A step of a routine on one tree, which leaves the rest of the heap alone.\<close>

definition becomes :: "rb_heap \<Rightarrow> rbtree \<Rightarrow> rb_heap \<Rightarrow> rbtree \<Rightarrow> bool" where
  "becomes h t h' t' \<longleftrightarrow> holds h' t' \<and> set (addrs t') = set (addrs t) \<and> (\<forall>p. p \<notin> set (addrs t) \<longrightarrow> h' p = h p)"

lemma becomes_refl: "holds h t \<Longrightarrow> becomes h t h t"
  by (simp add: becomes_def)

lemma becomes_trans: "becomes h t h' t' \<Longrightarrow> becomes h' t' h'' t'' \<Longrightarrow> becomes h t h'' t''"
  by (simp add: becomes_def)

lemma becomes_holds: "becomes h t h' t' \<Longrightarrow> holds h' t'"
  by (simp add: becomes_def)

lemma holds_node:
  assumes "holds h (plug c (Br l a b k d r))"
  shows "\<exists>n. deref h a = Some n \<and> isBlack n = b \<and> pKey n = k \<and> pData n = d \<and>
    pParent n = cpar c \<and> pLeft n = root l \<and> pRight n = root r"
  using assms by (auto simp: holds_def rep_plug node_at_def deref_def)

lemma holds_root_0: "holds h (plug c t) \<Longrightarrow> root t = 0 \<longleftrightarrow> t = Lf"
  by (cases t) (auto simp: holds_def rep_plug node_at_def)

lemma root_notin: "x \<notin> set (addrs t) \<Longrightarrow> x \<noteq> 0 \<Longrightarrow> root t \<noteq> x"
  by (cases t) auto

lemmas heap_simps = fun_upd_same fun_upd_other becomes_def holds_def upd_def deref_def node_at_same
  rep_plug distinct_plug set_addrs_plug root_plug Let_def root_notin

declare fun_upd_apply [simp del]

lemma set_black_plug:
  assumes "holds h (plug c (Br l a b k d r))"
  shows "\<exists>h'. upd h a (set_black b') = Some h' \<and> becomes h (plug c (Br l a b k d r)) h' (plug c (Br l a b' k d r))"
  using assms by (clarsimp simp: heap_simps node_at_def [of h])

lemma croot_self: "holds h (plug c t) \<Longrightarrow> t \<noteq> Lf \<Longrightarrow> croot c (root t) = root t \<longleftrightarrow> c = []"
  using croot_in [of c "root t"] by (cases t) (auto simp: holds_def distinct_plug)

lemma leftRotate_plug:
  assumes "holds h (plug c (Br A x bx kx dx (Br B y by ky dy C)))"
  shows "\<exists>h'. leftRotate h (root (plug c (Br A x bx kx dx (Br B y by ky dy C)))) x =
      Some (h', root (plug c (Br (Br A x bx kx dx B) y by ky dy C))) \<and>
    becomes h (plug c (Br A x bx kx dx (Br B y by ky dy C))) h' (plug c (Br (Br A x bx kx dx B) y by ky dy C))"
proof (cases c)
  case Nil
  then show ?thesis using assms
    by (cases B) (clarsimp simp: heap_simps node_at_def [of h] leftRotate_def)+
next
  case (Cons f c')
  then show ?thesis using assms croot_self [OF assms]
    by (cases f; cases B) (clarsimp simp: heap_simps node_at_def [of h] leftRotate_def)+
qed

lemma rightRotate_plug:
  assumes "holds h (plug c (Br (Br A x bx kx dx B) y by ky dy C))"
  shows "\<exists>h'. rightRotate h (root (plug c (Br (Br A x bx kx dx B) y by ky dy C))) y =
      Some (h', root (plug c (Br A x bx kx dx (Br B y by ky dy C)))) \<and>
    becomes h (plug c (Br (Br A x bx kx dx B) y by ky dy C)) h' (plug c (Br A x bx kx dx (Br B y by ky dy C)))"
proof (cases c)
  case Nil
  then show ?thesis using assms
    by (cases B) (clarsimp simp: heap_simps node_at_def [of h] rightRotate_def)+
next
  case (Cons f c')
  then show ?thesis using assms croot_self [OF assms]
    by (cases f; cases B) (clarsimp simp: heap_simps node_at_def [of h] rightRotate_def)+
qed

end
