(* ===== verification/RbBalance.thy ===== *)
theory RbBalance
  imports RbTree
begin

text \<open>
  The red-black invariant, and the proof that \<open>do_insert_balancing\<close> restores it: a tree in the
  heap that is a red-black tree but for a red node under a red parent becomes, without a bad
  pointer and without a failed assertion, a red-black tree with the same nodes in the same order.
\<close>

section \<open>The red-black invariant\<close>

fun black :: "rbtree \<Rightarrow> bool" where
  "black Lf = True"
| "black (Br l a b k d r) = b"

fun bh :: "rbtree \<Rightarrow> nat" where
  "bh Lf = 0"
| "bh (Br l a b k d r) = bh l + (if b then 1 else 0)"

text \<open>No red node has a red child, and the black heights of siblings agree.\<close>

fun rbinv :: "rbtree \<Rightarrow> bool" where
  "rbinv Lf \<longleftrightarrow> True"
| "rbinv (Br l a b k d r) \<longleftrightarrow> rbinv l \<and> rbinv r \<and> bh l = bh r \<and> (\<not> b \<longrightarrow> black l \<and> black r)"

text \<open>The entries in order, with the addresses of their nodes.\<close>

fun nodes :: "rbtree \<Rightarrow> (ptr \<times> bytes \<times> bytes) list" where
  "nodes Lf = []"
| "nodes (Br l a b k d r) = nodes l @ (a, k, d) # nodes r"

fun paint :: "bool \<Rightarrow> rbtree \<Rightarrow> rbtree" where
  "paint b Lf = Lf"
| "paint b (Br l a _ k d r) = Br l a b k d r"

fun fblack :: "rbframe \<Rightarrow> bool" where
  "fblack (FL a b k d r) = b"
| "fblack (FR l a b k d) = b"

fun fpaint :: "bool \<Rightarrow> rbframe \<Rightarrow> rbframe" where
  "fpaint b (FL a _ k d r) = FL a b k d r"
| "fpaint b (FR l a _ k d) = FR l a b k d"

fun fsib :: "rbframe \<Rightarrow> rbtree" where
  "fsib (FL a b k d r) = r"
| "fsib (FR l a b k d) = l"

fun fset_sib :: "rbtree \<Rightarrow> rbframe \<Rightarrow> rbframe" where
  "fset_sib s (FL a b k d r) = FL a b k d s"
| "fset_sib s (FR l a b k d) = FR s a b k d"

text \<open>What a context asks of the tree in its hole, of black height \<open>n\<close>.\<close>

fun crb :: "rbframe list \<Rightarrow> nat \<Rightarrow> bool \<Rightarrow> bool" where
  "crb [] n col \<longleftrightarrow> col"
| "crb (f # c) n col \<longleftrightarrow> rbinv (fsib f) \<and> bh (fsib f) = n \<and> (\<not> fblack f \<longrightarrow> col \<and> black (fsib f)) \<and>
     crb c (n + (if fblack f then 1 else 0)) (fblack f)"

fun cleft :: "rbframe list \<Rightarrow> (ptr \<times> bytes \<times> bytes) list" where
  "cleft [] = []"
| "cleft (FL a b k d r # c) = cleft c"
| "cleft (FR l a b k d # c) = cleft c @ nodes l @ [(a, k, d)]"

fun cright :: "rbframe list \<Rightarrow> (ptr \<times> bytes \<times> bytes) list" where
  "cright [] = []"
| "cright (FL a b k d r # c) = (a, k, d) # nodes r @ cright c"
| "cright (FR l a b k d # c) = cright c"

lemma nodes_plug: "nodes (plug c t) = cleft c @ nodes t @ cright c"
proof (induction c arbitrary: t)
  case (Cons f c)
  then show ?case by (cases f) auto
qed simp

lemma addrs_nodes: "addrs t = map fst (nodes t)"
  by (induction t) auto

lemma nodes_fill: "nodes (fill f t) = nodes (fill f t') \<longleftrightarrow> nodes t = nodes t'"
  by (cases f) auto

lemma fsib_fill [simp]:
  "fsib (fpaint b f) = fsib f" "fsib (fset_sib s f) = s" "fblack (fpaint b f) = b" "fblack (fset_sib s f) = fblack f"
  "fr_addr (fpaint b f) = fr_addr f" "fr_addr (fset_sib s f) = fr_addr f"
  by (cases f; simp)+

lemma rbinv_fill [simp]: "rbinv (fill f t) \<longleftrightarrow> rbinv t \<and> rbinv (fsib f) \<and> bh t = bh (fsib f) \<and>
    (\<not> fblack f \<longrightarrow> black t \<and> black (fsib f))"
  by (cases f) auto

lemma black_fill [simp]: "black (fill f t) = fblack f"
  by (cases f) auto

lemma bh_fill [simp]: "bh t = bh (fsib f) \<Longrightarrow> bh (fill f t) = bh t + (if fblack f then 1 else 0)"
  by (cases f) auto

lemma rbinv_plug: "rbinv (plug c t) \<and> black (plug c t) \<longleftrightarrow> rbinv t \<and> crb c (bh t) (black t)"
  by (induction c arbitrary: t) auto

lemma paint_simps [simp]:
  "root (paint b t) = root t" "nodes (paint b t) = nodes t" "rbinv t \<Longrightarrow> rbinv (paint True t)"
  "black (paint True t)" "paint b t = Lf \<longleftrightarrow> t = Lf"
  by (cases t; simp)+

lemma bh_paint: "bh (paint True t) = (if black t then bh t else bh t + 1)"
  by (cases t) auto

lemma paint_same: "black t \<Longrightarrow> paint True t = t"
  by (cases t) auto

section \<open>Colour changes at the nodes around a hole\<close>

lemma paint_plug:
  "holds h (plug c t) \<Longrightarrow> t \<noteq> Lf \<Longrightarrow>
   \<exists>h'. upd h (root t) (set_black b) = Some h' \<and> becomes h (plug c t) h' (plug c (paint b t))"
  using set_black_plug by (cases t) fastforce+

lemma fpaint_plug:
  "holds h (plug (f # c) t) \<Longrightarrow>
   \<exists>h'. upd h (fr_addr f) (set_black b) = Some h' \<and> becomes h (plug (f # c) t) h' (plug (fpaint b f # c) t)"
  using set_black_plug by (cases f) fastforce+

lemma sib_plug:
  "holds h (plug (f # c) t) \<Longrightarrow> fsib f \<noteq> Lf \<Longrightarrow>
   \<exists>h'. upd h (root (fsib f)) (set_black b) = Some h' \<and>
     becomes h (plug (f # c) t) h' (plug (fset_sib (paint b (fsib f)) f # c) t)"
  by (cases f) (use paint_plug [of h "FR t a' b' k d # c" "fsib f" b for a' b' k d]
    paint_plug [of h "FL a' b' k d t # c" "fsib f" b for a' b' k d] in simp_all)

lemma hole_node:
  "holds h (plug c t) \<Longrightarrow> t \<noteq> Lf \<Longrightarrow>
   \<exists>n. deref h (root t) = Some n \<and> isBlack n = black t \<and> pParent n = cpar c"
  using holds_node by (cases t) fastforce+

lemma frame_node:
  assumes "holds h (plug (f # c) t)"
  shows "\<exists>n. deref h (fr_addr f) = Some n \<and> isBlack n = fblack f \<and> pParent n = cpar c \<and>
     pLeft n = (case f of FL a b k d r \<Rightarrow> root t | FR l a b k d \<Rightarrow> root l) \<and>
     pRight n = (case f of FL a b k d r \<Rightarrow> root r | FR l a b k d \<Rightarrow> root t)"
proof (cases f)
  case (FL a b k d r)
  then show ?thesis using assms holds_node [of h c t a b k d r] by auto
next
  case (FR l a b k d)
  then show ?thesis using assms holds_node [of h c l a b k d t] by auto
qed

lemma hole_sib: "holds h (plug (f # c) t) \<Longrightarrow> t \<noteq> Lf \<Longrightarrow> root t \<noteq> root (fsib f)"
  by (cases t; cases f) (auto simp: holds_def rep_plug distinct_plug node_at_def dest: root_notin)

lemma sib_node:
  "holds h (plug (f # c) t) \<Longrightarrow> fsib f \<noteq> Lf \<Longrightarrow>
   \<exists>n. deref h (root (fsib f)) = Some n \<and> isBlack n = black (fsib f)"
  by (cases f) (use hole_node [of h "FR t a' b' k d # c" "fsib f" for a' b' k d]
    hole_node [of h "FL a' b' k d t # c" "fsib f" for a' b' k d] in force)+

lemma hole_0: "holds h (plug c t) \<Longrightarrow> t \<noteq> Lf \<Longrightarrow> root t \<noteq> 0"
  using holds_root_0 by blast

lemma sib_0: "holds h (plug (f # c) t) \<Longrightarrow> root (fsib f) = 0 \<longleftrightarrow> fsib f = Lf"
  by (cases f) (use holds_root_0 [of h "FR t a' b' k d # c" "fsib f" for a' b' k d]
    holds_root_0 [of h "FL a' b' k d t # c" "fsib f" for a' b' k d] in simp_all)


lemma parent_side:
  assumes "holds h (plug (f # c) t)" "t \<noteq> Lf"
  shows "\<exists>n. deref h (fr_addr f) = Some n \<and> isBlack n = fblack f \<and> pParent n = cpar c \<and>
    (if root t = pLeft n then pRight n else pLeft n) = root (fsib f) \<and>
    (root t = pLeft n \<longleftrightarrow> (\<exists>a b k d r. f = FL a b k d r))"
proof -
  obtain n where n: "deref h (fr_addr f) = Some n" "isBlack n = fblack f" "pParent n = cpar c"
    "pLeft n = (case f of FL a b k d r \<Rightarrow> root t | FR l a b k d \<Rightarrow> root l)"
    "pRight n = (case f of FL a b k d r \<Rightarrow> root r | FR l a b k d \<Rightarrow> root t)"
    using frame_node [OF assms(1)] by blast
  show ?thesis using hole_sib [OF assms] by (intro exI [of _ n]) (cases f; use n in simp)
qed

section \<open>Balancing after an insertion\<close>

lemma insert_exit_black:
  assumes "holds h (plug (f # c) t)" "t \<noteq> Lf" "fblack f"
  shows "insert_balance_loop h (root (plug (f # c) t)) (root t) = Some (h, root (plug (f # c) t))"
proof -
  obtain n where n: "deref h (root t) = Some n" "pParent n = fr_addr f"
    using hole_node [OF assms(1,2)] by auto
  obtain p where p: "deref h (fr_addr f) = Some p" "isBlack p"
    using frame_node [OF assms(1)] assms(3) by auto
  show ?thesis by (subst insert_balance_loop.simps) (simp add: n p)
qed

lemma insert_exit_root: "insert_balance_loop h p p = Some (h, p)"
  by (subst insert_balance_loop.simps) simp

text \<open>A red uncle: the grandparent turns red and takes the place of \<open>pX\<close>.\<close>

lemma insert_recolour:
  assumes T: "holds h (plug (f # g # c) t)" and "t \<noteq> Lf" "\<not> fblack f" "fblack g" "\<not> black (fsib g)"
  shows "\<exists>h'. becomes h (plug (f # g # c) t) h' (plug (fpaint True f # fset_sib (paint True (fsib g)) (fpaint False g) # c) t) \<and>
    insert_balance_loop h (root (plug (f # g # c) t)) (root t) = insert_balance_loop h' (root (plug (f # g # c) t)) (fr_addr g)"
proof -
  let ?u = "fsib g"
  have T': "holds h (plug (g # c) (fill f t))" using T by simp
  have u: "?u \<noteq> Lf" using assms(5) by (cases ?u) auto
  have neq: "root t \<noteq> root (plug (f # g # c) t)"
    using croot_self [OF T assms(2)] by (simp add: root_plug)
  obtain n where n: "deref h (root t) = Some n" "pParent n = fr_addr f"
    using hole_node [OF T assms(2)] by auto
  obtain p where p: "deref h (fr_addr f) = Some p" "\<not> isBlack p" "pParent p = fr_addr g"
    using frame_node [OF T] assms(3) by auto
  obtain gn where g: "deref h (fr_addr g) = Some gn" "isBlack gn"
    "(if fr_addr f = pLeft gn then pRight gn else pLeft gn) = root ?u"
    using parent_side [OF T'] assms(4) by (cases f) auto
  obtain un where un: "deref h (root ?u) = Some un" "\<not> isBlack un" "root ?u \<noteq> 0"
    using sib_node [OF T' u] sib_0 [OF T'] u assms(5) by auto
  obtain h1 where h1: "upd h (fr_addr g) (set_black False) = Some h1"
    "becomes h (plug (g # c) (fill f t)) h1 (plug (fpaint False g # c) (fill f t))"
    using fpaint_plug [OF T', of False] by blast
  obtain h2 where h2: "upd h1 (root ?u) (set_black True) = Some h2"
    "becomes h1 (plug (fpaint False g # c) (fill f t)) h2 (plug (fset_sib (paint True ?u) (fpaint False g) # c) (fill f t))"
    using sib_plug [OF becomes_holds [OF h1(2)], of True] u by auto
  have "holds h2 (plug (f # fset_sib (paint True ?u) (fpaint False g) # c) t)"
    using becomes_holds [OF h2(2)] by simp
  then obtain h3 where h3: "upd h2 (fr_addr f) (set_black True) = Some h3"
    "becomes h2 (plug (fset_sib (paint True ?u) (fpaint False g) # c) (fill f t)) h3
       (plug (fpaint True f # fset_sib (paint True ?u) (fpaint False g) # c) t)"
    using fpaint_plug by fastforce
  have "becomes h (plug (f # g # c) t) h3 (plug (fpaint True f # fset_sib (paint True ?u) (fpaint False g) # c) t)"
    using becomes_trans [OF h1(2) becomes_trans [OF h2(2) h3(2)]] by simp
  moreover have "insert_balance_loop h (root (plug (f # g # c) t)) (root t) =
      insert_balance_loop h3 (root (plug (f # g # c) t)) (fr_addr g)"
    using neq by (subst insert_balance_loop.simps) (simp del: plug.simps add: n p g un h1 h2 h3 assertion_def Let_def)
  ultimately show ?thesis by blast
qed


text \<open>A black uncle, with \<open>pX\<close> the left child of a left child: one rotation ends the loop.\<close>

lemma insert_outer_left:
  assumes T: "holds h (plug c (Br (Br X pa False pk pd s) g True gk gd u))" and X: "X \<noteq> Lf"
  defines "T' \<equiv> plug c (Br X pa True pk pd (Br s g False gk gd u))"
  shows "\<exists>n p h1 h2 h3. deref h (root X) = Some n \<and> pParent n = pa \<and> deref h pa = Some p \<and> pParent p = g \<and>
    upd h g (set_black False) = Some h1 \<and> upd h1 pa (set_black True) = Some h2 \<and>
    rightRotate h2 (root (plug c (Br (Br X pa False pk pd s) g True gk gd u))) g = Some (h3, root T') \<and>
    becomes h (plug c (Br (Br X pa False pk pd s) g True gk gd u)) h3 T' \<and>
    insert_balance_loop h3 (root T') (root X) = Some (h3, root T')"
proof -
  obtain n where n: "deref h (root X) = Some n" "pParent n = pa"
    using hole_node [of h "FL pa False pk pd s # FL g True gk gd u # c" X] T X by auto
  obtain p where p: "deref h pa = Some p" "pParent p = g"
    using hole_node [of h "FL g True gk gd u # c" "Br X pa False pk pd s"] T by auto
  obtain h1 where h1: "upd h g (set_black False) = Some h1" "becomes h (plug c (Br (Br X pa False pk pd s) g True gk gd u)) h1 (plug c (Br (Br X pa False pk pd s) g False gk gd u))"
    using set_black_plug [OF T] by blast
  obtain h2 where h2: "upd h1 pa (set_black True) = Some h2" "becomes h1 (plug c (Br (Br X pa False pk pd s) g False gk gd u)) h2 (plug c (Br (Br X pa True pk pd s) g False gk gd u))"
    using set_black_plug [of h1 "FL g False gk gd u # c"] becomes_holds [OF h1(2)] by fastforce
  obtain h3 where h3: "rightRotate h2 (root (plug c (Br (Br X pa True pk pd s) g False gk gd u))) g = Some (h3, root T')" "becomes h2 (plug c (Br (Br X pa True pk pd s) g False gk gd u)) h3 T'"
    using rightRotate_plug [OF becomes_holds [OF h2(2)]] unfolding T'_def by blast
  have "root (plug c (Br (Br X pa True pk pd s) g False gk gd u)) = root (plug c (Br (Br X pa False pk pd s) g True gk gd u))" by (simp add: root_plug)
  moreover have "insert_balance_loop h3 (root T') (root X) = Some (h3, root T')"
    using insert_exit_black [of h3 "FL pa True pk pd (Br s g False gk gd u)" c X] becomes_holds [OF h3(2)] X by (simp add: T'_def)
  moreover have "becomes h (plug c (Br (Br X pa False pk pd s) g True gk gd u)) h3 T'"
    using becomes_trans [OF h1(2) becomes_trans [OF h2(2) h3(2)]] .
  ultimately show ?thesis using n p h1(1) h2(1) h3(1) by auto
qed

text \<open>A black uncle, with \<open>pX\<close> the right child of a right child: one rotation ends the loop.\<close>

lemma insert_outer_right:
  assumes T: "holds h (plug c (Br u g True gk gd (Br s pa False pk pd X)))" and X: "X \<noteq> Lf"
  defines "T' \<equiv> plug c (Br (Br u g False gk gd s) pa True pk pd X)"
  shows "\<exists>n p h1 h2 h3. deref h (root X) = Some n \<and> pParent n = pa \<and> deref h pa = Some p \<and> pParent p = g \<and>
    upd h g (set_black False) = Some h1 \<and> upd h1 pa (set_black True) = Some h2 \<and>
    leftRotate h2 (root (plug c (Br u g True gk gd (Br s pa False pk pd X)))) g = Some (h3, root T') \<and>
    becomes h (plug c (Br u g True gk gd (Br s pa False pk pd X))) h3 T' \<and>
    insert_balance_loop h3 (root T') (root X) = Some (h3, root T')"
proof -
  obtain n where n: "deref h (root X) = Some n" "pParent n = pa"
    using hole_node [of h "FR s pa False pk pd # FR u g True gk gd # c" X] T X by auto
  obtain p where p: "deref h pa = Some p" "pParent p = g"
    using hole_node [of h "FR u g True gk gd # c" "Br s pa False pk pd X"] T by auto
  obtain h1 where h1: "upd h g (set_black False) = Some h1" "becomes h (plug c (Br u g True gk gd (Br s pa False pk pd X))) h1 (plug c (Br u g False gk gd (Br s pa False pk pd X)))"
    using set_black_plug [OF T] by blast
  obtain h2 where h2: "upd h1 pa (set_black True) = Some h2" "becomes h1 (plug c (Br u g False gk gd (Br s pa False pk pd X))) h2 (plug c (Br u g False gk gd (Br s pa True pk pd X)))"
    using set_black_plug [of h1 "FR u g False gk gd # c"] becomes_holds [OF h1(2)] by fastforce
  obtain h3 where h3: "leftRotate h2 (root (plug c (Br u g False gk gd (Br s pa True pk pd X)))) g = Some (h3, root T')" "becomes h2 (plug c (Br u g False gk gd (Br s pa True pk pd X))) h3 T'"
    using leftRotate_plug [OF becomes_holds [OF h2(2)]] unfolding T'_def by blast
  have "root (plug c (Br u g False gk gd (Br s pa True pk pd X))) = root (plug c (Br u g True gk gd (Br s pa False pk pd X)))" by (simp add: root_plug)
  moreover have "insert_balance_loop h3 (root T') (root X) = Some (h3, root T')"
    using insert_exit_black [of h3 "FR (Br u g False gk gd s) pa True pk pd" c X] becomes_holds [OF h3(2)] X by (simp add: T'_def)
  moreover have "becomes h (plug c (Br u g True gk gd (Br s pa False pk pd X))) h3 T'"
    using becomes_trans [OF h1(2) becomes_trans [OF h2(2) h3(2)]] .
  ultimately show ?thesis using n p h1(1) h2(1) h3(1) by auto
qed






lemma insert_black_outer_left:
  assumes T: "holds h (plug (FL pa False pk pd s # FL g True gk gd u # c) t)"
    and t: "t \<noteq> Lf" "\<not> black t" "rbinv t" and c: "crb (FL pa False pk pd s # FL g True gk gd u # c) (bh t) True" and u: "black u"
  shows "\<exists>h' T'. insert_balance_loop h (root (plug (FL pa False pk pd s # FL g True gk gd u # c) t)) (root t) = Some (h', root T') \<and>
    becomes h (plug (FL pa False pk pd s # FL g True gk gd u # c) t) h' T' \<and>
    nodes T' = nodes (plug (FL pa False pk pd s # FL g True gk gd u # c) t) \<and> rbinv T'"
proof -
  let ?T = "plug (FL pa False pk pd s # FL g True gk gd u # c) t"
  let ?T' = "plug c (Br t pa True pk pd (Br s g False gk gd u))"
  obtain n p h1 h2 h3 where s: "deref h (root t) = Some n" "pParent n = pa" "deref h pa = Some p" "pParent p = g"
    "upd h g (set_black False) = Some h1" "upd h1 pa (set_black True) = Some h2"
    "rightRotate h2 (root ?T) g = Some (h3, root ?T')" "becomes h ?T h3 ?T'"
    "insert_balance_loop h3 (root ?T') (root t) = Some (h3, root ?T')"
    using insert_outer_left [of h c t pa pk pd s g gk gd u] T t(1) by (simp add: o_def) blast
  have T2: "holds h (plug (FL g True gk gd u # c) (Br t pa False pk pd s))" using T by simp
  obtain g' where g': "deref h g = Some g'" "isBlack g'" "pLeft g' = pa" "pRight g' = root u"
    using frame_node [OF T2] by auto
  have q: "isBlack p = False" "pLeft p = root t" "pRight p = root s"
    using frame_node [OF T] s(3) by auto
  note sib = hole_sib [OF T t(1)] hole_sib [OF T2]
  have pa: "(pa = 0) = False" using hole_0 [OF T2] by simp
  obtain w where un: "root u \<noteq> 0 \<Longrightarrow> deref h (root u) = Some w" "root u \<noteq> 0 \<Longrightarrow> isBlack w"
    using sib_node [OF T2] sib_0 [OF T2] u by fastforce
  have neq: "root t \<noteq> root ?T" using croot_self [OF T t(1)] by (simp add: root_plug)
  have "insert_balance_loop h (root ?T) (root t) = Some (h3, root ?T')"
    using neq by (subst insert_balance_loop.simps)
      (simp del: plug.simps add: s g' q un sib [simplified] pa assertion_def Let_def)
  moreover have "nodes ?T' = nodes ?T" by (simp add: nodes_plug)
  moreover have "rbinv ?T'"
    using rbinv_plug [of c "(Br t pa True pk pd (Br s g False gk gd u))"] c t u by auto
  ultimately show ?thesis using s(8) by blast
qed

lemma insert_black_inner_left:
  assumes T: "holds h (plug (FR s pa False pk pd # FL g True gk gd u # c) t)"
    and t: "t \<noteq> Lf" "\<not> black t" "rbinv t" and c: "crb (FR s pa False pk pd # FL g True gk gd u # c) (bh t) True" and u: "black u"
  shows "\<exists>h' T'. insert_balance_loop h (root (plug (FR s pa False pk pd # FL g True gk gd u # c) t)) (root t) = Some (h', root T') \<and>
    becomes h (plug (FR s pa False pk pd # FL g True gk gd u # c) t) h' T' \<and>
    nodes T' = nodes (plug (FR s pa False pk pd # FL g True gk gd u # c) t) \<and> rbinv T'"
proof -
  let ?T = "plug (FR s pa False pk pd # FL g True gk gd u # c) t"
  obtain xl x xk xd xr where X: "t = Br xl x False xk xd xr" using t by (cases t) auto
  let ?T1 = "plug (FL g True gk gd u # c) (Br (Br s pa False pk pd xl) x False xk xd xr)"
  let ?T' = "plug c (Br (Br s pa False pk pd xl) x True xk xd (Br xr g False gk gd u))"
  have T2: "holds h (plug (FL g True gk gd u # c) (Br s pa False pk pd t))" using T by (simp add: X)
  obtain g' where g': "deref h g = Some g'" "isBlack g'" "pLeft g' = pa" "pRight g' = root u"
    using frame_node [OF T2] by auto
  obtain p where q: "deref h pa = Some p" "isBlack p = False" "pLeft p = root s" "pRight p = x" "pParent p = g"
    using frame_node [OF T] by (auto simp: X)
  obtain n where n: "deref h x = Some n" "pParent n = pa"
    using hole_node [OF T t(1)] by (auto simp: X)
  note sib = hole_sib [OF T t(1)] hole_sib [OF T2]
  have pa: "(pa = 0) = False" using hole_0 [OF T2] by simp
  obtain w where un: "root u \<noteq> 0 \<Longrightarrow> deref h (root u) = Some w" "root u \<noteq> 0 \<Longrightarrow> isBlack w"
    using sib_node [OF T2] sib_0 [OF T2] u by fastforce
  have neq: "x \<noteq> root ?T" using croot_self [OF T t(1)] by (simp add: root_plug X)
  obtain h0 where h0: "leftRotate h (root ?T) pa = Some (h0, root ?T1)" "becomes h ?T h0 ?T1"
    using leftRotate_plug [of h "FL g True gk gd u # c" s pa False pk pd xl x False xk xd xr] T by (auto simp: X)
  obtain n1 p1 h1 h2 h3 where s: "deref h0 pa = Some n1" "pParent n1 = x" "deref h0 x = Some p1" "pParent p1 = g"
    "upd h0 g (set_black False) = Some h1" "upd h1 x (set_black True) = Some h2"
    "rightRotate h2 (root ?T1) g = Some (h3, root ?T')" "becomes h0 ?T1 h3 ?T'"
    "insert_balance_loop h3 (root ?T') pa = Some (h3, root ?T')"
    using insert_outer_left [of h0 c "Br s pa False pk pd xl" x xk xd xr g gk gd u] becomes_holds [OF h0(2)] by (simp add: o_def) blast
  have "insert_balance_loop h (root ?T) (root t) = Some (h3, root ?T')"
    using neq by (subst insert_balance_loop.simps)
      (simp del: plug.simps add: X s g' q n un sib [unfolded X, simplified] h0 [unfolded X] pa assertion_def Let_def)
  moreover have "nodes ?T' = nodes ?T" by (simp add: nodes_plug X)
  moreover have "rbinv ?T'"
    using rbinv_plug [of c "(Br (Br s pa False pk pd xl) x True xk xd (Br xr g False gk gd u))"] c t u by (auto simp: X)
  ultimately show ?thesis using becomes_trans [OF h0(2) s(8)] by blast
qed

lemma insert_black_outer_right:
  assumes T: "holds h (plug (FR s pa False pk pd # FR u g True gk gd # c) t)"
    and t: "t \<noteq> Lf" "\<not> black t" "rbinv t" and c: "crb (FR s pa False pk pd # FR u g True gk gd # c) (bh t) True" and u: "black u"
  shows "\<exists>h' T'. insert_balance_loop h (root (plug (FR s pa False pk pd # FR u g True gk gd # c) t)) (root t) = Some (h', root T') \<and>
    becomes h (plug (FR s pa False pk pd # FR u g True gk gd # c) t) h' T' \<and>
    nodes T' = nodes (plug (FR s pa False pk pd # FR u g True gk gd # c) t) \<and> rbinv T'"
proof -
  let ?T = "plug (FR s pa False pk pd # FR u g True gk gd # c) t"
  let ?T' = "plug c (Br (Br u g False gk gd s) pa True pk pd t)"
  obtain n p h1 h2 h3 where s: "deref h (root t) = Some n" "pParent n = pa" "deref h pa = Some p" "pParent p = g"
    "upd h g (set_black False) = Some h1" "upd h1 pa (set_black True) = Some h2"
    "leftRotate h2 (root ?T) g = Some (h3, root ?T')" "becomes h ?T h3 ?T'"
    "insert_balance_loop h3 (root ?T') (root t) = Some (h3, root ?T')"
    using insert_outer_right [of h c u g gk gd s pa pk pd t] T t(1) by (simp add: o_def) blast
  have T2: "holds h (plug (FR u g True gk gd # c) (Br s pa False pk pd t))" using T by simp
  obtain g' where g': "deref h g = Some g'" "isBlack g'" "pLeft g' = root u" "pRight g' = pa"
    using frame_node [OF T2] by auto
  have q: "isBlack p = False" "pLeft p = root s" "pRight p = root t"
    using frame_node [OF T] s(3) by auto
  note sib = hole_sib [OF T t(1)] hole_sib [OF T2]
  have pa: "(pa = 0) = False" using hole_0 [OF T2] by simp
  obtain w where un: "root u \<noteq> 0 \<Longrightarrow> deref h (root u) = Some w" "root u \<noteq> 0 \<Longrightarrow> isBlack w"
    using sib_node [OF T2] sib_0 [OF T2] u by fastforce
  have neq: "root t \<noteq> root ?T" using croot_self [OF T t(1)] by (simp add: root_plug)
  have "insert_balance_loop h (root ?T) (root t) = Some (h3, root ?T')"
    using neq by (subst insert_balance_loop.simps)
      (simp del: plug.simps add: s g' q un sib [simplified] pa assertion_def Let_def)
  moreover have "nodes ?T' = nodes ?T" by (simp add: nodes_plug)
  moreover have "rbinv ?T'"
    using rbinv_plug [of c "(Br (Br u g False gk gd s) pa True pk pd t)"] c t u by auto
  ultimately show ?thesis using s(8) by blast
qed

lemma insert_black_inner_right:
  assumes T: "holds h (plug (FL pa False pk pd s # FR u g True gk gd # c) t)"
    and t: "t \<noteq> Lf" "\<not> black t" "rbinv t" and c: "crb (FL pa False pk pd s # FR u g True gk gd # c) (bh t) True" and u: "black u"
  shows "\<exists>h' T'. insert_balance_loop h (root (plug (FL pa False pk pd s # FR u g True gk gd # c) t)) (root t) = Some (h', root T') \<and>
    becomes h (plug (FL pa False pk pd s # FR u g True gk gd # c) t) h' T' \<and>
    nodes T' = nodes (plug (FL pa False pk pd s # FR u g True gk gd # c) t) \<and> rbinv T'"
proof -
  let ?T = "plug (FL pa False pk pd s # FR u g True gk gd # c) t"
  obtain xl x xk xd xr where X: "t = Br xl x False xk xd xr" using t by (cases t) auto
  let ?T1 = "plug (FR u g True gk gd # c) (Br xl x False xk xd (Br xr pa False pk pd s))"
  let ?T' = "plug c (Br (Br u g False gk gd xl) x True xk xd (Br xr pa False pk pd s))"
  have T2: "holds h (plug (FR u g True gk gd # c) (Br t pa False pk pd s))" using T by (simp add: X)
  obtain g' where g': "deref h g = Some g'" "isBlack g'" "pLeft g' = root u" "pRight g' = pa"
    using frame_node [OF T2] by auto
  obtain p where q: "deref h pa = Some p" "isBlack p = False" "pLeft p = x" "pRight p = root s" "pParent p = g"
    using frame_node [OF T] by (auto simp: X)
  obtain n where n: "deref h x = Some n" "pParent n = pa"
    using hole_node [OF T t(1)] by (auto simp: X)
  note sib = hole_sib [OF T t(1)] hole_sib [OF T2]
  have pa: "(pa = 0) = False" using hole_0 [OF T2] by simp
  obtain w where un: "root u \<noteq> 0 \<Longrightarrow> deref h (root u) = Some w" "root u \<noteq> 0 \<Longrightarrow> isBlack w"
    using sib_node [OF T2] sib_0 [OF T2] u by fastforce
  have neq: "x \<noteq> root ?T" using croot_self [OF T t(1)] by (simp add: root_plug X)
  obtain h0 where h0: "rightRotate h (root ?T) pa = Some (h0, root ?T1)" "becomes h ?T h0 ?T1"
    using rightRotate_plug [of h "FR u g True gk gd # c" xl x False xk xd xr pa False pk pd s] T by (auto simp: X)
  obtain n1 p1 h1 h2 h3 where s: "deref h0 pa = Some n1" "pParent n1 = x" "deref h0 x = Some p1" "pParent p1 = g"
    "upd h0 g (set_black False) = Some h1" "upd h1 x (set_black True) = Some h2"
    "leftRotate h2 (root ?T1) g = Some (h3, root ?T')" "becomes h0 ?T1 h3 ?T'"
    "insert_balance_loop h3 (root ?T') pa = Some (h3, root ?T')"
    using insert_outer_right [of h0 c u g gk gd xl x xk xd "Br xr pa False pk pd s"] becomes_holds [OF h0(2)] by (simp add: o_def) blast
  have "insert_balance_loop h (root ?T) (root t) = Some (h3, root ?T')"
    using neq by (subst insert_balance_loop.simps)
      (simp del: plug.simps add: X s g' q n un sib [unfolded X, simplified] h0 [unfolded X] pa assertion_def Let_def)
  moreover have "nodes ?T' = nodes ?T" by (simp add: nodes_plug X)
  moreover have "rbinv ?T'"
    using rbinv_plug [of c "(Br (Br u g False gk gd xl) x True xk xd (Br xr pa False pk pd s))"] c t u by (auto simp: X)
  ultimately show ?thesis using becomes_trans [OF h0(2) s(8)] by blast
qed


lemma nodes_fpaint [simp]: "nodes (fill (fpaint b f) t) = nodes (fill f t)"
  by (cases f) auto

lemma nodes_fset_sib [simp]: "nodes s = nodes (fsib f) \<Longrightarrow> nodes (fill (fset_sib s f) t) = nodes (fill f t)"
  by (cases f) auto

lemma nodes_plug_eq: "nodes t = nodes t' \<Longrightarrow> nodes (plug c t) = nodes (plug c t')"
  by (simp add: nodes_plug)

lemma nodes_fill_eq: "nodes t = nodes t' \<Longrightarrow> nodes (fill f t) = nodes (fill f t')"
  by (simp add: nodes_fill)

lemma insert_balance_ok:
  assumes "holds h (plug c t)" "t \<noteq> Lf" "\<not> black t" "rbinv t" "crb c (bh t) True"
  shows "\<exists>h' T'. insert_balance_loop h (root (plug c t)) (root t) = Some (h', root T') \<and>
    becomes h (plug c t) h' T' \<and> nodes T' = nodes (plug c t) \<and> rbinv T'"
  using assms
proof (induction c arbitrary: h t rule: length_induct)
  case (1 c)
  note T = "1.prems"(1) and t = "1.prems"(2,3,4)
  show ?case
  proof (cases c)
    case Nil
    then show ?thesis using T t by (auto simp: insert_exit_root intro: becomes_refl)
  next
    case (Cons f c1)
    show ?thesis
    proof (cases "fblack f")
      case True
      then show ?thesis
        using insert_exit_black [of h f c1 t] becomes_refl [OF T] rbinv_plug [of c t] T t "1.prems"(5)
        by (auto simp: Cons simp del: plug.simps)
    next
      case False
      then obtain g c2 where c1: "c1 = g # c2" "fblack g"
        using "1.prems"(5) Cons by (cases c1) auto
      show ?thesis
      proof (cases "black (fsib g)")
        case True
        then show ?thesis
          using False c1 Cons T t "1.prems"(5)
            insert_black_outer_left insert_black_outer_right insert_black_inner_left insert_black_inner_right
          by (cases f; cases g) (simp del: plug.simps)+
      next
        case red: False
        let ?f = "fpaint True f" and ?g = "fset_sib (paint True (fsib g)) (fpaint False g)"
        let ?t = "fill ?g (fill ?f t)"
        obtain h1 where h1: "becomes h (plug c t) h1 (plug c2 ?t)"
          "insert_balance_loop h (root (plug c t)) (root t) = insert_balance_loop h1 (root (plug c t)) (fr_addr g)"
          using insert_recolour [of h f g c2 t] False red c1 Cons T t by auto
        have crb: "rbinv ?t" "crb c2 (bh ?t) True"
          using "1.prems"(5) False red t by (auto simp: Cons c1 bh_paint)
        have len: "length c2 < length c" using Cons c1 by simp
        have "?t \<noteq> Lf" "\<not> black ?t" "root ?t = fr_addr g" by (cases g; simp)+
        then obtain h2 T2 where h2: "insert_balance_loop h1 (root (plug c2 ?t)) (fr_addr g) = Some (h2, root T2)"
          "becomes h1 (plug c2 ?t) h2 T2" "nodes T2 = nodes (plug c2 ?t)" "rbinv T2"
          using "1.IH" [rule_format, OF len becomes_holds [OF h1(1)] _ _ crb] by metis
        have "root (plug c2 ?t) = root (plug c t)" by (simp add: Cons c1 root_plug)
        moreover have "nodes (plug c2 ?t) = nodes (plug c t)"
          unfolding Cons c1 plug.simps by (intro nodes_plug_eq) (simp add: nodes_fill)
        ultimately show ?thesis using h1(2) h2 becomes_trans [OF h1(1) h2(2)] by metis
      qed
    qed
  qed
qed

lemma do_insert_balancing_ok:
  assumes "holds h (plug c t)" "t \<noteq> Lf" "\<not> black t" "rbinv t" "crb c (bh t) True"
  shows "\<exists>h' T'. do_insert_balancing h (root (plug c t)) (root t) = Some (h', root T') \<and>
    becomes h (plug c t) h' T' \<and> nodes T' = nodes (plug c t) \<and> rbinv T' \<and> black T'"
proof -
  obtain h1 T1 where 1: "insert_balance_loop h (root (plug c t)) (root t) = Some (h1, root T1)"
    "becomes h (plug c t) h1 T1" "nodes T1 = nodes (plug c t)" "rbinv T1"
    using insert_balance_ok [OF assms] by blast
  have "T1 \<noteq> Lf" using 1(3) assms(2) by (cases T1; cases t) (auto simp: nodes_plug)
  then obtain h2 where "upd h1 (root T1) (set_black True) = Some h2" "becomes h1 T1 h2 (paint True T1)"
    using paint_plug [of h1 "[]" T1 True] becomes_holds [OF 1(2)] by auto
  then show ?thesis
    using 1 becomes_trans [OF 1(2)] by (intro exI [of _ h2] exI [of _ "paint True T1"]) (auto simp: do_insert_balancing_def)
qed

end
