(* ===== verification/RbDelete.thy ===== *)
theory RbDelete
  imports RbBalance
begin

text \<open>
  The proof that \<open>do_delete_balancing\<close> repairs a tree that lacks one black node at a hole: it
  follows no bad pointer, returns, and leaves a red-black tree with the same nodes in the same
  order.
\<close>

section \<open>The steps of the loop body\<close>

lemma blacken_plug:
  assumes "holds h (plug c t)"
  shows "\<exists>h'. blacken h (root t) = Some h' \<and> becomes h (plug c t) h' (plug c (paint True t))"
proof (cases "t = Lf")
  case True
  then show ?thesis using becomes_refl [OF assms] by (simp add: blacken_def)
next
  case False
  then show ?thesis using paint_plug [OF assms] hole_0 [OF assms] by (simp add: blacken_def)
qed

lemma null_or_black_plug: "holds h (plug c t) \<Longrightarrow> null_or_black h (root t) = Some (black t)"
  using hole_node [of h c t] holds_root_0 [of h c t] by (cases t) (auto simp: null_or_black_def)

lemma frame_left:
  assumes "holds h (plug (FL p pb pk pd s # c) t)"
  shows "\<exists>n. deref h p = Some n \<and> isBlack n = pb \<and> pLeft n = root t \<and> pRight n = root s \<and> pParent n = cpar c"
  using frame_node [OF assms] by auto

lemma frame_right:
  assumes "holds h (plug (FR s p pb pk pd # c) t)"
  shows "\<exists>n. deref h p = Some n \<and> isBlack n = pb \<and> pLeft n = root s \<and> pRight n = root t \<and> pParent n = cpar c"
  using frame_node [OF assms] by auto

lemma delete_red_left:
  assumes T: "holds h (plug (FL p True pk pd (Br sl s False sk sd sr) # c) t)"
    and sl: "black sl" "sl \<noteq> Lf"
  defines "T \<equiv> plug (FL p True pk pd (Br sl s False sk sd sr) # c) t"
    and "T' \<equiv> plug (FL p False pk pd sl # FL s True sk sd sr # c) t"
  shows "\<exists>h'. becomes h T h' T' \<and> delete_balance_left h (root T) p = delete_balance_left h' (root T') p"
proof -
  have T': "holds h T" using T T_def by simp
  obtain n where n: "deref h p = Some n" "pRight n = s" using frame_left [OF T] by auto
  have sib: "null_or_black h s = Some False" "s \<noteq> 0"
    using null_or_black_plug [of h "FR t p True pk pd # c" "Br sl s False sk sd sr"]
      hole_0 [of h "FR t p True pk pd # c" "Br sl s False sk sd sr"] T by auto
  obtain h1 where h1: "upd h s (set_black True) = Some h1"
    "becomes h T h1 (plug (FR t p True pk pd # c) (Br sl s True sk sd sr))"
    using set_black_plug [of h "FR t p True pk pd # c"] T unfolding T_def by fastforce
  obtain h2 where h2: "upd h1 p (set_black False) = Some h2"
    "becomes h1 (plug c (Br t p True pk pd (Br sl s True sk sd sr))) h2 (plug c (Br t p False pk pd (Br sl s True sk sd sr)))"
    using set_black_plug [of h1 c] becomes_holds [OF h1(2)] by fastforce
  have hd: "root (plug c (Br t p False pk pd (Br sl s True sk sd sr))) = root T" by (simp add: T_def root_plug)
  obtain h3 where h3: "leftRotate h2 (root T) p = Some (h3, root T')"
    "becomes h2 (plug c (Br t p False pk pd (Br sl s True sk sd sr))) h3 T'"
    using leftRotate_plug [OF becomes_holds [OF h2(2)]] unfolding hd T'_def by auto
  obtain n' where n': "deref h3 p = Some n'" "pRight n' = root sl"
    using frame_left becomes_holds [OF h3(2)] unfolding T'_def by blast
  have sib': "null_or_black h3 (root sl) = Some True"
    using null_or_black_plug [of h3 "FR t p False pk pd # FL s True sk sd sr # c" sl] becomes_holds [OF h3(2)] sl
    unfolding T'_def by auto
  have "delete_balance_left h (root T) p = delete_balance_left h3 (root T') p"
    unfolding delete_balance_left_def by (simp add: n sib h1 h2 h3 n' sib' Let_def)
  moreover have "becomes h T h3 T'"
    using becomes_trans [OF h1(2)] becomes_trans [OF h2(2) h3(2)] by simp
  ultimately show ?thesis by blast
qed

lemma delete_recolour_left:
  assumes T: "holds h (plug (FL p pb pk pd (Br sl s True sk sd sr) # c) t)"
    and bl: "black sl" "black sr"
  defines "T \<equiv> plug (FL p pb pk pd (Br sl s True sk sd sr) # c) t"
    and "T' \<equiv> plug c (Br t p pb pk pd (Br sl s False sk sd sr))"
  shows "\<exists>h'. becomes h T h' T' \<and> delete_balance_left h (root T) p = Some (h', root T', p)"
proof -
  obtain n where n: "deref h p = Some n" "pRight n = s" using frame_left [OF T] by auto
  have S: "holds h (plug (FR t p pb pk pd # c) (Br sl s True sk sd sr))" using T by simp
  have sib: "null_or_black h s = Some True" "s \<noteq> 0" using null_or_black_plug [OF S] hole_0 [OF S] by auto
  obtain m where m: "deref h s = Some m" "pLeft m = root sl" "pRight m = root sr" using holds_node [OF S] by auto
  have kids: "null_or_black h (root sl) = Some True" "null_or_black h (root sr) = Some True"
    using null_or_black_plug [of h "FL s True sk sd sr # FR t p pb pk pd # c" sl]
      null_or_black_plug [of h "FR sl s True sk sd # FR t p pb pk pd # c" sr] T bl by auto
  obtain h1 where h1: "upd h s (set_black False) = Some h1" "becomes h T h1 T'"
    using set_black_plug [OF S] unfolding T_def T'_def by fastforce
  have "root T = root T'" by (simp add: T_def T'_def root_plug)
  then have "delete_balance_left h (root T) p = Some (h1, root T', p)"
    unfolding delete_balance_left_def by (simp add: n sib m kids h1 Let_def)
  then show ?thesis using h1 by blast
qed

lemma delete_outer_left_steps:
  assumes T: "holds h (plug c (Br t p pb pk pd (Br sl s sb sk sd sr)))"
  defines "T \<equiv> plug c (Br t p pb pk pd (Br sl s sb sk sd sr))"
    and "T' \<equiv> plug c (Br (Br t p True pk pd sl) s pb sk sd (paint True sr))"
  shows "\<exists>n h1 h2 m h3 h4. deref h p = Some n \<and> isBlack n = pb \<and> upd h s (set_black pb) = Some h1 \<and>
    upd h1 p (set_black True) = Some h2 \<and> deref h2 s = Some m \<and> blacken h2 (pRight m) = Some h3 \<and>
    leftRotate h3 (root T) p = Some (h4, root T') \<and> becomes h T h4 T'"
proof -
  obtain n where n: "deref h p = Some n" "isBlack n = pb" using holds_node [OF T] by auto
  obtain h1 where h1: "upd h s (set_black pb) = Some h1"
    "becomes h T h1 (plug c (Br t p pb pk pd (Br sl s pb sk sd sr)))"
    using set_black_plug [of h "FR t p pb pk pd # c"] T unfolding T_def by fastforce
  obtain h2 where h2: "upd h1 p (set_black True) = Some h2"
    "becomes h1 (plug c (Br t p pb pk pd (Br sl s pb sk sd sr))) h2 (plug c (Br t p True pk pd (Br sl s pb sk sd sr)))"
    using set_black_plug [OF becomes_holds [OF h1(2)]] by blast
  obtain m where m: "deref h2 s = Some m" "pRight m = root sr"
    using holds_node [of h2 "FR t p True pk pd # c"] becomes_holds [OF h2(2)] by fastforce
  obtain h3 where h3: "blacken h2 (root sr) = Some h3"
    "becomes h2 (plug c (Br t p True pk pd (Br sl s pb sk sd sr))) h3 (plug c (Br t p True pk pd (Br sl s pb sk sd (paint True sr))))"
    using blacken_plug [of h2 "FR sl s pb sk sd # FR t p True pk pd # c" sr] becomes_holds [OF h2(2)] by auto
  have hd: "root (plug c (Br t p True pk pd (Br sl s pb sk sd (paint True sr)))) = root T" by (simp add: T_def root_plug)
  obtain h4 where h4: "leftRotate h3 (root T) p = Some (h4, root T')"
    "becomes h3 (plug c (Br t p True pk pd (Br sl s pb sk sd (paint True sr)))) h4 T'"
    using leftRotate_plug [OF becomes_holds [OF h3(2)]] unfolding hd T'_def by auto
  have "becomes h T h4 T'"
    using becomes_trans [OF h1(2) becomes_trans [OF h2(2) becomes_trans [OF h3(2) h4(2)]]] .
  then show ?thesis using n h1(1) h2(1) m h3(1) h4(1) by auto
qed

lemma delete_outer_left:
  assumes T: "holds h (plug (FL p pb pk pd (Br sl s True sk sd sr) # c) t)"
    and red: "\<not> black sr"
  defines "T \<equiv> plug (FL p pb pk pd (Br sl s True sk sd sr) # c) t"
    and "T' \<equiv> plug c (Br (Br t p True pk pd sl) s pb sk sd (paint True sr))"
  shows "\<exists>h'. becomes h T h' T' \<and> delete_balance_left h (root T) p = Some (h', root T', root T')"
proof -
  obtain n where n: "deref h p = Some n" "pRight n = s" "isBlack n = pb" using frame_left [OF T] by auto
  have S: "holds h (plug (FR t p pb pk pd # c) (Br sl s True sk sd sr))" using T by simp
  have sib: "null_or_black h s = Some True" "s \<noteq> 0" using null_or_black_plug [OF S] hole_0 [OF S] by auto
  obtain m where m: "deref h s = Some m" "pLeft m = root sl" "pRight m = root sr" using holds_node [OF S] by auto
  have kids: "null_or_black h (root sl) = Some (black sl)" "null_or_black h (root sr) = Some False"
    using null_or_black_plug [of h "FL s True sk sd sr # FR t p pb pk pd # c" sl]
      null_or_black_plug [of h "FR sl s True sk sd # FR t p pb pk pd # c" sr] T red by auto
  obtain h1 h2 m' h3 h4 where st: "upd h s (set_black pb) = Some h1" "upd h1 p (set_black True) = Some h2"
    "deref h2 s = Some m'" "blacken h2 (pRight m') = Some h3"
    "leftRotate h3 (root T) p = Some (h4, root T')" "becomes h T h4 T'"
    using delete_outer_left_steps [of h c t p pb pk pd sl s True sk sd sr] T unfolding T_def T'_def by auto
  have "delete_balance_left h (root T) p = Some (h4, root T', root T')"
    unfolding delete_balance_left_def by (simp add: n sib m kids st Let_def)
  then show ?thesis using st(6) by blast
qed

lemma delete_inner_left:
  assumes T: "holds h (plug (FL p pb pk pd (Br (Br u q qb qk qd v) s True sk sd sr) # c) t)"
    and red: "\<not> qb" "black sr"
  defines "T \<equiv> plug (FL p pb pk pd (Br (Br u q qb qk qd v) s True sk sd sr) # c) t"
    and "T' \<equiv> plug c (Br (Br t p True pk pd u) q pb qk qd (Br v s True sk sd sr))"
  shows "\<exists>h'. becomes h T h' T' \<and> delete_balance_left h (root T) p = Some (h', root T', root T')"
proof -
  let ?sl = "Br u q qb qk qd v"
  obtain n where n: "deref h p = Some n" "pRight n = s" "isBlack n = pb" using frame_left [OF T] by auto
  have S: "holds h (plug (FR t p pb pk pd # c) (Br ?sl s True sk sd sr))" using T by simp
  have sib: "null_or_black h s = Some True" "s \<noteq> 0" using null_or_black_plug [OF S] hole_0 [OF S] by auto
  obtain m where m: "deref h s = Some m" "pLeft m = q" "pRight m = root sr" using holds_node [OF S] by auto
  have kids: "null_or_black h q = Some False" "null_or_black h (root sr) = Some True"
    using null_or_black_plug [of h "FL s True sk sd sr # FR t p pb pk pd # c" ?sl]
      null_or_black_plug [of h "FR ?sl s True sk sd # FR t p pb pk pd # c" sr] T red by auto
  obtain a1 where a1: "blacken h q = Some a1" "becomes h T a1 (plug (FR t p pb pk pd # c) (Br (Br u q True qk qd v) s True sk sd sr))"
    using blacken_plug [of h "FL s True sk sd sr # FR t p pb pk pd # c" ?sl] T unfolding T_def by auto
  obtain a2 where a2: "upd a1 s (set_black False) = Some a2"
    "becomes a1 (plug (FR t p pb pk pd # c) (Br (Br u q True qk qd v) s True sk sd sr)) a2
       (plug (FR t p pb pk pd # c) (Br (Br u q True qk qd v) s False sk sd sr))"
    using set_black_plug [OF becomes_holds [OF a1(2)]] by blast
  let ?T3 = "plug c (Br t p pb pk pd (Br u q True qk qd (Br v s False sk sd sr)))"
  have hd: "root (plug (FR t p pb pk pd # c) (Br (Br u q True qk qd v) s False sk sd sr)) = root T" "root T = root ?T3"
    by (simp_all add: T_def root_plug)
  obtain a3 where a3: "rightRotate a2 (root T) s = Some (a3, root ?T3)"
    "becomes a2 (plug (FR t p pb pk pd # c) (Br (Br u q True qk qd v) s False sk sd sr)) a3 ?T3"
    using rightRotate_plug [OF becomes_holds [OF a2(2)]] unfolding hd(1) by auto
  obtain n' where n': "deref a3 p = Some n'" "pRight n' = q" "isBlack n' = pb"
    using frame_left [of a3 p pb pk pd _ c t] becomes_holds [OF a3(2)] by fastforce
  obtain h1 h2 m' h3 h4 where st: "upd a3 q (set_black pb) = Some h1" "upd h1 p (set_black True) = Some h2"
    "deref h2 q = Some m'" "blacken h2 (pRight m') = Some h3"
    "leftRotate h3 (root ?T3) p = Some (h4, root T')" "becomes a3 ?T3 h4 T'"
    using delete_outer_left_steps [OF becomes_holds [OF a3(2)]] unfolding T'_def by auto
  have q: "q \<noteq> 0" using hole_0 [of h "FL s True sk sd sr # FR t p pb pk pd # c" ?sl] T by simp
  have "delete_balance_left h (root T) p = Some (h4, root T', root T')"
    unfolding delete_balance_left_def by (simp add: n sib m kids a1 a2 a3 n' st Let_def)
  then show ?thesis using becomes_trans [OF a1(2) becomes_trans [OF a2(2) becomes_trans [OF a3(2) st(6)]]] by blast
qed

lemma delete_red_right:
  assumes T: "holds h (plug (FR (Br sr s False sk sd sl) p True pk pd # c) t)"
    and sl: "black sl" "sl \<noteq> Lf"
  defines "T \<equiv> plug (FR (Br sr s False sk sd sl) p True pk pd # c) t"
    and "T' \<equiv> plug (FR sl p False pk pd # FR sr s True sk sd # c) t"
  shows "\<exists>h'. becomes h T h' T' \<and> delete_balance_right h (root T) p = delete_balance_right h' (root T') p"
proof -
  have T': "holds h T" using T T_def by simp
  obtain n where n: "deref h p = Some n" "pLeft n = s" using frame_right [OF T] by auto
  have sib: "null_or_black h s = Some False" "s \<noteq> 0"
    using null_or_black_plug [of h "FL p True pk pd t # c" "Br sr s False sk sd sl"]
      hole_0 [of h "FL p True pk pd t # c" "Br sr s False sk sd sl"] T by auto
  obtain h1 where h1: "upd h s (set_black True) = Some h1"
    "becomes h T h1 (plug (FL p True pk pd t # c) (Br sr s True sk sd sl))"
    using set_black_plug [of h "FL p True pk pd t # c"] T unfolding T_def by fastforce
  obtain h2 where h2: "upd h1 p (set_black False) = Some h2"
    "becomes h1 (plug c (Br (Br sr s True sk sd sl) p True pk pd t)) h2 (plug c (Br (Br sr s True sk sd sl) p False pk pd t))"
    using set_black_plug [of h1 c] becomes_holds [OF h1(2)] by fastforce
  have hd: "root (plug c (Br (Br sr s True sk sd sl) p False pk pd t)) = root T" by (simp add: T_def root_plug)
  obtain h3 where h3: "rightRotate h2 (root T) p = Some (h3, root T')"
    "becomes h2 (plug c (Br (Br sr s True sk sd sl) p False pk pd t)) h3 T'"
    using rightRotate_plug [OF becomes_holds [OF h2(2)]] unfolding hd T'_def by auto
  obtain n' where n': "deref h3 p = Some n'" "pLeft n' = root sl"
    using frame_right becomes_holds [OF h3(2)] unfolding T'_def by blast
  have sib': "null_or_black h3 (root sl) = Some True"
    using null_or_black_plug [of h3 "FL p False pk pd t # FR sr s True sk sd # c" sl] becomes_holds [OF h3(2)] sl
    unfolding T'_def by auto
  have "delete_balance_right h (root T) p = delete_balance_right h3 (root T') p"
    unfolding delete_balance_right_def by (simp add: n sib h1 h2 h3 n' sib' Let_def)
  moreover have "becomes h T h3 T'"
    using becomes_trans [OF h1(2)] becomes_trans [OF h2(2) h3(2)] by simp
  ultimately show ?thesis by blast
qed

lemma delete_recolour_right:
  assumes T: "holds h (plug (FR (Br sr s True sk sd sl) p pb pk pd # c) t)"
    and bl: "black sl" "black sr"
  defines "T \<equiv> plug (FR (Br sr s True sk sd sl) p pb pk pd # c) t"
    and "T' \<equiv> plug c (Br (Br sr s False sk sd sl) p pb pk pd t)"
  shows "\<exists>h'. becomes h T h' T' \<and> delete_balance_right h (root T) p = Some (h', root T', p)"
proof -
  obtain n where n: "deref h p = Some n" "pLeft n = s" using frame_right [OF T] by auto
  have S: "holds h (plug (FL p pb pk pd t # c) (Br sr s True sk sd sl))" using T by simp
  have sib: "null_or_black h s = Some True" "s \<noteq> 0" using null_or_black_plug [OF S] hole_0 [OF S] by auto
  obtain m where m: "deref h s = Some m" "pRight m = root sl" "pLeft m = root sr" using holds_node [OF S] by auto
  have kids: "null_or_black h (root sl) = Some True" "null_or_black h (root sr) = Some True"
    using null_or_black_plug [of h "FR sr s True sk sd # FL p pb pk pd t # c" sl]
      null_or_black_plug [of h "FL s True sk sd sl # FL p pb pk pd t # c" sr] T bl by auto
  obtain h1 where h1: "upd h s (set_black False) = Some h1" "becomes h T h1 T'"
    using set_black_plug [OF S] unfolding T_def T'_def by fastforce
  have "root T = root T'" by (simp add: T_def T'_def root_plug)
  then have "delete_balance_right h (root T) p = Some (h1, root T', p)"
    unfolding delete_balance_right_def by (simp add: n sib m kids h1 Let_def)
  then show ?thesis using h1 by blast
qed

lemma delete_outer_right_steps:
  assumes T: "holds h (plug c (Br (Br sr s sb sk sd sl) p pb pk pd t))"
  defines "T \<equiv> plug c (Br (Br sr s sb sk sd sl) p pb pk pd t)"
    and "T' \<equiv> plug c (Br (paint True sr) s pb sk sd (Br sl p True pk pd t))"
  shows "\<exists>n h1 h2 m h3 h4. deref h p = Some n \<and> isBlack n = pb \<and> upd h s (set_black pb) = Some h1 \<and>
    upd h1 p (set_black True) = Some h2 \<and> deref h2 s = Some m \<and> blacken h2 (pLeft m) = Some h3 \<and>
    rightRotate h3 (root T) p = Some (h4, root T') \<and> becomes h T h4 T'"
proof -
  obtain n where n: "deref h p = Some n" "isBlack n = pb" using holds_node [OF T] by auto
  obtain h1 where h1: "upd h s (set_black pb) = Some h1"
    "becomes h T h1 (plug c (Br (Br sr s pb sk sd sl) p pb pk pd t))"
    using set_black_plug [of h "FL p pb pk pd t # c"] T unfolding T_def by fastforce
  obtain h2 where h2: "upd h1 p (set_black True) = Some h2"
    "becomes h1 (plug c (Br (Br sr s pb sk sd sl) p pb pk pd t)) h2 (plug c (Br (Br sr s pb sk sd sl) p True pk pd t))"
    using set_black_plug [OF becomes_holds [OF h1(2)]] by blast
  obtain m where m: "deref h2 s = Some m" "pLeft m = root sr"
    using holds_node [of h2 "FL p True pk pd t # c"] becomes_holds [OF h2(2)] by fastforce
  obtain h3 where h3: "blacken h2 (root sr) = Some h3"
    "becomes h2 (plug c (Br (Br sr s pb sk sd sl) p True pk pd t)) h3 (plug c (Br (Br (paint True sr) s pb sk sd sl) p True pk pd t))"
    using blacken_plug [of h2 "FL s pb sk sd sl # FL p True pk pd t # c" sr] becomes_holds [OF h2(2)] by auto
  have hd: "root (plug c (Br (Br (paint True sr) s pb sk sd sl) p True pk pd t)) = root T" by (simp add: T_def root_plug)
  obtain h4 where h4: "rightRotate h3 (root T) p = Some (h4, root T')"
    "becomes h3 (plug c (Br (Br (paint True sr) s pb sk sd sl) p True pk pd t)) h4 T'"
    using rightRotate_plug [OF becomes_holds [OF h3(2)]] unfolding hd T'_def by auto
  have "becomes h T h4 T'"
    using becomes_trans [OF h1(2) becomes_trans [OF h2(2) becomes_trans [OF h3(2) h4(2)]]] .
  then show ?thesis using n h1(1) h2(1) m h3(1) h4(1) by auto
qed

lemma delete_outer_right:
  assumes T: "holds h (plug (FR (Br sr s True sk sd sl) p pb pk pd # c) t)"
    and red: "\<not> black sr"
  defines "T \<equiv> plug (FR (Br sr s True sk sd sl) p pb pk pd # c) t"
    and "T' \<equiv> plug c (Br (paint True sr) s pb sk sd (Br sl p True pk pd t))"
  shows "\<exists>h'. becomes h T h' T' \<and> delete_balance_right h (root T) p = Some (h', root T', root T')"
proof -
  obtain n where n: "deref h p = Some n" "pLeft n = s" "isBlack n = pb" using frame_right [OF T] by auto
  have S: "holds h (plug (FL p pb pk pd t # c) (Br sr s True sk sd sl))" using T by simp
  have sib: "null_or_black h s = Some True" "s \<noteq> 0" using null_or_black_plug [OF S] hole_0 [OF S] by auto
  obtain m where m: "deref h s = Some m" "pRight m = root sl" "pLeft m = root sr" using holds_node [OF S] by auto
  have kids: "null_or_black h (root sl) = Some (black sl)" "null_or_black h (root sr) = Some False"
    using null_or_black_plug [of h "FR sr s True sk sd # FL p pb pk pd t # c" sl]
      null_or_black_plug [of h "FL s True sk sd sl # FL p pb pk pd t # c" sr] T red by auto
  obtain h1 h2 m' h3 h4 where st: "upd h s (set_black pb) = Some h1" "upd h1 p (set_black True) = Some h2"
    "deref h2 s = Some m'" "blacken h2 (pLeft m') = Some h3"
    "rightRotate h3 (root T) p = Some (h4, root T')" "becomes h T h4 T'"
    using delete_outer_right_steps [of h c sr s True sk sd sl p pb pk pd t] T unfolding T_def T'_def by auto
  have "delete_balance_right h (root T) p = Some (h4, root T', root T')"
    unfolding delete_balance_right_def by (simp add: n sib m kids st Let_def)
  then show ?thesis using st(6) by blast
qed

lemma delete_inner_right:
  assumes T: "holds h (plug (FR (Br sr s True sk sd (Br v q qb qk qd u)) p pb pk pd # c) t)"
    and red: "\<not> qb" "black sr"
  defines "T \<equiv> plug (FR (Br sr s True sk sd (Br v q qb qk qd u)) p pb pk pd # c) t"
    and "T' \<equiv> plug c (Br (Br sr s True sk sd v) q pb qk qd (Br u p True pk pd t))"
  shows "\<exists>h'. becomes h T h' T' \<and> delete_balance_right h (root T) p = Some (h', root T', root T')"
proof -
  let ?sl = "Br v q qb qk qd u"
  obtain n where n: "deref h p = Some n" "pLeft n = s" "isBlack n = pb" using frame_right [OF T] by auto
  have S: "holds h (plug (FL p pb pk pd t # c) (Br sr s True sk sd ?sl))" using T by simp
  have sib: "null_or_black h s = Some True" "s \<noteq> 0" using null_or_black_plug [OF S] hole_0 [OF S] by auto
  obtain m where m: "deref h s = Some m" "pRight m = q" "pLeft m = root sr" using holds_node [OF S] by auto
  have kids: "null_or_black h q = Some False" "null_or_black h (root sr) = Some True"
    using null_or_black_plug [of h "FR sr s True sk sd # FL p pb pk pd t # c" ?sl]
      null_or_black_plug [of h "FL s True sk sd ?sl # FL p pb pk pd t # c" sr] T red by auto
  obtain a1 where a1: "blacken h q = Some a1" "becomes h T a1 (plug (FL p pb pk pd t # c) (Br sr s True sk sd (Br v q True qk qd u)))"
    using blacken_plug [of h "FR sr s True sk sd # FL p pb pk pd t # c" ?sl] T unfolding T_def by auto
  obtain a2 where a2: "upd a1 s (set_black False) = Some a2"
    "becomes a1 (plug (FL p pb pk pd t # c) (Br sr s True sk sd (Br v q True qk qd u))) a2
       (plug (FL p pb pk pd t # c) (Br sr s False sk sd (Br v q True qk qd u)))"
    using set_black_plug [OF becomes_holds [OF a1(2)]] by blast
  let ?T3 = "plug c (Br (Br (Br sr s False sk sd v) q True qk qd u) p pb pk pd t)"
  have hd: "root (plug (FL p pb pk pd t # c) (Br sr s False sk sd (Br v q True qk qd u))) = root T" "root T = root ?T3"
    by (simp_all add: T_def root_plug)
  obtain a3 where a3: "leftRotate a2 (root T) s = Some (a3, root ?T3)"
    "becomes a2 (plug (FL p pb pk pd t # c) (Br sr s False sk sd (Br v q True qk qd u))) a3 ?T3"
    using leftRotate_plug [OF becomes_holds [OF a2(2)]] unfolding hd(1) by auto
  obtain n' where n': "deref a3 p = Some n'" "pLeft n' = q" "isBlack n' = pb"
    using frame_right [of a3 _ p pb pk pd c t] becomes_holds [OF a3(2)] by fastforce
  obtain h1 h2 m' h3 h4 where st: "upd a3 q (set_black pb) = Some h1" "upd h1 p (set_black True) = Some h2"
    "deref h2 q = Some m'" "blacken h2 (pLeft m') = Some h3"
    "rightRotate h3 (root ?T3) p = Some (h4, root T')" "becomes a3 ?T3 h4 T'"
    using delete_outer_right_steps [OF becomes_holds [OF a3(2)]] unfolding T'_def by auto
  have q: "q \<noteq> 0" using hole_0 [of h "FR sr s True sk sd # FL p pb pk pd t # c" ?sl] T by simp
  have "delete_balance_right h (root T) p = Some (h4, root T', root T')"
    unfolding delete_balance_right_def by (simp add: n sib m kids a1 a2 a3 n' st Let_def)
  then show ?thesis using becomes_trans [OF a1(2) becomes_trans [OF a2(2) becomes_trans [OF a3(2) st(6)]]] by blast
qed


text \<open>
  The hole of the loop: its tree lacks one black node, or its root is red and will be painted
  black.
\<close>

definition dinv :: "rbframe list \<Rightarrow> rbtree \<Rightarrow> bool" where
  "dinv c t \<longleftrightarrow> rbinv (paint True t) \<and> crb c (bh t + 1) True"

lemma rbinv_paint_black: "black t \<Longrightarrow> rbinv (paint True t) = rbinv t"
  by (simp add: paint_same)

lemma dinv_root: "rbinv (plug c t) \<Longrightarrow> dinv [] (plug c t)"
  by (simp add: dinv_def)

lemma delete_left_black:
  assumes T: "holds h (plug (FL p pb pk pd (Br sl s True sk sd sr) # c) t)"
    and t: "black t" "dinv (FL p pb pk pd (Br sl s True sk sd sr) # c) t"
  defines "T \<equiv> plug (FL p pb pk pd (Br sl s True sk sd sr) # c) t"
  shows "\<exists>h' c' t'. delete_balance_left h (root T) p = Some (h', root (plug c' t'), root t') \<and>
    becomes h T h' (plug c' t') \<and> nodes (plug c' t') = nodes T \<and> dinv c' t' \<and> t' \<noteq> Lf \<and>
    (c' = [] \<or> c' = c \<and> black t' = pb)"
proof -
  have inv: "rbinv t" "rbinv sl" "rbinv sr" "bh sl = bh t" "bh sr = bh t" "crb c (bh t + 1 + (if pb then 1 else 0)) pb"
    using t by (auto simp: dinv_def rbinv_paint_black)
  show ?thesis
  proof (cases "black sl \<and> black sr")
    case True
    let ?t = "Br t p pb pk pd (Br sl s False sk sd sr)"
    obtain h' where "becomes h T h' (plug c ?t)" "delete_balance_left h (root T) p = Some (h', root (plug c ?t), p)"
      using delete_recolour_left [OF T] True unfolding T_def by blast
    moreover have "dinv c ?t" using inv True t by (cases c) (auto simp: dinv_def split: if_splits)
    ultimately show ?thesis
      by (intro exI [of _ h'] exI [of _ c] exI [of _ ?t]) (simp add: T_def nodes_plug)
  next
    case red: False
    have "\<exists>h' T'. becomes h T h' T' \<and> delete_balance_left h (root T) p = Some (h', root T', root T') \<and>
      nodes T' = nodes T \<and> rbinv T' \<and> T' \<noteq> Lf"
    proof (cases "black sr")
      case True
      then obtain u q qk qd v where sl: "sl = Br u q False qk qd v" using red by (cases sl) auto
      let ?t = "Br (Br t p True pk pd u) q pb qk qd (Br v s True sk sd sr)"
      obtain h' where "becomes h T h' (plug c ?t)" "delete_balance_left h (root T) p = Some (h', root (plug c ?t), root (plug c ?t))"
        using delete_inner_left [OF T [unfolded sl] _ True] unfolding T_def sl by auto
      moreover have "rbinv (plug c ?t)" using rbinv_plug [of c ?t] inv sl t True by auto
      moreover have "plug c ?t \<noteq> Lf" using nodes_plug [of c ?t] by auto
      ultimately show ?thesis by (intro exI [of _ h'] exI [of _ "plug c ?t"]) (simp add: T_def nodes_plug sl)
    next
      case False
      let ?t = "Br (Br t p True pk pd sl) s pb sk sd (paint True sr)"
      obtain h' where "becomes h T h' (plug c ?t)" "delete_balance_left h (root T) p = Some (h', root (plug c ?t), root (plug c ?t))"
        using delete_outer_left [OF T False] unfolding T_def by blast
      moreover have "rbinv (plug c ?t)" using rbinv_plug [of c ?t] inv t False by (auto simp: bh_paint)
      moreover have "plug c ?t \<noteq> Lf" using nodes_plug [of c ?t] by auto
      ultimately show ?thesis by (intro exI [of _ h'] exI [of _ "plug c ?t"]) (simp add: T_def nodes_plug)
    qed
    then obtain h' T' where "becomes h T h' T'" "delete_balance_left h (root T) p = Some (h', root T', root T')"
      "nodes T' = nodes T" "rbinv T'" "T' \<noteq> Lf" by blast
    then show ?thesis by (intro exI [of _ h'] exI [of _ "[]"] exI [of _ T']) (simp add: dinv_def)
  qed
qed

lemma delete_left_step:
  assumes T: "holds h (plug (FL p pb pk pd s # c) t)" and t: "black t" "dinv (FL p pb pk pd s # c) t"
  defines "T \<equiv> plug (FL p pb pk pd s # c) t"
  shows "\<exists>h' c' t'. delete_balance_left h (root T) p = Some (h', root (plug c' t'), root t') \<and>
    becomes h T h' (plug c' t') \<and> nodes (plug c' t') = nodes T \<and> dinv c' t' \<and> t' \<noteq> Lf \<and>
    (c' = [] \<or> \<not> black t' \<or> c' = c)"
proof -
  have "s \<noteq> Lf" using t by (auto simp: dinv_def)
  then obtain sl sa sb sk sd sr where s: "s = Br sl sa sb sk sd sr" by (cases s) auto
  show ?thesis
  proof (cases sb)
    case True
    then have s': "s = Br sl sa True sk sd sr" using s by simp
    show ?thesis using delete_left_black [OF T [unfolded s']] t unfolding s' T_def by blast
  next
    case False
    have inv: "pb" "black sl" "black sr" "rbinv sl" "rbinv sr" "bh sl = bh t + 1" "bh sr = bh t + 1" "rbinv t" "crb c (bh t + 2) True"
      using t False s by (auto simp: dinv_def rbinv_paint_black)
    then obtain ul ua uk ud ur where sl: "sl = Br ul ua True uk ud ur" by (cases sl) auto
    let ?c = "FL sa True sk sd sr # c"
    let ?T = "plug (FL p False pk pd sl # ?c) t"
    obtain h1 where h1: "becomes h T h1 ?T" "delete_balance_left h (root T) p = delete_balance_left h1 (root ?T) p"
      using delete_red_left [of h p pk pd sl sa sk sd sr c t] T inv False s sl unfolding T_def by auto
    have "dinv (FL p False pk pd sl # ?c) t" using inv t by (simp add: dinv_def rbinv_paint_black)
    then obtain h2 c' t' where h2: "delete_balance_left h1 (root ?T) p = Some (h2, root (plug c' t'), root t')"
      "becomes h1 ?T h2 (plug c' t')" "nodes (plug c' t') = nodes ?T" "dinv c' t'" "t' \<noteq> Lf"
      "c' = [] \<or> c' = ?c \<and> black t' = False"
      using delete_left_black [of h1 p False pk pd ul ua uk ud ur ?c t] becomes_holds [OF h1(1)] t(1) unfolding sl by blast
    have "nodes ?T = nodes T" by (simp add: T_def nodes_plug s)
    then show ?thesis using h1(2) h2 becomes_trans [OF h1(1) h2(2)]
      by (intro exI [of _ h2] exI [of _ c'] exI [of _ t']) auto
  qed
qed

lemma delete_right_black:
  assumes T: "holds h (plug (FR (Br sr s True sk sd sl) p pb pk pd # c) t)"
    and t: "black t" "dinv (FR (Br sr s True sk sd sl) p pb pk pd # c) t"
  defines "T \<equiv> plug (FR (Br sr s True sk sd sl) p pb pk pd # c) t"
  shows "\<exists>h' c' t'. delete_balance_right h (root T) p = Some (h', root (plug c' t'), root t') \<and>
    becomes h T h' (plug c' t') \<and> nodes (plug c' t') = nodes T \<and> dinv c' t' \<and> t' \<noteq> Lf \<and>
    (c' = [] \<or> c' = c \<and> black t' = pb)"
proof -
  have inv: "rbinv t" "rbinv sl" "rbinv sr" "bh sl = bh t" "bh sr = bh t" "crb c (bh t + 1 + (if pb then 1 else 0)) pb"
    using t by (auto simp: dinv_def rbinv_paint_black)
  show ?thesis
  proof (cases "black sl \<and> black sr")
    case True
    let ?t = "Br (Br sr s False sk sd sl) p pb pk pd t"
    obtain h' where "becomes h T h' (plug c ?t)" "delete_balance_right h (root T) p = Some (h', root (plug c ?t), p)"
      using delete_recolour_right [OF T] True unfolding T_def by blast
    moreover have "dinv c ?t" using inv True t by (cases c) (auto simp: dinv_def split: if_splits)
    ultimately show ?thesis
      by (intro exI [of _ h'] exI [of _ c] exI [of _ ?t]) (simp add: T_def nodes_plug)
  next
    case red: False
    have "\<exists>h' T'. becomes h T h' T' \<and> delete_balance_right h (root T) p = Some (h', root T', root T') \<and>
      nodes T' = nodes T \<and> rbinv T' \<and> T' \<noteq> Lf"
    proof (cases "black sr")
      case True
      then obtain u q qk qd v where sl: "sl = Br v q False qk qd u" using red by (cases sl) auto
      let ?t = "Br (Br sr s True sk sd v) q pb qk qd (Br u p True pk pd t)"
      obtain h' where "becomes h T h' (plug c ?t)" "delete_balance_right h (root T) p = Some (h', root (plug c ?t), root (plug c ?t))"
        using delete_inner_right [OF T [unfolded sl] _ True] unfolding T_def sl by auto
      moreover have "rbinv (plug c ?t)" using rbinv_plug [of c ?t] inv sl t True by auto
      moreover have "plug c ?t \<noteq> Lf" using nodes_plug [of c ?t] by auto
      ultimately show ?thesis by (intro exI [of _ h'] exI [of _ "plug c ?t"]) (simp add: T_def nodes_plug sl)
    next
      case False
      let ?t = "Br (paint True sr) s pb sk sd (Br sl p True pk pd t)"
      obtain h' where "becomes h T h' (plug c ?t)" "delete_balance_right h (root T) p = Some (h', root (plug c ?t), root (plug c ?t))"
        using delete_outer_right [OF T False] unfolding T_def by blast
      moreover have "rbinv (plug c ?t)" using rbinv_plug [of c ?t] inv t False by (auto simp: bh_paint)
      moreover have "plug c ?t \<noteq> Lf" using nodes_plug [of c ?t] by auto
      ultimately show ?thesis by (intro exI [of _ h'] exI [of _ "plug c ?t"]) (simp add: T_def nodes_plug)
    qed
    then obtain h' T' where "becomes h T h' T'" "delete_balance_right h (root T) p = Some (h', root T', root T')"
      "nodes T' = nodes T" "rbinv T'" "T' \<noteq> Lf" by blast
    then show ?thesis by (intro exI [of _ h'] exI [of _ "[]"] exI [of _ T']) (simp add: dinv_def)
  qed
qed

lemma delete_right_step:
  assumes T: "holds h (plug (FR s p pb pk pd # c) t)" and t: "black t" "dinv (FR s p pb pk pd # c) t"
  defines "T \<equiv> plug (FR s p pb pk pd # c) t"
  shows "\<exists>h' c' t'. delete_balance_right h (root T) p = Some (h', root (plug c' t'), root t') \<and>
    becomes h T h' (plug c' t') \<and> nodes (plug c' t') = nodes T \<and> dinv c' t' \<and> t' \<noteq> Lf \<and>
    (c' = [] \<or> \<not> black t' \<or> c' = c)"
proof -
  have "s \<noteq> Lf" using t by (auto simp: dinv_def)
  then obtain sl sa sb sk sd sr where s: "s = Br sr sa sb sk sd sl" by (cases s) auto
  show ?thesis
  proof (cases sb)
    case True
    then have s': "s = Br sr sa True sk sd sl" using s by simp
    show ?thesis using delete_right_black [OF T [unfolded s']] t unfolding s' T_def by blast
  next
    case False
    have inv: "pb" "black sl" "black sr" "rbinv sl" "rbinv sr" "bh sl = bh t + 1" "bh sr = bh t + 1" "rbinv t" "crb c (bh t + 2) True"
      using t False s by (auto simp: dinv_def rbinv_paint_black)
    then obtain ul ua uk ud ur where sl: "sl = Br ur ua True uk ud ul" by (cases sl) auto
    let ?c = "FR sr sa True sk sd # c"
    let ?T = "plug (FR sl p False pk pd # ?c) t"
    obtain h1 where h1: "becomes h T h1 ?T" "delete_balance_right h (root T) p = delete_balance_right h1 (root ?T) p"
      using delete_red_right [of h sr sa sk sd sl p pk pd c t] T inv False s sl unfolding T_def by auto
    have "dinv (FR sl p False pk pd # ?c) t" using inv t by (simp add: dinv_def rbinv_paint_black)
    then obtain h2 c' t' where h2: "delete_balance_right h1 (root ?T) p = Some (h2, root (plug c' t'), root t')"
      "becomes h1 ?T h2 (plug c' t')" "nodes (plug c' t') = nodes ?T" "dinv c' t'" "t' \<noteq> Lf"
      "c' = [] \<or> c' = ?c \<and> black t' = False"
      using delete_right_black [of h1 ur ua uk ud ul p False pk pd ?c t] becomes_holds [OF h1(1)] t(1) unfolding sl by blast
    have "nodes ?T = nodes T" by (simp add: T_def nodes_plug s)
    then show ?thesis using h1(2) h2 becomes_trans [OF h1(1) h2(2)]
      by (intro exI [of _ h2] exI [of _ c'] exI [of _ t']) auto
  qed
qed


lemma delete_exit:
  assumes T: "holds h (plug c t)" and e: "c = [] \<or> \<not> black t"
  shows "delete_balance_loop h (root (plug c t)) (root t) q = Some (h, root (plug c t), root t)"
  using assms null_or_black_plug [OF T] by (subst delete_balance_loop.simps) auto

lemma plug_root_neq: "holds h (plug c t) \<Longrightarrow> c \<noteq> [] \<Longrightarrow> root t \<noteq> root (plug c t)"
  using croot_self [of h c t] holds_root_0 [of h "[]" "plug c t"] nodes_plug [of c t]
  by (cases "t = Lf") (auto simp: root_plug, metis addrs_nodes append_is_Nil_conv holds_def list.map_disc_iff
      set_addrs_plug list.set(1) croot_in empty_iff Un_empty nodes.simps(1) holds_root_0 plug.simps(1) root_plug root.simps(1))

lemma delete_balance_ok:
  assumes "holds h (plug c t)" "dinv c t"
  shows "\<exists>h' c' t'. delete_balance_loop h (root (plug c t)) (root t) (cpar c) = Some (h', root (plug c' t'), root t') \<and>
    becomes h (plug c t) h' (plug c' t') \<and> nodes (plug c' t') = nodes (plug c t) \<and> dinv c' t' \<and> (c' = [] \<or> \<not> black t')"
  using assms
proof (induction c arbitrary: h t)
  case Nil
  then show ?case using delete_exit [of h "[]" t] becomes_refl by (intro exI [of _ h] exI [of _ "[]"] exI [of _ t]) auto
next
  case (Cons f c)
  note T = Cons.prems(1)
  show ?case
  proof (cases "black t")
    case False
    then show ?thesis
      using delete_exit [OF T] becomes_refl [OF T] Cons.prems(2) by (intro exI [of _ h] exI [of _ "f # c"] exI [of _ t]) auto
  next
    case True
    obtain fn where fn: "deref h (fr_addr f) = Some fn"
      "pLeft fn = (case f of FL a b k d r \<Rightarrow> root t | FR l a b k d \<Rightarrow> root l)"
      using frame_node [OF T] by blast
    have sib: "root t \<noteq> root (fsib f)"
    proof (cases "t = Lf")
      case True
      then have "fsib f \<noteq> Lf" using Cons.prems(2) by (auto simp: dinv_def)
      then show ?thesis using sib_0 [OF T] True by simp
    qed (rule hole_sib [OF T])
    obtain h1 c1 t1 where s: "(if root t = pLeft fn then delete_balance_left h (root (plug (f # c) t)) (fr_addr f)
        else delete_balance_right h (root (plug (f # c) t)) (fr_addr f)) = Some (h1, root (plug c1 t1), root t1)"
      "becomes h (plug (f # c) t) h1 (plug c1 t1)" "nodes (plug c1 t1) = nodes (plug (f # c) t)" "dinv c1 t1" "t1 \<noteq> Lf"
      "c1 = [] \<or> \<not> black t1 \<or> c1 = c"
    proof (cases f)
      case (FL a b k d r)
      then show thesis
        using that delete_left_step [of h a b k d r c t] T True Cons.prems(2) fn(2) by (simp del: plug.simps) blast
    next
      case (FR l a b k d)
      then show thesis
        using that delete_right_step [of h l a b k d c t] T True Cons.prems(2) fn(2) sib by (simp del: plug.simps) blast
    qed
    obtain n1 where n1: "deref h1 (root t1) = Some n1" "pParent n1 = cpar c1"
      using hole_node [OF becomes_holds [OF s(2)] s(5)] by auto
    have step: "delete_balance_loop h (root (plug (f # c) t)) (root t) (fr_addr f) =
        delete_balance_loop h1 (root (plug c1 t1)) (root t1) (cpar c1)"
      using plug_root_neq [OF T] null_or_black_plug [OF T] True
      by (subst delete_balance_loop.simps) (simp add: fn(1) s(1) n1 del: plug.simps)
    obtain h2 c2 t2 where "delete_balance_loop h1 (root (plug c1 t1)) (root t1) (cpar c1) = Some (h2, root (plug c2 t2), root t2)"
      "becomes h1 (plug c1 t1) h2 (plug c2 t2)" "nodes (plug c2 t2) = nodes (plug c1 t1)" "dinv c2 t2" "c2 = [] \<or> \<not> black t2"
    proof (cases "c1 = [] \<or> \<not> black t1")
      case True
      then show thesis
        using that delete_exit [OF becomes_holds [OF s(2)] True] becomes_refl [OF becomes_holds [OF s(2)]] s(4) by blast
    next
      case False
      then show thesis using that Cons.IH [of h1 t1] becomes_holds [OF s(2)] s(4,6) by blast
    qed
    then show ?thesis using step s(3) becomes_trans [OF s(2)]
      by (intro exI [of _ h2] exI [of _ c2] exI [of _ t2]) (simp del: plug.simps)
  qed
qed

lemma do_delete_balancing_ok:
  assumes "holds h (plug c t)" "dinv c t"
  shows "\<exists>h' T'. do_delete_balancing h (root (plug c t)) (root t) (cpar c) = Some (h', root T') \<and>
    becomes h (plug c t) h' T' \<and> nodes T' = nodes (plug c t) \<and> rbinv T' \<and> black T'"
proof -
  obtain h1 c' t' where 1: "delete_balance_loop h (root (plug c t)) (root t) (cpar c) = Some (h1, root (plug c' t'), root t')"
    "becomes h (plug c t) h1 (plug c' t')" "nodes (plug c' t') = nodes (plug c t)" "dinv c' t'" "c' = [] \<or> \<not> black t'"
    using delete_balance_ok [OF assms] by blast
  obtain h2 where 2: "blacken h1 (root t') = Some h2" "becomes h1 (plug c' t') h2 (plug c' (paint True t'))"
    using blacken_plug [OF becomes_holds [OF 1(2)]] by blast
  have "rbinv (plug c' (paint True t')) \<and> black (plug c' (paint True t'))"
    using 1(4,5) rbinv_plug [of c' "paint True t'"] by (auto simp: dinv_def bh_paint)
  moreover have "root (plug c' (paint True t')) = root (plug c' t')" by (simp add: root_plug)
  moreover have "nodes (plug c' (paint True t')) = nodes (plug c' t')" by (simp add: nodes_plug)
  ultimately show ?thesis
    using 1 2 becomes_trans [OF 1(2) 2(2)]
    by (intro exI [of _ h2] exI [of _ "plug c' (paint True t')"]) (simp add: do_delete_balancing_def)
qed

end
