(* ===== verification/RbWalk.thy ===== *)
theory RbWalk
  imports RbDelete
begin

text \<open>
  The walks of \<^verbatim>\<open>sqlite/btree_rb.c\<close> through a tree: the search of
  \<^verbatim>\<open>memRbtreeMoveto\<close>, the steps of \<^verbatim>\<open>memRbtreeNext\<close> and
  \<^verbatim>\<open>memRbtreePrevious\<close>, and the splicing of a node out of the tree by
  \<^verbatim>\<open>memRbtreeDelete\<close>. They are stated on the heap and the node a cursor points to;
  the lemmas relate them to the entries of the tree in key order.
\<close>

section \<open>The walks\<close>

partial_function (option) leftmost :: "rb_heap \<Rightarrow> ptr \<Rightarrow> ptr option" where
  \<comment> \<open>while( pNode->pLeft ) pNode = pNode->pLeft\<close>
  "leftmost h p = do { n \<leftarrow> deref h p; if pLeft n \<noteq> 0 then leftmost h (pLeft n) else Some p }"

partial_function (option) rightmost :: "rb_heap \<Rightarrow> ptr \<Rightarrow> ptr option" where
  "rightmost h p = do { n \<leftarrow> deref h p; if pRight n \<noteq> 0 then rightmost h (pRight n) else Some p }"

partial_function (option) up_right :: "rb_heap \<Rightarrow> ptr \<Rightarrow> ptr \<Rightarrow> ptr option" where
  \<comment> \<open>while( pNode \&\& pNode->pRight == pX ): the node left of which the walk came up, or NULL\<close>
  "up_right h p x =
     (if p = 0 then Some 0
      else do { n \<leftarrow> deref h p; if pRight n = x then up_right h (pParent n) p else Some p })"

partial_function (option) up_left :: "rb_heap \<Rightarrow> ptr \<Rightarrow> ptr \<Rightarrow> ptr option" where
  "up_left h p x =
     (if p = 0 then Some 0
      else do { n \<leftarrow> deref h p; if pLeft n = x then up_left h (pParent n) p else Some p })"

definition next_node :: "rb_heap \<Rightarrow> ptr \<Rightarrow> ptr option" where
  "next_node h p = do {
     n \<leftarrow> deref h p;
     if pRight n \<noteq> 0 then leftmost h (pRight n) else up_right h (pParent n) p }"

definition prev_node :: "rb_heap \<Rightarrow> ptr \<Rightarrow> ptr option" where
  "prev_node h p = do {
     n \<leftarrow> deref h p;
     if pLeft n \<noteq> 0 then rightmost h (pLeft n) else up_left h (pParent n) p }"

partial_function (option) moveto_loop :: "rb_heap \<Rightarrow> bytes \<Rightarrow> ptr \<Rightarrow> ptr \<Rightarrow> int \<Rightarrow> (ptr \<times> int) option" where
  \<comment> \<open>while( pCur->pNode \&\& *pRes ), with \<open>pTmp\<close>, and the assignment behind the loop\<close>
  "moveto_loop h key p tmp res =
     (if p \<noteq> 0 \<and> res \<noteq> 0 then do {
        n \<leftarrow> deref h p;
        let r = key_compare (RbTree.pKey n) key;
        moveto_loop h key (if r = 1 then pLeft n else if r = -1 then pRight n else p) p r }
      else Some (if p = 0 then tmp else p, res))"

definition moveto :: "rb_heap \<Rightarrow> ptr \<Rightarrow> bytes \<Rightarrow> (ptr \<times> int) option" where
  "moveto h pHead key = moveto_loop h key pHead 0 (-1)"

definition splice :: "rb_heap \<Rightarrow> ptr \<Rightarrow> ptr \<Rightarrow> (rb_heap \<times> ptr \<times> ptr \<times> rb_node) option" where
  \<comment> \<open>the spliced tree, its head, \<open>pChild\<close> and the node \<open>pZ\<close>\<close>
  "splice h pHead pZ = do {
     z \<leftarrow> deref h pZ;
     assertion (pLeft z = 0 \<or> pRight z = 0);
     let pChild = (if pLeft z \<noteq> 0 then pLeft z else pRight z);
     (h, pHead) \<leftarrow>
       (if pParent z \<noteq> 0 then do {
          q \<leftarrow> deref h (pParent z);
          assertion (pZ = pLeft q \<or> pZ = pRight q);
          h \<leftarrow> (if pZ = pLeft q then upd h (pParent z) (set_left pChild) else upd h (pParent z) (set_right pChild));
          Some (h, pHead) }
        else Some (h, pChild));
     h \<leftarrow> (if pChild \<noteq> 0 then upd h pChild (set_parent (pParent z)) else Some h);
     Some (h, pHead, pChild, z) }"

section \<open>Walking in key order\<close>

abbreviation first_addr :: "(ptr \<times> bytes \<times> bytes) list \<Rightarrow> ptr" where
  "first_addr xs \<equiv> (case xs of [] \<Rightarrow> 0 | x # _ \<Rightarrow> fst x)"

abbreviation last_addr :: "(ptr \<times> bytes \<times> bytes) list \<Rightarrow> ptr" where
  "last_addr xs \<equiv> (if xs = [] then 0 else fst (last xs))"

lemma nodes_Lf [simp]: "nodes t = [] \<longleftrightarrow> t = Lf"
  by (cases t) auto

lemma leftmost_plug: "holds h (plug c t) \<Longrightarrow> t \<noteq> Lf \<Longrightarrow> leftmost h (root t) = Some (first_addr (nodes t))"
proof (induction t arbitrary: c)
  case (Br l a b k d r)
  obtain n where n: "deref h a = Some n" "pLeft n = root l" using holds_node [OF Br.prems(1)] by auto
  have l: "holds h (plug (FL a b k d r # c) l)" using Br.prems by simp
  show ?case
  proof (cases "l = Lf")
    case True
    then show ?thesis by (subst leftmost.simps) (simp add: n)
  next
    case False
    then show ?thesis using Br.IH(1) [OF l] hole_0 [OF l]
      by (subst leftmost.simps) (simp add: n split: list.splits)
  qed
qed simp

lemma rightmost_plug: "holds h (plug c t) \<Longrightarrow> t \<noteq> Lf \<Longrightarrow> rightmost h (root t) = Some (last_addr (nodes t))"
proof (induction t arbitrary: c)
  case (Br l a b k d r)
  obtain n where n: "deref h a = Some n" "pRight n = root r" using holds_node [OF Br.prems(1)] by auto
  have r: "holds h (plug (FR l a b k d # c) r)" using Br.prems by simp
  show ?case
  proof (cases "r = Lf")
    case True
    then show ?thesis by (subst rightmost.simps) (simp add: n)
  next
    case False
    then show ?thesis using Br.IH(2) [OF r] hole_0 [OF r]
      by (subst rightmost.simps) (simp add: n)
  qed
qed simp

lemma up_right_plug: "holds h (plug c t) \<Longrightarrow> t \<noteq> Lf \<Longrightarrow> up_right h (cpar c) (root t) = Some (first_addr (cright c))"
proof (induction c arbitrary: t)
  case Nil
  then show ?case by (subst up_right.simps) simp
next
  case (Cons f c)
  note T = Cons.prems(1)
  have up: "holds h (plug c (fill f t))" using T by simp
  have z: "fr_addr f \<noteq> 0" using hole_0 [OF up] by (cases f) auto
  show ?case
  proof (cases f)
    case (FL a b k d r)
    then show ?thesis using frame_node [OF T] hole_sib [OF T Cons.prems(2)] z by (subst up_right.simps) auto
  next
    case (FR l a b k d)
    then show ?thesis using frame_node [OF T] Cons.IH [OF up] z by (subst up_right.simps) auto
  qed
qed

lemma up_left_plug: "holds h (plug c t) \<Longrightarrow> t \<noteq> Lf \<Longrightarrow> up_left h (cpar c) (root t) = Some (last_addr (cleft c))"
proof (induction c arbitrary: t)
  case Nil
  then show ?case by (subst up_left.simps) simp
next
  case (Cons f c)
  note T = Cons.prems(1)
  have up: "holds h (plug c (fill f t))" using T by simp
  have z: "fr_addr f \<noteq> 0" using hole_0 [OF up] by (cases f) auto
  show ?case
  proof (cases f)
    case (FL a b k d r)
    then show ?thesis using frame_node [OF T] Cons.IH [OF up] z by (subst up_left.simps) auto
  next
    case (FR l a b k d)
    then show ?thesis using frame_node [OF T] hole_sib [OF T Cons.prems(2)] z by (subst up_left.simps) auto
  qed
qed

lemma next_node_plug:
  assumes T: "holds h (plug c (Br l a b k d r))"
  shows "next_node h a = Some (first_addr (nodes r @ cright c))"
proof -
  obtain n where n: "deref h a = Some n" "pRight n = root r" "pParent n = cpar c" using holds_node [OF T] by auto
  have r: "holds h (plug (FR l a b k d # c) r)" using T by simp
  show ?thesis
  proof (cases "r = Lf")
    case True
    then show ?thesis using up_right_plug [OF T] by (simp add: next_node_def n)
  next
    case False
    then show ?thesis using leftmost_plug [OF r] hole_0 [OF r] by (simp add: next_node_def n split: list.splits)
  qed
qed

lemma prev_node_plug:
  assumes T: "holds h (plug c (Br l a b k d r))"
  shows "prev_node h a = Some (last_addr (cleft c @ nodes l))"
proof -
  obtain n where n: "deref h a = Some n" "pLeft n = root l" "pParent n = cpar c" using holds_node [OF T] by auto
  have l: "holds h (plug (FL a b k d r # c) l)" using T by simp
  show ?thesis
  proof (cases "l = Lf")
    case True
    then show ?thesis using up_left_plug [OF T] by (simp add: prev_node_def n)
  next
    case False
    then show ?thesis using rightmost_plug [OF l] hole_0 [OF l] by (simp add: prev_node_def n)
  qed
qed

text \<open>Every node of a tree has a context.\<close>

lemma node_context: "x \<in> set (nodes t) \<Longrightarrow> \<exists>c l b r. t = plug c (Br l (fst x) b (fst (snd x)) (snd (snd x)) r)"
proof (induction t)
  case (Br l a b k d r)
  have app: "plug (c @ [f]) t = fill f (plug c t)" for c f t by (induction c arbitrary: t) auto
  from Br.prems consider "x \<in> set (nodes l)" | "x = (a, k, d)" | "x \<in> set (nodes r)" by auto
  then show ?case
  proof cases
    case 1
    then obtain c l' b' r' where "l = plug c (Br l' (fst x) b' (fst (snd x)) (snd (snd x)) r')" using Br.IH(1) by blast
    then have "Br l a b k d r = plug (c @ [FL a b k d r]) (Br l' (fst x) b' (fst (snd x)) (snd (snd x)) r')" by (simp add: app)
    then show ?thesis by blast
  next
    case 2
    then have "Br l a b k d r = plug [] (Br l (fst x) b (fst (snd x)) (snd (snd x)) r)" by simp
    then show ?thesis by blast
  next
    case 3
    then obtain c l' b' r' where "r = plug c (Br l' (fst x) b' (fst (snd x)) (snd (snd x)) r')" using Br.IH(2) by blast
    then have "Br l a b k d r = plug (c @ [FR l a b k d]) (Br l' (fst x) b' (fst (snd x)) (snd (snd x)) r')" by (simp add: app)
    then show ?thesis by blast
  qed
qed simp


section \<open>The key order\<close>

text \<open>\<open>key_compare\<close> is the lexicographic order of byte strings.\<close>

lemma memcmp_less:
  "k1 < k2 \<longleftrightarrow> memcmp k1 k2 (min (length k1) (length k2)) < 0 \<or>
     memcmp k1 k2 (min (length k1) (length k2)) = 0 \<and> length k1 < length k2"
proof (induction k1 arbitrary: k2)
  case Nil
  then show ?case by (cases k2) auto
next
  case (Cons a k1)
  then show ?case by (cases k2) (auto simp: less_char_def)
qed

lemma memcmp_0: "memcmp k1 k2 (min (length k1) (length k2)) = 0 \<and> length k1 = length k2 \<longleftrightarrow> k1 = k2"
proof (induction k1 arbitrary: k2)
  case Nil
  then show ?case by (cases k2) auto
next
  case (Cons a k1)
  then show ?case by (cases k2) auto
qed

lemma key_compare_order: "key_compare k1 k2 = (if k1 < k2 then -1 else if k1 = k2 then 0 else 1)"
proof -
  have "(if length k1 \<le> length k2 then length k1 else length k2) = min (length k1) (length k2)" by auto
  then show ?thesis
    using memcmp_less [of k1 k2] memcmp_less [of k2 k1] memcmp_0 [of k1 k2]
    unfolding key_compare_def Let_def by auto
qed

section \<open>The search\<close>

abbreviation keys :: "(ptr \<times> bytes \<times> bytes) list \<Rightarrow> bytes list" where
  "keys \<equiv> map (\<lambda>x. fst (snd x))"

definition ksorted :: "rbtree \<Rightarrow> bool" where
  "ksorted t \<longleftrightarrow> sorted_wrt (<) (keys (nodes t))"

text \<open>
  The search ends at the node that holds the key, or at the parent of the hole where the key
  belongs, with the side of the hole in the result.
\<close>

definition hole_dir :: "rbframe list \<Rightarrow> int" where
  "hole_dir c = (case c of FL a b k d r # _ \<Rightarrow> 1 | _ \<Rightarrow> -1)"

lemma moveto_loop_plug:
  assumes "holds h (plug c t)" "sorted_wrt (<) (keys (nodes t))" "r0 = hole_dir c"
  shows "(\<exists>c' l a b d r. plug c' (Br l a b key d r) = plug c t \<and> moveto_loop h key (root t) (cpar c) r0 = Some (a, 0)) \<or>
    (\<exists>c'. plug c' Lf = plug c t \<and> moveto_loop h key (root t) (cpar c) r0 = Some (cpar c', hole_dir c') \<and>
       (\<exists>xs ys. cleft c' = cleft c @ xs \<and> cright c' = ys @ cright c \<and>
          (\<forall>k\<in>set (keys xs). k < key) \<and> (\<forall>k\<in>set (keys ys). key < k)))"
  using assms
proof (induction t arbitrary: c r0)
  case Lf
  have "moveto_loop h key 0 (cpar c) r0 = Some (cpar c, hole_dir c)"
    using Lf.prems(3) by (subst moveto_loop.simps) simp
  then show ?case by (intro disjI2 exI [of _ c]) simp
next
  case (Br l a b k d r)
  have sorted: "sorted_wrt (<) (keys (nodes l))" "sorted_wrt (<) (keys (nodes r))"
    "\<forall>x\<in>set (keys (nodes l)). x < k" "\<forall>x\<in>set (keys (nodes r)). k < x"
    using Br.prems(2) by (auto simp: sorted_wrt_append)
  obtain n where n: "deref h a = Some n" "pKey n = k" "pLeft n = root l" "pRight n = root r"
    using holds_node [OF Br.prems(1)] by auto
  have nz: "a \<noteq> 0" "r0 \<noteq> 0"
    using hole_0 [OF Br.prems(1)] Br.prems(3) by (auto simp: hole_dir_def split: list.splits rbframe.splits)
  show ?case
  proof (cases key k rule: linorder_cases)
    case equal
    have "moveto_loop h key a (cpar c) r0 = moveto_loop h key a a 0"
      using nz n equal by (subst moveto_loop.simps) (simp add: key_compare_order)
    also have "\<dots> = Some (a, 0)" using nz by (subst moveto_loop.simps) simp
    finally show ?thesis using equal by (intro disjI1 exI [of _ c] exI [of _ l] exI [of _ a]) auto
  next
    case less
    let ?c = "FL a b k d r # c"
    have s: "moveto_loop h key a (cpar c) r0 = moveto_loop h key (root l) (cpar ?c) 1"
      using nz n less by (subst moveto_loop.simps) (auto simp: key_compare_order)
    have "holds h (plug ?c l)" "1 = hole_dir ?c" using Br.prems(1) by (simp_all add: hole_dir_def)
    from Br.IH(1) [OF this(1) sorted(1) this(2)] show ?thesis
    proof (elim disjE exE conjE)
      fix c' l' a' b' d' r' assume "plug c' (Br l' a' b' key d' r') = plug ?c l"
        "moveto_loop h key (root l) (cpar ?c) 1 = Some (a', 0)"
      then show ?thesis using s
        by (intro disjI1 exI [of _ c'] exI [of _ l'] exI [of _ a'] exI [of _ b'] exI [of _ d'] exI [of _ r']) auto
    next
      fix c' xs ys assume e: "plug c' Lf = plug ?c l"
        "moveto_loop h key (root l) (cpar ?c) 1 = Some (cpar c', hole_dir c')"
        "cleft c' = cleft ?c @ xs" "cright c' = ys @ cright ?c" "\<forall>k\<in>set (keys xs). k < key" "\<forall>k\<in>set (keys ys). key < k"
      have "\<forall>x\<in>set (keys (ys @ (a, k, d) # nodes r)). key < x"
        using e(6) less sorted(4) by auto
      then show ?thesis using s e
        by (intro disjI2 exI [of _ c'] conjI exI [of _ xs] exI [of _ "ys @ (a, k, d) # nodes r"]) auto
    qed
  next
    case greater
    let ?c = "FR l a b k d # c"
    have s: "moveto_loop h key a (cpar c) r0 = moveto_loop h key (root r) (cpar ?c) (-1)"
      using nz n greater by (subst moveto_loop.simps) (auto simp: key_compare_order)
    have "holds h (plug ?c r)" "-1 = hole_dir ?c" using Br.prems(1) by (simp_all add: hole_dir_def)
    from Br.IH(2) [OF this(1) sorted(2) this(2)] show ?thesis
    proof (elim disjE exE conjE)
      fix c' l' a' b' d' r' assume "plug c' (Br l' a' b' key d' r') = plug ?c r"
        "moveto_loop h key (root r) (cpar ?c) (-1) = Some (a', 0)"
      then show ?thesis using s
        by (intro disjI1 exI [of _ c'] exI [of _ l'] exI [of _ a'] exI [of _ b'] exI [of _ d'] exI [of _ r']) auto
    next
      fix c' xs ys assume e: "plug c' Lf = plug ?c r"
        "moveto_loop h key (root r) (cpar ?c) (-1) = Some (cpar c', hole_dir c')"
        "cleft c' = cleft ?c @ xs" "cright c' = ys @ cright ?c" "\<forall>k\<in>set (keys xs). k < key" "\<forall>k\<in>set (keys ys). key < k"
      have "\<forall>x\<in>set (keys (nodes l @ (a, k, d) # xs)). x < key"
        using e(5) greater sorted(3) by auto
      then show ?thesis using s e
        by (intro disjI2 exI [of _ c'] conjI exI [of _ "nodes l @ (a, k, d) # xs"] exI [of _ ys]) auto
    qed
  qed
qed

text \<open>The two outcomes of a search in a whole tree.\<close>

lemma moveto_cases:
  assumes "holds h t" "ksorted t"
  obtains (found) c l a b d r where "t = plug c (Br l a b key d r)" "moveto h (root t) key = Some (a, 0)"
  | (missing) c where "t = plug c Lf" "moveto h (root t) key = Some (cpar c, hole_dir c)"
      "\<forall>k\<in>set (keys (cleft c)). k < key" "\<forall>k\<in>set (keys (cright c)). key < k"
  using moveto_loop_plug [of h "[]" t "-1" key] assms
  by (auto simp: ksorted_def hole_dir_def moveto_def)


section \<open>Taking a node out and putting one in\<close>

definition only_child :: "rbtree \<Rightarrow> rbtree \<Rightarrow> rbtree" where
  "only_child l r = (if l = Lf then r else l)"

lemma splice_plug:
  assumes T: "holds h (plug c (Br l z b k d r))" and lr: "l = Lf \<or> r = Lf"
  shows "\<exists>h' n. splice h (root (plug c (Br l z b k d r))) z =
      Some (h', root (plug c (only_child l r)), root (only_child l r), n) \<and>
    pParent n = cpar c \<and> isBlack n = b \<and> holds h' (plug c (only_child l r)) \<and>
    (\<forall>p. p \<notin> set (addrs (plug c (Br l z b k d r))) \<longrightarrow> h' p = h p)"
proof (cases c)
  case Nil
  show ?thesis using Nil T lr
    by (cases l; cases r) (clarsimp simp: heap_simps node_at_def [of h] splice_def only_child_def assertion_def)+
next
  case (Cons f c')
  show ?thesis using Cons T lr croot_self [OF T] hole_sib [OF T [unfolded Cons]]
    by (cases f; cases l; cases r) (clarsimp simp: heap_simps node_at_def [of h] splice_def only_child_def assertion_def)+
qed

definition link_node :: "rb_heap \<Rightarrow> ptr \<Rightarrow> ptr \<Rightarrow> ptr \<Rightarrow> int \<Rightarrow> (rb_heap \<times> ptr) option" where
  \<comment> \<open>if( pCur->pNode ) switch( match ), the assignments that hang pNode into the tree\<close>
  "link_node h pHead p a match =
     (if p \<noteq> 0 then do {
        n \<leftarrow> deref h p;
        if match = -1 then do {
          assertion (pRight n = 0);
          h \<leftarrow> upd h a (set_parent p);
          h \<leftarrow> upd h p (set_right a);
          Some (h, pHead) }
        else if match = 1 then do {
          assertion (pLeft n = 0);
          h \<leftarrow> upd h a (set_parent p);
          h \<leftarrow> upd h p (set_left a);
          Some (h, pHead) }
        else None }
      else Some (h, a))"

lemma holds_frame: "holds h t \<Longrightarrow> (\<And>p. p \<in> set (addrs t) \<Longrightarrow> h' p = h p) \<Longrightarrow> holds h' t"
  unfolding holds_def using rep_cong by blast

definition new_node :: "bytes \<Rightarrow> bytes \<Rightarrow> rb_node" where
  "new_node k d = \<lparr>pKey = k, pData = d, isBlack = False, pParent = 0, pLeft = 0, pRight = 0, nBlackHeight = 0\<rparr>"

lemma link_plug:
  assumes T: "holds h (plug c Lf)" and a: "a \<notin> set (addrs (plug c Lf))" "a \<noteq> 0"
  shows "\<exists>h'. link_node (h(a \<mapsto> new_node k d)) (root (plug c Lf)) (cpar c) a (hole_dir c) =
      Some (h', root (plug c (Br Lf a False k d Lf))) \<and>
    holds h' (plug c (Br Lf a False k d Lf)) \<and>
    (\<forall>p. p \<notin> set (addrs (plug c (Br Lf a False k d Lf))) \<longrightarrow> h' p = h p)"
proof (cases c)
  case Nil
  then show ?thesis using assms
    by (clarsimp simp: heap_simps link_node_def new_node_def)
next
  case (Cons f c')
  have "a \<noteq> fr_addr f" "fr_addr f \<noteq> a" using a Cons by (cases f; auto simp: set_addrs_plug)+
  then show ?thesis using Cons assms
    by (cases f) (clarsimp simp: heap_simps node_at_def [of h] link_node_def new_node_def hole_dir_def assertion_def)+
qed

end
