(* ===== verification/RbDb.thy ===== *)
theory RbDb
  imports RbWalk "HOL-Library.AList"
begin

text \<open>
  The in-memory database of \<^verbatim>\<open>sqlite/btree_rb.c\<close>: tables of red-black trees,
  cursors, and the rollback logs of transactions and checkpoints. A state holds the heap of the
  nodes, the tables by number, the cursors by address and the two logs; every routine takes a state
  and returns its result code and the new state, or \<open>None\<close> where the code would follow a
  bad pointer or fail an assertion.

  A table and its number stand for each other, so that \<^verbatim>\<open>pCur->pTree\<close> is looked up
  by \<open>iTree\<close>. The memory allocator is the list \<open>mallocs\<close> of the outcomes of the
  next allocations, which all succeed when the list is used up; \<open>malloc_failed\<close> is the flag
  \<^verbatim>\<open>sqlite_malloc_failed\<close>. The cursor on the stack of
  \<^verbatim>\<open>execute_rollback_list\<close> has the address 0 while that routine runs.
\<close>

section \<open>The state\<close>

datatype skip = SKIP_NONE | SKIP_NEXT | SKIP_PREV | SKIP_INVALID

datatype trans_state = TRANS_NONE | TRANS_INTRANSACTION | TRANS_INCHECKPOINT | TRANS_ROLLBACK

datatype result_code = SQLITE_OK | SQLITE_ERROR | SQLITE_INTERNAL | SQLITE_LOCKED | SQLITE_NOMEM

datatype rollback_op =
    ROLLBACK_INSERT int bytes bytes
  | ROLLBACK_DELETE int bytes
  | ROLLBACK_CREATE int
  | ROLLBACK_DROP int

record rbt_cursor =
  iTree :: int
  pNode :: ptr
  eSkip :: skip
  wrFlag :: bool

record bt_tree =
  pCursors :: "ptr list"
  pHead :: ptr

record rbt_db =
  heap :: rb_heap
  next_ptr :: ptr
  mallocs :: "bool list"
  malloc_failed :: bool
  aMetaData :: "int list"
  next_idx :: int
  tblHash :: "(int \<times> bt_tree) list"
  eTransState :: trans_state
  pTransRollback :: "rollback_op list"
  pCheckRollback :: "rollback_op list"
  cursors :: "ptr \<Rightarrow> rbt_cursor option"

definition malloc :: "rbt_db \<Rightarrow> bool \<times> rbt_db" where
  "malloc s =
     (case mallocs s of [] \<Rightarrow> (True, s)
      | ok # rest \<Rightarrow> (ok, s\<lparr>mallocs := rest, malloc_failed := malloc_failed s \<or> \<not> ok\<rparr>))"

abbreviation tbl :: "rbt_db \<Rightarrow> int \<Rightarrow> bt_tree option" where
  "tbl s n \<equiv> map_of (tblHash s) n"

definition set_tbl :: "int \<Rightarrow> bt_tree \<Rightarrow> rbt_db \<Rightarrow> rbt_db" where
  "set_tbl n t s = s\<lparr>tblHash := AList.update n t (tblHash s)\<rparr>"

definition set_cursor :: "ptr \<Rightarrow> rbt_cursor \<Rightarrow> rbt_db \<Rightarrow> rbt_db" where
  "set_cursor q cur s = s\<lparr>cursors := (cursors s)(q \<mapsto> cur)\<rparr>"

section \<open>Tables\<close>

text \<open>
  Three outcomes: the table; what the hash table cannot do without (the element, and its first bucket
  array), so that nothing is stored if it fails; and a larger bucket array, without which the entry is
  stored all the same. How full the bucket array is does not belong to the state, so that the third
  outcome stands for the calls that may be needed and is taken from the list in any case.
\<close>

definition btreeCreateTable :: "rbt_db \<Rightarrow> int \<Rightarrow> rbt_db" where
  "btreeCreateTable s n =
     (let (ok, s) = malloc s
      in if \<not> ok then s
         else
           let (ok, s) = malloc s
           in if \<not> ok then s
              else let (_, s) = malloc s in set_tbl n \<lparr>pCursors = [], pHead = 0\<rparr> s)"

definition btreeLogRollbackOp :: "rbt_db \<Rightarrow> rollback_op \<Rightarrow> rbt_db option" where
  "btreeLogRollbackOp s op = do {
     assertion (eTransState s = TRANS_INCHECKPOINT \<or> eTransState s = TRANS_INTRANSACTION);
     Some (if eTransState s = TRANS_INTRANSACTION then s\<lparr>pTransRollback := op # pTransRollback s\<rparr>
           else s\<lparr>pCheckRollback := op # pCheckRollback s\<rparr>) }"

text \<open>
  An entry of the log, allocated with \<open>n\<close> calls of the allocator; the result is
  \<^verbatim>\<open>SQLITE_NOMEM\<close> when one of them fails, and nothing is logged then.
\<close>

definition log_op :: "nat \<Rightarrow> rbt_db \<Rightarrow> rollback_op \<Rightarrow> (result_code \<times> rbt_db) option" where
  "log_op n s op =
     (let (ok, s) = malloc s
      in if \<not> ok then Some (SQLITE_NOMEM, s)
         else if n = 1 then do { s \<leftarrow> btreeLogRollbackOp s op; Some (SQLITE_OK, s) }
         else
           let (ok, s) = malloc s
           in if malloc_failed s then Some (SQLITE_NOMEM, s)
              else do { s \<leftarrow> btreeLogRollbackOp s op; Some (SQLITE_OK, s) })"

definition sqliteRbtreeOpen :: "bool list \<Rightarrow> (result_code \<times> rbt_db option)" where
  "sqliteRbtreeOpen ms =
     (let (ok, s) = malloc \<lparr>heap = Map.empty, next_ptr = 1, mallocs = ms, malloc_failed = False,
            aMetaData = replicate 10 0, next_idx = 0, tblHash = [], eTransState = TRANS_NONE,
            pTransRollback = [], pCheckRollback = [], cursors = Map.empty\<rparr>
      in if malloc_failed s then (SQLITE_NOMEM, None)
         else
           let s = btreeCreateTable s 2
           in if malloc_failed s then (SQLITE_NOMEM, None)
              else (SQLITE_OK, Some (s\<lparr>next_idx := 3, aMetaData := (aMetaData s)[2 := 4]\<rparr>)))"

definition memRbtreeCreateTable :: "rbt_db \<Rightarrow> (result_code \<times> int \<times> rbt_db) option" where
  "memRbtreeCreateTable s = do {
     assertion (eTransState s \<noteq> TRANS_NONE);
     let n = next_idx s;
     let s = btreeCreateTable (s\<lparr>next_idx := next_idx s + 1\<rparr>) n;
     if malloc_failed s then Some (SQLITE_NOMEM, n, s)
     else if eTransState s \<noteq> TRANS_ROLLBACK then do {
       (rc, s) \<leftarrow> log_op 1 s (ROLLBACK_DROP n);
       Some (rc, n, s) }
     else Some (SQLITE_OK, n, s) }"

text \<open>The loop of \<^verbatim>\<open>memRbtreeClearTable\<close>: leaves are removed until none is left.\<close>

partial_function (option) clear_loop :: "int \<Rightarrow> rbt_db \<Rightarrow> ptr \<Rightarrow> (result_code \<times> rbt_db) option" where
  "clear_loop n s p =
     (if p = 0 then Some (SQLITE_OK, s)
      else do {
        nd \<leftarrow> deref (heap s) p;
        if pLeft nd \<noteq> 0 then clear_loop n s (pLeft nd)
        else if pRight nd \<noteq> 0 then clear_loop n s (pRight nd)
        else do {
          let pTmp = pParent nd;
          r \<leftarrow> (if eTransState s = TRANS_ROLLBACK then Some (SQLITE_OK, s)
                else log_op 1 s (ROLLBACK_INSERT n (RbTree.pKey nd) (RbTree.pData nd)));
          if fst r \<noteq> SQLITE_OK then Some r
          else do {
            let s = snd r;
            let h = (heap s)(p := None);
            h \<leftarrow> (if pTmp \<noteq> 0 then do {
                     t \<leftarrow> deref h pTmp;
                     if pLeft t = p then upd h pTmp (set_left 0)
                     else if pRight t = p then upd h pTmp (set_right 0)
                     else Some h }
                   else Some h);
            clear_loop n (s\<lparr>heap := h\<rparr>) pTmp } } })"

definition memRbtreeClearTable :: "rbt_db \<Rightarrow> int \<Rightarrow> (result_code \<times> rbt_db) option" where
  "memRbtreeClearTable s n = do {
     pTree \<leftarrow> tbl s n;
     (rc, s) \<leftarrow> clear_loop n s (pHead pTree);
     if rc \<noteq> SQLITE_OK then Some (rc, s)
     else do {
       pTree \<leftarrow> tbl s n;
       Some (SQLITE_OK, set_tbl n (pTree\<lparr>pHead := 0\<rparr>) s) } }"

definition memRbtreeDropTable :: "rbt_db \<Rightarrow> int \<Rightarrow> (result_code \<times> rbt_db) option" where
  \<comment> \<open>the result of \<open>memRbtreeClearTable\<close> is ignored\<close>
  "memRbtreeDropTable s n = do {
     assertion (eTransState s \<noteq> TRANS_NONE);
     (rc, s) \<leftarrow> memRbtreeClearTable s n;
     pTree \<leftarrow> tbl s n;
     let s = s\<lparr>tblHash := AList.delete n (tblHash s)\<rparr>;
     assertion (pCursors pTree = []);
     if eTransState s \<noteq> TRANS_ROLLBACK then log_op 1 s (ROLLBACK_CREATE n)
     else Some (SQLITE_OK, s) }"

section \<open>Cursors\<close>

definition memRbtreeCursor :: "rbt_db \<Rightarrow> int \<Rightarrow> bool \<Rightarrow> (result_code \<times> ptr \<times> rbt_db) option" where
  "memRbtreeCursor s iTable wr =
     (let (ok, s) = malloc s
      in if malloc_failed s then Some (SQLITE_NOMEM, 0, s)
         else do {
           t \<leftarrow> tbl s iTable;
           let q = next_ptr s;
           let s = set_cursor q \<lparr>iTree = iTable, pNode = 0, eSkip = SKIP_NONE, wrFlag = wr\<rparr> (s\<lparr>next_ptr := q + 1\<rparr>);
           Some (SQLITE_OK, q, set_tbl iTable (t\<lparr>pCursors := q # pCursors t\<rparr>) s) })"

definition memRbtreeCloseCursor :: "rbt_db \<Rightarrow> ptr \<Rightarrow> (result_code \<times> rbt_db) option" where
  "memRbtreeCloseCursor s q = do {
     cur \<leftarrow> cursors s q;
     t \<leftarrow> tbl s (iTree cur);
     assertion (q \<in> set (pCursors t));
     Some (SQLITE_OK, (set_tbl (iTree cur) (t\<lparr>pCursors := remove1 q (pCursors t)\<rparr>) s)\<lparr>cursors := (cursors s)(q := None)\<rparr>) }"

text \<open>
  \<^verbatim>\<open>checkReadLocks\<close>: the cursors before the first reader have already lost their
  position when the routine reports the lock.
\<close>

fun read_locks :: "ptr \<Rightarrow> ptr list \<Rightarrow> rbt_db \<Rightarrow> (result_code \<times> rbt_db) option" where
  "read_locks q [] s = Some (SQLITE_OK, s)"
| "read_locks q (p # ps) s =
     (if p \<noteq> q then do {
        c \<leftarrow> cursors s p;
        if \<not> wrFlag c then Some (SQLITE_LOCKED, s)
        else read_locks q ps (set_cursor p (c\<lparr>pNode := 0\<rparr>) s) }
      else read_locks q ps s)"

definition checkReadLocks :: "rbt_db \<Rightarrow> ptr \<Rightarrow> (result_code \<times> rbt_db) option" where
  "checkReadLocks s q = do {
     cur \<leftarrow> cursors s q;
     assertion (wrFlag cur);
     t \<leftarrow> tbl s (iTree cur);
     read_locks q (pCursors t) s }"

definition memRbtreeFirst :: "rbt_db \<Rightarrow> ptr \<Rightarrow> (int \<times> rbt_db) option" where
  "memRbtreeFirst s q = do {
     cur \<leftarrow> cursors s q;
     t \<leftarrow> tbl s (iTree cur);
     p \<leftarrow> (if pHead t \<noteq> 0 then leftmost (heap s) (pHead t) else Some (pNode cur));
     Some (if p \<noteq> 0 then 0 else 1, set_cursor q (cur\<lparr>pNode := p, eSkip := SKIP_NONE\<rparr>) s) }"

definition memRbtreeLast :: "rbt_db \<Rightarrow> ptr \<Rightarrow> (int \<times> rbt_db) option" where
  "memRbtreeLast s q = do {
     cur \<leftarrow> cursors s q;
     t \<leftarrow> tbl s (iTree cur);
     p \<leftarrow> (if pHead t \<noteq> 0 then rightmost (heap s) (pHead t) else Some (pNode cur));
     Some (if p \<noteq> 0 then 0 else 1, set_cursor q (cur\<lparr>pNode := p, eSkip := SKIP_NONE\<rparr>) s) }"

definition memRbtreeNext :: "rbt_db \<Rightarrow> ptr \<Rightarrow> (int \<times> rbt_db) option" where
  "memRbtreeNext s q = do {
     cur \<leftarrow> cursors s q;
     p \<leftarrow> (if pNode cur \<noteq> 0 \<and> eSkip cur \<noteq> SKIP_NEXT then next_node (heap s) (pNode cur) else Some (pNode cur));
     Some (if p = 0 then 1 else 0, set_cursor q (cur\<lparr>pNode := p, eSkip := SKIP_NONE\<rparr>) s) }"

definition memRbtreePrevious :: "rbt_db \<Rightarrow> ptr \<Rightarrow> (int \<times> rbt_db) option" where
  "memRbtreePrevious s q = do {
     cur \<leftarrow> cursors s q;
     p \<leftarrow> (if pNode cur \<noteq> 0 \<and> eSkip cur \<noteq> SKIP_PREV then prev_node (heap s) (pNode cur) else Some (pNode cur));
     Some (if p = 0 then 1 else 0, set_cursor q (cur\<lparr>pNode := p, eSkip := SKIP_NONE\<rparr>) s) }"

definition memRbtreeMoveto :: "rbt_db \<Rightarrow> ptr \<Rightarrow> bytes \<Rightarrow> (int \<times> rbt_db) option" where
  "memRbtreeMoveto s q key = do {
     cur \<leftarrow> cursors s q;
     t \<leftarrow> tbl s (iTree cur);
     (p, res) \<leftarrow> moveto (heap s) (pHead t) key;
     Some (res, set_cursor q (cur\<lparr>pNode := p, eSkip := SKIP_NONE\<rparr>) s) }"

definition memRbtreeKeyCompare :: "rbt_db \<Rightarrow> ptr \<Rightarrow> bytes \<Rightarrow> int \<Rightarrow> int option" where
  "memRbtreeKeyCompare s q key nIgnore = do {
     cur \<leftarrow> cursors s q;
     if pNode cur = 0 then Some (-1)
     else do {
       n \<leftarrow> deref (heap s) (pNode cur);
       let nKey = int (length (RbTree.pKey n)) - nIgnore;
       if nKey < 0 then Some (-1)
       else if nKey > int (length (RbTree.pKey n)) then None
       else Some (key_compare (take (nat nKey) (RbTree.pKey n)) key) } }"

text \<open>
  The bytes that \<^verbatim>\<open>memRbtreeKey\<close> and \<^verbatim>\<open>memRbtreeData\<close> copy;
  \<open>None\<close> where \<^verbatim>\<open>memcpy\<close> would leave the buffer or get a negative length.
  \<^verbatim>\<open>memRbtreeKey\<close> also has a case for a node without a key buffer; there is none: keys come
  from \<^verbatim>\<open>sqliteMallocRaw\<close>, whose failure ends the insertion before the node is linked, and
  memory of size 0 is taken to have an address.
\<close>

definition payload :: "bytes \<Rightarrow> int \<Rightarrow> int \<Rightarrow> bytes option" where
  "payload buf offset amt =
     (let amt' = (if amt + offset \<le> int (length buf) then amt else int (length buf) - offset)
      in if offset < 0 \<or> amt' < 0 then None else Some (take (nat amt') (drop (nat offset) buf)))"

definition memRbtreeKeySize :: "rbt_db \<Rightarrow> ptr \<Rightarrow> nat option" where
  "memRbtreeKeySize s q = do {
     cur \<leftarrow> cursors s q;
     if pNode cur = 0 then Some 0 else do { n \<leftarrow> deref (heap s) (pNode cur); Some (length (RbTree.pKey n)) } }"

definition memRbtreeKey :: "rbt_db \<Rightarrow> ptr \<Rightarrow> int \<Rightarrow> int \<Rightarrow> bytes option" where
  "memRbtreeKey s q offset amt = do {
     cur \<leftarrow> cursors s q;
     if pNode cur = 0 then Some [] else do { n \<leftarrow> deref (heap s) (pNode cur); payload (RbTree.pKey n) offset amt } }"

definition memRbtreeDataSize :: "rbt_db \<Rightarrow> ptr \<Rightarrow> nat option" where
  "memRbtreeDataSize s q = do {
     cur \<leftarrow> cursors s q;
     if pNode cur = 0 then Some 0 else do { n \<leftarrow> deref (heap s) (pNode cur); Some (length (RbTree.pData n)) } }"

definition memRbtreeData :: "rbt_db \<Rightarrow> ptr \<Rightarrow> int \<Rightarrow> int \<Rightarrow> bytes option" where
  "memRbtreeData s q offset amt = do {
     cur \<leftarrow> cursors s q;
     if pNode cur = 0 then Some [] else do { n \<leftarrow> deref (heap s) (pNode cur); payload (RbTree.pData n) offset amt } }"

section \<open>Insertion\<close>

text \<open>The arm of a missing key, with the cursor next to where it belongs, and that of a present one.\<close>

definition insert_new :: "rbt_db \<Rightarrow> ptr \<Rightarrow> rbt_cursor \<Rightarrow> int \<Rightarrow> bytes \<Rightarrow> bytes \<Rightarrow> (result_code \<times> rbt_db) option" where
  "insert_new s q cur match key val =
     (let (ok, s) = malloc s
      in if \<not> ok then Some (SQLITE_NOMEM, s)
         else
           let (ok, s) = malloc s
           in if malloc_failed s then Some (SQLITE_NOMEM, s)
              else do {
                let a = next_ptr s;
                t \<leftarrow> tbl s (iTree cur);
                (h, hd) \<leftarrow> link_node ((heap s)(a \<mapsto> new_node key val)) (pHead t) (pNode cur) a match;
                (h, hd) \<leftarrow> do_insert_balancing h hd a;
                let s = set_tbl (iTree cur) (t\<lparr>pHead := hd\<rparr>)
                  (set_cursor q (cur\<lparr>pNode := a\<rparr>) (s\<lparr>heap := h, next_ptr := a + 1\<rparr>));
                if eTransState s \<noteq> TRANS_ROLLBACK then log_op 2 s (ROLLBACK_DELETE (iTree cur) key)
                else Some (SQLITE_OK, s) })"

definition insert_replace :: "rbt_db \<Rightarrow> rbt_cursor \<Rightarrow> bytes \<Rightarrow> (result_code \<times> rbt_db) option" where
  "insert_replace s cur val = do {
     n \<leftarrow> deref (heap s) (pNode cur);
     (rc, s) \<leftarrow>
       (if eTransState s \<noteq> TRANS_ROLLBACK then
          log_op 2 s (ROLLBACK_INSERT (iTree cur) (RbTree.pKey n) (RbTree.pData n))
        else Some (SQLITE_OK, s));
     if rc \<noteq> SQLITE_OK then Some (rc, s)
     else do {
       h \<leftarrow> upd (heap s) (pNode cur) (\<lambda>n. n\<lparr>RbTree.pData := val\<rparr>);
       Some (SQLITE_OK, s\<lparr>heap := h\<rparr>) } }"

definition memRbtreeInsert :: "rbt_db \<Rightarrow> ptr \<Rightarrow> bytes \<Rightarrow> bytes \<Rightarrow> (result_code \<times> rbt_db) option" where
  "memRbtreeInsert s q key val = do {
     assertion (eTransState s \<noteq> TRANS_NONE);
     (rc, s) \<leftarrow> checkReadLocks s q;
     if rc \<noteq> SQLITE_OK then Some (SQLITE_LOCKED, s)
     else do {
       let (ok, s) = malloc s;
       if malloc_failed s then Some (SQLITE_NOMEM, s)
       else do {
         (match, s) \<leftarrow> memRbtreeMoveto s q key;
         cur \<leftarrow> cursors s q;
         if match \<noteq> 0 then insert_new s q cur match key val else insert_replace s cur val } } }"

section \<open>Deletion\<close>

text \<open>
  The choice of the node to splice out, after which the cursor stands at the entry behind or
  before the deleted one.
\<close>

definition delete_prepare :: "rbt_db \<Rightarrow> ptr \<Rightarrow> (ptr \<times> rbt_db) option" where
  "delete_prepare s q = do {
     cur \<leftarrow> cursors s q;
     let pZ = pNode cur;
     z \<leftarrow> deref (heap s) pZ;
     if pLeft z \<noteq> 0 \<and> pRight z \<noteq> 0 then do {
       (dummy, s) \<leftarrow> memRbtreeNext (set_cursor q (cur\<lparr>eSkip := SKIP_NONE\<rparr>) s) q;
       assertion (dummy = 0);
       cur \<leftarrow> cursors s q;
       y \<leftarrow> deref (heap s) (pNode cur);
       h \<leftarrow> upd (heap s) pZ (\<lambda>n. n\<lparr>RbTree.pKey := RbTree.pKey y, RbTree.pData := RbTree.pData y\<rparr>);
       Some (pNode cur, set_cursor q (cur\<lparr>pNode := pZ, eSkip := SKIP_NEXT\<rparr>) (s\<lparr>heap := h\<rparr>)) }
     else do {
       (res, s) \<leftarrow> memRbtreeNext (set_cursor q (cur\<lparr>eSkip := SKIP_NONE\<rparr>) s) q;
       cur \<leftarrow> cursors s q;
       if res \<noteq> 0 then do {
         (res, s) \<leftarrow> memRbtreeLast s q;
         (res, s) \<leftarrow> memRbtreePrevious s q;
         cur \<leftarrow> cursors s q;
         Some (pZ, set_cursor q (cur\<lparr>eSkip := SKIP_PREV\<rparr>) s) }
       else Some (pZ, set_cursor q (cur\<lparr>eSkip := SKIP_NEXT\<rparr>) s) } }"

definition delete_node :: "rbt_db \<Rightarrow> int \<Rightarrow> ptr \<Rightarrow> rbt_db option" where
  "delete_node s n pZ = do {
     t \<leftarrow> tbl s n;
     (h, hd, pChild, z) \<leftarrow> splice (heap s) (pHead t) pZ;
     (h, hd) \<leftarrow> (if isBlack z then do_delete_balancing h hd pChild (pParent z) else Some (h, hd));
     Some (set_tbl n (t\<lparr>pHead := hd\<rparr>) (s\<lparr>heap := h(pZ := None)\<rparr>)) }"

definition memRbtreeDelete :: "rbt_db \<Rightarrow> ptr \<Rightarrow> (result_code \<times> rbt_db) option" where
  "memRbtreeDelete s q = do {
     assertion (eTransState s \<noteq> TRANS_NONE);
     (rc, s) \<leftarrow> checkReadLocks s q;
     if rc \<noteq> SQLITE_OK then Some (SQLITE_LOCKED, s)
     else do {
       cur \<leftarrow> cursors s q;
       if pNode cur = 0 then Some (SQLITE_OK, s)
       else do {
         z \<leftarrow> deref (heap s) (pNode cur);
         (rc, s) \<leftarrow>
           (if eTransState s \<noteq> TRANS_ROLLBACK then
              log_op 1 s (ROLLBACK_INSERT (iTree cur) (RbTree.pKey z) (RbTree.pData z))
            else Some (SQLITE_OK, s));
         if rc \<noteq> SQLITE_OK then Some (rc, s)
         else do {
           (pZ, s) \<leftarrow> delete_prepare s q;
           s \<leftarrow> delete_node s (iTree cur) pZ;
           Some (SQLITE_OK, s) } } } }"

section \<open>Meta data, transactions and checkpoints\<close>

definition memRbtreeGetMeta :: "rbt_db \<Rightarrow> int list" where
  "memRbtreeGetMeta s = aMetaData s"

definition memRbtreeUpdateMeta :: "rbt_db \<Rightarrow> int list \<Rightarrow> rbt_db" where
  "memRbtreeUpdateMeta s meta = s\<lparr>aMetaData := take 10 meta\<rparr>"

definition memRbtreeBeginTrans :: "rbt_db \<Rightarrow> (result_code \<times> rbt_db) option" where
  "memRbtreeBeginTrans s =
     (if eTransState s \<noteq> TRANS_NONE then Some (SQLITE_ERROR, s)
      else do {
        assertion (pTransRollback s = []);
        Some (SQLITE_OK, s\<lparr>eTransState := TRANS_INTRANSACTION\<rparr>) })"

definition memRbtreeCommit :: "rbt_db \<Rightarrow> rbt_db" where
  "memRbtreeCommit s = s\<lparr>pTransRollback := [], pCheckRollback := [], eTransState := TRANS_NONE\<rparr>"

text \<open>
  The local cursor of \<^verbatim>\<open>execute_rollback_list\<close>, positioned on a table. Every entry
  that uses the cursor sets its fields anew, so that it is dropped behind each of them.
\<close>

definition stack_cursor :: "int \<Rightarrow> rbt_db \<Rightarrow> rbt_db option" where
  "stack_cursor n s = do {
     t \<leftarrow> tbl s n;
     Some (set_cursor 0 \<lparr>iTree = n, pNode = 0, eSkip = SKIP_NONE, wrFlag = True\<rparr> s) }"

definition drop_stack_cursor :: "rbt_db \<Rightarrow> rbt_db" where
  "drop_stack_cursor s = s\<lparr>cursors := (cursors s)(0 := None)\<rparr>"

definition execute_rollback_op :: "rollback_op \<Rightarrow> rbt_db \<Rightarrow> rbt_db option" where
  "execute_rollback_op op s =
     (case op of
        ROLLBACK_INSERT n k d \<Rightarrow> do {
          s \<leftarrow> stack_cursor n s;
          (rc, s) \<leftarrow> memRbtreeInsert s 0 k d;
          Some (drop_stack_cursor s) }
      | ROLLBACK_DELETE n k \<Rightarrow> do {
          s \<leftarrow> stack_cursor n s;
          (res, s) \<leftarrow> memRbtreeMoveto s 0 k;
          assertion (res = 0);
          (rc, s) \<leftarrow> memRbtreeDelete s 0;
          Some (drop_stack_cursor s) }
      | ROLLBACK_CREATE n \<Rightarrow> Some (btreeCreateTable s n)
      | ROLLBACK_DROP n \<Rightarrow> do {
          (rc, s) \<leftarrow> memRbtreeDropTable s n;
          Some s })"

fun execute_rollback_list :: "rollback_op list \<Rightarrow> rbt_db \<Rightarrow> rbt_db option" where
  \<comment> \<open>while( pList )\<close>
  "execute_rollback_list [] s = Some s"
| "execute_rollback_list (op # ops) s = do { s \<leftarrow> execute_rollback_op op s; execute_rollback_list ops s }"

definition memRbtreeRollback :: "rbt_db \<Rightarrow> rbt_db option" where
  "memRbtreeRollback s = do {
     let s = s\<lparr>eTransState := TRANS_ROLLBACK\<rparr>;
     s' \<leftarrow> execute_rollback_list (pCheckRollback s) s;
     s' \<leftarrow> execute_rollback_list (pTransRollback s) s';
     Some (s'\<lparr>pTransRollback := [], pCheckRollback := [], eTransState := TRANS_NONE\<rparr>) }"

definition memRbtreeBeginCkpt :: "rbt_db \<Rightarrow> (result_code \<times> rbt_db) option" where
  "memRbtreeBeginCkpt s =
     (if eTransState s \<noteq> TRANS_INTRANSACTION then Some (SQLITE_ERROR, s)
      else do {
        assertion (pCheckRollback s = []);
        Some (SQLITE_OK, s\<lparr>eTransState := TRANS_INCHECKPOINT\<rparr>) })"

definition memRbtreeCommitCkpt :: "rbt_db \<Rightarrow> rbt_db" where
  \<comment> \<open>the checkpoint's log goes before that of the transaction, through the pointer to its tail\<close>
  "memRbtreeCommitCkpt s =
     (if eTransState s = TRANS_INCHECKPOINT then
        (if pCheckRollback s \<noteq> [] then s\<lparr>pTransRollback := pCheckRollback s @ pTransRollback s, pCheckRollback := []\<rparr> else s)
          \<lparr>eTransState := TRANS_INTRANSACTION\<rparr>
      else s)"

definition memRbtreeRollbackCkpt :: "rbt_db \<Rightarrow> rbt_db option" where
  "memRbtreeRollbackCkpt s =
     (if eTransState s \<noteq> TRANS_INCHECKPOINT then Some s
      else do {
        let s = s\<lparr>eTransState := TRANS_ROLLBACK\<rparr>;
        s' \<leftarrow> execute_rollback_list (pCheckRollback s) s;
        Some (s'\<lparr>pCheckRollback := [], eTransState := TRANS_INTRANSACTION\<rparr>) })"

fun close_tables :: "nat \<Rightarrow> rbt_db \<Rightarrow> rbt_db option" where
  \<comment> \<open>while( (p=sqliteHashFirst(\&tree->tblHash))!=0 ), with fuel\<close>
  "close_tables fuel s =
     (case tblHash s of [] \<Rightarrow> Some s
      | (n, _) # _ \<Rightarrow>
        (case fuel of 0 \<Rightarrow> None
         | Suc fuel \<Rightarrow> do {
             (rc, s) \<leftarrow> memRbtreeDropTable (s\<lparr>eTransState := TRANS_ROLLBACK\<rparr>) n;
             close_tables fuel s }))"

definition memRbtreeClose :: "rbt_db \<Rightarrow> rbt_db option" where
  \<comment> \<open>every round removes a table, so that their number is enough fuel\<close>
  "memRbtreeClose s = close_tables (length (tblHash s)) (memRbtreeCommit s)"

end
