(* ===== verification/RbInv.thy ===== *)
theory RbInv
  imports RbDb
begin

text \<open>
  The invariant of the in-memory database: every table's pointer is the root of a red-black tree
  in the heap, sorted by key, with nodes of its own; the cursors of a table are those of its list,
  and each of them is at a node of the table or nowhere. The contents of a table are read off the
  heap by \<open>contents\<close>.
\<close>

section \<open>The contents of a table\<close>

fun walk :: "nat \<Rightarrow> rb_heap \<Rightarrow> ptr \<Rightarrow> (bytes \<times> bytes) list" where
  "walk 0 h p = []"
| "walk (Suc fuel) h p =
     (case deref h p of None \<Rightarrow> []
      | Some n \<Rightarrow> walk fuel h (pLeft n) @ (RbTree.pKey n, RbTree.pData n) # walk fuel h (pRight n))"

definition contents :: "rbt_db \<Rightarrow> int \<Rightarrow> (bytes \<times> bytes) list" where
  \<comment> \<open>the addresses in use lie below \<open>next_ptr\<close>, which bounds the depth of the trees\<close>
  "contents s n = (case tbl s n of None \<Rightarrow> [] | Some t \<Rightarrow> walk (next_ptr s) (heap s) (pHead t))"

text \<open>The database as a map of maps.\<close>

definition database :: "rbt_db \<Rightarrow> int \<Rightarrow> (bytes \<Rightarrow> bytes option) option" where
  "database s n = (case tbl s n of None \<Rightarrow> None | Some t \<Rightarrow> Some (map_of (contents s n)))"

section \<open>The invariant\<close>

definition tree_ok :: "rb_heap \<Rightarrow> ptr \<Rightarrow> rbtree \<Rightarrow> bool" where
  "tree_ok h p T \<longleftrightarrow> holds h T \<and> root T = p \<and> rbinv T \<and> black T \<and> ksorted T"

abbreviation nset :: "rbtree \<Rightarrow> ptr set" where
  "nset T \<equiv> set (addrs T)"

definition cursors_ok :: "rbt_db \<Rightarrow> (int \<Rightarrow> rbtree) \<Rightarrow> bool" where
  "cursors_ok s Ts \<longleftrightarrow>
     (\<forall>n t q. tbl s n = Some t \<longrightarrow> q \<in> set (pCursors t) \<longrightarrow> q \<noteq> 0 \<and> (\<exists>c. cursors s q = Some c \<and> iTree c = n)) \<and>
     (\<forall>n t. tbl s n = Some t \<longrightarrow> distinct (pCursors t)) \<and>
     (\<forall>q c. cursors s q = Some c \<longrightarrow> q < next_ptr s \<and>
        (\<exists>t. tbl s (iTree c) = Some t \<and> (q = 0 \<or> q \<in> set (pCursors t))) \<and>
        (pNode c = 0 \<or> pNode c \<in> nset (Ts (iTree c))))"

definition trees_ok :: "rbt_db \<Rightarrow> (int \<Rightarrow> rbtree) \<Rightarrow> bool" where
  "trees_ok s Ts \<longleftrightarrow> 0 < next_ptr s \<and>
     (\<forall>n t. tbl s n = Some t \<longrightarrow> tree_ok (heap s) (pHead t) (Ts n) \<and> nset (Ts n) \<subseteq> {..<next_ptr s}) \<and>
     (\<forall>n m. tbl s n \<noteq> None \<longrightarrow> tbl s m \<noteq> None \<longrightarrow> n \<noteq> m \<longrightarrow> nset (Ts n) \<inter> nset (Ts m) = {})"

definition db_ok :: "rbt_db \<Rightarrow> (int \<Rightarrow> rbtree) \<Rightarrow> bool" where
  "db_ok s Ts \<longleftrightarrow> trees_ok s Ts \<and> cursors_ok s Ts"

definition db_inv :: "rbt_db \<Rightarrow> bool" where
  "db_inv s \<longleftrightarrow> (\<exists>Ts. db_ok s Ts)"

section \<open>Contents and trees\<close>

abbreviation entries :: "rbtree \<Rightarrow> (bytes \<times> bytes) list" where
  "entries T \<equiv> map snd (nodes T)"

lemma walk_holds: "rep h q t \<Longrightarrow> size t \<le> fuel \<Longrightarrow> walk fuel h (root t) = entries t"
proof (induction t arbitrary: fuel q)
  case Lf
  then show ?case by (cases fuel) (auto simp: deref_def)
next
  case (Br l a b k d r)
  then obtain f where f: "fuel = Suc f" by (cases fuel) auto
  from Br show ?case by (auto simp: f node_at_def deref_def)
qed

lemma size_addrs: "size t = length (addrs t)"
  by (induction t) auto

lemma size_bound: "distinct (addrs t) \<Longrightarrow> nset t \<subseteq> {..<N} \<Longrightarrow> size t \<le> N"
  unfolding size_addrs by (metis card_lessThan card_mono distinct_card finite_lessThan)

lemma contents_tree:
  assumes "trees_ok s Ts" "tbl s n = Some t"
  shows "contents s n = entries (Ts n)"
proof -
  have t: "holds (heap s) (Ts n)" "root (Ts n) = pHead t" "nset (Ts n) \<subseteq> {..<next_ptr s}"
    using assms by (auto simp: trees_ok_def tree_ok_def)
  then show ?thesis
    using walk_holds [of "heap s" 0 "Ts n" "next_ptr s"] size_bound [of "Ts n" "next_ptr s"]
    by (simp add: contents_def assms(2) holds_def)
qed

lemma entries_sorted: "ksorted T \<Longrightarrow> sorted_wrt (<) (map fst (entries T))"
  by (simp add: ksorted_def comp_def)

lemma entries_distinct: "ksorted T \<Longrightarrow> distinct (map fst (entries T))"
  using entries_sorted strict_sorted_iff by blast

section \<open>Fields the invariant does not read\<close>

lemma trees_ok_cong:
  "heap s' = heap s \<Longrightarrow> next_ptr s' = next_ptr s \<Longrightarrow> tblHash s' = tblHash s \<Longrightarrow> trees_ok s' Ts = trees_ok s Ts"
  by (simp add: trees_ok_def)

lemma db_ok_cong:
  "heap s' = heap s \<Longrightarrow> next_ptr s' = next_ptr s \<Longrightarrow> tblHash s' = tblHash s \<Longrightarrow> cursors s' = cursors s \<Longrightarrow>
   db_ok s' Ts = db_ok s Ts"
  by (simp add: db_ok_def trees_ok_def cursors_ok_def)

text \<open>What \<open>malloc\<close> leaves alone.\<close>

definition same_data :: "rbt_db \<Rightarrow> rbt_db \<Rightarrow> bool" where
  "same_data s s' \<longleftrightarrow> heap s' = heap s \<and> next_ptr s' = next_ptr s \<and> tblHash s' = tblHash s \<and> cursors s' = cursors s \<and>
     eTransState s' = eTransState s \<and> next_idx s' = next_idx s \<and> aMetaData s' = aMetaData s"

definition same_logs :: "rbt_db \<Rightarrow> rbt_db \<Rightarrow> bool" where
  "same_logs s s' \<longleftrightarrow> pTransRollback s' = pTransRollback s \<and> pCheckRollback s' = pCheckRollback s"

text \<open>The allocator does not fail any more.\<close>

definition mem_ok :: "rbt_db \<Rightarrow> bool" where
  "mem_ok s \<longleftrightarrow> mallocs s = [] \<and> \<not> malloc_failed s"

lemma same_data_refl [simp]: "same_data s s" "same_logs s s"
  by (simp_all add: same_data_def same_logs_def)

lemma same_data_trans: "same_data s s' \<Longrightarrow> same_data s' s'' \<Longrightarrow> same_data s s''"
  by (simp add: same_data_def)

lemma malloc_same: "malloc s = (ok, s') \<Longrightarrow> same_data s s' \<and> same_logs s s' \<and> (mem_ok s \<longrightarrow> ok \<and> mem_ok s')"
  by (auto simp: malloc_def same_data_def same_logs_def mem_ok_def split: list.splits)

lemma malloc_mem_ok [simp]: "mem_ok s \<Longrightarrow> malloc s = (True, s)"
  by (simp add: malloc_def mem_ok_def)

lemma mem_ok_flag [simp]: "mem_ok s \<Longrightarrow> \<not> malloc_failed s"
  by (simp add: mem_ok_def)

lemma same_data_db_ok: "same_data s s' \<Longrightarrow> db_ok s' Ts = db_ok s Ts"
  unfolding same_data_def by (intro db_ok_cong) auto

lemma same_data_contents: "same_data s s' \<Longrightarrow> contents s' n = contents s n"
  by (simp add: same_data_def contents_def split: option.split)

definition logging :: "rbt_db \<Rightarrow> bool" where
  "logging s \<longleftrightarrow> eTransState s = TRANS_INTRANSACTION \<or> eTransState s = TRANS_INCHECKPOINT"

text \<open>The log of the innermost open unit, with an entry in front of it.\<close>

definition add_log :: "rollback_op \<Rightarrow> rbt_db \<Rightarrow> rbt_db" where
  "add_log op s = (if eTransState s = TRANS_INTRANSACTION then s\<lparr>pTransRollback := op # pTransRollback s\<rparr>
     else s\<lparr>pCheckRollback := op # pCheckRollback s\<rparr>)"

lemma add_log_same [simp]: "same_data s (add_log op s)" "mem_ok (add_log op s) = mem_ok s"
  by (simp_all add: add_log_def same_data_def mem_ok_def)

lemma log_op_result:
  assumes "logging s"
  shows "\<exists>rc s'. log_op n s op = Some (rc, s') \<and> same_data s s' \<and> (rc = SQLITE_OK \<or> rc = SQLITE_NOMEM) \<and>
    (rc = SQLITE_NOMEM \<longrightarrow> same_logs s s') \<and> (rc = SQLITE_OK \<longrightarrow> (\<exists>s''. same_data s s'' \<and> same_logs s s'' \<and> s' = add_log op s'')) \<and>
    (mem_ok s \<longrightarrow> rc = SQLITE_OK \<and> s' = add_log op s)"
proof -
  obtain ok1 s1 where m1: "malloc s = (ok1, s1)" by fastforce
  obtain ok2 s2 where m2: "malloc s1 = (ok2, s2)" by fastforce
  note m = malloc_same [OF m1] malloc_same [OF m2]
  have l: "logging s1" "logging s2" using assms m by (auto simp: logging_def same_data_def)
  have "btreeLogRollbackOp s' op = Some (add_log op s')" if "logging s'" for s'
    using that by (auto simp: btreeLogRollbackOp_def add_log_def assertion_def logging_def)
  note log = this [OF l(1)] this [OF l(2)] this
  have s2: "same_data s s2" "same_logs s s2" using m same_data_trans by (auto simp: same_logs_def)
  have "same_data s (add_log op s1)" "same_data s (add_log op s2)"
    using m s2(1) same_data_trans add_log_same by blast+
  then show ?thesis
    using m m1 m2 log(1,2) s2 log(3) [OF assms]
    by (cases ok1; cases "n = 1"; cases "malloc_failed s2")
      (auto simp: log_op_def)
qed

section \<open>Read locks\<close>

lemma read_locks_result:
  assumes "\<forall>p\<in>set ps. p \<noteq> q \<longrightarrow> (\<exists>c. cursors s p = Some c)" "distinct ps"
  shows "\<exists>rc cs. read_locks q ps s = Some (rc, s\<lparr>cursors := cs\<rparr>) \<and>
    (\<forall>p. cs p = cursors s p \<or> p \<in> set ps \<and> p \<noteq> q \<and> cs p = map_option (\<lambda>c. c\<lparr>pNode := 0\<rparr>) (cursors s p)) \<and>
    (rc = SQLITE_OK \<or> rc = SQLITE_LOCKED) \<and>
    (rc = SQLITE_OK \<longleftrightarrow> (\<forall>p\<in>set ps. p \<noteq> q \<longrightarrow> wrFlag (the (cursors s p)))) \<and>
    (rc = SQLITE_OK \<longrightarrow> (\<forall>p\<in>set ps. p \<noteq> q \<longrightarrow> pNode (the (cs p)) = 0))"
  using assms
proof (induction ps arbitrary: s)
  case Nil
  then show ?case by (intro exI [of _ SQLITE_OK] exI [of _ "cursors s"]) simp
next
  case (Cons p ps)
  show ?case
  proof (cases "p = q")
    case True
    obtain rc cs where r: "read_locks q ps s = Some (rc, s\<lparr>cursors := cs\<rparr>)"
      "\<forall>p. cs p = cursors s p \<or> p \<in> set ps \<and> p \<noteq> q \<and> cs p = map_option (\<lambda>c. c\<lparr>pNode := 0\<rparr>) (cursors s p)"
      "rc = SQLITE_OK \<or> rc = SQLITE_LOCKED"
      "rc = SQLITE_OK \<longleftrightarrow> (\<forall>p\<in>set ps. p \<noteq> q \<longrightarrow> wrFlag (the (cursors s p)))"
      "rc = SQLITE_OK \<longrightarrow> (\<forall>p\<in>set ps. p \<noteq> q \<longrightarrow> pNode (the (cs p)) = 0)"
      using Cons.IH [of s] Cons.prems by auto
    show ?thesis
      by (rule exI [of _ rc], rule exI [of _ cs]) (use r True in auto)
  next
    case False
    then obtain c where c: "cursors s p = Some c" using Cons.prems by auto
    show ?thesis
    proof (cases "wrFlag c")
      case False
      then show ?thesis using c \<open>p \<noteq> q\<close> by (intro exI [of _ SQLITE_LOCKED] exI [of _ "cursors s"]) simp
    next
      case True
      let ?s = "set_cursor p (c\<lparr>pNode := 0\<rparr>) s"
      have pre: "\<forall>p\<in>set ps. p \<noteq> q \<longrightarrow> (\<exists>c. cursors ?s p = Some c)"
        using Cons.prems by (auto simp: set_cursor_def fun_upd_apply)
      obtain rc cs where r: "read_locks q ps ?s = Some (rc, ?s\<lparr>cursors := cs\<rparr>)"
        "\<forall>p. cs p = cursors ?s p \<or> p \<in> set ps \<and> p \<noteq> q \<and> cs p = map_option (\<lambda>c. c\<lparr>pNode := 0\<rparr>) (cursors ?s p)"
        "rc = SQLITE_OK \<or> rc = SQLITE_LOCKED"
        "rc = SQLITE_OK \<longleftrightarrow> (\<forall>p\<in>set ps. p \<noteq> q \<longrightarrow> wrFlag (the (cursors ?s p)))"
        "rc = SQLITE_OK \<longrightarrow> (\<forall>p\<in>set ps. p \<noteq> q \<longrightarrow> pNode (the (cs p)) = 0)"
        using Cons.IH [OF pre] Cons.prems(2) by auto
      have cp: "cs p = Some (c\<lparr>pNode := 0\<rparr>)" using r(2) [rule_format, of p] Cons.prems(2) by (simp add: set_cursor_def fun_upd_apply)
      have "\<forall>x. cs x = cursors s x \<or> x \<in> set (p # ps) \<and> x \<noteq> q \<and> cs x = map_option (\<lambda>c. c\<lparr>pNode := 0\<rparr>) (cursors s x)"
      proof
        fix x
        show "cs x = cursors s x \<or> x \<in> set (p # ps) \<and> x \<noteq> q \<and> cs x = map_option (\<lambda>c. c\<lparr>pNode := 0\<rparr>) (cursors s x)"
          using r(2) [rule_format, of x] cp c False by (cases "x = p") (auto simp: set_cursor_def fun_upd_apply)
      qed
      moreover have "\<forall>x\<in>set ps. wrFlag (the (cursors ?s x)) = wrFlag (the (cursors s x))"
        using Cons.prems(2) by (auto simp: set_cursor_def fun_upd_apply)
      ultimately show ?thesis
        using r cp c True \<open>p \<noteq> q\<close> by (intro exI [of _ rc] exI [of _ cs]) (auto simp: set_cursor_def)
    qed
  qed
qed

lemma cursors_listed:
  "cursors_ok s Ts \<Longrightarrow> tbl s n = Some t \<Longrightarrow> q \<in> set (pCursors t) \<Longrightarrow> q \<noteq> 0 \<and> (\<exists>c. cursors s q = Some c \<and> iTree c = n)"
  unfolding cursors_ok_def by blast

lemma cursors_distinct: "cursors_ok s Ts \<Longrightarrow> tbl s n = Some t \<Longrightarrow> distinct (pCursors t)"
  unfolding cursors_ok_def by blast

lemma cursors_table:
  "cursors_ok s Ts \<Longrightarrow> cursors s q = Some c \<Longrightarrow> \<exists>t. tbl s (iTree c) = Some t \<and> (q = 0 \<or> q \<in> set (pCursors t))"
  unfolding cursors_ok_def by blast

lemma cursors_pos: "cursors_ok s Ts \<Longrightarrow> cursors s q = Some c \<Longrightarrow> pNode c = 0 \<or> pNode c \<in> nset (Ts (iTree c))"
  unfolding cursors_ok_def by blast

lemma cursors_below: "cursors_ok s Ts \<Longrightarrow> cursors s q = Some c \<Longrightarrow> q < next_ptr s"
  unfolding cursors_ok_def by blast

text \<open>The cursors of a table other than \<open>q\<close>, which an update must not leave at a node.\<close>

definition others_clear :: "rbt_db \<Rightarrow> ptr \<Rightarrow> int \<Rightarrow> bool" where
  "others_clear s q n \<longleftrightarrow> (\<forall>p c. cursors s p = Some c \<longrightarrow> p \<noteq> q \<longrightarrow> iTree c = n \<longrightarrow> pNode c = 0)"

definition no_readers :: "rbt_db \<Rightarrow> ptr \<Rightarrow> bool" where
  "no_readers s q \<longleftrightarrow> (\<forall>p c. cursors s p = Some c \<longrightarrow> p \<noteq> q \<longrightarrow> iTree c = iTree (the (cursors s q)) \<longrightarrow> wrFlag c)"

text \<open>A cursor that may write. The cursor of the rollback, at 0, is the only one in use when there is one.\<close>

definition writer :: "rbt_db \<Rightarrow> ptr \<Rightarrow> rbt_cursor \<Rightarrow> bool" where
  "writer s q cur \<longleftrightarrow> cursors s q = Some cur \<and> wrFlag cur \<and> (q \<noteq> 0 \<longrightarrow> cursors s 0 = None)"

lemma checkReadLocks_result:
  assumes ok: "db_ok s Ts" and q: "writer s q cur"
  shows "\<exists>rc cs. checkReadLocks s q = Some (rc, s\<lparr>cursors := cs\<rparr>) \<and> db_ok (s\<lparr>cursors := cs\<rparr>) Ts \<and>
    (rc = SQLITE_OK \<or> rc = SQLITE_LOCKED) \<and> (rc = SQLITE_OK \<longleftrightarrow> no_readers s q) \<and>
    writer (s\<lparr>cursors := cs\<rparr>) q cur \<and> (rc = SQLITE_OK \<longrightarrow> others_clear (s\<lparr>cursors := cs\<rparr>) q (iTree cur)) \<and>
    (\<forall>p. map_option (\<lambda>c. (iTree c, wrFlag c)) (cs p) = map_option (\<lambda>c. (iTree c, wrFlag c)) (cursors s p))"
proof -
  have cur: "cursors s q = Some cur" "wrFlag cur" "q \<noteq> 0 \<Longrightarrow> cursors s 0 = None" using q by (auto simp: writer_def)
  have cok: "cursors_ok s Ts" using ok by (simp add: db_ok_def)
  obtain t where t: "tbl s (iTree cur) = Some t" using cursors_table [OF cok cur(1)] by blast
  have list: "distinct (pCursors t)" "\<forall>p\<in>set (pCursors t). p \<noteq> 0 \<and> (\<exists>c. cursors s p = Some c \<and> iTree c = iTree cur)"
    using cursors_distinct [OF cok t] cursors_listed [OF cok t] by blast+
  have listed: "p \<in> set (pCursors t)" if "cursors s p = Some c" "iTree c = iTree cur" "p \<noteq> q" for p c
  proof -
    have "p \<noteq> 0" using that cur(3) cur(1) by (cases "p = 0"; cases "q = 0") auto
    then show ?thesis using cursors_table [OF cok that(1)] that(2) t by auto
  qed
  have pre: "\<forall>p\<in>set (pCursors t). p \<noteq> q \<longrightarrow> (\<exists>c. cursors s p = Some c)" using list(2) by blast
  obtain rc cs where r: "read_locks q (pCursors t) s = Some (rc, s\<lparr>cursors := cs\<rparr>)"
    "\<forall>p. cs p = cursors s p \<or> p \<in> set (pCursors t) \<and> p \<noteq> q \<and> cs p = map_option (\<lambda>c. c\<lparr>pNode := 0\<rparr>) (cursors s p)"
    "rc = SQLITE_OK \<or> rc = SQLITE_LOCKED"
    "rc = SQLITE_OK \<longleftrightarrow> (\<forall>p\<in>set (pCursors t). p \<noteq> q \<longrightarrow> wrFlag (the (cursors s p)))"
    "rc = SQLITE_OK \<longrightarrow> (\<forall>p\<in>set (pCursors t). p \<noteq> q \<longrightarrow> pNode (the (cs p)) = 0)"
    using read_locks_result [OF pre list(1)] by blast
  have csq: "cs q = Some cur" using r(2) cur(1) by metis
  have cs: "\<exists>c. cursors s p = Some c \<and> iTree c' = iTree c \<and> wrFlag c' = wrFlag c \<and> (pNode c' = pNode c \<or> pNode c' = 0)"
    if "cs p = Some c'" for p c'
    using r(2) [rule_format, of p] that by (cases "cursors s p") auto
  have cs': "\<exists>c'. cs p = Some c' \<and> iTree c' = iTree c" if "cursors s p = Some c" for p c
    using r(2) [rule_format, of p] that by auto
  have "cursors_ok (s\<lparr>cursors := cs\<rparr>) Ts"
    unfolding cursors_ok_def
  proof (intro conjI allI impI; simp?)
    fix n t q assume "tbl s n = Some t" "q \<in> set (pCursors t)"
    then show "0 < q" "\<exists>c. cs q = Some c \<and> iTree c = n" using cursors_listed [OF cok] cs' by (metis not_gr_zero)+
  next
    fix n t assume "tbl s n = Some t"
    then show "distinct (pCursors t)" using cursors_distinct [OF cok] by blast
  next
    fix p c' assume c': "cs p = Some c'"
    obtain c where "cursors s p = Some c" "iTree c' = iTree c" "pNode c' = pNode c \<or> pNode c' = 0" using cs [OF c'] by blast
    then show "p < next_ptr s" "\<exists>t. tbl s (iTree c') = Some t \<and> (p = 0 \<or> p \<in> set (pCursors t))"
      "pNode c' = 0 \<or> pNode c' \<in> nset (Ts (iTree c'))"
      using cursors_below [OF cok] cursors_table [OF cok] cursors_pos [OF cok] by metis+
  qed
  then have "db_ok (s\<lparr>cursors := cs\<rparr>) Ts" using ok trees_ok_cong [of "s\<lparr>cursors := cs\<rparr>" s Ts] by (simp add: db_ok_def)
  moreover have "rc = SQLITE_OK \<longleftrightarrow> no_readers s q"
    unfolding r(4) no_readers_def cur(1) using listed list(2) by (metis option.sel)
  moreover have "writer (s\<lparr>cursors := cs\<rparr>) q cur"
    using csq cur cs [of 0] by (cases "cs 0"; cases "q = 0") (auto simp: writer_def)
  moreover have "others_clear (s\<lparr>cursors := cs\<rparr>) q (iTree cur)" if "rc = SQLITE_OK"
    unfolding others_clear_def
  proof (intro allI impI)
    fix p c' assume a: "cursors (s\<lparr>cursors := cs\<rparr>) p = Some c'" "p \<noteq> q" "iTree c' = iTree cur"
    then have c': "cs p = Some c'" by simp
    then obtain c where "cursors s p = Some c" "iTree c' = iTree c" using cs by blast
    then have "p \<in> set (pCursors t)" using listed a by auto
    then show "pNode c' = 0" using r(5) that a(2) c' by auto
  qed
  moreover have "map_option (\<lambda>c. (iTree c, wrFlag c)) (cs p) = map_option (\<lambda>c. (iTree c, wrFlag c)) (cursors s p)" for p
    using r(2) [rule_format, of p] by (cases "cursors s p") auto
  ultimately show ?thesis using r(1,3) by (intro exI [of _ rc] exI [of _ cs]) (simp add: checkReadLocks_def cur t assertion_def)
qed

section \<open>Updates of one table\<close>

lemma db_ok_update:
  assumes ok: "db_ok s Ts" and t: "tbl s n = Some t" and T': "tree_ok h' p' T'"
    and fresh: "nset T' \<subseteq> nset (Ts n) \<union> {next_ptr s..<np}" "next_ptr s \<le> np"
    and frame: "\<And>p. p \<notin> nset (Ts n) \<Longrightarrow> p < next_ptr s \<Longrightarrow> h' p = heap s p"
    and oc: "others_clear s q n" and cur: "cursors s q = Some cur" "iTree cur = n"
    and cur': "iTree cur' = n" "pNode cur' = 0 \<or> pNode cur' \<in> nset T'"
    and s': "heap s' = h'" "next_ptr s' = np" "tblHash s' = AList.update n (t\<lparr>pHead := p'\<rparr>) (tblHash s)"
      "cursors s' = (cursors s)(q \<mapsto> cur')"
  shows "db_ok s' (Ts(n := T'))"
proof -
  have tr: "trees_ok s Ts" and cok: "cursors_ok s Ts" using ok by (auto simp: db_ok_def)
  have tb: "tbl s' m = (if m = n then Some (t\<lparr>pHead := p'\<rparr>) else tbl s m)" for m
    by (simp add: s'(3) update_conv' fun_upd_apply)
  have bound: "nset (Ts m) \<subseteq> {..<next_ptr s}" if "tbl s m = Some tm" for m tm
    using tr that by (auto simp: trees_ok_def)
  have disj: "nset (Ts m) \<inter> nset (Ts n) = {}" if "tbl s m \<noteq> None" "m \<noteq> n" for m
    using tr that t unfolding trees_ok_def by blast
  have disj': "nset (Ts m) \<inter> nset T' = {}" if "tbl s m \<noteq> None" "m \<noteq> n" for m
    using disj [OF that] that bound fresh(1) by fastforce
  have old: "tree_ok h' (pHead tm) (Ts m)" if m: "tbl s m = Some tm" "m \<noteq> n" for m tm
  proof -
    have "h' p = heap s p" if "p \<in> nset (Ts m)" for p
      using that frame [of p] disj [of m] bound [of m] m by blast
    then show ?thesis using tr m holds_frame [of "heap s" "Ts m" h'] by (auto simp: trees_ok_def tree_ok_def)
  qed
  have T'b: "nset T' \<subseteq> {..<np}" using fresh bound [OF t] by force
  have bound': "nset (Ts m) \<subseteq> {..<np}" if "tbl s m = Some tm" for m tm
    using bound [OF that] fresh(2) by force
  have disj2: "nset (Ts m) \<inter> nset (Ts k) = {}" if "tbl s m \<noteq> None" "tbl s k \<noteq> None" "m \<noteq> k" for m k
    using tr that unfolding trees_ok_def by blast
  have "trees_ok s' (Ts(n := T'))"
    unfolding trees_ok_def s'(1,2) tb
  proof (intro conjI allI impI)
    show "0 < np" using tr fresh(2) by (simp add: trees_ok_def)
  next
    fix m tm assume m: "(if m = n then Some (t\<lparr>pHead := p'\<rparr>) else tbl s m) = Some tm"
    show "tree_ok h' (pHead tm) ((Ts(n := T')) m)" using m T' old by (auto simp: fun_upd_apply split: if_splits)
    show "nset ((Ts(n := T')) m) \<subseteq> {..<np}" using m T'b bound' by (auto simp: fun_upd_apply split: if_splits)
  next
    fix m k assume "(if m = n then Some (t\<lparr>pHead := p'\<rparr>) else tbl s m) \<noteq> None"
      "(if k = n then Some (t\<lparr>pHead := p'\<rparr>) else tbl s k) \<noteq> None" "m \<noteq> k"
    then show "nset ((Ts(n := T')) m) \<inter> nset ((Ts(n := T')) k) = {}"
      using disj' disj2 by (auto simp: fun_upd_apply split: if_splits)
  qed
  moreover have "cursors_ok s' (Ts(n := T'))"
    unfolding cursors_ok_def tb s'(2,4)
  proof (intro conjI allI impI)
    fix m tm p assume "(if m = n then Some (t\<lparr>pHead := p'\<rparr>) else tbl s m) = Some tm" "p \<in> set (pCursors tm)"
    then have "p \<noteq> 0 \<and> (\<exists>c. cursors s p = Some c \<and> iTree c = m)"
      using cursors_listed [OF cok, of m _ p] t by (auto split: if_splits)
    then show "p \<noteq> 0" "\<exists>c. ((cursors s)(q \<mapsto> cur')) p = Some c \<and> iTree c = m"
      using cur cur'(1) by (auto simp: fun_upd_apply)
  next
    fix m tm assume "(if m = n then Some (t\<lparr>pHead := p'\<rparr>) else tbl s m) = Some tm"
    then show "distinct (pCursors tm)" using cursors_distinct [OF cok] t by (auto split: if_splits)
  next
    fix p c assume c: "((cursors s)(q \<mapsto> cur')) p = Some c"
    obtain c0 where c0: "cursors s p = Some c0" "iTree c0 = iTree c"
      using c cur cur'(1) by (auto simp: fun_upd_apply split: if_splits)
    show "p < np" using cursors_below [OF cok c0(1)] fresh(2) by simp
    show "\<exists>tm. (if iTree c = n then Some (t\<lparr>pHead := p'\<rparr>) else tbl s (iTree c)) = Some tm \<and> (p = 0 \<or> p \<in> set (pCursors tm))"
      using cursors_table [OF cok c0(1)] c0(2) t by auto
    show "pNode c = 0 \<or> pNode c \<in> nset ((Ts(n := T')) (iTree c))"
    proof (cases "p = q")
      case True
      then show ?thesis using c cur' by (auto simp: fun_upd_apply)
    next
      case False
      then have "cursors s p = Some c" using c by (simp add: fun_upd_apply)
      then show ?thesis using cursors_pos [OF cok, of p c] oc False by (auto simp: others_clear_def fun_upd_apply)
    qed
  qed
  ultimately show ?thesis by (simp add: db_ok_def)
qed

end
