(* ===== verification/RbCursor.thy ===== *)
theory RbCursor
  imports RbInv
begin

text \<open>
  The cursor routines of the in-memory database: the search lands on the key or next to where it
  belongs, and the steps follow the key order, so that a scan from the first entry on delivers the
  contents of the table.
\<close>

section \<open>Where a cursor is\<close>

definition cursor_entry :: "rbt_db \<Rightarrow> ptr \<Rightarrow> (bytes \<times> bytes) option" where
  "cursor_entry s q =
     (case cursors s q of None \<Rightarrow> None
      | Some c \<Rightarrow> if pNode c = 0 then None
          else map_option (\<lambda>n. (RbTree.pKey n, RbTree.pData n)) (heap s (pNode c)))"

lemma set_cursor_fields [simp]:
  "heap (set_cursor q c s) = heap s" "next_ptr (set_cursor q c s) = next_ptr s" "tblHash (set_cursor q c s) = tblHash s"
  "cursors (set_cursor q c s) = (cursors s)(q \<mapsto> c)" "eTransState (set_cursor q c s) = eTransState s"
  "pTransRollback (set_cursor q c s) = pTransRollback s" "pCheckRollback (set_cursor q c s) = pCheckRollback s"
  "mallocs (set_cursor q c s) = mallocs s" "malloc_failed (set_cursor q c s) = malloc_failed s"
  "contents (set_cursor q c s) = contents s" "mem_ok (set_cursor q c s) = mem_ok s"
  by (simp_all add: set_cursor_def contents_def mem_ok_def fun_eq_iff split: option.split)

lemma db_ok_set_cursor:
  assumes ok: "db_ok s Ts" and c: "cursors s q = Some c" "iTree c' = iTree c"
    and p: "pNode c' = 0 \<or> pNode c' \<in> nset (Ts (iTree c))"
  shows "db_ok (set_cursor q c' s) Ts"
proof -
  have cok: "cursors_ok s Ts" and tr: "trees_ok s Ts" using ok by (auto simp: db_ok_def)
  have "cursors_ok (set_cursor q c' s) Ts"
    unfolding cursors_ok_def set_cursor_fields
  proof (intro conjI allI impI)
    fix n t r assume "tbl s n = Some t" "r \<in> set (pCursors t)"
    then have "r \<noteq> 0 \<and> (\<exists>d. cursors s r = Some d \<and> iTree d = n)" using cursors_listed [OF cok] by blast
    then show "r \<noteq> 0" "\<exists>d. ((cursors s)(q \<mapsto> c')) r = Some d \<and> iTree d = n"
      using c by (auto simp: fun_upd_apply)
  next
    fix n t assume "tbl s n = Some t"
    then show "distinct (pCursors t)" by (rule cursors_distinct [OF cok])
  next
    fix r d assume d: "((cursors s)(q \<mapsto> c')) r = Some d"
    then obtain d0 where d0: "cursors s r = Some d0" "iTree d0 = iTree d"
      using c by (auto simp: fun_upd_apply split: if_splits)
    show "r < next_ptr s" "\<exists>t. tbl s (iTree d) = Some t \<and> (r = 0 \<or> r \<in> set (pCursors t))"
      using cursors_below [OF cok d0(1)] cursors_table [OF cok d0(1)] d0(2) by auto
    show "pNode d = 0 \<or> pNode d \<in> nset (Ts (iTree d))"
    proof (cases "r = q")
      case True
      then show ?thesis using d p c(2) by (simp add: fun_upd_apply)
    next
      case False
      then show ?thesis using d cursors_pos [OF cok, of r d] by (simp add: fun_upd_apply)
    qed
  qed
  then show ?thesis using tr trees_ok_cong [of "set_cursor q c' s" s Ts] by (simp add: db_ok_def)
qed

lemma tree_at:
  assumes "db_ok s Ts" "tbl s n = Some t"
  shows "holds (heap s) (Ts n)" "root (Ts n) = pHead t" "rbinv (Ts n)" "black (Ts n)" "ksorted (Ts n)"
    "nset (Ts n) \<subseteq> {..<next_ptr s}" "contents s n = entries (Ts n)"
  using assms contents_tree [of s Ts n t] by (auto simp: db_ok_def trees_ok_def tree_ok_def)

lemma heap_at:
  "holds h (plug c (Br l a b k d r)) \<Longrightarrow> \<exists>n. h a = Some n \<and> RbTree.pKey n = k \<and> RbTree.pData n = d"
  using holds_node [of h c l a b k d r] by (auto simp: deref_def split: if_splits)

lemma cursor_tree:
  assumes "db_ok s Ts" "cursors s q = Some c"
  obtains t where "tbl s (iTree c) = Some t"
  using cursors_table assms unfolding db_ok_def by blast

text \<open>A cursor at a node, and the context of the node.\<close>

lemma cursor_context:
  assumes ok: "db_ok s Ts" and c: "cursors s q = Some c" "pNode c \<noteq> 0"
  obtains ctx l b k d r where "Ts (iTree c) = plug ctx (Br l (pNode c) b k d r)" "cursor_entry s q = Some (k, d)"
    "contents s (iTree c) = map snd (cleft ctx) @ entries l @ (k, d) # entries r @ map snd (cright ctx)"
proof -
  obtain t where t: "tbl s (iTree c) = Some t" using cursor_tree [OF ok c(1)] .
  have "pNode c \<in> nset (Ts (iTree c))" using cursors_pos [of s Ts q c] ok c by (auto simp: db_ok_def)
  then obtain x where "x \<in> set (nodes (Ts (iTree c)))" "fst x = pNode c" by (auto simp: addrs_nodes)
  then obtain ctx l b k d r where T: "Ts (iTree c) = plug ctx (Br l (pNode c) b k d r)"
    using node_context by metis
  obtain n where "heap s (pNode c) = Some n" "RbTree.pKey n = k" "RbTree.pData n = d"
    using heap_at tree_at(1) [OF ok t] unfolding T by blast
  then show thesis
    using that [OF T] c tree_at(7) [OF ok t] by (simp add: cursor_entry_def T nodes_plug)
qed

text \<open>The entries before and behind the cursor are determined by the entry at the cursor.\<close>

lemma split_unique:
  fixes xs :: "(bytes \<times> bytes) list"
  assumes "sorted_wrt (<) (map fst (xs @ e # ys))" "xs @ e # ys = xs' @ e' # ys'" "fst e = fst e'"
  shows "xs = xs' \<and> e = e' \<and> ys = ys'"
  using assms
proof (induction xs arbitrary: xs')
  case Nil
  show ?case
  proof (cases xs')
    case (Cons a as)
    then have "fst e < fst e'" using Nil by auto
    then show ?thesis using Nil by simp
  qed (use Nil in simp)
next
  case (Cons x xs)
  show ?case
  proof (cases xs')
    case Nil
    then have "fst x < fst e" "x = e'" using Cons.prems by auto
    then show ?thesis using Cons.prems by simp
  next
    case (Cons a as)
    have s: "sorted_wrt (<) (map fst (xs @ e # ys))" using Cons.prems(1) by simp
    have a: "xs @ e # ys = as @ e' # ys'" "x = a" using Cons.prems(2) Cons by simp_all
    show ?thesis using Cons.IH [OF s a(1) Cons.prems(3)] a(2) Cons by simp
  qed
qed

lemma cursor_split:
  assumes ok: "db_ok s Ts" and c: "cursors s q = Some c" and e: "cursor_entry s q = Some e"
    and xy: "contents s (iTree c) = xs @ e # ys"
  obtains ctx l b r where "Ts (iTree c) = plug ctx (Br l (pNode c) b (fst e) (snd e) r)" "pNode c \<noteq> 0"
    "xs = map snd (cleft ctx) @ entries l" "ys = entries r @ map snd (cright ctx)"
proof -
  have nz: "pNode c \<noteq> 0" using e c by (simp add: cursor_entry_def split: if_splits)
  obtain t where t: "tbl s (iTree c) = Some t" using cursor_tree [OF ok c] .
  obtain ctx l b k d r where k: "Ts (iTree c) = plug ctx (Br l (pNode c) b k d r)" "cursor_entry s q = Some (k, d)"
    "contents s (iTree c) = map snd (cleft ctx) @ entries l @ (k, d) # entries r @ map snd (cright ctx)"
    using cursor_context [OF ok c nz] .
  have "sorted_wrt (<) (map fst (contents s (iTree c)))"
    using entries_sorted [OF tree_at(5) [OF ok t]] tree_at(7) [OF ok t] by simp
  then have "sorted_wrt (<) (map fst (xs @ e # ys))" using xy by simp
  moreover have "xs @ e # ys = (map snd (cleft ctx) @ entries l) @ (k, d) # (entries r @ map snd (cright ctx))"
    using xy k(3) by simp
  moreover have "fst e = fst (k, d)" using k(2) e by simp
  ultimately have "xs = map snd (cleft ctx) @ entries l \<and> e = (k, d) \<and> ys = entries r @ map snd (cright ctx)"
    by (rule split_unique)
  then show thesis using that k(1) nz by auto
qed

section \<open>Steps\<close>

lemma node_in_tree: "x \<in> set (nodes T) \<Longrightarrow> fst x \<in> nset T"
  by (simp add: addrs_nodes)

lemma heap_entry: "holds h T \<Longrightarrow> x \<in> set (nodes T) \<Longrightarrow>
   fst x \<noteq> 0 \<and> map_option (\<lambda>n. (RbTree.pKey n, RbTree.pData n)) (h (fst x)) = Some (snd x)"
proof -
  assume h: "holds h T" and x: "x \<in> set (nodes T)"
  obtain c l b r where T: "T = plug c (Br l (fst x) b (fst (snd x)) (snd (snd x)) r)" using node_context [OF x] by blast
  have "holds h (plug c (Br l (fst x) b (fst (snd x)) (snd (snd x)) r))" using h T by simp
  from heap_at [OF this] hole_0 [OF this] show ?thesis by auto
qed

text \<open>Moving a cursor to a node of its table.\<close>

lemma place_cursor:
  assumes ok: "db_ok s Ts" and c: "cursors s q = Some c" "iTree c' = iTree c"
    and x: "pNode c' = (case xs of [] \<Rightarrow> 0 | x # _ \<Rightarrow> fst x)" "set xs \<subseteq> set (nodes (Ts (iTree c)))"
  shows "db_ok (set_cursor q c' s) Ts \<and> cursor_entry (set_cursor q c' s) q = (case xs of [] \<Rightarrow> None | x # _ \<Rightarrow> Some (snd x))
    \<and> (pNode c' = 0 \<longleftrightarrow> xs = [])"
proof -
  obtain t where t: "tbl s (iTree c) = Some t" using cursor_tree [OF ok c(1)] .
  show ?thesis
  proof (cases xs)
    case Nil
    then show ?thesis using db_ok_set_cursor [OF ok c] x by (simp add: cursor_entry_def fun_upd_apply)
  next
    case (Cons y ys)
    then have y: "y \<in> set (nodes (Ts (iTree c)))" using x by auto
    then show ?thesis
      using db_ok_set_cursor [OF ok c] x heap_entry [OF tree_at(1) [OF ok t] y] node_in_tree [OF y] Cons
      by (auto simp add: cursor_entry_def fun_upd_apply)
  qed
qed

lemma Next_result:
  assumes ok: "db_ok s Ts" and c: "cursors s q = Some c" and e: "cursor_entry s q = Some e"
    and xy: "contents s (iTree c) = xs @ e # ys" and sk: "eSkip c \<noteq> SKIP_NEXT"
  shows "\<exists>p. memRbtreeNext s q = Some (if ys = [] then 1 else 0, set_cursor q (c\<lparr>pNode := p, eSkip := SKIP_NONE\<rparr>) s) \<and>
    db_ok (set_cursor q (c\<lparr>pNode := p, eSkip := SKIP_NONE\<rparr>) s) Ts \<and>
    cursor_entry (set_cursor q (c\<lparr>pNode := p, eSkip := SKIP_NONE\<rparr>) s) q = (case ys of [] \<Rightarrow> None | y # _ \<Rightarrow> Some y)"
proof -
  obtain t where t: "tbl s (iTree c) = Some t" using cursor_tree [OF ok c] .
  obtain ctx l b r where T: "Ts (iTree c) = plug ctx (Br l (pNode c) b (fst e) (snd e) r)" "pNode c \<noteq> 0"
    "xs = map snd (cleft ctx) @ entries l" "ys = entries r @ map snd (cright ctx)"
    using cursor_split [OF ok c e xy] .
  define zs where "zs = nodes r @ cright ctx"
  have n: "next_node (heap s) (pNode c) = Some (first_addr zs)"
    using next_node_plug tree_at(1) [OF ok t] unfolding T(1) zs_def by blast
  let ?c = "c\<lparr>pNode := first_addr zs, eSkip := SKIP_NONE\<rparr>"
  have "set zs \<subseteq> set (nodes (Ts (iTree c)))" by (auto simp: T(1) nodes_plug zs_def)
  note pl = place_cursor [OF ok c, of ?c zs, OF _ _ this, simplified]
  have ys: "ys = map snd zs" by (simp add: T(4) zs_def)
  show ?thesis
    by (rule exI [of _ "first_addr zs"]) (use pl n T(2) sk in \<open>auto simp: memRbtreeNext_def c ys split: list.splits\<close>)
qed


lemma Previous_result:
  assumes ok: "db_ok s Ts" and c: "cursors s q = Some c" and e: "cursor_entry s q = Some e"
    and xy: "contents s (iTree c) = xs @ e # ys" and sk: "eSkip c \<noteq> SKIP_PREV"
  shows "\<exists>p. memRbtreePrevious s q = Some (if xs = [] then 1 else 0, set_cursor q (c\<lparr>pNode := p, eSkip := SKIP_NONE\<rparr>) s) \<and>
    db_ok (set_cursor q (c\<lparr>pNode := p, eSkip := SKIP_NONE\<rparr>) s) Ts \<and>
    cursor_entry (set_cursor q (c\<lparr>pNode := p, eSkip := SKIP_NONE\<rparr>) s) q = (if xs = [] then None else Some (last xs))"
proof -
  obtain t where t: "tbl s (iTree c) = Some t" using cursor_tree [OF ok c] .
  obtain ctx l b r where T: "Ts (iTree c) = plug ctx (Br l (pNode c) b (fst e) (snd e) r)" "pNode c \<noteq> 0"
    "xs = map snd (cleft ctx) @ entries l" "ys = entries r @ map snd (cright ctx)"
    using cursor_split [OF ok c e xy] .
  define zs where "zs = cleft ctx @ nodes l"
  have n: "prev_node (heap s) (pNode c) = Some (last_addr zs)"
    using prev_node_plug tree_at(1) [OF ok t] unfolding T(1) zs_def by blast
  define us where "us = (if zs = [] then [] else [last zs])"
  let ?c = "c\<lparr>pNode := last_addr zs, eSkip := SKIP_NONE\<rparr>"
  have "set zs \<subseteq> set (nodes (Ts (iTree c)))" by (auto simp: T(1) nodes_plug zs_def)
  then have "set us \<subseteq> set (nodes (Ts (iTree c)))" using last_in_set [of zs] by (auto simp: us_def)
  then have pl: "db_ok (set_cursor q ?c s) Ts \<and> cursor_entry (set_cursor q ?c s) q = (case us of [] \<Rightarrow> None | x # _ \<Rightarrow> Some (snd x))
    \<and> (last_addr zs = 0 \<longleftrightarrow> us = [])"
    using place_cursor [OF ok c, of ?c us] by (cases "zs = []") (simp_all add: us_def)
  have xs: "xs = map snd zs" by (simp add: T(3) zs_def)
  show ?thesis
    by (rule exI [of _ "last_addr zs"])
      (use pl n T(2) sk in \<open>cases "zs = []"; simp add: memRbtreePrevious_def c xs us_def last_map\<close>)
qed

text \<open>A skip flag makes the next step a no-op.\<close>

lemma Next_skip:
  assumes "cursors s q = Some c" "eSkip c = SKIP_NEXT \<or> pNode c = 0"
  shows "memRbtreeNext s q = Some (if pNode c = 0 then 1 else 0, set_cursor q (c\<lparr>eSkip := SKIP_NONE\<rparr>) s)"
  using assms by (auto simp: memRbtreeNext_def)

lemma Previous_skip:
  assumes "cursors s q = Some c" "eSkip c = SKIP_PREV \<or> pNode c = 0"
  shows "memRbtreePrevious s q = Some (if pNode c = 0 then 1 else 0, set_cursor q (c\<lparr>eSkip := SKIP_NONE\<rparr>) s)"
  using assms by (auto simp: memRbtreePrevious_def)

lemma contents_empty: "db_ok s Ts \<Longrightarrow> tbl s n = Some t \<Longrightarrow> contents s n = [] \<longleftrightarrow> Ts n = Lf"
  by (simp add: tree_at(7))

lemma head_0: "db_ok s Ts \<Longrightarrow> tbl s n = Some t \<Longrightarrow> pHead t = 0 \<longleftrightarrow> Ts n = Lf"
  using holds_root_0 [of "heap s" "[]" "Ts n"] tree_at(1,2) [of s Ts n t] by simp

lemma First_result:
  assumes ok: "db_ok s Ts" and c: "cursors s q = Some c" and x: "contents s (iTree c) = x # xs"
  shows "\<exists>p. memRbtreeFirst s q = Some (0, set_cursor q (c\<lparr>pNode := p, eSkip := SKIP_NONE\<rparr>) s) \<and>
    db_ok (set_cursor q (c\<lparr>pNode := p, eSkip := SKIP_NONE\<rparr>) s) Ts \<and>
    cursor_entry (set_cursor q (c\<lparr>pNode := p, eSkip := SKIP_NONE\<rparr>) s) q = Some x"
proof -
  obtain t where t: "tbl s (iTree c) = Some t" using cursor_tree [OF ok c] .
  define zs where "zs = nodes (Ts (iTree c))"
  have zs: "map snd zs = x # xs" using x tree_at(7) [OF ok t] by (simp add: zs_def)
  then have ne: "Ts (iTree c) \<noteq> Lf" by (auto simp: zs_def)
  have l: "leftmost (heap s) (pHead t) = Some (first_addr zs)"
    using leftmost_plug [of "heap s" "[]" "Ts (iTree c)"] tree_at(1,2) [OF ok t] ne by (simp add: zs_def)
  let ?c = "c\<lparr>pNode := first_addr zs, eSkip := SKIP_NONE\<rparr>"
  have pl: "db_ok (set_cursor q ?c s) Ts \<and> cursor_entry (set_cursor q ?c s) q = (case zs of [] \<Rightarrow> None | x # _ \<Rightarrow> Some (snd x))
    \<and> (first_addr zs = 0 \<longleftrightarrow> zs = [])"
    using place_cursor [OF ok c, of ?c zs] by (simp add: zs_def)
  show ?thesis
    by (rule exI [of _ "first_addr zs"])
      (use pl l zs ne head_0 [OF ok t] in \<open>cases zs; simp add: memRbtreeFirst_def c t\<close>)
qed

lemma Last_result:
  assumes ok: "db_ok s Ts" and c: "cursors s q = Some c" and x: "contents s (iTree c) = xs @ [x]"
  shows "\<exists>p. memRbtreeLast s q = Some (0, set_cursor q (c\<lparr>pNode := p, eSkip := SKIP_NONE\<rparr>) s) \<and>
    db_ok (set_cursor q (c\<lparr>pNode := p, eSkip := SKIP_NONE\<rparr>) s) Ts \<and>
    cursor_entry (set_cursor q (c\<lparr>pNode := p, eSkip := SKIP_NONE\<rparr>) s) q = Some x"
proof -
  obtain t where t: "tbl s (iTree c) = Some t" using cursor_tree [OF ok c] .
  define zs where "zs = nodes (Ts (iTree c))"
  have zs: "map snd zs = xs @ [x]" using x tree_at(7) [OF ok t] by (simp add: zs_def)
  then have ne: "Ts (iTree c) \<noteq> Lf" "zs \<noteq> []" by (auto simp: zs_def)
  have lx: "snd (last zs) = x" using zs ne(2) by (metis last_map last_snoc)
  have l: "rightmost (heap s) (pHead t) = Some (last_addr zs)"
    using rightmost_plug [of "heap s" "[]" "Ts (iTree c)"] tree_at(1,2) [OF ok t] ne by (simp add: zs_def)
  let ?c = "c\<lparr>pNode := last_addr zs, eSkip := SKIP_NONE\<rparr>"
  have pl: "db_ok (set_cursor q ?c s) Ts \<and> cursor_entry (set_cursor q ?c s) q = Some x \<and> fst (last zs) \<noteq> 0"
    using place_cursor [OF ok c, of ?c "[last zs]"] ne lx by (simp add: zs_def)
  show ?thesis
    by (rule exI [of _ "last_addr zs"])
      (use pl l ne head_0 [OF ok t] in \<open>simp add: memRbtreeLast_def c t\<close>)
qed

lemma Moveto_result:
  assumes ok: "db_ok s Ts" and c: "cursors s q = Some c"
  shows "\<exists>res p. memRbtreeMoveto s q key = Some (res, set_cursor q (c\<lparr>pNode := p, eSkip := SKIP_NONE\<rparr>) s) \<and>
    db_ok (set_cursor q (c\<lparr>pNode := p, eSkip := SKIP_NONE\<rparr>) s) Ts \<and>
    (let e = cursor_entry (set_cursor q (c\<lparr>pNode := p, eSkip := SKIP_NONE\<rparr>) s) q
     in (\<exists>ctx l b d r. Ts (iTree c) = plug ctx (Br l p b key d r) \<and> res = 0 \<and> e = Some (key, d)) \<or>
        (\<exists>ctx. Ts (iTree c) = plug ctx Lf \<and> p = cpar ctx \<and> res = hole_dir ctx \<and>
          (\<forall>k\<in>set (keys (cleft ctx)). k < key) \<and> (\<forall>k\<in>set (keys (cright ctx)). key < k) \<and>
          e = (case ctx of [] \<Rightarrow> None
               | FL a b k d r # _ \<Rightarrow> Some (k, d) | FR l a b k d # _ \<Rightarrow> Some (k, d))))"
proof -
  obtain t where t: "tbl s (iTree c) = Some t" using cursor_tree [OF ok c] .
  note tr = tree_at [OF ok t]
  from tr(1) tr(5) show ?thesis
  proof (cases rule: moveto_cases [of "heap s" "Ts (iTree c)" key])
    case (found ctx l a b d r)
    have x: "(a, key, d) \<in> set (nodes (Ts (iTree c)))" unfolding found(1) by (simp add: nodes_plug)
    let ?c = "c\<lparr>pNode := a, eSkip := SKIP_NONE\<rparr>"
    have "db_ok (set_cursor q ?c s) Ts \<and> cursor_entry (set_cursor q ?c s) q = Some (key, d)"
      using place_cursor [OF ok c, of ?c "[(a, key, d)]"] x by simp
    then show ?thesis using found tr(2)
      by (intro exI [of _ 0] exI [of _ a]) (auto simp: memRbtreeMoveto_def c t)
  next
    case (missing ctx)
    let ?c = "c\<lparr>pNode := cpar ctx, eSkip := SKIP_NONE\<rparr>"
    define us where "us = (case ctx of [] \<Rightarrow> [] | FL a b k d r # _ \<Rightarrow> [(a, k, d)] | FR l a b k d # _ \<Rightarrow> [(a, k, d)])"
    have "cpar ctx = (case us of [] \<Rightarrow> 0 | x # _ \<Rightarrow> fst x)"
      by (cases ctx) (auto simp: us_def split: rbframe.split)
    moreover have "set us \<subseteq> set (nodes (Ts (iTree c)))"
      unfolding missing(1) nodes_plug us_def by (cases ctx; simp; cases "hd ctx"; simp)
    ultimately have "db_ok (set_cursor q ?c s) Ts \<and> cursor_entry (set_cursor q ?c s) q = (case us of [] \<Rightarrow> None | x # _ \<Rightarrow> Some (snd x))"
      using place_cursor [OF ok c, of ?c us] by simp
    moreover have "(case us of [] \<Rightarrow> None | x # _ \<Rightarrow> Some (snd x)) = (case ctx of [] \<Rightarrow> None
               | FL a b k d r # _ \<Rightarrow> Some (k, d) | FR l a b k d # _ \<Rightarrow> Some (k, d))"
      by (auto simp: us_def split: list.split rbframe.split)
    ultimately show ?thesis using missing tr(2)
      by (intro exI [of _ "hole_dir ctx"] exI [of _ "cpar ctx"]) (auto simp: memRbtreeMoveto_def c t Let_def)
  qed
qed

end
