(* ===== verification/RbUpdate.thy ===== *)
theory RbUpdate
  imports RbCursor
begin

text \<open>
  Insertion and deletion through a cursor: what they do to the database as a map of maps, to the
  cursor and to the rollback log, for every outcome of the allocations and of the lock check.
\<close>

section \<open>Maps and sorted lists\<close>

lemma map_of_insert: "k \<notin> fst ` set xs \<Longrightarrow> map_of (xs @ (k, v) # ys) = (map_of (xs @ ys))(k \<mapsto> v)"
  by (induction xs) (auto simp: fun_upd_twist)

lemma map_of_delete: "k \<notin> fst ` set xs \<Longrightarrow> k \<notin> fst ` set ys \<Longrightarrow> (map_of (xs @ (k, v) # ys))(k := None) = map_of (xs @ ys)"
proof (rule ext)
  fix a assume k: "k \<notin> fst ` set xs" "k \<notin> fst ` set ys"
  show "((map_of (xs @ (k, v) # ys))(k := None)) a = map_of (xs @ ys) a"
  proof (cases "a = k")
    case True
    have "map_of (xs @ ys) k = None" unfolding map_of_eq_None_iff using k by auto
    then show ?thesis using True by (simp only: fun_upd_same)
  next
    case False
    then have "map_of (xs @ (k, v) # ys) a = map_of (xs @ ys) a" by (induction xs) (auto simp: fun_upd_apply)
    then show ?thesis using False by simp
  qed
qed

section \<open>What an update leaves alone\<close>

definition frame_same :: "rbt_db \<Rightarrow> rbt_db \<Rightarrow> bool" where
  "frame_same s s' \<longleftrightarrow> eTransState s' = eTransState s \<and> next_idx s' = next_idx s \<and> aMetaData s' = aMetaData s \<and>
     (\<forall>m. map_option pCursors (tbl s' m) = map_option pCursors (tbl s m)) \<and>
     (\<forall>p. map_option (\<lambda>c. (iTree c, wrFlag c)) (cursors s' p) = map_option (\<lambda>c. (iTree c, wrFlag c)) (cursors s p))"

lemma frame_same_refl [simp]: "frame_same s s"
  by (simp add: frame_same_def)

lemma frame_same_trans: "frame_same s s' \<Longrightarrow> frame_same s' s'' \<Longrightarrow> frame_same s s''"
  by (simp add: frame_same_def)

lemma same_data_frame: "same_data s s' \<Longrightarrow> frame_same s s'"
  by (simp add: same_data_def frame_same_def)

lemma frame_same_at:
  "frame_same s s' \<Longrightarrow> map_option (\<lambda>c. (iTree c, wrFlag c)) (cursors s' p) = map_option (\<lambda>c. (iTree c, wrFlag c)) (cursors s p)"
  unfolding frame_same_def by blast

lemma frame_same_cursor:
  "frame_same s s' \<Longrightarrow> cursors s q = Some c \<Longrightarrow> \<exists>c'. cursors s' q = Some c' \<and> iTree c' = iTree c \<and> wrFlag c' = wrFlag c"
  using frame_same_at [of s s' q] by (cases "cursors s' q") auto

lemma frame_same_no_cursor: "frame_same s s' \<Longrightarrow> cursors s q = None \<Longrightarrow> cursors s' q = None"
  using frame_same_at [of s s' q] by (cases "cursors s' q") auto

lemma frame_same_writer: "frame_same s s' \<Longrightarrow> writer s q c \<Longrightarrow> \<exists>c'. writer s' q c' \<and> iTree c' = iTree c"
  using frame_same_cursor [of s s' q c] frame_same_no_cursor [of s s' 0] unfolding writer_def by auto

lemma frame_set_cursor:
  "cursors s q = Some c \<Longrightarrow> iTree c' = iTree c \<Longrightarrow> wrFlag c' = wrFlag c \<Longrightarrow> frame_same s (set_cursor q c' s)"
  by (auto simp: frame_same_def set_cursor_def fun_upd_apply)

lemma same_data_database: "same_data s s' \<Longrightarrow> database s' = database s"
  by (rule ext) (simp add: same_data_def database_def contents_def split: option.split)

lemma same_data_entry: "same_data s s' \<Longrightarrow> cursor_entry s' q = cursor_entry s q"
  by (simp add: same_data_def cursor_entry_def split: option.split)

section \<open>The update of one table, as seen from outside\<close>

lemma update_result:
  assumes ok: "db_ok s Ts" and t: "tbl s n = Some t" and T': "tree_ok h' p' T'"
    and fresh: "nset T' \<subseteq> nset (Ts n) \<union> {next_ptr s..<np}" "next_ptr s \<le> np"
    and frame: "\<And>p. p \<notin> nset (Ts n) \<Longrightarrow> p < next_ptr s \<Longrightarrow> h' p = heap s p"
    and oc: "others_clear s q n" and cur: "cursors s q = Some cur" "iTree cur = n"
    and cur': "iTree cur' = n" "wrFlag cur' = wrFlag cur" "pNode cur' = 0 \<or> pNode cur' \<in> nset T'"
    and s': "heap s' = h'" "next_ptr s' = np" "tblHash s' = AList.update n (t\<lparr>pHead := p'\<rparr>) (tblHash s)"
      "cursors s' = (cursors s)(q \<mapsto> cur')" "eTransState s' = eTransState s" "next_idx s' = next_idx s" "aMetaData s' = aMetaData s"
  shows "db_ok s' (Ts(n := T')) \<and> contents s' n = entries T' \<and>
    database s' = (database s)(n \<mapsto> map_of (entries T')) \<and> frame_same s s'"
proof -
  have ok': "db_ok s' (Ts(n := T'))"
    using db_ok_update [OF ok t T' fresh frame oc cur cur'(1,3) s'(1,2,3,4)] .
  have tb: "tbl s' m = (if m = n then Some (t\<lparr>pHead := p'\<rparr>) else tbl s m)" for m
    by (simp add: s'(3) update_conv' fun_upd_apply)
  have c: "contents s' n = entries T'"
    using tree_at(7) [OF ok', of n "t\<lparr>pHead := p'\<rparr>"] by (simp add: tb)
  have "contents s' m = contents s m" if "m \<noteq> n" for m
  proof (cases "tbl s m")
    case None
    then show ?thesis using that by (simp add: contents_def tb)
  next
    case (Some tm)
    then show ?thesis using tree_at(7) [OF ok' , of m tm] tree_at(7) [OF ok Some] that by (simp add: tb fun_upd_apply)
  qed
  then have "database s' m = ((database s)(n \<mapsto> map_of (entries T'))) m" for m
    using c by (simp add: database_def tb fun_upd_apply split: option.split)
  then have "database s' = (database s)(n \<mapsto> map_of (entries T'))" by (rule ext)
  moreover have "frame_same s s'"
    unfolding frame_same_def tb s'(4,5,6,7) using t cur cur' by (auto simp: fun_upd_apply)
  ultimately show ?thesis using ok' c by simp
qed

lemma database_at: "db_ok s Ts \<Longrightarrow> tbl s n = Some t \<Longrightarrow> database s n = Some (map_of (entries (Ts n)))"
  using tree_at(7) [of s Ts n t] by (simp add: database_def)

lemma others_clear_cong:
  "others_clear s q n \<Longrightarrow> cursors s' = (cursors s)(q \<mapsto> c) \<Longrightarrow> others_clear s' q n"
  by (auto simp: others_clear_def fun_upd_apply)

lemma set_tbl_fields [simp]:
  "heap (set_tbl n t s) = heap s" "next_ptr (set_tbl n t s) = next_ptr s"
  "tblHash (set_tbl n t s) = AList.update n t (tblHash s)"
  "cursors (set_tbl n t s) = cursors s" "eTransState (set_tbl n t s) = eTransState s"
  "pTransRollback (set_tbl n t s) = pTransRollback s" "pCheckRollback (set_tbl n t s) = pCheckRollback s"
  "mallocs (set_tbl n t s) = mallocs s" "malloc_failed (set_tbl n t s) = malloc_failed s"
  "next_idx (set_tbl n t s) = next_idx s" "aMetaData (set_tbl n t s) = aMetaData s"
  by (simp_all add: set_tbl_def)

lemma set_cursor_rest [simp]: "next_idx (set_cursor q c s) = next_idx s" "aMetaData (set_cursor q c s) = aMetaData s"
  by (simp_all add: set_cursor_def)

section \<open>Hanging a new node into a table\<close>

lemma insert_node:
  assumes ok: "db_ok s Ts" and c: "cursors s q = Some c" "iTree c = n" and t: "tbl s n = Some t"
    and T: "Ts n = plug ctx Lf" and p: "pNode c = cpar ctx"
    and sorted: "\<forall>k\<in>set (keys (cleft ctx)). k < key" "\<forall>k\<in>set (keys (cright ctx)). key < k"
    and oc: "others_clear s q n"
  shows "\<exists>h1 p1 h2 p2 T'. link_node ((heap s)(next_ptr s \<mapsto> new_node key val)) (pHead t) (pNode c) (next_ptr s) (hole_dir ctx) = Some (h1, p1) \<and>
    do_insert_balancing h1 p1 (next_ptr s) = Some (h2, p2) \<and>
    (let s' = set_tbl n (t\<lparr>pHead := p2\<rparr>) (set_cursor q (c\<lparr>pNode := next_ptr s\<rparr>) (s\<lparr>heap := h2, next_ptr := next_ptr s + 1\<rparr>))
     in db_ok s' (Ts(n := T')) \<and> database s' = (database s)(n \<mapsto> (map_of (entries (Ts n)))(key \<mapsto> val)) \<and>
        frame_same s s' \<and> cursor_entry s' q = Some (key, val))"
proof -
  let ?a = "next_ptr s" and ?T = "plug ctx (Br Lf (next_ptr s) False key val Lf)"
  note tr = tree_at [OF ok t]
  have a: "?a \<notin> nset (plug ctx Lf)" "?a \<noteq> 0"
    using tr(6) ok by (auto simp: T db_ok_def trees_ok_def)
  obtain h1 where h1: "link_node ((heap s)(?a \<mapsto> new_node key val)) (root (plug ctx Lf)) (cpar ctx) ?a (hole_dir ctx) = Some (h1, root ?T)"
    "holds h1 ?T" "\<forall>p. p \<notin> nset ?T \<longrightarrow> h1 p = heap s p"
    using link_plug [OF tr(1) [unfolded T] a] by blast
  have crb: "crb ctx 0 True" using rbinv_plug [of ctx Lf] tr(3,4) T by simp
  obtain h2 T' where h2: "do_insert_balancing h1 (root ?T) ?a = Some (h2, root T')" "becomes h1 ?T h2 T'"
    "nodes T' = nodes ?T" "rbinv T'" "black T'"
    using do_insert_balancing_ok [OF h1(2)] crb by auto
  have nset: "nset T' = insert ?a (nset (Ts n))" using h2(2) by (auto simp: becomes_def T set_addrs_plug)
  have nodes: "nodes T' = cleft ctx @ (?a, key, val) # cright ctx" using h2(3) by (simp add: nodes_plug)
  have "sorted_wrt (<) (keys (cleft ctx @ cright ctx))" using tr(5) by (simp add: ksorted_def T nodes_plug)
  then have "ksorted T'" using sorted by (auto simp: ksorted_def nodes sorted_wrt_append)
  then have T': "tree_ok h2 (root T') T'" using h2 by (simp add: tree_ok_def becomes_def)
  let ?c = "c\<lparr>pNode := ?a\<rparr>"
  let ?s = "set_tbl n (t\<lparr>pHead := root T'\<rparr>) (set_cursor q ?c (s\<lparr>heap := h2, next_ptr := ?a + 1\<rparr>))"
  have frame: "h2 p = heap s p" if "p \<notin> nset (Ts n)" "p < ?a" for p
    using that h2(2) h1(3) by (auto simp: becomes_def T set_addrs_plug)
  have up: "db_ok ?s (Ts(n := T')) \<and> contents ?s n = entries T' \<and>
      database ?s = (database s)(n \<mapsto> map_of (entries T')) \<and> frame_same s ?s"
    by (rule update_result [OF ok t T' _ _ frame oc c, where np = "?a + 1" and cur' = ?c])
      (use nset c in auto)
  have key: "key \<notin> fst ` set (map snd (cleft ctx))" using sorted(1) by force
  have m: "map_of (entries T') = (map_of (entries (Ts n)))(key \<mapsto> val)"
    using map_of_insert [OF key, of val "map snd (cright ctx)"] by (simp add: nodes T nodes_plug)
  have "(?a, key, val) \<in> set (nodes T')" by (simp add: nodes)
  then have "map_option (\<lambda>n. (RbTree.pKey n, RbTree.pData n)) (h2 ?a) = Some (key, val)"
    using heap_entry [of h2 T' "(?a, key, val)"] T' by (simp add: tree_ok_def)
  then have "cursor_entry ?s q = Some (key, val)" using a(2) by (simp add: cursor_entry_def)
  then show ?thesis using h1(1) h2(1) up m tr(2) by (intro exI [of _ h1] exI [of _ "root ?T"] exI [of _ h2] exI [of _ "root T'"] exI [of _ T']) (simp add: p T)
qed

section \<open>Replacing the entry of a node\<close>

lemma set_entry_plug:
  assumes "holds h (plug c (Br l a b k d r))"
    and f: "\<And>n. RbTree.pKey n = k \<Longrightarrow> RbTree.pData n = d \<Longrightarrow> RbTree.pKey (f n) = k' \<and> RbTree.pData (f n) = d' \<and> isBlack (f n) = isBlack n \<and>
      pParent (f n) = pParent n \<and> pLeft (f n) = pLeft n \<and> pRight (f n) = pRight n"
  shows "\<exists>h'. upd h a f = Some h' \<and> becomes h (plug c (Br l a b k d r)) h' (plug c (Br l a b k' d' r))"
  using assms by (clarsimp simp: heap_simps node_at_def [of h])

lemma update_same: "map_of al k = Some v \<Longrightarrow> AList.update k v al = al"
  by (induction al) auto

lemma rb_entry: "rbinv (Br l a b k d r) = rbinv (Br l a' b k' d' r)" "black (Br l a b k d r) = black (Br l a' b k' d' r)"
  "bh (Br l a b k d r) = bh (Br l a' b k' d' r)"
  by simp_all

lemma rb_plug_entry: "rbinv (plug c (Br l a b k d r)) \<and> black (plug c (Br l a b k d r)) \<Longrightarrow>
   rbinv (plug c (Br l a' b k' d' r)) \<and> black (plug c (Br l a' b k' d' r))"
  unfolding rbinv_plug by (cases b) auto

lemma distinct_split: "distinct (map fst (xs @ (k, v) # ys)) \<Longrightarrow> k \<notin> fst ` set xs"
  "distinct (map fst (xs @ (k, v) # ys)) \<Longrightarrow> k \<notin> fst ` set ys"
  by auto

lemma replace_node:
  assumes ok: "db_ok s Ts" and c: "cursors s q = Some c" "iTree c = n" and t: "tbl s n = Some t"
    and T: "Ts n = plug ctx (Br l (pNode c) b key d r)" and oc: "others_clear s q n"
  shows "\<exists>h2 T'. upd (heap s) (pNode c) (\<lambda>n. n\<lparr>RbTree.pData := val\<rparr>) = Some h2 \<and>
    db_ok (s\<lparr>heap := h2\<rparr>) (Ts(n := T')) \<and> database (s\<lparr>heap := h2\<rparr>) = (database s)(n \<mapsto> (map_of (entries (Ts n)))(key \<mapsto> val)) \<and>
    frame_same s (s\<lparr>heap := h2\<rparr>) \<and> cursor_entry (s\<lparr>heap := h2\<rparr>) q = Some (key, val)"
proof -
  note tr = tree_at [OF ok t]
  let ?T' = "plug ctx (Br l (pNode c) b key val r)"
  obtain h2 where h2: "upd (heap s) (pNode c) (\<lambda>n. n\<lparr>RbTree.pData := val\<rparr>) = Some h2" "becomes (heap s) (Ts n) h2 ?T'"
    using set_entry_plug [OF tr(1) [unfolded T], of "\<lambda>n. n\<lparr>RbTree.pData := val\<rparr>" key val] T by auto
  have "rbinv ?T' \<and> black ?T'" using tr(3,4) rb_plug_entry unfolding T by blast
  moreover have "ksorted ?T'" using tr(5) by (simp add: ksorted_def T nodes_plug)
  moreover have "root ?T' = pHead t" using tr(2) by (simp add: T root_plug)
  ultimately have T': "tree_ok h2 (pHead t) ?T'" using h2(2) by (simp add: tree_ok_def becomes_def)
  have nset: "nset ?T' = nset (Ts n)" using h2(2) by (simp add: becomes_def)
  have p: "pNode c \<in> nset ?T'" by (simp add: set_addrs_plug)
  have up: "db_ok (s\<lparr>heap := h2\<rparr>) (Ts(n := ?T')) \<and> contents (s\<lparr>heap := h2\<rparr>) n = entries ?T' \<and>
      database (s\<lparr>heap := h2\<rparr>) = (database s)(n \<mapsto> map_of (entries ?T')) \<and> frame_same s (s\<lparr>heap := h2\<rparr>)"
  proof (rule update_result [OF ok t T' _ _ _ oc c, where np = "next_ptr s" and cur' = c])
    show "\<And>p. p \<notin> nset (Ts n) \<Longrightarrow> p < next_ptr s \<Longrightarrow> h2 p = heap s p" using h2(2) by (simp add: becomes_def)
    show "cursors (s\<lparr>heap := h2\<rparr>) = (cursors s)(q \<mapsto> c)" using c by (simp add: fun_upd_idem)
    show "tblHash (s\<lparr>heap := h2\<rparr>) = AList.update n (t\<lparr>pHead := pHead t\<rparr>) (tblHash s)" using update_same [OF t] by simp
  qed (use nset c p in auto)
  have "key \<notin> fst ` set (map snd (cleft ctx) @ entries l)"
    by (rule distinct_split(1) [where v = d and ys = "entries r @ map snd (cright ctx)"])
      (use entries_distinct [OF tr(5)] in \<open>simp add: T nodes_plug\<close>)
  from map_of_insert [OF this, of _ "entries r @ map snd (cright ctx)"]
  have m: "map_of (entries ?T') = (map_of (entries (Ts n)))(key \<mapsto> val)"
    by (simp only: T nodes_plug nodes.simps map_append append_assoc append_Cons list.map snd_conv fun_upd_upd)
  have x: "(pNode c, key, val) \<in> set (nodes ?T')" by (simp add: nodes_plug)
  have "cursor_entry (s\<lparr>heap := h2\<rparr>) q = Some (key, val)"
    using heap_entry [OF becomes_holds [OF h2(2)] x] c by (simp add: cursor_entry_def)
  then show ?thesis using h2(1) up m by auto
qed

section \<open>Insertion\<close>

definition logged :: "rollback_op \<Rightarrow> rbt_db \<Rightarrow> rbt_db \<Rightarrow> bool" where
  \<comment> \<open>the entry went into the log of the innermost open unit; a rollback logs nothing\<close>
  "logged op s s' \<longleftrightarrow> same_logs (if logging s then add_log op s else s) s'"

text \<open>What undoes a store of the key: the removal of the entry, or the entry it replaced.\<close>

definition undo_store :: "int \<Rightarrow> bytes \<Rightarrow> (bytes \<Rightarrow> bytes option) \<Rightarrow> rollback_op" where
  "undo_store n k m = (case m k of None \<Rightarrow> ROLLBACK_DELETE n k | Some d \<Rightarrow> ROLLBACK_INSERT n k d)"

lemma same_logs_trans: "same_logs s s' \<Longrightarrow> same_logs s' s'' \<Longrightarrow> same_logs s s''"
  by (simp add: same_logs_def)

lemma same_logs_set [simp]: "same_logs s (set_cursor q c s') = same_logs s s'" "same_logs s (set_tbl n t s') = same_logs s s'"
  "same_logs s (s'\<lparr>heap := h\<rparr>) = same_logs s s'" "same_logs s (s'\<lparr>next_ptr := np\<rparr>) = same_logs s s'"
  "same_logs s (s'\<lparr>cursors := cs\<rparr>) = same_logs s s'"
  by (simp_all add: same_logs_def)

lemma logged_trans: "same_logs s s1 \<Longrightarrow> eTransState s1 = eTransState s \<Longrightarrow> logged op s1 s' \<Longrightarrow> logged op s s'"
  by (auto simp: logged_def same_logs_def logging_def add_log_def split: if_splits)

lemma logged_result:
  assumes "eTransState s \<noteq> TRANS_NONE"
  shows "\<exists>rc s'. (if eTransState s \<noteq> TRANS_ROLLBACK then log_op n s op else Some (SQLITE_OK, s)) = Some (rc, s') \<and>
    same_data s s' \<and> (rc = SQLITE_OK \<and> logged op s s' \<or> rc = SQLITE_NOMEM \<and> \<not> mem_ok s \<and> same_logs s s') \<and> (mem_ok s \<longrightarrow> mem_ok s')"
proof (cases "logging s")
  case True
  then have "eTransState s \<noteq> TRANS_ROLLBACK" by (auto simp: logging_def)
  then show ?thesis using log_op_result [OF True, of n op] True
    by (auto simp: logged_def same_logs_def add_log_def same_data_def mem_ok_def)
next
  case False
  then have "eTransState s = TRANS_ROLLBACK" using assms by (cases "eTransState s") (auto simp: logging_def)
  then show ?thesis using False by (simp add: logged_def)
qed

lemma cursors_only:
  assumes "\<forall>p. map_option (\<lambda>c. (iTree c, wrFlag c)) (cs p) = map_option (\<lambda>c. (iTree c, wrFlag c)) (cursors s p)"
  shows "database (s\<lparr>cursors := cs\<rparr>) = database s" "frame_same s (s\<lparr>cursors := cs\<rparr>)" "contents (s\<lparr>cursors := cs\<rparr>) = contents s"
proof -
  show "contents (s\<lparr>cursors := cs\<rparr>) = contents s"
    by (rule ext) (simp add: contents_def split: option.split)
  then show "database (s\<lparr>cursors := cs\<rparr>) = database s"
    by (simp add: fun_eq_iff database_def split: option.split)
  show "frame_same s (s\<lparr>cursors := cs\<rparr>)" using assms by (simp add: frame_same_def)
qed

lemma mem_ok_set [simp]: "mem_ok (s\<lparr>cursors := cs\<rparr>) = mem_ok s" "mem_ok (s\<lparr>heap := h\<rparr>) = mem_ok s"
  "mem_ok (s\<lparr>next_ptr := np\<rparr>) = mem_ok s" "mem_ok (set_tbl n t s) = mem_ok s"
  by (simp_all add: mem_ok_def)

lemma database_set_cursor [simp]: "database (set_cursor q c s) = database s"
  by (simp add: fun_eq_iff database_def split: option.split)

text \<open>
  The outcomes of an update of the table \<open>n\<close> to the map \<open>f m\<close>: refused because of a reader; done and
  logged; or out of memory, before or after the change of the tree.
\<close>

definition updates :: "rbt_db \<Rightarrow> ptr \<Rightarrow> int \<Rightarrow> (bytes \<Rightarrow> bytes option) \<Rightarrow> rollback_op \<Rightarrow> result_code \<Rightarrow> rbt_db \<Rightarrow> bool" where
  "updates s q n m' op rc s' \<longleftrightarrow> frame_same s s' \<and> (mem_ok s \<longrightarrow> mem_ok s') \<and>
     (rc = SQLITE_LOCKED \<and> \<not> no_readers s q \<and> database s' = database s \<and> same_logs s s' \<or>
      rc = SQLITE_OK \<and> no_readers s q \<and> database s' = (database s)(n \<mapsto> m') \<and> logged op s s' \<or>
      rc = SQLITE_NOMEM \<and> no_readers s q \<and> \<not> mem_ok s \<and> same_logs s s' \<and>
        (database s' = database s \<or> database s' = (database s)(n \<mapsto> m')))"

lemma updates_pre:
  assumes "frame_same s s1" "mem_ok s \<longrightarrow> mem_ok s1" "same_logs s s1" "database s1 = database s" "no_readers s q"
    "updates s1 q1 n m' op rc s'" "no_readers s1 q1"
  shows "updates s q n m' op rc s'"
  using assms logged_trans [of s s1 op s'] unfolding updates_def frame_same_def same_logs_def by auto

lemma same_data_fields:
  assumes "same_data s s'"
  shows "heap s' = heap s" "next_ptr s' = next_ptr s" "tblHash s' = tblHash s" "cursors s' = cursors s" "eTransState s' = eTransState s"
  using assms by (auto simp: same_data_def)

lemma frame_same_trans_state: "frame_same s s' \<Longrightarrow> eTransState s' = eTransState s"
  by (simp add: frame_same_def)

lemma others_clear_same: "others_clear s q n \<Longrightarrow> same_data s s' \<Longrightarrow> others_clear s' q n"
  by (simp add: others_clear_def same_data_def)

lemma no_readers_mono: "frame_same s s' \<Longrightarrow> no_readers s q \<Longrightarrow> no_readers s' q"
  unfolding no_readers_def
proof (intro allI impI)
  fix p c assume fr: "frame_same s s'"
    and r: "\<forall>p c. cursors s p = Some c \<longrightarrow> p \<noteq> q \<longrightarrow> iTree c = iTree (the (cursors s q)) \<longrightarrow> wrFlag c"
    and c: "cursors s' p = Some c" "p \<noteq> q" "iTree c = iTree (the (cursors s' q))"
  obtain c0 where "cursors s p = Some c0" "iTree c0 = iTree c" "wrFlag c0 = wrFlag c"
    using frame_same_at [OF fr, of p] c(1) by (cases "cursors s p") auto
  moreover have "iTree (the (cursors s' q)) = iTree (the (cursors s q))"
    using frame_same_at [OF fr, of q] by (cases "cursors s q"; cases "cursors s' q") auto
  ultimately show "wrFlag c" using r c by metis
qed

lemma frame_same_sym: "frame_same s s' \<Longrightarrow> frame_same s' s"
  by (simp add: frame_same_def)

lemma no_readers_frame: "frame_same s s' \<Longrightarrow> no_readers s' q = no_readers s q"
  using no_readers_mono frame_same_sym by blast

lemma malloc_step:
  assumes "malloc s = (b, s')"
  shows "db_ok s' Ts = db_ok s Ts" "frame_same s s'" "same_logs s s'" "database s' = database s" "cursors s' = cursors s"
    "eTransState s' = eTransState s" "mem_ok s \<Longrightarrow> b \<and> mem_ok s'" "tblHash s' = tblHash s" "cursor_entry s' q = cursor_entry s q"
    "others_clear s q n \<Longrightarrow> others_clear s' q n"
proof -
  note m = malloc_same [OF assms]
  show "db_ok s' Ts = db_ok s Ts" "frame_same s s'" "same_logs s s'" "database s' = database s" "cursors s' = cursors s"
    "eTransState s' = eTransState s" "mem_ok s \<Longrightarrow> b \<and> mem_ok s'" "tblHash s' = tblHash s" "cursor_entry s' q = cursor_entry s q"
    "others_clear s q n \<Longrightarrow> others_clear s' q n"
    using m same_data_db_ok [of s s' Ts] same_data_frame [of s s'] same_data_database [of s s'] same_data_entry [of s s' q]
      same_data_fields [of s s'] others_clear_same [of s q n s'] by simp_all
qed

lemma updates_nomem:
  "frame_same s s' \<Longrightarrow> same_logs s s' \<Longrightarrow> database s' = database s \<Longrightarrow> no_readers s q \<Longrightarrow> \<not> mem_ok s \<Longrightarrow>
   updates s q n m' op SQLITE_NOMEM s'"
  by (simp add: updates_def)

lemma insert_replace_result:
  assumes ok: "db_ok s Ts" and c: "cursors s q = Some c" and t: "tbl s (iTree c) = Some t" and st: "eTransState s \<noteq> TRANS_NONE"
    and oc: "others_clear s q (iTree c)" and nr: "no_readers s q"
    and T: "Ts (iTree c) = plug ctx (Br l (pNode c) b key d r)"
  defines "m \<equiv> map_of (entries (Ts (iTree c)))"
  shows "\<exists>rc s' Ts'. insert_replace s c val = Some (rc, s') \<and> db_ok s' Ts' \<and>
    updates s q (iTree c) (m(key \<mapsto> val)) (ROLLBACK_INSERT (iTree c) key d) rc s' \<and>
    (rc = SQLITE_OK \<longrightarrow> cursor_entry s' q = Some (key, val))"
proof -
  obtain n where n: "deref (heap s) (pNode c) = Some n" "RbTree.pKey n = key" "RbTree.pData n = d"
    using holds_node tree_at(1) [OF ok t] unfolding T by blast
  obtain rc s' where l: "(if eTransState s \<noteq> TRANS_ROLLBACK then log_op 2 s (ROLLBACK_INSERT (iTree c) key d) else Some (SQLITE_OK, s)) = Some (rc, s')"
    "same_data s s'" "rc = SQLITE_OK \<and> logged (ROLLBACK_INSERT (iTree c) key d) s s' \<or> rc = SQLITE_NOMEM \<and> \<not> mem_ok s \<and> same_logs s s'"
    "mem_ok s \<longrightarrow> mem_ok s'"
    using logged_result [OF st] by blast
  have ok': "db_ok s' Ts" using same_data_db_ok [OF l(2)] ok by simp
  note f = same_data_fields [OF l(2)]
  show ?thesis
  proof (cases "rc = SQLITE_OK")
    case False
    have "updates s q (iTree c) (m(key \<mapsto> val)) (ROLLBACK_INSERT (iTree c) key d) rc s'"
      unfolding updates_def using False l(3,4) nr same_data_frame [OF l(2)] same_data_database [OF l(2)] by auto
    then show ?thesis using False l(1) ok' n
      by (intro exI [of _ rc] exI [of _ s'] exI [of _ Ts]) (simp add: insert_replace_def split: if_splits)
  next
    case True
    obtain h2 T' where r: "upd (heap s') (pNode c) (\<lambda>n. n\<lparr>RbTree.pData := val\<rparr>) = Some h2"
      "db_ok (s'\<lparr>heap := h2\<rparr>) (Ts(iTree c := T'))" "database (s'\<lparr>heap := h2\<rparr>) = (database s')(iTree c \<mapsto> m(key \<mapsto> val))"
      "frame_same s' (s'\<lparr>heap := h2\<rparr>)" "cursor_entry (s'\<lparr>heap := h2\<rparr>) q = Some (key, val)"
      using replace_node [OF ok', of q c "iTree c" t ctx l b key d r val] f c t T others_clear_same [OF oc l(2)] unfolding m_def by auto
    have "logged (ROLLBACK_INSERT (iTree c) key d) s (s'\<lparr>heap := h2\<rparr>)" using l(3) True by (simp add: logged_def)
    then have "updates s q (iTree c) (m(key \<mapsto> val)) (ROLLBACK_INSERT (iTree c) key d) rc (s'\<lparr>heap := h2\<rparr>)"
      unfolding updates_def using frame_same_trans [OF same_data_frame [OF l(2)] r(4)] l(4) True nr r(3) same_data_database [OF l(2)] by auto
    moreover have "(if eTransState s = TRANS_ROLLBACK then Some (SQLITE_OK, s) else log_op 2 s (ROLLBACK_INSERT (iTree c) key d)) = Some (SQLITE_OK, s')"
      using l(1) True by (simp split: if_splits)
    ultimately show ?thesis using r True n(1)
      by (intro exI [of _ rc] exI [of _ "s'\<lparr>heap := h2\<rparr>"] exI [of _ "Ts(iTree c := T')"])
        (cases "eTransState s = TRANS_ROLLBACK"; simp add: n insert_replace_def)
  qed
qed


lemma insert_new_result:
  assumes ok0: "db_ok s0 Ts" and c0: "cursors s0 q = Some c" and t0: "tbl s0 (iTree c) = Some t" and st0: "eTransState s0 \<noteq> TRANS_NONE"
    and oc0: "others_clear s0 q (iTree c)" and nr0: "no_readers s0 q"
    and T: "Ts (iTree c) = plug ctx Lf" and p: "pNode c = cpar ctx"
    and sorted: "\<forall>k\<in>set (keys (cleft ctx)). k < key" "\<forall>k\<in>set (keys (cright ctx)). key < k"
  defines "m \<equiv> map_of (entries (Ts (iTree c)))"
  shows "\<exists>rc s' Ts'. insert_new s0 q c (hole_dir ctx) key val = Some (rc, s') \<and> db_ok s' Ts' \<and>
    updates s0 q (iTree c) (m(key \<mapsto> val)) (ROLLBACK_DELETE (iTree c) key) rc s' \<and>
    (rc = SQLITE_OK \<longrightarrow> cursor_entry s' q = Some (key, val))"
proof -
  obtain b1 s1 where m1: "malloc s0 = (b1, s1)" by fastforce
  obtain b2 s where m2: "malloc s1 = (b2, s)" by fastforce
  note m1' = malloc_step [OF m1] and m2' = malloc_step [OF m2]
  have fr: "frame_same s0 s" "same_logs s0 s" "database s = database s0" "mem_ok s0 \<longrightarrow> mem_ok s"
    using frame_same_trans [OF m1'(2) m2'(2)] same_logs_trans [OF m1'(3) m2'(3)] m1' m2' by simp_all
  have ok: "db_ok s Ts" using ok0 m1'(1) m2'(1) by simp
  have c: "cursors s q = Some c" and t: "tbl s (iTree c) = Some t" and st: "eTransState s \<noteq> TRANS_NONE"
    and oc: "others_clear s q (iTree c)" and nr: "no_readers s q"
    using c0 t0 st0 oc0 nr0 m1' m2' no_readers_frame [OF fr(1)] by simp_all
  obtain h1 p1 h2 p2 T' where i: "link_node ((heap s)(next_ptr s \<mapsto> new_node key val)) (pHead t) (pNode c) (next_ptr s) (hole_dir ctx) = Some (h1, p1)"
    "do_insert_balancing h1 p1 (next_ptr s) = Some (h2, p2)"
    and i2: "let s' = set_tbl (iTree c) (t\<lparr>pHead := p2\<rparr>) (set_cursor q (c\<lparr>pNode := next_ptr s\<rparr>) (s\<lparr>heap := h2, next_ptr := next_ptr s + 1\<rparr>))
     in db_ok s' (Ts(iTree c := T')) \<and> database s' = (database s)(iTree c \<mapsto> (map_of (entries (Ts (iTree c))))(key \<mapsto> val)) \<and>
        frame_same s s' \<and> cursor_entry s' q = Some (key, val)"
    using insert_node [OF ok c refl t T p sorted oc] by blast
  define s3 where "s3 = set_tbl (iTree c) (t\<lparr>pHead := p2\<rparr>) (set_cursor q (c\<lparr>pNode := next_ptr s\<rparr>) (s\<lparr>heap := h2, next_ptr := next_ptr s + 1\<rparr>))"
  have s3: "db_ok s3 (Ts(iTree c := T'))" "database s3 = (database s)(iTree c \<mapsto> m(key \<mapsto> val))"
    "frame_same s s3" "cursor_entry s3 q = Some (key, val)" "same_logs s s3" "mem_ok s3 = mem_ok s"
    using i2 unfolding s3_def Let_def m_def by simp_all
  have st3: "eTransState s3 \<noteq> TRANS_NONE" "eTransState s3 = eTransState s" using st frame_same_trans_state [OF s3(3)] by simp_all
  obtain rc s' where l: "(if eTransState s3 \<noteq> TRANS_ROLLBACK then log_op 2 s3 (ROLLBACK_DELETE (iTree c) key) else Some (SQLITE_OK, s3)) = Some (rc, s')"
    "same_data s3 s'" "rc = SQLITE_OK \<and> logged (ROLLBACK_DELETE (iTree c) key) s3 s' \<or> rc = SQLITE_NOMEM \<and> \<not> mem_ok s3 \<and> same_logs s3 s'"
    "mem_ok s3 \<longrightarrow> mem_ok s'"
    using logged_result [OF st3(1)] by blast
  have u: "updates s q (iTree c) (m(key \<mapsto> val)) (ROLLBACK_DELETE (iTree c) key) rc s'"
    unfolding updates_def
    using frame_same_trans [OF s3(3) same_data_frame [OF l(2)]] same_data_database [OF l(2)] s3 l(3,4) nr
      logged_trans [OF s3(5) st3(2)] same_logs_trans [OF s3(5)] by auto
  have "db_ok s' (Ts(iTree c := T'))" using same_data_db_ok [OF l(2)] s3(1) by simp
  moreover have "cursor_entry s' q = Some (key, val)" using same_data_entry [OF l(2)] s3(4) by simp
  moreover have "insert_new s0 q c (hole_dir ctx) key val =
      (if b1 \<and> \<not> malloc_failed s then Some (rc, s') else Some (SQLITE_NOMEM, if b1 then s else s1))"
    using l(1) [unfolded s3_def] by (simp add: insert_new_def m1 m2 Let_def t i split: if_splits)
  moreover have "updates s0 q (iTree c) (m(key \<mapsto> val)) (ROLLBACK_DELETE (iTree c) key) rc s'"
    using updates_pre [OF fr(1,4,2,3) nr0 u nr] .
  moreover have "updates s0 q n m' op SQLITE_NOMEM (if b1 then s else s1)" if "\<not> (b1 \<and> \<not> malloc_failed s)" for n m' op
    using that updates_nomem [OF m1'(2,3,4) nr0, of n m' op] updates_nomem [OF fr(1,2,3) nr0, of n m' op] m1'(7) fr(4)
    by (cases b1) (auto simp: mem_ok_def)
  ultimately show ?thesis
    using ok ok0 m1'(1) by (cases "b1 \<and> \<not> malloc_failed s") (auto intro: exI [of _ Ts])
qed

lemma Insert_unlocked:
  assumes ok: "db_ok s Ts" and c: "cursors s q = Some c" and t: "tbl s (iTree c) = Some t" and st: "eTransState s \<noteq> TRANS_NONE"
    and oc: "others_clear s q (iTree c)" and nr: "no_readers s q"
  defines "m \<equiv> map_of (entries (Ts (iTree c)))"
  shows "\<exists>rc s' Ts'. (do {
      let (ok, s) = malloc s;
      if malloc_failed s then Some (SQLITE_NOMEM, s)
      else do {
        (match, s) \<leftarrow> memRbtreeMoveto s q key;
        cur \<leftarrow> cursors s q;
        if match \<noteq> 0 then insert_new s q cur match key val else insert_replace s cur val } }) = Some (rc, s') \<and> db_ok s' Ts' \<and>
    updates s q (iTree c) (m(key \<mapsto> val)) (undo_store (iTree c) key m) rc s' \<and>
    (rc = SQLITE_OK \<longrightarrow> cursor_entry s' q = Some (key, val))"
proof -
  obtain b1 s1 where m1: "malloc s = (b1, s1)" by fastforce
  note m1' = malloc_step [OF m1]
  have ok1: "db_ok s1 Ts" using ok m1'(1) by simp
  have c1: "cursors s1 q = Some c" "tbl s1 (iTree c) = Some t" using c t m1'(5,8) by simp_all
  show ?thesis
  proof (cases "malloc_failed s1")
    case True
    then have "\<not> mem_ok s" using m1'(7) by (auto simp: mem_ok_def)
    then show ?thesis using updates_nomem [OF m1'(2,3,4) nr] ok1 True
      by (intro exI [of _ SQLITE_NOMEM] exI [of _ s1] exI [of _ Ts]) (simp add: m1 Let_def)
  next
    case False
    obtain res p where mv: "memRbtreeMoveto s1 q key = Some (res, set_cursor q (c\<lparr>pNode := p, eSkip := SKIP_NONE\<rparr>) s1)"
      "db_ok (set_cursor q (c\<lparr>pNode := p, eSkip := SKIP_NONE\<rparr>) s1) Ts"
      "(\<exists>ctx l b d r. Ts (iTree c) = plug ctx (Br l p b key d r) \<and> res = 0) \<or>
        (\<exists>ctx. Ts (iTree c) = plug ctx Lf \<and> p = cpar ctx \<and> res = hole_dir ctx \<and>
          (\<forall>k\<in>set (keys (cleft ctx)). k < key) \<and> (\<forall>k\<in>set (keys (cright ctx)). key < k))"
      using Moveto_result [OF ok1 c1(1), of key] unfolding Let_def by blast
    define c' where "c' = c\<lparr>pNode := p, eSkip := SKIP_NONE\<rparr>"
    define s2 where "s2 = set_cursor q c' s1"
    have c': "iTree c' = iTree c" "pNode c' = p" by (simp_all add: c'_def)
    have fr: "frame_same s s2" unfolding s2_def c'_def by (rule frame_same_trans [OF m1'(2) frame_set_cursor [OF c1(1)]]) simp_all
    have s2: "db_ok s2 Ts" "cursors s2 q = Some c'" "tbl s2 (iTree c') = Some t" "eTransState s2 \<noteq> TRANS_NONE"
      "same_logs s s2" "database s2 = database s" "mem_ok s \<longrightarrow> mem_ok s2"
      using mv(2) c1(2) st m1' by (simp_all add: s2_def c'_def)
    have oc2: "others_clear s2 q (iTree c')" using others_clear_cong [OF m1'(10) [OF oc]] by (simp add: s2_def c')
    have nr2: "no_readers s2 q" using no_readers_frame [OF fr] nr by simp
    note pre = updates_pre [OF fr s2(7,5,6) nr _ nr2]
    have prog: "(do { (match, s) \<leftarrow> memRbtreeMoveto s1 q key; cur \<leftarrow> cursors s q;
        if match \<noteq> 0 then insert_new s q cur match key val else insert_replace s cur val }) =
      (if res \<noteq> 0 then insert_new s2 q c' res key val else insert_replace s2 c' val)"
      using s2(2) by (simp add: mv(1) s2_def c'_def)
    have "\<exists>rc s' Ts'. (if res \<noteq> 0 then insert_new s2 q c' res key val else insert_replace s2 c' val) = Some (rc, s') \<and> db_ok s' Ts' \<and>
      updates s2 q (iTree c) (m(key \<mapsto> val)) (undo_store (iTree c) key m) rc s' \<and>
      (rc = SQLITE_OK \<longrightarrow> cursor_entry s' q = Some (key, val))"
      using mv(3)
    proof (elim disjE exE conjE)
      fix ctx l b d r assume T: "Ts (iTree c) = plug ctx (Br l p b key d r)" "res = 0"
      have "m key = Some d"
        unfolding m_def by (rule map_of_is_SomeI [OF entries_distinct [OF tree_at(5) [OF ok t]]]) (simp add: T(1) nodes_plug)
      then have u: "undo_store (iTree c) key m = ROLLBACK_INSERT (iTree c) key d" by (simp add: undo_store_def)
      show ?thesis using insert_replace_result [OF s2(1-4) oc2 nr2, of ctx l b key d r val] T(1)
        unfolding u unfolding m_def c' by (simp only: T(2) if_False simp_thms)
    next
      fix ctx assume T: "Ts (iTree c) = plug ctx Lf" "p = cpar ctx" "res = hole_dir ctx"
        "\<forall>k\<in>set (keys (cleft ctx)). k < key" "\<forall>k\<in>set (keys (cright ctx)). key < k"
      have "m key = None" unfolding m_def map_of_eq_None_iff using T(4,5) by (auto simp: T(1) nodes_plug)
      then have u: "undo_store (iTree c) key m = ROLLBACK_DELETE (iTree c) key" by (simp add: undo_store_def)
      have "res \<noteq> 0" by (simp add: T(3) hole_dir_def split: list.split rbframe.split)
      then show ?thesis using insert_new_result [OF s2(1-4) oc2 nr2, of ctx key val] T
        unfolding u unfolding m_def c' by simp
    qed
    then show ?thesis unfolding m1 Let_def prod.case prog if_not_P [OF False] using pre by blast
  qed
qed

theorem Insert_result:
  assumes ok: "db_ok s Ts" and w: "writer s q cur" and st: "eTransState s \<noteq> TRANS_NONE"
    and m: "database s (iTree cur) = Some m"
  shows "\<exists>rc s' Ts'. memRbtreeInsert s q key val = Some (rc, s') \<and> db_ok s' Ts' \<and>
    updates s q (iTree cur) (m(key \<mapsto> val)) (undo_store (iTree cur) key m) rc s' \<and>
    (rc = SQLITE_OK \<longrightarrow> cursor_entry s' q = Some (key, val))"
proof -
  obtain rc cs where r: "checkReadLocks s q = Some (rc, s\<lparr>cursors := cs\<rparr>)" "db_ok (s\<lparr>cursors := cs\<rparr>) Ts"
    "rc = SQLITE_OK \<or> rc = SQLITE_LOCKED" "rc = SQLITE_OK \<longleftrightarrow> no_readers s q" "writer (s\<lparr>cursors := cs\<rparr>) q cur"
    "rc = SQLITE_OK \<longrightarrow> others_clear (s\<lparr>cursors := cs\<rparr>) q (iTree cur)"
    "\<forall>p. map_option (\<lambda>c. (iTree c, wrFlag c)) (cs p) = map_option (\<lambda>c. (iTree c, wrFlag c)) (cursors s p)"
    using checkReadLocks_result [OF ok w] by blast
  let ?s = "s\<lparr>cursors := cs\<rparr>"
  note co = cursors_only [OF r(7)]
  show ?thesis
  proof (cases "rc = SQLITE_OK")
    case False
    then have "updates s q (iTree cur) (m(key \<mapsto> val)) (undo_store (iTree cur) key m) SQLITE_LOCKED ?s"
      unfolding updates_def using r(3,4) co by simp
    then show ?thesis using r(1,2) False st
      by (intro exI [of _ SQLITE_LOCKED] exI [of _ ?s] exI [of _ Ts]) (simp add: memRbtreeInsert_def assertion_def)
  next
    case True
    have c: "cursors ?s q = Some cur" using r(5) by (simp add: writer_def)
    obtain t where t: "tbl ?s (iTree cur) = Some t" using cursor_tree [OF r(2) c] .
    have m': "m = map_of (entries (Ts (iTree cur)))" using database_at [OF r(2) t] m co(1) by simp
    have nr: "no_readers s q" "no_readers ?s q" using r(4) True no_readers_frame [OF co(2)] by simp_all
    have st': "eTransState ?s \<noteq> TRANS_NONE" using st by simp
    have "memRbtreeInsert s q key val = do {
      let (ok, s) = malloc ?s;
      if malloc_failed s then Some (SQLITE_NOMEM, s)
      else do {
        (match, s) \<leftarrow> memRbtreeMoveto s q key;
        cur \<leftarrow> cursors s q;
        if match \<noteq> 0 then insert_new s q cur match key val else insert_replace s cur val } }"
      using st by (simp add: memRbtreeInsert_def assertion_def r(1) True)
    moreover have pre: "updates s q n m' op rc s'" if "updates ?s q n m' op rc s'" for n m' op rc s'
      using updates_pre [OF co(2) _ _ co(1) nr(1) that nr(2)] by simp
    moreover have "others_clear ?s q (iTree cur)" using r(6) True by simp
    ultimately show ?thesis
      using Insert_unlocked [OF r(2) c t st' _ nr(2), of key val] unfolding m' by (simp only:) blast
  qed
qed

end
