(* ===== verification/RbErase.thy ===== *)
theory RbErase
  imports RbUpdate
begin

text \<open>
  Deletion through a cursor: which node is spliced out, what the table holds afterwards, and where
  the cursor is left, so that a scan that deletes entries neither skips nor repeats one.
\<close>

section \<open>Taking a node out of a table\<close>

lemma crb_red: "crb c n False \<Longrightarrow> crb c n True"
  by (cases c) auto

lemma delete_tree:
  assumes T: "holds h (plug c (Br l z b k d r))" and lr: "l = Lf \<or> r = Lf"
    and inv: "rbinv (plug c (Br l z b k d r))" "black (plug c (Br l z b k d r))"
  shows "\<exists>h1 hd1 pChild n h2 T'. splice h (root (plug c (Br l z b k d r))) z = Some (h1, hd1, pChild, n) \<and>
    (if isBlack n then do_delete_balancing h1 hd1 pChild (pParent n) else Some (h1, hd1)) = Some (h2, root T') \<and>
    tree_ok (h2(z := None)) (root T') T' = ksorted T' \<and> nodes T' = cleft c @ nodes l @ nodes r @ cright c \<and>
    nset T' = nset (plug c (Br l z b k d r)) - {z} \<and>
    (\<forall>p. p \<notin> nset (plug c (Br l z b k d r)) \<longrightarrow> h2 p = h p)"
proof -
  let ?T = "plug c (Br l z b k d r)" and ?u = "only_child l r"
  obtain h1 n where sp: "splice h (root ?T) z = Some (h1, root (plug c ?u), root ?u, n)" "pParent n = cpar c"
    "isBlack n = b" "holds h1 (plug c ?u)" "\<forall>p. p \<notin> nset ?T \<longrightarrow> h1 p = h p"
    using splice_plug [OF T lr] by blast
  have u: "nodes (plug c ?u) = cleft c @ nodes l @ nodes r @ cright c" using lr by (auto simp: only_child_def nodes_plug)
  have "distinct (addrs ?T)" using T by (simp add: holds_def)
  then have nu: "nset (plug c ?u) = nset ?T - {z}" "z \<notin> nset (plug c ?u)"
    using lr distinct_plug [of c "Br l z b k d r"] by (auto simp: only_child_def set_addrs_plug)
  have i: "rbinv l" "rbinv r" "bh l = bh r" "crb c (bh (Br l z b k d r)) b" "\<not> b \<Longrightarrow> black l \<and> black r"
    using rbinv_plug [of c "Br l z b k d r"] inv by auto
  obtain h2 T' where d: "(if isBlack n then do_delete_balancing h1 (root (plug c ?u)) (root ?u) (pParent n)
      else Some (h1, root (plug c ?u))) = Some (h2, root T')" "becomes h1 (plug c ?u) h2 T'" "nodes T' = nodes (plug c ?u)"
      "rbinv T'" "black T'"
  proof (cases b)
    case True
    have "dinv c ?u" using i True lr by (auto simp: dinv_def only_child_def bh_paint)
    from do_delete_balancing_ok [OF sp(4) this] show ?thesis using that True sp(2,3) by auto
  next
    case False
    have "rbinv (plug c ?u) \<and> black (plug c ?u)" using i False lr using crb_red [of c 0] by (auto simp: rbinv_plug only_child_def)
    then show ?thesis using that [of h1 "plug c ?u"] False sp(3) becomes_refl [OF sp(4)] by simp
  qed
  have "holds h2 T'" "nset T' = nset ?T - {z}" using d(2) nu by (auto simp: becomes_def)
  then have "holds (h2(z := None)) T'" using holds_frame [of h2 T' "h2(z := None)"] by (auto simp: fun_upd_apply)
  moreover have "\<forall>p. p \<notin> nset ?T \<longrightarrow> h2 p = h p" using d(2) sp(5) nu by (auto simp: becomes_def)
  ultimately show ?thesis using sp(1) d(1,3,4,5) u \<open>nset T' = nset ?T - {z}\<close>
    by (intro exI [of _ h1] exI [of _ "root (plug c ?u)"] exI [of _ "root ?u"] exI [of _ n] exI [of _ h2] exI [of _ T'])
      (simp add: tree_ok_def)
qed

text \<open>The leftmost node of a tree has no left child.\<close>

lemma plug_append: "plug (c @ c') t = plug c' (plug c t)"
  by (induction c arbitrary: t) auto

lemma cleft_append: "cleft (c @ c') = cleft c' @ cleft c" "cright (c @ c') = cright c @ cright c'"
proof -
  show "cleft (c @ c') = cleft c' @ cleft c"
  proof (induction c)
    case (Cons f c)
    then show ?case by (cases f) auto
  qed simp
  show "cright (c @ c') = cright c @ cright c'"
  proof (induction c)
    case (Cons f c)
    then show ?case by (cases f) auto
  qed simp
qed

lemma leftmost_context:
  "t \<noteq> Lf \<Longrightarrow> \<exists>c a b k d r. t = plug c (Br Lf a b k d r) \<and> cleft c = []"
proof (induction t)
  case (Br l a b k d r)
  show ?case
  proof (cases "l = Lf")
    case True
    then show ?thesis by (intro exI [of _ "[]"]) auto
  next
    case False
    then obtain c a' b' k' d' r' where l: "l = plug c (Br Lf a' b' k' d' r')" "cleft c = []" using Br.IH(1) by blast
    have "Br l a b k d r = plug (c @ [FL a b k d r]) (Br Lf a' b' k' d' r')" by (simp add: plug_append l)
    moreover have "cleft (c @ [FL a b k d r]) = []" by (simp add: cleft_append l)
    ultimately show ?thesis by blast
  qed
qed simp

section \<open>The choice of the node and the new position of the cursor\<close>

lemma set_cursor_set_cursor [simp]: "set_cursor q a (set_cursor q b s) = set_cursor q a s"
  by (simp add: set_cursor_def)

lemma set_cursor_heap: "(set_cursor q a s)\<lparr>heap := h\<rparr> = set_cursor q a (s\<lparr>heap := h\<rparr>)"
  by (simp add: set_cursor_def)

text \<open>Where the cursor is when the entry between \<open>xs\<close> and \<open>ys\<close> is gone, and which step it will skip.\<close>

definition after_delete :: "'a list \<Rightarrow> 'a list \<Rightarrow> 'a option \<times> skip" where
  "after_delete xs ys =
     (case ys of y # _ \<Rightarrow> (Some y, SKIP_NEXT) | [] \<Rightarrow> (if xs = [] then None else Some (last xs), SKIP_PREV))"

lemma delete_prepare_one:
  assumes ok: "db_ok s Ts" and c: "cursors s q = Some c" and t: "tbl s (iTree c) = Some t"
    and T: "Ts (iTree c) = plug ctx (Br l (pNode c) b k d r)" and lr: "l = Lf \<or> r = Lf"
  defines "p \<equiv> fst (after_delete (cleft ctx @ nodes l) (nodes r @ cright ctx))"
    and "sk \<equiv> snd (after_delete (cleft ctx @ nodes l) (nodes r @ cright ctx))"
  shows "delete_prepare s q = Some (pNode c,
    set_cursor q (c\<lparr>pNode := (case p of None \<Rightarrow> 0 | Some x \<Rightarrow> fst x), eSkip := sk\<rparr>) s)"
proof -
  note tr = tree_at [OF ok t]
  have h: "holds (heap s) (plug ctx (Br l (pNode c) b k d r))" using tr(1) T by simp
  obtain n where n: "deref (heap s) (pNode c) = Some n" "pLeft n = root l" "pRight n = root r"
    using holds_node [OF h] by auto
  have one: "\<not> (pLeft n \<noteq> 0 \<and> pRight n \<noteq> 0)" using lr n by auto
  have nz: "pNode c \<noteq> 0" using hole_0 [OF h] by simp
  let ?ys = "nodes r @ cright ctx"
  note nx = next_node_plug [OF h]
  show ?thesis
  proof (cases ?ys)
    case (Cons y ys)
    have "y \<in> set (nodes (Ts (iTree c)))" using Cons by (auto simp: T nodes_plug)
    then have "fst y \<noteq> 0" using heap_entry [OF tr(1)] by blast
    then show ?thesis using nx Cons nz one
      by (cases "pLeft n = 0"; simp add: Let_def delete_prepare_def memRbtreeNext_def c n(1) p_def sk_def after_delete_def)
  next
    case Nil
    then have r: "r = Lf" "cright ctx = []" by auto
    have "nodes (Ts (iTree c)) = (cleft ctx @ nodes l) @ [(pNode c, k, d)]" by (simp add: T nodes_plug r)
    then have rm: "rightmost (heap s) (pHead t) = Some (pNode c)"
      using rightmost_plug [of "heap s" "[]" "Ts (iTree c)"] tr(1,2) by (cases "Ts (iTree c) = Lf") auto
    have "pHead t \<noteq> 0" using head_0 [OF ok t] \<open>nodes (Ts (iTree c)) = _\<close> by auto
    then show ?thesis using nx Nil nz one prev_node_plug [OF h] rm
      by (auto simp add: Let_def delete_prepare_def memRbtreeNext_def memRbtreeLast_def memRbtreePrevious_def c t n(1) p_def sk_def after_delete_def)
  qed
qed

lemma delete_prepare_two:
  assumes ok: "db_ok s Ts" and c: "cursors s q = Some c" and t: "tbl s (iTree c) = Some t"
    and T: "Ts (iTree c) = plug ctx (Br l (pNode c) b k d r)" and lr: "l \<noteq> Lf"
    and r: "r = plug cr (Br Lf y by ky dy ry)" "cleft cr = []"
  defines "T1 \<equiv> plug ctx (Br l (pNode c) b ky dy r)"
  shows "\<exists>h1. delete_prepare s q = Some (y, set_cursor q (c\<lparr>eSkip := SKIP_NEXT\<rparr>) (s\<lparr>heap := h1\<rparr>)) \<and>
    becomes (heap s) (Ts (iTree c)) h1 T1"
proof -
  note tr = tree_at [OF ok t]
  have h: "holds (heap s) (plug ctx (Br l (pNode c) b k d r))" using tr(1) T by simp
  obtain n where n: "deref (heap s) (pNode c) = Some n" "pLeft n = root l" "pRight n = root r"
    using holds_node [OF h] by auto
  have rn: "nodes r = (y, ky, dy) # nodes ry @ cright cr" by (simp add: r nodes_plug)
  have "r \<noteq> Lf" using rn by auto
  then have two: "pLeft n \<noteq> 0" "pRight n \<noteq> 0"
    using n lr hole_0 [of "heap s" "FL (pNode c) b k d r # ctx" l] hole_0 [of "heap s" "FR l (pNode c) b k d # ctx" r] h by auto
  have nz: "pNode c \<noteq> 0" using hole_0 [OF h] by simp
  have "(y, ky, dy) \<in> set (nodes (Ts (iTree c)))" by (simp add: T nodes_plug rn)
  then have y: "y \<noteq> 0" "\<exists>m. heap s y = Some m \<and> RbTree.pKey m = ky \<and> RbTree.pData m = dy"
    using heap_entry [OF tr(1)] by fastforce+
  then obtain m where m: "deref (heap s) y = Some m" "RbTree.pKey m = ky" "RbTree.pData m = dy"
    by (auto simp: deref_def)
  obtain h1 where h1: "upd (heap s) (pNode c) (\<lambda>n. n\<lparr>RbTree.pKey := ky, RbTree.pData := dy\<rparr>) = Some h1"
    "becomes (heap s) (plug ctx (Br l (pNode c) b k d r)) h1 T1"
    using set_entry_plug [OF h, of "\<lambda>n. n\<lparr>RbTree.pKey := ky, RbTree.pData := dy\<rparr>" ky dy] unfolding T1_def by auto
  have "delete_prepare s q = Some (y, set_cursor q (c\<lparr>eSkip := SKIP_NEXT\<rparr>) (s\<lparr>heap := h1\<rparr>))"
    using next_node_plug [OF h] two nz y(1)
    by (simp add: Let_def delete_prepare_def memRbtreeNext_def c n(1) rn assertion_def m h1(1) set_cursor_heap)
  then show ?thesis using h1(2) T by auto
qed

lemma after_delete_map: "after_delete (map f xs) (map f ys) = map_prod (map_option f) id (after_delete xs ys)"
  by (auto simp: after_delete_def last_map split: list.split)

lemma after_delete_in: "fst (after_delete xs ys) = Some x \<Longrightarrow> x \<in> set (xs @ ys)"
  by (auto simp: after_delete_def split: list.splits if_splits)

lemma delete_prepare_result:
  assumes ok: "db_ok s Ts" and c: "cursors s q = Some c" and e: "cursor_entry s q = Some e"
    and xy: "contents s (iTree c) = xs @ e # ys"
  shows "\<exists>z h1 c' cz lz bz kz dz rz. delete_prepare s q = Some (z, set_cursor q c' (s\<lparr>heap := h1\<rparr>)) \<and>
    becomes (heap s) (Ts (iTree c)) h1 (plug cz (Br lz z bz kz dz rz)) \<and>
    root (plug cz (Br lz z bz kz dz rz)) = root (Ts (iTree c)) \<and>
    rbinv (plug cz (Br lz z bz kz dz rz)) \<and> black (plug cz (Br lz z bz kz dz rz)) \<and> (lz = Lf \<or> rz = Lf) \<and>
    iTree c' = iTree c \<and> wrFlag c' = wrFlag c \<and> map snd (cleft cz @ nodes lz @ nodes rz @ cright cz) = xs @ ys \<and>
    eSkip c' = snd (after_delete xs ys) \<and>
    (case fst (after_delete xs ys) of None \<Rightarrow> pNode c' = 0 | Some e \<Rightarrow> (pNode c', e) \<in> set (cleft cz @ nodes lz @ nodes rz @ cright cz))"
proof -
  obtain t where t: "tbl s (iTree c) = Some t" using cursor_tree [OF ok c] .
  note tr = tree_at [OF ok t]
  obtain k d where kd: "e = (k, d)" by fastforce
  obtain ctx l b r where T: "Ts (iTree c) = plug ctx (Br l (pNode c) b k d r)"
    and xs: "xs = map snd (cleft ctx) @ entries l" and ys: "ys = entries r @ map snd (cright ctx)"
    using cursor_split [OF ok c e xy] unfolding kd fst_conv snd_conv by metis
  show ?thesis
  proof (cases "l = Lf \<or> r = Lf")
    case True
    define A where "A = after_delete (cleft ctx @ nodes l) (nodes r @ cright ctx)"
    define c' where "c' = c\<lparr>pNode := (case fst A of None \<Rightarrow> 0 | Some x \<Rightarrow> fst x), eSkip := snd A\<rparr>"
    have p: "delete_prepare s q = Some (pNode c, set_cursor q c' (s\<lparr>heap := heap s\<rparr>))"
      using delete_prepare_one [OF ok c t T True] unfolding c'_def A_def by simp
    have A: "after_delete xs ys = map_prod (map_option snd) id A"
      unfolding A_def xs ys after_delete_map [symmetric] by simp
    have "\<forall>x. fst A = Some x \<longrightarrow> x \<in> set (cleft ctx @ nodes l @ nodes r @ cright ctx)"
      using after_delete_in [of "cleft ctx @ nodes l" "nodes r @ cright ctx"] unfolding A_def by simp
    note in' = this
    show ?thesis
      by (rule exI [of _ "pNode c"], rule exI [of _ "heap s"], rule exI [of _ c'], rule exI [of _ ctx], rule exI [of _ l], rule exI [of _ b], rule exI [of _ k], rule exI [of _ d], rule exI [of _ r], use in' p True tr T becomes_refl [OF tr(1)] A in \<open>simp add: xs ys c'_def split: option.split\<close>)
  next
    case False
    then obtain cr y yb ky dy ry where r: "r = plug cr (Br Lf y yb ky dy ry)" "cleft cr = []"
      using leftmost_context [of r] by auto
    let ?T1 = "plug ctx (Br l (pNode c) b ky dy r)" and ?cz = "cr @ FR l (pNode c) b ky dy # ctx"
    have T1: "?T1 = plug ?cz (Br Lf y yb ky dy ry)" by (simp add: plug_append r)
    obtain h1 where p: "delete_prepare s q = Some (y, set_cursor q (c\<lparr>eSkip := SKIP_NEXT\<rparr>) (s\<lparr>heap := h1\<rparr>))"
      "becomes (heap s) (Ts (iTree c)) h1 ?T1"
      using delete_prepare_two [OF ok c t T _ r] False by blast
    have N: "cleft ?cz @ nodes Lf @ nodes ry @ cright ?cz = cleft ctx @ nodes l @ (pNode c, ky, dy) # nodes ry @ cright cr @ cright ctx"
      by (simp add: cleft_append r(2))
    have ys': "ys = (ky, dy) # map snd (nodes ry @ cright cr @ cright ctx)" unfolding ys r by (simp add: nodes_plug r(2))
    have hd: "root (plug ?cz (Br Lf y yb ky dy ry)) = root (Ts (iTree c))" unfolding T1 [symmetric] by (simp add: T root_plug)
    have "rbinv ?T1 \<and> black ?T1" using rb_plug_entry tr(3,4) unfolding T by blast
    note in' = this
    show ?thesis
      by (rule exI [of _ y], rule exI [of _ h1], rule exI [of _ "c\<lparr>eSkip := SKIP_NEXT\<rparr>"], rule exI [of _ ?cz], rule exI [of _ Lf], rule exI [of _ yb], rule exI [of _ ky], rule exI [of _ dy], rule exI [of _ ry], use in' p N T1 ys' hd in \<open>simp add: xs T after_delete_def\<close>)
  qed
qed

lemma delete_core:
  assumes ok: "db_ok s Ts" and c: "cursors s q = Some c" and e: "cursor_entry s q = Some e"
    and xy: "contents s (iTree c) = xs @ e # ys" and oc: "others_clear s q (iTree c)"
  shows "\<exists>z s1 s2 Ts'. delete_prepare s q = Some (z, s1) \<and> delete_node s1 (iTree c) z = Some s2 \<and> db_ok s2 Ts' \<and>
    contents s2 (iTree c) = xs @ ys \<and> database s2 = (database s)(iTree c \<mapsto> (map_of (contents s (iTree c)))(fst e := None)) \<and>
    frame_same s s2 \<and> same_logs s s2 \<and> (mem_ok s \<longrightarrow> mem_ok s2) \<and>
    cursor_entry s2 q = fst (after_delete xs ys) \<and> map_option eSkip (cursors s2 q) = Some (snd (after_delete xs ys))"
proof -
  obtain t where t: "tbl s (iTree c) = Some t" using cursor_tree [OF ok c] .
  note tr = tree_at [OF ok t]
  obtain z h1 c' cz lz bz kz dz rz where p: "delete_prepare s q = Some (z, set_cursor q c' (s\<lparr>heap := h1\<rparr>))"
    "becomes (heap s) (Ts (iTree c)) h1 (plug cz (Br lz z bz kz dz rz))"
    "root (plug cz (Br lz z bz kz dz rz)) = root (Ts (iTree c))"
    "rbinv (plug cz (Br lz z bz kz dz rz))" "black (plug cz (Br lz z bz kz dz rz))" "lz = Lf \<or> rz = Lf"
    "iTree c' = iTree c" "wrFlag c' = wrFlag c" "map snd (cleft cz @ nodes lz @ nodes rz @ cright cz) = xs @ ys"
    "eSkip c' = snd (after_delete xs ys)"
    "case fst (after_delete xs ys) of None \<Rightarrow> pNode c' = 0 | Some e \<Rightarrow> (pNode c', e) \<in> set (cleft cz @ nodes lz @ nodes rz @ cright cz)"
    using delete_prepare_result [OF ok c e xy] by blast
  obtain h2 hd2 pChild n h3 T' where d: "splice h1 (root (plug cz (Br lz z bz kz dz rz))) z = Some (h2, hd2, pChild, n)"
    "(if isBlack n then do_delete_balancing h2 hd2 pChild (pParent n) else Some (h2, hd2)) = Some (h3, root T')"
    "tree_ok (h3(z := None)) (root T') T' = ksorted T'" "nodes T' = cleft cz @ nodes lz @ nodes rz @ cright cz"
    "nset T' = nset (plug cz (Br lz z bz kz dz rz)) - {z}" "\<forall>p. p \<notin> nset (plug cz (Br lz z bz kz dz rz)) \<longrightarrow> h3 p = h1 p"
    using delete_tree [OF becomes_holds [OF p(2)] p(6) p(4,5)] by (elim exE conjE) (rule that)
  have en: "entries T' = xs @ ys" using p(9) d(4) by simp
  have "sorted_wrt (<) (map fst (xs @ e # ys))" using entries_sorted [OF tr(5)] tr(7) xy by simp
  then have so: "sorted_wrt (<) (map fst (xs @ ys))" and dis: "distinct (map fst (xs @ e # ys))"
    using strict_sorted_iff by (simp add: sorted_wrt_append, blast)
  have "ksorted T'" using so unfolding en [symmetric] ksorted_def by (simp add: comp_def)
  then have T': "tree_ok (h3(z := None)) (root T') T'" using d(3) by simp
  define s2 where "s2 = set_tbl (iTree c) (t\<lparr>pHead := root T'\<rparr>) ((set_cursor q c' (s\<lparr>heap := h1\<rparr>))\<lparr>heap := h3(z := None)\<rparr>)"
  have dn: "delete_node (set_cursor q c' (s\<lparr>heap := h1\<rparr>)) (iTree c) z = Some s2"
    using d(1,2) tr(2) p(3) by (simp add: delete_node_def t s2_def)
  have nT: "nset T' = nset (Ts (iTree c)) - {z}" "z \<in> nset (Ts (iTree c))"
    using d(5) p(2) by (auto simp: becomes_def set_addrs_plug)
  have cur: "pNode c' = 0 \<or> pNode c' \<in> nset T'"
    using p(11) node_in_tree [of _ T'] d(4) by (force split: option.splits)
  have fr: "(h3(z := None)) p = heap s p" if "p \<notin> nset (Ts (iTree c))" "p < next_ptr s" for p
    using that nT(2) d(6) p(2) by (auto simp: fun_upd_apply becomes_def)
  have sub: "nset T' \<subseteq> nset (Ts (iTree c)) \<union> {next_ptr s..<next_ptr s}" using nT by blast
  have up: "db_ok s2 (Ts(iTree c := T')) \<and> contents s2 (iTree c) = entries T' \<and>
      database s2 = (database s)(iTree c \<mapsto> map_of (entries T')) \<and> frame_same s s2"
    by (rule update_result [OF ok t T' sub order_refl fr oc c refl p(7,8) cur]) (simp_all add: s2_def fun_upd_def)
  have m: "map_of (entries T') = (map_of (contents s (iTree c)))(fst e := None)"
    using map_of_delete [of "fst e" xs ys "snd e", OF distinct_split [of xs "fst e" "snd e" ys]] dis
    unfolding en xy prod.collapse by metis
  have "cursor_entry s2 q = fst (after_delete xs ys)"
  proof (cases "fst (after_delete xs ys)")
    case None
    then show ?thesis using p(11) by (simp add: s2_def cursor_entry_def)
  next
    case (Some a)
    then have "(pNode c', a) \<in> set (nodes T')" using p(11) d(4) by simp
    then show ?thesis using heap_entry [of "h3(z := None)" T' "(pNode c', a)"] T' Some
      by (simp add: s2_def cursor_entry_def tree_ok_def)
  qed
  then show ?thesis using p(1,10) dn up m en
    by (intro exI [of _ z] exI [of _ "set_cursor q c' (s\<lparr>heap := h1\<rparr>)"] exI [of _ s2] exI [of _ "Ts(iTree c := T')"]) (simp add: s2_def mem_ok_def)
qed

section \<open>Deletion\<close>

lemma Delete_prog:
  assumes "eTransState s \<noteq> TRANS_NONE" "checkReadLocks s q = Some (SQLITE_OK, s0)" "cursors s0 q = Some cur" "pNode cur \<noteq> 0"
    "deref (heap s0) (pNode cur) = Some z"
    "(if eTransState s0 \<noteq> TRANS_ROLLBACK then log_op 1 s0 (ROLLBACK_INSERT (iTree cur) (RbTree.pKey z) (RbTree.pData z)) else Some (SQLITE_OK, s0)) = Some (rc, s1)"
  shows "memRbtreeDelete s q = (if rc \<noteq> SQLITE_OK then Some (rc, s1)
        else do { (pZ, s) \<leftarrow> delete_prepare s1 q; s \<leftarrow> delete_node s (iTree cur) pZ; Some (SQLITE_OK, s) })"
  using assms by (cases "eTransState s0 = TRANS_ROLLBACK") (auto simp: memRbtreeDelete_def assertion_def)

theorem Delete_result:
  assumes ok: "db_ok s Ts" and w: "writer s q cur" and st: "eTransState s \<noteq> TRANS_NONE"
    and e: "cursor_entry s q = Some (k, d)" and xy: "contents s (iTree cur) = xs @ (k, d) # ys"
  shows "\<exists>rc s' Ts'. memRbtreeDelete s q = Some (rc, s') \<and> db_ok s' Ts' \<and>
    updates s q (iTree cur) ((map_of (contents s (iTree cur)))(k := None)) (ROLLBACK_INSERT (iTree cur) k d) rc s' \<and>
    (rc = SQLITE_OK \<longrightarrow> contents s' (iTree cur) = xs @ ys \<and>
       cursor_entry s' q = fst (after_delete xs ys) \<and> map_option eSkip (cursors s' q) = Some (snd (after_delete xs ys)))"
proof -
  obtain rc cs where r: "checkReadLocks s q = Some (rc, s\<lparr>cursors := cs\<rparr>)" "db_ok (s\<lparr>cursors := cs\<rparr>) Ts"
    "rc = SQLITE_OK \<or> rc = SQLITE_LOCKED" "rc = SQLITE_OK \<longleftrightarrow> no_readers s q" "writer (s\<lparr>cursors := cs\<rparr>) q cur"
    "rc = SQLITE_OK \<longrightarrow> others_clear (s\<lparr>cursors := cs\<rparr>) q (iTree cur)"
    "\<forall>p. map_option (\<lambda>c. (iTree c, wrFlag c)) (cs p) = map_option (\<lambda>c. (iTree c, wrFlag c)) (cursors s p)"
    using checkReadLocks_result [OF ok w] by blast
  let ?s = "s\<lparr>cursors := cs\<rparr>" and ?op = "ROLLBACK_INSERT (iTree cur) k d"
  let ?m = "(map_of (contents s (iTree cur)))(k := None)"
  note co = cursors_only [OF r(7)]
  show ?thesis
  proof (cases "rc = SQLITE_OK")
    case False
    then have "updates s q (iTree cur) ?m ?op SQLITE_LOCKED ?s"
      unfolding updates_def using r(3,4) co by simp
    then show ?thesis using r(1,2) False st
      by (intro exI [of _ SQLITE_LOCKED] exI [of _ ?s] exI [of _ Ts]) (simp add: memRbtreeDelete_def assertion_def)
  next
    case True
    have c: "cursors s q = Some cur" "cursors ?s q = Some cur" using r(5) w by (simp_all add: writer_def)
    have nz: "pNode cur \<noteq> 0" and z: "map_option (\<lambda>n. (RbTree.pKey n, RbTree.pData n)) (heap s (pNode cur)) = Some (k, d)"
      using e c by (simp_all add: cursor_entry_def split: if_splits)
    obtain z where z: "deref (heap s) (pNode cur) = Some z" "RbTree.pKey z = k" "RbTree.pData z = d"
      using z nz by (auto simp: deref_def)
    have nr: "no_readers s q" "no_readers ?s q" using r(4) True no_readers_frame [OF co(2)] by simp_all
    have st': "eTransState ?s \<noteq> TRANS_NONE" using st by simp
    obtain rc' s1 where l: "(if eTransState ?s \<noteq> TRANS_ROLLBACK then log_op 1 ?s ?op else Some (SQLITE_OK, ?s)) = Some (rc', s1)"
      "same_data ?s s1" "rc' = SQLITE_OK \<and> logged ?op ?s s1 \<or> rc' = SQLITE_NOMEM \<and> \<not> mem_ok ?s \<and> same_logs ?s s1"
      "mem_ok ?s \<longrightarrow> mem_ok s1"
      using logged_result [OF st'] by blast
    note f = same_data_fields [OF l(2)]
    have ok1: "db_ok s1 Ts" using same_data_db_ok [OF l(2)] r(2) by simp
    have fr1: "frame_same s s1" using frame_same_trans [OF co(2) same_data_frame [OF l(2)]] .
    have db1: "database s1 = database s" using same_data_database [OF l(2)] co(1) by simp
    have prog: "memRbtreeDelete s q = (if rc' \<noteq> SQLITE_OK then Some (rc', s1)
        else do { (pZ, s) \<leftarrow> delete_prepare s1 q; s \<leftarrow> delete_node s (iTree cur) pZ; Some (SQLITE_OK, s) })"
      by (rule Delete_prog [OF st _ c(2) nz, of z]) (use r(1) True l(1) z in \<open>simp_all split: if_splits\<close>)
    show ?thesis
    proof (cases "rc' = SQLITE_OK")
      case False
      have "updates s q (iTree cur) ?m ?op rc' s1"
        unfolding updates_def using False l(3,4) nr fr1 db1 same_logs_trans [of s ?s s1] by (auto simp: same_logs_def)
      then show ?thesis using prog False ok1 by (intro exI [of _ rc'] exI [of _ s1] exI [of _ Ts]) simp
    next
      case True
      have c1: "cursors s1 q = Some cur" "cursor_entry s1 q = Some (k, d)" "contents s1 (iTree cur) = xs @ (k, d) # ys"
        "others_clear s1 q (iTree cur)" "contents s1 (iTree cur) = contents s (iTree cur)"
        using f c co(3) xy e others_clear_same [OF _ l(2)] r(6) \<open>rc = SQLITE_OK\<close> same_data_contents [OF l(2)]
        by (simp_all add: cursor_entry_def split: if_splits)
      obtain p s2 s3 Ts' where d: "delete_prepare s1 q = Some (p, s2)" "delete_node s2 (iTree cur) p = Some s3" "db_ok s3 Ts'"
        "contents s3 (iTree cur) = xs @ ys" "database s3 = (database s1)(iTree cur \<mapsto> (map_of (contents s1 (iTree cur)))(fst (k, d) := None))"
        "frame_same s1 s3" "same_logs s1 s3" "mem_ok s1 \<longrightarrow> mem_ok s3"
        "cursor_entry s3 q = fst (after_delete xs ys)" "map_option eSkip (cursors s3 q) = Some (snd (after_delete xs ys))"
        using delete_core [OF ok1 c1(1-4)] by blast
      have "logged ?op s s3"
        using l(3) True d(7) by (auto simp: logged_def same_logs_def logging_def add_log_def split: if_splits)
      then have "updates s q (iTree cur) ?m ?op SQLITE_OK s3"
        unfolding updates_def using frame_same_trans [OF fr1 d(6)] d(5,8) db1 c1(5) nr l(4) by simp
      then show ?thesis using prog True d by (intro exI [of _ SQLITE_OK] exI [of _ s3] exI [of _ Ts']) simp
    qed
  qed
qed

lemma Delete_nowhere:
  assumes ok: "db_ok s Ts" and w: "writer s q cur" and st: "eTransState s \<noteq> TRANS_NONE" and p: "pNode cur = 0"
  shows "\<exists>rc s'. memRbtreeDelete s q = Some (rc, s') \<and> db_ok s' Ts \<and> frame_same s s' \<and> same_logs s s' \<and>
    database s' = database s \<and> (rc = SQLITE_OK \<and> no_readers s q \<or> rc = SQLITE_LOCKED \<and> \<not> no_readers s q)"
proof -
  obtain rc cs where r: "checkReadLocks s q = Some (rc, s\<lparr>cursors := cs\<rparr>)" "db_ok (s\<lparr>cursors := cs\<rparr>) Ts"
    "rc = SQLITE_OK \<or> rc = SQLITE_LOCKED" "rc = SQLITE_OK \<longleftrightarrow> no_readers s q" "writer (s\<lparr>cursors := cs\<rparr>) q cur"
    "\<forall>p. map_option (\<lambda>c. (iTree c, wrFlag c)) (cs p) = map_option (\<lambda>c. (iTree c, wrFlag c)) (cursors s p)"
    using checkReadLocks_result [OF ok w] by blast
  note co = cursors_only [OF r(6)]
  have "cs q = Some cur" using r(5) by (simp add: writer_def)
  then show ?thesis using r st p co
    by (intro exI [of _ rc] exI [of _ "s\<lparr>cursors := cs\<rparr>"]) (auto simp add: memRbtreeDelete_def assertion_def)
qed

end
