(* ===== verification/RbTrans.thy ===== *)
theory RbTrans
  imports RbErase "HOL-Library.Multiset"
begin

text \<open>
  Whole tables, transactions and checkpoints: emptying, dropping and creating tables, and the
  rollback, which runs the log of the open unit backwards.
\<close>

section \<open>Emptying a table\<close>

fun add_logs :: "rollback_op list \<Rightarrow> rbt_db \<Rightarrow> rbt_db" where
  "add_logs [] s = s"
| "add_logs (op # ops) s = add_logs ops (if eTransState s = TRANS_ROLLBACK then s else add_log op s)"

abbreviation restore_op :: "int \<Rightarrow> bytes \<times> bytes \<Rightarrow> rollback_op" where
  "restore_op n e \<equiv> ROLLBACK_INSERT n (fst e) (snd e)"

lemma add_log_fields [simp]:
  "heap (add_log op s) = heap s" "next_ptr (add_log op s) = next_ptr s" "tblHash (add_log op s) = tblHash s"
  "cursors (add_log op s) = cursors s" "eTransState (add_log op s) = eTransState s" "next_idx (add_log op s) = next_idx s"
  "aMetaData (add_log op s) = aMetaData s" "mallocs (add_log op s) = mallocs s" "malloc_failed (add_log op s) = malloc_failed s"
  "logging (add_log op s) = logging s"
  "add_log op (s\<lparr>heap := h\<rparr>) = (add_log op s)\<lparr>heap := h\<rparr>"
  by (simp_all add: add_log_def logging_def)

lemma add_logs_fields [simp]:
  "heap (add_logs ops s) = heap s" "next_ptr (add_logs ops s) = next_ptr s" "tblHash (add_logs ops s) = tblHash s"
  "cursors (add_logs ops s) = cursors s" "eTransState (add_logs ops s) = eTransState s" "next_idx (add_logs ops s) = next_idx s"
  "aMetaData (add_logs ops s) = aMetaData s" "mem_ok (add_logs ops s) = mem_ok s"
  "add_logs ops (s\<lparr>heap := h\<rparr>) = (add_logs ops s)\<lparr>heap := h\<rparr>"
  by (induction ops arbitrary: s) auto

lemma add_logs_append: "add_logs (ops @ ops') s = add_logs ops' (add_logs ops s)"
  by (induction ops arbitrary: s) auto

text \<open>A leaf goes out of its tree by clearing the pointer to it.\<close>

lemma unlink_leaf:
  assumes "holds h (plug (f # c) (Br Lf a b k d Lf))"
  shows "\<exists>h' n. deref (h(a := None)) (fr_addr f) = Some n \<and> (pLeft n = a \<longleftrightarrow> (case f of FL _ _ _ _ _ \<Rightarrow> True | _ \<Rightarrow> False)) \<and>
    (\<not> pLeft n = a \<longrightarrow> pRight n = a) \<and>
    upd (h(a := None)) (fr_addr f) (case f of FL _ _ _ _ _ \<Rightarrow> set_left 0 | _ \<Rightarrow> set_right 0) = Some h' \<and>
    holds h' (plug (f # c) Lf) \<and> (\<forall>p. p \<notin> nset (plug (f # c) (Br Lf a b k d Lf)) \<longrightarrow> h' p = h p)"
  using assms hole_sib [OF assms]
  by (cases f) (clarsimp simp: heap_simps node_at_def [of h])+


text \<open>A log entry that cannot fail, or none in a rollback.\<close>

definition log_ready :: "rbt_db \<Rightarrow> bool" where
  "log_ready s \<longleftrightarrow> eTransState s = TRANS_ROLLBACK \<or> logging s \<and> mem_ok s"

lemma log_ready_log:
  "log_ready s \<Longrightarrow> (if eTransState s = TRANS_ROLLBACK then Some (SQLITE_OK, s) else log_op n s op) = Some (SQLITE_OK, add_logs [op] s)"
  "log_ready s \<Longrightarrow> (if eTransState s \<noteq> TRANS_ROLLBACK then log_op n s op else Some (SQLITE_OK, s)) = Some (SQLITE_OK, add_logs [op] s)"
  "log_ready s \<Longrightarrow> log_ready (add_logs ops s)" "log_ready s \<Longrightarrow> log_ready (s\<lparr>heap := h\<rparr>)"
proof -
  show "log_ready s \<Longrightarrow> (if eTransState s = TRANS_ROLLBACK then Some (SQLITE_OK, s) else log_op n s op) = Some (SQLITE_OK, add_logs [op] s)"
    "log_ready s \<Longrightarrow> (if eTransState s \<noteq> TRANS_ROLLBACK then log_op n s op else Some (SQLITE_OK, s)) = Some (SQLITE_OK, add_logs [op] s)"
    using log_op_result [of s n op] by (auto simp: log_ready_def)
  have "logging (add_logs ops s) = logging s" for ops s by (simp add: logging_def)
  then show "log_ready s \<Longrightarrow> log_ready (add_logs ops s)" "log_ready s \<Longrightarrow> log_ready (s\<lparr>heap := h\<rparr>)"
    by (simp_all add: log_ready_def logging_def)
qed

lemma size_plug: "size (plug c t) = size t + size (plug c Lf)"
proof (induction c arbitrary: t)
  case (Cons f c)
  show ?case using Cons [of "fill f t"] Cons [of "fill f Lf"] by (cases f) auto
qed simp

lemma clear_loop_ok:
  assumes "holds (heap s) (plug c t)" "t \<noteq> Lf" "log_ready s"
  shows "\<exists>h' es. clear_loop n s (root t) = Some (SQLITE_OK, (add_logs (map (restore_op n) es) s)\<lparr>heap := h'\<rparr>) \<and>
    mset es = mset (entries (plug c t)) \<and> (\<forall>p. p \<notin> nset (plug c t) \<longrightarrow> h' p = heap s p)"
  using assms
proof (induction "(size (plug c t), size t)" arbitrary: c t s
    rule: wf_induct_rule [OF wf_lex_prod [OF wf_less_than wf_less_than]])
  case 1
  obtain l a b k d r where t: "t = Br l a b k d r" using "1.prems"(2) by (cases t) auto
  have h: "holds (heap s) (plug c (Br l a b k d r))" using "1.prems"(1) t by simp
  have nz: "(a = 0) = False" using hole_0 [OF h] by simp
  obtain m where m: "deref (heap s) a = Some m" "pLeft m = root l" "pRight m = root r" "pParent m = cpar c"
    "RbTree.pKey m = k" "RbTree.pData m = d"
    using holds_node [OF h] by auto
  have l0: "root l = 0 \<longleftrightarrow> l = Lf" using hole_0 [of "heap s" "FL a b k d r # c" l] h by (cases l) auto
  have r0: "root r = 0 \<longleftrightarrow> r = Lf" using hole_0 [of "heap s" "FR l a b k d # c" r] h by (cases r) auto
  consider (left) "l \<noteq> Lf" | (right) "l = Lf" "r \<noteq> Lf" | (leaf) "l = Lf" "r = Lf" by blast
  then show ?case
  proof cases
    case left
    have "clear_loop n s (root t) = clear_loop n s (root l)"
      using left l0 by (subst clear_loop.simps) (simp add: t nz m)
    moreover have "\<exists>h' es. clear_loop n s (root l) = Some (SQLITE_OK, (add_logs (map (restore_op n) es) s)\<lparr>heap := h'\<rparr>) \<and>
      mset es = mset (entries (plug (FL a b k d r # c) l)) \<and> (\<forall>p. p \<notin> nset (plug (FL a b k d r # c) l) \<longrightarrow> h' p = heap s p)"
      by (rule "1.hyps") (use left h "1.prems"(3) in \<open>auto simp: t\<close>)
    ultimately show ?thesis by (simp add: t)
  next
    case right
    have "clear_loop n s (root t) = clear_loop n s (root r)"
      using right r0 by (subst clear_loop.simps) (simp add: t nz m)
    moreover have "\<exists>h' es. clear_loop n s (root r) = Some (SQLITE_OK, (add_logs (map (restore_op n) es) s)\<lparr>heap := h'\<rparr>) \<and>
      mset es = mset (entries (plug (FR l a b k d # c) r)) \<and> (\<forall>p. p \<notin> nset (plug (FR l a b k d # c) r) \<longrightarrow> h' p = heap s p)"
      by (rule "1.hyps") (use right h "1.prems"(3) in \<open>auto simp: t\<close>)
    ultimately show ?thesis by (simp add: t)
  next
    case leaf
    let ?s1 = "add_logs [restore_op n (k, d)] s"
    note log = log_ready_log(1) [OF "1.prems"(3), of 1 "ROLLBACK_INSERT n k d"]
    show ?thesis
    proof (cases c)
      case Nil
      have "clear_loop n s (root t) = Some (SQLITE_OK, ?s1\<lparr>heap := (heap s)(a := None)\<rparr>)"
        using leaf log by (subst clear_loop.simps)
          (cases "eTransState s = TRANS_ROLLBACK"; simp add: t nz m Nil clear_loop.simps [of n _ 0] Let_def)
      then show ?thesis using Nil leaf
        by (intro exI [of _ "(heap s)(a := None)"] exI [of _ "[(k, d)]"]) (simp add: t fun_upd_apply)
    next
      case (Cons f c')
      obtain h' m' where u: "deref ((heap s)(a := None)) (fr_addr f) = Some m'"
        "pLeft m' = a \<longleftrightarrow> (case f of FL _ _ _ _ _ \<Rightarrow> True | _ \<Rightarrow> False)" "\<not> pLeft m' = a \<longrightarrow> pRight m' = a"
        "upd ((heap s)(a := None)) (fr_addr f) (case f of FL _ _ _ _ _ \<Rightarrow> set_left 0 | _ \<Rightarrow> set_right 0) = Some h'"
        "holds h' (plug (f # c') Lf)" "\<forall>p. p \<notin> nset (plug (f # c') (Br Lf a b k d Lf)) \<longrightarrow> h' p = heap s p"
        using unlink_leaf [of "heap s" f c' a b k d] h unfolding Cons leaf by blast
      define s2 where "s2 = ?s1\<lparr>heap := h'\<rparr>"
      have fz: "(fr_addr f = 0) = False" using u(1) by (auto simp: deref_def split: if_splits)
      have "clear_loop n s (root t) = clear_loop n s2 (fr_addr f)"
        using leaf log u fz by (subst clear_loop.simps)
          (cases f; cases "eTransState s = TRANS_ROLLBACK"; simp add: t nz m Cons s2_def Let_def)
      moreover have "\<exists>h'' es. clear_loop n s2 (root (fill f Lf)) = Some (SQLITE_OK, (add_logs (map (restore_op n) es) s2)\<lparr>heap := h''\<rparr>) \<and>
        mset es = mset (entries (plug c' (fill f Lf))) \<and> (\<forall>p. p \<notin> nset (plug c' (fill f Lf)) \<longrightarrow> h'' p = heap s2 p)"
      proof (rule "1.hyps")
        show "((size (plug c' (fill f Lf)), size (fill f Lf)), size (plug c t), size t) \<in> less_than <*lex*> less_than"
          using size_plug [of "f # c'" "Br Lf a b k d Lf"] by (simp add: Cons t leaf)
        show "holds (heap s2) (plug c' (fill f Lf))" using u(5) by (simp add: s2_def)
        show "fill f Lf \<noteq> Lf" by (cases f) auto
        show "log_ready s2" using log_ready_log(3,4) "1.prems"(3) unfolding s2_def by blast
      qed
      ultimately obtain h'' es where e: "clear_loop n s (root t) = Some (SQLITE_OK, (add_logs (map (restore_op n) es) s2)\<lparr>heap := h''\<rparr>)"
        "mset es = mset (entries (plug c' (fill f Lf)))" "\<forall>p. p \<notin> nset (plug c' (fill f Lf)) \<longrightarrow> h'' p = heap s2 p"
        by auto
      have "(add_logs (map (restore_op n) es) s2)\<lparr>heap := h''\<rparr> = (add_logs (map (restore_op n) ((k, d) # es)) s)\<lparr>heap := h''\<rparr>"
        by (simp add: s2_def)
      moreover have "mset ((k, d) # es) = mset (entries (plug c t))"
        using e(2) nodes_plug [of "f # c'" Lf] nodes_plug [of "f # c'" t] by (simp add: Cons t leaf)
      moreover have "\<forall>p. p \<notin> nset (plug c t) \<longrightarrow> h'' p = heap s p"
        using e(3) u(6) by (cases f) (auto simp: Cons t leaf s2_def set_addrs_plug)
      ultimately show ?thesis using e(1) by (intro exI [of _ h''] exI [of _ "(k, d) # es"]) simp
    qed
  qed
qed


text \<open>A change of one table that leaves every cursor of it at no node.\<close>

definition all_clear :: "rbt_db \<Rightarrow> int \<Rightarrow> bool" where
  "all_clear s n \<longleftrightarrow> (\<forall>p c. cursors s p = Some c \<longrightarrow> iTree c = n \<longrightarrow> pNode c = 0)"

lemma db_ok_empty_table:
  assumes ok: "db_ok s Ts" and t: "tbl s n = Some t" and ac: "all_clear s n"
    and frame: "\<And>p. p \<notin> nset (Ts n) \<Longrightarrow> h' p = heap s p"
    and s': "heap s' = h'" "next_ptr s' = next_ptr s" "tblHash s' = AList.update n (t\<lparr>pHead := 0\<rparr>) (tblHash s)" "cursors s' = cursors s"
  shows "db_ok s' (Ts(n := Lf)) \<and> database s' = (database s)(n \<mapsto> Map.empty) \<and> contents s' n = []"
proof -
  have tr: "trees_ok s Ts" and cok: "cursors_ok s Ts" using ok by (auto simp: db_ok_def)
  have tb: "tbl s' m = (if m = n then Some (t\<lparr>pHead := 0\<rparr>) else tbl s m)" for m
    by (simp add: s'(3) update_conv' fun_upd_apply)
  have old: "tree_ok h' (pHead tm) (Ts m)" if m: "tbl s m = Some tm" "m \<noteq> n" for m tm
  proof -
    have "nset (Ts m) \<inter> nset (Ts n) = {}" using tr m t unfolding trees_ok_def by blast
    then have "h' p = heap s p" if "p \<in> nset (Ts m)" for p using that frame [of p] by blast
    then show ?thesis using tr m holds_frame [of "heap s" "Ts m" h'] by (auto simp: trees_ok_def tree_ok_def)
  qed
  have "trees_ok s' (Ts(n := Lf))"
    unfolding trees_ok_def s'(1,2) tb
  proof (intro conjI allI impI)
    show "0 < next_ptr s" using tr by (simp add: trees_ok_def)
  next
    fix m tm assume m: "(if m = n then Some (t\<lparr>pHead := 0\<rparr>) else tbl s m) = Some tm"
    show "tree_ok h' (pHead tm) ((Ts(n := Lf)) m)" using m old
      by (auto simp: fun_upd_apply tree_ok_def holds_def ksorted_def split: if_splits)
    show "nset ((Ts(n := Lf)) m) \<subseteq> {..<next_ptr s}" using m tree_at(6) [OF ok, of m tm] by (auto simp: fun_upd_apply split: if_splits)
  next
    fix m k assume "(if m = n then Some (t\<lparr>pHead := 0\<rparr>) else tbl s m) \<noteq> None"
      "(if k = n then Some (t\<lparr>pHead := 0\<rparr>) else tbl s k) \<noteq> None" "m \<noteq> k"
    then show "nset ((Ts(n := Lf)) m) \<inter> nset ((Ts(n := Lf)) k) = {}"
      using tr unfolding trees_ok_def by (simp add: fun_upd_apply split: if_splits)
  qed
  moreover have "cursors_ok s' (Ts(n := Lf))"
    unfolding cursors_ok_def tb s'(2,4)
  proof (intro conjI allI impI)
    fix m tm p assume "(if m = n then Some (t\<lparr>pHead := 0\<rparr>) else tbl s m) = Some tm" "p \<in> set (pCursors tm)"
    then show "p \<noteq> 0" "\<exists>c. cursors s p = Some c \<and> iTree c = m"
      using cursors_listed [OF cok, of m _ p] t by (auto split: if_splits)
  next
    fix m tm assume "(if m = n then Some (t\<lparr>pHead := 0\<rparr>) else tbl s m) = Some tm"
    then show "distinct (pCursors tm)" using cursors_distinct [OF cok] t by (auto split: if_splits)
  next
    fix p c assume c: "cursors s p = Some c"
    show "p < next_ptr s" using cursors_below [OF cok c] .
    show "\<exists>tm. (if iTree c = n then Some (t\<lparr>pHead := 0\<rparr>) else tbl s (iTree c)) = Some tm \<and> (p = 0 \<or> p \<in> set (pCursors tm))"
      using cursors_table [OF cok c] t by auto
    show "pNode c = 0 \<or> pNode c \<in> nset ((Ts(n := Lf)) (iTree c))"
      using cursors_pos [OF cok c] ac c by (auto simp: all_clear_def fun_upd_apply)
  qed
  ultimately have ok': "db_ok s' (Ts(n := Lf))" by (simp add: db_ok_def)
  have c: "contents s' m = (if m = n then [] else contents s m)" for m
  proof (cases "tbl s m")
    case None
    then show ?thesis using t by (auto simp: contents_def tb)
  next
    case (Some tm)
    then show ?thesis using tree_at(7) [OF ok', of m] tree_at(7) [OF ok Some] by (auto simp: tb fun_upd_apply)
  qed
  then have "database s' m = ((database s)(n \<mapsto> Map.empty)) m" for m
    by (simp add: database_def tb fun_upd_apply split: option.split)
  then show ?thesis using ok' c by auto
qed

theorem ClearTable_result:
  assumes ok: "db_ok s Ts" and t: "tbl s n = Some t" and ac: "all_clear s n" and log: "log_ready s"
  shows "\<exists>s' es. memRbtreeClearTable s n = Some (SQLITE_OK, s') \<and> db_ok s' (Ts(n := Lf)) \<and>
    database s' = (database s)(n \<mapsto> Map.empty) \<and> mset es = mset (contents s n) \<and>
    same_logs (add_logs (map (restore_op n) es) s) s' \<and> frame_same s s' \<and> cursors s' = cursors s \<and> (mem_ok s \<longrightarrow> mem_ok s') \<and>
    tbl s' n = Some (t\<lparr>pHead := 0\<rparr>)"
proof -
  note tr = tree_at [OF ok t]
  obtain h' es where c: "clear_loop n s (pHead t) = Some (SQLITE_OK, (add_logs (map (restore_op n) es) s)\<lparr>heap := h'\<rparr>)"
    "mset es = mset (entries (Ts n))" "\<forall>p. p \<notin> nset (Ts n) \<longrightarrow> h' p = heap s p"
  proof (cases "Ts n = Lf")
    case True
    then have "clear_loop n s (pHead t) = Some (SQLITE_OK, s)" using head_0 [OF ok t] by (subst clear_loop.simps) simp
    then show ?thesis using that [of "heap s" "[]"] True by simp
  next
    case False
    then show ?thesis using clear_loop_ok [of s "[]" "Ts n" n] tr(1,2) log that by auto
  qed
  let ?s1 = "(add_logs (map (restore_op n) es) s)\<lparr>heap := h'\<rparr>"
  define s' where "s' = set_tbl n (t\<lparr>pHead := 0\<rparr>) ?s1"
  have d: "db_ok s' (Ts(n := Lf)) \<and> database s' = (database s)(n \<mapsto> Map.empty) \<and> contents s' n = []"
    by (rule db_ok_empty_table [OF ok t ac]) (use c(3) in \<open>simp_all add: s'_def\<close>)
  have "tbl s' m = (if m = n then Some (t\<lparr>pHead := 0\<rparr>) else tbl s m)" for m
    by (simp add: s'_def update_conv' fun_upd_apply)
  then have "frame_same s s'" "tbl s' n = Some (t\<lparr>pHead := 0\<rparr>)"
    using t by (auto simp: frame_same_def s'_def)
  then show ?thesis using c(1,2) d tr(7)
    by (intro exI [of _ s'] exI [of _ es]) (simp add: memRbtreeClearTable_def t s'_def same_logs_def)
qed

section \<open>Dropping and creating a table\<close>

lemma contents_cong: "heap s' = heap s \<Longrightarrow> next_ptr s' = next_ptr s \<Longrightarrow> tbl s' n = tbl s n \<Longrightarrow> contents s' n = contents s n"
  by (simp add: contents_def split: option.split)

lemma database_cong: "heap s' = heap s \<Longrightarrow> next_ptr s' = next_ptr s \<Longrightarrow> tbl s' n = tbl s n \<Longrightarrow> database s' n = database s n"
  by (simp add: database_def contents_def split: option.split)

lemma db_ok_drop_table:
  assumes ok: "db_ok s Ts" and free: "\<And>p c. cursors s p = Some c \<Longrightarrow> iTree c \<noteq> n"
    and s': "heap s' = heap s" "next_ptr s' = next_ptr s" "tblHash s' = AList.delete n (tblHash s)" "cursors s' = cursors s"
  shows "db_ok s' Ts" "database s' = (database s)(n := None)"
proof -
  have cok: "cursors_ok s Ts" and tr: "trees_ok s Ts" using ok by (auto simp: db_ok_def)
  have tb: "tbl s' m = (if m = n then None else tbl s m)" for m
    by (simp add: s'(3) delete_conv' fun_upd_apply)
  have "trees_ok s' Ts" using tr unfolding trees_ok_def s'(1,2) tb by (simp split: if_splits)
  moreover have "cursors_ok s' Ts"
    unfolding cursors_ok_def s'(2,4) tb
  proof (intro conjI allI impI)
    fix m t p assume a: "(if m = n then None else tbl s m) = Some t" "p \<in> set (pCursors t)"
    then show "p \<noteq> 0" "\<exists>c. cursors s p = Some c \<and> iTree c = m" using cursors_listed [OF cok, of m t p] by (auto split: if_splits)
  next
    fix m t assume "(if m = n then None else tbl s m) = Some t"
    then show "distinct (pCursors t)" using cursors_distinct [OF cok] by (auto split: if_splits)
  next
    fix p c assume c: "cursors s p = Some c"
    show "p < next_ptr s" "pNode c = 0 \<or> pNode c \<in> nset (Ts (iTree c))"
      using cursors_below [OF cok c] cursors_pos [OF cok c] by simp_all
    show "\<exists>t. (if iTree c = n then None else tbl s (iTree c)) = Some t \<and> (p = 0 \<or> p \<in> set (pCursors t))"
      using cursors_table [OF cok c] free [OF c] by simp
  qed
  ultimately show "db_ok s' Ts" by (simp add: db_ok_def)
  show "database s' = (database s)(n := None)"
  proof
    fix m show "database s' m = ((database s)(n := None)) m"
      using database_cong [OF s'(1,2), of m] by (cases "m = n") (simp_all add: tb fun_upd_apply database_def)
  qed
qed

lemma db_ok_new_table:
  assumes ok: "db_ok s Ts" and n: "tbl s n = None"
    and s': "heap s' = heap s" "next_ptr s' = next_ptr s" "tblHash s' = AList.update n \<lparr>pCursors = [], pHead = 0\<rparr> (tblHash s)"
      "cursors s' = cursors s"
  shows "db_ok s' (Ts(n := Lf))" "database s' = (database s)(n \<mapsto> Map.empty)"
proof -
  have cok: "cursors_ok s Ts" and tr: "trees_ok s Ts" using ok by (auto simp: db_ok_def)
  have tb: "tbl s' m = (if m = n then Some \<lparr>pCursors = [], pHead = 0\<rparr> else tbl s m)" for m
    by (simp add: s'(3) update_conv' fun_upd_apply)
  have "trees_ok s' (Ts(n := Lf))"
    using tr n unfolding trees_ok_def s'(1,2) tb
    by (auto simp: fun_upd_apply tree_ok_def holds_def ksorted_def)
  moreover have "cursors_ok s' (Ts(n := Lf))"
    unfolding cursors_ok_def s'(2,4) tb
  proof (intro conjI allI impI)
    fix m t p assume a: "(if m = n then Some \<lparr>pCursors = [], pHead = 0\<rparr> else tbl s m) = Some t" "p \<in> set (pCursors t)"
    then show "p \<noteq> 0" "\<exists>c. cursors s p = Some c \<and> iTree c = m"
      using cursors_listed [OF cok, of m t p] by (auto split: if_splits)
  next
    fix m t assume "(if m = n then Some \<lparr>pCursors = [], pHead = 0\<rparr> else tbl s m) = Some t"
    then show "distinct (pCursors t)" using cursors_distinct [OF cok] by (auto split: if_splits)
  next
    fix p c assume c: "cursors s p = Some c"
    have ne: "iTree c \<noteq> n" using cursors_table [OF cok c] n by auto
    show "p < next_ptr s" "pNode c = 0 \<or> pNode c \<in> nset ((Ts(n := Lf)) (iTree c))"
      "\<exists>t. (if iTree c = n then Some \<lparr>pCursors = [], pHead = 0\<rparr> else tbl s (iTree c)) = Some t \<and> (p = 0 \<or> p \<in> set (pCursors t))"
      using cursors_below [OF cok c] cursors_pos [OF cok c] cursors_table [OF cok c] ne by (simp_all add: fun_upd_apply)
  qed
  ultimately show "db_ok s' (Ts(n := Lf))" by (simp add: db_ok_def)
  show "database s' = (database s)(n \<mapsto> Map.empty)"
  proof
    fix m show "database s' m = ((database s)(n \<mapsto> Map.empty)) m"
    proof (cases "m = n")
      case True
      have "walk (next_ptr s) (heap s) 0 = []" by (cases "next_ptr s") (simp_all add: deref_def)
      then show ?thesis using True by (simp add: database_def contents_def tb fun_upd_apply s'(1,2))
    next
      case False
      then show ?thesis using database_cong [OF s'(1,2), of m] by (simp add: tb fun_upd_apply)
    qed
  qed
qed

text \<open>No cursor is open on the table.\<close>

definition unused :: "rbt_db \<Rightarrow> int \<Rightarrow> bool" where
  "unused s n \<longleftrightarrow> (\<forall>p c. cursors s p = Some c \<longrightarrow> iTree c \<noteq> n)"

lemma unused_pCursors: "db_ok s Ts \<Longrightarrow> unused s n \<Longrightarrow> tbl s n = Some t \<Longrightarrow> pCursors t = []"
  using cursors_listed [of s Ts n t] unfolding db_ok_def unused_def by (metis list.set_intros(1) neq_Nil_conv)

theorem DropTable_result:
  assumes ok: "db_ok s Ts" and t: "tbl s n = Some t" and un: "unused s n" and log: "log_ready s"
  shows "\<exists>s' Ts' es. memRbtreeDropTable s n = Some (SQLITE_OK, s') \<and> db_ok s' Ts' \<and>
    database s' = (database s)(n := None) \<and> mset es = mset (contents s n) \<and>
    same_logs (add_logs (map (restore_op n) es @ [ROLLBACK_CREATE n]) s) s' \<and>
    cursors s' = cursors s \<and> eTransState s' = eTransState s \<and> next_idx s' = next_idx s \<and> aMetaData s' = aMetaData s \<and>
    (mem_ok s \<longrightarrow> mem_ok s') \<and> (\<forall>m. tbl s' m \<noteq> None \<longrightarrow> tbl s m \<noteq> None)"
proof -
  have st: "eTransState s \<noteq> TRANS_NONE" using log by (auto simp: log_ready_def logging_def)
  have ac: "all_clear s n" using un by (auto simp: all_clear_def unused_def)
  obtain s1 es where c: "memRbtreeClearTable s n = Some (SQLITE_OK, s1)" "db_ok s1 (Ts(n := Lf))"
    "database s1 = (database s)(n \<mapsto> Map.empty)" "mset es = mset (contents s n)"
    "same_logs (add_logs (map (restore_op n) es) s) s1" "frame_same s s1" "cursors s1 = cursors s" "mem_ok s \<longrightarrow> mem_ok s1"
    "tbl s1 n = Some (t\<lparr>pHead := 0\<rparr>)"
    using ClearTable_result [OF ok t ac log] by blast
  define s2 where "s2 = s1\<lparr>tblHash := AList.delete n (tblHash s1)\<rparr>"
  have d: "db_ok s2 (Ts(n := Lf))" "database s2 = (database s1)(n := None)"
    by (rule db_ok_drop_table [OF c(2), of n]; use un c(7) in \<open>simp add: s2_def unused_def\<close>)+
  have st1: "eTransState s1 = eTransState s" using c(6) by (simp add: frame_same_def)
  have st2: "eTransState s2 = eTransState s" using c(6) by (simp add: s2_def frame_same_def)
  have log2: "log_ready s2" using log c(8) st2 by (auto simp: log_ready_def logging_def s2_def mem_ok_def)
  define s3 where "s3 = add_logs [ROLLBACK_CREATE n] s2"
  have l: "same_data s2 s3" by (simp add: s3_def)
  have prog: "memRbtreeDropTable s n = Some (SQLITE_OK, s3)"
    using c(1,9) st unused_pCursors [OF ok un t] log_ready_log(2) [OF log2, of 1 "ROLLBACK_CREATE n", folded s3_def]
    by (cases "eTransState s2 = TRANS_ROLLBACK") (simp_all add: memRbtreeDropTable_def assertion_def s2_def [symmetric] st2 st1)
  have "same_logs (add_logs (map (restore_op n) es @ [ROLLBACK_CREATE n]) s) s3"
    using c(5) st2 by (auto simp: add_logs_append s3_def same_logs_def s2_def add_log_def)
  moreover have "map_option pCursors (tbl s1 m) = map_option pCursors (tbl s m)" for m using c(6) by (simp add: frame_same_def)
  then have "tbl s1 m \<noteq> None \<longleftrightarrow> tbl s m \<noteq> None" for m by (metis map_option_is_None)
  then have "\<forall>m. tbl s3 m \<noteq> None \<longrightarrow> tbl s m \<noteq> None"
    using l by (auto simp: same_data_def s2_def delete_conv' fun_upd_apply)
  moreover have "db_ok s3 (Ts(n := Lf))" "database s3 = (database s)(n := None)"
    using same_data_db_ok [OF l] same_data_database [OF l] d c(3) by simp_all
  moreover have "cursors s3 = cursors s" "eTransState s3 = eTransState s" "next_idx s3 = next_idx s" "aMetaData s3 = aMetaData s"
    "mem_ok s \<longrightarrow> mem_ok s3"
    using c(6,7,8) by (simp_all add: s3_def s2_def frame_same_def mem_ok_def)
  ultimately show ?thesis using prog c(4)
    by (intro exI [of _ s3] exI [of _ "Ts(n := Lf)"] exI [of _ es]) simp
qed

lemma btreeCreateTable_ok:
  assumes ok: "db_ok s Ts" and n: "tbl s n = None" and m: "mem_ok s"
  shows "db_ok (btreeCreateTable s n) (Ts(n := Lf))" "database (btreeCreateTable s n) = (database s)(n \<mapsto> Map.empty)"
    "btreeCreateTable s n = set_tbl n \<lparr>pCursors = [], pHead = 0\<rparr> s"
proof -
  show "btreeCreateTable s n = set_tbl n \<lparr>pCursors = [], pHead = 0\<rparr> s"
    using m by (simp add: btreeCreateTable_def)
  then show "db_ok (btreeCreateTable s n) (Ts(n := Lf))" "database (btreeCreateTable s n) = (database s)(n \<mapsto> Map.empty)"
    using db_ok_new_table [OF ok n] by simp_all
qed

section \<open>Rolling back\<close>

text \<open>What an entry of the log does to the database, and when it can be executed.\<close>

fun undo :: "rollback_op \<Rightarrow> (int \<Rightarrow> (bytes \<Rightarrow> bytes option) option) \<Rightarrow> int \<Rightarrow> (bytes \<Rightarrow> bytes option) option" where
  "undo (ROLLBACK_INSERT n k d) D = D(n \<mapsto> (the (D n))(k \<mapsto> d))"
| "undo (ROLLBACK_DELETE n k) D = D(n \<mapsto> (the (D n))(k := None))"
| "undo (ROLLBACK_CREATE n) D = D(n \<mapsto> Map.empty)"
| "undo (ROLLBACK_DROP n) D = D(n := None)"

fun can_undo :: "rollback_op \<Rightarrow> (int \<Rightarrow> (bytes \<Rightarrow> bytes option) option) \<Rightarrow> bool" where
  "can_undo (ROLLBACK_INSERT n k d) D \<longleftrightarrow> D n \<noteq> None"
| "can_undo (ROLLBACK_DELETE n k) D \<longleftrightarrow> (case D n of None \<Rightarrow> False | Some m \<Rightarrow> m k \<noteq> None)"
| "can_undo (ROLLBACK_CREATE n) D \<longleftrightarrow> D n = None"
| "can_undo (ROLLBACK_DROP n) D \<longleftrightarrow> D n \<noteq> None"

fun undoes :: "rollback_op list \<Rightarrow> (int \<Rightarrow> (bytes \<Rightarrow> bytes option) option) \<Rightarrow> (int \<Rightarrow> (bytes \<Rightarrow> bytes option) option) \<Rightarrow> bool" where
  "undoes [] D D0 \<longleftrightarrow> D = D0"
| "undoes (op # ops) D D0 \<longleftrightarrow> can_undo op D \<and> undoes ops (undo op D) D0"

lemma undoes_append: "undoes (ops @ ops') D D0 \<longleftrightarrow> (\<exists>D1. undoes ops D D1 \<and> undoes ops' D1 D0)"
  by (induction ops arbitrary: D) auto

text \<open>The state of a rollback: no cursor is open, and the allocator works.\<close>

definition rolling :: "rbt_db \<Rightarrow> bool" where
  "rolling s \<longleftrightarrow> eTransState s = TRANS_ROLLBACK \<and> mem_ok s \<and> cursors s = Map.empty \<and> (\<exists>Ts. db_ok s Ts)"

text \<open>What the rollback keeps.\<close>

definition kept :: "rbt_db \<Rightarrow> rbt_db \<Rightarrow> bool" where
  "kept s s' \<longleftrightarrow> same_logs s s' \<and> next_idx s' = next_idx s \<and> aMetaData s' = aMetaData s"

lemma database_Some: "database s n = Some m \<Longrightarrow> \<exists>t. tbl s n = Some t"
  by (cases "tbl s n") (simp_all add: database_def)

lemma database_None: "database s n = None \<Longrightarrow> tbl s n = None"
  by (cases "tbl s n") (simp_all add: database_def)

lemma stack_cursor_ok:
  assumes r: "rolling s" and ok: "db_ok s Ts" and m: "database s n = Some m"
  obtains s1 cur where "stack_cursor n s = Some s1" "db_ok s1 Ts" "cursors s1 0 = Some cur" "iTree cur = n" "writer s1 0 cur"
    "database s1 = database s" "mem_ok s1" "eTransState s1 = TRANS_ROLLBACK" "no_readers s1 0"
    "\<forall>p c. cursors s1 p = Some c \<longrightarrow> p = 0" "kept s s1" "contents s1 n = contents s n"
proof -
  obtain t where t: "tbl s n = Some t" using database_Some [OF m] by blast
  define cur where "cur = \<lparr>iTree = n, pNode = 0, eSkip = SKIP_NONE, wrFlag = True\<rparr>"
  define s1 where "s1 = set_cursor 0 cur s"
  have e: "cursors s = Map.empty" using r by (simp add: rolling_def)
  have c1: "cursors s1 = [0 \<mapsto> cur]" by (simp add: s1_def e)
  have np: "0 < next_ptr s" using ok by (simp add: db_ok_def trees_ok_def)
  have "pCursors t' = []" if "tbl s n' = Some t'" for n' t'
    using cursors_listed [of s Ts n' t'] ok that e unfolding db_ok_def by (cases "pCursors t'") auto
  then have "cursors_ok s1 Ts" using c1 t np by (auto simp: cursors_ok_def s1_def cur_def fun_upd_apply)
  then have "db_ok s1 Ts" using ok trees_ok_cong [of s1 s Ts] by (simp add: db_ok_def s1_def)
  moreover have "stack_cursor n s = Some s1" by (simp add: stack_cursor_def t s1_def cur_def)
  moreover have "cursors s1 0 = Some cur" "iTree cur = n" "wrFlag cur" by (simp_all add: s1_def cur_def fun_upd_apply)
  moreover have "\<forall>p c. cursors s1 p = Some c \<longrightarrow> p = 0" using c1 by (simp add: fun_upd_apply split: if_splits)
  moreover have "no_readers s1 0" using c1 by (simp add: no_readers_def fun_upd_apply)
  moreover have "mem_ok s1" "eTransState s1 = TRANS_ROLLBACK" "database s1 = database s" "contents s1 n = contents s n"
    using r by (simp_all add: s1_def rolling_def)
  moreover have "kept s s1" by (simp add: kept_def s1_def)
  moreover have "writer s1 0 cur" by (simp add: writer_def s1_def cur_def fun_upd_apply)
  ultimately show thesis by - (rule that)
qed

lemma drop_stack_cursor_ok:
  assumes ok: "db_ok s Ts" and c: "\<forall>p c. cursors s p = Some c \<longrightarrow> p = 0" and "mem_ok s" "eTransState s = TRANS_ROLLBACK"
  shows "rolling (drop_stack_cursor s)" "database (drop_stack_cursor s) = database s"
proof -
  have e: "cursors (drop_stack_cursor s) = Map.empty"
  proof
    fix p show "cursors (drop_stack_cursor s) p = None"
      using c by (cases "cursors s p") (auto simp: drop_stack_cursor_def fun_upd_apply)
  qed
  have cok: "cursors_ok s Ts" and tr: "trees_ok s Ts" using ok by (auto simp: db_ok_def)
  have "pCursors t' = []" if "tbl s n' = Some t'" for n' t'
    using cursors_listed [OF cok that] c by (cases "pCursors t'") auto
  then have "cursors_ok (drop_stack_cursor s) Ts"
    unfolding cursors_ok_def e by (auto simp: drop_stack_cursor_def)
  then show "rolling (drop_stack_cursor s)"
    using assms tr trees_ok_cong [of "drop_stack_cursor s" s Ts] e by (auto simp: rolling_def db_ok_def drop_stack_cursor_def mem_ok_def)
  show "database (drop_stack_cursor s) = database s"
    by (rule ext) (simp add: drop_stack_cursor_def database_def contents_def split: option.split)
qed


lemma updates_rolling:
  assumes u: "updates s q n m' op rc s'" and ok: "db_ok s' Ts'" and s: "mem_ok s" "eTransState s = TRANS_ROLLBACK" "no_readers s q"
    "\<forall>p c. cursors s p = Some c \<longrightarrow> p = 0"
  shows "rc = SQLITE_OK" "rolling (drop_stack_cursor s')" "database (drop_stack_cursor s') = (database s)(n \<mapsto> m')"
    "kept s (drop_stack_cursor s')"
proof -
  show rc: "rc = SQLITE_OK" using u s by (auto simp: updates_def)
  have fr: "frame_same s s'" "mem_ok s'" "database s' = (database s)(n \<mapsto> m')" "logged op s s'"
    using u s rc by (auto simp: updates_def)
  have "\<forall>p c. cursors s' p = Some c \<longrightarrow> p = 0"
  proof (intro allI impI)
    fix p c assume "cursors s' p = Some c"
    then show "p = 0" using frame_same_cursor [OF frame_same_sym [OF fr(1)]] s(4) by blast
  qed
  from drop_stack_cursor_ok [OF ok this fr(2)] show "rolling (drop_stack_cursor s')"
    "database (drop_stack_cursor s') = (database s)(n \<mapsto> m')" using fr(1,3) s(2) by (simp_all add: frame_same_def)
  show "kept s (drop_stack_cursor s')"
    using fr s(2) by (simp add: kept_def frame_same_def logged_def logging_def drop_stack_cursor_def same_logs_def)
qed

lemma kept_trans: "kept s s' \<Longrightarrow> kept s' s'' \<Longrightarrow> kept s s''"
  by (simp add: kept_def same_logs_def)

lemma undo_insert_ok:
  assumes r: "rolling s" and m: "database s n = Some m"
  shows "\<exists>s'. execute_rollback_op (ROLLBACK_INSERT n k d) s = Some s' \<and> rolling s' \<and>
    database s' = undo (ROLLBACK_INSERT n k d) (database s) \<and> kept s s'"
proof -
  obtain Ts where ok: "db_ok s Ts" using r by (auto simp: rolling_def)
  obtain s1 cur where c: "stack_cursor n s = Some s1" "db_ok s1 Ts" "cursors s1 0 = Some cur" "iTree cur = n" "writer s1 0 cur"
    "database s1 = database s" "mem_ok s1" "eTransState s1 = TRANS_ROLLBACK" "no_readers s1 0"
    "\<forall>p c. cursors s1 p = Some c \<longrightarrow> p = 0" "kept s s1"
    using stack_cursor_ok [OF r ok m] by blast
  have st: "eTransState s1 \<noteq> TRANS_NONE" using c(8) by simp
  have m1: "database s1 (iTree cur) = Some m" using c(4,6) m by simp
  obtain rc s' Ts' where i: "memRbtreeInsert s1 0 k d = Some (rc, s')" "db_ok s' Ts'"
    "updates s1 0 (iTree cur) (m(k \<mapsto> d)) (undo_store (iTree cur) k m) rc s'"
    using Insert_result [OF c(2,5) st m1] by blast
  note u = updates_rolling [OF i(3,2) c(7,8,9,10)]
  show ?thesis
    using u c(4,6) m kept_trans [OF c(11) u(4)] by (intro exI [of _ "drop_stack_cursor s'"]) (simp add: execute_rollback_op_def c(1) i(1))
qed

lemma undo_delete_ok:
  assumes r: "rolling s" and m: "database s n = Some m" and k: "m k \<noteq> None"
  shows "\<exists>s'. execute_rollback_op (ROLLBACK_DELETE n k) s = Some s' \<and> rolling s' \<and>
    database s' = undo (ROLLBACK_DELETE n k) (database s) \<and> kept s s'"
proof -
  obtain Ts where ok: "db_ok s Ts" using r by (auto simp: rolling_def)
  obtain s1 cur where c: "stack_cursor n s = Some s1" "db_ok s1 Ts" "cursors s1 0 = Some cur" "iTree cur = n" "writer s1 0 cur"
    "database s1 = database s" "mem_ok s1" "eTransState s1 = TRANS_ROLLBACK" "no_readers s1 0"
    "\<forall>p c. cursors s1 p = Some c \<longrightarrow> p = 0" "kept s s1" "contents s1 n = contents s n"
    using stack_cursor_ok [OF r ok m] by blast
  obtain t where t: "tbl s1 n = Some t" using cursor_tree [OF c(2,3)] c(4) by blast
  have mT: "m = map_of (entries (Ts n))" using database_at [OF c(2) t] m c(6) by simp
  obtain res p where mv: "memRbtreeMoveto s1 0 k = Some (res, set_cursor 0 (cur\<lparr>pNode := p, eSkip := SKIP_NONE\<rparr>) s1)"
    "db_ok (set_cursor 0 (cur\<lparr>pNode := p, eSkip := SKIP_NONE\<rparr>) s1) Ts"
    "(\<exists>ctx l b d r. Ts n = plug ctx (Br l p b k d r) \<and> res = 0 \<and>
        cursor_entry (set_cursor 0 (cur\<lparr>pNode := p, eSkip := SKIP_NONE\<rparr>) s1) 0 = Some (k, d)) \<or>
      (\<exists>ctx. Ts n = plug ctx Lf \<and> (\<forall>x\<in>set (keys (cleft ctx)). x < k) \<and> (\<forall>x\<in>set (keys (cright ctx)). k < x))"
    using Moveto_result [OF c(2,3), of k] unfolding Let_def c(4) by blast
  define c' where "c' = cur\<lparr>pNode := p, eSkip := SKIP_NONE\<rparr>"
  define s2 where "s2 = set_cursor 0 c' s1"
  have False if "Ts n = plug ctx Lf" "\<forall>x\<in>set (keys (cleft ctx)). x < k" "\<forall>x\<in>set (keys (cright ctx)). k < x" for ctx
  proof -
    have "m k = None" unfolding mT map_of_eq_None_iff using that(2,3) by (auto simp: that(1) nodes_plug)
    then show False using k by simp
  qed
  then obtain ctx l b d r where f: "Ts n = plug ctx (Br l p b k d r)" "res = 0" "cursor_entry s2 0 = Some (k, d)"
    using mv(3) unfolding s2_def c'_def by blast
  have w: "writer s2 0 c'" "iTree c' = n" using c(4,5) by (simp_all add: s2_def writer_def c'_def)
  have s2: "db_ok s2 Ts" "eTransState s2 \<noteq> TRANS_NONE" "eTransState s2 = TRANS_ROLLBACK" "mem_ok s2" "database s2 = database s" "kept s1 s2"
    using mv(2) c by (simp_all add: s2_def c'_def kept_def)
  have fr: "frame_same s1 s2" using frame_set_cursor [OF c(3)] by (simp add: s2_def c'_def)
  have nr: "no_readers s2 0" using no_readers_frame [OF fr] c(9) by simp
  have oc: "\<forall>p c. cursors s2 p = Some c \<longrightarrow> p = 0" using c(10) by (simp add: s2_def fun_upd_apply)
  have cn: "contents s2 n = entries (Ts n)" using tree_at(7) [OF s2(1), of n t] t by (simp add: s2_def)
  then have xy: "contents s2 (iTree c') = (map snd (cleft ctx) @ entries l) @ (k, d) # (entries r @ map snd (cright ctx))"
    by (simp add: w(2) f(1) nodes_plug)
  obtain rc s' Ts' where i: "memRbtreeDelete s2 0 = Some (rc, s')" "db_ok s' Ts'"
    "updates s2 0 (iTree c') ((map_of (contents s2 (iTree c')))(k := None)) (ROLLBACK_INSERT (iTree c') k d) rc s'"
    using Delete_result [OF s2(1) w(1) s2(2) f(3) xy] by blast
  note u = updates_rolling [OF i(3,2) s2(4,3) nr oc]
  have "execute_rollback_op (ROLLBACK_DELETE n k) s = Some (drop_stack_cursor s')"
    using mv(1) f(2) i(1) by (simp add: execute_rollback_op_def c(1) s2_def c'_def assertion_def)
  moreover have "database (drop_stack_cursor s') = undo (ROLLBACK_DELETE n k) (database s)"
    using u(3) s2(5) m mT cn w(2) by simp
  ultimately show ?thesis using u(2) kept_trans [OF c(11) kept_trans [OF s2(6) u(4)]] by blast
qed

lemma undo_create_ok:
  assumes r: "rolling s" and m: "database s n = None"
  shows "\<exists>s'. execute_rollback_op (ROLLBACK_CREATE n) s = Some s' \<and> rolling s' \<and>
    database s' = undo (ROLLBACK_CREATE n) (database s) \<and> kept s s'"
proof -
  obtain Ts where ok: "db_ok s Ts" using r by (auto simp: rolling_def)
  have mem: "mem_ok s" using r by (simp add: rolling_def)
  note c = btreeCreateTable_ok [OF ok database_None [OF m] mem]
  show ?thesis using c r by (auto simp: execute_rollback_op_def rolling_def kept_def)
qed

lemma undo_drop_ok:
  assumes r: "rolling s" and m: "database s n = Some m"
  shows "\<exists>s'. execute_rollback_op (ROLLBACK_DROP n) s = Some s' \<and> rolling s' \<and>
    database s' = undo (ROLLBACK_DROP n) (database s) \<and> kept s s'"
proof -
  obtain Ts where ok: "db_ok s Ts" using r by (auto simp: rolling_def)
  obtain t where t: "tbl s n = Some t" using database_Some [OF m] by blast
  have un: "unused s n" and log: "log_ready s" and st: "eTransState s = TRANS_ROLLBACK" "mem_ok s" "cursors s = Map.empty"
    using r by (simp_all add: rolling_def unused_def log_ready_def)
  obtain s' Ts' es where d: "memRbtreeDropTable s n = Some (SQLITE_OK, s')" "db_ok s' Ts'" "database s' = (database s)(n := None)"
    "same_logs (add_logs (map (restore_op n) es @ [ROLLBACK_CREATE n]) s) s'"
    "cursors s' = cursors s" "eTransState s' = eTransState s" "next_idx s' = next_idx s" "aMetaData s' = aMetaData s" "mem_ok s \<longrightarrow> mem_ok s'"
    using DropTable_result [OF ok t un log] by blast
  have "add_logs ops s = s" for ops using st(1) by (induction ops) auto
  then have "kept s s'" using d(4,7,8) by (simp add: kept_def)
  moreover have "rolling s'" using d st by (auto simp: rolling_def)
  ultimately show ?thesis using d(1,3) by (intro exI [of _ s']) (simp add: execute_rollback_op_def)
qed

lemma execute_rollback_ok:
  "rolling s \<Longrightarrow> undoes ops (database s) D0 \<Longrightarrow>
   \<exists>s'. execute_rollback_list ops s = Some s' \<and> rolling s' \<and> database s' = D0 \<and> kept s s'"
proof (induction ops arbitrary: s)
  case Nil
  then show ?case by (simp add: kept_def)
next
  case (Cons op ops)
  have "\<exists>s'. execute_rollback_op op s = Some s' \<and> rolling s' \<and> database s' = undo op (database s) \<and> kept s s'"
  proof (cases op)
    case (ROLLBACK_INSERT n k d)
    then show ?thesis using undo_insert_ok [OF Cons.prems(1), of n _ k d] Cons.prems(2) by auto
  next
    case (ROLLBACK_DELETE n k)
    then show ?thesis using undo_delete_ok [OF Cons.prems(1), of n _ k] Cons.prems(2) by (auto split: option.splits)
  next
    case (ROLLBACK_CREATE n)
    then show ?thesis using undo_create_ok [OF Cons.prems(1), of n] Cons.prems(2) by simp
  next
    case (ROLLBACK_DROP n)
    then show ?thesis using undo_drop_ok [OF Cons.prems(1), of n] Cons.prems(2) by auto
  qed
  then obtain s1 where s1: "execute_rollback_op op s = Some s1" "rolling s1" "database s1 = undo op (database s)" "kept s s1" by blast
  then obtain s2 where s2: "execute_rollback_list ops s1 = Some s2" "rolling s2" "database s2 = D0" "kept s1 s2"
    using Cons.IH [of s1] Cons.prems(2) by auto
  then show ?case using s1 kept_trans [OF s1(4) s2(4)] by simp
qed

end
