(* ===== verification/RbSession.thy ===== *)
theory RbSession
  imports RbTrans
begin

text \<open>
  Sessions of a client with the in-memory database: opening and closing cursors, the steps of a
  transaction, and the invariant that the rollback logs lead back to where the open transaction and
  the open checkpoint began.
\<close>

section \<open>Opening and closing cursors\<close>

lemma Cursor_result:
  assumes ok: "db_ok s Ts" and t: "tbl s n = Some t" and m: "mem_ok s"
  shows "\<exists>s'. memRbtreeCursor s n wr = Some (SQLITE_OK, next_ptr s, s') \<and> db_ok s' Ts \<and> database s' = database s \<and>
    mem_ok s' \<and> same_logs s s' \<and> eTransState s' = eTransState s \<and> next_idx s' = next_idx s \<and> aMetaData s' = aMetaData s \<and>
    cursors s' = (cursors s)(next_ptr s \<mapsto> \<lparr>iTree = n, pNode = 0, eSkip = SKIP_NONE, wrFlag = wr\<rparr>) \<and>
    (\<forall>m. tbl s' m \<noteq> None \<longleftrightarrow> tbl s m \<noteq> None)"
proof -
  let ?q = "next_ptr s" and ?c = "\<lparr>iTree = n, pNode = 0, eSkip = SKIP_NONE, wrFlag = wr\<rparr>"
  define s' where "s' = set_tbl n (t\<lparr>pCursors := ?q # pCursors t\<rparr>) (set_cursor ?q ?c (s\<lparr>next_ptr := ?q + 1\<rparr>))"
  have cok: "cursors_ok s Ts" and tr: "trees_ok s Ts" using ok by (auto simp: db_ok_def)
  have tb: "tbl s' m = (if m = n then Some (t\<lparr>pCursors := ?q # pCursors t\<rparr>) else tbl s m)" for m
    by (simp add: s'_def update_conv' fun_upd_apply)
  have f: "heap s' = heap s" "next_ptr s' = ?q + 1" "cursors s' = (cursors s)(?q \<mapsto> ?c)" by (simp_all add: s'_def)
  have new: "?q \<notin> set (pCursors tm)" if "tbl s m = Some tm" for m tm
    using cursors_listed [OF cok that] cursors_below [OF cok] by blast
  have np: "0 < ?q" using tr by (simp add: trees_ok_def)
  have "trees_ok s' Ts"
    unfolding trees_ok_def f tb
  proof (intro conjI allI impI)
    fix m tm assume "(if m = n then Some (t\<lparr>pCursors := ?q # pCursors t\<rparr>) else tbl s m) = Some tm"
    then obtain t0 where t0: "tbl s m = Some t0" "pHead tm = pHead t0" using t by (auto split: if_splits)
    then show "tree_ok (heap s) (pHead tm) (Ts m)" using tr by (simp add: trees_ok_def)
    show "nset (Ts m) \<subseteq> {..<?q + 1}" using tree_at(6) [OF ok t0(1)] by force
  next
    fix m k assume "(if m = n then Some (t\<lparr>pCursors := ?q # pCursors t\<rparr>) else tbl s m) \<noteq> None"
      "(if k = n then Some (t\<lparr>pCursors := ?q # pCursors t\<rparr>) else tbl s k) \<noteq> None" "m \<noteq> k"
    then have "tbl s m \<noteq> None" "tbl s k \<noteq> None" "m \<noteq> k" using t by (auto split: if_splits)
    then show "nset (Ts m) \<inter> nset (Ts k) = {}" using tr unfolding trees_ok_def by blast
  qed simp
  moreover have "cursors_ok s' Ts"
    unfolding cursors_ok_def f tb
  proof (intro conjI allI impI)
    fix m tm p assume a: "(if m = n then Some (t\<lparr>pCursors := ?q # pCursors t\<rparr>) else tbl s m) = Some tm" "p \<in> set (pCursors tm)"
    show "p \<noteq> 0" "\<exists>c. ((cursors s)(?q \<mapsto> ?c)) p = Some c \<and> iTree c = m"
      using a np cursors_listed [OF cok, of m _ p] t new [of m] by (auto simp: fun_upd_apply split: if_splits)
  next
    fix m tm assume a: "(if m = n then Some (t\<lparr>pCursors := ?q # pCursors t\<rparr>) else tbl s m) = Some tm"
    show "distinct (pCursors tm)" using a cursors_distinct [OF cok] t new by (auto split: if_splits)
  next
    fix p c assume c: "((cursors s)(?q \<mapsto> ?c)) p = Some c"
    show "p < ?q + 1" using c cursors_below [OF cok, of p c] by (auto simp: fun_upd_apply split: if_splits)
    show "\<exists>tm. (if iTree c = n then Some (t\<lparr>pCursors := ?q # pCursors t\<rparr>) else tbl s (iTree c)) = Some tm \<and> (p = 0 \<or> p \<in> set (pCursors tm))"
      using c cursors_table [OF cok, of p c] t by (auto simp: fun_upd_apply split: if_splits)
    show "pNode c = 0 \<or> pNode c \<in> nset (Ts (iTree c))"
      using c cursors_pos [OF cok, of p c] by (auto simp: fun_upd_apply split: if_splits)
  qed
  ultimately have ok': "db_ok s' Ts" by (simp add: db_ok_def)
  have "contents s' m = contents s m" for m
  proof (cases "tbl s m")
    case None
    then show ?thesis using t by (auto simp: contents_def tb)
  next
    case (Some tm)
    then obtain t' where "tbl s' m = Some t'" by (cases "tbl s' m") (auto simp: tb split: if_splits)
    then show ?thesis using tree_at(7) [OF ok'] tree_at(7) [OF ok Some] by simp
  qed
  then have "database s' = database s" using t by (auto simp: fun_eq_iff database_def tb split: option.split)
  moreover have "memRbtreeCursor s n wr = Some (SQLITE_OK, ?q, s')"
    using m t by (simp add: memRbtreeCursor_def s'_def Let_def)
  moreover have "mem_ok s'" using m by (simp add: s'_def)
  moreover have "next_idx s' = next_idx s" "aMetaData s' = aMetaData s" "eTransState s' = eTransState s" "same_logs s s'"
    by (simp_all add: s'_def)
  moreover have "\<forall>m. tbl s' m \<noteq> None \<longleftrightarrow> tbl s m \<noteq> None" using t by (simp add: tb)
  ultimately show ?thesis using ok' f(3) by (intro exI [of _ s']) simp
qed

lemma CloseCursor_result:
  assumes ok: "db_ok s Ts" and c: "cursors s q = Some c" and q: "q \<noteq> 0"
  shows "\<exists>s'. memRbtreeCloseCursor s q = Some (SQLITE_OK, s') \<and> db_ok s' Ts \<and> database s' = database s \<and>
    (mem_ok s \<longrightarrow> mem_ok s') \<and> same_logs s s' \<and> eTransState s' = eTransState s \<and> next_idx s' = next_idx s \<and> aMetaData s' = aMetaData s \<and>
    cursors s' = (cursors s)(q := None) \<and> (\<forall>m. tbl s' m \<noteq> None \<longleftrightarrow> tbl s m \<noteq> None)"
proof -
  have cok: "cursors_ok s Ts" and tr: "trees_ok s Ts" using ok by (auto simp: db_ok_def)
  obtain t where t: "tbl s (iTree c) = Some t" "q \<in> set (pCursors t)" using cursors_table [OF cok c] q by auto
  let ?n = "iTree c"
  define s' where "s' = (set_tbl ?n (t\<lparr>pCursors := remove1 q (pCursors t)\<rparr>) s)\<lparr>cursors := (cursors s)(q := None)\<rparr>"
  have tb: "tbl s' m = (if m = ?n then Some (t\<lparr>pCursors := remove1 q (pCursors t)\<rparr>) else tbl s m)" for m
    by (simp add: s'_def update_conv' fun_upd_apply)
  have f: "heap s' = heap s" "next_ptr s' = next_ptr s" "cursors s' = (cursors s)(q := None)" by (simp_all add: s'_def)
  have "trees_ok s' Ts"
    unfolding trees_ok_def f tb
  proof (intro conjI allI impI)
    show "0 < next_ptr s" using tr by (simp add: trees_ok_def)
  next
    fix m tm assume "(if m = ?n then Some (t\<lparr>pCursors := remove1 q (pCursors t)\<rparr>) else tbl s m) = Some tm"
    then obtain t0 where t0: "tbl s m = Some t0" "pHead tm = pHead t0" using t by (auto split: if_splits)
    then show "tree_ok (heap s) (pHead tm) (Ts m)" using tr by (simp add: trees_ok_def)
    show "nset (Ts m) \<subseteq> {..<next_ptr s}" using tree_at(6) [OF ok t0(1)] .
  next
    fix m k assume "(if m = ?n then Some (t\<lparr>pCursors := remove1 q (pCursors t)\<rparr>) else tbl s m) \<noteq> None"
      "(if k = ?n then Some (t\<lparr>pCursors := remove1 q (pCursors t)\<rparr>) else tbl s k) \<noteq> None" "m \<noteq> k"
    then have "tbl s m \<noteq> None" "tbl s k \<noteq> None" "m \<noteq> k" using t by (auto split: if_splits)
    then show "nset (Ts m) \<inter> nset (Ts k) = {}" using tr unfolding trees_ok_def by blast
  qed
  moreover have "cursors_ok s' Ts"
    unfolding cursors_ok_def f tb
  proof (intro conjI allI impI)
    fix m tm p assume a: "(if m = ?n then Some (t\<lparr>pCursors := remove1 q (pCursors t)\<rparr>) else tbl s m) = Some tm" "p \<in> set (pCursors tm)"
    have "distinct (pCursors t)" using cursors_distinct [OF cok t(1)] .
    then have p: "\<exists>t0. tbl s m = Some t0 \<and> p \<in> set (pCursors t0) \<and> (m = ?n \<longrightarrow> p \<noteq> q)"
      using a t by (auto split: if_splits)
    then obtain d where d: "p \<noteq> 0" "cursors s p = Some d" "iTree d = m" using cursors_listed [OF cok, of m _ p] by blast
    then show "p \<noteq> 0" "\<exists>c. ((cursors s)(q := None)) p = Some c \<and> iTree c = m"
      using p c by (auto simp: fun_upd_apply)
  next
    fix m tm assume a: "(if m = ?n then Some (t\<lparr>pCursors := remove1 q (pCursors t)\<rparr>) else tbl s m) = Some tm"
    show "distinct (pCursors tm)" using a cursors_distinct [OF cok] t by (auto split: if_splits)
  next
    fix p d assume a: "((cursors s)(q := None)) p = Some d"
    then have d: "cursors s p = Some d" "p \<noteq> q" by (auto simp: fun_upd_apply split: if_splits)
    show "p < next_ptr s" "pNode d = 0 \<or> pNode d \<in> nset (Ts (iTree d))"
      using cursors_below [OF cok d(1)] cursors_pos [OF cok d(1)] by simp_all
    show "\<exists>tm. (if iTree d = ?n then Some (t\<lparr>pCursors := remove1 q (pCursors t)\<rparr>) else tbl s (iTree d)) = Some tm \<and> (p = 0 \<or> p \<in> set (pCursors tm))"
      using cursors_table [OF cok d(1)] t d(2) by auto
  qed
  ultimately have ok': "db_ok s' Ts" by (simp add: db_ok_def)
  have "contents s' m = contents s m" for m
  proof (cases "tbl s m")
    case None
    then show ?thesis using t by (auto simp: contents_def tb)
  next
    case (Some tm)
    then obtain t' where "tbl s' m = Some t'" by (cases "tbl s' m") (auto simp: tb split: if_splits)
    then show ?thesis using tree_at(7) [OF ok'] tree_at(7) [OF ok Some] by simp
  qed
  then have "database s' = database s" using t by (auto simp: fun_eq_iff database_def tb split: option.split)
  moreover have "memRbtreeCloseCursor s q = Some (SQLITE_OK, s')"
    by (simp add: memRbtreeCloseCursor_def s'_def c t assertion_def)
  moreover have "next_idx s' = next_idx s" "aMetaData s' = aMetaData s" "eTransState s' = eTransState s" "same_logs s s'" "mem_ok s' = mem_ok s"
    by (simp_all add: s'_def same_logs_def mem_ok_def)
  moreover have "\<forall>m. tbl s' m \<noteq> None \<longleftrightarrow> tbl s m \<noteq> None" using t by (simp add: tb)
  ultimately show ?thesis using ok' f(3) by (intro exI [of _ s']) simp
qed

section \<open>Moving a cursor\<close>

definition moved :: "rbt_db \<Rightarrow> ptr \<Rightarrow> rbt_cursor \<Rightarrow> rbt_db \<Rightarrow> bool" where
  "moved s q c s' \<longleftrightarrow> (\<exists>c'. s' = set_cursor q c' s \<and> iTree c' = iTree c \<and> wrFlag c' = wrFlag c)"

lemma cursor_at:
  assumes ok: "db_ok s Ts" and c: "cursors s q = Some c" "pNode c \<noteq> 0"
  obtains e xs ys where "cursor_entry s q = Some e" "contents s (iTree c) = xs @ e # ys"
proof -
  obtain ctx l b k d r where "cursor_entry s q = Some (k, d)"
    "contents s (iTree c) = map snd (cleft ctx) @ entries l @ (k, d) # entries r @ map snd (cright ctx)"
    using cursor_context [OF ok c] .
  then show thesis using that [of "(k, d)" "map snd (cleft ctx) @ entries l"] by simp
qed

lemma move_empty:
  assumes ok: "db_ok s Ts" and c: "cursors s q = Some c" and e: "contents s (iTree c) = []"
  shows "memRbtreeFirst s q = Some (1, set_cursor q (c\<lparr>pNode := 0, eSkip := SKIP_NONE\<rparr>) s)"
    "memRbtreeLast s q = Some (1, set_cursor q (c\<lparr>pNode := 0, eSkip := SKIP_NONE\<rparr>) s)"
    "db_ok (set_cursor q (c\<lparr>pNode := 0, eSkip := SKIP_NONE\<rparr>) s) Ts"
proof -
  obtain t where t: "tbl s (iTree c) = Some t" using cursor_tree [OF ok c] .
  have "Ts (iTree c) = Lf" using contents_empty [OF ok t] e by simp
  then have "pHead t = 0" "pNode c = 0"
    using head_0 [OF ok t] cursors_pos [of s Ts q c] ok c by (auto simp: db_ok_def)
  then show "memRbtreeFirst s q = Some (1, set_cursor q (c\<lparr>pNode := 0, eSkip := SKIP_NONE\<rparr>) s)"
    "memRbtreeLast s q = Some (1, set_cursor q (c\<lparr>pNode := 0, eSkip := SKIP_NONE\<rparr>) s)"
    by (simp_all add: memRbtreeFirst_def memRbtreeLast_def c t)
  show "db_ok (set_cursor q (c\<lparr>pNode := 0, eSkip := SKIP_NONE\<rparr>) s) Ts" by (rule db_ok_set_cursor [OF ok c]) simp_all
qed

lemma moves_total:
  assumes ok: "db_ok s Ts" and c: "cursors s q = Some c"
  shows "\<exists>r s'. memRbtreeFirst s q = Some (r, s') \<and> moved s q c s' \<and> db_ok s' Ts"
    "\<exists>r s'. memRbtreeLast s q = Some (r, s') \<and> moved s q c s' \<and> db_ok s' Ts"
    "\<exists>r s'. memRbtreeNext s q = Some (r, s') \<and> moved s q c s' \<and> db_ok s' Ts"
    "\<exists>r s'. memRbtreePrevious s q = Some (r, s') \<and> moved s q c s' \<and> db_ok s' Ts"
    "\<exists>r s'. memRbtreeMoveto s q key = Some (r, s') \<and> moved s q c s' \<and> db_ok s' Ts"
proof -
  have mv: "moved s q c (set_cursor q (c\<lparr>pNode := p, eSkip := k\<rparr>) s)" for p k by (auto simp: moved_def)
  show "\<exists>r s'. memRbtreeFirst s q = Some (r, s') \<and> moved s q c s' \<and> db_ok s' Ts"
  proof (cases "contents s (iTree c)")
    case Nil
    show ?thesis using move_empty [OF ok c Nil] mv by blast
  next
    case (Cons x xs)
    show ?thesis using First_result [OF ok c Cons] mv by blast
  qed
  show "\<exists>r s'. memRbtreeLast s q = Some (r, s') \<and> moved s q c s' \<and> db_ok s' Ts"
  proof (cases "contents s (iTree c)" rule: rev_cases)
    case Nil
    show ?thesis using move_empty [OF ok c Nil] mv by blast
  next
    case (snoc xs x)
    show ?thesis using Last_result [OF ok c snoc] mv by blast
  qed
  have skip: "moved s q c (set_cursor q (c\<lparr>eSkip := SKIP_NONE\<rparr>) s)" "db_ok (set_cursor q (c\<lparr>eSkip := SKIP_NONE\<rparr>) s) Ts"
    using db_ok_set_cursor [OF ok c, of "c\<lparr>eSkip := SKIP_NONE\<rparr>"] cursors_pos [of s Ts q c] ok c by (auto simp: moved_def db_ok_def)
  show "\<exists>r s'. memRbtreeNext s q = Some (r, s') \<and> moved s q c s' \<and> db_ok s' Ts"
  proof (cases "eSkip c = SKIP_NEXT \<or> pNode c = 0")
    case True
    show ?thesis using Next_skip [OF c True] skip by blast
  next
    case False
    then obtain e xs ys where "cursor_entry s q = Some e" "contents s (iTree c) = xs @ e # ys" using cursor_at [OF ok c] by blast
    then show ?thesis using Next_result [OF ok c] False mv by blast
  qed
  show "\<exists>r s'. memRbtreePrevious s q = Some (r, s') \<and> moved s q c s' \<and> db_ok s' Ts"
  proof (cases "eSkip c = SKIP_PREV \<or> pNode c = 0")
    case True
    show ?thesis using Previous_skip [OF c True] skip by blast
  next
    case False
    then obtain e xs ys where "cursor_entry s q = Some e" "contents s (iTree c) = xs @ e # ys" using cursor_at [OF ok c] by blast
    then show ?thesis using Previous_result [OF ok c] False mv by blast
  qed
  show "\<exists>r s'. memRbtreeMoveto s q key = Some (r, s') \<and> moved s q c s' \<and> db_ok s' Ts"
    using Moveto_result [OF ok c, of key] mv unfolding Let_def by blast
qed

section \<open>Sessions\<close>

text \<open>The two logs lead back: that of the checkpoint to \<open>D1\<close>, that of the transaction from there to \<open>D0\<close>.\<close>

definition in_unit :: "rbt_db \<Rightarrow> (int \<Rightarrow> (bytes \<Rightarrow> bytes option) option) \<Rightarrow> (int \<Rightarrow> (bytes \<Rightarrow> bytes option) option) \<Rightarrow> bool" where
  "in_unit s D0 D1 \<longleftrightarrow>
     eTransState s = TRANS_INTRANSACTION \<and> pCheckRollback s = [] \<and> undoes (pTransRollback s) (database s) D0 \<or>
     eTransState s = TRANS_INCHECKPOINT \<and> undoes (pCheckRollback s) (database s) D1 \<and> undoes (pTransRollback s) D1 D0"

lemma in_unit_logs:
  assumes "in_unit s D0 D1" "same_logs (add_logs ops s) s'" "eTransState s' = eTransState s"
    "undoes (rev ops) (database s') (database s)"
  shows "in_unit s' D0 D1"
proof -
  have "eTransState s = TRANS_INTRANSACTION \<Longrightarrow> pTransRollback (add_logs ops s) = rev ops @ pTransRollback s \<and> pCheckRollback (add_logs ops s) = pCheckRollback s" for s
    by (induction ops arbitrary: s) (auto simp: add_log_def)
  moreover have "eTransState s = TRANS_INCHECKPOINT \<Longrightarrow> pCheckRollback (add_logs ops s) = rev ops @ pCheckRollback s \<and> pTransRollback (add_logs ops s) = pTransRollback s" for s
    by (induction ops arbitrary: s) (auto simp: add_log_def)
  ultimately show ?thesis
    using assms unfolding in_unit_def same_logs_def by (auto simp: undoes_append)
qed

lemma in_unit_logged:
  assumes u: "in_unit s D0 D1" and l: "logged op s s'" and st: "eTransState s' = eTransState s"
    and "can_undo op (database s')" "undo op (database s') = database s"
  shows "in_unit s' D0 D1"
proof (rule in_unit_logs [OF u, of "[op]"])
  have "logging s" using u by (auto simp: in_unit_def logging_def)
  then show "same_logs (add_logs [op] s) s'" using l by (auto simp: logged_def logging_def)
qed (use assms in simp_all)

lemma in_unit_same: "in_unit s D0 D1 \<Longrightarrow> same_logs s s' \<Longrightarrow> eTransState s' = eTransState s \<Longrightarrow> database s' = database s \<Longrightarrow> in_unit s' D0 D1"
  by (simp add: in_unit_def same_logs_def)

lemma undo_restores:
  assumes "mset es = mset xs" "distinct (map fst xs)" "D n = Some (map_of xs)"
  shows "undoes (map (restore_op n) es) (D(n \<mapsto> Map.empty)) D"
proof -
  have run: "undoes (map (restore_op n) es) (D(n \<mapsto> m)) (D(n \<mapsto> m ++ map_of (rev es)))" for m
  proof (induction es arbitrary: m)
    case (Cons e es)
    have "m ++ map_of (rev (e # es)) = m(fst e \<mapsto> snd e) ++ map_of (rev es)"
      by (cases e) (simp add: map_add_assoc [symmetric])
    then show ?case using Cons [of "m(fst e \<mapsto> snd e)"] by (simp only: list.map undoes.simps can_undo.simps undo.simps fun_upd_same option.sel fun_upd_upd option.simps not_False_eq_True simp_thms)
  qed simp
  have "mset (map fst es) = mset (map fst xs)" using assms(1) by (simp add: mset_map)
  then have d: "distinct (map fst es)" using assms(2) by (metis mset_eq_imp_distinct_iff)
  have "map_of (rev es) = map_of xs"
    using map_of_inject_set [of "rev es" xs] d assms(2) mset_eq_setD [OF assms(1)] by (simp add: rev_map [symmetric])
  then show ?thesis using run [of Map.empty] assms(3) by (simp add: fun_upd_idem)
qed

text \<open>
  The calls of a client between the start of a transaction and its end, under restrictions that the
  code does not check itself: a table is emptied only while no cursor is at an entry of it
  (\<open>clear\<close>), it is dropped only without cursors (\<open>drop\<close>, which the code asserts), and a
  checkpoint is rolled back only while no cursor is open (\<open>rollback_ckpt\<close>). The allocator works,
  because the sessions begin with a database whose list of outcomes is empty. What happens without
  these restrictions is shown by \<open>rbt_clear_dangling\<close>, \<open>rbt_rollback_reader\<close> and
  \<open>rbt_nomem_not_rolled_back\<close>.
\<close>

inductive client_step :: "rbt_db \<Rightarrow> rbt_db \<Rightarrow> bool" where
  insert: "q \<noteq> 0 \<Longrightarrow> memRbtreeInsert s q k d = Some (rc, s') \<Longrightarrow> client_step s s'"
| delete: "q \<noteq> 0 \<Longrightarrow> memRbtreeDelete s q = Some (rc, s') \<Longrightarrow> client_step s s'"
| clear: "logging s \<Longrightarrow> all_clear s n \<Longrightarrow> memRbtreeClearTable s n = Some (rc, s') \<Longrightarrow> client_step s s'"
| drop: "memRbtreeDropTable s n = Some (rc, s') \<Longrightarrow> unused s n \<Longrightarrow> client_step s s'"
| create: "memRbtreeCreateTable s = Some (rc, n, s') \<Longrightarrow> client_step s s'"
| cursor: "memRbtreeCursor s n wr = Some (rc, q, s') \<Longrightarrow> client_step s s'"
| close: "q \<noteq> 0 \<Longrightarrow> memRbtreeCloseCursor s q = Some (rc, s') \<Longrightarrow> client_step s s'"
| first: "q \<noteq> 0 \<Longrightarrow> memRbtreeFirst s q = Some (r, s') \<Longrightarrow> client_step s s'"
| last: "q \<noteq> 0 \<Longrightarrow> memRbtreeLast s q = Some (r, s') \<Longrightarrow> client_step s s'"
| step_next: "q \<noteq> 0 \<Longrightarrow> memRbtreeNext s q = Some (r, s') \<Longrightarrow> client_step s s'"
| previous: "q \<noteq> 0 \<Longrightarrow> memRbtreePrevious s q = Some (r, s') \<Longrightarrow> client_step s s'"
| moveto: "q \<noteq> 0 \<Longrightarrow> memRbtreeMoveto s q k = Some (r, s') \<Longrightarrow> client_step s s'"
| meta: "client_step s (memRbtreeUpdateMeta s meta)"
| ckpt: "memRbtreeBeginCkpt s = Some (rc, s') \<Longrightarrow> client_step s s'"
| commit_ckpt: "client_step s (memRbtreeCommitCkpt s)"
| rollback_ckpt: "cursors s = Map.empty \<Longrightarrow> memRbtreeRollbackCkpt s = Some s' \<Longrightarrow> client_step s s'"

inductive_cases client_stepE: "client_step s s'"

definition sound :: "rbt_db \<Rightarrow> bool" where
  "sound s \<longleftrightarrow> (\<exists>Ts. db_ok s Ts) \<and> mem_ok s \<and> cursors s 0 = None \<and> (\<forall>n. tbl s n \<noteq> None \<longrightarrow> n < next_idx s)"

text \<open>Either no unit is open and nothing is logged, or the logs lead back to where the units began.\<close>

definition idle :: "rbt_db \<Rightarrow> bool" where
  "idle s \<longleftrightarrow> eTransState s = TRANS_NONE \<and> pTransRollback s = [] \<and> pCheckRollback s = []"

definition below :: "int \<Rightarrow> (int \<Rightarrow> 'a option) \<Rightarrow> bool" where
  "below N D \<longleftrightarrow> (\<forall>n. D n \<noteq> None \<longrightarrow> n < N)"

lemma below_mono: "below N D \<Longrightarrow> N \<le> M \<Longrightarrow> below M D"
  by (fastforce simp: below_def)

definition in_trans :: "(int \<Rightarrow> (bytes \<Rightarrow> bytes option) option) \<Rightarrow> (int \<Rightarrow> (bytes \<Rightarrow> bytes option) option) \<Rightarrow> rbt_db \<Rightarrow> bool" where
  "in_trans D0 D1 s \<longleftrightarrow> sound s \<and> in_unit s D0 D1 \<and> below (next_idx s) D0 \<and> below (next_idx s) D1"

text \<open>A step that keeps the logs, the data and the tables.\<close>

definition keeps :: "rbt_db \<Rightarrow> rbt_db \<Rightarrow> bool" where
  "keeps s s' \<longleftrightarrow> sound s' \<and> same_logs s s' \<and> eTransState s' = eTransState s \<and> database s' = database s \<and> next_idx s' = next_idx s"

lemma keepsI:
  assumes "sound s" "db_ok s' Ts'" "mem_ok s'" "cursors s' 0 = None" "same_logs s s'" "eTransState s' = eTransState s"
    "database s' = database s" "next_idx s' = next_idx s" "\<forall>n. tbl s' n \<noteq> None \<longrightarrow> tbl s n \<noteq> None"
  shows "keeps s s'"
  using assms unfolding keeps_def sound_def by metis

lemma keeps_in_trans: "keeps s s' \<Longrightarrow> in_trans D0 D1 s \<Longrightarrow> in_trans D0 D1 s'"
  using in_unit_same [of s D0 D1 s'] by (simp add: keeps_def in_trans_def)

lemma keeps_idle: "keeps s s' \<Longrightarrow> idle s \<Longrightarrow> idle s'"
  by (simp add: keeps_def idle_def same_logs_def)

lemma in_trans_same:
  assumes "in_trans D0 D1 s" "db_ok s' Ts'" "mem_ok s'" "cursors s' 0 = None" "same_logs s s'" "eTransState s' = eTransState s"
    "database s' = database s" "next_idx s' = next_idx s" "\<forall>n. tbl s' n \<noteq> None \<longrightarrow> tbl s n \<noteq> None"
  shows "in_trans D0 D1 s'"
  using keeps_in_trans [OF keepsI [OF _ assms(2-9)] assms(1)] assms(1) by (simp add: in_trans_def)

lemma frame_tbl: "frame_same s s' \<Longrightarrow> tbl s' n \<noteq> None \<longleftrightarrow> tbl s n \<noteq> None"
  unfolding frame_same_def by (metis map_option_is_None)

lemma in_trans_updates:
  assumes i: "in_trans D0 D1 s" and ok: "db_ok s' Ts'" and u: "updates s q n m' op rc s'"
    and un: "can_undo op ((database s)(n \<mapsto> m'))" "undo op ((database s)(n \<mapsto> m')) = database s"
  shows "in_trans D0 D1 s'"
proof -
  have m: "mem_ok s" "cursors s 0 = None" "\<forall>n. tbl s n \<noteq> None \<longrightarrow> n < next_idx s" using i by (auto simp: in_trans_def sound_def)
  have fr: "frame_same s s'" "mem_ok s'" using u m by (auto simp: updates_def)
  have c0: "cursors s' 0 = None" using frame_same_no_cursor [OF fr(1) m(2)] .
  have st: "eTransState s' = eTransState s" "next_idx s' = next_idx s" using fr(1) by (simp_all add: frame_same_def)
  consider (locked) "database s' = database s" "same_logs s s'" | (stored) "database s' = (database s)(n \<mapsto> m')" "logged op s s'"
    using u m by (auto simp: updates_def)
  then show ?thesis
  proof cases
    case locked
    then show ?thesis using in_trans_same [OF i ok fr(2) c0 _ st(1) _ st(2)] frame_tbl [OF fr(1)] by blast
  next
    case stored
    have "in_unit s D0 D1" using i by (simp add: in_trans_def)
    then have "in_unit s' D0 D1" by (rule in_unit_logged) (use stored st un in auto)
    moreover have "\<forall>n. tbl s' n \<noteq> None \<longrightarrow> n < next_idx s'" using frame_tbl [OF fr(1)] m(3) st by auto
    ultimately show ?thesis using ok fr(2) c0 i st(2) by (auto simp: in_trans_def sound_def)
  qed
qed

lemma in_trans_state: "in_trans D0 D1 s \<Longrightarrow> logging s"
  by (auto simp: in_trans_def in_unit_def logging_def)

lemma logging_not_none: "logging s \<Longrightarrow> eTransState s \<noteq> TRANS_NONE"
  by (auto simp: logging_def)

lemma in_trans_insert:
  assumes i: "in_trans D0 D1 s" and q: "q \<noteq> 0" and r: "memRbtreeInsert s q k d = Some (rc, s')"
  shows "in_trans D0 D1 s'"
proof -
  obtain Ts where ok: "db_ok s Ts" using i by (auto simp: in_trans_def sound_def)
  have z: "cursors s 0 = None" using i by (simp add: in_trans_def sound_def)
  have st: "eTransState s \<noteq> TRANS_NONE" using logging_not_none [OF in_trans_state [OF i]] .
  obtain cur where cur: "cursors s q = Some cur" "wrFlag cur"
    using r by (auto simp: memRbtreeInsert_def checkReadLocks_def assertion_def split: bind_splits if_splits)
  then have w: "writer s q cur" using z by (simp add: writer_def)
  obtain t where t: "tbl s (iTree cur) = Some t" using cursor_tree [OF ok cur(1)] .
  define m where "m = map_of (entries (Ts (iTree cur)))"
  have m: "database s (iTree cur) = Some m" using database_at [OF ok t] by (simp add: m_def)
  obtain Ts' where i': "db_ok s' Ts'" "updates s q (iTree cur) (m(k \<mapsto> d)) (undo_store (iTree cur) k m) rc s'"
    using Insert_result [OF ok w st m, of k d] r by auto
  show ?thesis
  proof (rule in_trans_updates [OF i i'])
    show "can_undo (undo_store (iTree cur) k m) ((database s)(iTree cur \<mapsto> m(k \<mapsto> d)))"
      by (simp add: undo_store_def fun_upd_apply split: option.split)
    show "undo (undo_store (iTree cur) k m) ((database s)(iTree cur \<mapsto> m(k \<mapsto> d))) = database s"
      using m by (auto simp: undo_store_def fun_upd_apply fun_eq_iff split: option.split)
  qed
qed

lemma in_trans_delete:
  assumes i: "in_trans D0 D1 s" and q: "q \<noteq> 0" and r: "memRbtreeDelete s q = Some (rc, s')"
  shows "in_trans D0 D1 s'"
proof -
  obtain Ts where ok: "db_ok s Ts" using i by (auto simp: in_trans_def sound_def)
  have z: "cursors s 0 = None" using i by (simp add: in_trans_def sound_def)
  have st: "eTransState s \<noteq> TRANS_NONE" using logging_not_none [OF in_trans_state [OF i]] .
  obtain cur where cur: "cursors s q = Some cur" "wrFlag cur"
    using r by (auto simp: memRbtreeDelete_def checkReadLocks_def assertion_def split: bind_splits if_splits)
  then have w: "writer s q cur" using z by (simp add: writer_def)
  obtain t where t: "tbl s (iTree cur) = Some t" using cursor_tree [OF ok cur(1)] .
  show ?thesis
  proof (cases "pNode cur = 0")
    case True
    have d: "db_ok s' Ts" "frame_same s s'" "same_logs s s'" "database s' = database s"
      using Delete_nowhere [OF ok w st True] r by auto
    have "mallocs s' = mallocs s \<and> malloc_failed s' = malloc_failed s"
      using checkReadLocks_result [OF ok w] r cur True
      by (auto simp: memRbtreeDelete_def assertion_def writer_def split: bind_splits if_splits)
    then have "mem_ok s'" using i by (simp add: in_trans_def sound_def mem_ok_def)
    then show ?thesis
      using in_trans_same [OF i d(1) _ frame_same_no_cursor [OF d(2) z] d(3) _ d(4)] frame_tbl [OF d(2)] d(2)
      by (simp add: frame_same_def)
  next
    case False
    obtain e xs ys where e: "cursor_entry s q = Some e" "contents s (iTree cur) = xs @ e # ys" using cursor_at [OF ok cur(1) False] .
    obtain k d where kd: "e = (k, d)" by fastforce
    define m where "m = map_of (contents s (iTree cur))"
    have "distinct (map fst (contents s (iTree cur)))" using entries_distinct [OF tree_at(5) [OF ok t]] tree_at(7) [OF ok t] by simp
    then have mk: "m k = Some d" unfolding m_def by (rule map_of_is_SomeI) (simp add: e(2) kd)
    have m: "database s (iTree cur) = Some m" using t by (simp add: database_def m_def)
    obtain Ts' where d: "db_ok s' Ts'" "updates s q (iTree cur) (m(k := None)) (ROLLBACK_INSERT (iTree cur) k d) rc s'"
      using Delete_result [OF ok w st e [unfolded kd]] r unfolding m_def by auto
    show ?thesis
    proof (rule in_trans_updates [OF i d])
      show "undo (ROLLBACK_INSERT (iTree cur) k d) ((database s)(iTree cur \<mapsto> m(k := None))) = database s"
        using m mk by (auto simp: fun_upd_apply fun_eq_iff)
    qed (simp add: fun_upd_apply)
  qed
qed

lemma log_ready_in_trans: "in_trans D0 D1 s \<Longrightarrow> log_ready s"
  using in_trans_state by (auto simp: log_ready_def in_trans_def sound_def)

lemma database_of: "db_ok s Ts \<Longrightarrow> tbl s n = Some t \<Longrightarrow> database s n = Some (map_of (contents s n)) \<and> distinct (map fst (contents s n))"
  using entries_distinct [OF tree_at(5)] tree_at(7) [of s Ts n t] by (simp add: database_def)

lemma undoes_clear:
  assumes "db_ok s Ts" "tbl s n = Some t" "mset es = mset (contents s n)"
  shows "undoes (rev (map (restore_op n) es)) ((database s)(n \<mapsto> Map.empty)) (database s)"
  using undo_restores [of "rev es" "contents s n" "database s" n] database_of [OF assms(1,2)] assms(3) by (simp add: rev_map)

lemma in_trans_clear:
  assumes i: "in_trans D0 D1 s" and ac: "all_clear s n" and r: "memRbtreeClearTable s n = Some (rc, s')"
  shows "in_trans D0 D1 s'"
proof -
  obtain Ts where ok: "db_ok s Ts" using i by (auto simp: in_trans_def sound_def)
  have m: "mem_ok s" "cursors s 0 = None" "\<forall>n. tbl s n \<noteq> None \<longrightarrow> n < next_idx s" using i by (auto simp: in_trans_def sound_def)
  obtain t where t: "tbl s n = Some t" using r by (cases "tbl s n") (simp_all add: memRbtreeClearTable_def)
  obtain s1 es where c: "memRbtreeClearTable s n = Some (SQLITE_OK, s1)" "db_ok s1 (Ts(n := Lf))"
    "database s1 = (database s)(n \<mapsto> Map.empty)" "mset es = mset (contents s n)"
    "same_logs (add_logs (map (restore_op n) es) s) s1" "frame_same s s1" "cursors s1 = cursors s" "mem_ok s \<longrightarrow> mem_ok s1"
    using ClearTable_result [OF ok t ac log_ready_in_trans [OF i]] by blast
  have s1: "s1 = s'" using c(1) r by simp
  have "in_unit s D0 D1" using i by (simp add: in_trans_def)
  then have "in_unit s1 D0 D1"
    by (rule in_unit_logs [OF _ c(5)]) (use c(3,6) undoes_clear [OF ok t c(4)] in \<open>simp_all add: frame_same_def\<close>)
  moreover have "\<forall>n. tbl s1 n \<noteq> None \<longrightarrow> n < next_idx s1" using frame_tbl [OF c(6)] m(3) c(6) by (simp add: frame_same_def)
  ultimately show ?thesis using c(2,6,7,8) m i unfolding s1 [symmetric] by (auto simp: in_trans_def sound_def frame_same_def)
qed

lemma in_trans_drop:
  assumes i: "in_trans D0 D1 s" and un: "unused s n" and r: "memRbtreeDropTable s n = Some (rc, s')"
  shows "in_trans D0 D1 s'"
proof -
  obtain Ts where ok: "db_ok s Ts" using i by (auto simp: in_trans_def sound_def)
  have m: "mem_ok s" "cursors s 0 = None" "\<forall>n. tbl s n \<noteq> None \<longrightarrow> n < next_idx s" using i by (auto simp: in_trans_def sound_def)
  obtain t where t: "tbl s n = Some t"
    using r by (cases "tbl s n") (auto simp: memRbtreeDropTable_def memRbtreeClearTable_def assertion_def split: if_splits)
  obtain s1 Ts' es where c: "memRbtreeDropTable s n = Some (SQLITE_OK, s1)" "db_ok s1 Ts'" "database s1 = (database s)(n := None)"
    "mset es = mset (contents s n)" "same_logs (add_logs (map (restore_op n) es @ [ROLLBACK_CREATE n]) s) s1"
    "cursors s1 = cursors s" "eTransState s1 = eTransState s" "next_idx s1 = next_idx s" "mem_ok s \<longrightarrow> mem_ok s1"
    "\<forall>m. tbl s1 m \<noteq> None \<longrightarrow> tbl s m \<noteq> None"
    using DropTable_result [OF ok t un log_ready_in_trans [OF i]] by blast
  have s1: "s1 = s'" using c(1) r by simp
  have un: "undoes (rev (map (restore_op n) es @ [ROLLBACK_CREATE n])) (database s1) (database s)"
    using undoes_clear [OF ok t c(4)] by (simp add: c(3) fun_upd_same)
  have "in_unit s D0 D1" using i by (simp add: in_trans_def)
  then have "in_unit s1 D0 D1" by (rule in_unit_logs [OF _ c(5,7) un])
  then show ?thesis using c m i unfolding s1 [symmetric] by (auto simp: in_trans_def sound_def)
qed

lemma in_trans_create:
  assumes i: "in_trans D0 D1 s" and r: "memRbtreeCreateTable s = Some (rc, n, s')"
  shows "in_trans D0 D1 s'"
proof -
  obtain Ts where ok: "db_ok s Ts" using i by (auto simp: in_trans_def sound_def)
  have m: "mem_ok s" "cursors s 0 = None" "\<forall>n. tbl s n \<noteq> None \<longrightarrow> n < next_idx s" using i by (auto simp: in_trans_def sound_def)
  have st: "logging s" using in_trans_state [OF i] .
  let ?s0 = "s\<lparr>next_idx := next_idx s + 1\<rparr>"
  have 0: "db_ok ?s0 Ts" "tbl ?s0 (next_idx s) = None" "mem_ok ?s0"
    using ok db_ok_cong [of ?s0 s Ts] m by (auto simp: mem_ok_def)
  note c = btreeCreateTable_ok [OF 0]
  let ?s1 = "btreeCreateTable ?s0 (next_idx s)"
  have d0: "database ?s0 = database s" by (simp add: fun_eq_iff database_def contents_def split: option.split)
  have s1: "logging ?s1" "mem_ok ?s1" "eTransState ?s1 \<noteq> TRANS_ROLLBACK" using st m(1) by (auto simp: c(3) logging_def mem_ok_def)
  have log: "log_op 1 ?s1 (ROLLBACK_DROP (next_idx s)) = Some (SQLITE_OK, add_log (ROLLBACK_DROP (next_idx s)) ?s1)"
    using log_op_result [OF s1(1)] s1(2) by auto
  have s': "s' = add_log (ROLLBACK_DROP (next_idx s)) ?s1"
    using r log s1 logging_not_none [OF st] by (auto simp: memRbtreeCreateTable_def assertion_def Let_def)
  note sd = add_log_same(1) [of ?s1 "ROLLBACK_DROP (next_idx s)", folded s']
  have ok': "db_ok s' (Ts(next_idx s := Lf))" using same_data_db_ok [OF sd] c(1) by simp
  have db: "database s' = (database s)(next_idx s \<mapsto> Map.empty)" using same_data_database [OF sd] c(2) d0 by simp
  have "in_unit s D0 D1" using i by (simp add: in_trans_def)
  then have "in_unit s' D0 D1"
  proof (rule in_unit_logged)
    show "logged (ROLLBACK_DROP (next_idx s)) s s'" using st by (auto simp: s' c(3) logged_def same_logs_def add_log_def)
    show "eTransState s' = eTransState s" by (simp add: s' c(3))
    show "can_undo (ROLLBACK_DROP (next_idx s)) (database s')" by (simp add: db fun_upd_same)
    have "database s (next_idx s) = None" using 0(2) by (simp add: database_def)
    then show "undo (ROLLBACK_DROP (next_idx s)) (database s') = database s" by (simp add: db fun_upd_idem)
  qed
  moreover have "\<forall>n. tbl s' n \<noteq> None \<longrightarrow> n < next_idx s'"
    using m(3) by (fastforce simp: s' c(3) update_conv' fun_upd_apply)
  moreover have "next_idx s \<le> next_idx s'" by (simp add: s' c(3))
  ultimately show ?thesis using ok' m i below_mono [of "next_idx s" D0 "next_idx s + 1"] below_mono [of "next_idx s" D1 "next_idx s + 1"] by (auto simp: in_trans_def sound_def s' c(3) mem_ok_def)
qed

section \<open>The rollback of a unit\<close>

lemma rolling_start:
  assumes "sound s" "cursors s = Map.empty"
  shows "rolling (s\<lparr>eTransState := TRANS_ROLLBACK\<rparr>)" "database (s\<lparr>eTransState := st\<rparr>) = database s"
proof -
  obtain Ts where "db_ok s Ts" using assms by (auto simp: sound_def)
  then have "db_ok (s\<lparr>eTransState := TRANS_ROLLBACK\<rparr>) Ts" using db_ok_cong [of "s\<lparr>eTransState := TRANS_ROLLBACK\<rparr>" s Ts] by simp
  then show "rolling (s\<lparr>eTransState := TRANS_ROLLBACK\<rparr>)" using assms by (auto simp: rolling_def sound_def mem_ok_def)
  show "database (s\<lparr>eTransState := st\<rparr>) = database s" by (simp add: fun_eq_iff database_def contents_def split: option.split)
qed

text \<open>Tables are only created in a rollback with numbers that the unit had dropped.\<close>

lemma rolling_end:
  assumes r: "rolling s'" and s: "heap t = heap s'" "next_ptr t = next_ptr s'" "tblHash t = tblHash s'" "cursors t = cursors s'"
    "mallocs t = mallocs s'" "malloc_failed t = malloc_failed s'" and b: "\<forall>n. database s' n \<noteq> None \<longrightarrow> n < next_idx t"
  shows "sound t" "database t = database s'"
proof -
  obtain Ts where "db_ok s' Ts" using r by (auto simp: rolling_def)
  then have "db_ok t Ts" using db_ok_cong [of t s' Ts] s by simp
  moreover have "\<forall>n. tbl s' n \<noteq> None \<longrightarrow> n < next_idx t" using b by (auto simp: database_def)
  ultimately show "sound t" using r s by (auto simp: sound_def rolling_def mem_ok_def)
  show "database t = database s'" by (rule ext) (rule database_cong; simp add: s)
qed

theorem Rollback_result:
  assumes i: "in_trans D0 D1 s" and e: "cursors s = Map.empty"
  shows "\<exists>s'. memRbtreeRollback s = Some s' \<and> database s' = D0 \<and> sound s' \<and> idle s'"
proof -
  have so: "sound s" and u: "in_unit s D0 D1" and b: "below (next_idx s) D0" using i by (simp_all add: in_trans_def)
  let ?s = "s\<lparr>eTransState := TRANS_ROLLBACK\<rparr>"
  have r: "rolling ?s" "database ?s = database s" using rolling_start [OF so e] by simp_all
  obtain D where D: "undoes (pCheckRollback ?s) (database ?s) D" "undoes (pTransRollback ?s) D D0"
    using u r(2) by (auto simp: in_unit_def)
  obtain s1 where s1: "execute_rollback_list (pCheckRollback ?s) ?s = Some s1" "rolling s1" "database s1 = D" "kept ?s s1"
    using execute_rollback_ok [OF r(1) D(1)] by blast
  obtain s2 where s2: "execute_rollback_list (pTransRollback ?s) s1 = Some s2" "rolling s2" "database s2 = D0" "kept s1 s2"
    using execute_rollback_ok [OF s1(2)] D(2) s1(3) by blast
  let ?s' = "s2\<lparr>pTransRollback := [], pCheckRollback := [], eTransState := TRANS_NONE\<rparr>"
  have "next_idx s2 = next_idx s" using s1(4) s2(4) by (simp add: kept_def)
  then have "sound ?s'" "database ?s' = database s2"
    using rolling_end [OF s2(2), of ?s'] b s2(3) by (simp_all add: below_def)
  then show ?thesis using s1(1) s2(1,3) by (simp add: memRbtreeRollback_def idle_def)
qed

lemma in_trans_rollback_ckpt:
  assumes i: "in_trans D0 D1 s" and e: "cursors s = Map.empty" and b: "eTransState s = TRANS_INCHECKPOINT"
  shows "\<exists>s'. memRbtreeRollbackCkpt s = Some s' \<and> database s' = D1 \<and> in_trans D0 D1 s'"
proof -
  have so: "sound s" and u: "in_unit s D0 D1" and lt: "below (next_idx s) D1" using i by (simp_all add: in_trans_def)
  let ?s = "s\<lparr>eTransState := TRANS_ROLLBACK\<rparr>"
  have r: "rolling ?s" "database ?s = database s" using rolling_start [OF so e] by simp_all
  have D: "undoes (pCheckRollback ?s) (database ?s) D1" "undoes (pTransRollback s) D1 D0"
    using u r(2) b by (auto simp: in_unit_def)
  obtain s1 where s1: "execute_rollback_list (pCheckRollback ?s) ?s = Some s1" "rolling s1" "database s1 = D1" "kept ?s s1"
    using execute_rollback_ok [OF r(1) D(1)] by blast
  let ?s' = "s1\<lparr>pCheckRollback := [], eTransState := TRANS_INTRANSACTION\<rparr>"
  have k: "next_idx s1 = next_idx s" "pTransRollback s1 = pTransRollback s" using s1(4) by (simp_all add: kept_def same_logs_def)
  have "sound ?s'" "database ?s' = database s1"
    using rolling_end [OF s1(2), of ?s'] lt s1(3) k by (simp_all add: below_def)
  then have "in_trans D0 D1 ?s'" using D(2) s1(3) k i by (auto simp: in_trans_def in_unit_def)
  then show ?thesis using s1(1,3) \<open>database ?s' = database s1\<close> b by (simp add: memRbtreeRollbackCkpt_def)
qed

section \<open>Steps of a client\<close>

lemma keeps_cursor:
  assumes i: "sound s" and r: "memRbtreeCursor s n wr = Some (rc, q, s')"
  shows "keeps s s'"
proof -
  obtain Ts where ok: "db_ok s Ts" using i by (auto simp: sound_def)
  have m: "mem_ok s" "cursors s 0 = None" using i by (auto simp: sound_def)
  obtain t where t: "tbl s n = Some t"
    using r m(1) by (cases "tbl s n") (auto simp: memRbtreeCursor_def)
  have "next_ptr s \<noteq> 0" using ok by (simp add: db_ok_def trees_ok_def)
  then show ?thesis
    using Cursor_result [OF ok t m(1), of wr] r m(2) by (intro keepsI [OF i]) (auto simp: fun_upd_apply)
qed

lemma keeps_close:
  assumes i: "sound s" and q: "q \<noteq> 0" and r: "memRbtreeCloseCursor s q = Some (rc, s')"
  shows "keeps s s'"
proof -
  obtain Ts where ok: "db_ok s Ts" using i by (auto simp: sound_def)
  have m: "mem_ok s" "cursors s 0 = None" using i by (auto simp: sound_def)
  obtain c where c: "cursors s q = Some c"
    using r by (cases "cursors s q") (auto simp: memRbtreeCloseCursor_def)
  show ?thesis
    using CloseCursor_result [OF ok c q] r m by (intro keepsI [OF i]) (auto simp: fun_upd_apply)
qed

lemma keeps_move:
  assumes i: "sound s" and q: "q \<noteq> 0"
    and r: "memRbtreeFirst s q = Some (r, s') \<or> memRbtreeLast s q = Some (r, s') \<or> memRbtreeNext s q = Some (r, s') \<or>
      memRbtreePrevious s q = Some (r, s') \<or> memRbtreeMoveto s q k = Some (r, s')"
  shows "keeps s s'"
proof -
  obtain Ts where ok: "db_ok s Ts" using i by (auto simp: sound_def)
  obtain c where c: "cursors s q = Some c"
    using r by (cases "cursors s q") (auto simp: memRbtreeFirst_def memRbtreeLast_def memRbtreeNext_def memRbtreePrevious_def memRbtreeMoveto_def)
  have m: "moved s q c s'" "db_ok s' Ts" using r moves_total(1-4) [OF ok c] moves_total(5) [OF ok c, of k] by auto
  then obtain c' where s': "s' = set_cursor q c' s" by (auto simp: moved_def)
  show ?thesis
    by (rule keepsI [OF i m(2)]) (use i q in \<open>auto simp: s' sound_def fun_upd_apply\<close>)
qed

lemma keeps_meta: "sound s \<Longrightarrow> keeps s (memRbtreeUpdateMeta s meta)"
proof -
  assume i: "sound s"
  obtain Ts where ok: "db_ok s Ts" using i by (auto simp: sound_def)
  have "database (s\<lparr>aMetaData := take 10 meta\<rparr>) = database s" by (rule ext) (rule database_cong; simp)
  then show ?thesis
    using i db_ok_cong [of "s\<lparr>aMetaData := take 10 meta\<rparr>" s Ts] ok unfolding memRbtreeUpdateMeta_def
    by (intro keepsI [OF i]) (auto simp: sound_def mem_ok_def same_logs_def)
qed

lemma sound_fields [simp]:
  "sound (s\<lparr>eTransState := st\<rparr>) = sound s" "sound (s\<lparr>pTransRollback := l\<rparr>) = sound s" "sound (s\<lparr>pCheckRollback := l\<rparr>) = sound s"
  by (simp_all add: sound_def db_ok_def trees_ok_def cursors_ok_def mem_ok_def)

lemma database_fields [simp]:
  "database (s\<lparr>eTransState := st\<rparr>) = database s" "database (s\<lparr>pTransRollback := l\<rparr>) = database s"
  "database (s\<lparr>pCheckRollback := l\<rparr>) = database s"
  by (rule ext; rule database_cong; simp)+

lemma sound_below: "sound s \<Longrightarrow> below (next_idx s) (database s)"
  by (auto simp: sound_def below_def database_def split: option.splits)

lemma in_trans_begin_ckpt:
  assumes i: "in_trans D0 D1 s" and r: "memRbtreeBeginCkpt s = Some (rc, s')"
  shows "(s' = s \<and> rc = SQLITE_ERROR) \<or> (rc = SQLITE_OK \<and> eTransState s' = TRANS_INCHECKPOINT \<and> eTransState s = TRANS_INTRANSACTION \<and>
    database s' = database s \<and> cursors s' = cursors s \<and> in_trans D0 (database s) s')"
proof (cases "eTransState s = TRANS_INTRANSACTION")
  case True
  then have s': "s' = s\<lparr>eTransState := TRANS_INCHECKPOINT\<rparr>" "rc = SQLITE_OK"
    using r by (auto simp: memRbtreeBeginCkpt_def assertion_def split: bind_splits if_splits)
  have so: "sound s" using i by (simp add: in_trans_def)
  have "in_unit s' D0 (database s)" using i True by (auto simp: s' in_trans_def in_unit_def)
  then show ?thesis using i True sound_below [OF so] by (simp add: s' in_trans_def)
next
  case False
  then show ?thesis using r by (simp add: memRbtreeBeginCkpt_def)
qed

lemma in_trans_commit_ckpt:
  assumes i: "in_trans D0 D1 s"
  shows "in_trans D0 D1 (memRbtreeCommitCkpt s)" "database (memRbtreeCommitCkpt s) = database s"
    "eTransState (memRbtreeCommitCkpt s) = TRANS_INTRANSACTION"
proof -
  show "eTransState (memRbtreeCommitCkpt s) = TRANS_INTRANSACTION"
    using i by (auto simp: memRbtreeCommitCkpt_def in_trans_def in_unit_def)
  have eq: "memRbtreeCommitCkpt s = (if eTransState s = TRANS_INCHECKPOINT then
      s\<lparr>pTransRollback := pCheckRollback s @ pTransRollback s, pCheckRollback := [], eTransState := TRANS_INTRANSACTION\<rparr> else s)"
    by (simp add: memRbtreeCommitCkpt_def)
  show "database (memRbtreeCommitCkpt s) = database s" by (simp add: eq)
  show "in_trans D0 D1 (memRbtreeCommitCkpt s)"
    using i by (auto simp: eq in_trans_def in_unit_def undoes_append)
qed

text \<open>The steps that keep the data, in a transaction or outside of one.\<close>

lemma keeps_steps:
  assumes "sound s" "q \<noteq> 0"
  shows "memRbtreeFirst s q = Some (r, s') \<Longrightarrow> keeps s s'" "memRbtreeLast s q = Some (r, s') \<Longrightarrow> keeps s s'"
    "memRbtreeNext s q = Some (r, s') \<Longrightarrow> keeps s s'" "memRbtreePrevious s q = Some (r, s') \<Longrightarrow> keeps s s'"
    "memRbtreeMoveto s q k = Some (r, s') \<Longrightarrow> keeps s s'"
  by (rule keeps_move [OF assms, of r s' k]; simp)+

lemma client_step_in_trans:
  assumes "client_step s s'" "in_trans D0 D1 s"
  shows "(\<exists>D1'. in_trans D0 D1' s') \<and> (eTransState s' = eTransState s \<longrightarrow> in_trans D0 D1 s')"
  using assms
proof -
  have so: "sound s" using assms(2) by (simp add: in_trans_def)
  from assms(1) show ?thesis
proof (cases rule: client_step.cases)
  case (ckpt rc)
  then show ?thesis using in_trans_begin_ckpt [OF assms(2) ckpt] assms(2) by auto
next
  case commit_ckpt
  then show ?thesis using in_trans_commit_ckpt [OF assms(2)] assms(2) by (auto simp: memRbtreeCommitCkpt_def)
next
  case rollback_ckpt
  show ?thesis
  proof (cases "eTransState s = TRANS_INCHECKPOINT")
    case True
    then show ?thesis using in_trans_rollback_ckpt [OF assms(2) rollback_ckpt(1)] rollback_ckpt(2) by auto
  next
    case False
    then show ?thesis using rollback_ckpt(2) assms(2) by (auto simp: memRbtreeRollbackCkpt_def)
  qed
next
  case insert
  then show ?thesis using in_trans_insert [OF assms(2)] by blast
next
  case delete
  then show ?thesis using in_trans_delete [OF assms(2)] by blast
next
  case clear
  then show ?thesis using in_trans_clear [OF assms(2)] by blast
next
  case drop
  then show ?thesis using in_trans_drop [OF assms(2)] by blast
next
  case create
  then show ?thesis using in_trans_create [OF assms(2)] by blast
next
  case cursor
  then have "keeps s s'" using keeps_cursor [OF so] by simp
  then show ?thesis using keeps_in_trans assms(2) by blast
next
  case close
  then have "keeps s s'" using keeps_close [OF so] by simp
  then show ?thesis using keeps_in_trans assms(2) by blast
next
  case first
  then have "keeps s s'" using keeps_steps(1) [OF so] by simp
  then show ?thesis using keeps_in_trans assms(2) by blast
next
  case last
  then have "keeps s s'" using keeps_steps(2) [OF so] by simp
  then show ?thesis using keeps_in_trans assms(2) by blast
next
  case step_next
  then have "keeps s s'" using keeps_steps(3) [OF so] by simp
  then show ?thesis using keeps_in_trans assms(2) by blast
next
  case previous
  then have "keeps s s'" using keeps_steps(4) [OF so] by simp
  then show ?thesis using keeps_in_trans assms(2) by blast
next
  case moveto
  then have "keeps s s'" using keeps_steps(5) [OF so] by simp
  then show ?thesis using keeps_in_trans assms(2) by blast
next
  case meta
  then have "keeps s s'" using keeps_meta [OF so] by simp
  then show ?thesis using keeps_in_trans assms(2) by blast
qed
qed

lemma client_step_idle:
  assumes "client_step s s'" "sound s" "idle s"
  shows "sound s' \<and> idle s'"
proof -
  have n: "eTransState s = TRANS_NONE" using assms(3) by (simp add: idle_def)
  from assms(1) have "keeps s s' \<or> s' = s"
  proof (cases rule: client_step.cases)
    case insert
    then show ?thesis using n by (simp add: memRbtreeInsert_def assertion_def)
  next
    case delete
    then show ?thesis using n by (simp add: memRbtreeDelete_def assertion_def)
  next
    case clear
    then show ?thesis using n by (simp add: logging_def)
  next
    case drop
    then show ?thesis using n by (simp add: memRbtreeDropTable_def assertion_def)
  next
    case create
    then show ?thesis using n by (simp add: memRbtreeCreateTable_def assertion_def)
  next
    case ckpt
    then show ?thesis using n by (simp add: memRbtreeBeginCkpt_def)
  next
    case commit_ckpt
    then show ?thesis using n by (simp add: memRbtreeCommitCkpt_def)
  next
    case rollback_ckpt
    then show ?thesis using n by (simp add: memRbtreeRollbackCkpt_def)
  next
    case cursor
    then show ?thesis using keeps_cursor [OF assms(2)] by simp
  next
    case close
    then show ?thesis using keeps_close [OF assms(2)] by simp
  next
    case first
    then show ?thesis using keeps_steps(1) [OF assms(2)] by simp
  next
    case last
    then show ?thesis using keeps_steps(2) [OF assms(2)] by simp
  next
    case step_next
    then show ?thesis using keeps_steps(3) [OF assms(2)] by simp
  next
    case previous
    then show ?thesis using keeps_steps(4) [OF assms(2)] by simp
  next
    case moveto
    then show ?thesis using keeps_steps(5) [OF assms(2)] by simp
  next
    case meta
    then show ?thesis using keeps_meta [OF assms(2)] by simp
  qed
  then show ?thesis using assms keeps_idle by (auto simp: keeps_def)
qed

end
