(* ===== verification/Store.thy ===== *)
theory Store
  imports Main
begin

text \<open>
  The contract of a keyed store, which the tables of the in-memory database and the hash tables of
  the library share: from a state that is ready, storing and removing a key succeed, keep the state
  ready, and change the view of the store, a finite map, at that key only. \<open>rep\<close> is the part of a
  key the store tells apart, and \<open>valid\<close> the calls a client may make. A client that runs a
  script of such calls sees what the script does to the map.
\<close>

datatype ('k, 'v) store_op = Put 'k 'v | Del 'k

fun apply_op :: "('k, 'v) store_op \<Rightarrow> ('k \<Rightarrow> 'v option) \<Rightarrow> 'k \<Rightarrow> 'v option" where
  "apply_op (Put k v) m = m(k \<mapsto> v)"
| "apply_op (Del k) m = m(k := None)"

fun run_ops :: "('k \<Rightarrow> 'v \<Rightarrow> 's \<Rightarrow> 's option) \<Rightarrow> ('k \<Rightarrow> 's \<Rightarrow> 's option) \<Rightarrow> ('k, 'v) store_op list \<Rightarrow> 's \<Rightarrow> 's option" where
  "run_ops put del [] s = Some s"
| "run_ops put del (Put k v # ops) s = (case put k v s of None \<Rightarrow> None | Some s \<Rightarrow> run_ops put del ops s)"
| "run_ops put del (Del k # ops) s = (case del k s of None \<Rightarrow> None | Some s \<Rightarrow> run_ops put del ops s)"

locale store =
  fixes ready :: "'s \<Rightarrow> bool"
    and view :: "'s \<Rightarrow> 'c \<Rightarrow> 'v option"
    and rep :: "'k \<Rightarrow> 'c"
    and valid :: "('k, 'v) store_op \<Rightarrow> bool"
    and put :: "'k \<Rightarrow> 'v \<Rightarrow> 's \<Rightarrow> 's option"
  assumes put_view:
    "ready s \<Longrightarrow> valid (Put k v) \<Longrightarrow> \<exists>s'. put k v s = Some s' \<and> ready s' \<and> view s' = (view s)(rep k \<mapsto> v)"
begin

lemma load_view:
  "ready s \<Longrightarrow> list_all (\<lambda>(k, v). valid (Put k v)) es \<Longrightarrow>
    \<exists>s'. run_ops put del (map (\<lambda>(k, v). Put k v) es) s = Some s' \<and> ready s' \<and>
      view s' = view s ++ map_of (rev (map (\<lambda>(k, v). (rep k, v)) es))"
proof (induction es arbitrary: s)
  case (Cons e es)
  obtain k v where e: "e = (k, v)" by fastforce
  have p: "valid (Put k v)" "list_all (\<lambda>(k, v). valid (Put k v)) es" using Cons.prems(2) by (simp_all add: e)
  obtain s1 where s1: "put k v s = Some s1" "ready s1" "view s1 = (view s)(rep k \<mapsto> v)"
    using put_view [OF Cons.prems(1) p(1)] by blast
  obtain s2 where "run_ops put del (map (\<lambda>(k, v). Put k v) es) s1 = Some s2" "ready s2"
    "view s2 = view s1 ++ map_of (rev (map (\<lambda>(k, v). (rep k, v)) es))"
    using Cons.IH [OF s1(2) p(2)] by blast
  then show ?case using s1 by (simp add: e map_add_assoc [symmetric])
qed simp

end

locale map_store = store ready view rep valid put
  for ready :: "'s \<Rightarrow> bool" and view :: "'s \<Rightarrow> 'c \<Rightarrow> 'v option" and rep :: "'k \<Rightarrow> 'c"
    and valid :: "('k, 'v) store_op \<Rightarrow> bool" and put :: "'k \<Rightarrow> 'v \<Rightarrow> 's \<Rightarrow> 's option" +
  fixes del :: "'k \<Rightarrow> 's \<Rightarrow> 's option"
  assumes del_view:
    "ready s \<Longrightarrow> valid (Del k) \<Longrightarrow> \<exists>s'. del k s = Some s' \<and> ready s' \<and> view s' = (view s)(rep k := None)"
begin

lemma run_view:
  "ready s \<Longrightarrow> list_all valid ops \<Longrightarrow>
    \<exists>s'. run_ops put del ops s = Some s' \<and> ready s' \<and> view s' = fold apply_op (map (map_store_op rep id) ops) (view s)"
proof (induction ops arbitrary: s)
  case (Cons op ops)
  have p: "valid op" "list_all valid ops" using Cons.prems(2) by simp_all
  show ?case
  proof (cases op)
    case (Put k v)
    obtain s1 where s1: "put k v s = Some s1" "ready s1" "view s1 = (view s)(rep k \<mapsto> v)"
      using put_view [OF Cons.prems(1) p(1) [unfolded Put]] by blast
    show ?thesis using Cons.IH [OF s1(2) p(2)] unfolding s1(3) by (simp add: Put s1(1) fun_upd_def)
  next
    case (Del k)
    obtain s1 where s1: "del k s = Some s1" "ready s1" "view s1 = (view s)(rep k := None)"
      using del_view [OF Cons.prems(1) p(1) [unfolded Del]] by blast
    show ?thesis using Cons.IH [OF s1(2) p(2)] unfolding s1(3) by (simp add: Del s1(1) fun_upd_def)
  qed
qed simp

end

end
