(* ===== verification/RbProps.thy ===== *)
theory RbProps
  imports RbSession Store
begin

text \<open>
  The properties of the in-memory database, stated for the states a client can reach from the
  opening of the library by its calls; and what the code does not guard against, on examples.
\<close>

section \<open>Reachable states\<close>

inductive rb_reach :: "rbt_db \<Rightarrow> bool" where
  opened: "sqliteRbtreeOpen [] = (SQLITE_OK, Some s) \<Longrightarrow> rb_reach s"
| step: "rb_reach s \<Longrightarrow> client_step s s' \<Longrightarrow> rb_reach s'"
| begun: "rb_reach s \<Longrightarrow> memRbtreeBeginTrans s = Some (rc, s') \<Longrightarrow> rb_reach s'"
| committed: "rb_reach s \<Longrightarrow> rb_reach (memRbtreeCommit s)"
| rolled_back: "rb_reach s \<Longrightarrow> cursors s = Map.empty \<Longrightarrow> memRbtreeRollback s = Some s' \<Longrightarrow> rb_reach s'"

lemma open_state:
  "sqliteRbtreeOpen [] = (SQLITE_OK, Some \<lparr>heap = Map.empty, next_ptr = 1, mallocs = [], malloc_failed = False,
     aMetaData = [0, 0, 4, 0, 0, 0, 0, 0, 0, 0], next_idx = 3, tblHash = [(2, \<lparr>pCursors = [], pHead = 0\<rparr>)],
     eTransState = TRANS_NONE, pTransRollback = [], pCheckRollback = [], cursors = Map.empty\<rparr>)"
  by (simp add: sqliteRbtreeOpen_def malloc_def btreeCreateTable_def set_tbl_def numeral_eq_Suc)

lemma open_sound: "sqliteRbtreeOpen [] = (SQLITE_OK, Some s) \<Longrightarrow> sound s \<and> idle s"
proof -
  assume "sqliteRbtreeOpen [] = (SQLITE_OK, Some s)"
  then have s: "s = \<lparr>heap = Map.empty, next_ptr = 1, mallocs = [], malloc_failed = False,
     aMetaData = [0, 0, 4, 0, 0, 0, 0, 0, 0, 0], next_idx = 3, tblHash = [(2, \<lparr>pCursors = [], pHead = 0\<rparr>)],
     eTransState = TRANS_NONE, pTransRollback = [], pCheckRollback = [], cursors = Map.empty\<rparr>"
    unfolding open_state by simp
  have "db_ok s (\<lambda>_. Lf)"
    by (auto simp: s db_ok_def trees_ok_def cursors_ok_def tree_ok_def holds_def ksorted_def split: if_splits)
  then show "sound s \<and> idle s" by (auto simp: s sound_def idle_def mem_ok_def)
qed

lemma begin_in_trans:
  assumes "sound s" "idle s" "memRbtreeBeginTrans s = Some (rc, s')"
  shows "rc = SQLITE_OK" "in_trans (database s) (database s) s'" "database s' = database s" "cursors s' = cursors s"
    "eTransState s' = TRANS_INTRANSACTION"
proof -
  have s': "rc = SQLITE_OK" "s' = s\<lparr>eTransState := TRANS_INTRANSACTION\<rparr>"
    using assms by (auto simp: memRbtreeBeginTrans_def idle_def assertion_def split: if_splits)
  show "rc = SQLITE_OK" "database s' = database s" "cursors s' = cursors s" "eTransState s' = TRANS_INTRANSACTION" by (simp_all add: s')
  show "in_trans (database s) (database s) s'" using assms sound_below [OF assms(1)] by (simp add: s' in_trans_def in_unit_def idle_def)
qed

lemma commit_idle: "sound s \<Longrightarrow> sound (memRbtreeCommit s) \<and> idle (memRbtreeCommit s) \<and> database (memRbtreeCommit s) = database s"
  by (simp add: memRbtreeCommit_def idle_def)

lemma reach_state: "rb_reach s \<Longrightarrow> sound s \<and> (idle s \<or> (\<exists>D0 D1. in_trans D0 D1 s))"
proof (induction rule: rb_reach.induct)
  case (opened s)
  then show ?case using open_sound by blast
next
  case (step s s')
  then show ?case using client_step_idle client_step_in_trans unfolding in_trans_def by blast
next
  case (begun s rc s')
  show ?case
  proof (cases "idle s")
    case True
    then show ?thesis using begin_in_trans [of s rc s'] begun unfolding in_trans_def by blast
  next
    case False
    then have "eTransState s \<noteq> TRANS_NONE" using begun.IH by (auto simp: in_trans_def in_unit_def)
    then have "s' = s" using begun.hyps by (simp add: memRbtreeBeginTrans_def)
    then show ?thesis using begun.IH by simp
  qed
next
  case (committed s)
  then show ?case using commit_idle by blast
next
  case (rolled_back s s')
  show ?case
  proof (cases "idle s")
    case True
    have "memRbtreeRollback s = Some (s\<lparr>eTransState := TRANS_NONE\<rparr>)" using True by (simp add: memRbtreeRollback_def idle_def)
    then show ?thesis using rolled_back True by (auto simp: idle_def)
  next
    case False
    then show ?thesis using Rollback_result rolled_back by (metis option.sel)
  qed
qed

lemma reach_sound: "rb_reach s \<Longrightarrow> sound s"
  using reach_state by blast

section \<open>Reading at a cursor\<close>

lemma read_entry:
  assumes "cursor_entry s q = Some (k, d)"
  shows "memRbtreeKeySize s q = Some (length k)" "memRbtreeKey s q 0 (int (length k)) = Some k"
    "memRbtreeDataSize s q = Some (length d)" "memRbtreeData s q 0 (int (length d)) = Some d"
proof -
  obtain c n where c: "cursors s q = Some c" "pNode c \<noteq> 0" "heap s (pNode c) = Some n" "RbTree.pKey n = k" "RbTree.pData n = d"
    using assms by (auto simp: cursor_entry_def split: option.splits if_splits)
  then show "memRbtreeKeySize s q = Some (length k)" "memRbtreeKey s q 0 (int (length k)) = Some k"
    "memRbtreeDataSize s q = Some (length d)" "memRbtreeData s q 0 (int (length d)) = Some d"
    by (simp_all add: memRbtreeKeySize_def memRbtreeKey_def memRbtreeDataSize_def memRbtreeData_def deref_def payload_def)
qed

text \<open>A client that reads a table from the first entry on.\<close>

definition read_cursor :: "rbt_db \<Rightarrow> ptr \<Rightarrow> (bytes \<times> bytes) option" where
  "read_cursor s q = do {
     nk \<leftarrow> memRbtreeKeySize s q; k \<leftarrow> memRbtreeKey s q 0 (int nk);
     nd \<leftarrow> memRbtreeDataSize s q; d \<leftarrow> memRbtreeData s q 0 (int nd);
     Some (k, d) }"

fun scan_next :: "nat \<Rightarrow> rbt_db \<Rightarrow> ptr \<Rightarrow> (bytes \<times> bytes) list option" where
  "scan_next 0 s q = None"
| "scan_next (Suc fuel) s q = do {
     e \<leftarrow> read_cursor s q;
     (res, s) \<leftarrow> memRbtreeNext s q;
     if res \<noteq> 0 then Some [e] else do { es \<leftarrow> scan_next fuel s q; Some (e # es) } }"

definition scan :: "nat \<Rightarrow> rbt_db \<Rightarrow> ptr \<Rightarrow> (bytes \<times> bytes) list option" where
  "scan fuel s q = do { (res, s) \<leftarrow> memRbtreeFirst s q; if res \<noteq> 0 then Some [] else scan_next fuel s q }"

lemma read_cursor_entry: "cursor_entry s q = Some e \<Longrightarrow> read_cursor s q = Some e"
  using read_entry [of s q "fst e" "snd e"] by (simp add: read_cursor_def)

lemma scan_next_ok:
  assumes "db_ok s Ts" "cursors s q = Some c" "cursor_entry s q = Some e" "contents s (iTree c) = xs @ e # ys" "eSkip c = SKIP_NONE"
    "length ys < fuel"
  shows "scan_next fuel s q = Some (e # ys)"
  using assms
proof (induction fuel arbitrary: s c e xs ys)
  case (Suc fuel)
  obtain p where n: "memRbtreeNext s q = Some (if ys = [] then 1 else 0, set_cursor q (c\<lparr>pNode := p, eSkip := SKIP_NONE\<rparr>) s)"
    "db_ok (set_cursor q (c\<lparr>pNode := p, eSkip := SKIP_NONE\<rparr>) s) Ts"
    "cursor_entry (set_cursor q (c\<lparr>pNode := p, eSkip := SKIP_NONE\<rparr>) s) q = (case ys of [] \<Rightarrow> None | y # _ \<Rightarrow> Some y)"
    using Next_result [OF Suc.prems(1-4)] Suc.prems(5) by auto
  note rd = read_cursor_entry [OF Suc.prems(3)]
  show ?case
  proof (cases ys)
    case Nil
    then show ?thesis using n(1) rd by simp
  next
    case (Cons y zs)
    have "scan_next fuel (set_cursor q (c\<lparr>pNode := p, eSkip := SKIP_NONE\<rparr>) s) q = Some (y # zs)"
      by (rule Suc.IH [OF n(2), where c = "c\<lparr>pNode := p, eSkip := SKIP_NONE\<rparr>" and xs = "xs @ [e]"]) (use n(3) Cons Suc.prems(4,6) in \<open>simp_all add: fun_upd_same\<close>)
    then show ?thesis using n(1) rd Cons by simp
  qed
qed simp

lemma scan_ok:
  assumes ok: "db_ok s Ts" and c: "cursors s q = Some c" and f: "length (contents s (iTree c)) \<le> fuel"
  shows "scan fuel s q = Some (contents s (iTree c))"
proof (cases "contents s (iTree c)")
  case Nil
  then show ?thesis using move_empty(1) [OF ok c Nil] by (simp add: scan_def)
next
  case (Cons x xs)
  obtain p where n: "memRbtreeFirst s q = Some (0, set_cursor q (c\<lparr>pNode := p, eSkip := SKIP_NONE\<rparr>) s)"
    "db_ok (set_cursor q (c\<lparr>pNode := p, eSkip := SKIP_NONE\<rparr>) s) Ts"
    "cursor_entry (set_cursor q (c\<lparr>pNode := p, eSkip := SKIP_NONE\<rparr>) s) q = Some x"
    using First_result [OF ok c Cons] by blast
  have "scan_next fuel (set_cursor q (c\<lparr>pNode := p, eSkip := SKIP_NONE\<rparr>) s) q = Some (x # xs)"
    by (rule scan_next_ok [OF n(2) _ n(3), where c = "c\<lparr>pNode := p, eSkip := SKIP_NONE\<rparr>" and xs = "[]"]) (use Cons f in \<open>simp_all add: fun_upd_same\<close>)
  then show ?thesis using n(1) Cons by (simp add: scan_def)
qed

section \<open>The depth of a table\<close>

fun depth :: "nat \<Rightarrow> rb_heap \<Rightarrow> ptr \<Rightarrow> nat" where
  \<comment> \<open>the number of nodes on the longest path down, which bounds the comparisons of a search\<close>
  "depth 0 h p = 0"
| "depth (Suc fuel) h p =
     (case deref h p of None \<Rightarrow> 0 | Some n \<Rightarrow> 1 + max (depth fuel h (pLeft n)) (depth fuel h (pRight n)))"

primrec height :: "rbtree \<Rightarrow> nat" where
  "height Lf = 0"
| "height (Br l a b k d r) = 1 + max (height l) (height r)"

lemma depth_holds: "rep h q t \<Longrightarrow> size t \<le> fuel \<Longrightarrow> depth fuel h (root t) = height t"
proof (induction t arbitrary: fuel q)
  case Lf
  then show ?case by (cases fuel) (auto simp: deref_def)
next
  case (Br l a b k d r)
  then obtain f where f: "fuel = Suc f" by (cases fuel) auto
  from Br show ?case by (auto simp: f node_at_def deref_def)
qed

lemma rb_height: "rbinv t \<Longrightarrow> height t \<le> 2 * bh t + (if black t then 0 else 1)"
  by (induction t) (auto split: if_splits)

lemma rb_size: "rbinv t \<Longrightarrow> 2 ^ bh t \<le> size t + 1"
proof (induction t)
  case (Br l a b k d r)
  then have "2 ^ bh l \<le> size l + 1" "(2::nat) ^ bh r \<le> size r + 1" "bh l = bh r" by auto
  then show ?case by (cases b) simp_all
qed simp

lemma depth_bound:
  assumes ok: "db_ok s Ts" and t: "tbl s n = Some t"
  shows "2 ^ (depth (next_ptr s) (heap s) (pHead t) div 2) \<le> length (contents s n) + 1"
proof -
  note tr = tree_at [OF ok t]
  have sz: "size (Ts n) \<le> next_ptr s" using size_bound tr(1,6) by (simp add: holds_def)
  then have d: "depth (next_ptr s) (heap s) (pHead t) = height (Ts n)"
    using depth_holds [of "heap s" 0 "Ts n" "next_ptr s"] tr(1,2) by (simp add: holds_def)
  have "size u = length (nodes u)" for u by (induction u) auto
  then have l: "length (contents s n) = size (Ts n)" using tr(7) by simp
  have "height (Ts n) div 2 \<le> bh (Ts n)" using rb_height [OF tr(3)] tr(4) by simp
  then have "(2::nat) ^ (height (Ts n) div 2) \<le> 2 ^ bh (Ts n)" by simp
  also have "\<dots> \<le> size (Ts n) + 1" using rb_size [OF tr(3)] .
  finally show ?thesis using l d by simp
qed

section \<open>Example states\<close>

declare insert_balance_loop.simps [code] delete_balance_loop.simps [code] leftmost.simps [code] rightmost.simps [code]
  up_right.simps [code] up_left.simps [code] moveto_loop.simps [code] clear_loop.simps [code]

definition demo_open :: rbt_db where
  "demo_open = the (snd (sqliteRbtreeOpen []))"

definition demo_begun :: rbt_db where
  "demo_begun = snd (the (memRbtreeBeginTrans demo_open))"

definition demo_cursor :: rbt_db where
  "demo_cursor = snd (snd (the (memRbtreeCursor demo_begun 2 True)))"

definition demo_one :: rbt_db where
  "demo_one = snd (the (memRbtreeInsert demo_cursor 1 ''k'' ''v''))"

definition demo_two :: rbt_db where
  "demo_two = snd (the (memRbtreeInsert demo_one 1 ''a'' ''b''))"

definition demo_reader :: rbt_db where
  "demo_reader = snd (snd (the (memRbtreeCursor demo_two 2 False)))"

lemma result_of: "map_option fst x = Some r \<Longrightarrow> x = Some (r, snd (the x))"
  by auto

lemma demo_steps:
  "sqliteRbtreeOpen [] = (SQLITE_OK, Some demo_open)" "memRbtreeBeginTrans demo_open = Some (SQLITE_OK, demo_begun)"
  "memRbtreeCursor demo_begun 2 True = Some (SQLITE_OK, 1, demo_cursor)"
  "memRbtreeInsert demo_cursor 1 ''k'' ''v'' = Some (SQLITE_OK, demo_one)"
  "memRbtreeInsert demo_one 1 ''a'' ''b'' = Some (SQLITE_OK, demo_two)"
  "\<exists>q. memRbtreeCursor demo_two 2 False = Some (SQLITE_OK, q, demo_reader)"
proof -
  show "sqliteRbtreeOpen [] = (SQLITE_OK, Some demo_open)" "memRbtreeBeginTrans demo_open = Some (SQLITE_OK, demo_begun)"
    "memRbtreeCursor demo_begun 2 True = Some (SQLITE_OK, 1, demo_cursor)"
    by (simp_all add: demo_open_def demo_begun_def demo_cursor_def open_state memRbtreeBeginTrans_def assertion_def
      memRbtreeCursor_def malloc_def Let_def)
  show "memRbtreeInsert demo_cursor 1 ''k'' ''v'' = Some (SQLITE_OK, demo_one)"
    unfolding demo_one_def by (rule result_of) code_simp
  show "memRbtreeInsert demo_one 1 ''a'' ''b'' = Some (SQLITE_OK, demo_two)"
    unfolding demo_two_def by (rule result_of) code_simp
  have "map_option fst (memRbtreeCursor demo_two 2 False) = Some SQLITE_OK" by code_simp
  then show "\<exists>q. memRbtreeCursor demo_two 2 False = Some (SQLITE_OK, q, demo_reader)" unfolding demo_reader_def by auto
qed

lemma demo_client: "client_step demo_begun demo_cursor" "client_step demo_cursor demo_one" "client_step demo_one demo_two"
  using client_step.cursor [OF demo_steps(3)] client_step.insert [OF _ demo_steps(4)] client_step.insert [OF _ demo_steps(5)]
  by simp_all

lemma demo_reach: "rb_reach demo_open" "rb_reach demo_begun" "rb_reach demo_cursor" "rb_reach demo_one" "rb_reach demo_two" "rb_reach demo_reader"
proof -
  show 1: "rb_reach demo_open" by (rule rb_reach.opened [OF demo_steps(1)])
  show 2: "rb_reach demo_begun" by (rule rb_reach.begun [OF 1 demo_steps(2)])
  show 3: "rb_reach demo_cursor" by (rule rb_reach.step [OF 2 demo_client(1)])
  show 4: "rb_reach demo_one" by (rule rb_reach.step [OF 3 demo_client(2)])
  show 5: "rb_reach demo_two" by (rule rb_reach.step [OF 4 demo_client(3)])
  show "rb_reach demo_reader" using rb_reach.step [OF 5] client_step.cursor demo_steps(6) by blast
qed

lemma demo_states:
  "cursors demo_cursor 1 = Some \<lparr>iTree = 2, pNode = 0, eSkip = SKIP_NONE, wrFlag = True\<rparr>"
  "contents demo_cursor 2 = []" "logging demo_cursor" "tbl demo_cursor 2 = Some \<lparr>pCursors = [1], pHead = 0\<rparr>"
  "contents demo_two 2 = [(''a'', ''b''), (''k'', ''v'')]" "logging demo_two"
  by code_simp+

lemma demo_cursor_at:
  "cursors demo_two 1 = Some \<lparr>iTree = 2, pNode = 3, eSkip = SKIP_NONE, wrFlag = True\<rparr>"
  "tbl demo_two 2 = Some \<lparr>pCursors = [1], pHead = 2\<rparr>" "read_cursor demo_two 1 = Some (''a'', ''b'')"
  by code_simp+

lemma database_contents: "tbl s n = Some t \<Longrightarrow> database s n = Some (map_of (contents s n))"
  by (simp add: database_def)

lemma reach_ok: "rb_reach s \<Longrightarrow> \<exists>Ts. db_ok s Ts"
  using reach_sound by (auto simp: sound_def)

lemma reach_writer: "rb_reach s \<Longrightarrow> cursors s q = Some c \<Longrightarrow> wrFlag c \<Longrightarrow> q \<noteq> 0 \<and> writer s q c"
  using reach_sound [of s] by (cases "q = 0") (auto simp: writer_def sound_def)

lemma reach_updates:
  assumes "rb_reach s" "updates s q n m' op rc s'" "no_readers s q"
  shows "rc = SQLITE_OK" "database s' = (database s)(n \<mapsto> m')" "logged op s s'"
  using assms reach_sound [OF assms(1)] by (auto simp: updates_def sound_def)

lemma no_readers_list:
  assumes "rb_reach s" "cursors s q = Some c" "tbl s (iTree c) = Some t" "\<forall>p\<in>set (pCursors t). p = q \<or> (\<exists>c. cursors s p = Some c \<and> wrFlag c)"
  shows "no_readers s q"
proof -
  obtain Ts where ok: "cursors_ok s Ts" and z: "cursors s 0 = None" using reach_sound [OF assms(1)] by (auto simp: sound_def db_ok_def)
  show ?thesis
    unfolding no_readers_def
  proof (intro allI impI)
    fix p d assume d: "cursors s p = Some d" "p \<noteq> q" "iTree d = iTree (the (cursors s q))"
    have "p \<in> set (pCursors t)" using cursors_table [OF ok d(1)] d(3) assms(2,3) z d(1) by auto
    then show "wrFlag d" using assms(4) d(1,2) by auto
  qed
qed

lemma no_cursors_list:
  assumes "rb_reach s" "\<forall>(n, t)\<in>set (tblHash s). pCursors t = []"
  shows "cursors s = Map.empty"
proof
  fix p
  obtain Ts where ok: "cursors_ok s Ts" and z: "cursors s 0 = None" using reach_sound [OF assms(1)] by (auto simp: sound_def db_ok_def)
  show "cursors s p = None"
  proof (rule ccontr)
    assume "cursors s p \<noteq> None"
    then obtain d where d: "cursors s p = Some d" by blast
    then obtain t where t: "tbl s (iTree d) = Some t" "p \<in> set (pCursors t)" using cursors_table [OF ok d] z by auto
    then show False using assms(2) map_of_SomeD [OF t(1)] by auto
  qed
qed

lemma cursor_set: "db_ok s Ts \<Longrightarrow> cursors s q = Some c \<Longrightarrow> pNode c = 0 \<longleftrightarrow> cursor_entry s q = None"
proof (cases "pNode c = 0")
  case False
  assume a: "db_ok s Ts" "cursors s q = Some c"
  obtain e xs ys where "cursor_entry s q = Some e" "contents s (iTree c) = xs @ e # ys" by (rule cursor_at [OF a False])
  then show ?thesis using False by simp
qed (simp add: cursor_entry_def)

lemma reach_scan:
  assumes "rb_reach s" "cursors s q = Some c" "length (contents s (iTree c)) \<le> fuel"
  shows "scan fuel s q = Some (contents s (iTree c)) \<and> sorted_wrt (<) (map fst (contents s (iTree c))) \<and>
    database s (iTree c) = Some (map_of (contents s (iTree c)))"
proof -
  obtain Ts where ok: "db_ok s Ts" using reach_ok [OF assms(1)] by blast
  obtain t where t: "tbl s (iTree c) = Some t" using cursor_tree [OF ok assms(2)] .
  show ?thesis
    using scan_ok [OF ok assms(2,3)] entries_sorted [OF tree_at(5) [OF ok t]] tree_at(7) [OF ok t] by (simp add: database_contents [OF t])
qed

lemma reach_moveto:
  assumes "rb_reach s" "cursors s q = Some c"
  shows "\<exists>res s'. memRbtreeMoveto s q k = Some (res, s') \<and> rb_reach s' \<and>
    (case map_of (contents s (iTree c)) k of
       Some d \<Rightarrow> res = 0 \<and> cursor_entry s' q = Some (k, d)
     | None \<Rightarrow> (case cursor_entry s' q of
         None \<Rightarrow> contents s (iTree c) = [] \<and> res = -1
       | Some e \<Rightarrow> (\<exists>xs ys. contents s (iTree c) = xs @ e # ys \<and>
           (res = 1 \<and> k < fst e \<and> (xs = [] \<or> fst (last xs) < k) \<or> res = -1 \<and> fst e < k \<and> (ys = [] \<or> k < fst (hd ys))))))"
proof -
  obtain Ts where ok: "db_ok s Ts" using reach_ok [OF assms(1)] by blast
  have q: "q \<noteq> 0" using reach_sound [OF assms(1)] assms(2) by (cases "q = 0") (auto simp: sound_def)
  obtain t where t: "tbl s (iTree c) = Some t" using cursor_tree [OF ok assms(2)] .
  note tr = tree_at [OF ok t]
  let ?s = "\<lambda>p. set_cursor q (c\<lparr>pNode := p, eSkip := SKIP_NONE\<rparr>) s"
  obtain res p where m: "memRbtreeMoveto s q k = Some (res, ?s p)"
    "(\<exists>ctx l b d r. Ts (iTree c) = plug ctx (Br l p b k d r) \<and> res = 0 \<and> cursor_entry (?s p) q = Some (k, d)) \<or>
     (\<exists>ctx. Ts (iTree c) = plug ctx Lf \<and> p = cpar ctx \<and> res = hole_dir ctx \<and>
          (\<forall>x\<in>set (keys (cleft ctx)). x < k) \<and> (\<forall>x\<in>set (keys (cright ctx)). k < x) \<and>
          cursor_entry (?s p) q = (case ctx of [] \<Rightarrow> None
               | FL a b k d r # _ \<Rightarrow> Some (k, d) | FR l a b k d # _ \<Rightarrow> Some (k, d)))"
    using Moveto_result [OF ok assms(2), of k] unfolding Let_def by blast
  have reach: "rb_reach (?s p)" by (rule rb_reach.step [OF assms(1) client_step.moveto [OF q m(1)]])
  from m(2) have "case map_of (contents s (iTree c)) k of
       Some d \<Rightarrow> res = 0 \<and> cursor_entry (?s p) q = Some (k, d)
     | None \<Rightarrow> (case cursor_entry (?s p) q of
         None \<Rightarrow> contents s (iTree c) = [] \<and> res = -1
       | Some e \<Rightarrow> (\<exists>xs ys. contents s (iTree c) = xs @ e # ys \<and>
           (res = 1 \<and> k < fst e \<and> (xs = [] \<or> fst (last xs) < k) \<or> res = -1 \<and> fst e < k \<and> (ys = [] \<or> k < fst (hd ys)))))"
  proof (elim disjE exE conjE)
    fix ctx l b d r assume T: "Ts (iTree c) = plug ctx (Br l p b k d r)" "res = 0" "cursor_entry (?s p) q = Some (k, d)"
    have "map_of (contents s (iTree c)) k = Some d"
      unfolding tr(7) by (rule map_of_is_SomeI [OF entries_distinct [OF tr(5)]]) (simp add: T(1) nodes_plug)
    then show ?thesis using T by simp
  next
    fix ctx assume T: "Ts (iTree c) = plug ctx Lf" "res = hole_dir ctx" "\<forall>x\<in>set (keys (cleft ctx)). x < k"
      "\<forall>x\<in>set (keys (cright ctx)). k < x" "cursor_entry (?s p) q = (case ctx of [] \<Rightarrow> None
               | FL a b k d r # _ \<Rightarrow> Some (k, d) | FR l a b k d # _ \<Rightarrow> Some (k, d))"
    have con: "contents s (iTree c) = map snd (cleft ctx) @ map snd (cright ctx)" by (simp add: tr(7) T(1) nodes_plug)
    have none: "map_of (contents s (iTree c)) k = None" unfolding map_of_eq_None_iff con using T(3,4) by auto
    show ?thesis
    proof (cases ctx)
      case Nil
      then show ?thesis using none T(2,5) con by (simp add: hole_dir_def)
    next
      case (Cons f c')
      show ?thesis
      proof (cases f)
        case (FL a b k' d' r)
        have "fst (last (map snd (cleft c'))) < k" if "cleft c' \<noteq> []" using T(3) last_in_set [OF that] by (simp add: Cons FL last_map that)
        note hd' = this
        have "\<exists>xs ys. contents s (iTree c) = xs @ (k', d') # ys \<and> k < k' \<and> (xs = [] \<or> fst (last xs) < k)"
          by (rule exI [of _ "map snd (cleft c')"], rule exI [of _ "entries r @ map snd (cright c')"]) (use hd' T(4) con in \<open>auto simp: Cons FL\<close>)
        then show ?thesis using none T(2,5) by (auto simp: Cons FL hole_dir_def)
      next
        case (FR l a b k' d')
        have "k < fst (hd (map snd (cright c')))" if "cright c' \<noteq> []" using T(4) hd_in_set [OF that] by (simp add: Cons FR hd_map that)
        note hd' = this
        have "\<exists>xs ys. contents s (iTree c) = xs @ (k', d') # ys \<and> k' < k \<and> (ys = [] \<or> k < fst (hd ys))"
          by (rule exI [of _ "map snd (cleft c' @ nodes l)"], rule exI [of _ "map snd (cright c')"]) (use hd' T(3) con in \<open>auto simp: Cons FR\<close>)
        then show ?thesis using none T(2,5) by (auto simp: Cons FR hole_dir_def)
      qed
    qed
  qed
  then show ?thesis using m(1) reach by blast
qed

section \<open>Properties\<close>

text \<open>C12: An insertion or replacement through a write cursor succeeds in every reachable state in which no other
  cursor reads the table; it changes exactly that entry of that table, and the cursor is left at it.\<close>

theorem rbt_insert:
  assumes "rb_reach s" "logging s" "cursors s q = Some c" "wrFlag c" "no_readers s q" "database s (iTree c) = Some m"
  shows "\<exists>s'. memRbtreeInsert s q k d = Some (SQLITE_OK, s') \<and> rb_reach s' \<and>
    database s' = (database s)(iTree c \<mapsto> m(k \<mapsto> d)) \<and> read_cursor s' q = Some (k, d)"
proof -
  obtain Ts where ok: "db_ok s Ts" using reach_ok [OF assms(1)] by blast
  have w: "q \<noteq> 0" "writer s q c" using reach_writer [OF assms(1,3,4)] by simp_all
  obtain rc s' where r: "memRbtreeInsert s q k d = Some (rc, s')" "updates s q (iTree c) (m(k \<mapsto> d)) (undo_store (iTree c) k m) rc s'"
    "rc = SQLITE_OK \<longrightarrow> cursor_entry s' q = Some (k, d)"
    using Insert_result [OF ok w(2) logging_not_none [OF assms(2)] assms(6), of k d] by blast
  note u = reach_updates [OF assms(1) r(2) assms(5)]
  show ?thesis
    using rb_reach.step [OF assms(1) client_step.insert [OF w(1) r(1)]] r u read_cursor_entry by auto
qed

lemma demo_no_readers: "no_readers demo_two 1"
  by (rule no_readers_list [OF demo_reach(5) demo_cursor_at(1), where t = "\<lparr>pCursors = [1], pHead = 2\<rparr>"])
    (simp_all add: demo_cursor_at(2))

theorem rbt_insert_witness:
  "\<exists>s'. memRbtreeInsert demo_two 1 ''a'' ''z'' = Some (SQLITE_OK, s') \<and> rb_reach s' \<and>
    database s' = (database demo_two)(2 \<mapsto> (map_of [(''a'', ''b''), (''k'', ''v'')])(''a'' \<mapsto> ''z'')) \<and> read_cursor s' 1 = Some (''a'', ''z'')"
  using rbt_insert [OF demo_reach(5) demo_states(6) demo_cursor_at(1) _ demo_no_readers, of "map_of [(''a'', ''b''), (''k'', ''v'')]" "''a''" "''z''"]
    database_contents [OF demo_cursor_at(2)] demo_states(5) by simp

text \<open>C13: A deletion takes exactly the entry at the cursor out of the table, and the scan goes on without
  skipping or repeating an entry: the next step forward finds the entry behind the deleted one, the next step
  backward the one before it.\<close>

theorem rbt_delete:
  assumes "rb_reach s" "logging s" "cursors s q = Some c" "wrFlag c" "no_readers s q"
    "read_cursor s q = Some (k, d)" "contents s (iTree c) = xs @ (k, d) # ys" "pNode c \<noteq> 0"
  shows "\<exists>s'. memRbtreeDelete s q = Some (SQLITE_OK, s') \<and> rb_reach s' \<and> contents s' (iTree c) = xs @ ys \<and>
    database s' = (database s)(iTree c \<mapsto> (map_of (contents s (iTree c)))(k := None)) \<and>
    (\<exists>s2. memRbtreeNext s' q = Some (if ys = [] then 1 else 0, s2) \<and> (ys \<noteq> [] \<longrightarrow> read_cursor s2 q = Some (hd ys))) \<and>
    (\<exists>s2. memRbtreePrevious s' q = Some (if xs = [] then 1 else 0, s2) \<and> (xs \<noteq> [] \<longrightarrow> read_cursor s2 q = Some (last xs)))"
proof -
  obtain Ts where ok: "db_ok s Ts" using reach_ok [OF assms(1)] by blast
  have w: "q \<noteq> 0" "writer s q c" using reach_writer [OF assms(1,3,4)] by simp_all
  obtain e where e: "cursor_entry s q = Some e" by (rule cursor_at [OF ok assms(3,8)])
  then have e: "cursor_entry s q = Some (k, d)" using read_cursor_entry [OF e] assms(6) by simp
  obtain rc s' Ts' where r: "memRbtreeDelete s q = Some (rc, s')" "db_ok s' Ts'"
    "updates s q (iTree c) ((map_of (contents s (iTree c)))(k := None)) (ROLLBACK_INSERT (iTree c) k d) rc s'"
    "rc = SQLITE_OK \<longrightarrow> contents s' (iTree c) = xs @ ys \<and>
       cursor_entry s' q = fst (after_delete xs ys) \<and> map_option eSkip (cursors s' q) = Some (snd (after_delete xs ys))"
    using Delete_result [OF ok w(2) logging_not_none [OF assms(2)] e assms(7)] by blast
  note u = reach_updates [OF assms(1) r(3) assms(5)]
  have fr: "frame_same s s'" using r(3) by (simp add: updates_def)
  obtain c' where c': "cursors s' q = Some c'" "iTree c' = iTree c" using frame_same_cursor [OF fr assms(3)] by blast
  have s': "contents s' (iTree c') = xs @ ys" "cursor_entry s' q = fst (after_delete xs ys)" "eSkip c' = snd (after_delete xs ys)"
    using r(4) u(1) c' by auto
  have z: "pNode c' = 0 \<longleftrightarrow> cursor_entry s' q = None"
    using cursor_set [OF r(2) c'(1)] .
  have skip: "cursor_entry (set_cursor q (c'\<lparr>eSkip := SKIP_NONE\<rparr>) s') q = cursor_entry s' q"
    using c'(1) by (simp add: cursor_entry_def fun_upd_same)
  have nx: "\<exists>s2. memRbtreeNext s' q = Some (if ys = [] then 1 else 0, s2) \<and> (ys \<noteq> [] \<longrightarrow> read_cursor s2 q = Some (hd ys))"
  proof (cases ys)
    case Nil
    show ?thesis
    proof (cases "xs = []")
      case True
      then show ?thesis using Next_skip [OF c'(1)] z s'(2) Nil by (simp add: after_delete_def)
    next
      case False
      have "contents s' (iTree c') = butlast xs @ last xs # []" using s'(1) Nil False by simp
      from Next_result [OF r(2) c'(1) _ this] show ?thesis using s'(2,3) Nil False by (simp add: after_delete_def) blast
    qed
  next
    case (Cons y zs)
    then have "pNode c' \<noteq> 0" "eSkip c' = SKIP_NEXT" using z s'(2,3) by (simp_all add: after_delete_def)
    then show ?thesis using Next_skip [OF c'(1)] Cons s'(2) skip read_cursor_entry by (simp add: after_delete_def)
  qed
  have pv: "\<exists>s2. memRbtreePrevious s' q = Some (if xs = [] then 1 else 0, s2) \<and> (xs \<noteq> [] \<longrightarrow> read_cursor s2 q = Some (last xs))"
  proof (cases ys)
    case Nil
    then have "pNode c' = 0 \<longleftrightarrow> xs = []" "eSkip c' = SKIP_PREV" using z s'(2,3) by (simp_all add: after_delete_def)
    then show ?thesis using Previous_skip [OF c'(1)] Nil s'(2) skip read_cursor_entry by (simp add: after_delete_def)
  next
    case (Cons y zs)
    then have y: "cursor_entry s' q = Some y" "contents s' (iTree c') = xs @ y # zs" "eSkip c' \<noteq> SKIP_PREV"
      using s' by (simp_all add: after_delete_def)
    show ?thesis using Previous_result [OF r(2) c'(1) y] read_cursor_entry [of _ q "last xs"] by (cases "xs = []") auto
  qed
  show ?thesis
    using rb_reach.step [OF assms(1) client_step.delete [OF w(1) r(1)]] r(1) u nx pv s'(1) c'(2) by simp
qed

theorem rbt_delete_witness:
  "\<exists>s'. memRbtreeDelete demo_two 1 = Some (SQLITE_OK, s') \<and> contents s' 2 = [(''k'', ''v'')] \<and>
    (\<exists>s2. memRbtreeNext s' 1 = Some (0, s2) \<and> read_cursor s2 1 = Some (''k'', ''v''))"
  using rbt_delete [OF demo_reach(5) demo_states(6) demo_cursor_at(1) _ demo_no_readers demo_cursor_at(3), of "[]" "[(''k'', ''v'')]"]
  by (auto simp: demo_states)

text \<open>C16: Reading a table from its first entry on delivers its entries in strictly ascending key order, each once.\<close>

theorem rbt_scan:
  assumes "rb_reach s" "cursors s q = Some c" "length (contents s (iTree c)) \<le> fuel"
  shows "scan fuel s q = Some (contents s (iTree c)) \<and> sorted_wrt (<) (map fst (contents s (iTree c))) \<and>
    database s (iTree c) = Some (map_of (contents s (iTree c)))"
  by (rule reach_scan [OF assms])

theorem rbt_scan_witness:
  "scan 2 demo_two 1 = Some [(''a'', ''b''), (''k'', ''v'')] \<and> sorted_wrt (<) [''a'', ''k'']"
  using rbt_scan [OF demo_reach(5) demo_cursor_at(1), of 2] by (simp add: demo_states)

text \<open>C17: A search ends at the entry with the key and reports 0, or next to where the key belongs: at the
  smallest larger entry with a positive or the largest smaller entry with a negative result, and nowhere only if the table is empty.\<close>

theorem rbt_moveto:
  assumes "rb_reach s" "cursors s q = Some c"
  shows "\<exists>res s'. memRbtreeMoveto s q k = Some (res, s') \<and> rb_reach s' \<and>
    (case map_of (contents s (iTree c)) k of
       Some d \<Rightarrow> res = 0 \<and> cursor_entry s' q = Some (k, d)
     | None \<Rightarrow> (case cursor_entry s' q of
         None \<Rightarrow> contents s (iTree c) = [] \<and> res = -1
       | Some e \<Rightarrow> (\<exists>xs ys. contents s (iTree c) = xs @ e # ys \<and>
           (res = 1 \<and> k < fst e \<and> (xs = [] \<or> fst (last xs) < k) \<or> res = -1 \<and> fst e < k \<and> (ys = [] \<or> k < fst (hd ys))))))"
  by (rule reach_moveto [OF assms])

theorem rbt_moveto_witness:
  "\<exists>res s'. memRbtreeMoveto demo_two 1 ''k'' = Some (res, s') \<and> res = 0 \<and> cursor_entry s' 1 = Some (''k'', ''v'')"
  using rbt_moveto [OF demo_reach(5) demo_cursor_at(1), of "''k''"] by (auto simp: demo_states)


definition demo_closed :: rbt_db where
  "demo_closed = snd (the (memRbtreeCloseCursor demo_two 1))"

lemma demo_close: "memRbtreeCloseCursor demo_two 1 = Some (SQLITE_OK, demo_closed)"
  unfolding demo_closed_def by (rule result_of) code_simp

lemma demo_closed_reach: "client_step demo_two demo_closed" "rb_reach demo_closed" "cursors demo_closed = Map.empty"
proof -
  show 1: "client_step demo_two demo_closed" using client_step.close [OF _ demo_close] by simp
  show 2: "rb_reach demo_closed" by (rule rb_reach.step [OF demo_reach(5) 1])
  have "\<forall>(n, t)\<in>set (tblHash demo_closed). pCursors t = []" by code_simp
  then show "cursors demo_closed = Map.empty" by (rule no_cursors_list [OF 2])
qed


text \<open>C14: With working memory and no cursor open, the rollback of a checkpoint restores the tables and entries of its
  beginning, whatever the client did in between (short of emptying a table under a positioned cursor),
  and leaves the transaction open.\<close>

theorem rbt_rollback_ckpt:
  assumes "rb_reach s0" "memRbtreeBeginCkpt s0 = Some (SQLITE_OK, s1)"
    "(\<lambda>s s'. client_step s s' \<and> eTransState s' = TRANS_INCHECKPOINT)\<^sup>*\<^sup>* s1 s" "cursors s = Map.empty"
  shows "\<exists>s'. memRbtreeRollbackCkpt s = Some s' \<and> database s' = database s0 \<and> rb_reach s' \<and> eTransState s' = TRANS_INTRANSACTION"
proof -
  have n: "eTransState s0 = TRANS_INTRANSACTION"
    using assms(2) by (cases "eTransState s0 = TRANS_INTRANSACTION") (simp_all add: memRbtreeBeginCkpt_def)
  then obtain D0 D1 where "in_trans D0 D1 s0" using reach_state [OF assms(1)] by (auto simp: idle_def)
  then have s1: "in_trans D0 (database s0) s1" "eTransState s1 = TRANS_INCHECKPOINT"
    using in_trans_begin_ckpt [OF _ assms(2)] by auto
  have "in_trans D0 (database s0) s \<and> eTransState s = TRANS_INCHECKPOINT \<and> rb_reach s"
    using assms(3)
  proof (induction rule: rtranclp_induct)
    case base
    then show ?case using s1 rb_reach.step [OF assms(1) client_step.ckpt [OF assms(2)]] by blast
  next
    case (step y z)
    then show ?case using client_step_in_trans [of y z D0 "database s0"] rb_reach.step by auto
  qed
  then have i: "in_trans D0 (database s0) s" and st: "eTransState s = TRANS_INCHECKPOINT" and r: "rb_reach s" by simp_all
  obtain s' where s': "memRbtreeRollbackCkpt s = Some s'" "database s' = database s0" "in_trans D0 (database s0) s'"
    using in_trans_rollback_ckpt [OF i assms(4) st] by blast
  have "eTransState s' = TRANS_INTRANSACTION"
    using s'(1) st by (auto simp: memRbtreeRollbackCkpt_def split: bind_splits)
  then show ?thesis using s' rb_reach.step [OF r client_step.rollback_ckpt [OF assms(4) s'(1)]] by blast
qed

definition demo_ckpt :: rbt_db where
  "demo_ckpt = snd (the (memRbtreeBeginCkpt demo_closed))"

definition demo_dropped :: rbt_db where
  "demo_dropped = snd (the (memRbtreeDropTable demo_ckpt 2))"

lemma demo_ckpt_steps:
  "memRbtreeBeginCkpt demo_closed = Some (SQLITE_OK, demo_ckpt)" "memRbtreeDropTable demo_ckpt 2 = Some (SQLITE_OK, demo_dropped)"
  unfolding demo_ckpt_def demo_dropped_def by (rule result_of, code_simp)+

theorem rbt_rollback_ckpt_witness:
  "\<exists>s'. memRbtreeRollbackCkpt demo_dropped = Some s' \<and> database s' = database demo_closed \<and> map fst (tblHash demo_dropped) = []"
proof -
  have 1: "client_step demo_closed demo_ckpt" by (rule client_step.ckpt [OF demo_ckpt_steps(1)])
  have r: "rb_reach demo_ckpt" by (rule rb_reach.step [OF demo_closed_reach(2) 1])
  have "\<forall>(n, t)\<in>set (tblHash demo_ckpt). pCursors t = []" by code_simp
  then have e: "cursors demo_ckpt = Map.empty" by (rule no_cursors_list [OF r])
  then have 2: "client_step demo_ckpt demo_dropped"
    by (intro client_step.drop [OF demo_ckpt_steps(2)]) (simp add: unused_def)
  have "\<forall>(n, t)\<in>set (tblHash demo_dropped). pCursors t = []" by code_simp
  then have e': "cursors demo_dropped = Map.empty" by (rule no_cursors_list [OF rb_reach.step [OF r 2]])
  have "eTransState demo_dropped = TRANS_INCHECKPOINT" by code_simp
  then have star: "(\<lambda>s s'. client_step s s' \<and> eTransState s' = TRANS_INCHECKPOINT)\<^sup>*\<^sup>* demo_ckpt demo_dropped"
    using 2 by (intro r_into_rtranclp conjI)
  have "map fst (tblHash demo_dropped) = []" by code_simp
  then show ?thesis
    using rbt_rollback_ckpt [OF demo_closed_reach(2) demo_ckpt_steps(1) star e'] by (simp only:) blast
qed

text \<open>C18: While another cursor reads the table, an insertion and a deletion are refused with SQLITE_LOCKED; neither
  the database nor a rollback log changes.\<close>

theorem rbt_locked:
  assumes "rb_reach s" "logging s" "cursors s q = Some c" "wrFlag c" "cursors s p = Some r" "p \<noteq> q" "iTree r = iTree c" "\<not> wrFlag r"
  shows "(\<exists>s'. memRbtreeInsert s q k d = Some (SQLITE_LOCKED, s') \<and> database s' = database s \<and> same_logs s s' \<and> rb_reach s') \<and>
    (\<exists>s'. memRbtreeDelete s q = Some (SQLITE_LOCKED, s') \<and> database s' = database s \<and> same_logs s s' \<and> rb_reach s')"
proof -
  obtain Ts where ok: "db_ok s Ts" using reach_ok [OF assms(1)] by blast
  have w: "q \<noteq> 0" "writer s q c" using reach_writer [OF assms(1,3,4)] by simp_all
  have nr: "\<not> no_readers s q" using assms(3,5-8) by (auto simp: no_readers_def)
  obtain rc cs where l: "checkReadLocks s q = Some (rc, s\<lparr>cursors := cs\<rparr>)" "rc = SQLITE_OK \<or> rc = SQLITE_LOCKED" "rc = SQLITE_OK \<longleftrightarrow> no_readers s q"
    "\<forall>p. map_option (\<lambda>c. (iTree c, wrFlag c)) (cs p) = map_option (\<lambda>c. (iTree c, wrFlag c)) (cursors s p)"
    using checkReadLocks_result [OF ok w(2)] by blast
  note co = cursors_only [OF l(4)]
  have i: "memRbtreeInsert s q k d = Some (SQLITE_LOCKED, s\<lparr>cursors := cs\<rparr>)"
    and d: "memRbtreeDelete s q = Some (SQLITE_LOCKED, s\<lparr>cursors := cs\<rparr>)"
    using l(1-3) nr logging_not_none [OF assms(2)] by (auto simp: memRbtreeInsert_def memRbtreeDelete_def assertion_def)
  show ?thesis
    using i d co(1) rb_reach.step [OF assms(1) client_step.insert [OF w(1) i]] rb_reach.step [OF assms(1) client_step.delete [OF w(1) d]] by simp
qed

theorem rbt_locked_witness:
  "\<exists>s'. memRbtreeInsert demo_reader 1 ''x'' ''y'' = Some (SQLITE_LOCKED, s') \<and> database s' = database demo_reader"
proof -
  have c: "cursors demo_reader 1 = Some \<lparr>iTree = 2, pNode = 3, eSkip = SKIP_NONE, wrFlag = True\<rparr>"
    "cursors demo_reader 4 = Some \<lparr>iTree = 2, pNode = 0, eSkip = SKIP_NONE, wrFlag = False\<rparr>" "logging demo_reader"
    by code_simp+
  show ?thesis using rbt_locked [OF demo_reach(6) c(3) c(1) _ c(2), of "''x''" "''y''"] by auto
qed

text \<open>C7: Every reachable state holds red-black trees: each table is a search tree in key order without a red node above
  a red one and with as many black nodes on every way down, and a search looks at no more than twice the
  binary logarithm of its size plus one nodes.\<close>

theorem rbt_balanced:
  assumes "rb_reach s" "tbl s n = Some t"
  shows "\<exists>T. holds (heap s) T \<and> root T = pHead t \<and> rbinv T \<and> black T \<and> entries T = contents s n \<and>
    sorted_wrt (<) (map fst (contents s n)) \<and> 2 ^ (depth (next_ptr s) (heap s) (pHead t) div 2) \<le> length (contents s n) + 1"
proof -
  obtain Ts where ok: "db_ok s Ts" using reach_ok [OF assms(1)] by blast
  show ?thesis
    using tree_at [OF ok assms(2)] depth_bound [OF ok assms(2)] entries_sorted by (intro exI [of _ "Ts n"]) simp
qed

theorem rbt_balanced_witness:
  "\<exists>T. holds (heap demo_two) T \<and> root T = 2 \<and> rbinv T \<and> entries T = [(''a'', ''b''), (''k'', ''v'')]"
  using rbt_balanced [OF demo_reach(5) demo_cursor_at(2)] by (auto simp: demo_states)

text \<open>C15: With an allocator that may fail at any moment, an insertion follows no bad pointer and keeps the trees and the
  cursors intact. With \<open>SQLITE_OK\<close> the entry is stored, with \<open>SQLITE_LOCKED\<close> the database is unchanged;
  \<open>SQLITE_NOMEM\<close> comes only from a failed allocation and leaves open which of the two it is, as the
  examples show.\<close>

theorem rbt_insert_nomem:
  assumes "db_ok s Ts" "writer s q c" "logging s" "database s (iTree c) = Some m"
  shows "\<exists>rc s' Ts'. memRbtreeInsert s q k d = Some (rc, s') \<and> db_ok s' Ts' \<and> rc \<in> {SQLITE_OK, SQLITE_LOCKED, SQLITE_NOMEM} \<and>
    (rc = SQLITE_OK \<longrightarrow> database s' = (database s)(iTree c \<mapsto> m(k \<mapsto> d))) \<and>
    (rc = SQLITE_LOCKED \<longrightarrow> database s' = database s) \<and>
    (rc = SQLITE_NOMEM \<longrightarrow> \<not> mem_ok s \<and> database s' \<in> {database s, (database s)(iTree c \<mapsto> m(k \<mapsto> d))})"
  using Insert_result [OF assms(1,2) logging_not_none [OF assms(3)] assms(4), of k d] by (auto simp: updates_def)

lemma demo_nomem:
  "map_option (\<lambda>(rc, s). (rc, contents s 2)) (memRbtreeInsert (demo_two\<lparr>mallocs := [True, False]\<rparr>) 1 ''x'' ''y'') =
     Some (SQLITE_NOMEM, [(''a'', ''b''), (''k'', ''v'')])"
  "map_option (\<lambda>(rc, s). (rc, contents s 2)) (memRbtreeInsert (demo_two\<lparr>mallocs := [True, True, True, False]\<rparr>) 1 ''x'' ''y'') =
     Some (SQLITE_NOMEM, [(''a'', ''b''), (''k'', ''v''), (''x'', ''y'')])"
  by code_simp+

theorem rbt_insert_nomem_witness:
  "(\<exists>s'. memRbtreeInsert (demo_two\<lparr>mallocs := [True, False]\<rparr>) 1 ''x'' ''y'' = Some (SQLITE_NOMEM, s') \<and> db_inv s' \<and>
     contents s' 2 = [(''a'', ''b''), (''k'', ''v'')]) \<and>
   (\<exists>s'. memRbtreeInsert (demo_two\<lparr>mallocs := [True, True, True, False]\<rparr>) 1 ''x'' ''y'' = Some (SQLITE_NOMEM, s') \<and> db_inv s' \<and>
     contents s' 2 = [(''a'', ''b''), (''k'', ''v''), (''x'', ''y'')])"
proof -
  have inv: "\<exists>rc s'. memRbtreeInsert (demo_two\<lparr>mallocs := ms\<rparr>) 1 ''x'' ''y'' = Some (rc, s') \<and> db_inv s'" for ms
  proof -
    let ?s = "demo_two\<lparr>mallocs := ms\<rparr>"
    obtain Ts where "db_ok demo_two Ts" using reach_ok [OF demo_reach(5)] by blast
    then have ok: "db_ok ?s Ts" using db_ok_cong [of ?s demo_two Ts] by simp
    have db: "database ?s = database demo_two" by (rule ext) (rule database_cong; simp)
    have w: "writer ?s 1 \<lparr>iTree = 2, pNode = 3, eSkip = SKIP_NONE, wrFlag = True\<rparr>"
      using reach_writer [OF demo_reach(5) demo_cursor_at(1)] by (simp add: writer_def)
    have l: "logging ?s" using demo_states(6) by (simp add: logging_def)
    have m: "database ?s (iTree \<lparr>iTree = 2, pNode = 3, eSkip = SKIP_NONE, wrFlag = True\<rparr>) = Some (map_of [(''a'', ''b''), (''k'', ''v'')])"
      unfolding db using database_contents [OF demo_cursor_at(2)] by (simp add: demo_states)
    show ?thesis using rbt_insert_nomem [OF ok w l m, of "''x''" "''y''"] unfolding db_inv_def by blast
  qed
  obtain rc s1 where s1: "memRbtreeInsert (demo_two\<lparr>mallocs := [True, False]\<rparr>) 1 ''x'' ''y'' = Some (rc, s1)" "db_inv s1"
    using inv by blast
  obtain rc' s2 where s2: "memRbtreeInsert (demo_two\<lparr>mallocs := [True, True, True, False]\<rparr>) 1 ''x'' ''y'' = Some (rc', s2)" "db_inv s2"
    using inv by blast
  have "rc = SQLITE_NOMEM \<and> contents s1 2 = [(''a'', ''b''), (''k'', ''v'')]"
    using demo_nomem(1) unfolding s1(1) option.map(2) prod.case by (simp only: option.inject prod.inject)
  moreover have "rc' = SQLITE_NOMEM \<and> contents s2 2 = [(''a'', ''b''), (''k'', ''v''), (''x'', ''y'')]"
    using demo_nomem(2) unfolding s2(1) option.map(2) prod.case by (simp only: option.inject prod.inject)
  ultimately show ?thesis using s1 s2 by blast
qed

lemma dom_database: "dom (database s) = fst ` set (tblHash s)"
  unfolding dom_map_of_conv_image_fst [symmetric] by (auto simp: database_def dom_def split: option.splits)

lemma close_tables_ok:
  assumes "\<exists>Ts. db_ok s Ts" "cursors s = Map.empty" "card (dom (database s)) \<le> fuel"
  shows "\<exists>s'. close_tables fuel s = Some s' \<and> tblHash s' = []"
  using assms
proof (induction fuel arbitrary: s)
  case 0
  then have "tblHash s = []" by (simp add: dom_database)
  then show ?case by simp
next
  case (Suc fuel)
  show ?case
  proof (cases "tblHash s")
    case Nil
    then show ?thesis by simp
  next
    case (Cons nt rest)
    obtain n t where nt: "nt = (n, t)" by fastforce
    let ?s = "s\<lparr>eTransState := TRANS_ROLLBACK\<rparr>"
    obtain Ts where "db_ok s Ts" using Suc.prems(1) by blast
    then have ok: "db_ok ?s Ts" using db_ok_cong [of ?s s Ts] by simp
    have t: "tbl ?s n = Some t" by (simp add: Cons nt)
    have un: "unused ?s n" "log_ready ?s" using Suc.prems(2) by (simp_all add: unused_def log_ready_def)
    obtain s' Ts' where d: "memRbtreeDropTable ?s n = Some (SQLITE_OK, s')" "db_ok s' Ts'" "database s' = (database ?s)(n := None)" "cursors s' = cursors ?s"
      using DropTable_result [OF ok t un] by blast
    have "n \<in> dom (database s)" by (simp add: dom_database Cons nt)
    then have "card (dom (database s')) \<le> fuel" using d(3) Suc.prems(3) by (simp add: dom_database)
    note card = this
    have "\<exists>Ts. db_ok s' Ts" "cursors s' = Map.empty" using d(2,4) Suc.prems(2) by (blast, simp)
    then have "\<exists>s''. close_tables fuel s' = Some s'' \<and> tblHash s'' = []" using Suc.IH card by blast
    then show ?thesis using d(1) by (simp add: Cons nt)
  qed
qed

text \<open>C19: Closing the library frees every table, however many there are, when no cursor is open.\<close>

theorem rbt_close:
  assumes "rb_reach s" "cursors s = Map.empty"
  shows "\<exists>s'. memRbtreeClose s = Some s' \<and> tblHash s' = []"
proof -
  let ?s = "memRbtreeCommit s"
  have "\<exists>Ts. db_ok ?s Ts" using commit_idle [OF reach_sound [OF assms(1)]] by (simp add: sound_def)
  moreover have "cursors ?s = Map.empty" "tblHash ?s = tblHash s" using assms(2) by (simp_all add: memRbtreeCommit_def)
  moreover have "card (dom (database ?s)) \<le> length (tblHash s)"
    unfolding dom_database using card_image_le [of "set (tblHash ?s)" fst] card_length [of "tblHash ?s"] by (simp add: memRbtreeCommit_def)
  ultimately show ?thesis using close_tables_ok [of ?s "length (tblHash s)"] by (simp add: memRbtreeClose_def)
qed

theorem rbt_close_witness: "\<exists>s'. memRbtreeClose demo_closed = Some s' \<and> tblHash s' = []"
  using rbt_close [OF demo_closed_reach(2,3)] .

section \<open>What the code does not guard against\<close>

text \<open>A rollback while a cursor still reads a table leaves that table as it is, without an error: every entry of
  the log is refused by the lock check, and its result is ignored.\<close>

theorem rbt_rollback_reader:
  "map_option (\<lambda>s. (contents s 2, eTransState s)) (memRbtreeRollback demo_reader) = Some ([(''a'', ''b''), (''k'', ''v'')], TRANS_NONE) \<and>
   contents demo_open 2 = []"
  by code_simp

text \<open>Emptying a table under a cursor leaves the cursor at a freed node: reading through it afterwards follows a
  dangling pointer.\<close>

theorem rbt_clear_dangling:
  "map_option (\<lambda>(rc, s). (rc, memRbtreeKeySize s 1)) (memRbtreeClearTable demo_two 2) = Some (SQLITE_OK, None)"
  by code_simp

text \<open>When the allocation of the log entry of an insertion fails, the entry stays in the table and a rollback does not
  take it out.\<close>

theorem rbt_nomem_not_rolled_back:
  "map_option fst (memRbtreeInsert (demo_two\<lparr>mallocs := [True, True, True, False]\<rparr>) 1 ''x'' ''y'') = Some SQLITE_NOMEM \<and>
   map_option (\<lambda>s. contents s 2) (do { (rc, s) \<leftarrow> memRbtreeInsert (demo_two\<lparr>mallocs := [True, True, True, False]\<rparr>) 1 ''x'' ''y'';
     (rc, s) \<leftarrow> memRbtreeCloseCursor s 1; memRbtreeRollback s }) = Some [(''x'', ''y'')]"
  by code_simp

section \<open>A table as a keyed store\<close>

text \<open>A write cursor that may be used: its table is read by no other cursor.\<close>

definition rbt_ready :: "ptr \<Rightarrow> int \<Rightarrow> rbt_db \<Rightarrow> bool" where
  "rbt_ready q n s \<longleftrightarrow> rb_reach s \<and> logging s \<and> no_readers s q \<and> (\<exists>c. cursors s q = Some c \<and> iTree c = n \<and> wrFlag c)"

definition rbt_view :: "int \<Rightarrow> rbt_db \<Rightarrow> bytes \<Rightarrow> bytes option" where
  "rbt_view n s = (case database s n of None \<Rightarrow> Map.empty | Some m \<Rightarrow> m)"

definition rbt_put :: "ptr \<Rightarrow> bytes \<Rightarrow> bytes \<Rightarrow> rbt_db \<Rightarrow> rbt_db option" where
  "rbt_put q k d s = do { (rc, s) \<leftarrow> memRbtreeInsert s q k d; assertion (rc = SQLITE_OK); Some s }"

definition rbt_del :: "ptr \<Rightarrow> bytes \<Rightarrow> rbt_db \<Rightarrow> rbt_db option" where
  "rbt_del q k s = do {
     (res, s) \<leftarrow> memRbtreeMoveto s q k;
     if res = 0 then do { (rc, s) \<leftarrow> memRbtreeDelete s q; assertion (rc = SQLITE_OK); Some s } else Some s }"

lemma rbt_readyE:
  assumes "rbt_ready q n s"
  obtains Ts c t where "db_ok s Ts" "cursors s q = Some c" "iTree c = n" "wrFlag c" "q \<noteq> 0" "writer s q c" "tbl s n = Some t"
    "database s n = Some (rbt_view n s)" "eTransState s \<noteq> TRANS_NONE" "rb_reach s" "no_readers s q"
proof -
  obtain c where c: "cursors s q = Some c" "iTree c = n" "wrFlag c" using assms by (auto simp: rbt_ready_def)
  have r: "rb_reach s" "no_readers s q" "eTransState s \<noteq> TRANS_NONE" using assms logging_not_none by (auto simp: rbt_ready_def)
  obtain Ts where ok: "db_ok s Ts" using reach_ok [OF r(1)] by blast
  obtain t where t: "tbl s n = Some t" using cursor_tree [OF ok c(1)] c(2) by blast
  have "database s n = Some (rbt_view n s)" by (simp add: rbt_view_def database_contents [OF t])
  then show thesis using that [OF ok c _ _ t _ r(3,1,2)] reach_writer [OF r(1) c(1,3)] by simp
qed

lemma rbt_ready_frame:
  assumes "rbt_ready q n s" "frame_same s s'" "rb_reach s'"
  shows "rbt_ready q n s'"
proof -
  have "logging s'" using assms(1,2) by (simp add: rbt_ready_def logging_def frame_same_def)
  moreover have "no_readers s' q" using assms(1) no_readers_frame [OF assms(2)] by (simp add: rbt_ready_def)
  ultimately show ?thesis using assms frame_same_cursor [OF assms(2)] unfolding rbt_ready_def by metis
qed

lemma rbt_put_view:
  assumes r: "rbt_ready q n s"
  shows "\<exists>s'. rbt_put q k d s = Some s' \<and> rbt_ready q n s' \<and> rbt_view n s' = (rbt_view n s)(k \<mapsto> d)"
proof (rule rbt_readyE [OF r])
  fix Ts c t assume a: "db_ok s Ts" "cursors s q = Some c" "iTree c = n" "wrFlag c" "q \<noteq> 0" "writer s q c" "tbl s n = Some t"
    "database s n = Some (rbt_view n s)" "eTransState s \<noteq> TRANS_NONE" "rb_reach s" "no_readers s q"
  obtain rc s' where i: "memRbtreeInsert s q k d = Some (rc, s')"
    "updates s q n ((rbt_view n s)(k \<mapsto> d)) (undo_store n k (rbt_view n s)) rc s'"
    using Insert_result [OF a(1,6,9), of "rbt_view n s" k d] a(3,8) by blast
  note u = reach_updates [OF a(10) i(2) a(11)]
  have "rb_reach s'" by (rule rb_reach.step [OF a(10) client_step.insert [OF a(5) i(1)]])
  then have "rbt_ready q n s'" using rbt_ready_frame [OF r] i(2) by (simp add: updates_def)
  moreover have "rbt_view n s' = (rbt_view n s)(k \<mapsto> d)" unfolding rbt_view_def u(2) by (simp only: fun_upd_same option.case)
  ultimately show ?thesis using i(1) u(1) by (simp add: rbt_put_def assertion_def)
qed

lemma rbt_del_view:
  assumes r: "rbt_ready q n s"
  shows "\<exists>s'. rbt_del q k s = Some s' \<and> rbt_ready q n s' \<and> rbt_view n s' = (rbt_view n s)(k := None)"
proof (rule rbt_readyE [OF r])
  fix Ts c t assume a: "db_ok s Ts" "cursors s q = Some c" "iTree c = n" "wrFlag c" "q \<noteq> 0" "writer s q c" "tbl s n = Some t"
    "database s n = Some (rbt_view n s)" "eTransState s \<noteq> TRANS_NONE" "rb_reach s" "no_readers s q"
  have v: "rbt_view n s = map_of (contents s n)" using a(8) database_contents [OF a(7)] by simp
  obtain res s1 where m: "memRbtreeMoveto s q k = Some (res, s1)" "rb_reach s1"
    "case rbt_view n s k of Some d \<Rightarrow> res = 0 \<and> cursor_entry s1 q = Some (k, d)
     | None \<Rightarrow> res \<noteq> 0"
    using reach_moveto [OF a(10,2), of k] unfolding a(3) v by (auto split: option.splits)
  obtain c1 where c1: "s1 = set_cursor q c1 s" "iTree c1 = n" "wrFlag c1" "db_ok s1 Ts"
    using moves_total(5) [OF a(1,2), of k] m(1) a(3,4) by (auto simp: moved_def)
  have fr: "frame_same s s1" unfolding c1(1) by (rule frame_set_cursor [OF a(2)]) (use c1 a in simp_all)
  have r1: "rbt_ready q n s1" by (rule rbt_ready_frame [OF r fr m(2)])
  have v1: "rbt_view n s1 = rbt_view n s" by (simp add: rbt_view_def c1(1))
  show ?thesis
  proof (cases "rbt_view n s k")
    case None
    then have "(rbt_view n s)(k := None) = rbt_view n s" by (simp only: fun_upd_idem)
    then show ?thesis using None m r1 v1 by (simp add: rbt_del_def)
  next
    case (Some d)
    have w: "writer s1 q c1" "cursors s1 q = Some c1" using reach_writer [OF m(2), of q c1] c1 by (simp_all add: fun_upd_same)
    have e: "cursor_entry s1 q = Some (k, d)" "res = 0" using m(3) Some by simp_all
    have nz: "pNode c1 \<noteq> 0" using e(1) w(2) by (auto simp: cursor_entry_def split: if_splits)
    obtain e' xs ys where xy: "cursor_entry s1 q = Some e'" "contents s1 (iTree c1) = xs @ e' # ys" by (rule cursor_at [OF c1(4) w(2) nz])
    have ee: "e' = (k, d)" using xy(1) e(1) by simp
    have st: "eTransState s1 \<noteq> TRANS_NONE" using a(9) by (simp add: c1(1))
    obtain rc s2 where d: "memRbtreeDelete s1 q = Some (rc, s2)"
      "updates s1 q (iTree c1) ((map_of (contents s1 (iTree c1)))(k := None)) (ROLLBACK_INSERT (iTree c1) k d) rc s2"
      using Delete_result [OF c1(4) w(1) st e(1) xy(2) [unfolded ee]] by blast
    have nr: "no_readers s1 q" using r1 by (simp add: rbt_ready_def)
    note u = reach_updates [OF m(2) d(2) nr]
    have "rb_reach s2" by (rule rb_reach.step [OF m(2) client_step.delete [OF a(5) d(1)]])
    then have "rbt_ready q n s2" using rbt_ready_frame [OF r1] d(2) by (simp add: updates_def)
    moreover have "rbt_view n s2 = (rbt_view n s)(k := None)"
      unfolding rbt_view_def [of n s2] u(2) c1(2) by (simp only: fun_upd_same option.case) (simp add: v c1(1))
    ultimately show ?thesis using m(1) d(1) u(1) e(2) by (simp add: rbt_del_def assertion_def)
  qed
qed

interpretation rbt: map_store "rbt_ready q n" "rbt_view n" "\<lambda>k. k" "\<lambda>_. True" "rbt_put q" "rbt_del q"
  by unfold_locales (erule rbt_put_view, erule rbt_del_view)

text \<open>C6: Any script of stores and removals through a write cursor runs without error and does to the table what it
  does to a finite map; a scan then delivers the entries of that map in strictly ascending order.\<close>

theorem rbt_refines_map:
  assumes "rbt_ready q n s"
  shows "\<exists>s'. run_ops (rbt_put q) (rbt_del q) ops s = Some s' \<and> rbt_view n s' = fold apply_op ops (rbt_view n s) \<and>
    (\<exists>es. scan (length es) s' q = Some es \<and> sorted_wrt (<) (map fst es) \<and> map_of es = rbt_view n s')"
proof -
  obtain s' where s': "run_ops (rbt_put q) (rbt_del q) ops s = Some s'" "rbt_ready q n s'"
    "rbt_view n s' = fold apply_op ops (rbt_view n s)"
    using rbt.run_view [OF assms, of ops] by (auto simp: list_all_iff store_op.map_id0 [unfolded id_def] id_def)
  show ?thesis
  proof (rule rbt_readyE [OF s'(2)])
    fix Ts c t assume a: "cursors s' q = Some c" "iTree c = n" "database s' n = Some (rbt_view n s')" "rb_reach s'"
    have sc: "scan (length (contents s' n)) s' q = Some (contents s' n)" "sorted_wrt (<) (map fst (contents s' n))"
      "map_of (contents s' n) = rbt_view n s'"
      using reach_scan [OF a(4,1), of "length (contents s' n)"] a(2,3) by simp_all
    show ?thesis
      by (rule exI [of _ s'], intro conjI s'(1,3), rule exI [of _ "contents s' n"], intro conjI sc)
  qed
qed

theorem rbt_refines_map_witness:
  "\<exists>s'. run_ops (rbt_put 1) (rbt_del 1) [Put ''b'' ''1'', Put ''a'' ''2'', Del ''b'', Del ''q''] demo_two = Some s' \<and>
    (\<exists>es. scan (length es) s' 1 = Some es \<and> map_of es = [''a'' \<mapsto> ''2'', ''k'' \<mapsto> ''v''])"
proof -
  have r: "rbt_ready 1 2 demo_two"
    using demo_reach(5) demo_states(6) demo_no_readers demo_cursor_at(1) by (simp add: rbt_ready_def)
  have v: "rbt_view 2 demo_two = [''a'' \<mapsto> ''b'', ''k'' \<mapsto> ''v'']"
    using database_contents [OF demo_cursor_at(2)] by (simp add: rbt_view_def demo_states fun_upd_twist)
  have "fold apply_op [Put ''b'' ''1'', Put ''a'' ''2'', Del ''b'', Del ''q''] (rbt_view 2 demo_two) = [''a'' \<mapsto> ''2'', ''k'' \<mapsto> ''v'']"
    by (rule ext) (simp add: v fun_upd_apply)
  then show ?thesis
    using rbt_refines_map [OF r, of "[Put ''b'' ''1'', Put ''a'' ''2'', Del ''b'', Del ''q'']"] by metis
qed

end
