(* ===== verification/Hash.thy ===== *)
theory Hash
  imports Util Store "HOL-Library.Monad_Syntax"
begin

text \<open>
  The hash tables of \<^verbatim>\<open>sqlite/hash.c\<close>: all elements of a table hang in one doubly
  linked list in the heap, in which the elements of a bucket are neighbours; the array of buckets
  holds the first element and the number of elements of each. Addresses are numbers with 0 for
  \<^verbatim>\<open>NULL\<close>; a routine returns \<open>None\<close> where the code would follow a bad pointer,
  index outside the array or fail an assertion. The allocator is the list \<open>mallocs\<close> of the
  outcomes of the next allocations, which succeed when it is used up.
\<close>

section \<open>Keys\<close>

type_synonym ptr = nat

datatype key_class = HASH_INT | HASH_STRING | HASH_BINARY

text \<open>A key: the bytes \<^verbatim>\<open>pKey\<close> points to, which the class \<open>HASH_INT\<close> does not read, and \<^verbatim>\<open>nKey\<close>.\<close>

record hkey =
  pKey :: string
  nKey :: u32

definition intHash :: "hkey \<Rightarrow> u32" where
  "intHash k = nKey k XOR push_bit 8 (nKey k) XOR signed_drop_bit 8 (nKey k)"

definition intCompare :: "hkey \<Rightarrow> hkey \<Rightarrow> int" where
  "intCompare k1 k2 = sint (nKey k2 - nKey k1)"

definition strHash :: "hkey \<Rightarrow> u32" where
  "strHash k = sqliteHashNoCase (pKey k) (sint (nKey k))"

definition strCompare :: "hkey \<Rightarrow> hkey \<Rightarrow> int" where
  "strCompare k1 k2 =
     (if nKey k1 \<noteq> nKey k2 then sint (nKey k2 - nKey k1) else sqliteStrNICmp (pKey k1) (pKey k2) (sint (nKey k1)))"

fun binHash_loop :: "u32 \<Rightarrow> string \<Rightarrow> u32" where
  \<comment> \<open>while( nKey-- > 0 ), with plain characters signed\<close>
  "binHash_loop h [] = h"
| "binHash_loop h (c # z) = binHash_loop (push_bit 3 h XOR h XOR signed_take_bit 7 (of_nat (uchar c))) z"

definition binHash :: "hkey \<Rightarrow> u32" where
  "binHash k = binHash_loop 0 (take (nat (sint (nKey k))) (pKey k)) AND 0x7fffffff"

definition binCompare :: "hkey \<Rightarrow> hkey \<Rightarrow> int" where
  "binCompare k1 k2 =
     (if nKey k1 \<noteq> nKey k2 then sint (nKey k2 - nKey k1) else memcmp (pKey k1) (pKey k2) (nat (sint (nKey k1))))"

fun hashFunction :: "key_class \<Rightarrow> hkey \<Rightarrow> u32" where
  "hashFunction HASH_INT = intHash"
| "hashFunction HASH_STRING = strHash"
| "hashFunction HASH_BINARY = binHash"

fun compareFunction :: "key_class \<Rightarrow> hkey \<Rightarrow> hkey \<Rightarrow> int" where
  "compareFunction HASH_INT = intCompare"
| "compareFunction HASH_STRING = strCompare"
| "compareFunction HASH_BINARY = binCompare"

section \<open>The table\<close>

record hash_elem =
  hnext :: ptr
  hprev :: ptr
  hdata :: ptr
  hkey :: hkey

type_synonym hash_heap = "ptr \<Rightarrow> hash_elem option"

record hash_tab =
  keyClass :: key_class
  copyKey :: bool
  count :: int
  first :: ptr
  htsize :: nat
  ht :: "(int \<times> ptr) list"
  elems :: hash_heap
  fresh :: ptr
  mallocs :: "bool list"

definition assertion :: "bool \<Rightarrow> unit option" where
  "assertion b = (if b then Some () else None)"

definition malloc :: "hash_tab \<Rightarrow> bool \<times> hash_tab" where
  "malloc s = (case mallocs s of [] \<Rightarrow> (True, s) | ok # rest \<Rightarrow> (ok, s\<lparr>mallocs := rest\<rparr>))"

definition elem_at :: "hash_tab \<Rightarrow> ptr \<Rightarrow> hash_elem option" where
  "elem_at s p = (if p = 0 then None else elems s p)"

definition set_elem :: "ptr \<Rightarrow> (hash_elem \<Rightarrow> hash_elem) \<Rightarrow> hash_tab \<Rightarrow> hash_tab option" where
  "set_elem p f s = do { e \<leftarrow> elem_at s p; Some (s\<lparr>elems := (elems s)(p \<mapsto> f e)\<rparr>) }"

definition bucket_at :: "hash_tab \<Rightarrow> nat \<Rightarrow> (int \<times> ptr) option" where
  "bucket_at s h = (if h < length (ht s) then Some (ht s ! h) else None)"

text \<open>The index \<^verbatim>\<open>h & (htsize-1)\<close>.\<close>

definition bucket_index :: "nat \<Rightarrow> u32 \<Rightarrow> nat" where
  "bucket_index sz h = unat (h AND (of_nat sz - 1))"

definition power_of_2 :: "nat \<Rightarrow> bool" where
  \<comment> \<open>(n \& (n-1)) == 0\<close>
  "power_of_2 n \<longleftrightarrow> (of_nat n :: u32) AND (of_nat n - 1) = 0"

definition sqliteHashInit :: "key_class \<Rightarrow> bool \<Rightarrow> hash_tab" where
  "sqliteHashInit class copy = \<lparr>keyClass = class,
     copyKey = (copy \<and> (class = HASH_STRING \<or> class = HASH_BINARY)), count = 0, first = 0, htsize = 0, ht = [],
     elems = Map.empty, fresh = 1, mallocs = []\<rparr>"

partial_function (option) clear_loop :: "hash_tab \<Rightarrow> ptr \<Rightarrow> hash_tab option" where
  \<comment> \<open>while( elem )\<close>
  "clear_loop s elem =
     (if elem = 0 then Some s
      else do { e \<leftarrow> elem_at s elem; clear_loop (s\<lparr>elems := (elems s)(elem := None)\<rparr>) (hnext e) })"

definition sqliteHashClear :: "hash_tab \<Rightarrow> hash_tab option" where
  "sqliteHashClear s = do {
     let elem = first s;
     s \<leftarrow> clear_loop (s\<lparr>first := 0, ht := [], htsize := 0\<rparr>) elem;
     Some (s\<lparr>count := 0\<rparr>) }"

text \<open>
  Linking an element into the list and its bucket, which \<^verbatim>\<open>rehash\<close> and
  \<^verbatim>\<open>sqliteHashInsert\<close> spell out alike: before the first element of the bucket, or at the
  front of the list if the bucket is empty.
\<close>

definition link_elem :: "nat \<Rightarrow> ptr \<Rightarrow> hash_tab \<Rightarrow> hash_tab option" where
  "link_elem h elem s = do {
     (n, x) \<leftarrow> bucket_at s h;
     s \<leftarrow> (if x \<noteq> 0 then do {
            xe \<leftarrow> elem_at s x;
            s \<leftarrow> set_elem elem (\<lambda>e. e\<lparr>hnext := x, hprev := hprev xe\<rparr>) s;
            s \<leftarrow> (if hprev xe \<noteq> 0 then set_elem (hprev xe) (\<lambda>e. e\<lparr>hnext := elem\<rparr>) s
                  else Some (s\<lparr>first := elem\<rparr>));
            set_elem x (\<lambda>e. e\<lparr>hprev := elem\<rparr>) s }
          else do {
            s \<leftarrow> set_elem elem (\<lambda>e. e\<lparr>hnext := first s, hprev := 0\<rparr>) s;
            s \<leftarrow> (if first s \<noteq> 0 then set_elem (first s) (\<lambda>e. e\<lparr>hprev := elem\<rparr>) s else Some s);
            Some (s\<lparr>first := elem\<rparr>) });
     Some (s\<lparr>ht := (ht s)[h := (n + 1, elem)]\<rparr>) }"

partial_function (option) rehash_loop :: "hash_tab \<Rightarrow> ptr \<Rightarrow> hash_tab option" where
  "rehash_loop s elem =
     (if elem = 0 then Some s
      else do {
        e \<leftarrow> elem_at s elem;
        s \<leftarrow> link_elem (bucket_index (htsize s) (hashFunction (keyClass s) (hkey e))) elem s;
        rehash_loop s (hnext e) })"

definition rehash :: "nat \<Rightarrow> hash_tab \<Rightarrow> hash_tab option" where
  "rehash new_size s = do {
     assertion (power_of_2 new_size);
     let (ok, s) = malloc s;
     if \<not> ok then Some s
     else rehash_loop (s\<lparr>ht := replicate new_size (0, 0), htsize := new_size, first := 0\<rparr>) (first s) }"

fun find_loop :: "nat \<Rightarrow> hash_tab \<Rightarrow> ptr \<Rightarrow> hkey \<Rightarrow> ptr option" where
  \<comment> \<open>while( count-- \&\& elem )\<close>
  "find_loop 0 s elem k = Some 0"
| "find_loop (Suc n) s elem k =
     (if elem = 0 then Some 0
      else do {
        e \<leftarrow> elem_at s elem;
        if compareFunction (keyClass s) (hkey e) k = 0 then Some elem else find_loop n s (hnext e) k })"

definition findElementGivenHash :: "hash_tab \<Rightarrow> hkey \<Rightarrow> nat \<Rightarrow> ptr option" where
  "findElementGivenHash s k h =
     (if ht s \<noteq> [] then do {
        (n, chain) \<leftarrow> bucket_at s h;
        assertion (n \<ge> 0);
        find_loop (nat n) s chain k }
      else Some 0)"

definition removeElementGivenHash :: "ptr \<Rightarrow> nat \<Rightarrow> hash_tab \<Rightarrow> hash_tab option" where
  "removeElementGivenHash elem h s = do {
     e \<leftarrow> elem_at s elem;
     s \<leftarrow> (if hprev e \<noteq> 0 then set_elem (hprev e) (\<lambda>p. p\<lparr>hnext := hnext e\<rparr>) s else Some (s\<lparr>first := hnext e\<rparr>));
     s \<leftarrow> (if hnext e \<noteq> 0 then set_elem (hnext e) (\<lambda>n. n\<lparr>hprev := hprev e\<rparr>) s else Some s);
     (n, chain) \<leftarrow> bucket_at s h;
     let chain = (if chain = elem then hnext e else chain);
     let chain = (if n - 1 \<le> 0 then 0 else chain);
     Some (s\<lparr>ht := (ht s)[h := (n - 1, chain)], elems := (elems s)(elem := None), count := count s - 1\<rparr>) }"

definition sqliteHashFind :: "hash_tab \<Rightarrow> hkey \<Rightarrow> ptr option" where
  "sqliteHashFind s k =
     (if ht s = [] then Some 0
      else do {
        assertion (power_of_2 (htsize s));
        elem \<leftarrow> findElementGivenHash s k (bucket_index (htsize s) (hashFunction (keyClass s) k));
        if elem \<noteq> 0 then do { e \<leftarrow> elem_at s elem; Some (hdata e) } else Some 0 })"

text \<open>The insertion of a new element, behind the search.\<close>

definition insert_elem :: "hkey \<Rightarrow> u32 \<Rightarrow> ptr \<Rightarrow> hash_tab \<Rightarrow> (ptr \<times> hash_tab) option" where
  "insert_elem k hraw data s =
     (let (ok, s) = malloc s
      in if \<not> ok then Some (data, s)
         else
           let (ok, s) = (if copyKey s then malloc s else (True, s))
           in if \<not> ok then Some (data, s)
              else do {
                let new_elem = fresh s;
                let s = s\<lparr>elems := (elems s)(new_elem \<mapsto> \<lparr>hnext = 0, hprev = 0, hdata = data, hkey = k\<rparr>),
                          fresh := new_elem + 1, count := count s + 1\<rparr>;
                s \<leftarrow> (if htsize s = 0 then rehash 8 s else Some s);
                if htsize s = 0 then Some (data, s\<lparr>count := 0, elems := (elems s)(new_elem := None)\<rparr>)
                else do {
                  s \<leftarrow> (if count s > int (htsize s) then rehash (htsize s * 2) s else Some s);
                  assertion (power_of_2 (htsize s));
                  s \<leftarrow> link_elem (bucket_index (htsize s) hraw) new_elem s;
                  Some (0, s) } })"

definition sqliteHashInsert :: "hkey \<Rightarrow> ptr \<Rightarrow> hash_tab \<Rightarrow> (ptr \<times> hash_tab) option" where
  "sqliteHashInsert k data s = do {
     let hraw = hashFunction (keyClass s) k;
     assertion (power_of_2 (htsize s));
     let h = bucket_index (htsize s) hraw;
     elem \<leftarrow> findElementGivenHash s k h;
     if elem \<noteq> 0 then do {
       e \<leftarrow> elem_at s elem;
       s \<leftarrow> (if data = 0 then removeElementGivenHash elem h s else set_elem elem (\<lambda>e. e\<lparr>hdata := data\<rparr>) s);
       Some (hdata e, s) }
     else if data = 0 then Some (0, s)
     else insert_elem k hraw data s }"

section \<open>Keys that compare equal\<close>

text \<open>
  The keys a class tells apart: \<open>canon\<close> is the part of a key that counts. A key is well formed
  when \<^verbatim>\<open>nKey\<close> is its number of bytes; a string may end with its terminator and has no
  other, since the comparison of strings stops there and the hash does not.
\<close>

fun canon :: "key_class \<Rightarrow> hkey \<Rightarrow> nat list" where
  "canon HASH_INT k = [unat (nKey k)]"
| "canon HASH_STRING k = map u2l (pKey k)"
| "canon HASH_BINARY k = map uchar (pKey k)"

fun key_ok :: "key_class \<Rightarrow> hkey \<Rightarrow> bool" where
  "key_ok HASH_INT k \<longleftrightarrow> True"
| "key_ok HASH_STRING k \<longleftrightarrow> sint (nKey k) = int (length (pKey k)) \<and> pKey k \<noteq> [] \<and> cstring (butlast (pKey k))"
| "key_ok HASH_BINARY k \<longleftrightarrow> sint (nKey k) = int (length (pKey k))"

lemma memcmp_eq_0: "length a = length b \<Longrightarrow> memcmp a b (length a) = 0 \<longleftrightarrow> a = b"
  by (induction a b rule: list_induct2) auto

lemma map_uchar_eq [simp]: "map uchar a = (map uchar b :: nat list) \<longleftrightarrow> a = b"
  by (intro inj_map_eq_map injI) simp

lemma nKey_length: "sint (nKey a) = int (length (pKey a)) \<Longrightarrow> sint (nKey b) = int (length (pKey b)) \<Longrightarrow>
    nKey a = nKey b \<longleftrightarrow> length (pKey a) = length (pKey b)"
  by (metis of_nat_eq_iff signed_word_eqI)

lemma sint_minus_0: "sint (a - b :: u32) = 0 \<longleftrightarrow> a = b"
  by (simp only: signed_eq_0_iff right_minus_eq)

text \<open>What the tables rely on, whatever the class of their keys.\<close>

locale hash_class =
  fixes ok :: "hkey \<Rightarrow> bool" and rep :: "hkey \<Rightarrow> nat list"
    and compare :: "hkey \<Rightarrow> hkey \<Rightarrow> int" and hash :: "hkey \<Rightarrow> u32"
  assumes compare_0: "ok a \<Longrightarrow> ok b \<Longrightarrow> compare a b = 0 \<longleftrightarrow> rep a = rep b"
    and hash_cong: "ok a \<Longrightarrow> ok b \<Longrightarrow> rep a = rep b \<Longrightarrow> hash a = hash b"
begin

lemma compare_sym: "ok a \<Longrightarrow> ok b \<Longrightarrow> compare a b = 0 \<longleftrightarrow> compare b a = 0"
  using compare_0 [of a b] compare_0 [of b a] by metis

lemma compare_hash: "ok a \<Longrightarrow> ok b \<Longrightarrow> compare a b = 0 \<Longrightarrow> hash a = hash b"
  by (rule hash_cong) (simp_all only: compare_0)

end

lemma compare_canon:
  assumes "key_ok cl a" "key_ok cl b"
  shows "compareFunction cl a b = 0 \<longleftrightarrow> canon cl a = canon cl b"
proof (cases cl)
  case HASH_INT
  have "[unat (nKey a)] = [unat (nKey b)] \<longleftrightarrow> nKey a = nKey b" by (simp only: list.inject word_unat_eq_iff simp_thms)
  then show ?thesis using sint_minus_0 [of "nKey b" "nKey a"]
    by (simp only: HASH_INT compareFunction.simps canon.simps intCompare_def) metis
next
  case HASH_STRING
  have k: "sint (nKey a) = int (length (pKey a))" "sint (nKey b) = int (length (pKey b))" "cstring (butlast (pKey a))"
    using assms HASH_STRING by simp_all
  note n = nKey_length [OF k(1,2)]
  have l: "map u2l (pKey a) = map u2l (pKey b) \<Longrightarrow> length (pKey a) = length (pKey b)" by (rule map_eq_imp_length_eq)
  show ?thesis
  proof (cases "nKey a = nKey b")
    case True
    then have "length (pKey a) = length (pKey b)" by (simp only: n)
    from StrNICmp_0 [OF this k(3)] show ?thesis using True by (simp add: HASH_STRING strCompare_def k(1) [symmetric])
  next
    case False
    have "sint (nKey b - nKey a) \<noteq> 0" using False sint_minus_0 [of "nKey b" "nKey a"] by metis
    moreover have "map u2l (pKey a) \<noteq> map u2l (pKey b)" using False l n by metis
    ultimately show ?thesis using False by (simp add: HASH_STRING strCompare_def)
  qed
next
  case HASH_BINARY
  have k: "sint (nKey a) = int (length (pKey a))" "sint (nKey b) = int (length (pKey b))" using assms HASH_BINARY by simp_all
  note n = nKey_length [OF k]
  show ?thesis
  proof (cases "nKey a = nKey b")
    case True
    then have "length (pKey a) = length (pKey b)" by (simp only: n)
    from memcmp_eq_0 [OF this] show ?thesis using True k by (simp add: HASH_BINARY binCompare_def)
  next
    case False
    have "sint (nKey b - nKey a) \<noteq> 0" using False sint_minus_0 [of "nKey b" "nKey a"] by metis
    moreover have "pKey a \<noteq> pKey b" using False n by metis
    ultimately show ?thesis using False by (simp add: HASH_BINARY binCompare_def)
  qed
qed

lemma hash_canon:
  assumes "key_ok cl a" "key_ok cl b" "canon cl a = canon cl b"
  shows "hashFunction cl a = hashFunction cl b"
proof (cases cl)
  case HASH_STRING
  have "length (pKey a) = length (pKey b)" using assms(3) HASH_STRING by (metis canon.simps(2) length_map)
  then show ?thesis using assms HASH_STRING hashNoCase_loop_cong [of "pKey a" "pKey b" 0]
    by (simp add: strHash_def sqliteHashNoCase_def)
next
  case HASH_BINARY
  then show ?thesis using assms nKey_length [of a b] by (simp add: binHash_def)
next
  case HASH_INT
  then have "nKey a = nKey b" using assms(3) by (simp add: word_unat_eq_iff)
  then show ?thesis by (simp add: HASH_INT intHash_def)
qed

interpretation keys: hash_class "key_ok cl" "canon cl" "compareFunction cl" "hashFunction cl"
  by unfold_locales (fact compare_canon, fact hash_canon)

end
