(* ===== verification/HashInv.thy ===== *)
theory HashInv
  imports Hash
begin

text \<open>
  The shape of a hash table: the elements, in the order of the list, are the concatenation of the
  groups \<open>gs\<close>, one per bucket in use, and the array of buckets holds the length and the first
  element of each group. The lemmas follow a group list through linking, unlinking and rebuilding.
\<close>

section \<open>Doubly linked lists\<close>

fun hd0 :: "ptr list \<Rightarrow> ptr \<Rightarrow> ptr" where
  "hd0 [] n = n"
| "hd0 (p # ps) n = p"

fun last0 :: "ptr \<Rightarrow> ptr list \<Rightarrow> ptr" where
  "last0 p [] = p"
| "last0 p (q # qs) = last0 q qs"

fun dseg :: "hash_heap \<Rightarrow> ptr \<Rightarrow> ptr list \<Rightarrow> ptr \<Rightarrow> bool" where
  "dseg h prv [] nxt \<longleftrightarrow> True"
| "dseg h prv (p # ps) nxt \<longleftrightarrow>
     p \<noteq> 0 \<and> (\<exists>e. h p = Some e \<and> hprev e = prv \<and> hnext e = hd0 ps nxt) \<and> dseg h p ps nxt"

lemma hd0_append [simp]: "hd0 (xs @ ys) n = hd0 xs (hd0 ys n)"
  by (cases xs) auto

lemma last0_append [simp]: "last0 p (xs @ ys) = last0 (last0 p xs) ys"
  by (induction xs arbitrary: p) auto

lemma dseg_append [simp]: "dseg h prv (xs @ ys) nxt \<longleftrightarrow> dseg h prv xs (hd0 ys nxt) \<and> dseg h (last0 prv xs) ys nxt"
  by (induction xs arbitrary: prv) auto

lemma dseg_frame: "dseg h prv xs nxt \<Longrightarrow> (\<And>p. p \<in> set xs \<Longrightarrow> h' p = h p) \<Longrightarrow> dseg h' prv xs nxt"
  by (induction xs arbitrary: prv) auto

lemma dseg_mem: "dseg h prv xs nxt \<Longrightarrow> p \<in> set xs \<Longrightarrow> p \<noteq> 0 \<and> (\<exists>e. h p = Some e)"
  by (induction xs arbitrary: prv) auto

lemma dseg_zero: "dseg h prv xs nxt \<Longrightarrow> 0 \<notin> set xs"
  using dseg_mem by blast

lemma last0_in: "xs \<noteq> [] \<Longrightarrow> last0 p xs \<in> set xs"
  by (induction xs arbitrary: p) fastforce+

lemma last0_0: "0 \<notin> set xs \<Longrightarrow> last0 0 xs = 0 \<longleftrightarrow> xs = []"
  using last0_in [of xs 0] by (metis last0.simps(1))

lemma dseg_left:
  "dseg h prv xs nxt \<Longrightarrow> distinct xs \<Longrightarrow> (\<And>p. p \<in> set xs \<Longrightarrow> p \<noteq> last0 prv xs \<Longrightarrow> h' p = h p) \<Longrightarrow>
    (xs \<noteq> [] \<Longrightarrow> h' (last0 prv xs) = map_option (\<lambda>e. e\<lparr>hnext := nxt'\<rparr>) (h (last0 prv xs))) \<Longrightarrow> dseg h' prv xs nxt'"
proof (induction xs arbitrary: prv)
  case (Cons p ps)
  obtain e where e: "p \<noteq> 0" "h p = Some e" "hprev e = prv" "hnext e = hd0 ps nxt" "dseg h p ps nxt" using Cons.prems(1) by auto
  show ?case
  proof (cases ps)
    case Nil
    then show ?thesis using Cons.prems(4) e by simp
  next
    case (Cons q qs)
    have l: "last0 p ps \<in> set ps" using Cons last0_in by blast
    have "dseg h' p ps nxt'"
    proof (rule Cons.IH [OF e(5)])
      show "distinct ps" using Cons.prems(2) by simp
      show "\<And>a. a \<in> set ps \<Longrightarrow> a \<noteq> last0 p ps \<Longrightarrow> h' a = h a" using Cons.prems(3) by simp
      show "h' (last0 p ps) = map_option (\<lambda>e. e\<lparr>hnext := nxt'\<rparr>) (h (last0 p ps))" using Cons.prems(4) by simp
    qed
    moreover have "h' p = h p" using Cons.prems(2,3) l by fastforce
    ultimately show ?thesis using e Cons by simp
  qed
qed simp

lemma dseg_right:
  "dseg h prv xs nxt \<Longrightarrow> distinct xs \<Longrightarrow> (\<And>p. p \<in> set xs \<Longrightarrow> p \<noteq> hd0 xs nxt \<Longrightarrow> h' p = h p) \<Longrightarrow>
    (xs \<noteq> [] \<Longrightarrow> h' (hd0 xs nxt) = map_option (\<lambda>e. e\<lparr>hprev := prv'\<rparr>) (h (hd0 xs nxt))) \<Longrightarrow> dseg h' prv' xs nxt"
proof (cases xs)
  case (Cons p ps)
  assume a: "dseg h prv xs nxt" "distinct xs" "\<And>p. p \<in> set xs \<Longrightarrow> p \<noteq> hd0 xs nxt \<Longrightarrow> h' p = h p"
    "xs \<noteq> [] \<Longrightarrow> h' (hd0 xs nxt) = map_option (\<lambda>e. e\<lparr>hprev := prv'\<rparr>) (h (hd0 xs nxt))"
  have "dseg h' p ps nxt" by (rule dseg_frame [where h = h]) (use a Cons in auto)
  then show ?thesis using a(1,4) Cons by auto
qed simp

text \<open>Linking an element between two neighbours, and taking one out.\<close>

lemma dseg_insert:
  assumes "dseg h 0 (as @ bs) 0" "distinct (as @ bs)" "p \<notin> set (as @ bs)" "p \<noteq> 0"
    and "h' p = Some e" "hprev e = last0 0 as" "hnext e = hd0 bs 0"
    and "\<And>q. q \<noteq> p \<Longrightarrow> q \<noteq> last0 0 as \<Longrightarrow> q \<noteq> hd0 bs 0 \<Longrightarrow> h' q = h q"
    and "as \<noteq> [] \<Longrightarrow> h' (last0 0 as) = map_option (\<lambda>e. e\<lparr>hnext := p\<rparr>) (h (last0 0 as))"
    and "bs \<noteq> [] \<Longrightarrow> h' (hd0 bs 0) = map_option (\<lambda>e. e\<lparr>hprev := p\<rparr>) (h (hd0 bs 0))"
  shows "dseg h' 0 (as @ p # bs) 0"
proof -
  have z: "0 \<notin> set as" "0 \<notin> set bs" using dseg_zero [OF assms(1)] by auto
  have l: "as \<noteq> [] \<Longrightarrow> last0 0 as \<in> set as" by (rule last0_in)
  have b: "bs \<noteq> [] \<Longrightarrow> hd0 bs 0 \<in> set bs" by (cases bs) auto
  have "dseg h' 0 as p"
  proof (rule dseg_left [where h = h and nxt = "hd0 bs 0"])
    fix q assume q: "q \<in> set as" "q \<noteq> last0 0 as"
    have "q \<noteq> 0" using q z by metis
    then have "q \<noteq> hd0 bs 0" using q assms(2) by (cases bs) auto
    moreover have "q \<noteq> p" using q assms(3) by auto
    ultimately show "h' q = h q" using q assms(8) by metis
  qed (use assms in auto)
  moreover have "dseg h' p bs 0"
  proof (rule dseg_right [where h = h and prv = "last0 0 as"])
    fix q assume q: "q \<in> set bs" "q \<noteq> hd0 bs 0"
    have "q \<noteq> 0" using q z by metis
    then have "q \<noteq> last0 0 as" using q l assms(2) by (cases as) auto
    moreover have "q \<noteq> p" using q assms(3) by auto
    ultimately show "h' q = h q" using q assms(8) by metis
  qed (use assms in auto)
  ultimately show ?thesis using assms by simp
qed

lemma dseg_remove:
  assumes "dseg h 0 (as @ p # bs) 0" "distinct (as @ p # bs)"
    and "\<And>q. q \<noteq> p \<Longrightarrow> q \<noteq> last0 0 as \<Longrightarrow> q \<noteq> hd0 bs 0 \<Longrightarrow> h' q = h q"
    and "as \<noteq> [] \<Longrightarrow> h' (last0 0 as) = map_option (\<lambda>e. e\<lparr>hnext := hd0 bs 0\<rparr>) (h (last0 0 as))"
    and "bs \<noteq> [] \<Longrightarrow> h' (hd0 bs 0) = map_option (\<lambda>e. e\<lparr>hprev := last0 0 as\<rparr>) (h (hd0 bs 0))"
  shows "dseg h' 0 (as @ bs) 0"
proof -
  have z: "0 \<notin> set as" "0 \<notin> set bs" using dseg_zero [OF assms(1)] by auto
  have l: "as \<noteq> [] \<Longrightarrow> last0 0 as \<in> set as" by (rule last0_in)
  have b: "bs \<noteq> [] \<Longrightarrow> hd0 bs 0 \<in> set bs" by (cases bs) auto
  have "dseg h' 0 as (hd0 bs 0)"
  proof (rule dseg_left [where h = h and nxt = p])
    fix q assume q: "q \<in> set as" "q \<noteq> last0 0 as"
    have "q \<noteq> 0" using q z by metis
    then have "q \<noteq> hd0 bs 0" using q assms(2) by (cases bs) auto
    moreover have "q \<noteq> p" using q assms(2) by auto
    ultimately show "h' q = h q" using q assms(3) by metis
  qed (use assms in auto)
  moreover have "dseg h' (last0 0 as) bs 0"
  proof (rule dseg_right [where h = h and prv = p])
    fix q assume q: "q \<in> set bs" "q \<noteq> hd0 bs 0"
    have "q \<noteq> 0" using q z by metis
    then have "q \<noteq> last0 0 as" using q l assms(2) by (cases as) auto
    moreover have "q \<noteq> p" using q assms(2) by auto
    ultimately show "h' q = h q" using q assms(3) by metis
  qed (use assms in auto)
  ultimately show ?thesis by simp
qed

section \<open>Linking and unlinking in a table\<close>

definition payload :: "hash_tab \<Rightarrow> ptr \<Rightarrow> (hkey \<times> ptr) option" where
  "payload s p = map_option (\<lambda>e. (hkey e, hdata e)) (elems s p)"

definition linked :: "hash_tab \<Rightarrow> ptr list \<Rightarrow> bool" where
  "linked s xs \<longleftrightarrow> distinct xs \<and> dseg (elems s) 0 xs 0 \<and> first s = hd0 xs 0"

lemma linked_mem: "linked s xs \<Longrightarrow> p \<in> set xs \<Longrightarrow> p \<noteq> 0 \<and> (\<exists>e. elems s p = Some e)"
  using dseg_mem by (auto simp: linked_def)

definition relinked :: "hash_tab \<Rightarrow> hash_tab \<Rightarrow> bool" where
  "relinked s s' \<longleftrightarrow> keyClass s' = keyClass s \<and> copyKey s' = copyKey s \<and> count s' = count s \<and> htsize s' = htsize s \<and>
     fresh s' = fresh s \<and> mallocs s' = mallocs s \<and> (\<forall>p. payload s' p = payload s p)"

lemma link_elem_ok:
  assumes "linked s (as @ bs)" "p \<notin> set (as @ bs)" "p \<noteq> 0" "elems s p = Some e"
    and h: "h < length (ht s)" "ht s ! h = (n, x)" "x \<noteq> 0 \<Longrightarrow> hd0 bs 0 = x" "x = 0 \<Longrightarrow> as = []"
  shows "\<exists>s'. link_elem h p s = Some s' \<and> linked s' (as @ p # bs) \<and> ht s' = (ht s)[h := (n + 1, p)] \<and> relinked s s' \<and>
    (\<forall>q. q \<notin> set (p # as @ bs) \<longrightarrow> elems s' q = elems s q)"
proof -
  have d: "dseg (elems s) 0 (as @ bs) 0" "distinct (as @ bs)" "first s = hd0 (as @ bs) 0" using assms(1) by (simp_all add: linked_def)
  have z: "0 \<notin> set as" "0 \<notin> set bs" using dseg_zero [OF d(1)] by auto
  show ?thesis
  proof (cases "x = 0")
    case True
    have as: "as = []" using h(4) True .
    define hp where "hp = (elems s)(p \<mapsto> e\<lparr>hnext := hd0 bs 0, hprev := 0\<rparr>)"
    define hp' where "hp' = (if bs = [] then hp else hp(hd0 bs 0 := map_option (\<lambda>e. e\<lparr>hprev := p\<rparr>) (elems s (hd0 bs 0))))"
    have ne: "bs \<noteq> [] \<Longrightarrow> hd0 bs 0 \<noteq> p \<and> hd0 bs 0 \<noteq> 0 \<and> hd0 bs 0 \<in> set bs \<and> (\<exists>b. elems s (hd0 bs 0) = Some b)"
      using assms(2) z d(1) as by (cases bs) auto
    have ne0: "hd0 bs 0 = 0 \<longleftrightarrow> bs = []" using ne by (cases bs) auto
    have run: "link_elem h p s = Some (s\<lparr>elems := hp', first := p, ht := (ht s)[h := (n + 1, p)]\<rparr>)"
      using assms(3,4) h(1,2) True d(3) as ne0 ne
      by (cases "bs = []") (auto simp: link_elem_def bucket_at_def set_elem_def elem_at_def hp_def hp'_def)
    have "dseg hp' 0 (as @ p # bs) 0"
      by (rule dseg_insert [OF d(1,2) assms(2,3), where e = "e\<lparr>hnext := hd0 bs 0, hprev := 0\<rparr>"])
        (use ne as in \<open>auto simp: hp_def hp'_def\<close>)
    moreover have "payload (s\<lparr>elems := hp', first := p, ht := (ht s)[h := (n + 1, p)]\<rparr>) q = payload s q" for q
      using ne assms(4) by (auto simp: payload_def hp_def hp'_def)
    moreover have "q \<notin> set (p # as @ bs) \<Longrightarrow> hp' q = elems s q" for q using ne by (auto simp: hp_def hp'_def)
    ultimately show ?thesis using run d(2) assms(2) as by (simp add: linked_def relinked_def)
  next
    case False
    obtain bs' where bs: "bs = x # bs'" using h(3) [OF False] False by (cases bs) auto
    obtain xe where xe: "elems s x = Some xe" "hprev xe = last0 0 as" using d(1) bs by auto
    have xp: "x \<noteq> p" "x \<notin> set as" using assms(2) d(2) bs by auto
    define l where "l = last0 0 as"
    have ne: "as \<noteq> [] \<Longrightarrow> l \<noteq> p \<and> l \<noteq> 0 \<and> l \<in> set as \<and> l \<noteq> x \<and> (\<exists>b. elems s l = Some b)"
      using last0_in [of as 0] assms(2) z xp dseg_mem [OF d(1), of l] unfolding l_def by fastforce
    have ne0: "l = 0 \<longleftrightarrow> as = []" using last0_0 [OF z(1)] by (simp add: l_def)
    define hp where "hp = (elems s)(p \<mapsto> e\<lparr>hnext := x, hprev := l\<rparr>)"
    define hp1 where "hp1 = (if as = [] then hp else hp(l := map_option (\<lambda>e. e\<lparr>hnext := p\<rparr>) (elems s l)))"
    define hp' where "hp' = hp1(x \<mapsto> xe\<lparr>hprev := p\<rparr>)"
    define f where "f = (if as = [] then p else first s)"
    have run: "link_elem h p s = Some (s\<lparr>elems := hp', first := f, ht := (ht s)[h := (n + 1, p)]\<rparr>)"
      using assms(3,4) h(1,2) False xe ne0 ne xp l_def
      by (cases "as = []") (auto simp: link_elem_def bucket_at_def set_elem_def elem_at_def hp_def hp'_def hp1_def f_def)
    have "dseg hp' 0 (as @ p # bs) 0"
      by (rule dseg_insert [OF d(1,2) assms(2,3), where e = "e\<lparr>hnext := x, hprev := l\<rparr>"])
        (use ne bs xe xp l_def in \<open>auto simp: hp_def hp1_def hp'_def\<close>)
    moreover have "payload (s\<lparr>elems := hp', first := f, ht := (ht s)[h := (n + 1, p)]\<rparr>) q = payload s q" for q
      using ne assms(4) xe by (auto simp: payload_def hp_def hp1_def hp'_def)
    moreover have "q \<notin> set (p # as @ bs) \<Longrightarrow> hp' q = elems s q" for q using ne bs by (auto simp: hp_def hp1_def hp'_def)
    moreover have "f = hd0 (as @ p # bs) 0" using d(3) by (cases as) (auto simp: f_def)
    ultimately show ?thesis using run d(2) assms(2) by (simp add: linked_def relinked_def)
  qed
qed

text \<open>The code reads the neighbours of the element it removes, and then frees it.\<close>

lemma remove_ok:
  assumes "linked s (as @ p # bs)" and h: "h < length (ht s)" "ht s ! h = (n, x)"
  defines "chain \<equiv> if n - 1 \<le> 0 then 0 else if x = p then hd0 bs 0 else x"
  shows "\<exists>s'. removeElementGivenHash p h s = Some s' \<and> linked s' (as @ bs) \<and> ht s' = (ht s)[h := (n - 1, chain)] \<and>
    keyClass s' = keyClass s \<and> copyKey s' = copyKey s \<and> count s' = count s - 1 \<and> htsize s' = htsize s \<and>
    fresh s' = fresh s \<and> mallocs s' = mallocs s \<and> (\<forall>q. payload s' q = (if q = p then None else payload s q))"
proof -
  have d: "dseg (elems s) 0 (as @ p # bs) 0" "distinct (as @ p # bs)" "first s = hd0 as p" using assms(1) by (simp_all add: linked_def)
  have z: "0 \<notin> set as" "0 \<notin> set bs" "p \<noteq> 0" using dseg_zero [OF d(1)] by auto
  obtain e where e: "elems s p = Some e" "hprev e = last0 0 as" "hnext e = hd0 bs 0" using d(1) by auto
  define l where "l = last0 0 as"
  define r where "r = hd0 bs 0"
  have nl: "as \<noteq> [] \<Longrightarrow> l \<noteq> p \<and> l \<noteq> 0 \<and> l \<in> set as \<and> (\<exists>b. elems s l = Some b)"
    using last0_in [of as 0] d(2) z dseg_mem [OF d(1), of l] unfolding l_def by fastforce
  have nr: "bs \<noteq> [] \<Longrightarrow> r \<noteq> p \<and> r \<noteq> 0 \<and> r \<in> set bs \<and> (\<exists>b. elems s r = Some b)"
    using d(2) z dseg_mem [OF d(1), of r] unfolding r_def by (cases bs) auto
  have l0: "l = 0 \<longleftrightarrow> as = []" using last0_0 [OF z(1)] by (simp add: l_def)
  have r0: "r = 0 \<longleftrightarrow> bs = []" using nr by (metis hd0.simps(1) r_def)
  have lr: "as \<noteq> [] \<Longrightarrow> bs \<noteq> [] \<Longrightarrow> l \<noteq> r" using nl nr d(2) by auto
  define h1 where "h1 = (if as = [] then elems s else (elems s)(l := map_option (\<lambda>e. e\<lparr>hnext := r\<rparr>) (elems s l)))"
  define h2 where "h2 = (if bs = [] then h1 else h1(r := map_option (\<lambda>e. e\<lparr>hprev := l\<rparr>) (elems s r)))"
  define f where "f = (if as = [] then r else first s)"
  let ?s = "s\<lparr>elems := h2(p := None), first := f, ht := (ht s)[h := (n - 1, chain)], count := count s - 1\<rparr>"
  have run: "removeElementGivenHash p h s = Some ?s"
    using e h z nl nr l0 r0 lr unfolding l_def [symmetric] r_def [symmetric]
    by (cases "as = []"; cases "bs = []")
      (auto simp: removeElementGivenHash_def bucket_at_def set_elem_def elem_at_def h1_def h2_def f_def chain_def r_def [symmetric])
  have "dseg h2 0 (as @ bs) 0"
    by (rule dseg_remove [OF d(1,2)]) (use nl nr lr in \<open>auto simp: h1_def h2_def l_def [symmetric] r_def [symmetric]\<close>)
  then have "dseg (h2(p := None)) 0 (as @ bs) 0" by (rule dseg_frame) (use d(2) in auto)
  moreover have "f = hd0 (as @ bs) 0" using d(3) by (cases as) (auto simp: f_def r_def)
  moreover have "payload ?s q = (if q = p then None else payload s q)" for q
    using nl nr by (auto simp: payload_def h1_def h2_def)
  ultimately show ?thesis using run d(2) by (simp add: linked_def)
qed

section \<open>Groups\<close>

type_synonym groups = "(nat \<times> ptr list) list"

abbreviation members :: "groups \<Rightarrow> ptr list" where
  "members gs \<equiv> concat (map snd gs)"

definition bucket_entry :: "ptr list option \<Rightarrow> int \<times> ptr" where
  "bucket_entry seg = (case seg of None \<Rightarrow> (0, 0) | Some ps \<Rightarrow> (int (length ps), hd0 ps 0))"

definition grouped :: "(ptr \<Rightarrow> nat) \<Rightarrow> (int \<times> ptr) list \<Rightarrow> groups \<Rightarrow> bool" where
  "grouped b t gs \<longleftrightarrow> distinct (map fst gs) \<and> (\<forall>(i, seg) \<in> set gs. seg \<noteq> [] \<and> i < length t \<and> (\<forall>p \<in> set seg. b p = i)) \<and>
     (\<forall>i < length t. t ! i = bucket_entry (map_of gs i))"

lemma map_of_split:
  assumes "distinct (map fst gs)" "map_of gs i = Some seg"
  obtains g1 g2 where "gs = g1 @ (i, seg) # g2" "\<And>seg'. map_of (g1 @ (i, seg') # g2) = (map_of gs)(i \<mapsto> seg')"
    "map_of (g1 @ g2) = (map_of gs)(i := None)"
proof -
  obtain g1 g2 where g: "gs = g1 @ (i, seg) # g2" using map_of_SomeD [OF assms(2)] by (auto simp: in_set_conv_decomp)
  have n: "map_of g1 i = None" "map_of g2 i = None" using assms(1) by (auto simp: g map_of_eq_None_iff)
  have "map_of (g1 @ (i, seg') # g2) = (map_of gs)(i \<mapsto> seg')" for seg'
    by (rule ext) (simp add: g map_add_def n split: option.split)
  moreover have "map_of (g1 @ g2) = (map_of gs)(i := None)"
    by (rule ext) (simp add: g map_add_def n split: option.split)
  ultimately show thesis using that g by blast
qed

lemma grouped_cong: "grouped b t gs \<Longrightarrow> (\<And>p. p \<in> set (members gs) \<Longrightarrow> b' p = b p) \<Longrightarrow> grouped b' t gs"
  by (fastforce simp: grouped_def)

lemma grouped_add:
  assumes "grouped b t gs" "h < length t" "b p = h" "t ! h = (n, x)" "0 \<notin> set (members gs)"
  shows "\<exists>gs' as bs. members gs = as @ bs \<and> members gs' = as @ p # bs \<and> grouped b (t[h := (n + 1, p)]) gs' \<and>
    (x \<noteq> 0 \<longrightarrow> hd0 bs 0 = x) \<and> (x = 0 \<longrightarrow> as = [])"
proof (cases "map_of gs h")
  case None
  have nx: "(n, x) = (0, 0)" using assms None by (simp add: grouped_def bucket_entry_def)
  have "grouped b (t[h := (n + 1, p)]) ((h, [p]) # gs)"
    using assms None nx by (fastforce simp: grouped_def bucket_entry_def nth_list_update map_of_eq_None_iff)
  then show ?thesis using nx by (intro exI [of _ "(h, [p]) # gs"] exI [of _ "[]"] exI [of _ "members gs"]) simp
next
  case (Some seg)
  have d: "distinct (map fst gs)" using assms(1) by (simp add: grouped_def)
  obtain g1 g2 where g: "gs = g1 @ (h, seg) # g2" "\<And>seg'. map_of (g1 @ (h, seg') # g2) = (map_of gs)(h \<mapsto> seg')"
    using map_of_split [OF d Some] by metis
  have ne: "seg \<noteq> []" using assms(1) by (simp add: grouped_def g)
  have nx: "n = int (length seg)" "x = hd0 seg 0" using assms(1,2,4) Some by (auto simp: grouped_def bucket_entry_def)
  have x0: "x \<noteq> 0" using assms(5) ne by (cases seg) (auto simp: nx g)
  let ?gs = "g1 @ (h, p # seg) # g2"
  have t: "\<forall>i < length (t[h := (n + 1, p)]). t[h := (n + 1, p)] ! i = bucket_entry (map_of ?gs i)"
    using assms(1) g(2) by (simp add: grouped_def nth_list_update bucket_entry_def nx)
  have "grouped b (t[h := (n + 1, p)]) ?gs" using assms(1,3) t unfolding grouped_def g(1) by simp
  then show ?thesis using x0 ne
    by (intro exI [of _ ?gs] exI [of _ "members g1"] exI [of _ "seg @ members g2"]) (cases seg; simp add: g nx)
qed

lemma grouped_remove:
  assumes "grouped b t gs" "h < length t" "t ! h = (n, x)" "map_of gs h = Some seg" "p \<in> set seg" "distinct (members gs)"
  shows "\<exists>gs' as bs. members gs = as @ p # bs \<and> members gs' = as @ bs \<and>
    grouped b (t[h := (n - 1, if n - 1 \<le> 0 then 0 else if x = p then hd0 bs 0 else x)]) gs'"
proof -
  have d: "distinct (map fst gs)" using assms(1) by (simp add: grouped_def)
  obtain g1 g2 where g: "gs = g1 @ (h, seg) # g2" "\<And>seg'. map_of (g1 @ (h, seg') # g2) = (map_of gs)(h \<mapsto> seg')"
    "map_of (g1 @ g2) = (map_of gs)(h := None)"
    using map_of_split [OF d assms(4)] by metis
  obtain s1 s2 where s: "seg = s1 @ p # s2" using assms(5) by (auto simp: in_set_conv_decomp)
  have nx: "n = int (length seg)" "x = hd0 seg 0" using assms(1,2,3,4) by (auto simp: grouped_def bucket_entry_def)
  have dp: "p \<notin> set s1" using assms(6) by (simp add: g s)
  define bs where "bs = s2 @ members g2"
  define t' where "t' = t[h := (n - 1, if n - 1 \<le> 0 then 0 else if x = p then hd0 bs 0 else x)]"
  have m: "members gs = (members g1 @ s1) @ p # bs" by (simp add: g s bs_def)
  show ?thesis
  proof (cases "s1 @ s2 = []")
    case True
    then have "t' = t[h := (0, 0)]" by (simp add: t'_def nx s)
    then have "\<forall>i < length t'. t' ! i = bucket_entry (map_of (g1 @ g2) i)"
      using assms(1) g(3) by (simp add: grouped_def nth_list_update bucket_entry_def)
    then have "grouped b t' (g1 @ g2)" using assms(1) unfolding grouped_def g(1) by (simp add: t'_def)
    then show ?thesis using True m
      by (intro exI [of _ "g1 @ g2"] exI [of _ "members g1"] exI [of _ bs]) (simp add: bs_def t'_def)
  next
    case False
    let ?gs = "g1 @ (h, s1 @ s2) # g2"
    have "t' = t[h := (int (length (s1 @ s2)), hd0 (s1 @ s2) 0)]"
      using False dp by (cases s1; cases s2) (auto simp: t'_def nx s bs_def)
    then have "\<forall>i < length t'. t' ! i = bucket_entry (map_of ?gs i)"
      using assms(1) g(2) by (simp add: grouped_def nth_list_update bucket_entry_def)
    then have "grouped b t' ?gs" using assms(1) False unfolding grouped_def g(1) by (auto simp: t'_def s)
    then show ?thesis using m
      by (intro exI [of _ ?gs] exI [of _ "members g1 @ s1"] exI [of _ bs]) (simp add: bs_def t'_def)
  qed
qed

section \<open>Tables\<close>

definition bucket_of :: "hash_tab \<Rightarrow> ptr \<Rightarrow> nat" where
  "bucket_of s p = (case payload s p of None \<Rightarrow> 0 | Some (k, d) \<Rightarrow> bucket_index (htsize s) (hashFunction (keyClass s) k))"

definition table :: "hash_tab \<Rightarrow> groups \<Rightarrow> bool" where
  "table s gs \<longleftrightarrow> linked s (members gs) \<and> grouped (bucket_of s) (ht s) gs \<and> length (ht s) = htsize s"

lemma bucket_of_cong:
  "keyClass s' = keyClass s \<Longrightarrow> htsize s' = htsize s \<Longrightarrow> (\<And>p. payload s' p = payload s p) \<Longrightarrow> bucket_of s' = bucket_of s"
  by (auto simp: bucket_of_def fun_eq_iff split: option.split)

lemma mask_Suc: "(of_nat (2 ^ k) - 1 :: u32) = mask k"
  by (simp add: mask_eq_exp_minus_1)

lemma bucket_index_less: "bucket_index (2 ^ k) h < 2 ^ k"
proof -
  have "bucket_index (2 ^ k) h = unat (take_bit k h)" by (simp only: bucket_index_def mask_Suc take_bit_eq_mask)
  also have "\<dots> = take_bit k (unat h)" by (simp add: unsigned_take_bit_eq)
  finally show ?thesis by simp
qed

lemma power_of_2_pow: "power_of_2 (2 ^ k)"
proof -
  have "(of_nat (2 ^ k) :: u32) = push_bit k 1" by (simp add: push_bit_eq_mult)
  then show ?thesis unfolding power_of_2_def mask_Suc by (simp only:) (rule bit_eqI, auto simp: bit_simps)
qed

lemma link_table:
  assumes "table s gs" "p \<notin> set (members gs)" "p \<noteq> 0" "elems s p = Some e" "htsize s = 2 ^ k"
  shows "\<exists>s' gs'. link_elem (bucket_index (htsize s) (hashFunction (keyClass s) (hkey e))) p s = Some s' \<and> table s' gs' \<and>
    set (members gs') = insert p (set (members gs)) \<and> relinked s s' \<and>
    (\<forall>q. q \<notin> insert p (set (members gs)) \<longrightarrow> elems s' q = elems s q)"
proof -
  let ?h = "bucket_index (htsize s) (hashFunction (keyClass s) (hkey e))"
  have t: "linked s (members gs)" "grouped (bucket_of s) (ht s) gs" "length (ht s) = htsize s" using assms(1) by (simp_all add: table_def)
  have h: "?h < length (ht s)" using bucket_index_less by (simp add: t(3) assms(5))
  have b: "bucket_of s p = ?h" by (simp add: bucket_of_def payload_def assms(4))
  obtain n x where nx: "ht s ! ?h = (n, x)" by fastforce
  have z: "0 \<notin> set (members gs)" using t(1) dseg_zero unfolding linked_def by blast
  obtain gs' as bs where g: "members gs = as @ bs" "members gs' = as @ p # bs"
    "grouped (bucket_of s) ((ht s)[?h := (n + 1, p)]) gs'" "x \<noteq> 0 \<longrightarrow> hd0 bs 0 = x" "x = 0 \<longrightarrow> as = []"
    using grouped_add [OF t(2) h b nx z] by metis
  obtain s' where s': "link_elem ?h p s = Some s'" "linked s' (as @ p # bs)" "ht s' = (ht s)[?h := (n + 1, p)]" "relinked s s'"
    "\<forall>q. q \<notin> set (p # as @ bs) \<longrightarrow> elems s' q = elems s q"
    using link_elem_ok [of s as bs p e ?h n x] t(1) assms(2,3,4) h nx g(4,5) unfolding g(1) by metis
  have "bucket_of s' = bucket_of s" using s'(4) by (intro bucket_of_cong) (simp_all add: relinked_def)
  then have "table s' gs'" using s' t(3) g(2,3) by (simp add: table_def relinked_def)
  moreover have "set (members gs') = insert p (set (members gs))" by (simp only: g) auto
  moreover have "\<forall>q. q \<notin> insert p (set (members gs)) \<longrightarrow> elems s' q = elems s q" using s'(5) by (simp add: g(1))
  ultimately show ?thesis using s'(1,4) by (intro exI [of _ s'] exI [of _ gs']) simp
qed

lemma relinked_trans: "relinked s1 s2 \<Longrightarrow> relinked s2 s3 \<Longrightarrow> relinked s1 s3"
  by (simp add: relinked_def)

lemma relinked_refl: "relinked s s"
  by (simp add: relinked_def)

text \<open>The loop of \<^verbatim>\<open>rehash\<close> follows the old list by its forward links, which the new list does not touch.\<close>

fun fseg :: "hash_heap \<Rightarrow> ptr list \<Rightarrow> bool" where
  "fseg h [] \<longleftrightarrow> True"
| "fseg h (p # ps) \<longleftrightarrow> p \<noteq> 0 \<and> (\<exists>e. h p = Some e \<and> hnext e = hd0 ps 0) \<and> fseg h ps"

lemma fseg_frame: "fseg h xs \<Longrightarrow> (\<And>p. p \<in> set xs \<Longrightarrow> h' p = h p) \<Longrightarrow> fseg h' xs"
  by (induction xs) auto

lemma dseg_fseg: "dseg h prv xs 0 \<Longrightarrow> fseg h xs"
  by (induction xs arbitrary: prv) auto

lemma rehash_loop_ok:
  "table s gs \<Longrightarrow> htsize s = 2 ^ k \<Longrightarrow> fseg (elems s) ps \<Longrightarrow> distinct ps \<Longrightarrow> set ps \<inter> set (members gs) = {} \<Longrightarrow>
    \<exists>s' gs'. rehash_loop s (hd0 ps 0) = Some s' \<and> table s' gs' \<and> set (members gs') = set ps \<union> set (members gs) \<and> relinked s s'"
proof (induction ps arbitrary: s gs)
  case Nil
  then show ?case by (intro exI [of _ s] exI [of _ gs]) (simp add: rehash_loop.simps relinked_refl)
next
  case (Cons p ps)
  obtain e where e: "p \<noteq> 0" "elems s p = Some e" "hnext e = hd0 ps 0" "fseg (elems s) ps" using Cons.prems(3) by auto
  have np: "p \<notin> set (members gs)" "p \<notin> set ps" using Cons.prems by auto
  obtain s1 gs1 where s1: "link_elem (bucket_index (htsize s) (hashFunction (keyClass s) (hkey e))) p s = Some s1" "table s1 gs1"
    "set (members gs1) = insert p (set (members gs))" "relinked s s1"
    "\<forall>q. q \<notin> insert p (set (members gs)) \<longrightarrow> elems s1 q = elems s q"
    using link_table [OF Cons.prems(1) np(1) e(1,2) Cons.prems(2)] by metis
  have z: "htsize s1 = 2 ^ k" using s1(4) Cons.prems(2) by (simp add: relinked_def)
  have f: "fseg (elems s1) ps" 
  proof (rule fseg_frame [OF e(4)])
    fix q assume "q \<in> set ps"
    then have "q \<notin> insert p (set (members gs))" using Cons.prems(4,5) by auto
    then show "elems s1 q = elems s q" using s1(5) by metis
  qed
  have d: "distinct ps" "set ps \<inter> set (members gs1) = {}" using Cons.prems(4,5) unfolding s1(3) by auto
  obtain s2 gs2 where s2: "rehash_loop s1 (hd0 ps 0) = Some s2" "table s2 gs2" "set (members gs2) = set ps \<union> set (members gs1)"
    "relinked s1 s2" using Cons.IH [OF s1(2) z f d] by metis
  have "rehash_loop s (hd0 (p # ps) 0) = Some s2"
    using e(1,2,3) s1(1) s2(1) by (simp add: rehash_loop.simps [of s p] elem_at_def)
  moreover have "set (members gs2) = set (p # ps) \<union> set (members gs)" unfolding s2(3) s1(3) by auto
  ultimately show ?case using s2(2) relinked_trans [OF s1(4) s2(4)] by (intro exI [of _ s2] exI [of _ gs2]) simp
qed

text \<open>Rebuilding keeps the elements and their contents, whether or not the allocation succeeds.\<close>

lemma rehash_ok:
  assumes "table s gs" "n = 2 ^ k"
  shows "\<exists>s' gs'. rehash n s = Some s' \<and> table s' gs' \<and> set (members gs') = set (members gs) \<and>
    keyClass s' = keyClass s \<and> copyKey s' = copyKey s \<and> count s' = count s \<and> fresh s' = fresh s \<and>
    (\<forall>p. payload s' p = payload s p) \<and> set (mallocs s') \<subseteq> set (mallocs s) \<and>
    (htsize s' = n \<or> htsize s' = htsize s \<and> False \<in> set (mallocs s))"
proof -
  obtain ok s1 where m: "malloc s = (ok, s1)" by fastforce
  have s1: "s1 = s\<lparr>mallocs := mallocs s1\<rparr>" "set (mallocs s1) \<subseteq> set (mallocs s)" "\<not> ok \<Longrightarrow> False \<in> set (mallocs s)"
    using m by (auto simp: malloc_def split: list.splits)
  have t: "linked s (members gs)" "grouped (bucket_of s) (ht s) gs" "length (ht s) = htsize s" using assms(1) by (simp_all add: table_def)
  have f: "keyClass s1 = keyClass s" "copyKey s1 = copyKey s" "count s1 = count s" "fresh s1 = fresh s" "htsize s1 = htsize s"
    "elems s1 = elems s" "first s1 = first s" "ht s1 = ht s" by (subst s1(1), simp)+
  show ?thesis
  proof (cases ok)
    case False
    have "bucket_of s1 = bucket_of s" by (intro bucket_of_cong) (simp_all add: payload_def f)
    then have "table s1 gs" using t by (simp add: table_def linked_def f)
    moreover have "rehash n s = Some s1" using m False by (simp add: rehash_def assertion_def assms(2) power_of_2_pow)
    ultimately show ?thesis using False s1(2,3) f by (intro exI [of _ s1] exI [of _ gs]) (simp add: payload_def)
  next
    case True
    let ?s = "s1\<lparr>ht := replicate n (0, 0), htsize := n, first := 0\<rparr>"
    have e: "table ?s []" by (simp add: table_def linked_def grouped_def bucket_entry_def)
    have d: "fseg (elems ?s) (members gs)" "distinct (members gs)" using t(1) dseg_fseg by (auto simp: linked_def f)
    obtain s' gs' where s': "rehash_loop ?s (hd0 (members gs) 0) = Some s'" "table s' gs'" "set (members gs') = set (members gs)" "relinked ?s s'"
      using rehash_loop_ok [OF e _ d, of k] assms(2) by auto
    have "rehash n s = Some s'" using m True s'(1) t(1)
      by (simp add: rehash_def assertion_def assms(2) power_of_2_pow f linked_def)
    then show ?thesis using s' s1(2) by (intro exI [of _ s'] exI [of _ gs']) (simp add: relinked_def payload_def f)
  qed
qed

end
