(* ===== verification/HashProps.thy ===== *)
theory HashProps
  imports HashInv
begin

text \<open>
  The properties of the hash tables, for the tables a client can reach: searching, storing and
  removing refine a map from keys (up to what the class of the table tells apart) to data, with a
  failing allocator as an explicit outcome; the list visits every entry once; clearing frees it all.
\<close>

section \<open>Iteration\<close>

text \<open>
  The loop of the clients, \<^verbatim>\<open>for(p = sqliteHashFirst(h); p; p = sqliteHashNext(p))\<close> with the
  macros of \<^verbatim>\<open>hash.h\<close>, for at most \<open>n\<close> elements.
\<close>

fun hash_entries :: "nat \<Rightarrow> hash_tab \<Rightarrow> ptr \<Rightarrow> (hkey \<times> ptr) list option" where
  "hash_entries 0 s p = (if p = 0 then Some [] else None)"
| "hash_entries (Suc n) s p =
     (if p = 0 then Some []
      else do { e \<leftarrow> elem_at s p; es \<leftarrow> hash_entries n s (hnext e); Some ((hkey e, hdata e) # es) })"

text \<open>The map a table stands for.\<close>

definition hash_view :: "hash_tab \<Rightarrow> nat list \<Rightarrow> ptr option" where
  "hash_view s = map_of (map (\<lambda>(k, d). (canon (keyClass s) k, d)) (the (hash_entries (nat (count s)) s (first s))))"

section \<open>The invariant\<close>

definition hash_inv :: "hash_tab \<Rightarrow> groups \<Rightarrow> bool" where
  "hash_inv s gs \<longleftrightarrow> table s gs \<and> (htsize s = 0 \<or> (\<exists>k \<ge> 3. htsize s = 2 ^ k)) \<and> dom (elems s) = set (members gs) \<and>
     count s = int (length (members gs)) \<and> 0 < fresh s \<and>
     (\<forall>p k d. payload s p = Some (k, d) \<longrightarrow> key_ok (keyClass s) k \<and> d \<noteq> 0 \<and> p < fresh s) \<and>
     (\<forall>p q k d k' d'. payload s p = Some (k, d) \<longrightarrow> payload s q = Some (k', d') \<longrightarrow>
        canon (keyClass s) k = canon (keyClass s) k' \<longrightarrow> p = q)"

lemma hash_invD:
  assumes "hash_inv s gs"
  shows "table s gs" "linked s (members gs)" "grouped (bucket_of s) (ht s) gs" "length (ht s) = htsize s"
    "htsize s = 0 \<or> (\<exists>k \<ge> 3. htsize s = 2 ^ k)" "dom (elems s) = set (members gs)" "count s = int (length (members gs))" "0 < fresh s"
    "payload s p = Some (k, d) \<Longrightarrow> key_ok (keyClass s) k \<and> d \<noteq> 0 \<and> p < fresh s"
    "payload s p = Some (k, d) \<Longrightarrow> payload s q = Some (k', d') \<Longrightarrow> canon (keyClass s) k = canon (keyClass s) k' \<Longrightarrow> p = q"
  using assms unfolding hash_inv_def table_def by metis+

lemma hash_invI:
  assumes "table s gs" "htsize s = 0 \<or> (\<exists>k \<ge> 3. htsize s = 2 ^ k)" "dom (elems s) = set (members gs)"
    "count s = int (length (members gs))" "0 < fresh s"
    "\<And>p k d. payload s p = Some (k, d) \<Longrightarrow> key_ok (keyClass s) k \<and> d \<noteq> 0 \<and> p < fresh s"
    "\<And>p q k d k' d'. payload s p = Some (k, d) \<Longrightarrow> payload s q = Some (k', d') \<Longrightarrow>
      canon (keyClass s) k = canon (keyClass s) k' \<Longrightarrow> p = q"
  shows "hash_inv s gs"
  unfolding hash_inv_def using assms by simp

lemma payload_elem: "payload s p = Some (k, d) \<longleftrightarrow> (\<exists>e. elems s p = Some e \<and> hkey e = k \<and> hdata e = d)"
  by (auto simp: payload_def)

lemma payload_dom: "q \<in> dom (elems s) \<longleftrightarrow> (\<exists>k d. payload s q = Some (k, d))"
  by (auto simp: payload_elem)

lemma payload_mem: "hash_inv s gs \<Longrightarrow> p \<in> set (members gs) \<longleftrightarrow> (\<exists>k d. payload s p = Some (k, d))"
proof -
  assume "hash_inv s gs"
  then have "p \<in> set (members gs) \<longleftrightarrow> p \<in> dom (elems s)" by (simp only: hash_invD(6))
  then show ?thesis by (simp only: payload_dom)
qed

lemma entries_seg:
  "dseg (elems s) prv ps 0 \<Longrightarrow> hash_entries (length ps) s (hd0 ps 0) = Some (map (\<lambda>p. the (payload s p)) ps)"
  by (induction ps arbitrary: prv) (auto simp: elem_at_def payload_def)

lemma entries_inv:
  "hash_inv s gs \<Longrightarrow> hash_entries (nat (count s)) s (first s) = Some (map (\<lambda>p. the (payload s p)) (members gs))"
  using hash_invD(2,7) [of s gs] entries_seg [of s 0 "members gs"] by (simp add: linked_def)

lemma view_iff:
  assumes "hash_inv s gs"
  shows "hash_view s c = Some d \<longleftrightarrow> (\<exists>p k. payload s p = Some (k, d) \<and> canon (keyClass s) k = c)"
proof -
  let ?f = "\<lambda>p. case the (payload s p) of (k, d) \<Rightarrow> (canon (keyClass s) k, d)"
  have m: "p \<in> set (members gs) \<longleftrightarrow> (\<exists>k d. payload s p = Some (k, d))" for p
    by (rule payload_mem [OF assms])
  have v: "hash_view s = map_of (map ?f (members gs))"
    by (simp add: hash_view_def entries_inv [OF assms] o_def)
  have "inj_on (fst \<circ> ?f) (set (members gs))"
  proof (rule inj_onI)
    fix p q assume pq: "p \<in> set (members gs)" "q \<in> set (members gs)" "(fst \<circ> ?f) p = (fst \<circ> ?f) q"
    obtain k d where p: "payload s p = Some (k, d)" using pq(1) m by blast
    obtain k' d' where q: "payload s q = Some (k', d')" using pq(2) m by blast
    show "p = q" using hash_invD(10) [OF assms p q] pq(3) by (simp add: p q)
  qed
  then have "distinct (map fst (map ?f (members gs)))"
    using hash_invD(2) [OF assms] by (simp add: distinct_map linked_def)
  then have "hash_view s c = Some d \<longleftrightarrow> (c, d) \<in> ?f ` set (members gs)" unfolding v by (simp add: map_of_eq_Some_iff)
  also have "\<dots> \<longleftrightarrow> (\<exists>p k. payload s p = Some (k, d) \<and> canon (keyClass s) k = c)"
  proof
    assume "(c, d) \<in> ?f ` set (members gs)"
    then obtain p where p: "p \<in> set (members gs)" "(c, d) = ?f p" by (rule imageE)
    obtain k d' where "payload s p = Some (k, d')" using p(1) m by blast
    then show "\<exists>p k. payload s p = Some (k, d) \<and> canon (keyClass s) k = c" using p(2) by auto
  next
    assume "\<exists>p k. payload s p = Some (k, d) \<and> canon (keyClass s) k = c"
    then obtain p k where p: "payload s p = Some (k, d)" "canon (keyClass s) k = c" by blast
    have "p \<in> set (members gs)" using p(1) m by blast
    then show "(c, d) \<in> ?f ` set (members gs)" by (rule rev_image_eqI) (simp add: p)
  qed
  finally show ?thesis .
qed

lemma view_none:
  assumes "hash_inv s gs"
  shows "hash_view s c = None \<longleftrightarrow> (\<forall>p k d. payload s p = Some (k, d) \<longrightarrow> canon (keyClass s) k \<noteq> c)"
  using view_iff [OF assms, of c] by (metis option.exhaust option.distinct(1))

section \<open>Searching\<close>

lemma find_loop_ok:
  "dseg (elems s) prv ps nxt \<Longrightarrow> \<exists>p. find_loop (length ps) s (hd0 ps nxt) k = Some p \<and>
    (p = 0 \<and> (\<forall>q \<in> set ps. \<forall>e. elems s q = Some e \<longrightarrow> compareFunction (keyClass s) (hkey e) k \<noteq> 0) \<or>
     p \<in> set ps \<and> (\<exists>e. elems s p = Some e \<and> compareFunction (keyClass s) (hkey e) k = 0))"
proof (induction ps arbitrary: prv)
  case (Cons q ps)
  obtain e where e: "q \<noteq> 0" "elems s q = Some e" "hnext e = hd0 ps nxt" "dseg (elems s) q ps nxt" using Cons.prems by auto
  show ?case
  proof (cases "compareFunction (keyClass s) (hkey e) k = 0")
    case True
    then show ?thesis using e by (simp add: elem_at_def)
  next
    case False
    then show ?thesis using e Cons.IH [OF e(4)] by (auto simp: elem_at_def)
  qed
qed simp

definition found :: "hash_tab \<Rightarrow> hkey \<Rightarrow> ptr \<Rightarrow> bool" where
  "found s k p \<longleftrightarrow> (if p = 0 then \<forall>q k' d. payload s q = Some (k', d) \<longrightarrow> canon (keyClass s) k' \<noteq> canon (keyClass s) k
     else \<exists>k' d. payload s p = Some (k', d) \<and> canon (keyClass s) k' = canon (keyClass s) k)"

lemma find_ok:
  assumes inv: "hash_inv s gs" and k: "key_ok (keyClass s) k"
  shows "\<exists>p. findElementGivenHash s k (bucket_index (htsize s) (hashFunction (keyClass s) k)) = Some p \<and> found s k p"
proof (cases "ht s = []")
  case True
  have "members gs = []" using hash_invD(3) [OF inv] True by (auto simp: grouped_def)
  then have "payload s q \<noteq> Some (k', d)" for q k' d using payload_mem [OF inv, of q] by auto
  then show ?thesis using True by (simp add: findElementGivenHash_def found_def)
next
  case False
  let ?h = "bucket_index (htsize s) (hashFunction (keyClass s) k)"
  obtain j where j: "htsize s = 2 ^ j" using hash_invD(4,5) [OF inv] False by auto
  have h: "?h < length (ht s)" using bucket_index_less by (simp add: hash_invD(4) [OF inv] j)
  note g = hash_invD(3) [OF inv] and i = hash_invD(9,10) [OF inv]
  have same: "bucket_of s q = ?h" if "payload s q = Some (k', d)" "canon (keyClass s) k' = canon (keyClass s) k" for q k' d
    using keys.hash_cong [OF _ k that(2)] i(1) [OF that(1)] that(1) by (simp add: bucket_of_def)
  have be: "ht s ! ?h = bucket_entry (map_of gs ?h)" using g h by (simp add: grouped_def)
  show ?thesis
  proof (cases "map_of gs ?h")
    case None
    have nb: "bucket_of s q \<noteq> ?h" if "q \<in> set (members gs)" for q
    proof -
      from that obtain ii seg where s: "(ii, seg) \<in> set gs" "q \<in> set seg" by auto
      have "bucket_of s q = ii" using g s by (fastforce simp: grouped_def)
      moreover have "ii \<in> fst ` set gs" using s(1) by force
      moreover have "?h \<notin> fst ` set gs" using None by (simp only: map_of_eq_None_iff simp_thms)
      ultimately show ?thesis by metis
    qed
    have "canon (keyClass s) k' \<noteq> canon (keyClass s) k" if "payload s q = Some (k', d)" for q k' d
    proof -
      have "q \<in> set (members gs)" using that payload_mem [OF inv] by blast
      then show ?thesis using same [OF that] nb by blast
    qed
    moreover have "findElementGivenHash s k ?h = Some 0"
      using False h be None by (simp add: findElementGivenHash_def bucket_at_def bucket_entry_def assertion_def)
    ultimately show ?thesis by (simp add: found_def)
  next
    case (Some seg)
    have d: "distinct (map fst gs)" using g by (simp add: grouped_def)
    obtain g1 g2 where sp: "gs = g1 @ (?h, seg) # g2" using map_of_split [OF d Some] by metis
    have "dseg (elems s) 0 (members gs) 0" using hash_invD(2) [OF inv] by (simp add: linked_def)
    then obtain prv nxt where ds: "dseg (elems s) prv seg nxt" by (auto simp: sp)
    have ne: "seg \<noteq> []" using g by (simp add: grouped_def sp)
    then have hh: "hd0 seg 0 = hd0 seg nxt" by (cases seg) auto
    have run: "findElementGivenHash s k ?h = find_loop (length seg) s (hd0 seg nxt) k"
      using False h be Some hh by (simp add: findElementGivenHash_def bucket_at_def bucket_entry_def assertion_def)
    obtain p where p: "find_loop (length seg) s (hd0 seg nxt) k = Some p"
      "p = 0 \<and> (\<forall>q \<in> set seg. \<forall>e. elems s q = Some e \<longrightarrow> compareFunction (keyClass s) (hkey e) k \<noteq> 0) \<or>
       p \<in> set seg \<and> (\<exists>e. elems s p = Some e \<and> compareFunction (keyClass s) (hkey e) k = 0)"
      using find_loop_ok [OF ds, of k] by metis
    have "found s k p"
    proof (cases "p = 0")
      case True
      have np: "0 \<notin> set seg" using dseg_zero [OF ds] .
      have "canon (keyClass s) k' \<noteq> canon (keyClass s) k" if q: "payload s q = Some (k', d)" for q k' d
      proof
        assume c: "canon (keyClass s) k' = canon (keyClass s) k"
        have "q \<in> set (members gs)" using q payload_mem [OF inv] by blast
        then obtain ii sg where s: "(ii, sg) \<in> set gs" "q \<in> set sg" by auto
        have "ii = bucket_of s q" using g s by (fastforce simp: grouped_def)
        then have "(?h, sg) \<in> set gs" using s(1) same [OF q c] by simp
        then have "sg = seg" using Some d map_of_is_SomeI [of gs ?h sg] by simp
        moreover obtain e where "elems s q = Some e" "hkey e = k'" using q by (auto simp: payload_elem)
        ultimately have "compareFunction (keyClass s) k' k \<noteq> 0" using p(2) True np s(2) by auto
        then show False using keys.compare_0 [OF _ k] i(1) [OF q] c by metis
      qed
      then show ?thesis using True by (simp add: found_def)
    next
      case p0: False
      obtain e where e: "elems s p = Some e" "compareFunction (keyClass s) (hkey e) k = 0" using p(2) p0 by auto
      have pl: "payload s p = Some (hkey e, hdata e)" using e by (simp add: payload_def)
      have "canon (keyClass s) (hkey e) = canon (keyClass s) k" using keys.compare_0 [OF _ k] i(1) [OF pl] e(2) by metis
      then show ?thesis using p0 pl by (simp add: found_def)
    qed
    then show ?thesis using run p(1) by simp
  qed
qed

text \<open>The element the search returns holds what the view has for the key.\<close>

lemma found_view:
  assumes "hash_inv s gs" "found s k p"
  shows "p = 0 \<and> hash_view s (canon (keyClass s) k) = None \<or>
    p \<noteq> 0 \<and> p \<in> set (members gs) \<and> (\<exists>e. elems s p = Some e \<and> hash_view s (canon (keyClass s) k) = Some (hdata e) \<and>
      canon (keyClass s) (hkey e) = canon (keyClass s) k)"
proof (cases "p = 0")
  case True
  then show ?thesis using assms(2) view_none [OF assms(1)] by (simp add: found_def)
next
  case False
  then obtain e where e: "elems s p = Some e" "canon (keyClass s) (hkey e) = canon (keyClass s) k"
    using assms(2) by (auto simp: found_def payload_elem)
  have "payload s p = Some (hkey e, hdata e)" by (simp add: payload_def e)
  then have "hash_view s (canon (keyClass s) k) = Some (hdata e)" using view_iff [OF assms(1)] e(2) by blast
  moreover have "p \<in> set (members gs)" using e(1) hash_invD(6) [OF assms(1)] by auto
  ultimately show ?thesis using False e by blast
qed

lemma size_ok: "hash_inv s gs \<Longrightarrow> power_of_2 (htsize s)"
  using hash_invD(5) [of s gs] power_of_2_pow by (auto simp: power_of_2_def)

lemma hashFind_ok:
  assumes "hash_inv s gs" "key_ok (keyClass s) k"
  shows "sqliteHashFind s k = Some (case hash_view s (canon (keyClass s) k) of None \<Rightarrow> 0 | Some d \<Rightarrow> d)"
proof -
  obtain p where p: "findElementGivenHash s k (bucket_index (htsize s) (hashFunction (keyClass s) k)) = Some p" "found s k p"
    using find_ok [OF assms] by blast
  show ?thesis
  proof (cases "ht s = []")
    case True
    then have "p = 0" using p(1) by (simp add: findElementGivenHash_def)
    then show ?thesis using True found_view [OF assms(1) p(2)] by (auto simp: sqliteHashFind_def)
  next
    case False
    then show ?thesis using p(1) found_view [OF assms(1) p(2)] size_ok [OF assms(1)]
      by (auto simp: sqliteHashFind_def assertion_def elem_at_def)
  qed
qed

section \<open>Storing and removing\<close>

definition failed :: "hash_tab \<Rightarrow> bool" where
  "failed s \<longleftrightarrow> False \<in> set (mallocs s)"

text \<open>The outcomes of \<^verbatim>\<open>sqliteHashInsert\<close>.\<close>

definition stored :: "hash_tab \<Rightarrow> hkey \<Rightarrow> ptr \<Rightarrow> ptr \<Rightarrow> hash_tab \<Rightarrow> bool" where
  "stored s k d r s' \<longleftrightarrow> keyClass s' = keyClass s \<and> copyKey s' = copyKey s \<and> set (mallocs s') \<subseteq> set (mallocs s) \<and>
     (r = (case hash_view s (canon (keyClass s) k) of None \<Rightarrow> 0 | Some x \<Rightarrow> x) \<and>
        hash_view s' = (hash_view s)(canon (keyClass s) k := if d = 0 then None else Some d) \<or>
      failed s \<and> d \<noteq> 0 \<and> hash_view s (canon (keyClass s) k) = None \<and> r = d \<and> hash_view s' = hash_view s) \<and>
     (\<not> failed s \<longrightarrow> count s \<le> int (htsize s) \<longrightarrow> count s' \<le> int (htsize s'))"

lemma option_ext: "(\<And>d. x = Some d \<longleftrightarrow> y = Some d) \<Longrightarrow> x = y"
  by (cases x; cases y) auto

lemma view_change:
  assumes inv: "hash_inv s gs" "hash_inv s' gs'" "keyClass s' = keyClass s"
    and rest: "\<And>q. q \<noteq> p \<Longrightarrow> payload s' q = payload s q"
    and old: "\<And>q k d. payload s q = Some (k, d) \<Longrightarrow> canon (keyClass s) k = c \<longleftrightarrow> q = p"
    and new: "payload s' p = map_option (\<lambda>d. (k0, d)) v" "canon (keyClass s) k0 = c"
  shows "hash_view s' = (hash_view s)(c := v)"
proof (rule ext, rule option_ext)
  fix c' d
  have "hash_view s' c' = Some d \<longleftrightarrow> (\<exists>q k. payload s' q = Some (k, d) \<and> canon (keyClass s) k = c')"
    using view_iff [OF inv(2)] inv(3) by simp
  also have "\<dots> \<longleftrightarrow> (if c' = c then v = Some d else \<exists>q k. payload s q = Some (k, d) \<and> canon (keyClass s) k = c')"
  proof (cases "c' = c")
    case True
    have "(\<exists>q k. payload s' q = Some (k, d) \<and> canon (keyClass s) k = c) \<longleftrightarrow> v = Some d" (is "?l \<longleftrightarrow> _")
    proof
      assume ?l
      then obtain q k where q: "payload s' q = Some (k, d)" "canon (keyClass s) k = c" by blast
      have "q = p" using rest [of q] old [of q k d] q by metis
      then show "v = Some d" using q(1) new(1) by auto
    qed (use new in auto)
    then show ?thesis using True by simp
  next
    case False
    have "payload s' q = Some (k, d) \<and> canon (keyClass s) k = c' \<longleftrightarrow> payload s q = Some (k, d) \<and> canon (keyClass s) k = c'" for q k
    proof (cases "q = p")
      case True
      then show ?thesis using False new old [of q k d] by auto
    qed (simp add: rest)
    then show ?thesis using False by simp
  qed
  also have "\<dots> \<longleftrightarrow> ((hash_view s)(c := v)) c' = Some d" by (simp add: view_iff [OF inv(1)])
  finally show "hash_view s' c' = Some d \<longleftrightarrow> ((hash_view s)(c := v)) c' = Some d" .
qed

lemma linked_count: "hash_inv s gs \<Longrightarrow> linked s' xs \<Longrightarrow> set xs = set (members gs) \<Longrightarrow> length xs = length (members gs)"
  using hash_invD(2) unfolding linked_def by (metis distinct_card)

lemma set_data_ok:
  assumes inv: "hash_inv s gs" and p: "elems s p = Some e" "p \<noteq> 0" and d: "d \<noteq> 0"
  shows "\<exists>s'. set_elem p (\<lambda>e. e\<lparr>hdata := d\<rparr>) s = Some s' \<and> hash_inv s' gs \<and> keyClass s' = keyClass s \<and> copyKey s' = copyKey s \<and>
    mallocs s' = mallocs s \<and> count s' = count s \<and> htsize s' = htsize s \<and>
    hash_view s' = (hash_view s)(canon (keyClass s) (hkey e) \<mapsto> d)"
proof -
  let ?s = "s\<lparr>elems := (elems s)(p \<mapsto> e\<lparr>hdata := d\<rparr>)\<rparr>"
  have pl: "payload ?s q = (if q = p then Some (hkey e, d) else payload s q)" for q by (simp add: payload_def)
  have pp: "payload s p = Some (hkey e, hdata e)" by (simp add: payload_def p)
  have seg: "dseg h prv xs nxt \<Longrightarrow> h p = Some e \<Longrightarrow> dseg (h(p \<mapsto> e\<lparr>hdata := d\<rparr>)) prv xs nxt" for h prv xs nxt
    by (induction xs arbitrary: prv) auto
  have l: "linked ?s (members gs)" using hash_invD(2) [OF inv] p(1) seg by (simp add: linked_def)
  have "bucket_of ?s = bucket_of s" using pp by (auto simp: bucket_of_def pl fun_eq_iff split: option.split)
  then have t: "table ?s gs" using hash_invD(1) [OF inv] l by (simp add: table_def)
  have old: "\<exists>d''. payload s q = Some (k, d'') \<and> (q = p \<and> d' = d \<or> d'' = d')" if "payload ?s q = Some (k, d')" for q k d'
    using that pp by (auto simp: pl split: if_splits)
  have "hash_inv ?s gs"
  proof (rule hash_invI [OF t])
    show "dom (elems ?s) = set (members gs)" using hash_invD(6) [OF inv] p(1) by auto
    show "key_ok (keyClass ?s) k \<and> d' \<noteq> 0 \<and> q < fresh ?s" if q: "payload ?s q = Some (k, d')" for q k d'
      using old [OF q] hash_invD(9) [OF inv] d by auto
    show "q = q'" if q: "payload ?s q = Some (k, d')" "payload ?s q' = Some (k', d'')" "canon (keyClass ?s) k = canon (keyClass ?s) k'"
      for q q' k k' d' d''
    proof -
      obtain x y where "payload s q = Some (k, x)" "payload s q' = Some (k', y)" using old [OF q(1)] old [OF q(2)] by blast
      then show ?thesis using hash_invD(10) [OF inv] q(3) by simp
    qed
  qed (use hash_invD(5-8) [OF inv] in simp_all)
  moreover from this have "hash_view ?s = (hash_view s)(canon (keyClass s) (hkey e) \<mapsto> d)"
  proof (rule view_change [OF inv, where p = p and ?k0.0 = "hkey e"])
    show "canon (keyClass s) k = canon (keyClass s) (hkey e) \<longleftrightarrow> q = p" if "payload s q = Some (k, d)" for q k d
      using hash_invD(10) [OF inv that pp] that pp by auto
  qed (simp_all add: pl)
  ultimately show ?thesis using p by (simp add: set_elem_def elem_at_def)
qed

lemma remove_elem_ok:
  assumes inv: "hash_inv s gs" and p: "p \<in> set (members gs)" "elems s p = Some e"
    and h: "h = bucket_index (htsize s) (hashFunction (keyClass s) (hkey e))"
  shows "\<exists>s' gs'. removeElementGivenHash p h s = Some s' \<and> hash_inv s' gs' \<and> keyClass s' = keyClass s \<and> copyKey s' = copyKey s \<and>
    mallocs s' = mallocs s \<and> count s' = count s - 1 \<and> htsize s' = htsize s \<and>
    hash_view s' = (hash_view s)(canon (keyClass s) (hkey e) := None)"
proof -
  note g = hash_invD(3) [OF inv]
  have l: "linked s (members gs)" using hash_invD(2) [OF inv] .
  obtain i seg where s: "(i, seg) \<in> set gs" "p \<in> set seg" using p(1) by auto
  have bp: "bucket_of s p = h" by (simp add: bucket_of_def payload_def p(2) h)
  then have i: "i = h" using g s by (fastforce simp: grouped_def)
  have hl: "h < length (ht s)" using g s(1) unfolding i grouped_def by fastforce
  have m: "map_of gs h = Some seg" using g s(1) unfolding i grouped_def by simp
  obtain n x where nx: "ht s ! h = (n, x)" by fastforce
  have di: "distinct (members gs)" using l by (simp add: linked_def)
  obtain gs' as bs where r: "members gs = as @ p # bs" "members gs' = as @ bs"
    "grouped (bucket_of s) ((ht s)[h := (n - 1, if n - 1 \<le> 0 then 0 else if x = p then hd0 bs 0 else x)]) gs'"
    using grouped_remove [OF g hl nx m s(2) di] by metis
  obtain s' where s': "removeElementGivenHash p h s = Some s'" "linked s' (as @ bs)"
    "ht s' = (ht s)[h := (n - 1, if n - 1 \<le> 0 then 0 else if x = p then hd0 bs 0 else x)]"
    "keyClass s' = keyClass s" "copyKey s' = copyKey s" "count s' = count s - 1" "htsize s' = htsize s" "fresh s' = fresh s"
    "mallocs s' = mallocs s" "\<And>q. payload s' q = (if q = p then None else payload s q)"
    using remove_ok [OF l [unfolded r(1)] hl nx] by blast
  have np: "p \<notin> set (members gs')" using di by (simp add: r)
  have "bucket_of s' q = bucket_of s q" if "q \<in> set (members gs')" for q
    using that np s'(4,7,10) by (auto simp: bucket_of_def split: option.split)
  then have g': "grouped (bucket_of s') (ht s') gs'" using grouped_cong [OF r(3)] s'(3) by metis
  have t: "table s' gs'" using s'(2,3,7) g' hash_invD(4) [OF inv] by (simp add: table_def r(2))
  have dm: "dom (elems s') = set (members gs')"
  proof -
    have "q \<in> dom (elems s') \<longleftrightarrow> q \<noteq> p \<and> q \<in> dom (elems s)" for q
      unfolding payload_dom by (auto simp: s'(10))
    then have "dom (elems s') = dom (elems s) - {p}" by auto
    then show ?thesis using hash_invD(6) [OF inv] di by (auto simp: r)
  qed
  have pl: "payload s' q = Some (k, d) \<longleftrightarrow> q \<noteq> p \<and> payload s q = Some (k, d)" for q k d by (simp add: s'(10))
  have "hash_inv s' gs'"
  proof (rule hash_invI [OF t _ dm])
    show "key_ok (keyClass s') k \<and> d \<noteq> 0 \<and> q < fresh s'" if "payload s' q = Some (k, d)" for q k d
      using hash_invD(9) [OF inv, of q k d] that by (simp add: pl s'(4,8))
    show "q = q'" if "payload s' q = Some (k, d)" "payload s' q' = Some (k', d')" "canon (keyClass s') k = canon (keyClass s') k'"
      for q q' k k' d d'
      using hash_invD(10) [OF inv, of q k d q' k' d'] that by (simp add: pl s'(4))
    show "count s' = int (length (members gs'))" using hash_invD(7) [OF inv] unfolding r by (simp add: s'(6))
  qed (use hash_invD(5,8) [OF inv] in \<open>simp_all add: s'(7,8)\<close>)
  moreover from this have "hash_view s' = (hash_view s)(canon (keyClass s) (hkey e) := None)"
  proof (rule view_change [OF inv, where p = p and ?k0.0 = "hkey e"])
    have pp: "payload s p = Some (hkey e, hdata e)" by (simp add: payload_def p)
    show "canon (keyClass s) k = canon (keyClass s) (hkey e) \<longleftrightarrow> q = p" if "payload s q = Some (k, d)" for q k d
      using hash_invD(10) [OF inv that pp] that pp by auto
  qed (simp_all add: s'(4,10))
  ultimately show ?thesis using s' by (intro exI [of _ s'] exI [of _ gs']) simp
qed

text \<open>The table while its new element is allocated and counted but not yet linked.\<close>

definition pending :: "hash_tab \<Rightarrow> groups \<Rightarrow> ptr \<Rightarrow> bool" where
  "pending s gs p \<longleftrightarrow> table s gs \<and> (htsize s = 0 \<or> (\<exists>k \<ge> 3. htsize s = 2 ^ k)) \<and> dom (elems s) = insert p (set (members gs)) \<and>
     p \<notin> set (members gs) \<and> p \<noteq> 0 \<and> count s = int (length (members gs)) + 1 \<and> 0 < fresh s \<and>
     (\<forall>p k d. payload s p = Some (k, d) \<longrightarrow> key_ok (keyClass s) k \<and> d \<noteq> 0 \<and> p < fresh s) \<and>
     (\<forall>p q k d k' d'. payload s p = Some (k, d) \<longrightarrow> payload s q = Some (k', d') \<longrightarrow>
        canon (keyClass s) k = canon (keyClass s) k' \<longrightarrow> p = q)"

lemma payload_cong_dom: "(\<And>p. payload s' p = payload s p) \<Longrightarrow> dom (elems s') = dom (elems s)"
proof -
  assume "\<And>p. payload s' p = payload s p"
  then have "q \<in> dom (elems s') \<longleftrightarrow> q \<in> dom (elems s)" for q unfolding payload_dom by simp
  then show ?thesis by blast
qed

lemma members_count: "table s gs \<Longrightarrow> table s' gs' \<Longrightarrow> set (members gs') = set (members gs) \<Longrightarrow> length (members gs') = length (members gs)"
  unfolding table_def linked_def by (metis distinct_card)

lemma rehash_pending:
  assumes p: "pending s gs p" and k: "k \<ge> 3" "n = 2 ^ k"
  shows "\<exists>s' gs'. rehash n s = Some s' \<and> pending s' gs' p \<and> keyClass s' = keyClass s \<and> copyKey s' = copyKey s \<and> count s' = count s \<and>
    fresh s' = fresh s \<and> (\<forall>q. payload s' q = payload s q) \<and> set (mallocs s') \<subseteq> set (mallocs s) \<and>
    (htsize s' = n \<or> htsize s' = htsize s \<and> failed s)"
proof -
  have t: "table s gs" using p by (simp add: pending_def)
  obtain s' gs' where s': "rehash n s = Some s'" "table s' gs'" "set (members gs') = set (members gs)"
    "keyClass s' = keyClass s" "copyKey s' = copyKey s" "count s' = count s" "fresh s' = fresh s"
    "\<And>q. payload s' q = payload s q" "set (mallocs s') \<subseteq> set (mallocs s)"
    "htsize s' = n \<or> htsize s' = htsize s \<and> False \<in> set (mallocs s)"
    using rehash_ok [OF t k(2)] by blast
  have "pending s' gs' p" unfolding pending_def s'(3,4,6,7,8) payload_cong_dom [OF s'(8)] members_count [OF t s'(2,3)]
    using s'(2,10) p k by (auto simp: pending_def)
  then show ?thesis using s' by (intro exI [of _ s'] exI [of _ gs']) (simp add: failed_def)
qed

lemma link_pending:
  assumes p: "pending s gs p" "payload s p = Some (k, d)" "htsize s \<noteq> 0"
  shows "\<exists>s' gs'. link_elem (bucket_index (htsize s) (hashFunction (keyClass s) k)) p s = Some s' \<and> hash_inv s' gs' \<and> relinked s s'"
proof -
  have t: "table s gs" "p \<notin> set (members gs)" "p \<noteq> 0" using p(1) by (simp_all add: pending_def)
  obtain j where j: "j \<ge> 3" "htsize s = 2 ^ j" using p(1,3) by (auto simp: pending_def)
  obtain e where e: "elems s p = Some e" "hkey e = k" using p(2) by (auto simp: payload_elem)
  obtain s' gs' where s': "link_elem (bucket_index (htsize s) (hashFunction (keyClass s) k)) p s = Some s'" "table s' gs'"
    "set (members gs') = insert p (set (members gs))" "relinked s s'"
    using link_table [OF t e(1) j(2)] e(2) by metis
  have r: "keyClass s' = keyClass s" "copyKey s' = copyKey s" "count s' = count s" "htsize s' = htsize s"
     "fresh s' = fresh s" "\<And>p. payload s' p = payload s p" using s'(4) by (simp_all add: relinked_def)
  have "distinct (members gs)" "distinct (members gs')" using t(1) s'(2) by (simp_all add: table_def linked_def)
  then have "length (members gs') = length (members gs) + 1"
    using distinct_card [of "members gs"] distinct_card [of "members gs'"] s'(3) t(2) by simp
  then have "hash_inv s' gs'" unfolding hash_inv_def r payload_cong_dom [OF r(6)] s'(3)
    using s'(2) p(1) by (simp add: pending_def)
  then show ?thesis using s'(1,4) by (intro exI [of _ s'] exI [of _ gs']) simp
qed

lemma view_cong:
  assumes "hash_inv s gs" "hash_inv s' gs'" "keyClass s' = keyClass s" "\<And>p. payload s' p = payload s p"
  shows "hash_view s' = hash_view s"
  by (rule ext, rule option_ext) (simp add: view_iff [OF assms(1)] view_iff [OF assms(2)] assms(3,4))

lemma mallocs_frame [simp]:
  "payload (s\<lparr>mallocs := m\<rparr>) p = payload s p" "hash_inv (s\<lparr>mallocs := m\<rparr>) gs \<longleftrightarrow> hash_inv s gs"
proof -
  show p: "payload (s\<lparr>mallocs := m\<rparr>) p = payload s p" for p by (simp add: payload_def)
  have "bucket_of (s\<lparr>mallocs := m\<rparr>) = bucket_of s" by (rule bucket_of_cong) (simp_all add: p)
  then show "hash_inv (s\<lparr>mallocs := m\<rparr>) gs \<longleftrightarrow> hash_inv s gs" by (simp add: hash_inv_def table_def linked_def p)
qed

lemma malloc_ok:
  assumes "malloc s = (ok, s')"
  obtains m where "s' = s\<lparr>mallocs := m\<rparr>" "set m \<subseteq> set (mallocs s)" "\<not> ok \<longrightarrow> failed s"
proof (rule that [of "mallocs s'"])
  show "s' = s\<lparr>mallocs := mallocs s'\<rparr>" "set (mallocs s') \<subseteq> set (mallocs s)" "\<not> ok \<longrightarrow> failed s"
    using assms by (auto simp: malloc_def failed_def split: list.splits)
qed

text \<open>Adding the new element: the table is as it was, and the element is on the heap.\<close>

definition alloc_elem :: "hkey \<Rightarrow> ptr \<Rightarrow> hash_tab \<Rightarrow> hash_tab" where
  "alloc_elem k d s = s\<lparr>elems := (elems s)(fresh s \<mapsto> \<lparr>hnext = 0, hprev = 0, hdata = d, hkey = k\<rparr>),
     fresh := fresh s + 1, count := count s + 1\<rparr>"

lemma alloc_pending:
  assumes inv: "hash_inv s gs" and k: "key_ok (keyClass s) k" "d \<noteq> 0" "hash_view s (canon (keyClass s) k) = None"
  shows "pending (alloc_elem k d s) gs (fresh s)"
    "payload (alloc_elem k d s) q = (if q = fresh s then Some (k, d) else payload s q)" "payload s (fresh s) = None"
proof -
  let ?s = "alloc_elem k d s"
  show pl: "payload ?s q = (if q = fresh s then Some (k, d) else payload s q)" for q by (simp add: payload_def alloc_elem_def)
  have nf: "payload s (fresh s) \<noteq> Some (k', d')" for k' d' using hash_invD(9) [OF inv, of "fresh s" k' d'] by blast
  then show "payload s (fresh s) = None" by (cases "payload s (fresh s)") auto
  have fm: "fresh s \<notin> set (members gs)" using nf payload_mem [OF inv] by blast
  have l: "linked s (members gs)" using hash_invD(2) [OF inv] .
  then have "dseg (elems s) 0 (members gs) 0" by (simp add: linked_def)
  then have "dseg (elems ?s) 0 (members gs) 0" by (rule dseg_frame) (use fm in \<open>auto simp: alloc_elem_def\<close>)
  then have "linked ?s (members gs)" using l by (simp add: linked_def alloc_elem_def)
  moreover have "grouped (bucket_of ?s) (ht ?s) gs"
  proof (rule grouped_cong)
    show "grouped (bucket_of s) (ht ?s) gs" using hash_invD(3) [OF inv] by (simp add: alloc_elem_def)
    fix p assume "p \<in> set (members gs)"
    then have "p \<noteq> fresh s" using fm by metis
    then have "payload ?s p = payload s p" by (simp only: pl if_False)
    then show "bucket_of ?s p = bucket_of s p" by (auto simp: bucket_of_def alloc_elem_def split: option.split)
  qed
  ultimately have t: "table ?s gs" using hash_invD(4) [OF inv] by (simp add: table_def alloc_elem_def)
  have v: "canon (keyClass s) k' \<noteq> canon (keyClass s) k" if "payload s q = Some (k', d')" for q k' d'
    using that k(3) view_none [OF inv] by blast
  have ok: "key_ok (keyClass s) k' \<and> d' \<noteq> 0 \<and> q < fresh s + 1" if "payload ?s q = Some (k', d')" for q k' d'
    using that k(1,2) hash_invD(9) [OF inv, of q k' d'] by (auto simp: pl split: if_splits)
  have un: "q = q'" if "payload ?s q = Some (k1, d1)" "payload ?s q' = Some (k2, d2)" "canon (keyClass s) k1 = canon (keyClass s) k2"
    for q q' k1 d1 k2 d2
    using that hash_invD(10) [OF inv, of q k1 d1 q' k2 d2] v by (auto simp: pl split: if_splits)
  have "keyClass ?s = keyClass s" "htsize ?s = htsize s" "count ?s = count s + 1" "fresh ?s = fresh s + 1"
    "dom (elems ?s) = insert (fresh s) (dom (elems s))" by (simp_all add: alloc_elem_def)
  then show "pending ?s gs (fresh s)"
    unfolding pending_def using t ok un fm hash_invD(5-8) [OF inv] by simp
qed

lemma pending_empty: "pending s gs p \<Longrightarrow> htsize s = 0 \<Longrightarrow> members gs = []"
  by (cases gs) (auto simp: pending_def table_def grouped_def)

text \<open>The element that found no table to go into is freed again.\<close>

lemma drop_pending:
  assumes "pending s gs p" "htsize s = 0" "hash_inv s0 gs0" "keyClass s = keyClass s0"
    and pl: "\<And>q. payload s q = (if q = p then Some (k, d) else payload s0 q)" "payload s0 p = None"
  shows "hash_inv (s\<lparr>count := 0, elems := (elems s)(p := None)\<rparr>) []"
    "hash_view (s\<lparr>count := 0, elems := (elems s)(p := None)\<rparr>) = hash_view s0"
proof -
  let ?s = "s\<lparr>count := 0, elems := (elems s)(p := None)\<rparr>"
  have m: "members gs = []" by (rule pending_empty [OF assms(1,2)])
  have t: "ht s = []" "first s = 0" using assms(1,2) m by (simp_all add: pending_def table_def linked_def)
  have d: "elems ?s = Map.empty"
  proof
    fix q show "elems ?s q = None" using assms(1) m by (cases "q = p") (auto simp: pending_def)
  qed
  have pe: "payload ?s q = None" for q using d by (simp add: payload_def)
  have n: "payload ?s q \<noteq> Some (k', d')" for q k' d' by (simp only: pe) simp
  show inv: "hash_inv ?s []"
  proof (rule hash_invI)
    show "table ?s []" using assms(2) t by (simp add: table_def linked_def grouped_def)
    show "dom (elems ?s) = set (members [])" unfolding d by simp
  qed (use assms(1,2) n in \<open>simp_all add: pending_def\<close>)
  have "payload ?s q = payload s0 q" for q
  proof (cases "q = p")
    case False
    have "payload ?s q = payload s q" using False by (simp add: payload_def)
    then show ?thesis using pl(1) False by simp
  qed (simp add: pe pl(2))
  then show "hash_view ?s = hash_view s0" using assms(4) by (intro view_cong [OF assms(3) inv]) simp_all
qed

lemma insert_new:
  assumes inv: "hash_inv s gs" and k: "key_ok (keyClass s) k" "d \<noteq> 0" "hash_view s (canon (keyClass s) k) = None"
  shows "\<exists>r s' gs'. insert_elem k (hashFunction (keyClass s) k) d s = Some (r, s') \<and> hash_inv s' gs' \<and> stored s k d r s'"
proof -
  obtain ok s1 where a1: "malloc s = (ok, s1)" by fastforce
  obtain m where m1: "s1 = s\<lparr>mallocs := m\<rparr>" "set m \<subseteq> set (mallocs s)" "\<not> ok \<longrightarrow> failed s" by (rule malloc_ok [OF a1])
  have i1: "hash_inv s1 gs" using inv by (simp add: m1)
  obtain ok2 s2 where a2: "(if copyKey s1 then malloc s1 else (True, s1)) = (ok2, s2)" by fastforce
  obtain m' where m2: "s2 = s1\<lparr>mallocs := m'\<rparr>" "set m' \<subseteq> set (mallocs s1)" "\<not> ok2 \<longrightarrow> failed s1"
  proof (cases "copyKey s1")
    case True
    then show ?thesis using a2 malloc_ok [of s1 ok2 s2] that by auto
  next
    case False
    then show ?thesis using a2 that [of "mallocs s1"] by auto
  qed
  have s2: "s2 = s\<lparr>mallocs := m'\<rparr>" "set m' \<subseteq> set (mallocs s)" using m1 m2 by auto
  have i2: "hash_inv s2 gs" using inv by (simp add: s2)
  have same: "hash_view (s\<lparr>mallocs := x\<rparr>) = hash_view s" for x by (rule view_cong [OF inv]) (use inv in simp_all)
  show ?thesis
  proof (cases "ok \<and> ok2")
    case False
    have f: "failed s" using False m1 m2 by (auto simp: failed_def)
    define s' where "s' = (if ok then s2 else s1)"
    have "insert_elem k (hashFunction (keyClass s) k) d s = Some (d, s')"
      using False a1 a2 by (auto simp: insert_elem_def s'_def)
    moreover have "hash_inv s' gs" "stored s k d d s'"
      using i1 i2 f k same m1 m2 s2 by (auto simp: s'_def stored_def)
    ultimately show ?thesis by blast
  next
    case True
    let ?s3 = "alloc_elem k d s2"
    let ?p = "fresh s2"
    have k2: "key_ok (keyClass s2) k" "d \<noteq> 0" "hash_view s2 (canon (keyClass s2) k) = None" using k by (simp_all add: s2 same)
    note p3 = alloc_pending [OF i2 k2]
    have f3: "keyClass ?s3 = keyClass s" "copyKey ?s3 = copyKey s" "htsize ?s3 = htsize s" "count ?s3 = count s + 1"
      "set (mallocs ?s3) \<subseteq> set (mallocs s)" using s2(2) by (simp_all add: alloc_elem_def s2(1))
    obtain s4 g4 where s4: "(if htsize ?s3 = 0 then rehash 8 ?s3 else Some ?s3) = Some s4" "pending s4 g4 ?p"
      "keyClass s4 = keyClass s" "copyKey s4 = copyKey s" "count s4 = count s + 1" "\<And>q. payload s4 q = payload ?s3 q"
      "set (mallocs s4) \<subseteq> set (mallocs s)" "htsize s \<noteq> 0 \<longrightarrow> htsize s4 = htsize s"
      "htsize s = 0 \<longrightarrow> htsize s4 = 8 \<or> htsize s4 = 0 \<and> failed s"
    proof (cases "htsize ?s3 = 0")
      case z: True
      obtain s4 g4 where "rehash 8 ?s3 = Some s4" "pending s4 g4 ?p" "keyClass s4 = keyClass ?s3" "copyKey s4 = copyKey ?s3"
        "count s4 = count ?s3" "\<And>q. payload s4 q = payload ?s3 q" "set (mallocs s4) \<subseteq> set (mallocs ?s3)"
        "htsize s4 = 8 \<or> htsize s4 = htsize ?s3 \<and> failed ?s3"
        using rehash_pending [OF p3(1), of 3 8] by auto
      then show ?thesis using that [of s4 g4] z f3 by (auto simp: failed_def)
    next
      case False
      then show ?thesis using that [of ?s3 gs] p3(1) f3 by simp
    qed
    have pl4: "payload s4 q = (if q = ?p then Some (k, d) else payload s q)" for q using p3(2) by (simp add: s4(6) s2)
    have pn: "payload s ?p = None" using p3(3) by (simp add: s2)
    let ?tail = "\<lambda>s4. if htsize s4 = 0 then Some (d, s4\<lparr>count := 0, elems := (elems s4)(?p := None)\<rparr>)
       else do {
         s' \<leftarrow> (if count s4 > int (htsize s4) then rehash (htsize s4 * 2) s4 else Some s4);
         assertion (power_of_2 (htsize s'));
         s' \<leftarrow> link_elem (bucket_index (htsize s') (hashFunction (keyClass s) k)) ?p s';
         Some (0, s') }"
    have "insert_elem k (hashFunction (keyClass s) k) d s =
        Option.bind (if htsize ?s3 = 0 then rehash 8 ?s3 else Some ?s3) ?tail"
      using True a1 a2 by (simp add: insert_elem_def alloc_elem_def Let_def)
    then have run: "insert_elem k (hashFunction (keyClass s) k) d s = ?tail s4" by (simp only: s4(1) Option.bind.bind_lunit)
    show ?thesis
    proof (cases "htsize s4 = 0")
      case z: True
      let ?s = "s4\<lparr>count := 0, elems := (elems s4)(?p := None)\<rparr>"
      have f: "failed s" "htsize s = 0" using s4(8,9) z by auto
      note dr = drop_pending [OF s4(2) z inv s4(3) pl4 pn]
      have "stored s k d d ?s" using dr f k s4 by (simp add: stored_def)
      then show ?thesis using run z dr(1) by auto
    next
      case nz: False
      obtain j where j: "j \<ge> 3" "htsize s4 = 2 ^ j" using s4(2) nz by (auto simp: pending_def)
      obtain s5 g5 where s5: "(if count s4 > int (htsize s4) then rehash (htsize s4 * 2) s4 else Some s4) = Some s5" "pending s5 g5 ?p"
        "keyClass s5 = keyClass s" "copyKey s5 = copyKey s" "count s5 = count s + 1" "\<And>q. payload s5 q = payload s4 q"
        "set (mallocs s5) \<subseteq> set (mallocs s)" "htsize s5 \<noteq> 0"
        "\<not> failed s \<longrightarrow> htsize s5 = (if count s4 > int (htsize s4) then htsize s4 * 2 else htsize s4)"
      proof (cases "count s4 > int (htsize s4)")
        case g: True
        obtain s5 g5 where r5: "rehash (htsize s4 * 2) s4 = Some s5" "pending s5 g5 ?p" "keyClass s5 = keyClass s4" "copyKey s5 = copyKey s4"
          "count s5 = count s4" "\<And>q. payload s5 q = payload s4 q" "set (mallocs s5) \<subseteq> set (mallocs s4)"
          "htsize s5 = htsize s4 * 2 \<or> htsize s5 = htsize s4 \<and> failed s4"
          using rehash_pending [OF s4(2), of "Suc j" "htsize s4 * 2"] j by auto
        have "failed s4 \<Longrightarrow> failed s" using s4(7) by (auto simp: failed_def)
        moreover have "set (mallocs s5) \<subseteq> set (mallocs s)" using r5(7) s4(7) by (rule subset_trans)
        ultimately show ?thesis using that [OF _ r5(2) _ _ _ r5(6)] g r5(1,3-5,8) s4(3-5) nz by auto
      next
        case False
        then show ?thesis using that [of s4 g4] s4 nz by simp
      qed
      have pl5: "payload s5 ?p = Some (k, d)" by (simp add: s5(6) pl4)
      obtain s6 g6 where s6: "link_elem (bucket_index (htsize s5) (hashFunction (keyClass s5) k)) ?p s5 = Some s6" "hash_inv s6 g6" "relinked s5 s6"
        using link_pending [OF s5(2) pl5 s5(8)] by blast
      have r: "keyClass s6 = keyClass s" "copyKey s6 = copyKey s" "count s6 = count s + 1" "htsize s6 = htsize s5"
        "set (mallocs s6) \<subseteq> set (mallocs s)" "\<And>q. payload s6 q = (if q = ?p then Some (k, d) else payload s q)"
        using s6(3) s5 by (simp_all add: relinked_def pl4)
      have sz: "power_of_2 (htsize s5)" using s5(2,8) power_of_2_pow by (auto simp: pending_def)
      have "insert_elem k (hashFunction (keyClass s) k) d s = Some (0, s6)"
        using run nz s5(1,3) sz s6(1) by (simp add: assertion_def s4(3))
      moreover have "hash_view s6 = (hash_view s)(canon (keyClass s) k \<mapsto> d)"
      proof (rule view_change [OF inv s6(2) r(1), where p = ?p and ?k0.0 = k])
        show "canon (keyClass s) k' = canon (keyClass s) k \<longleftrightarrow> q = ?p" if "payload s q = Some (k', d')" for q k' d'
          using view_none [OF inv] k(3) pn that by (metis option.distinct(1))
      qed (simp_all add: r)
      moreover have "\<not> failed s \<longrightarrow> count s \<le> int (htsize s) \<longrightarrow> count s6 \<le> int (htsize s6)"
      proof (intro impI)
        assume a: "\<not> failed s" "count s \<le> int (htsize s)"
        have "(2::nat) ^ 3 \<le> 2 ^ j" using j(1) by (intro power_increasing) simp_all
        then have h8: "8 \<le> htsize s4" using j(2) by simp
        have h5: "htsize s5 = (if count s + 1 > int (htsize s4) then htsize s4 * 2 else htsize s4)" using s5(9) a(1) s4(5) by simp
        have "count s \<le> int (htsize s4)" using a s4(8) h8 by (cases "htsize s = 0") simp_all
        then show "count s6 \<le> int (htsize s6)" using h5 h8 by (simp add: r(3,4))
      qed
      ultimately show ?thesis using s6(2) k r by (auto simp: stored_def)
    qed
  qed
qed

lemma hashInsert_ok:
  assumes inv: "hash_inv s gs" and k: "key_ok (keyClass s) k"
  shows "\<exists>r s' gs'. sqliteHashInsert k d s = Some (r, s') \<and> hash_inv s' gs' \<and> stored s k d r s'"
proof -
  let ?h = "bucket_index (htsize s) (hashFunction (keyClass s) k)"
  obtain p where p: "findElementGivenHash s k ?h = Some p" "found s k p" using find_ok [OF assms] by blast
  have z: "power_of_2 (htsize s)" by (rule size_ok [OF inv])
  show ?thesis
  proof (cases "p = 0")
    case True
    have v: "hash_view s (canon (keyClass s) k) = None" using found_view [OF inv p(2)] True by blast
    show ?thesis
    proof (cases "d = 0")
      case d: True
      have "sqliteHashInsert k d s = Some (0, s)" using p(1) True d z by (simp add: sqliteHashInsert_def assertion_def)
      moreover have "stored s k d 0 s" using d v by (simp add: stored_def fun_upd_idem)
      ultimately show ?thesis using inv by blast
    next
      case False
      have "sqliteHashInsert k d s = insert_elem k (hashFunction (keyClass s) k) d s"
        using p(1) True False z by (simp add: sqliteHashInsert_def assertion_def Let_def)
      then show ?thesis using insert_new [OF inv k False v] by simp
    qed
  next
    case False
    obtain e where e: "p \<in> set (members gs)" "elems s p = Some e" "hash_view s (canon (keyClass s) k) = Some (hdata e)"
      "canon (keyClass s) (hkey e) = canon (keyClass s) k" using found_view [OF inv p(2)] False by blast
    have ok: "key_ok (keyClass s) (hkey e)" using hash_invD(9) [OF inv, of p "hkey e" "hdata e"] e(2) by (simp add: payload_def)
    have h: "hashFunction (keyClass s) (hkey e) = hashFunction (keyClass s) k" using keys.hash_cong [OF ok k e(4)] .
    show ?thesis
    proof (cases "d = 0")
      case d: True
      obtain s' gs' where s': "removeElementGivenHash p ?h s = Some s'" "hash_inv s' gs'" "keyClass s' = keyClass s" "copyKey s' = copyKey s"
        "mallocs s' = mallocs s" "count s' = count s - 1" "htsize s' = htsize s"
        "hash_view s' = (hash_view s)(canon (keyClass s) (hkey e) := None)"
        using remove_elem_ok [OF inv e(1,2), of ?h] h by auto
      have "sqliteHashInsert k d s = Some (hdata e, s')"
        using p(1) False d z e(2) s'(1) by (simp add: sqliteHashInsert_def assertion_def elem_at_def)
      moreover have "stored s k d (hdata e) s'" using d e(3,4) s' by (simp add: stored_def)
      ultimately show ?thesis using s'(2) by blast
    next
      case d: False
      obtain s' where s': "set_elem p (\<lambda>e. e\<lparr>hdata := d\<rparr>) s = Some s'" "hash_inv s' gs" "keyClass s' = keyClass s" "copyKey s' = copyKey s"
        "mallocs s' = mallocs s" "count s' = count s" "htsize s' = htsize s"
        "hash_view s' = (hash_view s)(canon (keyClass s) (hkey e) \<mapsto> d)"
        using set_data_ok [OF inv e(2) False d] by auto
      have "sqliteHashInsert k d s = Some (hdata e, s')"
        using p(1) False d z e(2) s'(1) by (simp add: sqliteHashInsert_def assertion_def elem_at_def)
      moreover have "stored s k d (hdata e) s'" using d e(3,4) s' by (simp add: stored_def)
      ultimately show ?thesis using s'(2) by blast
    qed
  qed
qed

section \<open>Clearing\<close>

lemma hash_clear_loop_ok:
  "fseg (elems s) ps \<Longrightarrow> distinct ps \<Longrightarrow> clear_loop s (hd0 ps 0) = Some (s\<lparr>elems := \<lambda>q. if q \<in> set ps then None else elems s q\<rparr>)"
proof (induction ps arbitrary: s)
  case (Cons p ps)
  obtain e where e: "p \<noteq> 0" "elems s p = Some e" "hnext e = hd0 ps 0" "fseg (elems s) ps" using Cons.prems(1) by auto
  let ?s = "s\<lparr>elems := (elems s)(p := None)\<rparr>"
  have f: "fseg (elems ?s) ps" by (rule fseg_frame [OF e(4)]) (use Cons.prems(2) in auto)
  have d: "distinct ps" using Cons.prems(2) by simp
  have "clear_loop s p = clear_loop ?s (hd0 ps 0)" using e by (simp add: clear_loop.simps [of s p] elem_at_def)
  also have "\<dots> = Some (?s\<lparr>elems := \<lambda>q. if q \<in> set ps then None else elems ?s q\<rparr>)" by (rule Cons.IH [OF f d])
  also have "\<dots> = Some (s\<lparr>elems := \<lambda>q. if q \<in> set (p # ps) then None else elems s q\<rparr>)" by (auto simp: fun_eq_iff)
  finally show ?case by simp
qed (simp add: clear_loop.simps)

lemma hashClear_ok:
  assumes inv: "hash_inv s gs"
  shows "sqliteHashClear s = Some (s\<lparr>first := 0, ht := [], htsize := 0, elems := Map.empty, count := 0\<rparr>)"
proof -
  let ?s = "s\<lparr>first := 0, ht := [], htsize := 0\<rparr>"
  have l: "linked s (members gs)" using hash_invD(2) [OF inv] .
  have f: "fseg (elems ?s) (members gs)" "distinct (members gs)" using l dseg_fseg by (auto simp: linked_def)
  have "(\<lambda>q. if q \<in> set (members gs) then None else elems ?s q) = Map.empty"
  proof
    fix q show "(if q \<in> set (members gs) then None else elems ?s q) = None"
      unfolding hash_invD(6) [OF inv, symmetric] by auto
  qed
  then have "clear_loop ?s (hd0 (members gs) 0) = Some (?s\<lparr>elems := Map.empty\<rparr>)" by (simp only: hash_clear_loop_ok [OF f])
  then show ?thesis using l by (simp add: sqliteHashClear_def linked_def Let_def)
qed

lemma hashClear_inv:
  assumes "hash_inv s gs"
  shows "hash_inv (s\<lparr>first := 0, ht := [], htsize := 0, elems := Map.empty, count := 0\<rparr>) []"
  using hash_invD(8) [OF assms] by (simp add: hash_inv_def table_def linked_def grouped_def payload_def)

section \<open>Reachable tables\<close>

text \<open>
  What a client can reach: a table from \<^verbatim>\<open>sqliteHashInit\<close>, whatever the allocator will answer,
  and then any insertions, replacements and removals under well formed keys and any clearing.
\<close>

inductive hash_reach :: "hash_tab \<Rightarrow> bool" where
  init: "hash_reach ((sqliteHashInit cl copy)\<lparr>mallocs := ms\<rparr>)"
| insert: "hash_reach s \<Longrightarrow> key_ok (keyClass s) k \<Longrightarrow> sqliteHashInsert k d s = Some (r, s') \<Longrightarrow> hash_reach s'"
| clear: "hash_reach s \<Longrightarrow> sqliteHashClear s = Some s' \<Longrightarrow> hash_reach s'"

inductive_cases hash_reachE: "hash_reach s"

lemma init_inv: "hash_inv ((sqliteHashInit cl copy)\<lparr>mallocs := ms\<rparr>) []"
  by (simp add: hash_inv_def table_def linked_def grouped_def payload_def sqliteHashInit_def)

lemma reach_inv: "hash_reach s \<Longrightarrow> \<exists>gs. hash_inv s gs"
proof (induction rule: hash_reach.induct)
  case (init cl copy ms)
  show ?case using init_inv by blast
next
  case (insert s k d r s')
  obtain gs where gs: "hash_inv s gs" using insert.IH by blast
  show ?case using hashInsert_ok [OF gs insert.hyps(2), of d] insert.hyps(3) by fastforce
next
  case (clear s s')
  obtain gs where gs: "hash_inv s gs" using clear.IH by blast
  have "s' = s\<lparr>first := 0, ht := [], htsize := 0, elems := Map.empty, count := 0\<rparr>"
    using hashClear_ok [OF gs] clear.hyps(2) by simp
  then show ?case using hashClear_inv [OF gs] by blast
qed

lemma reach_insert:
  assumes "hash_reach s" "key_ok (keyClass s) k"
  shows "\<exists>r s'. sqliteHashInsert k d s = Some (r, s') \<and> hash_reach s' \<and> stored s k d r s'"
proof -
  obtain gs where gs: "hash_inv s gs" using reach_inv [OF assms(1)] by blast
  obtain r s' where s': "sqliteHashInsert k d s = Some (r, s')" "stored s k d r s'" using hashInsert_ok [OF gs assms(2)] by blast
  then show ?thesis using hash_reach.insert [OF assms s'(1)] by blast
qed

section \<open>Memory\<close>

lemma set_elem_htsize: "set_elem p f s = Some s' \<Longrightarrow> htsize s' = htsize s"
  by (auto simp: set_elem_def split: Option.bind_splits)

lemma link_elem_htsize: "link_elem h elem s = Some s' \<Longrightarrow> htsize s' = htsize s"
  by (auto simp: link_elem_def Let_def split: Option.bind_splits if_splits dest!: set_elem_htsize)

lemma rehash_loop_htsize:
  assumes "rehash_loop s elem = Some s'"
  shows "htsize s' = htsize s"
proof (rule rehash_loop.raw_induct [of "\<lambda>s elem s'. htsize s' = htsize s", OF _ assms])
  fix f s elem s'
  assume IH: "\<And>s elem s'. f s elem = Some s' \<Longrightarrow> htsize s' = htsize s"
    and r: "(if elem = 0 then Some s
      else do {
        e \<leftarrow> elem_at s elem;
        s \<leftarrow> link_elem (bucket_index (htsize s) (hashFunction (keyClass s) (hkey e))) elem s;
        f s (hnext e) }) = Some s'"
  show "htsize s' = htsize s"
  proof (cases "elem = 0")
    case False
    then show ?thesis using r by (auto split: Option.bind_splits dest!: IH link_elem_htsize)
  qed (use r in simp)
qed

text \<open>
  The allocations that the insertion of a new element cannot do without: the element, the copy of its key,
  and the first bucket array.
\<close>

definition lacks_memory :: "hash_tab \<Rightarrow> bool" where
  "lacks_memory s \<longleftrightarrow> False \<in> set (take ((if copyKey s then 2 else 1) + (if htsize s = 0 then 1 else 0)) (mallocs s))"

lemma rehash_htsize:
  "rehash 8 s = Some s' \<Longrightarrow> htsize s' = (if False \<in> set (take 1 (mallocs s)) then htsize s else 8)"
  by (auto simp: rehash_def malloc_def assertion_def Let_def dest!: rehash_loop_htsize split: list.splits if_splits Option.bind_splits)

lemma insert_elem_result:
  assumes "insert_elem k h d s = Some (r, s')" "d \<noteq> 0"
  shows "r = (if lacks_memory s then d else 0)"
proof -
  obtain ok s1 where a1: "malloc s = (ok, s1)" by fastforce
  have m1: "s1 = s\<lparr>mallocs := tl (mallocs s)\<rparr>" "ok \<longleftrightarrow> False \<notin> set (take 1 (mallocs s))"
    using a1 by (auto simp: malloc_def split: list.splits)
  obtain ok2 s2 where a2: "(if copyKey s1 then malloc s1 else (True, s1)) = (ok2, s2)" by fastforce
  have m2: "s2 = s\<lparr>mallocs := drop (if copyKey s then 2 else 1) (mallocs s)\<rparr>"
    "ok \<and> ok2 \<longleftrightarrow> False \<notin> set (take (if copyKey s then 2 else 1) (mallocs s))"
    using a2 m1 by (cases "mallocs s"; cases "tl (mallocs s)"; auto simp: malloc_def eval_nat_numeral split: if_splits)+
  have tk: "take ((if copyKey s then 2 else 1) + n) (mallocs s) =
      take (if copyKey s then 2 else 1) (mallocs s) @ take n (mallocs s2)" for n
    unfolding m2(1) by (simp add: take_add)
  show ?thesis
  proof (cases "ok \<and> ok2")
    case False
    then have "r = d" using assms(1) a1 a2 by (auto simp: insert_elem_def Let_def split: if_splits)
    moreover have "lacks_memory s" using False m2(2) tk by (auto simp: lacks_memory_def)
    ultimately show ?thesis by simp
  next
    case True
    let ?s3 = "alloc_elem k d s2"
    have f3: "htsize ?s3 = htsize s" "mallocs ?s3 = mallocs s2" using m2(1) by (simp_all add: alloc_elem_def)
    obtain s4 where s4: "(if htsize ?s3 = 0 then rehash 8 ?s3 else Some ?s3) = Some s4" "r = (if htsize s4 = 0 then d else 0)"
      using assms(1) True a1 a2 by (auto simp: insert_elem_def alloc_elem_def Let_def split: Option.bind_splits if_splits)
    have "lacks_memory s \<longleftrightarrow> htsize s = 0 \<and> False \<in> set (take 1 (mallocs s2))"
      using True m2(2) tk [of 1] tk [of 0] by (auto simp: lacks_memory_def)
    moreover have "htsize s4 = 0 \<longleftrightarrow> htsize s = 0 \<and> False \<in> set (take 1 (mallocs s2))"
      using s4(1) f3 rehash_htsize [of ?s3 s4] by (auto split: if_splits)
    ultimately show ?thesis using s4(2) by simp
  qed
qed

lemma hash_insert_new_result:
  assumes "hash_inv s gs" "key_ok (keyClass s) k" "hash_view s (canon (keyClass s) k) = None" "d \<noteq> 0" "sqliteHashInsert k d s = Some (r, s')"
  shows "r = (if lacks_memory s then d else 0)"
proof -
  obtain p where p: "findElementGivenHash s k (bucket_index (htsize s) (hashFunction (keyClass s) k)) = Some p" "found s k p"
    using find_ok [OF assms(1,2)] by blast
  have "p = 0" using found_view [OF assms(1) p(2)] assms(3) by auto
  then have "insert_elem k (hashFunction (keyClass s) k) d s = Some (r, s')"
    using assms(4,5) p(1) by (auto simp: sqliteHashInsert_def Let_def split: Option.bind_splits)
  then show ?thesis using insert_elem_result assms(4) by blast
qed

section \<open>Properties\<close>

text \<open>The concrete tables the witnesses use.\<close>

definition str_key :: "string \<Rightarrow> hkey" where
  "str_key z = \<lparr>pKey = z, nKey = of_nat (length z)\<rparr>"

definition new_table :: hash_tab where
  "new_table = (sqliteHashInit HASH_STRING True)\<lparr>mallocs := []\<rparr>"

definition poor_table :: hash_tab where
  "poor_table = (sqliteHashInit HASH_STRING True)\<lparr>mallocs := [True, True, False]\<rparr>"

lemma new_table_reach: "hash_reach new_table" "hash_reach poor_table"
  unfolding new_table_def poor_table_def by (rule hash_reach.init)+

lemma new_table_fields [simp]:
  "keyClass new_table = HASH_STRING" "keyClass poor_table = HASH_STRING" "hash_view new_table = Map.empty" "hash_view poor_table = Map.empty"
  "\<not> failed new_table" "count new_table = 0"
  by (simp_all add: new_table_def poor_table_def sqliteHashInit_def hash_view_def failed_def)

lemma str_key_ok: "z \<noteq> [] \<Longrightarrow> length z < 100 \<Longrightarrow> cstring z \<Longrightarrow> key_ok HASH_STRING (str_key z)"
proof -
  assume a: "z \<noteq> []" "length z < 100" "cstring z"
  have "cstring (butlast z)" using a(3) by (auto simp: cstring_def dest: in_set_butlastD)
  moreover have "sint (of_nat (length z) :: u32) = int (length z)"
    using a(2) by (simp add: signed_of_nat signed_take_bit_int_eq_self)
  ultimately show ?thesis using a by (simp add: str_key_def)
qed

text \<open>C28: In every reachable table, a search ends without a bad access and returns the data stored under the key, and
  NULL if there is none.\<close>

theorem hash_find:
  assumes "hash_reach s" "key_ok (keyClass s) k"
  shows "sqliteHashFind s k = Some (case hash_view s (canon (keyClass s) k) of None \<Rightarrow> 0 | Some d \<Rightarrow> d)"
  using reach_inv [OF assms(1)] hashFind_ok [OF _ assms(2)] by blast

theorem hash_find_witness: "sqliteHashFind new_table (str_key ''ab'') = Some 0"
  using hash_find [OF new_table_reach(1), of "str_key ''ab''"] str_key_ok [of "''ab''"] by (simp add: NUL_def)

text \<open>C26: An insertion into a reachable table ends. If the key is new and memory lacks for the element, for the copy of
  its key or for the first bucket array, the code hands the new data back and leaves the table as it was;
  otherwise, even if a larger bucket array cannot be had, it returns the old data of the key and changes
  the table at that key only, a NULL data removing it.\<close>

theorem hash_insert:
  assumes "hash_reach s" "key_ok (keyClass s) k"
  shows "\<exists>r s'. sqliteHashInsert k d s = Some (r, s') \<and> hash_reach s' \<and>
    (if d \<noteq> 0 \<and> hash_view s (canon (keyClass s) k) = None \<and> lacks_memory s then r = d \<and> hash_view s' = hash_view s
     else r = (case hash_view s (canon (keyClass s) k) of None \<Rightarrow> 0 | Some x \<Rightarrow> x) \<and>
       hash_view s' = (hash_view s)(canon (keyClass s) k := if d = 0 then None else Some d))"
proof -
  obtain gs where inv: "hash_inv s gs" using reach_inv [OF assms(1)] by blast
  obtain r s' where s': "sqliteHashInsert k d s = Some (r, s')" "hash_reach s'" "stored s k d r s'" using reach_insert [OF assms] by blast
  then show ?thesis using hash_insert_new_result [OF inv assms(2) _ _ s'(1)] by (auto simp: stored_def)
qed

theorem hash_insert_witness:
  "(\<exists>s'. sqliteHashInsert (str_key ''ab'') 7 new_table = Some (0, s') \<and> hash_view s' = [[97, 98] \<mapsto> 7]) \<and>
   (\<exists>s'. sqliteHashInsert (str_key ''ab'') 7 poor_table = Some (7, s') \<and> hash_view s' = Map.empty)"
proof -
  have k: "key_ok HASH_STRING (str_key ''ab'')" by (rule str_key_ok) (simp_all add: NUL_def)
  have c: "canon HASH_STRING (str_key ''ab'') = [97, 98]" by (simp add: str_key_def u2l_eq)
  have m: "\<not> lacks_memory new_table" "lacks_memory poor_table"
    by (simp_all add: lacks_memory_def new_table_def poor_table_def sqliteHashInit_def)
  show ?thesis using hash_insert [OF new_table_reach(1), of "str_key ''ab''" 7] hash_insert [OF new_table_reach(2), of "str_key ''ab''" 7] k c m
    by auto
qed

text \<open>The loop of the clients over a reachable table ends and delivers every entry once, under keys that are all
  different for the class of the table.\<close>

theorem hash_iterate:
  assumes "hash_reach s"
  shows "\<exists>es. hash_entries (length es) s (first s) = Some es \<and> int (length es) = count s \<and>
    distinct (map (\<lambda>(k, d). canon (keyClass s) k) es) \<and> (\<forall>(k, d) \<in> set es. sqliteHashFind s k = Some d \<and> d \<noteq> 0)"
proof -
  obtain gs where inv: "hash_inv s gs" using reach_inv [OF assms] by blast
  let ?es = "map (\<lambda>p. the (payload s p)) (members gs)"
  have c: "count s = int (length (members gs))" by (rule hash_invD(7) [OF inv])
  have e: "hash_entries (length ?es) s (first s) = Some ?es" using entries_inv [OF inv] by (simp add: c)
  have m: "\<exists>p k d. payload s p = Some (k, d) \<and> x = (k, d)" if "x \<in> set ?es" for x
  proof -
    from that obtain p where p: "p \<in> set (members gs)" "x = the (payload s p)" by auto
    then show ?thesis using payload_mem [OF inv] by fastforce
  qed
  have "inj_on (\<lambda>p. case the (payload s p) of (k, d) \<Rightarrow> canon (keyClass s) k) (set (members gs))"
  proof (rule inj_onI)
    fix p q assume pq: "p \<in> set (members gs)" "q \<in> set (members gs)"
      "(case the (payload s p) of (k, d) \<Rightarrow> canon (keyClass s) k) = (case the (payload s q) of (k, d) \<Rightarrow> canon (keyClass s) k)"
    obtain k d where p: "payload s p = Some (k, d)" using pq(1) payload_mem [OF inv] by blast
    obtain k' d' where q: "payload s q = Some (k', d')" using pq(2) payload_mem [OF inv] by blast
    show "p = q" using hash_invD(10) [OF inv p q] pq(3) by (simp add: p q)
  qed
  then have d: "distinct (map (\<lambda>(k, d). canon (keyClass s) k) ?es)"
    using hash_invD(2) [OF inv] by (simp add: distinct_map linked_def o_def)
  have "sqliteHashFind s k = Some d \<and> d \<noteq> 0" if "(k, d) \<in> set ?es" for k d
  proof -
    from m [OF that] obtain p where p: "payload s p = Some (k, d)" by auto
    have ok: "key_ok (keyClass s) k" "d \<noteq> 0" using hash_invD(9) [OF inv p] by simp_all
    have "hash_view s (canon (keyClass s) k) = Some d" using view_iff [OF inv] p by blast
    then show ?thesis using hashFind_ok [OF inv ok(1)] ok(2) by simp
  qed
  then have f: "\<forall>(k, d) \<in> set ?es. sqliteHashFind s k = Some d \<and> d \<noteq> 0" by blast
  have l: "int (length ?es) = count s" using c by simp
  show ?thesis by (rule exI [of _ ?es]) (intro conjI e l d f)
qed

theorem hash_iterate_witness:
  "\<exists>es. hash_entries (length es) new_table (first new_table) = Some es \<and> int (length es) = count new_table"
  using hash_iterate [OF new_table_reach(1)] by blast

text \<open>Clearing a reachable table ends, frees every element, and leaves an empty table that can be used again.\<close>

theorem hash_clear:
  assumes "hash_reach s"
  shows "\<exists>s'. sqliteHashClear s = Some s' \<and> hash_reach s' \<and> elems s' = Map.empty \<and> ht s' = [] \<and> count s' = 0 \<and>
    hash_view s' = Map.empty \<and> keyClass s' = keyClass s"
proof -
  obtain gs where inv: "hash_inv s gs" using reach_inv [OF assms] by blast
  show ?thesis using hashClear_ok [OF inv] hash_reach.clear [OF assms] by (simp add: hash_view_def)
qed

theorem hash_clear_witness: "\<exists>s'. sqliteHashClear poor_table = Some s' \<and> elems s' = Map.empty \<and> count s' = 0"
  using hash_clear [OF new_table_reach(2)] by blast

section \<open>The hash table as a keyed store\<close>

definition hash_ready :: "key_class \<Rightarrow> hash_tab \<Rightarrow> bool" where
  "hash_ready cl s \<longleftrightarrow> hash_reach s \<and> keyClass s = cl \<and> \<not> failed s \<and> count s \<le> int (htsize s)"

definition hash_put :: "hkey \<Rightarrow> ptr \<Rightarrow> hash_tab \<Rightarrow> hash_tab option" where
  "hash_put k d s = do { (r, s) \<leftarrow> sqliteHashInsert k d s; Some s }"

definition hash_del :: "hkey \<Rightarrow> hash_tab \<Rightarrow> hash_tab option" where
  "hash_del k s = do { (r, s) \<leftarrow> sqliteHashInsert k 0 s; Some s }"

fun hash_valid :: "key_class \<Rightarrow> (hkey, ptr) store_op \<Rightarrow> bool" where
  "hash_valid cl (Put k d) \<longleftrightarrow> key_ok cl k \<and> d \<noteq> 0"
| "hash_valid cl (Del k) \<longleftrightarrow> key_ok cl k"

lemma ready_insert:
  assumes "hash_ready cl s" "key_ok cl k"
  shows "\<exists>r s'. sqliteHashInsert k d s = Some (r, s') \<and> hash_ready cl s' \<and>
    hash_view s' = (hash_view s)(canon cl k := if d = 0 then None else Some d)"
proof -
  have s: "hash_reach s" "keyClass s = cl" "\<not> failed s" "count s \<le> int (htsize s)" using assms(1) by (simp_all add: hash_ready_def)
  obtain r s' where s': "sqliteHashInsert k d s = Some (r, s')" "hash_reach s'" "stored s k d r s'"
    using reach_insert [OF s(1)] assms(2) s(2) by blast
  have "\<not> failed s'" using s'(3) s(3) by (auto simp: stored_def failed_def)
  then show ?thesis using s s' by (auto simp: stored_def hash_ready_def)
qed

interpretation hash: map_store "hash_ready cl" hash_view "canon cl" "hash_valid cl" hash_put hash_del
proof
  show "\<exists>s'. hash_put k v s = Some s' \<and> hash_ready cl s' \<and> hash_view s' = (hash_view s)(canon cl k \<mapsto> v)"
    if "hash_ready cl s" "hash_valid cl (Put k v)" for s k v
    using ready_insert [OF that(1), of k v] that(2) by (auto simp: hash_put_def)
  show "\<exists>s'. hash_del k s = Some s' \<and> hash_ready cl s' \<and> hash_view s' = (hash_view s)(canon cl k := None)"
    if "hash_ready cl s" "hash_valid cl (Del k)" for s k
    using ready_insert [OF that(1), of k 0] that(2) by (auto simp: hash_del_def)
qed

text \<open>C24: While allocations succeed, any script of insertions and removals does to the table what it does to a finite
  map from keys to data, and the table keeps at least as many buckets as elements.\<close>

theorem hash_refines_map:
  assumes "hash_ready cl s" "list_all (hash_valid cl) ops"
  shows "\<exists>s'. run_ops hash_put hash_del ops s = Some s' \<and>
    hash_view s' = fold apply_op (map (map_store_op (canon cl) id) ops) (hash_view s) \<and> count s' \<le> int (htsize s') \<and>
    (\<forall>k. key_ok cl k \<longrightarrow> sqliteHashFind s' k = Some (case hash_view s' (canon cl k) of None \<Rightarrow> 0 | Some d \<Rightarrow> d))"
proof -
  obtain s' where s': "run_ops hash_put hash_del ops s = Some s'" "hash_ready cl s'"
    "hash_view s' = fold apply_op (map (map_store_op (canon cl) id) ops) (hash_view s)"
    using hash.run_view [OF assms] by blast
  obtain gs where inv: "hash_inv s' gs" using reach_inv s'(2) by (auto simp: hash_ready_def)
  have "sqliteHashFind s' k = Some (case hash_view s' (canon cl k) of None \<Rightarrow> 0 | Some d \<Rightarrow> d)" if "key_ok cl k" for k
    using hashFind_ok [OF inv] that s'(2) by (auto simp: hash_ready_def)
  then show ?thesis using s' by (auto simp: hash_ready_def)
qed

theorem hash_refines_map_witness:
  "\<exists>s'. run_ops hash_put hash_del [Put (str_key ''ab'') 1, Put (str_key ''AB'') 2, Put (str_key ''c'') 3, Del (str_key ''C'')] new_table = Some s' \<and>
    hash_view s' = [[97, 98] \<mapsto> 2]"
proof -
  let ?ops = "[Put (str_key ''ab'') 1, Put (str_key ''AB'') 2, Put (str_key ''c'') 3, Del (str_key ''C'')]"
  have k: "key_ok HASH_STRING (str_key z)" if "z \<in> {''ab'', ''AB'', ''c'', ''C''}" for z
    using that by (intro str_key_ok) (auto simp: NUL_def)
  have "list_all (hash_valid HASH_STRING) ?ops" using k by simp
  moreover have "hash_ready HASH_STRING new_table" using new_table_reach(1) by (simp add: hash_ready_def)
  moreover have "canon HASH_STRING (str_key ''ab'') = [97, 98]" "canon HASH_STRING (str_key ''AB'') = [97, 98]"
    "canon HASH_STRING (str_key ''c'') = [99]" "canon HASH_STRING (str_key ''C'') = [99]" by (simp_all add: str_key_def u2l_eq)
  ultimately show ?thesis using hash_refines_map [of HASH_STRING new_table ?ops] by auto
qed

end
