(* ===== verification/Tokenize.thy ===== *)
theory Tokenize
  imports Util "HOL-Library.Monad_Syntax"
begin

text \<open>
  The tokenizer of the SQL language, \<^verbatim>\<open>sqlite/tokenize.c\<close>: the keyword table and its hash
  chains, the recognition of one token, the loop that feeds the parser, and the test whether a text
  ends in a complete statement. A text is the list of its characters before the terminator; a read
  past the terminator is \<open>None\<close>. The classification of white space and digits is that of the C locale.
\<close>

section \<open>Token types\<close>

type_synonym token = nat

text \<open>The codes of \<^verbatim>\<open>parse.h\<close>.\<close>

abbreviation (input) TK_ILLEGAL :: token where "TK_ILLEGAL \<equiv> 2"
abbreviation (input) TK_SPACE :: token where "TK_SPACE \<equiv> 3"
abbreviation (input) TK_COMMENT :: token where "TK_COMMENT \<equiv> 5"
abbreviation (input) TK_SEMI :: token where "TK_SEMI \<equiv> 9"
abbreviation (input) TK_EXPLAIN :: token where "TK_EXPLAIN \<equiv> 10"
abbreviation (input) TK_BEGIN :: token where "TK_BEGIN \<equiv> 11"
abbreviation (input) TK_TRANSACTION :: token where "TK_TRANSACTION \<equiv> 12"
abbreviation (input) TK_COMMIT :: token where "TK_COMMIT \<equiv> 13"
abbreviation (input) TK_END :: token where "TK_END \<equiv> 14"
abbreviation (input) TK_ROLLBACK :: token where "TK_ROLLBACK \<equiv> 15"
abbreviation (input) TK_CREATE :: token where "TK_CREATE \<equiv> 16"
abbreviation (input) TK_TABLE :: token where "TK_TABLE \<equiv> 17"
abbreviation (input) TK_TEMP :: token where "TK_TEMP \<equiv> 18"
abbreviation (input) TK_LP :: token where "TK_LP \<equiv> 19"
abbreviation (input) TK_RP :: token where "TK_RP \<equiv> 20"
abbreviation (input) TK_AS :: token where "TK_AS \<equiv> 21"
abbreviation (input) TK_COMMA :: token where "TK_COMMA \<equiv> 22"
abbreviation (input) TK_ID :: token where "TK_ID \<equiv> 23"
abbreviation (input) TK_ABORT :: token where "TK_ABORT \<equiv> 24"
abbreviation (input) TK_AFTER :: token where "TK_AFTER \<equiv> 25"
abbreviation (input) TK_ASC :: token where "TK_ASC \<equiv> 26"
abbreviation (input) TK_ATTACH :: token where "TK_ATTACH \<equiv> 27"
abbreviation (input) TK_BEFORE :: token where "TK_BEFORE \<equiv> 28"
abbreviation (input) TK_CASCADE :: token where "TK_CASCADE \<equiv> 29"
abbreviation (input) TK_CLUSTER :: token where "TK_CLUSTER \<equiv> 30"
abbreviation (input) TK_CONFLICT :: token where "TK_CONFLICT \<equiv> 31"
abbreviation (input) TK_COPY :: token where "TK_COPY \<equiv> 32"
abbreviation (input) TK_DATABASE :: token where "TK_DATABASE \<equiv> 33"
abbreviation (input) TK_DEFERRED :: token where "TK_DEFERRED \<equiv> 34"
abbreviation (input) TK_DELIMITERS :: token where "TK_DELIMITERS \<equiv> 35"
abbreviation (input) TK_DESC :: token where "TK_DESC \<equiv> 36"
abbreviation (input) TK_DETACH :: token where "TK_DETACH \<equiv> 37"
abbreviation (input) TK_EACH :: token where "TK_EACH \<equiv> 38"
abbreviation (input) TK_FAIL :: token where "TK_FAIL \<equiv> 39"
abbreviation (input) TK_FOR :: token where "TK_FOR \<equiv> 40"
abbreviation (input) TK_GLOB :: token where "TK_GLOB \<equiv> 41"
abbreviation (input) TK_IGNORE :: token where "TK_IGNORE \<equiv> 42"
abbreviation (input) TK_IMMEDIATE :: token where "TK_IMMEDIATE \<equiv> 43"
abbreviation (input) TK_INITIALLY :: token where "TK_INITIALLY \<equiv> 44"
abbreviation (input) TK_INSTEAD :: token where "TK_INSTEAD \<equiv> 45"
abbreviation (input) TK_LIKE :: token where "TK_LIKE \<equiv> 46"
abbreviation (input) TK_MATCH :: token where "TK_MATCH \<equiv> 47"
abbreviation (input) TK_KEY :: token where "TK_KEY \<equiv> 48"
abbreviation (input) TK_OF :: token where "TK_OF \<equiv> 49"
abbreviation (input) TK_OFFSET :: token where "TK_OFFSET \<equiv> 50"
abbreviation (input) TK_PRAGMA :: token where "TK_PRAGMA \<equiv> 51"
abbreviation (input) TK_RAISE :: token where "TK_RAISE \<equiv> 52"
abbreviation (input) TK_REPLACE :: token where "TK_REPLACE \<equiv> 53"
abbreviation (input) TK_RESTRICT :: token where "TK_RESTRICT \<equiv> 54"
abbreviation (input) TK_ROW :: token where "TK_ROW \<equiv> 55"
abbreviation (input) TK_STATEMENT :: token where "TK_STATEMENT \<equiv> 56"
abbreviation (input) TK_TRIGGER :: token where "TK_TRIGGER \<equiv> 57"
abbreviation (input) TK_VACUUM :: token where "TK_VACUUM \<equiv> 58"
abbreviation (input) TK_VIEW :: token where "TK_VIEW \<equiv> 59"
abbreviation (input) TK_OR :: token where "TK_OR \<equiv> 60"
abbreviation (input) TK_AND :: token where "TK_AND \<equiv> 61"
abbreviation (input) TK_NOT :: token where "TK_NOT \<equiv> 62"
abbreviation (input) TK_EQ :: token where "TK_EQ \<equiv> 63"
abbreviation (input) TK_NE :: token where "TK_NE \<equiv> 64"
abbreviation (input) TK_ISNULL :: token where "TK_ISNULL \<equiv> 65"
abbreviation (input) TK_NOTNULL :: token where "TK_NOTNULL \<equiv> 66"
abbreviation (input) TK_IS :: token where "TK_IS \<equiv> 67"
abbreviation (input) TK_BETWEEN :: token where "TK_BETWEEN \<equiv> 68"
abbreviation (input) TK_IN :: token where "TK_IN \<equiv> 69"
abbreviation (input) TK_GT :: token where "TK_GT \<equiv> 70"
abbreviation (input) TK_GE :: token where "TK_GE \<equiv> 71"
abbreviation (input) TK_LT :: token where "TK_LT \<equiv> 72"
abbreviation (input) TK_LE :: token where "TK_LE \<equiv> 73"
abbreviation (input) TK_BITAND :: token where "TK_BITAND \<equiv> 74"
abbreviation (input) TK_BITOR :: token where "TK_BITOR \<equiv> 75"
abbreviation (input) TK_LSHIFT :: token where "TK_LSHIFT \<equiv> 76"
abbreviation (input) TK_RSHIFT :: token where "TK_RSHIFT \<equiv> 77"
abbreviation (input) TK_PLUS :: token where "TK_PLUS \<equiv> 78"
abbreviation (input) TK_MINUS :: token where "TK_MINUS \<equiv> 79"
abbreviation (input) TK_STAR :: token where "TK_STAR \<equiv> 80"
abbreviation (input) TK_SLASH :: token where "TK_SLASH \<equiv> 81"
abbreviation (input) TK_REM :: token where "TK_REM \<equiv> 82"
abbreviation (input) TK_CONCAT :: token where "TK_CONCAT \<equiv> 83"
abbreviation (input) TK_BITNOT :: token where "TK_BITNOT \<equiv> 86"
abbreviation (input) TK_STRING :: token where "TK_STRING \<equiv> 87"
abbreviation (input) TK_JOIN_KW :: token where "TK_JOIN_KW \<equiv> 88"
abbreviation (input) TK_INTEGER :: token where "TK_INTEGER \<equiv> 89"
abbreviation (input) TK_CONSTRAINT :: token where "TK_CONSTRAINT \<equiv> 90"
abbreviation (input) TK_DEFAULT :: token where "TK_DEFAULT \<equiv> 91"
abbreviation (input) TK_FLOAT :: token where "TK_FLOAT \<equiv> 92"
abbreviation (input) TK_NULL :: token where "TK_NULL \<equiv> 93"
abbreviation (input) TK_PRIMARY :: token where "TK_PRIMARY \<equiv> 94"
abbreviation (input) TK_UNIQUE :: token where "TK_UNIQUE \<equiv> 95"
abbreviation (input) TK_CHECK :: token where "TK_CHECK \<equiv> 96"
abbreviation (input) TK_REFERENCES :: token where "TK_REFERENCES \<equiv> 97"
abbreviation (input) TK_COLLATE :: token where "TK_COLLATE \<equiv> 98"
abbreviation (input) TK_ON :: token where "TK_ON \<equiv> 99"
abbreviation (input) TK_DELETE :: token where "TK_DELETE \<equiv> 100"
abbreviation (input) TK_UPDATE :: token where "TK_UPDATE \<equiv> 101"
abbreviation (input) TK_INSERT :: token where "TK_INSERT \<equiv> 102"
abbreviation (input) TK_SET :: token where "TK_SET \<equiv> 103"
abbreviation (input) TK_DEFERRABLE :: token where "TK_DEFERRABLE \<equiv> 104"
abbreviation (input) TK_FOREIGN :: token where "TK_FOREIGN \<equiv> 105"
abbreviation (input) TK_DROP :: token where "TK_DROP \<equiv> 106"
abbreviation (input) TK_UNION :: token where "TK_UNION \<equiv> 107"
abbreviation (input) TK_ALL :: token where "TK_ALL \<equiv> 108"
abbreviation (input) TK_INTERSECT :: token where "TK_INTERSECT \<equiv> 109"
abbreviation (input) TK_EXCEPT :: token where "TK_EXCEPT \<equiv> 110"
abbreviation (input) TK_SELECT :: token where "TK_SELECT \<equiv> 111"
abbreviation (input) TK_DISTINCT :: token where "TK_DISTINCT \<equiv> 112"
abbreviation (input) TK_DOT :: token where "TK_DOT \<equiv> 113"
abbreviation (input) TK_FROM :: token where "TK_FROM \<equiv> 114"
abbreviation (input) TK_JOIN :: token where "TK_JOIN \<equiv> 115"
abbreviation (input) TK_USING :: token where "TK_USING \<equiv> 116"
abbreviation (input) TK_ORDER :: token where "TK_ORDER \<equiv> 117"
abbreviation (input) TK_BY :: token where "TK_BY \<equiv> 118"
abbreviation (input) TK_GROUP :: token where "TK_GROUP \<equiv> 119"
abbreviation (input) TK_HAVING :: token where "TK_HAVING \<equiv> 120"
abbreviation (input) TK_LIMIT :: token where "TK_LIMIT \<equiv> 121"
abbreviation (input) TK_WHERE :: token where "TK_WHERE \<equiv> 122"
abbreviation (input) TK_INTO :: token where "TK_INTO \<equiv> 123"
abbreviation (input) TK_VALUES :: token where "TK_VALUES \<equiv> 124"
abbreviation (input) TK_VARIABLE :: token where "TK_VARIABLE \<equiv> 125"
abbreviation (input) TK_CASE :: token where "TK_CASE \<equiv> 126"
abbreviation (input) TK_WHEN :: token where "TK_WHEN \<equiv> 127"
abbreviation (input) TK_THEN :: token where "TK_THEN \<equiv> 128"
abbreviation (input) TK_ELSE :: token where "TK_ELSE \<equiv> 129"
abbreviation (input) TK_INDEX :: token where "TK_INDEX \<equiv> 130"

section \<open>Keywords\<close>

definition aKeywordTable :: "(string \<times> token) list" where
  "aKeywordTable =
    [(''ABORT'', TK_ABORT), (''AFTER'', TK_AFTER), (''ALL'', TK_ALL), (''AND'', TK_AND), (''AS'', TK_AS),
     (''ASC'', TK_ASC), (''ATTACH'', TK_ATTACH), (''BEFORE'', TK_BEFORE), (''BEGIN'', TK_BEGIN),
     (''BETWEEN'', TK_BETWEEN), (''BY'', TK_BY), (''CASCADE'', TK_CASCADE), (''CASE'', TK_CASE),
     (''CHECK'', TK_CHECK), (''CLUSTER'', TK_CLUSTER), (''COLLATE'', TK_COLLATE), (''COMMIT'', TK_COMMIT),
     (''CONFLICT'', TK_CONFLICT), (''CONSTRAINT'', TK_CONSTRAINT), (''COPY'', TK_COPY),
     (''CREATE'', TK_CREATE), (''CROSS'', TK_JOIN_KW), (''DATABASE'', TK_DATABASE),
     (''DEFAULT'', TK_DEFAULT), (''DEFERRED'', TK_DEFERRED), (''DEFERRABLE'', TK_DEFERRABLE),
     (''DELETE'', TK_DELETE), (''DELIMITERS'', TK_DELIMITERS), (''DESC'', TK_DESC),
     (''DETACH'', TK_DETACH), (''DISTINCT'', TK_DISTINCT), (''DROP'', TK_DROP), (''END'', TK_END),
     (''EACH'', TK_EACH), (''ELSE'', TK_ELSE), (''EXCEPT'', TK_EXCEPT), (''EXPLAIN'', TK_EXPLAIN),
     (''FAIL'', TK_FAIL), (''FOR'', TK_FOR), (''FOREIGN'', TK_FOREIGN), (''FROM'', TK_FROM),
     (''FULL'', TK_JOIN_KW), (''GLOB'', TK_GLOB), (''GROUP'', TK_GROUP), (''HAVING'', TK_HAVING),
     (''IGNORE'', TK_IGNORE), (''IMMEDIATE'', TK_IMMEDIATE), (''IN'', TK_IN), (''INDEX'', TK_INDEX),
     (''INITIALLY'', TK_INITIALLY), (''INNER'', TK_JOIN_KW), (''INSERT'', TK_INSERT),
     (''INSTEAD'', TK_INSTEAD), (''INTERSECT'', TK_INTERSECT), (''INTO'', TK_INTO), (''IS'', TK_IS),
     (''ISNULL'', TK_ISNULL), (''JOIN'', TK_JOIN), (''KEY'', TK_KEY), (''LEFT'', TK_JOIN_KW),
     (''LIKE'', TK_LIKE), (''LIMIT'', TK_LIMIT), (''MATCH'', TK_MATCH), (''NATURAL'', TK_JOIN_KW),
     (''NOT'', TK_NOT), (''NOTNULL'', TK_NOTNULL), (''NULL'', TK_NULL), (''OF'', TK_OF),
     (''OFFSET'', TK_OFFSET), (''ON'', TK_ON), (''OR'', TK_OR), (''ORDER'', TK_ORDER),
     (''OUTER'', TK_JOIN_KW), (''PRAGMA'', TK_PRAGMA), (''PRIMARY'', TK_PRIMARY), (''RAISE'', TK_RAISE),
     (''REFERENCES'', TK_REFERENCES), (''REPLACE'', TK_REPLACE), (''RESTRICT'', TK_RESTRICT),
     (''RIGHT'', TK_JOIN_KW), (''ROLLBACK'', TK_ROLLBACK), (''ROW'', TK_ROW), (''SELECT'', TK_SELECT),
     (''SET'', TK_SET), (''STATEMENT'', TK_STATEMENT), (''TABLE'', TK_TABLE), (''TEMP'', TK_TEMP),
     (''TEMPORARY'', TK_TEMP), (''THEN'', TK_THEN), (''TRANSACTION'', TK_TRANSACTION),
     (''TRIGGER'', TK_TRIGGER), (''UNION'', TK_UNION), (''UNIQUE'', TK_UNIQUE), (''UPDATE'', TK_UPDATE),
     (''USING'', TK_USING), (''VACUUM'', TK_VACUUM), (''VALUES'', TK_VALUES), (''VIEW'', TK_VIEW),
     (''WHEN'', TK_WHEN), (''WHERE'', TK_WHERE)]"

definition KEY_HASH_SIZE :: nat where
  "KEY_HASH_SIZE = 101"

definition kw_hash :: "string \<Rightarrow> int \<Rightarrow> nat" where
  "kw_hash z n = unat (sqliteHashNoCase z n mod of_nat KEY_HASH_SIZE)"

text \<open>
  The initialisation of the chains over the first \<open>i\<close> keywords: the heads
  \<^verbatim>\<open>aiHashTable\<close> and the links \<^verbatim>\<open>iNext\<close>, both one more than an index into the
  table, with 0 for the end.
\<close>

primrec keyword_chains :: "nat \<Rightarrow> nat list \<times> nat list" where
  "keyword_chains 0 = (replicate KEY_HASH_SIZE 0, [])"
| "keyword_chains (Suc i) =
     (let (heads, nexts) = keyword_chains i;
          (zName, tokenType) = aKeywordTable ! i;
          h = kw_hash zName (int (length zName))
      in (heads[h := i + 1], nexts @ [heads ! h]))"

partial_function (option) keyword_loop :: "nat list \<Rightarrow> nat \<Rightarrow> string \<Rightarrow> int \<Rightarrow> token option" where
  \<comment> \<open>for(i=aiHashTable[h]; i; i=p->iNext)\<close>
  "keyword_loop nexts i z n =
     (if i = 0 then Some TK_ID
      else
        let (zName, tokenType) = aKeywordTable ! (i - 1)
        in if int (length zName) = n \<and> sqliteStrNICmp zName z n = 0 then Some tokenType
           else keyword_loop nexts (nexts ! (i - 1)) z n)"

definition sqliteKeywordCode :: "string \<Rightarrow> int \<Rightarrow> token option" where
  "sqliteKeywordCode z n =
     (let (heads, nexts) = keyword_chains (length aKeywordTable)
      in keyword_loop nexts (heads ! kw_hash z n) z n)"

section \<open>One token\<close>

definition isIdChar :: "nat list" where
  "isIdChar =
    [0, 0, 0, 0, 0, 0, 0, 0, 0, 0, 0, 0, 0, 0, 0, 0,
     0, 0, 0, 0, 0, 0, 0, 0, 0, 0, 0, 0, 0, 0, 0, 0,
     0, 0, 0, 0, 0, 0, 0, 0, 0, 0, 0, 0, 0, 0, 0, 0,
     1, 1, 1, 1, 1, 1, 1, 1, 1, 1, 0, 0, 0, 0, 0, 0,
     0, 1, 1, 1, 1, 1, 1, 1, 1, 1, 1, 1, 1, 1, 1, 1,
     1, 1, 1, 1, 1, 1, 1, 1, 1, 1, 1, 0, 0, 0, 0, 1,
     0, 1, 1, 1, 1, 1, 1, 1, 1, 1, 1, 1, 1, 1, 1, 1,
     1, 1, 1, 1, 1, 1, 1, 1, 1, 1, 1, 0, 0, 0, 0, 0]"

definition id_char :: "char \<Rightarrow> bool" where
  \<comment> \<open>(c\&0x80)!=0 || isIdChar[c]\<close>
  "id_char c \<longleftrightarrow> 128 \<le> uchar c \<or> isIdChar ! uchar c \<noteq> 0"

definition isspace :: "char \<Rightarrow> bool" where
  "isspace c \<longleftrightarrow> uchar c = 32 \<or> 9 \<le> uchar c \<and> uchar c \<le> 13"

text \<open>The number of characters a loop over a class of characters skips; the terminator is in none of the classes.\<close>

abbreviation span :: "(char \<Rightarrow> bool) \<Rightarrow> string \<Rightarrow> nat" where
  "span P z \<equiv> length (takeWhile P z)"

fun comment_end :: "char \<Rightarrow> string \<Rightarrow> nat" where
  \<comment> \<open>z[i] \&\& (z[i]!='/' || z[i-1]!='*')\<close>
  "comment_end prev [] = 0"
| "comment_end prev (c # z) = (if c = CHR ''/'' \<and> prev = CHR ''*'' then 0 else 1 + comment_end c z)"

definition slash_token :: "string \<Rightarrow> nat \<times> token" where
  "slash_token z =
     (if zhd (tl z) \<noteq> CHR ''*'' \<or> zhd (tl (tl z)) = NUL then (1, TK_SLASH)
      else
        let i = 3 + comment_end (zhd (drop 2 z)) (drop 3 z)
        in (if i < length z then i + 1 else i, TK_COMMENT))"

fun string_end :: "char \<Rightarrow> string \<Rightarrow> nat" where
  \<comment> \<open>a doubled delimiter is skipped, a single one ends the loop\<close>
  "string_end delim [] = 0"
| "string_end delim [c] = (if c = delim then 0 else 1)"
| "string_end delim (c # d # z) =
     (if c = delim then (if d = delim then 2 + string_end delim z else 0) else 1 + string_end delim (d # z))"

definition string_token :: "char \<Rightarrow> string \<Rightarrow> nat \<times> token" where
  "string_token delim z =
     (let i = 1 + string_end delim (tl z) in (if i < length z then i + 1 else i, TK_STRING))"

definition number_token :: "string \<Rightarrow> nat \<times> token" where
  "number_token z =
     (let i = 1 + span isdigit (tl z);
          (i, t) = (if zhd (drop i z) = CHR ''.'' \<and> isdigit (zhd (drop (i + 1) z))
                    then (i + 2 + span isdigit (drop (i + 2) z), TK_FLOAT) else (i, TK_INTEGER))
      in if (zhd (drop i z) = CHR ''e'' \<or> zhd (drop i z) = CHR ''E'') \<and>
            (isdigit (zhd (drop (i + 1) z)) \<or>
             (zhd (drop (i + 1) z) = CHR ''+'' \<or> zhd (drop (i + 1) z) = CHR ''-'') \<and> isdigit (zhd (drop (i + 2) z)))
         then (i + 2 + span isdigit (drop (i + 2) z), TK_FLOAT) else (i, t))"

fun bracket_end :: "char \<Rightarrow> string \<Rightarrow> nat" where
  \<comment> \<open>z[i] \&\& z[i-1]!=']'\<close>
  "bracket_end prev [] = 0"
| "bracket_end prev (c # z) = (if prev = CHR '']'' then 0 else 1 + bracket_end c z)"

definition word_token :: "string \<Rightarrow> (nat \<times> token) option" where
  "word_token z =
     (if \<not> id_char (zhd z) then Some (1, TK_ILLEGAL)
      else do {
        let i = 1 + span id_char (tl z);
        t \<leftarrow> sqliteKeywordCode z (int i);
        Some (i, t) })"

definition sqliteGetToken :: "string \<Rightarrow> (nat \<times> token) option" where
  "sqliteGetToken z =
     (let c = zhd z; c1 = zhd (tl z)
      in if c \<in> {CHR '' '', CHR 0x09, CHR 0x0A, CHR 0x0C, CHR 0x0D} then Some (1 + span isspace (tl z), TK_SPACE)
         else if c = CHR ''-'' then
           Some (if c1 = CHR ''-'' then (2 + span (\<lambda>c. c \<noteq> CHR 0x0A) (drop 2 z), TK_COMMENT) else (1, TK_MINUS))
         else if c = CHR ''('' then Some (1, TK_LP)
         else if c = CHR '')'' then Some (1, TK_RP)
         else if c = CHR '';'' then Some (1, TK_SEMI)
         else if c = CHR ''+'' then Some (1, TK_PLUS)
         else if c = CHR ''*'' then Some (1, TK_STAR)
         else if c = CHR ''/'' then Some (slash_token z)
         else if c = CHR ''%'' then Some (1, TK_REM)
         else if c = CHR ''='' then Some (1 + (if c1 = CHR ''='' then 1 else 0), TK_EQ)
         else if c = CHR ''<'' then
           Some (if c1 = CHR ''='' then (2, TK_LE) else if c1 = CHR ''>'' then (2, TK_NE)
                 else if c1 = CHR ''<'' then (2, TK_LSHIFT) else (1, TK_LT))
         else if c = CHR ''>'' then
           Some (if c1 = CHR ''='' then (2, TK_GE) else if c1 = CHR ''>'' then (2, TK_RSHIFT) else (1, TK_GT))
         else if c = CHR ''!'' then Some (2, if c1 \<noteq> CHR ''='' then TK_ILLEGAL else TK_NE)
         else if c = CHR ''|'' then Some (if c1 \<noteq> CHR ''|'' then (1, TK_BITOR) else (2, TK_CONCAT))
         else if c = CHR '','' then Some (1, TK_COMMA)
         else if c = CHR ''&'' then Some (1, TK_BITAND)
         else if c = CHR ''~'' then Some (1, TK_BITNOT)
         else if c = CHR 0x27 \<or> c = CHR 0x22 then Some (string_token c z)
         else if c = CHR ''.'' then Some (1, TK_DOT)
         else if isdigit c then Some (number_token z)
         else if c = CHR ''['' then Some (1 + bracket_end c (tl z), TK_ID)
         else if c = CHR ''?'' then Some (1, TK_VARIABLE)
         else word_token z)"

section \<open>Running the parser\<close>

text \<open>
  The fields of \<^verbatim>\<open>Parse\<close> this file uses; pointers to objects it only deletes are kept as
  their being set, positions in the text as indices. The generated parser is a parameter: it takes
  its own state, a token type, the token and the context, and returns both states. So are the
  moments at which another thread has set the interrupt flag or memory has run out, by the index
  the loop has reached.
\<close>

record parse_ctx =
  rc :: int
  zErrMsg :: "string option"
  sLastToken :: "nat \<times> nat"
  zTail :: nat
  nErr :: int
  pVdbe :: bool
  pNewTable :: bool
  pNewTrigger :: bool

type_synonym 'e parser = "'e \<Rightarrow> token \<Rightarrow> nat \<times> nat \<Rightarrow> parse_ctx \<Rightarrow> 'e \<times> parse_ctx"

abbreviation (input) SQLITE_OK :: int where "SQLITE_OK \<equiv> 0"
abbreviation (input) SQLITE_ERROR :: int where "SQLITE_ERROR \<equiv> 1"
abbreviation (input) SQLITE_INTERRUPT :: int where "SQLITE_INTERRUPT \<equiv> 9"
abbreviation (input) SQLITE_DONE :: int where "SQLITE_DONE \<equiv> 101"

text \<open>What the loop leaves: the index, the states, the last token, the errors and the message it has set.\<close>

type_synonym 'e loop_result = "nat \<times> 'e \<times> parse_ctx \<times> int \<times> int \<times> string option"

partial_function (option) parser_loop ::
  "'e parser \<Rightarrow> (nat \<Rightarrow> bool) \<Rightarrow> (nat \<Rightarrow> bool) \<Rightarrow> string \<Rightarrow> nat \<Rightarrow> 'e \<Rightarrow> parse_ctx \<Rightarrow> int \<Rightarrow> string option \<Rightarrow> 'e loop_result option"
where
  "parser_loop parser interrupted malloc_failed z i e p lastTok msg =
     (if malloc_failed i then Some (i, e, p, lastTok, 0, msg)
      else do {
        c \<leftarrow> zat z i;
        if c = NUL then Some (i, e, p, lastTok, 0, msg)
        else do {
          (n, t) \<leftarrow> sqliteGetToken (drop i z);
          let p = p\<lparr>sLastToken := (i, n)\<rparr>;
          let i = i + n;
          if t = TK_SPACE \<or> t = TK_COMMENT then
            if interrupted i then Some (i, e, p\<lparr>rc := SQLITE_INTERRUPT\<rparr>, lastTok, 0, Some ''interrupt'')
            else parser_loop parser interrupted malloc_failed z i e p lastTok msg
          else if t = TK_ILLEGAL then
            Some (i, e, p, lastTok, 1,
              sqliteSetNString True
                [(''unrecognized token: '' @ [CHR 0x22], -1), (drop (i - n) z, int n), ([CHR 0x22], 1)])
          else
            let p = (if t = TK_SEMI then p\<lparr>zTail := i\<rparr> else p);
                (e, p) = parser e t (sLastToken p) p
            in if rc p \<noteq> SQLITE_OK then Some (i, e, p, int t, 0, msg)
               else parser_loop parser interrupted malloc_failed z i e p (int t) msg } })"

text \<open>The part behind the label \<^verbatim>\<open>abort_parse\<close>: the end of the input, and the error message.\<close>

definition parser_end :: "'e parser \<Rightarrow> string \<Rightarrow> 'e loop_result \<Rightarrow> ('e \<times> parse_ctx) option" where
  "parser_end parser z r = (case r of (i, e, p, lastTok, nErrs, msg) \<Rightarrow> do {
     c \<leftarrow> zat z i;
     Some (if c = NUL \<and> nErrs = 0 \<and> rc p = SQLITE_OK then
             let (e, p) = (if lastTok \<noteq> int TK_SEMI
                           then case parser e TK_SEMI (sLastToken p) p of (e, p) \<Rightarrow> (e, p\<lparr>zTail := i\<rparr>)
                           else (e, p))
             in parser e 0 (sLastToken p) p
           else (e, p)) })"

definition parser_errors :: "(int \<Rightarrow> string) \<Rightarrow> parse_ctx \<Rightarrow> int \<Rightarrow> string option \<Rightarrow> int \<times> parse_ctx \<times> string option" where
  "parser_errors error_string p nErrs msg =
     (let p = (if rc p \<noteq> SQLITE_OK \<and> rc p \<noteq> SQLITE_DONE \<and> zErrMsg p = None
               then p\<lparr>zErrMsg := Some (error_string (rc p))\<rparr> else p);
          (nErrs, p, msg) = (case zErrMsg p of None \<Rightarrow> (nErrs, p, msg)
            | Some m \<Rightarrow> (if nErrs = 0 then 1 else nErrs, p\<lparr>zErrMsg := None\<rparr>, if msg = None then Some m else msg));
          p = (if pVdbe p \<and> nErr p > 0 then p\<lparr>pVdbe := False\<rparr> else p);
          p = p\<lparr>pNewTable := False, pNewTrigger := False\<rparr>;
          p = (if nErrs > 0 \<and> (rc p = SQLITE_OK \<or> rc p = SQLITE_DONE) then p\<lparr>rc := SQLITE_ERROR\<rparr> else p)
      in (nErrs, p, msg))"

text \<open>\<open>engine\<close> is what \<^verbatim>\<open>sqliteParserAlloc\<close> returns; \<open>msg\<close> the message \<^verbatim>\<open>pzErrMsg\<close> points to.\<close>

definition sqliteRunParser ::
  "'e parser \<Rightarrow> 'e option \<Rightarrow> (nat \<Rightarrow> bool) \<Rightarrow> (nat \<Rightarrow> bool) \<Rightarrow> (int \<Rightarrow> string) \<Rightarrow> parse_ctx \<Rightarrow> string \<Rightarrow> string option \<Rightarrow>
    (int \<times> 'e option \<times> parse_ctx \<times> string option) option"
where
  "sqliteRunParser parser engine interrupted malloc_failed error_string p z msg =
     (let p = p\<lparr>rc := SQLITE_OK\<rparr>
      in case engine of
        None \<Rightarrow> Some (1, None, p, sqliteSetString True [''out of memory''])
      | Some e \<Rightarrow> do {
          r \<leftarrow> parser_loop parser interrupted malloc_failed z 0 e (p\<lparr>zTail := 0\<rparr>) (-1) msg;
          (e, p) \<leftarrow> parser_end parser z r;
          (case r of (_, _, _, _, nErrs, msg) \<Rightarrow>
             case parser_errors error_string p nErrs msg of (nErrs, p, msg) \<Rightarrow> Some (nErrs, Some e, p, msg)) })"

section \<open>Complete statements\<close>

datatype complete_token = tkEXPLAIN | tkCREATE | tkTEMP | tkTRIGGER | tkEND | tkSEMI | tkWS | tkOTHER

fun token_index :: "complete_token \<Rightarrow> nat" where
  "token_index tkEXPLAIN = 0" | "token_index tkCREATE = 1" | "token_index tkTEMP = 2" | "token_index tkTRIGGER = 3"
| "token_index tkEND = 4" | "token_index tkSEMI = 5" | "token_index tkWS = 6" | "token_index tkOTHER = 7"

definition trans :: "nat list list" where
  "trans =
    [[1, 2, 3, 3, 3, 0, 0, 3],
     [3, 2, 3, 3, 3, 0, 1, 3],
     [3, 3, 2, 4, 3, 0, 2, 3],
     [3, 3, 3, 3, 3, 0, 3, 3],
     [4, 4, 4, 4, 4, 5, 4, 4],
     [4, 4, 4, 4, 6, 5, 5, 4],
     [4, 4, 4, 4, 4, 0, 6, 4]]"

text \<open>\<^verbatim>\<open>isIdChar[(u8)c]\<close>, which this routine uses without the test for the upper half: nothing for a character outside the array.\<close>

definition id_char_at :: "char \<Rightarrow> bool option" where
  "id_char_at c = (if uchar c < length isIdChar then Some (isIdChar ! uchar c \<noteq> 0) else None)"

fun id_span :: "string \<Rightarrow> nat option" where
  \<comment> \<open>for(nId=1; isIdChar[(u8)zSql[nId]]; nId++)\<close>
  "id_span [] = Some 0"
| "id_span (c # z) = do { b \<leftarrow> id_char_at c; if b then map_option Suc (id_span z) else Some 0 }"

definition word_complete :: "string \<Rightarrow> nat \<Rightarrow> complete_token" where
  "word_complete z nId =
     (if zhd z = CHR ''c'' \<or> zhd z = CHR ''C'' then
        if nId = 6 \<and> sqliteStrNICmp z ''create'' 6 = 0 then tkCREATE else tkOTHER
      else if zhd z = CHR ''t'' \<or> zhd z = CHR ''T'' then
        if nId = 7 \<and> sqliteStrNICmp z ''trigger'' 7 = 0 then tkTRIGGER
        else if nId = 4 \<and> sqliteStrNICmp z ''temp'' 4 = 0 then tkTEMP
        else if nId = 9 \<and> sqliteStrNICmp z ''temporary'' 9 = 0 then tkTEMP
        else tkOTHER
      else if zhd z = CHR ''e'' \<or> zhd z = CHR ''E'' then
        if nId = 3 \<and> sqliteStrNICmp z ''end'' 3 = 0 then tkEND
        else if nId = 7 \<and> sqliteStrNICmp z ''explain'' 7 = 0 then tkEXPLAIN
        else tkOTHER
      else tkOTHER)"

text \<open>The text behind the next \<^verbatim>\<open>*/\<close>, without the \<^verbatim>\<open>*\<close>.\<close>

fun skip_comment :: "string \<Rightarrow> string" where
  \<comment> \<open>zSql[0] \&\& (zSql[0]!='*' || zSql[1]!='/')\<close>
  "skip_comment [] = []"
| "skip_comment (c # z) = (if c \<noteq> CHR ''*'' \<or> zhd z \<noteq> CHR ''/'' then skip_comment z else c # z)"

text \<open>
  One token: its class and the text at its last character, from which the loop steps on, or
  \<open>Inl\<close> the result if the text ends inside the token.
\<close>

definition next_complete :: "nat \<Rightarrow> string \<Rightarrow> (bool + complete_token \<times> string) option" where
  "next_complete state z =
     (let c = zhd z
      in if c = CHR '';'' then Some (Inr (tkSEMI, z))
         else if c \<in> {CHR '' '', CHR 0x0D, CHR 0x09, CHR 0x0A, CHR 0x0C} then Some (Inr (tkWS, z))
         else if c = CHR ''/'' then
           if zhd (tl z) \<noteq> CHR ''*'' then Some (Inr (tkOTHER, z))
           else
             let z = skip_comment (drop 2 z)
             in if z = [] then Some (Inl False) else Some (Inr (tkWS, tl z))
         else if c = CHR ''-'' then
           if zhd (tl z) \<noteq> CHR ''-'' then Some (Inr (tkOTHER, z))
           else
             let z = dropWhile (\<lambda>c. c \<noteq> CHR 0x0A) z
             in if z = [] then Some (Inl (state = 0)) else Some (Inr (tkWS, z))
         else if c = CHR ''['' then
           let z = dropWhile (\<lambda>c. c \<noteq> CHR '']'') (tl z)
           in if z = [] then Some (Inl False) else Some (Inr (tkOTHER, z))
         else if c = CHR 0x22 \<or> c = CHR 0x27 then
           let z = dropWhile (\<lambda>d. d \<noteq> c) (tl z)
           in if z = [] then Some (Inl False) else Some (Inr (tkOTHER, z))
         else do {
           b \<leftarrow> id_char_at c;
           if b then do {
             n \<leftarrow> id_span (tl z);
             Some (Inr (word_complete z (n + 1), drop n z)) }
           else Some (Inr (tkOTHER, z)) })"

partial_function (option) complete_loop :: "nat \<Rightarrow> string \<Rightarrow> bool option" where
  \<comment> \<open>while( *zSql )\<close>
  "complete_loop state z =
     (if z = [] then Some (state = 0)
      else do {
        r \<leftarrow> next_complete state z;
        (case r of Inl b \<Rightarrow> Some b
         | Inr (token, z) \<Rightarrow> complete_loop (trans ! state ! token_index token) (tl z)) })"

definition sqlite_complete :: "string \<Rightarrow> bool option" where
  "sqlite_complete z = complete_loop 0 z"

end
