(* ===== verification/TokProps.thy ===== *)
theory TokProps
  imports Tokenize
begin

text \<open>
  The properties of the tokenizer: the keyword chains find exactly the keywords, every token is a
  non-empty part of the text, quoted strings are single tokens, the parser is fed the tokens of the
  text, and the test for complete statements decomposes at line ends.
\<close>

section \<open>Keywords\<close>

fun chained :: "nat list \<Rightarrow> nat \<Rightarrow> nat list \<Rightarrow> bool" where
  "chained nexts i [] \<longleftrightarrow> i = 0"
| "chained nexts i (j # js) \<longleftrightarrow> i = j + 1 \<and> j < length nexts \<and> chained nexts (nexts ! j) js"

abbreviation kw_slot :: "nat \<Rightarrow> nat" where
  "kw_slot j \<equiv> kw_hash (fst (aKeywordTable ! j)) (int (length (fst (aKeywordTable ! j))))"

lemma chained_append: "chained nexts i js \<Longrightarrow> chained (nexts @ xs) i js"
  by (induction js arbitrary: i) (auto simp: nth_append)

lemma kw_hash_less: "kw_hash z n < KEY_HASH_SIZE"
  by (simp add: kw_hash_def KEY_HASH_SIZE_def unat_mod_distrib)

lemma keyword_chains_ok:
  "keyword_chains i = (heads, nexts) \<Longrightarrow> length heads = KEY_HASH_SIZE \<and> length nexts = i \<and>
    (\<forall>h < KEY_HASH_SIZE. chained nexts (heads ! h) (rev (filter (\<lambda>j. kw_slot j = h) [0..<i])))"
proof (induction i arbitrary: heads nexts)
  case (Suc i)
  obtain heads' nexts' where c: "keyword_chains i = (heads', nexts')" by fastforce
  note IH = Suc.IH [OF c]
  let ?h = "kw_slot i"
  have h: "heads = heads'[?h := i + 1]" "nexts = nexts' @ [heads' ! ?h]"
    using Suc.prems c by (simp_all add: case_prod_beta Let_def)
  have "chained nexts (heads ! h) (rev (filter (\<lambda>j. kw_slot j = h) [0..<Suc i]))" if "h < KEY_HASH_SIZE" for h
  proof (cases "h = ?h")
    case True
    have "chained nexts (heads' ! h) (rev (filter (\<lambda>j. kw_slot j = h) [0..<i]))"
      unfolding h(2) by (rule chained_append) (use IH that in blast)
    then show ?thesis using True IH that by (simp add: h nth_append)
  next
    case False
    have "chained nexts (heads' ! h) (rev (filter (\<lambda>j. kw_slot j = h) [0..<i]))"
      unfolding h(2) by (rule chained_append) (use IH that in blast)
    then show ?thesis using False by (simp add: h)
  qed
  then show ?case using IH by (simp add: h)
qed simp

lemma keyword_loop_ok:
  "chained nexts i js \<Longrightarrow> keyword_loop nexts i z n =
    Some (case find (\<lambda>j. int (length (fst (aKeywordTable ! j))) = n \<and> sqliteStrNICmp (fst (aKeywordTable ! j)) z n = 0) js of
      None \<Rightarrow> TK_ID | Some j \<Rightarrow> snd (aKeywordTable ! j))"
proof (induction js arbitrary: i)
  case (Cons j js)
  then show ?case by (subst keyword_loop.simps) (simp add: case_prod_beta)
qed (simp add: keyword_loop.simps)

definition keyword_map :: "nat list \<Rightarrow> token option" where
  "keyword_map = map_of (map (\<lambda>(w, t). (map u2l w, t)) aKeywordTable)"

lemma keywords_cstring: "list_all (\<lambda>(w, t). cstring w \<and> w \<noteq> []) aKeywordTable"
  by (simp add: aKeywordTable_def NUL_def)

lemma keywords_upper: "list_all (\<lambda>(w, t). list_all (\<lambda>c. u2l c = uchar c + 32) w) aKeywordTable"
  by (simp add: aKeywordTable_def u2l_eq)

lemma keywords_distinct: "distinct (map fst aKeywordTable)"
  by code_simp

lemma keywords_inj:
  assumes "i < length aKeywordTable" "j < length aKeywordTable"
    and "map u2l (fst (aKeywordTable ! i)) = map u2l (fst (aKeywordTable ! j))"
  shows "i = j"
proof -
  have up: "map u2l (fst (aKeywordTable ! k)) = map (\<lambda>c. uchar c + 32) (fst (aKeywordTable ! k))" if "k < length aKeywordTable" for k
  proof -
    have "case aKeywordTable ! k of (w, t) \<Rightarrow> list_all (\<lambda>c. u2l c = uchar c + 32) w"
      using keywords_upper that by (simp only: list_all_length)
    then show ?thesis by (auto simp: case_prod_beta list_all_iff)
  qed
  have "inj (\<lambda>c. uchar c + 32)" by (rule injI) simp
  then have "fst (aKeywordTable ! i) = fst (aKeywordTable ! j)"
    using assms by (simp only: up inj_map_eq_map)
  then show ?thesis
    using nth_eq_iff_index_eq [OF keywords_distinct, of i j] assms(1,2) by simp
qed

lemma keyword_code:
  assumes "0 < n" "n \<le> length z"
  shows "sqliteKeywordCode z (int n) = Some (case keyword_map (map u2l (take n z)) of None \<Rightarrow> TK_ID | Some t \<Rightarrow> t)"
proof -
  let ?K = "length aKeywordTable"
  let ?w = "\<lambda>j. fst (aKeywordTable ! j)"
  let ?m = "\<lambda>j. map u2l (?w j) = map u2l (take n z)"
  let ?P = "\<lambda>j. int (length (?w j)) = int n \<and> sqliteStrNICmp (?w j) z (int n) = 0"
  obtain heads nexts where c: "keyword_chains ?K = (heads, nexts)" by fastforce
  define js where "js = rev (filter (\<lambda>j. kw_slot j = kw_hash z (int n)) [0..<?K])"
  have ch: "chained nexts (heads ! kw_hash z (int n)) js"
    using keyword_chains_ok [OF c] kw_hash_less by (simp add: js_def)
  have code: "sqliteKeywordCode z (int n) = Some (case find ?P js of None \<Rightarrow> TK_ID | Some j \<Rightarrow> snd (aKeywordTable ! j))"
    using keyword_loop_ok [OF ch, of z "int n"] by (simp add: sqliteKeywordCode_def c)
  have P: "?P j \<longleftrightarrow> ?m j" if j: "j < ?K" for j
  proof -
    have "case aKeywordTable ! j of (w, t) \<Rightarrow> cstring w \<and> w \<noteq> []" using keywords_cstring j by (simp only: list_all_length)
    then have cs: "cstring (take (n - 1) (?w j))" by (auto simp: case_prod_beta cstring_def dest: in_set_takeD)
    show ?thesis
    proof (cases "length (?w j) = n")
      case True
      have "sqliteStrNICmp (?w j) z (int n) = 0 \<longleftrightarrow> map u2l (take n (?w j)) = map u2l (take n z)"
        using StrNICmp_take [of n "?w j" z] True assms(2) cs by simp
      then show ?thesis using True by simp
    next
      case False
      moreover have "?m j \<Longrightarrow> length (?w j) = length (take n z)" by (rule map_eq_imp_length_eq)
      ultimately show ?thesis using assms(2) by auto
    qed
  qed
  show ?thesis
  proof (cases "\<exists>j < ?K. ?m j")
    case True
    then obtain j where j: "j < ?K" "?m j" by blast
    have len: "length (?w j) = n" using map_eq_imp_length_eq [OF j(2)] assms(2) by simp
    have "kw_slot j = kw_hash z (int n)"
      using hashNoCase_loop_cong [OF j(2), of 0] len assms by (simp add: kw_hash_def sqliteHashNoCase_def)
    then have mem: "j \<in> set js" using j(1) by (simp add: js_def)
    have uniq: "k = j" if "k \<in> set js" "?P k" for k
      using that P keywords_inj [of k j] j by (auto simp: js_def)
    have "find ?P js = Some j"
    proof (cases "find ?P js")
      case None
      then show ?thesis using mem P [OF j(1)] j(2) by (auto simp: find_None_iff)
    next
      case (Some k)
      then have "k \<in> set js" "?P k" by (auto simp: find_Some_iff)
      then show ?thesis using Some uniq by simp
    qed
    moreover have "keyword_map (map u2l (take n z)) = Some (snd (aKeywordTable ! j))"
    proof -
      have d: "distinct (map fst (map (\<lambda>(w, t). (map u2l w, t)) aKeywordTable))"
        unfolding distinct_conv_nth by (auto simp: case_prod_beta dest: keywords_inj)
      have "(map u2l (take n z), snd (aKeywordTable ! j)) \<in> set (map (\<lambda>(w, t). (map u2l w, t)) aKeywordTable)"
        using j by (force simp: set_conv_nth case_prod_beta)
      then show ?thesis unfolding keyword_map_def by (rule map_of_is_SomeI [OF d])
    qed
    ultimately show ?thesis using code by simp
  next
    case False
    have "find ?P js = None" using False P by (auto simp: find_None_iff js_def)
    moreover have "keyword_map (map u2l (take n z)) = None"
    proof -
      have "map u2l (take n z) \<notin> fst ` set (map (\<lambda>(w, t). (map u2l w, t)) aKeywordTable)"
      proof
        assume "map u2l (take n z) \<in> fst ` set (map (\<lambda>(w, t). (map u2l w, t)) aKeywordTable)"
        then obtain w t where "(w, t) \<in> set aKeywordTable" "map u2l w = map u2l (take n z)" by auto
        then show False using False by (auto simp: in_set_conv_nth)
      qed
      then show ?thesis by (simp only: keyword_map_def map_of_eq_None_iff not_False_eq_True)
    qed
    ultimately show ?thesis using code by simp
  qed
qed

section \<open>Tokens\<close>

lemma comment_end_le: "comment_end prev z \<le> length z"
  by (induction prev z rule: comment_end.induct) auto

lemma bracket_end_le: "bracket_end prev z \<le> length z"
  by (induction prev z rule: bracket_end.induct) auto

lemma string_end_le: "string_end d z \<le> length z"
  by (induction d z rule: string_end.induct) auto

lemma span_le: "span P z \<le> length z"
  by (rule length_takeWhile_le)

lemma zhd_ne: "zhd z \<noteq> NUL \<Longrightarrow> z \<noteq> []"
  by auto

lemma isdigit_ne: "isdigit (zhd z) \<Longrightarrow> z \<noteq> []"
  by (auto dest: zhd_ne)

lemma zhd_drop_len: "zhd (drop i z) \<noteq> NUL \<Longrightarrow> i < length z"
  using zhd_ne [of "drop i z"] by simp

lemma isdigit_drop_len: "isdigit (zhd (drop i z)) \<Longrightarrow> i < length z"
  by (rule zhd_drop_len) auto

lemma span_drop_le: "i \<le> length z \<Longrightarrow> i + span P (drop i z) \<le> length z"
  using span_le [of P "drop i z"] by simp

lemma number_token_le: "z \<noteq> [] \<Longrightarrow> 1 \<le> fst (number_token z) \<and> fst (number_token z) \<le> length z"
proof -
  assume z: "z \<noteq> []"
  define i0 where "i0 = 1 + span isdigit (tl z)"
  have i0: "1 \<le> i0" "i0 \<le> length z" using span_le [of isdigit "tl z"] z by (auto simp: i0_def) (cases z; simp)
  define c where "c \<longleftrightarrow> zhd (drop i0 z) = CHR ''.'' \<and> isdigit (zhd (drop (i0 + 1) z))"
  define i1 where "i1 = (if c then i0 + 2 + span isdigit (drop (i0 + 2) z) else i0)"
  have i1: "1 \<le> i1" "i1 \<le> length z"
    using i0 isdigit_drop_len [of "i0 + 1" z] span_drop_le [of "i0 + 2" z isdigit] by (auto simp: i1_def c_def)
  have f: "fst (number_token z) = i1 \<or> i1 + 1 < length z \<and> fst (number_token z) = i1 + 2 + span isdigit (drop (i1 + 2) z)"
    using isdigit_drop_len [of "i1 + 1" z] isdigit_drop_len [of "i1 + 2" z]
    unfolding number_token_def i0_def [symmetric] Let_def c_def [symmetric] by (auto simp: i1_def)
  then show ?thesis using i1 span_drop_le [of "i1 + 2" z isdigit] by auto
qed

lemma slash_token_le: "zhd z = CHR ''/'' \<Longrightarrow> 1 \<le> fst (slash_token z) \<and> fst (slash_token z) \<le> length z"
proof -
  assume h: "zhd z = CHR ''/''"
  then have z: "z \<noteq> []" by (auto simp: NUL_def)
  show ?thesis
  proof (cases "zhd (tl z) \<noteq> CHR ''*'' \<or> zhd (tl (tl z)) = NUL")
    case True
    then show ?thesis using z by (cases z) (auto simp: slash_token_def)
  next
    case False
    then have "3 \<le> length z" using zhd_ne [of "tl (tl z)"] by (cases z; cases "tl z"; cases "tl (tl z)") auto
    then show ?thesis using False comment_end_le [of "zhd (drop 2 z)" "drop 3 z"] by (auto simp: slash_token_def Let_def)
  qed
qed

lemma string_token_le: "z \<noteq> [] \<Longrightarrow> 1 \<le> fst (string_token d z) \<and> fst (string_token d z) \<le> length z"
  using string_end_le [of d "tl z"] by (cases z) (auto simp: string_token_def Let_def)

lemma word_token_le:
  assumes "z \<noteq> []"
  shows "\<exists>n t. word_token z = Some (n, t) \<and> 1 \<le> n \<and> n \<le> length z"
proof (cases "id_char (zhd z)")
  case True
  have "1 + span id_char (tl z) \<le> length z" using span_le [of id_char "tl z"] assms by (cases z) auto
  then show ?thesis using True keyword_code [of "1 + span id_char (tl z)" z] by (simp add: word_token_def)
next
  case False
  then show ?thesis using assms by (cases z) (auto simp: word_token_def)
qed

lemma pair_ex: "1 \<le> fst r \<and> fst r \<le> m \<Longrightarrow> \<exists>n t. Some r = Some (n, t) \<and> 1 \<le> n \<and> n \<le> (m::nat)"
  by (cases r) auto

lemma getToken_le:
  assumes "z \<noteq> []" "z \<noteq> ''!''"
  shows "\<exists>n t. sqliteGetToken z = Some (n, t) \<and> 1 \<le> n \<and> n \<le> length z"
proof -
  obtain c z' where z: "z = c # z'" using assms(1) by (cases z) auto
  have two: "zhd z' = d \<Longrightarrow> d \<noteq> NUL \<Longrightarrow> 2 \<le> length z" for d by (cases z') (auto simp: z)
  have sp: "1 + span P z' \<le> length z" for P using span_le [of P z'] by (simp add: z)
  have br: "1 + bracket_end d z' \<le> length z" for d using bracket_end_le [of d z'] by (simp add: z)
  have cm: "zhd z' = CHR ''-'' \<Longrightarrow> 2 + span P (tl z') \<le> length z" for P
    using span_le [of P "tl z'"] by (cases z') (auto simp: z NUL_def)
  have ex: "c = CHR ''!'' \<Longrightarrow> 2 \<le> length z" using assms(2) by (cases z') (auto simp: z)
  have st: "\<exists>n t. Some (string_token d z) = Some (n, t) \<and> 1 \<le> n \<and> n \<le> length z" for d
    by (rule pair_ex, rule string_token_le [OF assms(1)])
  have sl: "c = CHR ''/'' \<Longrightarrow> \<exists>n t. Some (slash_token z) = Some (n, t) \<and> 1 \<le> n \<and> n \<le> length z"
    by (rule pair_ex, rule slash_token_le) (simp add: z)
  have nu: "\<exists>n t. Some (number_token z) = Some (n, t) \<and> 1 \<le> n \<and> n \<le> length z"
    by (rule pair_ex, rule number_token_le [OF assms(1)])
  have one: "1 \<le> length z" by (simp add: z)
  note w = word_token_le [OF assms(1)]
  show ?thesis
    using sp [of isspace] br cm ex st sl nu one w two [of "CHR ''=''"] two [of "CHR ''>''"] two [of "CHR ''<''"] two [of "CHR ''|''"]
    unfolding sqliteGetToken_def Let_def
    by (simp add: z NUL_def drop_Suc del: One_nat_def)
qed

section \<open>The tokens of a text\<close>

text \<open>All tokens, with their type, position and length, as the loop of \<^verbatim>\<open>sqliteRunParser\<close> steps through the text.\<close>

function lex_at :: "nat \<Rightarrow> string \<Rightarrow> (token \<times> nat \<times> nat) list" where
  "lex_at i z =
     (case sqliteGetToken z of
        None \<Rightarrow> []
      | Some (n, t) \<Rightarrow> if z = [] \<or> n = 0 then [] else (t, i, n) # lex_at (i + n) (drop n z))"
  by pat_completeness auto
termination
  by (relation "measure (length \<circ> snd)") auto

declare lex_at.simps [simp del]

lemma lex_at_Nil [simp]: "lex_at i [] = []"
  by (simp add: lex_at.simps split: option.split)

lemma lex_at_step:
  assumes "z \<noteq> []"
  shows "\<exists>n t. sqliteGetToken z = Some (n, t) \<and> 1 \<le> n \<and> (n \<le> length z \<or> z = ''!'' \<and> n = 2) \<and>
    lex_at i z = (t, i, n) # lex_at (i + n) (drop n z)"
proof (cases "z = ''!''")
  case True
  have "sqliteGetToken ''!'' = Some (2, TK_ILLEGAL)" by (simp add: sqliteGetToken_def NUL_def)
  moreover from this have "lex_at i ''!'' = [(TK_ILLEGAL, i, 2)]" by (subst lex_at.simps) simp
  ultimately show ?thesis using True by simp
next
  case False
  then show ?thesis using getToken_le [OF assms] assms by (auto simp: lex_at.simps)
qed

lemma lex_at_texts: "concat (map (\<lambda>(t, j, n). take n (drop (j - i) z)) (lex_at i z)) = z \<and> (\<forall>(t, j, n) \<in> set (lex_at i z). i \<le> j \<and> 1 \<le> n \<and>
    (j + n \<le> i + length z \<or> drop (j - i) z = ''!''))"
proof (induction "length z" arbitrary: i z rule: less_induct)
  case less
  show ?case
  proof (cases "z = []")
    case False
    obtain n t where s: "1 \<le> n" "n \<le> length z \<or> z = ''!'' \<and> n = 2" "lex_at i z = (t, i, n) # lex_at (i + n) (drop n z)"
      using lex_at_step [OF False, of i] by blast
    let ?r = "drop n z"
    have "length ?r < length z" using s(1) False by (cases z) auto
    note IH = less [OF this, of "i + n"]
    have sh: "drop (j - (i + n)) ?r = drop (j - i) z" if "(t, j, m) \<in> set (lex_at (i + n) ?r)" for t j m
    proof -
      have "i + n \<le> j" using IH that by blast
      then show ?thesis by (simp add: drop_drop add.commute)
    qed
    have m: "map (\<lambda>(t, j, m). take m (drop (j - i) z)) (lex_at (i + n) ?r) =
        map (\<lambda>(t, j, m). take m (drop (j - (i + n)) ?r)) (lex_at (i + n) ?r)"
    proof (rule map_cong [OF refl])
      fix x assume x: "x \<in> set (lex_at (i + n) ?r)"
      obtain t j m where e: "x = (t, j, m)" by (cases x)
      show "(case x of (t, j, m) \<Rightarrow> take m (drop (j - i) z)) = (case x of (t, j, m) \<Rightarrow> take m (drop (j - (i + n)) ?r))"
        unfolding e prod.case using sh x e by simp
    qed
    have "concat (map (\<lambda>(t, j, n). take n (drop (j - i) z)) (lex_at i z)) = take n z @ ?r"
      unfolding s(3) using IH by (simp add: m)
    moreover have "i \<le> j \<and> 1 \<le> m \<and> (j + m \<le> i + length z \<or> drop (j - i) z = ''!'')"
      if "(t', j, m) \<in> set (lex_at i z)" for t' j m
    proof (cases "(t', j, m) = (t, i, n)")
      case True
      then show ?thesis using s(1,2) by auto
    next
      case ne: False
      then have mem: "(t', j, m) \<in> set (lex_at (i + n) ?r)" using that unfolding s(3) by auto
      have k: "i + n \<le> j" "1 \<le> m" "j + m \<le> i + n + length ?r \<or> drop (j - (i + n)) ?r = ''!''" using IH mem by blast+
      have "?r \<noteq> []" using mem by auto
      then have "n \<le> length z" by simp
      then show ?thesis using k sh [OF mem] by auto
    qed
    ultimately show ?thesis by auto
  qed simp
qed

lemma lex_at_bang: "(t, j, n) \<in> set (lex_at i z) \<Longrightarrow> drop (j - i) z = ''!'' \<Longrightarrow> n = 2"
proof (induction "length z" arbitrary: i z rule: less_induct)
  case less
  have ne: "z \<noteq> []" using less.prems(1) by auto
  obtain m u where s: "sqliteGetToken z = Some (m, u)" "1 \<le> m" "m \<le> length z \<or> z = ''!'' \<and> m = 2" "lex_at i z = (u, i, m) # lex_at (i + m) (drop m z)"
    using lex_at_step [OF ne, of i] by blast
  show ?case
  proof (cases "(t, j, n) = (u, i, m)")
    case True
    then have "z = ''!''" using less.prems(2) by simp
    then have "sqliteGetToken z = Some (2, TK_ILLEGAL)" by (simp add: sqliteGetToken_def NUL_def)
    then show ?thesis using True s(1) by simp
  next
    case False
    then have mem: "(t, j, n) \<in> set (lex_at (i + m) (drop m z))" using less.prems(1) unfolding s(4) by auto
    then have j: "i + m \<le> j" using lex_at_texts [of "i + m" "drop m z"] by blast
    then have "drop (j - (i + m)) (drop m z) = drop (j - i) z" by (simp add: drop_drop add.commute)
    moreover have "length (drop m z) < length z" using s(2) ne by (cases z) auto
    ultimately show ?thesis using less.hyps [OF _ mem] less.prems(2) by simp
  qed
qed

text \<open>A quoted string is one token, whatever it contains.\<close>

lemma string_end_escape:
  "zhd rest \<noteq> d \<Longrightarrow> string_end d (sql_escape d s @ d # rest) = length (sql_escape d s)"
proof (induction s)
  case Nil
  then show ?case by (cases rest) (auto simp: sql_escape_def)
next
  case (Cons c s)
  obtain y ys where y: "sql_escape d s @ d # rest = y # ys" by (cases "sql_escape d s") auto
  show ?case
  proof (cases "c = d")
    case True
    then show ?thesis using Cons by (simp add: sql_escape_def)
  next
    case False
    have "sql_escape d (c # s) @ d # rest = c # y # ys" using False y by (simp add: sql_escape_def)
    then show ?thesis using Cons y False by (simp add: sql_escape_def)
  qed
qed

lemma quoted_token:
  assumes "q \<in> {CHR 0x27, CHR 0x22}" "zhd rest \<noteq> q"
  shows "sqliteGetToken (q # sql_escape q s @ q # rest) = Some (length (sql_escape q s) + 2, TK_STRING)"
proof -
  have e: "string_end q (sql_escape q s @ q # rest) = length (sql_escape q s)" by (rule string_end_escape [OF assms(2)])
  have "sqliteGetToken (q # sql_escape q s @ q # rest) = Some (string_token q (q # sql_escape q s @ q # rest))"
    using assms(1) by (auto simp: sqliteGetToken_def)
  then show ?thesis by (simp add: string_token_def e)
qed

section \<open>What the parser is fed\<close>

text \<open>
  A parser that records the tokens it is called with, around any parser; the tokens that are not
  white space or comments; and a run in which nothing interferes.
\<close>

definition recording :: "'e parser \<Rightarrow> ((token \<times> nat \<times> nat) list \<times> 'e) parser" where
  "recording f e t k p = (case e of (log, e) \<Rightarrow> case f e t k p of (e, p) \<Rightarrow> ((log @ [(t, k)], e), p))"

definition feed :: "(token \<times> nat \<times> nat) list \<Rightarrow> (token \<times> nat \<times> nat) list" where
  "feed = filter (\<lambda>(t, _). t \<noteq> TK_SPACE \<and> t \<noteq> TK_COMMENT)"

definition legal :: "(token \<times> nat \<times> nat) list \<Rightarrow> bool" where
  "legal = list_all (\<lambda>(t, _). t \<noteq> TK_ILLEGAL)"

definition accepting :: "'e parser \<Rightarrow> bool" where
  "accepting f \<longleftrightarrow> (\<forall>e t k p. rc p = SQLITE_OK \<longrightarrow> rc (snd (f e t k p)) = SQLITE_OK)"

abbreviation undisturbed :: "nat \<Rightarrow> bool" where
  "undisturbed \<equiv> \<lambda>_. False"

definition illegal_message :: "string \<Rightarrow> nat \<Rightarrow> nat \<Rightarrow> string option" where
  "illegal_message z j n = sqliteSetNString True
     [(''unrecognized token: '' @ [CHR 0x22], -1), (drop j z, int n), ([CHR 0x22], 1)]"

lemma zat_text: "cstring z \<Longrightarrow> i < length z \<Longrightarrow> \<exists>c. zat z i = Some c \<and> c \<noteq> NUL"
  by (simp add: zat_def cstring_def) (metis nth_mem)

lemma loop_token:
  assumes "cstring z" "i < length z" "sqliteGetToken (drop i z) = Some (n, t)" "t \<noteq> TK_ILLEGAL"
    "f e t (i, n) ((if t = TK_SEMI then (\<lambda>p. p\<lparr>zTail := i + n\<rparr>) else id) (p\<lparr>sLastToken := (i, n)\<rparr>)) = (e', p')" "rc p' = SQLITE_OK"
  shows "parser_loop (recording f) undisturbed undisturbed z i (log, e) p lst msg =
    (if t = TK_SPACE \<or> t = TK_COMMENT
     then parser_loop (recording f) undisturbed undisturbed z (i + n) (log, e) (p\<lparr>sLastToken := (i, n)\<rparr>) lst msg
     else parser_loop (recording f) undisturbed undisturbed z (i + n) (log @ [(t, i, n)], e') p' (int t) msg)"
proof -
  obtain c where c: "zat z i = Some c" "c \<noteq> NUL" using zat_text [OF assms(1,2)] by blast
  have r: "recording f (log, e) t (i, n) (if t = TK_SEMI then p\<lparr>sLastToken := (i, n), zTail := i + n\<rparr> else p\<lparr>sLastToken := (i, n)\<rparr>) =
      ((log @ [(t, i, n)], e'), p')"
    using assms(5) by (auto simp: recording_def)
  show ?thesis
    using c r assms(3,4,6) by (subst parser_loop.simps) (auto simp: Let_def)
qed

lemma parser_loop_feed:
  assumes f: "accepting f" and z: "cstring z"
  shows "i \<le> length z \<Longrightarrow> rc p = SQLITE_OK \<Longrightarrow> lex_at i (drop i z) = pre @ post \<Longrightarrow> legal pre \<Longrightarrow>
    post = [] \<or> fst (hd post) = TK_ILLEGAL \<Longrightarrow>
    \<exists>e' p'. parser_loop (recording f) undisturbed undisturbed z i (log, e) p lst msg =
      Some (case post of [] \<Rightarrow> length z | (t, j, n) # _ \<Rightarrow> j + n, (log @ feed pre, e'), p',
        if feed pre = [] then lst else int (fst (last (feed pre))), if post = [] then 0 else 1,
        case post of [] \<Rightarrow> msg | (t, j, n) # _ \<Rightarrow> illegal_message z j n) \<and> rc p' = SQLITE_OK"
proof (induction pre arbitrary: i log e p lst)
  case Nil
  show ?case
  proof (cases "i = length z")
    case True
    then have "post = []" using Nil.prems(3) by simp
    then show ?thesis using True Nil.prems(2)
      by (subst parser_loop.simps) (simp add: zat_def feed_def)
  next
    case False
    then have i: "i < length z" "drop i z \<noteq> []" using Nil.prems(1) by simp_all
    obtain n t where s: "sqliteGetToken (drop i z) = Some (n, t)" "post = (t, i, n) # lex_at (i + n) (drop n (drop i z))"
      using lex_at_step [OF i(2), of i] Nil.prems(3) by auto
    have t: "t = TK_ILLEGAL" using Nil.prems(5) s(2) by simp
    obtain c where c: "zat z i = Some c" "c \<noteq> NUL" using zat_text [OF z i(1)] by blast
    show ?thesis using c s t Nil.prems(2)
      by (subst parser_loop.simps) (simp add: feed_def illegal_message_def)
  qed
next
  case (Cons x pre)
  have i: "i < length z" "drop i z \<noteq> []" using Cons.prems(1,3) by (cases "i = length z"; simp)+
  obtain n t where s: "sqliteGetToken (drop i z) = Some (n, t)" "n \<le> length (drop i z) \<or> drop i z = ''!'' \<and> n = 2"
    "x = (t, i, n)" "lex_at (i + n) (drop n (drop i z)) = pre @ post"
    using lex_at_step [OF i(2), of i] Cons.prems(3) by auto
  have t: "t \<noteq> TK_ILLEGAL" "legal pre" using Cons.prems(4) s(3) by (simp_all add: legal_def)
  have nb: "drop i z \<noteq> ''!''" using s(1) t(1) by (auto simp: sqliteGetToken_def NUL_def)
  then have n: "i + n \<le> length z" using s(2) i(1) by simp
  have l: "lex_at (i + n) (drop (i + n) z) = pre @ post" using s(4) by (simp add: drop_drop add.commute)
  define q where "q = (if t = TK_SEMI then (\<lambda>p. p\<lparr>zTail := i + n\<rparr>) else id) (p\<lparr>sLastToken := (i, n)\<rparr>)"
  obtain e1 p1 where f1: "f e t (i, n) q = (e1, p1)" by fastforce
  have "rc q = SQLITE_OK" using Cons.prems(2) by (simp add: q_def)
  then have r1: "rc p1 = SQLITE_OK" using f f1 unfolding accepting_def by (metis snd_conv)
  note step = loop_token [OF z i(1) s(1) t(1), of f e p e1 p1 log lst msg, OF f1 [unfolded q_def] r1]
  show ?case
  proof (cases "t = TK_SPACE \<or> t = TK_COMMENT")
    case True
    have r: "rc (p\<lparr>sLastToken := (i, n)\<rparr>) = SQLITE_OK" using Cons.prems(2) by simp
    have fd: "feed (x # pre) = feed pre" using True by (auto simp: feed_def s(3))
    show ?thesis using Cons.IH [OF n r l t(2) Cons.prems(5), of log e lst] step True unfolding fd by simp
  next
    case False
    have fd: "feed (x # pre) = x # feed pre" using False by (auto simp: feed_def s(3))
    from Cons.IH [OF n r1 l t(2) Cons.prems(5), of "log @ [(t, i, n)]" e1 "int t"] obtain e2 p2 where
      r: "parser_loop (recording f) undisturbed undisturbed z (i + n) (log @ [(t, i, n)], e1) p1 (int t) msg =
        Some (case post of [] \<Rightarrow> length z | (t, j, n) # _ \<Rightarrow> j + n, ((log @ [(t, i, n)]) @ feed pre, e2), p2,
        if feed pre = [] then int t else int (fst (last (feed pre))), if post = [] then 0 else 1,
        case post of [] \<Rightarrow> msg | (t, j, n) # _ \<Rightarrow> illegal_message z j n)" "rc p2 = SQLITE_OK"
      by blast
    show ?thesis
      by (rule exI [of _ e2], rule exI [of _ p2]) (use r step False fd in \<open>simp add: s(3)\<close>)
  qed
qed

lemma run_parser_ok:
  assumes f: "accepting f" and z: "cstring z" and l: "lex_at 0 z = pre @ post" "legal pre" "post = [] \<or> fst (hd post) = TK_ILLEGAL"
  shows "\<exists>e' p'. parser_loop (recording f) undisturbed undisturbed z 0 ([], e) (p\<lparr>rc := SQLITE_OK, zTail := 0\<rparr>) (-1) msg =
      Some (case post of [] \<Rightarrow> length z | (t, j, n) # _ \<Rightarrow> j + n, (feed pre, e'), p',
        if feed pre = [] then -1 else int (fst (last (feed pre))), if post = [] then 0 else 1,
        case post of [] \<Rightarrow> msg | (t, j, n) # _ \<Rightarrow> illegal_message z j n) \<and> rc p' = SQLITE_OK"
  using parser_loop_feed [OF f z, of 0 "p\<lparr>rc := SQLITE_OK, zTail := 0\<rparr>" pre post "[]" e "-1" msg] l by simp

text \<open>
  A parser that records the tokens it is called with and the \<open>rc\<close> it leaves each time, around any parser.
\<close>

definition watching :: "'e parser \<Rightarrow> (((token \<times> nat \<times> nat) \<times> int) list \<times> 'e) parser" where
  "watching f e t k p = (case e of (log, e) \<Rightarrow> case f e t k p of (e, p) \<Rightarrow> ((log @ [((t, k), rc p)], e), p))"

lemma watch_token:
  assumes "cstring z" "i < length z" "sqliteGetToken (drop i z) = Some (n, t)" "t \<noteq> TK_ILLEGAL"
    "f e t (i, n) ((if t = TK_SEMI then (\<lambda>p. p\<lparr>zTail := i + n\<rparr>) else id) (p\<lparr>sLastToken := (i, n)\<rparr>)) = (e', p')"
  shows "parser_loop (watching f) undisturbed undisturbed z i (log, e) p lst msg =
    (if t = TK_SPACE \<or> t = TK_COMMENT
     then parser_loop (watching f) undisturbed undisturbed z (i + n) (log, e) (p\<lparr>sLastToken := (i, n)\<rparr>) lst msg
     else if rc p' = SQLITE_OK
     then parser_loop (watching f) undisturbed undisturbed z (i + n) (log @ [((t, i, n), SQLITE_OK)], e') p' (int t) msg
     else Some (i + n, (log @ [((t, i, n), rc p')], e'), p', int t, 0, msg))"
proof -
  obtain c where c: "zat z i = Some c" "c \<noteq> NUL" using zat_text [OF assms(1,2)] by blast
  have r: "watching f (log, e) t (i, n) (if t = TK_SEMI then p\<lparr>sLastToken := (i, n), zTail := i + n\<rparr> else p\<lparr>sLastToken := (i, n)\<rparr>) =
      ((log @ [((t, i, n), rc p')], e'), p')"
    using assms(5) by (auto simp: watching_def)
  show ?thesis
    using c r assms(3,4) by (subst parser_loop.simps) (auto simp: Let_def)
qed

text \<open>
  How a parser is fed the tokens \<open>ts\<close>: as far as the first at which it leaves something else
  than \<open>SQLITE_OK\<close>, or all.
\<close>

definition fed_some :: "(token \<times> nat \<times> nat) list \<Rightarrow> ((token \<times> nat \<times> nat) \<times> int) list \<Rightarrow> bool" where
  "fed_some ts log \<longleftrightarrow> (\<exists>us t r vs. ts = us @ t # vs \<and> log = map (\<lambda>u. (u, SQLITE_OK)) us @ [(t, r)] \<and> r \<noteq> SQLITE_OK)"

lemma fed_some_Cons: "fed_some ts log \<Longrightarrow> fed_some (t # ts) ((t, SQLITE_OK) # log)"
proof -
  assume "fed_some ts log"
  then obtain us u r vs where "ts = us @ u # vs" "log = map (\<lambda>u. (u, SQLITE_OK)) us @ [(u, r)]" "r \<noteq> SQLITE_OK" unfolding fed_some_def by blast
  then show ?thesis unfolding fed_some_def by (intro exI [of _ "t # us"] exI [of _ u] exI [of _ r] exI [of _ vs]) simp
qed

lemma parser_loop_watched:
  assumes z: "cstring z"
  shows "i \<le> length z \<Longrightarrow> rc p = SQLITE_OK \<Longrightarrow> lex_at i (drop i z) = ts \<Longrightarrow> legal ts \<Longrightarrow>
    \<exists>i' e' p' lst' log'. parser_loop (watching f) undisturbed undisturbed z i (log, e) p lst msg = Some (i', (log @ log', e'), p', lst', 0, msg) \<and>
      i' \<le> length z \<and>
      (fed_some (feed ts) log' \<and> rc p' \<noteq> SQLITE_OK \<or>
       log' = map (\<lambda>u. (u, SQLITE_OK)) (feed ts) \<and> rc p' = SQLITE_OK \<and> i' = length z \<and>
       lst' = (if feed ts = [] then lst else int (fst (last (feed ts)))))"
proof (induction ts arbitrary: i log e p lst)
  case Nil
  then have "i = length z" using lex_at_step [of "drop i z" i] by (cases "i = length z") auto
  then show ?case using Nil.prems(2) by (subst parser_loop.simps) (simp add: zat_def feed_def)
next
  case (Cons x ts)
  have i: "i < length z" "drop i z \<noteq> []" using Cons.prems(1,3) by (cases "i = length z"; simp)+
  obtain n t where s: "sqliteGetToken (drop i z) = Some (n, t)" "n \<le> length (drop i z) \<or> drop i z = ''!'' \<and> n = 2"
    "x = (t, i, n)" "lex_at (i + n) (drop n (drop i z)) = ts"
    using lex_at_step [OF i(2), of i] Cons.prems(3) by auto
  have t: "t \<noteq> TK_ILLEGAL" "legal ts" using Cons.prems(4) s(3) by (simp_all add: legal_def)
  have nb: "drop i z \<noteq> ''!''" using s(1) t(1) by (auto simp: sqliteGetToken_def NUL_def)
  then have n: "i + n \<le> length z" using s(2) i(1) by simp
  have l: "lex_at (i + n) (drop (i + n) z) = ts" using s(4) by (simp add: drop_drop add.commute)
  define q where "q = (if t = TK_SEMI then (\<lambda>p. p\<lparr>zTail := i + n\<rparr>) else id) (p\<lparr>sLastToken := (i, n)\<rparr>)"
  obtain e1 p1 where f1: "f e t (i, n) q = (e1, p1)" by fastforce
  note step = watch_token [OF z i(1) s(1) t(1), of f e p e1 p1 log lst msg, OF f1 [unfolded q_def]]
  show ?case
  proof (cases "t = TK_SPACE \<or> t = TK_COMMENT")
    case True
    have r: "rc (p\<lparr>sLastToken := (i, n)\<rparr>) = SQLITE_OK" using Cons.prems(2) by simp
    have fd: "feed (x # ts) = feed ts" using True by (auto simp: feed_def s(3))
    show ?thesis using Cons.IH [OF n r l t(2), of log e lst] step True unfolding fd by simp
  next
    case False
    then have fd: "feed (x # ts) = x # feed ts" by (auto simp: feed_def s(3))
    show ?thesis
    proof (cases "rc p1 = SQLITE_OK")
      case ok: True
      obtain i' e' p' lst' log' where r: "parser_loop (watching f) undisturbed undisturbed z (i + n) (log @ [((t, i, n), SQLITE_OK)], e1) p1 (int t) msg =
          Some (i', ((log @ [((t, i, n), SQLITE_OK)]) @ log', e'), p', lst', 0, msg)" "i' \<le> length z"
        "fed_some (feed ts) log' \<and> rc p' \<noteq> SQLITE_OK \<or>
         log' = map (\<lambda>u. (u, SQLITE_OK)) (feed ts) \<and> rc p' = SQLITE_OK \<and> i' = length z \<and>
         lst' = (if feed ts = [] then int t else int (fst (last (feed ts))))"
        using Cons.IH [OF n ok l t(2), of "log @ [((t, i, n), SQLITE_OK)]" e1 "int t"] by blast
      have "fed_some (feed (x # ts)) (((t, i, n), SQLITE_OK) # log')" if "fed_some (feed ts) log'"
        using fed_some_Cons [OF that, of "(t, i, n)"] fd unfolding s(3) by simp
      then show ?thesis
        by (intro exI [of _ i'] exI [of _ e'] exI [of _ p'] exI [of _ lst'] exI [of _ "((t, i, n), SQLITE_OK) # log'"])
          (use r step False ok fd in \<open>auto simp: s(3)\<close>)
    next
      case no: False
      have "fed_some (feed (x # ts)) [((t, i, n), rc p1)]"
        unfolding fed_some_def fd using no s(3)
        by (intro exI [of _ "[]"] exI [of _ "(t, i, n)"] exI [of _ "rc p1"] exI [of _ "feed ts"]) simp
      then show ?thesis
        by (intro exI [of _ "i + n"] exI [of _ e1] exI [of _ p1] exI [of _ "int t"] exI [of _ "[((t, i, n), rc p1)]"])
          (use n step False no in simp)
    qed
  qed
qed

lemma errors_rc:
  assumes "rc p = SQLITE_OK" "parser_errors es p n msg = (n', p', msg')"
  shows "rc p' = (if n' > 0 then SQLITE_ERROR else SQLITE_OK) \<and> n \<le> n' \<and> (n > 0 \<longrightarrow> n' = n) \<and> (msg \<noteq> None \<longrightarrow> msg' = msg)"
  using assms by (auto simp: parser_errors_def Let_def split: option.splits if_splits)

lemma run_parser_legal:
  assumes f: "accepting f" and z: "cstring z" and l: "legal (lex_at 0 z)"
  shows "\<exists>n e' p' msg' k k'. sqliteRunParser (recording f) (Some ([], e)) undisturbed undisturbed es p z msg =
      Some (n, Some (feed (lex_at 0 z) @
        (if feed (lex_at 0 z) \<noteq> [] \<and> fst (last (feed (lex_at 0 z))) = TK_SEMI then [] else [(TK_SEMI, k)]) @ [(0, k')], e'), p', msg')"
proof -
  let ?l = "feed (lex_at 0 z)"
  let ?last = "if ?l = [] then -1 else int (fst (last ?l))"
  obtain e1 p1 where r: "parser_loop (recording f) undisturbed undisturbed z 0 ([], e) (p\<lparr>rc := SQLITE_OK, zTail := 0\<rparr>) (-1) msg =
      Some (length z, (?l, e1), p1, ?last, 0, msg)" "rc p1 = SQLITE_OK"
    using run_parser_ok [OF f z, of "lex_at 0 z" "[]" e p msg] l by auto
  have zat: "zat z (length z) = Some NUL" by (simp add: zat_def)
  have "\<exists>e' p' k k'. parser_end (recording f) z (length z, (?l, e1), p1, ?last, 0, msg) =
      Some ((?l @ (if ?l \<noteq> [] \<and> fst (last ?l) = TK_SEMI then [] else [(TK_SEMI, k)]) @ [(0, k')], e'), p')"
    using zat r(2) by (auto simp: parser_end_def recording_def Let_def case_prod_beta)
  then obtain e2 p2 k k' where e: "parser_end (recording f) z (length z, (?l, e1), p1, ?last, 0, msg) =
      Some ((?l @ (if ?l \<noteq> [] \<and> fst (last ?l) = TK_SEMI then [] else [(TK_SEMI, k)]) @ [(0, k')], e2), p2)" by blast
  obtain n p3 m where pe: "parser_errors es p2 0 msg = (n, p3, m)" by (cases "parser_errors es p2 0 msg")
  have "sqliteRunParser (recording f) (Some ([], e)) undisturbed undisturbed es p z msg =
    Some (n, Some (?l @ (if ?l \<noteq> [] \<and> fst (last ?l) = TK_SEMI then [] else [(TK_SEMI, k)]) @ [(0, k')], e2), p3, m)"
    using r(1) e pe by (simp add: sqliteRunParser_def)
  then show ?thesis by blast
qed

lemma run_parser_illegal:
  assumes f: "accepting f" and z: "cstring z"
    and l: "lex_at 0 z = pre @ (TK_ILLEGAL, j, n) # post" "legal pre" "drop j z \<noteq> ''!''"
  shows "\<exists>e' p'. sqliteRunParser (recording f) (Some ([], e)) undisturbed undisturbed es p z msg =
      Some (1, Some (feed pre, e'), p', Some (''unrecognized token: '' @ [CHR 0x22] @ take n (drop j z) @ [CHR 0x22])) \<and>
    rc p' = SQLITE_ERROR"
proof -
  have n: "1 \<le> n" "j + n \<le> length z" using lex_at_texts [of 0 z] l(1,3) by auto
  obtain e1 p1 where r: "parser_loop (recording f) undisturbed undisturbed z 0 ([], e) (p\<lparr>rc := SQLITE_OK, zTail := 0\<rparr>) (-1) msg =
      Some (j + n, (feed pre, e1), p1, if feed pre = [] then -1 else int (fst (last (feed pre))), 1, illegal_message z j n)"
    "rc p1 = SQLITE_OK"
    using run_parser_ok [OF f z l(1,2), of e p msg] by auto
  obtain c where c: "zat z (j + n) = Some c" using zat_in [OF n(2)] by blast
  have m: "illegal_message z j n = Some (''unrecognized token: '' @ [CHR 0x22] @ take n (drop j z) @ [CHR 0x22])"
    using n by (simp add: illegal_message_def sqliteSetNString_def strncpy_def)
  obtain p2 m2 k2 where pe: "parser_errors es p1 1 (illegal_message z j n) = (k2, p2, m2)"
    by (cases "parser_errors es p1 1 (illegal_message z j n)")
  note er = errors_rc [OF r(2) pe]
  have "sqliteRunParser (recording f) (Some ([], e)) undisturbed undisturbed es p z msg = Some (1, Some (feed pre, e1), p2, m2)"
    using r(1) pe er c by (simp add: sqliteRunParser_def parser_end_def)
  then show ?thesis using er m by auto
qed

section \<open>Complete statements\<close>

text \<open>
  The scan of a text that ends with a line end goes the same way when more text follows: no token
  reaches past the line end.
\<close>

abbreviation (input) newline :: char where
  "newline \<equiv> CHR 0x0A"

lemma StrNICmp_append: "n \<le> length a \<Longrightarrow> sqliteStrNICmp (a @ b) c (int n) = sqliteStrNICmp a c (int n)"
proof (induction n arbitrary: a c)
  case (Suc n)
  then obtain x xs where a: "a = x # xs" by (cases a) auto
  then show ?case using Suc by (subst (1 2) sqliteStrNICmp.simps) simp
qed (simp add: sqliteStrNICmp.simps)

lemma word_complete_append:
  assumes "a \<noteq> []" "n \<le> length a"
  shows "word_complete (a @ b) n = word_complete a n"
proof -
  have "n = k \<and> sqliteStrNICmp (a @ b) c (int k) = 0 \<longleftrightarrow> n = k \<and> sqliteStrNICmp a c (int k) = 0" for k c
    using assms(2) StrNICmp_append [of n a b c] by auto
  from this [of 6] this [of 7] this [of 4] this [of 9] this [of 3]
  have "n = 6 \<and> sqliteStrNICmp (a @ b) c 6 = 0 \<longleftrightarrow> n = 6 \<and> sqliteStrNICmp a c 6 = 0"
    "n = 7 \<and> sqliteStrNICmp (a @ b) c 7 = 0 \<longleftrightarrow> n = 7 \<and> sqliteStrNICmp a c 7 = 0"
    "n = 4 \<and> sqliteStrNICmp (a @ b) c 4 = 0 \<longleftrightarrow> n = 4 \<and> sqliteStrNICmp a c 4 = 0"
    "n = 9 \<and> sqliteStrNICmp (a @ b) c 9 = 0 \<longleftrightarrow> n = 9 \<and> sqliteStrNICmp a c 9 = 0"
    "n = 3 \<and> sqliteStrNICmp (a @ b) c 3 = 0 \<longleftrightarrow> n = 3 \<and> sqliteStrNICmp a c 3 = 0" for c
    by simp_all
  moreover have "zhd (a @ b) = zhd a" using assms(1) by (cases a) auto
  ultimately show ?thesis unfolding word_complete_def by presburger
qed

lemma skip_comment_append: "skip_comment z \<noteq> [] \<Longrightarrow> skip_comment (z @ b) = skip_comment z @ b \<and> tl (skip_comment z) \<noteq> [] \<and> suffix (skip_comment z) z"
proof (induction z)
  case (Cons c z)
  show ?case
  proof (cases "c \<noteq> CHR ''*'' \<or> zhd z \<noteq> CHR ''/''")
    case True
    then have n: "skip_comment z \<noteq> []" using Cons.prems by simp
    then have "z \<noteq> []" by auto
    then have "zhd (z @ b) = zhd z" by (cases z) auto
    then show ?thesis using Cons.IH [OF n] True by (simp add: suffix_Cons)
  next
    case False
    then have "z \<noteq> []" by (auto simp: NUL_def)
    then show ?thesis using False by (cases z) auto
  qed
qed simp

lemma dropWhile_more: "dropWhile P z \<noteq> [] \<Longrightarrow> dropWhile P (z @ b) = dropWhile P z @ b \<and> suffix (dropWhile P z) z"
  by (induction z) (auto simp: suffix_Cons)

lemma id_char_newline: "id_char_at newline = Some False"
  by (simp add: id_char_at_def isIdChar_def)

lemma id_span_append:
  "z \<noteq> [] \<Longrightarrow> last z = newline \<Longrightarrow> id_span z = Some n \<Longrightarrow> id_span (z @ b) = Some n \<and> n < length z"
proof (induction z arbitrary: n)
  case (Cons c z)
  show ?case
  proof (cases "z = []")
    case True
    then show ?thesis using Cons.prems id_char_newline by simp
  next
    case False
    then have l: "last z = newline" using Cons.prems by simp
    obtain v where v: "id_char_at c = Some v" using Cons.prems(3) by (cases "id_char_at c") auto
    show ?thesis
    proof (cases v)
      case True
      then obtain m where m: "id_span z = Some m" "n = Suc m" using Cons.prems(3) v by auto
      then show ?thesis using Cons.IH [OF False l m(1)] True v by simp
    qed (use Cons.prems(3) v in simp)
  qed
qed simp

lemma last_suffix: "suffix x y \<Longrightarrow> x \<noteq> [] \<Longrightarrow> last x = last y"
  by (auto simp: suffix_def)

text \<open>The scan of one token by the class of its first character.\<close>

lemma complete_token_symbol:
  "next_complete st (CHR '';'' # z) = Some (Inr (tkSEMI, CHR '';'' # z))"
  "next_complete st (CHR ''/'' # z) =
     (if zhd z \<noteq> CHR ''*'' then Some (Inr (tkOTHER, CHR ''/'' # z))
      else if skip_comment (tl z) = [] then Some (Inl False) else Some (Inr (tkWS, tl (skip_comment (tl z)))))"
  "next_complete st (CHR ''-'' # z) =
     (if zhd z \<noteq> CHR ''-'' then Some (Inr (tkOTHER, CHR ''-'' # z))
      else if dropWhile (\<lambda>c. c \<noteq> newline) z = [] then Some (Inl (st = 0)) else Some (Inr (tkWS, dropWhile (\<lambda>c. c \<noteq> newline) z)))"
  "next_complete st (CHR ''['' # z) =
     (if dropWhile (\<lambda>c. c \<noteq> CHR '']'') z = [] then Some (Inl False) else Some (Inr (tkOTHER, dropWhile (\<lambda>c. c \<noteq> CHR '']'') z)))"
  by (simp_all add: next_complete_def drop_Suc)

lemma complete_token_space:
  "c \<in> {CHR '' '', CHR 0x0D, CHR 0x09, CHR 0x0A, CHR 0x0C} \<Longrightarrow> next_complete st (c # z) = Some (Inr (tkWS, c # z))"
  by (elim insertE emptyE) (simp_all add: next_complete_def)

lemma complete_token_quote:
  "c = CHR 0x22 \<or> c = CHR 0x27 \<Longrightarrow> next_complete st (c # z) =
     (if dropWhile (\<lambda>d. d \<noteq> c) z = [] then Some (Inl False) else Some (Inr (tkOTHER, dropWhile (\<lambda>d. d \<noteq> c) z)))"
  by (elim disjE) (simp_all add: next_complete_def Let_def del: dropWhile_eq_Nil_conv)

lemma complete_token_other:
  "c \<notin> {CHR '';'', CHR '' '', CHR 0x0D, CHR 0x09, CHR 0x0A, CHR 0x0C, CHR ''/'', CHR ''-'', CHR ''['', CHR 0x22, CHR 0x27} \<Longrightarrow>
   next_complete st (c # z) = do {
     b \<leftarrow> id_char_at c;
     if b then do { n \<leftarrow> id_span z; Some (Inr (word_complete (c # z) (n + 1), drop n (c # z))) }
     else Some (Inr (tkOTHER, c # z)) }"
  by (simp add: next_complete_def cong: if_cong)

lemmas complete_token_eqs = complete_token_symbol complete_token_quote

lemma complete_char_cases:
  obtains (semi) "c = CHR '';''" | (ws) "c \<in> {CHR '' '', CHR 0x0D, CHR 0x09, CHR 0x0A, CHR 0x0C}" | (slash) "c = CHR ''/''"
    | (minus) "c = CHR ''-''" | (bracket) "c = CHR ''[''" | (quote) "c = CHR 0x22 \<or> c = CHR 0x27"
    | (other) "c \<notin> {CHR '';'', CHR '' '', CHR 0x0D, CHR 0x09, CHR 0x0A, CHR 0x0C, CHR ''/'', CHR ''-'', CHR ''['', CHR 0x22, CHR 0x27}"
  by auto

lemma quoted_append:
  assumes q: "\<And>y. next_complete st (c # y) =
      (if dropWhile P y = [] then Some (Inl False) else Some (Inr (tkOTHER, dropWhile P y)))"
    and r: "next_complete st (c # z) = Some r"
  shows "case r of Inl v \<Rightarrow> \<not> v
    | Inr (tok, a') \<Rightarrow> next_complete st (c # z @ b) = Some (Inr (tok, a' @ b)) \<and> a' \<noteq> [] \<and> suffix a' (c # z)"
proof (cases "dropWhile P z = []")
  case True
  then have "r = Inl False" using r unfolding q by simp
  then show ?thesis by simp
next
  case False
  then have r': "r = Inr (tkOTHER, dropWhile P z)" using r unfolding q by (simp del: dropWhile_eq_Nil_conv)
  note d = dropWhile_more [OF False, of b]
  have "next_complete st (c # z @ b) = Some (Inr (tkOTHER, dropWhile P z @ b))"
    unfolding q using d False by simp
  then show ?thesis using r' False d by (simp add: suffix_ConsI del: dropWhile_eq_Nil_conv)
qed

lemma complete_token_append:
  assumes a: "a \<noteq> []" "last a = newline" and r: "next_complete st a = Some r"
  shows "case r of Inl v \<Rightarrow> \<not> v
    | Inr (tok, a') \<Rightarrow> next_complete st (a @ b) = Some (Inr (tok, a' @ b)) \<and> a' \<noteq> [] \<and> suffix a' a"
proof -
  obtain c z where z: "a = c # z" using a(1) by (cases a) auto
  have nl: "c \<noteq> newline \<Longrightarrow> z \<noteq> [] \<and> last z = newline" using a(2) by (cases z) (auto simp: z)
  have hd: "c \<noteq> newline \<Longrightarrow> zhd (z @ b) = zhd z \<and> tl (z @ b) = tl z @ b" using nl by (cases z) auto
  have dw: "dropWhile P z \<noteq> [] \<Longrightarrow> dropWhile P (z @ b) = dropWhile P z @ b \<and> suffix (dropWhile P z) a" for P
    using dropWhile_more [of P z b] by (simp add: z suffix_ConsI)
  show ?thesis
  proof (cases rule: complete_char_cases [of c])
    case semi
    then show ?thesis using r by (auto simp: complete_token_eqs z)
  next
    case ws
    then show ?thesis using r complete_token_space [OF ws] by (auto simp: z)
  next
    case slash
    let ?s = "skip_comment (tl z)"
    have sf: "?s \<noteq> [] \<Longrightarrow> suffix (tl ?s) a"
      using skip_comment_append [of "tl z"] suffix_tl suffix_order.trans suffix_ConsI unfolding z by metis
    have zt: "z @ b \<noteq> []" using nl slash by simp
    show ?thesis
    proof (cases "zhd z = CHR ''*''")
      case True
      show ?thesis
      proof (cases "?s = []")
        case False
        have "skip_comment (tl (z @ b)) = ?s @ b" "tl ?s \<noteq> []" using skip_comment_append [OF False, of b] hd slash by simp_all
        then show ?thesis using r True False sf [OF False] hd slash by (auto simp: complete_token_eqs z)
      qed (use r True slash in \<open>auto simp: complete_token_eqs z\<close>)
    qed (use r hd slash in \<open>auto simp: complete_token_eqs z\<close>)
  next
    case minus
    have "newline \<in> set z" using nl minus last_in_set by force
    then have ne: "dropWhile (\<lambda>c. c \<noteq> newline) z \<noteq> []" by (simp add: dropWhile_eq_Nil_conv)
    show ?thesis
    proof (cases "zhd z = CHR ''-''")
      case True
      have "r = Inr (tkWS, dropWhile (\<lambda>c. c \<noteq> newline) z)"
        using r True minus ne by (simp only: z complete_token_eqs if_False simp_thms option.inject)
      moreover have "next_complete st (a @ b) = Some (Inr (tkWS, dropWhile (\<lambda>c. c \<noteq> newline) z @ b))"
        using True hd minus ne dw [OF ne] by (simp add: z complete_token_eqs del: dropWhile_eq_Nil_conv)
      ultimately show ?thesis using ne dw [OF ne] by (simp del: dropWhile_eq_Nil_conv)
    qed (use r hd minus in \<open>auto simp: complete_token_eqs z\<close>)
  next
    case bracket
    show ?thesis using quoted_append [OF complete_token_symbol(4), of st z r b] r unfolding z append_Cons bracket by blast
  next
    case quote
    show ?thesis using quoted_append [OF complete_token_quote [OF quote], of st z r b] r unfolding z append_Cons by simp
  next
    case other
    note c = complete_token_other [OF other]
    obtain v where v: "id_char_at c = Some v" using r by (cases "id_char_at c") (auto simp: z c)
    show ?thesis
    proof (cases v)
      case True
      then obtain n where n: "id_span z = Some n" "r = Inr (word_complete (c # z) (n + 1), drop n (c # z))"
        using r v by (auto simp: z c bind_eq_Some_conv)
      have m: "id_span (z @ b) = Some n \<and> n < length z" using id_span_append nl other n(1) by auto
      have "word_complete (c # z @ b) (n + 1) = word_complete (c # z) (n + 1)"
        using word_complete_append [of "c # z" "n + 1" b] m by simp
      moreover have "drop n ((c # z) @ b) = drop n (c # z) @ b" using m by (simp only: drop_append) simp
      ultimately show ?thesis using m True v n(2) suffix_drop [of n a] by (simp add: z c)
    next
      case False
      then show ?thesis using r v by (auto simp: z c)
    qed
  qed
qed

lemma complete_loop_append:
  "a = [] \<or> last a = newline \<Longrightarrow> complete_loop st a = Some True \<Longrightarrow> complete_loop st (a @ b) = complete_loop 0 b"
proof (induction "length a" arbitrary: a st rule: less_induct)
  case less
  show ?case
  proof (cases "a = []")
    case True
    then show ?thesis using less.prems(2) by (simp add: complete_loop.simps [of st "[]"])
  next
    case False
    then have l: "last a = newline" using less.prems(1) by simp
    obtain r where r: "next_complete st a = Some r"
      using less.prems(2) False by (cases "next_complete st a") (auto simp: complete_loop.simps [of st a])
    note s = complete_token_append [OF False l r, of b]
    show ?thesis
    proof (cases r)
      case (Inl v)
      then show ?thesis using less.prems(2) False r s by (simp add: complete_loop.simps [of st a])
    next
      case (Inr x)
      obtain tok a' where x: "x = (tok, a')" by fastforce
      have a': "next_complete st (a @ b) = Some (Inr (tok, a' @ b))" "a' \<noteq> []" "suffix a' a" using s by (simp_all add: Inr x)
      have len: "length (tl a') < length a" using a'(2) suffix_length_le [OF a'(3)] by (cases a') auto
      have la: "tl a' = [] \<or> last (tl a') = newline" using last_suffix [OF a'(3,2)] a'(2) l by (cases a') (auto split: if_splits)
      let ?st = "trans ! st ! token_index tok"
      have "complete_loop st a = complete_loop ?st (tl a')" using False r by (simp add: complete_loop.simps [of st a] Inr x)
      then have "complete_loop ?st (tl a' @ b) = complete_loop 0 b" using less.hyps [OF len la] less.prems(2) by simp
      moreover have "complete_loop st (a @ b) = complete_loop ?st (tl a' @ b)"
        using False a'(1,2) by (simp add: complete_loop.simps [of st "a @ b"])
      ultimately show ?thesis by simp
    qed
  qed
qed

text \<open>The scan of a text of ASCII characters ends and stays inside the tables.\<close>

definition ascii :: "string \<Rightarrow> bool" where
  "ascii = list_all (\<lambda>c. uchar c < 128)"

lemma ascii_suffix: "ascii z \<Longrightarrow> suffix y z \<Longrightarrow> ascii y"
  by (auto simp: ascii_def suffix_def)

lemma id_span_total: "ascii z \<Longrightarrow> \<exists>n. id_span z = Some n \<and> n \<le> length z"
proof (induction z)
  case (Cons c z)
  then show ?case by (auto simp: ascii_def id_char_at_def isIdChar_def)
qed simp

lemma skip_comment_suffix: "suffix (skip_comment z) z \<and> (skip_comment z \<noteq> [] \<longrightarrow> tl (skip_comment z) \<noteq> [])"
  using skip_comment_append [of z "[]"] by (cases "skip_comment z = []") auto

lemma dropWhile_suffix: "suffix (dropWhile P z) z"
  by (induction z) (auto simp: suffix_Cons)

lemma complete_token_total:
  assumes a: "a \<noteq> []" "ascii a"
  shows "\<exists>r. next_complete st a = Some r \<and> (case r of Inl v \<Rightarrow> True | Inr (tok, a') \<Rightarrow> a' \<noteq> [] \<and> suffix a' a)"
proof -
  obtain c z where z: "a = c # z" using a(1) by (cases a) auto
  obtain n where n: "id_span z = Some n" "n \<le> length z" using id_span_total [of z] a(2) by (auto simp: z ascii_def)
  have w: "drop n a \<noteq> []" "suffix (drop n a) a" using n(2) by (simp_all add: z suffix_drop)
  obtain v where ic: "id_char_at c = Some v" using a(2) by (simp add: z ascii_def id_char_at_def isIdChar_def)
  have dw: "suffix (dropWhile P z) a" for P using dropWhile_suffix [of P z] by (simp add: z suffix_ConsI)
  show ?thesis
  proof (cases rule: complete_char_cases [of c])
    case slash
    have "suffix (tl (skip_comment (tl z))) a"
      using skip_comment_suffix [of "tl z"] suffix_tl suffix_order.trans suffix_ConsI unfolding z by metis
    then show ?thesis using slash skip_comment_suffix [of "tl z"] by (auto simp: complete_token_eqs z)
  next
    case ws
    then show ?thesis using complete_token_space [OF ws] by (simp add: z)
  next
    case other
    then show ?thesis using complete_token_other [OF other] ic n w by (cases v) (simp_all add: z)
  qed (use dw in \<open>auto simp: complete_token_eqs z\<close>)
qed

lemma complete_loop_total: "ascii a \<Longrightarrow> \<exists>v. complete_loop st a = Some v"
proof (induction "length a" arbitrary: a st rule: less_induct)
  case less
  show ?case
  proof (cases "a = []")
    case False
    obtain r where r: "next_complete st a = Some r" "case r of Inl v \<Rightarrow> True | Inr (tok, a') \<Rightarrow> a' \<noteq> [] \<and> suffix a' a"
      using complete_token_total [OF False less.prems] by blast
    show ?thesis
    proof (cases r)
      case (Inr x)
      obtain tok a' where x: "x = (tok, a')" by fastforce
      have a': "a' \<noteq> []" "suffix a' a" using r(2) by (simp_all add: Inr x)
      have len: "length (tl a') < length a" using a'(1) suffix_length_le [OF a'(2)] by (cases a') auto
      have "ascii (tl a')" using ascii_suffix [OF less.prems a'(2)] ascii_suffix suffix_tl by blast
      then show ?thesis using less.hyps [OF len] r(1) False by (simp add: complete_loop.simps [of st a] Inr x)
    qed (use r(1) False in \<open>simp add: complete_loop.simps [of st a]\<close>)
  qed (simp add: complete_loop.simps)
qed

section \<open>Properties\<close>

text \<open>C37: The keyword lookup through the hash chains returns the type of the keyword that the characters spell up to
  the case of letters, and the type of identifiers if they spell none.\<close>

theorem keyword_lookup:
  assumes "0 < n" "n \<le> length z"
  shows "sqliteKeywordCode z (int n) = Some (case map_of (map (\<lambda>(w, t). (map u2l w, t)) aKeywordTable) (map u2l (take n z)) of
    None \<Rightarrow> TK_ID | Some t \<Rightarrow> t)"
  using keyword_code [OF assms] by (simp add: keyword_map_def)

theorem keyword_lookup_witness: "sqliteKeywordCode ''Where'' (int 5) = Some TK_WHERE"
proof -
  have "map_of (map (\<lambda>(w, t). (map u2l w, t)) aKeywordTable) (map u2l (take 5 ''Where'')) = Some TK_WHERE"
    by (simp add: aKeywordTable_def u2l_eq)
  then show ?thesis using keyword_lookup [of 5 "''Where''"] by simp
qed

text \<open>C33: The tokens of a text are non-empty and follow each other: put together they are the text, and none reaches
  past its end, but for an exclamation mark that ends the text, whose token is two characters long.\<close>

theorem tokens_cover:
  "concat (map (\<lambda>(t, i, n). take n (drop i z)) (lex_at 0 z)) = z \<and>
    list_all (\<lambda>(t, i, n). 1 \<le> n \<and> (if drop i z = ''!'' then n = 2 else i + n \<le> length z)) (lex_at 0 z)"
proof -
  have "1 \<le> n \<and> (if drop i z = ''!'' then n = 2 else i + n \<le> length z)" if "(t, i, n) \<in> set (lex_at 0 z)" for t i n
  proof (cases "drop i z = ''!''")
    case True
    then show ?thesis using lex_at_bang [OF that] by simp
  next
    case False
    then show ?thesis using lex_at_texts [of 0 z] that by fastforce
  qed
  then have "list_all (\<lambda>(t, i, n). 1 \<le> n \<and> (if drop i z = ''!'' then n = 2 else i + n \<le> length z)) (lex_at 0 z)"
    by (simp only: list_all_iff) blast
  then show ?thesis using lex_at_texts [of 0 z] by simp
qed

text \<open>C35: A string written between quotes with every quote in it doubled is one token of the tokenizer, from quote
  to quote, whatever follows but another quote, and dequoting that token gives the string back.\<close>

theorem quoted_string:
  assumes "q \<in> {CHR 0x27, CHR 0x22}" "zhd rest \<noteq> q" "cstring s"
  shows "sqliteGetToken ((q # sql_escape q s @ [q]) @ rest) = Some (length (q # sql_escape q s @ [q]), TK_STRING) \<and>
    zstr (sqliteDequote (q # sql_escape q s @ [q])) = s"
proof
  show "zstr (sqliteDequote (q # sql_escape q s @ [q])) = s"
    by (rule dequote_escape [OF assms(3)]) (use assms(1) in auto)
  show "sqliteGetToken ((q # sql_escape q s @ [q]) @ rest) = Some (length (q # sql_escape q s @ [q]), TK_STRING)"
    using quoted_token [OF assms(1,2), of s] by simp
qed

theorem quoted_string_witness:
  "sqliteGetToken (CHR 0x27 # ''it'' @ [CHR 0x27, CHR 0x27] @ ''s'' @ CHR 0x27 # '';'') = Some (7, TK_STRING) \<and>
    zstr (sqliteDequote (CHR 0x27 # ''it'' @ [CHR 0x27, CHR 0x27] @ ''s'' @ [CHR 0x27])) = ''it'' @ CHR 0x27 # ''s''"
  using quoted_string [of "CHR 0x27" "'';''" "''it'' @ CHR 0x27 # ''s''"] by (simp add: NUL_def)

text \<open>C39: On a text whose tokens are all legal, with no interrupt and memory enough, the parser is called with the
  tokens that are not white space or comments, in order: as far as the first at which it leaves an error or
  \<open>SQLITE_DONE\<close>, or with all of them, then with a semicolon unless the last one was one, and with the end of
  input.\<close>

theorem parser_fed:
  assumes "cstring z" "legal (lex_at 0 z)"
  shows "\<exists>n e' p' msg' log. sqliteRunParser (watching f) (Some ([], e)) undisturbed undisturbed es p z msg = Some (n, Some (log, e'), p', msg') \<and>
    (fed_some (feed (lex_at 0 z)) log \<or>
     (\<exists>k k' r r'. log = map (\<lambda>u. (u, SQLITE_OK)) (feed (lex_at 0 z)) @
        (if feed (lex_at 0 z) \<noteq> [] \<and> fst (last (feed (lex_at 0 z))) = TK_SEMI then [] else [((TK_SEMI, k), r)]) @ [((0, k'), r')]))"
proof -
  let ?l = "feed (lex_at 0 z)"
  obtain i' e1 p1 lst' log where r: "parser_loop (watching f) undisturbed undisturbed z 0 ([], e) (p\<lparr>rc := SQLITE_OK, zTail := 0\<rparr>) (-1) msg =
      Some (i', (log, e1), p1, lst', 0, msg)" "i' \<le> length z"
    "fed_some ?l log \<and> rc p1 \<noteq> SQLITE_OK \<or>
     log = map (\<lambda>u. (u, SQLITE_OK)) ?l \<and> rc p1 = SQLITE_OK \<and> i' = length z \<and> lst' = (if ?l = [] then -1 else int (fst (last ?l)))"
    using parser_loop_watched [OF assms(1), of 0 "p\<lparr>rc := SQLITE_OK, zTail := 0\<rparr>" "lex_at 0 z" f "[]" e "-1" msg] assms(2) by auto
  obtain c where c: "zat z i' = Some c" using zat_in [OF r(2)] by blast
  have fin: "sqliteRunParser (watching f) (Some ([], e)) undisturbed undisturbed es p z msg =
      (case parser_errors es p2 0 msg of (n, p3, m) \<Rightarrow> Some (n, Some (l2, e2), p3, m))"
    if "parser_end (watching f) z (i', (log, e1), p1, lst', 0, msg) = Some ((l2, e2), p2)" for l2 e2 p2
    using that r(1) by (simp add: sqliteRunParser_def split: prod.split)
  show ?thesis
    using r(3)
  proof
    assume s: "fed_some ?l log \<and> rc p1 \<noteq> SQLITE_OK"
    then have "parser_end (watching f) z (i', (log, e1), p1, lst', 0, msg) = Some ((log, e1), p1)" using c by (simp add: parser_end_def)
    from fin [OF this] show ?thesis using s by (auto split: prod.split)
  next
    assume s: "log = map (\<lambda>u. (u, SQLITE_OK)) ?l \<and> rc p1 = SQLITE_OK \<and> i' = length z \<and> lst' = (if ?l = [] then -1 else int (fst (last ?l)))"
    have zat: "zat z (length z) = Some NUL" by (simp add: zat_def)
    have "\<exists>e' p' k k' r r'. parser_end (watching f) z (i', (log, e1), p1, lst', 0, msg) =
        Some ((log @ (if ?l \<noteq> [] \<and> fst (last ?l) = TK_SEMI then [] else [((TK_SEMI, k), r)]) @ [((0, k'), r')], e'), p')"
      using zat s by (auto simp: parser_end_def watching_def Let_def case_prod_beta)
    then obtain e2 p2 k k' ra rb where e: "parser_end (watching f) z (i', (log, e1), p1, lst', 0, msg) =
        Some ((log @ (if ?l \<noteq> [] \<and> fst (last ?l) = TK_SEMI then [] else [((TK_SEMI, k), ra)]) @ [((0, k'), rb)], e2), p2)" by blast
    obtain n p3 m where pe: "parser_errors es p2 0 msg = (n, p3, m)" by (cases "parser_errors es p2 0 msg")
    define L where "L = log @ (if ?l \<noteq> [] \<and> fst (last ?l) = TK_SEMI then [] else [((TK_SEMI, k), ra)]) @ [((0, k'), rb)]"
    have "sqliteRunParser (watching f) (Some ([], e)) undisturbed undisturbed es p z msg = Some (n, Some (L, e2), p3, m)"
      using fin [OF e] pe by (simp add: L_def)
    moreover have "\<exists>k k' r r'. L = map (\<lambda>u. (u, SQLITE_OK)) ?l @ (if ?l \<noteq> [] \<and> fst (last ?l) = TK_SEMI then [] else [((TK_SEMI, k), r)]) @ [((0, k'), r')]"
      unfolding L_def using s by blast
    ultimately show ?thesis by blast
  qed
qed

definition idle_parser :: "unit parser" where
  "idle_parser e t k p = (e, p)"

definition one_command :: "unit parser" where
  "one_command e t k p = (e, if t = TK_SEMI then p\<lparr>rc := SQLITE_DONE\<rparr> else p)"

definition blank_ctx :: parse_ctx where
  "blank_ctx = \<lparr>rc = 0, zErrMsg = None, sLastToken = (0, 0), zTail = 0, nErr = 0, pVdbe = False, pNewTable = False, pNewTrigger = False\<rparr>"

lemma idle_accepting: "accepting idle_parser"
  by (simp add: accepting_def idle_parser_def)

declare parser_loop.simps [code]

theorem parser_fed_witness:
  "\<exists>n e' p' msg' log. sqliteRunParser (watching one_command) (Some ([], ())) undisturbed undisturbed (\<lambda>_. []) blank_ctx ''( ;+'' None = Some (n, Some (log, e'), p', msg') \<and>
     fed_some [(TK_LP, 0, 1), (TK_SEMI, 2, 1), (TK_PLUS, 3, 1)] log"
proof -
  have l: "lex_at 0 ''( ;+'' = [(TK_LP, 0, 1), (TK_SPACE, 1, 1), (TK_SEMI, 2, 1), (TK_PLUS, 3, 1)]"
    by code_simp
  have v: "map_option (\<lambda>(n, l, p, m). map_option fst l) (sqliteRunParser (watching one_command) (Some ([], ())) undisturbed undisturbed (\<lambda>_. []) blank_ctx ''( ;+'' None) =
      Some (Some [((TK_LP, 0, 1), SQLITE_OK), ((TK_SEMI, 2, 1), SQLITE_DONE)])"
    by code_simp
  obtain n e' p' msg' log where r: "sqliteRunParser (watching one_command) (Some ([], ())) undisturbed undisturbed (\<lambda>_. []) blank_ctx ''( ;+'' None = Some (n, Some (log, e'), p', msg')"
    "fed_some (feed (lex_at 0 ''( ;+'')) log \<or>
     (\<exists>k k' r r'. log = map (\<lambda>u. (u, SQLITE_OK)) (feed (lex_at 0 ''( ;+'')) @
        (if feed (lex_at 0 ''( ;+'') \<noteq> [] \<and> fst (last (feed (lex_at 0 ''( ;+''))) = TK_SEMI then [] else [((TK_SEMI, k), r)]) @ [((0, k'), r')])"
    using parser_fed [of "''( ;+''" one_command "()" "\<lambda>_. []" blank_ctx None] by (auto simp: l legal_def NUL_def)
  have f: "feed (lex_at 0 ''( ;+'') = [(TK_LP, 0, 1), (TK_SEMI, 2, 1), (TK_PLUS, 3, 1)]" by (simp add: l feed_def)
  have "log = [((TK_LP, 0, 1), SQLITE_OK), ((TK_SEMI, 2, 1), SQLITE_DONE)]" using v r(1) by simp
  then have "fed_some [(TK_LP, 0, 1), (TK_SEMI, 2, 1), (TK_PLUS, 3, 1)] log" using r(2) unfolding f by auto
  then show ?thesis using r(1) by blast
qed

text \<open>At the first illegal token the run stops with the token in its error message and an error as its result; the
  parser has been called with the tokens before it only.\<close>

theorem parser_illegal:
  assumes "accepting f" "cstring z" "lex_at 0 z = pre @ (TK_ILLEGAL, j, n) # post" "legal pre" "drop j z \<noteq> ''!''"
  shows "\<exists>e' p'. sqliteRunParser (recording f) (Some ([], e)) undisturbed undisturbed es p z msg =
      Some (1, Some (feed pre, e'), p', Some (''unrecognized token: '' @ [CHR 0x22] @ take n (drop j z) @ [CHR 0x22])) \<and>
    rc p' = SQLITE_ERROR"
  using assms by (rule run_parser_illegal)

theorem parser_illegal_witness:
  "\<exists>e' p'. sqliteRunParser (recording idle_parser) (Some ([], ())) undisturbed undisturbed (\<lambda>_. []) blank_ctx ''(#)'' None =
      Some (1, Some ([(TK_LP, 0, 1)], e'), p', Some (''unrecognized token: '' @ [CHR 0x22] @ ''#'' @ [CHR 0x22]))"
proof -
  have "lex_at 0 ''(#)'' = [(TK_LP, 0, 1)] @ (TK_ILLEGAL, 1, 1) # [(TK_RP, 2, 1)]"
    by code_simp
  then show ?thesis
    using parser_illegal [OF idle_accepting, of "''(#)''" "[(TK_LP, 0, 1)]" 1 1 "[(TK_RP, 2, 1)]" "()" "\<lambda>_. []" blank_ctx None]
    by (auto simp: legal_def feed_def NUL_def)
qed

text \<open>An exclamation mark that ends the text makes the loop read past the terminator.\<close>

theorem bang_over_read:
  "sqliteRunParser (recording idle_parser) (Some ([], ())) undisturbed undisturbed (\<lambda>_. []) blank_ctx ''!'' None = None"
proof -
  have "sqliteGetToken ''!'' = Some (2, TK_ILLEGAL)" by (simp add: sqliteGetToken_def NUL_def)
  then show ?thesis
    by (simp add: sqliteRunParser_def parser_loop.simps zat_def NUL_def parser_end_def)
qed

text \<open>When the lines entered so far are a sequence of complete statements, the test whether more text completes a
  statement gives the same with them as without them: a shell may run and forget them.\<close>

theorem complete_lines:
  assumes "sqlite_complete a = Some True" "last a = CHR 0x0A" "a \<noteq> []"
  shows "sqlite_complete (a @ b) = sqlite_complete b"
  using complete_loop_append [of a 0 b] assms by (simp add: sqlite_complete_def)

theorem complete_lines_witness:
  "sqlite_complete (('';'' @ [CHR 0x0A]) @ ''('') = Some False"
proof -
  have r: "sqlite_complete ('';'' @ [CHR 0x0A]) = Some True" "sqlite_complete ''('' = Some False"
    by (simp_all add: sqlite_complete_def complete_loop.simps next_complete_def trans_def id_char_at_def isIdChar_def)
  show ?thesis using complete_lines [OF r(1), of "''(''"] r(2) by simp
qed

text \<open>A text of ASCII characters is judged; a character outside ASCII is read outside the table of identifier characters.\<close>

theorem complete_ascii: "ascii z \<Longrightarrow> sqlite_complete z \<noteq> None"
  using complete_loop_total [of z 0] by (auto simp: sqlite_complete_def)

theorem complete_latin: "sqlite_complete [CHR 0xE9, CHR '';''] = None"
  by (simp add: sqlite_complete_def complete_loop.simps next_complete_def id_char_at_def isIdChar_def)

end
