(* ===== verification/OsUnix.thy ===== *)
theory OsUnix
  imports Hash
begin

text \<open>
  The file locks of \<^verbatim>\<open>sqlite/os.c\<close> under Unix: the work-around for POSIX advisory locks, with
  one \<^verbatim>\<open>lockInfo\<close> per file and thread and one \<^verbatim>\<open>openCnt\<close> per file, both found through
  hash tables of \<^verbatim>\<open>hash.c\<close>. Handles, the two kinds of records and the kernel make up the
  state; \<open>None\<close> is a bad pointer, an index outside an array or a failed assertion. Each routine
  runs under the mutex and is one step.
\<close>

section \<open>The kernel\<close>

text \<open>
  What the code uses of POSIX, as its manual and the comment in the source describe it:
  \<^verbatim>\<open>open\<close> returns the lowest unused descriptor; a lock set with \<^verbatim>\<open>fcntl\<close> belongs to the
  process, replaces the lock the process has on the file and is refused if it conflicts with a lock of
  another one (each thread is a process here, as under Linux threads); \<^verbatim>\<open>close\<close> drops every
  lock of the program on the file, whatever descriptor and thread set it. The file \<^verbatim>\<open>open\<close>
  finds, and whether a call is refused for a reason outside the program, are arguments.
\<close>

type_synonym inode = "64 word \<times> 64 word"
type_synonym pid = "32 word"

datatype descriptor = File inode | Directory
datatype lock_type = F_RDLCK | F_WRLCK | F_UNLCK
datatype errno = EINVAL | EAGAIN | EBADF | ENOLCK

record kernel =
  descr :: "(int \<times> descriptor) list"
  klocks :: "((inode \<times> pid) \<times> lock_type) list"

definition lowest :: "kernel \<Rightarrow> int" where
  "lowest k = int (hd (filter (\<lambda>n. int n \<notin> fst ` set (descr k)) [0..<Suc (length (descr k))]))"

definition kopen :: "descriptor option \<Rightarrow> kernel \<Rightarrow> int \<times> kernel" where
  "kopen answer k =
     (case answer of None \<Rightarrow> (-1, k) | Some d \<Rightarrow> (lowest k, k\<lparr>descr := (lowest k, d) # descr k\<rparr>))"

definition kclose :: "int \<Rightarrow> kernel \<Rightarrow> kernel" where
  "kclose d k =
     (case map_of (descr k) d of
        None \<Rightarrow> k
      | Some Directory \<Rightarrow> k\<lparr>descr := filter (\<lambda>(d', _). d' \<noteq> d) (descr k)\<rparr>
      | Some (File i) \<Rightarrow> k\<lparr>descr := filter (\<lambda>(d', _). d' \<noteq> d) (descr k), klocks := filter (\<lambda>((j, _), _). j \<noteq> i) (klocks k)\<rparr>)"

definition conflict :: "inode \<Rightarrow> pid \<Rightarrow> lock_type \<Rightarrow> kernel \<Rightarrow> bool" where
  "conflict i p t k \<longleftrightarrow> list_ex (\<lambda>((j, q), u). j = i \<and> q \<noteq> p \<and> (t = F_WRLCK \<or> t = F_RDLCK \<and> u = F_WRLCK)) (klocks k)"

definition set_lock :: "inode \<Rightarrow> pid \<Rightarrow> lock_type \<Rightarrow> kernel \<Rightarrow> kernel" where
  "set_lock i p t k =
     (let rest = filter (\<lambda>(key, _). key \<noteq> (i, p)) (klocks k)
      in k\<lparr>klocks := if t = F_UNLCK then rest else ((i, p), t) # rest\<rparr>)"

definition kfcntl :: "pid \<Rightarrow> int \<Rightarrow> lock_type \<Rightarrow> errno option \<Rightarrow> kernel \<Rightarrow> errno option \<times> kernel" where
  "kfcntl p d t refused k =
     (case map_of (descr k) d of
        Some (File i) \<Rightarrow>
          if refused \<noteq> None then (refused, k)
          else if conflict i p t k then (Some EAGAIN, k)
          else (None, set_lock i p t k)
      | _ \<Rightarrow> (Some EBADF, k))"

section \<open>The records\<close>

text \<open>The keys, as the bytes of the C structures, which \<^verbatim>\<open>memset\<close> has cleared, on a 64-bit machine.\<close>

definition le_bytes :: "nat \<Rightarrow> 'a::len word \<Rightarrow> string" where
  "le_bytes n w = map (\<lambda>i. char_of (unat (take_bit 8 (drop_bit (8 * i) w)))) [0..<n]"

definition lockKey :: "inode \<Rightarrow> pid \<Rightarrow> hkey" where
  "lockKey i p = \<lparr>pKey = le_bytes 8 (fst i) @ le_bytes 8 (snd i) @ le_bytes 4 p @ replicate 4 NUL, nKey = 24\<rparr>"

definition openKey :: "inode \<Rightarrow> hkey" where
  "openKey i = \<lparr>pKey = le_bytes 8 (fst i) @ le_bytes 8 (snd i), nKey = 16\<rparr>"

record lock_info =
  lkey :: "inode \<times> pid"
  cnt :: int
  nRef :: int

record open_cnt =
  okey :: inode
  oRef :: int
  nLock :: int
  nPending :: int
  aPending :: "int list"

record os_file =
  pOpen :: ptr
  pLock :: ptr
  fd :: int
  locked :: bool
  dirfd :: int

text \<open>
  The state: the handles in use, the records on the heap, the two tables, the kernel, and the
  outcomes of the next allocations of records, which succeed when the list is used up.
\<close>

record os_state =
  files :: "nat \<Rightarrow> os_file option"
  lockInfos :: "ptr \<Rightarrow> lock_info option"
  openCnts :: "ptr \<Rightarrow> open_cnt option"
  lockHash :: hash_tab
  openHash :: hash_tab
  kern :: kernel
  nextPtr :: ptr
  allocs :: "bool list"

datatype os_result = SQLITE_OK | SQLITE_NOMEM | SQLITE_CANTOPEN | SQLITE_BUSY | SQLITE_NOLFS | SQLITE_IOERR

definition os_malloc :: "os_state \<Rightarrow> bool \<times> os_state" where
  "os_malloc s = (case allocs s of [] \<Rightarrow> (True, s) | ok # rest \<Rightarrow> (ok, s\<lparr>allocs := rest\<rparr>))"

definition releaseLockInfo :: "ptr \<Rightarrow> os_state \<Rightarrow> os_state option" where
  "releaseLockInfo p s = do {
     l \<leftarrow> lockInfos s p;
     let l = l\<lparr>nRef := nRef l - 1\<rparr>;
     if nRef l = 0 then do {
       (_, t) \<leftarrow> sqliteHashInsert (lockKey (fst (lkey l)) (snd (lkey l))) 0 (lockHash s);
       Some (s\<lparr>lockHash := t, lockInfos := (lockInfos s)(p := None)\<rparr>) }
     else Some (s\<lparr>lockInfos := (lockInfos s)(p \<mapsto> l)\<rparr>) }"

definition releaseOpenCnt :: "ptr \<Rightarrow> os_state \<Rightarrow> os_state option" where
  "releaseOpenCnt p s = do {
     c \<leftarrow> openCnts s p;
     let c = c\<lparr>oRef := oRef c - 1\<rparr>;
     if oRef c = 0 then do {
       (_, t) \<leftarrow> sqliteHashInsert (openKey (okey c)) 0 (openHash s);
       Some (s\<lparr>openHash := t, openCnts := (openCnts s)(p := None)\<rparr>) }
     else Some (s\<lparr>openCnts := (openCnts s)(p \<mapsto> c)\<rparr>) }"

text \<open>The two halves of \<^verbatim>\<open>findLockInfo\<close>: the address of the record, or 0 if memory has run out.\<close>

definition find_lock :: "inode \<Rightarrow> pid \<Rightarrow> os_state \<Rightarrow> (ptr \<times> os_state) option" where
  "find_lock i pid s = do {
     p \<leftarrow> sqliteHashFind (lockHash s) (lockKey i pid);
     if p = 0 then
       case os_malloc s of (ok, s) \<Rightarrow>
         if \<not> ok then Some (0, s)
         else do {
           let p = nextPtr s;
           (old, t) \<leftarrow> sqliteHashInsert (lockKey i pid) p (lockHash s);
           if old \<noteq> 0 then do { assertion (old = p); Some (0, s\<lparr>lockHash := t\<rparr>) }
           else Some (p, s\<lparr>lockHash := t, nextPtr := p + 1,
                        lockInfos := (lockInfos s)(p \<mapsto> \<lparr>lkey = (i, pid), cnt = 0, nRef = 1\<rparr>)\<rparr>) }
     else do {
       l \<leftarrow> lockInfos s p;
       Some (p, s\<lparr>lockInfos := (lockInfos s)(p \<mapsto> l\<lparr>nRef := nRef l + 1\<rparr>)\<rparr>) } }"

definition find_open :: "inode \<Rightarrow> os_state \<Rightarrow> (ptr \<times> os_state) option" where
  "find_open i s = do {
     p \<leftarrow> sqliteHashFind (openHash s) (openKey i);
     if p = 0 then
       case os_malloc s of (ok, s) \<Rightarrow>
         if \<not> ok then Some (0, s)
         else do {
           let p = nextPtr s;
           (old, t) \<leftarrow> sqliteHashInsert (openKey i) p (openHash s);
           if old \<noteq> 0 then do { assertion (old = p); Some (0, s\<lparr>openHash := t\<rparr>) }
           else Some (p, s\<lparr>openHash := t, nextPtr := p + 1,
                        openCnts := (openCnts s)(p \<mapsto> \<lparr>okey = i, oRef = 1, nLock = 0, nPending = 0, aPending = []\<rparr>)\<rparr>) }
     else do {
       c \<leftarrow> openCnts s p;
       Some (p, s\<lparr>openCnts := (openCnts s)(p \<mapsto> c\<lparr>oRef := oRef c + 1\<rparr>)\<rparr>) } }"

text \<open>The records for a descriptor, or \<open>None\<close> for a non-zero result; \<^verbatim>\<open>fstat\<close> may fail.\<close>

definition findLockInfo :: "int \<Rightarrow> pid \<Rightarrow> bool \<Rightarrow> os_state \<Rightarrow> ((ptr \<times> ptr) option \<times> os_state) option" where
  "findLockInfo d pid fstat_ok s =
     (case map_of (descr (kern s)) d of
        Some (File i) \<Rightarrow>
          if \<not> fstat_ok then Some (None, s)
          else do {
            (p, s) \<leftarrow> find_lock i pid s;
            if p = 0 then Some (None, s)
            else do {
              (c, s) \<leftarrow> find_open i s;
              if c = 0 then do { s \<leftarrow> releaseLockInfo p s; Some (None, s) }
              else Some (Some (p, c), s) } }
      | _ \<Rightarrow> Some (None, s))"

section \<open>Opening and closing\<close>

definition os_close :: "int \<Rightarrow> os_state \<Rightarrow> os_state" where
  "os_close d s = s\<lparr>kern := kclose d (kern s)\<rparr>"

text \<open>The part the three ways of opening a file share, behind the call of \<^verbatim>\<open>open\<close>.\<close>

definition register_file :: "nat \<Rightarrow> int \<Rightarrow> pid \<Rightarrow> bool \<Rightarrow> os_state \<Rightarrow> (os_result \<times> os_state) option" where
  "register_file h d pid fstat_ok s = do {
     (r, s) \<leftarrow> findLockInfo d pid fstat_ok s;
     case r of
       None \<Rightarrow> Some (SQLITE_NOMEM, os_close d s)
     | Some (p, c) \<Rightarrow>
         Some (SQLITE_OK, s\<lparr>files := (files s)(h \<mapsto> \<lparr>pOpen = c, pLock = p, fd = d, locked = False, dirfd = -1\<rparr>)\<rparr>) }"

text \<open>\<open>rw\<close> and \<open>ro\<close> are what the two calls of \<^verbatim>\<open>open\<close> find; the second component is \<^verbatim>\<open>*pReadonly\<close>.\<close>

definition sqliteOsOpenReadWrite ::
  "nat \<Rightarrow> pid \<Rightarrow> inode option \<Rightarrow> inode option \<Rightarrow> bool \<Rightarrow> os_state \<Rightarrow> (os_result \<times> bool option \<times> os_state) option"
where
  "sqliteOsOpenReadWrite h pid rw ro fstat_ok s =
     (case kopen (map_option File rw) (kern s) of (d, k) \<Rightarrow>
        if d < 0 then
          (case kopen (map_option File ro) k of (d, k) \<Rightarrow>
             if d < 0 then Some (SQLITE_CANTOPEN, None, s)
             else do { (rc, s) \<leftarrow> register_file h d pid fstat_ok (s\<lparr>kern := k\<rparr>); Some (rc, Some True, s) })
        else do { (rc, s) \<leftarrow> register_file h d pid fstat_ok (s\<lparr>kern := k\<rparr>); Some (rc, Some False, s) })"

text \<open>\<open>exists\<close> is the answer of \<^verbatim>\<open>access\<close>. The removal of the name does not concern the locks.\<close>

definition sqliteOsOpenExclusive ::
  "nat \<Rightarrow> pid \<Rightarrow> bool \<Rightarrow> inode option \<Rightarrow> bool \<Rightarrow> os_state \<Rightarrow> (os_result \<times> os_state) option"
where
  "sqliteOsOpenExclusive h pid present new fstat_ok s =
     (if present then Some (SQLITE_CANTOPEN, s)
      else case kopen (map_option File new) (kern s) of (d, k) \<Rightarrow>
        if d < 0 then Some (SQLITE_CANTOPEN, s)
        else register_file h d pid fstat_ok (s\<lparr>kern := k\<rparr>))"

definition sqliteOsOpenReadOnly ::
  "nat \<Rightarrow> pid \<Rightarrow> inode option \<Rightarrow> bool \<Rightarrow> os_state \<Rightarrow> (os_result \<times> os_state) option"
where
  "sqliteOsOpenReadOnly h pid ro fstat_ok s =
     (case kopen (map_option File ro) (kern s) of (d, k) \<Rightarrow>
        if d < 0 then Some (SQLITE_CANTOPEN, s)
        else register_file h d pid fstat_ok (s\<lparr>kern := k\<rparr>))"

definition sqliteOsOpenDirectory :: "nat \<Rightarrow> bool \<Rightarrow> os_state \<Rightarrow> (os_result \<times> os_state) option" where
  "sqliteOsOpenDirectory h found s = do {
     f \<leftarrow> files s h;
     if fd f < 0 then Some (SQLITE_CANTOPEN, s)
     else do {
       assertion (dirfd f < 0);
       case kopen (if found then Some Directory else None) (kern s) of (d, k) \<Rightarrow>
         Some (if d < 0 then SQLITE_CANTOPEN else SQLITE_OK,
           s\<lparr>kern := k, files := (files s)(h \<mapsto> f\<lparr>dirfd := d\<rparr>)\<rparr>) } }"

definition sqliteOsSync :: "nat \<Rightarrow> bool \<Rightarrow> os_state \<Rightarrow> (os_result \<times> os_state) option" where
  "sqliteOsSync h synced s = do {
     f \<leftarrow> files s h;
     if \<not> synced then Some (SQLITE_IOERR, s)
     else if dirfd f \<ge> 0 then
       Some (SQLITE_OK, (os_close (dirfd f) s)\<lparr>files := (files s)(h \<mapsto> f\<lparr>dirfd := -1\<rparr>)\<rparr>)
     else Some (SQLITE_OK, s) }"

section \<open>Locking\<close>

definition lock_error :: "errno \<Rightarrow> os_result" where
  "lock_error e = (if e = EINVAL then SQLITE_NOLFS else SQLITE_BUSY)"

definition put_file :: "nat \<Rightarrow> os_file \<Rightarrow> os_state \<Rightarrow> os_state" where
  "put_file h f s = s\<lparr>files := (files s)(h \<mapsto> f)\<rparr>"

definition set_cnt :: "ptr \<Rightarrow> int \<Rightarrow> os_state \<Rightarrow> os_state option" where
  "set_cnt p n s = do { l \<leftarrow> lockInfos s p; Some (s\<lparr>lockInfos := (lockInfos s)(p \<mapsto> l\<lparr>cnt := n\<rparr>)\<rparr>) }"

definition add_lock :: "ptr \<Rightarrow> os_state \<Rightarrow> os_state option" where
  \<comment> \<open>id->pOpen->nLock++\<close>
  "add_lock c s = do { oc \<leftarrow> openCnts s c; Some (s\<lparr>openCnts := (openCnts s)(c \<mapsto> oc\<lparr>nLock := nLock oc + 1\<rparr>)\<rparr>) }"

text \<open>A successful first lock of a handle is counted once.\<close>

definition take_lock :: "nat \<Rightarrow> os_file \<Rightarrow> int \<Rightarrow> os_state \<Rightarrow> os_state option" where
  "take_lock h f n s = do {
     s \<leftarrow> (if \<not> locked f then do { s \<leftarrow> add_lock (pOpen f) s; Some (put_file h (f\<lparr>locked := True\<rparr>) s) } else Some s);
     set_cnt (pLock f) n s }"

definition sqliteOsReadLock :: "nat \<Rightarrow> pid \<Rightarrow> errno option \<Rightarrow> os_state \<Rightarrow> (os_result \<times> os_state) option" where
  "sqliteOsReadLock h pid refused s = do {
     f \<leftarrow> files s h;
     l \<leftarrow> lockInfos s (pLock f);
     if cnt l > 0 then
       if \<not> locked f then do {
         s \<leftarrow> set_cnt (pLock f) (cnt l + 1) s;
         s \<leftarrow> add_lock (pOpen f) (put_file h (f\<lparr>locked := True\<rparr>) s);
         Some (SQLITE_OK, s) }
       else Some (SQLITE_OK, s)
     else if locked f \<or> cnt l = 0 then
       case kfcntl pid (fd f) F_RDLCK refused (kern s) of
         (Some e, k) \<Rightarrow> Some (lock_error e, s\<lparr>kern := k\<rparr>)
       | (None, k) \<Rightarrow> do { s \<leftarrow> take_lock h f 1 (s\<lparr>kern := k\<rparr>); Some (SQLITE_OK, s) }
     else Some (SQLITE_BUSY, s) }"

definition sqliteOsWriteLock :: "nat \<Rightarrow> pid \<Rightarrow> errno option \<Rightarrow> os_state \<Rightarrow> (os_result \<times> os_state) option" where
  "sqliteOsWriteLock h pid refused s = do {
     f \<leftarrow> files s h;
     l \<leftarrow> lockInfos s (pLock f);
     if cnt l = 0 \<or> cnt l = 1 \<and> locked f then
       case kfcntl pid (fd f) F_WRLCK refused (kern s) of
         (Some e, k) \<Rightarrow> Some (lock_error e, s\<lparr>kern := k\<rparr>)
       | (None, k) \<Rightarrow> do { s \<leftarrow> take_lock h f (-1) (s\<lparr>kern := k\<rparr>); Some (SQLITE_OK, s) }
     else Some (SQLITE_BUSY, s) }"

text \<open>The loop over the deferred closes: \<^verbatim>\<open>for(i=0; i<pOpen->nPending; i++)\<close> from index \<open>i\<close> for \<open>n\<close> rounds.\<close>

primrec close_pending :: "nat \<Rightarrow> nat \<Rightarrow> int list \<Rightarrow> os_state \<Rightarrow> os_state option" where
  "close_pending 0 i ds s = Some s"
| "close_pending (Suc n) i ds s = (if i < length ds then close_pending n (i + 1) ds (os_close (ds ! i) s) else None)"

definition drop_lock :: "ptr \<Rightarrow> os_state \<Rightarrow> os_state option" where
  "drop_lock c s = do {
     oc \<leftarrow> openCnts s c;
     let oc = oc\<lparr>nLock := nLock oc - 1\<rparr>;
     assertion (nLock oc \<ge> 0);
     if nLock oc = 0 \<and> nPending oc > 0 then do {
       s \<leftarrow> close_pending (nat (nPending oc)) 0 (aPending oc) s;
       Some (s\<lparr>openCnts := (openCnts s)(c \<mapsto> oc\<lparr>nPending := 0, aPending := []\<rparr>)\<rparr>) }
     else Some (s\<lparr>openCnts := (openCnts s)(c \<mapsto> oc)\<rparr>) }"

definition sqliteOsUnlock :: "nat \<Rightarrow> pid \<Rightarrow> errno option \<Rightarrow> os_state \<Rightarrow> (os_result \<times> os_state) option" where
  "sqliteOsUnlock h pid refused s = do {
     f \<leftarrow> files s h;
     if \<not> locked f then Some (SQLITE_OK, s)
     else do {
       l \<leftarrow> lockInfos s (pLock f);
       assertion (cnt l \<noteq> 0);
       (rc, s) \<leftarrow> (if cnt l > 1 then do { s \<leftarrow> set_cnt (pLock f) (cnt l - 1) s; Some (SQLITE_OK, s) }
         else case kfcntl pid (fd f) F_UNLCK refused (kern s) of
           (Some e, k) \<Rightarrow> Some (lock_error e, s\<lparr>kern := k\<rparr>)
         | (None, k) \<Rightarrow> do { s \<leftarrow> set_cnt (pLock f) 0 (s\<lparr>kern := k\<rparr>); Some (SQLITE_OK, s) });
       s \<leftarrow> (if rc = SQLITE_OK then drop_lock (pOpen f) s else Some s);
       Some (rc, put_file h (f\<lparr>locked := False\<rparr>) s) } }"

text \<open>
  Closing a handle: as long as locks are out on the file, the descriptor joins the deferred ones;
  if the array cannot grow, \<open>realloc_ok\<close> being false, only their number does, and the array has a
  gap that the loop of \<open>drop_lock\<close> reads.
\<close>

definition defer_close :: "ptr \<Rightarrow> int \<Rightarrow> bool \<Rightarrow> os_state \<Rightarrow> os_state option" where
  "defer_close c d realloc_ok s = do {
     oc \<leftarrow> openCnts s c;
     Some (if nLock oc \<noteq> 0
       then s\<lparr>openCnts := (openCnts s)(c \<mapsto>
              oc\<lparr>nPending := nPending oc + 1, aPending := (if realloc_ok then aPending oc @ [d] else aPending oc)\<rparr>)\<rparr>
       else os_close d s) }"

definition sqliteOsClose :: "nat \<Rightarrow> pid \<Rightarrow> errno option \<Rightarrow> bool \<Rightarrow> os_state \<Rightarrow> (os_result \<times> os_state) option" where
  "sqliteOsClose h pid refused realloc_ok s = do {
     (_, s) \<leftarrow> sqliteOsUnlock h pid refused s;
     f \<leftarrow> files s h;
     let s = (if dirfd f \<ge> 0 then os_close (dirfd f) s else s);
     s \<leftarrow> defer_close (pOpen f) (fd f) realloc_ok s;
     s \<leftarrow> releaseLockInfo (pLock f) s;
     s \<leftarrow> releaseOpenCnt (pOpen f) s;
     Some (SQLITE_OK, s\<lparr>files := (files s)(h := None)\<rparr>) }"

text \<open>The initial state.\<close>

definition os_init :: "bool list \<Rightarrow> bool list \<Rightarrow> bool list \<Rightarrow> os_state" where
  "os_init m1 m2 m3 = \<lparr>files = Map.empty, lockInfos = Map.empty, openCnts = Map.empty,
     lockHash = (sqliteHashInit HASH_BINARY False)\<lparr>mallocs := m1\<rparr>, openHash = (sqliteHashInit HASH_BINARY False)\<lparr>mallocs := m2\<rparr>,
     kern = \<lparr>descr = [], klocks = []\<rparr>, nextPtr = 1, allocs = m3\<rparr>"

end
