(* ===== verification/OsInv.thy ===== *)
theory OsInv
  imports OsUnix HashProps
begin

text \<open>
  The invariant of the file locks. A table indexes the records on the heap by their keys; every
  handle has its records and its own descriptor; the records count their handles and locks; and
  the kernel holds a lock for every record that says so.
\<close>

section \<open>Records indexed by a hash table\<close>

definition indexes :: "('k \<Rightarrow> hkey) \<Rightarrow> ('r \<Rightarrow> 'k) \<Rightarrow> hash_tab \<Rightarrow> (ptr \<Rightarrow> 'r option) \<Rightarrow> bool" where
  "indexes key kof t m \<longleftrightarrow> hash_reach t \<and> keyClass t = HASH_BINARY \<and>
     (\<forall>k q. hash_view t (canon HASH_BINARY (key k)) = Some q \<longleftrightarrow> (\<exists>r. m q = Some r \<and> kof r = k))"

locale hash_index =
  fixes key :: "'k \<Rightarrow> hkey" and kof :: "'r \<Rightarrow> 'k"
  assumes ok: "key_ok HASH_BINARY (key k)"
    and inj: "canon HASH_BINARY (key k) = canon HASH_BINARY (key k') \<Longrightarrow> k = k'"
begin

lemma unique: "indexes key kof t m \<Longrightarrow> m p = Some r \<Longrightarrow> m q = Some r' \<Longrightarrow> kof r = kof r' \<Longrightarrow> p = q"
  unfolding indexes_def by (metis option.inject)

lemma find:
  assumes "indexes key kof t m" "m 0 = None"
  shows "\<exists>p. sqliteHashFind t (key k) = Some p \<and>
    (p = 0 \<and> (\<forall>q r. m q = Some r \<longrightarrow> kof r \<noteq> k) \<or> p \<noteq> 0 \<and> (\<exists>r. m p = Some r \<and> kof r = k))"
proof -
  obtain gs where inv: "hash_inv t gs" using assms(1) reach_inv unfolding indexes_def by blast
  have cl: "keyClass t = HASH_BINARY" using assms(1) by (simp add: indexes_def)
  have f: "sqliteHashFind t (key k) = Some (case hash_view t (canon HASH_BINARY (key k)) of None \<Rightarrow> 0 | Some d \<Rightarrow> d)"
    using hashFind_ok [OF inv, of "key k"] ok cl by simp
  have v: "hash_view t (canon HASH_BINARY (key k)) = Some q \<longleftrightarrow> (\<exists>r. m q = Some r \<and> kof r = k)" for q
    using assms(1) by (simp add: indexes_def)
  show ?thesis
  proof (cases "hash_view t (canon HASH_BINARY (key k))")
    case None
    then show ?thesis using f v by auto
  next
    case (Some d)
    then have "\<exists>r. m d = Some r \<and> kof r = k" using v [of d] by (simp del: canon.simps)
    moreover from this have "d \<noteq> 0" using assms(2) by (cases "d = 0") auto
    ultimately show ?thesis using f Some by simp
  qed
qed

lemma insert:
  assumes ix: "indexes key kof t m" and new: "\<forall>q r. m q = Some r \<longrightarrow> kof r \<noteq> k" and p: "p \<noteq> 0" "m p = None" and r: "kof r = k"
  shows "\<exists>old t'. sqliteHashInsert (key k) p t = Some (old, t') \<and>
    (old = 0 \<and> indexes key kof t' (m(p \<mapsto> r)) \<or> old = p \<and> indexes key kof t' m)"
proof -
  have t: "hash_reach t" "keyClass t = HASH_BINARY" using ix by (simp_all add: indexes_def)
  obtain old t' where s: "sqliteHashInsert (key k) p t = Some (old, t')" "hash_reach t'" "stored t (key k) p old t'"
    using reach_insert [OF t(1), of "key k" p] ok t(2) by auto
  have none: "hash_view t (canon HASH_BINARY (key k)) = None"
    using ix new unfolding indexes_def by (cases "hash_view t (canon HASH_BINARY (key k))") auto
  have cl: "keyClass t' = HASH_BINARY" using s(3) t(2) by (simp add: stored_def)
  have "old = 0 \<and> hash_view t' = (hash_view t)(canon HASH_BINARY (key k) \<mapsto> p) \<or> old = p \<and> hash_view t' = hash_view t"
    using s(3) t(2) none p(1) by (auto simp: stored_def)
  then show ?thesis
  proof
    assume a: "old = 0 \<and> hash_view t' = (hash_view t)(canon HASH_BINARY (key k) \<mapsto> p)"
    have "hash_view t' (canon HASH_BINARY (key k')) = Some q \<longleftrightarrow> (\<exists>r'. (m(p \<mapsto> r)) q = Some r' \<and> kof r' = k')" for k' q
    proof (cases "k' = k")
      case True
      then show ?thesis using a new r by auto
    next
      case False
      then have "canon HASH_BINARY (key k') \<noteq> canon HASH_BINARY (key k)" using inj by blast
      then have "hash_view t' (canon HASH_BINARY (key k')) = Some q \<longleftrightarrow> (\<exists>r'. m q = Some r' \<and> kof r' = k')"
        using a ix by (simp add: indexes_def)
      then show ?thesis using False r p(2) by auto
    qed
    then have "indexes key kof t' (m(p \<mapsto> r))" unfolding indexes_def using s(2) cl by blast
    then show ?thesis using s(1) a by blast
  next
    assume "old = p \<and> hash_view t' = hash_view t"
    then show ?thesis using s(1,2) cl ix by (auto simp: indexes_def)
  qed
qed

lemma remove:
  assumes ix: "indexes key kof t m" and p: "m p = Some r"
  shows "\<exists>old t'. sqliteHashInsert (key (kof r)) 0 t = Some (old, t') \<and> indexes key kof t' (m(p := None))"
proof -
  have t: "hash_reach t" "keyClass t = HASH_BINARY" using ix by (simp_all add: indexes_def)
  obtain old t' where s: "sqliteHashInsert (key (kof r)) 0 t = Some (old, t')" "hash_reach t'" "stored t (key (kof r)) 0 old t'"
    using reach_insert [OF t(1), of "key (kof r)" 0] ok t(2) by auto
  have cl: "keyClass t' = HASH_BINARY" using s(3) t(2) by (simp add: stored_def)
  have v: "hash_view t' = (hash_view t)(canon HASH_BINARY (key (kof r)) := None)" using s(3) t(2) by (simp add: stored_def)
  have "hash_view t' (canon HASH_BINARY (key k)) = Some q \<longleftrightarrow> (\<exists>r'. (m(p := None)) q = Some r' \<and> kof r' = k)" for k q
  proof (cases "k = kof r")
    case True
    then show ?thesis using v unique [OF ix p] by auto
  next
    case False
    then have "canon HASH_BINARY (key k) \<noteq> canon HASH_BINARY (key (kof r))" using inj by blast
    then have "hash_view t' (canon HASH_BINARY (key k)) = Some q \<longleftrightarrow> (\<exists>r'. m q = Some r' \<and> kof r' = k)"
      using v ix by (simp add: indexes_def)
    then show ?thesis using False p by auto
  qed
  then have "indexes key kof t' (m(p := None))" unfolding indexes_def using s(2) cl by blast
  then show ?thesis using s(1) by blast
qed

lemma update: "indexes key kof t m \<Longrightarrow> m p = Some r \<Longrightarrow> kof r' = kof r \<Longrightarrow> indexes key kof t (m(p \<mapsto> r'))"
  unfolding indexes_def by auto

end

lemma le_bytes_length [simp]: "length (le_bytes n w) = n"
  by (simp add: le_bytes_def)

lemma le_bytes_inj:
  fixes v w :: "'a::len word"
  assumes "le_bytes n v = le_bytes n w" "LENGTH('a) \<le> 8 * n"
  shows "v = w"
proof (rule bit_word_eqI)
  fix b assume b: "b < LENGTH('a)"
  let ?i = "b div 8"
  have i: "?i < n" using b assms(2) by simp
  have "le_bytes n v ! ?i = le_bytes n w ! ?i" using assms(1) by simp
  then have "(char_of (unat (take_bit 8 (drop_bit (8 * ?i) v))) :: char) = char_of (unat (take_bit 8 (drop_bit (8 * ?i) w)))"
    using i by (simp add: le_bytes_def)
  then have "unat (take_bit 8 (drop_bit (8 * ?i) v)) mod 256 = unat (take_bit 8 (drop_bit (8 * ?i) w)) mod 256"
    by (metis of_char_of)
  moreover have "unat (take_bit 8 x) mod 256 = unat (take_bit 8 x)" for x :: "'a word"
  proof -
    have "unat (take_bit 8 x) = unat x mod 256" by (subst unsigned_take_bit_eq) (simp add: take_bit_eq_mod)
    then show ?thesis by (simp del: take_bit_eq_mod)
  qed
  ultimately have "take_bit 8 (drop_bit (8 * ?i) v) = take_bit 8 (drop_bit (8 * ?i) w)"
    by (simp only: word_unat_eq_iff)
  then have "bit (take_bit 8 (drop_bit (8 * ?i) v)) (b mod 8) = bit (take_bit 8 (drop_bit (8 * ?i) w)) (b mod 8)" by simp
  then show "bit v b = bit w b" by (simp add: bit_simps)
qed

lemma canon_binary: "canon HASH_BINARY k = canon HASH_BINARY k' \<longleftrightarrow> pKey k = pKey k'"
  by simp

lemma lockKey_inj:
  assumes "canon HASH_BINARY (lockKey i p) = canon HASH_BINARY (lockKey j q)"
  shows "i = j \<and> p = q"
proof -
  have e: "le_bytes 8 (fst i) = le_bytes 8 (fst j)" "le_bytes 8 (snd i) = le_bytes 8 (snd j)" "le_bytes 4 p = le_bytes 4 q"
    using assms unfolding canon_binary lockKey_def by simp_all
  show ?thesis using le_bytes_inj [OF e(1)] le_bytes_inj [OF e(2)] le_bytes_inj [OF e(3)] by (simp add: prod_eq_iff)
qed

lemma openKey_inj:
  assumes "canon HASH_BINARY (openKey i) = canon HASH_BINARY (openKey j)"
  shows "i = j"
proof -
  have e: "le_bytes 8 (fst i) = le_bytes 8 (fst j)" "le_bytes 8 (snd i) = le_bytes 8 (snd j)"
    using assms unfolding canon_binary openKey_def by simp_all
  show ?thesis using le_bytes_inj [OF e(1)] le_bytes_inj [OF e(2)] by (simp add: prod_eq_iff)
qed

interpretation locks: hash_index "\<lambda>(i, p). lockKey i p" lkey
proof
  show "key_ok HASH_BINARY (case k of (i, p) \<Rightarrow> lockKey i p)" for k :: "inode \<times> pid"
    by (cases k) (simp add: lockKey_def)
  show "k = k'" if "canon HASH_BINARY (case k of (i, p) \<Rightarrow> lockKey i p) = canon HASH_BINARY (case k' of (i, p) \<Rightarrow> lockKey i p)"
    for k k' :: "inode \<times> pid"
    using that lockKey_inj [of "fst k" "snd k" "fst k'" "snd k'"] by (cases k; cases k') (simp del: canon.simps)
qed

interpretation opens: hash_index openKey okey
proof
  show "key_ok HASH_BINARY (openKey k)" for k by (simp add: openKey_def)
  show "k = k'" if "canon HASH_BINARY (openKey k) = canon HASH_BINARY (openKey k')" for k k'
    using that by (rule openKey_inj)
qed

section \<open>The invariant\<close>

text \<open>
  \<open>e\<close> and \<open>g\<close> count the references to records that no handle accounts for yet, in the middle of
  an operation. With \<open>x\<close> the counts are exact, as they are as long as the kernel refuses no
  unlocking; without, a record may count locks that nobody will give back.
\<close>

abbreviation lock_key :: "inode \<times> pid \<Rightarrow> hkey" where
  "lock_key \<equiv> \<lambda>(i, p). lockKey i p"

definition at_lock :: "os_state \<Rightarrow> ptr \<Rightarrow> nat set" where
  "at_lock s p = {h. \<exists>f. files s h = Some f \<and> pLock f = p}"

definition at_open :: "os_state \<Rightarrow> ptr \<Rightarrow> nat set" where
  "at_open s c = {h. \<exists>f. files s h = Some f \<and> pOpen f = c}"

definition holders :: "os_state \<Rightarrow> ptr \<Rightarrow> nat set" where
  "holders s p = {h. \<exists>f. files s h = Some f \<and> pLock f = p \<and> locked f}"

definition tables :: "os_state \<Rightarrow> bool" where
  "tables s \<longleftrightarrow> indexes lock_key lkey (lockHash s) (lockInfos s) \<and> indexes openKey okey (openHash s) (openCnts s) \<and>
     0 < nextPtr s \<and> (\<forall>p l. lockInfos s p = Some l \<longrightarrow> 0 < p \<and> p < nextPtr s) \<and>
     (\<forall>p c. openCnts s p = Some c \<longrightarrow> 0 < p \<and> p < nextPtr s) \<and> finite (dom (files s))"

definition linked_to :: "os_state \<Rightarrow> os_file \<Rightarrow> bool" where
  "linked_to s f \<longleftrightarrow> (\<exists>l c. lockInfos s (pLock f) = Some l \<and> openCnts s (pOpen f) = Some c \<and> okey c = fst (lkey l))"

definition refs :: "(ptr \<Rightarrow> nat) \<Rightarrow> (ptr \<Rightarrow> nat) \<Rightarrow> os_state \<Rightarrow> bool" where
  "refs e g s \<longleftrightarrow>
     (\<forall>h f. files s h = Some f \<longrightarrow> linked_to s f) \<and>
     (\<forall>p l. lockInfos s p = Some l \<longrightarrow> nRef l = int (card (at_lock s p) + e p) \<and> 0 < nRef l) \<and>
     (\<forall>p c. openCnts s p = Some c \<longrightarrow> oRef c = int (card (at_open s p) + g p) \<and> 0 < oRef c)"

text \<open>The descriptors: each handle has its own, and the deferred ones are open.\<close>

definition descs :: "os_state \<Rightarrow> bool" where
  "descs s \<longleftrightarrow> (\<forall>d v. map_of (descr (kern s)) d = Some v \<longrightarrow> 0 \<le> d) \<and>
     (\<forall>h f c. files s h = Some f \<longrightarrow> openCnts s (pOpen f) = Some c \<longrightarrow> map_of (descr (kern s)) (fd f) = Some (File (okey c))) \<and>
     (\<forall>h f. files s h = Some f \<longrightarrow> 0 \<le> dirfd f \<longrightarrow> map_of (descr (kern s)) (dirfd f) = Some Directory) \<and>
     (\<forall>h f h' f'. files s h = Some f \<longrightarrow> files s h' = Some f' \<longrightarrow> h \<noteq> h' \<longrightarrow> fd f \<noteq> fd f' \<and> (0 \<le> dirfd f \<longrightarrow> dirfd f \<noteq> dirfd f')) \<and>
     (\<forall>p c. openCnts s p = Some c \<longrightarrow> nPending c = int (length (aPending c)) \<and>
        (\<forall>d \<in> set (aPending c). map_of (descr (kern s)) d = Some (File (okey c)) \<and> (\<forall>h f. files s h = Some f \<longrightarrow> fd f \<noteq> d)))"

text \<open>The counts: no record counts fewer locks than its handles hold.\<close>

definition lock_count :: "os_state \<Rightarrow> ptr \<Rightarrow> int" where
  "lock_count s p = (case lockInfos s p of None \<Rightarrow> 0 | Some l \<Rightarrow> \<bar>cnt l\<bar>)"

definition inode_locks :: "os_state \<Rightarrow> inode \<Rightarrow> ptr set" where
  "inode_locks s i = {p. \<exists>l. lockInfos s p = Some l \<and> fst (lkey l) = i}"

definition at_most :: "bool \<Rightarrow> int \<Rightarrow> int \<Rightarrow> bool" where
  "at_most x a b \<longleftrightarrow> a \<le> b \<and> (x \<longrightarrow> a = b)"

definition counts :: "bool \<Rightarrow> os_state \<Rightarrow> bool" where
  "counts x s \<longleftrightarrow>
     (\<forall>p l. lockInfos s p = Some l \<longrightarrow> -1 \<le> cnt l \<and> at_most x (int (card (holders s p))) \<bar>cnt l\<bar> \<and>
        (cnt l \<noteq> 0 \<longrightarrow> (\<exists>q c. openCnts s q = Some c \<and> okey c = fst (lkey l)))) \<and>
     (\<forall>p c. openCnts s p = Some c \<longrightarrow> at_most x (sum (lock_count s) (inode_locks s (okey c))) (nLock c))"

text \<open>The kernel: it holds a lock for every record with a count, and its locks exclude each other.\<close>

abbreviation mode_of :: "int \<Rightarrow> lock_type" where
  "mode_of n \<equiv> (if n < 0 then F_WRLCK else F_RDLCK)"

definition kern_locks :: "bool \<Rightarrow> os_state \<Rightarrow> bool" where
  "kern_locks x s \<longleftrightarrow>
     (\<forall>p l. lockInfos s p = Some l \<longrightarrow> cnt l \<noteq> 0 \<longrightarrow> (lkey l, mode_of (cnt l)) \<in> set (klocks (kern s))) \<and>
     (x \<longrightarrow> (\<forall>key t. (key, t) \<in> set (klocks (kern s)) \<longrightarrow> (\<exists>p l. lockInfos s p = Some l \<and> lkey l = key \<and> cnt l \<noteq> 0 \<and> t = mode_of (cnt l))))"

definition exclusive :: "kernel \<Rightarrow> bool" where
  "exclusive k \<longleftrightarrow>
     (\<forall>i p q t. ((i, p), F_WRLCK) \<in> set (klocks k) \<longrightarrow> ((i, q), t) \<in> set (klocks k) \<longrightarrow> q = p \<and> t = F_WRLCK)"

definition os_inv :: "bool \<Rightarrow> (ptr \<Rightarrow> nat) \<Rightarrow> (ptr \<Rightarrow> nat) \<Rightarrow> os_state \<Rightarrow> bool" where
  "os_inv x e g s \<longleftrightarrow> tables s \<and> refs e g s \<and> descs s \<and> counts x s \<and> kern_locks x s \<and> exclusive (kern s)"

abbreviation os_ok :: "bool \<Rightarrow> os_state \<Rightarrow> bool" where
  "os_ok x \<equiv> os_inv x (\<lambda>_. 0) (\<lambda>_. 0)"

lemma os_invD:
  assumes "os_inv x e g s"
  shows "tables s" "refs e g s" "descs s" "counts x s" "kern_locks x s" "exclusive (kern s)"
  using assms by (simp_all add: os_inv_def)

lemma os_invI: "tables s \<Longrightarrow> refs e g s \<Longrightarrow> descs s \<Longrightarrow> counts x s \<Longrightarrow> kern_locks x s \<Longrightarrow> exclusive (kern s) \<Longrightarrow> os_inv x e g s"
  by (simp add: os_inv_def)

lemma at_mostD: "at_most x a b \<Longrightarrow> a \<le> b"
  by (simp add: at_most_def)

lemma at_most_add: "at_most x a b \<Longrightarrow> at_most x (a + n) (b + n)"
  by (simp add: at_most_def)

lemma finite_holders [simp]: "tables s \<Longrightarrow> finite (holders s p)"
  by (rule finite_subset [of _ "dom (files s)"]) (auto simp: tables_def holders_def)

lemma finite_at_lock [simp]: "tables s \<Longrightarrow> finite (at_lock s p)"
  by (rule finite_subset [of _ "dom (files s)"]) (auto simp: tables_def at_lock_def)

lemma finite_at_open [simp]: "tables s \<Longrightarrow> finite (at_open s p)"
  by (rule finite_subset [of _ "dom (files s)"]) (auto simp: tables_def at_open_def)

lemma finite_inode_locks [simp]: "tables s \<Longrightarrow> finite (inode_locks s i)"
  by (rule finite_subset [of _ "{..<nextPtr s}"]) (auto simp: tables_def inode_locks_def)

text \<open>The records of a handle.\<close>

lemma handle_records:
  assumes "os_inv x e g s" "files s h = Some f"
  obtains l c where "lockInfos s (pLock f) = Some l" "openCnts s (pOpen f) = Some c" "okey c = fst (lkey l)"
    "map_of (descr (kern s)) (fd f) = Some (File (okey c))"
proof -
  have "linked_to s f" using os_invD(2) [OF assms(1)] assms(2) by (auto simp: refs_def)
  then obtain l c where *: "lockInfos s (pLock f) = Some l" "openCnts s (pOpen f) = Some c" "okey c = fst (lkey l)"
    by (auto simp: linked_to_def)
  have "map_of (descr (kern s)) (fd f) = Some (File (okey c))"
    using os_invD(3) [OF assms(1)] assms(2) *(2) unfolding descs_def by blast
  from that [OF * this] show thesis .
qed

lemma lock_unique: "os_inv x e g s \<Longrightarrow> lockInfos s p = Some l \<Longrightarrow> lockInfos s q = Some l' \<Longrightarrow> lkey l = lkey l' \<Longrightarrow> p = q"
  using os_invD(1) locks.unique unfolding tables_def by blast

lemma open_unique: "os_inv x e g s \<Longrightarrow> openCnts s p = Some l \<Longrightarrow> openCnts s q = Some l' \<Longrightarrow> okey l = okey l' \<Longrightarrow> p = q"
  using os_invD(1) opens.unique unfolding tables_def by blast

text \<open>A handle that holds a lock has a count and a lock in the kernel.\<close>

lemma locked_cnt:
  assumes "os_inv x e g s" "files s h = Some f" "locked f" "lockInfos s (pLock f) = Some l"
  shows "cnt l \<noteq> 0"
proof -
  have "h \<in> holders s (pLock f)" using assms by (auto simp: holders_def)
  then have "card (holders s (pLock f)) \<noteq> 0" using finite_holders [OF os_invD(1) [OF assms(1)]] by auto
  then show ?thesis using os_invD(4) [OF assms(1)] assms(4) unfolding counts_def by (fastforce dest: at_mostD)
qed

lemma only_holder:
  assumes "os_inv x e g s" "files s h = Some f" "locked f" "lockInfos s (pLock f) = Some l" "\<bar>cnt l\<bar> \<le> 1"
  shows "holders s (pLock f) = {h}"
proof -
  have h: "h \<in> holders s (pLock f)" using assms by (auto simp: holders_def)
  have "int (card (holders s (pLock f))) \<le> \<bar>cnt l\<bar>" using os_invD(4) [OF assms(1)] assms(4) by (simp add: counts_def at_most_def)
  then have "card (holders s (pLock f)) \<le> 1" using assms(5) by simp
  then show ?thesis using h finite_holders [OF os_invD(1) [OF assms(1)]] by (metis card_le_Suc0_iff_eq is_singletonI' is_singleton_the_elem One_nat_def singletonD empty_iff)
qed

text \<open>What the invariant is for: a writer is alone on its file, among all threads.\<close>

lemma inv_exclusion:
  assumes inv: "os_inv x e g s" and h: "files s h = Some f" "locked f" "lockInfos s (pLock f) = Some l" "cnt l = -1"
    and h': "files s h' = Some f'" "h' \<noteq> h" "lockInfos s (pLock f') = Some l'" "fst (lkey l') = fst (lkey l)"
  shows "\<not> locked f'"
proof
  assume lk: "locked f'"
  show False
  proof (cases "pLock f' = pLock f")
    case True
    then have "h' \<in> holders s (pLock f)" using h' lk by (auto simp: holders_def)
    then show False using only_holder [OF inv h(1-3)] h(4) h'(2) by simp
  next
    case False
    have k: "lkey l' \<noteq> lkey l" using False lock_unique [OF inv h'(3) h(3)] by blast
    have "cnt l' \<noteq> 0" by (rule locked_cnt [OF inv h'(1) lk h'(3)])
    then have "(lkey l', mode_of (cnt l')) \<in> set (klocks (kern s))" using os_invD(5) [OF inv] h'(3) unfolding kern_locks_def by blast
    moreover have "(lkey l, F_WRLCK) \<in> set (klocks (kern s))" using os_invD(5) [OF inv] h(3,4) unfolding kern_locks_def by fastforce
    ultimately have "snd (lkey l') = snd (lkey l)" using os_invD(6) [OF inv] h'(4) unfolding exclusive_def by (metis prod.collapse)
    then show False using k h'(4) by (simp add: prod_eq_iff)
  qed
qed

end
