(* ===== verification/OsOps.thy ===== *)
theory OsOps
  imports OsInv
begin

section \<open>Changing the lock of a handle\<close>

definition relocked :: "nat \<Rightarrow> os_file \<Rightarrow> lock_info \<Rightarrow> open_cnt \<Rightarrow> bool \<Rightarrow> int \<Rightarrow> int \<Rightarrow> kernel \<Rightarrow> os_state \<Rightarrow> os_state" where
  "relocked h f l c b n m k s = s\<lparr>files := (files s)(h \<mapsto> f\<lparr>locked := b\<rparr>), lockInfos := (lockInfos s)(pLock f \<mapsto> l\<lparr>cnt := n\<rparr>),
     openCnts := (openCnts s)(pOpen f \<mapsto> c\<lparr>nLock := m\<rparr>), kern := k\<rparr>"

definition same_shape :: "os_state \<Rightarrow> os_state \<Rightarrow> bool" where
  "same_shape s s' \<longleftrightarrow> (\<forall>h. map_option (\<lambda>f. (pLock f, pOpen f)) (files s' h) = map_option (\<lambda>f. (pLock f, pOpen f)) (files s h)) \<and>
     (\<forall>p. map_option (\<lambda>l. (lkey l, nRef l)) (lockInfos s' p) = map_option (\<lambda>l. (lkey l, nRef l)) (lockInfos s p)) \<and>
     (\<forall>p. map_option (\<lambda>c. (okey c, oRef c)) (openCnts s' p) = map_option (\<lambda>c. (okey c, oRef c)) (openCnts s p))"

lemma same_shapeD:
  assumes "same_shape s s'"
  shows "files s' h = Some f' \<Longrightarrow> \<exists>f. files s h = Some f \<and> pLock f = pLock f' \<and> pOpen f = pOpen f'"
    "lockInfos s' p = Some l' \<Longrightarrow> \<exists>l. lockInfos s p = Some l \<and> lkey l = lkey l' \<and> nRef l = nRef l'"
    "openCnts s' p = Some c' \<Longrightarrow> \<exists>c. openCnts s p = Some c \<and> okey c = okey c' \<and> oRef c = oRef c'"
proof -
  have eq: "map_option (\<lambda>f. (pLock f, pOpen f)) (files s' h) = map_option (\<lambda>f. (pLock f, pOpen f)) (files s h)"
    "map_option (\<lambda>l. (lkey l, nRef l)) (lockInfos s' p) = map_option (\<lambda>l. (lkey l, nRef l)) (lockInfos s p)"
    "map_option (\<lambda>c. (okey c, oRef c)) (openCnts s' p) = map_option (\<lambda>c. (okey c, oRef c)) (openCnts s p)"
    using assms unfolding same_shape_def by blast+
  show "files s' h = Some f' \<Longrightarrow> \<exists>f. files s h = Some f \<and> pLock f = pLock f' \<and> pOpen f = pOpen f'" using eq(1) by (cases "files s h") auto
  show "lockInfos s' p = Some l' \<Longrightarrow> \<exists>l. lockInfos s p = Some l \<and> lkey l = lkey l' \<and> nRef l = nRef l'" using eq(2) by (cases "lockInfos s p") auto
  show "openCnts s' p = Some c' \<Longrightarrow> \<exists>c. openCnts s p = Some c \<and> okey c = okey c' \<and> oRef c = oRef c'" using eq(3) by (cases "openCnts s p") auto
qed

lemma same_shape_sym: "same_shape s s' \<Longrightarrow> same_shape s' s"
  by (simp add: same_shape_def)

lemma shape_sets:
  assumes "same_shape s s'"
  shows "at_lock s' = at_lock s" "at_open s' = at_open s"
  using same_shapeD(1) [OF assms] same_shapeD(1) [OF same_shape_sym [OF assms]]
  by (fastforce simp: at_lock_def at_open_def fun_eq_iff set_eq_iff)+

lemma shape_refs:
  assumes sh: "same_shape s s'" and r: "refs e g s"
  shows "refs e g s'"
  unfolding refs_def
proof (intro conjI allI impI)
  fix h f' assume f': "files s' h = Some f'"
  then obtain f where f: "files s h = Some f" "pLock f = pLock f'" "pOpen f = pOpen f'" using same_shapeD(1) [OF sh] by blast
  then have "linked_to s f'" using r unfolding refs_def linked_to_def by metis
  then show "linked_to s' f'" using same_shapeD(2,3) [OF same_shape_sym [OF sh]] unfolding linked_to_def by metis
next
  fix p l assume l: "lockInfos s' p = Some l"
  from same_shapeD(2) [OF sh this] r show "nRef l = int (card (at_lock s' p) + e p)" "0 < nRef l"
    unfolding shape_sets [OF sh] refs_def by metis+
next
  fix p c assume c: "openCnts s' p = Some c"
  from same_shapeD(3) [OF sh this] r show "oRef c = int (card (at_open s' p) + g p)" "0 < oRef c"
    unfolding shape_sets [OF sh] refs_def by metis+
qed

lemma relock:
  assumes inv: "os_inv x e g s" and f: "files s h = Some f" and l: "lockInfos s (pLock f) = Some l" and c: "openCnts s (pOpen f) = Some c"
    and n: "-1 \<le> n" "m = nLock c + \<bar>n\<bar> - \<bar>cnt l\<bar>"
    and held: "at_most x (int (card (if b then insert h (holders s (pLock f)) else holders s (pLock f) - {h}))) \<bar>n\<bar>"
    and k: "descr k = descr (kern s)" "exclusive k"
    and others: "\<And>key t. key \<noteq> lkey l \<Longrightarrow> (key, t) \<in> set (klocks k) \<longleftrightarrow> (key, t) \<in> set (klocks (kern s))"
    and own: "n \<noteq> 0 \<Longrightarrow> (lkey l, mode_of n) \<in> set (klocks k)"
    and own': "\<And>t. x \<Longrightarrow> (lkey l, t) \<in> set (klocks k) \<Longrightarrow> n \<noteq> 0 \<and> t = mode_of n"
  shows "os_inv x e g (relocked h f l c b n m k s)" (is "os_inv x e g ?s")
proof -
  note i = os_invD [OF inv]
  have key: "okey c = fst (lkey l)" using i(2) f l c unfolding refs_def linked_to_def by force
  have sh: "same_shape s ?s" using f l c by (simp add: relocked_def same_shape_def)
  have hold: "holders ?s p = (if p = pLock f then (if b then insert h (holders s p) else holders s p - {h}) else holders s p)" for p
    using f by (auto simp: relocked_def holders_def)
  have inod: "inode_locks ?s = inode_locks s" using l by (auto simp: relocked_def inode_locks_def fun_eq_iff)
  have cntq: "lock_count ?s q = (if q = pLock f then \<bar>n\<bar> else lock_count s q)" for q
    by (simp add: relocked_def lock_count_def)
  have sums: "sum (lock_count ?s) (inode_locks s j) = sum (lock_count s) (inode_locks s j) + (if j = fst (lkey l) then \<bar>n\<bar> - \<bar>cnt l\<bar> else 0)" for j
  proof (cases "j = fst (lkey l)")
    case True
    then have p: "pLock f \<in> inode_locks s j" using l by (auto simp: inode_locks_def)
    have "sum (lock_count ?s) (inode_locks s j - {pLock f}) = sum (lock_count s) (inode_locks s j - {pLock f})"
      by (rule sum.cong) (simp_all add: cntq)
    then show ?thesis using True l sum.remove [OF finite_inode_locks [OF i(1)] p, of "lock_count ?s"]
        sum.remove [OF finite_inode_locks [OF i(1)] p, of "lock_count s"] by (simp add: cntq) (simp add: lock_count_def)
  next
    case False
    then have "pLock f \<notin> inode_locks s j" using l by (auto simp: inode_locks_def)
    then show ?thesis using False by (auto simp: cntq intro!: sum.cong)
  qed
  have "tables ?s"
    using i(1) l c locks.update [of "lockHash s" "lockInfos s" _ l "l\<lparr>cnt := n\<rparr>"] opens.update [of "openHash s" "openCnts s" _ c "c\<lparr>nLock := m\<rparr>"]
    unfolding tables_def relocked_def by (auto split: if_splits)
  moreover have "refs e g ?s" by (rule shape_refs [OF sh i(2)])
  moreover have "descs ?s"
    using i(3) f c k(1) unfolding descs_def relocked_def by (auto split: if_splits)
  moreover have "counts x ?s"
    unfolding counts_def
  proof (intro conjI allI impI)
    fix p l' assume l': "lockInfos ?s p = Some l'"
    show "-1 \<le> cnt l'" using l' n(1) i(4) by (auto simp: relocked_def counts_def split: if_splits)
    show "at_most x (int (card (holders ?s p))) \<bar>cnt l'\<bar>"
      using l' held i(4) by (auto simp: hold) (auto simp: relocked_def counts_def split: if_splits)
    show "\<exists>q c. openCnts ?s q = Some c \<and> okey c = fst (lkey l')" if nz: "cnt l' \<noteq> 0"
    proof (cases "p = pLock f")
      case True
      then show ?thesis using l' key by (auto simp: relocked_def)
    next
      case False
      then have "lockInfos s p = Some l'" using l' by (simp add: relocked_def)
      then obtain q c' where "openCnts s q = Some c'" "okey c' = fst (lkey l')" using nz i(4) unfolding counts_def by blast
      then show ?thesis using c by (cases "q = pOpen f") (auto simp: relocked_def)
    qed
  next
    fix p c' assume c': "openCnts ?s p = Some c'"
    show "at_most x (sum (lock_count ?s) (inode_locks ?s (okey c'))) (nLock c')"
    proof (cases "p = pOpen f")
      case True
      then have "okey c' = fst (lkey l)" "nLock c' = m" using c' key by (auto simp: relocked_def)
      moreover have "at_most x (sum (lock_count s) (inode_locks s (fst (lkey l)))) (nLock c)" using i(4) c key unfolding counts_def by metis
      ultimately show ?thesis using n(2) unfolding inod sums at_most_def by auto
    next
      case False
      then have s: "openCnts s p = Some c'" using c' by (simp add: relocked_def)
      then have "okey c' \<noteq> fst (lkey l)" using False open_unique [OF inv s c] key by auto
      then show ?thesis using i(4) s by (simp add: inod sums counts_def)
    qed
  qed
  moreover have "kern_locks x ?s"
    unfolding kern_locks_def
  proof (intro conjI allI impI)
    fix p l' assume l': "lockInfos ?s p = Some l'" "cnt l' \<noteq> 0"
    show "(lkey l', mode_of (cnt l')) \<in> set (klocks (kern ?s))"
    proof (cases "p = pLock f")
      case True
      then have "l' = l\<lparr>cnt := n\<rparr>" using l'(1) by (simp add: relocked_def)
      then show ?thesis using l'(2) own by (simp add: relocked_def split: if_splits)
    next
      case False
      then have s: "lockInfos s p = Some l'" using l' by (simp add: relocked_def)
      then have "lkey l' \<noteq> lkey l" using False lock_unique [OF inv s l] by blast
      then show ?thesis using i(5) s l'(2) others unfolding kern_locks_def by (simp add: relocked_def)
    qed
  next
    fix key t assume x: x "(key, t) \<in> set (klocks (kern ?s))"
    show "\<exists>p l. lockInfos ?s p = Some l \<and> lkey l = key \<and> cnt l \<noteq> 0 \<and> t = mode_of (cnt l)"
    proof (cases "key = lkey l")
      case True
      then show ?thesis using x own' by (intro exI [of _ "pLock f"] exI [of _ "l\<lparr>cnt := n\<rparr>"]) (simp add: relocked_def)
    next
      case False
      then have "(key, t) \<in> set (klocks (kern s))" using x(2) others by (simp add: relocked_def)
      then obtain p l' where "lockInfos s p = Some l'" "lkey l' = key" "cnt l' \<noteq> 0" "t = mode_of (cnt l')"
        using x(1) i(5) unfolding kern_locks_def by blast
      then show ?thesis using False l by (intro exI [of _ p] exI [of _ l']) (auto simp: relocked_def)
    qed
  qed
  moreover have "exclusive (kern ?s)" using k(2) by (simp add: relocked_def)
  ultimately show ?thesis by (rule os_invI)
qed

text \<open>The kernel's answer.\<close>

lemma set_lock_facts [simp]:
  "descr (set_lock i p t k) = descr k"
  "((i, p), u) \<in> set (klocks (set_lock i p t k)) \<longleftrightarrow> u = t \<and> t \<noteq> F_UNLCK"
  "key \<noteq> (i, p) \<Longrightarrow> (key, u) \<in> set (klocks (set_lock i p t k)) \<longleftrightarrow> (key, u) \<in> set (klocks k)"
  by (auto simp: set_lock_def Let_def)

lemma conflict_iff:
  "conflict i p t k \<longleftrightarrow> (\<exists>q u. ((i, q), u) \<in> set (klocks k) \<and> q \<noteq> p \<and> (t = F_WRLCK \<or> t = F_RDLCK \<and> u = F_WRLCK))"
  unfolding conflict_def list_ex_iff by (cases i) (auto simp: Bex_def split_paired_Ex)

lemma set_lock_exclusive:
  assumes "exclusive k" "\<not> conflict i p t k"
  shows "exclusive (set_lock i p t k)"
  unfolding exclusive_def
proof (intro allI impI)
  fix j q r u assume a: "((j, q), F_WRLCK) \<in> set (klocks (set_lock i p t k))" "((j, r), u) \<in> set (klocks (set_lock i p t k))"
  show "r = q \<and> u = F_WRLCK"
  proof (cases "(j, q) = (i, p)"; cases "(j, r) = (i, p)")
    assume c: "(j, q) = (i, p)" "(j, r) \<noteq> (i, p)"
    then have "((i, r), u) \<in> set (klocks k)" "t = F_WRLCK" "r \<noteq> p" using a by auto
    then show ?thesis using assms(2) unfolding conflict_iff by blast
  next
    assume c: "(j, q) \<noteq> (i, p)" "(j, r) = (i, p)"
    then have "((i, q), F_WRLCK) \<in> set (klocks k)" "t \<noteq> F_UNLCK" "q \<noteq> p" using a by auto
    then show ?thesis using assms(2) unfolding conflict_iff by (cases t) auto
  next
    assume "(j, q) \<noteq> (i, p)" "(j, r) \<noteq> (i, p)"
    then have "((j, q), F_WRLCK) \<in> set (klocks k)" "((j, r), u) \<in> set (klocks k)" using a by simp_all
    then show ?thesis using assms(1) unfolding exclusive_def by blast
  qed (use a in auto)
qed

lemma fcntl_file: "map_of (descr k) d = Some (File i) \<Longrightarrow>
    kfcntl p d t refused k = (if refused \<noteq> None then (refused, k) else if conflict i p t k then (Some EAGAIN, k) else (None, set_lock i p t k))"
  by (simp add: kfcntl_def)

lemma no_unlock_conflict [simp]: "\<not> conflict i p F_UNLCK k"
  by (simp add: conflict_iff)

section \<open>The locking operations\<close>

lemma same_kern [simp]: "s\<lparr>kern := kern s\<rparr> = s"
  by (cases s) simp

lemma same_locked: "files s h = Some f \<Longrightarrow> locked f = b \<Longrightarrow> (files s)(h \<mapsto> f\<lparr>locked := b\<rparr>) = files s"
  by (cases f) (auto simp: fun_eq_iff)

lemma same_nLock: "openCnts s p = Some c \<Longrightarrow> (openCnts s)(p \<mapsto> c\<lparr>nLock := nLock c\<rparr>) = openCnts s"
  by (cases c) (auto simp: fun_eq_iff)

lemma take_lock_eq:
  assumes "files s h = Some f" "lockInfos s (pLock f) = Some l" "openCnts s (pOpen f) = Some c"
  shows "take_lock h f n (s\<lparr>kern := k\<rparr>) = Some (relocked h f l c True n (nLock c + (if locked f then 0 else 1)) k s)"
  using assms same_locked [OF assms(1), of True] same_nLock [OF assms(3)]
  by (simp add: take_lock_def add_lock_def put_file_def set_cnt_def relocked_def)

lemma readLock_eq:
  assumes "files s h = Some f" "lockInfos s (pLock f) = Some l" "openCnts s (pOpen f) = Some c" "map_of (descr (kern s)) (fd f) = Some (File i)"
  shows "sqliteOsReadLock h pid refused s =
    (if 0 < cnt l then Some (SQLITE_OK, if locked f then s else relocked h f l c True (cnt l + 1) (nLock c + 1) (kern s) s)
     else if locked f \<or> cnt l = 0 then
       (if refused \<noteq> None then Some (lock_error (the refused), s)
        else if conflict i pid F_RDLCK (kern s) then Some (SQLITE_BUSY, s)
        else Some (SQLITE_OK, relocked h f l c True 1 (nLock c + (if locked f then 0 else 1)) (set_lock i pid F_RDLCK (kern s)) s))
     else Some (SQLITE_BUSY, s))"
  using assms take_lock_eq [OF assms(1-3)]
  by (auto simp: sqliteOsReadLock_def fcntl_file set_cnt_def add_lock_def put_file_def relocked_def lock_error_def)

lemma writeLock_eq:
  assumes "files s h = Some f" "lockInfos s (pLock f) = Some l" "openCnts s (pOpen f) = Some c" "map_of (descr (kern s)) (fd f) = Some (File i)"
  shows "sqliteOsWriteLock h pid refused s =
    (if cnt l = 0 \<or> cnt l = 1 \<and> locked f then
       (if refused \<noteq> None then Some (lock_error (the refused), s)
        else if conflict i pid F_WRLCK (kern s) then Some (SQLITE_BUSY, s)
        else Some (SQLITE_OK, relocked h f l c True (-1) (nLock c + (if locked f then 0 else 1)) (set_lock i pid F_WRLCK (kern s)) s))
     else Some (SQLITE_BUSY, s))"
  using assms take_lock_eq [OF assms(1-3)]
  by (auto simp: sqliteOsWriteLock_def fcntl_file lock_error_def)

definition flush :: "ptr \<Rightarrow> open_cnt \<Rightarrow> os_state \<Rightarrow> os_state" where
  "flush q c s = (if nLock c = 0 \<and> nPending c > 0
     then s\<lparr>kern := fold kclose (aPending c) (kern s), openCnts := (openCnts s)(q \<mapsto> c\<lparr>nPending := 0, aPending := []\<rparr>)\<rparr> else s)"

lemma close_pending_eq:
  "i + n = length ds \<Longrightarrow> close_pending n i ds s = Some (s\<lparr>kern := fold kclose (drop i ds) (kern s)\<rparr>)"
proof (induction n arbitrary: i s)
  case 0
  then show ?case by simp
next
  case (Suc n)
  then have "drop i ds = ds ! i # drop (i + 1) ds" by (simp add: Cons_nth_drop_Suc)
  then show ?case using Suc by (simp add: os_close_def)
qed

lemma unlock_eq:
  assumes "files s h = Some f" "lockInfos s (pLock f) = Some l" "openCnts s (pOpen f) = Some c" "map_of (descr (kern s)) (fd f) = Some (File i)"
    and "cnt l \<noteq> 0" "0 < nLock c" "nPending c = int (length (aPending c))"
  shows "sqliteOsUnlock h pid refused s =
    (if \<not> locked f then Some (SQLITE_OK, s)
     else if 1 < cnt l then Some (SQLITE_OK, flush (pOpen f) (c\<lparr>nLock := nLock c - 1\<rparr>) (relocked h f l c False (cnt l - 1) (nLock c - 1) (kern s) s))
     else if refused \<noteq> None then Some (lock_error (the refused), put_file h (f\<lparr>locked := False\<rparr>) s)
     else Some (SQLITE_OK, flush (pOpen f) (c\<lparr>nLock := nLock c - 1\<rparr>) (relocked h f l c False 0 (nLock c - 1) (set_lock i pid F_UNLCK (kern s)) s)))"
  using assms close_pending_eq [of 0 "length (aPending c)" "aPending c"]
  by (auto simp: sqliteOsUnlock_def fcntl_file set_cnt_def drop_lock_def put_file_def relocked_def flush_def lock_error_def assertion_def)

section \<open>Closing descriptors\<close>

text \<open>\<open>k'\<close> is \<open>k\<close> after closing the descriptors in \<open>ds\<close>, which are directories or the file \<open>i\<close>.\<close>

definition closed :: "int set \<Rightarrow> inode \<Rightarrow> kernel \<Rightarrow> kernel \<Rightarrow> bool" where
  "closed ds i k k' \<longleftrightarrow> (\<forall>d. map_of (descr k') d = (if d \<in> ds then None else map_of (descr k) d)) \<and>
     set (klocks k') \<subseteq> set (klocks k) \<and> (\<forall>j p t. j \<noteq> i \<longrightarrow> ((j, p), t) \<in> set (klocks k) \<longrightarrow> ((j, p), t) \<in> set (klocks k'))"

lemma map_of_remove: "map_of (filter (\<lambda>(d', _). d' \<noteq> d) xs) e = (if e = d then None else map_of xs e)"
  by (induction xs) auto

lemma close_one:
  assumes "\<And>j. map_of (descr k) d = Some (File j) \<Longrightarrow> j = i"
  shows "closed {d} i k (kclose d k)"
proof -
  have none: "map_of (descr k) d = None \<Longrightarrow> map_of (descr k) e = (if e = d then None else map_of (descr k) e)" for e by simp
  show ?thesis
    using assms by (auto simp: closed_def kclose_def map_of_remove split: option.split descriptor.split)
qed

lemma close_trans: "closed ds i k k1 \<Longrightarrow> closed ds' i k1 k2 \<Longrightarrow> closed (ds \<union> ds') i k k2"
  unfolding closed_def by auto

lemma close_all:
  assumes "\<And>d j. d \<in> set ds \<Longrightarrow> map_of (descr k) d = Some (File j) \<Longrightarrow> j = i"
  shows "closed (set ds) i k (fold kclose ds k)"
  using assms
proof (induction ds arbitrary: k)
  case Nil
  then show ?case by (simp add: closed_def)
next
  case (Cons d ds)
  have one: "closed {d} i k (kclose d k)" by (rule close_one) (use Cons.prems in \<open>simp, blast\<close>)
  have "closed (set ds) i (kclose d k) (fold kclose ds (kclose d k))"
    using Cons.prems one by (intro Cons.IH) (auto simp: closed_def split: if_splits)
  then show ?case using close_trans [OF one] by simp
qed

lemma closed_exclusive:
  assumes "closed ds i k k'" "exclusive k"
  shows "exclusive k'"
proof -
  have "set (klocks k') \<subseteq> set (klocks k)" using assms(1) by (simp add: closed_def)
  then show ?thesis using assms(2) unfolding exclusive_def by (meson subsetD)
qed

lemma closed_kern_locks:
  assumes "closed ds i (kern s) (kern s')" "kern_locks x s" "lockInfos s' = lockInfos s"
    and "\<And>p l. lockInfos s p = Some l \<Longrightarrow> fst (lkey l) = i \<Longrightarrow> cnt l = 0"
  shows "kern_locks x s'"
  unfolding kern_locks_def assms(3)
proof (intro conjI allI impI)
  fix p l assume l: "lockInfos s p = Some l" "cnt l \<noteq> 0"
  then have "(lkey l, mode_of (cnt l)) \<in> set (klocks (kern s))" using assms(2) unfolding kern_locks_def by blast
  moreover have "fst (lkey l) \<noteq> i" using assms(4) l by blast
  ultimately show "(lkey l, mode_of (cnt l)) \<in> set (klocks (kern s'))"
    using assms(1) unfolding closed_def by (metis prod.collapse)
next
  fix key t assume "x" "(key, t) \<in> set (klocks (kern s'))"
  then show "\<exists>p l. lockInfos s p = Some l \<and> lkey l = key \<and> cnt l \<noteq> 0 \<and> t = mode_of (cnt l)"
    using assms(1,2) unfolding closed_def kern_locks_def by blast
qed

lemma unlocked_inode:
  assumes inv: "os_inv x e g s" and c: "openCnts s q = Some c" "nLock c = 0" and l: "lockInfos s p = Some l" "fst (lkey l) = okey c"
  shows "cnt l = 0"
proof -
  have fin: "finite (inode_locks s (okey c))" using os_invD(1) [OF inv] by simp
  have p: "p \<in> inode_locks s (okey c)" using l by (auto simp: inode_locks_def)
  have "lock_count s p \<le> sum (lock_count s) (inode_locks s (okey c))"
    by (rule member_le_sum [OF p _ fin]) (simp add: lock_count_def split: option.split)
  moreover have "sum (lock_count s) (inode_locks s (okey c)) \<le> 0"
    using os_invD(4) [OF inv] c unfolding counts_def by (metis at_mostD)
  ultimately show ?thesis using l(1) by (simp add: lock_count_def)
qed

text \<open>Nothing but the descriptors of a handle and the deferred ones matters.\<close>

lemma counts_cong:
  assumes "counts x s" "lockInfos s' = lockInfos s" "holders s' = holders s"
    and "\<And>p. map_option (\<lambda>c. (okey c, nLock c)) (openCnts s' p) = map_option (\<lambda>c. (okey c, nLock c)) (openCnts s p)"
  shows "counts x s'"
proof -
  have o1: "\<exists>c'. openCnts s' p = Some c' \<and> okey c' = okey c \<and> nLock c' = nLock c" if "openCnts s p = Some c" for p c
    using assms(4) [of p] that by (cases "openCnts s' p") auto
  have o2: "\<exists>c. openCnts s p = Some c \<and> okey c' = okey c \<and> nLock c' = nLock c" if "openCnts s' p = Some c'" for p c'
    using assms(4) [of p] that by (cases "openCnts s p") auto
  have eq: "lock_count s' = lock_count s" "inode_locks s' = inode_locks s"
    using assms(2) by (simp_all add: lock_count_def inode_locks_def fun_eq_iff)
  show ?thesis
    unfolding counts_def
  proof (intro conjI allI impI)
    fix p l assume l: "lockInfos s' p = Some l"
    then show "-1 \<le> cnt l" "at_most x (int (card (holders s' p))) \<bar>cnt l\<bar>" using assms(1,2,3) by (simp_all add: counts_def)
    show "\<exists>q c. openCnts s' q = Some c \<and> okey c = fst (lkey l)" if nz: "cnt l \<noteq> 0"
    proof -
      obtain q c where "openCnts s q = Some c" "okey c = fst (lkey l)" using assms(1,2) l nz unfolding counts_def by metis
      then show ?thesis using o1 by metis
    qed
  next
    fix p c assume "openCnts s' p = Some c"
    then show "at_most x (sum (lock_count s') (inode_locks s' (okey c))) (nLock c)"
      using assms(1) o2 unfolding counts_def eq by metis
  qed
qed

lemma tables_cong:
  "tables s \<Longrightarrow> lockHash s' = lockHash s \<Longrightarrow> openHash s' = openHash s \<Longrightarrow> nextPtr s' = nextPtr s \<Longrightarrow> lockInfos s' = lockInfos s \<Longrightarrow>
   dom (files s') = dom (files s) \<Longrightarrow> openCnts s' = openCnts s \<Longrightarrow> tables s'"
  by (simp add: tables_def)

lemma tables_open:
  assumes "tables s" "lockHash s' = lockHash s" "openHash s' = openHash s" "nextPtr s' = nextPtr s" "lockInfos s' = lockInfos s"
    "dom (files s') = dom (files s)" "openCnts s q = Some c" "okey c' = okey c" "openCnts s' = (openCnts s)(q \<mapsto> c')"
  shows "tables s'"
proof -
  have "indexes openKey okey (openHash s) ((openCnts s)(q \<mapsto> c'))" using opens.update assms(1,7,8) unfolding tables_def by blast
  then show ?thesis using assms unfolding tables_def by (auto split: if_splits)
qed

lemma descsD:
  assumes "descs s"
  shows "map_of (descr (kern s)) d = Some v \<Longrightarrow> 0 \<le> d"
    "files s h = Some f \<Longrightarrow> openCnts s (pOpen f) = Some c \<Longrightarrow> map_of (descr (kern s)) (fd f) = Some (File (okey c))"
    "files s h = Some f \<Longrightarrow> 0 \<le> dirfd f \<Longrightarrow> map_of (descr (kern s)) (dirfd f) = Some Directory"
    "files s h = Some f \<Longrightarrow> files s h' = Some f' \<Longrightarrow> h \<noteq> h' \<Longrightarrow> fd f \<noteq> fd f'"
    "files s h = Some f \<Longrightarrow> files s h' = Some f' \<Longrightarrow> h \<noteq> h' \<Longrightarrow> 0 \<le> dirfd f \<Longrightarrow> dirfd f \<noteq> dirfd f'"
    "openCnts s p = Some c \<Longrightarrow> nPending c = int (length (aPending c))"
    "openCnts s p = Some c \<Longrightarrow> d \<in> set (aPending c) \<Longrightarrow> map_of (descr (kern s)) d = Some (File (okey c))"
    "openCnts s p = Some c \<Longrightarrow> d \<in> set (aPending c) \<Longrightarrow> files s h = Some f \<Longrightarrow> fd f \<noteq> d"
  using assms unfolding descs_def by blast+

lemma descsI:
  assumes "\<And>d v. map_of (descr (kern s)) d = Some v \<Longrightarrow> 0 \<le> d"
    "\<And>h f c. files s h = Some f \<Longrightarrow> openCnts s (pOpen f) = Some c \<Longrightarrow> map_of (descr (kern s)) (fd f) = Some (File (okey c))"
    "\<And>h f. files s h = Some f \<Longrightarrow> 0 \<le> dirfd f \<Longrightarrow> map_of (descr (kern s)) (dirfd f) = Some Directory"
    "\<And>h f h' f'. files s h = Some f \<Longrightarrow> files s h' = Some f' \<Longrightarrow> h \<noteq> h' \<Longrightarrow> fd f \<noteq> fd f' \<and> (0 \<le> dirfd f \<longrightarrow> dirfd f \<noteq> dirfd f')"
    "\<And>p c. openCnts s p = Some c \<Longrightarrow> nPending c = int (length (aPending c))"
    "\<And>p c d. openCnts s p = Some c \<Longrightarrow> d \<in> set (aPending c) \<Longrightarrow> map_of (descr (kern s)) d = Some (File (okey c))"
    "\<And>p c d h f. openCnts s p = Some c \<Longrightarrow> d \<in> set (aPending c) \<Longrightarrow> files s h = Some f \<Longrightarrow> fd f \<noteq> d"
  shows "descs s"
  unfolding descs_def using assms by (intro conjI allI impI ballI) blast+

lemma flush_ok:
  assumes inv: "os_inv x e g s" and c: "openCnts s q = Some c"
  shows "os_inv x e g (flush q c s)"
proof (cases "nLock c = 0 \<and> nPending c > 0")
  case False
  then show ?thesis using inv unfolding flush_def by (simp only: if_False)
next
  case True
  let ?k = "fold kclose (aPending c) (kern s)" and ?s = "flush q c s"
  note i = os_invD [OF inv]
  have s: "files ?s = files s" "lockInfos ?s = lockInfos s" "kern ?s = ?k" "openCnts ?s = (openCnts s)(q \<mapsto> c\<lparr>nPending := 0, aPending := []\<rparr>)"
    "lockHash ?s = lockHash s" "openHash ?s = openHash s" "nextPtr ?s = nextPtr s"
    using True by (simp_all add: flush_def)
  have pend: "map_of (descr (kern s)) d = Some (File (okey c))" "\<And>h f. files s h = Some f \<Longrightarrow> fd f \<noteq> d" if "d \<in> set (aPending c)" for d
    using i(3) c that unfolding descs_def by blast+
  have cl: "closed (set (aPending c)) (okey c) (kern s) ?k" by (rule close_all) (simp add: pend)
  have "same_shape s ?s" using c by (simp add: same_shape_def s)
  then have "refs e g ?s" using i(2) by (rule shape_refs)
  moreover have "tables ?s" by (rule tables_open [OF i(1), where c = c and q = q]) (simp_all add: s c)
  moreover have "counts x ?s"
    by (rule counts_cong [OF i(4)]) (use c in \<open>simp_all add: s holders_def fun_eq_iff\<close>)
  moreover have "kern_locks x ?s"
    using closed_kern_locks [OF _ i(5), of "set (aPending c)" "okey c" ?s] cl unlocked_inode [OF inv c] True s by simp
  moreover have "exclusive (kern ?s)" using closed_exclusive [OF cl i(6)] s by simp
  moreover have "descs ?s"
  proof -
    have d: "map_of (descr ?k) d = (if d \<in> set (aPending c) then None else map_of (descr (kern s)) d)" for d
      using cl by (simp add: closed_def)
    have dir: "d \<notin> set (aPending c)" if "map_of (descr (kern s)) d = Some Directory" for d using pend(1) that by fastforce
    have other: "d \<notin> set (aPending c)" if "p \<noteq> q" "openCnts s p = Some c'" "d \<in> set (aPending c')" for p c' d
    proof
      assume "d \<in> set (aPending c)"
      then have "map_of (descr (kern s)) d = Some (File (okey c))" by (rule pend)
      moreover have "map_of (descr (kern s)) d = Some (File (okey c'))" using i(3) that unfolding descs_def by blast
      ultimately show False using open_unique [OF inv that(2) c] that(1) by simp
    qed
    show ?thesis
    proof (rule descsI, unfold s)
      show "0 \<le> d" if "map_of (descr ?k) d = Some v" for d v using that descsD(1) [OF i(3)] by (auto simp: d split: if_splits)
      show "map_of (descr ?k) (fd f) = Some (File (okey c'))" if f: "files s h = Some f" "((openCnts s)(q \<mapsto> c\<lparr>nPending := 0, aPending := []\<rparr>)) (pOpen f) = Some c'" for h f c'
        using f pend(2) [of "fd f" h f] descsD(2) [OF i(3) f(1)] c by (auto simp: d split: if_splits)
      show "map_of (descr ?k) (dirfd f) = Some Directory" if "files s h = Some f" "0 \<le> dirfd f" for h f
        using descsD(3) [OF i(3) that] dir by (simp add: d)
      show "fd f \<noteq> fd f' \<and> (0 \<le> dirfd f \<longrightarrow> dirfd f \<noteq> dirfd f')" if "files s h = Some f" "files s h' = Some f'" "h \<noteq> h'" for h f h' f'
        using descsD(4,5) [OF i(3) that] by blast
      fix p c' assume c': "((openCnts s)(q \<mapsto> c\<lparr>nPending := 0, aPending := []\<rparr>)) p = Some c'"
      then show "nPending c' = int (length (aPending c'))" using descsD(6) [OF i(3)] by (auto split: if_splits)
      fix d' assume d': "d' \<in> set (aPending c')"
      then have p: "p \<noteq> q" "openCnts s p = Some c'" using c' by (auto split: if_splits)
      show "map_of (descr ?k) d' = Some (File (okey c'))" using descsD(7) [OF i(3) p(2) d'] other [OF p d'] by (simp add: d)
      show "fd f \<noteq> d'" if "files s h = Some f" for h f using descsD(8) [OF i(3) p(2) d' that] .
    qed
  qed
  ultimately show ?thesis by (intro os_invI)
qed

section \<open>The locking operations keep the invariant\<close>

lemma sole_holder:
  assumes "os_inv x e g s" "files s h = Some f" "lockInfos s (pLock f) = Some l" "cnt l = 0 \<or> \<bar>cnt l\<bar> = 1 \<and> locked f"
  shows "insert h (holders s (pLock f)) = {h}" "holders s (pLock f) - {h} = {}"
proof -
  have "holders s (pLock f) \<subseteq> {h}"
  proof (cases "cnt l = 0")
    case True
    then have "int (card (holders s (pLock f))) \<le> 0" using os_invD(4) [OF assms(1)] assms(3) unfolding counts_def at_most_def by force
    then show ?thesis using finite_holders [OF os_invD(1) [OF assms(1)]] by auto
  next
    case False
    then show ?thesis using assms only_holder [OF assms(1,2) _ assms(3)] by simp
  qed
  then show "insert h (holders s (pLock f)) = {h}" "holders s (pLock f) - {h} = {}" by auto
qed

lemma nLock_cover:
  assumes inv: "os_inv x e g s" and c: "openCnts s q = Some c" and l: "lockInfos s p = Some l" "okey c = fst (lkey l)"
  shows "\<bar>cnt l\<bar> \<le> nLock c"
proof -
  have fin: "finite (inode_locks s (okey c))" using os_invD(1) [OF inv] by simp
  have p: "p \<in> inode_locks s (okey c)" using l by (auto simp: inode_locks_def)
  have "lock_count s p \<le> sum (lock_count s) (inode_locks s (okey c))"
    by (rule member_le_sum [OF p _ fin]) (simp add: lock_count_def split: option.split)
  moreover have "sum (lock_count s) (inode_locks s (okey c)) \<le> nLock c"
    using os_invD(4) [OF inv] c unfolding counts_def by (metis at_mostD)
  ultimately show ?thesis using l(1) by (simp add: lock_count_def)
qed

lemma own_lock:
  assumes "os_inv x e g s" "lockInfos s p = Some l"
  shows "cnt l \<noteq> 0 \<Longrightarrow> (lkey l, mode_of (cnt l)) \<in> set (klocks (kern s))"
    "x \<Longrightarrow> (lkey l, t) \<in> set (klocks (kern s)) \<Longrightarrow> cnt l \<noteq> 0 \<and> t = mode_of (cnt l)"
proof -
  show "cnt l \<noteq> 0 \<Longrightarrow> (lkey l, mode_of (cnt l)) \<in> set (klocks (kern s))"
    using os_invD(5) [OF assms(1)] assms(2) unfolding kern_locks_def by blast
  assume "x" "(lkey l, t) \<in> set (klocks (kern s))"
  then obtain q l' where l': "lockInfos s q = Some l'" "lkey l' = lkey l" "cnt l' \<noteq> 0" "t = mode_of (cnt l')"
    using os_invD(5) [OF assms(1)] unfolding kern_locks_def by blast
  then have "q = p" using lock_unique [OF assms(1) l'(1) assms(2)] by blast
  then show "cnt l \<noteq> 0 \<and> t = mode_of (cnt l)" using l' assms(2) by simp
qed

lemma cnt_ge: "os_inv x e g s \<Longrightarrow> lockInfos s p = Some l \<Longrightarrow> -1 \<le> cnt l"
  using os_invD(4) unfolding counts_def by blast

lemma relock_fcntl:
  assumes inv: "os_inv x e g s" and f: "files s h = Some f" and l: "lockInfos s (pLock f) = Some l" and c: "openCnts s (pOpen f) = Some c"
    and key: "lkey l = (i, pid)" and t: "t = mode_of n" "\<not> conflict i pid t (kern s)" "\<bar>n\<bar> = 1"
    and one: "cnt l = 0 \<and> \<not> locked f \<or> \<bar>cnt l\<bar> = 1 \<and> locked f"
  shows "os_inv x e g (relocked h f l c True n (nLock c + (if locked f then 0 else 1)) (set_lock i pid t (kern s)) s)"
proof -
  have h: "insert h (holders s (pLock f)) = {h}" using sole_holder(1) [OF inv f l] one by blast
  then have held: "at_most x (int (card (if True then insert h (holders s (pLock f)) else holders s (pLock f) - {h}))) \<bar>n\<bar>"
    unfolding if_True h at_most_def using t(3) by simp
  show ?thesis
    by (rule relock [OF inv f l c _ _ held]) (use t one in \<open>auto simp: key set_lock_exclusive [OF os_invD(6) [OF inv]] split: if_splits\<close>)
qed

lemma readLock_ok:
  assumes inv: "os_inv x e g s" and f: "files s h = Some f" and l: "lockInfos s (pLock f) = Some l" "snd (lkey l) = pid"
  shows "\<exists>rc s'. sqliteOsReadLock h pid refused s = Some (rc, s') \<and> os_inv x e g s'"
proof -
  obtain c where c: "openCnts s (pOpen f) = Some c" "okey c = fst (lkey l)" "map_of (descr (kern s)) (fd f) = Some (File (okey c))"
    using handle_records [OF inv f] l(1) by auto
  have key: "lkey l = (okey c, pid)" using c(2) l(2) by (simp add: prod_eq_iff)
  have "os_inv x e g (relocked h f l c True (cnt l + 1) (nLock c + 1) (kern s) s)" if "0 < cnt l" "\<not> locked f"
  proof (rule relock [OF inv f l(1) c(1)])
    have "h \<notin> holders s (pLock f)" using that(2) f by (auto simp: holders_def)
    moreover have "at_most x (int (card (holders s (pLock f)))) \<bar>cnt l\<bar>" using os_invD(4) [OF inv] l(1) by (simp add: counts_def)
    ultimately show "at_most x (int (card (if True then insert h (holders s (pLock f)) else holders s (pLock f) - {h}))) \<bar>cnt l + 1\<bar>"
      using that(1) finite_holders [OF os_invD(1) [OF inv]] by (auto simp: at_most_def)
    show "(lkey l, mode_of (cnt l + 1)) \<in> set (klocks (kern s))" using own_lock(1) [OF inv l(1)] that(1) by simp
    show "cnt l + 1 \<noteq> 0 \<and> t = mode_of (cnt l + 1)" if "x" "(lkey l, t) \<in> set (klocks (kern s))" for t
      using own_lock(2) [OF inv l(1) that] \<open>0 < cnt l\<close> by simp
    show "exclusive (kern s)" by (rule os_invD(6) [OF inv])
  qed (use that in simp_all)
  moreover have "os_inv x e g (relocked h f l c True 1 (nLock c + (if locked f then 0 else 1)) (set_lock (okey c) pid F_RDLCK (kern s)) s)"
    if "\<not> 0 < cnt l" "locked f \<or> cnt l = 0" "\<not> conflict (okey c) pid F_RDLCK (kern s)"
  proof (rule relock_fcntl [OF inv f l(1) c(1) key _ that(3)])
    show "cnt l = 0 \<and> \<not> locked f \<or> \<bar>cnt l\<bar> = 1 \<and> locked f"
      using that locked_cnt [OF inv f _ l(1)] cnt_ge [OF inv l(1)] by auto
  qed simp_all
  ultimately show ?thesis using inv by (cases "locked f") (simp_all add: readLock_eq [OF f l(1) c(1,3)])
qed

lemma writeLock_ok:
  assumes inv: "os_inv x e g s" and f: "files s h = Some f" and l: "lockInfos s (pLock f) = Some l" "snd (lkey l) = pid"
  shows "\<exists>rc s'. sqliteOsWriteLock h pid refused s = Some (rc, s') \<and> os_inv x e g s'"
proof -
  obtain c where c: "openCnts s (pOpen f) = Some c" "okey c = fst (lkey l)" "map_of (descr (kern s)) (fd f) = Some (File (okey c))"
    using handle_records [OF inv f] l(1) by auto
  have key: "lkey l = (okey c, pid)" using c(2) l(2) by (simp add: prod_eq_iff)
  have "os_inv x e g (relocked h f l c True (-1) (nLock c + (if locked f then 0 else 1)) (set_lock (okey c) pid F_WRLCK (kern s)) s)"
    if "cnt l = 0 \<or> cnt l = 1 \<and> locked f" "\<not> conflict (okey c) pid F_WRLCK (kern s)"
  proof (rule relock_fcntl [OF inv f l(1) c(1) key _ that(2)])
    show "cnt l = 0 \<and> \<not> locked f \<or> \<bar>cnt l\<bar> = 1 \<and> locked f"
      using that locked_cnt [OF inv f _ l(1)] by auto
  qed simp_all
  then show ?thesis using inv by (cases "locked f") (simp_all add: writeLock_eq [OF f l(1) c(1,3)])
qed

lemma unlock_ok:
  assumes inv: "os_inv x e g s" and f: "files s h = Some f" and l: "lockInfos s (pLock f) = Some l" "snd (lkey l) = pid"
    and ref: "x \<longrightarrow> refused = None"
  shows "\<exists>rc s'. sqliteOsUnlock h pid refused s = Some (rc, s') \<and> os_inv x e g s'"
proof (cases "locked f")
  case False
  then show ?thesis using f inv by (simp add: sqliteOsUnlock_def)
next
  case True
  obtain c where c: "openCnts s (pOpen f) = Some c" "okey c = fst (lkey l)" "map_of (descr (kern s)) (fd f) = Some (File (okey c))"
    using handle_records [OF inv f] l(1) by auto
  have key: "lkey l = (okey c, pid)" using c(2) l(2) by (simp add: prod_eq_iff)
  have nz: "cnt l \<noteq> 0" by (rule locked_cnt [OF inv f True l(1)])
  have pos: "0 < nLock c" using nLock_cover [OF inv c(1) l(1) c(2)] nz by simp
  have pend: "nPending c = int (length (aPending c))" by (rule descsD(6) [OF os_invD(3) [OF inv] c(1)])
  have h: "h \<in> holders s (pLock f)" using f True by (auto simp: holders_def)
  have cn: "at_most x (int (card (holders s (pLock f)))) \<bar>cnt l\<bar>" using os_invD(4) [OF inv] l(1) by (simp add: counts_def)
  have card: "card (holders s (pLock f) - {h}) + 1 = card (holders s (pLock f))"
    using h card_Suc_Diff1 [OF finite_holders [OF os_invD(1) [OF inv]] h] by simp
  have flushed: "os_inv x e g (flush (pOpen f) (c\<lparr>nLock := nLock c - 1\<rparr>) (relocked h f l c False n (nLock c - 1) k s))"
    if "os_inv x e g (relocked h f l c False n (nLock c - 1) k s)" for n k
    by (rule flush_ok [OF that]) (simp add: relocked_def)
  have many: "os_inv x e g (relocked h f l c False (cnt l - 1) (nLock c - 1) (kern s) s)" if "1 < cnt l"
  proof (rule relock [OF inv f l(1) c(1)])
    show "at_most x (int (card (if False then insert h (holders s (pLock f)) else holders s (pLock f) - {h}))) \<bar>cnt l - 1\<bar>"
      using that cn card by (auto simp: at_most_def)
    show "(lkey l, mode_of (cnt l - 1)) \<in> set (klocks (kern s))" using own_lock(1) [OF inv l(1)] that by simp
    show "cnt l - 1 \<noteq> 0 \<and> t = mode_of (cnt l - 1)" if "x" "(lkey l, t) \<in> set (klocks (kern s))" for t
      using own_lock(2) [OF inv l(1) that] \<open>1 < cnt l\<close> by simp
    show "exclusive (kern s)" by (rule os_invD(6) [OF inv])
  qed (use that in simp_all)
  have last: "os_inv x e g (relocked h f l c False 0 (nLock c - 1) (set_lock (okey c) pid F_UNLCK (kern s)) s)" if "\<not> 1 < cnt l"
  proof (rule relock [OF inv f l(1) c(1)])
    have one: "\<bar>cnt l\<bar> = 1" using that nz cnt_ge [OF inv l(1)] by linarith
    have "holders s (pLock f) - {h} = {}" using sole_holder(2) [OF inv f l(1)] one True by blast
    then show "at_most x (int (card (if False then insert h (holders s (pLock f)) else holders s (pLock f) - {h}))) \<bar>0\<bar>"
      by (simp only: if_False at_most_def) simp
    show "nLock c - 1 = nLock c + \<bar>0\<bar> - \<bar>cnt l\<bar>" using one by simp
    show "exclusive (set_lock (okey c) pid F_UNLCK (kern s))" by (rule set_lock_exclusive [OF os_invD(6) [OF inv]]) simp
  qed (auto simp: key)
  have stuck: "os_inv x e g (put_file h (f\<lparr>locked := False\<rparr>) s)" if "refused \<noteq> None"
  proof -
    have "os_inv x e g (relocked h f l c False (cnt l) (nLock c) (kern s) s)"
      by (rule relock [OF inv f l(1) c(1)])
        (use ref that cn card own_lock [OF inv l(1)] cnt_ge [OF inv l(1)] os_invD(6) [OF inv] in \<open>auto simp: at_most_def\<close>)
    moreover have "relocked h f l c False (cnt l) (nLock c) (kern s) s = put_file h (f\<lparr>locked := False\<rparr>) s"
      using l(1) c(1) by (simp add: relocked_def put_file_def same_nLock fun_upd_idem)
    ultimately show ?thesis by simp
  qed
  show ?thesis
    using unlock_eq [OF f l(1) c(1,3) nz pos pend, of pid refused] True flushed [OF many] flushed [OF last] stuck by simp
qed

end
