(* ===== verification/OsFiles.thy ===== *)
theory OsFiles
  imports OsOps
begin

section \<open>Finding and releasing records\<close>

text \<open>\<open>s'\<close> has the records of \<open>s\<close>, their references apart, and perhaps new ones without locks.\<close>

definition extends :: "os_state \<Rightarrow> os_state \<Rightarrow> bool" where
  "extends s s' \<longleftrightarrow> files s' = files s \<and> kern s' = kern s \<and>
     (\<forall>p l. lockInfos s p = Some l \<longrightarrow> (\<exists>l'. lockInfos s' p = Some l' \<and> lkey l' = lkey l \<and> cnt l' = cnt l)) \<and>
     (\<forall>p l'. lockInfos s' p = Some l' \<longrightarrow> lockInfos s p = None \<longrightarrow> cnt l' = 0) \<and>
     (\<forall>q c. openCnts s q = Some c \<longrightarrow> (\<exists>c'. openCnts s' q = Some c' \<and> okey c' = okey c \<and> nLock c' = nLock c \<and>
        nPending c' = nPending c \<and> aPending c' = aPending c)) \<and>
     (\<forall>q c'. openCnts s' q = Some c' \<longrightarrow> openCnts s q = None \<longrightarrow> nLock c' = 0 \<and> nPending c' = 0 \<and> aPending c' = [])"

lemma extendsD:
  assumes "extends s s'"
  shows "files s' = files s" "kern s' = kern s"
    "lockInfos s p = Some l \<Longrightarrow> \<exists>l'. lockInfos s' p = Some l' \<and> lkey l' = lkey l \<and> cnt l' = cnt l"
    "lockInfos s' p = Some l' \<Longrightarrow> lockInfos s p = None \<and> cnt l' = 0 \<or> (\<exists>l. lockInfos s p = Some l \<and> lkey l' = lkey l \<and> cnt l' = cnt l)"
    "openCnts s q = Some c \<Longrightarrow> \<exists>c'. openCnts s' q = Some c' \<and> okey c' = okey c \<and> nLock c' = nLock c \<and> nPending c' = nPending c \<and> aPending c' = aPending c"
    "openCnts s' q = Some c' \<Longrightarrow> openCnts s q = None \<and> nLock c' = 0 \<and> nPending c' = 0 \<and> aPending c' = [] \<or>
       (\<exists>c. openCnts s q = Some c \<and> okey c' = okey c \<and> nLock c' = nLock c \<and> nPending c' = nPending c \<and> aPending c' = aPending c)"
proof -
  note e = assms [unfolded extends_def]
  show "files s' = files s" "kern s' = kern s" using e by blast+
  show "lockInfos s p = Some l \<Longrightarrow> \<exists>l'. lockInfos s' p = Some l' \<and> lkey l' = lkey l \<and> cnt l' = cnt l" using e by blast
  show "openCnts s q = Some c \<Longrightarrow> \<exists>c'. openCnts s' q = Some c' \<and> okey c' = okey c \<and> nLock c' = nLock c \<and> nPending c' = nPending c \<and> aPending c' = aPending c"
    using e by blast
  show "lockInfos s p = None \<and> cnt l' = 0 \<or> (\<exists>l. lockInfos s p = Some l \<and> lkey l' = lkey l \<and> cnt l' = cnt l)" if "lockInfos s' p = Some l'"
  proof (cases "lockInfos s p")
    case None
    then show ?thesis using e that by blast
  next
    case (Some l)
    then obtain l'' where "lockInfos s' p = Some l''" "lkey l'' = lkey l" "cnt l'' = cnt l" using e by blast
    then show ?thesis using Some that by simp
  qed
  show "openCnts s q = None \<and> nLock c' = 0 \<and> nPending c' = 0 \<and> aPending c' = [] \<or>
       (\<exists>c. openCnts s q = Some c \<and> okey c' = okey c \<and> nLock c' = nLock c \<and> nPending c' = nPending c \<and> aPending c' = aPending c)"
    if "openCnts s' q = Some c'"
  proof (cases "openCnts s q")
    case None
    then show ?thesis using e that by blast
  next
    case (Some c)
    then obtain c'' where "openCnts s' q = Some c''" "okey c'' = okey c" "nLock c'' = nLock c" "nPending c'' = nPending c" "aPending c'' = aPending c"
      using e by blast
    then show ?thesis using Some that by simp
  qed
qed

lemma extends_counts:
  assumes inv: "os_inv x e g s" and ext: "extends s s'" and tab: "tables s'"
  shows "counts x s'"
proof -
  note cn = os_invD(4) [OF inv] and x = extendsD [OF ext]
  have hold: "holders s' = holders s" by (simp add: holders_def x(1) fun_eq_iff)
  have lc: "lock_count s' p = lock_count s p" for p
    using x(3,4) [of p] by (cases "lockInfos s p"; cases "lockInfos s' p") (auto simp: lock_count_def)
  have none: "lock_count s p = 0" if "lockInfos s p = None" for p using that by (simp add: lock_count_def)
  have sums: "sum (lock_count s') (inode_locks s' j) = sum (lock_count s) (inode_locks s j)" for j
  proof (rule sum.mono_neutral_cong_right)
    show "finite (inode_locks s' j)" using tab by simp
    show "inode_locks s j \<subseteq> inode_locks s' j" using x(3) unfolding inode_locks_def by fastforce
    show "\<forall>p \<in> inode_locks s' j - inode_locks s j. lock_count s' p = 0"
    proof
      fix p assume p: "p \<in> inode_locks s' j - inode_locks s j"
      then have "lockInfos s p = None" using x(4) [of p] unfolding inode_locks_def by fastforce
      then show "lock_count s' p = 0" using lc none by simp
    qed
  qed (simp add: lc)
  show ?thesis
    unfolding counts_def
  proof (intro conjI allI impI)
    fix p l' assume l': "lockInfos s' p = Some l'"
    show "-1 \<le> cnt l'" using x(4) [OF l'] cn unfolding counts_def by force
    show "at_most x (int (card (holders s' p))) \<bar>cnt l'\<bar>"
    proof (cases "lockInfos s p")
      case None
      then have "holders s p = {}" using os_invD(2) [OF inv] unfolding refs_def linked_to_def holders_def by force
      then show ?thesis using None x(4) [OF l'] by (simp add: hold at_most_def)
    next
      case (Some l)
      then show ?thesis using x(4) [OF l'] cn unfolding counts_def hold by force
    qed
    show "\<exists>q c. openCnts s' q = Some c \<and> okey c = fst (lkey l')" if nz: "cnt l' \<noteq> 0"
    proof -
      obtain l where l: "lockInfos s p = Some l" "lkey l' = lkey l" "cnt l' = cnt l" using x(4) [OF l'] nz by blast
      then obtain q c where "openCnts s q = Some c" "okey c = fst (lkey l)" using cn nz unfolding counts_def by metis
      then show ?thesis using x(5) l(2) by metis
    qed
  next
    fix q c' assume c': "openCnts s' q = Some c'"
    show "at_most x (sum (lock_count s') (inode_locks s' (okey c'))) (nLock c')"
    proof (cases "openCnts s q")
      case None
      have "lock_count s p = 0" if p: "p \<in> inode_locks s (okey c')" for p
      proof (rule ccontr)
        assume nz: "lock_count s p \<noteq> 0"
        obtain l where l: "lockInfos s p = Some l" "fst (lkey l) = okey c'" using p by (auto simp: inode_locks_def)
        then have "cnt l \<noteq> 0" using nz by (simp add: lock_count_def)
        then obtain r c where r: "openCnts s r = Some c" "okey c = okey c'" using cn l unfolding counts_def by metis
        obtain c2 where c2: "openCnts s' r = Some c2" "okey c2 = okey c" using x(5) [OF r(1)] by blast
        have "r = q" using opens.unique tab c2 c' r(2) unfolding tables_def by metis
        then show False using r(1) None by simp
      qed
      then have "sum (lock_count s) (inode_locks s (okey c')) = 0" by (simp add: sum.neutral)
      then show ?thesis using None x(6) [OF c'] by (simp add: sums at_most_def)
    next
      case (Some c)
      then have "okey c' = okey c" "nLock c' = nLock c" using x(6) [OF c'] by auto
      then show ?thesis using Some cn unfolding counts_def sums by simp
    qed
  qed
qed

lemma extends_ok:
  assumes inv: "os_inv x e g s" and ext: "extends s s'" and tab: "tables s'" and r: "refs e' g' s'"
  shows "os_inv x e' g' s'"
proof (rule os_invI [OF tab r _ extends_counts [OF inv ext tab]])
  note i = os_invD [OF inv] and x = extendsD [OF ext]
  show "descs s'"
  proof (rule descsI, unfold x(1,2))
    show "map_of (descr (kern s)) (fd f) = Some (File (okey c'))" if f: "files s h = Some f" "openCnts s' (pOpen f) = Some c'" for h f c'
    proof -
      obtain c where c: "openCnts s (pOpen f) = Some c" using i(2) f(1) unfolding refs_def linked_to_def by blast
      show ?thesis using descsD(2) [OF i(3) f(1) c] x(6) [OF f(2)] c by auto
    qed
    show "nPending c' = int (length (aPending c'))" if "openCnts s' p = Some c'" for p c'
      using x(6) [OF that] descsD(6) [OF i(3)] by auto
    show "map_of (descr (kern s)) d = Some (File (okey c'))" "\<And>h f. files s h = Some f \<Longrightarrow> fd f \<noteq> d"
      if c': "openCnts s' p = Some c'" "d \<in> set (aPending c')" for p c' d
    proof -
      obtain c where c: "openCnts s p = Some c" "okey c' = okey c" "aPending c' = aPending c" using x(6) [OF c'(1)] c'(2) by auto
      then have d: "d \<in> set (aPending c)" using c'(2) by simp
      show "map_of (descr (kern s)) d = Some (File (okey c'))" using descsD(7) [OF i(3) c(1) d] c(2) by simp
      show "fd f \<noteq> d" if "files s h = Some f" for h f by (rule descsD(8) [OF i(3) c(1) d that])
    qed
  qed (use descsD [OF i(3)] in blast)+
  show "kern_locks x s'"
    unfolding kern_locks_def x(2)
  proof (intro conjI allI impI)
    fix p l' assume l': "lockInfos s' p = Some l'" "cnt l' \<noteq> 0"
    then obtain l where l: "lockInfos s p = Some l" "lkey l' = lkey l" "cnt l' = cnt l" using x(4) [of p l'] by auto
    show "(lkey l', mode_of (cnt l')) \<in> set (klocks (kern s))" using own_lock(1) [OF inv l(1)] l l'(2) by simp
  next
    fix key t assume "x" "(key, t) \<in> set (klocks (kern s))"
    then obtain p l where l: "lockInfos s p = Some l" "lkey l = key" "cnt l \<noteq> 0" "t = mode_of (cnt l)"
      using i(5) unfolding kern_locks_def by blast
    then show "\<exists>p l. lockInfos s' p = Some l \<and> lkey l = key \<and> cnt l \<noteq> 0 \<and> t = mode_of (cnt l)" using x(3) [OF l(1)] by fastforce
  qed
  show "exclusive (kern s')" using i(6) x(2) by simp
qed

lemma refs_frame: "refs e g s \<Longrightarrow> files s' = files s \<Longrightarrow> lockInfos s' = lockInfos s \<Longrightarrow> openCnts s' = openCnts s \<Longrightarrow> refs e g s'"
  by (rule shape_refs [of s]) (simp_all add: same_shape_def)

lemma fresh_ptr: "tables s \<Longrightarrow> lockInfos s (nextPtr s) = None \<and> openCnts s (nextPtr s) = None"
  unfolding tables_def by (metis less_irrefl option.exhaust)

lemma os_malloc_eq: "os_malloc s = (ok, s1) \<Longrightarrow> \<exists>as. s1 = s\<lparr>allocs := as\<rparr>"
  by (cases s) (auto simp: os_malloc_def split: list.splits)

abbreviation none :: "ptr \<Rightarrow> nat" where
  "none \<equiv> \<lambda>_. 0"

abbreviation one_of :: "ptr \<Rightarrow> ptr \<Rightarrow> nat" where
  "one_of p \<equiv> none(p := 1)"

lemma refsD:
  assumes "refs e g s"
  shows "files s h = Some f \<Longrightarrow> linked_to s f"
    "lockInfos s p = Some l \<Longrightarrow> nRef l = int (card (at_lock s p) + e p)" "lockInfos s p = Some l \<Longrightarrow> 0 < nRef l"
    "openCnts s q = Some c \<Longrightarrow> oRef c = int (card (at_open s q) + g q)" "openCnts s q = Some c \<Longrightarrow> 0 < oRef c"
  using assms unfolding refs_def by blast+

lemma refsI:
  assumes "\<And>h f. files s h = Some f \<Longrightarrow> linked_to s f"
    "\<And>p l. lockInfos s p = Some l \<Longrightarrow> nRef l = int (card (at_lock s p) + e p) \<and> 0 < nRef l"
    "\<And>q c. openCnts s q = Some c \<Longrightarrow> oRef c = int (card (at_open s q) + g q) \<and> 0 < oRef c"
  shows "refs e g s"
  unfolding refs_def using assms by blast

lemma linked_some: "linked_to s f \<Longrightarrow> \<exists>l. lockInfos s (pLock f) = Some l" "linked_to s f \<Longrightarrow> \<exists>c. openCnts s (pOpen f) = Some c"
  by (auto simp: linked_to_def)

lemma unused_record:
  assumes "refs e g s"
  shows "lockInfos s p = None \<Longrightarrow> at_lock s p = {}" "openCnts s p = None \<Longrightarrow> at_open s p = {}"
  using linked_some [OF refsD(1) [OF assms]] by (auto simp: at_lock_def at_open_def) fastforce+

lemma find_lock_ok:
  assumes inv: "os_inv x none g s"
  shows "\<exists>p s'. find_lock i pid s = Some (p, s') \<and> extends s s' \<and> openCnts s' = openCnts s \<and>
    (p = 0 \<and> os_inv x none g s' \<or>
     p \<noteq> 0 \<and> os_inv x (one_of p) g s' \<and> (\<exists>l. lockInfos s' p = Some l \<and> lkey l = (i, pid)))"
proof -
  note tab = os_invD(1) [OF inv] and r = os_invD(2) [OF inv]
  have ix: "indexes lock_key lkey (lockHash s) (lockInfos s)" and z: "lockInfos s 0 = None" using tab by (auto simp: tables_def)
  obtain p where p: "sqliteHashFind (lockHash s) (lockKey i pid) = Some p"
    "p = 0 \<and> (\<forall>q r. lockInfos s q = Some r \<longrightarrow> lkey r \<noteq> (i, pid)) \<or> p \<noteq> 0 \<and> (\<exists>r. lockInfos s p = Some r \<and> lkey r = (i, pid))"
    using locks.find [OF ix z, of "(i, pid)"] by auto
  show ?thesis
  proof (cases "p = 0")
    case False
    then obtain l where l: "lockInfos s p = Some l" "lkey l = (i, pid)" using p(2) by blast
    let ?l = "l\<lparr>nRef := nRef l + 1\<rparr>" and ?s = "s\<lparr>lockInfos := (lockInfos s)(p \<mapsto> l\<lparr>nRef := nRef l + 1\<rparr>)\<rparr>"
    have "tables ?s" using tab l locks.update [OF ix l(1), of ?l] unfolding tables_def by (auto split: if_splits)
    moreover have "extends s ?s" using l(1) unfolding extends_def by auto
    moreover have "refs (one_of p) g ?s"
    proof (rule refsI)
      fix h f assume "files ?s h = Some f"
      then have "linked_to s f" using refsD(1) [OF r] by simp
      then show "linked_to ?s f" using l(1) unfolding linked_to_def by auto
    next
      fix q l' assume "lockInfos ?s q = Some l'"
      then show "nRef l' = int (card (at_lock ?s q) + one_of p q) \<and> 0 < nRef l'"
        using l(1) refsD(2,3) [OF r] by (cases "q = p") (auto simp: at_lock_def)
    next
      fix q c assume "openCnts ?s q = Some c"
      then show "oRef c = int (card (at_open ?s q) + g q) \<and> 0 < oRef c" using refsD(4,5) [OF r] by (simp add: at_open_def)
    qed
    ultimately have "os_inv x (one_of p) g ?s" using extends_ok [OF inv] by blast
    then show ?thesis using False p(1) l \<open>extends s ?s\<close> by (simp add: find_lock_def)
  next
    case True
    then have new: "\<forall>q r. lockInfos s q = Some r \<longrightarrow> lkey r \<noteq> (i, pid)" using p(2) by blast
    obtain ok as where m: "os_malloc s = (ok, s\<lparr>allocs := as\<rparr>)" using os_malloc_eq by (metis surj_pair)
    let ?n = "nextPtr s" and ?l = "\<lparr>lkey = (i, pid), cnt = 0, nRef = 1\<rparr>"
    have n: "?n \<noteq> 0" "lockInfos s ?n = None" "openCnts s ?n = None" using fresh_ptr [OF tab] tab by (auto simp: tables_def)
    have frame: "os_inv x none g (s\<lparr>allocs := as, lockHash := t\<rparr>) \<and> extends s (s\<lparr>allocs := as, lockHash := t\<rparr>)"
      if "indexes lock_key lkey t (lockInfos s)" for t
    proof -
      have ext: "extends s (s\<lparr>allocs := as, lockHash := t\<rparr>)" by (auto simp: extends_def)
      have "tables (s\<lparr>allocs := as, lockHash := t\<rparr>)" using tab that by (simp add: tables_def)
      moreover have "refs none g (s\<lparr>allocs := as, lockHash := t\<rparr>)" by (rule refs_frame [OF r]) simp_all
      ultimately show ?thesis using extends_ok [OF inv ext] ext by blast
    qed
    show ?thesis
    proof (cases ok)
      case False
      then show ?thesis using \<open>p = 0\<close> p(1) m frame [OF ix] by (simp add: find_lock_def)
    next
      case True
      obtain old t where t: "sqliteHashInsert (lockKey i pid) ?n (lockHash s) = Some (old, t)"
        "old = 0 \<and> indexes lock_key lkey t ((lockInfos s)(?n \<mapsto> ?l)) \<or> old = ?n \<and> indexes lock_key lkey t (lockInfos s)"
        using locks.insert [OF ix new n(1,2), of ?l] by auto
      show ?thesis
      proof (cases "old = 0")
        case False
        then have "indexes lock_key lkey t (lockInfos s)" "old = ?n" using t(2) by blast+
        then show ?thesis using False \<open>p = 0\<close> p(1) m t(1) True frame by (simp add: find_lock_def assertion_def)
      next
        case old: True
        let ?s = "s\<lparr>allocs := as, lockHash := t, nextPtr := ?n + 1, lockInfos := (lockInfos s)(?n \<mapsto> ?l)\<rparr>"
        have ix': "indexes lock_key lkey t ((lockInfos s)(?n \<mapsto> ?l))" using t(2) old n(1) by auto
        have "tables ?s" using tab ix' unfolding tables_def by (auto split: if_splits intro: less_SucI)
        moreover have ext: "extends s ?s" using n(2) unfolding extends_def by auto
        moreover have "refs (one_of ?n) g ?s"
        proof (rule refsI)
          fix h f assume f: "files ?s h = Some f"
          then have "linked_to s f" using refsD(1) [OF r] by simp
          then show "linked_to ?s f" using n(2) unfolding linked_to_def by (cases "pLock f = ?n") auto
        next
          fix p l assume l: "lockInfos ?s p = Some l"
          show "nRef l = int (card (at_lock ?s p) + one_of ?n p) \<and> 0 < nRef l"
          proof (cases "p = ?n")
            case True
            have "at_lock ?s ?n = {}" using unused_record(1) [OF r n(2)] by (simp add: at_lock_def)
            then show ?thesis using True l by auto
          next
            case False
            then show ?thesis using l refsD(2,3) [OF r] by (simp add: at_lock_def)
          qed
        next
          fix q c assume "openCnts ?s q = Some c"
          then show "oRef c = int (card (at_open ?s q) + g q) \<and> 0 < oRef c" using refsD(4,5) [OF r] by (simp add: at_open_def)
        qed
        ultimately have "os_inv x (one_of ?n) g ?s" using extends_ok [OF inv] by blast
        then show ?thesis using \<open>p = 0\<close> p(1) m t(1) True old n ext by (simp add: find_lock_def Let_def)
      qed
    qed
  qed
qed

lemma find_open_ok:
  assumes inv: "os_inv x e none s"
  shows "\<exists>q s'. find_open i s = Some (q, s') \<and> extends s s' \<and> lockInfos s' = lockInfos s \<and>
    (q = 0 \<and> os_inv x e none s' \<or>
     q \<noteq> 0 \<and> os_inv x e (one_of q) s' \<and> (\<exists>c. openCnts s' q = Some c \<and> okey c = i))"
proof -
  note tab = os_invD(1) [OF inv] and r = os_invD(2) [OF inv]
  have ix: "indexes openKey okey (openHash s) (openCnts s)" and z: "openCnts s 0 = None" using tab by (auto simp: tables_def)
  obtain p where p: "sqliteHashFind (openHash s) (openKey i) = Some p"
    "p = 0 \<and> (\<forall>q r. openCnts s q = Some r \<longrightarrow> okey r \<noteq> i) \<or> p \<noteq> 0 \<and> (\<exists>r. openCnts s p = Some r \<and> okey r = i)"
    using opens.find [OF ix z, of i] by blast
  show ?thesis
  proof (cases "p = 0")
    case False
    then obtain c where c: "openCnts s p = Some c" "okey c = i" using p(2) by blast
    let ?c = "c\<lparr>oRef := oRef c + 1\<rparr>" and ?s = "s\<lparr>openCnts := (openCnts s)(p \<mapsto> c\<lparr>oRef := oRef c + 1\<rparr>)\<rparr>"
    have "tables ?s" by (rule tables_open [OF tab, where c = c and c' = ?c and q = p]) (simp_all add: c)
    moreover have ext: "extends s ?s" using c(1) unfolding extends_def by auto
    moreover have "refs e (one_of p) ?s"
    proof (rule refsI)
      fix h f assume "files ?s h = Some f"
      then have "linked_to s f" using refsD(1) [OF r] by simp
      then show "linked_to ?s f" using c(1) unfolding linked_to_def by auto
    next
      fix q c' assume "openCnts ?s q = Some c'"
      then show "oRef c' = int (card (at_open ?s q) + one_of p q) \<and> 0 < oRef c'"
        using c(1) refsD(4,5) [OF r] by (cases "q = p") (auto simp: at_open_def)
    next
      fix q l assume "lockInfos ?s q = Some l"
      then show "nRef l = int (card (at_lock ?s q) + e q) \<and> 0 < nRef l" using refsD(2,3) [OF r] by (simp add: at_lock_def)
    qed
    ultimately have "os_inv x e (one_of p) ?s" using extends_ok [OF inv] by blast
    then show ?thesis using False p(1) c ext by (simp add: find_open_def)
  next
    case True
    then have new: "\<forall>q r. openCnts s q = Some r \<longrightarrow> okey r \<noteq> i" using p(2) by blast
    obtain ok as where m: "os_malloc s = (ok, s\<lparr>allocs := as\<rparr>)" using os_malloc_eq by (metis surj_pair)
    let ?n = "nextPtr s" and ?c = "\<lparr>okey = i, oRef = 1, nLock = 0, nPending = 0, aPending = []\<rparr>"
    have n: "?n \<noteq> 0" "lockInfos s ?n = None" "openCnts s ?n = None" using fresh_ptr [OF tab] tab by (auto simp: tables_def)
    have frame: "os_inv x e none (s\<lparr>allocs := as, openHash := t\<rparr>) \<and> extends s (s\<lparr>allocs := as, openHash := t\<rparr>)"
      if "indexes openKey okey t (openCnts s)" for t
    proof -
      have ext: "extends s (s\<lparr>allocs := as, openHash := t\<rparr>)" by (auto simp: extends_def)
      have "tables (s\<lparr>allocs := as, openHash := t\<rparr>)" using tab that by (simp add: tables_def)
      moreover have "refs e none (s\<lparr>allocs := as, openHash := t\<rparr>)" by (rule refs_frame [OF r]) simp_all
      ultimately show ?thesis using extends_ok [OF inv ext] ext by blast
    qed
    show ?thesis
    proof (cases ok)
      case False
      then show ?thesis using \<open>p = 0\<close> p(1) m frame [OF ix] by (simp add: find_open_def)
    next
      case True
      obtain old t where t: "sqliteHashInsert (openKey i) ?n (openHash s) = Some (old, t)"
        "old = 0 \<and> indexes openKey okey t ((openCnts s)(?n \<mapsto> ?c)) \<or> old = ?n \<and> indexes openKey okey t (openCnts s)"
        using opens.insert [OF ix new n(1,3), of ?c] by auto
      show ?thesis
      proof (cases "old = 0")
        case False
        then have "indexes openKey okey t (openCnts s)" "old = ?n" using t(2) by blast+
        then show ?thesis using False \<open>p = 0\<close> p(1) m t(1) True frame by (simp add: find_open_def assertion_def)
      next
        case old: True
        let ?s = "s\<lparr>allocs := as, openHash := t, nextPtr := ?n + 1, openCnts := (openCnts s)(?n \<mapsto> ?c)\<rparr>"
        have ix': "indexes openKey okey t ((openCnts s)(?n \<mapsto> ?c))" using t(2) old n(1) by auto
        have "tables ?s" using tab ix' unfolding tables_def by (auto split: if_splits intro: less_SucI)
        moreover have ext: "extends s ?s" using n(3) unfolding extends_def by auto
        moreover have "refs e (one_of ?n) ?s"
        proof (rule refsI)
          fix h f assume f: "files ?s h = Some f"
          then have "linked_to s f" using refsD(1) [OF r] by simp
          then show "linked_to ?s f" using n(3) unfolding linked_to_def by (cases "pOpen f = ?n") auto
        next
          fix q c assume c: "openCnts ?s q = Some c"
          show "oRef c = int (card (at_open ?s q) + one_of ?n q) \<and> 0 < oRef c"
          proof (cases "q = ?n")
            case True
            have "at_open ?s ?n = {}" using unused_record(2) [OF r n(3)] by (simp add: at_open_def)
            then show ?thesis using True c by auto
          next
            case False
            then show ?thesis using c refsD(4,5) [OF r] by (simp add: at_open_def)
          qed
        next
          fix q l assume "lockInfos ?s q = Some l"
          then show "nRef l = int (card (at_lock ?s q) + e q) \<and> 0 < nRef l" using refsD(2,3) [OF r] by (simp add: at_lock_def)
        qed
        ultimately have "os_inv x e (one_of ?n) ?s" using extends_ok [OF inv] by blast
        then show ?thesis using \<open>p = 0\<close> p(1) m t(1) True old n ext by (simp add: find_open_def Let_def)
      qed
    qed
  qed
qed

text \<open>Giving a reference back; the record goes with the last one.\<close>

lemma releaseLockInfo_ok:
  assumes inv: "os_inv x (e(p := Suc (e p))) g s" and l: "lockInfos s p = Some l"
  shows "\<exists>s'. releaseLockInfo p s = Some s' \<and> os_inv x e g s' \<and> files s' = files s \<and> kern s' = kern s \<and> openCnts s' = openCnts s \<and>
    (\<forall>h f l. files s h = Some f \<longrightarrow> lockInfos s (pLock f) = Some l \<longrightarrow>
       (\<exists>l'. lockInfos s' (pLock f) = Some l' \<and> lkey l' = lkey l \<and> cnt l' = cnt l))"
proof -
  note i = os_invD [OF inv]
  have ix: "indexes lock_key lkey (lockHash s) (lockInfos s)" using i(1) by (simp add: tables_def)
  have n: "nRef l = int (card (at_lock s p) + e p) + 1" using refsD(2) [OF i(2) l] by simp
  show ?thesis
  proof (cases "nRef l - 1 = 0")
    case False
    let ?l = "l\<lparr>nRef := nRef l - 1\<rparr>" and ?s = "s\<lparr>lockInfos := (lockInfos s)(p \<mapsto> l\<lparr>nRef := nRef l - 1\<rparr>)\<rparr>"
    have "tables ?s" using i(1) l locks.update [OF ix l, of ?l] unfolding tables_def by (auto split: if_splits)
    moreover have ext: "extends s ?s" using l unfolding extends_def by auto
    moreover have "refs e g ?s"
    proof (rule refsI)
      fix h f assume "files ?s h = Some f"
      then have "linked_to s f" using refsD(1) [OF i(2)] by simp
      then show "linked_to ?s f" using l unfolding linked_to_def by auto
    next
      fix q l' assume l': "lockInfos ?s q = Some l'"
      have eq: "at_lock ?s = at_lock s" by (simp add: at_lock_def fun_eq_iff)
      show "nRef l' = int (card (at_lock ?s q) + e q) \<and> 0 < nRef l'"
      proof (cases "q = p")
        case True
        then show ?thesis using l' n False unfolding eq by auto
      next
        case False
        then have "lockInfos s q = Some l'" using l' by simp
        from refsD(2,3) [OF i(2) this] show ?thesis using False unfolding eq by simp
      qed
    next
      fix q c assume "openCnts ?s q = Some c"
      then show "oRef c = int (card (at_open ?s q) + g q) \<and> 0 < oRef c" using refsD(4,5) [OF i(2)] by (simp add: at_open_def)
    qed
    ultimately have "os_inv x e g ?s" using extends_ok [OF inv] by blast
    then show ?thesis using False l by (auto simp: releaseLockInfo_def Let_def)
  next
    case True
    then have "card (at_lock s p) = 0" "e p = 0" using n by simp_all
    then have z: "at_lock s p = {}" "e p = 0" using finite_at_lock [OF i(1), of p] by simp_all
    obtain old t where t: "sqliteHashInsert (lockKey (fst (lkey l)) (snd (lkey l))) 0 (lockHash s) = Some (old, t)"
      "indexes lock_key lkey t ((lockInfos s)(p := None))"
      using locks.remove [OF ix l] by (auto simp: case_prod_beta)
    let ?s = "s\<lparr>lockHash := t, lockInfos := (lockInfos s)(p := None)\<rparr>"
    have hp: "holders s p = {}" using z(1) by (auto simp: holders_def at_lock_def)
    have exact: "cnt l = 0" if x using i(4) l that hp unfolding counts_def at_most_def by force
    have sums: "at_most x (sum (lock_count ?s) (inode_locks ?s j)) (sum (lock_count s) (inode_locks s j))" for j
    proof -
      have fin: "finite (inode_locks s j)" using i(1) by simp
      have s: "inode_locks ?s j = inode_locks s j - {p}" by (auto simp: inode_locks_def)
      have "sum (lock_count ?s) (inode_locks s j - {p}) = sum (lock_count s) (inode_locks s j - {p})"
        by (rule sum.cong) (auto simp: lock_count_def)
      moreover have "sum (lock_count s) (inode_locks s j) = sum (lock_count s) (inode_locks s j - {p}) + (if p \<in> inode_locks s j then lock_count s p else 0)"
        using sum.remove [OF fin, of p "lock_count s"] by auto
      ultimately show ?thesis using exact l by (auto simp: s at_most_def lock_count_def)
    qed
    have "tables ?s" using i(1) t(2) unfolding tables_def by auto
    moreover have "refs e g ?s"
    proof (rule refsI)
      fix h f assume f: "files ?s h = Some f"
      then have "linked_to s f" "pLock f \<noteq> p" using refsD(1) [OF i(2)] z(1) by (auto simp: at_lock_def)
      then show "linked_to ?s f" unfolding linked_to_def by simp
    next
      fix q l' assume l': "lockInfos ?s q = Some l'"
      have eq: "at_lock ?s = at_lock s" by (simp add: at_lock_def fun_eq_iff)
      have q: "q \<noteq> p" "lockInfos s q = Some l'" using l' by (auto split: if_splits)
      from refsD(2,3) [OF i(2) q(2)] show "nRef l' = int (card (at_lock ?s q) + e q) \<and> 0 < nRef l'" unfolding eq using q(1) by simp
    next
      fix q c assume "openCnts ?s q = Some c"
      then show "oRef c = int (card (at_open ?s q) + g q) \<and> 0 < oRef c" using refsD(4,5) [OF i(2)] by (simp add: at_open_def)
    qed
    moreover have "descs ?s" using i(3) by (simp add: descs_def)
    moreover have "counts x ?s"
      unfolding counts_def
    proof (intro conjI allI impI)
      fix q l' assume "lockInfos ?s q = Some l'"
      then have l': "lockInfos s q = Some l'" by (simp split: if_splits)
      show "-1 \<le> cnt l'" by (rule cnt_ge [OF inv l'])
      show "at_most x (int (card (holders ?s q))) \<bar>cnt l'\<bar>" using i(4) l' unfolding counts_def by (simp add: holders_def)
      show "\<exists>r c. openCnts ?s r = Some c \<and> okey c = fst (lkey l')" if "cnt l' \<noteq> 0" using i(4) l' that unfolding counts_def by simp
    next
      fix q c assume "openCnts ?s q = Some c"
      then have "at_most x (sum (lock_count s) (inode_locks s (okey c))) (nLock c)" using i(4) unfolding counts_def by simp
      then show "at_most x (sum (lock_count ?s) (inode_locks ?s (okey c))) (nLock c)" using sums [of "okey c"] unfolding at_most_def by auto
    qed
    moreover have "kern_locks x ?s"
      unfolding kern_locks_def
    proof (intro conjI allI impI)
      fix q l' assume "lockInfos ?s q = Some l'" "cnt l' \<noteq> 0"
      then have "lockInfos s q = Some l'" "cnt l' \<noteq> 0" by (simp_all split: if_splits)
      then show "(lkey l', mode_of (cnt l')) \<in> set (klocks (kern ?s))" using own_lock(1) [OF inv] by simp
    next
      fix key u assume ku: "x" "(key, u) \<in> set (klocks (kern ?s))"
      then have "(key, u) \<in> set (klocks (kern s))" by simp
      then obtain q l' where q: "lockInfos s q = Some l'" "lkey l' = key" "cnt l' \<noteq> 0" "u = mode_of (cnt l')"
        using i(5) ku(1) unfolding kern_locks_def by blast
      then have "q \<noteq> p" using exact [OF ku(1)] l by auto
      then show "\<exists>q l. lockInfos ?s q = Some l \<and> lkey l = key \<and> cnt l \<noteq> 0 \<and> u = mode_of (cnt l)" using q by auto
    qed
    moreover have "exclusive (kern ?s)" using i(6) by simp
    ultimately have "os_inv x e g ?s" by (rule os_invI)
    moreover have "pLock f \<noteq> p" if "files s h = Some f" for h f using z(1) that by (auto simp: at_lock_def)
    ultimately show ?thesis using True l t(1) by (auto simp: releaseLockInfo_def Let_def)
  qed
qed

lemma releaseOpenCnt_ok:
  assumes inv: "os_inv x none (one_of q) s" and c: "openCnts s q = Some c"
  shows "\<exists>s'. releaseOpenCnt q s = Some s' \<and> os_ok x s' \<and> files s' = files s \<and> kern s' = kern s \<and> lockInfos s' = lockInfos s"
proof -
  note i = os_invD [OF inv]
  have ix: "indexes openKey okey (openHash s) (openCnts s)" using i(1) by (simp add: tables_def)
  have n: "oRef c = int (card (at_open s q)) + 1" using refsD(4) [OF i(2) c] by simp
  show ?thesis
  proof (cases "oRef c - 1 = 0")
    case False
    let ?c = "c\<lparr>oRef := oRef c - 1\<rparr>" and ?s = "s\<lparr>openCnts := (openCnts s)(q \<mapsto> c\<lparr>oRef := oRef c - 1\<rparr>)\<rparr>"
    have "tables ?s" by (rule tables_open [OF i(1), where c = c and c' = ?c and q = q]) (simp_all add: c)
    moreover have ext: "extends s ?s" using c unfolding extends_def by auto
    moreover have "refs none none ?s"
    proof (rule refsI)
      fix h f assume "files ?s h = Some f"
      then have "linked_to s f" using refsD(1) [OF i(2)] by simp
      then show "linked_to ?s f" using c unfolding linked_to_def by auto
    next
      fix p l assume "lockInfos ?s p = Some l"
      then show "nRef l = int (card (at_lock ?s p) + 0) \<and> 0 < nRef l" using refsD(2,3) [OF i(2)] by (simp add: at_lock_def)
    next
      fix r c' assume c': "openCnts ?s r = Some c'"
      have eq: "at_open ?s = at_open s" by (simp add: at_open_def fun_eq_iff)
      show "oRef c' = int (card (at_open ?s r) + 0) \<and> 0 < oRef c'"
      proof (cases "r = q")
        case True
        then show ?thesis using c' n False unfolding eq by auto
      next
        case False
        then have "openCnts s r = Some c'" using c' by simp
        from refsD(4,5) [OF i(2) this] show ?thesis using False unfolding eq by simp
      qed
    qed
    ultimately have "os_ok x ?s" using extends_ok [OF inv] by blast
    then show ?thesis using False c by (auto simp: releaseOpenCnt_def Let_def)
  next
    case True
    then have z: "at_open s q = {}" using n finite_at_open [OF i(1), of q] by auto
    obtain old t where t: "sqliteHashInsert (openKey (okey c)) 0 (openHash s) = Some (old, t)"
      "indexes openKey okey t ((openCnts s)(q := None))"
      using opens.remove [OF ix c] by auto
    let ?s = "s\<lparr>openHash := t, openCnts := (openCnts s)(q := None)\<rparr>"
    have eq: "at_lock ?s = at_lock s" "holders ?s = holders s" "lock_count ?s = lock_count s" "inode_locks ?s = inode_locks s"
      by (simp_all add: at_lock_def holders_def lock_count_def inode_locks_def fun_eq_iff)
    have "tables ?s" using i(1) t(2) unfolding tables_def by auto
    moreover have "refs none none ?s"
    proof (rule refsI)
      fix h f assume f: "files ?s h = Some f"
      then have "linked_to s f" "pOpen f \<noteq> q" using refsD(1) [OF i(2)] z by (auto simp: at_open_def)
      then show "linked_to ?s f" unfolding linked_to_def by simp
    next
      fix p l assume "lockInfos ?s p = Some l"
      then show "nRef l = int (card (at_lock ?s p) + 0) \<and> 0 < nRef l" using refsD(2,3) [OF i(2)] by (simp add: at_lock_def)
    next
      fix r c' assume c': "openCnts ?s r = Some c'"
      have eq: "at_open ?s = at_open s" by (simp add: at_open_def fun_eq_iff)
      have r: "r \<noteq> q" "openCnts s r = Some c'" using c' by (auto split: if_splits)
      from refsD(4,5) [OF i(2) r(2)] show "oRef c' = int (card (at_open ?s r) + 0) \<and> 0 < oRef c'" unfolding eq using r(1) by simp
    qed
    moreover have "descs ?s" using i(3) unfolding descs_def by (auto split: if_splits)
    moreover have "counts x ?s"
      unfolding counts_def eq
    proof (intro conjI allI impI)
      fix p l assume "lockInfos ?s p = Some l"
      then have l: "lockInfos s p = Some l" by simp
      show "-1 \<le> cnt l" by (rule cnt_ge [OF inv l])
      show "at_most x (int (card (holders s p))) \<bar>cnt l\<bar>" using i(4) l unfolding counts_def by simp
      have "at_lock s p \<noteq> {}" using refsD(2,3) [OF i(2) l] by auto
      then obtain h f where f: "files s h = Some f" "pLock f = p" by (auto simp: at_lock_def)
      then obtain c' where "openCnts s (pOpen f) = Some c'" "okey c' = fst (lkey l)" using refsD(1) [OF i(2) f(1)] l by (auto simp: linked_to_def)
      moreover have "pOpen f \<noteq> q" using f(1) z by (auto simp: at_open_def)
      ultimately show "\<exists>r c. openCnts ?s r = Some c \<and> okey c = fst (lkey l)" by auto
    next
      fix r c' assume "openCnts ?s r = Some c'"
      then have "openCnts s r = Some c'" by (simp split: if_splits)
      then show "at_most x (sum (lock_count s) (inode_locks s (okey c'))) (nLock c')" using i(4) unfolding counts_def by simp
    qed
    moreover have "kern_locks x ?s" using i(5) by (simp add: kern_locks_def)
    moreover have "exclusive (kern ?s)" using i(6) by simp
    ultimately have "os_ok x ?s" by (rule os_invI)
    then show ?thesis using True c t(1) by (auto simp: releaseOpenCnt_def Let_def)
  qed
qed

end
