(* ===== verification/OsOpen.thy ===== *)
theory OsOpen
  imports OsFiles
begin

section \<open>What the handles hold\<close>

text \<open>Each handle, with its file and thread, and the lock it holds.\<close>

definition held :: "os_state \<Rightarrow> nat \<Rightarrow> ((inode \<times> pid) \<times> lock_type) option" where
  "held s h = (case files s h of None \<Rightarrow> None
     | Some f \<Rightarrow> map_option (\<lambda>l. (lkey l, if locked f then mode_of (cnt l) else F_UNLCK)) (lockInfos s (pLock f)))"

definition keeps :: "os_state \<Rightarrow> os_state \<Rightarrow> bool" where
  "keeps s s' \<longleftrightarrow> files s' = files s \<and> (\<forall>h f l. files s h = Some f \<longrightarrow> lockInfos s (pLock f) = Some l \<longrightarrow>
     (\<exists>l'. lockInfos s' (pLock f) = Some l' \<and> lkey l' = lkey l \<and> cnt l' = cnt l)) \<and>
     (\<forall>q c'. openCnts s' q = Some c' \<longrightarrow> aPending c' = [] \<or> (\<exists>c. openCnts s q = Some c \<and> aPending c = aPending c'))"

lemma held_cong: "files s' = files s \<Longrightarrow> lockInfos s' = lockInfos s \<Longrightarrow> held s' = held s"
  by (rule ext) (simp add: held_def cong: option.case_cong)

lemma held_put:
  "held (s\<lparr>files := (files s)(h \<mapsto> f)\<rparr>) = (held s)(h := map_option (\<lambda>l. (lkey l, if locked f then mode_of (cnt l) else F_UNLCK)) (lockInfos s (pLock f)))"
  by (rule ext) (simp add: held_def cong: option.case_cong)

lemma keeps_held:
  assumes "os_inv x e g s" "keeps s s'"
  shows "held s' = held s"
proof
  fix h
  show "held s' h = held s h"
  proof (cases "files s h")
    case None
    then show ?thesis using assms(2) by (simp add: held_def keeps_def)
  next
    case (Some f)
    then obtain l where l: "lockInfos s (pLock f) = Some l" using refsD(1) [OF os_invD(2) [OF assms(1)]] by (auto simp: linked_to_def)
    then obtain l' where "lockInfos s' (pLock f) = Some l'" "lkey l' = lkey l" "cnt l' = cnt l" using assms(2) Some unfolding keeps_def by blast
    then show ?thesis using assms(2) Some l by (simp add: held_def keeps_def)
  qed
qed

lemma extends_keeps:
  assumes "extends s s'"
  shows "keeps s s'"
proof -
  have "aPending c' = [] \<or> (\<exists>c. openCnts s q = Some c \<and> aPending c = aPending c')" if "openCnts s' q = Some c'" for q c'
    using extendsD(6) [OF assms that] by auto
  then show ?thesis unfolding keeps_def using extendsD(1,3) [OF assms] by blast
qed

lemma keeps_refl [simp]: "keeps s s"
  by (simp add: keeps_def)

lemma keeps_trans: "keeps s s1 \<Longrightarrow> keeps s1 s2 \<Longrightarrow> keeps s s2"
proof -
  assume k: "keeps s s1" "keeps s1 s2"
  have "aPending c' = [] \<or> (\<exists>c. openCnts s q = Some c \<and> aPending c = aPending c')" if "openCnts s2 q = Some c'" for q c'
    using k that unfolding keeps_def by metis
  moreover have "\<exists>l'. lockInfos s2 (pLock f) = Some l' \<and> lkey l' = lkey l \<and> cnt l' = cnt l"
    if "files s h = Some f" "lockInfos s (pLock f) = Some l" for h f l
    using k that unfolding keeps_def by metis
  ultimately show ?thesis using k unfolding keeps_def by simp
qed

section \<open>Opening a file\<close>

lemma findLockInfo_ok:
  assumes inv: "os_ok x s" and d: "map_of (descr (kern s)) d = Some (File i)"
  shows "\<exists>r s'. findLockInfo d pid fstat_ok s = Some (r, s') \<and> keeps s s' \<and> kern s' = kern s \<and>
    (case r of None \<Rightarrow> os_ok x s'
     | Some (p, q) \<Rightarrow> os_inv x (one_of p) (one_of q) s' \<and>
         (\<exists>l c. lockInfos s' p = Some l \<and> lkey l = (i, pid) \<and> openCnts s' q = Some c \<and> okey c = i))"
proof (cases fstat_ok)
  case False
  then show ?thesis using inv d by (simp add: findLockInfo_def)
next
  case True
  obtain p s1 where p: "find_lock i pid s = Some (p, s1)" "extends s s1" "p = 0 \<and> os_ok x s1 \<or>
     p \<noteq> 0 \<and> os_inv x (one_of p) none s1 \<and> (\<exists>l. lockInfos s1 p = Some l \<and> lkey l = (i, pid))"
    using find_lock_ok [OF inv, of i pid] by (elim exE conjE) (rule that)
  show ?thesis
  proof (cases "p = 0")
    case True
    then show ?thesis using \<open>fstat_ok\<close> d p extends_keeps [OF p(2)] extendsD(2) [OF p(2)] by (simp add: findLockInfo_def)
  next
    case False
    then have inv1: "os_inv x (one_of p) none s1" using p(3) by blast
    obtain l where l: "lockInfos s1 p = Some l" "lkey l = (i, pid)" using p(3) False by blast
    obtain q s2 where q: "find_open i s1 = Some (q, s2)" "extends s1 s2" "lockInfos s2 = lockInfos s1" "q = 0 \<and> os_inv x (one_of p) none s2 \<or>
       q \<noteq> 0 \<and> os_inv x (one_of p) (one_of q) s2 \<and> (\<exists>c. openCnts s2 q = Some c \<and> okey c = i)"
      using find_open_ok [OF inv1, of i] by (elim exE conjE) (rule that)
    have k2: "keeps s s2" "kern s2 = kern s"
      using keeps_trans [OF extends_keeps [OF p(2)] extends_keeps [OF q(2)]] extendsD(2) [OF p(2)] extendsD(2) [OF q(2)] by simp_all
    show ?thesis
    proof (cases "q = 0")
      case False
      then show ?thesis using \<open>fstat_ok\<close> \<open>p \<noteq> 0\<close> d p(1) q k2 l by (auto simp: findLockInfo_def)
    next
      case True
      then have inv2: "os_inv x (none(p := Suc (none p))) none s2" using q(4) by simp
      have "lockInfos s2 p = Some l" using l(1) q(3) by simp
      from releaseLockInfo_ok [OF inv2 this] obtain s3 where s3: "releaseLockInfo p s2 = Some s3" "os_ok x s3" "files s3 = files s2" "kern s3 = kern s2" "openCnts s3 = openCnts s2"
        "\<forall>h f l. files s2 h = Some f \<longrightarrow> lockInfos s2 (pLock f) = Some l \<longrightarrow>
          (\<exists>l'. lockInfos s3 (pLock f) = Some l' \<and> lkey l' = lkey l \<and> cnt l' = cnt l)" by blast
      then have "keeps s2 s3" by (simp add: keeps_def)
      then have "keeps s s3" using k2(1) keeps_trans by blast
      then show ?thesis using \<open>fstat_ok\<close> \<open>p \<noteq> 0\<close> d p(1) q(1) True s3 k2(2) by (simp add: findLockInfo_def)
    qed
  qed
qed

definition unused :: "int \<Rightarrow> os_state \<Rightarrow> bool" where
  "unused d s \<longleftrightarrow> (\<forall>h f. files s h = Some f \<longrightarrow> fd f \<noteq> d \<and> (0 \<le> dirfd f \<longrightarrow> dirfd f \<noteq> d)) \<and> (\<forall>q c. openCnts s q = Some c \<longrightarrow> d \<notin> set (aPending c))"

lemma add_handle_ok:
  assumes inv: "os_inv x (one_of p) (one_of q) s" and l: "lockInfos s p = Some l" and c: "openCnts s q = Some c" "okey c = fst (lkey l)"
    and h: "files s h = None" and d: "map_of (descr (kern s)) d = Some (File (okey c))" "unused d s"
  shows "os_ok x (s\<lparr>files := (files s)(h \<mapsto> \<lparr>pOpen = q, pLock = p, fd = d, locked = False, dirfd = -1\<rparr>)\<rparr>)" (is "os_ok x ?s")
proof (rule os_invI)
  note i = os_invD [OF inv]
  have locks: "at_lock ?s p' = (if p' = p then insert h (at_lock s p) else at_lock s p')" for p'
    using h by (auto simp: at_lock_def)
  have opens: "at_open ?s q' = (if q' = q then insert h (at_open s q) else at_open s q')" for q'
    using h by (auto simp: at_open_def)
  have "h \<notin> at_lock s p" "h \<notin> at_open s q" using h by (auto simp: at_lock_def at_open_def)
  then have card: "card (insert h (at_lock s p)) = card (at_lock s p) + 1" "card (insert h (at_open s q)) = card (at_open s q) + 1"
    using i(1) by simp_all
  have hold: "holders ?s = holders s" using h by (auto simp: holders_def fun_eq_iff)
  show "tables ?s" using i(1) by (simp add: tables_def)
  show "refs none none ?s"
  proof (rule refsI)
    fix h' f assume "files ?s h' = Some f"
    then show "linked_to ?s f" using l c refsD(1) [OF i(2), of h'] unfolding linked_to_def by (auto split: if_splits)
  next
    fix p' l' assume "lockInfos ?s p' = Some l'"
    then have l': "lockInfos s p' = Some l'" by simp
    show "nRef l' = int (card (at_lock ?s p') + 0) \<and> 0 < nRef l'"
      unfolding locks using refsD(2,3) [OF i(2) l'] card(1) by (cases "p' = p") simp_all
  next
    fix q' c' assume "openCnts ?s q' = Some c'"
    then have c': "openCnts s q' = Some c'" by simp
    show "oRef c' = int (card (at_open ?s q') + 0) \<and> 0 < oRef c'"
      unfolding opens using refsD(4,5) [OF i(2) c'] card(2) by (cases "q' = q") simp_all
  qed
  show "descs ?s"
  proof (rule descsI)
    show "0 \<le> d'" if "map_of (descr (kern ?s)) d' = Some v" for d' v using descsD(1) [OF i(3)] that by simp
    show "map_of (descr (kern ?s)) (fd f) = Some (File (okey c'))" if "files ?s h' = Some f" "openCnts ?s (pOpen f) = Some c'" for h' f c'
      using that d(1) c(1) descsD(2) [OF i(3), of h'] by (auto split: if_splits)
    show "map_of (descr (kern ?s)) (dirfd f) = Some Directory" if "files ?s h' = Some f" "0 \<le> dirfd f" for h' f
      using that descsD(3) [OF i(3), of h'] by (auto split: if_splits)
    show "fd f \<noteq> fd f' \<and> (0 \<le> dirfd f \<longrightarrow> dirfd f \<noteq> dirfd f')" if "files ?s h1 = Some f" "files ?s h2 = Some f'" "h1 \<noteq> h2" for h1 h2 f f'
      using that d(2) descsD(4,5) [OF i(3), of h1 f h2 f'] unfolding unused_def by (auto split: if_splits) fastforce+
    fix q' c' assume c': "openCnts ?s q' = Some c'"
    then show "nPending c' = int (length (aPending c'))" using descsD(6) [OF i(3)] by simp
    fix d' assume d': "d' \<in> set (aPending c')"
    show "map_of (descr (kern ?s)) d' = Some (File (okey c'))" using c' d' descsD(7) [OF i(3)] by simp
    show "fd f \<noteq> d'" if "files ?s h' = Some f" for h' f
      using that c' d' d(2) descsD(8) [OF i(3), of q' c' d' h' f] unfolding unused_def by (auto split: if_splits)
  qed
  show "counts x ?s" by (rule counts_cong [OF i(4)]) (simp_all add: hold)
  show "kern_locks x ?s" using i(5) by (simp add: kern_locks_def)
  show "exclusive (kern ?s)" using i(6) by simp
qed

lemma lowest_fresh: "map_of (descr k) (lowest k) = None" "0 \<le> lowest k"
proof -
  let ?P = "\<lambda>n. int n \<notin> fst ` set (descr k)"
  have "\<exists>n \<in> set [0..<Suc (length (descr k))]. ?P n"
  proof (rule ccontr)
    assume "\<not> ?thesis"
    then have "\<forall>n < Suc (length (descr k)). int n \<in> fst ` set (descr k)" by (simp del: upt_Suc)
    then have "int ` {0..<Suc (length (descr k))} \<subseteq> fst ` set (descr k)" by (simp add: image_subset_iff)
    then have "card (int ` {0..<Suc (length (descr k))}) \<le> card (fst ` set (descr k))" by (intro card_mono) simp_all
    moreover have "card (fst ` set (descr k)) \<le> length (descr k)" using card_image_le [of "set (descr k)" fst] card_length [of "descr k"] by simp
    ultimately show False by (simp add: card_image)
  qed
  then have "filter ?P [0..<Suc (length (descr k))] \<noteq> []" unfolding filter_empty_conv by blast
  then have "hd (filter ?P [0..<Suc (length (descr k))]) \<in> set (filter ?P [0..<Suc (length (descr k))])" by (rule hd_in_set)
  then have "?P (hd (filter ?P [0..<Suc (length (descr k))]))" unfolding set_filter by blast
  then have "lowest k \<notin> fst ` set (descr k)" unfolding lowest_def .
  then show "map_of (descr k) (lowest k) = None" by (simp add: map_of_eq_None_iff)
  show "0 \<le> lowest k" by (simp add: lowest_def)
qed

lemma new_descriptor:
  assumes inv: "os_inv x e g s"
  shows "unused (lowest (kern s)) s" "os_inv x e g (s\<lparr>kern := kern s\<lparr>descr := (lowest (kern s), v) # descr (kern s)\<rparr>\<rparr>)" (is "os_inv x e g ?s")
proof -
  note i = os_invD [OF inv]
  note f = lowest_fresh [of "kern s"]
  have used: "d \<noteq> lowest (kern s)" if "map_of (descr (kern s)) d = Some w" for d w using that f(1) by auto
  show un: "unused (lowest (kern s)) s"
    unfolding unused_def
  proof (intro conjI allI impI)
    fix h f assume h: "files s h = Some f"
    obtain c where c: "openCnts s (pOpen f) = Some c" using refsD(1) [OF i(2) h] by (auto simp: linked_to_def)
    show "fd f \<noteq> lowest (kern s)" by (rule used [OF descsD(2) [OF i(3) h c]])
    show "dirfd f \<noteq> lowest (kern s)" if "0 \<le> dirfd f" by (rule used [OF descsD(3) [OF i(3) h that]])
  next
    fix q c assume "openCnts s q = Some c"
    then show "lowest (kern s) \<notin> set (aPending c)" using descsD(7) [OF i(3)] used by blast
  qed
  show "os_inv x e g ?s"
  proof (rule os_invI)
    show "tables ?s" by (rule tables_cong [OF i(1)]) simp_all
    show "refs e g ?s" by (rule refs_frame [OF i(2)]) simp_all
    show "counts x ?s" by (rule counts_cong [OF i(4)]) (simp_all add: holders_def fun_eq_iff)
    show "kern_locks x ?s" using i(5) by (simp add: kern_locks_def)
    show "exclusive (kern ?s)" using i(6) by (simp add: exclusive_def)
    show "descs ?s"
    proof (rule descsI)
      show "0 \<le> d'" if "map_of (descr (kern ?s)) d' = Some v" for d' v
        using that f(2) descsD(1) [OF i(3)] by (auto split: if_splits)
      have keep: "map_of (descr (kern ?s)) d = Some w" if "map_of (descr (kern s)) d = Some w" for d w using that used by auto
      show "map_of (descr (kern ?s)) (fd f) = Some (File (okey c))" if "files ?s h = Some f" "openCnts ?s (pOpen f) = Some c" for h f c
        by (rule keep, rule descsD(2) [OF i(3)]) (use that in simp_all)
      show "map_of (descr (kern ?s)) (dirfd f) = Some Directory" if "files ?s h = Some f" "0 \<le> dirfd f" for h f
        by (rule keep, rule descsD(3) [OF i(3)]) (use that in simp_all)
      show "map_of (descr (kern ?s)) d = Some (File (okey c))" if "openCnts ?s q = Some c" "d \<in> set (aPending c)" for q c d
        by (rule keep, rule descsD(7) [OF i(3)]) (use that in simp_all)
    qed (use descsD(4-6,8) [OF i(3)] in simp_all)
  qed
qed

text \<open>What the three ways of opening a file come to, unless memory runs out.\<close>

definition opened :: "nat \<Rightarrow> inode \<times> pid \<Rightarrow> os_state \<Rightarrow> os_state \<Rightarrow> bool" where
  "opened h key s s' \<longleftrightarrow> held s' = (held s)(h \<mapsto> (key, F_UNLCK))"

lemma register_ok:
  assumes inv: "os_ok x s" and h: "files s h = None"
  shows "\<exists>rc s'. register_file h (lowest (kern s)) pid fstat_ok (s\<lparr>kern := kern s\<lparr>descr := (lowest (kern s), File i) # descr (kern s)\<rparr>\<rparr>) = Some (rc, s') \<and>
    (rc = SQLITE_OK \<and> os_ok x s' \<and> opened h (i, pid) s s' \<or> rc = SQLITE_NOMEM \<and> held s' = held s)"
proof -
  let ?d = "lowest (kern s)" and ?s = "s\<lparr>kern := kern s\<lparr>descr := (lowest (kern s), File i) # descr (kern s)\<rparr>\<rparr>"
  have inv1: "os_ok x ?s" by (rule new_descriptor(2) [OF inv])
  have un: "unused ?d ?s" using new_descriptor(1) [OF inv] by (simp add: unused_def)
  have heq: "held ?s = held s" by (rule held_cong) simp_all
  obtain r s' where r: "findLockInfo ?d pid fstat_ok ?s = Some (r, s')" "keeps ?s s'" "kern s' = kern ?s"
    "case r of None \<Rightarrow> os_ok x s'
     | Some (p, q) \<Rightarrow> os_inv x (one_of p) (one_of q) s' \<and>
         (\<exists>l c. lockInfos s' p = Some l \<and> lkey l = (i, pid) \<and> openCnts s' q = Some c \<and> okey c = i)"
    using findLockInfo_ok [OF inv1, of ?d i pid fstat_ok] by auto
  have held: "held s' = held s" using keeps_held [OF inv1 r(2)] heq by simp
  show ?thesis
  proof (cases r)
    case None
    have "held (os_close ?d s') = held s'" by (rule held_cong) (simp_all add: os_close_def)
    then show ?thesis using r(1) None held by (simp add: register_file_def)
  next
    case (Some pq)
    obtain p q where pq: "pq = (p, q)" by (cases pq)
    then have inv2: "os_inv x (one_of p) (one_of q) s'" using r(4) Some by simp
    obtain l c where lc: "lockInfos s' p = Some l" "lkey l = (i, pid)" "openCnts s' q = Some c" "okey c = i" using r(4) Some pq by auto
    have h': "files s' h = None" using r(2) h by (simp add: keeps_def)
    have d: "map_of (descr (kern s')) ?d = Some (File (okey c))" using r(3) lc(4) by simp
    have un': "unused ?d s'"
      unfolding unused_def
    proof (intro conjI allI impI)
      fix h1 f assume f: "files s' h1 = Some f"
      then have "files ?s h1 = Some f" using r(2) by (simp add: keeps_def)
      then show "fd f \<noteq> ?d" "0 \<le> dirfd f \<Longrightarrow> dirfd f \<noteq> ?d" using un unfolding unused_def by blast+
    next
      fix q1 c1 assume c1: "openCnts s' q1 = Some c1"
      show "?d \<notin> set (aPending c1)"
      proof
        assume "?d \<in> set (aPending c1)"
        then obtain c0 where "openCnts ?s q1 = Some c0" "aPending c0 = aPending c1" using r(2) c1 unfolding keeps_def by force
        then show False using \<open>?d \<in> set (aPending c1)\<close> un unfolding unused_def by metis
      qed
    qed
    let ?s' = "s'\<lparr>files := (files s')(h \<mapsto> \<lparr>pOpen = q, pLock = p, fd = ?d, locked = False, dirfd = -1\<rparr>)\<rparr>"
    have "os_ok x ?s'" by (rule add_handle_ok [OF inv2 lc(1,3) _ h' d un']) (simp add: lc)
    moreover have "opened h (i, pid) s ?s'" using held lc(1,2) by (simp add: opened_def held_put)
    ultimately show ?thesis using r(1) Some pq by (simp add: register_file_def)
  qed
qed

lemma openFile_ok:
  assumes inv: "os_ok x s" and h: "files s h = None"
  shows "kopen (Some (File i)) (kern s) = (lowest (kern s), kern s\<lparr>descr := (lowest (kern s), File i) # descr (kern s)\<rparr>)"
    "\<not> lowest (kern s) < 0" "\<exists>rc s'. register_file h (lowest (kern s)) pid fstat_ok (s\<lparr>kern := kern s\<lparr>descr := (lowest (kern s), File i) # descr (kern s)\<rparr>\<rparr>) = Some (rc, s') \<and>
    (rc = SQLITE_OK \<and> os_ok x s' \<and> opened h (i, pid) s s' \<or> rc = SQLITE_NOMEM \<and> held s' = held s)"
  using register_ok [OF inv h] lowest_fresh(2) [of "kern s"] by (simp_all add: kopen_def)

definition open_result :: "bool \<Rightarrow> nat \<Rightarrow> pid \<Rightarrow> inode option \<Rightarrow> os_state \<Rightarrow> os_result \<Rightarrow> os_state \<Rightarrow> bool" where
  "open_result x h pid answer s rc s' \<longleftrightarrow>
     (case answer of None \<Rightarrow> rc = SQLITE_CANTOPEN \<and> s' = s
      | Some i \<Rightarrow> rc = SQLITE_OK \<and> os_ok x s' \<and> opened h (i, pid) s s' \<or> rc = SQLITE_NOMEM \<and> held s' = held s)"

lemma kopen_none: "kopen None k = (-1, k)"
  by (simp add: kopen_def)

lemma openFile_result:
  assumes inv: "os_ok x s" and h: "files s h = None"
  obtains rc s' where "register_file h (lowest (kern s)) pid fstat_ok (s\<lparr>kern := kern s\<lparr>descr := (lowest (kern s), File i) # descr (kern s)\<rparr>\<rparr>) = Some (rc, s')"
    "open_result x h pid (Some i) s rc s'"
  using openFile_ok(3) [OF inv h, where i = i and pid = pid and fstat_ok = fstat_ok] unfolding open_result_def by auto

lemma openReadWrite_ok:
  assumes inv: "os_ok x s" and h: "files s h = None"
  shows "\<exists>rc ro' s'. sqliteOsOpenReadWrite h pid rw ro fstat_ok s = Some (rc, ro', s') \<and>
    open_result x h pid (case rw of None \<Rightarrow> ro | Some i \<Rightarrow> Some i) s rc s' \<and>
    ro' = (if rw = None \<and> ro = None then None else Some (rw = None))"
proof (cases "case rw of None \<Rightarrow> ro | Some i \<Rightarrow> Some i")
  case None
  then show ?thesis by (cases rw; cases ro) (simp_all add: sqliteOsOpenReadWrite_def open_result_def kopen_none)
next
  case (Some i)
  obtain rc s' where "register_file h (lowest (kern s)) pid fstat_ok (s\<lparr>kern := kern s\<lparr>descr := (lowest (kern s), File i) # descr (kern s)\<rparr>\<rparr>) = Some (rc, s')"
    "open_result x h pid (Some i) s rc s'" by (rule openFile_result [OF inv h])
  then show ?thesis
    using Some openFile_ok(1,2) [OF inv h] by (cases rw; cases ro) (simp_all add: sqliteOsOpenReadWrite_def kopen_none)
qed

lemma openExclusive_ok:
  assumes inv: "os_ok x s" and h: "files s h = None"
  shows "\<exists>rc s'. sqliteOsOpenExclusive h pid present new fstat_ok s = Some (rc, s') \<and>
    open_result x h pid (if present then None else new) s rc s'"
proof (cases "present \<or> new = None")
  case True
  then show ?thesis by (cases present) (auto simp: sqliteOsOpenExclusive_def open_result_def kopen_none)
next
  case False
  then obtain i where i: "new = Some i" "\<not> present" by auto
  obtain rc s' where "register_file h (lowest (kern s)) pid fstat_ok (s\<lparr>kern := kern s\<lparr>descr := (lowest (kern s), File i) # descr (kern s)\<rparr>\<rparr>) = Some (rc, s')"
    "open_result x h pid (Some i) s rc s'" by (rule openFile_result [OF inv h])
  then show ?thesis using i openFile_ok(1,2) [OF inv h] by (simp add: sqliteOsOpenExclusive_def)
qed

lemma openReadOnly_ok:
  assumes inv: "os_ok x s" and h: "files s h = None"
  shows "\<exists>rc s'. sqliteOsOpenReadOnly h pid ro fstat_ok s = Some (rc, s') \<and> open_result x h pid ro s rc s'"
proof (cases ro)
  case None
  then show ?thesis by (simp add: sqliteOsOpenReadOnly_def open_result_def kopen_none)
next
  case (Some i)
  obtain rc s' where "register_file h (lowest (kern s)) pid fstat_ok (s\<lparr>kern := kern s\<lparr>descr := (lowest (kern s), File i) # descr (kern s)\<rparr>\<rparr>) = Some (rc, s')"
    "open_result x h pid (Some i) s rc s'" by (rule openFile_result [OF inv h])
  then show ?thesis using Some openFile_ok(1,2) [OF inv h] by (simp add: sqliteOsOpenReadOnly_def)
qed

section \<open>Closing a file\<close>

lemma descs_fewer:
  assumes d: "descs s" and eq: "kern s' = kern s" "openCnts s' = openCnts s" and sub: "\<And>h f. files s' h = Some f \<Longrightarrow> files s h = Some f"
  shows "descs s'"
proof (rule descsI, unfold eq)
  show "fd f \<noteq> fd f' \<and> (0 \<le> dirfd f \<longrightarrow> dirfd f \<noteq> dirfd f')" if "files s' h = Some f" "files s' h' = Some f'" "h \<noteq> h'" for h f h' f'
    using descsD(4,5) [OF d sub [OF that(1)] sub [OF that(2)] that(3)] by blast
qed (fact descsD(1) [OF d] descsD(2) [OF d sub] descsD(3) [OF d sub] descsD(6) [OF d] descsD(7) [OF d] descsD(8) [OF d _ _ sub])+

lemma drop_handle_ok:
  assumes inv: "os_ok x s" and f: "files s h = Some f" "\<not> locked f"
  shows "os_inv x (one_of (pLock f)) (one_of (pOpen f)) (s\<lparr>files := (files s)(h := None)\<rparr>)" (is "os_inv x _ _ ?s")
proof (rule os_invI)
  note i = os_invD [OF inv]
  have locks: "at_lock ?s p = at_lock s p - {h}" and opens: "at_open ?s p = at_open s p - {h}" for p
    by (auto simp: at_lock_def at_open_def)
  have hold: "holders ?s = holders s" using f by (auto simp: holders_def fun_eq_iff)
  show "tables ?s" using i(1) by (simp add: tables_def)
  show "refs (one_of (pLock f)) (one_of (pOpen f)) ?s"
  proof (rule refsI)
    fix h' f' assume "files ?s h' = Some f'"
    then show "linked_to ?s f'" using refsD(1) [OF i(2), of h'] unfolding linked_to_def by (auto split: if_splits)
  next
    fix p l assume "lockInfos ?s p = Some l"
    then have l: "lockInfos s p = Some l" by simp
    show "nRef l = int (card (at_lock ?s p) + one_of (pLock f) p) \<and> 0 < nRef l"
    proof (cases "p = pLock f")
      case True
      then have "h \<in> at_lock s p" using f by (auto simp: at_lock_def)
      then have "card (at_lock s p) = card (at_lock s p - {h}) + 1" using card_Suc_Diff1 [OF finite_at_lock [OF i(1)]] by simp
      then show ?thesis unfolding locks using True refsD(2,3) [OF i(2) l] by simp
    next
      case False
      then have "h \<notin> at_lock s p" using f by (auto simp: at_lock_def)
      then show ?thesis unfolding locks using False refsD(2,3) [OF i(2) l] by simp
    qed
  next
    fix q c assume "openCnts ?s q = Some c"
    then have c: "openCnts s q = Some c" by simp
    show "oRef c = int (card (at_open ?s q) + one_of (pOpen f) q) \<and> 0 < oRef c"
    proof (cases "q = pOpen f")
      case True
      then have "h \<in> at_open s q" using f by (auto simp: at_open_def)
      then have "card (at_open s q) = card (at_open s q - {h}) + 1" using card_Suc_Diff1 [OF finite_at_open [OF i(1)]] by simp
      then show ?thesis unfolding opens using True refsD(4,5) [OF i(2) c] by simp
    next
      case False
      then have "h \<notin> at_open s q" using f by (auto simp: at_open_def)
      then show ?thesis unfolding opens using False refsD(4,5) [OF i(2) c] by simp
    qed
  qed
  show "descs ?s" by (rule descs_fewer [OF i(3)]) (simp_all split: if_splits)
  show "counts x ?s" by (rule counts_cong [OF i(4)]) (simp_all add: hold)
  show "kern_locks x ?s" using i(5) by (simp add: kern_locks_def)
  show "exclusive (kern ?s)" using i(6) by simp
qed

lemma close_descriptor_ok:
  assumes inv: "os_inv x e g s" and un: "unused d s"
    and free: "\<And>i p l. map_of (descr (kern s)) d = Some (File i) \<Longrightarrow> lockInfos s p = Some l \<Longrightarrow> fst (lkey l) = i \<Longrightarrow> cnt l = 0"
  shows "os_inv x e g (os_close d s)" (is "os_inv x e g ?s")
proof -
  note i = os_invD [OF inv]
  define i0 where "i0 = (case map_of (descr (kern s)) d of Some (File j) \<Rightarrow> j | _ \<Rightarrow> (0, 0))"
  have i0: "\<And>j. map_of (descr (kern s)) d = Some (File j) \<Longrightarrow> j = i0"
    "\<And>p l. map_of (descr (kern s)) d = Some (File i0) \<Longrightarrow> lockInfos s p = Some l \<Longrightarrow> fst (lkey l) = i0 \<Longrightarrow> cnt l = 0"
    using free by (simp_all add: i0_def)
  have cl: "closed {d} i0 (kern s) (kclose d (kern s))" by (rule close_one) (rule i0(1))
  have eq: "files ?s = files s" "lockInfos ?s = lockInfos s" "openCnts ?s = openCnts s" "kern ?s = kclose d (kern s)"
    by (simp_all add: os_close_def)
  have de: "map_of (descr (kclose d (kern s))) d' = (if d' = d then None else map_of (descr (kern s)) d')" for d'
    using cl by (simp add: closed_def)
  show ?thesis
  proof (rule os_invI)
    show "tables ?s" by (rule tables_cong [OF i(1)]) (simp_all add: os_close_def)
    show "refs e g ?s" by (rule refs_frame [OF i(2)]) (simp_all add: eq)
    show "counts x ?s" by (rule counts_cong [OF i(4)]) (simp_all add: eq holders_def fun_eq_iff)
    show "exclusive (kern ?s)" unfolding eq by (rule closed_exclusive [OF cl i(6)])
    show "kern_locks x ?s"
    proof (cases "\<exists>j. map_of (descr (kern s)) d = Some (File j)")
      case True
      then have "map_of (descr (kern s)) d = Some (File i0)" using i0(1) by blast
      then have "\<And>p l. lockInfos s p = Some l \<Longrightarrow> fst (lkey l) = i0 \<Longrightarrow> cnt l = 0" by (rule i0(2))
      then show ?thesis using closed_kern_locks [of "{d}" i0 s ?s x, unfolded eq] cl i(5) by blast
    next
      case False
      then have "klocks (kclose d (kern s)) = klocks (kern s)" by (auto simp: kclose_def split: option.split descriptor.split)
      then show ?thesis using i(5) by (simp add: kern_locks_def eq)
    qed
    show "descs ?s"
    proof (rule descsI, unfold eq de)
      show "(if fd f = d then None else map_of (descr (kern s)) (fd f)) = Some (File (okey c))" if "files s h = Some f" "openCnts s (pOpen f) = Some c" for h f c
        using that descsD(2) [OF i(3)] un unfolding unused_def by auto
      show "(if dirfd f = d then None else map_of (descr (kern s)) (dirfd f)) = Some Directory" if "files s h = Some f" "0 \<le> dirfd f" for h f
        using that descsD(3) [OF i(3)] un unfolding unused_def by auto
      show "0 \<le> d'" if "(if d' = d then None else map_of (descr (kern s)) d') = Some v" for d' v
        using that descsD(1) [OF i(3)] by (auto split: if_splits)
      show "(if d' = d then None else map_of (descr (kern s)) d') = Some (File (okey c))" if "openCnts s q = Some c" "d' \<in> set (aPending c)" for q c d'
        using that descsD(7) [OF i(3)] un unfolding unused_def by auto
      show "fd f \<noteq> fd f' \<and> (0 \<le> dirfd f \<longrightarrow> dirfd f \<noteq> dirfd f')" if "files s h = Some f" "files s h' = Some f'" "h \<noteq> h'" for h f h' f'
        using descsD(4,5) [OF i(3) that] by blast
    qed (fact descsD(6) [OF i(3)] descsD(8) [OF i(3)])+
  qed
qed

lemma defer_close_ok:
  assumes inv: "os_inv x e g s" and c: "openCnts s q = Some c" and d: "map_of (descr (kern s)) d = Some (File (okey c))" "unused d s"
  shows "\<exists>s'. defer_close q d True s = Some s' \<and> os_inv x e g s' \<and> files s' = files s \<and> lockInfos s' = lockInfos s \<and> (\<exists>c'. openCnts s' q = Some c')"
proof (cases "nLock c = 0")
  case True
  have "os_inv x e g (os_close d s)"
    by (rule close_descriptor_ok [OF inv d(2)]) (use d(1) unlocked_inode [OF inv c True] in auto)
  then show ?thesis using c True by (auto simp: defer_close_def os_close_def)
next
  case False
  note i = os_invD [OF inv]
  let ?c = "c\<lparr>nPending := nPending c + 1, aPending := aPending c @ [d]\<rparr>"
  let ?s = "s\<lparr>openCnts := (openCnts s)(q \<mapsto> ?c)\<rparr>"
  have "os_inv x e g ?s"
  proof (rule os_invI)
    show "tables ?s" by (rule tables_open [OF i(1), where c = c and c' = ?c and q = q]) (simp_all add: c)
    show "refs e g ?s" by (rule shape_refs [OF _ i(2)]) (simp add: same_shape_def c)
    show "counts x ?s" by (rule counts_cong [OF i(4)]) (simp_all add: holders_def fun_eq_iff c)
    show "kern_locks x ?s" using i(5) by (simp add: kern_locks_def)
    show "exclusive (kern ?s)" using i(6) by simp
    show "descs ?s"
    proof (rule descsI)
      show "map_of (descr (kern ?s)) (fd f) = Some (File (okey c'))" if "files ?s h = Some f" "openCnts ?s (pOpen f) = Some c'" for h f c'
        using that descsD(2) [OF i(3), of h f] c by (auto split: if_splits)
      show "fd f \<noteq> fd f' \<and> (0 \<le> dirfd f \<longrightarrow> dirfd f \<noteq> dirfd f')" if "files ?s h = Some f" "files ?s h' = Some f'" "h \<noteq> h'" for h f h' f'
        using descsD(4,5) [OF i(3) _ _ that(3)] that(1,2) by simp
      show "0 \<le> d'" if "map_of (descr (kern ?s)) d' = Some v" for d' v using descsD(1) [OF i(3)] that by simp
      show "map_of (descr (kern ?s)) (dirfd f) = Some Directory" if "files ?s h = Some f" "0 \<le> dirfd f" for h f
        using descsD(3) [OF i(3)] that by simp
      fix p c' assume c': "openCnts ?s p = Some c'"
      show "nPending c' = int (length (aPending c'))" using c' descsD(6) [OF i(3)] c by (auto split: if_splits)
      fix d' assume d': "d' \<in> set (aPending c')"
      show "map_of (descr (kern ?s)) d' = Some (File (okey c'))"
        using c' d' d(1) c descsD(7) [OF i(3)] by (auto split: if_splits)
      show "fd f \<noteq> d'" if f: "files ?s h = Some f" for h f
      proof (cases "p = q \<and> d' = d")
        case True
        then show ?thesis using d(2) f by (simp add: unused_def)
      next
        case False
        then obtain c0 where "openCnts s p = Some c0" "d' \<in> set (aPending c0)" using c' d' c by (auto split: if_splits)
        then show ?thesis using descsD(8) [OF i(3)] f by simp
      qed
    qed
  qed
  then show ?thesis using c False by (simp add: defer_close_def)
qed

lemma set_dirfd_ok:
  assumes inv: "os_inv x e g s" and f: "files s h = Some f" and v: "v < 0 \<or> map_of (descr (kern s)) v = Some Directory \<and> unused v s"
  shows "os_inv x e g (put_file h (f\<lparr>dirfd := v\<rparr>) s)" (is "os_inv x e g ?s")
proof (rule os_invI)
  note i = os_invD [OF inv]
  have eq: "files ?s = (files s)(h \<mapsto> f\<lparr>dirfd := v\<rparr>)" "lockInfos ?s = lockInfos s" "openCnts ?s = openCnts s" "kern ?s = kern s"
    by (simp_all add: put_file_def)
  show "tables ?s" by (rule tables_cong [OF i(1)]) (use f in \<open>auto simp: put_file_def\<close>)
  show "refs e g ?s" by (rule shape_refs [OF _ i(2)]) (simp add: same_shape_def f put_file_def)
  show "counts x ?s" by (rule counts_cong [OF i(4)]) (use f in \<open>auto simp: holders_def fun_eq_iff put_file_def\<close>)
  show "kern_locks x ?s" using i(5) by (simp add: kern_locks_def put_file_def)
  show "exclusive (kern ?s)" using i(6) by (simp add: put_file_def)
  have old: "\<exists>f0. files s h' = Some f0 \<and> fd f0 = fd f' \<and> pOpen f0 = pOpen f' \<and> (dirfd f' = dirfd f0 \<or> h' = h \<and> dirfd f' = v)" if "files ?s h' = Some f'" for h' f'
    using that f by (auto simp: eq split: if_splits)
  show "descs ?s"
  proof (rule descsI)
    fix h' f' assume "files ?s h' = Some f'"
    from old [OF this] obtain f0 where f0: "files s h' = Some f0" "fd f0 = fd f'" "pOpen f0 = pOpen f'" "dirfd f' = dirfd f0 \<or> h' = h \<and> dirfd f' = v" by blast
    show "map_of (descr (kern ?s)) (fd f') = Some (File (okey c))" if "openCnts ?s (pOpen f') = Some c" for c
      using descsD(2) [OF i(3) f0(1)] f0(2,3) that by (simp add: eq)
    show "map_of (descr (kern ?s)) (dirfd f') = Some Directory" if "0 \<le> dirfd f'"
      using descsD(3) [OF i(3) f0(1)] f0(4) that v by (auto simp: eq)
    fix h2 f2 assume "files ?s h2 = Some f2" "h' \<noteq> h2"
    from old [OF this(1)] this(2) obtain f3 where f3: "files s h2 = Some f3" "fd f3 = fd f2" "dirfd f2 = dirfd f3 \<or> h2 = h \<and> dirfd f2 = v" "h' \<noteq> h2" by blast
    have un: "\<not> v < 0 \<longrightarrow> 0 \<le> dirfd f1 \<longrightarrow> dirfd f1 \<noteq> v" if "files s h1 = Some f1" for h1 f1 using v that unfolding unused_def by blast
    have "dirfd f' \<noteq> dirfd f2" if "0 \<le> dirfd f'"
      using f0(4) f3(3)
    proof (elim disjE conjE)
      assume "dirfd f' = dirfd f0" "dirfd f2 = dirfd f3"
      then show ?thesis using descsD(5) [OF i(3) f0(1) f3(1) f3(4)] that by simp
    next
      assume "dirfd f' = dirfd f0" "dirfd f2 = v"
      then show ?thesis using un [OF f0(1)] that by auto
    next
      assume "dirfd f' = v" "dirfd f2 = dirfd f3"
      then show ?thesis using un [OF f3(1)] that by auto
    next
      assume "h' = h" "h2 = h"
      then show ?thesis using f3(4) by simp
    qed
    then show "fd f' \<noteq> fd f2 \<and> (0 \<le> dirfd f' \<longrightarrow> dirfd f' \<noteq> dirfd f2)"
      using descsD(4) [OF i(3) f0(1) f3(1) f3(4)] f0(2) f3(2) by simp
  next
    fix p c assume c: "openCnts ?s p = Some c"
    then show "nPending c = int (length (aPending c))" using descsD(6) [OF i(3)] by (simp add: eq)
    fix d assume d: "d \<in> set (aPending c)"
    show "map_of (descr (kern ?s)) d = Some (File (okey c))" using c d descsD(7) [OF i(3)] by (simp add: eq)
    show "fd f' \<noteq> d" if f': "files ?s h' = Some f'" for h' f'
    proof -
      obtain f0 where "files s h' = Some f0" "fd f0 = fd f'" using old [OF f'] by blast
      then show ?thesis using descsD(8) [OF i(3) _ d, of p h' f0] c by (simp add: eq)
    qed
  qed (use descsD(1) [OF i(3)] in \<open>simp add: eq\<close>)
qed

lemma held_dirfd: "files s h = Some f \<Longrightarrow> held (s\<lparr>kern := k, files := (files s)(h \<mapsto> f\<lparr>dirfd := v\<rparr>)\<rparr>) = held s"
  by (rule ext) (simp add: held_def cong: option.case_cong)

lemma openDirectory_ok:
  assumes inv: "os_ok x s" and f: "files s h = Some f" "dirfd f < 0"
  shows "\<exists>rc s'. sqliteOsOpenDirectory h present s = Some (rc, s') \<and> os_ok x s' \<and> held s' = held s \<and>
    rc = (if present then SQLITE_OK else SQLITE_CANTOPEN)"
proof -
  obtain l c where fd: "lockInfos s (pLock f) = Some l" "openCnts s (pOpen f) = Some c" "okey c = fst (lkey l)"
    "map_of (descr (kern s)) (fd f) = Some (File (okey c))" by (rule handle_records [OF inv f(1)])
  have "\<not> fd f < 0" using descsD(1) [OF os_invD(3) [OF inv] fd(4)] by simp
  moreover have "os_ok x (put_file h (f\<lparr>dirfd := -1\<rparr>) s)" by (rule set_dirfd_ok [OF inv f(1)]) simp
  moreover have "os_ok x (put_file h (f\<lparr>dirfd := lowest (kern s)\<rparr>) (s\<lparr>kern := kern s\<lparr>descr := (lowest (kern s), Directory) # descr (kern s)\<rparr>\<rparr>))"
    by (rule set_dirfd_ok [OF new_descriptor(2) [OF inv]]) (use f(1) new_descriptor(1) [OF inv] in \<open>simp_all add: unused_def\<close>)
  ultimately show ?thesis
    using f lowest_fresh(2) [of "kern s"]
    by (cases present) (simp_all add: sqliteOsOpenDirectory_def kopen_def assertion_def put_file_def held_dirfd held_dirfd [where s = s and k = "kern s", simplified])
qed

lemma close_dir_ok:
  assumes inv: "os_inv x e g s" and f: "files s h = Some f"
  shows "os_inv x e g (put_file h (f\<lparr>dirfd := -1\<rparr>) (if 0 \<le> dirfd f then os_close (dirfd f) s else s))"
proof (cases "0 \<le> dirfd f")
  case False
  then show ?thesis using set_dirfd_ok [OF inv f, of "-1"] by simp
next
  case True
  let ?s = "put_file h (f\<lparr>dirfd := -1\<rparr>) s"
  note i = os_invD [OF inv]
  have inv1: "os_inv x e g ?s" by (rule set_dirfd_ok [OF inv f]) simp
  have dir: "map_of (descr (kern s)) (dirfd f) = Some Directory" by (rule descsD(3) [OF i(3) f True])
  have un: "unused (dirfd f) ?s"
    unfolding unused_def
  proof (intro conjI allI impI)
    fix h' f' assume f': "files ?s h' = Some f'"
    have "\<exists>f0. files s h' = Some f0 \<and> fd f0 = fd f' \<and> (h' = h \<and> dirfd f' = -1 \<or> h' \<noteq> h \<and> dirfd f0 = dirfd f')"
      using f' f by (auto simp: put_file_def split: if_splits)
    then obtain f0 where f0: "files s h' = Some f0" "fd f0 = fd f'" "h' = h \<and> dirfd f' = -1 \<or> h' \<noteq> h \<and> dirfd f0 = dirfd f'" by blast
    obtain c where c: "openCnts s (pOpen f0) = Some c" using refsD(1) [OF i(2) f0(1)] by (auto simp: linked_to_def)
    show "fd f' \<noteq> dirfd f" using descsD(2) [OF i(3) f0(1) c] dir f0(2) by auto
    show "dirfd f' \<noteq> dirfd f" if "0 \<le> dirfd f'" using f0(3) that descsD(5) [OF i(3) f0(1) f] by auto
  next
    fix q c assume "openCnts ?s q = Some c"
    then have c: "openCnts s q = Some c" by (simp add: put_file_def)
    show "dirfd f \<notin> set (aPending c)" using descsD(7) [OF i(3) c, of "dirfd f"] dir by auto
  qed
  have "os_inv x e g (os_close (dirfd f) ?s)"
    by (rule close_descriptor_ok [OF inv1 un]) (use dir in \<open>simp add: put_file_def\<close>)
  then show ?thesis using True by (cases s) (simp add: os_close_def put_file_def)
qed

lemma sync_ok:
  assumes inv: "os_ok x s" and f: "files s h = Some f"
  shows "\<exists>rc s'. sqliteOsSync h synced s = Some (rc, s') \<and> os_ok x s' \<and> held s' = held s \<and> rc = (if synced then SQLITE_OK else SQLITE_IOERR)"
proof -
  let ?s = "put_file h (f\<lparr>dirfd := -1\<rparr>) (os_close (dirfd f) s)"
  have "held ?s = held s" using held_dirfd [OF f] by (simp add: put_file_def os_close_def)
  moreover have "?s = (os_close (dirfd f) s)\<lparr>files := (files s)(h \<mapsto> f\<lparr>dirfd := -1\<rparr>)\<rparr>" by (simp add: put_file_def os_close_def)
  ultimately show ?thesis using f inv close_dir_ok [OF inv f] by (cases synced; cases "0 \<le> dirfd f") (simp_all add: sqliteOsSync_def)
qed

lemma held_relocked:
  assumes f: "files s h = Some f" and l: "lockInfos s (pLock f) = Some l"
    and same: "\<And>h' f'. h' \<noteq> h \<Longrightarrow> files s h' = Some f' \<Longrightarrow> pLock f' = pLock f \<Longrightarrow> locked f' \<Longrightarrow> mode_of n = mode_of (cnt l)"
  shows "held (relocked h f l c b n m k s) = (held s)(h \<mapsto> (lkey l, if b then mode_of n else F_UNLCK))"
proof
  fix h'
  show "held (relocked h f l c b n m k s) h' = ((held s)(h \<mapsto> (lkey l, if b then mode_of n else F_UNLCK))) h'"
  proof (cases "h' = h")
    case True
    then show ?thesis by (simp add: held_def relocked_def)
  next
    case False
    then show ?thesis using same [OF False] l by (cases "files s h'") (auto simp: held_def relocked_def)
  qed
qed

lemma held_flush [simp]: "held (flush q c s) = held s"
  by (rule held_cong) (simp_all add: flush_def)

lemma files_flush [simp]: "files (flush q c s) = files s"
  by (simp add: flush_def)

lemma files_relocked [simp]: "files (relocked h f l c b n m k s) = (files s)(h \<mapsto> f\<lparr>locked := b\<rparr>)"
  by (simp add: relocked_def)

lemma sole_lock:
  assumes inv: "os_inv x e g s" and f: "files s h = Some f" "lockInfos s (pLock f) = Some l" "cnt l = 0 \<or> \<bar>cnt l\<bar> = 1 \<and> locked f"
    and h': "h' \<noteq> h" "files s h' = Some f'" "pLock f' = pLock f"
  shows "\<not> locked f'"
  using sole_holder(2) [OF inv f] h' by (auto simp: holders_def)

lemma unlock_result:
  assumes inv: "os_inv x e g s" and f: "files s h = Some f" and l: "lockInfos s (pLock f) = Some l" "snd (lkey l) = pid"
    and ref: "x \<longrightarrow> refused = None"
  shows "\<exists>rc s'. sqliteOsUnlock h pid refused s = Some (rc, s') \<and> os_inv x e g s' \<and> files s' = (files s)(h \<mapsto> f\<lparr>locked := False\<rparr>) \<and>
    held s' = (held s)(h \<mapsto> (lkey l, F_UNLCK)) \<and> (refused = None \<longrightarrow> rc = SQLITE_OK)"
proof -
  obtain rc s' where s': "sqliteOsUnlock h pid refused s = Some (rc, s')" "os_inv x e g s'" using unlock_ok [OF inv f l ref] by blast
  show ?thesis
  proof (cases "locked f")
    case False
    then have "held s = (held s)(h \<mapsto> (lkey l, F_UNLCK))" using f l by (auto simp: held_def fun_eq_iff)
    then show ?thesis using s' False f same_locked [OF f, of False] by (simp add: sqliteOsUnlock_def)
  next
    case True
    obtain c where c: "openCnts s (pOpen f) = Some c" "okey c = fst (lkey l)" "map_of (descr (kern s)) (fd f) = Some (File (okey c))"
      using handle_records [OF inv f] l(1) by auto
    have nz: "cnt l \<noteq> 0" by (rule locked_cnt [OF inv f True l(1)])
    have pos: "0 < nLock c" using nLock_cover [OF inv c(1) l(1) c(2)] nz by simp
    have pend: "nPending c = int (length (aPending c))" by (rule descsD(6) [OF os_invD(3) [OF inv] c(1)])
    note eq = unlock_eq [OF f l(1) c(1,3) nz pos pend, of pid refused]
    have many: "held (relocked h f l c False (cnt l - 1) m k s) = (held s)(h \<mapsto> (lkey l, F_UNLCK))" if "1 < cnt l" for m k
      using held_relocked [OF f l(1), of "cnt l - 1" c False m k] that by simp
    have last: "held (relocked h f l c False 0 m k s) = (held s)(h \<mapsto> (lkey l, F_UNLCK))" if "\<not> 1 < cnt l" for m k
    proof -
      have "\<bar>cnt l\<bar> = 1" using that nz cnt_ge [OF inv l(1)] by linarith
      then show ?thesis using held_relocked [OF f l(1), of 0 c False m k] sole_lock [OF inv f l(1)] True by auto
    qed
    have stuck: "held (put_file h (f\<lparr>locked := False\<rparr>) s) = (held s)(h \<mapsto> (lkey l, F_UNLCK))"
      using l by (simp add: put_file_def held_put)
    show ?thesis using eq s' True many last stuck by (auto simp: put_file_def split: if_splits)
  qed
qed

text \<open>The routines behind \<^verbatim>\<open>sqliteOsClose\<close> do not look at the handles.\<close>

lemma drop_first:
  "defer_close q d r (s\<lparr>files := F\<rparr>) = map_option (\<lambda>s. s\<lparr>files := F\<rparr>) (defer_close q d r s)"
  "releaseLockInfo p (s\<lparr>files := F\<rparr>) = map_option (\<lambda>s. s\<lparr>files := F\<rparr>) (releaseLockInfo p s)"
  "releaseOpenCnt q (s\<lparr>files := F\<rparr>) = map_option (\<lambda>s. s\<lparr>files := F\<rparr>) (releaseOpenCnt q s)"
  by (auto simp: defer_close_def releaseLockInfo_def releaseOpenCnt_def os_close_def Let_def split: Option.bind_split)

lemma same_files:
  "defer_close q d r s = Some t \<Longrightarrow> files t = files s"
  "releaseLockInfo p s = Some t \<Longrightarrow> files t = files s"
  "releaseOpenCnt q s = Some t \<Longrightarrow> files t = files s"
  by (auto simp: defer_close_def releaseLockInfo_def releaseOpenCnt_def os_close_def Let_def split: Option.bind_splits if_splits)

lemma unused_after_drop:
  assumes inv: "os_inv x e g s" and f: "files s h = Some f" and c: "openCnts s (pOpen f) = Some c"
  shows "unused (fd f) (s\<lparr>files := (files s)(h := None)\<rparr>)"
  unfolding unused_def
proof (intro conjI allI impI)
  note i = os_invD [OF inv]
  fix h' f' assume "files (s\<lparr>files := (files s)(h := None)\<rparr>) h' = Some f'"
  then have f': "files s h' = Some f'" "h' \<noteq> h" by (auto split: if_splits)
  show "fd f' \<noteq> fd f" by (rule descsD(4) [OF i(3) f'(1) f f'(2)])
  show "dirfd f' \<noteq> fd f" if "0 \<le> dirfd f'" using descsD(3) [OF i(3) f'(1) that] descsD(2) [OF i(3) f c] by auto
next
  fix q c' assume "openCnts (s\<lparr>files := (files s)(h := None)\<rparr>) q = Some c'"
  then show "fd f \<notin> set (aPending c')" using descsD(8) [OF os_invD(3) [OF inv], of q c' "fd f" h f] f by auto
qed

lemma close_ok:
  assumes inv: "os_ok x s" and f: "files s h = Some f" and l: "lockInfos s (pLock f) = Some l" "snd (lkey l) = pid"
    and ref: "x \<longrightarrow> refused = None"
  shows "\<exists>s'. sqliteOsClose h pid refused True s = Some (SQLITE_OK, s') \<and> os_ok x s' \<and> held s' = (held s)(h := None)"
proof -
  obtain rc s1 where s1: "sqliteOsUnlock h pid refused s = Some (rc, s1)" "os_ok x s1"
    "files s1 = (files s)(h \<mapsto> f\<lparr>locked := False\<rparr>)" "held s1 = (held s)(h \<mapsto> (lkey l, F_UNLCK))"
    using unlock_result [OF inv f l ref] by blast
  let ?f = "f\<lparr>locked := False\<rparr>"
  define s2 where "s2 = (if 0 \<le> dirfd f then os_close (dirfd f) s1 else s1)"
  define s3 where "s3 = put_file h (?f\<lparr>dirfd := -1\<rparr>) s2"
  have f1: "files s1 h = Some ?f" using s1(3) by simp
  have inv3: "os_ok x s3" using close_dir_ok [OF s1(2) f1] by (simp add: s3_def s2_def cong: if_cong)
  have f3: "files s3 h = Some (?f\<lparr>dirfd := -1\<rparr>)" by (simp add: s3_def put_file_def)
  define s4 where "s4 = s3\<lparr>files := (files s3)(h := None)\<rparr>"
  have inv4: "os_inv x (one_of (pLock f)) (one_of (pOpen f)) s4" using drop_handle_ok [OF inv3 f3] by (simp add: s4_def)
  obtain l3 c3 where lc': "lockInfos s3 (pLock (?f\<lparr>dirfd := -1\<rparr>)) = Some l3" "openCnts s3 (pOpen (?f\<lparr>dirfd := -1\<rparr>)) = Some c3"
    "okey c3 = fst (lkey l3)" "map_of (descr (kern s3)) (fd (?f\<lparr>dirfd := -1\<rparr>)) = Some (File (okey c3))"
    by (rule handle_records [OF inv3 f3])
  then have lc: "lockInfos s3 (pLock f) = Some l3" "openCnts s3 (pOpen f) = Some c3" "map_of (descr (kern s3)) (fd f) = Some (File (okey c3))"
    by simp_all
  have un: "unused (fd f) s4" using unused_after_drop [OF inv3 f3] lc(2) by (simp add: s4_def)
  obtain s5 where s5: "defer_close (pOpen f) (fd f) True s4 = Some s5" "os_inv x (one_of (pLock f)) (one_of (pOpen f)) s5"
    "files s5 = files s4" "lockInfos s5 = lockInfos s4" "\<exists>c. openCnts s5 (pOpen f) = Some c"
    using defer_close_ok [OF inv4, of "pOpen f" c3 "fd f"] un lc by (auto simp: s4_def)
  have l5: "lockInfos s5 (pLock f) = Some l3" using s5(4) lc(1) by (simp add: s4_def)
  have inv5: "os_inv x (none(pLock f := Suc (none (pLock f)))) (one_of (pOpen f)) s5" using s5(2) by simp
  obtain s6 where s6: "releaseLockInfo (pLock f) s5 = Some s6" "os_inv x none (one_of (pOpen f)) s6" "files s6 = files s5" "openCnts s6 = openCnts s5"
    "\<forall>h f l. files s5 h = Some f \<longrightarrow> lockInfos s5 (pLock f) = Some l \<longrightarrow> (\<exists>l'. lockInfos s6 (pLock f) = Some l' \<and> lkey l' = lkey l \<and> cnt l' = cnt l)"
    using releaseLockInfo_ok [OF inv5 l5] by blast
  obtain c6 where c6: "openCnts s6 (pOpen f) = Some c6" using s5(5) s6(4) by auto
  obtain s7 where s7: "releaseOpenCnt (pOpen f) s6 = Some s7" "os_ok x s7" "files s7 = files s6" "lockInfos s7 = lockInfos s6"
    using releaseOpenCnt_ok [OF s6(2) c6] by blast
  have "s4 = s2\<lparr>files := (files s)(h := None)\<rparr>" by (simp add: s4_def s3_def put_file_def s2_def os_close_def s1(3))
  then have "map_option (\<lambda>s'. s'\<lparr>files := (files s)(h := None)\<rparr>) (defer_close (pOpen f) (fd f) True s2) = Some s5"
    using s5(1) by (simp add: drop_first)
  then obtain t5 where t5: "defer_close (pOpen f) (fd f) True s2 = Some t5" "s5 = t5\<lparr>files := (files s)(h := None)\<rparr>" by auto
  then have "map_option (\<lambda>s'. s'\<lparr>files := (files s)(h := None)\<rparr>) (releaseLockInfo (pLock f) t5) = Some s6" using s6(1) by (simp add: drop_first)
  then obtain t6 where t6: "releaseLockInfo (pLock f) t5 = Some t6" "s6 = t6\<lparr>files := (files s)(h := None)\<rparr>" by auto
  then have "map_option (\<lambda>s'. s'\<lparr>files := (files s)(h := None)\<rparr>) (releaseOpenCnt (pOpen f) t6) = Some s7" using s7(1) by (simp add: drop_first)
  then obtain t7 where t7: "releaseOpenCnt (pOpen f) t6 = Some t7" "s7 = t7\<lparr>files := (files s)(h := None)\<rparr>" by auto
  have same: "files t7 = files s1"
    using same_files(1) [OF t5(1)] same_files(2) [OF t6(1)] same_files(3) [OF t7(1)] by (simp add: s2_def os_close_def)
  have "sqliteOsClose h pid refused True s = Some (SQLITE_OK, t7\<lparr>files := (files t7)(h := None)\<rparr>)"
    using s1(1) f1 t5(1) t6(1) t7(1) by (cases "0 \<le> dirfd f") (simp_all add: sqliteOsClose_def s2_def)
  moreover have "t7\<lparr>files := (files t7)(h := None)\<rparr> = s7" using t7(2) same s1(3) by simp
  moreover have "held s7 = (held s)(h := None)"
  proof -
    have "held s4 = (held s1)(h := None)"
      by (rule ext) (simp add: held_def s4_def s3_def s2_def put_file_def os_close_def cong: option.case_cong)
    moreover have "held s5 = held s4" by (rule held_cong) (rule s5)+
    moreover have "keeps s5 s6" using s6(3-5) by (simp add: keeps_def)
    then have "held s6 = held s5" by (rule keeps_held [OF inv5])
    moreover have "held s7 = held s6" by (rule held_cong) (rule s7)+
    ultimately show ?thesis using s1(4) by simp
  qed
  ultimately show ?thesis using s7(2) by simp
qed

end
