(* ===== verification/OsProps.thy ===== *)
theory OsProps
  imports OsOpen
begin

text \<open>
  The file locks as readers-writer locks on files: the states the routines reach, the abstract
  specification, the refinement, and what goes wrong when the kernel refuses or memory runs out.
\<close>

section \<open>Reachable states\<close>

text \<open>
  A handle is used in the thread that opened it, and a directory is opened for it once. With \<open>x\<close>
  the kernel does not refuse to unlock. No opening of a file has ended in \<open>SQLITE_NOMEM\<close>, which it
  does when memory runs out and also when the kernel refuses \<^verbatim>\<open>fstat\<close>, and memory has not run out
  when the closing of a descriptor was deferred. After such a failure the exclusion of writers is lost:
  \<open>nomem_two_writers\<close> and \<open>failed_realloc_over_read\<close> below show what happens then.
\<close>

inductive os_reach :: "bool \<Rightarrow> os_state \<Rightarrow> bool" for x :: bool where
  init: "os_reach x (os_init m1 m2 m3)"
| open_read_write: "os_reach x s \<Longrightarrow> files s h = None \<Longrightarrow>
    sqliteOsOpenReadWrite h pid rw ro fstat_ok s = Some (rc, r, s') \<Longrightarrow> rc \<noteq> SQLITE_NOMEM \<Longrightarrow> os_reach x s'"
| open_exclusive: "os_reach x s \<Longrightarrow> files s h = None \<Longrightarrow>
    sqliteOsOpenExclusive h pid present new fstat_ok s = Some (rc, s') \<Longrightarrow> rc \<noteq> SQLITE_NOMEM \<Longrightarrow> os_reach x s'"
| open_read_only: "os_reach x s \<Longrightarrow> files s h = None \<Longrightarrow>
    sqliteOsOpenReadOnly h pid ro fstat_ok s = Some (rc, s') \<Longrightarrow> rc \<noteq> SQLITE_NOMEM \<Longrightarrow> os_reach x s'"
| open_directory: "os_reach x s \<Longrightarrow> files s h = Some f \<Longrightarrow> dirfd f < 0 \<Longrightarrow>
    sqliteOsOpenDirectory h present s = Some (rc, s') \<Longrightarrow> os_reach x s'"
| sync: "os_reach x s \<Longrightarrow> sqliteOsSync h synced s = Some (rc, s') \<Longrightarrow> os_reach x s'"
| read_lock: "os_reach x s \<Longrightarrow> held s h = Some ((i, pid), t) \<Longrightarrow> sqliteOsReadLock h pid refused s = Some (rc, s') \<Longrightarrow> os_reach x s'"
| write_lock: "os_reach x s \<Longrightarrow> held s h = Some ((i, pid), t) \<Longrightarrow> sqliteOsWriteLock h pid refused s = Some (rc, s') \<Longrightarrow> os_reach x s'"
| unlock: "os_reach x s \<Longrightarrow> held s h = Some ((i, pid), t) \<Longrightarrow> x \<longrightarrow> refused = None \<Longrightarrow>
    sqliteOsUnlock h pid refused s = Some (rc, s') \<Longrightarrow> os_reach x s'"
| close: "os_reach x s \<Longrightarrow> held s h = Some ((i, pid), t) \<Longrightarrow> x \<longrightarrow> refused = None \<Longrightarrow>
    sqliteOsClose h pid refused True s = Some (rc, s') \<Longrightarrow> os_reach x s'"

lemma heldE:
  assumes "held s h = Some (key, t)"
  obtains f l where "files s h = Some f" "lockInfos s (pLock f) = Some l" "lkey l = key" "t = (if locked f then mode_of (cnt l) else F_UNLCK)"
proof (cases "files s h")
  case None
  then show ?thesis using assms by (simp add: held_def)
next
  case (Some f)
  then obtain l where "lockInfos s (pLock f) = Some l" "lkey l = key" "t = (if locked f then mode_of (cnt l) else F_UNLCK)"
    using assms by (auto simp: held_def)
  then show ?thesis using Some that by blast
qed

lemma init_index:
  assumes "m = Map.empty"
  shows "indexes key kof ((sqliteHashInit HASH_BINARY False)\<lparr>mallocs := ms\<rparr>) m"
proof -
  have "hash_view ((sqliteHashInit HASH_BINARY False)\<lparr>mallocs := ms\<rparr>) = Map.empty"
    by (simp add: sqliteHashInit_def hash_view_def)
  moreover have "keyClass ((sqliteHashInit HASH_BINARY False)\<lparr>mallocs := ms\<rparr>) = HASH_BINARY" by (simp add: sqliteHashInit_def)
  ultimately show ?thesis unfolding indexes_def using hash_reach.init assms by simp
qed

lemma init_ok: "os_ok x (os_init m1 m2 m3)"
  by (rule os_invI) (simp_all add: os_init_def tables_def refs_def descs_def counts_def kern_locks_def exclusive_def init_index)

lemma open_result_ok: "os_ok x s \<Longrightarrow> open_result x h pid answer s rc s' \<Longrightarrow> rc \<noteq> SQLITE_NOMEM \<Longrightarrow> os_ok x s'"
  by (auto simp: open_result_def split: option.splits)

lemma os_reach_ok: "os_reach x s \<Longrightarrow> os_ok x s"
proof (induction rule: os_reach.induct)
  case (init m1 m2 m3)
  show ?case by (rule init_ok)
next
  case (open_read_write s h pid rw ro fstat_ok rc r s')
  then show ?case using openReadWrite_ok [of x s h pid rw ro fstat_ok] open_result_ok by fastforce
next
  case (open_exclusive s h pid present new fstat_ok rc s')
  then show ?case using openExclusive_ok [of x s h pid present new fstat_ok] open_result_ok by fastforce
next
  case (open_read_only s h pid ro fstat_ok rc s')
  then show ?case using openReadOnly_ok [of x s h pid ro fstat_ok] open_result_ok by fastforce
next
  case (open_directory s h f present rc s')
  then show ?case using openDirectory_ok [of x s h f present] by simp
next
  case (sync s h synced rc s')
  then obtain f where "files s h = Some f" by (cases "files s h") (simp_all add: sqliteOsSync_def)
  then show ?case using sync sync_ok [of x s h f synced] by auto
next
  case (read_lock s h i pid t refused rc s')
  from read_lock.hyps(2) obtain f l where "files s h = Some f" "lockInfos s (pLock f) = Some l" "lkey l = (i, pid)" by (rule heldE)
  then show ?case using readLock_ok [OF read_lock.IH, of h f l pid refused] read_lock.hyps(3) by auto
next
  case (write_lock s h i pid t refused rc s')
  from write_lock.hyps(2) obtain f l where "files s h = Some f" "lockInfos s (pLock f) = Some l" "lkey l = (i, pid)" by (rule heldE)
  then show ?case using writeLock_ok [OF write_lock.IH, of h f l pid refused] write_lock.hyps(3) by auto
next
  case (unlock s h i pid t refused rc s')
  from unlock.hyps(2) obtain f l where "files s h = Some f" "lockInfos s (pLock f) = Some l" "lkey l = (i, pid)" by (rule heldE)
  then show ?case using unlock_ok [OF unlock.IH, of h f l pid refused] unlock.hyps(3,4) by auto
next
  case (close s h i pid t refused rc s')
  from close.hyps(2) obtain f l where "files s h = Some f" "lockInfos s (pLock f) = Some l" "lkey l = (i, pid)" by (rule heldE)
  then show ?case using close_ok [OF close.IH, of h f l pid refused] close.hyps(3,4) by auto
qed

section \<open>Locks of the handles and locks of the kernel\<close>

lemma handle_lock_in_kernel:
  assumes inv: "os_ok x s" and h: "held s h = Some (key, t)" "t \<noteq> F_UNLCK"
  shows "(key, t) \<in> set (klocks (kern s))"
proof -
  from h(1) obtain f l where f: "files s h = Some f" "lockInfos s (pLock f) = Some l" "lkey l = key" "t = (if locked f then mode_of (cnt l) else F_UNLCK)"
    by (rule heldE)
  then have lk: "locked f" using h(2) by (cases "locked f") simp_all
  show ?thesis using own_lock(1) [OF inv f(2)] locked_cnt [OF inv f(1) lk f(2)] f(3,4) lk by simp
qed

lemma kernel_lock_of_handle:
  assumes inv: "os_ok True s" and k: "(key, t) \<in> set (klocks (kern s))"
  shows "\<exists>h. held s h = Some (key, t) \<and> t \<noteq> F_UNLCK"
proof -
  obtain p l where l: "lockInfos s p = Some l" "lkey l = key" "cnt l \<noteq> 0" "t = mode_of (cnt l)"
    using os_invD(5) [OF inv] k unfolding kern_locks_def by blast
  have "int (card (holders s p)) = \<bar>cnt l\<bar>" using os_invD(4) [OF inv] l(1) unfolding counts_def at_most_def by simp
  then have "holders s p \<noteq> {}" using l(3) by auto
  then obtain h f where "files s h = Some f" "pLock f = p" "locked f" by (auto simp: holders_def)
  then show ?thesis using l by (intro exI [of _ h]) (simp add: held_def)
qed

lemma held_exclusion:
  assumes inv: "os_ok x s" and h: "held s h = Some ((i, p), F_WRLCK)" and h': "held s h' = Some ((i, q), t)" "h' \<noteq> h"
  shows "t = F_UNLCK"
proof -
  from h obtain f l where f: "files s h = Some f" "lockInfos s (pLock f) = Some l" "lkey l = (i, p)" "F_WRLCK = (if locked f then mode_of (cnt l) else F_UNLCK)"
    by (rule heldE)
  from h'(1) obtain f' l' where f': "files s h' = Some f'" "lockInfos s (pLock f') = Some l'" "lkey l' = (i, q)" "t = (if locked f' then mode_of (cnt l') else F_UNLCK)"
    by (rule heldE)
  have lk: "locked f" "cnt l < 0" using f(4) by (auto split: if_splits)
  then have "cnt l = -1" using cnt_ge [OF inv f(2)] by simp
  then have "\<not> locked f'" using inv_exclusion [OF inv f(1) lk(1) f(2) _ f'(1) h'(2) f'(2)] f(3) f'(3) by simp
  then show ?thesis using f'(4) by simp
qed

section \<open>Readers-writer locks\<close>

text \<open>
  The specification: the locks of the handles, and what a request comes to. Asking for a read lock
  gives up a write lock; asking again for a write lock one has is refused.
\<close>

type_synonym locks_view = "nat \<Rightarrow> ((inode \<times> pid) \<times> lock_type) option"

definition rivals :: "locks_view \<Rightarrow> nat \<Rightarrow> inode \<Rightarrow> lock_type set" where
  "rivals A h i = {t. \<exists>h' p. h' \<noteq> h \<and> A h' = Some ((i, p), t)}"

definition spec_read :: "nat \<Rightarrow> inode \<times> pid \<Rightarrow> locks_view \<Rightarrow> os_result \<times> locks_view" where
  "spec_read h key A = (if F_WRLCK \<in> rivals A h (fst key) then (SQLITE_BUSY, A) else (SQLITE_OK, A(h \<mapsto> (key, F_RDLCK))))"

definition spec_write :: "nat \<Rightarrow> inode \<times> pid \<Rightarrow> locks_view \<Rightarrow> os_result \<times> locks_view" where
  "spec_write h key A = (if A h = Some (key, F_WRLCK) \<or> \<not> rivals A h (fst key) \<subseteq> {F_UNLCK} then (SQLITE_BUSY, A)
     else (SQLITE_OK, A(h \<mapsto> (key, F_WRLCK))))"

lemma conflict_rivals:
  assumes inv: "os_ok True s" and f: "files s h = Some f" "lockInfos s (pLock f) = Some l" "lkey l = (i, pid)"
  shows "conflict i pid F_RDLCK (kern s) \<longleftrightarrow> (\<exists>h' q. q \<noteq> pid \<and> held s h' = Some ((i, q), F_WRLCK))"
    "conflict i pid F_WRLCK (kern s) \<longleftrightarrow> (\<exists>h' q t. q \<noteq> pid \<and> held s h' = Some ((i, q), t) \<and> t \<noteq> F_UNLCK)"
proof -
  have k: "((i, q), t) \<in> set (klocks (kern s)) \<longleftrightarrow> (\<exists>h'. held s h' = Some ((i, q), t) \<and> t \<noteq> F_UNLCK)" for q t
    using handle_lock_in_kernel [OF inv] kernel_lock_of_handle [OF inv] by metis
  show "conflict i pid F_RDLCK (kern s) \<longleftrightarrow> (\<exists>h' q. q \<noteq> pid \<and> held s h' = Some ((i, q), F_WRLCK))"
    unfolding conflict_iff k by auto
  show "conflict i pid F_WRLCK (kern s) \<longleftrightarrow> (\<exists>h' q t. q \<noteq> pid \<and> held s h' = Some ((i, q), t) \<and> t \<noteq> F_UNLCK)"
    unfolding conflict_iff k by auto
qed

text \<open>The handles on the record of \<open>h\<close>, by the count.\<close>

lemma same_record:
  assumes inv: "os_ok True s" and f: "lockInfos s p = Some l" and h': "held s h' = Some (lkey l, t)"
  shows "\<exists>f'. files s h' = Some f' \<and> pLock f' = p \<and> t = (if locked f' then mode_of (cnt l) else F_UNLCK)"
proof -
  from h' obtain f' l' where f': "files s h' = Some f'" "lockInfos s (pLock f') = Some l'" "lkey l' = lkey l"
    "t = (if locked f' then mode_of (cnt l') else F_UNLCK)" by (rule heldE)
  have "pLock f' = p" using lock_unique [OF inv f'(2) f] f'(3) by simp
  then show ?thesis using f' f by auto
qed

lemma other_holder:
  assumes inv: "os_ok True s" and f: "files s h = Some f" "lockInfos s (pLock f) = Some l" and n: "(if locked f then 1 else 0) < \<bar>cnt l\<bar>"
  shows "\<exists>h'. h' \<noteq> h \<and> held s h' = Some (lkey l, mode_of (cnt l))"
proof -
  have card: "int (card (holders s (pLock f))) = \<bar>cnt l\<bar>" using os_invD(4) [OF inv] f(2) unfolding counts_def at_most_def by simp
  have "\<not> holders s (pLock f) \<subseteq> {h}"
  proof
    assume sub: "holders s (pLock f) \<subseteq> {h}"
    then have "holders s (pLock f) = (if locked f then {h} else {})" using f(1) by (auto simp: holders_def)
    then show False using card n by (cases "locked f") simp_all
  qed
  then obtain h' f' where "h' \<noteq> h" "files s h' = Some f'" "pLock f' = pLock f" "locked f'" by (auto simp: holders_def)
  then show ?thesis using f(2) by (intro exI [of _ h']) (simp add: held_def)
qed

lemma held_parts:
  assumes inv: "os_inv x e g s" and h: "held s h = Some (key, t)"
  shows "\<exists>f l c. files s h = Some f \<and> lockInfos s (pLock f) = Some l \<and> lkey l = key \<and> t = (if locked f then mode_of (cnt l) else F_UNLCK) \<and>
    openCnts s (pOpen f) = Some c \<and> map_of (descr (kern s)) (fd f) = Some (File (fst key))"
proof -
  from h obtain f l where f: "files s h = Some f" "lockInfos s (pLock f) = Some l" "lkey l = key" "t = (if locked f then mode_of (cnt l) else F_UNLCK)"
    by (rule heldE)
  obtain l' c where "lockInfos s (pLock f) = Some l'" "openCnts s (pOpen f) = Some c" "okey c = fst (lkey l')"
    "map_of (descr (kern s)) (fd f) = Some (File (okey c))" by (rule handle_records [OF inv f(1)])
  then show ?thesis using f by auto
qed

lemma read_refines:
  assumes inv: "os_ok True s" and h: "held s h = Some (key, t)"
  shows "\<exists>s'. sqliteOsReadLock h (snd key) None s = Some (fst (spec_read h key (held s)), s') \<and> held s' = snd (spec_read h key (held s))"
proof -
  obtain i pid where key: "key = (i, pid)" by (cases key)
  from held_parts [OF inv h] key obtain f l c where
    f: "files s h = Some f" "lockInfos s (pLock f) = Some l" "lkey l = key" "t = (if locked f then mode_of (cnt l) else F_UNLCK)" and
    c: "openCnts s (pOpen f) = Some c" "map_of (descr (kern s)) (fd f) = Some (File i)" by auto
  note eq = readLock_eq [OF f(1,2) c, of pid None]
  have riv: "F_WRLCK \<in> rivals (held s) h i \<longleftrightarrow> (\<exists>h' q. h' \<noteq> h \<and> held s h' = Some ((i, q), F_WRLCK))" by (auto simp: rivals_def)
  show ?thesis
  proof (cases "0 < cnt l")
    case True
    have "F_WRLCK \<notin> rivals (held s) h i"
    proof
      assume "F_WRLCK \<in> rivals (held s) h i"
      then obtain h' q where h': "h' \<noteq> h" "held s h' = Some ((i, q), F_WRLCK)" using riv by blast
      have "(key, mode_of (cnt l)) \<in> set (klocks (kern s))" using own_lock(1) [OF inv f(2)] f(3) True by simp
      moreover have "((i, q), F_WRLCK) \<in> set (klocks (kern s))" using handle_lock_in_kernel [OF inv h'(2)] by simp
      ultimately have "mode_of (cnt l) = F_WRLCK" using os_invD(6) [OF inv] key unfolding exclusive_def by blast
      then show False using True by simp
    qed
    moreover have "held (relocked h f l c True (cnt l + 1) m k s) = (held s)(h \<mapsto> (key, F_RDLCK))" for m k
      using held_relocked [OF f(1,2), of "cnt l + 1" c True m k] True f(3) by simp
    moreover have "(held s)(h \<mapsto> (key, F_RDLCK)) = held s" if "locked f" using h f(4) True that by (simp add: fun_upd_idem)
    ultimately show ?thesis using eq True key by (simp add: spec_read_def)
  next
    case False
    show ?thesis
    proof (cases "locked f \<or> cnt l = 0")
      case lk: True
      have one: "cnt l = 0 \<or> \<bar>cnt l\<bar> = 1 \<and> locked f" using lk False cnt_ge [OF inv f(2)] by auto
      have sole: "\<not> locked f'" if "h' \<noteq> h" "files s h' = Some f'" "pLock f' = pLock f" for h' f' by (rule sole_lock [OF inv f(1,2) one that])
      have none: "u = F_UNLCK" if "h' \<noteq> h" "held s h' = Some ((i, pid), u)" for h' u
        using same_record [OF inv f(2), of h' u] sole [OF that(1)] that(2) f(3) key by auto
      have "conflict i pid F_RDLCK (kern s) \<longleftrightarrow> F_WRLCK \<in> rivals (held s) h i"
      proof
        assume "conflict i pid F_RDLCK (kern s)"
        then obtain h' q where h': "q \<noteq> pid" "held s h' = Some ((i, q), F_WRLCK)" using conflict_rivals(1) [OF inv f(1,2)] f(3) key by auto
        then have "h' \<noteq> h" using h key by auto
        then show "F_WRLCK \<in> rivals (held s) h i" using h' riv by blast
      next
        assume "F_WRLCK \<in> rivals (held s) h i"
        then obtain h' q where h': "h' \<noteq> h" "held s h' = Some ((i, q), F_WRLCK)" using riv by blast
        then have "q \<noteq> pid" using none [OF h'(1)] by auto
        then show "conflict i pid F_RDLCK (kern s)" using h' conflict_rivals(1) [OF inv f(1,2)] f(3) key by auto
      qed
      moreover have "held (relocked h f l c True 1 m k s) = (held s)(h \<mapsto> (key, F_RDLCK))" for m k
        using held_relocked [OF f(1,2), of 1 c True m k] sole f(3) by simp
      ultimately show ?thesis using eq False lk key by (simp add: spec_read_def)
    next
      case lk: False
      then have "(if locked f then 1 else 0) < \<bar>cnt l\<bar>" by simp
      from other_holder [OF inv f(1,2) this] obtain h' where h': "h' \<noteq> h" "held s h' = Some (lkey l, mode_of (cnt l))" by blast
      have "cnt l < 0" using False lk by simp
      then have "held s h' = Some ((i, pid), F_WRLCK)" using h'(2) f(3) key by simp
      then have "F_WRLCK \<in> rivals (held s) h i" using riv h'(1) by blast
      then show ?thesis using eq False lk key by (simp add: spec_read_def)
    qed
  qed
qed

lemma write_refines:
  assumes inv: "os_ok True s" and h: "held s h = Some (key, t)"
  shows "\<exists>s'. sqliteOsWriteLock h (snd key) None s = Some (fst (spec_write h key (held s)), s') \<and> held s' = snd (spec_write h key (held s))"
proof -
  obtain i pid where key: "key = (i, pid)" by (cases key)
  from held_parts [OF inv h] key obtain f l c where
    f: "files s h = Some f" "lockInfos s (pLock f) = Some l" "lkey l = key" "t = (if locked f then mode_of (cnt l) else F_UNLCK)" and
    c: "openCnts s (pOpen f) = Some c" "map_of (descr (kern s)) (fd f) = Some (File i)" by auto
  note eq = writeLock_eq [OF f(1,2) c, of pid None]
  have riv: "\<not> rivals (held s) h i \<subseteq> {F_UNLCK} \<longleftrightarrow> (\<exists>h' q u. h' \<noteq> h \<and> held s h' = Some ((i, q), u) \<and> u \<noteq> F_UNLCK)"
    by (auto simp: rivals_def)
  show ?thesis
  proof (cases "cnt l = 0 \<or> cnt l = 1 \<and> locked f")
    case True
    then have one: "cnt l = 0 \<or> \<bar>cnt l\<bar> = 1 \<and> locked f" by auto
    have sole: "\<not> locked f'" if "h' \<noteq> h" "files s h' = Some f'" "pLock f' = pLock f" for h' f' by (rule sole_lock [OF inv f(1,2) one that])
    have none: "u = F_UNLCK" if "h' \<noteq> h" "held s h' = Some ((i, pid), u)" for h' u
      using same_record [OF inv f(2), of h' u] sole [OF that(1)] that(2) f(3) key by auto
    have own: "held s h \<noteq> Some (key, F_WRLCK)"
    proof (cases "locked f")
      case True
      then have "cnt l = 1" using \<open>cnt l = 0 \<or> cnt l = 1 \<and> locked f\<close> locked_cnt [OF inv f(1) _ f(2)] by blast
      then show ?thesis using h f(4) True by simp
    next
      case False
      then show ?thesis using h f(4) by simp
    qed
    have "conflict i pid F_WRLCK (kern s) \<longleftrightarrow> \<not> rivals (held s) h i \<subseteq> {F_UNLCK}"
    proof
      assume "conflict i pid F_WRLCK (kern s)"
      then obtain h' q u where h': "q \<noteq> pid" "held s h' = Some ((i, q), u)" "u \<noteq> F_UNLCK" using conflict_rivals(2) [OF inv f(1,2)] f(3) key by auto
      then have "h' \<noteq> h" using h key by auto
      then show "\<not> rivals (held s) h i \<subseteq> {F_UNLCK}" unfolding riv using h' by blast
    next
      assume "\<not> rivals (held s) h i \<subseteq> {F_UNLCK}"
      then obtain h' q u where h': "h' \<noteq> h" "held s h' = Some ((i, q), u)" "u \<noteq> F_UNLCK" using riv by blast
      then have "q \<noteq> pid" using none [OF h'(1)] by auto
      then show "conflict i pid F_WRLCK (kern s)" using h' conflict_rivals(2) [OF inv f(1,2)] f(3) key by auto
    qed
    moreover have "held (relocked h f l c True (-1) m k s) = (held s)(h \<mapsto> (key, F_WRLCK))" for m k
      using held_relocked [OF f(1,2), of "-1" c True m k] sole f(3) by simp
    ultimately show ?thesis using eq True key own by (simp add: spec_write_def)
  next
    case False
    have "held s h = Some (key, F_WRLCK) \<or> \<not> rivals (held s) h i \<subseteq> {F_UNLCK}"
    proof (cases "locked f \<and> cnt l = -1")
      case True
      then show ?thesis using h f(4) by simp
    next
      case nlk: False
      then have "(if locked f then 1 else 0) < \<bar>cnt l\<bar>" using False cnt_ge [OF inv f(2)] by auto
      from other_holder [OF inv f(1,2) this] obtain h' where h': "h' \<noteq> h" "held s h' = Some (lkey l, mode_of (cnt l))" by blast
      then have "held s h' = Some ((i, pid), mode_of (cnt l))" "mode_of (cnt l) \<noteq> F_UNLCK" using f(3) key by simp_all
      then show ?thesis using riv h'(1) by blast
    qed
    then show ?thesis using eq False key by (auto simp: spec_write_def)
  qed
qed

section \<open>Opening files while memory lasts\<close>

definition roomy :: "os_state \<Rightarrow> bool" where
  "roomy s \<longleftrightarrow> False \<notin> set (allocs s) \<and> \<not> failed (lockHash s) \<and> \<not> failed (openHash s)"

context hash_index
begin

lemma insert_room:
  assumes ix: "indexes key kof t m" and new: "\<forall>q r. m q = Some r \<longrightarrow> kof r \<noteq> k" and "\<not> failed t"
    and "sqliteHashInsert (key k) p t = Some (old, t')"
  shows "old = 0 \<and> \<not> failed t'"
proof -
  have t: "hash_reach t" "keyClass t = HASH_BINARY" using ix by (simp_all add: indexes_def)
  have s: "stored t (key k) p old t'" using reach_insert [OF t(1), of "key k" p] ok t(2) assms(4) by simp
  have "hash_view t (canon HASH_BINARY (key k)) = None"
    using ix new unfolding indexes_def by (cases "hash_view t (canon HASH_BINARY (key k))") auto
  then show ?thesis using s t(2) assms(3) by (auto simp: stored_def failed_def)
qed

end

lemma os_malloc_room: "False \<notin> set (allocs s) \<Longrightarrow> \<exists>as. os_malloc s = (True, s\<lparr>allocs := as\<rparr>) \<and> False \<notin> set as"
  by (cases "allocs s"; cases s) (auto simp: os_malloc_def)

lemma find_lock_room:
  assumes inv: "os_inv x none g s" and room: "roomy s" and r: "find_lock i pid s = Some (p, s')"
  shows "p \<noteq> 0 \<and> roomy s'"
proof -
  have ix: "indexes lock_key lkey (lockHash s) (lockInfos s)" and z: "lockInfos s 0 = None" and n: "nextPtr s \<noteq> 0" "lockInfos s (nextPtr s) = None"
    using os_invD(1) [OF inv] fresh_ptr [OF os_invD(1) [OF inv]] by (auto simp: tables_def)
  obtain q where q: "sqliteHashFind (lockHash s) (lockKey i pid) = Some q"
    "q = 0 \<and> (\<forall>q r. lockInfos s q = Some r \<longrightarrow> lkey r \<noteq> (i, pid)) \<or> q \<noteq> 0 \<and> (\<exists>r. lockInfos s q = Some r \<and> lkey r = (i, pid))"
    using locks.find [OF ix z, of "(i, pid)"] by auto
  show ?thesis
  proof (cases "q = 0")
    case False
    then show ?thesis using q r room by (auto simp: find_lock_def roomy_def)
  next
    case True
    then have new: "\<forall>q r. lockInfos s q = Some r \<longrightarrow> lkey r \<noteq> (i, pid)" using q(2) by blast
    obtain as where m: "os_malloc s = (True, s\<lparr>allocs := as\<rparr>)" "False \<notin> set as" using os_malloc_room room by (auto simp: roomy_def)
    obtain old t where t: "sqliteHashInsert (lockKey i pid) (nextPtr s) (lockHash s) = Some (old, t)"
      using locks.insert [OF ix new n, of "\<lparr>lkey = (i, pid), cnt = 0, nRef = 1\<rparr>"] by auto
    have "old = 0 \<and> \<not> failed t" using locks.insert_room [OF ix new, of "nextPtr s" old t] t room by (simp add: roomy_def)
    then show ?thesis using q(1) True m t r room n by (auto simp: find_lock_def roomy_def Let_def)
  qed
qed

lemma find_open_room:
  assumes inv: "os_inv x e none s" and room: "roomy s" and r: "find_open i s = Some (p, s')"
  shows "p \<noteq> 0 \<and> roomy s'"
proof -
  have ix: "indexes openKey okey (openHash s) (openCnts s)" and z: "openCnts s 0 = None" and n: "nextPtr s \<noteq> 0" "openCnts s (nextPtr s) = None"
    using os_invD(1) [OF inv] fresh_ptr [OF os_invD(1) [OF inv]] by (auto simp: tables_def)
  obtain q where q: "sqliteHashFind (openHash s) (openKey i) = Some q"
    "q = 0 \<and> (\<forall>q r. openCnts s q = Some r \<longrightarrow> okey r \<noteq> i) \<or> q \<noteq> 0 \<and> (\<exists>r. openCnts s q = Some r \<and> okey r = i)"
    using opens.find [OF ix z, of i] by auto
  show ?thesis
  proof (cases "q = 0")
    case False
    then show ?thesis using q r room by (auto simp: find_open_def roomy_def)
  next
    case True
    then have new: "\<forall>q r. openCnts s q = Some r \<longrightarrow> okey r \<noteq> i" using q(2) by blast
    obtain as where m: "os_malloc s = (True, s\<lparr>allocs := as\<rparr>)" "False \<notin> set as" using os_malloc_room room by (auto simp: roomy_def)
    obtain old t where t: "sqliteHashInsert (openKey i) (nextPtr s) (openHash s) = Some (old, t)"
      using opens.insert [OF ix new n, of "\<lparr>okey = i, oRef = 1, nLock = 0, nPending = 0, aPending = []\<rparr>"] by auto
    have "old = 0 \<and> \<not> failed t" using opens.insert_room [OF ix new, of "nextPtr s" old t] t room by (simp add: roomy_def)
    then show ?thesis using q(1) True m t r room n by (auto simp: find_open_def roomy_def Let_def)
  qed
qed

lemma open_room:
  assumes inv: "os_ok x s" and room: "roomy s" and h: "files s h = None"
  shows "\<exists>s'. sqliteOsOpenReadWrite h pid (Some i) ro True s = Some (SQLITE_OK, Some False, s') \<and>
    roomy s' \<and> held s' = (held s)(h \<mapsto> ((i, pid), F_UNLCK))"
proof -
  let ?d = "lowest (kern s)" and ?s = "s\<lparr>kern := kern s\<lparr>descr := (lowest (kern s), File i) # descr (kern s)\<rparr>\<rparr>"
  have inv1: "os_ok x ?s" by (rule new_descriptor(2) [OF inv])
  have room1: "roomy ?s" using room by (simp add: roomy_def)
  obtain p s1 where p: "find_lock i pid ?s = Some (p, s1)" "p = 0 \<and> os_ok x s1 \<or> p \<noteq> 0 \<and> os_inv x (one_of p) none s1 \<and>
      (\<exists>l. lockInfos s1 p = Some l \<and> lkey l = (i, pid))"
    using find_lock_ok [OF inv1, of i pid] by (elim exE conjE) (rule that)
  have p0: "p \<noteq> 0" "roomy s1" using find_lock_room [OF inv1 room1 p(1)] by simp_all
  then have inv2: "os_inv x (one_of p) none s1" using p(2) by blast
  obtain q s2 where q: "find_open i s1 = Some (q, s2)" using find_open_ok [OF inv2, of i] by (elim exE conjE) (rule that)
  have q0: "q \<noteq> 0" "roomy s2" using find_open_room [OF inv2 p0(2) q] by simp_all
  have f: "findLockInfo ?d pid True ?s = Some (Some (p, q), s2)" using p(1) p0(1) q q0(1) by (simp add: findLockInfo_def)
  then obtain s' where s': "register_file h ?d pid True ?s = Some (SQLITE_OK, s')" "roomy s'"
    using q0(2) by (simp add: register_file_def roomy_def)
  have "held s' = (held s)(h \<mapsto> ((i, pid), F_UNLCK))"
    using openFile_ok(3) [OF inv h, of pid True i] s'(1) by (auto simp: opened_def)
  then show ?thesis using s' openFile_ok(1,2) [OF inv h] by (simp add: sqliteOsOpenReadWrite_def)
qed

section \<open>The properties\<close>

text \<open>A session: two threads open the same file, and the first one writes.\<close>

lemma demo_session:
  shows "\<exists>s. os_reach True s \<and> roomy s \<and> held s 0 = Some (((3, 7), 1), F_UNLCK) \<and> held s 1 = Some (((3, 7), 2), F_UNLCK)"
    "\<exists>s. os_reach True s \<and> held s 0 = Some (((3, 7), 1), F_WRLCK) \<and> held s 1 = Some (((3, 7), 2), F_UNLCK)"
proof -
  have h0: "held (os_init [] [] []) = Map.empty" by (simp add: os_init_def held_def fun_eq_iff)
  have r0: "roomy (os_init [] [] [])" by (simp add: roomy_def os_init_def failed_def sqliteHashInit_def)
  have "files (os_init [] [] []) 0 = None" by (simp add: os_init_def)
  from open_room [OF init_ok r0 this, where pid = 1 and i = "(3, 7)" and ro = None] obtain s1 where
    s1: "sqliteOsOpenReadWrite 0 1 (Some (3, 7)) None True (os_init [] [] []) = Some (SQLITE_OK, Some False, s1)" "roomy s1"
      "held s1 = [0 \<mapsto> (((3, 7), 1), F_UNLCK)]" using h0 by auto
  have reach1: "os_reach True s1" by (rule os_reach.open_read_write [OF os_reach.init _ s1(1)]) (simp_all add: os_init_def)
  have f1: "files s1 1 = None"
  proof (rule ccontr)
    assume "files s1 1 \<noteq> None"
    then obtain f where f: "files s1 1 = Some f" by auto
    obtain l where "lockInfos s1 (pLock f) = Some l" using refsD(1) [OF os_invD(2) [OF os_reach_ok [OF reach1]] f] by (auto simp: linked_to_def)
    then have "held s1 1 \<noteq> None" using f by (simp add: held_def)
    then show False using s1(3) by simp
  qed
  from open_room [OF os_reach_ok [OF reach1] s1(2) f1, where pid = 2 and i = "(3, 7)" and ro = None] obtain s2 where
    s2: "sqliteOsOpenReadWrite 1 2 (Some (3, 7)) None True s1 = Some (SQLITE_OK, Some False, s2)" "roomy s2"
      "held s2 = [0 \<mapsto> (((3, 7), 1), F_UNLCK), 1 \<mapsto> (((3, 7), 2), F_UNLCK)]" using s1(3) by auto
  have reach2: "os_reach True s2" by (rule os_reach.open_read_write [OF reach1 f1 s2(1)]) simp
  show "\<exists>s. os_reach True s \<and> roomy s \<and> held s 0 = Some (((3, 7), 1), F_UNLCK) \<and> held s 1 = Some (((3, 7), 2), F_UNLCK)"
    using reach2 s2 by (intro exI [of _ s2]) simp
  have h2: "held s2 0 = Some (((3, 7), 1), F_UNLCK)" using s2(3) by simp
  have spec: "spec_write 0 ((3, 7), 1) (held s2) = (SQLITE_OK, [0 \<mapsto> (((3, 7), 1), F_WRLCK), 1 \<mapsto> (((3, 7), 2), F_UNLCK)])"
    unfolding s2(3) by (auto simp: spec_write_def rivals_def fun_eq_iff)
  obtain s3 where s3: "sqliteOsWriteLock 0 1 None s2 = Some (SQLITE_OK, s3)" "held s3 = [0 \<mapsto> (((3, 7), 1), F_WRLCK), 1 \<mapsto> (((3, 7), 2), F_UNLCK)]"
    using write_refines [OF os_reach_ok [OF reach2] h2] unfolding spec by auto
  have "os_reach True s3" by (rule os_reach.write_lock [OF reach2 h2 s3(1)])
  then show "\<exists>s. os_reach True s \<and> held s 0 = Some (((3, 7), 1), F_WRLCK) \<and> held s 1 = Some (((3, 7), 2), F_UNLCK)"
    using s3(2) by (intro exI [of _ s3]) simp
qed

lemma locks_refine:
  assumes r: "os_reach True s" and h: "held s h = Some (key, t)"
  shows "(\<exists>s'. sqliteOsReadLock h (snd key) None s = Some (fst (spec_read h key (held s)), s') \<and> held s' = snd (spec_read h key (held s))) \<and>
    (\<exists>s'. sqliteOsWriteLock h (snd key) None s = Some (fst (spec_write h key (held s)), s') \<and> held s' = snd (spec_write h key (held s))) \<and>
    (\<exists>s'. sqliteOsUnlock h (snd key) None s = Some (SQLITE_OK, s') \<and> held s' = (held s)(h \<mapsto> (key, F_UNLCK))) \<and>
    (\<exists>s'. sqliteOsClose h (snd key) None True s = Some (SQLITE_OK, s') \<and> held s' = (held s)(h := None))"
proof -
  note inv = os_reach_ok [OF r]
  from h obtain f l where f: "files s h = Some f" "lockInfos s (pLock f) = Some l" "lkey l = key" by (rule heldE)
  have "\<exists>s'. sqliteOsUnlock h (snd key) None s = Some (SQLITE_OK, s') \<and> held s' = (held s)(h \<mapsto> (key, F_UNLCK))"
    using unlock_result [OF inv f(1,2), of "snd key" None] f(3) by auto
  moreover have "\<exists>s'. sqliteOsClose h (snd key) None True s = Some (SQLITE_OK, s') \<and> held s' = (held s)(h := None)"
    using close_ok [OF inv f(1,2), of "snd key" None] f(3) by auto
  ultimately show ?thesis using read_refines [OF inv h] write_refines [OF inv h] by blast
qed

text \<open>C20: As long as the kernel refuses nothing, every lock request, unlocking and closing of a
  handle in its own thread returns what the readers-writer lock on the file prescribes and changes
  the locks of the handles accordingly, if memory has not run out in an opening or a closing; no
  pointer is bad and no assertion fails.\<close>

theorem os_locks_refine:
  assumes "os_reach True s" "held s h = Some (key, t)"
  shows "(\<exists>s'. sqliteOsReadLock h (snd key) None s = Some (fst (spec_read h key (held s)), s') \<and> held s' = snd (spec_read h key (held s))) \<and>
    (\<exists>s'. sqliteOsWriteLock h (snd key) None s = Some (fst (spec_write h key (held s)), s') \<and> held s' = snd (spec_write h key (held s))) \<and>
    (\<exists>s'. sqliteOsUnlock h (snd key) None s = Some (SQLITE_OK, s') \<and> held s' = (held s)(h \<mapsto> (key, F_UNLCK))) \<and>
    (\<exists>s'. sqliteOsClose h (snd key) None True s = Some (SQLITE_OK, s') \<and> held s' = (held s)(h := None))"
  using assms by (rule locks_refine)

theorem os_locks_refine_witness:
  "\<exists>s s'. os_reach True s \<and> held s 0 = Some (((3, 7), 1), F_WRLCK) \<and> sqliteOsReadLock 1 2 None s = Some (SQLITE_BUSY, s') \<and> held s' = held s"
proof -
  obtain s where s: "os_reach True s" "held s 0 = Some (((3, 7), 1), F_WRLCK)" "held s 1 = Some (((3, 7), 2), F_UNLCK)" using demo_session(2) by blast
  have "F_WRLCK \<in> rivals (held s) 1 (3, 7)" unfolding rivals_def using s(2) by (intro CollectI exI [of _ "0 :: nat"] exI [of _ "1 :: pid"]) simp
  then have "spec_read 1 ((3, 7), 2) (held s) = (SQLITE_BUSY, held s)" by (simp add: spec_read_def)
  then show ?thesis using os_locks_refine [OF s(1,3)] s(1,2) by auto
qed

text \<open>C21: Whatever locks, unlockings, syncs and openings the kernel has refused, a handle with the
  write lock is the only one, in any thread, with a lock on its file, as long as no opening has
  ended in \<open>SQLITE_NOMEM\<close> (a refused \<^verbatim>\<open>fstat\<close> included) and no closing has failed to
  allocate.\<close>

theorem os_writer_alone:
  assumes "os_reach x s" "held s h = Some ((i, p), F_WRLCK)" "held s h' = Some ((i, q), t)" "h' \<noteq> h"
  shows "t = F_UNLCK"
  using held_exclusion [OF os_reach_ok [OF assms(1)] assms(2-4)] .

theorem os_writer_alone_witness:
  "\<exists>s. os_reach True s \<and> held s 0 = Some (((3, 7), 1), F_WRLCK) \<and> (\<forall>q t. held s 1 = Some ((((3, 7), q)), t) \<longrightarrow> t = F_UNLCK)"
proof -
  obtain s where s: "os_reach True s" "held s 0 = Some (((3, 7), 1), F_WRLCK)" "held s 1 = Some (((3, 7), 2), F_UNLCK)" using demo_session(2) by blast
  then show ?thesis using os_writer_alone [OF s(1,2), of 1] by auto
qed

text \<open>C22: As long as no opening has ended in \<open>SQLITE_NOMEM\<close> (a refused \<^verbatim>\<open>fstat\<close> included)
  and no closing has failed to allocate, the kernel holds a lock for each lock of a handle,
  although descriptors of the same file are closed; and if it has not refused to unlock either, it
  holds no other lock.\<close>

theorem os_kernel_locks:
  assumes "os_reach x s"
  shows "{(key, t). t \<noteq> F_UNLCK \<and> (\<exists>h. held s h = Some (key, t))} \<subseteq> set (klocks (kern s)) \<and>
    (x \<longrightarrow> set (klocks (kern s)) = {(key, t). t \<noteq> F_UNLCK \<and> (\<exists>h. held s h = Some (key, t))})"
  using handle_lock_in_kernel [OF os_reach_ok [OF assms]] kernel_lock_of_handle [of s] os_reach_ok [OF assms] by (cases x) (auto, blast+)

theorem os_kernel_locks_witness:
  "\<exists>s. os_reach True s \<and> (((3, 7), 1), F_WRLCK) \<in> set (klocks (kern s))"
proof -
  obtain s where s: "os_reach True s" "held s 0 = Some (((3, 7), 1), F_WRLCK)" using demo_session(2) by blast
  then show ?thesis using os_kernel_locks [OF s(1)] by (intro exI [of _ s]) blast
qed

text \<open>When the last handle is closed, no record and no entry of the two tables is left.\<close>

theorem os_records_freed:
  assumes "os_reach x s" "files s = Map.empty"
  shows "lockInfos s = Map.empty \<and> openCnts s = Map.empty \<and> sqliteHashFind (lockHash s) (lockKey i pid) = Some 0 \<and>
    sqliteHashFind (openHash s) (openKey i) = Some 0"
proof -
  note inv = os_reach_ok [OF assms(1)]
  note r = refsD [OF os_invD(2) [OF inv]] and tab = os_invD(1) [OF inv]
  have sets: "at_lock s p = {}" "at_open s p = {}" for p using assms(2) by (simp_all add: at_lock_def at_open_def)
  have "lockInfos s p = None" for p using r(2,3) [of p] by (cases "lockInfos s p") (auto simp: sets)
  moreover have "openCnts s p = None" for p using r(4,5) [of p] by (cases "openCnts s p") (auto simp: sets)
  ultimately have m: "lockInfos s = Map.empty" "openCnts s = Map.empty" by (simp_all add: fun_eq_iff)
  then show ?thesis using tab locks.find [of "lockHash s" Map.empty "(i, pid)"] opens.find [of "openHash s" Map.empty i] unfolding tables_def by auto
qed

theorem os_records_freed_witness:
  "\<exists>s s'. os_reach True s \<and> held s 0 = Some (((3, 7), 1), F_WRLCK) \<and> os_reach True s' \<and> lockInfos s' = Map.empty"
proof -
  obtain s where s: "os_reach True s" "held s 0 = Some (((3, 7), 1), F_WRLCK)" using demo_session(2) by blast
  have "os_reach True (os_init [] [] [])" "files (os_init [] [] []) = Map.empty" by (rule os_reach.init) (simp add: os_init_def)
  then show ?thesis using os_records_freed s by blast
qed

text \<open>While memory lasts, opening a file that the kernel opens for writing succeeds, and the
  new handle holds no lock.\<close>

theorem os_open_succeeds:
  assumes "os_reach x s" "roomy s" "files s h = None"
  shows "\<exists>s'. sqliteOsOpenReadWrite h pid (Some i) ro True s = Some (SQLITE_OK, Some False, s') \<and>
    roomy s' \<and> held s' = (held s)(h \<mapsto> ((i, pid), F_UNLCK))"
  using open_room [OF os_reach_ok [OF assms(1)] assms(2,3)] .

theorem os_open_succeeds_witness:
  "\<exists>s'. sqliteOsOpenReadWrite 0 1 (Some (3, 7)) None True (os_init [] [] []) = Some (SQLITE_OK, Some False, s')"
proof -
  have "roomy (os_init [] [] [])" "files (os_init [] [] []) 0 = None" by (simp_all add: roomy_def os_init_def failed_def sqliteHashInit_def)
  then show ?thesis using os_open_succeeds [OF os_reach.init] by blast
qed

text \<open>Unlocking the handles of a list one by one.\<close>

fun unlock_all :: "(nat \<times> pid) list \<Rightarrow> os_state \<Rightarrow> os_state option" where
  "unlock_all [] s = Some s"
| "unlock_all ((h, p) # hs) s = (case sqliteOsUnlock h p None s of None \<Rightarrow> None | Some (rc, s) \<Rightarrow> unlock_all hs s)"

lemma unlock_all_ok:
  assumes "os_reach True s" "\<forall>(h, p) \<in> set hs. \<exists>i t. held s h = Some ((i, p), t)"
  shows "\<exists>s'. unlock_all hs s = Some s' \<and> os_reach True s' \<and>
    held s' = (\<lambda>h. if h \<in> fst ` set hs then map_option (\<lambda>(key, t). (key, F_UNLCK)) (held s h) else held s h)"
  using assms
proof (induction hs arbitrary: s)
  case Nil
  then show ?case by simp
next
  case (Cons hp hs)
  obtain h p where hp: "hp = (h, p)" by (cases hp)
  then obtain i t where h: "held s h = Some ((i, p), t)" using Cons.prems(2) by auto
  obtain s1 where s1: "sqliteOsUnlock h p None s = Some (SQLITE_OK, s1)" "held s1 = (held s)(h \<mapsto> ((i, p), F_UNLCK))"
    using locks_refine [OF Cons.prems(1) h] by auto
  have r1: "os_reach True s1" by (rule os_reach.unlock [OF Cons.prems(1) h _ s1(1)]) simp
  have "\<forall>(h', q) \<in> set hs. \<exists>j u. held s1 h' = Some ((j, q), u)"
  proof clarify
    fix h' q assume "(h', q) \<in> set hs"
    then have "\<exists>j u. held s h' = Some ((j, q), u)" using Cons.prems(2) by auto
    then show "\<exists>j u. held s1 h' = Some ((j, q), u)" using h by (auto simp: s1(2))
  qed
  from Cons.IH [OF r1 this] obtain s' where "unlock_all hs s1 = Some s'" "os_reach True s'"
    "held s' = (\<lambda>h. if h \<in> fst ` set hs then map_option (\<lambda>(key, t). (key, F_UNLCK)) (held s1 h) else held s1 h)" by blast
  then show ?case using hp s1 h by (intro exI [of _ s']) (auto simp: fun_eq_iff)
qed

text \<open>C30: A thread that waits for the write lock gets it once every other handle with a lock on the
  file has been unlocked, in whatever order and whatever the other threads hold.\<close>

theorem os_writer_progress:
  assumes r: "os_reach True s" and h: "held s h = Some ((i, p), t)" "t \<noteq> F_WRLCK"
    and others: "\<forall>h' q u. h' \<noteq> h \<longrightarrow> held s h' = Some ((i, q), u) \<longrightarrow> u \<noteq> F_UNLCK \<longrightarrow> (h', q) \<in> set hs"
    and threads: "\<forall>(h', q) \<in> set hs. h' \<noteq> h \<and> (\<exists>j u. held s h' = Some ((j, q), u))"
  shows "\<exists>s1 s2. unlock_all hs s = Some s1 \<and> sqliteOsWriteLock h p None s1 = Some (SQLITE_OK, s2) \<and> held s2 h = Some ((i, p), F_WRLCK)"
proof -
  obtain s1 where s1: "unlock_all hs s = Some s1" "os_reach True s1"
    "held s1 = (\<lambda>h. if h \<in> fst ` set hs then map_option (\<lambda>(key, t). (key, F_UNLCK)) (held s h) else held s h)"
    using unlock_all_ok [OF r, of hs] threads by blast
  have h1: "held s1 h = Some ((i, p), t)" using h(1) threads by (auto simp: s1(3))
  have "rivals (held s1) h i \<subseteq> {F_UNLCK}"
  proof
    fix u assume "u \<in> rivals (held s1) h i"
    then obtain h' q where h': "h' \<noteq> h" "held s1 h' = Some ((i, q), u)" by (auto simp: rivals_def)
    show "u \<in> {F_UNLCK}"
    proof (cases "h' \<in> fst ` set hs")
      case True
      then show ?thesis using h'(2) by (auto simp: s1(3))
    next
      case False
      then have "held s h' = Some ((i, q), u)" "(h', q) \<notin> set hs" using h'(2) by (auto simp: s1(3)) force
      then show ?thesis using others h'(1) by blast
    qed
  qed
  then have "spec_write h (i, p) (held s1) = (SQLITE_OK, (held s1)(h \<mapsto> ((i, p), F_WRLCK)))" using h1 h(2) by (simp add: spec_write_def)
  then show ?thesis using locks_refine [OF s1(2) h1] s1(1) by auto
qed

theorem os_writer_progress_witness:
  "\<exists>s s1 s2. held s 0 = Some (((3, 7), 1), F_WRLCK) \<and> unlock_all [(0, 1)] s = Some s1 \<and> sqliteOsWriteLock 1 2 None s1 = Some (SQLITE_OK, s2)"
proof -
  obtain s where s: "os_reach True s" "held s 0 = Some (((3, 7), 1), F_WRLCK)" "held s 1 = Some (((3, 7), 2), F_UNLCK)" using demo_session(2) by blast
  have "(h', q) \<in> set [(0, 1)]" if "h' \<noteq> 1" "held s h' = Some (((3, 7), q), u)" "u \<noteq> F_UNLCK" for h' q u
    using held_exclusion [OF os_reach_ok [OF s(1)] s(2) that(2)] that(3) s(2) that(2) by (cases "h' = 0") auto
  then show ?thesis using os_writer_progress [OF s(1,3), of "[(0, 1)]"] s by fastforce
qed

section \<open>When memory runs out or the kernel refuses\<close>

text \<open>
  A failed opening closes the new descriptor at once, without a look at \<^verbatim>\<open>nLock\<close>: the kernel
  drops every lock of the program on the file, and a second writer gets in beside the first.
\<close>

lemma kernel_own_count:
  assumes inv: "os_ok True s" and h: "held s h = Some ((i, p), F_WRLCK)" and f: "files s h' = Some f" "lockInfos s (pLock f) = Some l" "lkey l = (i, q)" "q \<noteq> p"
  shows "cnt l = 0"
proof (rule ccontr)
  assume "cnt l \<noteq> 0"
  then have "((i, q), mode_of (cnt l)) \<in> set (klocks (kern s))" using own_lock(1) [OF inv f(2)] f(3) by simp
  then obtain h2 where h2: "held s h2 = Some ((i, q), mode_of (cnt l))" "mode_of (cnt l) \<noteq> F_UNLCK" using kernel_lock_of_handle [OF inv] by blast
  have "h2 \<noteq> h" using h2(1) h f(4) by auto
  then show False using held_exclusion [OF inv h h2(1)] h2(2) by simp
qed

theorem nomem_two_writers:
  assumes r: "os_reach True s" and h: "held s h = Some ((i, p), F_WRLCK)" and h': "held s h' = Some ((i, q), F_UNLCK)" "q \<noteq> p"
  shows "\<exists>s1 s2. sqliteOsOpenReadOnly h2 pid (Some i) False s = Some (SQLITE_NOMEM, s1) \<and>
    sqliteOsWriteLock h' q None s1 = Some (SQLITE_OK, s2) \<and> held s2 h = Some ((i, p), F_WRLCK) \<and> held s2 h' = Some ((i, q), F_WRLCK)"
proof -
  note inv = os_reach_ok [OF r]
  let ?d = "lowest (kern s)" and ?k = "kern s\<lparr>descr := (lowest (kern s), File i) # descr (kern s)\<rparr>"
  let ?s1 = "s\<lparr>kern := kclose ?d ?k\<rparr>"
  have open1: "sqliteOsOpenReadOnly h2 pid (Some i) False s = Some (SQLITE_NOMEM, ?s1)"
    using lowest_fresh(2) [of "kern s"]
    by (simp add: sqliteOsOpenReadOnly_def kopen_def register_file_def findLockInfo_def os_close_def)
  from held_parts [OF inv h'(1)] obtain f l c where
    f: "files s h' = Some f" "lockInfos s (pLock f) = Some l" "lkey l = (i, q)" "F_UNLCK = (if locked f then mode_of (cnt l) else F_UNLCK)" and
    c: "openCnts s (pOpen f) = Some c" "map_of (descr (kern s)) (fd f) = Some (File i)" by auto
  have lk: "\<not> locked f" using f(4) by (auto split: if_splits)
  have z: "cnt l = 0" by (rule kernel_own_count [OF inv h f(1-3) h'(2)])
  have "fd f \<noteq> ?d" using c(2) lowest_fresh(1) [of "kern s"] by auto
  then have d: "map_of (descr (kclose ?d ?k)) (fd f) = Some (File i)" using c(2) by (simp add: kclose_def map_of_remove)
  have nc: "\<not> conflict i q F_WRLCK (kclose ?d ?k)" by (auto simp: conflict_iff kclose_def)
  have w: "sqliteOsWriteLock h' q None ?s1 = Some (SQLITE_OK, relocked h' f l c True (-1) (nLock c + 1) (set_lock i q F_WRLCK (kclose ?d ?k)) ?s1)" (is "_ = Some (_, ?s2)")
    using writeLock_eq [of ?s1 h' f l c i q None] f c d nc z lk by simp
  have eq: "held ?s1 = held s" by (rule held_cong) simp_all
  have sole: "\<not> locked f'" if "h1 \<noteq> h'" "files s h1 = Some f'" "pLock f' = pLock f" for h1 f'
    using sole_lock [OF inv f(1,2) _ that] z by blast
  have "held ?s2 = (held ?s1)(h' \<mapsto> (lkey l, F_WRLCK))"
    using held_relocked [of ?s1 h' f l "-1" c True "nLock c + 1" "set_lock i q F_WRLCK (kclose ?d ?k)"] f(1,2) sole by simp
  moreover have "h \<noteq> h'" using h h' by auto
  ultimately have "held ?s2 h = Some ((i, p), F_WRLCK)" "held ?s2 h' = Some ((i, q), F_WRLCK)" using h f(3) eq by simp_all
  then show ?thesis using open1 w by blast
qed

text \<open>If the kernel refuses to unlock, the handle counts as unlocked all the same: its lock stays in
  the kernel, and no later call tries again.\<close>

theorem refused_unlock_stuck:
  assumes r: "os_reach False s" and h: "held s h = Some ((i, p), t)" "t \<noteq> F_UNLCK" and "files s h = Some f" "lockInfos s (pLock f) = Some l" "\<bar>cnt l\<bar> = 1"
  shows "\<exists>s'. sqliteOsUnlock h p (Some e) s = Some (lock_error e, s') \<and> held s' h = Some ((i, p), F_UNLCK) \<and>
    ((i, p), t) \<in> set (klocks (kern s')) \<and> sqliteOsUnlock h p None s' = Some (SQLITE_OK, s')"
proof -
  note inv = os_reach_ok [OF r]
  from held_parts [OF inv h(1)] assms(4,5) obtain c where
    l: "lkey l = (i, p)" "t = (if locked f then mode_of (cnt l) else F_UNLCK)" and
    c: "openCnts s (pOpen f) = Some c" "map_of (descr (kern s)) (fd f) = Some (File i)" by auto
  have lk: "locked f" using h(2) l(2) by (cases "locked f") simp_all
  have one: "\<not> 1 < cnt l" "cnt l \<noteq> 0" using assms(6) by auto
  have u: "sqliteOsUnlock h p (Some e) s = Some (lock_error e, put_file h (f\<lparr>locked := False\<rparr>) s)"
    using assms(4,5) one lk c by (simp add: sqliteOsUnlock_def fcntl_file assertion_def lock_error_def)
  have "held (put_file h (f\<lparr>locked := False\<rparr>) s) h = Some ((i, p), F_UNLCK)" using assms(5) l(1) by (simp add: put_file_def held_put)
  moreover have "((i, p), t) \<in> set (klocks (kern (put_file h (f\<lparr>locked := False\<rparr>) s)))"
    using handle_lock_in_kernel [OF inv h] by (simp add: put_file_def)
  moreover have "sqliteOsUnlock h p None (put_file h (f\<lparr>locked := False\<rparr>) s) = Some (SQLITE_OK, put_file h (f\<lparr>locked := False\<rparr>) s)"
    by (simp add: sqliteOsUnlock_def put_file_def)
  ultimately show ?thesis using u by blast
qed

text \<open>If the array of deferred descriptors cannot grow, the loop that closes them reads behind it.\<close>

theorem failed_realloc_over_read:
  assumes "openCnts s q = Some c" "nLock c = 1" "nPending c = int (length (aPending c))"
  shows "\<exists>s'. defer_close q d False s = Some s' \<and> drop_lock q s' = None"
proof -
  have "close_pending (Suc (length ds - i)) i ds s = None" if "i \<le> length ds" for i ds and s :: os_state
    using that
  proof (induction "length ds - i" arbitrary: i s)
    case 0
    then show ?case by simp
  next
    case (Suc n)
    then have "length ds - i = Suc (length ds - Suc i)" "i < length ds" "n = length ds - Suc i" by simp_all
    then show ?case using Suc.hyps(1) [of "Suc i"] Suc.prems by simp
  qed
  from this [of 0 "aPending c"] show ?thesis
    using assms by (simp add: defer_close_def drop_lock_def assertion_def nat_add_distrib)
qed

end
