(* ===== verification/Files.thy ===== *)
theory Files
  imports Prng Hash "HOL-Library.Monad_Syntax"
begin

text \<open>
  Reading and writing files in \<^verbatim>\<open>sqlite/os.c\<close> under Unix: an open file is its content and the
  position of its descriptor. What the kernel does with each call (all of it, a part of it, nothing) is an
  argument, so that a full disk, a failed read or a failed sync are choices of the caller. The
  lemmas say what a file reads as, page by page, after writes and truncations.
\<close>

section \<open>Result codes and pages\<close>

datatype result =
    SQLITE_OK | SQLITE_ERROR | SQLITE_INTERNAL | SQLITE_PERM | SQLITE_BUSY | SQLITE_NOMEM | SQLITE_IOERR
  | SQLITE_CORRUPT | SQLITE_FULL | SQLITE_CANTOPEN | SQLITE_PROTOCOL | SQLITE_DONE

type_synonym bytes = "u8 list"

definition SQLITE_PAGE_SIZE :: nat where
  "SQLITE_PAGE_SIZE = 1024"

lemma page_size_pos [simp]: "0 < SQLITE_PAGE_SIZE" "SQLITE_PAGE_SIZE \<noteq> 0"
  by (simp_all add: SQLITE_PAGE_SIZE_def)

section \<open>Calls of the kernel\<close>

text \<open>
  The outcome of one call: \<open>Done\<close> does all that was asked for, \<open>Part n\<close> transfers at most \<open>n\<close>
  bytes and \<open>Refused\<close> returns an error. A list of outcomes that is used up goes on with \<open>Done\<close>.
\<close>

datatype outcome = Done | Part nat | Refused

fun transferred :: "outcome \<Rightarrow> nat \<Rightarrow> nat" where
  "transferred Done n = n"
| "transferred (Part k) n = min k n"
| "transferred Refused n = 0"

record disk_file =
  fbytes :: bytes
  fpos :: nat

definition put_at :: "nat \<Rightarrow> bytes \<Rightarrow> bytes \<Rightarrow> bytes" where
  \<comment> \<open>bytes written at a position; a gap behind the old end reads as zeros\<close>
  "put_at i d b = take i b @ replicate (i - length b) 0 @ d @ drop (i + length d) b"

definition resize :: "nat \<Rightarrow> bytes \<Rightarrow> bytes" where
  "resize n b = take n b @ replicate (n - length b) 0"

definition kwrite :: "bytes \<Rightarrow> disk_file \<Rightarrow> disk_file" where
  "kwrite d f = f\<lparr>fbytes := put_at (fpos f) d (fbytes f), fpos := fpos f + length d\<rparr>"

text \<open>The bytes that \<^verbatim>\<open>read\<close> has stored in the buffer, if it is less than asked for, are returned too.\<close>

definition sqliteOsRead :: "outcome \<Rightarrow> nat \<Rightarrow> disk_file \<Rightarrow> result \<times> bytes \<times> disk_file" where
  "sqliteOsRead k amt f =
     (let got = take (transferred k (min amt (length (fbytes f) - fpos f))) (drop (fpos f) (fbytes f))
      in (if length got = amt then SQLITE_OK else SQLITE_IOERR, got, f\<lparr>fpos := fpos f + length got\<rparr>))"

text \<open>The loop of \<^verbatim>\<open>sqliteOsWrite\<close>: it goes on as long as \<^verbatim>\<open>write\<close> makes progress.\<close>

fun write_loop :: "outcome list \<Rightarrow> bytes \<Rightarrow> disk_file \<Rightarrow> bytes \<times> disk_file \<times> outcome list" where
  "write_loop ks [] f = ([], f, ks)"
| "write_loop [] d f = ([], kwrite d f, [])"
| "write_loop (k # ks) d f =
     (let wrote = transferred k (length d)
      in if wrote > 0 then write_loop ks (drop wrote d) (kwrite (take wrote d) f) else (d, f, ks))"

definition sqliteOsWrite :: "outcome list \<Rightarrow> bytes \<Rightarrow> disk_file \<Rightarrow> result \<times> disk_file \<times> outcome list" where
  "sqliteOsWrite ks d f =
     (let (rest, f, ks) = write_loop ks d f in (if length rest > 0 then SQLITE_FULL else SQLITE_OK, f, ks))"

definition sqliteOsSeek :: "nat \<Rightarrow> disk_file \<Rightarrow> disk_file" where
  "sqliteOsSeek offset f = f\<lparr>fpos := offset\<rparr>"

definition sqliteOsSync :: "outcome \<Rightarrow> result" where
  "sqliteOsSync k = (if k = Refused then SQLITE_IOERR else SQLITE_OK)"

definition sqliteOsTruncate :: "outcome \<Rightarrow> nat \<Rightarrow> disk_file \<Rightarrow> result \<times> disk_file" where
  "sqliteOsTruncate k n f =
     (if k = Refused then (SQLITE_IOERR, f) else (SQLITE_OK, f\<lparr>fbytes := resize n (fbytes f)\<rparr>))"

definition sqliteOsFileSize :: "outcome \<Rightarrow> disk_file \<Rightarrow> result \<times> nat" where
  "sqliteOsFileSize k f = (if k = Refused then (SQLITE_IOERR, 0) else (SQLITE_OK, length (fbytes f)))"

section \<open>Integers in files\<close>

definition be32 :: "u32 \<Rightarrow> bytes" where
  \<comment> \<open>ac[0] = (val>>24) \& 0xff; ... ac[3] = val \& 0xff\<close>
  "be32 w = [ucast (drop_bit 24 w), ucast (drop_bit 16 w), ucast (drop_bit 8 w), ucast w]"

definition from_be32 :: "bytes \<Rightarrow> u32" where
  \<comment> \<open>(ac[0]<<24) | (ac[1]<<16) | (ac[2]<<8) | ac[3]\<close>
  "from_be32 ac = push_bit 24 (ucast (ac ! 0)) OR push_bit 16 (ucast (ac ! 1)) OR push_bit 8 (ucast (ac ! 2)) OR ucast (ac ! 3)"

definition native32 :: "bytes \<Rightarrow> u32" where
  \<comment> \<open>an integer in the byte order of the host, least significant byte first\<close>
  "native32 ac = from_be32 (rev ac)"

text \<open>\<^verbatim>\<open>(int)n\<close> of a 32-bit unsigned number.\<close>

definition i32 :: "nat \<Rightarrow> int" where
  "i32 n = sint (word_of_nat n :: u32)"


lemma i32_small: "n < 2 ^ 31 \<Longrightarrow> i32 n = int n"
  by (simp add: i32_def signed_of_nat signed_take_bit_int_eq_self)

lemma be32_length [simp]: "length (be32 w) = 4"
  by (simp add: be32_def)

lemma from_be32 [simp]: "from_be32 (be32 w) = w"
proof (rule bit_word_eqI)
  fix n assume "n < LENGTH(32)"
  then consider "n < 8" | "8 \<le> n" "n < 16" | "16 \<le> n" "n < 24" | "24 \<le> n" "n < 32" by fastforce
  then show "bit (from_be32 (be32 w)) n \<longleftrightarrow> bit w n"
    by cases (auto simp: from_be32_def be32_def bit_simps)
qed

section \<open>Pages of a file\<close>

text \<open>What lies behind the end of a file counts as zeros.\<close>

definition byte_at :: "bytes \<Rightarrow> nat \<Rightarrow> u8" where
  "byte_at b i = (if i < length b then b ! i else 0)"

definition page_at :: "bytes \<Rightarrow> nat \<Rightarrow> bytes" where
  "page_at b n = map (\<lambda>i. byte_at b ((n - 1) * SQLITE_PAGE_SIZE + i)) [0..<SQLITE_PAGE_SIZE]"

lemma page_at_length [simp]: "length (page_at b n) = SQLITE_PAGE_SIZE"
  by (simp add: page_at_def)

lemma page_at_eqI: "(\<And>i. i < SQLITE_PAGE_SIZE \<Longrightarrow> byte_at b ((n - 1) * SQLITE_PAGE_SIZE + i) = byte_at c ((m - 1) * SQLITE_PAGE_SIZE + i)) \<Longrightarrow> page_at b n = page_at c m"
  by (simp add: page_at_def)

lemma put_at_length: "length (put_at i d b) = max (length b) (i + length d)"
  by (auto simp: put_at_def)

lemma byte_put_at: "byte_at (put_at i d b) j = (if i \<le> j \<and> j < i + length d then d ! (j - i) else byte_at b j)"
  by (auto simp: byte_at_def put_at_def nth_append min_def)

lemma resize_length [simp]: "length (resize n b) = n"
  by (simp add: resize_def)

lemma byte_resize: "byte_at (resize n b) j = (if j < n then byte_at b j else 0)"
  by (auto simp: byte_at_def resize_def nth_append min_def)

lemma page_bounds:
  assumes "0 < n" "0 < m" "i < SQLITE_PAGE_SIZE"
  shows "(n - 1) * SQLITE_PAGE_SIZE \<le> (m - 1) * SQLITE_PAGE_SIZE + i \<and>
         (m - 1) * SQLITE_PAGE_SIZE + i < (n - 1) * SQLITE_PAGE_SIZE + SQLITE_PAGE_SIZE \<longleftrightarrow> m = n"
proof
  assume a: "(n - 1) * SQLITE_PAGE_SIZE \<le> (m - 1) * SQLITE_PAGE_SIZE + i \<and>
         (m - 1) * SQLITE_PAGE_SIZE + i < (n - 1) * SQLITE_PAGE_SIZE + SQLITE_PAGE_SIZE"
  have "((m - 1) * SQLITE_PAGE_SIZE + i) div SQLITE_PAGE_SIZE = n - 1"
    by (rule div_nat_eqI) (use a in \<open>simp_all add: mult.commute\<close>)
  moreover have "((m - 1) * SQLITE_PAGE_SIZE + i) div SQLITE_PAGE_SIZE = m - 1" using assms by simp
  ultimately show "m = n" using assms by linarith
qed (use assms in auto)

lemma page_put_at:
  assumes "length d = SQLITE_PAGE_SIZE" "0 < n" "0 < m"
  shows "page_at (put_at ((n - 1) * SQLITE_PAGE_SIZE) d b) m = (if m = n then d else page_at b m)"
proof (rule nth_equalityI)
  fix i assume "i < length (page_at (put_at ((n - 1) * SQLITE_PAGE_SIZE) d b) m)"
  then have i: "i < SQLITE_PAGE_SIZE" by simp
  have "page_at (put_at ((n - 1) * SQLITE_PAGE_SIZE) d b) m ! i
      = (if m = n then d ! ((m - 1) * SQLITE_PAGE_SIZE + i - (n - 1) * SQLITE_PAGE_SIZE) else byte_at b ((m - 1) * SQLITE_PAGE_SIZE + i))"
    using page_bounds [OF assms(2,3) i] i assms(1) by (simp only: page_at_def byte_put_at nth_map length_upt diff_zero nth_upt add_0)
  then show "page_at (put_at ((n - 1) * SQLITE_PAGE_SIZE) d b) m ! i = (if m = n then d else page_at b m) ! i"
    using i by (simp add: page_at_def)
qed (use assms in simp)

lemma page_resize:
  assumes "0 < n" "n \<le> k"
  shows "page_at (resize (SQLITE_PAGE_SIZE * k) b) n = page_at b n"
proof (rule page_at_eqI)
  fix i assume i: "i < SQLITE_PAGE_SIZE"
  have "(n - 1) * SQLITE_PAGE_SIZE + i < (n - 1) * SQLITE_PAGE_SIZE + SQLITE_PAGE_SIZE" using i by simp
  also have "\<dots> = n * SQLITE_PAGE_SIZE" using assms by (cases n) simp_all
  also have "\<dots> \<le> SQLITE_PAGE_SIZE * k" using assms by (simp add: mult.commute)
  finally show "byte_at (resize (SQLITE_PAGE_SIZE * k) b) ((n - 1) * SQLITE_PAGE_SIZE + i) = byte_at b ((n - 1) * SQLITE_PAGE_SIZE + i)"
    by (simp add: byte_resize)
qed

lemma pages_eqI:
  assumes "length b = k * SQLITE_PAGE_SIZE" "length c = k * SQLITE_PAGE_SIZE"
    and "\<And>n. 0 < n \<Longrightarrow> n \<le> k \<Longrightarrow> page_at b n = page_at c n"
  shows "b = c"
proof (rule nth_equalityI)
  fix j assume j: "j < length b"
  define n i where "n = j div SQLITE_PAGE_SIZE + 1" and "i = j mod SQLITE_PAGE_SIZE"
  have j_eq: "j = (n - 1) * SQLITE_PAGE_SIZE + i" and i: "i < SQLITE_PAGE_SIZE" by (simp_all add: n_def i_def)
  have "j div SQLITE_PAGE_SIZE < k" using j assms(1) by (simp add: less_mult_imp_div_less)
  then have "page_at b n ! i = page_at c n ! i" using assms(3) [of n] by (simp add: n_def)
  then have "byte_at b j = byte_at c j" using i by (simp add: page_at_def j_eq)
  then show "b ! j = c ! j" using j assms by (simp add: byte_at_def)
qed (use assms in simp)

lemma page_end: "0 < n \<Longrightarrow> (n - 1) * SQLITE_PAGE_SIZE + SQLITE_PAGE_SIZE = n * SQLITE_PAGE_SIZE"
  by (cases n) simp_all

lemma page_slice:
  assumes "0 < n" "n * SQLITE_PAGE_SIZE \<le> length b"
  shows "take SQLITE_PAGE_SIZE (drop ((n - 1) * SQLITE_PAGE_SIZE) b) = page_at b n"
proof (rule nth_equalityI)
  have e: "(n - 1) * SQLITE_PAGE_SIZE + SQLITE_PAGE_SIZE \<le> length b" using page_end [OF assms(1)] assms(2) by simp
  then show "length (take SQLITE_PAGE_SIZE (drop ((n - 1) * SQLITE_PAGE_SIZE) b)) = length (page_at b n)" by simp
  fix i assume "i < length (take SQLITE_PAGE_SIZE (drop ((n - 1) * SQLITE_PAGE_SIZE) b))"
  then have i: "i < SQLITE_PAGE_SIZE" by simp
  then show "take SQLITE_PAGE_SIZE (drop ((n - 1) * SQLITE_PAGE_SIZE) b) ! i = page_at b n ! i"
    using e by (simp add: page_at_def byte_at_def)
qed

lemma page_behind:
  assumes "length b \<le> (n - 1) * SQLITE_PAGE_SIZE"
  shows "page_at b n = replicate SQLITE_PAGE_SIZE 0"
  using assms by (simp add: page_at_def byte_at_def map_replicate_const)

end
