(* ===== verification/Pager.thy ===== *)
theory Pager
  imports Files
begin

text \<open>
  The page cache of \<^verbatim>\<open>sqlite/pager.c\<close>: pages of a database file in memory, the rollback
  journal and the checkpoint journal. A page is known by its number: the pointers of the source to pages
  and the hash table are lookups by number, its doubly linked lists are lists. \<open>None\<close> is a failed
  assertion, a bit outside an array or a page that is gone. Integers that count pages keep the
  signed or unsigned reading the code gives them. There is no codec and no destructor.
\<close>

section \<open>The pager\<close>

datatype lock_state = SQLITE_UNLOCK | SQLITE_READLOCK | SQLITE_WRITELOCK

record pghdr =
  pgno :: nat
  pdata :: bytes
  pextra :: bytes
  pnRef :: nat
  inJournal :: bool
  inCkpt :: bool
  dirty :: bool
  pneedSync :: bool
  palwaysRollback :: bool

text \<open>
  \<open>jfd\<close> is the file that the journal descriptor is open on, and \<open>jname\<close> whether the name of the
  journal leads to it; \<open>flock\<close> is the lock the process has on the database file. \<open>outs\<close> are the
  outcomes of the next calls of the kernel and the allocator, \<open>heap\<close> the content of fresh memory.
\<close>

record pager =
  zFilename :: string
  zJournal :: string
  zDirectory :: string
  fd :: disk_file
  jfd :: disk_file
  jname :: bool
  cpfd :: disk_file
  dbSize :: int
  origDbSize :: int
  ckptSize :: int
  ckptJSize :: nat
  nRec :: nat
  cksumInit :: u32
  ckptNRec :: nat
  nExtra :: nat
  nPage :: nat
  nRef :: nat
  mxPage :: int
  journalOpen :: bool
  journalStarted :: bool
  useJournal :: bool
  ckptOpen :: bool
  ckptInUse :: bool
  ckptAutoopen :: bool
  noSync :: bool
  fullSync :: bool
  state :: lock_state
  errMask :: u8
  tempFile :: bool
  readOnly :: bool
  needSync :: bool
  dirtyFile :: bool
  alwaysRollback :: bool
  aInJournal :: "bool list option"
  aInCkpt :: "bool list option"
  pFree :: "nat list"
  pFirstSynced :: "nat option"
  pAll :: "pghdr list"
  pCkpt :: "nat list"
  flock :: lock_state
  outs :: "outcome list"
  heap :: bytes
  rng :: prng
  seed :: bytes

definition PAGER_ERR_FULL :: u8 where "PAGER_ERR_FULL = 0x01"
definition PAGER_ERR_MEM :: u8 where "PAGER_ERR_MEM = 0x02"
definition PAGER_ERR_LOCK :: u8 where "PAGER_ERR_LOCK = 0x04"
definition PAGER_ERR_CORRUPT :: u8 where "PAGER_ERR_CORRUPT = 0x08"
definition PAGER_ERR_DISK :: u8 where "PAGER_ERR_DISK = 0x10"

lemmas err_defs = PAGER_ERR_FULL_def PAGER_ERR_MEM_def PAGER_ERR_LOCK_def PAGER_ERR_CORRUPT_def PAGER_ERR_DISK_def

definition pager_errcode :: "pager \<Rightarrow> result" where
  "pager_errcode p =
     (let rc = SQLITE_OK;
          rc = if errMask p AND PAGER_ERR_LOCK \<noteq> 0 then SQLITE_PROTOCOL else rc;
          rc = if errMask p AND PAGER_ERR_DISK \<noteq> 0 then SQLITE_IOERR else rc;
          rc = if errMask p AND PAGER_ERR_FULL \<noteq> 0 then SQLITE_FULL else rc;
          rc = if errMask p AND PAGER_ERR_MEM \<noteq> 0 then SQLITE_NOMEM else rc;
          rc = if errMask p AND PAGER_ERR_CORRUPT \<noteq> 0 then SQLITE_CORRUPT else rc
      in rc)"

definition raise :: "u8 \<Rightarrow> pager \<Rightarrow> pager" where
  "raise e p = p\<lparr>errMask := errMask p OR e\<rparr>"

section \<open>Calls into the operating system layer\<close>

definition outcome :: "pager \<Rightarrow> outcome \<times> pager" where
  "outcome p = (case outs p of [] \<Rightarrow> (Done, p) | k # ks \<Rightarrow> (k, p\<lparr>outs := ks\<rparr>))"

definition db_read :: "nat \<Rightarrow> pager \<Rightarrow> result \<times> bytes \<times> pager" where
  "db_read amt p =
     (let (k, p) = outcome p; (rc, d, f) = sqliteOsRead k amt (fd p) in (rc, d, p\<lparr>fd := f\<rparr>))"

definition db_write :: "bytes \<Rightarrow> pager \<Rightarrow> result \<times> pager" where
  "db_write d p = (let (rc, f, ks) = sqliteOsWrite (outs p) d (fd p) in (rc, p\<lparr>fd := f, outs := ks\<rparr>))"

definition db_seek :: "nat \<Rightarrow> pager \<Rightarrow> pager" where
  "db_seek n p = p\<lparr>fd := sqliteOsSeek n (fd p)\<rparr>"

definition db_truncate :: "nat \<Rightarrow> pager \<Rightarrow> result \<times> pager" where
  "db_truncate n p = (let (k, p) = outcome p; (rc, f) = sqliteOsTruncate k n (fd p) in (rc, p\<lparr>fd := f\<rparr>))"

definition db_size :: "pager \<Rightarrow> result \<times> nat \<times> pager" where
  "db_size p = (let (k, p) = outcome p; (rc, n) = sqliteOsFileSize k (fd p) in (rc, n, p))"

definition db_sync :: "pager \<Rightarrow> result \<times> pager" where
  "db_sync p = (let (k, p) = outcome p in (sqliteOsSync k, p))"

definition j_read :: "nat \<Rightarrow> pager \<Rightarrow> result \<times> bytes \<times> pager" where
  "j_read amt p =
     (let (k, p) = outcome p; (rc, d, f) = sqliteOsRead k amt (jfd p) in (rc, d, p\<lparr>jfd := f\<rparr>))"

definition j_write :: "bytes \<Rightarrow> pager \<Rightarrow> result \<times> pager" where
  "j_write d p = (let (rc, f, ks) = sqliteOsWrite (outs p) d (jfd p) in (rc, p\<lparr>jfd := f, outs := ks\<rparr>))"

definition j_seek :: "nat \<Rightarrow> pager \<Rightarrow> pager" where
  "j_seek n p = p\<lparr>jfd := sqliteOsSeek n (jfd p)\<rparr>"

definition j_size :: "pager \<Rightarrow> result \<times> nat \<times> pager" where
  "j_size p = (let (k, p) = outcome p; (rc, n) = sqliteOsFileSize k (jfd p) in (rc, n, p))"

definition j_sync :: "pager \<Rightarrow> result \<times> pager" where
  "j_sync p = (let (k, p) = outcome p in (sqliteOsSync k, p))"

definition cp_read :: "nat \<Rightarrow> pager \<Rightarrow> result \<times> bytes \<times> pager" where
  "cp_read amt p =
     (let (k, p) = outcome p; (rc, d, f) = sqliteOsRead k amt (cpfd p) in (rc, d, p\<lparr>cpfd := f\<rparr>))"

definition cp_write :: "bytes \<Rightarrow> pager \<Rightarrow> result \<times> pager" where
  "cp_write d p = (let (rc, f, ks) = sqliteOsWrite (outs p) d (cpfd p) in (rc, p\<lparr>cpfd := f, outs := ks\<rparr>))"

definition cp_seek :: "nat \<Rightarrow> pager \<Rightarrow> pager" where
  "cp_seek n p = p\<lparr>cpfd := sqliteOsSeek n (cpfd p)\<rparr>"

text \<open>
  Locks, as \<open>OsUnix\<close> has them for a handle; a request that the layer refuses is \<^verbatim>\<open>SQLITE_BUSY\<close>.
\<close>

definition os_lock :: "lock_state \<Rightarrow> pager \<Rightarrow> result \<times> pager" where
  "os_lock m p = (let (k, p) = outcome p in if k = Refused then (SQLITE_BUSY, p) else (SQLITE_OK, p\<lparr>flock := m\<rparr>))"

definition open_exclusive :: "pager \<Rightarrow> result \<times> pager" where
  \<comment> \<open>sqliteOsOpenExclusive(zJournal, \&jfd, tempFile): a temporary file loses its name at once\<close>
  "open_exclusive p =
     (if jname p then (SQLITE_CANTOPEN, p)
      else let (k, p) = outcome p
           in if k = Refused then (SQLITE_CANTOPEN, p)
              else (SQLITE_OK, p\<lparr>jfd := \<lparr>fbytes = [], fpos = 0\<rparr>, jname := \<not> tempFile p\<rparr>))"

definition open_readonly :: "pager \<Rightarrow> result \<times> pager" where
  \<comment> \<open>sqliteOsOpenReadOnly(zJournal, \&jfd)\<close>
  "open_readonly p =
     (let (k, p) = outcome p
      in if k = Refused \<or> \<not> jname p then (SQLITE_CANTOPEN, p) else (SQLITE_OK, p\<lparr>jfd := (jfd p)\<lparr>fpos := 0\<rparr>\<rparr>))"

definition os_malloc :: "pager \<Rightarrow> bool \<times> pager" where
  "os_malloc p = (let (k, p) = outcome p in (k \<noteq> Refused, p))"

section \<open>Formats\<close>

definition aJournalMagic1 :: bytes where
  "aJournalMagic1 = [0xd9, 0xd5, 0x05, 0xf9, 0x20, 0xa1, 0x63, 0xd4]"
definition aJournalMagic2 :: bytes where
  "aJournalMagic2 = [0xd9, 0xd5, 0x05, 0xf9, 0x20, 0xa1, 0x63, 0xd5]"
definition aJournalMagic3 :: bytes where
  "aJournalMagic3 = [0xd9, 0xd5, 0x05, 0xf9, 0x20, 0xa1, 0x63, 0xd6]"

definition JOURNAL_HDR_SZ :: "nat \<Rightarrow> nat" where
  "JOURNAL_HDR_SZ x = 8 + 4 + (if x \<ge> 3 then 2 * 4 else 0)"

definition JOURNAL_PG_SZ :: "nat \<Rightarrow> nat" where
  "JOURNAL_PG_SZ x = SQLITE_PAGE_SIZE + 4 + (if x \<ge> 3 then 4 else 0)"

text \<open>Which descriptor a playback reads: the rollback journal or the checkpoint journal.\<close>

datatype journal = JFD | CPFD

fun jrn_read :: "journal \<Rightarrow> nat \<Rightarrow> pager \<Rightarrow> result \<times> bytes \<times> pager" where
  "jrn_read JFD n p = j_read n p"
| "jrn_read CPFD n p = cp_read n p"

definition read32bits :: "nat \<Rightarrow> journal \<Rightarrow> pager \<Rightarrow> result \<times> u32 \<times> pager" where
  "read32bits format j p =
     (let (rc, res, p) = jrn_read j 4 p
      in if rc = SQLITE_OK then (rc, if format > 1 then from_be32 res else native32 res, p) else (rc, 0, p))"

definition write32bits :: "u32 \<Rightarrow> pager \<Rightarrow> result \<times> pager" where
  "write32bits val p = j_write (be32 val) p"

text \<open>
  \<open>buf\<close> is the memory around a page from four bytes before its data on, so that the offset in the
  source is four less.
\<close>

definition store32bits :: "u32 \<Rightarrow> bytes \<Rightarrow> nat \<Rightarrow> bytes" where
  "store32bits val buf off = take off buf @ be32 val @ drop (off + 4) buf"

definition pager_cksum :: "pager \<Rightarrow> nat \<Rightarrow> u32" where
  "pager_cksum p n = cksumInit p + word_of_nat n"

section \<open>Lists of pages\<close>

definition pager_lookup :: "pager \<Rightarrow> nat \<Rightarrow> pghdr option" where
  "pager_lookup p n = find (\<lambda>g. pgno g = n) (pAll p)"

definition on_page :: "nat \<Rightarrow> (pghdr \<Rightarrow> pghdr) \<Rightarrow> pager \<Rightarrow> pager" where
  "on_page n f p = p\<lparr>pAll := map (\<lambda>g. if pgno g = n then f g else g) (pAll p)\<rparr>"

definition page_add_to_ckpt_list :: "nat \<Rightarrow> pager \<Rightarrow> pager option" where
  "page_add_to_ckpt_list n p = do {
     g \<leftarrow> pager_lookup p n;
     if inCkpt g then Some p
     else Some ((on_page n (\<lambda>g. g\<lparr>inCkpt := True\<rparr>) p)\<lparr>pCkpt := n # pCkpt p\<rparr>) }"

definition page_remove_from_ckpt_list :: "nat \<Rightarrow> pager \<Rightarrow> pager option" where
  "page_remove_from_ckpt_list n p = do {
     g \<leftarrow> pager_lookup p n;
     if \<not> inCkpt g then Some p
     else do {
       assertion (n \<in> set (pCkpt p));
       Some ((on_page n (\<lambda>g. g\<lparr>inCkpt := False\<rparr>) p)\<lparr>pCkpt := remove1 n (pCkpt p)\<rparr>) } }"

text \<open>The first page of a part of the free list that needs no sync.\<close>

definition next_synced :: "pager \<Rightarrow> nat list \<Rightarrow> nat option" where
  "next_synced p ns = find (\<lambda>n. case pager_lookup p n of Some g \<Rightarrow> \<not> pneedSync g | None \<Rightarrow> False) ns"

definition behind :: "nat \<Rightarrow> nat list \<Rightarrow> nat list" where
  "behind n ns = tl (dropWhile (\<lambda>x. x \<noteq> n) ns)"

text \<open>Taking a page off the free list, as \<^verbatim>\<open>_page_ref\<close> and the recycling of a page do it.\<close>

definition unlink_free :: "nat \<Rightarrow> pager \<Rightarrow> pager" where
  "unlink_free n p =
     (let p = if pFirstSynced p = Some n then p\<lparr>pFirstSynced := next_synced p (behind n (pFree p))\<rparr> else p
      in p\<lparr>pFree := remove1 n (pFree p)\<rparr>)"

definition page_ref :: "nat \<Rightarrow> pager \<Rightarrow> pager option" where
  "page_ref n p = do {
     g \<leftarrow> pager_lookup p n;
     let p = (if pnRef g = 0 then (unlink_free n p)\<lparr>nRef := nRef p + 1\<rparr> else p);
     Some (on_page n (\<lambda>g. g\<lparr>pnRef := pnRef g + 1\<rparr>) p) }"

definition sqlitepager_ref :: "nat \<Rightarrow> pager \<Rightarrow> (result \<times> pager) option" where
  "sqlitepager_ref n p = do { p \<leftarrow> page_ref n p; Some (SQLITE_OK, p) }"

definition bit_at :: "bool list \<Rightarrow> nat \<Rightarrow> bool option" where
  "bit_at a n = (if n < length a then Some (a ! n) else None)"

definition set_bit_at :: "nat \<Rightarrow> bool list \<Rightarrow> bool list option" where
  "set_bit_at n a = (if n < length a then Some (a[n := True]) else None)"

text \<open>\<^verbatim>\<open>sqliteMalloc( dbSize/8 + 1 )\<close>: whole bytes of cleared bits.\<close>

definition bit_array :: "int \<Rightarrow> bool list" where
  "bit_array n = replicate (8 * (nat n div 8 + 1)) False"

section \<open>Ending a transaction\<close>

fun clear_ckpt :: "nat list \<Rightarrow> pager \<Rightarrow> pager option" where
  "clear_ckpt [] p = Some p"
| "clear_ckpt (n # ns) p = do {
     g \<leftarrow> pager_lookup p n;
     assertion (inCkpt g);
     clear_ckpt ns (on_page n (\<lambda>g. g\<lparr>inCkpt := False\<rparr>) p) }"

definition sqlitepager_ckpt_commit :: "pager \<Rightarrow> pager option" where
  "sqlitepager_ckpt_commit p = do {
     p \<leftarrow> (if ckptInUse p then do {
             let p = (cp_seek 0 p)\<lparr>ckptNRec := 0, ckptInUse := False, aInCkpt := None\<rparr>;
             p \<leftarrow> clear_ckpt (pCkpt p) p;
             Some (p\<lparr>pCkpt := []\<rparr>) }
           else Some p);
     Some (p\<lparr>ckptAutoopen := False\<rparr>) }"

definition close_journal :: "pager \<Rightarrow> pager" where
  \<comment> \<open>the journal is closed and deleted, and no page is in it\<close>
  "close_journal p = p\<lparr>journalOpen := False, jname := False, aInJournal := None,
     pAll := map (\<lambda>g. g\<lparr>inJournal := False, dirty := False, pneedSync := False\<rparr>) (pAll p)\<rparr>"

definition pager_unwritelock :: "pager \<Rightarrow> (result \<times> pager) option" where
  "pager_unwritelock p =
     (if state p \<noteq> SQLITE_WRITELOCK then Some (SQLITE_OK, p)
      else do {
        p \<leftarrow> sqlitepager_ckpt_commit p;
        let p = p\<lparr>ckptOpen := False\<rparr>;
        p \<leftarrow> (if journalOpen p then Some (close_journal p)
              else do { assertion (\<not> dirtyFile p \<or> \<not> useJournal p); Some p });
        let (rc, p) = os_lock SQLITE_READLOCK p;
        Some (rc, p\<lparr>state := if rc = SQLITE_OK then SQLITE_READLOCK else SQLITE_UNLOCK\<rparr>) })"

section \<open>Playing a journal back\<close>

definition restore_page :: "bytes \<Rightarrow> pghdr \<Rightarrow> pghdr" where
  \<comment> \<open>the data of a page in memory is replaced and its extra bytes are cleared\<close>
  "restore_page d g = g\<lparr>pdata := d, pextra := replicate (length (pextra g)) 0\<rparr>"

definition pager_playback_one_page :: "journal \<Rightarrow> nat \<Rightarrow> pager \<Rightarrow> (result \<times> pager) option" where
  "pager_playback_one_page j format p =
     (let (rc, n, p) = read32bits format j p
      in if rc \<noteq> SQLITE_OK then Some (rc, p)
      else let (rc, d, p) = jrn_read j SQLITE_PAGE_SIZE p
      in if rc \<noteq> SQLITE_OK then Some (rc, p)
      else if n = 0 then Some (SQLITE_DONE, p)
      else if n > word_of_int (dbSize p) then Some (SQLITE_OK, p)
      else let (rc, cksum, p) = (if format \<ge> 3 then read32bits format j p else (SQLITE_OK, pager_cksum p (unat n), p))
      in if rc \<noteq> SQLITE_OK then Some (rc, p)
      else if pager_cksum p (unat n) \<noteq> cksum then Some (SQLITE_DONE, p)
      else let p = db_seek ((unat n - 1) * SQLITE_PAGE_SIZE) p; (rc, p) = db_write d p
      in case pager_lookup p (unat n) of
           None \<Rightarrow> Some (rc, p)
         | Some g \<Rightarrow> do {
             assertion (pnRef g = 0 \<or> pgno g = 1);
             Some (rc, on_page (unat n) (\<lambda>g. (restore_page d g)\<lparr>dirty := False, pneedSync := False\<rparr>) p) })"

fun playback_pages :: "nat \<Rightarrow> nat \<Rightarrow> pager \<Rightarrow> (result \<times> pager) option" where
  \<comment> \<open>the loop over the records of the rollback journal\<close>
  "playback_pages 0 format p = Some (SQLITE_OK, p)"
| "playback_pages (Suc k) format p = do {
     (rc, p) \<leftarrow> pager_playback_one_page JFD format p;
     if rc = SQLITE_OK then playback_pages k format p
     else Some (if rc = SQLITE_DONE then SQLITE_OK else rc, p) }"

definition refetch_page :: "nat \<Rightarrow> pager \<Rightarrow> (result \<times> pager) option" where
  "refetch_page n p = do {
     g \<leftarrow> pager_lookup p n;
     if \<not> dirty g then Some (SQLITE_OK, p)
     else do {
       let (rc, zBuf, p) = (if i32 n \<le> origDbSize p then db_read SQLITE_PAGE_SIZE (db_seek (SQLITE_PAGE_SIZE * (n - 1)) p)
                            else (SQLITE_OK, replicate SQLITE_PAGE_SIZE 0, p));
       if rc \<noteq> SQLITE_OK then Some (rc, p)
       else Some (SQLITE_OK, on_page n (\<lambda>g.
              (if pnRef g = 0 \<or> zBuf \<noteq> pdata g then restore_page zBuf g else g)\<lparr>dirty := False, pneedSync := False\<rparr>) p) } }"

fun refetch :: "nat list \<Rightarrow> pager \<Rightarrow> (result \<times> pager) option" where
  \<comment> \<open>the loop over the pages in memory that are still dirty\<close>
  "refetch [] p = Some (SQLITE_OK, p)"
| "refetch (n # ns) p = do {
     (rc, p) \<leftarrow> refetch_page n p;
     if rc \<noteq> SQLITE_OK then Some (rc, p) else refetch ns p }"

text \<open>The records of a journal whose header has been read, from the number of records on.\<close>

definition playback_from :: "nat \<Rightarrow> int \<Rightarrow> pager \<Rightarrow> (result \<times> pager) option" where
  "playback_from format nrec p = do {
     let (rc, mxPg, p) = read32bits format JFD p;
     if rc \<noteq> SQLITE_OK then Some (rc, p)
     else do {
       assertion (origDbSize p = 0 \<or> (word_of_int (origDbSize p) :: u32) = mxPg);
       let (rc, p) = db_truncate (SQLITE_PAGE_SIZE * unat mxPg) p;
       if rc \<noteq> SQLITE_OK then Some (rc, p)
       else do {
         (rc, p) \<leftarrow> playback_pages (nat nrec) format (p\<lparr>dbSize := sint mxPg\<rparr>);
         if rc \<noteq> SQLITE_OK then Some (rc, p) else refetch (map pgno (pAll p)) p } } }"

definition playback_header :: "bool \<Rightarrow> nat \<Rightarrow> bytes \<Rightarrow> pager \<Rightarrow> (result \<times> pager) option" where
  "playback_header useJournalSize szJ aMagic p =
     (if aMagic = aJournalMagic3 then
        if szJ < 8 + 3 * 4 then Some (SQLITE_OK, p)
        else let (rc, n, p) = read32bits 3 JFD p
        in if rc \<noteq> SQLITE_OK then Some (rc, p)
        else let (rc, c, p) = read32bits 3 JFD p; p = p\<lparr>cksumInit := c\<rparr>
        in if rc \<noteq> SQLITE_OK then Some (rc, p)
        else playback_from 3
               (if n = 0xffffffff \<or> useJournalSize then i32 ((szJ - JOURNAL_HDR_SZ 3) div JOURNAL_PG_SZ 3) else sint n) p
      else if aMagic = aJournalMagic2 \<or> aMagic = aJournalMagic1 then do {
        let n = i32 ((szJ - JOURNAL_HDR_SZ 2) div JOURNAL_PG_SZ 2);
        assertion (n * int (JOURNAL_PG_SZ 2) + int (JOURNAL_HDR_SZ 2) = int szJ);
        playback_from (if aMagic = aJournalMagic2 then 2 else 1) n p }
      else Some (SQLITE_PROTOCOL, p))"

definition playback_journal :: "bool \<Rightarrow> pager \<Rightarrow> (result \<times> pager) option" where
  \<comment> \<open>\<open>pager_playback\<close> up to the label \<^verbatim>\<open>end_playback\<close>\<close>
  "playback_journal useJournalSize p = do {
     assertion (journalOpen p);
     let p = j_seek 0 p;
     let (rc, szJ, p) = j_size p;
     if rc \<noteq> SQLITE_OK then Some (rc, p)
     else if szJ < 8 + 4 then Some (SQLITE_OK, p)
     else do {
       let (rc, aMagic, p) = j_read 8 p;
       if rc \<noteq> SQLITE_OK then Some (SQLITE_PROTOCOL, p)
       else playback_header useJournalSize szJ aMagic p } }"

definition pager_playback :: "bool \<Rightarrow> pager \<Rightarrow> (result \<times> pager) option" where
  "pager_playback useJournalSize p = do {
     (rc, p) \<leftarrow> playback_journal useJournalSize p;
     (rc', p) \<leftarrow> pager_unwritelock p;
     if rc \<noteq> SQLITE_OK then Some (SQLITE_CORRUPT, raise PAGER_ERR_CORRUPT p) else Some (rc', p) }"

text \<open>\<open>jrn_playback k j format p\<close> is a loop over \<open>k\<close> records of a checkpoint, in which none may be invalid.\<close>

fun ckpt_pages :: "nat \<Rightarrow> journal \<Rightarrow> nat \<Rightarrow> pager \<Rightarrow> (result \<times> pager) option" where
  "ckpt_pages 0 j format p = Some (SQLITE_OK, p)"
| "ckpt_pages (Suc k) j format p = do {
     (rc, p) \<leftarrow> pager_playback_one_page j format p;
     assertion (rc \<noteq> SQLITE_DONE);
     if rc \<noteq> SQLITE_OK then Some (rc, p) else ckpt_pages k j format p }"

definition pager_ckpt_playback :: "pager \<Rightarrow> (result \<times> pager) option" where
  "pager_ckpt_playback p = do {
     let (_, p) = db_truncate (SQLITE_PAGE_SIZE * nat (ckptSize p)) p;
     let p = p\<lparr>dbSize := ckptSize p\<rparr>;
     assertion (ckptInUse p \<and> journalOpen p);
     let p = cp_seek 0 p;
     (rc, p) \<leftarrow> ckpt_pages (ckptNRec p) CPFD 2 p;
     (rc, p) \<leftarrow> (if rc \<noteq> SQLITE_OK then Some (rc, p)
                else do {
                  let p = j_seek (ckptJSize p) p;
                  let (rc, szJ, p) = j_size p;
                  if rc \<noteq> SQLITE_OK then Some (rc, p)
                  else ckpt_pages ((szJ - ckptJSize p) div JOURNAL_PG_SZ 3) JFD 3 p });
     if rc \<noteq> SQLITE_OK then Some (SQLITE_CORRUPT, raise PAGER_ERR_CORRUPT p) else Some (rc, p) }"

definition sqlitepager_rollback :: "pager \<Rightarrow> (result \<times> pager) option" where
  "sqlitepager_rollback p =
     (if \<not> dirtyFile p \<or> \<not> journalOpen p then do {
        (rc, p) \<leftarrow> pager_unwritelock p;
        Some (rc, p\<lparr>dbSize := -1\<rparr>) }
      else if errMask p \<noteq> 0 \<and> errMask p \<noteq> PAGER_ERR_FULL then do {
        p \<leftarrow> (if state p = SQLITE_WRITELOCK then map_option snd (pager_playback True p) else Some p);
        Some (pager_errcode p, p) }
      else if state p \<noteq> SQLITE_WRITELOCK then Some (SQLITE_OK, p)
      else do {
        (rc, p) \<leftarrow> pager_playback True p;
        let (rc, p) = (if rc \<noteq> SQLITE_OK then (SQLITE_CORRUPT, raise PAGER_ERR_CORRUPT p) else (rc, p));
        Some (rc, p\<lparr>dbSize := -1\<rparr>) })"

definition pager_reset :: "pager \<Rightarrow> pager option" where
  "pager_reset p = do {
     let p = p\<lparr>pAll := [], pFree := [], pFirstSynced := None, nPage := 0\<rparr>;
     p \<leftarrow> (if state p = SQLITE_WRITELOCK then map_option snd (sqlitepager_rollback p) else Some p);
     let (_, p) = os_lock SQLITE_UNLOCK p;
     let p = p\<lparr>state := SQLITE_UNLOCK, dbSize := -1, nRef := 0\<rparr>;
     assertion (\<not> journalOpen p);
     Some p }"

section \<open>Opening and settings\<close>

definition sqlitepager_set_cachesize :: "int \<Rightarrow> pager \<Rightarrow> pager" where
  "sqlitepager_set_cachesize mx p =
     (let p = (if mx \<ge> 0 then
                 let p = p\<lparr>noSync := tempFile p\<rparr> in if \<not> noSync p then p\<lparr>needSync := False\<rparr> else p
               else p\<lparr>noSync := True\<rparr>);
          mx = (if mx \<ge> 0 then mx else - mx)
      in if mx > 10 then p\<lparr>mxPage := mx\<rparr> else p)"

definition sqlitepager_set_safety_level :: "int \<Rightarrow> pager \<Rightarrow> pager" where
  "sqlitepager_set_safety_level level p =
     (let p = p\<lparr>noSync := level = 1 \<or> tempFile p\<rparr>;
          p = p\<lparr>fullSync := level = 3 \<and> \<not> tempFile p\<rparr>
      in if \<not> noSync p then p\<lparr>needSync := False\<rparr> else p)"

text \<open>The outcomes of up to \<open>cnt + 1\<close> attempts to create a temporary file.\<close>

fun sqlitepager_opentemp :: "nat \<Rightarrow> outcome list \<Rightarrow> result \<times> outcome list" where
  "sqlitepager_opentemp cnt [] = (SQLITE_OK, [])"
| "sqlitepager_opentemp 0 (k # ks) = (if k = Refused then SQLITE_CANTOPEN else SQLITE_OK, ks)"
| "sqlitepager_opentemp (Suc cnt) (k # ks) = (if k = Refused then sqlitepager_opentemp cnt ks else (SQLITE_OK, ks))"

definition dirname :: "string \<Rightarrow> string" where
  \<comment> \<open>for(i=nameLen; i>0 \&\& zDirectory[i-1]!='/'; i--){} if( i>0 ) zDirectory[i-1] = 0\<close>
  "dirname z = (let d = dropWhile (\<lambda>c. c \<noteq> CHR ''/'') (rev z) in if d = [] then z else rev (tl d))"

text \<open>
  What the file system holds under a name: the content of the database file, whether it can only be read,
  and the journal beside it. \<open>full\<close> is \<^verbatim>\<open>sqliteOsFullPathname\<close>, \<open>oom\<close> the global
  \<^verbatim>\<open>sqlite_malloc_failed\<close>. An allocation that fails sets it too.
\<close>

record disk =
  dbContent :: bytes
  dbReadOnly :: bool
  hotJournal :: "bytes option"

definition new_pager :: "string \<Rightarrow> string \<Rightarrow> disk \<Rightarrow> bool \<Rightarrow> int \<Rightarrow> nat \<Rightarrow> bool \<Rightarrow> outcome list \<Rightarrow> bytes \<Rightarrow> prng \<Rightarrow> bytes \<Rightarrow> pager" where
  "new_pager full tempName d temp mx extra journal ks junk r sd =
     \<lparr>zFilename = full, zJournal = full @ ''-journal'', zDirectory = dirname full,
      fd = \<lparr>fbytes = if temp then [] else dbContent d, fpos = 0\<rparr>,
      jfd = \<lparr>fbytes = case hotJournal d of None \<Rightarrow> [] | Some b \<Rightarrow> b, fpos = 0\<rparr>, jname = (hotJournal d \<noteq> None),
      cpfd = \<lparr>fbytes = [], fpos = 0\<rparr>,
      dbSize = -1, origDbSize = 0, ckptSize = 0, ckptJSize = 0, nRec = 0, cksumInit = 0, ckptNRec = 0, nExtra = extra,
      nPage = 0, nRef = 0, mxPage = if mx > 5 then mx else 10, journalOpen = False, journalStarted = False,
      useJournal = journal, ckptOpen = False, ckptInUse = False, ckptAutoopen = False, noSync = temp \<or> \<not> journal,
      fullSync = False, state = SQLITE_UNLOCK, errMask = 0, tempFile = temp, readOnly = \<not> temp \<and> dbReadOnly d,
      needSync = False, dirtyFile = False, alwaysRollback = False, aInJournal = None, aInCkpt = None, pFree = [],
      pFirstSynced = None, pAll = [], pCkpt = [], flock = SQLITE_UNLOCK, outs = ks, heap = junk, rng = r, seed = sd\<rparr>"

definition sqlitepager_open :: "(string \<Rightarrow> string) \<Rightarrow> bool \<Rightarrow> string \<Rightarrow> string \<Rightarrow> disk \<Rightarrow> int \<Rightarrow> nat \<Rightarrow> bool \<Rightarrow> outcome list \<Rightarrow>
    bytes \<Rightarrow> prng \<Rightarrow> bytes \<Rightarrow> result \<times> pager option" where
  "sqlitepager_open full oom filename tempName d mx extra journal ks junk r sd =
     (if oom then (SQLITE_NOMEM, None)
      else let (k, ks) = (case ks of [] \<Rightarrow> (Done, []) | k # ks \<Rightarrow> (k, ks));  \<comment> \<open>the full path name\<close>
               temp = (filename = []);
               (rc, ks) = sqlitepager_opentemp (if temp then 7 else 0) ks
           in if k = Refused then (SQLITE_NOMEM, None)
              else if rc \<noteq> SQLITE_OK then (SQLITE_CANTOPEN, None)
              else let (k, ks) = (case ks of [] \<Rightarrow> (Done, []) | k # ks \<Rightarrow> (k, ks))
                   in if k = Refused then (SQLITE_NOMEM, None)
                      else (SQLITE_OK, Some (new_pager (full (if temp then tempName else filename)) tempName d temp mx extra journal ks junk r sd)))"

definition sqlitepager_pagecount :: "pager \<Rightarrow> int \<times> pager" where
  "sqlitepager_pagecount p =
     (if dbSize p \<ge> 0 then (dbSize p, p)
      else let (rc, n, p) = db_size p
      in if rc \<noteq> SQLITE_OK then (0, raise PAGER_ERR_DISK p)
      else let n = i32 (n div SQLITE_PAGE_SIZE)
      in (n, if state p \<noteq> SQLITE_UNLOCK then p\<lparr>dbSize := n\<rparr> else p))"

section \<open>Writing pages back\<close>

definition sync_file :: "pager \<Rightarrow> (result \<times> pager) option" where
  \<comment> \<open>the part of \<open>syncJournal\<close> for a database that is not temporary\<close>
  "sync_file p = do {
     assertion (journalOpen p);
     let (rc, jSz, p) = j_size p;
     if rc \<noteq> SQLITE_OK then Some (rc, p)
     else do {
       assertion (nRec p * JOURNAL_PG_SZ 3 + JOURNAL_HDR_SZ 3 = jSz);
       let (rc, p) = (if fullSync p then j_sync p else (SQLITE_OK, p));
       if rc \<noteq> SQLITE_OK then Some (rc, p)
       else
         let (rc, p) = write32bits (word_of_nat (nRec p)) (j_seek 8 p)
         in if rc \<noteq> SQLITE_OK then Some (rc, p)
            else let (rc, p) = j_sync (j_seek (JOURNAL_HDR_SZ 3 + nRec p * JOURNAL_PG_SZ 3) p)
            in if rc \<noteq> SQLITE_OK then Some (rc, p) else Some (SQLITE_OK, p\<lparr>journalStarted := True\<rparr>) } }"

definition syncJournal :: "pager \<Rightarrow> (result \<times> pager) option" where
  "syncJournal p =
     (if needSync p then do {
        (rc, p) \<leftarrow> (if \<not> tempFile p then sync_file p else Some (SQLITE_OK, p));
        if rc \<noteq> SQLITE_OK then Some (rc, p)
        else Some (SQLITE_OK, p\<lparr>needSync := False, pAll := map (\<lambda>g. g\<lparr>pneedSync := False\<rparr>) (pAll p),
                               pFirstSynced := (case pFree p of [] \<Rightarrow> None | n # _ \<Rightarrow> Some n)\<rparr>) }
      else do {
        assertion (list_all (\<lambda>g. \<not> pneedSync g) (pAll p));
        assertion (pFirstSynced p = (case pFree p of [] \<Rightarrow> None | n # _ \<Rightarrow> Some n));
        Some (SQLITE_OK, p) })"

fun pager_write_pagelist :: "nat list \<Rightarrow> pager \<Rightarrow> (result \<times> pager) option" where
  "pager_write_pagelist [] p = Some (SQLITE_OK, p)"
| "pager_write_pagelist (n # ns) p = do {
     g \<leftarrow> pager_lookup p n;
     assertion (dirty g);
     let (rc, p) = db_write (pdata g) (db_seek ((n - 1) * SQLITE_PAGE_SIZE) p);
     if rc \<noteq> SQLITE_OK then Some (rc, p)
     else pager_write_pagelist ns (on_page n (\<lambda>g. g\<lparr>dirty := False\<rparr>) p) }"

definition pager_get_all_dirty_pages :: "pager \<Rightarrow> nat list" where
  "pager_get_all_dirty_pages p = rev (map pgno (filter dirty (pAll p)))"

definition sqlitepager_truncate :: "nat \<Rightarrow> pager \<Rightarrow> (result \<times> pager) option" where
  "sqlitepager_truncate n p = do {
     let p = (if dbSize p < 0 then snd (sqlitepager_pagecount p) else p);
     if errMask p \<noteq> 0 then Some (pager_errcode p, p)
     else if (word_of_nat n :: u32) \<ge> word_of_int (dbSize p) then Some (SQLITE_OK, p)
     else do {
       (_, p) \<leftarrow> syncJournal p;
       let (rc, p) = db_truncate (SQLITE_PAGE_SIZE * n) p;
       Some (rc, if rc = SQLITE_OK then p\<lparr>dbSize := i32 n\<rparr> else p) } }"

text \<open>What a closed pager leaves is its files: the memory is gone and the lock with it.\<close>

definition sqlitepager_close :: "pager \<Rightarrow> (result \<times> pager) option" where
  "sqlitepager_close p = do {
     p \<leftarrow> (if state p = SQLITE_WRITELOCK then do {
             (_, p) \<leftarrow> sqlitepager_rollback p;
             let (_, p) = os_lock SQLITE_UNLOCK p;
             assertion (\<not> journalOpen p);
             Some p }
           else if state p = SQLITE_READLOCK then Some (snd (os_lock SQLITE_UNLOCK p))
           else Some p);
     let p = p\<lparr>pAll := [], flock := SQLITE_UNLOCK\<rparr>;
     assertion (\<not> journalOpen p);
     Some (SQLITE_OK, p) }"

section \<open>Releasing and acquiring pages\<close>

definition sqlitepager_unref :: "nat \<Rightarrow> pager \<Rightarrow> (result \<times> pager) option" where
  "sqlitepager_unref n p = do {
     g \<leftarrow> pager_lookup p n;
     assertion (pnRef g > 0);
     let p = on_page n (\<lambda>g. g\<lparr>pnRef := pnRef g - 1\<rparr>) p;
     p \<leftarrow> (if pnRef g = 1 then do {
             let p = p\<lparr>pFree := pFree p @ [n]\<rparr>;
             let p = (if \<not> pneedSync g \<and> pFirstSynced p = None then p\<lparr>pFirstSynced := Some n\<rparr> else p);
             assertion (nRef p > 0);
             let p = p\<lparr>nRef := nRef p - 1\<rparr>;
             if nRef p = 0 then pager_reset p else Some p }
           else Some p);
     Some (SQLITE_OK, p) }"

definition hot_journal :: "pager \<Rightarrow> (result \<times> pager) option" where
  \<comment> \<open>a journal is there although no one writes: play it back\<close>
  "hot_journal p =
     (let (rc, p) = os_lock SQLITE_WRITELOCK p
      in if rc \<noteq> SQLITE_OK then
           let (rc', p) = os_lock SQLITE_UNLOCK p in Some (if rc' \<noteq> SQLITE_OK then SQLITE_INTERNAL else rc, p)
         else
           let (rc, p) = open_readonly (p\<lparr>state := SQLITE_WRITELOCK\<rparr>)
           in if rc \<noteq> SQLITE_OK then do {
                let (rc, p) = os_lock SQLITE_UNLOCK p;
                assertion (rc = SQLITE_OK);
                Some (SQLITE_BUSY, p) }
              else pager_playback False (p\<lparr>journalOpen := True, journalStarted := False\<rparr>))"

definition first_lock :: "pager \<Rightarrow> (result \<times> pager) option" where
  \<comment> \<open>the first page: a read lock, and an old journal\<close>
  "first_lock p =
     (let (rc, p) = os_lock SQLITE_READLOCK p
      in if rc \<noteq> SQLITE_OK then Some (rc, p)
         else let p = p\<lparr>state := SQLITE_READLOCK\<rparr>
         in if useJournal p \<and> jname p then hot_journal p else Some (SQLITE_OK, p))"

definition fresh_page :: "nat \<Rightarrow> pager \<Rightarrow> pghdr" where
  "fresh_page n p = \<lparr>pgno = n, pdata = heap p, pextra = replicate (nExtra p) 0, pnRef = 0, inJournal = False, inCkpt = False,
     dirty = False, pneedSync = False, palwaysRollback = False\<rparr>"

text \<open>A page to recycle: its number, with the state in which it is clean; no page if the clean-up failed.\<close>

definition recycle_page :: "pager \<Rightarrow> (nat option \<times> pager) option" where
  "recycle_page p = do {
     (rc, p) \<leftarrow> (if pFirstSynced p = None then syncJournal p else Some (SQLITE_OK, p));
     if rc \<noteq> SQLITE_OK then do {
       (_, p) \<leftarrow> sqlitepager_rollback p;
       Some (None, p) }
     else do {
       n \<leftarrow> (case pFirstSynced p of Some n \<Rightarrow> Some n | None \<Rightarrow> (case pFree p of [] \<Rightarrow> None | n # _ \<Rightarrow> Some n));
       g \<leftarrow> pager_lookup p n;
       assertion (pnRef g = 0);
       (rc, p) \<leftarrow> (if dirty g then do { assertion (\<not> pneedSync g); pager_write_pagelist [n] p } else Some (SQLITE_OK, p));
       if rc \<noteq> SQLITE_OK then do {
         (_, p) \<leftarrow> sqlitepager_rollback p;
         Some (None, p) }
       else do {
         let p = (if palwaysRollback g then p\<lparr>alwaysRollback := True\<rparr> else p);
         Some (Some n, unlink_free n p) } } }"

text \<open>The page \<open>m\<close> of the memory becomes page \<open>n\<close> of the file.\<close>

definition rename_page :: "nat \<Rightarrow> nat \<Rightarrow> pager \<Rightarrow> pager" where
  "rename_page m n p = (on_page m (\<lambda>g. g\<lparr>pgno := n\<rparr>) p)\<lparr>pCkpt := map (\<lambda>x. if x = m then n else x) (pCkpt p)\<rparr>"

definition init_page :: "nat \<Rightarrow> pager \<Rightarrow> pager option" where
  \<comment> \<open>the flags of a page that has just got its number\<close>
  "init_page n p = do {
     inj \<leftarrow> (case aInJournal p of
                Some a \<Rightarrow> if i32 n \<le> origDbSize p then do { assertion (journalOpen p); bit_at a n } else Some False
              | None \<Rightarrow> Some False);
     let p = on_page n (\<lambda>g. g\<lparr>inJournal := inj, pneedSync := False\<rparr>) p;
     inc \<leftarrow> (case aInCkpt p of
                Some a \<Rightarrow> if i32 n \<le> ckptSize p then bit_at a n else Some False
              | None \<Rightarrow> Some False);
     p \<leftarrow> (if inc then page_add_to_ckpt_list n p else page_remove_from_ckpt_list n p);
     Some ((on_page n (\<lambda>g. g\<lparr>dirty := False, pnRef := 1, pextra := replicate (nExtra p) 0\<rparr>) p)\<lparr>nRef := nRef p + 1\<rparr>) }"

definition load_page :: "nat \<Rightarrow> pager \<Rightarrow> (result \<times> pager) option" where
  "load_page n p = do {
     let p = (if dbSize p < 0 then snd (sqlitepager_pagecount p) else p);
     if errMask p \<noteq> 0 then do {
       (_, p) \<leftarrow> sqlitepager_unref n p;
       Some (pager_errcode p, p) }
     else if dbSize p < i32 n then Some (SQLITE_OK, on_page n (\<lambda>g. g\<lparr>pdata := replicate SQLITE_PAGE_SIZE 0\<rparr>) p)
     else do {
       let (rc, d, p) = db_read SQLITE_PAGE_SIZE (db_seek ((n - 1) * SQLITE_PAGE_SIZE) p);
       let p = on_page n (\<lambda>g. g\<lparr>pdata := d @ drop (length d) (pdata g)\<rparr>) p;
       if rc = SQLITE_OK then Some (SQLITE_OK, p)
       else do {
         let (rc', fileSize, p) = db_size p;
         if rc' \<noteq> SQLITE_OK \<or> fileSize \<ge> unat (word_of_nat n * word_of_nat SQLITE_PAGE_SIZE :: u32) then do {
           (_, p) \<leftarrow> sqlitepager_unref n p;
           Some (rc, p) }
         else Some (SQLITE_OK, on_page n (\<lambda>g. g\<lparr>pdata := replicate SQLITE_PAGE_SIZE 0\<rparr>) p) } } }"

definition get_miss :: "nat \<Rightarrow> pager \<Rightarrow> (result \<times> pager) option" where
  \<comment> \<open>the requested page is not in the page cache\<close>
  "get_miss n p =
     (if int (nPage p) < mxPage p \<or> pFree p = [] then
        let (ok, p) = os_malloc p
        in if \<not> ok then do {
             (_, p) \<leftarrow> pager_unwritelock p;
             Some (SQLITE_NOMEM, raise PAGER_ERR_MEM p) }
           else do {
             p \<leftarrow> init_page n (p\<lparr>pAll := fresh_page n p # pAll p, nPage := nPage p + 1\<rparr>);
             load_page n p }
      else do {
        (page, p) \<leftarrow> recycle_page p;
        case page of
          None \<Rightarrow> Some (SQLITE_IOERR, p)
        | Some m \<Rightarrow> do {
            p \<leftarrow> init_page n (rename_page m n p);
            load_page n p } })"

definition sqlitepager_get :: "nat \<Rightarrow> pager \<Rightarrow> (result \<times> pager) option" where
  "sqlitepager_get n p = do {
     assertion (n \<noteq> 0);
     if errMask p AND NOT PAGER_ERR_FULL \<noteq> 0 then Some (pager_errcode p, p)
     else if nRef p = 0 then do {
       (rc, p) \<leftarrow> first_lock p;
       if rc \<noteq> SQLITE_OK then Some (rc, p) else get_miss n p }
     else case pager_lookup p n of
            None \<Rightarrow> get_miss n p
          | Some _ \<Rightarrow> do { p \<leftarrow> page_ref n p; Some (SQLITE_OK, p) } }"

definition sqlitepager_lookup :: "nat \<Rightarrow> pager \<Rightarrow> (bool \<times> pager) option" where
  "sqlitepager_lookup n p = do {
     assertion (n \<noteq> 0);
     if errMask p AND NOT PAGER_ERR_FULL \<noteq> 0 then Some (False, p)
     else case pager_lookup p n of
            None \<Rightarrow> Some (False, p)
          | Some _ \<Rightarrow> do { p \<leftarrow> page_ref n p; Some (True, p) } }"

section \<open>Checkpoints\<close>

definition sqlitepager_ckpt_begin :: "pager \<Rightarrow> (result \<times> pager) option" where
  "sqlitepager_ckpt_begin p =
     (if \<not> journalOpen p then Some (SQLITE_OK, p\<lparr>ckptAutoopen := True\<rparr>)
      else do {
        assertion (\<not> ckptInUse p);
        let (ok, p) = os_malloc p;
        if \<not> ok then Some (SQLITE_NOMEM, snd (os_lock SQLITE_READLOCK (p\<lparr>aInCkpt := None\<rparr>)))
        else do {
          let (rc, szJ, p) = j_size (p\<lparr>aInCkpt := Some (bit_array (dbSize p))\<rparr>);
          if rc \<noteq> SQLITE_OK then Some (rc, p\<lparr>aInCkpt := None\<rparr>)
          else do {
            assertion (szJ = nRec p * JOURNAL_PG_SZ 3 + JOURNAL_HDR_SZ 3);
            let p = p\<lparr>ckptJSize := nRec p * JOURNAL_PG_SZ 3 + JOURNAL_HDR_SZ 3, ckptSize := dbSize p\<rparr>;
            if \<not> ckptOpen p then
              let (rc, ks) = sqlitepager_opentemp 7 (outs p); p = p\<lparr>outs := ks\<rparr>
              in if rc \<noteq> SQLITE_OK then Some (rc, p\<lparr>aInCkpt := None\<rparr>)
                 else Some (SQLITE_OK, p\<lparr>cpfd := \<lparr>fbytes = [], fpos = 0\<rparr>, ckptOpen := True, ckptNRec := 0, ckptInUse := True\<rparr>)
            else Some (SQLITE_OK, p\<lparr>ckptInUse := True\<rparr>) } } })"

definition sqlitepager_ckpt_rollback :: "pager \<Rightarrow> (result \<times> pager) option" where
  "sqlitepager_ckpt_rollback p = do {
     (rc, p) \<leftarrow> (if ckptInUse p then do {
                  (rc, p) \<leftarrow> pager_ckpt_playback p;
                  p \<leftarrow> sqlitepager_ckpt_commit p;
                  Some (rc, p) }
                else Some (SQLITE_OK, p));
     Some (rc, p\<lparr>ckptAutoopen := False\<rparr>) }"

section \<open>Writing\<close>

definition random_cksum :: "pager \<Rightarrow> pager" where
  \<comment> \<open>sqliteRandomness(sizeof(cksumInit), \&cksumInit)\<close>
  "random_cksum p = (let (r, bs) = sqliteRandomness (seed p) 4 (rng p) in p\<lparr>rng := r, cksumInit := native32 bs\<rparr>)"

definition write_header :: "pager \<Rightarrow> result \<times> pager" where
  "write_header p =
     (let (rc, p) = j_write aJournalMagic3 p;
          (rc, p) = (if rc = SQLITE_OK then write32bits (if noSync p then 0xffffffff else 0) p else (rc, p));
          (rc, p) = (if rc = SQLITE_OK then let p = random_cksum p in write32bits (cksumInit p) p else (rc, p))
      in if rc = SQLITE_OK then write32bits (word_of_int (dbSize p)) p else (rc, p))"

definition pager_open_journal :: "pager \<Rightarrow> (result \<times> pager) option" where
  "pager_open_journal p = do {
     assertion (state p = SQLITE_WRITELOCK);
     assertion (\<not> journalOpen p);
     assertion (useJournal p);
     let p = snd (sqlitepager_pagecount p);
     let (ok, p) = os_malloc p;
     if \<not> ok then Some (SQLITE_NOMEM, (snd (os_lock SQLITE_READLOCK p))\<lparr>aInJournal := None, state := SQLITE_READLOCK\<rparr>)
     else
       let p = p\<lparr>aInJournal := Some (bit_array (dbSize p))\<rparr>;
           (rc, p) = open_exclusive p
       in if rc \<noteq> SQLITE_OK then
            Some (SQLITE_CANTOPEN, (snd (os_lock SQLITE_READLOCK (p\<lparr>aInJournal := None\<rparr>)))\<lparr>state := SQLITE_READLOCK\<rparr>)
          else
            let p = p\<lparr>journalOpen := True, journalStarted := False, needSync := False, alwaysRollback := False, nRec := 0\<rparr>
            in if errMask p \<noteq> 0 then Some (pager_errcode p, p)
               else do {
                 let (rc, p) = write_header (p\<lparr>origDbSize := dbSize p\<rparr>);
                 (rc, p) \<leftarrow> (if ckptAutoopen p \<and> rc = SQLITE_OK then sqlitepager_ckpt_begin p else Some (rc, p));
                 if rc \<noteq> SQLITE_OK then do {
                   (rc, p) \<leftarrow> pager_unwritelock p;
                   Some (if rc = SQLITE_OK then SQLITE_FULL else rc, p) }
                 else Some (rc, p) } }"

definition sqlitepager_begin :: "nat \<Rightarrow> pager \<Rightarrow> (result \<times> pager) option" where
  "sqlitepager_begin n p = do {
     g \<leftarrow> pager_lookup p n;
     assertion (pnRef g > 0);
     assertion (state p \<noteq> SQLITE_UNLOCK);
     if state p = SQLITE_READLOCK then do {
       assertion (aInJournal p = None);
       let (rc, p) = os_lock SQLITE_WRITELOCK p;
       if rc \<noteq> SQLITE_OK then Some (rc, p)
       else
         let p = p\<lparr>state := SQLITE_WRITELOCK, dirtyFile := False\<rparr>
         in if useJournal p \<and> \<not> tempFile p then pager_open_journal p else Some (SQLITE_OK, p) }
     else Some (SQLITE_OK, p) }"

text \<open>The memory around a page: the four bytes before its data, the data and the first four bytes behind it.\<close>

definition page_buffer :: "pghdr \<Rightarrow> bytes" where
  "page_buffer g = replicate 4 0 @ pdata g @ take 4 (pextra g @ replicate 4 0)"

definition journal_record :: "pager \<Rightarrow> pghdr \<Rightarrow> bytes" where
  \<comment> \<open>the number, the data and the checksum of a page; the extra bytes are saved and put back\<close>
  "journal_record p g =
     (let buf = store32bits (pager_cksum p (pgno g)) (page_buffer g) (SQLITE_PAGE_SIZE + 4);
          buf = store32bits (word_of_nat (pgno g)) buf 0
      in take (SQLITE_PAGE_SIZE + 8) buf)"

definition ckpt_record :: "pghdr \<Rightarrow> bytes" where
  "ckpt_record g = take (SQLITE_PAGE_SIZE + 4) (store32bits (word_of_nat (pgno g)) (page_buffer g) 0)"

definition mark_ckpt :: "nat \<Rightarrow> pager \<Rightarrow> pager option" where
  \<comment> \<open>aInCkpt[pgno/8] |= 1<<(pgno\&7) and the list of the pages in the checkpoint journal\<close>
  "mark_ckpt n p = do {
     a \<leftarrow> aInCkpt p;
     a \<leftarrow> set_bit_at n a;
     page_add_to_ckpt_list n (p\<lparr>aInCkpt := Some a\<rparr>) }"

text \<open>The error path of a write: all is rolled back, and the pager remembers that the disk is full.\<close>

definition write_failed :: "result \<Rightarrow> pager \<Rightarrow> (result \<times> pager) option" where
  "write_failed rc p = do { (_, p) \<leftarrow> sqlitepager_rollback p; Some (rc, raise PAGER_ERR_FULL p) }"

definition journal_page :: "nat \<Rightarrow> pager \<Rightarrow> (result \<times> pager) option" where
  \<comment> \<open>a page that was in the file when the transaction began goes to the rollback journal\<close>
  "journal_page n p = do {
     g \<leftarrow> pager_lookup p n;
     let (rc, p) = j_write (journal_record p g) p;
     if rc \<noteq> SQLITE_OK then Some (rc, p)
     else do {
       a \<leftarrow> aInJournal p;
       a \<leftarrow> set_bit_at n a;
       let p = on_page n (\<lambda>g. g\<lparr>pneedSync := \<not> noSync p, inJournal := True\<rparr>) (p\<lparr>nRec := nRec p + 1, aInJournal := Some a\<rparr>);
       p \<leftarrow> (if ckptInUse p then mark_ckpt n p else Some p);
       Some (SQLITE_OK, p) } }"

definition note_sync :: "nat \<Rightarrow> pager \<Rightarrow> pager option" where
  "note_sync n p = do { g \<leftarrow> pager_lookup p n; Some (if pneedSync g then p\<lparr>needSync := True\<rparr> else p) }"

definition to_journal :: "nat \<Rightarrow> pager \<Rightarrow> (result \<times> pager) option" where
  "to_journal n p = do {
     g \<leftarrow> pager_lookup p n;
     if inJournal g \<or> \<not> useJournal p then Some (SQLITE_OK, p)
     else if i32 n \<le> origDbSize p then do {
       (rc, p) \<leftarrow> journal_page n p;
       if rc \<noteq> SQLITE_OK then Some (rc, p) else do { p \<leftarrow> note_sync n p; Some (SQLITE_OK, p) } }
     else do {
       p \<leftarrow> note_sync n (on_page n (\<lambda>g. g\<lparr>pneedSync := \<not> journalStarted p \<and> \<not> noSync p\<rparr>) p);
       Some (SQLITE_OK, p) } }"

definition to_ckpt_journal :: "nat \<Rightarrow> pager \<Rightarrow> (result \<times> pager) option" where
  "to_ckpt_journal n p = do {
     g \<leftarrow> pager_lookup p n;
     if ckptInUse p \<and> \<not> inCkpt g \<and> i32 n \<le> ckptSize p then do {
       assertion (inJournal g \<or> i32 n > origDbSize p);
       let (rc, p) = cp_write (ckpt_record g) p;
       if rc \<noteq> SQLITE_OK then Some (rc, p)
       else do { p \<leftarrow> mark_ckpt n (p\<lparr>ckptNRec := ckptNRec p + 1\<rparr>); Some (SQLITE_OK, p) } }
     else Some (SQLITE_OK, p) }"

definition write_journals :: "nat \<Rightarrow> pager \<Rightarrow> (result \<times> pager) option" where
  \<comment> \<open>the part of \<open>sqlitepager_write\<close> behind the creation of the journal\<close>
  "write_journals n p = do {
     (rc, p) \<leftarrow> to_journal n (p\<lparr>dirtyFile := True\<rparr>);
     if rc \<noteq> SQLITE_OK then write_failed rc p
     else do {
       (rc, p) \<leftarrow> to_ckpt_journal n p;
       if rc \<noteq> SQLITE_OK then write_failed rc p
       else Some (rc, if dbSize p < i32 n then p\<lparr>dbSize := i32 n\<rparr> else p) } }"

definition sqlitepager_write :: "nat \<Rightarrow> pager \<Rightarrow> (result \<times> pager) option" where
  "sqlitepager_write n p =
     (if errMask p \<noteq> 0 then Some (pager_errcode p, p)
      else if readOnly p then Some (SQLITE_PERM, p)
      else do {
        g \<leftarrow> pager_lookup p n;
        let p = on_page n (\<lambda>g. g\<lparr>dirty := True\<rparr>) p;
        if inJournal g \<and> (inCkpt g \<or> \<not> ckptInUse p) then Some (SQLITE_OK, p\<lparr>dirtyFile := True\<rparr>)
        else do {
          assertion (state p \<noteq> SQLITE_UNLOCK);
          (rc, p) \<leftarrow> sqlitepager_begin n p;
          if rc \<noteq> SQLITE_OK then Some (rc, p)
          else do {
            assertion (state p = SQLITE_WRITELOCK);
            (rc, p) \<leftarrow> (if \<not> journalOpen p \<and> useJournal p then pager_open_journal p else Some (SQLITE_OK, p));
            if rc \<noteq> SQLITE_OK then Some (rc, p)
            else do {
              assertion (journalOpen p \<or> \<not> useJournal p);
              write_journals n p } } } })"

definition sqlitepager_iswriteable :: "nat \<Rightarrow> pager \<Rightarrow> bool option" where
  "sqlitepager_iswriteable n p = map_option dirty (pager_lookup p n)"

text \<open>The client changes the data of a page through its pointer.\<close>

definition put_data :: "nat \<Rightarrow> bytes \<Rightarrow> pager \<Rightarrow> pager" where
  "put_data n d = on_page n (\<lambda>g. g\<lparr>pdata := d\<rparr>)"

definition sqlitepager_overwrite :: "nat \<Rightarrow> bytes \<Rightarrow> pager \<Rightarrow> (result \<times> pager) option" where
  "sqlitepager_overwrite n d p = do {
     (rc, p) \<leftarrow> sqlitepager_get n p;
     if rc = SQLITE_OK then do {
       (rc, p) \<leftarrow> sqlitepager_write n p;
       (_, p) \<leftarrow> sqlitepager_unref n (if rc = SQLITE_OK then put_data n d p else p);
       Some (rc, p) }
     else Some (rc, p) }"

definition sqlitepager_dont_write :: "nat \<Rightarrow> pager \<Rightarrow> pager option" where
  "sqlitepager_dont_write n p = do {
     g \<leftarrow> pager_lookup p n;  \<comment> \<open>the flag is set before the pointer is tested\<close>
     let p = on_page n (\<lambda>g. g\<lparr>palwaysRollback := True\<rparr>) p;
     Some (if dirty g then
             if dbSize p = i32 n \<and> origDbSize p < dbSize p then p else on_page n (\<lambda>g. g\<lparr>dirty := False\<rparr>) p
           else p) }"

definition sqlitepager_dont_rollback :: "nat \<Rightarrow> pager \<Rightarrow> pager option" where
  "sqlitepager_dont_rollback n p = do {
     g \<leftarrow> pager_lookup p n;
     if state p \<noteq> SQLITE_WRITELOCK \<or> \<not> journalOpen p then Some p
     else if palwaysRollback g \<or> alwaysRollback p then Some p
     else do {
       p \<leftarrow> (if \<not> inJournal g \<and> i32 n \<le> origDbSize p then do {
               a \<leftarrow> aInJournal p;
               a \<leftarrow> set_bit_at n a;
               let p = on_page n (\<lambda>g. g\<lparr>inJournal := True\<rparr>) (p\<lparr>aInJournal := Some a\<rparr>);
               if ckptInUse p then mark_ckpt n p else Some p }
             else Some p);
       g \<leftarrow> pager_lookup p n;
       if ckptInUse p \<and> \<not> inCkpt g \<and> i32 n \<le> ckptSize p then do {
         assertion (inJournal g \<or> i32 n > origDbSize p);
         mark_ckpt n p }
       else Some p } }"

section \<open>Commit\<close>

definition commit_abort :: "pager \<Rightarrow> (result \<times> pager) option" where
  "commit_abort p = do {
     (rc, p) \<leftarrow> sqlitepager_rollback p;
     Some (if rc = SQLITE_OK then SQLITE_FULL else rc, p) }"

definition commit_done :: "pager \<Rightarrow> (result \<times> pager) option" where
  "commit_done p = do { (rc, p) \<leftarrow> pager_unwritelock p; Some (rc, p\<lparr>dbSize := -1\<rparr>) }"

definition sqlitepager_commit :: "pager \<Rightarrow> (result \<times> pager) option" where
  "sqlitepager_commit p =
     (if errMask p = PAGER_ERR_FULL then commit_abort p
      else if errMask p \<noteq> 0 then Some (pager_errcode p, p)
      else if state p \<noteq> SQLITE_WRITELOCK then Some (SQLITE_ERROR, p)
      else if \<not> dirtyFile p then do { assertion (\<not> needSync p); commit_done p }
      else do {
        assertion (journalOpen p);
        (rc, p) \<leftarrow> syncJournal p;
        if rc \<noteq> SQLITE_OK then commit_abort p
        else
          let ns = pager_get_all_dirty_pages p
          in if ns = [] then commit_done p
             else do {
               (rc, p) \<leftarrow> pager_write_pagelist ns p;
               let (rc, p) = (if rc = SQLITE_OK \<and> \<not> noSync p then db_sync p else (rc, p));
               if rc \<noteq> SQLITE_OK then commit_abort p else commit_done p } })"

end
