(* ===== verification/PgFormat.thy ===== *)
theory PgFormat
  imports Pager
begin

text \<open>
  The bytes of the two journals and what playing them back does. First the calls of the kernel as they
  go when nothing fails, then the records of a journal as the code writes them, and last the result of a
  playback, record by record, on the database file and on the pages in memory.
\<close>

section \<open>A kernel that does all it is asked for\<close>

named_theorems quiet \<open>calls of the kernel that succeed\<close>

lemma outs_same: "outs p = [] \<Longrightarrow> p\<lparr>outs := []\<rparr> = p"
  by (cases p) simp

lemma outcome_quiet [quiet]: "outs p = [] \<Longrightarrow> outcome p = (Done, p)"
  by (simp add: outcome_def)

lemma write_quiet: "d \<noteq> [] \<Longrightarrow> sqliteOsWrite [] d f = (SQLITE_OK, kwrite d f, [])"
  by (cases d) (simp_all add: sqliteOsWrite_def)

lemma db_write_quiet [quiet]:
  "outs p = [] \<Longrightarrow> d \<noteq> [] \<Longrightarrow> db_write d p = (SQLITE_OK, p\<lparr>fd := kwrite d (fd p)\<rparr>)"
  by (cases p) (simp add: db_write_def write_quiet)

lemma j_write_quiet [quiet]:
  "outs p = [] \<Longrightarrow> d \<noteq> [] \<Longrightarrow> j_write d p = (SQLITE_OK, p\<lparr>jfd := kwrite d (jfd p)\<rparr>)"
  by (cases p) (simp add: j_write_def write_quiet)

lemma cp_write_quiet [quiet]:
  "outs p = [] \<Longrightarrow> d \<noteq> [] \<Longrightarrow> cp_write d p = (SQLITE_OK, p\<lparr>cpfd := kwrite d (cpfd p)\<rparr>)"
  by (cases p) (simp add: cp_write_def write_quiet)

lemma quiet_calls [quiet]:
  assumes "outs p = []"
  shows "db_truncate n p = (SQLITE_OK, p\<lparr>fd := (fd p)\<lparr>fbytes := resize n (fbytes (fd p))\<rparr>\<rparr>)"
    "db_size p = (SQLITE_OK, length (fbytes (fd p)), p)"
    "db_sync p = (SQLITE_OK, p)"
    "j_size p = (SQLITE_OK, length (fbytes (jfd p)), p)"
    "j_sync p = (SQLITE_OK, p)"
    "os_lock m p = (SQLITE_OK, p\<lparr>flock := m\<rparr>)"
    "os_malloc p = (True, p)"
    "sqlitepager_opentemp c [] = (SQLITE_OK, [])"
  using assms
  by (simp_all add: outcome_def db_truncate_def sqliteOsTruncate_def db_size_def sqliteOsFileSize_def db_sync_def sqliteOsSync_def
      j_size_def j_sync_def os_lock_def os_malloc_def)

lemma write32_quiet [quiet]:
  "outs p = [] \<Longrightarrow> write32bits w p = (SQLITE_OK, p\<lparr>jfd := kwrite (be32 w) (jfd p)\<rparr>)"
  unfolding write32bits_def by (rule j_write_quiet) (simp_all add: be32_def)

lemma read_exact:
  assumes "fbytes f = a @ d @ c" "fpos f = length a" "length d = n"
  shows "sqliteOsRead Done n f = (SQLITE_OK, d, f\<lparr>fpos := length a + n\<rparr>)"
  using assms by (simp add: sqliteOsRead_def)

lemma db_write_page:
  assumes "outs p = []" "length d = SQLITE_PAGE_SIZE"
  shows "db_write d (db_seek i p)
       = (SQLITE_OK, p\<lparr>fd := \<lparr>fbytes = put_at i d (fbytes (fd p)), fpos = i + SQLITE_PAGE_SIZE\<rparr>\<rparr>)"
proof -
  have "d \<noteq> []" using assms(2) by auto
  then have "db_write d (db_seek i p) = (SQLITE_OK, (db_seek i p)\<lparr>fd := kwrite d (fd (db_seek i p))\<rparr>)"
    using assms(1) by (intro db_write_quiet) (simp_all add: db_seek_def)
  then show ?thesis using assms(2) by (simp add: db_seek_def kwrite_def sqliteOsSeek_def)
qed

lemma db_read_page:
  assumes "outs p = []" "0 < n" "n * SQLITE_PAGE_SIZE \<le> length (fbytes (fd p))"
  shows "db_read SQLITE_PAGE_SIZE (db_seek ((n - 1) * SQLITE_PAGE_SIZE) p)
       = (SQLITE_OK, page_at (fbytes (fd p)) n, p\<lparr>fd := (fd p)\<lparr>fpos := n * SQLITE_PAGE_SIZE\<rparr>\<rparr>)"
proof -
  have e: "(n - 1) * SQLITE_PAGE_SIZE + SQLITE_PAGE_SIZE = n * SQLITE_PAGE_SIZE" using assms(2) by (rule page_end)
  have "min SQLITE_PAGE_SIZE (length (fbytes (fd p)) - (n - 1) * SQLITE_PAGE_SIZE) = SQLITE_PAGE_SIZE"
    using e assms(3) by linarith
  then show ?thesis
    using assms e by (simp add: db_read_def db_seek_def outcome_def sqliteOsRead_def sqliteOsSeek_def page_slice del: One_nat_def)
qed

section \<open>Records of a journal\<close>

definition jrec :: "nat \<Rightarrow> u32 \<Rightarrow> nat \<times> bytes \<Rightarrow> bytes" where
  "jrec fmt c r = be32 (word_of_nat (fst r)) @ snd r @ (if fmt \<ge> 3 then be32 (c + word_of_nat (fst r)) else [])"

definition jrecs :: "nat \<Rightarrow> u32 \<Rightarrow> (nat \<times> bytes) list \<Rightarrow> bytes" where
  "jrecs fmt c rs = concat (map (jrec fmt c) rs)"

definition jhdr :: "u32 \<Rightarrow> u32 \<Rightarrow> u32 \<Rightarrow> bytes" where
  "jhdr h c mx = aJournalMagic3 @ be32 h @ be32 c @ be32 mx"

lemma jrecs_simps [simp]:
  "jrecs fmt c [] = []" "jrecs fmt c (r # rs) = jrec fmt c r @ jrecs fmt c rs"
  "jrecs fmt c (rs @ ss) = jrecs fmt c rs @ jrecs fmt c ss"
  by (simp_all add: jrecs_def)

lemma jrec_length: "length (snd r) = SQLITE_PAGE_SIZE \<Longrightarrow> length (jrec fmt c r) = JOURNAL_PG_SZ fmt"
  by (simp add: jrec_def JOURNAL_PG_SZ_def)

lemma jrecs_length: "(\<And>r. r \<in> set rs \<Longrightarrow> length (snd r) = SQLITE_PAGE_SIZE) \<Longrightarrow> length (jrecs fmt c rs) = length rs * JOURNAL_PG_SZ fmt"
  by (induction rs) (simp_all add: jrec_length)

lemma jhdr_length: "length (jhdr h c mx) = JOURNAL_HDR_SZ 3"
  by (simp add: jhdr_def JOURNAL_HDR_SZ_def aJournalMagic3_def)

lemma store_shape: "length a = i \<Longrightarrow> length b = 4 \<Longrightarrow> store32bits w (a @ b @ c) i = a @ be32 w @ c"
  by (simp add: store32bits_def)

text \<open>What \<open>sqlitepager_write\<close> builds around a page is a record.\<close>

lemma journal_record_eq:
  assumes "length (pdata g) = SQLITE_PAGE_SIZE"
  shows "journal_record p g = jrec 3 (cksumInit p) (pgno g, pdata g)"
proof -
  define e where "e = take 4 (pextra g @ replicate 4 (0 :: u8))"
  have e: "length e = 4" by (simp add: e_def)
  have buf: "page_buffer g = replicate 4 0 @ pdata g @ e" unfolding page_buffer_def e_def ..
  have 1: "store32bits w (page_buffer g) (SQLITE_PAGE_SIZE + 4) = replicate 4 0 @ pdata g @ be32 w" for w
    using store_shape [of "replicate 4 0 @ pdata g" "SQLITE_PAGE_SIZE + 4" e w "[]"] assms e unfolding buf by simp
  have 2: "store32bits v (replicate 4 0 @ pdata g @ be32 w) 0 = be32 v @ pdata g @ be32 w" for v w
    using store_shape [of "[]" 0 "replicate 4 0" v "pdata g @ be32 w"] by simp
  show ?thesis using assms by (simp add: journal_record_def 1 2 jrec_def pager_cksum_def)
qed

lemma ckpt_record_eq:
  assumes "length (pdata g) = SQLITE_PAGE_SIZE"
  shows "ckpt_record g = jrec 2 c (pgno g, pdata g)"
proof -
  define e where "e = take 4 (pextra g @ replicate 4 (0 :: u8))"
  have buf: "page_buffer g = replicate 4 0 @ pdata g @ e" unfolding page_buffer_def e_def ..
  have "store32bits v (page_buffer g) 0 = be32 v @ pdata g @ e" for v
    using store_shape [of "[]" 0 "replicate 4 0" v "pdata g @ e"] unfolding buf by simp
  then show ?thesis using assms by (simp add: ckpt_record_def jrec_def)
qed

section \<open>Reading records\<close>

fun jfile :: "journal \<Rightarrow> pager \<Rightarrow> disk_file" where
  "jfile JFD p = jfd p"
| "jfile CPFD p = cpfd p"

fun set_jpos :: "journal \<Rightarrow> nat \<Rightarrow> pager \<Rightarrow> pager" where
  "set_jpos JFD k p = p\<lparr>jfd := (jfd p)\<lparr>fpos := k\<rparr>\<rparr>"
| "set_jpos CPFD k p = p\<lparr>cpfd := (cpfd p)\<lparr>fpos := k\<rparr>\<rparr>"

lemma set_jpos_other [simp]:
  "fbytes (jfile j (set_jpos j k p)) = fbytes (jfile j p)" "fpos (jfile j (set_jpos j k p)) = k"
  "set_jpos j k (set_jpos j l p) = set_jpos j k p"
  "outs (set_jpos j k p) = outs p" "pAll (set_jpos j k p) = pAll p" "fd (set_jpos j k p) = fd p"
  "dbSize (set_jpos j k p) = dbSize p" "cksumInit (set_jpos j k p) = cksumInit p"
  "pager_lookup (set_jpos j k p) n = pager_lookup p n" "origDbSize (set_jpos j k p) = origDbSize p"
  by (cases j; simp add: pager_lookup_def)+

lemma jrn_read_exact [quiet]:
  assumes "outs p = []" "fbytes (jfile j p) = a @ d @ c" "fpos (jfile j p) = length a" "length d = n"
  shows "jrn_read j n p = (SQLITE_OK, d, set_jpos j (length a + n) p)"
  using assms by (cases j) (simp_all add: j_read_def cp_read_def outcome_quiet read_exact)

lemma read32_exact [quiet]:
  assumes "outs p = []" "fbytes (jfile j p) = a @ be32 w @ c" "fpos (jfile j p) = length a" "fmt > 1"
  shows "read32bits fmt j p = (SQLITE_OK, w, set_jpos j (length a + 4) p)"
  using jrn_read_exact [OF assms(1-3), of 4] assms(4) by (simp add: read32bits_def)

lemma word_of_nat_small:
  assumes "n < 2 ^ 31"
  shows "unat (word_of_nat n :: u32) = n"
  using assms by (simp add: unat_of_nat)

definition put_page :: "nat \<Rightarrow> bytes \<Rightarrow> pager \<Rightarrow> pager" where
  "put_page n d p = p\<lparr>fd := \<lparr>fbytes = put_at ((n - 1) * SQLITE_PAGE_SIZE) d (fbytes (fd p)),
     fpos = (n - 1) * SQLITE_PAGE_SIZE + SQLITE_PAGE_SIZE\<rparr>\<rparr>"

definition clean_page :: "bytes \<Rightarrow> pghdr \<Rightarrow> pghdr" where
  "clean_page d g = (restore_page d g)\<lparr>dirty := False, pneedSync := False\<rparr>"

lemma clean_page_simps [simp]:
  "pgno (clean_page d g) = pgno g" "pdata (clean_page d g) = d" "dirty (clean_page d g) = False" "pneedSync (clean_page d g) = False"
  "pnRef (clean_page d g) = pnRef g" "inJournal (clean_page d g) = inJournal g" "inCkpt (clean_page d g) = inCkpt g"
  "length (pextra (clean_page d g)) = length (pextra g)"
  by (simp_all add: clean_page_def restore_page_def)

lemma on_page_absent: "pager_lookup p n = None \<Longrightarrow> on_page n f p = p"
  by (cases p) (auto simp: on_page_def pager_lookup_def find_None_iff intro!: map_idI)

definition usable :: "pager \<Rightarrow> bool" where
  \<comment> \<open>no page but the first is in use\<close>
  "usable p \<longleftrightarrow> (\<forall>g \<in> set (pAll p). pnRef g = 0 \<or> pgno g = 1)"

lemma one_page:
  assumes q: "outs p = []" and fmt: "fmt = 2 \<or> fmt = 3"
    and f: "fbytes (jfile j p) = a @ jrec fmt (cksumInit p) (n, d) @ c" "fpos (jfile j p) = length a"
    and n: "0 < n" "int n \<le> dbSize p" "dbSize p < 2 ^ 31" and d: "length d = SQLITE_PAGE_SIZE" and u: "usable p"
  shows "pager_playback_one_page j fmt p
       = Some (SQLITE_OK, on_page n (clean_page d) (put_page n d (set_jpos j (length a + JOURNAL_PG_SZ fmt) p)))"
proof -
  let ?w = "word_of_nat n :: u32"
  have "int n < 2 ^ 31" using n by linarith
  then have n31: "n < 2 ^ 31" by simp
  have un: "unat ?w = n" using n31 by (rule word_of_nat_small)
  then have w0: "?w \<noteq> 0" using n(1) by auto
  have "\<not> ?w > word_of_int (dbSize p)"
  proof -
    obtain k where k: "dbSize p = int k" "n \<le> k" "k < 2 ^ 31" using n by (cases "dbSize p") auto
    have "unat (word_of_nat k :: u32) = k" using k(3) by (rule word_of_nat_small)
    then show ?thesis using k un by (simp add: word_less_nat_alt)
  qed
  note gt = this
  have f1: "fbytes (jfile j p) = a @ be32 ?w @ (d @ (if fmt \<ge> 3 then be32 (cksumInit p + ?w) else []) @ c)"
    using f(1) by (simp add: jrec_def)
  have r1: "read32bits fmt j p = (SQLITE_OK, ?w, set_jpos j (length a + 4) p)"
    using read32_exact [OF q f1 f(2)] fmt by auto
  have r2: "jrn_read j SQLITE_PAGE_SIZE (set_jpos j (length a + 4) p) = (SQLITE_OK, d, set_jpos j (length a + 4 + SQLITE_PAGE_SIZE) p)"
    using jrn_read_exact [of "set_jpos j (length a + 4) p" j "a @ be32 ?w" d "(if fmt \<ge> 3 then be32 (cksumInit p + ?w) else []) @ c"] q f1 d
    by simp
  have r3: "read32bits 3 j (set_jpos j (length a + 4 + SQLITE_PAGE_SIZE) p)
      = (SQLITE_OK, cksumInit p + ?w, set_jpos j (length a + 4 + SQLITE_PAGE_SIZE + 4) p)" if "fmt = 3"
    using read32_exact [of "set_jpos j (length a + 4 + SQLITE_PAGE_SIZE) p" j "a @ be32 ?w @ d" "cksumInit p + ?w" c 3] q f1 d that
    by simp
  define p3 where "p3 = set_jpos j (length a + JOURNAL_PG_SZ fmt) p"
  have q3: "outs p3 = []" using q by (simp add: p3_def)
  have w: "db_write d (db_seek ((n - 1) * SQLITE_PAGE_SIZE) p3) = (SQLITE_OK, put_page n d p3)"
    using db_write_page [OF q3 d] by (simp add: put_page_def)
  have e: "(if fmt \<ge> 3 then read32bits fmt j (set_jpos j (length a + 4 + SQLITE_PAGE_SIZE) p)
        else (SQLITE_OK, pager_cksum (set_jpos j (length a + 4 + SQLITE_PAGE_SIZE) p) n, set_jpos j (length a + 4 + SQLITE_PAGE_SIZE) p))
      = (SQLITE_OK, pager_cksum p3 n, p3)"
    using fmt r3 by (auto simp: p3_def pager_cksum_def JOURNAL_PG_SZ_def algebra_simps)
  have l: "pager_lookup (put_page n d p3) n = pager_lookup p n" by (simp add: put_page_def pager_lookup_def p3_def)
  have ok: "pnRef g = 0 \<or> pgno g = 1" if "pager_lookup p n = Some g" for g
    using that u by (auto simp: pager_lookup_def find_Some_iff usable_def)
  have "pager_playback_one_page j fmt p
      = (case pager_lookup p n of None \<Rightarrow> Some (SQLITE_OK, put_page n d p3)
         | Some g \<Rightarrow> Some (SQLITE_OK, on_page n (clean_page d) (put_page n d p3)))"
    unfolding pager_playback_one_page_def r1 r2 Let_def prod.case un e
    by (simp add: w0 gt w l clean_page_def [abs_def] assertion_def ok split: option.splits del: One_nat_def)
  then show ?thesis
    using on_page_absent [of "put_page n d p3" n "clean_page d"] l by (auto simp: p3_def split: option.splits)
qed

section \<open>Reading all records\<close>

definition replay :: "(nat \<times> bytes) list \<Rightarrow> pghdr \<Rightarrow> pghdr" where
  "replay rs g = (case map_of rs (pgno g) of None \<Rightarrow> g | Some d \<Rightarrow> clean_page d g)"

text \<open>A file after the pages of some records have been written to it.\<close>

definition plays :: "(nat \<times> bytes) list \<Rightarrow> bytes \<Rightarrow> bytes \<Rightarrow> bool" where
  "plays rs b b' \<longleftrightarrow>
     (\<forall>m > 0. page_at b' m = (case map_of rs m of None \<Rightarrow> page_at b m | Some d \<Rightarrow> d)) \<and>
     (\<forall>k. length b = k * SQLITE_PAGE_SIZE \<and> (\<forall>r \<in> set rs. fst r \<le> k) \<longrightarrow> length b' = length b)"

definition recs_ok :: "int \<Rightarrow> (nat \<times> bytes) list \<Rightarrow> bool" where
  "recs_ok N rs \<longleftrightarrow> distinct (map fst rs) \<and>
     (\<forall>r \<in> set rs. 0 < fst r \<and> int (fst r) \<le> N \<and> length (snd r) = SQLITE_PAGE_SIZE)"

lemma recs_ok_Cons [simp]:
  "recs_ok N (r # rs) \<longleftrightarrow> fst r \<notin> fst ` set rs \<and> 0 < fst r \<and> int (fst r) \<le> N \<and> length (snd r) = SQLITE_PAGE_SIZE \<and> recs_ok N rs"
  by (auto simp: recs_ok_def)

lemma recs_ok_Nil [simp]: "recs_ok N []"
  by (simp add: recs_ok_def)

lemma recs_ok_length: "recs_ok N rs \<Longrightarrow> length (jrecs fmt c rs) = length rs * JOURNAL_PG_SZ fmt"
  by (rule jrecs_length) (simp add: recs_ok_def)

lemma replay_Nil [simp]: "replay [] g = g"
  by (simp add: replay_def)

lemma replay_pgno [simp]: "pgno (replay rs g) = pgno g"
  by (simp add: replay_def split: option.split)

lemma plays_Nil [simp]: "plays [] b b"
  by (simp add: plays_def)

lemma plays_Cons:
  assumes "length d = SQLITE_PAGE_SIZE" "0 < n" "n \<notin> fst ` set rs"
    and "plays rs (put_at ((n - 1) * SQLITE_PAGE_SIZE) d b) b'"
  shows "plays ((n, d) # rs) b b'"
  unfolding plays_def
proof (intro conjI allI impI)
  fix m :: nat assume m: "0 < m"
  show "page_at b' m = (case map_of ((n, d) # rs) m of None \<Rightarrow> page_at b m | Some d \<Rightarrow> d)"
  proof (cases "m = n")
    case True
    then have "map_of rs m = None" using assms(3) by (simp add: map_of_eq_None_iff)
    then show ?thesis using True assms m by (simp add: plays_def page_put_at del: One_nat_def)
  qed (use assms m in \<open>simp add: plays_def page_put_at del: One_nat_def cong: option.case_cong\<close>)
next
  fix k assume k: "length b = k * SQLITE_PAGE_SIZE \<and> (\<forall>r \<in> set ((n, d) # rs). fst r \<le> k)"
  have "(n - 1) * SQLITE_PAGE_SIZE + SQLITE_PAGE_SIZE \<le> length b"
    using page_end [OF assms(2)] k by (simp add: mult_le_mono1)
  then have "length (put_at ((n - 1) * SQLITE_PAGE_SIZE) d b) = length b" using assms(1) by (simp add: put_at_length)
  then show "length b' = length b" using assms(4) k by (simp add: plays_def)
qed

lemma usable_on_page: "usable p \<Longrightarrow> usable (on_page n (clean_page d) (put_page m c (set_jpos j k p)))"
  by (auto simp: usable_def on_page_def put_page_def)

lemma replay_Cons:
  assumes "n \<notin> fst ` set rs"
  shows "replay rs (if pgno g = n then clean_page d g else g) = replay ((n, d) # rs) g"
proof -
  have "map_of rs n = None" using assms by (simp add: map_of_eq_None_iff)
  then show ?thesis by (simp add: replay_def)
qed

lemma set_jpos_commute [simp]:
  "(set_jpos j k p)\<lparr>fd := f, pAll := gs\<rparr> = set_jpos j k (p\<lparr>fd := f, pAll := gs\<rparr>)"
  by (cases j) simp_all

lemma put_clean_shape:
  "on_page n (clean_page d) (put_page n d (set_jpos j k p)) =
     set_jpos j k (p\<lparr>fd := \<lparr>fbytes = put_at ((n - 1) * SQLITE_PAGE_SIZE) d (fbytes (fd p)), fpos = (n - 1) * SQLITE_PAGE_SIZE + SQLITE_PAGE_SIZE\<rparr>,
       pAll := map (\<lambda>g. if pgno g = n then clean_page d g else g) (pAll p)\<rparr>)"
  by (cases j) (simp_all add: on_page_def put_page_def)

lemma ckpt_pages_all:
  assumes "outs p = []" "fmt = 2 \<or> fmt = 3"
    and "fbytes (jfile j p) = a @ jrecs fmt (cksumInit p) rs @ c" "fpos (jfile j p) = length a"
    and "recs_ok (dbSize p) rs" "dbSize p < 2 ^ 31" "usable p"
  shows "\<exists>f. ckpt_pages (length rs) j fmt p
      = Some (SQLITE_OK, set_jpos j (length a + length rs * JOURNAL_PG_SZ fmt) (p\<lparr>fd := f, pAll := map (replay rs) (pAll p)\<rparr>))
    \<and> plays rs (fbytes (fd p)) (fbytes f)"
  using assms
proof (induction rs arbitrary: p a)
  case Nil
  have "set_jpos j (length a) (p\<lparr>fd := fd p, pAll := pAll p\<rparr>) = p" using Nil(4) by (cases j; cases p) simp_all
  then show ?case by (auto intro!: exI [of _ "fd p"] simp: map_idI)
next
  case (Cons r rs)
  obtain n d where r: "r = (n, d)" by (cases r)
  define k where "k = length a + JOURNAL_PG_SZ fmt"
  define p1 where "p1 = on_page n (clean_page d) (put_page n d (set_jpos j k p))"
  have p1: "p1 = set_jpos j k (p\<lparr>fd := \<lparr>fbytes = put_at ((n - 1) * SQLITE_PAGE_SIZE) d (fbytes (fd p)), fpos = (n - 1) * SQLITE_PAGE_SIZE + SQLITE_PAGE_SIZE\<rparr>,
       pAll := map (\<lambda>g. if pgno g = n then clean_page d g else g) (pAll p)\<rparr>)"
    by (simp only: p1_def put_clean_shape)
  have jf: "fbytes (jfile j p1) = fbytes (jfile j p)" by (cases j) (simp_all add: p1)
  have len: "length (jrec fmt (cksumInit p) (n, d)) = JOURNAL_PG_SZ fmt" using Cons.prems r by (simp add: jrec_length)
  have step: "pager_playback_one_page j fmt p = Some (SQLITE_OK, p1)"
    unfolding p1_def k_def using Cons.prems r
    by (intro one_page [where c = "jrecs fmt (cksumInit p) rs @ c"]) simp_all
  have "\<exists>f. ckpt_pages (length rs) j fmt p1
      = Some (SQLITE_OK, set_jpos j (length (a @ jrec fmt (cksumInit p) (n, d)) + length rs * JOURNAL_PG_SZ fmt) (p1\<lparr>fd := f, pAll := map (replay rs) (pAll p1)\<rparr>))
    \<and> plays rs (fbytes (fd p1)) (fbytes f)"
    by (rule Cons.IH) (use Cons.prems r len jf in \<open>auto simp: p1 k_def usable_def\<close>)
  then obtain f where f: "ckpt_pages (length rs) j fmt p1
      = Some (SQLITE_OK, set_jpos j (k + length rs * JOURNAL_PG_SZ fmt) (p1\<lparr>fd := f, pAll := map (replay rs) (pAll p1)\<rparr>))"
    "plays rs (fbytes (fd p1)) (fbytes f)" by (auto simp: len k_def)
  have "plays (r # rs) (fbytes (fd p)) (fbytes f)"
    using f(2) Cons.prems unfolding r by (intro plays_Cons) (simp_all add: p1)
  moreover have "map (replay rs) (pAll p1) = map (replay (r # rs)) (pAll p)"
    using Cons.prems replay_Cons [of n rs] by (simp add: p1 r)
  then have "set_jpos j (k + length rs * JOURNAL_PG_SZ fmt) (p1\<lparr>fd := f, pAll := map (replay rs) (pAll p1)\<rparr>)
      = set_jpos j (length a + length (r # rs) * JOURNAL_PG_SZ fmt) (p\<lparr>fd := f, pAll := map (replay (r # rs)) (pAll p)\<rparr>)"
    by (cases j) (simp_all add: p1 k_def algebra_simps)
  ultimately show ?case using step f(1) by (auto simp: assertion_def)
qed

lemma ckpt_pages_ok: "ckpt_pages k JFD fmt p = Some (SQLITE_OK, p') \<Longrightarrow> playback_pages k fmt p = Some (SQLITE_OK, p')"
  by (induction k arbitrary: p) (auto simp: assertion_def bind_eq_Some_conv split: if_splits)

end
