(* ===== verification/PgCache.thy ===== *)
theory PgCache
  imports PgFormat
begin

text \<open>
  The pages in memory: looking them up and changing them, the lists they are on, and what the steps that end
  a transaction do to all of them at once.
\<close>

section \<open>Lookups\<close>

lemma lookup_Some: "pager_lookup p n = Some g \<Longrightarrow> g \<in> set (pAll p) \<and> pgno g = n"
  by (auto simp: pager_lookup_def find_Some_iff)

lemma lookup_None: "pager_lookup p n = None \<longleftrightarrow> n \<notin> pgno ` set (pAll p)"
  by (auto simp: pager_lookup_def find_None_iff)

lemma lookup_iff:
  assumes "distinct (map pgno (pAll p))"
  shows "pager_lookup p n = Some g \<longleftrightarrow> g \<in> set (pAll p) \<and> pgno g = n"
proof
  assume g: "g \<in> set (pAll p) \<and> pgno g = n"
  then have "pager_lookup p n \<noteq> None" unfolding lookup_None by blast
  then obtain h where h: "pager_lookup p n = Some h" by blast
  then have "h = g" using lookup_Some [OF h] g assms by (simp add: distinct_map inj_on_def)
  then show "pager_lookup p n = Some g" using h by simp
qed (rule lookup_Some)

lemma find_map_pgno:
  assumes "\<And>g. pgno (f g) = pgno g"
  shows "find (\<lambda>g. pgno g = m) (map f gs) = map_option f (find (\<lambda>g. pgno g = m) gs)"
  by (induction gs) (simp_all add: assms)

lemma lookup_map: "(\<And>g. pgno (f g) = pgno g) \<Longrightarrow> pager_lookup (p\<lparr>pAll := map f (pAll p)\<rparr>) m = map_option f (pager_lookup p m)"
  by (simp add: pager_lookup_def find_map_pgno)

lemma lookup_on_page:
  assumes "\<And>g. pgno (f g) = pgno g"
  shows "pager_lookup (on_page n f p) m = (if m = n then map_option f (pager_lookup p m) else pager_lookup p m)"
proof -
  have "pager_lookup (on_page n f p) m = map_option (\<lambda>g. if pgno g = n then f g else g) (pager_lookup p m)"
    unfolding on_page_def by (rule lookup_map) (simp add: assms)
  then show ?thesis by (cases "pager_lookup p m") (auto dest: lookup_Some)
qed

lemma pgno_on_page: "(\<And>g. pgno (f g) = pgno g) \<Longrightarrow> map pgno (pAll (on_page n f p)) = map pgno (pAll p)"
  by (simp add: on_page_def)

text \<open>Fields that changing a page leaves alone.\<close>

lemma on_page_fields [simp]:
  "outs (on_page n f p) = outs p" "fd (on_page n f p) = fd p" "jfd (on_page n f p) = jfd p" "cpfd (on_page n f p) = cpfd p"
  "dbSize (on_page n f p) = dbSize p" "origDbSize (on_page n f p) = origDbSize p" "state (on_page n f p) = state p"
  "journalOpen (on_page n f p) = journalOpen p" "errMask (on_page n f p) = errMask p" "pFree (on_page n f p) = pFree p"
  "pCkpt (on_page n f p) = pCkpt p" "nRef (on_page n f p) = nRef p" "nPage (on_page n f p) = nPage p"
  by (simp_all add: on_page_def)

section \<open>All pages at once\<close>

lemma clear_ckpt_all:
  assumes "distinct ns" "\<And>n. n \<in> set ns \<Longrightarrow> \<exists>g. pager_lookup p n = Some g \<and> inCkpt g"
  shows "clear_ckpt ns p = Some (p\<lparr>pAll := map (\<lambda>g. if pgno g \<in> set ns then g\<lparr>inCkpt := False\<rparr> else g) (pAll p)\<rparr>)"
  using assms
proof (induction ns arbitrary: p)
  case (Cons n ns)
  let ?p = "on_page n (\<lambda>g. g\<lparr>inCkpt := False\<rparr>) p"
  have "clear_ckpt ns ?p = Some (?p\<lparr>pAll := map (\<lambda>g. if pgno g \<in> set ns then g\<lparr>inCkpt := False\<rparr> else g) (pAll ?p)\<rparr>)"
  proof (rule Cons.IH)
    show "distinct ns" using Cons.prems(1) by simp
    fix m assume m: "m \<in> set ns"
    then have "m \<noteq> n" using Cons.prems(1) by auto
    then show "\<exists>g. pager_lookup ?p m = Some g \<and> inCkpt g" using Cons.prems(2) [of m] m by (simp add: lookup_on_page)
  qed
  moreover have "?p\<lparr>pAll := map (\<lambda>g. if pgno g \<in> set ns then g\<lparr>inCkpt := False\<rparr> else g) (pAll ?p)\<rparr>
      = p\<lparr>pAll := map (\<lambda>g. if pgno g \<in> set (n # ns) then g\<lparr>inCkpt := False\<rparr> else g) (pAll p)\<rparr>"
    by (simp add: on_page_def)
  moreover obtain g where "pager_lookup p n = Some g" "inCkpt g" using Cons.prems(2) [of n] by auto
  ultimately show ?case by (simp add: assertion_def)
qed simp

text \<open>The list of the checkpoint and the flags of the pages on it.\<close>

lemma not_inCkpt: "\<not> inCkpt g \<Longrightarrow> g\<lparr>inCkpt := False\<rparr> = g"
  by (cases g) simp

definition ckpt_list :: "pager \<Rightarrow> bool" where
  "ckpt_list p \<longleftrightarrow> distinct (pCkpt p) \<and> set (pCkpt p) = pgno ` {g \<in> set (pAll p). inCkpt g} \<and>
     (\<not> ckptInUse p \<longrightarrow> pCkpt p = [] \<and> aInCkpt p = None)"

lemma ckpt_commit_quiet:
  assumes "ckpt_list p" "distinct (map pgno (pAll p))"
  shows "\<exists>cf cn. sqlitepager_ckpt_commit p = Some (p\<lparr>cpfd := cf, ckptNRec := cn, ckptInUse := False, aInCkpt := None, pCkpt := [],
    ckptAutoopen := False, pAll := map (\<lambda>g. g\<lparr>inCkpt := False\<rparr>) (pAll p)\<rparr>)"
proof (cases "ckptInUse p")
  case True
  let ?p = "(cp_seek 0 p)\<lparr>ckptNRec := 0, ckptInUse := False, aInCkpt := None\<rparr>"
  have all: "pAll ?p = pAll p" by (simp add: cp_seek_def)
  have l: "pager_lookup ?p n = pager_lookup p n" for n by (simp add: pager_lookup_def cp_seek_def)
  have "clear_ckpt (pCkpt p) ?p = Some (?p\<lparr>pAll := map (\<lambda>g. if pgno g \<in> set (pCkpt p) then g\<lparr>inCkpt := False\<rparr> else g) (pAll ?p)\<rparr>)"
  proof (rule clear_ckpt_all)
    fix n assume "n \<in> set (pCkpt p)"
    then obtain g where "g \<in> set (pAll p)" "inCkpt g" "pgno g = n" using assms(1) by (auto simp: ckpt_list_def)
    then show "\<exists>g. pager_lookup ?p n = Some g \<and> inCkpt g" unfolding l using lookup_iff [OF assms(2)] by blast
  qed (use assms(1) in \<open>simp add: ckpt_list_def\<close>)
  moreover have "(if pgno g \<in> set (pCkpt p) then g\<lparr>inCkpt := False\<rparr> else g) = g\<lparr>inCkpt := False\<rparr>" if "g \<in> set (pAll p)" for g
    using that assms(1) by (cases "inCkpt g") (auto simp: ckpt_list_def not_inCkpt)
  then have "map (\<lambda>g. if pgno g \<in> set (pCkpt p) then g\<lparr>inCkpt := False\<rparr> else g) (pAll ?p) = map (\<lambda>g. g\<lparr>inCkpt := False\<rparr>) (pAll p)"
    unfolding all by (intro map_cong refl)
  ultimately show ?thesis
    using True by (intro exI [of _ "sqliteOsSeek 0 (cpfd p)"] exI [of _ 0]) (simp add: sqlitepager_ckpt_commit_def cp_seek_def)
next
  case False
  have "g\<lparr>inCkpt := False\<rparr> = g" if "g \<in> set (pAll p)" for g
    using that assms(1) False by (intro not_inCkpt) (auto simp: ckpt_list_def)
  then have "map (\<lambda>g. g\<lparr>inCkpt := False\<rparr>) (pAll p) = pAll p" by (intro map_idI) blast
  then show ?thesis
    using False assms(1)
    by (intro exI [of _ "cpfd p"] exI [of _ "ckptNRec p"]) (cases p; simp add: sqlitepager_ckpt_commit_def ckpt_list_def)
qed

definition plain_page :: "pghdr \<Rightarrow> pghdr" where
  \<comment> \<open>a page as the end of a transaction leaves it\<close>
  "plain_page g = g\<lparr>inCkpt := False, inJournal := False, dirty := False, pneedSync := False\<rparr>"

lemma plain_page_simps [simp]:
  "pgno (plain_page g) = pgno g" "pdata (plain_page g) = pdata g" "pextra (plain_page g) = pextra g" "pnRef (plain_page g) = pnRef g"
  "inCkpt (plain_page g) = False" "inJournal (plain_page g) = False" "dirty (plain_page g) = False" "pneedSync (plain_page g) = False"
  by (simp_all add: plain_page_def)

text \<open>The state after \<open>pager_unwritelock\<close>, up to the descriptor of the checkpoint journal.\<close>

definition unlocked :: "disk_file \<Rightarrow> nat \<Rightarrow> pager \<Rightarrow> pager" where
  "unlocked cf cn p = p\<lparr>cpfd := cf, ckptNRec := cn, ckptInUse := False, aInCkpt := None, pCkpt := [], ckptAutoopen := False, ckptOpen := False,
     journalOpen := False, jname := False, aInJournal := None, pAll := map plain_page (pAll p), flock := SQLITE_READLOCK, state := SQLITE_READLOCK\<rparr>"

lemma unwritelock_quiet:
  assumes "outs p = []" "state p = SQLITE_WRITELOCK" "journalOpen p" "ckpt_list p" "distinct (map pgno (pAll p))"
  shows "\<exists>cf cn. pager_unwritelock p = Some (SQLITE_OK, unlocked cf cn p)"
proof -
  obtain cf cn where "sqlitepager_ckpt_commit p = Some (p\<lparr>cpfd := cf, ckptNRec := cn, ckptInUse := False, aInCkpt := None, pCkpt := [],
    ckptAutoopen := False, pAll := map (\<lambda>g. g\<lparr>inCkpt := False\<rparr>) (pAll p)\<rparr>)"
    using ckpt_commit_quiet [OF assms(4,5)] by blast
  then show ?thesis
    using assms(1-3) by (intro exI [of _ cf] exI [of _ cn])
      (simp add: pager_unwritelock_def close_journal_def os_lock_def outcome_def unlocked_def plain_page_def comp_def)
qed

section \<open>Reading dirty pages again\<close>

definition refetched :: "bytes \<Rightarrow> int \<Rightarrow> pghdr \<Rightarrow> pghdr" where
  "refetched b N g =
     (if \<not> dirty g then g
      else let z = (if int (pgno g) \<le> N then page_at b (pgno g) else replicate SQLITE_PAGE_SIZE 0)
           in (if pnRef g = 0 \<or> z \<noteq> pdata g then restore_page z g else g)\<lparr>dirty := False, pneedSync := False\<rparr>)"

lemma refetched_pgno [simp]: "pgno (refetched b N g) = pgno g"
  by (simp add: refetched_def restore_page_def Let_def)

lemma refetch_one:
  assumes "outs p = []" "int (length (fbytes (fd p))) = origDbSize p * int SQLITE_PAGE_SIZE" "distinct (map pgno (pAll p))"
    and "pager_lookup p n = Some g" "0 < n" "n < 2 ^ 31"
  shows "\<exists>k. refetch_page n p = Some (SQLITE_OK, on_page n (refetched (fbytes (fd p)) (origDbSize p)) (p\<lparr>fd := (fd p)\<lparr>fpos := k\<rparr>\<rparr>))"
proof -
  let ?b = "fbytes (fd p)"
  have g: "pgno g = n" "g \<in> set (pAll p)" using assms(4) lookup_Some by blast+
  have only: "on_page n f p' = on_page n f' p'" if "f g = f' g" "pAll p' = pAll p" for f f' p'
  proof -
    have "h = g" if "h \<in> set (pAll p)" "pgno h = n" for h using that g assms(3) by (auto simp: distinct_map inj_on_def)
    then show ?thesis using that by (auto simp: on_page_def intro!: arg_cong [where f = "\<lambda>x. p'\<lparr>pAll := x\<rparr>"])
  qed
  have same: "p\<lparr>fd := (fd p)\<lparr>fpos := fpos (fd p)\<rparr>\<rparr> = p" by (cases p) simp
  consider "\<not> dirty g" | "dirty g" "int n \<le> origDbSize p" | "dirty g" "\<not> int n \<le> origDbSize p" by blast
  then show ?thesis
  proof cases
    case 1
    then have "on_page n (refetched ?b (origDbSize p)) p = on_page n (\<lambda>g. g) p" by (intro only) (simp_all add: refetched_def)
    moreover have "on_page n (\<lambda>g. g) p = p" by (cases p) (simp add: on_page_def)
    ultimately show ?thesis using 1 assms(4) same by (intro exI [of _ "fpos (fd p)"]) (simp add: refetch_page_def)
  next
    case 2
    have "int (n * SQLITE_PAGE_SIZE) \<le> int (length ?b)" using 2(2) assms(2) by (simp add: mult_right_mono)
    then have "n * SQLITE_PAGE_SIZE \<le> length ?b" by linarith
    then have r: "db_read SQLITE_PAGE_SIZE (db_seek (SQLITE_PAGE_SIZE * (n - 1)) p)
        = (SQLITE_OK, page_at ?b n, p\<lparr>fd := (fd p)\<lparr>fpos := n * SQLITE_PAGE_SIZE\<rparr>\<rparr>)"
      using db_read_page [OF assms(1,5)] by (simp add: mult.commute)
    have "refetch_page n p = Some (SQLITE_OK, on_page n (\<lambda>g.
        (if pnRef g = 0 \<or> page_at ?b n \<noteq> pdata g then restore_page (page_at ?b n) g else g)\<lparr>dirty := False, pneedSync := False\<rparr>)
        (p\<lparr>fd := (fd p)\<lparr>fpos := n * SQLITE_PAGE_SIZE\<rparr>\<rparr>))"
      using 2 assms(4,6) r by (simp add: refetch_page_def i32_small del: One_nat_def)
    also have "\<dots> = Some (SQLITE_OK, on_page n (refetched ?b (origDbSize p)) (p\<lparr>fd := (fd p)\<lparr>fpos := n * SQLITE_PAGE_SIZE\<rparr>\<rparr>))"
      using 2 g(1) by (intro arg_cong [where f = "\<lambda>x. Some (SQLITE_OK, x)"] only) (simp_all add: refetched_def)
    finally show ?thesis by blast
  next
    case 3
    have "refetch_page n p = Some (SQLITE_OK, on_page n (\<lambda>g.
        (if pnRef g = 0 \<or> replicate SQLITE_PAGE_SIZE 0 \<noteq> pdata g then restore_page (replicate SQLITE_PAGE_SIZE 0) g else g)\<lparr>dirty := False, pneedSync := False\<rparr>) p)"
      using 3 assms(4,6) by (simp add: refetch_page_def i32_small)
    also have "\<dots> = Some (SQLITE_OK, on_page n (refetched ?b (origDbSize p)) p)"
      using 3 g(1) by (intro arg_cong [where f = "\<lambda>x. Some (SQLITE_OK, x)"] only) (simp_all add: refetched_def)
    finally show ?thesis using same by (intro exI [of _ "fpos (fd p)"]) simp
  qed
qed

lemma pAll_fd: "pAll (p\<lparr>fd := f\<rparr>) = pAll p"
  by simp

lemma refetch_all:
  assumes "outs p = []" "fbytes (fd p) = b" "origDbSize p = N" "int (length b) = N * int SQLITE_PAGE_SIZE" "distinct (map pgno (pAll p))"
    and "distinct ns" "\<And>n. n \<in> set ns \<Longrightarrow> n \<in> pgno ` set (pAll p) \<and> 0 < n \<and> n < 2 ^ 31"
  shows "\<exists>k. refetch ns p = Some (SQLITE_OK, p\<lparr>fd := (fd p)\<lparr>fpos := k\<rparr>,
    pAll := map (\<lambda>g. if pgno g \<in> set ns then refetched b N g else g) (pAll p)\<rparr>)"
  using assms
proof (induction ns arbitrary: p)
  case Nil
  have "p\<lparr>fd := (fd p)\<lparr>fpos := fpos (fd p)\<rparr>, pAll := map (\<lambda>g. g) (pAll p)\<rparr> = p" by (cases p) simp
  then show ?case by (intro exI [of _ "fpos (fd p)"]) simp
next
  case (Cons n ns)
  let ?r = "refetched b N"
  obtain g where "pager_lookup p n = Some g" using Cons.prems(7) [of n] lookup_None [of p n] by (cases "pager_lookup p n") auto
  then obtain k where k: "refetch_page n p = Some (SQLITE_OK, on_page n ?r (p\<lparr>fd := (fd p)\<lparr>fpos := k\<rparr>\<rparr>))"
    using refetch_one [of p n g] Cons.prems by auto
  let ?p = "on_page n ?r (p\<lparr>fd := (fd p)\<lparr>fpos := k\<rparr>\<rparr>)"
  have "\<exists>k. refetch ns ?p = Some (SQLITE_OK, ?p\<lparr>fd := (fd ?p)\<lparr>fpos := k\<rparr>,
    pAll := map (\<lambda>g. if pgno g \<in> set ns then ?r g else g) (pAll ?p)\<rparr>)"
  proof (rule Cons.IH)
    show "distinct (map pgno (pAll ?p))" using Cons.prems(5) by (simp add: pgno_on_page)
    fix m assume m: "m \<in> set ns"
    have "set (map pgno (pAll ?p)) = set (map pgno (pAll p))" by (simp only: pgno_on_page refetched_pgno pAll_fd)
    then show "m \<in> pgno ` set (pAll ?p) \<and> 0 < m \<and> m < 2 ^ 31"
      using Cons.prems(7) [of m] m by simp
  qed (use Cons.prems in simp_all)
  then obtain k' where k': "refetch ns ?p = Some (SQLITE_OK, ?p\<lparr>fd := (fd ?p)\<lparr>fpos := k'\<rparr>,
    pAll := map (\<lambda>g. if pgno g \<in> set ns then ?r g else g) (pAll ?p)\<rparr>)" by blast
  have m: "map (\<lambda>g. if pgno g \<in> set ns then ?r g else g) (pAll ?p) = map (\<lambda>g. if pgno g \<in> set (n # ns) then ?r g else g) (pAll p)"
    using Cons.prems(6) by (auto simp: on_page_def)
  have "refetch (n # ns) p = Some (SQLITE_OK, ?p\<lparr>fd := (fd ?p)\<lparr>fpos := k'\<rparr>,
    pAll := map (\<lambda>g. if pgno g \<in> set (n # ns) then ?r g else g) (pAll p)\<rparr>)"
    using k k' unfolding m by simp
  then show ?case by (intro exI [of _ k']) (simp add: on_page_def)
qed

section \<open>A whole playback\<close>

text \<open>The number of records that the header and the size of the journal announce.\<close>

definition announced :: "bool \<Rightarrow> u32 \<Rightarrow> nat \<Rightarrow> int" where
  "announced u h szJ = (if h = 0xffffffff \<or> u then i32 ((szJ - JOURNAL_HDR_SZ 3) div JOURNAL_PG_SZ 3) else sint h)"

lemma jseek_pos: "j_seek 0 p = set_jpos JFD 0 p"
  by (simp add: j_seek_def sqliteOsSeek_def)

lemma playback_from_quiet:
  assumes q: "outs p = []" and dis: "distinct (map pgno (pAll p))" and pg: "\<And>g. g \<in> set (pAll p) \<Longrightarrow> 0 < pgno g \<and> pgno g < 2 ^ 31"
    and j: "fbytes (jfd p) = a @ be32 (word_of_nat N) @ jrecs 3 (cksumInit p) rs @ z" "fpos (jfd p) = length a"
    and N: "origDbSize p = int N \<or> (origDbSize p = 0 \<and> pAll p = [])" "N < 2 ^ 31"
    and rs: "recs_ok (int N) rs" and u: "usable p"
  shows "\<exists>f k. playback_from 3 (int (length rs)) p = Some (SQLITE_OK, set_jpos JFD k (p\<lparr>dbSize := int N, fd := f,
      pAll := map (\<lambda>g. refetched (fbytes f) (origDbSize p) (replay rs g)) (pAll p)\<rparr>))
    \<and> plays rs (resize (SQLITE_PAGE_SIZE * N) (fbytes (fd p))) (fbytes f)"
proof -
  define p1 where "p1 = set_jpos JFD (length a + 4) p"
  have r: "read32bits 3 JFD p = (SQLITE_OK, word_of_nat N, p1)"
    unfolding p1_def by (rule read32_exact [OF q]) (use j in simp_all)
  have un: "unat (word_of_nat N :: u32) = N" using N(2) by (rule word_of_nat_small)
  have s: "sint (word_of_nat N :: u32) = int N" using i32_small [OF N(2)] by (simp add: i32_def)
  define b where "b = resize (SQLITE_PAGE_SIZE * N) (fbytes (fd p))"
  define p2 where "p2 = p1\<lparr>fd := (fd p)\<lparr>fbytes := b\<rparr>, dbSize := int N\<rparr>"
  have t: "db_truncate (SQLITE_PAGE_SIZE * N) p1 = (SQLITE_OK, p1\<lparr>fd := (fd p)\<lparr>fbytes := b\<rparr>\<rparr>)"
    using quiet_calls(1) [of p1 "SQLITE_PAGE_SIZE * N"] q by (simp add: p1_def b_def)
  have "\<exists>f. ckpt_pages (length rs) JFD 3 p2
      = Some (SQLITE_OK, set_jpos JFD (length (a @ be32 (word_of_nat N)) + length rs * JOURNAL_PG_SZ 3) (p2\<lparr>fd := f, pAll := map (replay rs) (pAll p2)\<rparr>))
    \<and> plays rs (fbytes (fd p2)) (fbytes f)"
    by (rule ckpt_pages_all) (use q j rs N u in \<open>auto simp: p2_def p1_def usable_def\<close>)
  then obtain f where f: "ckpt_pages (length rs) JFD 3 p2
      = Some (SQLITE_OK, set_jpos JFD (length (a @ be32 (word_of_nat N)) + length rs * JOURNAL_PG_SZ 3) (p2\<lparr>fd := f, pAll := map (replay rs) (pAll p2)\<rparr>))"
    and pl: "plays rs b (fbytes f)" by (auto simp: p2_def)
  define p3 where "p3 = set_jpos JFD (length (a @ be32 (word_of_nat N)) + length rs * JOURNAL_PG_SZ 3) (p2\<lparr>fd := f, pAll := map (replay rs) (pAll p2)\<rparr>)"
  have p3: "outs p3 = []" "fd p3 = f" "pAll p3 = map (replay rs) (pAll p)" "origDbSize p3 = origDbSize p"
    using q by (simp_all add: p3_def p2_def p1_def)
  have pgs: "map pgno (pAll p3) = map pgno (pAll p)" by (simp add: p3)
  have le: "\<forall>r \<in> set rs. fst r \<le> N" using rs by (auto simp: recs_ok_def)
  then have len: "length (fbytes f) = SQLITE_PAGE_SIZE * N"
    using pl unfolding plays_def b_def by (metis mult.commute resize_length)
  have "\<exists>k. refetch (map pgno (pAll p3)) p3 = Some (SQLITE_OK, p3\<lparr>fd := (fd p3)\<lparr>fpos := k\<rparr>,
    pAll := map (\<lambda>g. refetched (fbytes f) (origDbSize p) g) (pAll p3)\<rparr>)"
  proof (cases "pAll p = []")
    case True
    have "p3\<lparr>fd := (fd p3)\<lparr>fpos := fpos (fd p3)\<rparr>, pAll := []\<rparr> = p3" using True p3(3) by (cases p3) simp
    then show ?thesis using True by (intro exI [of _ "fpos (fd p3)"]) (simp add: p3(3))
  next
    case False
    have "int (length (fbytes f)) = origDbSize p * int SQLITE_PAGE_SIZE" using False N(1) len by simp
    have small: "0 < n \<and> n < 2 ^ 31" if "n \<in> set (map pgno (pAll p3))" for n using that pg unfolding pgs by auto
    have "\<exists>k. refetch (map pgno (pAll p3)) p3 = Some (SQLITE_OK, p3\<lparr>fd := (fd p3)\<lparr>fpos := k\<rparr>,
      pAll := map (\<lambda>g. if pgno g \<in> set (map pgno (pAll p3)) then refetched (fbytes f) (origDbSize p) g else g) (pAll p3)\<rparr>)"
    proof (rule refetch_all)
      show "distinct (map pgno (pAll p3))" "distinct (map pgno (pAll p3))" using dis by (simp_all add: pgs)
      fix n assume "n \<in> set (map pgno (pAll p3))"
      then show "n \<in> pgno ` set (pAll p3) \<and> 0 < n \<and> n < 2 ^ 31" using small [of n] by simp
    qed (use p3 \<open>int (length (fbytes f)) = origDbSize p * int SQLITE_PAGE_SIZE\<close> in simp_all)
    moreover have "map (\<lambda>g. if pgno g \<in> set (map pgno (pAll p3)) then refetched (fbytes f) (origDbSize p) g else g) (pAll p3)
        = map (\<lambda>g. refetched (fbytes f) (origDbSize p) g) (pAll p3)" by (rule map_cong) auto
    ultimately show ?thesis by (simp only:)
  qed
  then obtain k where rf: "refetch (map pgno (pAll p3)) p3 = Some (SQLITE_OK, p3\<lparr>fd := f\<lparr>fpos := k\<rparr>,
    pAll := map (\<lambda>g. refetched (fbytes f) (origDbSize p) (replay rs g)) (pAll p)\<rparr>)" by (auto simp: p3 comp_def)
  have orig: "origDbSize p1 = 0 \<or> (word_of_int (origDbSize p1) :: u32) = word_of_nat N"
    using N(1) by (auto simp: p1_def)
  have "playback_from 3 (int (length rs)) p = (do { (rc, p) \<leftarrow> playback_pages (length rs) 3 p2;
      if rc \<noteq> SQLITE_OK then Some (rc, p) else refetch (map pgno (pAll p)) p })"
    using orig by (simp add: playback_from_def r un s t assertion_def p2_def)
  also have "\<dots> = refetch (map pgno (pAll p3)) p3"
    using ckpt_pages_ok [OF f [folded p3_def]] by simp
  also note rf
  finally have "playback_from 3 (int (length rs)) p = Some (SQLITE_OK, p3\<lparr>fd := f\<lparr>fpos := k\<rparr>,
    pAll := map (\<lambda>g. refetched (fbytes f) (origDbSize p) (replay rs g)) (pAll p)\<rparr>)" .
  moreover have "p3\<lparr>fd := f\<lparr>fpos := k\<rparr>, pAll := map (\<lambda>g. refetched (fbytes f) (origDbSize p) (replay rs g)) (pAll p)\<rparr>
      = set_jpos JFD (length (a @ be32 (word_of_nat N)) + length rs * JOURNAL_PG_SZ 3) (p\<lparr>dbSize := int N, fd := f\<lparr>fpos := k\<rparr>,
      pAll := map (\<lambda>g. refetched (fbytes (f\<lparr>fpos := k\<rparr>)) (origDbSize p) (replay rs g)) (pAll p)\<rparr>)"
    by (cases p) (simp add: p3_def p2_def p1_def)
  ultimately show ?thesis
    using pl by (intro exI [of _ "f\<lparr>fpos := k\<rparr>"] exI [of _ "length (a @ be32 (word_of_nat N)) + length rs * JOURNAL_PG_SZ 3"]) (simp add: b_def)
qed


definition played_pages :: "bytes \<Rightarrow> int \<Rightarrow> (nat \<times> bytes) list \<Rightarrow> pghdr list \<Rightarrow> pghdr list" where
  \<comment> \<open>the pages in memory after a playback that left the file b\<close>
  "played_pages b N rs gs = map (\<lambda>g. refetched b N (replay rs g)) gs"

text \<open>A transaction journal as the code writes it: header, records, and perhaps the start of one more.\<close>

definition journal_bytes :: "u32 \<Rightarrow> u32 \<Rightarrow> nat \<Rightarrow> (nat \<times> bytes) list \<Rightarrow> bytes" where
  "journal_bytes h c N rs = jhdr h c (word_of_nat N) @ jrecs 3 c rs"

lemma playback_journal_quiet:
  assumes q: "outs p = []" and dis: "distinct (map pgno (pAll p))" and pg: "\<And>g. g \<in> set (pAll p) \<Longrightarrow> 0 < pgno g \<and> pgno g < 2 ^ 31"
    and op: "journalOpen p" and j: "fbytes (jfd p) = journal_bytes h c N rs @ z"
    and N: "origDbSize p = int N \<or> (origDbSize p = 0 \<and> pAll p = [])" "N < 2 ^ 31"
    and rs: "recs_ok (int N) rs" and u: "usable p" and an: "announced u h (length (fbytes (jfd p))) = int (length rs)"
  shows "\<exists>f k. playback_journal u p = Some (SQLITE_OK, set_jpos JFD k (p\<lparr>cksumInit := c, dbSize := int N, fd := f,
      pAll := played_pages (fbytes f) (origDbSize p) rs (pAll p)\<rparr>))
    \<and> plays rs (resize (SQLITE_PAGE_SIZE * N) (fbytes (fd p))) (fbytes f)"
proof -
  let ?j = "fbytes (jfd p)"
  define m where "m = be32 (word_of_nat N) @ jrecs 3 c rs @ z"
  have j': "?j = aJournalMagic3 @ be32 h @ be32 c @ m" using j by (simp add: journal_bytes_def jhdr_def m_def)
  have len: "length aJournalMagic3 = 8" by (simp add: aJournalMagic3_def)
  define p0 where "p0 = set_jpos JFD 0 p"
  have b0: "fbytes (jfile JFD (set_jpos JFD k p)) = ?j" for k by simp
  have m1: "jrn_read JFD 8 p0 = (SQLITE_OK, aJournalMagic3, set_jpos JFD 8 p)"
    unfolding p0_def using jrn_read_exact [of "set_jpos JFD 0 p" JFD "[]" aJournalMagic3] q j' len by simp
  have m2: "read32bits 3 JFD (set_jpos JFD 8 p) = (SQLITE_OK, h, set_jpos JFD 12 p)"
    using read32_exact [of "set_jpos JFD 8 p" JFD aJournalMagic3 h "be32 c @ m" 3] q j' len by simp
  have m3: "read32bits 3 JFD (set_jpos JFD 12 p) = (SQLITE_OK, c, set_jpos JFD 16 p)"
    using read32_exact [of "set_jpos JFD 12 p" JFD "aJournalMagic3 @ be32 h" c m 3] q j' len by simp
  have sz: "\<not> length ?j < 8 + 3 * 4" "\<not> length ?j < 8 + 4" using j' len by (simp_all add: m_def)
  define p1 where "p1 = (set_jpos JFD 16 p)\<lparr>cksumInit := c\<rparr>"
  have "\<exists>f k. playback_from 3 (int (length rs)) p1 = Some (SQLITE_OK, set_jpos JFD k (p1\<lparr>dbSize := int N, fd := f,
      pAll := map (\<lambda>g. refetched (fbytes f) (origDbSize p1) (replay rs g)) (pAll p1)\<rparr>))
    \<and> plays rs (resize (SQLITE_PAGE_SIZE * N) (fbytes (fd p1))) (fbytes f)"
  proof (rule playback_from_quiet [where a = "aJournalMagic3 @ be32 h @ be32 c" and z = z])
    show "fbytes (jfd p1) = (aJournalMagic3 @ be32 h @ be32 c) @ be32 (word_of_nat N) @ jrecs 3 (cksumInit p1) rs @ z"
      using j' by (simp add: p1_def m_def)
  qed (use q dis pg N rs u len in \<open>simp_all add: p1_def usable_def\<close>)
  then obtain f k where f: "playback_from 3 (int (length rs)) p1 = Some (SQLITE_OK, set_jpos JFD k (p1\<lparr>dbSize := int N, fd := f,
      pAll := played_pages (fbytes f) (origDbSize p) rs (pAll p)\<rparr>))"
    "plays rs (resize (SQLITE_PAGE_SIZE * N) (fbytes (fd p))) (fbytes f)" by (auto simp: p1_def played_pages_def)
  have "playback_header u (length ?j) aJournalMagic3 (set_jpos JFD 8 p) = playback_from 3 (int (length rs)) p1"
    using sz an unfolding playback_header_def m2 m3 Let_def prod.case p1_def by (simp add: announced_def)
  moreover have "playback_journal u p = playback_header u (length ?j) aJournalMagic3 (set_jpos JFD 8 p)"
    using op sz m1 quiet_calls(4) [of p0] q by (simp add: playback_journal_def assertion_def jseek_pos p0_def)
  moreover have "set_jpos JFD k (p1\<lparr>dbSize := int N, fd := f, pAll := played_pages (fbytes f) (origDbSize p) rs (pAll p)\<rparr>)
      = set_jpos JFD k (p\<lparr>cksumInit := c, dbSize := int N, fd := f, pAll := played_pages (fbytes f) (origDbSize p) rs (pAll p)\<rparr>)"
    by (simp add: p1_def)
  ultimately show ?thesis using f by auto
qed

lemma refetched_flags [simp]:
  "inCkpt (refetched b N g) = inCkpt g" "inJournal (refetched b N g) = inJournal g" "pnRef (refetched b N g) = pnRef g"
  "\<not> dirty (refetched b N g)" "length (pextra (refetched b N g)) = length (pextra g)"
  by (simp_all add: refetched_def restore_page_def Let_def)

lemma replay_flags [simp]:
  "inCkpt (replay rs g) = inCkpt g" "inJournal (replay rs g) = inJournal g" "pnRef (replay rs g) = pnRef g"
  "length (pextra (replay rs g)) = length (pextra g)"
  by (simp_all add: replay_def split: option.split)

lemma ckpt_list_map:
  assumes "ckpt_list p" "\<And>g. pgno (f g) = pgno g \<and> inCkpt (f g) = inCkpt g" "pAll p' = map f (pAll p)"
    and "pCkpt p' = pCkpt p" "ckptInUse p' = ckptInUse p" "aInCkpt p' = aInCkpt p"
  shows "ckpt_list p'"
proof -
  have "pgno ` {g \<in> set (pAll p'). inCkpt g} = pgno ` {g \<in> set (pAll p). inCkpt g}"
    using assms(2,3) by (force simp: image_iff)
  then show ?thesis using assms by (simp add: ckpt_list_def)
qed

lemma playback_quiet:
  assumes "outs p = []" "distinct (map pgno (pAll p))" "\<And>g. g \<in> set (pAll p) \<Longrightarrow> 0 < pgno g \<and> pgno g < 2 ^ 31"
    and "journalOpen p" "fbytes (jfd p) = journal_bytes h c N rs @ z"
    and "origDbSize p = int N \<or> (origDbSize p = 0 \<and> pAll p = [])" "N < 2 ^ 31"
    and "recs_ok (int N) rs" "usable p" "announced u h (length (fbytes (jfd p))) = int (length rs)"
    and "state p = SQLITE_WRITELOCK" "ckpt_list p"
  shows "\<exists>f k cf cn. pager_playback u p = Some (SQLITE_OK, unlocked cf cn (set_jpos JFD k (p\<lparr>cksumInit := c, dbSize := int N, fd := f,
      pAll := played_pages (fbytes f) (origDbSize p) rs (pAll p)\<rparr>)))
    \<and> plays rs (resize (SQLITE_PAGE_SIZE * N) (fbytes (fd p))) (fbytes f)"
proof -
  obtain f k where f: "playback_journal u p = Some (SQLITE_OK, set_jpos JFD k (p\<lparr>cksumInit := c, dbSize := int N, fd := f,
      pAll := played_pages (fbytes f) (origDbSize p) rs (pAll p)\<rparr>))"
    "plays rs (resize (SQLITE_PAGE_SIZE * N) (fbytes (fd p))) (fbytes f)"
    using playback_journal_quiet [OF assms(1-10)] by blast
  let ?p = "set_jpos JFD k (p\<lparr>cksumInit := c, dbSize := int N, fd := f, pAll := played_pages (fbytes f) (origDbSize p) rs (pAll p)\<rparr>)"
  have "ckpt_list ?p"
    by (rule ckpt_list_map [OF assms(12), where f = "\<lambda>g. refetched (fbytes f) (origDbSize p) (replay rs g)"])
       (simp_all add: played_pages_def)
  moreover have "distinct (map pgno (pAll ?p))" using assms(2) by (simp add: played_pages_def comp_def)
  ultimately obtain cf cn where "pager_unwritelock ?p = Some (SQLITE_OK, unlocked cf cn ?p)"
    using unwritelock_quiet [of ?p] assms(1,4,11) by auto
  then show ?thesis using f by (auto simp: pager_playback_def)
qed

end
