(* ===== verification/PgInv.thy ===== *)
theory PgInv
  imports PgCache
begin

text \<open>
  The invariant of a pager: what its pages in memory, the database file and the journal have to do with
  the content \<open>B\<close> that the file had when no transaction was open. \<open>rs\<close> are the records of the
  journal. The parts speak about the map from page numbers to pages, so that a step is a change of that map.
\<close>

section \<open>The parts\<close>

type_synonym page_map = "nat \<Rightarrow> pghdr option"

definition SQLITE_MAX_PAGE :: nat where
  "SQLITE_MAX_PAGE = 1073741823"

definition npages :: "bytes \<Rightarrow> nat" where
  "npages b = length b div SQLITE_PAGE_SIZE"

definition aligned :: "bytes \<Rightarrow> bool" where
  "aligned b \<longleftrightarrow> length b = npages b * SQLITE_PAGE_SIZE"

definition file_ok :: "bytes \<Rightarrow> bool" where
  "file_ok b \<longleftrightarrow> aligned b \<and> npages b \<le> SQLITE_MAX_PAGE"

definition page_ok :: "nat \<Rightarrow> pghdr \<Rightarrow> bool" where
  "page_ok extra g \<longleftrightarrow> 0 < pgno g \<and> pgno g \<le> SQLITE_MAX_PAGE \<and> length (pdata g) = SQLITE_PAGE_SIZE \<and> length (pextra g) = extra"

definition sess :: "pager \<Rightarrow> bool" where
  \<comment> \<open>a database with a journal that may be written, no error so far, and a kernel that does what it is asked for\<close>
  "sess p \<longleftrightarrow> outs p = [] \<and> errMask p = 0 \<and> useJournal p \<and> \<not> tempFile p \<and> \<not> readOnly p \<and> length (heap p) = SQLITE_PAGE_SIZE"

definition first_free :: "pager \<Rightarrow> nat option" where
  "first_free p = (case pFree p of [] \<Rightarrow> None | n # _ \<Rightarrow> Some n)"

definition cache_ok :: "pager \<Rightarrow> bool" where
  "cache_ok p \<longleftrightarrow> distinct (map pgno (pAll p)) \<and> (\<forall>g \<in> set (pAll p). page_ok (nExtra p) g) \<and> nPage p = length (pAll p) \<and>
     distinct (pFree p) \<and> set (pFree p) = pgno ` {g \<in> set (pAll p). pnRef g = 0} \<and>
     nRef p = length (filter (\<lambda>g. 0 < pnRef g) (pAll p)) \<and> ckpt_list p"

text \<open>What the code keeps of \<open>needSync\<close> and of the first free page that needs no sync.\<close>

definition sync_at :: "page_map \<Rightarrow> nat \<Rightarrow> bool" where
  "sync_at L n \<longleftrightarrow> (\<exists>g. L n = Some g \<and> pneedSync g)"

definition sync_ok :: "pager \<Rightarrow> bool" where
  "sync_ok p \<longleftrightarrow>
     (\<forall>n. pFirstSynced p = Some n \<longrightarrow> n \<in> set (pFree p) \<and> \<not> sync_at (pager_lookup p) n) \<and>
     (\<not> needSync p \<longrightarrow> (\<forall>n. \<not> sync_at (pager_lookup p) n)) \<and>
     (noSync p \<longrightarrow> \<not> needSync p \<and> pFirstSynced p = first_free p)"

text \<open>
  \<open>N\<close> pages with content \<open>B\<close> when the transaction began, \<open>ns\<close> the pages in the journal, \<open>db\<close> the file as it
  is, \<open>ds\<close> the number of pages the database has for the pager.
\<close>

definition dirty_at :: "page_map \<Rightarrow> nat \<Rightarrow> bool" where
  "dirty_at L n \<longleftrightarrow> (\<exists>g. L n = Some g \<and> dirty g)"

definition extent :: "nat \<Rightarrow> bytes \<Rightarrow> nat \<Rightarrow> page_map \<Rightarrow> bool" where
  \<comment> \<open>the pages behind the end of the file are dirty in memory\<close>
  "extent N db ds L \<longleftrightarrow> aligned db \<and> N \<le> npages db \<and> npages db \<le> ds \<and>
     (\<forall>n. npages db < n \<longrightarrow> n \<le> ds \<longrightarrow> dirty_at L n)"

definition kept :: "nat \<Rightarrow> bytes \<Rightarrow> nat set \<Rightarrow> bytes \<Rightarrow> page_map \<Rightarrow> bool" where
  \<comment> \<open>the pages not in the journal are as they were\<close>
  "kept N B ns db L \<longleftrightarrow> (\<forall>n. 0 < n \<longrightarrow> n \<le> N \<longrightarrow> n \<notin> ns \<longrightarrow> page_at db n = page_at B n \<and> \<not> dirty_at L n)"

definition mirrors :: "bytes \<Rightarrow> nat \<Rightarrow> page_map \<Rightarrow> bool" where
  \<comment> \<open>the clean pages in memory are those of the file\<close>
  "mirrors db ds L \<longleftrightarrow> (\<forall>n g. 0 < n \<longrightarrow> n \<le> ds \<longrightarrow> L n = Some g \<longrightarrow> \<not> dirty g \<longrightarrow> pdata g = page_at db n)"

definition content :: "nat \<Rightarrow> bytes \<Rightarrow> nat set \<Rightarrow> bytes \<Rightarrow> nat \<Rightarrow> page_map \<Rightarrow> bool" where
  "content N B ns db ds L \<longleftrightarrow> extent N db ds L \<and> kept N B ns db L \<and> mirrors db ds L"

definition size_of :: "bytes \<Rightarrow> pager \<Rightarrow> nat" where
  "size_of B p = (if dbSize p < 0 then npages B else nat (dbSize p))"

definition in_read :: "bytes \<Rightarrow> pager \<Rightarrow> bool" where
  "in_read B p \<longleftrightarrow> \<not> journalOpen p \<and> \<not> jname p \<and> aInJournal p = None \<and> \<not> ckptInUse p \<and> fbytes (fd p) = B \<and>
     (dbSize p = -1 \<or> dbSize p = int (npages B)) \<and> (\<forall>n. \<not> dirty_at (pager_lookup p) n \<and> \<not> sync_at (pager_lookup p) n)"

definition journal_ok :: "bytes \<Rightarrow> (nat \<times> bytes) list \<Rightarrow> pager \<Rightarrow> bool" where
  \<comment> \<open>the journal holds the original content of the pages in \<open>rs\<close>, and the bits say which these are\<close>
  "journal_ok B rs p \<longleftrightarrow> journalOpen p \<and> jname p \<and> origDbSize p = int (npages B) \<and>
     recs_ok (int (npages B)) rs \<and> (\<forall>r \<in> set rs. snd r = page_at B (fst r)) \<and> nRec p = length rs \<and>
     (\<exists>h. fbytes (jfd p) = journal_bytes h (cksumInit p) (npages B) rs) \<and> fpos (jfd p) = length (fbytes (jfd p)) \<and>
     (\<exists>a. aInJournal p = Some a \<and> npages B < length a \<and> (\<forall>n \<le> npages B. a ! n \<longleftrightarrow> n \<in> fst ` set rs))"

definition ckpt_bits :: "bytes \<Rightarrow> pager \<Rightarrow> bool" where
  "ckpt_bits B p \<longleftrightarrow> (ckptInUse p \<longrightarrow>
     (\<exists>a. aInCkpt p = Some a \<and> ckptSize p < int (length a)) \<and> int (npages B) \<le> ckptSize p)"

definition write_flags :: "bytes \<Rightarrow> (nat \<times> bytes) list \<Rightarrow> pager \<Rightarrow> bool" where
  "write_flags B rs p \<longleftrightarrow> int (npages B) \<le> dbSize p \<and> dbSize p \<le> int SQLITE_MAX_PAGE \<and>
     (\<forall>n. dirty_at (pager_lookup p) n \<longrightarrow> dirtyFile p \<and> int n \<le> dbSize p) \<and>
     (\<not> dirtyFile p \<longrightarrow> rs = [] \<and> fbytes (fd p) = B \<and> dbSize p = int (npages B) \<and> \<not> needSync p \<and> \<not> journalStarted p) \<and>
     (dirtyFile p \<and> \<not> needSync p \<longrightarrow> pFirstSynced p = first_free p)"

text \<open>
  The number of records that the header of the journal announces. A page whose record is not announced
  needs a sync, and the file has its original content.
\<close>

definition header :: "pager \<Rightarrow> u32" where
  "header p = from_be32 (take 4 (drop 8 (fbytes (jfd p))))"

definition guarded :: "bytes \<Rightarrow> (nat \<times> bytes) list \<Rightarrow> pager \<Rightarrow> bool" where
  "guarded B rs p \<longleftrightarrow> (noSync p \<longrightarrow> header p = 0xffffffff) \<and>
     (header p = 0xffffffff \<or> unat (header p) \<le> length rs \<and> (\<forall>r \<in> set (drop (unat (header p)) rs).
        page_at (fbytes (fd p)) (fst r) = page_at B (fst r) \<and> sync_at (pager_lookup p) (fst r)))"

definition in_write :: "bytes \<Rightarrow> (nat \<times> bytes) list \<Rightarrow> pager \<Rightarrow> bool" where
  "in_write B rs p \<longleftrightarrow> journal_ok B rs p \<and> ckpt_bits B p \<and> write_flags B rs p \<and> guarded B rs p"

definition inv :: "bytes \<Rightarrow> (nat \<times> bytes) list \<Rightarrow> pager \<Rightarrow> bool" where
  "inv B rs p \<longleftrightarrow> sess p \<and> file_ok B \<and> cache_ok p \<and> sync_ok p \<and> 0 < nRef p \<and>
     content (npages B) B (fst ` set rs) (fbytes (fd p)) (size_of B p) (pager_lookup p) \<and>
     (\<forall>n g. pager_lookup p n = Some g \<longrightarrow> (inJournal g \<longleftrightarrow> n \<in> fst ` set rs)) \<and>
     (state p = SQLITE_READLOCK \<and> flock p = SQLITE_READLOCK \<and> rs = [] \<and> in_read B p \<or>
      state p = SQLITE_WRITELOCK \<and> flock p = SQLITE_WRITELOCK \<and> in_write B rs p)"

text \<open>The pager without a lock, with no page in memory.\<close>

definition idle :: "bytes \<Rightarrow> pager \<Rightarrow> bool" where
  "idle B p \<longleftrightarrow> sess p \<and> file_ok B \<and> fbytes (fd p) = B \<and> state p = SQLITE_UNLOCK \<and> flock p = SQLITE_UNLOCK \<and>
     pAll p = [] \<and> pFree p = [] \<and> pCkpt p = [] \<and> pFirstSynced p = None \<and> nPage p = 0 \<and> nRef p = 0 \<and> dbSize p = -1 \<and>
     \<not> journalOpen p \<and> \<not> jname p \<and> aInJournal p = None \<and> \<not> ckptInUse p \<and> aInCkpt p = None \<and> (noSync p \<longrightarrow> \<not> needSync p)"

text \<open>What the client sees as the content of a page.\<close>

definition logical :: "pager \<Rightarrow> nat \<Rightarrow> bytes" where
  "logical p n = (case pager_lookup p n of Some g \<Rightarrow> pdata g | None \<Rightarrow> page_at (fbytes (fd p)) n)"

text \<open>The references that the client holds to a page.\<close>

definition refs :: "pager \<Rightarrow> nat \<Rightarrow> nat" where
  "refs p n = (case pager_lookup p n of Some g \<Rightarrow> pnRef g | None \<Rightarrow> 0)"

section \<open>Facts of the parts\<close>

lemma max_page: "n \<le> SQLITE_MAX_PAGE \<Longrightarrow> n < 2 ^ 31"
  by (simp add: SQLITE_MAX_PAGE_def)

lemma i32_page: "n \<le> SQLITE_MAX_PAGE \<Longrightarrow> i32 n = int n"
  by (rule i32_small) (rule max_page)

lemma npages_mult: "length b = k * SQLITE_PAGE_SIZE \<Longrightarrow> npages b = k \<and> aligned b"
  by (simp add: npages_def aligned_def)

lemma cache_okD:
  assumes "cache_ok p"
  shows "distinct (map pgno (pAll p))" "distinct (pFree p)" "ckpt_list p" "nPage p = length (pAll p)"
    "nRef p = length (filter (\<lambda>g. 0 < pnRef g) (pAll p))"
    "set (pFree p) = pgno ` {g \<in> set (pAll p). pnRef g = 0}"
  using assms by (simp_all add: cache_ok_def)

lemma cache_page:
  assumes "cache_ok p" "pager_lookup p n = Some g"
  shows "pgno g = n" "0 < n" "n \<le> SQLITE_MAX_PAGE" "length (pdata g) = SQLITE_PAGE_SIZE" "length (pextra g) = nExtra p"
  using assms lookup_Some [of p n g] by (auto simp: cache_ok_def page_ok_def)

lemma cache_free: "cache_ok p \<Longrightarrow> n \<in> set (pFree p) \<longleftrightarrow> (\<exists>g. pager_lookup p n = Some g \<and> pnRef g = 0)"
  using lookup_iff [of p n] by (auto simp: cache_ok_def)

definition same_view :: "page_map \<Rightarrow> page_map \<Rightarrow> bool" where
  \<comment> \<open>the same pages, with the same data and the same dirty flags\<close>
  "same_view L L' \<longleftrightarrow> (\<forall>n. map_option (\<lambda>g. (dirty g, pdata g)) (L n) = map_option (\<lambda>g. (dirty g, pdata g)) (L' n))"

lemma same_view_dirty:
  assumes "same_view L L'"
  shows "dirty_at L' n = dirty_at L n"
proof -
  have "map_option (\<lambda>g. (dirty g, pdata g)) (L n) = map_option (\<lambda>g. (dirty g, pdata g)) (L' n)"
    using assms by (simp add: same_view_def)
  then show ?thesis by (cases "L n"; cases "L' n") (auto simp: dirty_at_def)
qed

lemma same_view_data:
  assumes "same_view L L'" "L' n = Some g'"
  shows "\<exists>g. L n = Some g \<and> dirty g = dirty g' \<and> pdata g = pdata g'"
proof -
  have "map_option (\<lambda>g. (dirty g, pdata g)) (L n) = map_option (\<lambda>g. (dirty g, pdata g)) (L' n)"
    using assms(1) by (simp add: same_view_def)
  then show ?thesis using assms(2) by (cases "L n") auto
qed

lemma mirrors_cong:
  assumes "mirrors db ds L" "same_view L L'"
  shows "mirrors db ds L'"
  unfolding mirrors_def
proof (intro allI impI)
  fix n g' assume a: "0 < n" "n \<le> ds" "L' n = Some g'" "\<not> dirty g'"
  obtain g where "L n = Some g" "dirty g = dirty g'" "pdata g = pdata g'" using same_view_data [OF assms(2) a(3)] by blast
  then show "pdata g' = page_at db n" using assms(1) a unfolding mirrors_def by metis
qed

lemma content_cong: "content N B ns db ds L \<Longrightarrow> same_view L L' \<Longrightarrow> content N B ns db ds L'"
  unfolding content_def extent_def kept_def by (auto simp: same_view_dirty intro: mirrors_cong)

lemma same_view_upd: "L n = Some g \<Longrightarrow> dirty g' = dirty g \<Longrightarrow> pdata g' = pdata g \<Longrightarrow> same_view L (L(n \<mapsto> g'))"
  by (simp add: same_view_def)

text \<open>A page that is not in memory has its content in the file.\<close>

lemma content_on_disk:
  assumes "content N B ns db ds L" "L n = None" "n \<le> ds"
  shows "n * SQLITE_PAGE_SIZE \<le> length db"
proof -
  have e: "extent N db ds L" using assms(1) by (simp add: content_def)
  have "\<not> dirty_at L n" using assms(2) by (simp add: dirty_at_def)
  then have "n \<le> npages db" using e assms(3) unfolding extent_def by (meson not_le_imp_less)
  then show ?thesis using e by (simp add: extent_def aligned_def mult_le_mono1)
qed

lemma dirty_at_upd [simp]: "dirty_at (L(n := x)) m \<longleftrightarrow> (if m = n then (\<exists>g. x = Some g \<and> dirty g) else dirty_at L m)"
  by (simp add: dirty_at_def)

lemma sync_at_upd [simp]: "sync_at (L(n := x)) m \<longleftrightarrow> (if m = n then (\<exists>g. x = Some g \<and> pneedSync g) else sync_at L m)"
  by (simp add: sync_at_def)

lemma content_add:
  assumes "content N B ns db ds L" "L n = None" "\<not> dirty g" "0 < n \<Longrightarrow> n \<le> ds \<Longrightarrow> pdata g = page_at db n"
  shows "content N B ns db ds (L(n \<mapsto> g))"
proof -
  have n: "\<not> dirty_at L n" using assms(2) by (simp add: dirty_at_def)
  have "dirty_at (L(n \<mapsto> g)) = dirty_at L" using n assms(3) by (intro ext) simp
  moreover have "mirrors db ds (L(n \<mapsto> g))" using assms by (simp add: content_def mirrors_def)
  ultimately show ?thesis using assms(1) by (simp add: content_def extent_def kept_def)
qed

lemma content_remove:
  assumes "content N B ns db ds L" "\<not> dirty_at L n"
  shows "content N B ns db ds (L(n := None))"
proof -
  have "dirty_at (L(n := None)) = dirty_at L" using assms(2) by (intro ext) simp
  moreover have "mirrors db ds (L(n := None))" using assms(1) by (simp add: content_def mirrors_def)
  ultimately show ?thesis using assms(1) by (simp add: content_def extent_def kept_def)
qed

text \<open>A dirty page is written to the file.\<close>

lemma put_page_npages:
  assumes "aligned db" "length d = SQLITE_PAGE_SIZE" "0 < n"
  shows "npages (put_at ((n - 1) * SQLITE_PAGE_SIZE) d db) = max (npages db) n \<and> aligned (put_at ((n - 1) * SQLITE_PAGE_SIZE) d db)"
proof (rule npages_mult)
  have "length (put_at ((n - 1) * SQLITE_PAGE_SIZE) d db) = max (length db) (n * SQLITE_PAGE_SIZE)"
    using assms(2) page_end [OF assms(3)] by (simp only: put_at_length)
  also have "\<dots> = max (npages db) n * SQLITE_PAGE_SIZE"
    using assms(1) unfolding aligned_def by (metis nat_mult_max_left)
  finally show "length (put_at ((n - 1) * SQLITE_PAGE_SIZE) d db) = max (npages db) n * SQLITE_PAGE_SIZE" .
qed

lemma content_write_back:
  assumes c: "content N B ns db ds L" and g: "L n = Some g" "dirty g" "length (pdata g) = SQLITE_PAGE_SIZE"
    and n: "0 < n" "n \<le> ds" and g': "dirty g' = False" "pdata g' = pdata g"
  shows "content N B ns (put_at ((n - 1) * SQLITE_PAGE_SIZE) (pdata g) db) ds (L(n \<mapsto> g'))"
proof -
  let ?db = "put_at ((n - 1) * SQLITE_PAGE_SIZE) (pdata g) db"
  have e: "extent N db ds L" and k: "kept N B ns db L" and m: "mirrors db ds L" using c by (simp_all add: content_def)
  have np: "npages ?db = max (npages db) n" "aligned ?db" using put_page_npages [OF _ g(3) n(1)] e by (simp_all add: extent_def)
  have pages: "page_at ?db m = (if m = n then pdata g else page_at db m)" if "0 < m" for m
    using page_put_at [OF g(3) n(1) that] .
  have gn: "dirty_at L n" using g by (simp add: dirty_at_def)
  have "extent N ?db ds (L(n \<mapsto> g'))"
    unfolding extent_def np(1) using e n(2) np(2) by (auto simp: extent_def)
  moreover have "kept N B ns ?db (L(n \<mapsto> g'))"
    unfolding kept_def using k gn g' pages by (auto simp: kept_def)
  moreover have "mirrors ?db ds (L(n \<mapsto> g'))"
    unfolding mirrors_def using m g' pages by (auto simp: mirrors_def)
  ultimately show ?thesis by (simp add: content_def)
qed

end
