(* ===== verification/PgEnd.thy ===== *)
theory PgEnd
  imports PgInv
begin

text \<open>
  The end of a transaction: rolling it back restores the file and the pages in memory, committing it
  puts the logical content of all pages into the file.
\<close>

lemmas iw_defs = in_write_def journal_ok_def write_flags_def

section \<open>Changing all pages\<close>

definition tame :: "(pghdr \<Rightarrow> pghdr) \<Rightarrow> bool" where
  \<comment> \<open>what the lists of pages depend on stays\<close>
  "tame f \<longleftrightarrow> (\<forall>g. pgno (f g) = pgno g \<and> pnRef (f g) = pnRef g \<and> length (pextra (f g)) = length (pextra g) \<and>
     (length (pdata g) = SQLITE_PAGE_SIZE \<longrightarrow> length (pdata (f g)) = SQLITE_PAGE_SIZE))"

lemma cache_ok_map:
  assumes "cache_ok p" "tame f" "pAll p' = map f (pAll p)" "pFree p' = pFree p" "nPage p' = nPage p" "nRef p' = nRef p"
    and "nExtra p' = nExtra p" "ckpt_list p'"
  shows "cache_ok p'"
proof -
  have f: "pgno (f g) = pgno g" "pnRef (f g) = pnRef g" for g using assms(2) by (simp_all add: tame_def)
  have A: "pgno ` {g \<in> set (pAll p'). pnRef g = 0} = pgno ` {g \<in> set (pAll p). pnRef g = 0}"
    using assms(3) f by (force simp: image_iff)
  have B: "length (filter (\<lambda>g. 0 < pnRef g) (pAll p')) = length (filter (\<lambda>g. 0 < pnRef g) (pAll p))"
    by (simp add: assms(3) filter_map comp_def f)
  have C: "map pgno (pAll p') = map pgno (pAll p)" by (simp add: assms(3) f)
  have D: "\<forall>g \<in> set (pAll p'). page_ok (nExtra p') g"
    using assms(1-3,7) by (auto simp: cache_ok_def page_ok_def tame_def)
  have E: "length (pAll p') = length (pAll p)" by (simp add: assms(3))
  show ?thesis using assms(1,4-8) D unfolding cache_ok_def A B C E by simp
qed

lemma lookup_map_all:
  assumes "pAll p' = map f (pAll p)" "tame f"
  shows "pager_lookup p' n = map_option f (pager_lookup p n)"
  using find_map_pgno [of f n "pAll p"] assms by (simp add: pager_lookup_def tame_def)

lemma refs_map_all: "pAll p' = map f (pAll p) \<Longrightarrow> tame f \<Longrightarrow> refs p' = refs p"
  by (rule ext) (simp add: refs_def lookup_map_all tame_def split: option.split)

lemma tame_comp: "tame f \<Longrightarrow> tame g \<Longrightarrow> tame (\<lambda>x. f (g x))"
  by (simp add: tame_def)

lemma tame_simps [simp]:
  "tame plain_page" "tame (refetched b N)" "tame (\<lambda>g. g\<lparr>pneedSync := False\<rparr>)"
  by (simp_all add: tame_def refetched_def restore_page_def Let_def)

lemma tame_replay: "recs_ok N rs \<Longrightarrow> tame (replay rs)"
  unfolding tame_def replay_def recs_ok_def by (fastforce split: option.split dest: map_of_SomeD)

lemma ckpt_list_plain: "pCkpt p = [] \<Longrightarrow> aInCkpt p = None \<Longrightarrow> pAll p = map plain_page gs \<Longrightarrow> ckpt_list p"
  by (auto simp: ckpt_list_def)

section \<open>Rollback\<close>

lemma recs_length:
  assumes "recs_ok (int N) rs"
  shows "length rs \<le> N"
proof -
  have "fst ` set rs \<subseteq> {1..N}" using assms by (auto simp: recs_ok_def Suc_le_eq)
  then have "card (fst ` set rs) \<le> card {1..N}" by (intro card_mono) simp_all
  moreover have "card (fst ` set rs) = length rs"
    using assms by (metis distinct_card length_map list.set_map recs_ok_def)
  ultimately show ?thesis by simp
qed

lemma journal_length:
  assumes "recs_ok N' rs"
  shows "length (journal_bytes h c N rs) = JOURNAL_HDR_SZ 3 + length rs * JOURNAL_PG_SZ 3"
  using recs_ok_length [OF assms] jhdr_length by (simp add: journal_bytes_def)

lemma announced_size:
  assumes "recs_ok (int N) rs" "N \<le> SQLITE_MAX_PAGE"
  shows "announced True h (length (journal_bytes h c N rs)) = int (length rs)"
proof -
  have "JOURNAL_PG_SZ 3 > 0" by (simp add: JOURNAL_PG_SZ_def)
  moreover have "length rs \<le> SQLITE_MAX_PAGE" using recs_length [OF assms(1)] assms(2) by simp
  ultimately show ?thesis using journal_length [OF assms(1)] i32_page by (simp add: announced_def)
qed

lemma map_of_rec:
  assumes "\<forall>r \<in> set rs. snd r = page_at B (fst r)"
  shows "map_of rs n = (if n \<in> fst ` set rs then Some (page_at B n) else None)"
proof (cases "map_of rs n")
  case None
  then show ?thesis by (simp add: map_of_eq_None_iff)
next
  case (Some d)
  then show ?thesis using assms map_of_SomeD [OF Some] by force
qed

lemma size_of_cong: "dbSize p' = dbSize p \<Longrightarrow> size_of B p' = size_of B p"
  by (simp add: size_of_def)

lemma invD:
  assumes "inv B rs p"
  shows "sess p" "file_ok B" "cache_ok p" "sync_ok p" "0 < nRef p"
    "content (npages B) B (fst ` set rs) (fbytes (fd p)) (size_of B p) (pager_lookup p)"
    "\<And>n g. pager_lookup p n = Some g \<Longrightarrow> inJournal g \<longleftrightarrow> n \<in> fst ` set rs"
  using assms by (simp_all add: inv_def)

lemma inv_writeI:
  assumes "sess p" "file_ok B" "cache_ok p" "sync_ok p" "0 < nRef p"
    and "content (npages B) B (fst ` set rs) (fbytes (fd p)) (size_of B p) (pager_lookup p)"
    and "\<And>n g. pager_lookup p n = Some g \<Longrightarrow> inJournal g \<longleftrightarrow> n \<in> fst ` set rs"
    and "state p = SQLITE_WRITELOCK" "flock p = SQLITE_WRITELOCK" "in_write B rs p"
  shows "inv B rs p"
  using assms by (simp add: inv_def)

lemma inv_write: "inv B rs p \<Longrightarrow> state p = SQLITE_WRITELOCK \<Longrightarrow> in_write B rs p \<and> flock p = SQLITE_WRITELOCK"
  by (simp add: inv_def)

lemma inv_read: "inv B rs p \<Longrightarrow> state p = SQLITE_READLOCK \<Longrightarrow> in_read B p \<and> flock p = SQLITE_READLOCK \<and> rs = []"
  by (simp add: inv_def)

lemma inv_states: "inv B rs p \<Longrightarrow> state p = SQLITE_READLOCK \<or> state p = SQLITE_WRITELOCK"
  by (auto simp: inv_def)

text \<open>What is left when a transaction has ended with the file \<open>B\<close>: a pager that only reads.\<close>

lemma ended_inv:
  assumes p: "sess p" "file_ok B" "cache_ok p" "sync_ok p" "0 < nRef p"
    and p': "outs p' = outs p" "errMask p' = errMask p" "useJournal p' = useJournal p" "tempFile p' = tempFile p" "heap p' = heap p" "readOnly p' = readOnly p"
      "pFree p' = pFree p" "nPage p' = nPage p" "nRef p' = nRef p" "nExtra p' = nExtra p" "noSync p' = noSync p"
    and sync: "pFirstSynced p' = pFirstSynced p \<and> needSync p' = needSync p \<or>
       pFirstSynced p' = first_free p \<and> \<not> needSync p'"
    and all: "pAll p' = map (\<lambda>g. plain_page (f g)) (pAll p)" "tame f"
    and e: "state p' = SQLITE_READLOCK" "flock p' = SQLITE_READLOCK" "\<not> journalOpen p'" "\<not> jname p'" "aInJournal p' = None"
      "\<not> ckptInUse p'" "aInCkpt p' = None" "pCkpt p' = []" "fbytes (fd p') = B" "dbSize p' = -1"
    and data: "\<And>n g. pager_lookup p n = Some g \<Longrightarrow> n \<le> npages B \<Longrightarrow> pdata (f g) = page_at B n"
  shows "inv B [] p' \<and> refs p' = refs p"
proof -
  have t: "tame (\<lambda>g. plain_page (f g))" using all(2) by (simp add: tame_comp)
  have l: "pager_lookup p' n = map_option (\<lambda>g. plain_page (f g)) (pager_lookup p n)" for n
    using lookup_map_all [OF all(1) t] .
  have ck: "ckpt_list p'" using e all(1) by (intro ckpt_list_plain [where gs = "map f (pAll p)"]) (simp_all add: comp_def)
  have cache: "cache_ok p'" using cache_ok_map [OF p(3) t all(1) p'(7-10) ck] .
  have ff: "first_free p' = first_free p" by (simp add: first_free_def p')
  have "sync_ok p'"
    unfolding sync_ok_def
  proof (intro conjI allI impI)
    fix n assume n: "pFirstSynced p' = Some n"
    have mem: "n \<in> set (pFree p)"
      using sync
    proof
      assume "pFirstSynced p' = pFirstSynced p \<and> needSync p' = needSync p"
      then show ?thesis using n p(4) by (simp add: sync_ok_def)
    next
      assume "pFirstSynced p' = first_free p \<and> \<not> needSync p'"
      then show ?thesis using n by (cases "pFree p") (simp_all add: first_free_def)
    qed
    then show "n \<in> set (pFree p')" by (simp add: p')
    show "\<not> sync_at (pager_lookup p') n" by (auto simp: sync_at_def l)
  next
    assume ns: "noSync p'"
    then show "\<not> needSync p'" "pFirstSynced p' = first_free p'" using sync p(4) p' ff by (auto simp: sync_ok_def)
  qed (auto simp: l sync_at_def)
  moreover have "content (npages B) B {} B (npages B) (pager_lookup p')"
    using p(2) data by (auto simp: content_def extent_def kept_def mirrors_def file_ok_def l dirty_at_def)
  ultimately show ?thesis
    using p p' e cache refs_map_all [OF all(1) t] by (auto simp: inv_def sess_def in_read_def size_of_def l dirty_at_def sync_at_def)
qed

lemma played_data:
  assumes "\<forall>r \<in> set rs. snd r = page_at B (fst r)" "n \<in> fst ` set rs \<or> \<not> dirty g \<and> pdata g = page_at B n" "pgno g = n"
  shows "pdata (refetched b N (replay rs g)) = page_at B n"
  using assms map_of_rec [OF assms(1), of n] by (auto simp: replay_def refetched_def split: option.splits)

text \<open>A file to which the records have been written back is the file from before the transaction.\<close>

lemma restored_file:
  assumes "file_ok B" and r: "recs_ok (int (npages B)) rs" "\<forall>r \<in> set rs. snd r = page_at B (fst r)"
    and k: "kept (npages B) B (fst ` set rs) db L" and pl: "plays rs (resize (SQLITE_PAGE_SIZE * npages B) db) b"
  shows "b = B"
proof (rule pages_eqI)
  show "length B = npages B * SQLITE_PAGE_SIZE" using assms(1) by (simp add: file_ok_def aligned_def)
  have "\<forall>r \<in> set rs. fst r \<le> npages B" using r(1) by (auto simp: recs_ok_def)
  then have "length b = length (resize (SQLITE_PAGE_SIZE * npages B) db)"
    using pl unfolding plays_def by (metis mult.commute resize_length)
  then show "length b = npages B * SQLITE_PAGE_SIZE" by (simp add: mult.commute)
  fix n assume n: "0 < n" "n \<le> npages B"
  show "page_at b n = page_at B n"
    using pl n k page_resize [OF n] map_of_rec [OF r(2), of n] by (auto simp: plays_def kept_def)
qed

lemma rollback_write:
  assumes i: "inv B rs p" and w: "state p = SQLITE_WRITELOCK" and u: "usable p"
  shows "\<exists>p'. sqlitepager_rollback p = Some (SQLITE_OK, p') \<and> inv B [] p' \<and> state p' = SQLITE_READLOCK \<and> refs p' = refs p"
proof -
  note c = invD [OF i]
  have wr: "in_write B rs p" using inv_write [OF i w] by blast
  have q: "outs p = []" "errMask p = 0" using c(1) by (simp_all add: sess_def)
  have op: "journalOpen p" using wr by (simp add: iw_defs)
  note ck = cache_okD [OF c(3)]
  show ?thesis
  proof (cases "dirtyFile p")
    case False
    obtain cf cn where un: "pager_unwritelock p = Some (SQLITE_OK, unlocked cf cn p)"
      using unwritelock_quiet [OF q(1) w op ck(3) ck(1)] by blast
    define p' where "p' = (unlocked cf cn p)\<lparr>dbSize := -1\<rparr>"
    have nod: "\<not> dirty g" if "pager_lookup p n = Some g" for n g
      using wr that False by (auto simp: in_write_def write_flags_def dirty_at_def)
    have fb: "fbytes (fd p) = B" "size_of B p = npages B" using wr False by (auto simp: iw_defs size_of_def)
    have "inv B [] p' \<and> refs p' = refs p"
    proof (rule ended_inv [OF c(1-5), where f = "\<lambda>g. g"])
      fix n g assume g: "pager_lookup p n = Some g" "n \<le> npages B"
      then show "pdata g = page_at B n"
        using c(6) nod [OF g(1)] cache_page [OF c(3) g(1)] fb by (auto simp: content_def mirrors_def)
    qed (use fb in \<open>simp_all add: p'_def unlocked_def tame_def\<close>)
    then show ?thesis using un False by (simp add: sqlitepager_rollback_def p'_def unlocked_def)
  next
    case True
    obtain h where j: "fbytes (jfd p) = journal_bytes h (cksumInit p) (npages B) rs" using wr by (auto simp: iw_defs)
    have r: "recs_ok (int (npages B)) rs" "\<forall>r \<in> set rs. snd r = page_at B (fst r)" and o: "origDbSize p = int (npages B)"
      using wr by (simp_all add: iw_defs)
    have N: "npages B \<le> SQLITE_MAX_PAGE" "aligned B" using c(2) by (simp_all add: file_ok_def)
    have small: "0 < pgno g \<and> pgno g < 2 ^ 31" if "g \<in> set (pAll p)" for g
      using that c(3) max_page by (auto simp: cache_ok_def page_ok_def)
    have "\<exists>f k cf cn. pager_playback True p = Some (SQLITE_OK, unlocked cf cn (set_jpos JFD k (p\<lparr>cksumInit := cksumInit p, dbSize := int (npages B), fd := f,
        pAll := played_pages (fbytes f) (origDbSize p) rs (pAll p)\<rparr>)))
      \<and> plays rs (resize (SQLITE_PAGE_SIZE * npages B) (fbytes (fd p))) (fbytes f)"
      by (rule playback_quiet [where h = h and z = "[]"])
         (use q ck small op j o r u w max_page [OF N(1)] announced_size [OF r(1) N(1)] in simp_all)
    then obtain f k cf cn where pb: "pager_playback True p = Some (SQLITE_OK, unlocked cf cn (set_jpos JFD k (p\<lparr>cksumInit := cksumInit p, dbSize := int (npages B), fd := f,
        pAll := played_pages (fbytes f) (origDbSize p) rs (pAll p)\<rparr>)))"
      and pl: "plays rs (resize (SQLITE_PAGE_SIZE * npages B) (fbytes (fd p))) (fbytes f)" by blast
    have kp: "kept (npages B) B (fst ` set rs) (fbytes (fd p)) (pager_lookup p)" using c(6) by (simp add: content_def)
    have kept: "page_at (fbytes (fd p)) n = page_at B n \<and> \<not> dirty_at (pager_lookup p) n" if "0 < n" "n \<le> npages B" "n \<notin> fst ` set rs" for n
      using kp that by (simp add: kept_def)
    have fB: "fbytes f = B" using restored_file [OF c(2) r kp pl] .
    define p' where "p' = (unlocked cf cn (set_jpos JFD k (p\<lparr>cksumInit := cksumInit p, dbSize := int (npages B), fd := f,
        pAll := played_pages (fbytes f) (origDbSize p) rs (pAll p)\<rparr>)))\<lparr>dbSize := -1\<rparr>"
    have "inv B [] p' \<and> refs p' = refs p"
    proof (rule ended_inv [OF c(1-5), where f = "\<lambda>g. refetched (fbytes f) (origDbSize p) (replay rs g)"])
      show "tame (\<lambda>g. refetched (fbytes f) (origDbSize p) (replay rs g))"
        using tame_comp [OF _ tame_replay [OF r(1)]] by simp
      fix n g assume g: "pager_lookup p n = Some g" "n \<le> npages B"
      have n: "0 < n" "pgno g = n" using cache_page [OF c(3) g(1)] by simp_all
      have "n \<in> fst ` set rs \<or> \<not> dirty g \<and> pdata g = page_at B n"
      proof (cases "n \<in> fst ` set rs")
        case False
        then have k: "page_at (fbytes (fd p)) n = page_at B n" "\<not> dirty g" using kept [OF n(1) g(2)] g(1) by (auto simp: dirty_at_def)
        have "n \<le> size_of B p" using g(2) wr by (auto simp: size_of_def iw_defs)
        then show ?thesis using c(6) k g n by (simp add: content_def mirrors_def)
      qed simp
      then show "pdata (refetched (fbytes f) (origDbSize p) (replay rs g)) = page_at B n"
        using played_data [OF r(2) _ n(2)] by blast
    qed (use fB in \<open>simp_all add: p'_def unlocked_def played_pages_def\<close>)
    then show ?thesis using pb True op w q(2) by (simp add: sqlitepager_rollback_def p'_def unlocked_def)
  qed
qed

section \<open>Syncing the journal\<close>

lemma put_header:
  "put_at 8 (be32 w) (journal_bytes h c N rs) = journal_bytes w c N rs"
proof -
  have "journal_bytes h c N rs = aJournalMagic3 @ be32 h @ (be32 c @ be32 (word_of_nat N) @ jrecs 3 c rs)"
    by (simp add: journal_bytes_def jhdr_def)
  then show ?thesis by (simp add: put_at_def journal_bytes_def jhdr_def aJournalMagic3_def)
qed

definition synced :: "u32 \<Rightarrow> pager \<Rightarrow> pager" where
  \<comment> \<open>the pager after its journal has been synced, with the new number of records in the header\<close>
  "synced h p = p\<lparr>jfd := \<lparr>fbytes = put_at 8 (be32 h) (fbytes (jfd p)), fpos = fpos (jfd p)\<rparr>, journalStarted := True, needSync := False,
     pAll := map (\<lambda>g. g\<lparr>pneedSync := False\<rparr>) (pAll p), pFirstSynced := first_free p\<rparr>"

lemma sync_quiet:
  assumes i: "inv B rs p" and w: "state p = SQLITE_WRITELOCK" and n: "needSync p"
  shows "syncJournal p = Some (SQLITE_OK, synced (word_of_nat (nRec p)) p)"
proof -
  have wr: "in_write B rs p" using inv_write [OF i w] by blast
  have q: "outs p = []" and t: "\<not> tempFile p" using invD(1) [OF i] by (simp_all add: sess_def)
  obtain h where j: "fbytes (jfd p) = journal_bytes h (cksumInit p) (npages B) rs" using wr by (auto simp: iw_defs)
  have r: "recs_ok (int (npages B)) rs" "nRec p = length rs" "journalOpen p" "fpos (jfd p) = length (fbytes (jfd p))"
    using wr by (simp_all add: iw_defs)
  have len: "length (fbytes (jfd p)) = nRec p * JOURNAL_PG_SZ 3 + JOURNAL_HDR_SZ 3"
    using journal_length [OF r(1)] j r(2) by simp
  let ?p = "p\<lparr>jfd := kwrite (be32 (word_of_nat (nRec p))) (sqliteOsSeek 8 (jfd p))\<rparr>"
  have wq: "write32bits (word_of_nat (nRec p)) (j_seek 8 p) = (SQLITE_OK, ?p)"
    using write32_quiet [of "j_seek 8 p"] q by (simp add: j_seek_def)
  have "sync_file p = Some (SQLITE_OK, ?p\<lparr>jfd := (jfd ?p)\<lparr>fpos := JOURNAL_HDR_SZ 3 + nRec p * JOURNAL_PG_SZ 3\<rparr>, journalStarted := True\<rparr>)"
    using q r(3) len wq quiet_calls(4,5) [OF q] quiet_calls(5) [of "j_seek (JOURNAL_HDR_SZ 3 + nRec p * JOURNAL_PG_SZ 3) ?p"]
    by (simp add: sync_file_def assertion_def j_seek_def sqliteOsSeek_def)
  also have "?p\<lparr>jfd := (jfd ?p)\<lparr>fpos := JOURNAL_HDR_SZ 3 + nRec p * JOURNAL_PG_SZ 3\<rparr>, journalStarted := True\<rparr>
      = p\<lparr>jfd := \<lparr>fbytes = put_at 8 (be32 (word_of_nat (nRec p))) (fbytes (jfd p)), fpos = fpos (jfd p)\<rparr>, journalStarted := True\<rparr>"
    using len r(4) by (simp add: kwrite_def sqliteOsSeek_def)
  finally show ?thesis using n t by (simp add: syncJournal_def synced_def first_free_def)
qed

lemma sync_none:
  assumes "sync_ok p" "\<not> needSync p" "pFirstSynced p = first_free p" "cache_ok p"
  shows "syncJournal p = Some (SQLITE_OK, p)"
proof -
  have "list_all (\<lambda>g. \<not> pneedSync g) (pAll p)"
    using assms(1,2) lookup_iff [OF cache_okD(1) [OF assms(4)]] by (auto simp: sync_ok_def list_all_iff sync_at_def)
  then show ?thesis using assms(2,3) by (simp add: syncJournal_def assertion_def first_free_def)
qed

lemma synced_lookup: "pager_lookup (synced h p) n = map_option (\<lambda>g. g\<lparr>pneedSync := False\<rparr>) (pager_lookup p n)"
  by (rule lookup_map_all) (simp_all add: synced_def)

lemma synced_fields [simp]:
  "outs (synced h p) = outs p" "errMask (synced h p) = errMask p" "fd (synced h p) = fd p" "dbSize (synced h p) = dbSize p"
  "state (synced h p) = state p" "noSync (synced h p) = noSync p" "journalOpen (synced h p) = journalOpen p" "nRef (synced h p) = nRef p"
  "pFree (synced h p) = pFree p" "\<not> needSync (synced h p)" "pFirstSynced (synced h p) = first_free p" "dirtyFile (synced h p) = dirtyFile p"
  "pAll (synced h p) = map (\<lambda>g. g\<lparr>pneedSync := False\<rparr>) (pAll p)" "first_free (synced h p) = first_free p"
  "nPage (synced h p) = nPage p" "mxPage (synced h p) = mxPage p" "nExtra (synced h p) = nExtra p" "cksumInit (synced h p) = cksumInit p"
  "useJournal (synced h p) = useJournal p" "readOnly (synced h p) = readOnly p" "tempFile (synced h p) = tempFile p" "heap (synced h p) = heap p" "flock (synced h p) = flock p"
  by (simp_all add: synced_def first_free_def)

lemma synced_logical [simp]: "logical (synced h p) n = logical p n"
  by (simp add: logical_def synced_lookup split: option.split)

lemma sync_ok_free:
  assumes "pFirstSynced p = first_free p" "\<And>n. \<not> sync_at (pager_lookup p) n" "noSync p \<Longrightarrow> \<not> needSync p"
  shows "sync_ok p"
  using assms by (cases "pFree p") (auto simp: sync_ok_def first_free_def)

lemma sync_at_map:
  assumes "pAll p' = map f (pAll p)" "tame f" "\<And>g. pneedSync (f g) = pneedSync g"
  shows "sync_at (pager_lookup p') = sync_at (pager_lookup p)"
  by (rule ext) (simp add: sync_at_def lookup_map_all [OF assms(1,2)] assms(3) map_option_case split: option.split)

lemma header_journal: "fbytes (jfd p) = journal_bytes h c N rs \<Longrightarrow> header p = h"
  by (simp add: header_def journal_bytes_def jhdr_def aJournalMagic3_def be32_length [unfolded be32_def] be32_def flip: be32_def)

lemma synced_refs [simp]: "refs (synced h p) = refs p"
  by (rule refs_map_all [where f = "\<lambda>g. g\<lparr>pneedSync := False\<rparr>"]) (simp_all add: synced_def)

lemma synced_inv:
  assumes i: "inv B rs p" and w: "state p = SQLITE_WRITELOCK" and need: "needSync p" and h: "h = word_of_nat (nRec p)"
  shows "inv B rs (synced h p)"
proof -
  note c = invD [OF i]
  have wr: "in_write B rs p" "flock p = SQLITE_WRITELOCK" using inv_write [OF i w] by blast+
  have df: "dirtyFile p" "\<not> noSync p" using wr need c(4) by (auto simp: in_write_def write_flags_def sync_ok_def)
  note l = synced_lookup [of h p]
  have sv: "same_view (pager_lookup p) (pager_lookup (synced h p))" unfolding same_view_def l by (simp add: option.map_comp comp_def)
  have ck: "ckpt_list (synced h p)"
    by (rule ckpt_list_map [OF cache_okD(3) [OF c(3)], where f = "\<lambda>g. g\<lparr>pneedSync := False\<rparr>"]) (simp_all add: synced_def)
  have cache: "cache_ok (synced h p)"
    by (rule cache_ok_map [OF c(3), where f = "\<lambda>g. g\<lparr>pneedSync := False\<rparr>"]) (simp_all add: ck)
  have "sync_ok (synced h p)" by (rule sync_ok_free) (auto simp: l sync_at_def)
  moreover have "in_write B rs (synced h p)"
  proof -
    obtain h0 where j: "fbytes (jfd p) = journal_bytes h0 (cksumInit p) (npages B) rs" using wr by (auto simp: iw_defs)
    have r: "recs_ok (int (npages B)) rs" using wr by (simp add: iw_defs)
    have j': "fbytes (jfd (synced h p)) = journal_bytes h (cksumInit p) (npages B) rs" by (simp add: synced_def j put_header)
    have len: "fpos (jfd (synced h p)) = length (fbytes (jfd (synced h p)))"
      unfolding j' using wr j journal_length [OF r] by (simp add: synced_def iw_defs)
    have "journal_ok B rs (synced h p)"
      using wr(1) j' len unfolding in_write_def journal_ok_def by (auto simp: synced_def)
    moreover have "ckpt_bits B (synced h p)" using wr(1) by (simp add: in_write_def ckpt_bits_def synced_def)
    moreover have "write_flags B rs (synced h p)"
      using wr(1) same_view_dirty [OF sv] df unfolding in_write_def write_flags_def by (simp only: synced_fields) simp
    moreover have "guarded B rs (synced h p)"
    proof -
      have "length rs < 2 ^ 31" using recs_length [OF r] c(2) max_page [of "length rs"] by (simp add: file_ok_def)
      then have "unat h = length rs" using wr(1) by (simp add: h word_of_nat_small in_write_def journal_ok_def)
      then show ?thesis using header_journal [OF j'] df(2) by (simp add: guarded_def)
    qed
    ultimately show ?thesis by (simp add: in_write_def)
  qed
  moreover have "content (npages B) B (fst ` set rs) (fbytes (fd (synced h p))) (size_of B (synced h p)) (pager_lookup (synced h p))"
    using content_cong [OF c(6) sv] size_of_cong [of "synced h p" p] by simp
  moreover have "sess (synced h p)" using c(1) by (simp add: sess_def)
  moreover have "inJournal g \<longleftrightarrow> n \<in> fst ` set rs" if g: "pager_lookup (synced h p) n = Some g" for n g
  proof -
    obtain z where z: "pager_lookup p n = Some z" "g = z\<lparr>pneedSync := False\<rparr>" using g by (cases "pager_lookup p n") (simp_all add: l)
    then show ?thesis using c(7) [OF z(1)] by simp
  qed
  ultimately show ?thesis using c(2,5) cache wr(2) w by (intro inv_writeI) simp_all
qed

section \<open>Writing dirty pages\<close>

definition wrote :: "nat set \<Rightarrow> disk_file \<Rightarrow> pager \<Rightarrow> pager" where
  "wrote ns f p = p\<lparr>fd := f, pAll := map (\<lambda>g. if pgno g \<in> ns then g\<lparr>dirty := False\<rparr> else g) (pAll p)\<rparr>"

lemma wrote_tame: "tame (\<lambda>g. if pgno g \<in> ns then g\<lparr>dirty := False\<rparr> else g)"
  by (simp add: tame_def)

lemma wrote_refs [simp]: "refs (wrote ns f p) = refs p"
  by (rule refs_map_all [OF _ wrote_tame [of ns]]) (simp add: wrote_def)

lemma wrote_lookup: "pager_lookup (wrote ns f p) n = map_option (\<lambda>g. if pgno g \<in> ns then g\<lparr>dirty := False\<rparr> else g) (pager_lookup p n)"
  by (rule lookup_map_all) (simp_all add: wrote_def wrote_tame)

lemma wrote_one:
  assumes "pager_lookup p n = Some g" "distinct (map pgno (pAll p))"
  shows "pager_lookup (wrote {n} f p) = (pager_lookup p)(n \<mapsto> g\<lparr>dirty := False\<rparr>)"
proof
  fix m show "pager_lookup (wrote {n} f p) m = ((pager_lookup p)(n \<mapsto> g\<lparr>dirty := False\<rparr>)) m"
  proof (cases "m = n")
    case True
    then show ?thesis using assms(1) lookup_Some [OF assms(1)] by (simp add: wrote_lookup)
  next
    case False
    then show ?thesis using lookup_Some [of p m] by (cases "pager_lookup p m") (simp_all add: wrote_lookup)
  qed
qed

lemma write_pagelist_quiet:
  assumes "outs p = []" "distinct (map pgno (pAll p))" "distinct ns"
    and "\<And>n. n \<in> set ns \<Longrightarrow> 0 < n \<and> n \<le> ds \<and> (\<exists>g. pager_lookup p n = Some g \<and> dirty g \<and> length (pdata g) = SQLITE_PAGE_SIZE)"
    and "content N B js (fbytes (fd p)) ds (pager_lookup p)"
  shows "\<exists>f. pager_write_pagelist ns p = Some (SQLITE_OK, wrote (set ns) f p) \<and>
    content N B js (fbytes f) ds (pager_lookup (wrote (set ns) f p)) \<and> (\<forall>m > 0. logical (wrote (set ns) f p) m = logical p m) \<and>
    (\<forall>m > 0. m \<notin> set ns \<longrightarrow> page_at (fbytes f) m = page_at (fbytes (fd p)) m)"
  using assms
proof (induction ns arbitrary: p)
  case Nil
  have "wrote {} (fd p) p = p" by (cases p) (simp add: wrote_def)
  then show ?case using Nil by (intro exI [of _ "fd p"]) simp
next
  case (Cons n ns)
  obtain g where g: "pager_lookup p n = Some g" "dirty g" "length (pdata g) = SQLITE_PAGE_SIZE" and n: "0 < n" "n \<le> ds"
    using Cons.prems(4) [of n] by auto
  define f where "f = \<lparr>fbytes = put_at ((n - 1) * SQLITE_PAGE_SIZE) (pdata g) (fbytes (fd p)), fpos = (n - 1) * SQLITE_PAGE_SIZE + SQLITE_PAGE_SIZE\<rparr>"
  define p1 where "p1 = wrote {n} f p"
  have w: "db_write (pdata g) (db_seek ((n - 1) * SQLITE_PAGE_SIZE) p) = (SQLITE_OK, p\<lparr>fd := f\<rparr>)"
    using db_write_page [OF Cons.prems(1) g(3)] by (simp add: f_def)
  have p1: "on_page n (\<lambda>g. g\<lparr>dirty := False\<rparr>) (p\<lparr>fd := f\<rparr>) = p1" by (simp add: on_page_def p1_def wrote_def)
  have l1: "pager_lookup p1 = (pager_lookup p)(n \<mapsto> g\<lparr>dirty := False\<rparr>)"
    unfolding p1_def by (rule wrote_one [OF g(1) Cons.prems(2)])
  have c1: "content N B js (fbytes (fd p1)) ds (pager_lookup p1)"
    unfolding l1 using content_write_back [OF Cons.prems(5) g n, of "g\<lparr>dirty := False\<rparr>"] by (simp add: p1_def wrote_def f_def)
  have lg: "logical p1 m = logical p m" if "0 < m" for m
  proof (cases "pager_lookup p m")
    case None
    then have "m \<noteq> n" using g(1) by auto
    then show ?thesis using None l1 page_put_at [OF g(3) n(1) that] by (simp add: logical_def p1_def wrote_def f_def)
  qed (use g(1) in \<open>auto simp: logical_def l1\<close>)
  have pg: "page_at (fbytes (fd p1)) m = page_at (fbytes (fd p)) m" if "0 < m" "m \<noteq> n" for m
    using page_put_at [OF g(3) n(1) that(1)] that(2) by (simp add: p1_def wrote_def f_def)
  have "\<exists>f. pager_write_pagelist ns p1 = Some (SQLITE_OK, wrote (set ns) f p1) \<and>
    content N B js (fbytes f) ds (pager_lookup (wrote (set ns) f p1)) \<and> (\<forall>m > 0. logical (wrote (set ns) f p1) m = logical p1 m) \<and>
    (\<forall>m > 0. m \<notin> set ns \<longrightarrow> page_at (fbytes f) m = page_at (fbytes (fd p1)) m)"
  proof (rule Cons.IH)
    show "distinct (map pgno (pAll p1))" using Cons.prems(2) by (simp add: p1_def wrote_def comp_def if_distrib cong: if_cong)
    fix m assume "m \<in> set ns"
    then show "0 < m \<and> m \<le> ds \<and> (\<exists>g. pager_lookup p1 m = Some g \<and> dirty g \<and> length (pdata g) = SQLITE_PAGE_SIZE)"
      using Cons.prems(3) Cons.prems(4) [of m] by (auto simp: l1)
  qed (use Cons.prems c1 in \<open>simp_all add: p1_def wrote_def\<close>)
  then obtain f' where f': "pager_write_pagelist ns p1 = Some (SQLITE_OK, wrote (set ns) f' p1)"
    "content N B js (fbytes f') ds (pager_lookup (wrote (set ns) f' p1))" "\<forall>m > 0. logical (wrote (set ns) f' p1) m = logical p1 m"
    "\<forall>m > 0. m \<notin> set ns \<longrightarrow> page_at (fbytes f') m = page_at (fbytes (fd p1)) m" by blast
  have e: "wrote (set ns) f' p1 = wrote (set (n # ns)) f' p"
    using Cons.prems(3) by (auto simp: p1_def wrote_def)
  have "pager_write_pagelist (n # ns) p = pager_write_pagelist ns p1"
    using g w p1 by (simp add: assertion_def del: One_nat_def)
  then show ?case using f' lg pg unfolding e by (intro exI [of _ f']) simp
qed

section \<open>Commit\<close>

lemma clean_content:
  assumes c: "content N B ns db ds L" and cl: "\<And>n. \<not> dirty_at L n"
  shows "npages db = ds \<and> aligned db \<and> (\<forall>n g. 0 < n \<longrightarrow> n \<le> ds \<longrightarrow> L n = Some g \<longrightarrow> pdata g = page_at db n)"
proof -
  have e: "extent N db ds L" and m: "mirrors db ds L" using c by (simp_all add: content_def)
  have "npages db = ds" using e cl unfolding extent_def by (meson le_neq_implies_less order_refl)
  then show ?thesis using e m cl by (auto simp: extent_def mirrors_def dirty_at_def)
qed

lemma commit_done_quiet:
  assumes i: "inv B rs p" and w: "state p = SQLITE_WRITELOCK" and cl: "\<forall>n. \<not> dirty_at (pager_lookup p) n"
  shows "\<exists>p'. commit_done p = Some (SQLITE_OK, p') \<and> inv (fbytes (fd p)) [] p' \<and> state p' = SQLITE_READLOCK \<and> fd p' = fd p \<and> refs p' = refs p \<and>
    npages (fbytes (fd p)) = size_of B p \<and> (\<forall>n > 0. n \<le> size_of B p \<longrightarrow> page_at (fbytes (fd p)) n = logical p n)"
proof -
  note c = invD [OF i]
  have wr: "in_write B rs p" using inv_write [OF i w] by blast
  have q: "outs p = []" "journalOpen p" using c(1) wr by (simp_all add: sess_def iw_defs)
  note ck = cache_okD [OF c(3)]
  obtain cf cn where un: "pager_unwritelock p = Some (SQLITE_OK, unlocked cf cn p)"
    using unwritelock_quiet [OF q(1) w q(2) ck(3) ck(1)] by blast
  define p' where "p' = (unlocked cf cn p)\<lparr>dbSize := -1\<rparr>"
  have cc: "npages (fbytes (fd p)) = size_of B p" "aligned (fbytes (fd p))"
    "\<And>n g. 0 < n \<Longrightarrow> n \<le> size_of B p \<Longrightarrow> pager_lookup p n = Some g \<Longrightarrow> pdata g = page_at (fbytes (fd p)) n"
    using clean_content [OF c(6)] cl by auto
  have "size_of B p \<le> SQLITE_MAX_PAGE" using wr c(2) by (auto simp: size_of_def iw_defs file_ok_def)
  then have fo: "file_ok (fbytes (fd p))" using cc by (simp add: file_ok_def)
  have "inv (fbytes (fd p)) [] p' \<and> refs p' = refs p"
  proof (rule ended_inv [OF c(1) fo c(3-5), where f = "\<lambda>g. g"])
    fix n g assume "pager_lookup p n = Some g" "n \<le> npages (fbytes (fd p))"
    then show "pdata g = page_at (fbytes (fd p)) n" using cc cache_page [OF c(3)] by metis
  qed (simp_all add: p'_def unlocked_def tame_def)
  moreover have "\<forall>n > 0. n \<le> size_of B p \<longrightarrow> page_at (fbytes (fd p)) n = logical p n"
    using cc(3) by (auto simp: logical_def split: option.split)
  ultimately show ?thesis using un cc(1) by (simp add: commit_done_def p'_def unlocked_def)
qed

lemma wrote_fields [simp]:
  "outs (wrote ns f p) = outs p" "errMask (wrote ns f p) = errMask p" "fd (wrote ns f p) = f" "dbSize (wrote ns f p) = dbSize p"
  "state (wrote ns f p) = state p" "noSync (wrote ns f p) = noSync p" "journalOpen (wrote ns f p) = journalOpen p" "nRef (wrote ns f p) = nRef p"
  "pFree (wrote ns f p) = pFree p" "needSync (wrote ns f p) = needSync p" "pFirstSynced (wrote ns f p) = pFirstSynced p"
  "dirtyFile (wrote ns f p) = dirtyFile p" "first_free (wrote ns f p) = first_free p" "flock (wrote ns f p) = flock p"
  "useJournal (wrote ns f p) = useJournal p" "readOnly (wrote ns f p) = readOnly p" "tempFile (wrote ns f p) = tempFile p" "heap (wrote ns f p) = heap p"
  "nExtra (wrote ns f p) = nExtra p" "mxPage (wrote ns f p) = mxPage p" "nPage (wrote ns f p) = nPage p" "aInJournal (wrote ns f p) = aInJournal p"
  by (simp_all add: wrote_def first_free_def)

lemma wrote_inv:
  assumes i: "inv B rs p" and w: "state p = SQLITE_WRITELOCK" "dirtyFile p"
    and c': "content (npages B) B (fst ` set rs) (fbytes f) (size_of B p) (pager_lookup (wrote ns f p))"
    and ns: "\<And>m. m \<in> ns \<Longrightarrow> \<not> sync_at (pager_lookup p) m" "\<And>m. 0 < m \<Longrightarrow> m \<notin> ns \<Longrightarrow> page_at (fbytes f) m = page_at (fbytes (fd p)) m"
  shows "inv B rs (wrote ns f p)"
proof -
  note c = invD [OF i]
  have wr: "in_write B rs p" "flock p = SQLITE_WRITELOCK" using inv_write [OF i w(1)] by blast+
  let ?f = "\<lambda>g. if pgno g \<in> ns then g\<lparr>dirty := False\<rparr> else g"
  note l = wrote_lookup [of ns f p]
  have ck: "ckpt_list (wrote ns f p)"
    by (rule ckpt_list_map [OF cache_okD(3) [OF c(3)], where f = ?f]) (simp_all add: wrote_def)
  have cache: "cache_ok (wrote ns f p)"
    by (rule cache_ok_map [OF c(3) wrote_tame [of ns]]) (use ck in \<open>simp_all add: wrote_def\<close>)
  have sy: "sync_at (pager_lookup (wrote ns f p)) = sync_at (pager_lookup p)"
    by (rule sync_at_map [of "wrote ns f p" ?f p]) (simp_all add: wrote_tame [of ns] wrote_def)
  have "sync_ok (wrote ns f p)" using c(4) sy by (simp add: sync_ok_def wrote_def first_free_def)
  moreover have "guarded B rs (wrote ns f p)"
  proof -
    have "recs_ok (int (npages B)) rs" using wr(1) by (simp add: in_write_def journal_ok_def)
    then have pos: "0 < fst r" if "r \<in> set (drop k rs)" for r k using that by (auto simp: recs_ok_def dest: in_set_dropD)
    have "header (wrote ns f p) = header p" by (simp add: header_def wrote_def)
    then show ?thesis using wr(1) ns pos unfolding in_write_def guarded_def sy by (metis wrote_fields(3,6))
  qed
  moreover have "write_flags B rs (wrote ns f p)"
    using wr(1) w(2) unfolding in_write_def write_flags_def dirty_at_def by (auto simp: l split: if_splits)
  moreover have "journal_ok B rs (wrote ns f p)" "ckpt_bits B (wrote ns f p)"
    using wr(1) by (simp_all add: in_write_def journal_ok_def ckpt_bits_def wrote_def)
  moreover have "inJournal g \<longleftrightarrow> n \<in> fst ` set rs" if g: "pager_lookup (wrote ns f p) n = Some g" for n g
  proof -
    obtain z where z: "pager_lookup p n = Some z" "g = ?f z" using g by (cases "pager_lookup p n") (auto simp: l)
    then show ?thesis using c(7) [OF z(1)] by simp
  qed
  ultimately show ?thesis using c(1,2,5) c' cache wr(2) w by (intro inv_writeI) (simp_all add: sess_def in_write_def size_of_cong [of "wrote ns f p" p])
qed

lemma synced_or_same:
  assumes i: "inv B rs p" and w: "state p = SQLITE_WRITELOCK" "dirtyFile p"
  shows "\<exists>p1. syncJournal p = Some (SQLITE_OK, p1) \<and> inv B rs p1 \<and> \<not> needSync p1 \<and> pFirstSynced p1 = first_free p1 \<and>
    (p1 = p \<or> p1 = synced (word_of_nat (nRec p)) p)"
proof (cases "needSync p")
  case True
  then show ?thesis using sync_quiet [OF i w(1)] synced_inv [OF i w(1) True refl] by auto
next
  case False
  have "pFirstSynced p = first_free p" using inv_write [OF i w(1)] w(2) False by (simp add: in_write_def write_flags_def)
  then show ?thesis using sync_none [OF invD(4) [OF i] False _ invD(3) [OF i]] i False by auto
qed

lemma commit_write:
  assumes i: "inv B rs p" and w: "state p = SQLITE_WRITELOCK"
  shows "\<exists>p'. sqlitepager_commit p = Some (SQLITE_OK, p') \<and> inv (fbytes (fd p')) [] p' \<and> state p' = SQLITE_READLOCK \<and> refs p' = refs p \<and>
    npages (fbytes (fd p')) = size_of B p \<and> (\<forall>n > 0. n \<le> size_of B p \<longrightarrow> page_at (fbytes (fd p')) n = logical p n)"
proof -
  have wr: "in_write B rs p" using inv_write [OF i w] by blast
  have e: "errMask p = 0" "journalOpen p" using invD(1) [OF i] wr by (simp_all add: sess_def iw_defs)
  have e1: "errMask p \<noteq> PAGER_ERR_FULL" using e(1) by (simp add: PAGER_ERR_FULL_def)
  show ?thesis
  proof (cases "dirtyFile p")
    case False
    have cl: "\<forall>n. \<not> dirty_at (pager_lookup p) n"
      using wr False by (auto simp: in_write_def write_flags_def)
    have "\<not> needSync p" using wr False by (simp add: in_write_def write_flags_def)
    then show ?thesis
      using commit_done_quiet [OF i w cl] False e e1 w by (auto simp: sqlitepager_commit_def assertion_def)
  next
    case True
    obtain p1 where p1: "syncJournal p = Some (SQLITE_OK, p1)" "inv B rs p1" "p1 = p \<or> p1 = synced (word_of_nat (nRec p)) p" "\<not> needSync p1"
      using synced_or_same [OF i w True] by blast
    have s1: "state p1 = SQLITE_WRITELOCK" "dirtyFile p1" "size_of B p1 = size_of B p" "\<And>n. logical p1 n = logical p n" "refs p1 = refs p"
      using p1(3) w True size_of_cong [of p1 p] by auto
    have q1: "outs p1 = []" using invD(1) [OF p1(2)] by (simp add: sess_def)
    define ns where "ns = pager_get_all_dirty_pages p1"
    have start: "sqlitepager_commit p = (if ns = [] then commit_done p1
             else do {
               (rc, p) \<leftarrow> pager_write_pagelist ns p1;
               let (rc, p) = (if rc = SQLITE_OK \<and> \<not> noSync p then db_sync p else (rc, p));
               if rc \<noteq> SQLITE_OK then commit_abort p else commit_done p })"
      using e e1 w True p1(1) by (simp add: sqlitepager_commit_def assertion_def ns_def Let_def)
    have mem: "n \<in> set ns \<longleftrightarrow> dirty_at (pager_lookup p1) n" for n
      using lookup_iff [OF cache_okD(1) [OF invD(3) [OF p1(2)]]]
      by (force simp: ns_def pager_get_all_dirty_pages_def dirty_at_def)
    show ?thesis
    proof (cases "ns = []")
      case ns: True
      have "\<forall>n. \<not> dirty_at (pager_lookup p1) n" using mem ns by auto
      then show ?thesis using commit_done_quiet [OF p1(2) s1(1)] start ns s1(3-5) by auto
    next
      case ns: False
      have wr1: "in_write B rs p1" using inv_write [OF p1(2) s1(1)] by blast
      have "\<exists>f. pager_write_pagelist ns p1 = Some (SQLITE_OK, wrote (set ns) f p1) \<and>
        content (npages B) B (fst ` set rs) (fbytes f) (size_of B p1) (pager_lookup (wrote (set ns) f p1)) \<and>
        (\<forall>m > 0. logical (wrote (set ns) f p1) m = logical p1 m) \<and> (\<forall>m > 0. m \<notin> set ns \<longrightarrow> page_at (fbytes f) m = page_at (fbytes (fd p1)) m)"
      proof (rule write_pagelist_quiet [OF q1 cache_okD(1) [OF invD(3) [OF p1(2)]]])
        show "distinct ns" using cache_okD(1) [OF invD(3) [OF p1(2)]]
          by (simp add: ns_def pager_get_all_dirty_pages_def distinct_map_filter)
        fix n assume "n \<in> set ns"
        then obtain g where g: "pager_lookup p1 n = Some g" "dirty g" using mem by (auto simp: dirty_at_def)
        then have "int n \<le> dbSize p1" using wr1 by (auto simp: in_write_def write_flags_def dirty_at_def)
        then show "0 < n \<and> n \<le> size_of B p1 \<and> (\<exists>g. pager_lookup p1 n = Some g \<and> dirty g \<and> length (pdata g) = SQLITE_PAGE_SIZE)"
          using g cache_page [OF invD(3) [OF p1(2)] g(1)] by (auto simp: size_of_def)
      qed (rule invD(6) [OF p1(2)])
      then obtain f where f: "pager_write_pagelist ns p1 = Some (SQLITE_OK, wrote (set ns) f p1)"
        "content (npages B) B (fst ` set rs) (fbytes f) (size_of B p1) (pager_lookup (wrote (set ns) f p1))"
        "\<forall>m > 0. logical (wrote (set ns) f p1) m = logical p1 m" "\<forall>m > 0. m \<notin> set ns \<longrightarrow> page_at (fbytes f) m = page_at (fbytes (fd p1)) m" by blast
      have "\<not> sync_at (pager_lookup p1) m" for m using invD(4) [OF p1(2)] p1(4) by (simp add: sync_ok_def)
      then have i2: "inv B rs (wrote (set ns) f p1)" using wrote_inv [OF p1(2) s1(1,2) f(2)] f(4) by blast
      have cl: "\<forall>n. \<not> dirty_at (pager_lookup (wrote (set ns) f p1)) n"
      proof (intro allI notI)
        fix n assume "dirty_at (pager_lookup (wrote (set ns) f p1)) n"
        then obtain z where z: "pager_lookup p1 n = Some z" "dirty (if pgno z \<in> set ns then z\<lparr>dirty := False\<rparr> else z)"
          by (auto simp: dirty_at_def wrote_lookup)
        then show False using mem [of n] lookup_Some [OF z(1)] by (auto simp: dirty_at_def split: if_splits)
      qed
      have start2: "sqlitepager_commit p = commit_done (wrote (set ns) f p1)"
        using start ns f(1) quiet_calls(3) [of "wrote (set ns) f p1"] q1 by simp
      obtain p' where p': "commit_done (wrote (set ns) f p1) = Some (SQLITE_OK, p')" "inv (fbytes f) [] p'" "fd p' = f"
        "state p' = SQLITE_READLOCK" "refs p' = refs p" "npages (fbytes f) = size_of B (wrote (set ns) f p1)"
        "\<forall>n > 0. n \<le> size_of B (wrote (set ns) f p1) \<longrightarrow> page_at (fbytes f) n = logical (wrote (set ns) f p1) n"
        using commit_done_quiet [OF i2 _ cl] s1(1,5) by auto
      have sz: "size_of B (wrote (set ns) f p1) = size_of B p" using s1(3) size_of_cong [of "wrote (set ns) f p1" p1] by simp
      show ?thesis using p' start2 f(3) s1(4) unfolding sz by auto
    qed
  qed
qed

end
