(* ===== verification/PgRefs.thy ===== *)
theory PgRefs
  imports PgEnd
begin

text \<open>
  Taking and releasing references to pages: the free list, its first page that needs no sync, and
  the count of pages in use. When the last page is released, the pager rolls back and unlocks the file.
\<close>

section \<open>Counting\<close>

lemma count_upd:
  assumes "distinct (map pgno gs)" "g \<in> set gs" "pgno g = n"
  shows "length (filter P (map (\<lambda>g. if pgno g = n then f g else g) gs)) + (if P g then 1 else 0)
       = length (filter P gs) + (if P (f g) then 1 else 0)"
  using assms
proof (induction gs)
  case (Cons h gs)
  show ?case
  proof (cases "h = g")
    case True
    have "n \<notin> pgno ` set gs" using Cons.prems True by simp
    then have "map (\<lambda>g. if pgno g = n then f g else g) gs = gs" by (intro map_idI) force
    then show ?thesis using True Cons.prems by simp
  next
    case False
    then have "pgno h \<noteq> n" using Cons.prems by auto
    then show ?thesis using Cons False by simp
  qed
qed simp

lemma on_page_fields' [simp]:
  "pFirstSynced (on_page n f p) = pFirstSynced p" "needSync (on_page n f p) = needSync p" "noSync (on_page n f p) = noSync p"
  "dirtyFile (on_page n f p) = dirtyFile p" "nExtra (on_page n f p) = nExtra p" "mxPage (on_page n f p) = mxPage p"
  "ckptInUse (on_page n f p) = ckptInUse p" "aInCkpt (on_page n f p) = aInCkpt p" "aInJournal (on_page n f p) = aInJournal p"
  "ckptSize (on_page n f p) = ckptSize p" "useJournal (on_page n f p) = useJournal p" "flock (on_page n f p) = flock p"
  "journalStarted (on_page n f p) = journalStarted p" "cksumInit (on_page n f p) = cksumInit p"
  by (simp_all add: on_page_def)

lemma only_page:
  assumes "distinct (map pgno gs)" "g \<in> set gs" "pgno g = n" "h \<in> set gs"
  shows "pgno h = n \<longleftrightarrow> h = g"
  using assms by (auto simp: distinct_map inj_on_def)

lemma set_upd:
  assumes "distinct (map pgno gs)" "g \<in> set gs" "pgno g = n"
  shows "set (map (\<lambda>g. if pgno g = n then f g else g) gs) = insert (f g) (set gs - {g})"
proof -
  have "map (\<lambda>g. if pgno g = n then f g else g) gs = map (\<lambda>h. if h = g then f g else h) gs"
    using only_page [OF assms] by (intro map_cong) auto
  then show ?thesis using assms(2) by auto
qed

lemma on_page_one:
  assumes "distinct (map pgno (pAll p))" "pager_lookup p n = Some g" "\<And>g. pgno (f g) = pgno g"
  shows "pager_lookup (on_page n f p) = (pager_lookup p)(n \<mapsto> f g)"
  using assms(2) by (auto simp: lookup_on_page [OF assms(3)])

section \<open>The free list\<close>

lemma next_synced_Some:
  "next_synced p ns = Some m \<Longrightarrow> m \<in> set ns \<and> \<not> sync_at (pager_lookup p) m"
  by (auto simp: next_synced_def find_Some_iff sync_at_def split: option.splits)

lemma next_synced_head:
  assumes "\<And>m. \<not> sync_at (pager_lookup p) m" "\<And>m. m \<in> set ns \<Longrightarrow> pager_lookup p m \<noteq> None"
  shows "next_synced p ns = (case ns of [] \<Rightarrow> None | m # _ \<Rightarrow> Some m)"
proof (cases ns)
  case (Cons m ms)
  then obtain g where "pager_lookup p m = Some g" using assms(2) [of m] by auto
  then show ?thesis using assms(1) [of m] Cons by (simp add: next_synced_def sync_at_def)
qed (simp add: next_synced_def)

lemma behind_Cons [simp]: "behind n (m # ns) = (if m = n then ns else behind n ns)"
  by (simp add: behind_def)

lemma behind_set: "distinct ns \<Longrightarrow> set (behind n ns) \<subseteq> set (remove1 n ns)"
  by (induction ns) (auto simp: behind_def)

lemma unlink_shape: "\<exists>fs. unlink_free n p = p\<lparr>pFree := remove1 n (pFree p), pFirstSynced := fs\<rparr>"
proof (cases "pFirstSynced p = Some n")
  case False
  then show ?thesis by (intro exI [of _ "pFirstSynced p"]) (cases p; simp add: unlink_free_def)
next
  case True
  then show ?thesis by (intro exI [of _ "next_synced p (behind n (pFree p))"]) (simp add: unlink_free_def)
qed

lemma unlink_sync:
  assumes c: "cache_ok p" and s: "sync_ok p" and n: "n \<in> set (pFree p)"
  shows "pFirstSynced (unlink_free n p) = Some m \<Longrightarrow> m \<in> set (remove1 n (pFree p)) \<and> \<not> sync_at (pager_lookup p) m"
    and "\<lbrakk>\<And>m. \<not> sync_at (pager_lookup p) m; pFirstSynced p = first_free p\<rbrakk>
      \<Longrightarrow> pFirstSynced (unlink_free n p) = first_free (unlink_free n p)"
proof -
  note d = cache_okD(2) [OF c]
  show "m \<in> set (remove1 n (pFree p)) \<and> \<not> sync_at (pager_lookup p) m" if m: "pFirstSynced (unlink_free n p) = Some m"
  proof (cases "pFirstSynced p = Some n")
    case True
    then have "next_synced p (behind n (pFree p)) = Some m" using m by (simp add: unlink_free_def)
    then show ?thesis using next_synced_Some behind_set [OF d] by blast
  next
    case False
    then have "pFirstSynced p = Some m" "m \<noteq> n" using m by (auto simp: unlink_free_def)
    then show ?thesis using s by (simp add: sync_ok_def)
  qed
  show "pFirstSynced (unlink_free n p) = first_free (unlink_free n p)"
    if a: "\<And>m. \<not> sync_at (pager_lookup p) m" "pFirstSynced p = first_free p"
  proof (cases "pFree p")
    case (Cons x ns)
    show ?thesis
    proof (cases "x = n")
      case True
      have "pager_lookup p m \<noteq> None" if "m \<in> set ns" for m using that cache_free [OF c, of m] Cons by auto
      then have "next_synced p ns = (case ns of [] \<Rightarrow> None | m # _ \<Rightarrow> Some m)" using a(1) by (intro next_synced_head) auto
      then show ?thesis using True Cons a(2) by (simp add: unlink_free_def first_free_def)
    next
      case False
      then show ?thesis using Cons a(2) by (simp add: unlink_free_def first_free_def)
    qed
  qed (use n in simp)
qed

section \<open>A change of references\<close>

lemma inv_readI:
  assumes "sess p" "file_ok B" "cache_ok p" "sync_ok p" "0 < nRef p"
    and "content (npages B) B {} (fbytes (fd p)) (size_of B p) (pager_lookup p)"
    and "\<And>n g. pager_lookup p n = Some g \<Longrightarrow> \<not> inJournal g"
    and "state p = SQLITE_READLOCK" "flock p = SQLITE_READLOCK" "in_read B p"
  shows "inv B [] p"
  using assms by (simp add: inv_def)

text \<open>The part of the invariant that does not look at the lists of pages carries over if the files and flags stay.\<close>

definition same_rest :: "pager \<Rightarrow> pager \<Rightarrow> bool" where
  "same_rest p p' \<longleftrightarrow> outs p' = outs p \<and> errMask p' = errMask p \<and> useJournal p' = useJournal p \<and> tempFile p' = tempFile p \<and> heap p' = heap p \<and>
     fbytes (fd p') = fbytes (fd p) \<and> jfd p' = jfd p \<and> jname p' = jname p \<and> origDbSize p' = origDbSize p \<and> nRec p' = nRec p \<and> cksumInit p' = cksumInit p \<and>
     journalOpen p' = journalOpen p \<and> aInJournal p' = aInJournal p \<and> ckptInUse p' = ckptInUse p \<and> aInCkpt p' = aInCkpt p \<and> ckptSize p' = ckptSize p \<and>
     state p' = state p \<and> flock p' = flock p \<and> dirtyFile p' = dirtyFile p \<and> needSync p' = needSync p \<and> noSync p' = noSync p \<and>
     cpfd p' = cpfd p \<and> ckptJSize p' = ckptJSize p \<and> ckptNRec p' = ckptNRec p \<and> mxPage p' = mxPage p \<and> readOnly p' = readOnly p \<and>
     ckptAutoopen p' = ckptAutoopen p \<and> journalStarted p' = journalStarted p \<and> ckptOpen p' = ckptOpen p \<and> fullSync p' = fullSync p"

lemma inv_carry:
  assumes i: "inv B rs p" and r: "same_rest p p'" and ds: "dbSize p' = dbSize p \<or> state p = SQLITE_READLOCK \<and> dbSize p' = int (npages B)"
    and l: "cache_ok p'" "sync_ok p'" "0 < nRef p'"
    and c: "content (npages B) B (fst ` set rs) (fbytes (fd p)) (size_of B p) (pager_lookup p')"
    and j: "\<And>n g. pager_lookup p' n = Some g \<Longrightarrow> inJournal g \<longleftrightarrow> n \<in> fst ` set rs"
    and d: "\<And>n. dirty_at (pager_lookup p') n \<Longrightarrow> dirty_at (pager_lookup p) n"
    and s: "\<And>n. sync_at (pager_lookup p') n \<longleftrightarrow> sync_at (pager_lookup p) n"
    and ff: "\<lbrakk>\<And>m. \<not> sync_at (pager_lookup p) m; pFirstSynced p = first_free p\<rbrakk> \<Longrightarrow> pFirstSynced p' = first_free p'"
  shows "inv B rs p'"
proof -
  note c0 = invD [OF i]
  have ss: "sess p'" using c0(1) r by (simp add: sess_def same_rest_def)
  show ?thesis
  proof (cases "state p = SQLITE_READLOCK")
    case True
    note rd = inv_read [OF i True]
    have sz: "size_of B p' = size_of B p" using ds rd by (auto simp: size_of_def in_read_def)
    have rs: "rs = []" using rd by blast
    have "\<forall>n. \<not> dirty_at (pager_lookup p') n \<and> \<not> sync_at (pager_lookup p') n" using rd d s by (auto simp: in_read_def)
    moreover have "dbSize p' = -1 \<or> dbSize p' = int (npages B)" using rd ds by (auto simp: in_read_def)
    ultimately have "in_read B p'" using rd r by (simp add: in_read_def same_rest_def)
    moreover have "content (npages B) B {} (fbytes (fd p')) (size_of B p') (pager_lookup p')"
      using c rs r by (simp add: sz same_rest_def)
    moreover have "\<not> inJournal g" if "pager_lookup p' n = Some g" for n g using j [OF that] rs by simp
    moreover have "state p' = SQLITE_READLOCK" "flock p' = SQLITE_READLOCK" using rd True r by (simp_all add: same_rest_def)
    ultimately show ?thesis unfolding rs using ss c0(2) l by (intro inv_readI)
  next
    case False
    then have w: "state p = SQLITE_WRITELOCK" using inv_states [OF i] by blast
    note wr = inv_write [OF i w]
    have ds': "dbSize p' = dbSize p" using ds False by simp
    have "journal_ok B rs p'" "ckpt_bits B p'" "guarded B rs p'"
      using wr r s by (simp_all add: in_write_def journal_ok_def ckpt_bits_def guarded_def header_def same_rest_def)
    moreover have "write_flags B rs p'"
    proof -
      have f: "dirtyFile p' = dirtyFile p" "needSync p' = needSync p" "fbytes (fd p') = fbytes (fd p)" "journalStarted p' = journalStarted p"
        using r by (simp_all add: same_rest_def)
      have n: "\<And>m. \<not> sync_at (pager_lookup p) m" if "\<not> needSync p" using that c0(4) by (simp add: sync_ok_def)
      show ?thesis using wr d ff n unfolding in_write_def write_flags_def f ds' by blast
    qed
    moreover have "content (npages B) B (fst ` set rs) (fbytes (fd p')) (size_of B p') (pager_lookup p')"
      using c r by (simp add: size_of_cong [OF ds'] same_rest_def)
    moreover have "state p' = SQLITE_WRITELOCK" "flock p' = SQLITE_WRITELOCK" using wr w r by (simp_all add: same_rest_def)
    ultimately show ?thesis using ss c0(2) l j by (intro inv_writeI) (simp_all add: in_write_def)
  qed
qed

section \<open>Taking a reference\<close>

lemma cache_ok_ref:
  assumes c: "cache_ok p" and g: "pager_lookup p n = Some g"
    and all: "pAll p' = map (\<lambda>h. if pgno h = n then h\<lparr>pnRef := f (pnRef h)\<rparr> else h) (pAll p)"
    and free: "distinct (pFree p')" "set (pFree p') = (if f (pnRef g) = 0 then insert n (set (pFree p)) else set (pFree p) - {n})"
    and k: "nRef p' + (if pnRef g > 0 then 1 else 0) = nRef p + (if f (pnRef g) > 0 then 1 else 0)"
    and r: "nPage p' = nPage p" "nExtra p' = nExtra p" "pCkpt p' = pCkpt p" "ckptInUse p' = ckptInUse p" "aInCkpt p' = aInCkpt p"
  shows "cache_ok p'"
proof -
  let ?F = "\<lambda>h. h\<lparr>pnRef := f (pnRef h)\<rparr>"
  have gm: "g \<in> set (pAll p)" "pgno g = n" using lookup_Some [OF g] by simp_all
  note dis = cache_okD(1) [OF c]
  have set': "set (pAll p') = insert (?F g) (set (pAll p) - {g})" unfolding all by (rule set_upd [OF dis gm])
  have pg: "map pgno (pAll p') = map pgno (pAll p)" by (simp add: all)
  have "ckpt_list p'"
    by (rule ckpt_list_map [OF cache_okD(3) [OF c], where f = "\<lambda>h. if pgno h = n then ?F h else h"]) (simp_all add: all r)
  moreover have "\<forall>h \<in> set (pAll p'). page_ok (nExtra p') h"
    using c gm unfolding set' cache_ok_def page_ok_def by (auto simp: r)
  moreover have "pgno ` {h \<in> set (pAll p'). pnRef h = 0} = set (pFree p')"
  proof -
    have old: "set (pFree p) = pgno ` {h \<in> set (pAll p). pnRef h = 0}" by (rule cache_okD(6) [OF c])
    have oth: "n \<notin> pgno ` {h \<in> set (pAll p) - {g}. pnRef h = 0}" using only_page [OF dis gm] by auto
    have s1: "{h \<in> set (pAll p'). pnRef h = 0} = (if f (pnRef g) = 0 then insert (?F g) {h \<in> set (pAll p) - {g}. pnRef h = 0}
        else {h \<in> set (pAll p) - {g}. pnRef h = 0})" unfolding set' by (auto dest: arg_cong [where f = pnRef])
    have s2: "insert n (pgno ` {h \<in> set (pAll p) - {g}. pnRef h = 0}) = insert n (set (pFree p))" unfolding old using gm by auto
    have s3: "pgno ` {h \<in> set (pAll p) - {g}. pnRef h = 0} = set (pFree p) - {n}" using s2 oth by auto
    show ?thesis unfolding s1 free(2) using s2 s3 gm(2) by auto
  qed
  moreover have "nRef p' = length (filter (\<lambda>h. 0 < pnRef h) (pAll p'))"
    using count_upd [OF dis gm, of "\<lambda>h. 0 < pnRef h" ?F] cache_okD(5) [OF c] k by (simp add: all split: if_splits)
  moreover have "nPage p' = length (pAll p')" using cache_okD(4) [OF c] by (simp add: all r)
  ultimately show ?thesis using dis free(1) unfolding cache_ok_def pg by simp
qed

lemma upd_logical:
  assumes "pager_lookup p n = Some g" "pager_lookup p' = (pager_lookup p)(n \<mapsto> g')" "pdata g' = pdata g" "fbytes (fd p') = fbytes (fd p)"
  shows "logical p' m = logical p m"
  using assms by (simp add: logical_def cong: option.case_cong)

lemma inJournal_upd:
  assumes "\<And>n g. L n = Some g \<Longrightarrow> inJournal g \<longleftrightarrow> n \<in> S" "L n = Some g" "(L(n \<mapsto> g')) m = Some h" "inJournal g' = inJournal g"
  shows "inJournal h \<longleftrightarrow> m \<in> S"
proof (cases "m = n")
  case True
  then have "h = g'" using assms(3) by simp
  then show ?thesis using assms(1) [OF assms(2)] assms(4) True by simp
next
  case False
  then show ?thesis using assms(1) [of m h] assms(3) by simp
qed

lemma page_ref_inv:
  assumes i: "inv B rs p" and g: "pager_lookup p n = Some g"
  shows "\<exists>p'. page_ref n p = Some p' \<and> inv B rs p' \<and> same_rest p p' \<and> dbSize p' = dbSize p \<and>
    pager_lookup p' = (pager_lookup p)(n \<mapsto> g\<lparr>pnRef := pnRef g + 1\<rparr>)"
proof -
  note c = invD [OF i]
  note dis = cache_okD(1) [OF c(3)]
  define p1 where "p1 = (if pnRef g = 0 then (unlink_free n p)\<lparr>nRef := nRef p + 1\<rparr> else p)"
  define p' where "p' = on_page n (\<lambda>g. g\<lparr>pnRef := pnRef g + 1\<rparr>) p1"
  obtain fs where fs: "unlink_free n p = p\<lparr>pFree := remove1 n (pFree p), pFirstSynced := fs\<rparr>" using unlink_shape by blast
  have free: "n \<in> set (pFree p) \<longleftrightarrow> pnRef g = 0" using cache_free [OF c(3)] g by auto
  have all1: "pAll p1 = pAll p" and l1: "pager_lookup p1 = pager_lookup p" by (auto simp: p1_def fs pager_lookup_def)
  have l: "pager_lookup p' = (pager_lookup p)(n \<mapsto> g\<lparr>pnRef := pnRef g + 1\<rparr>)"
    unfolding p'_def l1 [symmetric] using dis g by (intro on_page_one) (simp_all add: all1 l1)
  have r: "same_rest p p'" by (auto simp: same_rest_def p'_def p1_def fs on_page_def)
  have ds: "dbSize p' = dbSize p" by (simp add: p'_def p1_def fs)
  have cache: "cache_ok p'"
  proof (rule cache_ok_ref [OF c(3) g])
    show "pAll p' = map (\<lambda>h. if pgno h = n then h\<lparr>pnRef := Suc (pnRef h)\<rparr> else h) (pAll p)" by (simp add: p'_def on_page_def all1)
    show "distinct (pFree p')" using cache_okD(2) [OF c(3)] by (simp add: p'_def p1_def fs)
    show "set (pFree p') = (if Suc (pnRef g) = 0 then insert n (set (pFree p)) else set (pFree p) - {n})"
      using free cache_okD(2) [OF c(3)] by (simp add: p'_def p1_def fs)
  qed (auto simp: p'_def p1_def fs on_page_def)
  have sy: "sync_at (pager_lookup p') m \<longleftrightarrow> sync_at (pager_lookup p) m" for m using g by (auto simp: l sync_at_def)
  have dy: "dirty_at (pager_lookup p') m \<longleftrightarrow> dirty_at (pager_lookup p) m" for m using g by (auto simp: l dirty_at_def)
  have ff: "pFirstSynced p' = first_free p'" if "\<And>m. \<not> sync_at (pager_lookup p) m" "pFirstSynced p = first_free p"
    using unlink_sync(2) [OF c(3,4) _ that] free that by (auto simp: p'_def p1_def on_page_def first_free_def)
  have sync: "sync_ok p'"
  proof -
    have 1: "m \<in> set (pFree p') \<and> \<not> sync_at (pager_lookup p) m" if "pFirstSynced p' = Some m" for m
      using that unlink_sync(1) [OF c(3,4), of n m] free c(4)
      by (auto simp: p'_def p1_def fs sync_ok_def split: if_splits)
    have 2: "noSync p' = noSync p" "needSync p' = needSync p" using r by (simp_all add: same_rest_def)
    show ?thesis using 1 c(4) ff unfolding sync_ok_def sy 2 by blast
  qed
  have "inv B rs p'"
  proof (rule inv_carry [OF i r _ cache sync])
    show "0 < nRef p'" using c(5) by (simp add: p'_def p1_def)
    show "content (npages B) B (fst ` set rs) (fbytes (fd p)) (size_of B p) (pager_lookup p')"
      unfolding l by (rule content_cong [OF c(6) same_view_upd]) (use g in simp_all)
    show "inJournal h \<longleftrightarrow> m \<in> fst ` set rs" if h: "pager_lookup p' m = Some h" for m h
      by (rule inJournal_upd [where L = "pager_lookup p" and n = n and g = g and g' = "g\<lparr>pnRef := pnRef g + 1\<rparr>"])
         (use c(7) g h in \<open>simp_all add: l\<close>)
  qed (use ds sy dy ff in auto)
  moreover have "page_ref n p = Some p'" using g by (simp add: page_ref_def p'_def p1_def)
  ultimately show ?thesis using r ds l by blast
qed

section \<open>The last page\<close>

definition dropped :: "pager \<Rightarrow> pager" where
  \<comment> \<open>the memory of all pages has been freed\<close>
  "dropped p = p\<lparr>pAll := [], pFree := [], pFirstSynced := None, nPage := 0\<rparr>"

lemma unwritelock_dangling:
  assumes "state p = SQLITE_WRITELOCK" "ckptInUse p" "pCkpt p \<noteq> []" "pAll p = []"
  shows "pager_unwritelock p = None"
proof -
  obtain n ns where "pCkpt p = n # ns" using assms(3) by (cases "pCkpt p") auto
  then show ?thesis using assms by (simp add: pager_unwritelock_def sqlitepager_ckpt_commit_def cp_seek_def pager_lookup_def)
qed

lemma reset_idle:
  assumes i: "inv B rs p" and r: "same_rest p q" "dbSize q = dbSize p" "pCkpt q = pCkpt p" and pc: "pCkpt p = []"
  shows "\<exists>p'. pager_reset q = Some p' \<and> idle B p'"
proof -
  note c = invD [OF i]
  define d where "d = dropped q"
  have dq: "outs d = []" "errMask d = 0" "pAll d = []" "pFree d = []" "pFirstSynced d = None" "nPage d = 0" "state d = state p"
    "journalOpen d = journalOpen p" "jname d = jname p" "aInJournal d = aInJournal p" "ckptInUse d = ckptInUse p" "aInCkpt d = aInCkpt p"
    "pCkpt d = []" "fbytes (fd d) = fbytes (fd p)" "jfd d = jfd p" "cksumInit d = cksumInit p" "origDbSize d = origDbSize p"
    "dirtyFile d = dirtyFile p" "noSync d = noSync p" "needSync d = needSync p"
    using r c(1) pc by (simp_all add: d_def dropped_def same_rest_def sess_def)
  have ns: "noSync p \<Longrightarrow> \<not> needSync p" using c(4) by (simp add: sync_ok_def)
  have sd: "sess d" using c(1) r by (simp add: d_def dropped_def same_rest_def sess_def)
  have ck: "\<not> ckptInUse p \<Longrightarrow> aInCkpt p = None" using cache_okD(3) [OF c(3)] by (simp add: ckpt_list_def)
  have cl: "ckpt_list x" if "pAll x = []" "pCkpt x = []" "ckptInUse x = ckptInUse p" "aInCkpt x = aInCkpt p" for x
    using that ck by (auto simp: ckpt_list_def)
  have fin: "idle B ((snd (os_lock SQLITE_UNLOCK d1))\<lparr>state := SQLITE_UNLOCK, dbSize := -1, nRef := 0\<rparr>) \<and> \<not> journalOpen (snd (os_lock SQLITE_UNLOCK d1))"
    if d1: "sess d1" "pAll d1 = []" "pFree d1 = []" "pFirstSynced d1 = None" "nPage d1 = 0" "pCkpt d1 = []" "\<not> ckptInUse d1"
      "aInCkpt d1 = None" "aInJournal d1 = None" "\<not> journalOpen d1" "\<not> jname d1" "fbytes (fd d1) = B" "noSync d1 \<longrightarrow> \<not> needSync d1" for d1
    using d1 c(2) quiet_calls(6) [of d1 SQLITE_UNLOCK] by (simp add: idle_def sess_def)
  have reset: "pager_reset q = (case if state p = SQLITE_WRITELOCK then map_option snd (sqlitepager_rollback d) else Some d of None \<Rightarrow> None
      | Some d1 \<Rightarrow> let d2 = (snd (os_lock SQLITE_UNLOCK d1))\<lparr>state := SQLITE_UNLOCK, dbSize := -1, nRef := 0\<rparr> in if journalOpen d2 then None else Some d2)"
    using dq(7) unfolding pager_reset_def d_def [unfolded dropped_def, symmetric]
    by (simp add: assertion_def split_def split: option.split)
  have finish: "\<exists>p'. pager_reset q = Some p' \<and> idle B p'" if "sqlitepager_rollback d = Some (rc, d1)" "state p = SQLITE_WRITELOCK" "sess d1" "pAll d1 = []"
      "pFree d1 = []" "pFirstSynced d1 = None" "nPage d1 = 0" "pCkpt d1 = []" "\<not> ckptInUse d1"
      "aInCkpt d1 = None" "aInJournal d1 = None" "\<not> journalOpen d1" "\<not> jname d1" "fbytes (fd d1) = B" "noSync d1 \<longrightarrow> \<not> needSync d1" for rc d1
    using fin [of d1] that reset by simp
  show ?thesis
  proof (cases "state p = SQLITE_READLOCK")
    case True
    note rd = inv_read [OF i True]
    then show ?thesis using reset fin [of d] dq sd ck ns True by (simp add: in_read_def)
  next
    case False
    then have w: "state p = SQLITE_WRITELOCK" using inv_states [OF i] by blast
    have wr: "journal_ok B rs p" "write_flags B rs p" using inv_write [OF i w] by (simp_all add: in_write_def)
    have op: "journalOpen d" using wr dq by (simp add: journal_ok_def)
    show ?thesis
    proof (cases "dirtyFile p")
      case F: False
      have "ckpt_list d" "state d = SQLITE_WRITELOCK" "distinct (map pgno (pAll d))" using cl dq w by simp_all
      then obtain cf cn where "pager_unwritelock d = Some (SQLITE_OK, unlocked cf cn d)"
        using unwritelock_quiet [OF dq(1) _ op] by blast
      then have rb: "sqlitepager_rollback d = Some (SQLITE_OK, (unlocked cf cn d)\<lparr>dbSize := -1\<rparr>)" using F dq by (simp add: sqlitepager_rollback_def)
      have "fbytes (fd p) = B" using wr F by (simp add: write_flags_def)
      then show ?thesis by (intro finish [OF rb]) (use w dq sd ns in \<open>simp_all add: unlocked_def sess_def\<close>)
    next
      case T: True
      obtain h where j: "fbytes (jfd d) = journal_bytes h (cksumInit p) (npages B) rs @ []" using wr dq by (auto simp: journal_ok_def)
      have rr: "recs_ok (int (npages B)) rs" "\<forall>r \<in> set rs. snd r = page_at B (fst r)" and o: "origDbSize d = int (npages B)"
        using wr dq by (simp_all add: journal_ok_def)
      have N: "npages B \<le> SQLITE_MAX_PAGE" using c(2) by (simp add: file_ok_def)
      have an: "announced True h (length (fbytes (jfd d))) = int (length rs)" using announced_size [OF rr(1) N] j by simp
      obtain f k where pj: "playback_journal True d = Some (SQLITE_OK, set_jpos JFD k (d\<lparr>cksumInit := cksumInit p, dbSize := int (npages B), fd := f, pAll := []\<rparr>))"
        and pl: "plays rs (resize (SQLITE_PAGE_SIZE * npages B) (fbytes (fd d))) (fbytes f)"
        using playback_journal_quiet [OF dq(1) _ _ op j _ max_page [OF N] rr(1) _ an] dq(3) o by (auto simp: usable_def played_pages_def)
      define e where "e = set_jpos JFD k (d\<lparr>cksumInit := cksumInit p, dbSize := int (npages B), fd := f, pAll := []\<rparr>)"
      have e: "state e = SQLITE_WRITELOCK" "ckptInUse e = ckptInUse p" "pCkpt e = []" "pAll e = []" "aInCkpt e = aInCkpt p" "outs e = []" "journalOpen e"
        using dq w op by (simp_all add: e_def)
      obtain cf cn where un: "pager_unwritelock e = Some (SQLITE_OK, unlocked cf cn e)"
        using unwritelock_quiet [OF e(6) e(1) e(7) cl [OF e(4,3,2,5)]] e(4) by auto
      have rb: "sqlitepager_rollback d = Some (SQLITE_OK, (unlocked cf cn e)\<lparr>dbSize := -1\<rparr>)"
        using pj un T dq op w by (simp add: sqlitepager_rollback_def pager_playback_def e_def)
      have "fbytes f = B" using restored_file [OF c(2) rr _ pl] c(6) dq by (auto simp: content_def)
      then show ?thesis by (intro finish [OF rb]) (use w dq sd ns in \<open>simp_all add: unlocked_def sess_def e_def\<close>)
    qed
  qed
qed

section \<open>Releasing a page\<close>

lemma unref_stays:
  assumes i: "inv B rs p" and g: "pager_lookup p n = Some g" and k: "1 < pnRef g \<or> pnRef g = 1 \<and> 1 < nRef p"
  shows "\<exists>p'. sqlitepager_unref n p = Some (SQLITE_OK, p') \<and> inv B rs p' \<and> same_rest p p' \<and> dbSize p' = dbSize p \<and>
    pager_lookup p' = (pager_lookup p)(n \<mapsto> g\<lparr>pnRef := pnRef g - 1\<rparr>)"
proof -
  note c = invD [OF i]
  note dis = cache_okD(1) [OF c(3)]
  define p1 where "p1 = on_page n (\<lambda>g. g\<lparr>pnRef := pnRef g - 1\<rparr>) p"
  define fs where "fs = (if pnRef g = 1 \<and> \<not> pneedSync g \<and> pFirstSynced p = None then Some n else pFirstSynced p)"
  define p' where "p' = (if pnRef g = 1 then p1\<lparr>pFree := pFree p @ [n], pFirstSynced := fs, nRef := nRef p - 1\<rparr> else p1)"
  have notfree: "n \<notin> set (pFree p)" using cache_free [OF c(3)] g k by auto
  have l1: "pager_lookup p1 = (pager_lookup p)(n \<mapsto> g\<lparr>pnRef := pnRef g - 1\<rparr>)"
    unfolding p1_def using dis g by (intro on_page_one) simp_all
  have l: "pager_lookup p' = (pager_lookup p)(n \<mapsto> g\<lparr>pnRef := pnRef g - 1\<rparr>)"
    unfolding l1 [symmetric] by (rule ext) (simp add: p'_def pager_lookup_def)
  have r: "same_rest p p'" by (auto simp: same_rest_def p'_def p1_def on_page_def)
  have ds: "dbSize p' = dbSize p" by (simp add: p'_def p1_def)
  have cache: "cache_ok p'"
  proof (rule cache_ok_ref [OF c(3) g])
    show "pAll p' = map (\<lambda>h. if pgno h = n then h\<lparr>pnRef := pnRef h - 1\<rparr> else h) (pAll p)" by (simp add: p'_def p1_def on_page_def)
    show "distinct (pFree p')" using cache_okD(2) [OF c(3)] notfree by (simp add: p'_def p1_def)
    show "set (pFree p') = (if pnRef g - 1 = 0 then insert n (set (pFree p)) else set (pFree p) - {n})"
      using k notfree by (auto simp: p'_def p1_def)
    show "nRef p' + (if pnRef g > 0 then 1 else 0) = nRef p + (if pnRef g - 1 > 0 then 1 else 0)"
      using k by (auto simp: p'_def p1_def)
  qed (simp_all add: p'_def p1_def on_page_def)
  have sy: "sync_at (pager_lookup p') m \<longleftrightarrow> sync_at (pager_lookup p) m" for m using g by (auto simp: l sync_at_def)
  have dy: "dirty_at (pager_lookup p') m \<longleftrightarrow> dirty_at (pager_lookup p) m" for m using g by (auto simp: l dirty_at_def)
  have ff: "pFirstSynced p' = first_free p'" if a: "\<And>m. \<not> sync_at (pager_lookup p) m" "pFirstSynced p = first_free p"
  proof -
    have "\<not> pneedSync g" using a(1) [of n] g by (simp add: sync_at_def)
    then show ?thesis using a(2) by (cases "pFree p") (auto simp: p'_def p1_def fs_def first_free_def)
  qed
  have sync: "sync_ok p'"
  proof -
    have 1: "m \<in> set (pFree p') \<and> \<not> sync_at (pager_lookup p) m" if m: "pFirstSynced p' = Some m" for m
      using m c(4) g by (auto simp: p'_def p1_def fs_def sync_ok_def sync_at_def split: if_splits)
    have 2: "noSync p' = noSync p" "needSync p' = needSync p" using r by (simp_all add: same_rest_def)
    show ?thesis using 1 c(4) ff unfolding sync_ok_def sy 2 by blast
  qed
  have "inv B rs p'"
  proof (rule inv_carry [OF i r _ cache sync])
    show "0 < nRef p'" using c(5) k by (auto simp: p'_def p1_def)
    show "content (npages B) B (fst ` set rs) (fbytes (fd p)) (size_of B p) (pager_lookup p')"
      unfolding l by (rule content_cong [OF c(6) same_view_upd]) (use g in simp_all)
    show "inJournal h \<longleftrightarrow> m \<in> fst ` set rs" if h: "pager_lookup p' m = Some h" for m h
      by (rule inJournal_upd [where L = "pager_lookup p" and n = n and g = g and g' = "g\<lparr>pnRef := pnRef g - 1\<rparr>"])
         (use c(7) g h in \<open>simp_all add: l\<close>)
  qed (use ds sy dy ff in auto)
  moreover have "sqlitepager_unref n p = Some (SQLITE_OK, p')"
  proof (cases "pnRef g = 1")
    case True
    have e: "p1\<lparr>pFree := pFree p @ [n]\<rparr> = p1\<lparr>pFree := pFree p @ [n], pFirstSynced := pFirstSynced p\<rparr>"
      by (cases p) (simp add: p1_def on_page_def)
    show ?thesis
      using g k True e unfolding sqlitepager_unref_def p'_def p1_def [symmetric]
      by (auto simp: assertion_def fs_def Let_def p1_def)
  next
    case False
    then show ?thesis using g k by (simp add: sqlitepager_unref_def assertion_def p'_def p1_def)
  qed
  ultimately show ?thesis using r ds l by blast
qed

lemma unref_last:
  assumes i: "inv B rs p" and g: "pager_lookup p n = Some g" and k: "pnRef g = 1" "nRef p = 1" and pc: "pCkpt p = []"
  shows "\<exists>p'. sqlitepager_unref n p = Some (SQLITE_OK, p') \<and> idle B p'"
proof -
  define q where "q = (let p = on_page n (\<lambda>g. g\<lparr>pnRef := pnRef g - 1\<rparr>) p; p = p\<lparr>pFree := pFree p @ [n]\<rparr>;
    p = (if \<not> pneedSync g \<and> pFirstSynced p = None then p\<lparr>pFirstSynced := Some n\<rparr> else p) in p\<lparr>nRef := nRef p - 1\<rparr>)"
  have r: "same_rest p q" "dbSize q = dbSize p" "pCkpt q = pCkpt p" "nRef q = 0"
    using k by (auto simp: q_def Let_def same_rest_def on_page_def)
  have "sqlitepager_unref n p = (do { p \<leftarrow> pager_reset q; Some (SQLITE_OK, p) })"
    using g k r(4) unfolding sqlitepager_unref_def q_def by (simp add: assertion_def Let_def)
  then show ?thesis using reset_idle [OF i r(1-3) pc] by auto
qed

end
