(* ===== verification/PgGet.thy ===== *)
theory PgGet
  imports PgRefs
begin

text \<open>
  Getting a page: it is in memory, or memory is allocated for it, or a free page is recycled for it. The
  content of the database does not change, and the page holds what the database holds.
\<close>

section \<open>A place for a page\<close>

lemma on_slot:
  assumes "pAll p = us @ h # vs" "pgno h = n" "n \<notin> pgno ` set (us @ vs)"
  shows "on_page n f p = p\<lparr>pAll := us @ f h # vs\<rparr>"
proof -
  have "map (\<lambda>g. if pgno g = n then f g else g) gs = gs" if "n \<notin> pgno ` set gs" for gs
    using that by (intro map_idI) force
  then have "map (\<lambda>g. if pgno g = n then f g else g) us = us" "map (\<lambda>g. if pgno g = n then f g else g) vs = vs"
    using assms(3) by (simp_all add: image_Un)
  then show ?thesis using assms(1,2) by (simp add: on_page_def)
qed

lemma slot_lookup:
  assumes "pAll p = us @ h # vs" "pgno h = n" "n \<notin> pgno ` set (us @ vs)"
  shows "pager_lookup p n = Some h"
proof -
  have "find (\<lambda>g. pgno g = n) us = None" using assms(3) by (auto simp: find_None_iff)
  moreover have "find (\<lambda>g. pgno g = n) (us @ zs) = (case find (\<lambda>g. pgno g = n) us of None \<Rightarrow> find (\<lambda>g. pgno g = n) zs | Some g \<Rightarrow> Some g)" for zs
    by (induction us) simp_all
  ultimately show ?thesis using assms by (simp add: pager_lookup_def)
qed

lemma slot_lookups:
  assumes "pAll p' = us @ h # vs" "pgno h = n" "n \<notin> pgno ` set (us @ vs)" "pAll p = us @ vs"
  shows "pager_lookup p' = (pager_lookup p)(n \<mapsto> h)"
proof
  fix m
  have "find (\<lambda>g. pgno g = m) (us @ h # vs) = find (\<lambda>g. pgno g = m) (us @ vs)" if "m \<noteq> n"
    using that assms(2) by (induction us) simp_all
  then show "pager_lookup p' m = ((pager_lookup p)(n \<mapsto> h)) m"
    using slot_lookup [OF assms(1-3)] assms by (cases "m = n") (simp_all add: pager_lookup_def)
qed

definition journal_bit :: "nat \<Rightarrow> pager \<Rightarrow> bool option" where
  "journal_bit n p = (case aInJournal p of
     Some a \<Rightarrow> if i32 n \<le> origDbSize p then do { assertion (journalOpen p); bit_at a n } else Some False | None \<Rightarrow> Some False)"

definition ckpt_bit :: "nat \<Rightarrow> pager \<Rightarrow> bool option" where
  "ckpt_bit n p = (case aInCkpt p of Some a \<Rightarrow> if i32 n \<le> ckptSize p then bit_at a n else Some False | None \<Rightarrow> Some False)"

definition placed :: "bool \<Rightarrow> bool \<Rightarrow> nat \<Rightarrow> pghdr \<Rightarrow> pghdr" where
  \<comment> \<open>the flags of a page with a new number\<close>
  "placed ij inc extra h = h\<lparr>inJournal := ij, pneedSync := False, inCkpt := inc, dirty := False, pnRef := 1, pextra := replicate extra 0\<rparr>"

lemma placed_simps [simp]:
  "pgno (placed a b k h) = pgno h" "pdata (placed a b k h) = pdata h" "inJournal (placed a b k h) = a" "pneedSync (placed a b k h) = False"
  "inCkpt (placed a b k h) = b" "dirty (placed a b k h) = False" "pnRef (placed a b k h) = 1" "length (pextra (placed a b k h)) = k"
  by (simp_all add: placed_def)

lemma init_page_quiet:
  assumes s: "pAll q = us @ h # vs" "pgno h = n" "n \<notin> pgno ` set (us @ vs)"
    and b: "journal_bit n q = Some ij" "ckpt_bit n q = Some inc" and c: "inCkpt h \<longleftrightarrow> n \<in> set (pCkpt q)"
  shows "init_page n q = Some (q\<lparr>pAll := us @ placed ij inc (nExtra q) h # vs,
    pCkpt := (if inc then if inCkpt h then pCkpt q else n # pCkpt q else remove1 n (pCkpt q)), nRef := nRef q + 1\<rparr>)"
proof -
  define h1 where "h1 = h\<lparr>inJournal := ij, pneedSync := False\<rparr>"
  define q1 where "q1 = q\<lparr>pAll := us @ h1 # vs\<rparr>"
  have o1: "on_page n (\<lambda>g. g\<lparr>inJournal := ij, pneedSync := False\<rparr>) q = q1" unfolding q1_def h1_def by (rule on_slot [OF s])
  have b2: "ckpt_bit n q1 = Some inc" using b(2) by (cases "aInCkpt q") (simp_all add: ckpt_bit_def q1_def)
  have l1: "pager_lookup q1 n = Some h1" by (rule slot_lookup [of _ us _ vs]) (use s in \<open>simp_all add: q1_def h1_def\<close>)
  define q2 where "q2 = q\<lparr>pAll := us @ h1\<lparr>inCkpt := inc\<rparr> # vs, pCkpt := (if inc then if inCkpt h then pCkpt q else n # pCkpt q else remove1 n (pCkpt q))\<rparr>"
  have o2: "on_page n (\<lambda>g. g\<lparr>inCkpt := x\<rparr>) q1 = q\<lparr>pAll := us @ h1\<lparr>inCkpt := x\<rparr> # vs\<rparr>" for x
    using on_slot [of q1 us h1 vs n] s by (simp add: q1_def h1_def)
  have same: "h1\<lparr>inCkpt := inCkpt h\<rparr> = h1" by (cases h) (simp add: h1_def)
  have e: "(if inc then page_add_to_ckpt_list n q1 else page_remove_from_ckpt_list n q1) = Some q2"
  proof (cases "inCkpt h = inc")
    case True
    have "q2 = q1" using True same c by (cases inc) (simp_all add: q2_def q1_def remove1_idem)
    then show ?thesis using True l1 by (auto simp: page_add_to_ckpt_list_def page_remove_from_ckpt_list_def h1_def)
  next
    case False
    have p: "pCkpt q1 = pCkpt q" by (simp add: q1_def)
    show ?thesis
      using False l1 c o2 [of inc] p by (cases inc) (auto simp: page_add_to_ckpt_list_def page_remove_from_ckpt_list_def h1_def assertion_def q2_def)
  qed
  have o3: "on_page n (\<lambda>g. g\<lparr>dirty := False, pnRef := 1, pextra := replicate k 0\<rparr>) q2
      = q2\<lparr>pAll := us @ placed ij inc k h # vs\<rparr>" for k
    using on_slot [of q2 us "h1\<lparr>inCkpt := inc\<rparr>" vs n] s by (simp add: q2_def h1_def placed_def)
  have "init_page n q = (do {
     let p = on_page n (\<lambda>g. g\<lparr>inJournal := ij, pneedSync := False\<rparr>) q;
     inc \<leftarrow> ckpt_bit n p;
     p \<leftarrow> (if inc then page_add_to_ckpt_list n p else page_remove_from_ckpt_list n p);
     Some ((on_page n (\<lambda>g. g\<lparr>dirty := False, pnRef := 1, pextra := replicate (nExtra p) 0\<rparr>) p)\<lparr>nRef := nRef p + 1\<rparr>) })"
    using b(1) unfolding init_page_def journal_bit_def [symmetric] by (simp add: ckpt_bit_def)
  also have "\<dots> = Some ((on_page n (\<lambda>g. g\<lparr>dirty := False, pnRef := 1, pextra := replicate (nExtra q2) 0\<rparr>) q2)\<lparr>nRef := nRef q2 + 1\<rparr>)"
    using b2 e by (simp add: o1)
  finally show ?thesis unfolding o3 by (simp add: q2_def)
qed

section \<open>Loading a page\<close>

definition counted :: "bytes \<Rightarrow> pager \<Rightarrow> bool" where
  "counted B p \<longleftrightarrow> 0 \<le> dbSize p \<or> dbSize p = -1 \<and> state p \<noteq> SQLITE_UNLOCK \<and> fbytes (fd p) = B \<and> npages B \<le> SQLITE_MAX_PAGE"

lemma size_quiet:
  assumes "outs p = []" "counted B p"
  shows "(if dbSize p < 0 then snd (sqlitepager_pagecount p) else p) = p\<lparr>dbSize := int (size_of B p)\<rparr>"
proof (cases "dbSize p < 0")
  case True
  then have "length (fbytes (fd p)) div SQLITE_PAGE_SIZE = npages B" "npages B \<le> SQLITE_MAX_PAGE" "state p \<noteq> SQLITE_UNLOCK"
    using assms(2) by (auto simp: counted_def npages_def)
  then show ?thesis using True quiet_calls(2) [OF assms(1)] i32_page by (simp add: sqlitepager_pagecount_def size_of_def Let_def)
qed (cases p; simp add: size_of_def)

lemma load_page_quiet:
  assumes s: "pAll q = us @ h # vs" "pgno h = n" "n \<notin> pgno ` set (us @ vs)"
    and q: "outs q = []" "errMask q = 0" "counted B q" and n: "0 < n" "n \<le> SQLITE_MAX_PAGE" and h: "length (pdata h) = SQLITE_PAGE_SIZE"
    and d: "n \<le> size_of B q \<Longrightarrow> n * SQLITE_PAGE_SIZE \<le> length (fbytes (fd q))" "size_of B q < n \<Longrightarrow> length (fbytes (fd q)) \<le> (n - 1) * SQLITE_PAGE_SIZE"
  shows "\<exists>f. load_page n q = Some (SQLITE_OK, q\<lparr>dbSize := int (size_of B q), fd := f, pAll := us @ h\<lparr>pdata := page_at (fbytes (fd q)) n\<rparr> # vs\<rparr>) \<and>
    fbytes f = fbytes (fd q)"
proof -
  define q1 where "q1 = q\<lparr>dbSize := int (size_of B q)\<rparr>"
  have q1: "outs q1 = []" "fd q1 = fd q" "pAll q1 = us @ h # vs" "dbSize q1 = int (size_of B q)" using q s by (simp_all add: q1_def)
  have start: "load_page n q = (if dbSize q1 < i32 n then Some (SQLITE_OK, on_page n (\<lambda>g. g\<lparr>pdata := replicate SQLITE_PAGE_SIZE 0\<rparr>) q1)
    else do {
      let (rc, d, p) = db_read SQLITE_PAGE_SIZE (db_seek ((n - 1) * SQLITE_PAGE_SIZE) q1);
      let p = on_page n (\<lambda>g. g\<lparr>pdata := d @ drop (length d) (pdata g)\<rparr>) p;
      if rc = SQLITE_OK then Some (SQLITE_OK, p)
      else do {
        let (rc', fileSize, p) = db_size p;
        if rc' \<noteq> SQLITE_OK \<or> fileSize \<ge> unat (word_of_nat n * word_of_nat SQLITE_PAGE_SIZE :: u32) then do {
          (_, p) \<leftarrow> sqlitepager_unref n p;
          Some (rc, p) }
        else Some (SQLITE_OK, on_page n (\<lambda>g. g\<lparr>pdata := replicate SQLITE_PAGE_SIZE 0\<rparr>) p) } })"
    using q(2) unfolding load_page_def size_quiet [OF q(1,3)] q1_def [symmetric] Let_def by (simp add: q1_def)
  show ?thesis
  proof (cases "size_of B q < n")
    case True
    have "page_at (fbytes (fd q)) n = replicate SQLITE_PAGE_SIZE 0" using d(2) [OF True] by (rule page_behind)
    moreover have "on_page n (\<lambda>g. g\<lparr>pdata := x\<rparr>) q1 = q1\<lparr>pAll := us @ h\<lparr>pdata := x\<rparr> # vs\<rparr>" for x by (rule on_slot [OF q1(3) s(2,3)])
    ultimately have "load_page n q = Some (SQLITE_OK, q1\<lparr>pAll := us @ h\<lparr>pdata := page_at (fbytes (fd q)) n\<rparr> # vs\<rparr>)"
      using start True i32_page [OF n(2)] by (simp add: q1_def)
    then show ?thesis by (intro exI [of _ "fd q"]) (cases q; simp add: q1_def)
  next
    case False
    define f where "f = (fd q)\<lparr>fpos := n * SQLITE_PAGE_SIZE\<rparr>"
    have rd: "db_read SQLITE_PAGE_SIZE (db_seek ((n - 1) * SQLITE_PAGE_SIZE) q1) = (SQLITE_OK, page_at (fbytes (fd q)) n, q1\<lparr>fd := f\<rparr>)"
      using db_read_page [of q1 n] q1 n(1) d(1) False by (simp add: f_def del: One_nat_def)
    have "on_page n (\<lambda>g. g\<lparr>pdata := page_at (fbytes (fd q)) n @ drop SQLITE_PAGE_SIZE (pdata g)\<rparr>) (q1\<lparr>fd := f\<rparr>)
        = q1\<lparr>fd := f, pAll := us @ h\<lparr>pdata := page_at (fbytes (fd q)) n\<rparr> # vs\<rparr>"
      using on_slot [of "q1\<lparr>fd := f\<rparr>" us h vs n] q1(3) s(2,3) h by simp
    then have "load_page n q = Some (SQLITE_OK, q1\<lparr>fd := f, pAll := us @ h\<lparr>pdata := page_at (fbytes (fd q)) n\<rparr> # vs\<rparr>)"
      using start rd False i32_page [OF n(2)] by (simp add: q1_def)
    then show ?thesis by (intro exI [of _ f]) (simp add: q1_def f_def)
  qed
qed

section \<open>A page more\<close>

lemma page_added:
  assumes i: "inv B rs p" and abs: "pager_lookup p n = None" and s: "pAll p = us @ vs" "pAll p' = us @ g # vs"
    and r: "same_rest p p'" and ds: "dbSize p' = dbSize p \<or> state p = SQLITE_READLOCK \<and> dbSize p' = int (npages B)"
    and l: "pFree p' = pFree p" "pFirstSynced p' = pFirstSynced p" "nRef p' = nRef p + 1" "nPage p' = nPage p + 1" "nExtra p' = nExtra p"
    and ck: "distinct (pCkpt p')" "set (pCkpt p') = (if inCkpt g then insert n (set (pCkpt p)) else set (pCkpt p))" "inCkpt g \<Longrightarrow> ckptInUse p"
    and g: "pgno g = n" "page_ok (nExtra p) g" "\<not> dirty g" "\<not> pneedSync g" "pnRef g = 1" "inJournal g \<longleftrightarrow> n \<in> fst ` set rs"
      "pdata g = page_at (fbytes (fd p)) n"
  shows "inv B rs p' \<and> pager_lookup p' = (pager_lookup p)(n \<mapsto> g)"
proof -
  note c = invD [OF i]
  have nn: "n \<notin> pgno ` set (us @ vs)" using abs s(1) by (simp add: lookup_None)
  have L: "pager_lookup p' = (pager_lookup p)(n \<mapsto> g)" by (rule slot_lookups [OF s(2) g(1) nn s(1)])
  have ckp: "ckpt_list p'"
  proof -
    have o: "ckpt_list p" by (rule cache_okD(3) [OF c(3)])
    have "set (pCkpt p') = pgno ` {g \<in> set (pAll p'). inCkpt g}"
      using o ck(2) g(1) unfolding ckpt_list_def s by auto
    moreover have "pCkpt p' = [] \<and> aInCkpt p' = None" if "\<not> ckptInUse p'"
    proof -
      have u: "\<not> ckptInUse p" "aInCkpt p' = aInCkpt p" using that r by (simp_all add: same_rest_def)
      then have "\<not> inCkpt g" using ck(3) by blast
      then have "set (pCkpt p') = {}" using u(1) ck(2) o by (simp add: ckpt_list_def)
      then show ?thesis using u o by (simp add: ckpt_list_def)
    qed
    ultimately show ?thesis using ck(1) by (simp add: ckpt_list_def)
  qed
  have cache: "cache_ok p'"
  proof -
    have "{h \<in> set (pAll p'). pnRef h = 0} = {h \<in> set (pAll p). pnRef h = 0}" using g(5) unfolding s by auto
    moreover have "distinct (map pgno (pAll p'))" using cache_okD(1) [OF c(3)] nn g(1) unfolding s by auto
    ultimately show ?thesis using c(3) ckp g(2,5) l unfolding cache_ok_def s by simp
  qed
  have nd: "\<not> dirty_at (pager_lookup p) n" "\<not> sync_at (pager_lookup p) n" using abs by (simp_all add: dirty_at_def sync_at_def)
  have sy: "sync_at (pager_lookup p') m \<longleftrightarrow> sync_at (pager_lookup p) m" for m using g(4) nd unfolding L by simp
  have dy: "dirty_at (pager_lookup p') m \<longleftrightarrow> dirty_at (pager_lookup p) m" for m using g(3) nd unfolding L by simp
  have ff: "first_free p' = first_free p" by (simp add: first_free_def l)
  have sync: "sync_ok p'"
    using c(4) r unfolding sync_ok_def sy ff l(1,2) by (simp add: same_rest_def)
  have "inv B rs p'"
  proof (rule inv_carry [OF i r ds cache sync])
    show "0 < nRef p'" using l(3) by simp
    show "content (npages B) B (fst ` set rs) (fbytes (fd p)) (size_of B p) (pager_lookup p')"
      unfolding L by (rule content_add [OF c(6) abs g(3)]) (rule g(7))
    show "inJournal h \<longleftrightarrow> m \<in> fst ` set rs" if h: "pager_lookup p' m = Some h" for m h
      using h c(7) [of m h] g(6) unfolding L by (simp split: if_splits)
  qed (use dy sy ff l(2) in auto)
  then show ?thesis using L by blast
qed

text \<open>Allocated or recycled, the new page is at some place among the pages in memory.\<close>

lemma page_bits:
  assumes i: "inv B rs p" and n: "0 < n" "n \<le> SQLITE_MAX_PAGE"
  shows "journal_bit n p = Some (n \<in> fst ` set rs)" and "\<exists>inc. ckpt_bit n p = Some inc \<and> (inc \<longrightarrow> ckptInUse p)"
proof -
  note c = invD [OF i]
  have in32: "i32 n = int n" using i32_page [OF n(2)] .
  consider "state p = SQLITE_READLOCK" | "state p = SQLITE_WRITELOCK" using inv_states [OF i] by blast
  then show "journal_bit n p = Some (n \<in> fst ` set rs)"
  proof cases
    case 1
    then show ?thesis using inv_read [OF i] by (simp add: in_read_def journal_bit_def)
  next
    case 2
    then have "journal_ok B rs p" using inv_write [OF i] by (simp add: in_write_def)
    then obtain a where a: "aInJournal p = Some a" "npages B < length a" "\<forall>n \<le> npages B. a ! n \<longleftrightarrow> n \<in> fst ` set rs"
      and o: "origDbSize p = int (npages B)" "journalOpen p" "recs_ok (int (npages B)) rs" by (auto simp: journal_ok_def)
    show ?thesis
    proof (cases "n \<le> npages B")
      case True
      then show ?thesis using a o in32 by (simp add: journal_bit_def bit_at_def assertion_def)
    next
      case False
      then have "n \<notin> fst ` set rs" using o(3) by (auto simp: recs_ok_def)
      then show ?thesis using False a o in32 by (simp add: journal_bit_def)
    qed
  qed
  show "\<exists>inc. ckpt_bit n p = Some inc \<and> (inc \<longrightarrow> ckptInUse p)"
  proof (cases "aInCkpt p")
    case (Some a)
    then have u: "ckptInUse p" using cache_okD(3) [OF c(3)] by (auto simp: ckpt_list_def)
    then have "state p = SQLITE_WRITELOCK" using inv_states [OF i] inv_read [OF i] by (auto simp: in_read_def)
    then have "ckptSize p < int (length a)" using inv_write [OF i] u Some by (simp add: in_write_def ckpt_bits_def)
    then show ?thesis using Some u in32 by (intro exI [of _ "int n \<le> ckptSize p \<and> a ! n"]) (simp add: ckpt_bit_def bit_at_def)
  qed (intro exI [of _ False], simp add: ckpt_bit_def)
qed

lemma bits_same:
  assumes "aInJournal q = aInJournal p" "origDbSize q = origDbSize p" "journalOpen q = journalOpen p" "aInCkpt q = aInCkpt p" "ckptSize q = ckptSize p"
  shows "journal_bit n q = journal_bit n p" "ckpt_bit n q = ckpt_bit n p"
  using assms by (simp_all add: journal_bit_def ckpt_bit_def cong: option.case_cong if_cong)

lemma inv_counted:
  assumes "inv B rs p"
  shows "counted B p"
  using inv_states [OF assms] inv_read [OF assms] inv_write [OF assms] invD(2) [OF assms]
  by (auto simp: counted_def in_read_def in_write_def write_flags_def file_ok_def)

lemma behind_end:
  assumes "content N B ns db ds L" "ds < n"
  shows "length db \<le> (n - 1) * SQLITE_PAGE_SIZE"
proof -
  have "npages db \<le> n - 1" "aligned db" using assms by (auto simp: content_def extent_def)
  then show ?thesis by (simp add: aligned_def del: One_nat_def)
qed

lemma fill_slot:
  assumes i: "inv B rs p" and abs: "pager_lookup p n = None" and n: "0 < n" "n \<le> SQLITE_MAX_PAGE"
    and s: "pAll p = us @ vs" and h: "pgno h = n" "length (pdata h) = SQLITE_PAGE_SIZE" "inCkpt h \<longleftrightarrow> n \<in> set cs"
    and cs: "filter (\<lambda>m. m \<noteq> n) cs = pCkpt p" "distinct cs"
  shows "\<exists>p' g. (do { p \<leftarrow> init_page n (p\<lparr>pAll := us @ h # vs, nPage := nPage p + 1, pCkpt := cs\<rparr>); load_page n p }) = Some (SQLITE_OK, p') \<and>
    inv B rs p' \<and> same_rest p p' \<and> size_of B p' = size_of B p \<and> pager_lookup p' = (pager_lookup p)(n \<mapsto> g) \<and> pdata g = page_at (fbytes (fd p)) n \<and> pnRef g = 1"
proof -
  note c = invD [OF i]
  define q where "q = p\<lparr>pAll := us @ h # vs, nPage := nPage p + 1, pCkpt := cs\<rparr>"
  obtain inc where bits: "journal_bit n q = Some (n \<in> fst ` set rs)" "ckpt_bit n q = Some inc" and u: "inc \<Longrightarrow> ckptInUse p"
    using page_bits [OF i n] bits_same [of q p n] by (auto simp: q_def)
  have nn: "n \<notin> pgno ` set (us @ vs)" using abs s(1) by (simp add: lookup_None)
  define h' where "h' = placed (n \<in> fst ` set rs) inc (nExtra p) h"
  define cs' where "cs' = (if inc then if inCkpt h then cs else n # cs else remove1 n cs)"
  define q' where "q' = q\<lparr>pAll := us @ h' # vs, pCkpt := cs', nRef := nRef p + 1\<rparr>"
  have init: "init_page n q = Some q'"
    using init_page_quiet [OF _ h(1) nn bits, of] h(3) by (simp add: q_def q'_def h'_def cs'_def)
  have sz: "size_of B q' = size_of B p" "counted B q'" using inv_counted [OF i] by (simp_all add: size_of_def counted_def q'_def q_def)
  have lq: "\<exists>f. load_page n q' = Some (SQLITE_OK, q'\<lparr>dbSize := int (size_of B q'), fd := f, pAll := us @ h'\<lparr>pdata := page_at (fbytes (fd q')) n\<rparr> # vs\<rparr>) \<and>
    fbytes f = fbytes (fd q')"
  proof (rule load_page_quiet [OF _ _ nn _ _ sz(2) n])
    show "n * SQLITE_PAGE_SIZE \<le> length (fbytes (fd q'))" if "n \<le> size_of B q'"
      using content_on_disk [OF c(6) abs] that sz(1) by (simp add: q'_def q_def)
    show "length (fbytes (fd q')) \<le> (n - 1) * SQLITE_PAGE_SIZE" if "size_of B q' < n"
      using behind_end [OF c(6)] that sz(1) by (simp add: q'_def q_def)
  qed (use c(1) h in \<open>simp_all add: q'_def q_def h'_def sess_def\<close>)
  define g where "g = h'\<lparr>pdata := page_at (fbytes (fd p)) n\<rparr>"
  have fq: "fbytes (fd q') = fbytes (fd p)" by (simp add: q'_def q_def)
  obtain f where f: "load_page n q' = Some (SQLITE_OK, q'\<lparr>dbSize := int (size_of B p), fd := f, pAll := us @ g # vs\<rparr>)" "fbytes f = fbytes (fd p)"
    using lq unfolding sz(1) fq g_def [symmetric] by blast
  define p' where "p' = q'\<lparr>dbSize := int (size_of B p), fd := f, pAll := us @ g # vs\<rparr>"
  have r: "same_rest p p'" using f(2) by (simp add: same_rest_def p'_def q'_def q_def)
  have ds: "dbSize p' = dbSize p \<or> state p = SQLITE_READLOCK \<and> dbSize p' = int (npages B)"
    using inv_counted [OF i] inv_states [OF i] inv_write [OF i]
    by (auto simp: p'_def size_of_def counted_def in_write_def write_flags_def)
  have csn: "set cs - {n} = set (pCkpt p)" using cs(1) by (metis set_filter set_minus_filter_out)
  have "inv B rs p' \<and> pager_lookup p' = (pager_lookup p)(n \<mapsto> g)"
  proof (rule page_added [OF i abs s _ r ds])
    show "distinct (pCkpt p')" using cs(2) h(3) by (simp add: p'_def q'_def cs'_def)
    show "set (pCkpt p') = (if inCkpt g then insert n (set (pCkpt p)) else set (pCkpt p))"
      using csn cs(2) h(3) by (auto simp: p'_def q'_def cs'_def g_def h'_def)
    show "page_ok (nExtra p) g" using n h(1) by (simp add: g_def h'_def page_ok_def)
  qed (use u h in \<open>simp_all add: p'_def q'_def q_def g_def h'_def\<close>)
  moreover have "size_of B p' = size_of B p" by (simp add: p'_def size_of_def)
  ultimately show ?thesis using init f(1) r
    unfolding q_def [symmetric] by (intro exI [of _ p'] exI [of _ g]) (simp add: p'_def g_def h'_def)
qed

section \<open>A page less\<close>

definition without :: "nat \<Rightarrow> pager \<Rightarrow> pager" where
  \<comment> \<open>the pager without a free page\<close>
  "without m p = (unlink_free m p)\<lparr>pAll := filter (\<lambda>g. pgno g \<noteq> m) (pAll p), nPage := nPage p - 1, pCkpt := filter (\<lambda>x. x \<noteq> m) (pCkpt p)\<rparr>"

lemma filter_pgno:
  assumes "distinct (map pgno gs)" "g \<in> set gs" "pgno g = m"
  shows "\<exists>us vs. gs = us @ g # vs \<and> filter (\<lambda>g. pgno g \<noteq> m) gs = us @ vs \<and> m \<notin> pgno ` set (us @ vs)"
proof -
  obtain us vs where s: "gs = us @ g # vs" using assms(2) by (meson split_list)
  then have nn: "m \<notin> pgno ` set us" "m \<notin> pgno ` set vs" using assms(1,3) by auto
  then have "filter (\<lambda>g. pgno g \<noteq> m) us = us" "filter (\<lambda>g. pgno g \<noteq> m) vs = vs" by (force simp: filter_id_conv)+
  then show ?thesis using s nn assms(3) by (intro exI [of _ us] exI [of _ vs]) (simp add: image_Un)
qed

lemma lookup_filter: "find (\<lambda>g. pgno g = n) (filter (\<lambda>g. pgno g \<noteq> m) gs) = (if n = m then None else find (\<lambda>g. pgno g = n) gs)"
  by (induction gs) auto

lemma without_lookup: "pager_lookup (without m p) = (pager_lookup p)(m := None)"
  by (rule ext) (simp add: without_def pager_lookup_def lookup_filter)

lemma without_inv:
  assumes i: "inv B rs p" and g: "pager_lookup p m = Some g" "pnRef g = 0" "\<not> dirty g" "\<not> pneedSync g"
  shows "inv B rs (without m p)" and "same_rest p (without m p)" and "dbSize (without m p) = dbSize p"
proof -
  note c = invD [OF i]
  let ?p = "without m p"
  obtain fs where fs: "unlink_free m p = p\<lparr>pFree := remove1 m (pFree p), pFirstSynced := fs\<rparr>" using unlink_shape by blast
  have gm: "g \<in> set (pAll p)" "pgno g = m" using lookup_Some [OF g(1)] by simp_all
  obtain us vs where s: "pAll p = us @ g # vs" "pAll ?p = us @ vs" "m \<notin> pgno ` set (us @ vs)"
    using filter_pgno [OF cache_okD(1) [OF c(3)] gm] by (auto simp: without_def)
  have free: "m \<in> set (pFree p)" using cache_free [OF c(3)] g by auto
  show r: "same_rest p ?p" by (simp add: same_rest_def without_def fs)
  show ds: "dbSize ?p = dbSize p" by (simp add: without_def fs)
  have l: "pFree ?p = remove1 m (pFree p)" "nRef ?p = nRef p" "nPage ?p = nPage p - 1" "nExtra ?p = nExtra p" "pCkpt ?p = filter (\<lambda>x. x \<noteq> m) (pCkpt p)"
    "ckptInUse ?p = ckptInUse p" "aInCkpt ?p = aInCkpt p" "pFirstSynced ?p = fs" "first_free ?p = first_free (unlink_free m p)"
    by (simp_all add: without_def fs first_free_def)
  have cache: "cache_ok ?p"
  proof -
    have ck: "distinct (pCkpt p)" "set (pCkpt p) = pgno ` {h \<in> set (pAll p). inCkpt h}" "\<not> ckptInUse p \<Longrightarrow> pCkpt p = [] \<and> aInCkpt p = None"
      using cache_okD(3) [OF c(3)] by (simp_all add: ckpt_list_def)
    have "set (pCkpt p) - {m} = pgno ` {h \<in> set (us @ vs). inCkpt h}"
      using s(3) gm(2) unfolding ck(2) s(1) by (auto intro: rev_image_eqI)
    then have "ckpt_list ?p" unfolding ckpt_list_def l s(2) using ck(1,3) by (auto simp: set_minus_filter_out [symmetric])
    moreover have "set (remove1 m (pFree p)) = pgno ` {h \<in> set (us @ vs). pnRef h = 0}"
    proof -
      have "set (pFree p) - {m} = pgno ` {h \<in> set (us @ vs). pnRef h = 0}"
        using s(3) gm(2) unfolding cache_okD(6) [OF c(3)] s(1) by (auto intro: rev_image_eqI)
      then show ?thesis using cache_okD(2) [OF c(3)] by simp
    qed
    ultimately show ?thesis using c(3) g(2) unfolding cache_ok_def l s(1,2) by simp
  qed
  have L: "pager_lookup ?p = (pager_lookup p)(m := None)" by (rule without_lookup)
  have dy: "dirty_at (pager_lookup ?p) n \<Longrightarrow> dirty_at (pager_lookup p) n" for n unfolding L by (simp split: if_splits)
  have sy: "sync_at (pager_lookup ?p) n \<longleftrightarrow> sync_at (pager_lookup p) n" for n using g unfolding L by (simp add: sync_at_def)
  have u: "pFirstSynced (unlink_free m p) = fs" by (simp add: fs)
  have ff: "pFirstSynced ?p = first_free ?p" if "\<And>m. \<not> sync_at (pager_lookup p) m" "pFirstSynced p = first_free p"
    using unlink_sync(2) [OF c(3,4) free that] unfolding l u .
  have sync: "sync_ok ?p"
  proof -
    have "n \<in> set (pFree ?p) \<and> \<not> sync_at (pager_lookup p) n" if "pFirstSynced ?p = Some n" for n
      using unlink_sync(1) [OF c(3,4) free, of n] that unfolding l u by simp
    moreover have "needSync ?p = needSync p" "noSync ?p = noSync p" using r by (simp_all add: same_rest_def)
    ultimately show ?thesis using c(4) sy ff unfolding sync_ok_def by auto
  qed
  show "inv B rs ?p"
  proof (rule inv_carry [OF i r _ cache sync])
    show "content (npages B) B (fst ` set rs) (fbytes (fd p)) (size_of B p) (pager_lookup ?p)"
      unfolding L by (rule content_remove [OF c(6)]) (use g in \<open>simp add: dirty_at_def\<close>)
    show "inJournal h \<longleftrightarrow> k \<in> fst ` set rs" if "pager_lookup ?p k = Some h" for k h
      using that c(7) [of k h] unfolding L by (simp split: if_splits)
  qed (use ds dy sy ff c(5) l in auto)
qed

lemma rename_without:
  assumes i: "inv B rs p" and g: "pager_lookup p m = Some g" and n: "pager_lookup p n = None"
  shows "\<exists>us vs. pAll (without m p) = us @ vs \<and> filter (\<lambda>x. x \<noteq> n) (pCkpt (rename_page m n (unlink_free m p))) = pCkpt (without m p) \<and>
    distinct (pCkpt (rename_page m n (unlink_free m p))) \<and> (inCkpt g \<longleftrightarrow> n \<in> set (pCkpt (rename_page m n (unlink_free m p)))) \<and>
    rename_page m n (unlink_free m p) = (without m p)\<lparr>pAll := us @ g\<lparr>pgno := n\<rparr> # vs, nPage := nPage (without m p) + 1,
      pCkpt := pCkpt (rename_page m n (unlink_free m p))\<rparr>"
proof -
  note c = invD [OF i]
  define cs where "cs = map (\<lambda>x. if x = m then n else x) (pCkpt p)"
  obtain fs where fs: "unlink_free m p = p\<lparr>pFree := remove1 m (pFree p), pFirstSynced := fs\<rparr>" using unlink_shape by blast
  have gm: "g \<in> set (pAll p)" "pgno g = m" using lookup_Some [OF g(1)] by simp_all
  obtain us vs where s: "pAll p = us @ g # vs" "filter (\<lambda>g. pgno g \<noteq> m) (pAll p) = us @ vs" "m \<notin> pgno ` set (us @ vs)"
    using filter_pgno [OF cache_okD(1) [OF c(3)] gm] by blast
  have ck: "distinct (pCkpt p)" "set (pCkpt p) = pgno ` {h \<in> set (pAll p). inCkpt h}"
    using cache_okD(3) [OF c(3)] by (simp_all add: ckpt_list_def)
  have n0: "n \<notin> set (pCkpt p)" "m \<noteq> n" using n lookup_None [of p n] g(1) unfolding ck(2) by auto
  have o: "pAll (on_page m f p) = us @ f g # vs" for f using on_slot [OF s(1) gm(2) s(3), of f] by simp
  have rn: "pCkpt (rename_page m n (unlink_free m p)) = cs" by (simp add: rename_page_def fs cs_def)
  have "filter (\<lambda>x. x \<noteq> n) (map (\<lambda>x. if x = m then n else x) xs) = filter (\<lambda>x. x \<noteq> m) xs" if "n \<notin> set xs" for xs
    using that by (induction xs) auto
  then have "filter (\<lambda>x. x \<noteq> n) cs = filter (\<lambda>x. x \<noteq> m) (pCkpt p)" using n0(1) by (simp add: cs_def)
  moreover have "distinct cs" unfolding cs_def distinct_map using ck(1) n0 by (auto simp: inj_on_def)
  moreover have "inCkpt g \<longleftrightarrow> n \<in> set cs"
  proof -
    have "m \<in> set (pCkpt p) \<longleftrightarrow> inCkpt g" using gm s(3) unfolding ck(2) s(1) by auto
    then show ?thesis using n0 unfolding cs_def by (auto simp: image_iff)
  qed
  moreover have "rename_page m n (unlink_free m p) = (without m p)\<lparr>pAll := us @ g\<lparr>pgno := n\<rparr> # vs, nPage := nPage (without m p) + 1, pCkpt := cs\<rparr>"
  proof -
    have "0 < nPage p" using gm(1) cache_okD(4) [OF c(3)] by (cases "pAll p") auto
    then have k: "nPage p - 1 + 1 = nPage p" by simp
    have "map (\<lambda>h. if pgno h = m then h\<lparr>pgno := n\<rparr> else h) (pAll p) = us @ g\<lparr>pgno := n\<rparr> # vs"
      using o [of "\<lambda>h. h\<lparr>pgno := n\<rparr>"] by (simp add: on_page_def)
    then show ?thesis using k unfolding rename_page_def fs without_def on_page_def cs_def by (cases p) simp
  qed
  ultimately show ?thesis using s(2) unfolding rn by (intro exI [of _ us] exI [of _ vs]) (simp add: without_def)
qed

section \<open>Recycling\<close>

definition in_use :: "pager \<Rightarrow> nat \<Rightarrow> (bytes \<times> bool \<times> nat) option" where
  \<comment> \<open>data, dirty flag and number of references of a page that is in use\<close>
  "in_use p n = (case pager_lookup p n of Some g \<Rightarrow> if pnRef g > 0 then Some (pdata g, dirty g, pnRef g) else None | None \<Rightarrow> None)"

lemma lookup_always [simp]: "pager_lookup (p\<lparr>alwaysRollback := x\<rparr>) = pager_lookup p"
  by (rule ext) (simp add: pager_lookup_def)

lemma inv_always [simp]: "inv B rs (p\<lparr>alwaysRollback := x\<rparr>) = inv B rs p"
  by (simp add: inv_def sess_def cache_ok_def ckpt_list_def sync_ok_def in_read_def in_write_def journal_ok_def ckpt_bits_def write_flags_def
      guarded_def header_def first_free_def size_of_def)

lemma in_use_synced: "in_use (synced h p) n = in_use p n"
  by (simp add: in_use_def synced_lookup split: option.split)

lemma in_use_wrote: "pager_lookup p m = Some g \<Longrightarrow> pnRef g = 0 \<Longrightarrow> in_use (wrote {m} f p) n = in_use p n"
  using lookup_Some [of p n] by (auto simp: in_use_def wrote_lookup split: option.split)

lemma pick_free:
  assumes i: "inv B rs p" and ne: "pFree p \<noteq> []" and room: "pFirstSynced p \<noteq> None \<or> state p = SQLITE_WRITELOCK \<and> dirtyFile p"
  shows "\<exists>p0 m. (if pFirstSynced p = None then syncJournal p else Some (SQLITE_OK, p)) = Some (SQLITE_OK, p0) \<and> pFirstSynced p0 = Some m \<and>
    inv B rs p0 \<and> (p0 = p \<or> p0 = synced (word_of_nat (nRec p)) p)"
proof (cases "pFirstSynced p")
  case None
  obtain p0 where p0: "syncJournal p = Some (SQLITE_OK, p0)" "inv B rs p0" "pFirstSynced p0 = first_free p0" "p0 = p \<or> p0 = synced (word_of_nat (nRec p)) p"
    using synced_or_same [OF i] room None by auto
  have "pFree p0 = pFree p" using p0(4) by auto
  then obtain m where "pFirstSynced p0 = Some m" using p0(3) ne by (cases "pFree p") (auto simp: first_free_def)
  then show ?thesis using None p0 by auto
qed (use i in auto)

lemma recycle_quiet:
  assumes i: "inv B rs p" and ne: "pFree p \<noteq> []" and room: "pFirstSynced p \<noteq> None \<or> state p = SQLITE_WRITELOCK \<and> dirtyFile p"
  shows "\<exists>p1 m g. recycle_page p = Some (Some m, unlink_free m p1) \<and> inv B rs p1 \<and> pager_lookup p1 m = Some g \<and> pnRef g = 0 \<and> \<not> dirty g \<and> \<not> pneedSync g \<and>
    state p1 = state p \<and> size_of B p1 = size_of B p \<and> (\<forall>k > 0. logical p1 k = logical p k) \<and> (\<forall>k. pager_lookup p1 k = None \<longleftrightarrow> pager_lookup p k = None) \<and>
    (\<forall>k. in_use p1 k = in_use p k)"
proof -
  obtain p0 m where p0: "(if pFirstSynced p = None then syncJournal p else Some (SQLITE_OK, p)) = Some (SQLITE_OK, p0)" "pFirstSynced p0 = Some m"
    "inv B rs p0" "p0 = p \<or> p0 = synced (word_of_nat (nRec p)) p" using pick_free [OF i ne room] by blast
  note c = invD [OF p0(3)]
  have same: "state p0 = state p" "size_of B p0 = size_of B p" "\<And>k. logical p0 k = logical p k" "\<And>k. pager_lookup p0 k = None \<longleftrightarrow> pager_lookup p k = None"
    "\<And>k. in_use p0 k = in_use p k"
    using p0(4) size_of_cong [of p0 p] by (auto simp: synced_lookup in_use_synced)
  have free: "m \<in> set (pFree p0)" "\<not> sync_at (pager_lookup p0) m" using p0(2) c(4) by (simp_all add: sync_ok_def)
  then obtain g where g: "pager_lookup p0 m = Some g" "pnRef g = 0" using cache_free [OF c(3)] by auto
  have nsync: "\<not> pneedSync g" using free(2) g by (simp add: sync_at_def)
  have ns: "sync_at (pager_lookup p0) k \<Longrightarrow> k \<noteq> m" for k using free(2) by auto
  have start: "recycle_page p = (do {
       (rc, p) \<leftarrow> (if dirty g then pager_write_pagelist [m] p0 else Some (SQLITE_OK, p0));
       if rc \<noteq> SQLITE_OK then do {
         (_, p) \<leftarrow> sqlitepager_rollback p;
         Some (None, p) }
       else do {
         let p = (if palwaysRollback g then p\<lparr>alwaysRollback := True\<rparr> else p);
         Some (Some m, unlink_free m p) } })"
    unfolding recycle_page_def p0(1) using p0(2) g nsync by (simp add: assertion_def)
  have "\<exists>p1 g1. (if dirty g then pager_write_pagelist [m] p0 else Some (SQLITE_OK, p0)) = Some (SQLITE_OK, p1) \<and> inv B rs p1 \<and>
    pager_lookup p1 m = Some g1 \<and> pnRef g1 = 0 \<and> \<not> dirty g1 \<and> \<not> pneedSync g1 \<and> state p1 = state p0 \<and> size_of B p1 = size_of B p0 \<and> (\<forall>k > 0. logical p1 k = logical p0 k) \<and>
    (\<forall>k. pager_lookup p1 k = None \<longleftrightarrow> pager_lookup p0 k = None) \<and> (\<forall>k. in_use p1 k = in_use p0 k)"
  proof (cases "dirty g")
    case False
    then show ?thesis using g p0(3) nsync by (intro exI [of _ p0] exI [of _ g]) simp
  next
    case True
    then have da: "dirty_at (pager_lookup p0) m" using g by (simp add: dirty_at_def)
    then have w: "state p0 = SQLITE_WRITELOCK" using inv_states [OF p0(3)] inv_read [OF p0(3)] by (auto simp: in_read_def)
    have wf: "write_flags B rs p0" using inv_write [OF p0(3) w] by (simp add: in_write_def)
    then have df: "dirtyFile p0" "int m \<le> dbSize p0" using da by (simp_all add: write_flags_def)
    have "\<exists>f. pager_write_pagelist [m] p0 = Some (SQLITE_OK, wrote (set [m]) f p0) \<and>
      content (npages B) B (fst ` set rs) (fbytes f) (size_of B p0) (pager_lookup (wrote (set [m]) f p0)) \<and>
      (\<forall>k > 0. logical (wrote (set [m]) f p0) k = logical p0 k) \<and> (\<forall>k > 0. k \<notin> set [m] \<longrightarrow> page_at (fbytes f) k = page_at (fbytes (fd p0)) k)"
      by (rule write_pagelist_quiet [OF _ cache_okD(1) [OF c(3)] _ _ c(6)])
         (use c(1) g True df(2) cache_page [OF c(3) g(1)] in \<open>simp_all add: sess_def size_of_def\<close>)
    then obtain f where f: "pager_write_pagelist [m] p0 = Some (SQLITE_OK, wrote {m} f p0)"
      "content (npages B) B (fst ` set rs) (fbytes f) (size_of B p0) (pager_lookup (wrote {m} f p0))"
      "\<forall>k > 0. logical (wrote {m} f p0) k = logical p0 k" "\<forall>k > 0. k \<notin> {m} \<longrightarrow> page_at (fbytes f) k = page_at (fbytes (fd p0)) k" by auto
    have "inv B rs (wrote {m} f p0)" using f(4) ns by (intro wrote_inv [OF p0(3) w df(1) f(2)]) auto
    then show ?thesis
      using f(1,3) True nsync g wrote_one [OF g(1) cache_okD(1) [OF c(3)], of f] size_of_cong [of "wrote {m} f p0" p0]
        in_use_wrote [OF g, of f]
      by (intro exI [of _ "wrote {m} f p0"] exI [of _ "g\<lparr>dirty := False\<rparr>"]) (simp add: wrote_lookup)
  qed
  then obtain p1 g1 where p1: "(if dirty g then pager_write_pagelist [m] p0 else Some (SQLITE_OK, p0)) = Some (SQLITE_OK, p1)" "inv B rs p1"
    "pager_lookup p1 m = Some g1" "pnRef g1 = 0" "\<not> dirty g1" "\<not> pneedSync g1" "state p1 = state p0" "size_of B p1 = size_of B p0" "\<forall>k > 0. logical p1 k = logical p0 k"
    "\<forall>k. pager_lookup p1 k = None \<longleftrightarrow> pager_lookup p0 k = None" "\<forall>k. in_use p1 k = in_use p0 k" by blast
  define p2 where "p2 = (if palwaysRollback g then p1\<lparr>alwaysRollback := True\<rparr> else p1)"
  have "recycle_page p = Some (Some m, unlink_free m p2)" unfolding start p1(1) by (simp add: p2_def)
  moreover have "inv B rs p2" using p1(2) by (simp add: p2_def)
  moreover have e: "pager_lookup p2 = pager_lookup p1" "state p2 = state p1" "size_of B p2 = size_of B p1" "fd p2 = fd p1" by (simp_all add: p2_def size_of_def)
  moreover have "\<forall>k > 0. logical p2 k = logical p k" using p1(9) same(3) by (simp add: logical_def e cong: option.case_cong)
  moreover have "\<forall>k. in_use p2 k = in_use p k" using p1(11) same(5) by (simp add: in_use_def e)
  ultimately show ?thesis using p1 same by (intro exI [of _ p2] exI [of _ m] exI [of _ g1]) simp
qed

section \<open>Getting a page\<close>

definition same_db :: "bytes \<Rightarrow> pager \<Rightarrow> pager \<Rightarrow> bool" where
  \<comment> \<open>the database is the same\<close>
  "same_db B p p' \<longleftrightarrow> size_of B p' = size_of B p \<and> (\<forall>k. 0 < k \<longrightarrow> k \<le> size_of B p \<longrightarrow> logical p' k = logical p k)"

lemma same_db_trans: "same_db B p q \<Longrightarrow> same_db B q r \<Longrightarrow> same_db B p r"
  by (simp add: same_db_def)

text \<open>
  What a stale \<open>pFirstSynced\<close> makes fail: with no memory left, no page known to be synced and no change of
  the database made, the code syncs a journal that does not need it.
\<close>

definition has_room :: "nat \<Rightarrow> pager \<Rightarrow> bool" where
  "has_room n p \<longleftrightarrow> pager_lookup p n \<noteq> None \<or> int (nPage p) < mxPage p \<or> pFree p = [] \<or> pFirstSynced p \<noteq> None \<or>
     state p = SQLITE_WRITELOCK \<and> dirtyFile p"

lemma get_start:
  assumes "inv B rs p" "0 < n"
  shows "sqlitepager_get n p = (case pager_lookup p n of None \<Rightarrow> get_miss n p | Some _ \<Rightarrow> do { p \<leftarrow> page_ref n p; Some (SQLITE_OK, p) })"
  using assms by (simp add: sqlitepager_get_def assertion_def inv_def sess_def)

lemma without_same:
  assumes i: "inv B rs p" and g: "pager_lookup p m = Some g" "pnRef g = 0" "\<not> dirty g" "\<not> pneedSync g"
  shows "same_db B p (without m p)" "in_use (without m p) k = in_use p k" "state (without m p) = state p"
proof -
  have r: "same_rest p (without m p)" "dbSize (without m p) = dbSize p" by (rule without_inv [OF i g])+
  show "state (without m p) = state p" using r by (simp add: same_rest_def)
  show "in_use (without m p) k = in_use p k" using g by (simp add: in_use_def without_lookup)
  have "0 < m" using cache_page [OF invD(3) [OF i] g(1)] by simp
  then have "pdata g = page_at (fbytes (fd p)) m" if "m \<le> size_of B p"
    using invD(6) [OF i] g that by (simp add: content_def mirrors_def)
  then show "same_db B p (without m p)"
    using r g size_of_cong [of "without m p" p] by (auto simp: same_db_def logical_def without_lookup same_rest_def cong: option.case_cong)
qed

lemma added_same:
  assumes "pager_lookup p n = None" "pager_lookup p' = (pager_lookup p)(n \<mapsto> g)" "pdata g = page_at (fbytes (fd p)) n" "pnRef g = 1"
    and "same_rest p p'" "size_of B p' = size_of B p"
  shows "same_db B p p'" "in_use p' n = Some (logical p' n, dirty g, 1)" "k \<noteq> n \<Longrightarrow> in_use p' k = in_use p k" "state p' = state p"
    "logical p' n = logical p n"
  using assms by (simp_all add: same_db_def logical_def in_use_def same_rest_def cong: option.case_cong)

text \<open>Other pages in use stay as they are; the page itself has one reference more.\<close>

definition taken :: "bytes \<Rightarrow> nat \<Rightarrow> pager \<Rightarrow> pager \<Rightarrow> bool" where
  "taken B n p p' \<longleftrightarrow> state p' = state p \<and> same_db B p p' \<and> (\<forall>k. k \<noteq> n \<longrightarrow> in_use p' k = in_use p k) \<and>
     (\<exists>d k. in_use p' n = Some (logical p' n, d, k + 1) \<and> k = refs p n \<and> (\<forall>d' b k'. in_use p n = Some (d', b, k') \<longrightarrow> d' = logical p' n \<and> b = d \<and> k = k'))"

lemma get_quiet:
  assumes i: "inv B rs p" and n: "0 < n" "n \<le> SQLITE_MAX_PAGE" and room: "has_room n p"
  shows "\<exists>p'. sqlitepager_get n p = Some (SQLITE_OK, p') \<and> inv B rs p' \<and> taken B n p p'"
proof (cases "pager_lookup p n")
  case (Some g)
  obtain p' where p': "page_ref n p = Some p'" "inv B rs p'" "same_rest p p'" "dbSize p' = dbSize p"
    "pager_lookup p' = (pager_lookup p)(n \<mapsto> g\<lparr>pnRef := pnRef g + 1\<rparr>)" using page_ref_inv [OF i Some] by blast
  have "taken B n p p'"
    using p'(3,5) Some size_of_cong [OF p'(4), of B]
    by (simp add: taken_def refs_def same_db_def logical_def in_use_def same_rest_def cong: option.case_cong)
  then show ?thesis using get_start [OF i n(1)] Some p'(1,2) by simp
next
  case None
  have q: "outs p = []" and nx: "length (heap p) = SQLITE_PAGE_SIZE" using invD(1) [OF i] by (simp_all add: sess_def)
  show ?thesis
  proof (cases "int (nPage p) < mxPage p \<or> pFree p = []")
    case True
    have nc: "filter (\<lambda>m. m \<noteq> n) (pCkpt p) = pCkpt p" "distinct (pCkpt p)" "n \<notin> set (pCkpt p)"
    proof -
      show "n \<notin> set (pCkpt p)" using None lookup_None [of p n] cache_okD(3) [OF invD(3) [OF i]] by (auto simp: ckpt_list_def)
      then show "filter (\<lambda>m. m \<noteq> n) (pCkpt p) = pCkpt p" by (auto simp: filter_id_conv)
    qed (use cache_okD(3) [OF invD(3) [OF i]] in \<open>simp add: ckpt_list_def\<close>)
    obtain p' g where p': "(do { p \<leftarrow> init_page n (p\<lparr>pAll := [] @ fresh_page n p # pAll p, nPage := nPage p + 1, pCkpt := pCkpt p\<rparr>); load_page n p }) = Some (SQLITE_OK, p')"
      "inv B rs p'" "same_rest p p'" "size_of B p' = size_of B p" "pager_lookup p' = (pager_lookup p)(n \<mapsto> g)" "pdata g = page_at (fbytes (fd p)) n" "pnRef g = 1"
      using fill_slot [OF i None n, of "[]" "pAll p" "fresh_page n p" "pCkpt p"] nc nx by (auto simp: fresh_page_def)
    have e: "p\<lparr>pAll := [] @ fresh_page n p # pAll p, nPage := nPage p + 1, pCkpt := pCkpt p\<rparr> = p\<lparr>pAll := fresh_page n p # pAll p, nPage := nPage p + 1\<rparr>"
      by (cases p) simp
    have "get_miss n p = Some (SQLITE_OK, p')"
      using True p'(1) quiet_calls(7) [OF q] unfolding e by (simp add: get_miss_def)
    moreover have "taken B n p p'"
      using added_same [OF None p'(5,6,7,3,4)] None by (simp add: taken_def refs_def in_use_def)
    ultimately show ?thesis using get_start [OF i n(1)] None p'(2) by auto
  next
    case False
    then have ne: "pFree p \<noteq> []" and rm: "pFirstSynced p \<noteq> None \<or> state p = SQLITE_WRITELOCK \<and> dirtyFile p"
      using room None by (auto simp: has_room_def)
    obtain p1 m g1 where p1: "recycle_page p = Some (Some m, unlink_free m p1)" "inv B rs p1" "pager_lookup p1 m = Some g1" "pnRef g1 = 0" "\<not> dirty g1" "\<not> pneedSync g1"
      "state p1 = state p" "size_of B p1 = size_of B p" "\<forall>k > 0. logical p1 k = logical p k" "\<forall>k. pager_lookup p1 k = None \<longleftrightarrow> pager_lookup p k = None"
      "\<forall>k. in_use p1 k = in_use p k" using recycle_quiet [OF i ne rm] by blast
    have n1: "pager_lookup p1 n = None" using p1(10) None by simp
    then have n2: "pager_lookup (without m p1) n = None" by (simp add: without_lookup)
    define cs where "cs = pCkpt (rename_page m n (unlink_free m p1))"
    obtain us vs where uv: "pAll (without m p1) = us @ vs" "filter (\<lambda>x. x \<noteq> n) cs = pCkpt (without m p1)" "distinct cs" "inCkpt g1 \<longleftrightarrow> n \<in> set cs"
      "rename_page m n (unlink_free m p1) = (without m p1)\<lparr>pAll := us @ g1\<lparr>pgno := n\<rparr> # vs, nPage := nPage (without m p1) + 1, pCkpt := cs\<rparr>"
      using rename_without [OF p1(2,3) n1] unfolding cs_def by blast
    have len: "length (pdata g1) = SQLITE_PAGE_SIZE" using cache_page [OF invD(3) [OF p1(2)] p1(3)] by simp
    obtain p' g where p': "(do { p \<leftarrow> init_page n (rename_page m n (unlink_free m p1)); load_page n p }) = Some (SQLITE_OK, p')"
      "inv B rs p'" "same_rest (without m p1) p'" "size_of B p' = size_of B (without m p1)" "pager_lookup p' = (pager_lookup (without m p1))(n \<mapsto> g)"
      "pdata g = page_at (fbytes (fd (without m p1))) n" "pnRef g = 1"
      using fill_slot [OF without_inv(1) [OF p1(2-6)] n2 n uv(1), of "g1\<lparr>pgno := n\<rparr>" cs] uv len by auto
    have "get_miss n p = Some (SQLITE_OK, p')" using False p1(1) p'(1) by (simp add: get_miss_def)
    moreover have "taken B n p p'"
    proof -
      note w = without_same [OF p1(2-6)]
      note a = added_same [OF n2 p'(5,6,7,3,4)]
      have "same_db B p p1" using p1(8,9) by (simp add: same_db_def)
      then have "same_db B p p'" using w(1) a(1) same_db_trans by blast
      then show ?thesis using w(2,3) a(2-4) p1(7,11) None by (simp add: taken_def refs_def in_use_def)
    qed
    ultimately show ?thesis using get_start [OF i n(1)] None p'(2) by auto
  qed
qed

section \<open>The first page\<close>

definition empty_read :: "bytes \<Rightarrow> pager \<Rightarrow> bool" where
  \<comment> \<open>a pager that has just got its read lock, with no page in memory\<close>
  "empty_read B p \<longleftrightarrow> sess p \<and> file_ok B \<and> fbytes (fd p) = B \<and> state p = SQLITE_READLOCK \<and> flock p = SQLITE_READLOCK \<and>
     pAll p = [] \<and> pFree p = [] \<and> pCkpt p = [] \<and> pFirstSynced p = None \<and> nPage p = 0 \<and> nRef p = 0 \<and> (dbSize p = -1 \<or> dbSize p = int (npages B)) \<and>
     \<not> journalOpen p \<and> \<not> jname p \<and> aInJournal p = None \<and> \<not> ckptInUse p \<and> aInCkpt p = None \<and> (noSync p \<longrightarrow> \<not> needSync p)"

definition starts :: "bytes \<Rightarrow> nat \<Rightarrow> pager \<Rightarrow> bool" where
  \<comment> \<open>only page \<open>n\<close> is in use, and the database is \<open>B\<close>\<close>
  "starts B n p \<longleftrightarrow> inv B [] p \<and> state p = SQLITE_READLOCK \<and> size_of B p = npages B \<and> (\<forall>k > 0. logical p k = page_at B k) \<and>
     in_use p n = Some (page_at B n, False, 1) \<and> (\<forall>k. k \<noteq> n \<longrightarrow> in_use p k = None)"

lemma get_empty:
  assumes i: "empty_read B p" and n: "0 < n" "n \<le> SQLITE_MAX_PAGE"
  shows "\<exists>p'. get_miss n p = Some (SQLITE_OK, p') \<and> starts B n p'"
proof -
  have s: "outs p = []" "errMask p = 0" "useJournal p" "\<not> tempFile p" "length (heap p) = SQLITE_PAGE_SIZE" "file_ok B" "fbytes (fd p) = B" "nRef p = 0"
    "pAll p = []" "pFree p = []" "pCkpt p = []" "pFirstSynced p = None" "nPage p = 0" "dbSize p = -1 \<or> dbSize p = int (npages B)" "\<not> journalOpen p" "\<not> jname p" "aInJournal p = None"
    "\<not> ckptInUse p" "aInCkpt p = None" "noSync p \<longrightarrow> \<not> needSync p" "state p = SQLITE_READLOCK" "flock p = SQLITE_READLOCK"
    using i by (simp_all add: empty_read_def sess_def)
  define q where "q = p\<lparr>pAll := [fresh_page n p], nPage := 1\<rparr>"
  have start: "get_miss n p = (do { p \<leftarrow> init_page n q; load_page n p })"
    using s quiet_calls(7) [OF s(1)] by (simp add: get_miss_def q_def)
  define h where "h = placed False False (nExtra p) (fresh_page n p)"
  define q' where "q' = q\<lparr>pAll := [] @ h # [], pCkpt := [], nRef := 1\<rparr>"
  have "init_page n q = Some (q\<lparr>pAll := [] @ placed False False (nExtra q) (fresh_page n p) # [],
      pCkpt := (if False then if inCkpt (fresh_page n p) then pCkpt q else n # pCkpt q else remove1 n (pCkpt q)), nRef := nRef q + 1\<rparr>)"
    by (rule init_page_quiet) (use s in \<open>simp_all add: q_def fresh_page_def journal_bit_def ckpt_bit_def\<close>)
  then have init: "init_page n q = Some q'" using s by (simp add: q'_def q_def h_def)
  have sz: "size_of B q' = npages B" "counted B q'" "fbytes (fd q') = B" using s by (auto simp: q'_def q_def size_of_def counted_def file_ok_def)
  have ct: "content (npages B) B {} B (npages B) Map.empty"
    using s(6) by (simp add: content_def extent_def kept_def mirrors_def file_ok_def dirty_at_def)
  define g where "g = h\<lparr>pdata := page_at B n\<rparr>"
  have "\<exists>f. load_page n q' = Some (SQLITE_OK, q'\<lparr>dbSize := int (size_of B q'), fd := f, pAll := [] @ h\<lparr>pdata := page_at (fbytes (fd q')) n\<rparr> # []\<rparr>) \<and>
    fbytes f = fbytes (fd q')"
    by (rule load_page_quiet [OF _ _ _ _ _ sz(2) n], unfold sz(1,3))
       (use s content_on_disk [OF ct] behind_end [OF ct] in \<open>simp_all add: q'_def q_def h_def fresh_page_def del: One_nat_def\<close>)
  then obtain f where f: "load_page n q' = Some (SQLITE_OK, q'\<lparr>dbSize := int (npages B), fd := f, pAll := [g]\<rparr>)" "fbytes f = B"
    unfolding sz g_def [symmetric] by auto
  define p' where "p' = q'\<lparr>dbSize := int (npages B), fd := f, pAll := [g]\<rparr>"
  have g: "pgno g = n" "pdata g = page_at B n" "\<not> dirty g" "\<not> inJournal g" "\<not> inCkpt g" "\<not> pneedSync g" "pnRef g = 1" "length (pextra g) = nExtra p"
    by (simp_all add: g_def h_def fresh_page_def)
  have L: "pager_lookup p' = [n \<mapsto> g]" using g(1) by (intro ext) (simp add: pager_lookup_def p'_def)
  have "inv B [] p'"
  proof (rule inv_readI)
    show "sess p'" using i by (simp add: empty_read_def sess_def p'_def q'_def q_def)
    show "cache_ok p'" using n g s by (auto simp: cache_ok_def page_ok_def ckpt_list_def p'_def q'_def q_def)
    show "sync_ok p'" using g s unfolding sync_ok_def L by (simp add: p'_def q'_def q_def sync_at_def first_free_def)
    have "content (npages B) B {} B (npages B) ([n \<mapsto> g])" by (rule content_add [OF ct]) (use g in simp_all)
    then show "content (npages B) B {} (fbytes (fd p')) (size_of B p') (pager_lookup p')" unfolding L using f(2) by (simp add: p'_def size_of_def)
    show "\<not> inJournal z" if "pager_lookup p' k = Some z" for k z using that g unfolding L by (simp split: if_splits)
    show "in_read B p'" using g s f(2) unfolding in_read_def L by (simp add: p'_def q'_def q_def dirty_at_def sync_at_def)
  qed (use s in \<open>simp_all add: p'_def q'_def q_def\<close>)
  moreover have "logical p' k = page_at B k" for k using g f(2) unfolding logical_def L by (simp add: p'_def)
  moreover have "in_use p' n = Some (page_at B n, False, 1)" "k \<noteq> n \<Longrightarrow> in_use p' k = None" for k using g by (simp_all add: in_use_def L)
  ultimately show ?thesis using start init f(1) s(21) by (intro exI [of _ p']) (simp add: starts_def p'_def q'_def q_def size_of_def)
qed

lemma get_first:
  assumes i: "idle B p" and n: "0 < n" "n \<le> SQLITE_MAX_PAGE"
  shows "\<exists>p'. sqlitepager_get n p = Some (SQLITE_OK, p') \<and> starts B n p'"
proof -
  have s: "outs p = []" "errMask p = 0" "useJournal p" "nRef p = 0" "\<not> jname p" using i by (simp_all add: idle_def sess_def)
  let ?q = "p\<lparr>flock := SQLITE_READLOCK, state := SQLITE_READLOCK\<rparr>"
  have "sqlitepager_get n p = get_miss n ?q"
    using n(1) s quiet_calls(6) [OF s(1)] by (simp add: sqlitepager_get_def assertion_def first_lock_def)
  moreover have "empty_read B ?q" using i by (simp add: idle_def empty_read_def sess_def)
  ultimately show ?thesis using get_empty [OF _ n] by simp
qed

end
