(* ===== verification/PgWrite.thy ===== *)
theory PgWrite
  imports PgGet
begin

text \<open>
  Starting a transaction and writing to a page: the journal is created with its header, and a page is
  put into the journals before the client may change it.
\<close>

section \<open>The start of a checkpoint\<close>

definition ckpt_opened :: "disk_file \<Rightarrow> nat \<Rightarrow> pager \<Rightarrow> pager" where
  "ckpt_opened cf k p = p\<lparr>aInCkpt := Some (bit_array (dbSize p)), ckptJSize := nRec p * JOURNAL_PG_SZ 3 + JOURNAL_HDR_SZ 3,
     ckptSize := dbSize p, cpfd := cf, ckptOpen := True, ckptNRec := k, ckptInUse := True\<rparr>"

lemma bit_array_length: "nat n < length (bit_array n)"
  by (simp add: bit_array_def)

lemma ckpt_begin_quiet:
  assumes "outs p = []" "journalOpen p" "\<not> ckptInUse p" "length (fbytes (jfd p)) = nRec p * JOURNAL_PG_SZ 3 + JOURNAL_HDR_SZ 3"
  shows "\<exists>cf k. sqlitepager_ckpt_begin p = Some (SQLITE_OK, ckpt_opened cf k p) \<and>
    (ckptOpen p \<longrightarrow> cf = cpfd p \<and> k = ckptNRec p) \<and> (\<not> ckptOpen p \<longrightarrow> cf = \<lparr>fbytes = [], fpos = 0\<rparr> \<and> k = 0)"
proof -
  have e: "sqlitepager_opentemp 7 [] = (SQLITE_OK, [])" by simp
  show ?thesis
  proof (cases "ckptOpen p")
    case True
    then show ?thesis
      using assms quiet_calls(4,7) [of p] quiet_calls(4) [of "p\<lparr>aInCkpt := Some (bit_array (dbSize p))\<rparr>"]
      by (intro exI [of _ "cpfd p"] exI [of _ "ckptNRec p"])
         (cases p; simp add: sqlitepager_ckpt_begin_def assertion_def ckpt_opened_def)
  next
    case False
    then show ?thesis
      using assms quiet_calls(4,7) [of p] quiet_calls(4) [of "p\<lparr>aInCkpt := Some (bit_array (dbSize p))\<rparr>"] e
      by (intro exI [of _ "\<lparr>fbytes = [], fpos = 0\<rparr>"] exI [of _ 0])
         (cases p; simp add: sqlitepager_ckpt_begin_def assertion_def ckpt_opened_def Let_def)
  qed
qed

lemma ckpt_opened_lookup [simp]: "pager_lookup (ckpt_opened cf k p) = pager_lookup p"
  by (rule ext) (simp add: pager_lookup_def ckpt_opened_def)

lemma ckpt_opened_fields [simp]:
  "outs (ckpt_opened cf k p) = outs p" "errMask (ckpt_opened cf k p) = errMask p" "useJournal (ckpt_opened cf k p) = useJournal p"
  "tempFile (ckpt_opened cf k p) = tempFile p" "readOnly (ckpt_opened cf k p) = readOnly p" "heap (ckpt_opened cf k p) = heap p" "fd (ckpt_opened cf k p) = fd p"
  "dbSize (ckpt_opened cf k p) = dbSize p" "state (ckpt_opened cf k p) = state p" "flock (ckpt_opened cf k p) = flock p"
  "nRef (ckpt_opened cf k p) = nRef p" "size_of B (ckpt_opened cf k p) = size_of B p" "dirtyFile (ckpt_opened cf k p) = dirtyFile p"
  by (simp_all add: ckpt_opened_def size_of_def)

lemma ckpt_opened_inv:
  assumes i: "inv B rs p" and w: "state p = SQLITE_WRITELOCK" and u: "\<not> ckptInUse p"
  shows "inv B rs (ckpt_opened cf k p)"
proof -
  note c = invD [OF i]
  have wr: "in_write B rs p" "flock p = SQLITE_WRITELOCK" using inv_write [OF i w] by blast+
  have ck: "ckpt_list (ckpt_opened cf k p)"
  proof -
    have o: "pCkpt p = []" "set (pCkpt p) = pgno ` {g \<in> set (pAll p). inCkpt g}" using cache_okD(3) [OF c(3)] u unfolding ckpt_list_def by blast+
    then have "pgno ` {g \<in> set (pAll p). inCkpt g} = {}" by simp
    then show ?thesis using o(1) by (simp add: ckpt_list_def ckpt_opened_def)
  qed
  show ?thesis
  proof (rule inv_writeI)
    show "cache_ok (ckpt_opened cf k p)" using c(3) ck by (simp add: cache_ok_def ckpt_opened_def)
    show "sync_ok (ckpt_opened cf k p)" using c(4) by (simp add: sync_ok_def first_free_def) (simp add: ckpt_opened_def)
    have "ckpt_bits B (ckpt_opened cf k p)"
      using wr(1) bit_array_length [of "dbSize p"] by (auto simp: ckpt_bits_def ckpt_opened_def in_write_def write_flags_def)
    moreover have "write_flags B rs (ckpt_opened cf k p)" "guarded B rs (ckpt_opened cf k p)"
      using wr(1) by (simp_all add: in_write_def write_flags_def guarded_def header_def first_free_def) (simp_all add: ckpt_opened_def)
    ultimately show "in_write B rs (ckpt_opened cf k p)"
      using wr(1) by (simp add: in_write_def) (simp add: journal_ok_def ckpt_opened_def)
  qed (use c w wr in \<open>simp_all add: sess_def\<close>)
qed

section \<open>The start of a transaction\<close>

definition opened :: "nat \<Rightarrow> u32 \<Rightarrow> prng \<Rightarrow> pager \<Rightarrow> pager" where
  "opened N c r p = p\<lparr>state := SQLITE_WRITELOCK, flock := SQLITE_WRITELOCK, dirtyFile := False, dbSize := int N,
     aInJournal := Some (bit_array (int N)), jfd := \<lparr>fbytes = journal_bytes (if noSync p then 0xffffffff else 0) c N [], fpos = JOURNAL_HDR_SZ 3\<rparr>,
     jname := True, journalOpen := True, journalStarted := False, needSync := False, alwaysRollback := False, nRec := 0,
     origDbSize := int N, cksumInit := c, rng := r\<rparr>"

lemma put_end: "i = length b \<Longrightarrow> put_at i d b = b @ d"
  by (simp add: put_at_def)

lemma write_header_quiet:
  assumes "outs p = []" "jfd p = \<lparr>fbytes = [], fpos = 0\<rparr>" "dbSize p = int N"
  shows "\<exists>c r. write_header p = (SQLITE_OK, p\<lparr>jfd := \<lparr>fbytes = journal_bytes (if noSync p then 0xffffffff else 0) c N [], fpos = JOURNAL_HDR_SZ 3\<rparr>,
    cksumInit := c, rng := r\<rparr>)"
proof -
  define h :: u32 where "h = (if noSync p then 0xffffffff else 0)"
  have m: "aJournalMagic3 \<noteq> []" "length aJournalMagic3 = 8" by (simp_all add: aJournalMagic3_def)
  define p1 where "p1 = p\<lparr>jfd := \<lparr>fbytes = aJournalMagic3, fpos = 8\<rparr>\<rparr>"
  have 1: "j_write aJournalMagic3 p = (SQLITE_OK, p1)"
    using j_write_quiet [OF assms(1) m(1)] assms(2) m(2) by (simp add: kwrite_def put_at_def p1_def)
  define p2 where "p2 = p\<lparr>jfd := \<lparr>fbytes = aJournalMagic3 @ be32 h, fpos = 12\<rparr>\<rparr>"
  have 2: "write32bits h p1 = (SQLITE_OK, p2)"
    using write32_quiet [of p1 h] assms(1) m(2) by (simp add: kwrite_def put_end p1_def p2_def)
  obtain r bs where rb: "sqliteRandomness (seed p) 4 (rng p) = (r, bs)" by (cases "sqliteRandomness (seed p) 4 (rng p)")
  define c where "c = native32 bs"
  define p3 where "p3 = p2\<lparr>rng := r, cksumInit := c\<rparr>"
  have 3: "random_cksum p2 = p3" using rb by (simp add: random_cksum_def p2_def p3_def c_def)
  define p4 where "p4 = p3\<lparr>jfd := \<lparr>fbytes = aJournalMagic3 @ be32 h @ be32 c, fpos = 16\<rparr>\<rparr>"
  have 4: "write32bits c p3 = (SQLITE_OK, p4)"
    using write32_quiet [of p3 c] assms(1) m(2) by (simp add: kwrite_def put_end p3_def p2_def p4_def)
  define p5 where "p5 = p4\<lparr>jfd := \<lparr>fbytes = journal_bytes h c N [], fpos = JOURNAL_HDR_SZ 3\<rparr>\<rparr>"
  have 5: "write32bits (word_of_nat N) p4 = (SQLITE_OK, p5)"
    using write32_quiet [of p4 "word_of_nat N"] assms(1) m(2)
    by (simp add: kwrite_def put_end p4_def p3_def p2_def p5_def journal_bytes_def jhdr_def JOURNAL_HDR_SZ_def)
  have n: "noSync p1 = noSync p" "cksumInit p3 = c" "dbSize p4 = int N" using assms(3) by (simp_all add: p1_def p2_def p3_def p4_def)
  have "write_header p = (SQLITE_OK, p5)"
    unfolding write_header_def 1 Let_def prod.case n h_def [symmetric] by (simp add: 2 3 n 4 5)
  moreover have "p5 = p\<lparr>jfd := \<lparr>fbytes = journal_bytes h c N [], fpos = JOURNAL_HDR_SZ 3\<rparr>, cksumInit := c, rng := r\<rparr>"
    by (simp add: p5_def p4_def p3_def p2_def)
  ultimately show ?thesis unfolding h_def by blast
qed

lemma begin_shape:
  assumes s: "outs p = []" "errMask p = 0" "useJournal p" "\<not> tempFile p" "state p = SQLITE_READLOCK" "\<not> journalOpen p" "\<not> jname p" "aInJournal p = None"
    "\<not> ckptInUse p" and sz: "counted B p" "size_of B p = N" and g: "pager_lookup p n = Some g" "0 < pnRef g"
  shows "\<exists>c r q. sqlitepager_begin n p = Some (SQLITE_OK, q) \<and> (q = opened N c r p \<or> (\<exists>cf k. q = ckpt_opened cf k (opened N c r p)))"
proof -
  define p1 where "p1 = p\<lparr>flock := SQLITE_WRITELOCK, state := SQLITE_WRITELOCK, dirtyFile := False\<rparr>"
  define p2 where "p2 = p1\<lparr>dbSize := int N\<rparr>"
  have sn: "snd (sqlitepager_pagecount p1) = p2"
  proof -
    have c1: "counted B p1" "size_of B p1 = N" "outs p1 = []" using sz s by (auto simp: counted_def size_of_def p1_def)
    show ?thesis
    proof (cases "dbSize p1 < 0")
      case True
      then show ?thesis using size_quiet [OF c1(3,1)] c1(2) by (simp add: p2_def)
    next
      case False
      then have "dbSize p1 = int N" using c1(2) by (simp add: size_of_def)
      then show ?thesis by (cases p1) (simp add: sqlitepager_pagecount_def p2_def)
    qed
  qed
  define p3 where "p3 = p2\<lparr>aInJournal := Some (bit_array (int N)), jfd := \<lparr>fbytes = [], fpos = 0\<rparr>, jname := True,
    journalOpen := True, journalStarted := False, needSync := False, alwaysRollback := False, nRec := 0, origDbSize := int N\<rparr>"
  obtain c r where h: "write_header p3 = (SQLITE_OK, p3\<lparr>jfd := \<lparr>fbytes = journal_bytes (if noSync p3 then 0xffffffff else 0) c N [], fpos = JOURNAL_HDR_SZ 3\<rparr>,
    cksumInit := c, rng := r\<rparr>)"
    using write_header_quiet [of p3 N] s by (auto simp: p3_def p2_def p1_def)
  have op: "p3\<lparr>jfd := \<lparr>fbytes = journal_bytes (if noSync p3 then 0xffffffff else 0) c N [], fpos = JOURNAL_HDR_SZ 3\<rparr>, cksumInit := c, rng := r\<rparr>
      = opened N c r p"
    by (simp add: p3_def p2_def p1_def opened_def)
  have ex: "open_exclusive (p2\<lparr>aInJournal := Some (bit_array (int N))\<rparr>) = (SQLITE_OK, p2\<lparr>aInJournal := Some (bit_array (int N)), jfd := \<lparr>fbytes = [], fpos = 0\<rparr>, jname := True\<rparr>)"
    using s by (simp add: open_exclusive_def outcome_def p2_def p1_def)
  have lk: "os_lock SQLITE_WRITELOCK p = (SQLITE_OK, p\<lparr>flock := SQLITE_WRITELOCK\<rparr>)" using quiet_calls(6) [OF s(1)] .
  have ml: "os_malloc p2 = (True, p2)" using s by (intro quiet_calls(7)) (simp add: p2_def p1_def)
  have "sqlitepager_begin n p = pager_open_journal p1"
    using g s lk by (simp add: sqlitepager_begin_def assertion_def p1_def)
  also have "\<dots> = (do {
      (rc, p) \<leftarrow> (if ckptAutoopen (opened N c r p) then sqlitepager_ckpt_begin (opened N c r p) else Some (SQLITE_OK, opened N c r p));
      if rc \<noteq> SQLITE_OK then do {
        (rc, p) \<leftarrow> pager_unwritelock p;
        Some (if rc = SQLITE_OK then SQLITE_FULL else rc, p) }
      else Some (rc, p) })"
    using s ml ex h [unfolded op] unfolding pager_open_journal_def sn by (simp add: assertion_def p1_def p2_def p3_def)
  finally have b: "sqlitepager_begin n p = (do {
      (rc, p) \<leftarrow> (if ckptAutoopen (opened N c r p) then sqlitepager_ckpt_begin (opened N c r p) else Some (SQLITE_OK, opened N c r p));
      if rc \<noteq> SQLITE_OK then do {
        (rc, p) \<leftarrow> pager_unwritelock p;
        Some (if rc = SQLITE_OK then SQLITE_FULL else rc, p) }
      else Some (rc, p) })" .
  show ?thesis
  proof (cases "ckptAutoopen (opened N c r p)")
    case True
    obtain cf k where "sqlitepager_ckpt_begin (opened N c r p) = Some (SQLITE_OK, ckpt_opened cf k (opened N c r p))"
      using ckpt_begin_quiet [of "opened N c r p"] s(1,9) by (auto simp: opened_def journal_bytes_def jhdr_length)
    then show ?thesis using b True by auto
  next
    case False
    then show ?thesis using b by auto
  qed
qed

lemma opened_inv:
  assumes i: "inv B rs p" and r: "state p = SQLITE_READLOCK"
  shows "inv B [] (opened (npages B) c r p)"
proof -
  note c = invD [OF i]
  have rd: "in_read B p" "rs = []" using inv_read [OF i r] by blast+
  let ?p = "opened (npages B) c r p"
  have L: "pager_lookup ?p = pager_lookup p" by (rule ext) (simp add: pager_lookup_def opened_def)
  have N: "npages B \<le> SQLITE_MAX_PAGE" using c(2) by (simp add: file_ok_def)
  have sz: "size_of B p = npages B" using rd by (auto simp: size_of_def in_read_def)
  have cl: "\<And>n. \<not> dirty_at (pager_lookup p) n" "\<And>n. \<not> sync_at (pager_lookup p) n" "fbytes (fd p) = B" "\<not> ckptInUse p" using rd by (simp_all add: in_read_def)
  show ?thesis
  proof (rule inv_writeI)
    show "cache_ok ?p" using c(3) by (simp add: cache_ok_def ckpt_list_def opened_def)
    show "sync_ok ?p" using c(4) cl unfolding sync_ok_def L by (simp add: opened_def first_free_def)
    show "content (npages B) B (fst ` set []) (fbytes (fd ?p)) (size_of B ?p) (pager_lookup ?p)"
      using c(6) rd sz unfolding L by (simp add: opened_def size_of_def)
    have "guarded B [] ?p" using header_journal [of ?p] by (simp add: guarded_def) (simp add: opened_def)
    moreover have "write_flags B [] ?p" unfolding write_flags_def L using cl N by (simp add: opened_def)
    moreover have "journal_ok B [] ?p"
      using bit_array_length [of "int (npages B)"] by (auto simp: journal_ok_def opened_def journal_bytes_def jhdr_length bit_array_def)
    moreover have "ckpt_bits B ?p" using cl(4) by (simp add: ckpt_bits_def opened_def)
    ultimately show "in_write B [] ?p" by (simp add: in_write_def)
    show "inJournal g \<longleftrightarrow> n \<in> fst ` set []" if "pager_lookup ?p n = Some g" for n g
      using that c(7) rd unfolding L by simp
  qed (use c in \<open>simp_all add: opened_def sess_def\<close>)
qed

lemma inv_read_shape:
  assumes "inv B rs p" "state p = SQLITE_READLOCK"
  shows "outs p = []" "errMask p = 0" "useJournal p" "\<not> tempFile p" "\<not> journalOpen p" "\<not> jname p" "aInJournal p = None" "\<not> ckptInUse p"
    "counted B p" "size_of B p = npages B" "rs = []"
  using invD(1) [OF assms(1)] inv_read [OF assms] inv_counted [OF assms(1)] by (auto simp: in_read_def sess_def size_of_def)

lemma opened_same [simp]:
  "pager_lookup (opened N c r p) = pager_lookup p" "fd (opened N c r p) = fd p" "state (opened N c r p) = SQLITE_WRITELOCK"
  "\<not> dirtyFile (opened N c r p)" "ckptInUse (opened N c r p) = ckptInUse p" "dbSize (opened N c r p) = int N" "size_of B (opened N c r p) = N"
  by (auto simp: opened_def pager_lookup_def size_of_def)

lemma begin_quiet:
  assumes i: "inv B rs p" and g: "pager_lookup p n = Some g" "0 < pnRef g"
  shows "\<exists>q. sqlitepager_begin n p = Some (SQLITE_OK, q) \<and> inv B rs q \<and> state q = SQLITE_WRITELOCK \<and>
    pager_lookup q = pager_lookup p \<and> fd q = fd p \<and> size_of B q = size_of B p"
proof (cases "state p = SQLITE_READLOCK")
  case True
  note s = inv_read_shape [OF i True]
  obtain c r q where q: "sqlitepager_begin n p = Some (SQLITE_OK, q)" "q = opened (npages B) c r p \<or> (\<exists>cf k. q = ckpt_opened cf k (opened (npages B) c r p))"
    using begin_shape [OF s(1-4) True s(5-10) g] by blast
  have o: "inv B [] (opened (npages B) c r p)" using opened_inv [OF i True] .
  have "inv B [] (ckpt_opened cf k (opened (npages B) c r p))" for cf k using ckpt_opened_inv [OF o] s(8) by simp
  then show ?thesis using q o s(10,11) by auto
next
  case False
  then have "state p = SQLITE_WRITELOCK" using inv_states [OF i] by blast
  then show ?thesis using i g by (simp add: sqlitepager_begin_def assertion_def)
qed

section \<open>A page goes to the journals\<close>

text \<open>What a write changes: one page, the journals and what the pager knows of them, the size.\<close>

definition touch :: "nat \<Rightarrow> pghdr \<Rightarrow> pager \<Rightarrow> pager \<Rightarrow> bool" where
  "touch n g p p' \<longleftrightarrow> pgno g = n \<and> (\<exists>jf ia nr ns df ds cf ck ac pc. p' = p\<lparr>jfd := jf, aInJournal := ia, nRec := nr, needSync := ns, dirtyFile := df,
     dbSize := ds, cpfd := cf, ckptNRec := ck, aInCkpt := ac, pCkpt := pc, pAll := map (\<lambda>h. if pgno h = n then g else h) (pAll p)\<rparr>)"

lemma touch_fields:
  assumes "touch n g p p'"
  shows "pgno g = n" "outs p' = outs p" "errMask p' = errMask p" "useJournal p' = useJournal p" "tempFile p' = tempFile p" "heap p' = heap p"
    "fd p' = fd p" "jname p' = jname p" "origDbSize p' = origDbSize p" "cksumInit p' = cksumInit p" "journalOpen p' = journalOpen p"
    "ckptInUse p' = ckptInUse p" "ckptSize p' = ckptSize p" "state p' = state p" "flock p' = flock p" "noSync p' = noSync p" "journalStarted p' = journalStarted p"
    "pFree p' = pFree p" "pFirstSynced p' = pFirstSynced p" "nRef p' = nRef p" "nPage p' = nPage p" "nExtra p' = nExtra p"
    "pAll p' = map (\<lambda>h. if pgno h = n then g else h) (pAll p)" "readOnly p' = readOnly p"
  using assms by (auto simp: touch_def)

lemma touch_trans:
  assumes "touch n g p q" "touch n h q r"
  shows "touch n h p r"
proof -
  obtain jf ia nr ns df ds cf ck ac pc where q: "q = p\<lparr>jfd := jf, aInJournal := ia, nRec := nr, needSync := ns, dirtyFile := df,
     dbSize := ds, cpfd := cf, ckptNRec := ck, aInCkpt := ac, pCkpt := pc, pAll := map (\<lambda>h. if pgno h = n then g else h) (pAll p)\<rparr>"
    using assms(1) by (auto simp: touch_def)
  obtain jf' ia' nr' ns' df' ds' cf' ck' ac' pc' where r: "r = q\<lparr>jfd := jf', aInJournal := ia', nRec := nr', needSync := ns', dirtyFile := df',
     dbSize := ds', cpfd := cf', ckptNRec := ck', aInCkpt := ac', pCkpt := pc', pAll := map (\<lambda>k. if pgno k = n then h else k) (pAll q)\<rparr>"
    using assms(2) by (auto simp: touch_def)
  have m: "map (\<lambda>k. if pgno k = n then h else k) (map (\<lambda>h. if pgno h = n then g else h) gs) = map (\<lambda>k. if pgno k = n then h else k) gs" for gs
    using touch_fields(1) [OF assms(1)] by simp
  have "r = p\<lparr>jfd := jf', aInJournal := ia', nRec := nr', needSync := ns', dirtyFile := df', dbSize := ds', cpfd := cf', ckptNRec := ck',
     aInCkpt := ac', pCkpt := pc', pAll := map (\<lambda>k. if pgno k = n then h else k) (map (\<lambda>h. if pgno h = n then g else h) (pAll p))\<rparr>"
    unfolding r q by (cases p) simp
  then show ?thesis using touch_fields(1) [OF assms(2)] unfolding touch_def m by blast
qed

lemma touch_lookup:
  assumes "touch n g p p'" "pager_lookup p n = Some h"
  shows "pager_lookup p' = (pager_lookup p)(n \<mapsto> g)"
proof
  fix m
  have "find (\<lambda>h. pgno h = m) (map (\<lambda>h. if pgno h = n then g else h) gs) =
      (if m = n then map_option (\<lambda>_. g) (find (\<lambda>h. pgno h = m) gs) else find (\<lambda>h. pgno h = m) gs)" for gs
    using touch_fields(1) [OF assms(1)] by (induction gs) auto
  then show "pager_lookup p' m = ((pager_lookup p)(n \<mapsto> g)) m"
    using assms(2) by (simp add: pager_lookup_def touch_fields(23) [OF assms(1)])
qed

text \<open>Changing the page alone, given what it becomes.\<close>

lemma touch_on_page:
  assumes "distinct (map pgno (pAll p))" "pager_lookup p n = Some g" "pgno (f g) = n"
    and "p' = (on_page n f p)\<lparr>jfd := jf, aInJournal := ia, nRec := nr, needSync := ns, dirtyFile := df,
     dbSize := ds, cpfd := cf, ckptNRec := ck, aInCkpt := ac, pCkpt := pc\<rparr>"
  shows "touch n (f g) p p'"
proof -
  have "map (\<lambda>h. if pgno h = n then f h else h) (pAll p) = map (\<lambda>h. if pgno h = n then f g else h) (pAll p)"
    using only_page [OF assms(1)] lookup_Some [OF assms(2)] by (intro map_cong) auto
  then have "p' = p\<lparr>jfd := jf, aInJournal := ia, nRec := nr, needSync := ns, dirtyFile := df,
     dbSize := ds, cpfd := cf, ckptNRec := ck, aInCkpt := ac, pCkpt := pc, pAll := map (\<lambda>h. if pgno h = n then f g else h) (pAll p)\<rparr>"
    unfolding assms(4) on_page_def by (cases p) simp
  then show ?thesis using assms(3) unfolding touch_def by blast
qed

section \<open>The checkpoint\<close>

lemma list_upd_bits: "n < length a \<Longrightarrow> set_bit_at n a = Some (a[n := True])"
  by (simp add: set_bit_at_def)

lemma mark_ckpt_quiet:
  assumes d: "distinct (map pgno (pAll p))" and g: "pager_lookup p n = Some g" and l: "ckpt_list p" and a: "aInCkpt p = Some a" "n < length a"
    and u: "ckptInUse p"
  shows "\<exists>p'. mark_ckpt n p = Some p' \<and> touch n (g\<lparr>inCkpt := True\<rparr>) p p' \<and> ckpt_list p' \<and> jfd p' = jfd p \<and> aInJournal p' = aInJournal p \<and>
    nRec p' = nRec p \<and> needSync p' = needSync p \<and> dirtyFile p' = dirtyFile p \<and> dbSize p' = dbSize p \<and> aInCkpt p' = Some (a[n := True])"
proof -
  define q where "q = p\<lparr>aInCkpt := Some (a[n := True])\<rparr>"
  have gm: "g \<in> set (pAll p)" "pgno g = n" using lookup_Some [OF g] by simp_all
  have lq: "pager_lookup q n = Some g" using g by (simp add: pager_lookup_def q_def)
  have m: "mark_ckpt n p = page_add_to_ckpt_list n q" using a by (simp add: mark_ckpt_def list_upd_bits q_def)
  define pc where "pc = (if inCkpt g then pCkpt p else n # pCkpt p)"
  define p' where "p' = (on_page n (\<lambda>g. g\<lparr>inCkpt := True\<rparr>) q)\<lparr>pCkpt := pc\<rparr>"
  have "page_add_to_ckpt_list n q = Some p'"
  proof (cases "inCkpt g")
    case True
    have "g\<lparr>inCkpt := True\<rparr> = g" using True by (cases g) simp
    then have "map (\<lambda>h. if pgno h = n then h\<lparr>inCkpt := True\<rparr> else h) (pAll p) = pAll p"
      using only_page [OF d gm] by (intro map_idI) auto
    then have "p' = q" using True by (cases q; cases p) (simp add: p'_def on_page_def q_def pc_def)
    then show ?thesis using lq True by (simp add: page_add_to_ckpt_list_def)
  next
    case False
    then show ?thesis using lq by (simp add: page_add_to_ckpt_list_def p'_def pc_def q_def)
  qed
  moreover have t: "touch n (g\<lparr>inCkpt := True\<rparr>) p p'"
    by (rule touch_on_page [OF d g, where f = "\<lambda>g. g\<lparr>inCkpt := True\<rparr>" and jf = "jfd p" and ia = "aInJournal p" and nr = "nRec p" and ns = "needSync p"
         and df = "dirtyFile p" and ds = "dbSize p" and cf = "cpfd p" and ck = "ckptNRec p" and ac = "Some (a[n := True])" and pc = pc])
       (use gm in \<open>simp_all add: p'_def q_def on_page_def\<close>)
  moreover have "ckpt_list p'"
  proof -
    have o: "distinct (pCkpt p)" "set (pCkpt p) = pgno ` {g \<in> set (pAll p). inCkpt g}" using l by (simp_all add: ckpt_list_def)
    have s: "set (pAll p') = insert (g\<lparr>inCkpt := True\<rparr>) (set (pAll p) - {g})"
      using set_upd [OF d gm, of "\<lambda>_. g\<lparr>inCkpt := True\<rparr>"] by (simp add: touch_fields(23) [OF t])
    have nin: "inCkpt g \<longleftrightarrow> n \<in> set (pCkpt p)" using only_page [OF d gm] gm unfolding o(2) by auto
    have "{h \<in> set (pAll p'). inCkpt h} = insert (g\<lparr>inCkpt := True\<rparr>) ({h \<in> set (pAll p). inCkpt h} - {g})"
      unfolding s by auto
    then have "pgno ` {h \<in> set (pAll p'). inCkpt h} = insert n (pgno ` ({h \<in> set (pAll p). inCkpt h} - {g}))"
      using gm by simp
    also have "\<dots> = insert n (set (pCkpt p))" using gm unfolding o(2) by auto
    also have "\<dots> = set pc" using nin by (auto simp: pc_def)
    finally show ?thesis using o(1) nin u by (simp add: ckpt_list_def p'_def pc_def q_def on_page_def)
  qed
  ultimately show ?thesis using m by (intro exI [of _ p']) (simp add: p'_def q_def on_page_def)
qed

lemma ckpt_bits_mark:
  assumes "ckpt_bits B p" "touch n g p p'" "aInCkpt p = Some a" "aInCkpt p' = Some (a[n := True])"
  shows "ckpt_bits B p'"
  using assms(1,3,4) touch_fields [OF assms(2)] by (simp add: ckpt_bits_def)

section \<open>The rollback journal\<close>

text \<open>The records after a page has been put into the journal, if it has to be.\<close>

definition with_record :: "bytes \<Rightarrow> (nat \<times> bytes) list \<Rightarrow> nat \<Rightarrow> (nat \<times> bytes) list" where
  "with_record B rs n = (if n \<in> fst ` set rs \<or> npages B < n then rs else rs @ [(n, page_at B n)])"

lemma journal_append:
  assumes j: "journal_ok B rs p" and n: "0 < n" "n \<le> npages B" "n \<notin> fst ` set rs"
    and p': "journalOpen p'" "jname p'" "origDbSize p' = origDbSize p" "nRec p' = nRec p + 1" "cksumInit p' = cksumInit p"
      "jfd p' = kwrite (jrec 3 (cksumInit p) (n, page_at B n)) (jfd p)" and a: "aInJournal p = Some a" "aInJournal p' = Some (a[n := True])"
  shows "journal_ok B (rs @ [(n, page_at B n)]) p' \<and> header p' = header p"
proof -
  let ?r = "jrec 3 (cksumInit p) (n, page_at B n)"
  obtain h where h: "fbytes (jfd p) = journal_bytes h (cksumInit p) (npages B) rs" "fpos (jfd p) = length (fbytes (jfd p))"
    using j by (auto simp: journal_ok_def)
  have b: "fbytes (jfd p') = journal_bytes h (cksumInit p) (npages B) (rs @ [(n, page_at B n)])" "fpos (jfd p') = length (fbytes (jfd p'))"
    using h p'(6) by (simp_all add: kwrite_def put_end journal_bytes_def)
  have "header p' = header p" using header_journal [OF h(1)] header_journal [OF b(1)] by simp
  moreover have "npages B < length (a[n := True])" "\<forall>m \<le> npages B. a[n := True] ! m \<longleftrightarrow> m \<in> fst ` set (rs @ [(n, page_at B n)])"
  proof -
    have l: "npages B < length a" and b: "m \<le> npages B \<Longrightarrow> a ! m \<longleftrightarrow> m \<in> fst ` set rs" for m using j a(1) by (auto simp: journal_ok_def)
    show "npages B < length (a[n := True])" using l by simp
    show "\<forall>m \<le> npages B. a[n := True] ! m \<longleftrightarrow> m \<in> fst ` set (rs @ [(n, page_at B n)])"
      using l b n(2) by (simp add: nth_list_update)
  qed
  moreover have "recs_ok (int (npages B)) (rs @ [(n, page_at B n)])" using j n by (auto simp: journal_ok_def recs_ok_def)
  ultimately show ?thesis using j b p' a by (auto simp: journal_ok_def)
qed

text \<open>What is known of the pager while a page is written.\<close>

definition writing :: "bytes \<Rightarrow> (nat \<times> bytes) list \<Rightarrow> nat \<Rightarrow> pghdr \<Rightarrow> pager \<Rightarrow> bool" where
  "writing B rs n g p \<longleftrightarrow> outs p = [] \<and> useJournal p \<and> distinct (map pgno (pAll p)) \<and> pager_lookup p n = Some g \<and> 0 < n \<and> n \<le> SQLITE_MAX_PAGE \<and>
     length (pdata g) = SQLITE_PAGE_SIZE \<and> ckpt_list p \<and> ckpt_bits B p \<and> journal_ok B rs p \<and> (inJournal g \<longleftrightarrow> n \<in> fst ` set rs) \<and>
     (n \<notin> fst ` set rs \<longrightarrow> n \<le> npages B \<longrightarrow> pdata g = page_at B n) \<and> (pneedSync g \<longrightarrow> needSync p)"

lemma ckpt_array:
  assumes "ckpt_bits B p" "ckptInUse p" "i32 n \<le> ckptSize p \<or> n \<le> npages B" "n \<le> SQLITE_MAX_PAGE"
  shows "\<exists>a. aInCkpt p = Some a \<and> n < length a"
  using assms i32_page [OF assms(4)] by (auto simp: ckpt_bits_def)

lemma note_sync_quiet:
  assumes "pager_lookup p n = Some g"
  shows "note_sync n p = Some (p\<lparr>needSync := needSync p \<or> pneedSync g\<rparr>)"
  using assms by (cases p) (simp add: note_sync_def)

lemma touch_more:
  assumes "touch n g p q" "r = q\<lparr>needSync := x\<rparr>"
  shows "touch n g p r"
proof -
  obtain jf ia nr ns df ds cf ck ac pc where "q = p\<lparr>jfd := jf, aInJournal := ia, nRec := nr, needSync := ns, dirtyFile := df,
     dbSize := ds, cpfd := cf, ckptNRec := ck, aInCkpt := ac, pCkpt := pc, pAll := map (\<lambda>h. if pgno h = n then g else h) (pAll p)\<rparr>"
    using assms(1) by (auto simp: touch_def)
  then have "r = p\<lparr>jfd := jf, aInJournal := ia, nRec := nr, needSync := x, dirtyFile := df,
     dbSize := ds, cpfd := cf, ckptNRec := ck, aInCkpt := ac, pCkpt := pc, pAll := map (\<lambda>h. if pgno h = n then g else h) (pAll p)\<rparr>"
    unfolding assms(2) by (cases p) simp
  then show ?thesis using touch_fields(1) [OF assms(1)] unfolding touch_def by blast
qed

lemma to_journal_quiet:
  assumes w: "writing B rs n g p"
  shows "\<exists>p' g'. to_journal n p = Some (SQLITE_OK, p') \<and> touch n g' p p' \<and> writing B (with_record B rs n) n g' p' \<and> header p' = header p \<and>
    (needSync p' \<longleftrightarrow> needSync p \<or> pneedSync g') \<and> (n \<in> fst ` set rs \<longrightarrow> pneedSync g' = pneedSync g) \<and>
    (n \<notin> fst ` set rs \<longrightarrow> pneedSync g' = (\<not> noSync p \<and> (n \<le> npages B \<or> \<not> journalStarted p))) \<and>
    pdata g' = pdata g \<and> dirty g' = dirty g \<and> pnRef g' = pnRef g \<and> pextra g' = pextra g \<and> dbSize p' = dbSize p \<and> dirtyFile p' = dirtyFile p"
proof -
  have s: "outs p = []" "useJournal p" "distinct (map pgno (pAll p))" "pager_lookup p n = Some g" "0 < n" "n \<le> SQLITE_MAX_PAGE"
    "length (pdata g) = SQLITE_PAGE_SIZE" "ckpt_list p" "ckpt_bits B p" "journal_ok B rs p" "inJournal g \<longleftrightarrow> n \<in> fst ` set rs"
    "n \<notin> fst ` set rs \<longrightarrow> n \<le> npages B \<longrightarrow> pdata g = page_at B n" "pneedSync g \<longrightarrow> needSync p"
    using w by (simp_all add: writing_def)
  have gm: "pgno g = n" using lookup_Some [OF s(4)] by simp
  have N: "i32 n \<le> origDbSize p \<longleftrightarrow> n \<le> npages B" using s(6,10) i32_page by (simp add: journal_ok_def)
  show ?thesis
  proof (cases "n \<in> fst ` set rs")
    case True
    have "touch n g p p"
      by (rule touch_on_page [OF s(3,4), where f = "\<lambda>g. g" and jf = "jfd p" and ia = "aInJournal p" and nr = "nRec p" and ns = "needSync p"
         and df = "dirtyFile p" and ds = "dbSize p" and cf = "cpfd p" and ck = "ckptNRec p" and ac = "aInCkpt p" and pc = "pCkpt p"])
         (use gm in \<open>cases p; simp_all add: on_page_def\<close>)+
    then show ?thesis
      using True s w by (intro exI [of _ p] exI [of _ g]) (auto simp: to_journal_def with_record_def)
  next
    case nj: False
    show ?thesis
    proof (cases "n \<le> npages B")
      case True
      define g1 where "g1 = g\<lparr>pneedSync := \<not> noSync p, inJournal := True\<rparr>"
      let ?r = "jrec 3 (cksumInit p) (n, page_at B n)"
      have rec: "journal_record p g = ?r" using journal_record_eq [OF s(7), of p] gm s(12) nj True by simp
      have "?r \<noteq> []" by (simp add: jrec_def be32_def)
      then have jw: "j_write (journal_record p g) p = (SQLITE_OK, p\<lparr>jfd := kwrite ?r (jfd p)\<rparr>)" unfolding rec by (rule j_write_quiet [OF s(1)])
      obtain a where a: "aInJournal p = Some a" "npages B < length a" using s(10) by (auto simp: journal_ok_def)
      then have sb: "set_bit_at n a = Some (a[n := True])" using True by (simp add: list_upd_bits)
      define p2 where "p2 = on_page n (\<lambda>g. g\<lparr>pneedSync := \<not> noSync p, inJournal := True\<rparr>) (p\<lparr>jfd := kwrite ?r (jfd p), nRec := Suc (nRec p), aInJournal := Some (a[n := True])\<rparr>)"
      have t2: "touch n g1 p p2" unfolding g1_def
        by (rule touch_on_page [OF s(3,4), where f = "\<lambda>g. g\<lparr>pneedSync := \<not> noSync p, inJournal := True\<rparr>" and jf = "kwrite ?r (jfd p)" and ia = "Some (a[n := True])"
           and nr = "nRec p + 1" and ns = "needSync p" and df = "dirtyFile p" and ds = "dbSize p" and cf = "cpfd p" and ck = "ckptNRec p" and ac = "aInCkpt p" and pc = "pCkpt p"])
           (use gm in \<open>cases p; simp_all add: p2_def on_page_def\<close>)+
      have f2: "jfd p2 = kwrite ?r (jfd p)" "aInJournal p2 = Some (a[n := True])" "nRec p2 = nRec p + 1" "needSync p2 = needSync p" "dirtyFile p2 = dirtyFile p"
        "dbSize p2 = dbSize p" "aInCkpt p2 = aInCkpt p" "pCkpt p2 = pCkpt p" by (simp_all add: p2_def on_page_def)
      have d2: "distinct (map pgno (pAll p2))" using s(3) by (simp add: p2_def pgno_on_page)
      have l2: "pager_lookup p2 n = Some g1" using touch_lookup [OF t2 s(4)] by simp
      have ck2: "ckpt_list p2"
        by (rule ckpt_list_map [OF s(8), where f = "\<lambda>h. if pgno h = n then h\<lparr>pneedSync := \<not> noSync p, inJournal := True\<rparr> else h"])
           (simp_all add: p2_def on_page_def)
      have "\<exists>p3 g3. (if ckptInUse p2 then mark_ckpt n p2 else Some p2) = Some p3 \<and> touch n g3 p p3 \<and> ckpt_list p3 \<and> ckpt_bits B p3 \<and> jfd p3 = jfd p2 \<and>
        aInJournal p3 = aInJournal p2 \<and> nRec p3 = nRec p2 \<and> needSync p3 = needSync p2 \<and> dirtyFile p3 = dirtyFile p2 \<and> dbSize p3 = dbSize p2 \<and>
        inJournal g3 = inJournal g1 \<and> pneedSync g3 = pneedSync g1 \<and> pdata g3 = pdata g \<and> dirty g3 = dirty g \<and> pnRef g3 = pnRef g \<and> pextra g3 = pextra g"
      proof (cases "ckptInUse p2")
        case u: True
        have b2: "ckpt_bits B p2" using s(9) f2 touch_fields [OF t2] by (simp add: ckpt_bits_def)
        obtain c where c: "aInCkpt p2 = Some c" "n < length c" using ckpt_array [OF b2 u _ s(6)] True by auto
        obtain p3 where p3: "mark_ckpt n p2 = Some p3" "touch n (g1\<lparr>inCkpt := True\<rparr>) p2 p3" "ckpt_list p3" "jfd p3 = jfd p2" "aInJournal p3 = aInJournal p2"
          "nRec p3 = nRec p2" "needSync p3 = needSync p2" "dirtyFile p3 = dirtyFile p2" "dbSize p3 = dbSize p2" "aInCkpt p3 = Some (c[n := True])"
          using mark_ckpt_quiet [OF d2 l2 ck2 c u] by blast
        show ?thesis using u p3 touch_trans [OF t2 p3(2)] ckpt_bits_mark [OF b2 p3(2) c(1) p3(10)]
          by (intro exI [of _ p3] exI [of _ "g1\<lparr>inCkpt := True\<rparr>"]) (simp add: g1_def)
      next
        case u: False
        then show ?thesis using t2 ck2 by (intro exI [of _ p2] exI [of _ g1]) (simp add: ckpt_bits_def g1_def)
      qed
      then obtain p3 g3 where p3: "(if ckptInUse p2 then mark_ckpt n p2 else Some p2) = Some p3" "touch n g3 p p3" "ckpt_list p3" "ckpt_bits B p3"
        "jfd p3 = jfd p2" "aInJournal p3 = aInJournal p2" "nRec p3 = nRec p2" "needSync p3 = needSync p2" "dirtyFile p3 = dirtyFile p2" "dbSize p3 = dbSize p2"
        "inJournal g3" "pneedSync g3 = (\<not> noSync p)" "pdata g3 = pdata g" "dirty g3 = dirty g" "pnRef g3 = pnRef g" "pextra g3 = pextra g"
        by (auto simp: g1_def)
      define p4 where "p4 = p3\<lparr>needSync := needSync p3 \<or> pneedSync g3\<rparr>"
      have t4: "touch n g3 p p4" using touch_more [OF p3(2)] by (simp add: p4_def)
      have l3: "pager_lookup p3 n = Some g3" using touch_lookup [OF p3(2) s(4)] by simp
      have L4: "pager_lookup p4 n = Some g3" using touch_lookup [OF t4 s(4)] by simp
      have "journal_page n p = Some (SQLITE_OK, p3)"
        using s(4) jw a(1) sb p3(1) touch_fields(12) [OF t2]
        by (cases "ckptInUse p") (simp_all add: journal_page_def p2_def [symmetric] Let_def)
      then have run: "to_journal n p = Some (SQLITE_OK, p4)"
        using s(2,4,11) nj N True note_sync_quiet [OF l3] by (simp add: to_journal_def p4_def)
      have j4: "journal_ok B (rs @ [(n, page_at B n)]) p4 \<and> header p4 = header p"
        using s(10) p3 f2 touch_fields [OF p3(2)]
        by (intro journal_append [OF s(10,5) True nj, where a = a]) (simp_all add: p4_def a(1) journal_ok_def)
      have wr: "with_record B rs n = rs @ [(n, page_at B n)]" using nj True by (simp add: with_record_def)
      have "writing B (with_record B rs n) n g3 p4"
        unfolding writing_def wr
        using s p3 j4 L4 touch_fields [OF t4] d2 by (simp add: p4_def ckpt_list_def ckpt_bits_def comp_def if_distrib cong: if_cong)
      then show ?thesis using run t4 j4 nj True p3 f2 by (intro exI [of _ p4] exI [of _ g3]) (simp add: p4_def)
    next
      case False
      define g1 where "g1 = g\<lparr>pneedSync := \<not> journalStarted p \<and> \<not> noSync p\<rparr>"
      define p2 where "p2 = on_page n (\<lambda>g. g\<lparr>pneedSync := \<not> journalStarted p \<and> \<not> noSync p\<rparr>) p"
      have t2: "touch n g1 p p2" unfolding g1_def
        by (rule touch_on_page [OF s(3,4), where f = "\<lambda>g. g\<lparr>pneedSync := \<not> journalStarted p \<and> \<not> noSync p\<rparr>" and jf = "jfd p" and ia = "aInJournal p"
           and nr = "nRec p" and ns = "needSync p" and df = "dirtyFile p" and ds = "dbSize p" and cf = "cpfd p" and ck = "ckptNRec p" and ac = "aInCkpt p" and pc = "pCkpt p"])
           (use gm in \<open>cases p; simp_all add: p2_def on_page_def\<close>)+
      have l2: "pager_lookup p2 n = Some g1" using touch_lookup [OF t2 s(4)] by simp
      have ck2: "ckpt_list p2"
        by (rule ckpt_list_map [OF s(8), where f = "\<lambda>h. if pgno h = n then h\<lparr>pneedSync := \<not> journalStarted p \<and> \<not> noSync p\<rparr> else h"])
           (simp_all add: p2_def on_page_def)
      define p4 where "p4 = p2\<lparr>needSync := needSync p2 \<or> pneedSync g1\<rparr>"
      have t4: "touch n g1 p p4" using touch_more [OF t2] by (simp add: p4_def)
      have L4: "pager_lookup p4 n = Some g1" using touch_lookup [OF t4 s(4)] by simp
      have run: "to_journal n p = Some (SQLITE_OK, p4)"
        using s(2,4,11) nj N False note_sync_quiet [OF l2] by (simp add: to_journal_def p4_def p2_def [symmetric])
      have same: "jfd p4 = jfd p" "aInJournal p4 = aInJournal p" "nRec p4 = nRec p" "dbSize p4 = dbSize p" "dirtyFile p4 = dirtyFile p" "aInCkpt p4 = aInCkpt p"
        by (simp_all add: p4_def p2_def on_page_def)
      have j4: "journal_ok B rs p4" "header p4 = header p" using s(10) same touch_fields [OF t4] by (simp_all add: journal_ok_def header_def)
      have c4: "ckpt_list p4" "ckpt_bits B p4" using ck2 s(9) same touch_fields [OF t4] by (simp_all add: p4_def ckpt_list_def ckpt_bits_def)
      have wr: "with_record B rs n = rs" using False by (simp add: with_record_def)
      have "distinct (map pgno (pAll p4))" using s(3) by (simp add: p4_def p2_def pgno_on_page)
      then have "writing B (with_record B rs n) n g1 p4"
        unfolding writing_def wr using s j4 c4 L4 touch_fields [OF t4] nj by (simp add: g1_def p4_def)
      then show ?thesis using run t4 j4 nj False same by (intro exI [of _ p4] exI [of _ g1]) (simp add: p4_def g1_def p2_def conj_commute)
    qed
  qed
qed

lemma to_ckpt_quiet:
  assumes w: "writing B rs n g p" and j: "n \<in> fst ` set rs \<or> npages B < n"
  shows "\<exists>p' g'. to_ckpt_journal n p = Some (SQLITE_OK, p') \<and> touch n g' p p' \<and> writing B rs n g' p' \<and> header p' = header p \<and>
    needSync p' = needSync p \<and> pneedSync g' = pneedSync g \<and> pdata g' = pdata g \<and> dirty g' = dirty g \<and> pnRef g' = pnRef g \<and> pextra g' = pextra g \<and>
    dbSize p' = dbSize p \<and> dirtyFile p' = dirtyFile p"
proof -
  have s: "outs p = []" "distinct (map pgno (pAll p))" "pager_lookup p n = Some g" "n \<le> SQLITE_MAX_PAGE"
    "length (pdata g) = SQLITE_PAGE_SIZE" "ckpt_list p" "ckpt_bits B p" "journal_ok B rs p" "inJournal g \<longleftrightarrow> n \<in> fst ` set rs"
    using w by (simp_all add: writing_def)
  have gm: "pgno g = n" using lookup_Some [OF s(3)] by simp
  show ?thesis
  proof (cases "ckptInUse p \<and> \<not> inCkpt g \<and> i32 n \<le> ckptSize p")
    case True
    have as: "inJournal g \<or> origDbSize p < i32 n" using j s(8,9) i32_page [OF s(4)] by (auto simp: journal_ok_def)
    have ne: "ckpt_record g \<noteq> []" using ckpt_record_eq [OF s(5)] by (simp add: jrec_def be32_def)
    define p1 where "p1 = p\<lparr>cpfd := kwrite (ckpt_record g) (cpfd p), ckptNRec := Suc (ckptNRec p)\<rparr>"
    have t1: "touch n g p p1"
      by (rule touch_on_page [OF s(2,3), where f = "\<lambda>g. g" and jf = "jfd p" and ia = "aInJournal p"
           and nr = "nRec p" and ns = "needSync p" and df = "dirtyFile p" and ds = "dbSize p" and cf = "kwrite (ckpt_record g) (cpfd p)"
           and ck = "Suc (ckptNRec p)" and ac = "aInCkpt p" and pc = "pCkpt p"])
         (use gm in \<open>cases p; simp_all add: p1_def on_page_def\<close>)+
    have f1: "ckpt_list p1" "ckpt_bits B p1" "pager_lookup p1 n = Some g" "distinct (map pgno (pAll p1))" "ckptInUse p1" "aInCkpt p1 = aInCkpt p"
      using s True by (simp_all add: p1_def ckpt_list_def ckpt_bits_def pager_lookup_def)
    obtain a where a: "aInCkpt p1 = Some a" "n < length a" using ckpt_array [OF f1(2,5) _ s(4)] True by (auto simp: p1_def)
    obtain p2 where p2: "mark_ckpt n p1 = Some p2" "touch n (g\<lparr>inCkpt := True\<rparr>) p1 p2" "ckpt_list p2" "jfd p2 = jfd p1" "aInJournal p2 = aInJournal p1"
      "nRec p2 = nRec p1" "needSync p2 = needSync p1" "dirtyFile p2 = dirtyFile p1" "dbSize p2 = dbSize p1" "aInCkpt p2 = Some (a[n := True])"
      using mark_ckpt_quiet [OF f1(4,3,1) a f1(5)] by blast
    have run: "to_ckpt_journal n p = Some (SQLITE_OK, p2)"
      using s(3) True as cp_write_quiet [OF s(1) ne] p2(1) by (simp add: to_ckpt_journal_def assertion_def p1_def)
    have t: "touch n (g\<lparr>inCkpt := True\<rparr>) p p2" using touch_trans [OF t1 p2(2)] .
    have same: "jfd p2 = jfd p" "aInJournal p2 = aInJournal p" "nRec p2 = nRec p" "needSync p2 = needSync p" "dirtyFile p2 = dirtyFile p" "dbSize p2 = dbSize p"
      using p2 by (simp_all add: p1_def)
    have "writing B rs n (g\<lparr>inCkpt := True\<rparr>) p2"
      unfolding writing_def
      using w touch_fields [OF t] touch_lookup [OF t s(3)] p2(3) ckpt_bits_mark [OF f1(2) p2(2) a(1) p2(10)] same
      by (simp add: writing_def journal_ok_def comp_def if_distrib cong: if_cong)
    then show ?thesis using run t same by (intro exI [of _ p2] exI [of _ "g\<lparr>inCkpt := True\<rparr>"]) (simp add: header_def)
  next
    case False
    have "touch n g p p"
      by (rule touch_on_page [OF s(2,3), where f = "\<lambda>g. g" and jf = "jfd p" and ia = "aInJournal p" and nr = "nRec p" and ns = "needSync p"
         and df = "dirtyFile p" and ds = "dbSize p" and cf = "cpfd p" and ck = "ckptNRec p" and ac = "aInCkpt p" and pc = "pCkpt p"])
         (use gm in \<open>cases p; simp_all add: on_page_def\<close>)+
    moreover have "to_ckpt_journal n p = Some (SQLITE_OK, p)" using s(3) False by (auto simp: to_ckpt_journal_def)
    ultimately show ?thesis using w by (intro exI [of _ p] exI [of _ g]) simp
  qed
qed

section \<open>The write\<close>

text \<open>
  The page is dirty and in the journal, if it was in the file when the transaction began. A page behind the
  end must be the next one, so that no hole is left in the file.
\<close>

lemma written_inv:
  assumes i: "inv B rs p" and st: "state p = SQLITE_WRITELOCK" and h: "pager_lookup p n = Some h" "0 < pnRef h" and n: "n \<le> size_of B p + 1"
    and t: "touch n g p p'" and w: "writing B (with_record B rs n) n g p'" and hd: "header p' = header p"
    and g: "pdata g = pdata h" "dirty g" "pnRef g = pnRef h" "pextra g = pextra h"
    and sy: "needSync p' \<longleftrightarrow> needSync p \<or> pneedSync g" "n \<in> fst ` set rs \<Longrightarrow> pneedSync g = pneedSync h"
      "n \<notin> fst ` set rs \<Longrightarrow> pneedSync g = (\<not> noSync p \<and> (n \<le> npages B \<or> \<not> journalStarted p))"
    and df: "dirtyFile p'" and ds: "dbSize p' = (if dbSize p < int n then int n else dbSize p)"
  shows "inv B (with_record B rs n) p'"
proof -
  note c = invD [OF i]
  note f = touch_fields [OF t]
  have wr: "in_write B rs p" "flock p = SQLITE_WRITELOCK" using inv_write [OF i st] by blast+
  have wf: "int (npages B) \<le> dbSize p" "dbSize p \<le> int SQLITE_MAX_PAGE" "\<And>m. dirty_at (pager_lookup p) m \<Longrightarrow> int m \<le> dbSize p"
    "dirtyFile p \<Longrightarrow> \<not> needSync p \<Longrightarrow> pFirstSynced p = first_free p" "\<not> dirtyFile p \<Longrightarrow> rs = [] \<and> \<not> journalStarted p"
    using wr(1) unfolding in_write_def write_flags_def by blast+
  have L: "pager_lookup p' = (pager_lookup p)(n \<mapsto> g)" using touch_lookup [OF t h(1)] .
  have nm: "0 < n" "n \<le> SQLITE_MAX_PAGE" using cache_page [OF c(3) h(1)] by simp_all
  have hm: "h \<in> set (pAll p)" "pgno h = n" using lookup_Some [OF h(1)] by simp_all
  note dis = cache_okD(1) [OF c(3)]
  have sz: "int (size_of B p) = dbSize p" "int (size_of B p') = dbSize p'" "size_of B p' = max (size_of B p) n"
    using wf(1) ds by (auto simp: size_of_def)
  have js: "pneedSync g \<Longrightarrow> \<not> noSync p"
    using sy(2,3) h(1) c(4) by (cases "n \<in> fst ` set rs") (auto simp: sync_ok_def sync_at_def)
  have nf: "n \<notin> set (pFree p)" using cache_free [OF c(3)] h by auto
  have cache: "cache_ok p'"
  proof -
    have pn: "map pgno (pAll p') = map pgno (pAll p)" using f(1) by (simp add: f(23))
    have s: "set (pAll p') = insert g (set (pAll p) - {h})" using set_upd [OF dis hm, of "\<lambda>_. g"] by (simp add: f(23))
    have "\<forall>k \<in> set (pAll p'). page_ok (nExtra p') k" using c(3) hm nm f(1) g w unfolding s by (auto simp: cache_ok_def page_ok_def f(22) writing_def)
    moreover have "pgno ` {k \<in> set (pAll p'). pnRef k = 0} = set (pFree p')"
    proof -
      have "{k \<in> set (pAll p'). pnRef k = 0} = {k \<in> set (pAll p). pnRef k = 0}" using h(2) g(3) hm(1) unfolding s by auto
      then show ?thesis using cache_okD(6) [OF c(3)] by (simp add: f(18))
    qed
    moreover have "length (filter (\<lambda>k. 0 < pnRef k) (pAll p')) = length (filter (\<lambda>k. 0 < pnRef k) (pAll p))"
      using count_upd [OF dis hm, of "\<lambda>k. 0 < pnRef k" "\<lambda>_. g"] h(2) g(3) by (simp add: f(23))
    moreover have "nPage p' = length (pAll p')" using cache_okD(4) [OF c(3)] by (simp add: f(21,23))
    ultimately show ?thesis using dis cache_okD(2,5) [OF c(3)] w unfolding cache_ok_def pn by (simp add: f(18,20) writing_def)
  qed
  have syn: "sync_at (pager_lookup p') m \<longleftrightarrow> (if m = n then pneedSync g else sync_at (pager_lookup p) m)" for m by (simp add: L)
  have fl: "\<not> needSync p' \<Longrightarrow> pFirstSynced p' = first_free p'"
  proof -
    assume ns: "\<not> needSync p'"
    have ff: "first_free p' = first_free p" by (simp add: first_free_def f(18))
    show ?thesis
    proof (cases "dirtyFile p")
      case True
      then show ?thesis using ns sy(1) wf(4) f(19) ff by simp
    next
      case False
      then have "n \<notin> fst ` set rs" "\<not> journalStarted p" using wf(5) by simp_all
      then have "noSync p" using sy(1,3) ns by simp
      then show ?thesis using c(4) f(19) ff by (simp add: sync_ok_def)
    qed
  qed
  have sync: "sync_ok p'"
    unfolding sync_ok_def syn f(16,18,19)
  proof (intro conjI allI impI)
    fix m assume "pFirstSynced p = Some m"
    then have "m \<in> set (pFree p)" "\<not> sync_at (pager_lookup p) m" using c(4) by (simp_all add: sync_ok_def)
    then show "m \<in> set (pFree p)" "\<not> (if m = n then pneedSync g else sync_at (pager_lookup p) m)" using nf by auto
  next
    fix m assume "\<not> needSync p'"
    then show "\<not> (if m = n then pneedSync g else sync_at (pager_lookup p) m)" using sy(1) c(4) by (simp add: sync_ok_def)
  next
    assume "noSync p"
    then show "\<not> needSync p'" using sy(1) js c(4) by (auto simp: sync_ok_def)
    then show "pFirstSynced p = first_free p'" using fl f(19) by simp
  qed
  have ns: "fst ` set (with_record B rs n) = fst ` set rs \<union> (if n \<le> npages B then {n} else {})"
    by (auto simp: with_record_def)
  have cont: "content (npages B) B (fst ` set (with_record B rs n)) (fbytes (fd p')) (size_of B p') (pager_lookup p')"
  proof -
    have e: "extent (npages B) (fbytes (fd p)) (size_of B p) (pager_lookup p)" and k: "kept (npages B) B (fst ` set rs) (fbytes (fd p)) (pager_lookup p)"
      and m: "mirrors (fbytes (fd p)) (size_of B p) (pager_lookup p)" using c(6) by (simp_all add: content_def)
    have "extent (npages B) (fbytes (fd p)) (size_of B p') (pager_lookup p')"
      using e n g(2) unfolding extent_def sz(3) L by (auto simp: le_Suc_eq max_def)
    moreover have "kept (npages B) B (fst ` set (with_record B rs n)) (fbytes (fd p)) (pager_lookup p')"
      using k unfolding kept_def L ns by auto
    moreover have "mirrors (fbytes (fd p)) (size_of B p') (pager_lookup p')"
      using m n g(2) unfolding mirrors_def sz(3) L by (auto simp: le_Suc_eq max_def split: if_splits)
    ultimately show ?thesis by (simp add: content_def f(7))
  qed
  have "guarded B (with_record B rs n) p'"
  proof -
    have gd: "guarded B rs p" using wr(1) by (simp add: in_write_def)
    have old: "sync_at (pager_lookup p') m" if "sync_at (pager_lookup p) m" "m \<in> fst ` set rs" for m
      unfolding syn using that sy(2) h(1) by (cases "m = n") (simp_all add: sync_at_def)
    show ?thesis
    proof (cases "header p = 0xffffffff")
      case True
      then show ?thesis using gd hd by (simp add: guarded_def)
    next
      case False
      then have nns: "\<not> noSync p" using gd by (auto simp: guarded_def)
      show ?thesis
        unfolding guarded_def hd f(7,16)
      proof (intro conjI disjI2 ballI)
        show "unat (header p) \<le> length (with_record B rs n)" using gd False by (auto simp: guarded_def with_record_def)
        fix r assume r: "r \<in> set (drop (unat (header p)) (with_record B rs n))"
        have "page_at (fbytes (fd p)) (fst r) = page_at B (fst r) \<and> sync_at (pager_lookup p') (fst r)"
        proof (cases "r \<in> set (drop (unat (header p)) rs)")
          case True
          then have "page_at (fbytes (fd p)) (fst r) = page_at B (fst r)" "sync_at (pager_lookup p) (fst r)" using gd False by (auto simp: guarded_def)
          then show ?thesis using old True by (auto dest: in_set_dropD)
        next
          case nr: False
          then have q: "n \<notin> fst ` set rs" "n \<le> npages B" "fst r = n"
            using r by (auto simp: with_record_def split: if_splits dest: in_set_dropD)
          then have "page_at (fbytes (fd p)) n = page_at B n" using c(6) nm(1) by (simp add: content_def kept_def)
          then show ?thesis using q sy(3) nns by (simp add: syn)
        qed
        then show "page_at (fbytes (fd p)) (fst r) = page_at B (fst r)" "sync_at (pager_lookup p') (fst r)" by blast+
      qed (use nns in simp)
    qed
  qed
  moreover have "write_flags B (with_record B rs n) p'"
    unfolding write_flags_def using wf(1-3) ds df nm(2) fl by (auto simp: L split: if_splits dest: wf(3))
  moreover have "journal_ok B (with_record B rs n) p'" "ckpt_bits B p'" using w by (simp_all add: writing_def)
  moreover have "inJournal k \<longleftrightarrow> m \<in> fst ` set (with_record B rs n)" if "pager_lookup p' m = Some k" for m k
    using that c(7) [of m k] w ns unfolding L by (auto simp: writing_def split: if_splits)
  moreover have "sess p'" using c(1) f by (simp add: sess_def)
  ultimately show ?thesis using cache sync cont c(2,5) f(14,15,20) st wr(2) by (intro inv_writeI) (simp_all add: in_write_def)
qed

definition dirtied :: "nat \<Rightarrow> pager \<Rightarrow> pager" where
  "dirtied n p = on_page n (\<lambda>g. g\<lparr>dirty := True\<rparr>) p"

definition wrote_page :: "bytes \<Rightarrow> nat \<Rightarrow> pager \<Rightarrow> pager \<Rightarrow> bool" where
  \<comment> \<open>page \<open>n\<close> is dirty; the content of the database is the same, or one page more\<close>
  "wrote_page B n p p' \<longleftrightarrow> state p' = SQLITE_WRITELOCK \<and> size_of B p' = max (size_of B p) n \<and> (\<forall>k > 0. logical p' k = logical p k) \<and>
     (\<forall>k. k \<noteq> n \<longrightarrow> in_use p' k = in_use p k) \<and> (\<exists>g. pager_lookup p n = Some g \<and> in_use p' n = Some (pdata g, True, pnRef g))"

lemma dirtied_touch:
  assumes i: "inv B rs p" and h: "pager_lookup p n = Some h"
  shows "touch n (h\<lparr>dirty := True\<rparr>) p ((dirtied n p)\<lparr>dirtyFile := True\<rparr>)"
  by (rule touch_on_page [OF cache_okD(1) [OF invD(3) [OF i]] h, where f = "\<lambda>g. g\<lparr>dirty := True\<rparr>" and jf = "jfd p" and ia = "aInJournal p" and nr = "nRec p"
       and ns = "needSync p" and df = True and ds = "dbSize p" and cf = "cpfd p" and ck = "ckptNRec p" and ac = "aInCkpt p" and pc = "pCkpt p"])
     (use lookup_Some [OF h] in \<open>cases p; simp_all add: dirtied_def on_page_def\<close>)+

lemma dirtied_writing:
  assumes i: "inv B rs p" and st: "state p = SQLITE_WRITELOCK" and h: "pager_lookup p n = Some h"
  shows "writing B rs n (h\<lparr>dirty := True\<rparr>) ((dirtied n p)\<lparr>dirtyFile := True\<rparr>)"
proof -
  note c = invD [OF i]
  let ?p = "(dirtied n p)\<lparr>dirtyFile := True\<rparr>"
  note t = dirtied_touch [OF i h]
  have wr: "in_write B rs p" using inv_write [OF i st] by blast
  have nm: "0 < n" "n \<le> SQLITE_MAX_PAGE" "length (pdata h) = SQLITE_PAGE_SIZE" using cache_page [OF c(3) h] by simp_all
  have ck: "ckpt_list ?p"
    by (rule ckpt_list_map [OF cache_okD(3) [OF c(3)], where f = "\<lambda>h. if pgno h = n then h\<lparr>dirty := True\<rparr> else h"])
       (simp_all add: dirtied_def on_page_def)
  have same: "jfd ?p = jfd p" "aInJournal ?p = aInJournal p" "nRec ?p = nRec p" "needSync ?p = needSync p" "aInCkpt ?p = aInCkpt p"
    by (simp_all add: dirtied_def on_page_def)
  have d: "pdata h = page_at B n" if "n \<notin> fst ` set rs" "n \<le> npages B"
  proof -
    have k: "page_at (fbytes (fd p)) n = page_at B n" "\<not> dirty h" using c(6) nm(1) that h by (auto simp: content_def kept_def dirty_at_def)
    have "n \<le> size_of B p" using that(2) wr by (auto simp: size_of_def iw_defs)
    then show ?thesis using c(6) k nm(1) h by (simp add: content_def mirrors_def)
  qed
  have ns: "pneedSync h \<longrightarrow> needSync p" using c(4) h by (auto simp: sync_ok_def sync_at_def)
  have "distinct (map pgno (pAll ?p))" using cache_okD(1) [OF c(3)] by (simp add: dirtied_def pgno_on_page)
  then show ?thesis
    unfolding writing_def
    using c(1) touch_fields [OF t] touch_lookup [OF t h] nm ck wr same c(7) [OF h] d ns
    by (simp add: sess_def in_write_def journal_ok_def ckpt_bits_def)
qed

lemma write_journals_quiet:
  assumes i: "inv B rs p" and st: "state p = SQLITE_WRITELOCK" and h: "pager_lookup p n = Some h" "0 < pnRef h" and n: "n \<le> size_of B p + 1"
  shows "\<exists>p'. write_journals n (dirtied n p) = Some (SQLITE_OK, p') \<and> inv B (with_record B rs n) p' \<and> wrote_page B n p p'"
proof -
  note c = invD [OF i]
  let ?h = "h\<lparr>dirty := True\<rparr>"
  let ?p = "(dirtied n p)\<lparr>dirtyFile := True\<rparr>"
  note t0 = dirtied_touch [OF i h(1)]
  note w0 = dirtied_writing [OF i st h(1)]
  have p0: "needSync ?p = needSync p" "noSync ?p = noSync p" "journalStarted ?p = journalStarted p" "header ?p = header p" "dbSize ?p = dbSize p" "dirtyFile ?p"
    by (simp_all add: dirtied_def header_def)
  obtain p1 g1 where p1: "to_journal n ?p = Some (SQLITE_OK, p1)" "touch n g1 ?p p1" "writing B (with_record B rs n) n g1 p1" "header p1 = header ?p"
    "needSync p1 \<longleftrightarrow> needSync ?p \<or> pneedSync g1" "n \<in> fst ` set rs \<longrightarrow> pneedSync g1 = pneedSync ?h"
    "n \<notin> fst ` set rs \<longrightarrow> pneedSync g1 = (\<not> noSync ?p \<and> (n \<le> npages B \<or> \<not> journalStarted ?p))"
    "pdata g1 = pdata ?h" "dirty g1 = dirty ?h" "pnRef g1 = pnRef ?h" "pextra g1 = pextra ?h" "dbSize p1 = dbSize ?p" "dirtyFile p1 = dirtyFile ?p"
    using to_journal_quiet [OF w0] by blast
  have j: "n \<in> fst ` set (with_record B rs n) \<or> npages B < n" by (auto simp: with_record_def image_iff)
  obtain p2 g2 where p2: "to_ckpt_journal n p1 = Some (SQLITE_OK, p2)" "touch n g2 p1 p2" "writing B (with_record B rs n) n g2 p2" "header p2 = header p1"
    "needSync p2 = needSync p1" "pneedSync g2 = pneedSync g1" "pdata g2 = pdata g1" "dirty g2 = dirty g1" "pnRef g2 = pnRef g1" "pextra g2 = pextra g1"
    "dbSize p2 = dbSize p1" "dirtyFile p2 = dirtyFile p1"
    using to_ckpt_quiet [OF p1(3) j] by blast
  have nm: "i32 n = int n" using i32_page cache_page(3) [OF c(3) h(1)] by simp
  define p3 where "p3 = (if dbSize p2 < i32 n then p2\<lparr>dbSize := i32 n\<rparr> else p2)"
  have run: "write_journals n (dirtied n p) = Some (SQLITE_OK, p3)"
    using p1(1) p2(1) by (simp add: write_journals_def p3_def)
  have t2: "touch n g2 p p2" using touch_trans [OF touch_trans [OF t0 p1(2)] p2(2)] .
  have t3: "touch n g2 p p3"
  proof (cases "dbSize p2 < i32 n")
    case True
    obtain jf ia nr ns df ds cf ck ac pc where q: "p2 = p\<lparr>jfd := jf, aInJournal := ia, nRec := nr, needSync := ns, dirtyFile := df,
       dbSize := ds, cpfd := cf, ckptNRec := ck, aInCkpt := ac, pCkpt := pc, pAll := map (\<lambda>h. if pgno h = n then g2 else h) (pAll p)\<rparr>"
      using t2 by (auto simp: touch_def)
    have "p3 = p\<lparr>jfd := jf, aInJournal := ia, nRec := nr, needSync := ns, dirtyFile := df,
       dbSize := i32 n, cpfd := cf, ckptNRec := ck, aInCkpt := ac, pCkpt := pc, pAll := map (\<lambda>h. if pgno h = n then g2 else h) (pAll p)\<rparr>"
      using True unfolding p3_def q by (cases p) simp
    then show ?thesis using touch_fields(1) [OF t2] unfolding touch_def by blast
  next
    case False
    then show ?thesis using t2 by (simp add: p3_def)
  qed
  have w3: "writing B (with_record B rs n) n g2 p3"
    using p2(3) by (simp add: p3_def writing_def ckpt_list_def ckpt_bits_def journal_ok_def pager_lookup_def)
  have f3: "header p3 = header p" "needSync p3 = needSync p2" "dirtyFile p3" "dbSize p3 = (if dbSize p < int n then int n else dbSize p)"
    using p2(4,11,12) p1(4,12,13) p0 nm by (simp_all add: p3_def header_def)
  have iv: "inv B (with_record B rs n) p3"
    by (rule written_inv [OF i st h n t3 w3 f3(1)]) (use p1 p2 p0 f3 in simp_all)
  have L: "pager_lookup p3 = (pager_lookup p)(n \<mapsto> g2)" using touch_lookup [OF t3 h(1)] .
  have wf: "int (npages B) \<le> dbSize p" using inv_write [OF i st] by (simp add: in_write_def write_flags_def)
  have "size_of B p3 = max (size_of B p) n" using f3(4) wf by (auto simp: size_of_def)
  moreover have "logical p3 k = logical p k" for k
    using p1(8) p2(7) h(1) touch_fields(7) [OF t3] by (simp add: logical_def L cong: option.case_cong)
  moreover have "in_use p3 k = in_use p k" if "k \<noteq> n" for k using that by (simp add: in_use_def L)
  moreover have "in_use p3 n = Some (pdata h, True, pnRef h)" using p1(8-10) p2(7-9) h(2) by (simp add: in_use_def L)
  ultimately have "wrote_page B n p p3" using touch_fields(14) [OF t3] st h(1) by (simp add: wrote_page_def)
  then show ?thesis using run iv by blast
qed

lemma dirtied_opened: "opened N c r (dirtied n p) = dirtied n (opened N c r p)"
  by (simp add: opened_def dirtied_def on_page_def)

lemma dirtied_ckpt_opened: "ckpt_opened cf k (dirtied n p) = dirtied n (ckpt_opened cf k p)"
  by (simp add: ckpt_opened_def dirtied_def on_page_def)

lemma dirtied_lookup: "pager_lookup p n = Some h \<Longrightarrow> pager_lookup (dirtied n p) n = Some (h\<lparr>dirty := True\<rparr>)"
  by (simp add: dirtied_def lookup_on_page)

lemma begin_dirtied:
  assumes i: "inv B rs p" and g: "pager_lookup p n = Some g" "0 < pnRef g"
  shows "\<exists>q. sqlitepager_begin n (dirtied n p) = Some (SQLITE_OK, dirtied n q) \<and> inv B rs q \<and> state q = SQLITE_WRITELOCK \<and>
    pager_lookup q = pager_lookup p \<and> fd q = fd p \<and> size_of B q = size_of B p"
proof (cases "state p = SQLITE_READLOCK")
  case True
  note s = inv_read_shape [OF i True]
  have f: "outs (dirtied n p) = outs p" "errMask (dirtied n p) = errMask p" "useJournal (dirtied n p) = useJournal p" "tempFile (dirtied n p) = tempFile p"
    "state (dirtied n p) = state p" "journalOpen (dirtied n p) = journalOpen p" "jname (dirtied n p) = jname p" "aInJournal (dirtied n p) = aInJournal p"
    "ckptInUse (dirtied n p) = ckptInUse p" "counted B (dirtied n p) = counted B p" "size_of B (dirtied n p) = size_of B p"
    by (simp_all add: dirtied_def on_page_def counted_def size_of_def)
  have "\<exists>c r q. sqlitepager_begin n (dirtied n p) = Some (SQLITE_OK, q) \<and>
    (q = opened (npages B) c r (dirtied n p) \<or> (\<exists>cf k. q = ckpt_opened cf k (opened (npages B) c r (dirtied n p))))"
    by (rule begin_shape [where B = B and g = "g\<lparr>dirty := True\<rparr>"]) (use s True dirtied_lookup [OF g(1)] g(2) in \<open>simp_all add: f\<close>)
  then obtain c r q where q: "sqlitepager_begin n (dirtied n p) = Some (SQLITE_OK, q)"
    "q = opened (npages B) c r (dirtied n p) \<or> (\<exists>cf k. q = ckpt_opened cf k (opened (npages B) c r (dirtied n p)))" by blast
  have o: "inv B [] (opened (npages B) c r p)" using opened_inv [OF i True] .
  have o2: "inv B [] (ckpt_opened cf k (opened (npages B) c r p))" for cf k using ckpt_opened_inv [OF o] s(8) by simp
  from q(2) show ?thesis
  proof
    assume "q = opened (npages B) c r (dirtied n p)"
    then show ?thesis using q(1) o s(10,11) by (intro exI [of _ "opened (npages B) c r p"]) (simp add: dirtied_opened)
  next
    assume "\<exists>cf k. q = ckpt_opened cf k (opened (npages B) c r (dirtied n p))"
    then obtain cf k where "q = ckpt_opened cf k (opened (npages B) c r (dirtied n p))" by blast
    then show ?thesis using q(1) o2 [of cf k] s(10,11)
      by (intro exI [of _ "ckpt_opened cf k (opened (npages B) c r p)"]) (simp add: dirtied_opened dirtied_ckpt_opened)
  qed
next
  case False
  then have w: "state p = SQLITE_WRITELOCK" using inv_states [OF i] by blast
  then have "state (dirtied n p) = SQLITE_WRITELOCK" by (simp add: dirtied_def)
  then show ?thesis using i g w dirtied_lookup [OF g(1)] by (intro exI [of _ p]) (simp add: sqlitepager_begin_def assertion_def)
qed

lemma page_write_quiet:
  assumes i: "inv B rs p" and h: "pager_lookup p n = Some h" "0 < pnRef h" and n: "n \<le> size_of B p + 1"
  shows "\<exists>p'. sqlitepager_write n p = Some (SQLITE_OK, p') \<and> inv B (with_record B rs n) p' \<and> wrote_page B n p p'"
proof -
  note c = invD [OF i]
  have e: "errMask p = 0" and ro: "\<not> readOnly p" using c(1) by (simp_all add: sess_def)
  have cu: "ckptInUse (dirtied n p) = ckptInUse p" by (simp add: dirtied_def)
  have start: "sqlitepager_write n p = (if inJournal h \<and> (inCkpt h \<or> \<not> ckptInUse p) then Some (SQLITE_OK, (dirtied n p)\<lparr>dirtyFile := True\<rparr>)
        else do {
          assertion (state (dirtied n p) \<noteq> SQLITE_UNLOCK);
          (rc, p) \<leftarrow> sqlitepager_begin n (dirtied n p);
          if rc \<noteq> SQLITE_OK then Some (rc, p)
          else do {
            assertion (state p = SQLITE_WRITELOCK);
            (rc, p) \<leftarrow> (if \<not> journalOpen p \<and> useJournal p then pager_open_journal p else Some (SQLITE_OK, p));
            if rc \<noteq> SQLITE_OK then Some (rc, p)
            else do {
              assertion (journalOpen p \<or> \<not> useJournal p);
              write_journals n p } } })"
    using e ro h(1) cu unfolding sqlitepager_write_def dirtied_def [symmetric] by (simp add: Let_def)
  show ?thesis
  proof (cases "inJournal h \<and> (inCkpt h \<or> \<not> ckptInUse p)")
    case True
    have nr: "n \<in> fst ` set rs" using True c(7) [OF h(1)] by simp
    then have "rs \<noteq> []" by auto
    then have st: "state p = SQLITE_WRITELOCK" using inv_states [OF i] inv_read [OF i] by blast
    have wrec: "with_record B rs n = rs" using nr by (simp add: with_record_def)
    let ?p = "(dirtied n p)\<lparr>dirtyFile := True\<rparr>"
    have "recs_ok (int (npages B)) rs" "int (npages B) \<le> dbSize p" using inv_write [OF i st] by (simp_all add: in_write_def journal_ok_def write_flags_def)
    then have nb: "\<not> dbSize p < int n" "n \<le> size_of B p" using nr by (auto simp: recs_ok_def size_of_def)
    have f: "dbSize ?p = dbSize p" "needSync ?p = needSync p" "header ?p = header p" "state ?p = state p" "fd ?p = fd p" by (simp_all add: dirtied_def header_def)
    have "inv B (with_record B rs n) ?p"
      by (rule written_inv [OF i st h n dirtied_touch [OF i h(1)]])
         (use dirtied_writing [OF i st h(1)] wrec nb f nr c(4) h(1) in \<open>auto simp: sync_ok_def sync_at_def dirtied_def\<close>)
    moreover have L: "pager_lookup ?p = (pager_lookup p)(n \<mapsto> h\<lparr>dirty := True\<rparr>)" using touch_lookup [OF dirtied_touch [OF i h(1)] h(1)] .
    moreover have "size_of B ?p = max (size_of B p) n" using nb(2) size_of_cong [OF f(1), of B] by simp
    moreover have "logical ?p k = logical p k" for k using h(1) f(5) by (simp add: logical_def L cong: option.case_cong)
    ultimately show ?thesis
      using start True st h f(4) by (intro exI [of _ ?p]) (simp add: wrote_page_def in_use_def)
  next
    case False
    obtain q where q: "sqlitepager_begin n (dirtied n p) = Some (SQLITE_OK, dirtied n q)" "inv B rs q" "state q = SQLITE_WRITELOCK"
      "pager_lookup q = pager_lookup p" "fd q = fd p" "size_of B q = size_of B p" using begin_dirtied [OF i h] by blast
    have j: "journalOpen q" using inv_write [OF q(2,3)] by (simp add: in_write_def journal_ok_def)
    have nu: "state (dirtied n p) \<noteq> SQLITE_UNLOCK" using inv_states [OF i] by (auto simp: dirtied_def)
    have f: "state (dirtied n q) = SQLITE_WRITELOCK" "journalOpen (dirtied n q)" using q(3) j by (simp_all add: dirtied_def)
    have run: "sqlitepager_write n p = write_journals n (dirtied n q)"
      using start False q(1) f nu by (simp add: assertion_def)
    obtain p' where p': "write_journals n (dirtied n q) = Some (SQLITE_OK, p')" "inv B (with_record B rs n) p'" "wrote_page B n q p'"
      using write_journals_quiet [OF q(2,3), of n h] h n q(4,6) by auto
    have "logical q k = logical p k" "in_use q k = in_use p k" for k using q(4,5) by (simp_all add: logical_def in_use_def cong: option.case_cong)
    then have "wrote_page B n p p'" using p'(3) q(4,6) unfolding wrote_page_def by simp
    then show ?thesis using run p' by auto
  qed
qed

section \<open>The client changes the page\<close>

lemma put_quiet:
  assumes i: "inv B rs p" and g: "pager_lookup p n = Some g" "dirty g" and d: "length d = SQLITE_PAGE_SIZE"
  shows "inv B rs (put_data n d p)" and "pager_lookup (put_data n d p) = (pager_lookup p)(n \<mapsto> g\<lparr>pdata := d\<rparr>)"
    and "size_of B (put_data n d p) = size_of B p" and "state (put_data n d p) = state p" and "fd (put_data n d p) = fd p"
proof -
  note c = invD [OF i]
  let ?p = "put_data n d p"
  let ?f = "\<lambda>g. if pgno g = n then g\<lparr>pdata := d\<rparr> else g"
  have all: "pAll ?p = map ?f (pAll p)" by (simp add: put_data_def on_page_def)
  have r: "same_rest p ?p" by (simp add: same_rest_def put_data_def on_page_def)
  show L: "pager_lookup ?p = (pager_lookup p)(n \<mapsto> g\<lparr>pdata := d\<rparr>)"
    unfolding put_data_def by (rule on_page_one [OF cache_okD(1) [OF c(3)] g(1)]) simp
  show fs: "size_of B ?p = size_of B p" "state ?p = state p" "fd ?p = fd p" by (simp_all add: put_data_def size_of_def)
  have "tame ?f" using d by (simp add: tame_def)
  moreover have "ckpt_list ?p" by (rule ckpt_list_map [OF cache_okD(3) [OF c(3)] _ all]) (simp_all add: put_data_def)
  ultimately have cache: "cache_ok ?p" by (intro cache_ok_map [OF c(3) _ all]) (simp_all add: put_data_def)
  have sy: "sync_at (pager_lookup ?p) m \<longleftrightarrow> sync_at (pager_lookup p) m" for m using g by (simp add: L sync_at_def)
  have dy: "dirty_at (pager_lookup ?p) m \<longleftrightarrow> dirty_at (pager_lookup p) m" for m using g by (simp add: L dirty_at_def)
  have fl: "pFree ?p = pFree p" "pFirstSynced ?p = pFirstSynced p" "needSync ?p = needSync p" "noSync ?p = noSync p" "nRef ?p = nRef p"
    "first_free ?p = first_free p" "dbSize ?p = dbSize p" by (simp_all add: put_data_def first_free_def)
  have sync: "sync_ok ?p" using c(4) unfolding sync_ok_def sy fl by simp
  show "inv B rs ?p"
  proof (rule inv_carry [OF i r _ cache sync])
    have "dirty_at (pager_lookup p) n" using g by (simp add: dirty_at_def)
    then show "content (npages B) B (fst ` set rs) (fbytes (fd p)) (size_of B p) (pager_lookup ?p)"
      using c(6) g(2) unfolding content_def extent_def kept_def mirrors_def dy by (simp add: L)
    show "inJournal h \<longleftrightarrow> m \<in> fst ` set rs" if "pager_lookup ?p m = Some h" for m h
      by (rule inJournal_upd [where L = "pager_lookup p" and n = n and g = g and g' = "g\<lparr>pdata := d\<rparr>"])
         (use c(7) g that in \<open>simp_all add: L\<close>)
  qed (use sy dy fl c(5) in auto)
qed

end
