(* ===== verification/PgCrash.thy ===== *)
theory PgCrash
  imports PgWrite
begin

text \<open>
  A process that dies leaves its files: the database and, in a transaction, the journal. The next one that
  opens the database plays the journal back before it gets its first page, and finds what the database
  held before the transaction.
\<close>

section \<open>What is found\<close>

definition left_behind :: "pager \<Rightarrow> disk" where
  "left_behind p = \<lparr>dbContent = fbytes (fd p), dbReadOnly = False, hotJournal = (if jname p then Some (fbytes (jfd p)) else None)\<rparr>"

text \<open>
  Whatever the memory, the settings and the page asked for, a process that opens the database reads \<open>B\<close>.
\<close>

definition recovers :: "bytes \<Rightarrow> disk \<Rightarrow> bool" where
  "recovers B d \<longleftrightarrow> (\<forall>full nm temp mx extra junk r sd n. nm \<noteq> [] \<longrightarrow> length junk = SQLITE_PAGE_SIZE \<longrightarrow> 0 < n \<longrightarrow> n \<le> SQLITE_MAX_PAGE \<longrightarrow>
     (\<exists>q q'. sqlitepager_open full False nm temp d mx extra True [] junk r sd = (SQLITE_OK, Some q) \<and>
        sqlitepager_get n q = Some (SQLITE_OK, q') \<and> starts B n q' \<and> left_behind q' = \<lparr>dbContent = B, dbReadOnly = False, hotJournal = None\<rparr>))"

lemma open_quiet:
  assumes "nm \<noteq> []"
  shows "sqlitepager_open full False nm temp d mx extra True [] junk r sd =
    (SQLITE_OK, Some (new_pager (full nm) temp d False mx extra True [] junk r sd))"
  using assms by (simp add: sqlitepager_open_def)

lemma starts_left: "starts B n p \<Longrightarrow> left_behind p = \<lparr>dbContent = B, dbReadOnly = False, hotJournal = None\<rparr>"
  using inv_read [of B "[]" p] by (simp add: starts_def left_behind_def in_read_def)

lemma new_idle:
  assumes "file_ok B" "length junk = SQLITE_PAGE_SIZE"
  shows "idle B (new_pager full temp \<lparr>dbContent = B, dbReadOnly = False, hotJournal = None\<rparr> False mx extra True [] junk r sd)"
  using assms by (simp add: idle_def sess_def new_pager_def)

lemma recovers_clean:
  assumes "file_ok B"
  shows "recovers B \<lparr>dbContent = B, dbReadOnly = False, hotJournal = None\<rparr>"
  unfolding recovers_def
proof (intro allI impI)
  fix full nm temp mx extra junk r sd n
  assume a: "(nm :: string) \<noteq> []" "length (junk :: bytes) = SQLITE_PAGE_SIZE" "0 < n" "n \<le> SQLITE_MAX_PAGE"
  let ?d = "\<lparr>dbContent = B, dbReadOnly = False, hotJournal = None\<rparr>"
  obtain q' where "sqlitepager_get n (new_pager (full nm) temp ?d False mx extra True [] junk r sd) = Some (SQLITE_OK, q')" "starts B n q'"
    using get_first [OF new_idle [OF assms a(2)] a(3,4)] by blast
  then show "\<exists>q q'. sqlitepager_open full False nm temp ?d mx extra True [] junk r sd = (SQLITE_OK, Some q) \<and>
        sqlitepager_get n q = Some (SQLITE_OK, q') \<and> starts B n q' \<and> left_behind q' = ?d"
    using open_quiet [OF a(1)] starts_left by blast
qed

section \<open>A hot journal\<close>

definition announced_recs :: "u32 \<Rightarrow> (nat \<times> bytes) list \<Rightarrow> (nat \<times> bytes) list" where
  "announced_recs h rs = (if h = 0xffffffff then rs else take (unat h) rs)"

lemma announced_split:
  assumes r: "recs_ok (int N) rs" "N \<le> SQLITE_MAX_PAGE" and h: "h = 0xffffffff \<or> unat h \<le> length rs" and y: "length y < JOURNAL_PG_SZ 3"
  shows "\<exists>z. journal_bytes h c N rs @ y = journal_bytes h c N (announced_recs h rs) @ z \<and>
    announced False h (length (journal_bytes h c N rs @ y)) = int (length (announced_recs h rs))"
proof (cases "h = 0xffffffff")
  case True
  have "(length (journal_bytes h c N rs @ y) - JOURNAL_HDR_SZ 3) div JOURNAL_PG_SZ 3 = length rs"
    using journal_length [OF r(1)] y by (simp add: div_nat_eqI)
  moreover have "length rs \<le> SQLITE_MAX_PAGE" using recs_length [OF r(1)] r(2) by simp
  ultimately have "announced False h (length (journal_bytes h c N rs @ y)) = int (length rs)"
    using True i32_page by (simp only: announced_def simp_thms if_True)
  then show ?thesis using True by (simp add: announced_recs_def)
next
  case False
  then have l: "unat h \<le> length rs" using h by simp
  then have "unat h \<le> SQLITE_MAX_PAGE" using recs_length [OF r(1)] r(2) by simp
  then have "sint h = int (unat h)" using i32_page [of "unat h"] by (simp add: i32_def)
  moreover have "jrecs 3 c rs = jrecs 3 c (take (unat h) rs) @ jrecs 3 c (drop (unat h) rs)"
    by (metis append_take_drop_id jrecs_simps(3))
  ultimately show ?thesis using False l by (simp add: announced_recs_def announced_def journal_bytes_def)
qed

lemma recs_ok_take: "recs_ok N rs \<Longrightarrow> recs_ok N (take k rs)"
  by (auto simp: recs_ok_def distinct_take simp flip: take_map dest: in_set_takeD)

lemma hot_quiet:
  assumes B: "file_ok B" and r: "recs_ok (int (npages B)) rs" "\<forall>r \<in> set rs. snd r = page_at B (fst r)"
    and j: "fbytes (jfd p) = journal_bytes h c (npages B) rs @ z" and an: "announced False h (length (fbytes (jfd p))) = int (length rs)"
    and k: "kept (npages B) B (fst ` set rs) (fbytes (fd p)) Map.empty"
    and p: "sess p" "pAll p = []" "pFree p = []" "pCkpt p = []" "pFirstSynced p = None" "nPage p = 0" "nRef p = 0" "\<not> ckptInUse p" "aInCkpt p = None"
      "noSync p \<longrightarrow> \<not> needSync p" "jname p" "origDbSize p = 0"
  shows "\<exists>p'. first_lock p = Some (SQLITE_OK, p') \<and> empty_read B p'"
proof -
  have q: "outs p = []" using p(1) by (simp add: sess_def)
  define q where "q = p\<lparr>flock := SQLITE_WRITELOCK, state := SQLITE_WRITELOCK, jfd := (jfd p)\<lparr>fpos := 0\<rparr>, journalOpen := True, journalStarted := False\<rparr>"
  have e: "p\<lparr>flock := SQLITE_WRITELOCK, state := SQLITE_WRITELOCK, jfd := (jfd p)\<lparr>fpos := 0\<rparr>, journalOpen := True, journalStarted := False\<rparr> = q"
    by (simp add: q_def)
  have N: "npages B \<le> SQLITE_MAX_PAGE" using B by (simp add: file_ok_def)
  have start: "first_lock p = pager_playback False q"
    using p q quiet_calls(6) [OF q] quiet_calls(6) [of "p\<lparr>flock := SQLITE_READLOCK, state := SQLITE_READLOCK\<rparr>"]
    by (simp add: first_lock_def hot_journal_def open_readonly_def outcome_def sess_def q_def)
  have "\<exists>f k cf cn. pager_playback False q = Some (SQLITE_OK, unlocked cf cn (set_jpos JFD k (q\<lparr>cksumInit := c, dbSize := int (npages B), fd := f,
      pAll := played_pages (fbytes f) (origDbSize q) rs (pAll q)\<rparr>)))
    \<and> plays rs (resize (SQLITE_PAGE_SIZE * npages B) (fbytes (fd q))) (fbytes f)"
    by (rule playback_quiet [where h = h and z = z])
       (use p q r j an max_page [OF N] in \<open>simp_all add: q_def usable_def ckpt_list_def\<close>)
  then obtain f k cf cn where f: "pager_playback False q = Some (SQLITE_OK, unlocked cf cn (set_jpos JFD k (q\<lparr>cksumInit := c, dbSize := int (npages B), fd := f,
      pAll := played_pages (fbytes f) (origDbSize q) rs (pAll q)\<rparr>)))"
    "plays rs (resize (SQLITE_PAGE_SIZE * npages B) (fbytes (fd p))) (fbytes f)" by (auto simp: q_def)
  have "fbytes f = B" using restored_file [OF B r k f(2)] .
  then have "empty_read B (unlocked cf cn (set_jpos JFD k (q\<lparr>cksumInit := c, dbSize := int (npages B), fd := f,
      pAll := played_pages (fbytes f) (origDbSize q) rs (pAll q)\<rparr>)))"
    using p B by (simp add: empty_read_def unlocked_def q_def played_pages_def sess_def)
  then show ?thesis using start f(1) by simp
qed

section \<open>A crash\<close>

text \<open>
  A process may die while it writes: the last record of the journal may be incomplete, and a page that the
  pager may write to the file, since its record has been synced, may hold anything. So may what
  lies behind the original end of the file.
\<close>

definition exposed :: "pager \<Rightarrow> nat \<Rightarrow> bool" where
  "exposed p n \<longleftrightarrow> (\<exists>a. aInJournal p = Some a \<and> a ! n) \<and> \<not> sync_at (pager_lookup p) n"

definition crash_disk :: "pager \<Rightarrow> disk \<Rightarrow> bool" where
  "crash_disk p d \<longleftrightarrow> \<not> dbReadOnly d \<and>
     (if jname p then (\<exists>y. hotJournal d = Some (fbytes (jfd p) @ y) \<and> length y < JOURNAL_PG_SZ 3) \<and>
        (\<forall>n. 0 < n \<longrightarrow> int n \<le> origDbSize p \<longrightarrow> \<not> exposed p n \<longrightarrow> page_at (dbContent d) n = page_at (fbytes (fd p)) n)
      else hotJournal d = None \<and> dbContent d = fbytes (fd p))"

lemma left_behind_crash: "crash_disk p (left_behind p)"
  by (simp add: crash_disk_def left_behind_def JOURNAL_PG_SZ_def)

lemma guarded_kept:
  assumes k: "kept N B (fst ` set rs) db L"
    and g: "h = 0xffffffff \<or> (\<forall>r \<in> set (drop (unat h) rs). page_at db (fst r) = page_at B (fst r) \<and> sync_at L (fst r))"
    and b: "\<And>n. 0 < n \<Longrightarrow> n \<le> N \<Longrightarrow> n \<notin> fst ` set rs \<or> sync_at L n \<Longrightarrow> page_at b n = page_at db n"
  shows "kept N B (fst ` set (announced_recs h rs)) b Map.empty"
  unfolding kept_def
proof (intro allI impI conjI)
  fix n assume n: "0 < n" "n \<le> N" "n \<notin> fst ` set (announced_recs h rs)"
  show "page_at b n = page_at B n"
  proof (cases "n \<in> fst ` set rs")
    case True
    then obtain r where r: "r \<in> set rs" "fst r = n" by auto
    have h: "h \<noteq> 0xffffffff" using n(3) True by (auto simp: announced_recs_def)
    then have "r \<notin> set (take (unat h) rs)" using n(3) r(2) by (auto simp: announced_recs_def)
    then have "r \<in> set (drop (unat h) rs)" using r(1) by (metis Un_iff append_take_drop_id set_append)
    then show ?thesis using g h r(2) b [OF n(1,2)] by auto
  next
    case False
    then show ?thesis using k n b [OF n(1,2)] by (simp add: kept_def)
  qed
qed (simp add: dirty_at_def)

lemma crash_recovers:
  assumes i: "inv B rs p" and d: "crash_disk p d"
  shows "recovers B d"
proof (cases "state p = SQLITE_READLOCK")
  case True
  then have "d = \<lparr>dbContent = B, dbReadOnly = False, hotJournal = None\<rparr>"
    using inv_read [OF i] d by (cases d) (simp add: crash_disk_def in_read_def)
  then show ?thesis using recovers_clean [OF invD(2) [OF i]] by simp
next
  case False
  then have wr: "in_write B rs p" using inv_states [OF i] inv_write [OF i] by blast
  obtain h where j: "fbytes (jfd p) = journal_bytes h (cksumInit p) (npages B) rs" "jname p" "origDbSize p = int (npages B)"
    using wr by (auto simp: in_write_def journal_ok_def)
  obtain y where y: "hotJournal d = Some (fbytes (jfd p) @ y)" "length y < JOURNAL_PG_SZ 3" "\<not> dbReadOnly d"
    and b: "\<And>n. 0 < n \<Longrightarrow> n \<le> npages B \<Longrightarrow> \<not> exposed p n \<Longrightarrow> page_at (dbContent d) n = page_at (fbytes (fd p)) n"
    using d j(2,3) by (auto simp: crash_disk_def)
  have r: "recs_ok (int (npages B)) rs" "\<forall>r \<in> set rs. snd r = page_at B (fst r)" using wr by (simp_all add: in_write_def journal_ok_def)
  have ex: "\<not> exposed p n" if "n \<le> npages B" "n \<notin> fst ` set rs \<or> sync_at (pager_lookup p) n" for n
    using wr that by (auto simp: exposed_def in_write_def journal_ok_def)
  have gd: "h = 0xffffffff \<or> unat h \<le> length rs \<and> (\<forall>r \<in> set (drop (unat h) rs). page_at (fbytes (fd p)) (fst r) = page_at B (fst r) \<and> sync_at (pager_lookup p) (fst r))"
    using wr header_journal [OF j(1)] by (auto simp: in_write_def guarded_def)
  have N: "npages B \<le> SQLITE_MAX_PAGE" using invD(2) [OF i] by (simp add: file_ok_def)
  let ?rs = "announced_recs h rs"
  have r': "recs_ok (int (npages B)) ?rs" "\<forall>r \<in> set ?rs. snd r = page_at B (fst r)"
    using r recs_ok_take [OF r(1)] by (auto simp: announced_recs_def dest: in_set_takeD)
  have k: "kept (npages B) B (fst ` set ?rs) (dbContent d) Map.empty"
  proof (rule guarded_kept [where h = h])
    show "kept (npages B) B (fst ` set rs) (fbytes (fd p)) (pager_lookup p)" using invD(6) [OF i] by (simp add: content_def)
  qed (use gd b ex in auto)
  obtain z where z: "fbytes (jfd p) @ y = journal_bytes h (cksumInit p) (npages B) ?rs @ z" "announced False h (length (fbytes (jfd p) @ y)) = int (length ?rs)"
    using announced_split [OF r(1) N _ y(2), of h "cksumInit p"] gd unfolding j(1) by blast
  show ?thesis
    unfolding recovers_def
  proof (intro allI impI)
    fix full nm temp mx extra junk r sd n
    assume a: "(nm :: string) \<noteq> []" "length (junk :: bytes) = SQLITE_PAGE_SIZE" "0 < n" "n \<le> SQLITE_MAX_PAGE"
    define q where "q = new_pager (full nm) temp d False mx extra True [] junk r sd"
    have "\<exists>q1. first_lock q = Some (SQLITE_OK, q1) \<and> empty_read B q1"
      by (rule hot_quiet [OF invD(2) [OF i] r', where h = h and c = "cksumInit p" and z = z])
         (use z k a y in \<open>simp_all add: q_def new_pager_def sess_def\<close>)
    then obtain q1 where q1: "first_lock q = Some (SQLITE_OK, q1)" "empty_read B q1" by blast
    obtain q' where q': "get_miss n q1 = Some (SQLITE_OK, q')" "starts B n q'" using get_empty [OF q1(2) a(3,4)] by blast
    have "sqlitepager_get n q = Some (SQLITE_OK, q')"
      using q1(1) q'(1) a(3) by (simp add: sqlitepager_get_def assertion_def) (simp add: q_def new_pager_def)
    then show "\<exists>q q'. sqlitepager_open full False nm temp d mx extra True [] junk r sd = (SQLITE_OK, Some q) \<and>
        sqlitepager_get n q = Some (SQLITE_OK, q') \<and> starts B n q' \<and> left_behind q' = \<lparr>dbContent = B, dbReadOnly = False, hotJournal = None\<rparr>"
      using open_quiet [OF a(1)] q'(2) starts_left unfolding q_def by blast
  qed
qed

section \<open>A crash in a commit\<close>

lemma get_all_dirty:
  assumes "inv B rs p"
  shows "distinct (pager_get_all_dirty_pages p)" "n \<in> set (pager_get_all_dirty_pages p) \<longleftrightarrow> dirty_at (pager_lookup p) n"
  using cache_okD(1) [OF invD(3) [OF assms]] lookup_iff [OF cache_okD(1) [OF invD(3) [OF assms]], of n]
  by (auto simp: pager_get_all_dirty_pages_def distinct_map_filter dirty_at_def)

lemma write_some_inv:
  assumes i: "inv B rs p" and w: "state p = SQLITE_WRITELOCK" "dirtyFile p" and s: "\<not> needSync p"
    and ns: "distinct ns" "\<And>n. n \<in> set ns \<Longrightarrow> dirty_at (pager_lookup p) n"
  shows "\<exists>p'. pager_write_pagelist ns p = Some (SQLITE_OK, p') \<and> inv B rs p'"
proof -
  note c = invD [OF i]
  have wf: "write_flags B rs p" using inv_write [OF i w(1)] by (simp add: in_write_def)
  have "0 < n \<and> n \<le> size_of B p \<and> (\<exists>g. pager_lookup p n = Some g \<and> dirty g \<and> length (pdata g) = SQLITE_PAGE_SIZE)" if n: "n \<in> set ns" for n
  proof -
    obtain g where g: "pager_lookup p n = Some g" "dirty g" using ns(2) [OF n] by (auto simp: dirty_at_def)
    have "int n \<le> dbSize p" using wf ns(2) [OF n] by (simp add: write_flags_def)
    then show ?thesis using g cache_page [OF c(3) g(1)] by (auto simp: size_of_def)
  qed
  then obtain f where f: "pager_write_pagelist ns p = Some (SQLITE_OK, wrote (set ns) f p)"
    "content (npages B) B (fst ` set rs) (fbytes f) (size_of B p) (pager_lookup (wrote (set ns) f p))"
    "\<forall>m > 0. m \<notin> set ns \<longrightarrow> page_at (fbytes f) m = page_at (fbytes (fd p)) m"
    using write_pagelist_quiet [OF _ cache_okD(1) [OF c(3)] ns(1) _ c(6)] c(1) by (auto simp: sess_def)
  have "\<not> sync_at (pager_lookup p) m" for m using c(4) s by (simp add: sync_ok_def)
  then have "inv B rs (wrote (set ns) f p)" using f(3) by (intro wrote_inv [OF i w f(2)]) auto
  then show ?thesis using f(1) by blast
qed

end
