(* ===== verification/PgRun.thy ===== *)
theory PgRun
  imports PgCrash "HOL-Library.Multiset"
begin

text \<open>
  The pager as its client sees it: a store of pages with transactions. Every call of the interface is a
  step of the store, and a sequence of calls runs without an error.
\<close>

section \<open>The store\<close>

text \<open>
  What is durable, what the transaction has made of it, whether there is one, and the references that
  the client holds.
\<close>

record store =
  committed :: "bytes list"
  current :: "bytes list"
  writing_on :: bool
  pins :: "nat multiset"

datatype pager_op = Get nat | Ref nat | Unref nat | Begin nat | Update nat bytes | Commit | Rollback | CkptBegin | CkptCommit

definition put_nth :: "nat \<Rightarrow> bytes \<Rightarrow> bytes list \<Rightarrow> bytes list" where
  \<comment> \<open>page \<open>n\<close> is replaced, or added at the end\<close>
  "put_nth n d cs = (if n \<le> length cs then cs[n - 1 := d] else cs @ [d])"

fun store_op :: "pager_op \<Rightarrow> store \<Rightarrow> store" where
  "store_op (Get n) s = s\<lparr>pins := pins s + {#n#}\<rparr>"
| "store_op (Ref n) s = s\<lparr>pins := pins s + {#n#}\<rparr>"
| "store_op (Unref n) s =
     (if pins s = {#n#} then s\<lparr>pins := {#}, current := committed s, writing_on := False\<rparr> else s\<lparr>pins := pins s - {#n#}\<rparr>)"
| "store_op (Begin n) s = s\<lparr>writing_on := True\<rparr>"
| "store_op (Update n d) s = s\<lparr>current := put_nth n d (current s), writing_on := True\<rparr>"
| "store_op Commit s = (if writing_on s then s\<lparr>committed := current s, writing_on := False\<rparr> else s)"
| "store_op Rollback s = s\<lparr>current := committed s, writing_on := False\<rparr>"
| "store_op CkptBegin s = s"
| "store_op CkptCommit s = s"

fun store_rc :: "pager_op \<Rightarrow> store \<Rightarrow> result" where
  "store_rc Commit s = (if writing_on s then SQLITE_OK else SQLITE_ERROR)"
| "store_rc op s = SQLITE_OK"

fun do_op :: "pager_op \<Rightarrow> pager \<Rightarrow> (result \<times> pager) option" where
  "do_op (Get n) p = sqlitepager_get n p"
| "do_op (Ref n) p = sqlitepager_ref n p"
| "do_op (Unref n) p = sqlitepager_unref n p"
| "do_op (Begin n) p = sqlitepager_begin n p"
| "do_op (Update n d) p = do { (rc, p) \<leftarrow> sqlitepager_write n p; Some (rc, if rc = SQLITE_OK then put_data n d p else p) }"
| "do_op Commit p = sqlitepager_commit p"
| "do_op Rollback p = sqlitepager_rollback p"
| "do_op CkptBegin p = sqlitepager_ckpt_begin p"
| "do_op CkptCommit p = map_option (Pair SQLITE_OK) (sqlitepager_ckpt_commit p)"

text \<open>
  When a call is allowed. A page must be in use to be changed; a rollback and a commit need a page in use,
  and a rollback allows no page but the first. The last three clauses are about what the store does not
  show: room in the memory, a checkpoint when the last page is released, and a second checkpoint.
\<close>

fun allowed :: "pager_op \<Rightarrow> pager \<Rightarrow> store \<Rightarrow> bool" where
  "allowed (Get n) p s = (0 < n \<and> n \<le> SQLITE_MAX_PAGE \<and> has_room n p)"
| "allowed (Ref n) p s = (n \<in># pins s)"
| "allowed (Unref n) p s = (n \<in># pins s \<and> (pins s = {#n#} \<longrightarrow> pCkpt p = []))"
| "allowed (Begin n) p s = (n \<in># pins s)"
| "allowed (Update n d) p s = (n \<in># pins s \<and> n \<le> length (current s) + 1 \<and> length d = SQLITE_PAGE_SIZE)"
| "allowed Commit p s = (pins s \<noteq> {#})"
| "allowed Rollback p s = (pins s \<noteq> {#} \<and> set_mset (pins s) \<subseteq> {1})"
| "allowed CkptBegin p s = (\<not> ckptInUse p)"
| "allowed CkptCommit p s = True"

section \<open>What relates them\<close>

definition pages_of :: "bytes \<Rightarrow> bytes list" where
  "pages_of b = map (page_at b) [1..<npages b + 1]"

definition views :: "bytes \<Rightarrow> pager \<Rightarrow> bytes list \<Rightarrow> bool" where
  "views B p cs \<longleftrightarrow> length cs = size_of B p \<and> (\<forall>k. 0 < k \<longrightarrow> k \<le> size_of B p \<longrightarrow> logical p k = cs ! (k - 1))"

definition in_session :: "bytes \<Rightarrow> pager \<Rightarrow> store \<Rightarrow> bool" where
  "in_session B p s \<longleftrightarrow> (\<exists>rs. inv B rs p) \<and> committed s = pages_of B \<and> views B p (current s) \<and>
     (writing_on s \<longleftrightarrow> state p = SQLITE_WRITELOCK) \<and> Multiset.count (pins s) = refs p"

definition models :: "pager \<Rightarrow> store \<Rightarrow> bool" where
  "models p s \<longleftrightarrow> (\<exists>B. in_session B p s \<or> idle B p \<and> committed s = pages_of B \<and> current s = pages_of B \<and> \<not> writing_on s \<and> pins s = {#})"

lemma pages_of_simps [simp]: "length (pages_of b) = npages b" "0 < k \<Longrightarrow> k \<le> npages b \<Longrightarrow> pages_of b ! (k - Suc 0) = page_at b k"
  by (auto simp: pages_of_def nth_map simp del: upt_Suc)

lemma in_sessionI:
  assumes "inv B rs p" "committed s = pages_of B" "views B p (current s)" "writing_on s \<longleftrightarrow> state p = SQLITE_WRITELOCK"
    and "\<And>n. Multiset.count (pins s) n = refs p n"
  shows "models p s"
  using assms ext [of "Multiset.count (pins s)" "refs p"] unfolding models_def in_session_def by blast

lemma session_inv:
  assumes "in_session B p s"
  obtains rs where "inv B rs p" "committed s = pages_of B" "views B p (current s)" "writing_on s \<longleftrightarrow> state p = SQLITE_WRITELOCK"
    "Multiset.count (pins s) = refs p"
  using assms unfolding in_session_def by blast

lemma pinned:
  assumes "Multiset.count (pins s) = refs p" "n \<in># pins s"
  obtains g where "pager_lookup p n = Some g" "0 < pnRef g"
proof -
  have "0 < refs p n" using assms by (metis count_greater_zero_iff)
  then show ?thesis using that by (auto simp: refs_def split: option.splits)
qed

lemma views_same: "same_db B p p' \<Longrightarrow> views B p cs \<Longrightarrow> views B p' cs"
  by (simp add: same_db_def views_def)

lemma refs_upd: "pager_lookup p' = (pager_lookup p)(n \<mapsto> g) \<Longrightarrow> refs p' = (refs p)(n := pnRef g)"
  by (rule ext) (simp add: refs_def)

lemma in_use_refs: "(\<And>k. k \<noteq> n \<Longrightarrow> in_use p' k = in_use p k) \<Longrightarrow> k \<noteq> n \<Longrightarrow> refs p' k = refs p k"
proof -
  assume a: "\<And>k. k \<noteq> n \<Longrightarrow> in_use p' k = in_use p k" "k \<noteq> n"
  have "refs q k = (case in_use q k of Some (_, _, r) \<Rightarrow> r | None \<Rightarrow> 0)" for q by (simp add: refs_def in_use_def split: option.split)
  then show ?thesis using a by simp
qed

lemma in_use_refs1: "in_use p n = Some (d, b, k) \<Longrightarrow> refs p n = k"
  by (auto simp: refs_def in_use_def split: option.splits if_splits)

section \<open>The steps\<close>

lemma op_get_idle:
  assumes i: "idle B p" "committed s = pages_of B" "current s = pages_of B" "\<not> writing_on s" "pins s = {#}" and a: "allowed (Get n) p s"
  shows "\<exists>p'. do_op (Get n) p = Some (SQLITE_OK, p') \<and> models p' (store_op (Get n) s)"
proof -
  have n: "0 < n" "n \<le> SQLITE_MAX_PAGE" using a by simp_all
  obtain p' where p': "sqlitepager_get n p = Some (SQLITE_OK, p')" "starts B n p'" using get_first [OF i(1) n] by blast
  have st: "inv B [] p'" "state p' = SQLITE_READLOCK" "size_of B p' = npages B" "\<And>k. 0 < k \<Longrightarrow> logical p' k = page_at B k"
    "in_use p' n = Some (page_at B n, False, 1)" "\<And>k. k \<noteq> n \<Longrightarrow> in_use p' k = None" using p'(2) by (simp_all add: starts_def)
  have "refs p' k = 0" if "k \<noteq> n" for k using st(6) [OF that] by (auto simp: refs_def in_use_def split: option.splits if_splits)
  then have "models p' (store_op (Get n) s)"
    by (intro in_sessionI [OF st(1)]) (use i st in_use_refs1 [OF st(5)] in \<open>auto simp: views_def\<close>)
  then show ?thesis using p'(1) by simp
qed

lemma op_get:
  assumes i: "in_session B p s" and a: "allowed (Get n) p s"
  shows "\<exists>p'. do_op (Get n) p = Some (SQLITE_OK, p') \<and> models p' (store_op (Get n) s)"
proof -
  obtain rs where c: "inv B rs p" "committed s = pages_of B" "views B p (current s)" "writing_on s \<longleftrightarrow> state p = SQLITE_WRITELOCK"
    "Multiset.count (pins s) = refs p" using session_inv [OF i] .
  obtain p' where p': "sqlitepager_get n p = Some (SQLITE_OK, p')" "inv B rs p'" "taken B n p p'" using get_quiet [OF c(1), of n] a by auto
  have t: "state p' = state p" "same_db B p p'" "\<And>k. k \<noteq> n \<Longrightarrow> in_use p' k = in_use p k" "refs p' n = refs p n + 1"
    using p'(3) by (auto simp: taken_def dest: in_use_refs1)
  have "models p' (store_op (Get n) s)"
    by (rule in_sessionI [OF p'(2)]) (use c t views_same [OF t(2) c(3)] in_use_refs [OF t(3)] in auto)
  then show ?thesis using p'(1) by simp
qed

lemma op_ref:
  assumes i: "in_session B p s" and a: "allowed (Ref n) p s"
  shows "\<exists>p'. do_op (Ref n) p = Some (SQLITE_OK, p') \<and> models p' (store_op (Ref n) s)"
proof -
  obtain rs where c: "inv B rs p" "committed s = pages_of B" "views B p (current s)" "writing_on s \<longleftrightarrow> state p = SQLITE_WRITELOCK"
    "Multiset.count (pins s) = refs p" using session_inv [OF i] .
  obtain g where g: "pager_lookup p n = Some g" "0 < pnRef g" using pinned [of s p, OF c(5)] a by auto
  obtain p' where p': "page_ref n p = Some p'" "inv B rs p'" "same_rest p p'" "dbSize p' = dbSize p"
    "pager_lookup p' = (pager_lookup p)(n \<mapsto> g\<lparr>pnRef := pnRef g + 1\<rparr>)" using page_ref_inv [OF c(1) g(1)] by blast
  have fs: "fbytes (fd p') = fbytes (fd p)" "state p' = state p" using p'(3) by (simp_all add: same_rest_def)
  have "logical p' k = logical p k" for k by (rule upd_logical [OF g(1) p'(5) _ fs(1)]) simp
  then have v: "views B p' (current s)" using c(3) size_of_cong [OF p'(4), of B] by (simp add: views_def)
  have "models p' (store_op (Ref n) s)"
    by (rule in_sessionI [OF p'(2)]) (use c v fs g refs_upd [OF p'(5)] in \<open>auto simp: refs_def\<close>)
  then show ?thesis using p'(1) by (simp add: sqlitepager_ref_def)
qed

lemma op_begin:
  assumes i: "in_session B p s" and a: "allowed (Begin n) p s"
  shows "\<exists>p'. do_op (Begin n) p = Some (SQLITE_OK, p') \<and> models p' (store_op (Begin n) s)"
proof -
  obtain rs where c: "inv B rs p" "committed s = pages_of B" "views B p (current s)" "writing_on s \<longleftrightarrow> state p = SQLITE_WRITELOCK"
    "Multiset.count (pins s) = refs p" using session_inv [OF i] .
  obtain g where g: "pager_lookup p n = Some g" "0 < pnRef g" using pinned [of s p, OF c(5)] a by auto
  obtain q where q: "sqlitepager_begin n p = Some (SQLITE_OK, q)" "inv B rs q" "state q = SQLITE_WRITELOCK" "pager_lookup q = pager_lookup p" "fd q = fd p"
    "size_of B q = size_of B p" using begin_quiet [OF c(1) g] by blast
  have "models q (store_op (Begin n) s)"
    by (rule in_sessionI [OF q(2)]) (use c q in \<open>simp_all add: views_def logical_def refs_def cong: option.case_cong\<close>)
  then show ?thesis using q(1) by simp
qed

lemma op_update:
  assumes i: "in_session B p s" and a: "allowed (Update n d) p s"
  shows "\<exists>p'. do_op (Update n d) p = Some (SQLITE_OK, p') \<and> models p' (store_op (Update n d) s)"
proof -
  obtain rs where c: "inv B rs p" "committed s = pages_of B" "views B p (current s)" "writing_on s \<longleftrightarrow> state p = SQLITE_WRITELOCK"
    "Multiset.count (pins s) = refs p" using session_inv [OF i] .
  obtain g where g: "pager_lookup p n = Some g" "0 < pnRef g" using pinned [of s p, OF c(5)] a by auto
  have l: "length (current s) = size_of B p" using c(3) by (simp add: views_def)
  obtain q where q: "sqlitepager_write n p = Some (SQLITE_OK, q)" "inv B (with_record B rs n) q" "wrote_page B n p q"
    using page_write_quiet [OF c(1) g] a l by auto
  have w: "state q = SQLITE_WRITELOCK" "size_of B q = max (size_of B p) n" "\<And>k. 0 < k \<Longrightarrow> logical q k = logical p k"
    "\<And>k. k \<noteq> n \<Longrightarrow> in_use q k = in_use p k" "in_use q n = Some (pdata g, True, pnRef g)" using q(3) g(1) by (auto simp: wrote_page_def)
  obtain h where h: "pager_lookup q n = Some h" "dirty h" "pnRef h = pnRef g" using w(5) by (auto simp: in_use_def split: option.splits if_splits)
  have d: "length d = SQLITE_PAGE_SIZE" using a by simp
  define p' where "p' = put_data n d q"
  note t = put_quiet [OF q(2) h(1,2) d, folded p'_def]
  have n0: "0 < n" using cache_page [OF invD(3) [OF c(1)] g(1)] by simp
  have lg: "logical p' k = (if k = n then d else logical p k)" if "0 < k" for k
  proof -
    have "logical p' k = (if k = n then d else logical q k)" using t(5) by (simp add: logical_def t(2) cong: option.case_cong)
    then show ?thesis using w(3) [OF that] by simp
  qed
  have v: "views B p' (put_nth n d (current s))"
    unfolding views_def
  proof (intro conjI allI impI)
    show "length (put_nth n d (current s)) = size_of B p'" using a l t(3) w(2) by (auto simp: put_nth_def max_def)
    fix k assume k: "0 < k" "k \<le> size_of B p'"
    have b: "logical p k = current s ! (k - 1)" if "k \<le> size_of B p" using c(3) k(1) that by (simp add: views_def)
    show "logical p' k = put_nth n d (current s) ! (k - 1)"
    proof (cases "n \<le> length (current s)")
      case True
      then have "k \<le> size_of B p" using k t(3) w(2) l by simp
      then show ?thesis using lg [OF k(1)] b True k(1) n0 l by (auto simp: put_nth_def nth_list_update)
    next
      case False
      then have n: "n = size_of B p + 1" using a l by simp
      have "k \<le> size_of B p + 1" using k(2) t(3) w(2) n by simp
      then show ?thesis using lg [OF k(1)] b False n l k(1) by (auto simp: put_nth_def nth_append)
    qed
  qed
  have r: "refs p' k = refs p k" for k
  proof (cases "k = n")
    case True
    then show ?thesis using h g refs_upd [OF t(2)] by (simp add: refs_def)
  next
    case False
    then show ?thesis using in_use_refs [of n q p k, OF w(4)] refs_upd [OF t(2)] by simp
  qed
  have "models p' (store_op (Update n d) s)"
    by (rule in_sessionI [OF t(1)]) (use c v r w t in simp_all)
  then show ?thesis using q(1) by (simp add: p'_def)
qed

lemma nref_pins:
  assumes i: "inv B rs p" and c: "Multiset.count (pins s) = refs p"
  shows "nRef p = card (set_mset (pins s))"
proof -
  note d = cache_okD(1) [OF invD(3) [OF i]]
  have "{n. 0 < refs p n} = pgno ` set (filter (\<lambda>g. 0 < pnRef g) (pAll p))"
  proof (rule set_eqI)
    fix n
    have "0 < refs p n \<longleftrightarrow> (\<exists>g. pager_lookup p n = Some g \<and> 0 < pnRef g)" by (simp add: refs_def split: option.split)
    then show "n \<in> {n. 0 < refs p n} \<longleftrightarrow> n \<in> pgno ` set (filter (\<lambda>g. 0 < pnRef g) (pAll p))"
      using lookup_iff [OF d, of n] by auto
  qed
  moreover have "distinct (map pgno (filter (\<lambda>g. 0 < pnRef g) (pAll p)))" using d by (rule distinct_map_filter)
  ultimately have "card {n. 0 < refs p n} = nRef p"
    using cache_okD(5) [OF invD(3) [OF i]] by (metis distinct_card length_map list.set_map)
  then show ?thesis using c by (simp add: set_mset_def)
qed

lemma op_unref:
  assumes i: "in_session B p s" and a: "allowed (Unref n) p s"
  shows "\<exists>p'. do_op (Unref n) p = Some (SQLITE_OK, p') \<and> models p' (store_op (Unref n) s)"
proof -
  obtain rs where c: "inv B rs p" "committed s = pages_of B" "views B p (current s)" "writing_on s \<longleftrightarrow> state p = SQLITE_WRITELOCK"
    "Multiset.count (pins s) = refs p" using session_inv [OF i] .
  obtain g where g: "pager_lookup p n = Some g" "0 < pnRef g" using pinned [of s p, OF c(5)] a by auto
  have rg: "refs p n = pnRef g" using g by (simp add: refs_def)
  note k = nref_pins [OF c(1,5)]
  show ?thesis
  proof (cases "pins s = {#n#}")
    case True
    have "pnRef g = 1" using c(5) rg True by (metis count_single)
    moreover have "nRef p = 1" using k True by simp
    moreover have "pCkpt p = []" using a True by simp
    ultimately obtain p' where "sqlitepager_unref n p = Some (SQLITE_OK, p')" "idle B p'" using unref_last [OF c(1) g(1)] by blast
    then show ?thesis using c(2) True by (auto simp: models_def)
  next
    case False
    have nk: "1 < pnRef g \<or> pnRef g = 1 \<and> 1 < nRef p"
    proof (rule ccontr)
      assume "\<not> ?thesis"
      then have one: "pnRef g = 1" "nRef p = 1" using g(2) invD(5) [OF c(1)] by auto
      then obtain m where m: "set_mset (pins s) = {m}" using k by (auto simp: card_1_singleton_iff)
      then have "m = n" using a by simp
      then have "Multiset.count (pins s) m = Multiset.count {#n#} m" for m
        using c(5) rg one(1) m by (metis count_eq_zero_iff count_single singletonD)
      then show False using False by (simp add: multiset_eq_iff)
    qed
    obtain p' where p': "sqlitepager_unref n p = Some (SQLITE_OK, p')" "inv B rs p'" "same_rest p p'" "dbSize p' = dbSize p"
      "pager_lookup p' = (pager_lookup p)(n \<mapsto> g\<lparr>pnRef := pnRef g - 1\<rparr>)" using unref_stays [OF c(1) g(1) nk] by blast
    have fs: "fbytes (fd p') = fbytes (fd p)" "state p' = state p" using p'(3) by (simp_all add: same_rest_def)
    have "logical p' k = logical p k" for k by (rule upd_logical [OF g(1) p'(5) _ fs(1)]) simp
    then have v: "views B p' (current s)" using c(3) size_of_cong [OF p'(4), of B] by (simp add: views_def)
    have "models p' (store_op (Unref n) s)"
      by (rule in_sessionI [OF p'(2)]) (use c v fs rg False refs_upd [OF p'(5)] in auto)
    then show ?thesis using p'(1) by simp
  qed
qed

lemma read_logical:
  assumes "inv B rs p" "state p = SQLITE_READLOCK" "0 < k" "k \<le> npages B"
  shows "logical p k = page_at B k"
proof -
  note c = invD [OF assms(1)]
  have rd: "in_read B p" using inv_read [OF assms(1,2)] by blast
  have sz: "size_of B p = npages B" using inv_read_shape [OF assms(1,2)] by simp
  have "fbytes (fd p) = B" "\<And>n. \<not> dirty_at (pager_lookup p) n" using rd by (simp_all add: in_read_def)
  then show ?thesis using clean_content [OF c(6)] assms(3,4) sz by (auto simp: logical_def split: option.split)
qed

lemma read_views:
  assumes "inv B rs p" "state p = SQLITE_READLOCK"
  shows "views B p (pages_of B)"
  using read_logical [OF assms] inv_read_shape(10) [OF assms] by (simp add: views_def)

lemma read_rollback:
  assumes i: "inv B rs p" and r: "state p = SQLITE_READLOCK"
  shows "\<exists>p'. sqlitepager_rollback p = Some (SQLITE_OK, p') \<and> inv B [] p' \<and> state p' = SQLITE_READLOCK \<and> refs p' = refs p"
proof -
  note c = invD [OF i]
  have rd: "in_read B p" "flock p = SQLITE_READLOCK" "rs = []" using inv_read [OF i r] by blast+
  let ?p = "p\<lparr>dbSize := -1\<rparr>"
  have "sqlitepager_rollback p = Some (SQLITE_OK, ?p)" using rd r by (simp add: sqlitepager_rollback_def pager_unwritelock_def in_read_def)
  moreover have L: "pager_lookup ?p = pager_lookup p" by (rule ext) (simp add: pager_lookup_def)
  moreover have "inv B [] ?p"
  proof (rule inv_readI)
    show "content (npages B) B {} (fbytes (fd ?p)) (size_of B ?p) (pager_lookup ?p)"
      using c(6) rd(3) inv_read_shape(10) [OF i r] unfolding L by (simp add: size_of_def)
    show "sync_ok ?p" using c(4) unfolding sync_ok_def L by (simp add: first_free_def)
    show "in_read B ?p" using rd(1) unfolding in_read_def L by simp
    show "\<not> inJournal g" if "pager_lookup ?p n = Some g" for n g using that c(7) rd(3) unfolding L by simp
  qed (use c r rd in \<open>simp_all add: sess_def cache_ok_def ckpt_list_def\<close>)
  ultimately show ?thesis using r by (intro exI [of _ ?p]) (simp add: refs_def [abs_def])
qed

lemma pins_usable:
  assumes "inv B rs p" "Multiset.count (pins s) = refs p" "set_mset (pins s) \<subseteq> {1}"
  shows "usable p"
  unfolding usable_def
proof
  fix g assume g: "g \<in> set (pAll p)"
  then have "refs p (pgno g) = pnRef g" using lookup_iff [OF cache_okD(1) [OF invD(3) [OF assms(1)]]] by (force simp: refs_def)
  then show "pnRef g = 0 \<or> pgno g = 1" using assms(2,3) by (metis count_eq_zero_iff singletonD subsetD)
qed

lemma op_rollback:
  assumes i: "in_session B p s" and a: "allowed Rollback p s"
  shows "\<exists>p'. do_op Rollback p = Some (SQLITE_OK, p') \<and> models p' (store_op Rollback s)"
proof -
  obtain rs where c: "inv B rs p" "committed s = pages_of B" "views B p (current s)" "writing_on s \<longleftrightarrow> state p = SQLITE_WRITELOCK"
    "Multiset.count (pins s) = refs p" using session_inv [OF i] .
  have "usable p" using pins_usable [OF c(1,5)] a by simp
  then obtain p' where p': "sqlitepager_rollback p = Some (SQLITE_OK, p')" "inv B [] p'" "state p' = SQLITE_READLOCK" "refs p' = refs p"
    using rollback_write [OF c(1)] read_rollback [OF c(1)] inv_states [OF c(1)] by blast
  have "models p' (store_op Rollback s)"
    by (rule in_sessionI [OF p'(2)]) (use c p' read_views [OF p'(2,3)] in simp_all)
  then show ?thesis using p'(1) by simp
qed

lemma op_commit:
  assumes i: "in_session B p s"
  shows "\<exists>p'. do_op Commit p = Some (store_rc Commit s, p') \<and> models p' (store_op Commit s)"
proof -
  obtain rs where c: "inv B rs p" "committed s = pages_of B" "views B p (current s)" "writing_on s \<longleftrightarrow> state p = SQLITE_WRITELOCK"
    "Multiset.count (pins s) = refs p" using session_inv [OF i] .
  show ?thesis
  proof (cases "state p = SQLITE_WRITELOCK")
    case True
    obtain p' where p': "sqlitepager_commit p = Some (SQLITE_OK, p')" "inv (fbytes (fd p')) [] p'" "state p' = SQLITE_READLOCK" "refs p' = refs p"
      "npages (fbytes (fd p')) = size_of B p" "\<forall>n > 0. n \<le> size_of B p \<longrightarrow> page_at (fbytes (fd p')) n = logical p n"
      using commit_write [OF c(1) True] by blast
    have "current s = pages_of (fbytes (fd p'))"
    proof (rule nth_equalityI)
      show "length (current s) = length (pages_of (fbytes (fd p')))" using c(3) p'(5) by (simp add: views_def)
      fix k assume "k < length (current s)"
      then have k: "Suc k \<le> size_of B p" using c(3) by (simp add: views_def)
      have "current s ! k = logical p (Suc k)" using c(3) k by (simp add: views_def)
      also have "\<dots> = page_at (fbytes (fd p')) (Suc k)" using p'(6) k by simp
      also have "\<dots> = pages_of (fbytes (fd p')) ! k" using pages_of_simps(2) [of "Suc k" "fbytes (fd p')"] k p'(5) by simp
      finally show "current s ! k = pages_of (fbytes (fd p')) ! k" .
    qed
    then have "models p' (store_op Commit s)"
      by (intro in_sessionI [OF p'(2)]) (use c True p' read_views [OF p'(2,3)] in simp_all)
    then show ?thesis using p'(1) c(4) True by simp
  next
    case False
    then have "state p = SQLITE_READLOCK" using inv_states [OF c(1)] by blast
    moreover have "errMask p = 0" using invD(1) [OF c(1)] by (simp add: sess_def)
    ultimately have "sqlitepager_commit p = Some (SQLITE_ERROR, p)" by (simp add: sqlitepager_commit_def PAGER_ERR_FULL_def)
    then show ?thesis using i c(4) False by (auto simp: models_def)
  qed
qed

lemma inv_autoopen [simp]: "inv B rs (p\<lparr>ckptAutoopen := x\<rparr>) = inv B rs p"
proof -
  have L: "pager_lookup (p\<lparr>ckptAutoopen := x\<rparr>) = pager_lookup p" by (rule ext) (simp add: pager_lookup_def)
  show ?thesis
    by (simp add: inv_def sess_def cache_ok_def ckpt_list_def sync_ok_def in_read_def in_write_def journal_ok_def ckpt_bits_def write_flags_def
      guarded_def header_def first_free_def size_of_def L)
qed

lemma models_same:
  assumes i: "in_session B p s" and p': "inv B rs p'" "pager_lookup p' = pager_lookup p" "fd p' = fd p" "size_of B p' = size_of B p" "state p' = state p"
  shows "models p' s"
proof -
  obtain rs' where c: "inv B rs' p" "committed s = pages_of B" "views B p (current s)" "writing_on s \<longleftrightarrow> state p = SQLITE_WRITELOCK"
    "Multiset.count (pins s) = refs p" using session_inv [OF i] .
  have "logical p' k = logical p k" "refs p' k = refs p k" for k using p' by (simp_all add: logical_def refs_def cong: option.case_cong)
  then show ?thesis using c p' by (intro in_sessionI [OF p'(1)]) (simp_all add: views_def)
qed

lemma op_ckpt_begin:
  assumes i: "in_session B p s" and a: "allowed CkptBegin p s"
  shows "\<exists>p'. do_op CkptBegin p = Some (SQLITE_OK, p') \<and> models p' (store_op CkptBegin s)"
proof -
  obtain rs where c: "inv B rs p" "committed s = pages_of B" "views B p (current s)" "writing_on s \<longleftrightarrow> state p = SQLITE_WRITELOCK"
    "Multiset.count (pins s) = refs p" using session_inv [OF i] .
  show ?thesis
  proof (cases "state p = SQLITE_WRITELOCK")
    case True
    have wr: "journal_ok B rs p" using inv_write [OF c(1) True] by (simp add: in_write_def)
    then obtain h where j: "fbytes (jfd p) = journal_bytes h (cksumInit p) (npages B) rs" "recs_ok (int (npages B)) rs" "nRec p = length rs" "journalOpen p"
      by (auto simp: journal_ok_def)
    have "length (fbytes (jfd p)) = nRec p * JOURNAL_PG_SZ 3 + JOURNAL_HDR_SZ 3" unfolding j(1,3) using journal_length [OF j(2)] by simp
    then obtain cf k where run: "sqlitepager_ckpt_begin p = Some (SQLITE_OK, ckpt_opened cf k p)"
      using ckpt_begin_quiet [of p] invD(1) [OF c(1)] j(4) a by (auto simp: sess_def)
    have "models (ckpt_opened cf k p) s"
      by (rule models_same [OF i ckpt_opened_inv [OF c(1) True]]) (use a in simp_all)
    then show ?thesis using run by simp
  next
    case False
    then have "state p = SQLITE_READLOCK" using inv_states [OF c(1)] by blast
    then have "\<not> journalOpen p" using inv_read_shape(5) [OF c(1)] by simp
    then have "sqlitepager_ckpt_begin p = Some (SQLITE_OK, p\<lparr>ckptAutoopen := True\<rparr>)" by (simp add: sqlitepager_ckpt_begin_def)
    moreover have "models (p\<lparr>ckptAutoopen := True\<rparr>) s"
      by (rule models_same [OF i, of rs]) (use c(1) in \<open>simp_all add: size_of_def pager_lookup_def [abs_def]\<close>)
    ultimately show ?thesis by simp
  qed
qed

lemma ckpt_commit_inv:
  assumes i: "inv B rs p"
  shows "\<exists>p'. sqlitepager_ckpt_commit p = Some p' \<and> inv B rs p' \<and> fd p' = fd p \<and> size_of B p' = size_of B p \<and> state p' = state p \<and>
    (\<forall>n. pager_lookup p' n = map_option (\<lambda>g. g\<lparr>inCkpt := False\<rparr>) (pager_lookup p n))"
proof -
  note c = invD [OF i]
  obtain cf cn where p0: "sqlitepager_ckpt_commit p = Some (p\<lparr>cpfd := cf, ckptNRec := cn, ckptInUse := False, aInCkpt := None, pCkpt := [],
    ckptAutoopen := False, pAll := map (\<lambda>g. g\<lparr>inCkpt := False\<rparr>) (pAll p)\<rparr>)"
    using ckpt_commit_quiet [OF cache_okD(3,1) [OF c(3)]] by blast
  define p' where "p' = p\<lparr>cpfd := cf, ckptNRec := cn, ckptInUse := False, aInCkpt := None, pCkpt := [],
    ckptAutoopen := False, pAll := map (\<lambda>g. g\<lparr>inCkpt := False\<rparr>) (pAll p)\<rparr>"
  let ?f = "\<lambda>g. g\<lparr>inCkpt := False\<rparr>"
  have all: "pAll p' = map ?f (pAll p)" and t: "tame ?f" by (simp_all add: p'_def tame_def)
  have l: "pager_lookup p' n = map_option ?f (pager_lookup p n)" for n by (rule lookup_map_all [OF all t])
  have "ckpt_list p'" by (auto simp: ckpt_list_def p'_def)
  then have cache: "cache_ok p'" by (intro cache_ok_map [OF c(3) t all]) (simp_all add: p'_def)
  have sv: "same_view (pager_lookup p) (pager_lookup p')" by (simp add: same_view_def l option.map_comp comp_def)
  have sy: "sync_at (pager_lookup p') = sync_at (pager_lookup p)" by (rule sync_at_map [OF all t]) simp
  have dy: "dirty_at (pager_lookup p') n \<longleftrightarrow> dirty_at (pager_lookup p) n" for n by (rule same_view_dirty [OF sv])
  have f: "pFirstSynced p' = pFirstSynced p" "pFree p' = pFree p" "needSync p' = needSync p" "noSync p' = noSync p" "first_free p' = first_free p"
    "fd p' = fd p" "size_of B p' = size_of B p" "state p' = state p" "flock p' = flock p" "dirtyFile p' = dirtyFile p" "dbSize p' = dbSize p"
    "journalStarted p' = journalStarted p" "header p' = header p" "nRef p' = nRef p"
    by (simp_all add: p'_def first_free_def size_of_def header_def)
  have sync: "sync_ok p'" using c(4) unfolding sync_ok_def sy f by simp
  have cont: "content (npages B) B (fst ` set rs) (fbytes (fd p')) (size_of B p') (pager_lookup p')" unfolding f by (rule content_cong [OF c(6) sv])
  have ij: "inJournal g \<longleftrightarrow> n \<in> fst ` set rs" if h: "pager_lookup p' n = Some g" for n g
  proof -
    obtain z where z: "pager_lookup p n = Some z" "g = z\<lparr>inCkpt := False\<rparr>" using h by (cases "pager_lookup p n") (simp_all add: l)
    then show ?thesis using c(7) [OF z(1)] by simp
  qed
  have "inv B rs p'"
  proof (cases "state p = SQLITE_READLOCK")
    case True
    note rd = inv_read [OF i True]
    have "in_read B p'" using rd unfolding in_read_def sy dy f by (simp add: p'_def)
    then show ?thesis using rd ij cont cache sync c(1,2,5) f True by (simp add: inv_def) (simp add: p'_def sess_def)
  next
    case False
    then have w: "state p = SQLITE_WRITELOCK" using inv_states [OF i] by blast
    have wr: "journal_ok B rs p" "write_flags B rs p" "guarded B rs p" "flock p = SQLITE_WRITELOCK" using inv_write [OF i w] by (simp_all add: in_write_def)
    have "write_flags B rs p'" using wr(2) unfolding write_flags_def dy f .
    moreover have "guarded B rs p'" using wr(3) unfolding guarded_def sy f .
    moreover have "journal_ok B rs p'" using wr(1) by (simp add: journal_ok_def p'_def)
    moreover have "ckpt_bits B p'" by (simp add: ckpt_bits_def p'_def)
    moreover have "sess p'" using c(1) by (simp add: sess_def p'_def)
    ultimately show ?thesis using ij cont cache sync c(2,5) f w wr(4) by (intro inv_writeI) (simp_all add: in_write_def)
  qed
  then show ?thesis using p0 f l unfolding p'_def [symmetric] by (intro exI [of _ p']) simp
qed

lemma op_ckpt_commit:
  assumes i: "in_session B p s"
  shows "\<exists>p'. do_op CkptCommit p = Some (SQLITE_OK, p') \<and> models p' (store_op CkptCommit s)"
proof -
  obtain rs where c: "inv B rs p" "committed s = pages_of B" "views B p (current s)" "writing_on s \<longleftrightarrow> state p = SQLITE_WRITELOCK"
    "Multiset.count (pins s) = refs p" using session_inv [OF i] .
  obtain p' where p': "sqlitepager_ckpt_commit p = Some p'" "inv B rs p'" "fd p' = fd p" "size_of B p' = size_of B p" "state p' = state p"
    "\<And>n. pager_lookup p' n = map_option (\<lambda>g. g\<lparr>inCkpt := False\<rparr>) (pager_lookup p n)" using ckpt_commit_inv [OF c(1)] by blast
  have "logical p' k = logical p k" "refs p' k = refs p k" for k using p'(3,6) by (simp_all add: logical_def refs_def split: option.split)
  then have "models p' s" using c p' by (intro in_sessionI [OF p'(2)]) (simp_all add: views_def)
  then show ?thesis using p'(1) by simp
qed

section \<open>A session\<close>

lemma op_step:
  assumes m: "models p s" and a: "allowed op p s"
  shows "\<exists>p'. do_op op p = Some (store_rc op s, p') \<and> models p' (store_op op s)"
proof -
  obtain B where "in_session B p s \<or> idle B p \<and> committed s = pages_of B \<and> current s = pages_of B \<and> \<not> writing_on s \<and> pins s = {#}"
    using m by (auto simp: models_def)
  then show ?thesis
  proof
    assume i: "in_session B p s"
    show ?thesis
      using a op_get [OF i] op_ref [OF i] op_unref [OF i] op_begin [OF i] op_update [OF i] op_commit [OF i] op_rollback [OF i] op_ckpt_begin [OF i] op_ckpt_commit [OF i]
      by (cases op) (simp_all del: do_op.simps store_op.simps allowed.simps)
  next
    assume i: "idle B p \<and> committed s = pages_of B \<and> current s = pages_of B \<and> \<not> writing_on s \<and> pins s = {#}"
    have f: "\<not> journalOpen p" "\<not> ckptInUse p" "idle B (p\<lparr>ckptAutoopen := x\<rparr>)" for x using i by (simp_all add: idle_def sess_def)
    consider (Get) n where "op = Get n" | (CkptBegin) "op = CkptBegin" | (CkptCommit) "op = CkptCommit"
      using a i by (cases op) auto
    then show ?thesis
    proof cases
      case Get
      then show ?thesis using op_get_idle [of B p s n] i a by simp
    next
      case CkptBegin
      then show ?thesis using i f by (auto simp: sqlitepager_ckpt_begin_def models_def)
    next
      case CkptCommit
      then show ?thesis using i f by (auto simp: sqlitepager_ckpt_commit_def models_def)
    qed
  qed
qed

fun run :: "pager_op list \<Rightarrow> pager \<Rightarrow> (result list \<times> pager) option" where
  "run [] p = Some ([], p)"
| "run (op # ops) p = do { (rc, p) \<leftarrow> do_op op p; (rcs, p) \<leftarrow> run ops p; Some (rc # rcs, p) }"

fun store_run :: "pager_op list \<Rightarrow> store \<Rightarrow> result list \<times> store" where
  "store_run [] s = ([], s)"
| "store_run (op # ops) s = (let (rcs, t) = store_run ops (store_op op s) in (store_rc op s # rcs, t))"

text \<open>A sequence of calls, each of which is allowed in the state that the ones before it lead to.\<close>

fun legal :: "pager_op list \<Rightarrow> pager \<Rightarrow> store \<Rightarrow> bool" where
  "legal [] p s = True"
| "legal (op # ops) p s = (allowed op p s \<and> (case do_op op p of None \<Rightarrow> True | Some (rc, p') \<Rightarrow> legal ops p' (store_op op s)))"

lemma run_models:
  assumes "models p s" "legal ops p s"
  shows "\<exists>p'. run ops p = Some (fst (store_run ops s), p') \<and> models p' (snd (store_run ops s))"
  using assms
proof (induction ops arbitrary: p s)
  case (Cons op ops)
  obtain p' where p': "do_op op p = Some (store_rc op s, p')" "models p' (store_op op s)"
    using op_step [OF Cons.prems(1), of op] Cons.prems(2) by auto
  obtain p'' where "run ops p' = Some (fst (store_run ops (store_op op s)), p'')" "models p'' (snd (store_run ops (store_op op s)))"
    using Cons.IH [OF p'(2)] Cons.prems(2) p'(1) by auto
  then show ?case using p'(1) by (simp add: case_prod_beta)
qed simp

end
