(* ===== verification/PgFail.thy ===== *)
theory PgFail
  imports PgRun
begin

text \<open>
  What goes wrong: a record that the disk has no room for undoes the transaction, and a page that is asked
  for with a full memory right after a transaction fails an assertion.
\<close>

section \<open>A partial write\<close>

lemma put_at_twice: "put_at (i + length a) b (put_at i a c) = put_at i (a @ b) c"
proof (rule nth_equalityI)
  show l: "length (put_at (i + length a) b (put_at i a c)) = length (put_at i (a @ b) c)" by (simp add: put_at_length)
  fix k assume k: "k < length (put_at (i + length a) b (put_at i a c))"
  have "byte_at (put_at (i + length a) b (put_at i a c)) k = byte_at (put_at i (a @ b) c) k"
    by (auto simp: byte_put_at nth_append)
  then show "put_at (i + length a) b (put_at i a c) ! k = put_at i (a @ b) c ! k" using k l by (simp add: byte_at_def)
qed

lemma write_loop_prefix:
  assumes "write_loop ks d f = (rest, f', ks')"
  shows "\<exists>m. m \<le> length d \<and> rest = drop m d \<and> fbytes f' = (if m = 0 then fbytes f else put_at (fpos f) (take m d) (fbytes f))"
  using assms
proof (induction ks d f rule: write_loop.induct)
  case (3 k ks x xs f)
  let ?d = "x # xs"
  let ?w = "transferred k (length ?d)"
  show ?case
  proof (cases "?w > 0")
    case True
    have w: "?w \<le> length ?d" by (cases k) auto
    have l: "write_loop ks (drop ?w ?d) (kwrite (take ?w ?d) f) = (rest, f', ks')" using "3.prems" True unfolding write_loop.simps Let_def by simp
    obtain m where m: "m \<le> length (drop ?w ?d)" "rest = drop m (drop ?w ?d)"
      "fbytes f' = (if m = 0 then fbytes (kwrite (take ?w ?d) f) else put_at (fpos (kwrite (take ?w ?d) f)) (take m (drop ?w ?d)) (fbytes (kwrite (take ?w ?d) f)))"
      using "3.IH" [OF refl True l] by blast
    have t: "take (?w + m) ?d = take ?w ?d @ take m (drop ?w ?d)" by (rule take_add)
    have "fbytes f' = put_at (fpos f) (take (?w + m) ?d) (fbytes f)"
      using m(3) w put_at_twice [of "fpos f" "take ?w ?d" "take m (drop ?w ?d)" "fbytes f"] unfolding t by (cases "m = 0") (simp_all add: kwrite_def min_absorb2)
    then show ?thesis using m(1,2) w True by (intro exI [of _ "?w + m"]) (auto simp: add.commute)
  next
    case False
    then show ?thesis using "3.prems" by (intro exI [of _ 0]) auto
  qed
next
  case (1 ks f)
  then show ?case by (intro exI [of _ 0]) simp
next
  case (2 x xs f)
  then have "rest = []" "f' = kwrite (x # xs) f" by simp_all
  then show ?case by (intro exI [of _ "length (x # xs)"]) (simp add: kwrite_def)
qed

lemma write_fails:
  assumes "sqliteOsWrite ks d f = (rc, f', ks')" "rc \<noteq> SQLITE_OK"
  shows "rc = SQLITE_FULL \<and> (\<exists>m < length d. fbytes f' = (if m = 0 then fbytes f else put_at (fpos f) (take m d) (fbytes f)))"
proof -
  obtain rest where r: "write_loop ks d f = (rest, f', ks')" "rc = (if length rest > 0 then SQLITE_FULL else SQLITE_OK)"
    using assms(1) by (cases "write_loop ks d f") (auto simp: sqliteOsWrite_def)
  then have "rest \<noteq> []" "rc = SQLITE_FULL" using assms(2) by (auto split: if_splits)
  moreover obtain m where m: "m \<le> length d" "rest = drop m d" "fbytes f' = (if m = 0 then fbytes f else put_at (fpos f) (take m d) (fbytes f))"
    using write_loop_prefix [OF r(1)] by blast
  ultimately have "m < length d" by (cases "m = length d") simp_all
  then show ?thesis using m(3) \<open>rc = SQLITE_FULL\<close> by blast
qed

section \<open>The rollback after it\<close>

lemma played_dirty:
  assumes "\<forall>r \<in> set rs. snd r = page_at B (fst r)" "n \<in> fst ` set rs \<or> dirty g \<or> pdata g = page_at B n" "pgno g = n" "int n \<le> N"
  shows "pdata (refetched B N (replay rs g)) = page_at B n"
  using assms map_of_rec [OF assms(1), of n]
  by (auto simp: replay_def refetched_def Let_def restore_page_def split: option.splits)

lemma rollback_torn:
  assumes i: "inv B rs p" and w: "state p = SQLITE_WRITELOCK" and u: "usable p"
    and p1: "p1 = (dirtied n p)\<lparr>dirtyFile := True, jfd := jf\<rparr>" "fbytes jf = fbytes (jfd p) @ z" "length z < JOURNAL_PG_SZ 3"
  shows "\<exists>p'. sqlitepager_rollback p1 = Some (SQLITE_OK, p') \<and> inv B [] p' \<and> state p' = SQLITE_READLOCK \<and> refs p' = refs p"
proof -
  note c = invD [OF i]
  have wr: "in_write B rs p" using inv_write [OF i w] by blast
  note ck = cache_okD [OF c(3)]
  let ?d = "\<lambda>g. if pgno g = n then g\<lparr>dirty := True\<rparr> else g"
  have all1: "pAll p1 = map ?d (pAll p)" by (simp add: p1 dirtied_def on_page_def)
  have f1: "outs p1 = []" "errMask p1 = 0" "state p1 = SQLITE_WRITELOCK" "journalOpen p1" "dirtyFile p1" "origDbSize p1 = int (npages B)" "cksumInit p1 = cksumInit p"
    "fd p1 = fd p" "jfd p1 = jf"
    using c(1) w wr by (simp_all add: p1 dirtied_def sess_def iw_defs)
  obtain h where j: "fbytes (jfd p) = journal_bytes h (cksumInit p) (npages B) rs" using wr by (auto simp: iw_defs)
  have r: "recs_ok (int (npages B)) rs" "\<forall>r \<in> set rs. snd r = page_at B (fst r)" using wr by (simp_all add: iw_defs)
  have N: "npages B \<le> SQLITE_MAX_PAGE" using c(2) by (simp add: file_ok_def)
  have small: "0 < pgno g \<and> pgno g < 2 ^ 31" if "g \<in> set (pAll p1)" for g
    using that c(3) max_page by (auto simp: cache_ok_def page_ok_def all1)
  have an: "announced True h (length (fbytes (jfd p1))) = int (length rs)"
  proof -
    have "(length (fbytes (jfd p1)) - JOURNAL_HDR_SZ 3) div JOURNAL_PG_SZ 3 = length rs"
      using journal_length [OF r(1)] p1(3) j unfolding f1(9) p1(2) by (simp add: div_nat_eqI)
    moreover have "length rs \<le> SQLITE_MAX_PAGE" using recs_length [OF r(1)] N by simp
    ultimately show ?thesis using i32_page by (simp only: announced_def simp_thms if_True)
  qed
  have us: "usable p1" using u by (auto simp: usable_def all1)
  have ck1: "ckpt_list p1" by (rule ckpt_list_map [OF ck(3) _ all1]) (simp_all add: p1 dirtied_def)
  have d1: "distinct (map pgno (pAll p1))" using ck(1) by (simp add: all1 comp_def if_distrib cong: if_cong)
  have "\<exists>f k cf cn. pager_playback True p1 = Some (SQLITE_OK, unlocked cf cn (set_jpos JFD k (p1\<lparr>cksumInit := cksumInit p, dbSize := int (npages B), fd := f,
      pAll := played_pages (fbytes f) (origDbSize p1) rs (pAll p1)\<rparr>)))
    \<and> plays rs (resize (SQLITE_PAGE_SIZE * npages B) (fbytes (fd p1))) (fbytes f)"
    by (rule playback_quiet [where h = h and z = z])
       (use f1 d1 small j p1 r us an ck1 max_page [OF N] in simp_all)
  then obtain f k cf cn where pb: "pager_playback True p1 = Some (SQLITE_OK, unlocked cf cn (set_jpos JFD k (p1\<lparr>cksumInit := cksumInit p, dbSize := int (npages B), fd := f,
      pAll := played_pages (fbytes f) (origDbSize p1) rs (pAll p1)\<rparr>)))"
    and pl: "plays rs (resize (SQLITE_PAGE_SIZE * npages B) (fbytes (fd p))) (fbytes f)" unfolding f1(8) by blast
  have kp: "kept (npages B) B (fst ` set rs) (fbytes (fd p)) (pager_lookup p)" using c(6) by (simp add: content_def)
  have fB: "fbytes f = B" using restored_file [OF c(2) r kp pl] .
  define p' where "p' = (unlocked cf cn (set_jpos JFD k (p1\<lparr>cksumInit := cksumInit p, dbSize := int (npages B), fd := f,
      pAll := played_pages (fbytes f) (origDbSize p1) rs (pAll p1)\<rparr>)))\<lparr>dbSize := -1\<rparr>"
  let ?f = "\<lambda>g. refetched B (int (npages B)) (replay rs (?d g))"
  have "inv B [] p' \<and> refs p' = refs p"
  proof (rule ended_inv [OF c(1-5), where f = ?f])
    have "tame ?d" by (simp add: tame_def)
    then have t: "tame (\<lambda>g. replay rs (?d g))" by (rule tame_comp [OF tame_replay [OF r(1)]])
    show "tame ?f" by (rule tame_comp [OF _ t]) simp
    show "pAll p' = map (\<lambda>g. plain_page (?f g)) (pAll p)"
      using fB by (simp add: p'_def unlocked_def played_pages_def all1 f1(6) comp_def)
    fix m g assume g: "pager_lookup p m = Some g" "m \<le> npages B"
    have m: "0 < m" "pgno g = m" using cache_page [OF c(3) g(1)] by simp_all
    have "m \<in> fst ` set rs \<or> dirty (?d g) \<or> pdata (?d g) = page_at B m"
    proof (cases "m \<in> fst ` set rs")
      case False
      have k: "page_at (fbytes (fd p)) m = page_at B m" "\<not> dirty g" using kp False m(1) g by (auto simp: kept_def dirty_at_def)
      have "m \<le> size_of B p" using g(2) wr by (auto simp: size_of_def iw_defs)
      then show ?thesis using c(6) k g m by (simp add: content_def mirrors_def)
    qed simp
    then show "pdata (?f g) = page_at B m" using m(2) g(2) by (intro played_dirty [OF r(2)]) auto
  qed (use fB in \<open>simp_all add: p'_def unlocked_def p1 dirtied_def on_page_def\<close>)
  then show ?thesis using pb f1 by (simp add: sqlitepager_rollback_def p'_def unlocked_def)
qed

section \<open>The disk is full\<close>

text \<open>Outcomes of the kernel are consumed by the write alone.\<close>

lemma j_write_fails:
  assumes "sqliteOsWrite ks d (jfd p) = (rc, f', [])" "rc \<noteq> SQLITE_OK" "fpos (jfd p) = length (fbytes (jfd p))"
  shows "rc = SQLITE_FULL \<and> j_write d (p\<lparr>outs := ks\<rparr>) = (SQLITE_FULL, p\<lparr>jfd := f', outs := []\<rparr>) \<and>
    (\<exists>z. fbytes f' = fbytes (jfd p) @ z \<and> length z < length d)"
proof -
  obtain m where m: "rc = SQLITE_FULL" "m < length d" "fbytes f' = (if m = 0 then fbytes (jfd p) else put_at (fpos (jfd p)) (take m d) (fbytes (jfd p)))"
    using write_fails [OF assms(1,2)] by blast
  then have "fbytes f' = fbytes (jfd p) @ take m d" using put_end [OF assms(3), of "take m d"] by simp
  moreover have "j_write d (p\<lparr>outs := ks\<rparr>) = (SQLITE_FULL, p\<lparr>jfd := f', outs := []\<rparr>)"
    using assms(1) m(1) by (cases p) (simp add: j_write_def)
  moreover have "length (take m d) < length d" using m(2) by simp
  ultimately show ?thesis using m(1) by blast
qed

lemma inv_raised: "fd (raise e p) = fd p" "state (raise e p) = state p" "pager_lookup (raise e p) = pager_lookup p"
  by (simp_all add: raise_def pager_lookup_def [abs_def])

text \<open>
  A page of the original file that is not in the journal yet is to be written, and the record does not fit
  on the disk. The transaction is undone.
\<close>

lemma write_full:
  assumes i: "inv B rs p" and w: "state p = SQLITE_WRITELOCK" and g: "pager_lookup p n = Some g" "0 < pnRef g" "\<not> inJournal g"
    and n: "n \<le> npages B" and u: "usable p"
    and k: "sqliteOsWrite ks (journal_record p g) (jfd p) = (rc, f', [])" "rc \<noteq> SQLITE_OK"
  shows "\<exists>q. sqlitepager_write n (p\<lparr>outs := ks\<rparr>) = Some (SQLITE_FULL, raise PAGER_ERR_FULL q) \<and>
    inv B [] q \<and> state q = SQLITE_READLOCK \<and> refs q = refs p"
proof -
  note c = invD [OF i]
  have wr: "journal_ok B rs p" using inv_write [OF i w] by (simp add: in_write_def)
  have nm: "0 < n" "n \<le> SQLITE_MAX_PAGE" "length (pdata g) = SQLITE_PAGE_SIZE" "pgno g = n" using cache_page [OF c(3) g(1)] by simp_all
  have len: "length (journal_record p g) = JOURNAL_PG_SZ 3" using journal_record_eq [OF nm(3), of p] jrec_length nm(3) by simp
  have pos: "fpos (jfd p) = length (fbytes (jfd p))" using wr by (simp add: journal_ok_def)
  obtain z where z: "fbytes f' = fbytes (jfd p) @ z" "length z < JOURNAL_PG_SZ 3" using j_write_fails [OF k pos] len by auto
  define p1 where "p1 = (dirtied n p)\<lparr>dirtyFile := True, jfd := f'\<rparr>"
  obtain q where q: "sqlitepager_rollback p1 = Some (SQLITE_OK, q)" "inv B [] q" "state q = SQLITE_READLOCK" "refs q = refs p"
    using rollback_torn [OF i w u p1_def z] by blast
  let ?p = "(dirtied n p)\<lparr>dirtyFile := True\<rparr>"
  have jf: "jfd ?p = jfd p" by (simp add: dirtied_def)
  have rec: "journal_record (?p\<lparr>outs := ks\<rparr>) (g\<lparr>dirty := True\<rparr>) = journal_record p g"
    by (simp add: journal_record_def pager_cksum_def page_buffer_def dirtied_def)
  have o1: "?p\<lparr>jfd := f', outs := []\<rparr> = p1" using c(1) by (cases p) (simp add: p1_def dirtied_def on_page_def sess_def)
  have jw: "j_write (journal_record p g) (?p\<lparr>outs := ks\<rparr>) = (SQLITE_FULL, p1)"
    using j_write_fails [of ks "journal_record p g" ?p rc f'] k pos unfolding jf o1 by simp
  have lk: "pager_lookup (?p\<lparr>outs := ks\<rparr>) n = Some (g\<lparr>dirty := True\<rparr>)" using dirtied_lookup [OF g(1)] by (simp add: pager_lookup_def)
  have N: "i32 n \<le> origDbSize p" using i32_page [OF nm(2)] n wr by (simp add: journal_ok_def)
  have e: "(dirtied n p)\<lparr>outs := ks, dirtyFile := True\<rparr> = ?p\<lparr>outs := ks\<rparr>" by (cases p) (simp add: dirtied_def on_page_def)
  have tj: "to_journal n (?p\<lparr>outs := ks\<rparr>) = Some (SQLITE_FULL, p1)"
    using lk jw g(3) N c(1) unfolding to_journal_def journal_page_def by (simp add: rec sess_def) (simp add: dirtied_def)
  have wj: "write_journals n ((dirtied n p)\<lparr>outs := ks\<rparr>) = Some (SQLITE_FULL, raise PAGER_ERR_FULL q)"
    using tj q(1) by (simp add: write_journals_def write_failed_def e)
  have d: "on_page n (\<lambda>g. g\<lparr>dirty := True\<rparr>) (p\<lparr>outs := ks\<rparr>) = (dirtied n p)\<lparr>outs := ks\<rparr>" by (simp add: dirtied_def on_page_def)
  have lo: "pager_lookup (p\<lparr>outs := ks\<rparr>) n = Some g" using g(1) by (simp add: pager_lookup_def)
  have ld: "pager_lookup ((dirtied n p)\<lparr>outs := ks\<rparr>) n = Some (g\<lparr>dirty := True\<rparr>)" using dirtied_lookup [OF g(1)] by (simp add: pager_lookup_def)
  have f: "state ((dirtied n p)\<lparr>outs := ks\<rparr>) = SQLITE_WRITELOCK" "journalOpen ((dirtied n p)\<lparr>outs := ks\<rparr>)" using w wr by (simp_all add: dirtied_def journal_ok_def)
  have "sqlitepager_begin n ((dirtied n p)\<lparr>outs := ks\<rparr>) = Some (SQLITE_OK, (dirtied n p)\<lparr>outs := ks\<rparr>)"
    using ld g(2) f(1) by (simp add: sqlitepager_begin_def assertion_def)
  then have "sqlitepager_write n (p\<lparr>outs := ks\<rparr>) = write_journals n ((dirtied n p)\<lparr>outs := ks\<rparr>)"
    using c(1) lo g(3) f unfolding sqlitepager_write_def by (simp add: d sess_def assertion_def)
  then show ?thesis using wj q by auto
qed

section \<open>No room\<close>

lemma get_no_room:
  assumes i: "inv B rs p" and n: "0 < n" and r: "\<not> has_room n p"
  shows "sqlitepager_get n p = None"
proof -
  have h: "pager_lookup p n = None" "\<not> int (nPage p) < mxPage p" "pFree p \<noteq> []" "pFirstSynced p = None" "state p = SQLITE_WRITELOCK \<Longrightarrow> \<not> dirtyFile p"
    using r by (auto simp: has_room_def)
  have "syncJournal p = None"
  proof (cases "needSync p")
    case True
    have "state p = SQLITE_READLOCK" using True h(5) inv_states [OF i] inv_write [OF i] by (auto simp: in_write_def write_flags_def)
    then have "\<not> journalOpen p" "\<not> tempFile p" using inv_read_shape [OF i] by simp_all
    then show ?thesis using True by (simp add: syncJournal_def sync_file_def assertion_def)
  next
    case False
    then show ?thesis using h(3,4) by (cases "pFree p") (simp_all add: syncJournal_def assertion_def)
  qed
  then have "recycle_page p = None" using h(4) by (simp add: recycle_page_def)
  then have "get_miss n p = None" using h(2,3) by (simp add: get_miss_def)
  then show ?thesis using get_start [OF i n] h(1) by simp
qed

end
