(* ===== verification/PgProps.thy ===== *)
theory PgProps
  imports PgFail
begin

text \<open>
  The properties of the page cache: sessions that begin with opening a database file, the refinement of
  the store of pages, crashes, and errors.
\<close>

section \<open>Sessions\<close>

text \<open>A database file that has just been opened, and the store that it holds.\<close>

definition fresh :: "bytes \<Rightarrow> pager \<Rightarrow> bool" where
  "fresh B p \<longleftrightarrow> file_ok B \<and> (\<exists>full nm temp mx extra junk r sd. nm \<noteq> [] \<and> length junk = SQLITE_PAGE_SIZE \<and>
     sqlitepager_open full False nm temp \<lparr>dbContent = B, dbReadOnly = False, hotJournal = None\<rparr> mx extra True [] junk r sd = (SQLITE_OK, Some p))"

definition fresh_store :: "bytes \<Rightarrow> store" where
  "fresh_store B = \<lparr>committed = pages_of B, current = pages_of B, writing_on = False, pins = {#}\<rparr>"

lemma fresh_idle:
  assumes "fresh B p"
  shows "idle B p"
proof -
  obtain full nm temp mx extra junk r sd where o: "file_ok B" "(nm :: string) \<noteq> []" "length (junk :: bytes) = SQLITE_PAGE_SIZE"
    "sqlitepager_open full False nm temp \<lparr>dbContent = B, dbReadOnly = False, hotJournal = None\<rparr> mx extra True [] junk r sd = (SQLITE_OK, Some p)"
    using assms unfolding fresh_def by blast
  then have "p = new_pager (full nm) temp \<lparr>dbContent = B, dbReadOnly = False, hotJournal = None\<rparr> False mx extra True [] junk r sd"
    using open_quiet [OF o(2)] by simp
  then show ?thesis using new_idle [OF o(1,3)] by simp
qed

lemma fresh_models: "fresh B p \<Longrightarrow> models p (fresh_store B)"
  using fresh_idle by (auto simp: models_def fresh_store_def)

lemma ran_models:
  assumes "fresh B p" "legal ops p (fresh_store B)" "run ops p = Some (rcs, q)"
  shows "models q (snd (store_run ops (fresh_store B)))"
  using run_models [OF fresh_models [OF assms(1)] assms(2)] assms(3) by auto

lemma ran_session:
  assumes "fresh B p" "legal ops p (fresh_store B)" "run ops p = Some (rcs, q)" "pins (snd (store_run ops (fresh_store B))) \<noteq> {#}"
  shows "\<exists>C. in_session C q (snd (store_run ops (fresh_store B)))"
  using ran_models [OF assms(1-3)] assms(4) by (auto simp: models_def)

lemma writing_session:
  assumes "models p s" "writing_on s"
  shows "\<exists>C. in_session C p s"
  using assms by (auto simp: models_def)

lemma session_file: "in_session C p s \<Longrightarrow> file_ok C \<and> committed s = pages_of C"
  by (auto simp: in_session_def dest: invD(2))

lemma models_crash:
  assumes "models p s" "crash_disk p d"
  shows "\<exists>C. pages_of C = committed s \<and> recovers C d"
proof -
  obtain B where "in_session B p s \<or> idle B p \<and> committed s = pages_of B" using assms(1) by (auto simp: models_def)
  then show ?thesis
  proof
    assume i: "in_session B p s"
    obtain rs where "inv B rs p" "committed s = pages_of B" using session_inv [OF i] .
    then show ?thesis using crash_recovers [OF _ assms(2)] by auto
  next
    assume i: "idle B p \<and> committed s = pages_of B"
    then have "d = \<lparr>dbContent = B, dbReadOnly = False, hotJournal = None\<rparr>" "file_ok B"
      using assms(2) by (cases d, simp add: idle_def crash_disk_def, simp add: idle_def)
    then show ?thesis using recovers_clean i by auto
  qed
qed

text \<open>A small database for the examples: a file and what may be done with it.\<close>

definition sample_prng :: prng where
  "sample_prng = \<lparr>isInit = False, prng_i = 0, prng_j = 0, prng_s = replicate 256 0\<rparr>"

definition sample_pager :: "bytes \<Rightarrow> pager" where
  "sample_pager B = new_pager ''/a'' [] \<lparr>dbContent = B, dbReadOnly = False, hotJournal = None\<rparr> False 10 0 True []
     (replicate SQLITE_PAGE_SIZE 0) sample_prng (replicate 256 0)"

definition sample_page :: "u8 \<Rightarrow> bytes" where
  "sample_page x = replicate SQLITE_PAGE_SIZE x"

lemma sample_file: "file_ok []" "file_ok (sample_page x)" "npages [] = 0" "npages (sample_page x) = 1"
  by (simp_all add: file_ok_def aligned_def npages_def sample_page_def SQLITE_MAX_PAGE_def)

lemma sample_fresh:
  assumes "file_ok B"
  shows "fresh B (sample_pager B)"
proof -
  have "sqlitepager_open (\<lambda>x. x) False ''/a'' [] \<lparr>dbContent = B, dbReadOnly = False, hotJournal = None\<rparr> 10 0 True []
      (replicate SQLITE_PAGE_SIZE 0) sample_prng (replicate 256 0) = (SQLITE_OK, Some (sample_pager B))"
    using open_quiet [of "''/a''" "\<lambda>x. x"] by (simp add: sample_pager_def)
  moreover have "length (replicate SQLITE_PAGE_SIZE (0 :: u8)) = SQLITE_PAGE_SIZE" "''/a'' \<noteq> []" by simp_all
  ultimately show ?thesis using assms unfolding fresh_def by blast
qed

lemma legal_step:
  assumes "models p s" "allowed op p s" "\<And>p'. do_op op p = Some (store_rc op s, p') \<Longrightarrow> models p' (store_op op s) \<Longrightarrow> legal ops p' (store_op op s)"
  shows "legal (op # ops) p s"
  using op_step [OF assms(1,2)] assms by auto

definition sample_ops :: "pager_op list" where
  "sample_ops = [Get 1, Update 1 (sample_page 7), Commit, Update 1 (sample_page 9)]"

lemma sample_legal: "legal sample_ops (sample_pager []) (fresh_store [])"
proof -
  have r: "has_room 1 (sample_pager [])" by (simp add: has_room_def sample_pager_def new_pager_def)
  have l: "length (sample_page x) = SQLITE_PAGE_SIZE" for x by (simp add: sample_page_def)
  show ?thesis
    unfolding sample_ops_def
    by (intro legal_step [OF fresh_models [OF sample_fresh [OF sample_file(1)]]] legal_step legal.simps(1) [THEN iffD2] TrueI)
       (use r l sample_file(3) in \<open>simp_all add: fresh_store_def SQLITE_MAX_PAGE_def put_nth_def pages_of_def\<close>)
qed

lemma sample_store: "snd (store_run sample_ops (fresh_store [])) =
    \<lparr>committed = [sample_page 7], current = [sample_page 9], writing_on = True, pins = {#1#}\<rparr>"
  by (simp add: sample_ops_def fresh_store_def put_nth_def pages_of_def npages_def)

lemma sample_run:
  obtains rcs q where "run sample_ops (sample_pager []) = Some (rcs, q)" "models q (snd (store_run sample_ops (fresh_store [])))"
  using run_models [OF fresh_models [OF sample_fresh [OF sample_file(1)]] sample_legal] by blast

section \<open>Refinement and crashes\<close>

text \<open>C1: Any sequence of allowed calls on an opened database runs, returns the results of the store
  of pages, and leaves the pager in a state that stands for the resulting store.\<close>

theorem pager_refines_store:
  assumes "fresh B p" "legal ops p (fresh_store B)"
  shows "\<exists>q. run ops p = Some (fst (store_run ops (fresh_store B)), q) \<and> models q (snd (store_run ops (fresh_store B)))"
  using run_models [OF fresh_models [OF assms(1)] assms(2)] .

theorem pager_refines_store_witness:
  "\<exists>q. run sample_ops (sample_pager []) = Some (fst (store_run sample_ops (fresh_store [])), q) \<and>
     models q \<lparr>committed = [sample_page 7], current = [sample_page 9], writing_on = True, pins = {#1#}\<rparr>"
  using pager_refines_store [OF sample_fresh [OF sample_file(1)] sample_legal] unfolding sample_store .

text \<open>C2: A process may die after any sequence of the calls of \<open>legal\<close> (pages taken, referenced, written
  and released, transactions begun, committed and rolled back, checkpoints begun and committed), with
  a kernel that has refused nothing, or while it appends to its journal or writes pages that the journal
  guards. The next process that opens the database reads the pages of the last commit.
  Not covered are the rollback of a checkpoint, truncation, overwriting, the two calls that exempt
  pages, changes of the settings and a death inside the call that begins a transaction.\<close>

theorem crash_atomic:
  assumes "fresh B p" "legal ops p (fresh_store B)" "run ops p = Some (rcs, q)" "crash_disk q d"
  shows "\<exists>C. pages_of C = committed (snd (store_run ops (fresh_store B))) \<and> recovers C d"
  using models_crash [OF ran_models [OF assms(1-3)] assms(4)] .

theorem crash_atomic_witness:
  "\<exists>rcs q C. run sample_ops (sample_pager []) = Some (rcs, q) \<and> pages_of C = [sample_page 7] \<and> recovers C (left_behind q)"
proof -
  obtain rcs q where q: "run sample_ops (sample_pager []) = Some (rcs, q)" "models q (snd (store_run sample_ops (fresh_store [])))"
    using sample_run .
  then show ?thesis
    using crash_atomic [OF sample_fresh [OF sample_file(1)] sample_legal q(1) left_behind_crash] unfolding sample_store by auto
qed

text \<open>C3: So it is while a commit writes the changed pages to the file, after any number of them.\<close>

theorem commit_crash_atomic:
  assumes "fresh B p" "legal ops p (fresh_store B)" "run ops p = Some (rcs, q)" "writing_on (snd (store_run ops (fresh_store B)))" "dirtyFile q"
  shows "\<exists>p1. syncJournal q = Some (SQLITE_OK, p1) \<and> (\<forall>j. \<exists>p2. pager_write_pagelist (take j (pager_get_all_dirty_pages p1)) p1 = Some (SQLITE_OK, p2) \<and>
    (\<forall>d. crash_disk p2 d \<longrightarrow> (\<exists>C. pages_of C = committed (snd (store_run ops (fresh_store B))) \<and> recovers C d)))"
proof -
  define s where "s = snd (store_run ops (fresh_store B))"
  obtain C where i: "in_session C q s" using writing_session [OF ran_models [OF assms(1-3)] assms(4)] unfolding s_def by blast
  obtain rs where c: "inv C rs q" "committed s = pages_of C" "writing_on s \<longleftrightarrow> state q = SQLITE_WRITELOCK" using session_inv [OF i] by blast
  then have w: "state q = SQLITE_WRITELOCK" using assms(4) by (simp add: s_def)
  obtain p1 where p1: "syncJournal q = Some (SQLITE_OK, p1)" "inv C rs p1" "\<not> needSync p1" "p1 = q \<or> p1 = synced (word_of_nat (nRec q)) q"
    using synced_or_same [OF c(1) w assms(5)] by blast
  have s1: "state p1 = SQLITE_WRITELOCK" "dirtyFile p1" using p1(4) w assms(5) by auto
  have "\<exists>p2. pager_write_pagelist (take j (pager_get_all_dirty_pages p1)) p1 = Some (SQLITE_OK, p2) \<and> inv C rs p2" for j
    using get_all_dirty [OF p1(2)] by (intro write_some_inv [OF p1(2) s1 p1(3)]) (auto dest: in_set_takeD)
  then show ?thesis using p1(1) c(2) crash_recovers unfolding s_def [symmetric] by metis
qed

lemma grown_dirty:
  assumes "in_session C q s" "writing_on s" "length (current s) \<noteq> length (committed s)"
  shows "dirtyFile q"
proof -
  obtain rs where c: "inv C rs q" "committed s = pages_of C" "views C q (current s)" "writing_on s \<longleftrightarrow> state q = SQLITE_WRITELOCK"
    using session_inv [OF assms(1)] by blast
  then have "write_flags C rs q" using inv_write [OF c(1)] assms(2) by (simp add: in_write_def)
  moreover have "size_of C q \<noteq> npages C" using c(2,3) assms(3) by (simp add: views_def)
  ultimately show ?thesis by (auto simp: write_flags_def size_of_def)
qed

lemma sample_legal2: "legal [Get 1, Update 1 (sample_page 7)] (sample_pager []) (fresh_store [])"
  using sample_legal unfolding sample_ops_def by (auto split: option.splits)

theorem commit_crash_atomic_witness:
  "\<exists>rcs q p1. run [Get 1, Update 1 (sample_page 7)] (sample_pager []) = Some (rcs, q) \<and> syncJournal q = Some (SQLITE_OK, p1) \<and>
     (\<exists>p2. pager_write_pagelist (take 1 (pager_get_all_dirty_pages p1)) p1 = Some (SQLITE_OK, p2) \<and> recovers [] (left_behind p2))"
proof -
  let ?ops = "[Get 1, Update 1 (sample_page 7)]"
  have st: "snd (store_run ?ops (fresh_store [])) = \<lparr>committed = [], current = [sample_page 7], writing_on = True, pins = {#1#}\<rparr>"
    by (simp add: fresh_store_def put_nth_def pages_of_def npages_def)
  obtain rcs q where q: "run ?ops (sample_pager []) = Some (rcs, q)" "models q (snd (store_run ?ops (fresh_store [])))"
    using run_models [OF fresh_models [OF sample_fresh [OF sample_file(1)]] sample_legal2] by blast
  have w: "writing_on (snd (store_run ?ops (fresh_store [])))" unfolding st by simp
  obtain C where "in_session C q (snd (store_run ?ops (fresh_store [])))" using writing_session [OF q(2) w] by blast
  then have "dirtyFile q" using grown_dirty [OF _ w] unfolding st by auto
  then obtain p1 p2 C where p: "syncJournal q = Some (SQLITE_OK, p1)" "pager_write_pagelist (take 1 (pager_get_all_dirty_pages p1)) p1 = Some (SQLITE_OK, p2)"
    "pages_of C = committed (snd (store_run ?ops (fresh_store [])))" "recovers C (left_behind p2)"
    using commit_crash_atomic [OF sample_fresh [OF sample_file(1)] sample_legal2 q(1) w] left_behind_crash by blast
  have "npages C = 0" using p(3) pages_of_simps(1) [of C] unfolding st by simp
  moreover have "file_ok C"
  proof -
    have "\<exists>q'. starts C 1 q'" using p(4) [unfolded recovers_def, rule_format, of "''/a''" "replicate SQLITE_PAGE_SIZE 0" 1] unfolding SQLITE_MAX_PAGE_def
      by simp blast
    then show ?thesis by (auto simp: starts_def dest: invD(2))
  qed
  ultimately have "C = []" by (simp add: file_ok_def aligned_def)
  then show ?thesis using q(1) p by blast
qed

section \<open>Pages and their lists\<close>

text \<open>What the lists, the counts and the flags of a pager have to do with each other.\<close>

definition pool_ok :: "pager \<Rightarrow> bool" where
  "pool_ok p \<longleftrightarrow> distinct (map pgno (pAll p)) \<and> nPage p = length (pAll p) \<and> nRef p = length (filter (\<lambda>g. 0 < pnRef g) (pAll p)) \<and>
     distinct (pFree p) \<and> set (pFree p) = pgno ` {g \<in> set (pAll p). pnRef g = 0} \<and>
     (\<forall>n. pFirstSynced p = Some n \<longrightarrow> n \<in> set (pFree p)) \<and>
     distinct (pCkpt p) \<and> set (pCkpt p) = pgno ` {g \<in> set (pAll p). inCkpt g} \<and>
     (\<forall>g \<in> set (pAll p). 0 < pgno g \<and> length (pdata g) = SQLITE_PAGE_SIZE \<and> length (pextra g) = nExtra p) \<and>
     (state p = SQLITE_UNLOCK \<longleftrightarrow> nRef p = 0) \<and> flock p = state p \<and> errMask p = 0 \<and>
     (journalOpen p \<longleftrightarrow> state p = SQLITE_WRITELOCK) \<and> (jname p \<longleftrightarrow> journalOpen p) \<and> (aInJournal p \<noteq> None \<longleftrightarrow> journalOpen p)"

lemma inv_pool:
  assumes i: "inv B rs p"
  shows "pool_ok p"
proof -
  note c = invD [OF i]
  have s: "flock p = state p \<and> state p \<noteq> SQLITE_UNLOCK \<and> (journalOpen p \<longleftrightarrow> state p = SQLITE_WRITELOCK) \<and> (jname p \<longleftrightarrow> journalOpen p) \<and> (aInJournal p \<noteq> None \<longleftrightarrow> journalOpen p)"
  proof (cases "state p = SQLITE_READLOCK")
    case True
    then show ?thesis using inv_read [OF i] by (simp add: in_read_def)
  next
    case False
    then have "state p = SQLITE_WRITELOCK" using inv_states [OF i] by blast
    then show ?thesis using inv_write [OF i] by (auto simp: in_write_def journal_ok_def)
  qed
  have "\<forall>n. pFirstSynced p = Some n \<longrightarrow> n \<in> set (pFree p)" using c(4) by (simp add: sync_ok_def)
  then show ?thesis
    using c(1,3,5) s by (simp add: pool_ok_def cache_ok_def ckpt_list_def page_ok_def sess_def)
qed

text \<open>C4: After any sequence of allowed calls the lists, counts, flags and locks of the pager agree:
  every page has one number, the free list holds the pages without references, a journal is there
  exactly in a transaction, and no error is remembered.\<close>

theorem pager_well_formed:
  assumes "fresh B p" "legal ops p (fresh_store B)" "run ops p = Some (rcs, q)"
  shows "pool_ok q"
proof -
  obtain C where "in_session C q (snd (store_run ops (fresh_store B))) \<or> idle C q" using ran_models [OF assms] by (auto simp: models_def)
  then show ?thesis
  proof
    assume "in_session C q (snd (store_run ops (fresh_store B)))"
    then show ?thesis using inv_pool by (auto simp: in_session_def)
  next
    assume "idle C q"
    then show ?thesis by (auto simp: idle_def pool_ok_def sess_def)
  qed
qed

theorem pager_well_formed_witness: "\<exists>rcs q. run sample_ops (sample_pager []) = Some (rcs, q) \<and> pool_ok q"
  using sample_run pager_well_formed [OF sample_fresh [OF sample_file(1)] sample_legal] by metis

section \<open>Getting a page\<close>

text \<open>C9: If there is room for it, a page with a number of at most \<open>SQLITE_MAX_PAGE\<close> that is asked for is
  in use afterwards and holds what the store holds; all other pages in use stay where they are, with
  the same content.\<close>

theorem get_reads_page:
  assumes "fresh B p" "legal ops p (fresh_store B)" "run ops p = Some (rcs, q)" and n: "0 < n" "n \<le> SQLITE_MAX_PAGE" "has_room n q"
  shows "\<exists>q' g. sqlitepager_get n q = Some (SQLITE_OK, q') \<and> pager_lookup q' n = Some g \<and> 0 < pnRef g \<and>
    (n \<le> length (current (snd (store_run ops (fresh_store B)))) \<longrightarrow> pdata g = current (snd (store_run ops (fresh_store B))) ! (n - 1)) \<and>
    (\<forall>k. k \<noteq> n \<longrightarrow> in_use q' k = in_use q k)"
proof -
  define s where "s = snd (store_run ops (fresh_store B))"
  have used: "\<exists>g. pager_lookup x n = Some g \<and> 0 < pnRef g \<and> pdata g = d" if "in_use x n = Some (d, b, k)" for x d b k
    using that by (auto simp: in_use_def split: option.splits if_splits)
  obtain C where "in_session C q s \<or> idle C q \<and> current s = pages_of C" using ran_models [OF assms(1-3)] by (auto simp: models_def s_def)
  then show ?thesis
  proof
    assume i: "in_session C q s"
    obtain rs where c: "inv C rs q" "views C q (current s)" using session_inv [OF i] by blast
    obtain q' where q': "sqlitepager_get n q = Some (SQLITE_OK, q')" "taken C n q q'" using get_quiet [OF c(1) n] by blast
    obtain d b k where u: "in_use q' n = Some (logical q' n, b, k)" using q'(2) by (auto simp: taken_def)
    have v: "views C q' (current s)" by (rule views_same [OF _ c(2)]) (use q'(2) in \<open>simp add: taken_def\<close>)
    have "n \<le> length (current s) \<longrightarrow> logical q' n = current s ! (n - 1)" using v n(1) by (simp add: views_def)
    then show ?thesis using q' used [OF u] unfolding s_def [symmetric] by (auto simp: taken_def)
  next
    assume i: "idle C q \<and> current s = pages_of C"
    obtain q' where q': "sqlitepager_get n q = Some (SQLITE_OK, q')" "starts C n q'" using get_first i n by blast
    have "in_use q k = None" for k using i by (simp add: in_use_def idle_def pager_lookup_def)
    then show ?thesis using q' used [of q' "page_at C n" False 1] i n(1) unfolding s_def [symmetric] by (auto simp: starts_def)
  qed
qed

theorem get_reads_page_witness:
  "\<exists>q' g. sqlitepager_get 1 (sample_pager (sample_page 5)) = Some (SQLITE_OK, q') \<and> pager_lookup q' 1 = Some g \<and> pdata g = sample_page 5"
proof -
  have r: "has_room 1 (sample_pager B)" for B by (simp add: has_room_def sample_pager_def new_pager_def)
  have p: "pages_of (sample_page 5) = [sample_page 5]"
    using page_slice [of 1 "sample_page 5"] by (simp add: pages_of_def sample_file(4)) (simp add: sample_page_def)
  show ?thesis
    using get_reads_page [OF sample_fresh [OF sample_file(2)], of "[]" 5 "[]" "sample_pager (sample_page 5)" 1] r
    by (auto simp: SQLITE_MAX_PAGE_def fresh_store_def p)
qed

text \<open>C10: With pages in use, getting a page ends in a failed assertion exactly if there is no room: the page
  is not in memory, the memory is used up, no free page is known to be synced and the transaction
  has changed nothing.\<close>

theorem get_without_room:
  assumes "fresh B p" "legal ops p (fresh_store B)" "run ops p = Some (rcs, q)" "pins (snd (store_run ops (fresh_store B))) \<noteq> {#}"
    and n: "0 < n" "n \<le> SQLITE_MAX_PAGE"
  shows "sqlitepager_get n q = None \<longleftrightarrow> \<not> has_room n q"
proof -
  obtain C rs where "inv C rs q" using ran_session [OF assms(1-4)] by (auto simp: in_session_def)
  then show ?thesis using get_no_room [of C rs q n] get_quiet [of C rs q n] n by (cases "has_room n q") auto
qed

theorem get_without_room_witness: "\<exists>rcs q. run sample_ops (sample_pager []) = Some (rcs, q) \<and> (sqlitepager_get 2 q = None \<longleftrightarrow> \<not> has_room 2 q)"
proof -
  obtain rcs q where q: "run sample_ops (sample_pager []) = Some (rcs, q)" using sample_run .
  have "pins (snd (store_run sample_ops (fresh_store []))) \<noteq> {#}" unfolding sample_store by simp
  then show ?thesis
    using get_without_room [OF sample_fresh [OF sample_file(1)] sample_legal q, of 2] q by (auto simp: SQLITE_MAX_PAGE_def)
qed

section \<open>A full disk\<close>

text \<open>C8: In a transaction in which no page but page 1 is in use and page 1, which the file has, is not
  yet in the journal: if the disk has no room for its record, or for all of it, the write reports
  \<open>SQLITE_FULL\<close>, the whole transaction is rolled back, and the pager remembers the error. (With another
  page in use the playback fails its assertion that only page 1 is.)\<close>

theorem write_disk_full:
  assumes "fresh B p" "legal ops p (fresh_store B)" "run ops p = Some (rcs, q)"
    and w: "writing_on (snd (store_run ops (fresh_store B)))" "set_mset (pins (snd (store_run ops (fresh_store B)))) \<subseteq> {1}"
    and g: "pager_lookup q 1 = Some g" "0 < pnRef g" "\<not> inJournal g" "committed (snd (store_run ops (fresh_store B))) \<noteq> []"
    and k: "sqliteOsWrite ks (journal_record q g) (jfd q) = (rc, f, [])" "rc \<noteq> SQLITE_OK"
  shows "\<exists>q'. sqlitepager_write 1 (q\<lparr>outs := ks\<rparr>) = Some (SQLITE_FULL, raise PAGER_ERR_FULL q') \<and>
    models q' (store_op Rollback (snd (store_run ops (fresh_store B))))"
proof -
  define s where "s = snd (store_run ops (fresh_store B))"
  obtain C where i: "in_session C q s" using writing_session [OF ran_models [OF assms(1-3)] w(1)] unfolding s_def by blast
  obtain rs where c: "inv C rs q" "committed s = pages_of C" "writing_on s \<longleftrightarrow> state q = SQLITE_WRITELOCK" "Multiset.count (pins s) = refs q"
    using session_inv [OF i] by blast
  have st: "state q = SQLITE_WRITELOCK" using c(3) w(1) by (simp add: s_def)
  have "npages C \<noteq> 0" using g(4) c(2) pages_of_simps(1) [of C] unfolding s_def [symmetric] by (metis length_0_conv)
  then have n: "1 \<le> npages C" by simp
  obtain q' where q': "sqlitepager_write 1 (q\<lparr>outs := ks\<rparr>) = Some (SQLITE_FULL, raise PAGER_ERR_FULL q')" "inv C [] q'" "state q' = SQLITE_READLOCK" "refs q' = refs q"
    using write_full [OF c(1) st g(1-3) n pins_usable [OF c(1,4)] k] w(2) unfolding s_def [symmetric] by blast
  have "models q' (store_op Rollback s)"
    by (rule in_sessionI [OF q'(2)]) (use c q' read_views [OF q'(2,3)] in simp_all)
  then show ?thesis using q'(1) unfolding s_def by blast
qed

lemma sample_begin:
  "\<exists>q g. run [Get 1, Begin 1] (sample_pager (sample_page 5)) = Some ([SQLITE_OK, SQLITE_OK], q) \<and> legal [Get 1, Begin 1] (sample_pager (sample_page 5)) (fresh_store (sample_page 5)) \<and>
     pager_lookup q 1 = Some g \<and> 0 < pnRef g \<and> \<not> inJournal g \<and> journal_record q g \<noteq> []"
proof -
  let ?p = "sample_pager (sample_page 5)"
  have i: "idle (sample_page 5) ?p" using fresh_idle [OF sample_fresh [OF sample_file(2)]] .
  obtain p1 where p1: "sqlitepager_get 1 ?p = Some (SQLITE_OK, p1)" "starts (sample_page 5) 1 p1"
    using get_first [OF i, of 1] by (auto simp: SQLITE_MAX_PAGE_def)
  obtain g where g: "pager_lookup p1 1 = Some g" "0 < pnRef g" using p1(2) by (auto simp: starts_def in_use_def split: option.splits if_splits)
  obtain q where q: "sqlitepager_begin 1 p1 = Some (SQLITE_OK, q)" "inv (sample_page 5) [] q" "pager_lookup q = pager_lookup p1"
    using begin_quiet [OF _ g] p1(2) unfolding starts_def by blast
  have nj: "\<not> inJournal g" using invD(7) [OF q(2)] q(3) g(1) by simp
  have r: "has_room 1 ?p" by (simp add: has_room_def sample_pager_def new_pager_def)
  have "legal [Get 1, Begin 1] ?p (fresh_store (sample_page 5))"
    by (intro legal_step [OF fresh_models [OF sample_fresh [OF sample_file(2)]]] legal_step legal.simps(1) [THEN iffD2] TrueI)
       (use r in \<open>simp_all add: fresh_store_def SQLITE_MAX_PAGE_def\<close>)
  moreover have "journal_record q g \<noteq> []" using journal_record_eq [of g q] cache_page [OF invD(3) [OF q(2)], of 1 g] q(3) g(1) by (simp add: jrec_def be32_def)
  ultimately show ?thesis using p1(1) q(1,3) g nj by simp
qed

theorem write_disk_full_witness:
  "\<exists>q q'. run [Get 1, Begin 1] (sample_pager (sample_page 5)) = Some ([SQLITE_OK, SQLITE_OK], q) \<and>
     sqlitepager_write 1 (q\<lparr>outs := [Refused]\<rparr>) = Some (SQLITE_FULL, raise PAGER_ERR_FULL q')"
proof -
  obtain q g where q: "run [Get 1, Begin 1] (sample_pager (sample_page 5)) = Some ([SQLITE_OK, SQLITE_OK], q)"
    "legal [Get 1, Begin 1] (sample_pager (sample_page 5)) (fresh_store (sample_page 5))"
    "pager_lookup q 1 = Some g" "0 < pnRef g" "\<not> inJournal g" "journal_record q g \<noteq> []" using sample_begin by blast
  have k: "sqliteOsWrite [Refused] (journal_record q g) (jfd q) = (SQLITE_FULL, jfd q, [])"
    using q(6) by (cases "journal_record q g") (simp_all add: sqliteOsWrite_def)
  have "length (committed (fresh_store (sample_page 5))) = 1" by (simp add: fresh_store_def sample_file(4))
  then have c: "committed (fresh_store (sample_page 5)) \<noteq> []" by auto
  show ?thesis
    using write_disk_full [OF sample_fresh [OF sample_file(2)] q(2,1) _ _ q(3-5) _ k] q(1) c by (auto simp: fresh_store_def)
qed

section \<open>Records of the journal\<close>

text \<open>C11: The record that a write puts into the journal for a page of the database is read back as the
  page: with a kernel that refuses nothing and no other page than page 1 in use, playing it writes the
  page into the file, changes no other page, and ends at the end of the record.\<close>

theorem journal_record_roundtrip:
  assumes "outs p = []" "usable p" "0 < pgno g" "int (pgno g) \<le> dbSize p" "dbSize p < 2 ^ 31" "length (pdata g) = SQLITE_PAGE_SIZE"
    and "fbytes (jfd p) = a @ journal_record p g @ z" "fpos (jfd p) = length a"
  shows "\<exists>p'. pager_playback_one_page JFD 3 p = Some (SQLITE_OK, p') \<and> page_at (fbytes (fd p')) (pgno g) = pdata g \<and>
    (\<forall>m > 0. m \<noteq> pgno g \<longrightarrow> page_at (fbytes (fd p')) m = page_at (fbytes (fd p)) m) \<and> fpos (jfd p') = length (a @ journal_record p g)"
proof -
  have r: "journal_record p g = jrec 3 (cksumInit p) (pgno g, pdata g)" by (rule journal_record_eq [OF assms(6)])
  have "pager_playback_one_page JFD 3 p = Some (SQLITE_OK, on_page (pgno g) (clean_page (pdata g)) (put_page (pgno g) (pdata g) (set_jpos JFD (length a + JOURNAL_PG_SZ 3) p)))"
    by (rule one_page) (use assms r in simp_all)
  moreover have "length (journal_record p g) = JOURNAL_PG_SZ 3" unfolding r using jrec_length assms(6) by simp
  ultimately show ?thesis using page_put_at [OF assms(6,3)] assms(3) by (simp add: put_page_def)
qed

theorem journal_record_roundtrip_witness:
  "\<exists>p' g. pdata g = sample_page 3 \<and> pgno g = 1 \<and> pager_playback_one_page JFD 3 ((sample_pager [])\<lparr>dbSize := 1, jfd := \<lparr>fbytes = journal_record (sample_pager []) g, fpos = 0\<rparr>\<rparr>) = Some (SQLITE_OK, p') \<and>
     page_at (fbytes (fd p')) 1 = sample_page 3"
proof -
  define g where "g = \<lparr>pgno = 1, pdata = sample_page 3, pextra = [], pnRef = 0, inJournal = False, inCkpt = False, dirty = False, pneedSync = False, palwaysRollback = False\<rparr>"
  let ?p = "(sample_pager [])\<lparr>dbSize := 1, jfd := \<lparr>fbytes = journal_record (sample_pager []) g, fpos = 0\<rparr>\<rparr>"
  have s: "outs ?p = []" "usable ?p" "journal_record ?p g = journal_record (sample_pager []) g"
    by (simp_all add: sample_pager_def new_pager_def usable_def journal_record_def pager_cksum_def)
  have g: "pgno g = 1" "pdata g = sample_page 3" by (simp_all add: g_def)
  have "\<exists>p'. pager_playback_one_page JFD 3 ?p = Some (SQLITE_OK, p') \<and> page_at (fbytes (fd p')) (pgno g) = pdata g \<and>
    (\<forall>m > 0. m \<noteq> pgno g \<longrightarrow> page_at (fbytes (fd p')) m = page_at (fbytes (fd ?p)) m) \<and> fpos (jfd p') = length ([] @ journal_record ?p g)"
    by (rule journal_record_roundtrip [where z = "[]"]) (use s g in \<open>simp_all add: sample_page_def\<close>)
  then show ?thesis using g by auto
qed

end
