(* ===== verification/Spec2Isabelle.thy ===== *)
theory Spec2Isabelle
  imports Encode Md5 GlobProps Prng RbProps HashProps TokProps OsProps PgProps
begin

text \<open>
  A model of the C code at the core of the AbanQ engine (\<^verbatim>\<open>src/engine/src\<close>): the storage
  and text layers of its embedded SQLite 2 (\<^verbatim>\<open>sqlite/\<close>), on which the C++ classes of the
  engine keep their metadata and caches, and the message digest of its mailer
  (\<^verbatim>\<open>flmail/md5.c\<close>). The C++ classes, the widgets and the vendored libraries are not modelled.

  The theories, by the code they model:

  \<^item> \<open>Prelude\<close>: words, C strings as lists of characters before the terminator, \<open>strcmp\<close> and
    \<open>memcmp\<close>. A read outside a string or an array is \<open>None\<close> wherever a component can make one.
  \<^item> \<open>Encode\<close> (\<^verbatim>\<open>sqlite/encode.c\<close>): binary data as text without NUL and quote, and back.
    Lemmas: the round trip, the forbidden characters, the length of the result.
  \<^item> \<open>Md5\<close> (\<^verbatim>\<open>flmail/md5.c\<close>): the digest over 32-bit words. Lemmas: the chunks in which
    data arrive do not matter, and the padding ends on a block. A chunk whose number of bits overflows an
    \<^verbatim>\<open>int\<close> (from \<open>2 ^ 28\<close> bytes on) is \<open>None\<close>.
  \<^item> \<open>Util\<close> (\<^verbatim>\<open>sqlite/util.c\<close>): dequoting, case folding, numbers and their comparison, sort keys,
    and the misuse checks of the handle. The floating point operations of \<^verbatim>\<open>sqliteAtoF\<close> are
    arguments; its exponent is an \<^verbatim>\<open>int\<close> and wraps around (\<open>atof_wraps\<close>).
  \<^item> \<open>Pattern\<close>, \<open>GlobProps\<close> (\<^verbatim>\<open>sqlite/util.c\<close>): UTF-8 and the matching of \<^verbatim>\<open>LIKE\<close> and
    \<^verbatim>\<open>GLOB\<close>. \<open>Pattern\<close> has the code and declarative matchers over bytes, \<open>GlobProps\<close> a
    specification of \<^verbatim>\<open>GLOB\<close> over lists of code points, bracket classes included, and the
    property that the code decides it for text in UTF-8.
  \<^item> \<open>Prng\<close> (\<^verbatim>\<open>sqlite/random.c\<close>): the RC4 generator; its state stays a permutation.
  \<^item> \<open>RbTree\<close>, \<open>RbBalance\<close>, \<open>RbDelete\<close>, \<open>RbWalk\<close>, \<open>RbDb\<close>, \<open>RbInv\<close>, \<open>RbCursor\<close>,
    \<open>RbUpdate\<close>, \<open>RbErase\<close>, \<open>RbTrans\<close>, \<open>RbSession\<close>, \<open>RbProps\<close>
    (\<^verbatim>\<open>sqlite/btree_rb.c\<close>): the in-memory database. The heap maps addresses to nodes with parent
    links; the database record holds the tables, the cursors, the two rollback lists, the transaction
    state and the outcomes of the next allocations. \<open>RbTree\<close> to \<open>RbDb\<close> hold the operations and the
    shape invariants of the rebalancing, \<open>RbInv\<close> the invariant of a database (every table a
    red-black search tree, every cursor on a node of its table, the rollback lists able to undo),
    \<open>RbCursor\<close> to \<open>RbTrans\<close> one result lemma per operation, \<open>RbSession\<close> the step relation of a
    client and \<open>RbProps\<close> the properties of reachable databases.
  \<^item> \<open>Hash\<close>, \<open>HashInv\<close>, \<open>HashProps\<close> (\<^verbatim>\<open>sqlite/hash.c\<close>): the hash tables, as elements in a
    heap on one doubly linked list in which the elements of a bucket are neighbours, with a failing
    allocator. The invariant is a list of groups, one per bucket in use.
  \<^item> \<open>Tokenize\<close>, \<open>TokProps\<close> (\<^verbatim>\<open>sqlite/tokenize.c\<close>): the keyword table, the length and
    class of the next token, the loop that feeds the parser and the test for a complete statement. The
    parser that \<^verbatim>\<open>lemon\<close> generates, the interrupt flag and the progress of the caller are
    arguments. Lemmas: the keyword chains find every keyword, the tokens split the text and lose no
    character, a quoted string is one token, what the parser is called with, and how
    \<^verbatim>\<open>sqlite_complete\<close> judges a text that grows line by line.
  \<^item> \<open>OsUnix\<close>, \<open>OsInv\<close>, \<open>OsOps\<close>, \<open>OsFiles\<close>, \<open>OsOpen\<close>, \<open>OsProps\<close>
    (\<^verbatim>\<open>sqlite/os.c\<close> under Unix): the work-around for POSIX file locks. The state holds the
    handles, the records \<^verbatim>\<open>lockInfo\<close> and \<^verbatim>\<open>openCnt\<close>, the two hash tables of
    \<open>Hash\<close> that find them and a kernel with descriptors and locks; what the kernel finds and refuses is
    an argument of each call. \<open>OsInv\<close> has the invariant, the locale \<open>hash_index\<close> (a table of records
    found by key) and its two interpretations, \<open>OsOps\<close>, \<open>OsFiles\<close> and \<open>OsOpen\<close> one result lemma
    per operation, \<open>OsProps\<close> the refinement of a readers-writer lock by the reachable states.
  \<^item> \<open>Files\<close> (reading and writing in \<^verbatim>\<open>sqlite/os.c\<close>), \<open>Pager\<close> (\<^verbatim>\<open>sqlite/pager.c\<close>):
    the page cache with its rollback journal and checkpoint journal. The record \<open>pager\<close> has the fields of
    the struct and the files it has open, as bytes with a position; pages are known by number, so that
    hash chains are lookups and linked lists are lists. A list in the record gives the outcomes of the next
    calls of the kernel and the allocator (done, in part, refused; used up means done). \<open>None\<close> is a
    failed assertion, a bit outside an array or a page that is gone. All operations are defined in full but for
    the destructor, the codec and the hit counters.
    \<open>PgFormat\<close> has the bytes of the journals and their playback, \<open>PgCache\<close> the pages in
    memory, \<open>PgInv\<close> the invariant of a pager (the relation of pages in memory, database file and
    journal to the last committed content), \<open>PgEnd\<close>, \<open>PgRefs\<close>, \<open>PgGet\<close> and \<open>PgWrite\<close> one
    result lemma per operation (the end of a transaction, references, getting a page, beginning and
    writing), \<open>PgCrash\<close> what a process that dies leaves and what the next one finds, \<open>PgRun\<close> the
    abstract store of pages and its simulation by sequences of calls, \<open>PgFail\<close> a full disk and a
    full memory, and \<open>PgProps\<close> the properties of sessions that begin with \<^verbatim>\<open>sqlitepager_open\<close>.
    The invariant assumes a kernel that refuses nothing (\<open>sess\<close>); the obligations of a client
    are in \<open>allowed\<close>: a page must be in use to be changed, a rollback needs that no page but page 1 is in
    use, a page is asked for only if there is room for it. The rollback of a checkpoint,
    truncation, overwriting, the calls that exempt pages and those that change settings are modelled
    and are not steps of the refinement.
  \<^item> \<open>Store\<close>: the locales \<open>store\<close> and \<open>map_store\<close>, the contract of a keyed store, interpreted by
    the tables of \<open>RbProps\<close> and by the hash tables of \<open>HashProps\<close>: a script of stores and removals
    does to the store what it does to a finite map. The locale \<open>hash_class\<close> of \<open>Hash\<close> is the contract
    of a comparison and its hash, interpreted by the three key classes.

  Bounds and loops. Loops that follow pointers are partial functions into \<open>option\<close>, so that not
  ending is \<open>None\<close>, as a bad access and a failed assertion are; the properties show \<open>Some\<close> for
  reachable states, and so termination as well. Fuel is used in two loops of the code: \<open>close_tables\<close> of
  \<open>RbDb\<close> has the number of tables, of which every round removes one (\<open>rbt_close\<close> shows that none
  is left), and \<open>close_pending\<close> of \<open>OsUnix\<close> the counter \<^verbatim>\<open>nPending\<close>, which is the bound
  of the \<^verbatim>\<open>for\<close> loop it stands for. The definitions that only the properties use (\<open>scan\<close>,
  \<open>hash_entries\<close>, \<open>depth\<close>) have fuel too, where the number of entries is enough. Counters that
  the code keeps in an \<^verbatim>\<open>int\<close> and that count objects in memory are unbounded here.

  Not modelled: the file format of SQLite (\<^verbatim>\<open>btree.c\<close>), the
  Windows and MacOS halves of its operating system layer, its generated parser, its code generator and its
  virtual machine; the C++ engine, whose state lives in Qt
  objects and the database server; and the libraries kept in the tree (Qt, libxml2, openssl,
  libdigidoc's generated SOAP code).
\<close>

end
